(* ===== verification/MP_Prelude.thy ===== *)
theory MP_Prelude
  imports Main "HOL-Library.Word" "HOL-Library.Monad_Syntax" "HOL-Library.Char_ord" "HOL-Library.Code_Target_Numeral"
begin

text \<open>
  The prelude of the mplayer2 development: the automation collections, the generic
  lemmas on lists and option computations the components share, and the part of the C
  standard library the modelled sources call (character classes, \<open>memcmp\<close>,
  \<open>strncasecmp\<close>, \<open>strtoll\<close>), written for the C locale.

  Conventions. A C string or a byte buffer that is text is an Isabelle \<open>string\<close> (one
  \<open>char\<close> per byte); the terminating NUL is not part of the list. A C \<open>int\<close> whose
  wrap-around plays no role is an \<open>int\<close> or \<open>nat\<close>; where the width matters it is
  a word. A computation that can run into an assertion, an invalid pointer or an array
  overrun is an \<open>option\<close>, with \<open>None\<close> for "does not return normally".
\<close>

named_theorems mp_simps \<open>characteristic equations of the modelled operations\<close>
named_theorems mp_inv \<open>preservation of the components' invariants\<close>

subsection \<open>Lists and options\<close>

lemma bind_eq_SomeE:
  assumes "Option.bind m f = Some y"
  obtains x where "m = Some x" and "f x = Some y"
  using assms by (cases m) auto

lemma takeWhile_all: "(\<And>x. x \<in> set xs \<Longrightarrow> P x) \<Longrightarrow> takeWhile P xs = xs"
  by (induction xs) auto

lemma dropWhile_none: "(\<And>x. x \<in> set xs \<Longrightarrow> P x) \<Longrightarrow> dropWhile P xs = []"
  by (induction xs) auto

lemma length_takeWhile_append_hit:
  "(\<And>x. x \<in> set xs \<Longrightarrow> P x) \<Longrightarrow> \<not> P y \<Longrightarrow> length (takeWhile P (xs @ y # ys)) = length xs"
  by (induction xs) auto

lemma take_length_takeWhile [simp]: "take (length (takeWhile P xs)) xs = takeWhile P xs"
  by (metis takeWhile_eq_take)

lemma drop_length_takeWhile [simp]: "drop (length (takeWhile P xs)) xs = dropWhile P xs"
  by (metis dropWhile_eq_drop)

text \<open>The index of the first element satisfying a predicate, or the length.\<close>

definition first_index :: "('a \<Rightarrow> bool) \<Rightarrow> 'a list \<Rightarrow> nat" where
  "first_index P xs = length (takeWhile (\<lambda>x. \<not> P x) xs)"

lemma first_index_le: "first_index P xs \<le> length xs"
  unfolding first_index_def by (rule length_takeWhile_le)

lemma first_index_less_iff: "first_index P xs < length xs \<longleftrightarrow> (\<exists>x\<in>set xs. P x)"
proof
  assume "first_index P xs < length xs"
  then show "\<exists>x\<in>set xs. P x"
    unfolding first_index_def by (metis less_irrefl takeWhile_eq_all_conv)
next
  assume "\<exists>x\<in>set xs. P x"
  then show "first_index P xs < length xs"
    unfolding first_index_def by (induction xs) auto
qed

lemma first_index_nth: "first_index P xs < length xs \<Longrightarrow> P (xs ! first_index P xs)"
  unfolding first_index_def using nth_length_takeWhile by fastforce

lemma first_index_before: "i < first_index P xs \<Longrightarrow> \<not> P (xs ! i)"
  unfolding first_index_def using nth_mem set_takeWhileD takeWhile_nth by metis

lemma first_index_append_hit: "(\<And>x. x \<in> set xs \<Longrightarrow> \<not> P x) \<Longrightarrow> P y \<Longrightarrow> first_index P (xs @ y # ys) = length xs"
  unfolding first_index_def by (rule length_takeWhile_append_hit) auto

text \<open>Removing the element at an index, as the \<open>memmove\<close> idiom of the sources does.\<close>

definition remove_nth :: "nat \<Rightarrow> 'a list \<Rightarrow> 'a list" where
  "remove_nth i xs = take i xs @ drop (Suc i) xs"

lemma length_remove_nth [simp]: "i < length xs \<Longrightarrow> length (remove_nth i xs) = length xs - 1"
  by (auto simp: remove_nth_def)

lemma set_remove_nth_subset: "set (remove_nth i xs) \<subseteq> set xs"
  by (auto simp: remove_nth_def dest: in_set_takeD in_set_dropD)

lemma distinct_remove_nth [intro]:
  assumes "distinct xs" shows "distinct (remove_nth i xs)"
proof (cases "i < length xs")
  case True
  then have "xs = take i xs @ xs ! i # drop (Suc i) xs"
    by (simp add: id_take_nth_drop)
  then have "distinct (take i xs @ xs ! i # drop (Suc i) xs)"
    using assms by simp
  then show ?thesis by (auto simp: remove_nth_def)
next
  case False
  then show ?thesis using assms by (simp add: remove_nth_def)
qed

lemma set_remove_nth:
  assumes "distinct xs" and "i < length xs"
  shows "set (remove_nth i xs) = set xs - {xs ! i}"
proof -
  have "xs = take i xs @ xs ! i # drop (Suc i) xs"
    using assms(2) by (simp add: id_take_nth_drop)
  then have d: "distinct (take i xs @ xs ! i # drop (Suc i) xs)"
    and s: "set xs = set (take i xs) \<union> {xs ! i} \<union> set (drop (Suc i) xs)"
    using assms(1) by (simp, metis list.simps(15) set_append sup_assoc insert_is_Un)
  then show ?thesis by (auto simp: remove_nth_def)
qed

lemma remove_nth_append [simp]: "remove_nth (length xs) (xs @ [y]) = xs"
  by (simp add: remove_nth_def)

subsection \<open>Characters\<close>

abbreviation NUL :: char where "NUL \<equiv> CHR 0x00"
abbreviation LF :: char where "LF \<equiv> CHR 0x0A"
abbreviation CR :: char where "CR \<equiv> CHR 0x0D"
abbreviation TAB :: char where "TAB \<equiv> CHR 0x09"

definition byte :: "char \<Rightarrow> nat" where
  "byte c = of_char c"

lemma byte_less_256 [simp]: "byte c < 256"
  using range_nat_of_char by (auto simp: byte_def)

lemma byte_inject [simp]: "byte c = byte d \<longleftrightarrow> c = d"
  by (simp add: byte_def)

lemma byte_char_of [simp]: "n < 256 \<Longrightarrow> byte (char_of n) = n"
  by (simp add: byte_def)

lemma char_of_byte [simp]: "char_of (byte c) = c"
  by (simp add: byte_def)

text \<open>\<open>isspace\<close>, \<open>tolower\<close> and \<open>isdigit\<close> in the C locale.\<close>

definition c_isspace :: "char \<Rightarrow> bool" where
  "c_isspace c = (byte c = 32 \<or> (9 \<le> byte c \<and> byte c \<le> 13))"

definition c_isdigit :: "char \<Rightarrow> bool" where
  "c_isdigit c = (48 \<le> byte c \<and> byte c \<le> 57)"

definition c_tolower :: "char \<Rightarrow> char" where
  "c_tolower c = (if 65 \<le> byte c \<and> byte c \<le> 90 then char_of (byte c + 32) else c)"

lemma byte_c_tolower: "byte (c_tolower c) = (if 65 \<le> byte c \<and> byte c \<le> 90 then byte c + 32 else byte c)"
  by (simp add: c_tolower_def)

lemma c_tolower_idem [simp]: "c_tolower (c_tolower c) = c_tolower c"
proof -
  have "byte (c_tolower (c_tolower c)) = byte (c_tolower c)"
    by (simp add: byte_c_tolower)
  then show ?thesis by simp
qed

lemma c_tolower_NUL_iff [simp]: "c_tolower c = NUL \<longleftrightarrow> c = NUL"
proof -
  have "c_tolower c = NUL \<longleftrightarrow> byte (c_tolower c) = byte NUL" by simp
  also have "\<dots> \<longleftrightarrow> byte c = byte NUL"
    by (simp add: byte_c_tolower) (auto simp: byte_def)
  finally show ?thesis by simp
qed

text \<open>
  \<open>strchr (set, c)\<close> finds the terminator too, so a NUL byte is a member of every C
  string used as a character set.
\<close>

definition in_cset :: "string \<Rightarrow> char \<Rightarrow> bool" where
  "in_cset cs c = (c = NUL \<or> c \<in> set cs)"

subsection \<open>Comparison functions\<close>

text \<open>
  \<open>memcmp\<close> and \<open>strncasecmp\<close> promise only the sign of their result, so the models
  return a sign. Both are used on buffers cut to a common length.
\<close>

fun c_memcmp :: "string \<Rightarrow> string \<Rightarrow> int" where
  "c_memcmp (x # xs) (y # ys) =
     (if x = y then c_memcmp xs ys else if byte x < byte y then -1 else 1)"
| "c_memcmp _ _ = 0"

text \<open>\<open>strncasecmp\<close> compares up to the length and stops where both have a NUL.\<close>

fun c_strncasecmp :: "string \<Rightarrow> string \<Rightarrow> int" where
  "c_strncasecmp (x # xs) (y # ys) =
     (if c_tolower x \<noteq> c_tolower y
      then (if byte (c_tolower x) < byte (c_tolower y) then -1 else 1)
      else if x = NUL then 0
      else c_strncasecmp xs ys)"
| "c_strncasecmp _ _ = 0"

lemma c_memcmp_0_iff: "length xs = length ys \<Longrightarrow> c_memcmp xs ys = 0 \<longleftrightarrow> xs = ys"
  by (induction xs ys rule: list_induct2) auto

lemma c_memcmp_antisym: "c_memcmp ys xs = - c_memcmp xs ys"
proof (induction xs ys rule: c_memcmp.induct)
  case (1 x xs y ys)
  have "byte x = byte y \<Longrightarrow> x = y" by simp
  with 1 show ?case by (auto simp: not_less_iff_gr_or_eq)
qed auto

lemma c_strncasecmp_0_iff:
  assumes "length xs = length ys" and "NUL \<notin> set xs"
  shows "c_strncasecmp xs ys = 0 \<longleftrightarrow> map c_tolower xs = map c_tolower ys"
  using assms by (induction xs ys rule: list_induct2) auto

subsection \<open>Numbers: \<open>strtoll\<close>\<close>

definition digit_val :: "char \<Rightarrow> nat option" where
  "digit_val c =
     (let b = byte c in
      if 48 \<le> b \<and> b \<le> 57 then Some (b - 48)
      else if 97 \<le> b \<and> b \<le> 122 then Some (b - 87)
      else if 65 \<le> b \<and> b \<le> 90 then Some (b - 55)
      else None)"

definition is_digit_in :: "nat \<Rightarrow> char \<Rightarrow> bool" where
  "is_digit_in base c = (case digit_val c of None \<Rightarrow> False | Some d \<Rightarrow> d < base)"

definition digits_value :: "nat \<Rightarrow> string \<Rightarrow> nat" where
  "digits_value base cs = foldl (\<lambda>acc c. base * acc + (case digit_val c of None \<Rightarrow> 0 | Some d \<Rightarrow> d)) 0 cs"

text \<open>
  \<open>strtoll (s, &end, base)\<close> for \<open>base\<close> 0, 8, 10 or 16: white space, an optional sign,
  a prefix for bases 0 and 16, the longest run of digits; the value is clamped to the
  range of \<open>long long\<close>. The result is the value and the number of bytes consumed (0
  when there is no digit).
\<close>

definition LLONG_MAX :: int where "LLONG_MAX = 2 ^ 63 - 1"
definition LLONG_MIN :: int where "LLONG_MIN = - (2 ^ 63)"

definition has_hex_prefix :: "string \<Rightarrow> bool" where
  "has_hex_prefix s = (case s of
     c0 # c1 # c2 # _ \<Rightarrow> c0 = CHR ''0'' \<and> c_tolower c1 = CHR ''x'' \<and> is_digit_in 16 c2
   | _ \<Rightarrow> False)"

definition c_strtoll :: "nat \<Rightarrow> string \<Rightarrow> int \<times> nat" where
  "c_strtoll base s =
     (let ws = takeWhile c_isspace s;
          s1 = drop (length ws) s;
          neg = (case s1 of c # _ \<Rightarrow> c = CHR ''-'' | [] \<Rightarrow> False);
          sgnlen = (case s1 of c # _ \<Rightarrow> if c = CHR ''-'' \<or> c = CHR ''+'' then 1 else 0 | [] \<Rightarrow> (0::nat));
          s2 = drop sgnlen s1;
          hex = ((base = 0 \<or> base = 16) \<and> has_hex_prefix s2);
          b = (if hex then 16
               else if base = 0 then (case s2 of c # _ \<Rightarrow> if c = CHR ''0'' then 8 else 10 | [] \<Rightarrow> 10)
               else base);
          prelen = (if hex then 2 else 0);
          ds = takeWhile (is_digit_in b) (drop prelen s2);
          v = int (digits_value b ds)
      in if ds = [] then (0, 0)
         else (if neg then max LLONG_MIN (- v) else min LLONG_MAX v,
               length ws + sgnlen + prelen + length ds))"

lemma c_strtoll_consumed: "snd (c_strtoll base s) \<le> length s"
proof -
  define ws where "ws = takeWhile c_isspace s"
  define s1 where "s1 = drop (length ws) s"
  have 1: "length s = length ws + length s1"
    unfolding s1_def using length_takeWhile_le [of c_isspace s] by (simp add: ws_def del: drop_length_takeWhile)
  define n :: nat where "n = (case s1 of c # _ \<Rightarrow> if c = CHR ''-'' \<or> c = CHR ''+'' then 1 else 0 | [] \<Rightarrow> 0)"
  define s2 where "s2 = drop n s1"
  have 2: "length s1 = n + length s2"
    unfolding s2_def n_def by (cases s1) auto
  have 3: "has_hex_prefix s2 \<Longrightarrow> 2 \<le> length s2"
    by (auto simp: has_hex_prefix_def split: list.splits)
  have 4: "length (takeWhile P s2) \<le> length s2" for P
    by (rule length_takeWhile_le)
  have 5: "Suc (Suc (length (takeWhile P (drop 2 s2)))) \<le> length s2" if "2 \<le> length s2" for P
    using length_takeWhile_le [of P "drop 2 s2"] that by simp
  from 1 2 3 4 5 show ?thesis
    unfolding c_strtoll_def Let_def ws_def [symmetric] s1_def [symmetric] n_def [symmetric] s2_def [symmetric]
    by auto
qed

text \<open>The conversion C makes when a wider value is stored in an \<open>int\<close>.\<close>

definition c_int :: "int \<Rightarrow> int" where
  "c_int x = (x + 2 ^ 31) mod 2 ^ 32 - 2 ^ 31"

lemma c_int_id [simp]: "- (2 ^ 31) \<le> x \<Longrightarrow> x < 2 ^ 31 \<Longrightarrow> c_int x = x"
  by (simp add: c_int_def)

text \<open>\<open>strcasecmp (s, t) == 0\<close> and \<open>strncasecmp (s, t, n) == 0\<close> on C strings.\<close>

definition c_strcaseeq :: "string \<Rightarrow> string \<Rightarrow> bool" where
  "c_strcaseeq s t \<longleftrightarrow> map c_tolower s = map c_tolower t"

definition c_strncaseeq :: "string \<Rightarrow> string \<Rightarrow> nat \<Rightarrow> bool" where
  "c_strncaseeq s t n \<longleftrightarrow> c_strcaseeq (take n s) (take n t)"

subsection \<open>Printing numbers\<close>

definition digit_char :: "nat \<Rightarrow> char" where
  "digit_char d = char_of (if d < 10 then 48 + d else 87 + d)"

fun print_nat :: "nat \<Rightarrow> nat \<Rightarrow> string" where
  "print_nat b n =
     (if b < 2 \<or> n < b then [digit_char n] else print_nat b (n div b) @ [digit_char (n mod b)])"

declare print_nat.simps [simp del]

text \<open>\<open>%d\<close>, and \<open>%#-8x\<close> (alternate form, left-justified in eight columns).\<close>

definition c_print_int :: "int \<Rightarrow> string" where
  "c_print_int i = (if i < 0 then CHR ''-'' # print_nat 10 (nat (- i)) else print_nat 10 (nat i))"

definition c_print_alt_hex8 :: "nat \<Rightarrow> string" where
  "c_print_alt_hex8 n =
     (let s = (if n = 0 then ''0'' else ''0x'' @ print_nat 16 n) in s @ replicate (8 - length s) CHR '' '')"

lemma digit_val_digit_char [simp]: "d < 36 \<Longrightarrow> digit_val (digit_char d) = Some d"
  by (auto simp: digit_val_def digit_char_def Let_def)

lemma is_digit_in_digit_char: "d < b \<Longrightarrow> b \<le> 36 \<Longrightarrow> is_digit_in b (digit_char d)"
  by (simp add: is_digit_in_def)

lemma print_nat_not_Nil [simp]: "print_nat b n \<noteq> []"
  by (subst print_nat.simps) simp

lemma print_nat_digits: "2 \<le> b \<Longrightarrow> b \<le> 36 \<Longrightarrow> \<forall>c\<in>set (print_nat b n). is_digit_in b c"
proof (induction b n rule: print_nat.induct)
  case (1 b n)
  show ?case
  proof (cases "n < b")
    case True
    then show ?thesis using 1 by (subst print_nat.simps) (simp add: is_digit_in_digit_char)
  next
    case False
    then have "\<not> (b < 2 \<or> n < b)" using 1 by simp
    with 1 show ?thesis by (subst print_nat.simps) (auto simp: is_digit_in_digit_char)
  qed
qed

lemma digits_value_snoc:
  "digits_value b (cs @ [c]) = b * digits_value b cs + (case digit_val c of None \<Rightarrow> 0 | Some d \<Rightarrow> d)"
  by (simp add: digits_value_def)

lemma digits_value_print_nat: "2 \<le> b \<Longrightarrow> b \<le> 36 \<Longrightarrow> digits_value b (print_nat b n) = n"
proof (induction b n rule: print_nat.induct)
  case (1 b n)
  show ?case
  proof (cases "n < b")
    case True
    then show ?thesis using 1 digits_value_snoc [of b "[]" "digit_char n"]
      by (subst print_nat.simps) (simp add: digits_value_def)
  next
    case False
    then have "\<not> (b < 2 \<or> n < b)" using 1 by simp
    moreover have "n mod b < 36"
      using 1(2,3) mod_less_divisor [of b n] by linarith
    ultimately show ?thesis using 1 by (subst print_nat.simps) (simp add: digits_value_snoc)
  qed
qed

lemma digit_not_space: "is_digit_in b c \<Longrightarrow> \<not> c_isspace c"
  by (auto simp: is_digit_in_def digit_val_def c_isspace_def Let_def split: if_splits option.splits)

lemma digit_not_sign: "is_digit_in b c \<Longrightarrow> c \<noteq> CHR ''-'' \<and> c \<noteq> CHR ''+''"
  by (auto simp: is_digit_in_def digit_val_def Let_def byte_def split: if_splits option.splits)

lemma takeWhile_digits:
  "2 \<le> b \<Longrightarrow> b \<le> 36 \<Longrightarrow> r = [] \<or> \<not> is_digit_in b (hd r) \<Longrightarrow>
   takeWhile (is_digit_in b) (print_nat b n @ r) = print_nat b n"
  using print_nat_digits [of b n] by (cases r) (auto simp: takeWhile_append)

lemma print_nat_Cons:
  assumes "2 \<le> b" and "b \<le> 36"
  obtains c cs where "print_nat b n = c # cs" and "is_digit_in b c"
  using print_nat_digits [OF assms, of n] by (cases "print_nat b n") auto

lemma c_strtoll_print_hex:
  assumes "int n \<le> LLONG_MAX" and "r = [] \<or> \<not> is_digit_in 16 (hd r)"
  shows "fst (c_strtoll 16 (''0x'' @ print_nat 16 n @ r)) = int n"
proof -
  obtain c cs where p: "print_nat 16 n = c # cs" and c: "is_digit_in 16 c"
    by (rule print_nat_Cons [of 16 n]) simp_all
  have "has_hex_prefix (''0x'' @ print_nat 16 n @ r)"
    using c by (simp add: has_hex_prefix_def p c_tolower_def byte_def)
  moreover have "takeWhile (is_digit_in 16) (print_nat 16 n @ r) = print_nat 16 n"
    by (rule takeWhile_digits) (use assms in simp_all)
  ultimately show ?thesis
    using assms(1) digits_value_print_nat [of 16 n]
    by (simp add: c_strtoll_def c_isspace_def byte_def)
qed

lemma c_strtoll_print_int:
  assumes "LLONG_MIN \<le> i" and "i \<le> LLONG_MAX" and "r = [] \<or> \<not> is_digit_in 10 (hd r)"
  shows "c_strtoll 10 (c_print_int i @ r) = (i, length (c_print_int i))"
proof -
  define n where "n = nat \<bar>i\<bar>"
  obtain c cs where p: "print_nat 10 n = c # cs" and c: "is_digit_in 10 c"
    by (rule print_nat_Cons [of 10 n]) simp_all
  note facts = digit_not_space [OF c] digit_not_sign [OF c]
  have t: "takeWhile (is_digit_in 10) (print_nat 10 n @ r) = print_nat 10 n"
    by (rule takeWhile_digits) (use assms in simp_all)
  have v: "digits_value 10 (print_nat 10 n) = n"
    by (rule digits_value_print_nat) simp_all
  show ?thesis
  proof (cases "i < 0")
    case True
    then have "c_print_int i = CHR ''-'' # print_nat 10 n"
      by (simp add: c_print_int_def n_def)
    with True assms t v show ?thesis
      by (simp add: c_strtoll_def c_isspace_def byte_def n_def LLONG_MIN_def)
  next
    case False
    then have e: "c_print_int i = print_nat 10 n"
      by (simp add: c_print_int_def n_def)
    have "c_strtoll 10 (print_nat 10 n @ r) = (min LLONG_MAX (int n), length (print_nat 10 n))"
      using facts t v by (simp add: c_strtoll_def p)
    with False assms show ?thesis by (simp add: e n_def)
  qed
qed

subsection \<open>Tables and bytes in memory\<close>

text \<open>An entry of a table or a byte of a buffer; \<open>None\<close> outside.\<close>

definition entry_at :: "'a list \<Rightarrow> int \<Rightarrow> 'a option" where
  "entry_at xs i = (if 0 \<le> i \<and> i < int (length xs) then Some (xs ! nat i) else None)"

definition byte_of :: "string \<Rightarrow> int \<Rightarrow> int option" where
  "byte_of buf i = map_option (\<lambda>c. int (byte c)) (entry_at buf i)"

lemma entry_atI: "0 \<le> i \<Longrightarrow> i < int (length xs) \<Longrightarrow> entry_at xs i = Some (xs ! nat i)"
  by (simp add: entry_at_def)

lemma byte_ofI: "0 \<le> i \<Longrightarrow> i < int (length buf) \<Longrightarrow> byte_of buf i = Some (int (byte (buf ! nat i)))"
  by (simp add: byte_of_def entry_at_def)

lemma entry_at_all: "entry_at xs i = Some x \<Longrightarrow> list_all P xs \<Longrightarrow> P x"
  by (auto simp: entry_at_def list_all_length split: if_splits)

lemma list_all_member: "list_all P xs \<Longrightarrow> x \<in> set xs \<Longrightarrow> P x"
  by (simp add: list_all_iff)

end
