(* ===== verification/Bstr.thy ===== *)
theory Bstr
  imports MP_Prelude "HOL-Library.List_Lexorder" "HOL-Library.Sublist"
begin

unbundle bit_operations_syntax

text \<open>
  Counted strings: \<open>bstr.c\<close> and the inline functions of \<open>bstr.h\<close>. A \<open>struct bstr\<close>
  is a pointer and a length; every function reads the bytes in that range and returns a
  sub-range, so the model of a \<open>struct bstr\<close> is the list of its bytes and a sub-range is
  a sub-list. Lengths fit in an \<open>int\<close>, as the note in \<open>bstr.h\<close> demands; where an
  \<open>int\<close> meets a \<open>size_t\<close> in a comparison the usual conversion to unsigned is written
  out. \<open>av_log2\<close> and \<open>PUT_UTF8\<close> belong to libavutil, which is not part of the
  repository: they are the fields of the record \<open>libav\<close>, and \<open>libav_ok\<close> states their
  documented behaviour.
\<close>

type_synonym bstr = string

subsection \<open>Cutting\<close>

text \<open>
  \<open>n > str.len\<close> compares an \<open>int\<close> with a \<open>size_t\<close>: a negative \<open>n\<close> is a huge
  unsigned number, so the whole string is cut away.
\<close>

definition size_t_gt :: "int \<Rightarrow> nat \<Rightarrow> bool" where
  "size_t_gt n len = (n < 0 \<or> int len < n)"

definition bstr_cut :: "bstr \<Rightarrow> int \<Rightarrow> bstr" where
  "bstr_cut s n = (let n = (if size_t_gt n (length s) then int (length s) else n) in drop (nat n) s)"

text \<open>
  \<open>bstr_splice\<close>. \<open>FFMIN (end, str.len)\<close> is again a comparison of an \<open>int\<close> with a
  \<open>size_t\<close>; the two \<open>FFMAX\<close> are between \<open>int\<close>s.
\<close>

definition bstr_splice :: "bstr \<Rightarrow> int \<Rightarrow> int \<Rightarrow> bstr" where
  "bstr_splice s start end =
     (let len = int (length s);
          start = (if start < 0 then start + len else start);
          end = (if end < 0 then end + len else end);
          end = (if size_t_gt end (length s) then len else end);
          start = max start 0;
          end = max end start
      in take (nat (end - start)) (drop (nat start) s))"

definition bstr_startswith :: "bstr \<Rightarrow> bstr \<Rightarrow> bool" where
  "bstr_startswith s pre =
     (if length s < length pre then False
      else c_memcmp (take (length pre) s) pre = 0)"

definition bstr_endswith :: "bstr \<Rightarrow> bstr \<Rightarrow> bool" where
  "bstr_endswith s suf =
     (if length s < length suf then False
      else c_memcmp (drop (length s - length suf) s) suf = 0)"

text \<open>\<open>bstr_eatstart\<close>: \<open>None\<close> is \<open>false\<close>, \<open>Some\<close> the rest stored through the pointer.\<close>

definition bstr_eatstart :: "bstr \<Rightarrow> bstr \<Rightarrow> bstr option" where
  "bstr_eatstart s pre =
     (if \<not> bstr_startswith s pre then None else Some (bstr_cut s (int (length pre))))"

subsection \<open>Comparison and search\<close>

definition bstr_len_cmp :: "nat \<Rightarrow> nat \<Rightarrow> int" where
  "bstr_len_cmp m n = (if m = n then 0 else if m > n then 1 else -1)"

definition bstrcmp :: "bstr \<Rightarrow> bstr \<Rightarrow> int" where
  "bstrcmp s t =
     (let n = min (length s) (length t); ret = c_memcmp (take n s) (take n t)
      in if ret = 0 then bstr_len_cmp (length s) (length t) else ret)"

definition bstrcasecmp :: "bstr \<Rightarrow> bstr \<Rightarrow> int" where
  "bstrcasecmp s t =
     (let n = min (length s) (length t); ret = c_strncasecmp (take n s) (take n t)
      in if ret = 0 then bstr_len_cmp (length s) (length t) else ret)"

definition bstrchr :: "bstr \<Rightarrow> char \<Rightarrow> int" where
  "bstrchr s c =
     (let i = first_index (\<lambda>x. x = c) s in if i < length s then int i else -1)"

definition bstrrchr :: "bstr \<Rightarrow> char \<Rightarrow> int" where
  "bstrrchr s c =
     (let i = first_index (\<lambda>x. x = c) (rev s)
      in if i < length s then int (length s) - 1 - int i else -1)"

definition bstrcspn :: "bstr \<Rightarrow> string \<Rightarrow> nat" where
  "bstrcspn s reject = first_index (in_cset reject) s"

fun bstr_find_from :: "bstr \<Rightarrow> bstr \<Rightarrow> nat \<Rightarrow> nat \<Rightarrow> int" where
  "bstr_find_from haystack needle i 0 = -1"
| "bstr_find_from haystack needle i (Suc k) =
     (if bstr_startswith (bstr_splice haystack (int i) (int (length haystack))) needle then int i
      else bstr_find_from haystack needle (Suc i) k)"

definition bstr_find :: "bstr \<Rightarrow> bstr \<Rightarrow> int" where
  "bstr_find haystack needle = bstr_find_from haystack needle 0 (length haystack)"

subsection \<open>Stripping and splitting\<close>

definition bstr_lstrip :: "bstr \<Rightarrow> bstr" where
  "bstr_lstrip s = dropWhile c_isspace s"

definition bstr_strip :: "bstr \<Rightarrow> bstr" where
  "bstr_strip s = rev (dropWhile c_isspace (rev (bstr_lstrip s)))"

definition bstr_split :: "bstr \<Rightarrow> string \<Rightarrow> bstr \<times> bstr" where
  "bstr_split s sep =
     (let start = first_index (\<lambda>c. \<not> in_cset sep c) s;
          s1 = bstr_cut s (int start);
          end = bstrcspn s1 sep
      in (bstr_splice s1 0 (int end), bstr_cut s1 (int end)))"

fun split_counted :: "nat \<Rightarrow> bstr \<Rightarrow> bstr list" where
  "split_counted 0 p = [p]"
| "split_counted (Suc k) p =
     (let n = Suc (first_index (\<lambda>c. c = LF) p) in take n p # split_counted k (drop n p))"

definition bstr_splitlines :: "bstr \<Rightarrow> bstr list" where
  "bstr_splitlines s =
     (if s = [] then []
      else let count = count_list s LF + (if last s \<noteq> LF then 1 else 0)
           in split_counted (count - 1) s)"

definition bstr_getline :: "bstr \<Rightarrow> bstr \<times> bstr" where
  "bstr_getline s =
     (let pos = bstrchr s LF; pos = (if pos < 0 then int (length s) else pos)
      in (bstr_splice s 0 (pos + 1), bstr_cut s (pos + 1)))"

definition bstr_lower :: "bstr \<Rightarrow> bstr" where
  "bstr_lower s = map c_tolower s"

subsection \<open>Numbers\<close>

text \<open>At most 50 (100) bytes are copied to a NUL-terminated buffer for \<open>strtoll\<close> (\<open>strtod\<close>).\<close>

definition bstrtoll :: "bstr \<Rightarrow> nat \<Rightarrow> int \<times> bstr" where
  "bstrtoll s base =
     (let s = bstr_lstrip s;
          buf = takeWhile (\<lambda>c. c \<noteq> NUL) (take (min (length s) 50) s);
          (r, consumed) = c_strtoll base buf
      in (r, bstr_cut s (int consumed)))"

definition bstrtod :: "(string \<Rightarrow> 'f \<times> nat) \<Rightarrow> bstr \<Rightarrow> 'f \<times> bstr" where
  "bstrtod strtod s =
     (let s = bstr_lstrip s;
          buf = takeWhile (\<lambda>c. c \<noteq> NUL) (take (min (length s) 100) s);
          (r, consumed) = strtod buf
      in (r, bstr_cut s (int consumed)))"

subsection \<open>UTF-8\<close>

record libav =
  av_log2 :: "nat \<Rightarrow> nat"
  put_utf8 :: "nat \<Rightarrow> string"

definition bstr_parse_utf8_code_length :: "libav \<Rightarrow> nat \<Rightarrow> int" where
  "bstr_parse_utf8_code_length L b =
     (if b < 128 then 1
      else let bytes = 7 - int (av_log2 L (b XOR 255))
           in if 2 \<le> bytes \<and> bytes \<le> 4 then bytes else -1)"

text \<open>The loop over the continuation bytes: \<open>n\<close> of them are left, \<open>None\<close> is the return of -1.\<close>

fun decode_utf8_tail :: "nat \<Rightarrow> nat \<Rightarrow> bstr \<Rightarrow> (nat \<times> bstr) option" where
  "decode_utf8_tail 0 codepoint s = Some (codepoint, s)"
| "decode_utf8_tail (Suc n) codepoint [] = None"
| "decode_utf8_tail (Suc n) codepoint (c # s) =
     (if byte c AND 0xC0 \<noteq> 0x80 then None
      else decode_utf8_tail n (push_bit 6 codepoint OR (byte c AND 0x3F)) s)"

definition bstr_decode_utf8 :: "libav \<Rightarrow> bstr \<Rightarrow> (nat \<times> bstr) option" where
  "bstr_decode_utf8 L s =
     (case s of [] \<Rightarrow> None
      | c # s' \<Rightarrow>
          (if byte c < 128 then Some (byte c, s')
           else let bytes = bstr_parse_utf8_code_length L (byte c)
                in if bytes < 0 \<or> int (length s') < bytes - 1 then None
                   else decode_utf8_tail (nat (bytes - 1))
                          (byte c AND drop_bit (nat bytes) 127) s'))"

text \<open>Equations without patterns on numbers, for evaluation.\<close>

lemma decode_utf8_tail_code [code]:
  "decode_utf8_tail n codepoint s =
     (if n = 0 then Some (codepoint, s)
      else case s of [] \<Rightarrow> None
        | c # s \<Rightarrow> if byte c AND 0xC0 \<noteq> 0x80 then None
                   else decode_utf8_tail (n - 1) (push_bit 6 codepoint OR (byte c AND 0x3F)) s)"
  by (cases n; cases s) simp_all

lemma split_counted_code [code]:
  "split_counted k p =
     (if k = 0 then [p] else let n = Suc (first_index (\<lambda>c. c = LF) p) in take n p # split_counted (k - 1) (drop n p))"
  by (cases k) simp_all

lemma bstr_find_from_code [code]:
  "bstr_find_from haystack needle i k =
     (if k = 0 then -1
      else if bstr_startswith (bstr_splice haystack (int i) (int (length haystack))) needle then int i
      else bstr_find_from haystack needle (Suc i) (k - 1))"
  by (cases k) simp_all

subsection \<open>Lemmas\<close>

lemma bstr_cut_nonneg [simp]: "0 \<le> n \<Longrightarrow> bstr_cut s n = drop (nat n) s"
  by (auto simp: bstr_cut_def size_t_gt_def Let_def)

lemma bstr_cut_neg: "n < 0 \<Longrightarrow> bstr_cut s n = []"
  by (simp add: bstr_cut_def size_t_gt_def)

lemma bstr_splice_nonneg:
  "0 \<le> a \<Longrightarrow> 0 \<le> b \<Longrightarrow> bstr_splice s a b = take (nat b - nat a) (drop (nat a) s)"
  by (auto simp: bstr_splice_def size_t_gt_def Let_def max_def nat_diff_distrib)

lemma bstr_splice_prefix [simp]: "0 \<le> b \<Longrightarrow> bstr_splice s 0 b = take (nat b) s"
  by (simp add: bstr_splice_nonneg)

lemma bstr_splice_suffix: "bstr_splice s (int i) (int (length s)) = drop i s"
  by (simp add: bstr_splice_nonneg)

lemma bstr_startswith_iff: "bstr_startswith s p \<longleftrightarrow> prefix p s"
proof (cases "length s < length p")
  case True
  then show ?thesis by (auto simp: bstr_startswith_def dest: prefix_length_le)
next
  case False
  then have "bstr_startswith s p \<longleftrightarrow> take (length p) s = p"
    by (simp add: bstr_startswith_def c_memcmp_0_iff)
  also have "\<dots> \<longleftrightarrow> prefix p s"
    by (metis append_eq_conv_conj prefix_def take_is_prefix)
  finally show ?thesis .
qed

lemma bstr_endswith_iff: "bstr_endswith s p \<longleftrightarrow> suffix p s"
proof (cases "length s < length p")
  case True
  then show ?thesis by (auto simp: bstr_endswith_def dest: suffix_length_le)
next
  case False
  then have "bstr_endswith s p \<longleftrightarrow> drop (length s - length p) s = p"
    by (simp add: bstr_endswith_def c_memcmp_0_iff)
  also have "\<dots> \<longleftrightarrow> suffix p s"
    using False by (metis append_take_drop_id length_append add_diff_cancel_right' append_eq_conv_conj suffix_def)
  finally show ?thesis .
qed

lemma bstr_eatstart_Some_iff: "bstr_eatstart s p = Some r \<longleftrightarrow> s = p @ r"
  by (auto simp: bstr_eatstart_def bstr_startswith_iff prefix_def)

lemma bstrchr_iff:
  "bstrchr s c = (if c \<in> set s then int (first_index (\<lambda>x. x = c) s) else -1)"
  using first_index_less_iff [of "\<lambda>x. x = c" s] by (auto simp: bstrchr_def Let_def)

lemma bstrcmp_eq_0_iff: "bstrcmp s t = 0 \<longleftrightarrow> s = t"
proof -
  let ?n = "min (length s) (length t)"
  have "c_memcmp (take ?n s) (take ?n t) = 0 \<longleftrightarrow> take ?n s = take ?n t"
    by (rule c_memcmp_0_iff) simp
  then show ?thesis
    by (auto simp: bstrcmp_def bstr_len_cmp_def Let_def)
qed

lemma bstrcmp_antisym: "bstrcmp t s = - bstrcmp s t"
  using c_memcmp_antisym [of "take (min (length s) (length t)) t"]
  by (auto simp: bstrcmp_def bstr_len_cmp_def Let_def min.commute)

lemma bstrcmp_Cons:
  "bstrcmp (x # s) (y # t) = (if x = y then bstrcmp s t else if byte x < byte y then -1 else 1)"
  by (auto simp: bstrcmp_def bstr_len_cmp_def Let_def)

lemma bstrcmp_Nil [simp]: "bstrcmp [] t = (if t = [] then 0 else -1)" "bstrcmp s [] = (if s = [] then 0 else 1)"
  by (auto simp: bstrcmp_def bstr_len_cmp_def)

text \<open>
  \<open>bstrcmp\<close> is the three-way comparison of the lexicographic order on
  unsigned bytes: 0 exactly on equal strings, -1 when the first string comes first, 1 otherwise.
\<close>

theorem bstrcmp_lexicographic:
  "bstrcmp s t = (if s = t then 0 else if map byte s < map byte t then -1 else 1)"
proof (induction s arbitrary: t)
  case Nil
  then show ?case by (cases t) simp_all
next
  case (Cons x s)
  show ?case
  proof (cases t)
    case Nil
    then show ?thesis by simp
  next
    case (Cons y t')
    then show ?thesis using Cons.IH [of t'] by (auto simp: bstrcmp_Cons)
  qed
qed

lemma bstr_split_decompose:
  assumes "bstr_split s sep = (tok, rest)"
  shows "\<exists>pre. s = pre @ tok @ rest \<and> (\<forall>c\<in>set pre. in_cset sep c)
           \<and> (\<forall>c\<in>set tok. \<not> in_cset sep c) \<and> (rest = [] \<or> in_cset sep (hd rest))"
proof -
  define s1 where "s1 = dropWhile (in_cset sep) s"
  have tok: "tok = takeWhile (\<lambda>c. \<not> in_cset sep c) s1" and rest: "rest = dropWhile (\<lambda>c. \<not> in_cset sep c) s1"
    using assms by (auto simp: bstr_split_def Let_def bstrcspn_def first_index_def s1_def)
  have "s = takeWhile (in_cset sep) s @ tok @ rest"
    unfolding tok rest s1_def by simp
  moreover have "rest = [] \<or> in_cset sep (hd rest)"
    using hd_dropWhile [of "\<lambda>c. \<not> in_cset sep c" s1] unfolding rest by blast
  ultimately show ?thesis
    unfolding tok by (blast dest: set_takeWhileD)
qed

lemma split_counted_concat [simp]: "concat (split_counted k p) = p"
  by (induction k p rule: split_counted.induct) (auto simp: Let_def)

lemma length_split_counted [simp]: "length (split_counted k p) = Suc k"
  by (induction k p rule: split_counted.induct) (auto simp: Let_def)

lemma first_index_LF_split:
  "LF \<in> set p \<Longrightarrow> \<exists>a b. p = a @ LF # b \<and> LF \<notin> set a \<and> first_index (\<lambda>c. c = LF) p = length a"
proof -
  assume "LF \<in> set p"
  then obtain a b where "p = a @ LF # b" and "LF \<notin> set a" by (meson split_list_first)
  then show ?thesis
    using length_takeWhile_append_hit [of a "\<lambda>c. c \<noteq> LF" LF b] unfolding first_index_def by blast
qed

definition is_line :: "bstr \<Rightarrow> bool" where
  "is_line l = (l \<noteq> [] \<and> LF \<notin> set (butlast l))"

lemma split_counted_lines:
  "p \<noteq> [] \<Longrightarrow> count_list p LF + (if last p \<noteq> LF then 1 else 0) = Suc k \<Longrightarrow>
   (\<forall>l\<in>set (split_counted k p). is_line l) \<and> (\<forall>l\<in>set (butlast (split_counted k p)). last l = LF)"
proof (induction k p rule: split_counted.induct)
  case (1 p)
  then have "LF \<notin> set (butlast p)"
    by (cases p rule: rev_cases) (auto simp: count_list_0_iff split: if_splits)
  with 1 show ?case by (simp add: is_line_def)
next
  case (2 k p)
  have "LF \<in> set p"
    using 2(3) by (cases "LF \<in> set p") (auto simp: count_list_0_iff split: if_splits)
  then obtain a b where p: "p = a @ LF # b" and a: "LF \<notin> set a"
      and n: "first_index (\<lambda>c. c = LF) p = length a"
    using first_index_LF_split by blast
  have b: "b \<noteq> []"
    using 2(3) a p by (auto simp: count_list_0_iff)
  have "count_list b LF + (if last b \<noteq> LF then 1 else 0) = Suc k"
    using 2(3) a b p by (auto simp: count_list_0_iff)
  with 2(1) [of "Suc (length a)"] b p n
  have IH: "(\<forall>l\<in>set (split_counted k b). is_line l) \<and> (\<forall>l\<in>set (butlast (split_counted k b)). last l = LF)"
    by simp
  have "split_counted (Suc k) p = (a @ [LF]) # split_counted k b"
    using p n by (simp add: Let_def)
  moreover have "split_counted k b \<noteq> []"
    by (metis length_split_counted list.size(3) nat.distinct(1))
  ultimately show ?case using IH a by (auto simp: is_line_def)
qed

lemma bstr_splitlines_count:
  assumes "s \<noteq> []"
  obtains k where "count_list s LF + (if last s \<noteq> LF then 1 else 0) = Suc k"
    and "bstr_splitlines s = split_counted k s"
proof -
  let ?c = "count_list s LF + (if last s \<noteq> LF then 1 else 0)"
  have "0 < ?c"
    using last_in_set [OF assms] count_list_0_iff [of s LF] by auto
  then obtain k where "?c = Suc k" by (metis gr0_implies_Suc)
  moreover from this have "bstr_splitlines s = split_counted k s"
    using assms by (simp add: bstr_splitlines_def)
  ultimately show ?thesis by (rule that)
qed

text \<open>
  \<open>bstr_splitlines\<close> loses and invents no byte: its lines, joined, are the input; no
  line is empty, a line feed only ends a line, and every line but the last ends with one.
\<close>

theorem bstr_splitlines_spec:
  "concat (bstr_splitlines s) = s
   \<and> (\<forall>l\<in>set (bstr_splitlines s). l \<noteq> [] \<and> LF \<notin> set (butlast l))
   \<and> (\<forall>l\<in>set (butlast (bstr_splitlines s)). last l = LF)"
proof (cases "s = []")
  case True
  then show ?thesis by (simp add: bstr_splitlines_def)
next
  case False
  then obtain k where k: "count_list s LF + (if last s \<noteq> LF then 1 else 0) = Suc k"
    and s: "bstr_splitlines s = split_counted k s"
    by (rule bstr_splitlines_count)
  have "(\<forall>l\<in>set (split_counted k s). is_line l) \<and> (\<forall>l\<in>set (butlast (split_counted k s)). last l = LF)"
    using False k by (rule split_counted_lines)
  then show ?thesis unfolding s is_line_def by simp
qed

lemma bstr_splitlines_spec_witness:
  "concat (bstr_splitlines [CHR ''a'', LF, LF, CHR ''b'']) = [CHR ''a'', LF, LF, CHR ''b'']
   \<and> [] \<notin> set (bstr_splitlines [CHR ''a'', LF, LF, CHR ''b''])"
  using bstr_splitlines_spec [of "[CHR ''a'', LF, LF, CHR ''b'']"] by blast

subsection \<open>UTF-8\<close>

text \<open>The standard UTF-8 encoding, as a reference.\<close>

definition utf8_encode :: "nat \<Rightarrow> string" where
  "utf8_encode n = map char_of
     (if n < 0x80 then [n]
      else if n < 0x800 then [0xC0 + n div 64, 0x80 + n mod 64]
      else if n < 0x10000 then [0xE0 + n div 4096, 0x80 + n div 64 mod 64, 0x80 + n mod 64]
      else [0xF0 + n div 262144, 0x80 + n div 4096 mod 64, 0x80 + n div 64 mod 64, 0x80 + n mod 64])"

definition libav_ok :: "libav \<Rightarrow> bool" where
  "libav_ok L \<longleftrightarrow> av_log2 L 0 = 0
     \<and> (\<forall>x>0. 2 ^ av_log2 L x \<le> x \<and> x < 2 ^ Suc (av_log2 L x))
     \<and> (\<forall>n<0x110000. put_utf8 L n = utf8_encode n)"

text \<open>A concrete instance: the integer logarithm by halving, and the reference encoder.\<close>

fun halvings :: "nat \<Rightarrow> nat" where
  "halvings n = (if n < 2 then 0 else Suc (halvings (n div 2)))"

declare halvings.simps [simp del]

definition libav_ref :: libav where
  "libav_ref = \<lparr>av_log2 = halvings, put_utf8 = utf8_encode\<rparr>"

lemma halvings_bounds: "0 < n \<Longrightarrow> 2 ^ halvings n \<le> n \<and> n < 2 ^ Suc (halvings n)"
proof (induction n rule: halvings.induct)
  case (1 n)
  show ?case
  proof (cases "n < 2")
    case True
    then show ?thesis using 1 by (subst (1 2) halvings.simps) simp
  next
    case False
    then have "2 ^ halvings (n div 2) \<le> n div 2 \<and> n div 2 < 2 ^ Suc (halvings (n div 2))"
      using 1 by simp
    moreover have "halvings n = Suc (halvings (n div 2))"
      using False by (subst halvings.simps) simp
    ultimately show ?thesis using div_mult_mod_eq [of n 2] by auto
  qed
qed

lemma libav_ref_ok: "libav_ok libav_ref"
  using halvings_bounds by (simp add: libav_ok_def libav_ref_def halvings.simps [of 0])

lemma libav_ok_log2:
  assumes "libav_ok L" and "2 ^ k \<le> x" and "x < 2 ^ Suc k"
  shows "av_log2 L x = k"
proof -
  have "0 < x" using assms(2) by (rule less_le_trans [rotated]) simp
  with assms(1) have a: "2 ^ av_log2 L x \<le> x" and b: "x < 2 ^ Suc (av_log2 L x)"
    by (auto simp: libav_ok_def)
  have "k < Suc (av_log2 L x)"
    using assms(2) b by (metis le_less_trans nat_power_less_imp_less zero_less_numeral)
  moreover have "av_log2 L x < Suc k"
    using assms(3) a by (metis le_less_trans nat_power_less_imp_less zero_less_numeral)
  ultimately show ?thesis by simp
qed

lemma xor_mask: "b < 2 ^ n \<Longrightarrow> b XOR (2 ^ n - 1) = 2 ^ n - 1 - (b :: nat)"
proof (induction n arbitrary: b)
  case 0
  then show ?case by simp
next
  case (Suc n)
  have "b XOR (2 ^ Suc n - 1) = of_bool (odd b \<noteq> odd (2 ^ Suc n - 1 :: nat)) + 2 * (b div 2 XOR (2 ^ Suc n - 1) div 2)"
    by (rule xor_rec)
  also have "(2 ^ Suc n - 1) div 2 = (2 ^ n - 1 :: nat)" by simp
  also have "b div 2 XOR (2 ^ n - 1) = 2 ^ n - 1 - b div 2"
    using Suc.prems by (intro Suc.IH) simp
  finally show ?case
    using Suc.prems by (auto simp: algebra_simps elim!: evenE oddE)
qed

lemma xor_255: "b < 256 \<Longrightarrow> b XOR 255 = 255 - (b :: nat)"
  using xor_mask [of b 8] by simp

lemma code_length_lead:
  assumes "libav_ok L"
  shows "192 \<le> b \<Longrightarrow> b < 224 \<Longrightarrow> bstr_parse_utf8_code_length L b = 2"
    and "224 \<le> b \<Longrightarrow> b < 240 \<Longrightarrow> bstr_parse_utf8_code_length L b = 3"
    and "240 \<le> b \<Longrightarrow> b < 248 \<Longrightarrow> bstr_parse_utf8_code_length L b = 4"
proof -
  show "bstr_parse_utf8_code_length L b = 2" if "192 \<le> b" "b < 224"
    using that libav_ok_log2 [OF assms, of 5 "255 - b"]
    by (simp add: bstr_parse_utf8_code_length_def xor_255)
  show "bstr_parse_utf8_code_length L b = 3" if "224 \<le> b" "b < 240"
    using that libav_ok_log2 [OF assms, of 4 "255 - b"]
    by (simp add: bstr_parse_utf8_code_length_def xor_255)
  show "bstr_parse_utf8_code_length L b = 4" if "240 \<le> b" "b < 248"
    using that libav_ok_log2 [OF assms, of 3 "255 - b"]
    by (simp add: bstr_parse_utf8_code_length_def xor_255)
qed

lemma code_length_cont:
  assumes "libav_ok L" and "128 \<le> b" and "b < 192"
  shows "bstr_parse_utf8_code_length L b = -1"
  using assms(2,3) libav_ok_log2 [OF assms(1), of 6 "255 - b"]
  by (simp add: bstr_parse_utf8_code_length_def xor_255)

lemma push_or_6: "b < 64 \<Longrightarrow> push_bit 6 a OR b = 64 * a + (b :: nat)"
proof -
  assume b: "b < 64"
  let ?x = "64 * a + b"
  have "push_bit 6 (drop_bit 6 ?x) OR take_bit 6 ?x = ?x"
    by (rule bit_eqI) (auto simp: bit_simps)
  moreover have "drop_bit 6 ?x = a" and "take_bit 6 ?x = b"
    using b by (simp_all add: drop_bit_eq_div take_bit_eq_mod)
  ultimately show ?thesis by simp
qed

lemma cont_byte:
  assumes "r < 64"
  shows "(128 + r) AND 0xC0 = (0x80 :: nat)" and "(128 + r) AND 0x3F = r"
proof -
  have "\<forall>r\<in>set [0..<64]. (128 + r) AND 0xC0 = (0x80 :: nat) \<and> (128 + r) AND 0x3F = r"
    by code_simp
  with assms show "(128 + r) AND 0xC0 = (0x80 :: nat)" and "(128 + r) AND 0x3F = r"
    by auto
qed

lemma lead_byte:
  "a < 32 \<Longrightarrow> (192 + a) AND 31 = (a :: nat)"
  "a < 16 \<Longrightarrow> (224 + a) AND 15 = (a :: nat)"
  "a < 8 \<Longrightarrow> (240 + a) AND 7 = (a :: nat)"
proof -
  have "\<forall>a\<in>set [0..<32]. (192 + a) AND 31 = (a :: nat)" by code_simp
  then show "a < 32 \<Longrightarrow> (192 + a) AND 31 = a" by auto
  have "\<forall>a\<in>set [0..<16]. (224 + a) AND 15 = (a :: nat)" by code_simp
  then show "a < 16 \<Longrightarrow> (224 + a) AND 15 = a" by auto
  have "\<forall>a\<in>set [0..<8]. (240 + a) AND 7 = (a :: nat)" by code_simp
  then show "a < 8 \<Longrightarrow> (240 + a) AND 7 = a" by auto
qed

lemma decode_utf8_tail_Cons:
  "r < 64 \<Longrightarrow> decode_utf8_tail (Suc n) cp (char_of (128 + r) # s) = decode_utf8_tail n (64 * cp + r) s"
  using push_or_6 [of r cp] cont_byte [of r] by simp

lemma decode_utf8_lead:
  assumes "libav_ok L"
  shows "a < 32 \<Longrightarrow> bstr_decode_utf8 L (char_of (192 + a) # s)
           = (if length s < 1 then None else decode_utf8_tail 1 a s)"
    and "a < 16 \<Longrightarrow> bstr_decode_utf8 L (char_of (224 + a) # s)
           = (if length s < 2 then None else decode_utf8_tail 2 a s)"
    and "a < 8 \<Longrightarrow> bstr_decode_utf8 L (char_of (240 + a) # s)
           = (if length s < 3 then None else decode_utf8_tail 3 a s)"
proof -
  show "bstr_decode_utf8 L (char_of (192 + a) # s)
          = (if length s < 1 then None else decode_utf8_tail 1 a s)" if "a < 32"
    using that assms by (simp add: bstr_decode_utf8_def code_length_lead lead_byte drop_bit_eq_div)
  show "bstr_decode_utf8 L (char_of (224 + a) # s)
          = (if length s < 2 then None else decode_utf8_tail 2 a s)" if "a < 16"
    using that assms by (simp add: bstr_decode_utf8_def code_length_lead lead_byte drop_bit_eq_div)
  show "bstr_decode_utf8 L (char_of (240 + a) # s)
          = (if length s < 3 then None else decode_utf8_tail 3 a s)" if "a < 8"
    using that assms by (simp add: bstr_decode_utf8_def code_length_lead lead_byte drop_bit_eq_div)
qed

lemma decode_utf8_2:
  "libav_ok L \<Longrightarrow> a < 32 \<Longrightarrow> r < 64 \<Longrightarrow>
   bstr_decode_utf8 L (char_of (192 + a) # char_of (128 + r) # rest) = Some (64 * a + r, rest)"
  unfolding decode_utf8_lead numeral_3_eq_3 numeral_2_eq_2 One_nat_def decode_utf8_tail_Cons decode_utf8_tail.simps(1) by simp

lemma decode_utf8_3:
  "libav_ok L \<Longrightarrow> a < 16 \<Longrightarrow> q < 64 \<Longrightarrow> r < 64 \<Longrightarrow>
   bstr_decode_utf8 L (char_of (224 + a) # char_of (128 + q) # char_of (128 + r) # rest)
     = Some (64 * (64 * a + q) + r, rest)"
  unfolding decode_utf8_lead numeral_3_eq_3 numeral_2_eq_2 One_nat_def decode_utf8_tail_Cons decode_utf8_tail.simps(1) by simp

lemma decode_utf8_4:
  "libav_ok L \<Longrightarrow> a < 8 \<Longrightarrow> p < 64 \<Longrightarrow> q < 64 \<Longrightarrow> r < 64 \<Longrightarrow>
   bstr_decode_utf8 L (char_of (240 + a) # char_of (128 + p) # char_of (128 + q) # char_of (128 + r) # rest)
     = Some (64 * (64 * (64 * a + p) + q) + r, rest)"
  unfolding decode_utf8_lead numeral_3_eq_3 numeral_2_eq_2 One_nat_def decode_utf8_tail_Cons decode_utf8_tail.simps(1) by simp

lemma base64_digits:
  fixes n :: nat
  shows "64 * (n div 64) + n mod 64 = n"
    and "64 * (n div 4096) + n div 64 mod 64 = n div 64"
    and "64 * (n div 262144) + n div 4096 mod 64 = n div 4096"
proof -
  show "64 * (n div 64) + n mod 64 = n" by simp
  show "64 * (n div 4096) + n div 64 mod 64 = n div 64"
    using mult_div_mod_eq [of 64 "n div 64"] by (simp add: div_mult2_eq [symmetric])
  show "64 * (n div 262144) + n div 4096 mod 64 = n div 4096"
    using mult_div_mod_eq [of 64 "n div 4096"] by (simp add: div_mult2_eq [symmetric])
qed

lemma decode_utf8_encode:
  assumes L: "libav_ok L" and n: "n < 0x110000"
  shows "bstr_decode_utf8 L (utf8_encode n @ rest) = Some (n, rest)"
proof -
  have m: "n mod 64 < 64" "n div 64 mod 64 < 64" "n div 4096 mod 64 < 64" by simp_all
  consider "n < 0x80" | "0x80 \<le> n" "n < 0x800" | "0x800 \<le> n" "n < 0x10000" | "0x10000 \<le> n"
    by linarith
  then show ?thesis
  proof cases
    case 1
    then show ?thesis by (simp add: utf8_encode_def bstr_decode_utf8_def)
  next
    case 2
    have e: "utf8_encode n @ rest = char_of (192 + n div 64) # char_of (128 + n mod 64) # rest"
      using 2 by (simp add: utf8_encode_def)
    have "n div 64 < 32" using 2 by linarith
    from decode_utf8_2 [OF L this m(1), of rest] show ?thesis
      by (simp only: e base64_digits)
  next
    case 3
    have e: "utf8_encode n @ rest = char_of (224 + n div 4096) # char_of (128 + n div 64 mod 64)
               # char_of (128 + n mod 64) # rest"
      using 3 by (simp add: utf8_encode_def)
    have "n div 4096 < 16" using 3 by linarith
    from decode_utf8_3 [OF L this m(2,1), of rest] show ?thesis
      by (simp only: e base64_digits)
  next
    case 4
    have e: "utf8_encode n @ rest = char_of (240 + n div 262144) # char_of (128 + n div 4096 mod 64)
               # char_of (128 + n div 64 mod 64) # char_of (128 + n mod 64) # rest"
      using 4 by (simp add: utf8_encode_def)
    have "n div 262144 < 8" using n by linarith
    from decode_utf8_4 [OF L this m(3,2,1), of rest] show ?thesis
      by (simp only: e base64_digits)
  qed
qed

text \<open>
  \<open>bstr_decode_utf8\<close> reads back what \<open>PUT_UTF8\<close> wrote: decoding the encoding of a
  Unicode code point, with anything behind it, gives the code point and exactly what
  followed.
\<close>

theorem utf8_roundtrip:
  assumes "libav_ok L" and "n < 0x110000"
  shows "bstr_decode_utf8 L (put_utf8 L n @ rest) = Some (n, rest)"
  using assms decode_utf8_encode [OF assms] by (simp add: libav_ok_def)

lemma utf8_roundtrip_witness:
  "bstr_decode_utf8 libav_ref (put_utf8 libav_ref 0x20AC @ ''rest'') = Some (0x20AC, ''rest'')"
  by (rule utf8_roundtrip [OF libav_ref_ok]) simp

end
