(* ===== verification/Key_Codes.thy ===== *)
theory Key_Codes
  imports Bstr
begin

text \<open>
  Key codes: the macros of \<open>input/keycodes.h\<close>, one abbreviation per macro, and the
  tables \<open>key_names\<close> and \<open>modifier_names\<close> of \<open>input/input.c\<close> (without their
  terminating entries). A key code is a C \<open>int\<close>: a Unicode code point, or a special key
  from \<open>MP_KEY_BASE\<close> on, with modifier and event flags in the bits above.
\<close>

subsection \<open>The macros of keycodes.h\<close>

abbreviation (input) MP_NO_REPEAT_KEY :: int where "MP_NO_REPEAT_KEY \<equiv> 268435456"
abbreviation (input) MP_KEY_DOWN :: int where "MP_KEY_DOWN \<equiv> 536870912"
abbreviation (input) MP_KEY_BASE :: int where "MP_KEY_BASE \<equiv> 2097152"
abbreviation (input) KEY_ENTER :: int where "KEY_ENTER \<equiv> 13"
abbreviation (input) KEY_TAB :: int where "KEY_TAB \<equiv> 9"
abbreviation (input) KEY_BACKSPACE :: int where "KEY_BACKSPACE \<equiv> MP_KEY_BASE + 0"
abbreviation (input) KEY_DELETE :: int where "KEY_DELETE \<equiv> MP_KEY_BASE + 1"
abbreviation (input) KEY_INSERT :: int where "KEY_INSERT \<equiv> MP_KEY_BASE + 2"
abbreviation (input) KEY_HOME :: int where "KEY_HOME \<equiv> MP_KEY_BASE + 3"
abbreviation (input) KEY_END :: int where "KEY_END \<equiv> MP_KEY_BASE + 4"
abbreviation (input) KEY_PAGE_UP :: int where "KEY_PAGE_UP \<equiv> MP_KEY_BASE + 5"
abbreviation (input) KEY_PAGE_DOWN :: int where "KEY_PAGE_DOWN \<equiv> MP_KEY_BASE + 6"
abbreviation (input) KEY_ESC :: int where "KEY_ESC \<equiv> MP_KEY_BASE + 7"
abbreviation (input) KEY_PRINT :: int where "KEY_PRINT \<equiv> MP_KEY_BASE + 8"
abbreviation (input) KEY_BS :: int where "KEY_BS \<equiv> KEY_BACKSPACE"
abbreviation (input) KEY_DEL :: int where "KEY_DEL \<equiv> KEY_DELETE"
abbreviation (input) KEY_INS :: int where "KEY_INS \<equiv> KEY_INSERT"
abbreviation (input) KEY_PGUP :: int where "KEY_PGUP \<equiv> KEY_PAGE_UP"
abbreviation (input) KEY_PGDOWN :: int where "KEY_PGDOWN \<equiv> KEY_PAGE_DOWN"
abbreviation (input) KEY_PGDWN :: int where "KEY_PGDWN \<equiv> KEY_PAGE_DOWN"
abbreviation (input) KEY_CRSR :: int where "KEY_CRSR \<equiv> MP_KEY_BASE + 0x10"
abbreviation (input) KEY_RIGHT :: int where "KEY_RIGHT \<equiv> KEY_CRSR + 0"
abbreviation (input) KEY_LEFT :: int where "KEY_LEFT \<equiv> KEY_CRSR + 1"
abbreviation (input) KEY_DOWN :: int where "KEY_DOWN \<equiv> KEY_CRSR + 2"
abbreviation (input) KEY_UP :: int where "KEY_UP \<equiv> KEY_CRSR + 3"
abbreviation (input) KEY_MM_BASE :: int where "KEY_MM_BASE \<equiv> MP_KEY_BASE + 0x20"
abbreviation (input) KEY_POWER :: int where "KEY_POWER \<equiv> KEY_MM_BASE + 0"
abbreviation (input) KEY_MENU :: int where "KEY_MENU \<equiv> KEY_MM_BASE + 1"
abbreviation (input) KEY_PLAY :: int where "KEY_PLAY \<equiv> KEY_MM_BASE + 2"
abbreviation (input) KEY_PAUSE :: int where "KEY_PAUSE \<equiv> KEY_MM_BASE + 3"
abbreviation (input) KEY_PLAYPAUSE :: int where "KEY_PLAYPAUSE \<equiv> KEY_MM_BASE + 4"
abbreviation (input) KEY_STOP :: int where "KEY_STOP \<equiv> KEY_MM_BASE + 5"
abbreviation (input) KEY_FORWARD :: int where "KEY_FORWARD \<equiv> KEY_MM_BASE + 6"
abbreviation (input) KEY_REWIND :: int where "KEY_REWIND \<equiv> KEY_MM_BASE + 7"
abbreviation (input) KEY_NEXT :: int where "KEY_NEXT \<equiv> KEY_MM_BASE + 8"
abbreviation (input) KEY_PREV :: int where "KEY_PREV \<equiv> KEY_MM_BASE + 9"
abbreviation (input) KEY_VOLUME_UP :: int where "KEY_VOLUME_UP \<equiv> KEY_MM_BASE + 10"
abbreviation (input) KEY_VOLUME_DOWN :: int where "KEY_VOLUME_DOWN \<equiv> KEY_MM_BASE + 11"
abbreviation (input) KEY_MUTE :: int where "KEY_MUTE \<equiv> KEY_MM_BASE + 12"
abbreviation (input) KEY_F :: int where "KEY_F \<equiv> MP_KEY_BASE + 0x40"
abbreviation (input) KEY_KEYPAD :: int where "KEY_KEYPAD \<equiv> MP_KEY_BASE + 0x60"
abbreviation (input) KEY_KP0 :: int where "KEY_KP0 \<equiv> KEY_KEYPAD + 0"
abbreviation (input) KEY_KP1 :: int where "KEY_KP1 \<equiv> KEY_KEYPAD + 1"
abbreviation (input) KEY_KP2 :: int where "KEY_KP2 \<equiv> KEY_KEYPAD + 2"
abbreviation (input) KEY_KP3 :: int where "KEY_KP3 \<equiv> KEY_KEYPAD + 3"
abbreviation (input) KEY_KP4 :: int where "KEY_KP4 \<equiv> KEY_KEYPAD + 4"
abbreviation (input) KEY_KP5 :: int where "KEY_KP5 \<equiv> KEY_KEYPAD + 5"
abbreviation (input) KEY_KP6 :: int where "KEY_KP6 \<equiv> KEY_KEYPAD + 6"
abbreviation (input) KEY_KP7 :: int where "KEY_KP7 \<equiv> KEY_KEYPAD + 7"
abbreviation (input) KEY_KP8 :: int where "KEY_KP8 \<equiv> KEY_KEYPAD + 8"
abbreviation (input) KEY_KP9 :: int where "KEY_KP9 \<equiv> KEY_KEYPAD + 9"
abbreviation (input) KEY_KPDEC :: int where "KEY_KPDEC \<equiv> KEY_KEYPAD + 10"
abbreviation (input) KEY_KPINS :: int where "KEY_KPINS \<equiv> KEY_KEYPAD + 11"
abbreviation (input) KEY_KPDEL :: int where "KEY_KPDEL \<equiv> KEY_KEYPAD + 12"
abbreviation (input) KEY_KPENTER :: int where "KEY_KPENTER \<equiv> KEY_KEYPAD + 13"
abbreviation (input) JOY_BASE :: int where "JOY_BASE \<equiv> MP_KEY_BASE + 0x70"
abbreviation (input) JOY_AXIS0_PLUS :: int where "JOY_AXIS0_PLUS \<equiv> JOY_BASE + 0"
abbreviation (input) JOY_AXIS0_MINUS :: int where "JOY_AXIS0_MINUS \<equiv> JOY_BASE + 1"
abbreviation (input) JOY_AXIS1_PLUS :: int where "JOY_AXIS1_PLUS \<equiv> JOY_BASE + 2"
abbreviation (input) JOY_AXIS1_MINUS :: int where "JOY_AXIS1_MINUS \<equiv> JOY_BASE + 3"
abbreviation (input) JOY_AXIS2_PLUS :: int where "JOY_AXIS2_PLUS \<equiv> JOY_BASE + 4"
abbreviation (input) JOY_AXIS2_MINUS :: int where "JOY_AXIS2_MINUS \<equiv> JOY_BASE + 5"
abbreviation (input) JOY_AXIS3_PLUS :: int where "JOY_AXIS3_PLUS \<equiv> JOY_BASE + 6"
abbreviation (input) JOY_AXIS3_MINUS :: int where "JOY_AXIS3_MINUS \<equiv> JOY_BASE + 7"
abbreviation (input) JOY_AXIS4_PLUS :: int where "JOY_AXIS4_PLUS \<equiv> JOY_BASE + 8"
abbreviation (input) JOY_AXIS4_MINUS :: int where "JOY_AXIS4_MINUS \<equiv> JOY_BASE + 9"
abbreviation (input) JOY_AXIS5_PLUS :: int where "JOY_AXIS5_PLUS \<equiv> JOY_BASE + 10"
abbreviation (input) JOY_AXIS5_MINUS :: int where "JOY_AXIS5_MINUS \<equiv> JOY_BASE + 11"
abbreviation (input) JOY_AXIS6_PLUS :: int where "JOY_AXIS6_PLUS \<equiv> JOY_BASE + 12"
abbreviation (input) JOY_AXIS6_MINUS :: int where "JOY_AXIS6_MINUS \<equiv> JOY_BASE + 13"
abbreviation (input) JOY_AXIS7_PLUS :: int where "JOY_AXIS7_PLUS \<equiv> JOY_BASE + 14"
abbreviation (input) JOY_AXIS7_MINUS :: int where "JOY_AXIS7_MINUS \<equiv> JOY_BASE + 15"
abbreviation (input) JOY_AXIS8_PLUS :: int where "JOY_AXIS8_PLUS \<equiv> JOY_BASE + 16"
abbreviation (input) JOY_AXIS8_MINUS :: int where "JOY_AXIS8_MINUS \<equiv> JOY_BASE + 17"
abbreviation (input) JOY_AXIS9_PLUS :: int where "JOY_AXIS9_PLUS \<equiv> JOY_BASE + 18"
abbreviation (input) JOY_AXIS9_MINUS :: int where "JOY_AXIS9_MINUS \<equiv> JOY_BASE + 19"
abbreviation (input) JOY_BTN_BASE :: int where "JOY_BTN_BASE \<equiv> (MP_KEY_BASE + 0x90) OR MP_NO_REPEAT_KEY"
abbreviation (input) JOY_BTN0 :: int where "JOY_BTN0 \<equiv> JOY_BTN_BASE + 0"
abbreviation (input) JOY_BTN1 :: int where "JOY_BTN1 \<equiv> JOY_BTN_BASE + 1"
abbreviation (input) JOY_BTN2 :: int where "JOY_BTN2 \<equiv> JOY_BTN_BASE + 2"
abbreviation (input) JOY_BTN3 :: int where "JOY_BTN3 \<equiv> JOY_BTN_BASE + 3"
abbreviation (input) JOY_BTN4 :: int where "JOY_BTN4 \<equiv> JOY_BTN_BASE + 4"
abbreviation (input) JOY_BTN5 :: int where "JOY_BTN5 \<equiv> JOY_BTN_BASE + 5"
abbreviation (input) JOY_BTN6 :: int where "JOY_BTN6 \<equiv> JOY_BTN_BASE + 6"
abbreviation (input) JOY_BTN7 :: int where "JOY_BTN7 \<equiv> JOY_BTN_BASE + 7"
abbreviation (input) JOY_BTN8 :: int where "JOY_BTN8 \<equiv> JOY_BTN_BASE + 8"
abbreviation (input) JOY_BTN9 :: int where "JOY_BTN9 \<equiv> JOY_BTN_BASE + 9"
abbreviation (input) MOUSE_BASE :: int where "MOUSE_BASE \<equiv> (MP_KEY_BASE + 0xA0) OR MP_NO_REPEAT_KEY"
abbreviation (input) MOUSE_BTN0 :: int where "MOUSE_BTN0 \<equiv> MOUSE_BASE + 0"
abbreviation (input) MOUSE_BTN1 :: int where "MOUSE_BTN1 \<equiv> MOUSE_BASE + 1"
abbreviation (input) MOUSE_BTN2 :: int where "MOUSE_BTN2 \<equiv> MOUSE_BASE + 2"
abbreviation (input) MOUSE_BTN3 :: int where "MOUSE_BTN3 \<equiv> MOUSE_BASE + 3"
abbreviation (input) MOUSE_BTN4 :: int where "MOUSE_BTN4 \<equiv> MOUSE_BASE + 4"
abbreviation (input) MOUSE_BTN5 :: int where "MOUSE_BTN5 \<equiv> MOUSE_BASE + 5"
abbreviation (input) MOUSE_BTN6 :: int where "MOUSE_BTN6 \<equiv> MOUSE_BASE + 6"
abbreviation (input) MOUSE_BTN7 :: int where "MOUSE_BTN7 \<equiv> MOUSE_BASE + 7"
abbreviation (input) MOUSE_BTN8 :: int where "MOUSE_BTN8 \<equiv> MOUSE_BASE + 8"
abbreviation (input) MOUSE_BTN9 :: int where "MOUSE_BTN9 \<equiv> MOUSE_BASE + 9"
abbreviation (input) MOUSE_BTN10 :: int where "MOUSE_BTN10 \<equiv> MOUSE_BASE + 10"
abbreviation (input) MOUSE_BTN11 :: int where "MOUSE_BTN11 \<equiv> MOUSE_BASE + 11"
abbreviation (input) MOUSE_BTN12 :: int where "MOUSE_BTN12 \<equiv> MOUSE_BASE + 12"
abbreviation (input) MOUSE_BTN13 :: int where "MOUSE_BTN13 \<equiv> MOUSE_BASE + 13"
abbreviation (input) MOUSE_BTN14 :: int where "MOUSE_BTN14 \<equiv> MOUSE_BASE + 14"
abbreviation (input) MOUSE_BTN15 :: int where "MOUSE_BTN15 \<equiv> MOUSE_BASE + 15"
abbreviation (input) MOUSE_BTN16 :: int where "MOUSE_BTN16 \<equiv> MOUSE_BASE + 16"
abbreviation (input) MOUSE_BTN17 :: int where "MOUSE_BTN17 \<equiv> MOUSE_BASE + 17"
abbreviation (input) MOUSE_BTN18 :: int where "MOUSE_BTN18 \<equiv> MOUSE_BASE + 18"
abbreviation (input) MOUSE_BTN19 :: int where "MOUSE_BTN19 \<equiv> MOUSE_BASE + 19"
abbreviation (input) MOUSE_BTN_END :: int where "MOUSE_BTN_END \<equiv> MOUSE_BASE + 20"
abbreviation (input) MOUSE_BASE_DBL :: int where "MOUSE_BASE_DBL \<equiv> (MP_KEY_BASE + 0xC0) OR MP_NO_REPEAT_KEY"
abbreviation (input) MOUSE_BTN0_DBL :: int where "MOUSE_BTN0_DBL \<equiv> MOUSE_BASE_DBL + 0"
abbreviation (input) MOUSE_BTN1_DBL :: int where "MOUSE_BTN1_DBL \<equiv> MOUSE_BASE_DBL + 1"
abbreviation (input) MOUSE_BTN2_DBL :: int where "MOUSE_BTN2_DBL \<equiv> MOUSE_BASE_DBL + 2"
abbreviation (input) MOUSE_BTN3_DBL :: int where "MOUSE_BTN3_DBL \<equiv> MOUSE_BASE_DBL + 3"
abbreviation (input) MOUSE_BTN4_DBL :: int where "MOUSE_BTN4_DBL \<equiv> MOUSE_BASE_DBL + 4"
abbreviation (input) MOUSE_BTN5_DBL :: int where "MOUSE_BTN5_DBL \<equiv> MOUSE_BASE_DBL + 5"
abbreviation (input) MOUSE_BTN6_DBL :: int where "MOUSE_BTN6_DBL \<equiv> MOUSE_BASE_DBL + 6"
abbreviation (input) MOUSE_BTN7_DBL :: int where "MOUSE_BTN7_DBL \<equiv> MOUSE_BASE_DBL + 7"
abbreviation (input) MOUSE_BTN8_DBL :: int where "MOUSE_BTN8_DBL \<equiv> MOUSE_BASE_DBL + 8"
abbreviation (input) MOUSE_BTN9_DBL :: int where "MOUSE_BTN9_DBL \<equiv> MOUSE_BASE_DBL + 9"
abbreviation (input) MOUSE_BTN10_DBL :: int where "MOUSE_BTN10_DBL \<equiv> MOUSE_BASE_DBL + 10"
abbreviation (input) MOUSE_BTN11_DBL :: int where "MOUSE_BTN11_DBL \<equiv> MOUSE_BASE_DBL + 11"
abbreviation (input) MOUSE_BTN12_DBL :: int where "MOUSE_BTN12_DBL \<equiv> MOUSE_BASE_DBL + 12"
abbreviation (input) MOUSE_BTN13_DBL :: int where "MOUSE_BTN13_DBL \<equiv> MOUSE_BASE_DBL + 13"
abbreviation (input) MOUSE_BTN14_DBL :: int where "MOUSE_BTN14_DBL \<equiv> MOUSE_BASE_DBL + 14"
abbreviation (input) MOUSE_BTN15_DBL :: int where "MOUSE_BTN15_DBL \<equiv> MOUSE_BASE_DBL + 15"
abbreviation (input) MOUSE_BTN16_DBL :: int where "MOUSE_BTN16_DBL \<equiv> MOUSE_BASE_DBL + 16"
abbreviation (input) MOUSE_BTN17_DBL :: int where "MOUSE_BTN17_DBL \<equiv> MOUSE_BASE_DBL + 17"
abbreviation (input) MOUSE_BTN18_DBL :: int where "MOUSE_BTN18_DBL \<equiv> MOUSE_BASE_DBL + 18"
abbreviation (input) MOUSE_BTN19_DBL :: int where "MOUSE_BTN19_DBL \<equiv> MOUSE_BASE_DBL + 19"
abbreviation (input) MOUSE_BTN_DBL_END :: int where "MOUSE_BTN_DBL_END \<equiv> MOUSE_BASE_DBL + 20"
abbreviation (input) AR_BASE :: int where "AR_BASE \<equiv> MP_KEY_BASE + 0xE0"
abbreviation (input) AR_PLAY :: int where "AR_PLAY \<equiv> AR_BASE + 0"
abbreviation (input) AR_PLAY_HOLD :: int where "AR_PLAY_HOLD \<equiv> AR_BASE + 1"
abbreviation (input) AR_NEXT :: int where "AR_NEXT \<equiv> AR_BASE + 2"
abbreviation (input) AR_NEXT_HOLD :: int where "AR_NEXT_HOLD \<equiv> AR_BASE + 3"
abbreviation (input) AR_PREV :: int where "AR_PREV \<equiv> AR_BASE + 4"
abbreviation (input) AR_PREV_HOLD :: int where "AR_PREV_HOLD \<equiv> AR_BASE + 5"
abbreviation (input) AR_MENU :: int where "AR_MENU \<equiv> AR_BASE + 6"
abbreviation (input) AR_MENU_HOLD :: int where "AR_MENU_HOLD \<equiv> AR_BASE + 7"
abbreviation (input) AR_VUP :: int where "AR_VUP \<equiv> AR_BASE + 8"
abbreviation (input) AR_VDOWN :: int where "AR_VDOWN \<equiv> AR_BASE + 9"
abbreviation (input) AR_SELECT :: int where "AR_SELECT \<equiv> AR_BASE + 10"
abbreviation (input) AR_SELECT_HOLD :: int where "AR_SELECT_HOLD \<equiv> AR_BASE + 11"
abbreviation (input) KEY_INTERN :: int where "KEY_INTERN \<equiv> MP_KEY_BASE + 0x1000"
abbreviation (input) KEY_CLOSE_WIN :: int where "KEY_CLOSE_WIN \<equiv> KEY_INTERN + 0"
abbreviation (input) KEY_MODIFIER_SHIFT :: int where "KEY_MODIFIER_SHIFT \<equiv> 4194304"
abbreviation (input) KEY_MODIFIER_CTRL :: int where "KEY_MODIFIER_CTRL \<equiv> 8388608"
abbreviation (input) KEY_MODIFIER_ALT :: int where "KEY_MODIFIER_ALT \<equiv> 16777216"
abbreviation (input) KEY_MODIFIER_META :: int where "KEY_MODIFIER_META \<equiv> 33554432"

text \<open>From \<open>input/input.h\<close> and \<open>input/input.c\<close>.\<close>

abbreviation (input) MP_INPUT_ERROR :: int where "MP_INPUT_ERROR \<equiv> -1"
abbreviation (input) MP_INPUT_DEAD :: int where "MP_INPUT_DEAD \<equiv> -2"
abbreviation (input) MP_INPUT_NOTHING :: int where "MP_INPUT_NOTHING \<equiv> -3"
abbreviation (input) MP_INPUT_RETRY :: int where "MP_INPUT_RETRY \<equiv> -4"
abbreviation (input) MP_INPUT_RELEASE_ALL :: int where "MP_INPUT_RELEASE_ALL \<equiv> -5"
abbreviation (input) MP_MAX_KEY_DOWN :: nat where "MP_MAX_KEY_DOWN \<equiv> 32"
abbreviation KEY_MODIFIER_MASK :: int where
  "KEY_MODIFIER_MASK \<equiv> KEY_MODIFIER_SHIFT OR KEY_MODIFIER_CTRL OR KEY_MODIFIER_ALT OR KEY_MODIFIER_META"

subsection \<open>The name tables\<close>

definition key_names :: "(int \<times> string) list" where
  "key_names =
     [(32, ''SPACE''),
      (35, ''SHARP''),
      (KEY_ENTER, ''ENTER''),
      (KEY_TAB, ''TAB''),
      (KEY_BACKSPACE, ''BS''),
      (KEY_DELETE, ''DEL''),
      (KEY_INSERT, ''INS''),
      (KEY_HOME, ''HOME''),
      (KEY_END, ''END''),
      (KEY_PAGE_UP, ''PGUP''),
      (KEY_PAGE_DOWN, ''PGDWN''),
      (KEY_ESC, ''ESC''),
      (KEY_PRINT, ''PRINT''),
      (KEY_RIGHT, ''RIGHT''),
      (KEY_LEFT, ''LEFT''),
      (KEY_DOWN, ''DOWN''),
      (KEY_UP, ''UP''),
      (KEY_F + 1, ''F1''),
      (KEY_F + 2, ''F2''),
      (KEY_F + 3, ''F3''),
      (KEY_F + 4, ''F4''),
      (KEY_F + 5, ''F5''),
      (KEY_F + 6, ''F6''),
      (KEY_F + 7, ''F7''),
      (KEY_F + 8, ''F8''),
      (KEY_F + 9, ''F9''),
      (KEY_F + 10, ''F10''),
      (KEY_F + 11, ''F11''),
      (KEY_F + 12, ''F12''),
      (KEY_KP0, ''KP0''),
      (KEY_KP1, ''KP1''),
      (KEY_KP2, ''KP2''),
      (KEY_KP3, ''KP3''),
      (KEY_KP4, ''KP4''),
      (KEY_KP5, ''KP5''),
      (KEY_KP6, ''KP6''),
      (KEY_KP7, ''KP7''),
      (KEY_KP8, ''KP8''),
      (KEY_KP9, ''KP9''),
      (KEY_KPDEL, ''KP_DEL''),
      (KEY_KPDEC, ''KP_DEC''),
      (KEY_KPINS, ''KP_INS''),
      (KEY_KPENTER, ''KP_ENTER''),
      (MOUSE_BTN0, ''MOUSE_BTN0''),
      (MOUSE_BTN1, ''MOUSE_BTN1''),
      (MOUSE_BTN2, ''MOUSE_BTN2''),
      (MOUSE_BTN3, ''MOUSE_BTN3''),
      (MOUSE_BTN4, ''MOUSE_BTN4''),
      (MOUSE_BTN5, ''MOUSE_BTN5''),
      (MOUSE_BTN6, ''MOUSE_BTN6''),
      (MOUSE_BTN7, ''MOUSE_BTN7''),
      (MOUSE_BTN8, ''MOUSE_BTN8''),
      (MOUSE_BTN9, ''MOUSE_BTN9''),
      (MOUSE_BTN10, ''MOUSE_BTN10''),
      (MOUSE_BTN11, ''MOUSE_BTN11''),
      (MOUSE_BTN12, ''MOUSE_BTN12''),
      (MOUSE_BTN13, ''MOUSE_BTN13''),
      (MOUSE_BTN14, ''MOUSE_BTN14''),
      (MOUSE_BTN15, ''MOUSE_BTN15''),
      (MOUSE_BTN16, ''MOUSE_BTN16''),
      (MOUSE_BTN17, ''MOUSE_BTN17''),
      (MOUSE_BTN18, ''MOUSE_BTN18''),
      (MOUSE_BTN19, ''MOUSE_BTN19''),
      (MOUSE_BTN0_DBL, ''MOUSE_BTN0_DBL''),
      (MOUSE_BTN1_DBL, ''MOUSE_BTN1_DBL''),
      (MOUSE_BTN2_DBL, ''MOUSE_BTN2_DBL''),
      (MOUSE_BTN3_DBL, ''MOUSE_BTN3_DBL''),
      (MOUSE_BTN4_DBL, ''MOUSE_BTN4_DBL''),
      (MOUSE_BTN5_DBL, ''MOUSE_BTN5_DBL''),
      (MOUSE_BTN6_DBL, ''MOUSE_BTN6_DBL''),
      (MOUSE_BTN7_DBL, ''MOUSE_BTN7_DBL''),
      (MOUSE_BTN8_DBL, ''MOUSE_BTN8_DBL''),
      (MOUSE_BTN9_DBL, ''MOUSE_BTN9_DBL''),
      (MOUSE_BTN10_DBL, ''MOUSE_BTN10_DBL''),
      (MOUSE_BTN11_DBL, ''MOUSE_BTN11_DBL''),
      (MOUSE_BTN12_DBL, ''MOUSE_BTN12_DBL''),
      (MOUSE_BTN13_DBL, ''MOUSE_BTN13_DBL''),
      (MOUSE_BTN14_DBL, ''MOUSE_BTN14_DBL''),
      (MOUSE_BTN15_DBL, ''MOUSE_BTN15_DBL''),
      (MOUSE_BTN16_DBL, ''MOUSE_BTN16_DBL''),
      (MOUSE_BTN17_DBL, ''MOUSE_BTN17_DBL''),
      (MOUSE_BTN18_DBL, ''MOUSE_BTN18_DBL''),
      (MOUSE_BTN19_DBL, ''MOUSE_BTN19_DBL''),
      (JOY_AXIS1_MINUS, ''JOY_UP''),
      (JOY_AXIS1_PLUS, ''JOY_DOWN''),
      (JOY_AXIS0_MINUS, ''JOY_LEFT''),
      (JOY_AXIS0_PLUS, ''JOY_RIGHT''),
      (JOY_AXIS0_PLUS, ''JOY_AXIS0_PLUS''),
      (JOY_AXIS0_MINUS, ''JOY_AXIS0_MINUS''),
      (JOY_AXIS1_PLUS, ''JOY_AXIS1_PLUS''),
      (JOY_AXIS1_MINUS, ''JOY_AXIS1_MINUS''),
      (JOY_AXIS2_PLUS, ''JOY_AXIS2_PLUS''),
      (JOY_AXIS2_MINUS, ''JOY_AXIS2_MINUS''),
      (JOY_AXIS3_PLUS, ''JOY_AXIS3_PLUS''),
      (JOY_AXIS3_MINUS, ''JOY_AXIS3_MINUS''),
      (JOY_AXIS4_PLUS, ''JOY_AXIS4_PLUS''),
      (JOY_AXIS4_MINUS, ''JOY_AXIS4_MINUS''),
      (JOY_AXIS5_PLUS, ''JOY_AXIS5_PLUS''),
      (JOY_AXIS5_MINUS, ''JOY_AXIS5_MINUS''),
      (JOY_AXIS6_PLUS, ''JOY_AXIS6_PLUS''),
      (JOY_AXIS6_MINUS, ''JOY_AXIS6_MINUS''),
      (JOY_AXIS7_PLUS, ''JOY_AXIS7_PLUS''),
      (JOY_AXIS7_MINUS, ''JOY_AXIS7_MINUS''),
      (JOY_AXIS8_PLUS, ''JOY_AXIS8_PLUS''),
      (JOY_AXIS8_MINUS, ''JOY_AXIS8_MINUS''),
      (JOY_AXIS9_PLUS, ''JOY_AXIS9_PLUS''),
      (JOY_AXIS9_MINUS, ''JOY_AXIS9_MINUS''),
      (JOY_BTN0, ''JOY_BTN0''),
      (JOY_BTN1, ''JOY_BTN1''),
      (JOY_BTN2, ''JOY_BTN2''),
      (JOY_BTN3, ''JOY_BTN3''),
      (JOY_BTN4, ''JOY_BTN4''),
      (JOY_BTN5, ''JOY_BTN5''),
      (JOY_BTN6, ''JOY_BTN6''),
      (JOY_BTN7, ''JOY_BTN7''),
      (JOY_BTN8, ''JOY_BTN8''),
      (JOY_BTN9, ''JOY_BTN9''),
      (AR_PLAY, ''AR_PLAY''),
      (AR_PLAY_HOLD, ''AR_PLAY_HOLD''),
      (AR_NEXT, ''AR_NEXT''),
      (AR_NEXT_HOLD, ''AR_NEXT_HOLD''),
      (AR_PREV, ''AR_PREV''),
      (AR_PREV_HOLD, ''AR_PREV_HOLD''),
      (AR_MENU, ''AR_MENU''),
      (AR_MENU_HOLD, ''AR_MENU_HOLD''),
      (AR_VUP, ''AR_VUP''),
      (AR_VDOWN, ''AR_VDOWN''),
      (AR_SELECT, ''AR_SELECT''),
      (AR_SELECT_HOLD, ''AR_SELECT_HOLD''),
      (KEY_POWER, ''POWER''),
      (KEY_MENU, ''MENU''),
      (KEY_PLAY, ''PLAY''),
      (KEY_PAUSE, ''PAUSE''),
      (KEY_PLAYPAUSE, ''PLAYPAUSE''),
      (KEY_STOP, ''STOP''),
      (KEY_FORWARD, ''FORWARD''),
      (KEY_REWIND, ''REWIND''),
      (KEY_NEXT, ''NEXT''),
      (KEY_PREV, ''PREV''),
      (KEY_VOLUME_UP, ''VOLUME_UP''),
      (KEY_VOLUME_DOWN, ''VOLUME_DOWN''),
      (KEY_MUTE, ''MUTE''),
      (KEY_PAUSE, ''XF86_PAUSE''),
      (KEY_STOP, ''XF86_STOP''),
      (KEY_PREV, ''XF86_PREV''),
      (KEY_NEXT, ''XF86_NEXT''),
      (KEY_CLOSE_WIN, ''CLOSE_WIN'')]"

definition modifier_names :: "(int \<times> string) list" where
  "modifier_names =
     [(KEY_MODIFIER_SHIFT, ''Shift''),
      (KEY_MODIFIER_CTRL, ''Ctrl''),
      (KEY_MODIFIER_ALT, ''Alt''),
      (KEY_MODIFIER_META, ''Meta'')]"

end
