(* ===== verification/Cmd_Table.thy ===== *)
theory Cmd_Table
  imports Key_Codes
begin

text \<open>
  The commands of the player: the identifiers of \<open>input/input.h\<close>, one abbreviation
  per enumerator, the argument and command structures, and the table \<open>mp_cmds\<close> of
  \<open>input/input.c\<close> in a build with every option enabled (without the terminating
  entry). The value of a \<open>float\<close> argument is the bit pattern of the float.
\<close>

subsection \<open>Command identifiers\<close>

abbreviation (input) MP_CMD_SEEK :: nat where "MP_CMD_SEEK \<equiv> 0"
abbreviation (input) MP_CMD_AUDIO_DELAY :: nat where "MP_CMD_AUDIO_DELAY \<equiv> 1"
abbreviation (input) MP_CMD_QUIT :: nat where "MP_CMD_QUIT \<equiv> 2"
abbreviation (input) MP_CMD_PAUSE :: nat where "MP_CMD_PAUSE \<equiv> 3"
abbreviation (input) MP_CMD_PLAY_TREE_STEP :: nat where "MP_CMD_PLAY_TREE_STEP \<equiv> 4"
abbreviation (input) MP_CMD_PLAY_TREE_UP_STEP :: nat where "MP_CMD_PLAY_TREE_UP_STEP \<equiv> 5"
abbreviation (input) MP_CMD_PLAY_ALT_SRC_STEP :: nat where "MP_CMD_PLAY_ALT_SRC_STEP \<equiv> 6"
abbreviation (input) MP_CMD_SUB_DELAY :: nat where "MP_CMD_SUB_DELAY \<equiv> 7"
abbreviation (input) MP_CMD_OSD :: nat where "MP_CMD_OSD \<equiv> 8"
abbreviation (input) MP_CMD_VOLUME :: nat where "MP_CMD_VOLUME \<equiv> 9"
abbreviation (input) MP_CMD_CONTRAST :: nat where "MP_CMD_CONTRAST \<equiv> 10"
abbreviation (input) MP_CMD_BRIGHTNESS :: nat where "MP_CMD_BRIGHTNESS \<equiv> 11"
abbreviation (input) MP_CMD_HUE :: nat where "MP_CMD_HUE \<equiv> 12"
abbreviation (input) MP_CMD_SATURATION :: nat where "MP_CMD_SATURATION \<equiv> 13"
abbreviation (input) MP_CMD_FRAMEDROPPING :: nat where "MP_CMD_FRAMEDROPPING \<equiv> 14"
abbreviation (input) MP_CMD_TV_STEP_CHANNEL :: nat where "MP_CMD_TV_STEP_CHANNEL \<equiv> 15"
abbreviation (input) MP_CMD_TV_STEP_NORM :: nat where "MP_CMD_TV_STEP_NORM \<equiv> 16"
abbreviation (input) MP_CMD_TV_STEP_CHANNEL_LIST :: nat where "MP_CMD_TV_STEP_CHANNEL_LIST \<equiv> 17"
abbreviation (input) MP_CMD_CAPTURING :: nat where "MP_CMD_CAPTURING \<equiv> 18"
abbreviation (input) MP_CMD_VO_FULLSCREEN :: nat where "MP_CMD_VO_FULLSCREEN \<equiv> 19"
abbreviation (input) MP_CMD_SUB_POS :: nat where "MP_CMD_SUB_POS \<equiv> 20"
abbreviation (input) MP_CMD_DVDNAV :: nat where "MP_CMD_DVDNAV \<equiv> 21"
abbreviation (input) MP_CMD_SCREENSHOT :: nat where "MP_CMD_SCREENSHOT \<equiv> 22"
abbreviation (input) MP_CMD_PANSCAN :: nat where "MP_CMD_PANSCAN \<equiv> 23"
abbreviation (input) MP_CMD_MUTE :: nat where "MP_CMD_MUTE \<equiv> 24"
abbreviation (input) MP_CMD_LOADFILE :: nat where "MP_CMD_LOADFILE \<equiv> 25"
abbreviation (input) MP_CMD_LOADLIST :: nat where "MP_CMD_LOADLIST \<equiv> 26"
abbreviation (input) MP_CMD_VF_CHANGE_RECTANGLE :: nat where "MP_CMD_VF_CHANGE_RECTANGLE \<equiv> 27"
abbreviation (input) MP_CMD_GAMMA :: nat where "MP_CMD_GAMMA \<equiv> 28"
abbreviation (input) MP_CMD_SUB_VISIBILITY :: nat where "MP_CMD_SUB_VISIBILITY \<equiv> 29"
abbreviation (input) MP_CMD_GET_TIME_LENGTH :: nat where "MP_CMD_GET_TIME_LENGTH \<equiv> 30"
abbreviation (input) MP_CMD_GET_PERCENT_POS :: nat where "MP_CMD_GET_PERCENT_POS \<equiv> 31"
abbreviation (input) MP_CMD_TV_SET_CHANNEL :: nat where "MP_CMD_TV_SET_CHANNEL \<equiv> 32"
abbreviation (input) MP_CMD_EDL_MARK :: nat where "MP_CMD_EDL_MARK \<equiv> 33"
abbreviation (input) MP_CMD_SUB_ALIGNMENT :: nat where "MP_CMD_SUB_ALIGNMENT \<equiv> 34"
abbreviation (input) MP_CMD_TV_LAST_CHANNEL :: nat where "MP_CMD_TV_LAST_CHANNEL \<equiv> 35"
abbreviation (input) MP_CMD_OSD_SHOW_TEXT :: nat where "MP_CMD_OSD_SHOW_TEXT \<equiv> 36"
abbreviation (input) MP_CMD_TV_SET_FREQ :: nat where "MP_CMD_TV_SET_FREQ \<equiv> 37"
abbreviation (input) MP_CMD_TV_SET_NORM :: nat where "MP_CMD_TV_SET_NORM \<equiv> 38"
abbreviation (input) MP_CMD_TV_SET_BRIGHTNESS :: nat where "MP_CMD_TV_SET_BRIGHTNESS \<equiv> 39"
abbreviation (input) MP_CMD_TV_SET_CONTRAST :: nat where "MP_CMD_TV_SET_CONTRAST \<equiv> 40"
abbreviation (input) MP_CMD_TV_SET_HUE :: nat where "MP_CMD_TV_SET_HUE \<equiv> 41"
abbreviation (input) MP_CMD_TV_SET_SATURATION :: nat where "MP_CMD_TV_SET_SATURATION \<equiv> 42"
abbreviation (input) MP_CMD_GET_VO_FULLSCREEN :: nat where "MP_CMD_GET_VO_FULLSCREEN \<equiv> 43"
abbreviation (input) MP_CMD_GET_SUB_VISIBILITY :: nat where "MP_CMD_GET_SUB_VISIBILITY \<equiv> 44"
abbreviation (input) MP_CMD_SUB_FORCED_ONLY :: nat where "MP_CMD_SUB_FORCED_ONLY \<equiv> 45"
abbreviation (input) MP_CMD_VO_ONTOP :: nat where "MP_CMD_VO_ONTOP \<equiv> 46"
abbreviation (input) MP_CMD_SUB_SELECT :: nat where "MP_CMD_SUB_SELECT \<equiv> 47"
abbreviation (input) MP_CMD_VO_ROOTWIN :: nat where "MP_CMD_VO_ROOTWIN \<equiv> 48"
abbreviation (input) MP_CMD_SWITCH_VSYNC :: nat where "MP_CMD_SWITCH_VSYNC \<equiv> 49"
abbreviation (input) MP_CMD_SWITCH_RATIO :: nat where "MP_CMD_SWITCH_RATIO \<equiv> 50"
abbreviation (input) MP_CMD_FRAME_STEP :: nat where "MP_CMD_FRAME_STEP \<equiv> 51"
abbreviation (input) MP_CMD_SPEED_INCR :: nat where "MP_CMD_SPEED_INCR \<equiv> 52"
abbreviation (input) MP_CMD_SPEED_MULT :: nat where "MP_CMD_SPEED_MULT \<equiv> 53"
abbreviation (input) MP_CMD_SPEED_SET :: nat where "MP_CMD_SPEED_SET \<equiv> 54"
abbreviation (input) MP_CMD_RUN :: nat where "MP_CMD_RUN \<equiv> 55"
abbreviation (input) MP_CMD_SUB_LOG :: nat where "MP_CMD_SUB_LOG \<equiv> 56"
abbreviation (input) MP_CMD_SWITCH_AUDIO :: nat where "MP_CMD_SWITCH_AUDIO \<equiv> 57"
abbreviation (input) MP_CMD_GET_TIME_POS :: nat where "MP_CMD_GET_TIME_POS \<equiv> 58"
abbreviation (input) MP_CMD_SUB_LOAD :: nat where "MP_CMD_SUB_LOAD \<equiv> 59"
abbreviation (input) MP_CMD_SUB_REMOVE :: nat where "MP_CMD_SUB_REMOVE \<equiv> 60"
abbreviation (input) MP_CMD_KEYDOWN_EVENTS :: nat where "MP_CMD_KEYDOWN_EVENTS \<equiv> 61"
abbreviation (input) MP_CMD_VO_BORDER :: nat where "MP_CMD_VO_BORDER \<equiv> 62"
abbreviation (input) MP_CMD_SET_PROPERTY :: nat where "MP_CMD_SET_PROPERTY \<equiv> 63"
abbreviation (input) MP_CMD_SET_PROPERTY_OSD :: nat where "MP_CMD_SET_PROPERTY_OSD \<equiv> 64"
abbreviation (input) MP_CMD_GET_PROPERTY :: nat where "MP_CMD_GET_PROPERTY \<equiv> 65"
abbreviation (input) MP_CMD_OSD_SHOW_PROPERTY_TEXT :: nat where "MP_CMD_OSD_SHOW_PROPERTY_TEXT \<equiv> 66"
abbreviation (input) MP_CMD_OSD_SHOW_PROGRESSION :: nat where "MP_CMD_OSD_SHOW_PROGRESSION \<equiv> 67"
abbreviation (input) MP_CMD_SEEK_CHAPTER :: nat where "MP_CMD_SEEK_CHAPTER \<equiv> 68"
abbreviation (input) MP_CMD_GET_FILENAME :: nat where "MP_CMD_GET_FILENAME \<equiv> 69"
abbreviation (input) MP_CMD_GET_VIDEO_CODEC :: nat where "MP_CMD_GET_VIDEO_CODEC \<equiv> 70"
abbreviation (input) MP_CMD_GET_VIDEO_BITRATE :: nat where "MP_CMD_GET_VIDEO_BITRATE \<equiv> 71"
abbreviation (input) MP_CMD_GET_VIDEO_RESOLUTION :: nat where "MP_CMD_GET_VIDEO_RESOLUTION \<equiv> 72"
abbreviation (input) MP_CMD_GET_AUDIO_CODEC :: nat where "MP_CMD_GET_AUDIO_CODEC \<equiv> 73"
abbreviation (input) MP_CMD_GET_AUDIO_BITRATE :: nat where "MP_CMD_GET_AUDIO_BITRATE \<equiv> 74"
abbreviation (input) MP_CMD_GET_AUDIO_SAMPLES :: nat where "MP_CMD_GET_AUDIO_SAMPLES \<equiv> 75"
abbreviation (input) MP_CMD_GET_META_TITLE :: nat where "MP_CMD_GET_META_TITLE \<equiv> 76"
abbreviation (input) MP_CMD_GET_META_ARTIST :: nat where "MP_CMD_GET_META_ARTIST \<equiv> 77"
abbreviation (input) MP_CMD_GET_META_ALBUM :: nat where "MP_CMD_GET_META_ALBUM \<equiv> 78"
abbreviation (input) MP_CMD_GET_META_YEAR :: nat where "MP_CMD_GET_META_YEAR \<equiv> 79"
abbreviation (input) MP_CMD_GET_META_COMMENT :: nat where "MP_CMD_GET_META_COMMENT \<equiv> 80"
abbreviation (input) MP_CMD_GET_META_TRACK :: nat where "MP_CMD_GET_META_TRACK \<equiv> 81"
abbreviation (input) MP_CMD_GET_META_GENRE :: nat where "MP_CMD_GET_META_GENRE \<equiv> 82"
abbreviation (input) MP_CMD_RADIO_STEP_CHANNEL :: nat where "MP_CMD_RADIO_STEP_CHANNEL \<equiv> 83"
abbreviation (input) MP_CMD_RADIO_SET_CHANNEL :: nat where "MP_CMD_RADIO_SET_CHANNEL \<equiv> 84"
abbreviation (input) MP_CMD_RADIO_SET_FREQ :: nat where "MP_CMD_RADIO_SET_FREQ \<equiv> 85"
abbreviation (input) MP_CMD_SET_MOUSE_POS :: nat where "MP_CMD_SET_MOUSE_POS \<equiv> 86"
abbreviation (input) MP_CMD_STEP_PROPERTY :: nat where "MP_CMD_STEP_PROPERTY \<equiv> 87"
abbreviation (input) MP_CMD_STEP_PROPERTY_OSD :: nat where "MP_CMD_STEP_PROPERTY_OSD \<equiv> 88"
abbreviation (input) MP_CMD_RADIO_STEP_FREQ :: nat where "MP_CMD_RADIO_STEP_FREQ \<equiv> 89"
abbreviation (input) MP_CMD_TV_STEP_FREQ :: nat where "MP_CMD_TV_STEP_FREQ \<equiv> 90"
abbreviation (input) MP_CMD_LOOP :: nat where "MP_CMD_LOOP \<equiv> 91"
abbreviation (input) MP_CMD_BALANCE :: nat where "MP_CMD_BALANCE \<equiv> 92"
abbreviation (input) MP_CMD_SUB_SCALE :: nat where "MP_CMD_SUB_SCALE \<equiv> 93"
abbreviation (input) MP_CMD_TV_TELETEXT_ADD_DEC :: nat where "MP_CMD_TV_TELETEXT_ADD_DEC \<equiv> 94"
abbreviation (input) MP_CMD_TV_TELETEXT_GO_LINK :: nat where "MP_CMD_TV_TELETEXT_GO_LINK \<equiv> 95"
abbreviation (input) MP_CMD_TV_START_SCAN :: nat where "MP_CMD_TV_START_SCAN \<equiv> 96"
abbreviation (input) MP_CMD_SUB_SOURCE :: nat where "MP_CMD_SUB_SOURCE \<equiv> 97"
abbreviation (input) MP_CMD_SUB_FILE :: nat where "MP_CMD_SUB_FILE \<equiv> 98"
abbreviation (input) MP_CMD_SUB_VOB :: nat where "MP_CMD_SUB_VOB \<equiv> 99"
abbreviation (input) MP_CMD_SUB_DEMUX :: nat where "MP_CMD_SUB_DEMUX \<equiv> 100"
abbreviation (input) MP_CMD_SWITCH_ANGLE :: nat where "MP_CMD_SWITCH_ANGLE \<equiv> 101"
abbreviation (input) MP_CMD_ASS_USE_MARGINS :: nat where "MP_CMD_ASS_USE_MARGINS \<equiv> 102"
abbreviation (input) MP_CMD_SWITCH_TITLE :: nat where "MP_CMD_SWITCH_TITLE \<equiv> 103"
abbreviation (input) MP_CMD_STOP :: nat where "MP_CMD_STOP \<equiv> 104"
abbreviation (input) MP_CMD_DVDNAV_UP :: nat where "MP_CMD_DVDNAV_UP \<equiv> 1000"
abbreviation (input) MP_CMD_DVDNAV_DOWN :: nat where "MP_CMD_DVDNAV_DOWN \<equiv> 1001"
abbreviation (input) MP_CMD_DVDNAV_LEFT :: nat where "MP_CMD_DVDNAV_LEFT \<equiv> 1002"
abbreviation (input) MP_CMD_DVDNAV_RIGHT :: nat where "MP_CMD_DVDNAV_RIGHT \<equiv> 1003"
abbreviation (input) MP_CMD_DVDNAV_MENU :: nat where "MP_CMD_DVDNAV_MENU \<equiv> 1004"
abbreviation (input) MP_CMD_DVDNAV_SELECT :: nat where "MP_CMD_DVDNAV_SELECT \<equiv> 1005"
abbreviation (input) MP_CMD_DVDNAV_PREVMENU :: nat where "MP_CMD_DVDNAV_PREVMENU \<equiv> 1006"
abbreviation (input) MP_CMD_DVDNAV_MOUSECLICK :: nat where "MP_CMD_DVDNAV_MOUSECLICK \<equiv> 1007"
abbreviation (input) MP_CMD_DVB_SET_CHANNEL :: nat where "MP_CMD_DVB_SET_CHANNEL \<equiv> 5101"
abbreviation (input) MP_CMD_AF_SWITCH :: nat where "MP_CMD_AF_SWITCH \<equiv> 5102"
abbreviation (input) MP_CMD_AF_ADD :: nat where "MP_CMD_AF_ADD \<equiv> 5103"
abbreviation (input) MP_CMD_AF_DEL :: nat where "MP_CMD_AF_DEL \<equiv> 5104"
abbreviation (input) MP_CMD_AF_CLR :: nat where "MP_CMD_AF_CLR \<equiv> 5105"
abbreviation (input) MP_CMD_AF_CMDLINE :: nat where "MP_CMD_AF_CMDLINE \<equiv> 5106"

subsection \<open>Arguments and commands\<close>

abbreviation (input) MP_CMD_ARG_INT :: nat where "MP_CMD_ARG_INT \<equiv> 1"
abbreviation (input) MP_CMD_ARG_FLOAT :: nat where "MP_CMD_ARG_FLOAT \<equiv> 2"
abbreviation (input) MP_CMD_ARG_STRING :: nat where "MP_CMD_ARG_STRING \<equiv> 3"
abbreviation (input) MP_CMD_MAX_ARGS :: nat where "MP_CMD_MAX_ARGS \<equiv> 10"

type_synonym c_float = "32 word"

datatype arg_val = V_i int | V_f c_float | V_s string

record mp_cmd_arg =
  arg_type :: nat
  arg_optional :: bool
  arg_v :: arg_val

text \<open>The fields carry their structure's name as a prefix; an \<open>args\<close> array has ten elements.\<close>

record mp_cmd =
  cmd_id :: nat
  cmd_name :: string
  cmd_args :: "mp_cmd_arg list"
  cmd_nargs :: nat
  cmd_pausing :: nat

text \<open>A zero-initialised element of an \<open>args\<close> array.\<close>

definition zero_arg :: mp_cmd_arg where
  "zero_arg = \<lparr>arg_type = 0, arg_optional = False, arg_v = V_i 0\<rparr>"

definition ARG_INT :: mp_cmd_arg where
  "ARG_INT = \<lparr>arg_type = MP_CMD_ARG_INT, arg_optional = False, arg_v = V_i 0\<rparr>"

definition OARG_INT :: "int \<Rightarrow> mp_cmd_arg" where
  "OARG_INT d = \<lparr>arg_type = MP_CMD_ARG_INT, arg_optional = True, arg_v = V_i d\<rparr>"

definition ARG_FLOAT :: mp_cmd_arg where
  "ARG_FLOAT = \<lparr>arg_type = MP_CMD_ARG_FLOAT, arg_optional = False, arg_v = V_i 0\<rparr>"

definition OARG_FLOAT :: "c_float \<Rightarrow> mp_cmd_arg" where
  "OARG_FLOAT d = \<lparr>arg_type = MP_CMD_ARG_FLOAT, arg_optional = True, arg_v = V_f d\<rparr>"

definition ARG_STRING :: mp_cmd_arg where
  "ARG_STRING = \<lparr>arg_type = MP_CMD_ARG_STRING, arg_optional = False, arg_v = V_i 0\<rparr>"

subsection \<open>The table\<close>

type_synonym cmd_def = "nat \<times> string \<times> mp_cmd_arg list"

definition mp_cmds :: "cmd_def list" where
  "mp_cmds =
     [(MP_CMD_RADIO_STEP_CHANNEL, ''radio_step_channel'', [ARG_INT]),
      (MP_CMD_RADIO_SET_CHANNEL, ''radio_set_channel'', [ARG_STRING]),
      (MP_CMD_RADIO_SET_FREQ, ''radio_set_freq'', [ARG_FLOAT]),
      (MP_CMD_RADIO_STEP_FREQ, ''radio_step_freq'', [ARG_FLOAT]),
      (MP_CMD_SEEK, ''seek'', [ARG_FLOAT, OARG_INT 0, OARG_INT 0]),
      (MP_CMD_EDL_MARK, ''edl_mark'', []),
      (MP_CMD_AUDIO_DELAY, ''audio_delay'', [ARG_FLOAT, OARG_INT 0]),
      (MP_CMD_SPEED_INCR, ''speed_incr'', [ARG_FLOAT]),
      (MP_CMD_SPEED_MULT, ''speed_mult'', [ARG_FLOAT]),
      (MP_CMD_SPEED_SET, ''speed_set'', [ARG_FLOAT]),
      (MP_CMD_QUIT, ''quit'', [OARG_INT 0]),
      (MP_CMD_STOP, ''stop'', []),
      (MP_CMD_PAUSE, ''pause'', []),
      (MP_CMD_FRAME_STEP, ''frame_step'', []),
      (MP_CMD_PLAY_TREE_STEP, ''pt_step'', [ARG_INT, OARG_INT 0]),
      (MP_CMD_PLAY_TREE_UP_STEP, ''pt_up_step'', [ARG_INT, OARG_INT 0]),
      (MP_CMD_PLAY_ALT_SRC_STEP, ''alt_src_step'', [ARG_INT]),
      (MP_CMD_LOOP, ''loop'', [ARG_INT, OARG_INT 0]),
      (MP_CMD_SUB_DELAY, ''sub_delay'', [ARG_FLOAT, OARG_INT 0]),
      (MP_CMD_OSD, ''osd'', [OARG_INT (-1)]),
      (MP_CMD_OSD_SHOW_TEXT, ''osd_show_text'', [ARG_STRING, OARG_INT (-1), OARG_INT 0]),
      (MP_CMD_OSD_SHOW_PROPERTY_TEXT, ''osd_show_property_text'', [ARG_STRING, OARG_INT (-1), OARG_INT 0]),
      (MP_CMD_OSD_SHOW_PROGRESSION, ''osd_show_progression'', []),
      (MP_CMD_VOLUME, ''volume'', [ARG_FLOAT, OARG_INT 0]),
      (MP_CMD_BALANCE, ''balance'', [ARG_FLOAT, OARG_INT 0]),
      (MP_CMD_MUTE, ''mute'', [OARG_INT (-1)]),
      (MP_CMD_CONTRAST, ''contrast'', [ARG_INT, OARG_INT 0]),
      (MP_CMD_GAMMA, ''gamma'', [ARG_INT, OARG_INT 0]),
      (MP_CMD_BRIGHTNESS, ''brightness'', [ARG_INT, OARG_INT 0]),
      (MP_CMD_HUE, ''hue'', [ARG_INT, OARG_INT 0]),
      (MP_CMD_SATURATION, ''saturation'', [ARG_INT, OARG_INT 0]),
      (MP_CMD_FRAMEDROPPING, ''frame_drop'', [OARG_INT (-1)]),
      (MP_CMD_SUB_POS, ''sub_pos'', [ARG_INT, OARG_INT 0]),
      (MP_CMD_SUB_ALIGNMENT, ''sub_alignment'', [OARG_INT (-1)]),
      (MP_CMD_SUB_VISIBILITY, ''sub_visibility'', [OARG_INT (-1)]),
      (MP_CMD_SUB_LOAD, ''sub_load'', [ARG_STRING]),
      (MP_CMD_SUB_REMOVE, ''sub_remove'', [OARG_INT (-1)]),
      (MP_CMD_SUB_SELECT, ''vobsub_lang'', [OARG_INT (-2)]),
      (MP_CMD_SUB_SELECT, ''sub_select'', [OARG_INT (-2)]),
      (MP_CMD_SUB_SOURCE, ''sub_source'', [OARG_INT (-2)]),
      (MP_CMD_SUB_VOB, ''sub_vob'', [OARG_INT (-2)]),
      (MP_CMD_SUB_DEMUX, ''sub_demux'', [OARG_INT (-2)]),
      (MP_CMD_SUB_FILE, ''sub_file'', [OARG_INT (-2)]),
      (MP_CMD_SUB_LOG, ''sub_log'', []),
      (MP_CMD_SUB_SCALE, ''sub_scale'', [ARG_FLOAT, OARG_INT 0]),
      (MP_CMD_ASS_USE_MARGINS, ''ass_use_margins'', [OARG_INT (-1)]),
      (MP_CMD_GET_PERCENT_POS, ''get_percent_pos'', []),
      (MP_CMD_GET_TIME_POS, ''get_time_pos'', []),
      (MP_CMD_GET_TIME_LENGTH, ''get_time_length'', []),
      (MP_CMD_GET_FILENAME, ''get_file_name'', []),
      (MP_CMD_GET_VIDEO_CODEC, ''get_video_codec'', []),
      (MP_CMD_GET_VIDEO_BITRATE, ''get_video_bitrate'', []),
      (MP_CMD_GET_VIDEO_RESOLUTION, ''get_video_resolution'', []),
      (MP_CMD_GET_AUDIO_CODEC, ''get_audio_codec'', []),
      (MP_CMD_GET_AUDIO_BITRATE, ''get_audio_bitrate'', []),
      (MP_CMD_GET_AUDIO_SAMPLES, ''get_audio_samples'', []),
      (MP_CMD_GET_META_TITLE, ''get_meta_title'', []),
      (MP_CMD_GET_META_ARTIST, ''get_meta_artist'', []),
      (MP_CMD_GET_META_ALBUM, ''get_meta_album'', []),
      (MP_CMD_GET_META_YEAR, ''get_meta_year'', []),
      (MP_CMD_GET_META_COMMENT, ''get_meta_comment'', []),
      (MP_CMD_GET_META_TRACK, ''get_meta_track'', []),
      (MP_CMD_GET_META_GENRE, ''get_meta_genre'', []),
      (MP_CMD_SWITCH_AUDIO, ''switch_audio'', [OARG_INT (-1)]),
      (MP_CMD_SWITCH_ANGLE, ''switch_angle'', [OARG_INT (-1)]),
      (MP_CMD_SWITCH_TITLE, ''switch_title'', [OARG_INT (-1)]),
      (MP_CMD_TV_START_SCAN, ''tv_start_scan'', []),
      (MP_CMD_TV_STEP_CHANNEL, ''tv_step_channel'', [ARG_INT]),
      (MP_CMD_TV_STEP_NORM, ''tv_step_norm'', []),
      (MP_CMD_TV_STEP_CHANNEL_LIST, ''tv_step_chanlist'', []),
      (MP_CMD_TV_SET_CHANNEL, ''tv_set_channel'', [ARG_STRING]),
      (MP_CMD_TV_LAST_CHANNEL, ''tv_last_channel'', []),
      (MP_CMD_TV_SET_FREQ, ''tv_set_freq'', [ARG_FLOAT]),
      (MP_CMD_TV_STEP_FREQ, ''tv_step_freq'', [ARG_FLOAT]),
      (MP_CMD_TV_SET_NORM, ''tv_set_norm'', [ARG_STRING]),
      (MP_CMD_TV_SET_BRIGHTNESS, ''tv_set_brightness'', [ARG_INT, OARG_INT 1]),
      (MP_CMD_TV_SET_CONTRAST, ''tv_set_contrast'', [ARG_INT, OARG_INT 1]),
      (MP_CMD_TV_SET_HUE, ''tv_set_hue'', [ARG_INT, OARG_INT 1]),
      (MP_CMD_TV_SET_SATURATION, ''tv_set_saturation'', [ARG_INT, OARG_INT 1]),
      (MP_CMD_SUB_FORCED_ONLY, ''forced_subs_only'', [OARG_INT (-1)]),
      (MP_CMD_DVB_SET_CHANNEL, ''dvb_set_channel'', [ARG_INT, ARG_INT]),
      (MP_CMD_SWITCH_RATIO, ''switch_ratio'', [OARG_FLOAT 0]),
      (MP_CMD_VO_FULLSCREEN, ''vo_fullscreen'', [OARG_INT (-1)]),
      (MP_CMD_VO_ONTOP, ''vo_ontop'', [OARG_INT (-1)]),
      (MP_CMD_VO_ROOTWIN, ''vo_rootwin'', [OARG_INT (-1)]),
      (MP_CMD_VO_BORDER, ''vo_border'', [OARG_INT (-1)]),
      (MP_CMD_SCREENSHOT, ''screenshot'', [OARG_INT 0, OARG_INT 0]),
      (MP_CMD_PANSCAN, ''panscan'', [ARG_FLOAT, OARG_INT 0]),
      (MP_CMD_SWITCH_VSYNC, ''switch_vsync'', [OARG_INT 0]),
      (MP_CMD_LOADFILE, ''loadfile'', [ARG_STRING, OARG_INT 0]),
      (MP_CMD_LOADLIST, ''loadlist'', [ARG_STRING, OARG_INT 0]),
      (MP_CMD_RUN, ''run'', [ARG_STRING]),
      (MP_CMD_CAPTURING, ''capturing'', []),
      (MP_CMD_VF_CHANGE_RECTANGLE, ''change_rectangle'', [ARG_INT, ARG_INT]),
      (MP_CMD_TV_TELETEXT_ADD_DEC, ''teletext_add_dec'', [ARG_STRING]),
      (MP_CMD_TV_TELETEXT_GO_LINK, ''teletext_go_link'', [ARG_INT]),
      (MP_CMD_DVDNAV, ''dvdnav'', [ARG_STRING]),
      (MP_CMD_GET_VO_FULLSCREEN, ''get_vo_fullscreen'', []),
      (MP_CMD_GET_SUB_VISIBILITY, ''get_sub_visibility'', []),
      (MP_CMD_KEYDOWN_EVENTS, ''key_down_event'', [ARG_INT]),
      (MP_CMD_SET_PROPERTY, ''set_property'', [ARG_STRING, ARG_STRING]),
      (MP_CMD_SET_PROPERTY_OSD, ''set_property_osd'', [ARG_STRING, ARG_STRING]),
      (MP_CMD_GET_PROPERTY, ''get_property'', [ARG_STRING]),
      (MP_CMD_STEP_PROPERTY, ''step_property'', [ARG_STRING, OARG_FLOAT 0]),
      (MP_CMD_STEP_PROPERTY_OSD, ''step_property_osd'', [ARG_STRING, OARG_FLOAT 0]),
      (MP_CMD_SEEK_CHAPTER, ''seek_chapter'', [ARG_INT, OARG_INT 0]),
      (MP_CMD_SET_MOUSE_POS, ''set_mouse_pos'', [ARG_INT, ARG_INT]),
      (MP_CMD_AF_SWITCH, ''af_switch'', [ARG_STRING]),
      (MP_CMD_AF_ADD, ''af_add'', [ARG_STRING]),
      (MP_CMD_AF_DEL, ''af_del'', [ARG_STRING]),
      (MP_CMD_AF_CLR, ''af_clr'', []),
      (MP_CMD_AF_CMDLINE, ''af_cmdline'', [ARG_STRING, ARG_STRING])]"

end
