(* ===== verification/Cmd_Parse.thy ===== *)
theory Cmd_Parse
  imports Cmd_Table
begin

text \<open>
  The command parser \<open>mp_input_parse_cmd\<close> of \<open>input/input.c\<close>, with \<open>mp_cmd_clone\<close>,
  and its properties: which table entry a command word selects, the number of arguments a
  parsed command has, the defaults, and the round trip of printed commands. \<open>atof\<close> is
  an argument of the definitions: it gives the value of the float at the start of a
  string, or \<open>None\<close> when it sets \<open>errno\<close>.
\<close>

subsection \<open>Scanning\<close>

definition is_blank :: "char \<Rightarrow> bool" where
  "is_blank c = (c = CHR '' '' \<or> c = TAB)"

text \<open>
  \<open>atoi\<close> is \<open>(int) strtol (s, NULL, 10)\<close>: it sets \<open>errno\<close> (here \<open>None\<close>) when the
  number does not fit a \<open>long\<close>, and is truncated when it does not fit an \<open>int\<close>.
\<close>

definition c_atoi :: "string \<Rightarrow> int option" where
  "c_atoi s =
     (let s1 = dropWhile c_isspace s;
          neg = (case s1 of c # _ \<Rightarrow> c = CHR ''-'' | [] \<Rightarrow> False);
          s2 = (case s1 of c # r \<Rightarrow> if c = CHR ''-'' \<or> c = CHR ''+'' then r else s1 | [] \<Rightarrow> []);
          n = int (digits_value 10 (takeWhile (is_digit_in 10) s2));
          i = (if neg then - n else n)
      in if i < LLONG_MIN \<or> LLONG_MAX < i then None else Some (c_int i))"

text \<open>
  The loop that copies a string argument. \<open>term\<close> ends it: a space, or the quote the
  argument began with. The result is the argument and the rest of the text, which begins
  with the terminator; \<open>None\<close> is an unterminated quoted string.
\<close>

fun parse_string_arg :: "char \<Rightarrow> string \<Rightarrow> (string \<times> string) option" where
  "parse_string_arg t [] = (if t = CHR '' '' then Some ([], []) else None)"
| "parse_string_arg t [c] =
     (if c = t then Some ([], [c])
      else if c = CHR 0x5C then parse_string_arg t []
      else map_option (apfst ((#) c)) (parse_string_arg t []))"
| "parse_string_arg t (c # d # s) =
     (if c = t then Some ([], c # d # s)
      else if c = CHR 0x5C then map_option (apfst ((#) d)) (parse_string_arg t s)
      else map_option (apfst ((#) c)) (parse_string_arg t (d # s)))"

subsection \<open>The parser\<close>

text \<open>The modes of the \<open>pausing\<close> prefixes and the rest of the string.\<close>

definition strip_pausing :: "string \<Rightarrow> nat \<times> string" where
  "strip_pausing str =
     (if take 8 str = ''pausing '' then (1, drop 8 str)
      else if take 13 str = ''pausing_keep '' then (2, drop 13 str)
      else if take 15 str = ''pausing_toggle '' then (3, drop 15 str)
      else if take 19 str = ''pausing_keep_force '' then (4, drop 19 str)
      else (0, str))"

text \<open>One argument of the given type at \<open>ptr\<close>: its value and where the pointer is left.\<close>

definition parse_arg :: "(string \<Rightarrow> c_float option) \<Rightarrow> nat \<Rightarrow> string \<Rightarrow> (arg_val \<times> string) option" where
  "parse_arg atof t ptr =
     (if t = MP_CMD_ARG_INT then map_option (\<lambda>i. (V_i i, ptr)) (c_atoi ptr)
      else if t = MP_CMD_ARG_FLOAT then map_option (\<lambda>f. (V_f f, ptr)) (atof ptr)
      else let (t, ptr) = (if ptr \<noteq> [] \<and> (hd ptr = CHR 0x27 \<or> hd ptr = CHR 0x22) then (hd ptr, tl ptr)
                           else (CHR '' '', ptr))
           in map_option (apfst V_s) (parse_string_arg t ptr))"

text \<open>
  The argument loop, over the argument types of the table entry (a type of 0 behind the
  last). The result is the parsed arguments; \<open>None\<close> is the jump to \<open>error\<close>. An
  argument where the entry has none ends the loop, but only after it was counted.
\<close>

fun parse_args :: "(string \<Rightarrow> c_float option) \<Rightarrow> mp_cmd_arg list \<Rightarrow> string \<Rightarrow> mp_cmd_arg list option" where
  "parse_args atof [] ptr = Some []"
| "parse_args atof (d # ds) ptr =
     (let ptr = dropWhile (\<lambda>c. \<not> is_blank c) ptr
      in if ptr = [] then Some []
         else let ptr = dropWhile is_blank ptr
              in if ptr = [] \<or> hd ptr = CHR ''#'' then Some []
                 else if arg_type d = 0 then Some [zero_arg]
                 else case parse_arg atof (arg_type d) ptr of
                     None \<Rightarrow> None
                   | Some (x, ptr) \<Rightarrow>
                       map_option ((#) \<lparr>arg_type = arg_type d, arg_optional = False, arg_v = x\<rparr>)
                         (parse_args atof ds ptr))"

text \<open>The \<open>args\<close> array of a table entry, filled up with zeros.\<close>

definition full_args :: "mp_cmd_arg list \<Rightarrow> mp_cmd_arg list" where
  "full_args ds = take MP_CMD_MAX_ARGS (ds @ replicate MP_CMD_MAX_ARGS zero_arg)"

definition min_args :: "mp_cmd_arg list \<Rightarrow> nat" where
  "min_args ds = length (takeWhile (\<lambda>d. arg_type d \<noteq> 0 \<and> \<not> arg_optional d) ds)"

text \<open>The first entry whose name agrees with the command word on the length of the word.\<close>

definition find_cmd :: "string \<Rightarrow> cmd_def option" where
  "find_cmd word = find (\<lambda>(_, name, _). c_strncaseeq name word (length word)) mp_cmds"

definition mp_input_parse_cmd :: "(string \<Rightarrow> c_float option) \<Rightarrow> string \<Rightarrow> mp_cmd option" where
  "mp_input_parse_cmd atof str =
     (let (pausing, str) = strip_pausing (dropWhile is_blank str);
          word = takeWhile (\<lambda>c. \<not> is_blank c) str
      in if word = [] then None
         else case find_cmd word of
             None \<Rightarrow> None
           | Some (cid, name, ds) \<Rightarrow>
               (case parse_args atof (full_args ds) str of
                  None \<Rightarrow> None
                | Some as \<Rightarrow>
                    (if length as < min_args (full_args ds) then None
                     else Some \<lparr>cmd_id = cid, cmd_name = name,
                            cmd_args = full_args (as @ takeWhile (\<lambda>d. arg_type d \<noteq> 0)
                                                         (drop (length as) (full_args ds))),
                            cmd_nargs = length as, cmd_pausing = pausing\<rparr>)))"

subsection \<open>The table\<close>

definition entry_ok :: "cmd_def \<Rightarrow> bool" where
  "entry_ok e = (case e of (_, name, ds) \<Rightarrow>
     name \<noteq> [] \<and> list_all (\<lambda>c. c_tolower c = c \<and> \<not> is_blank c) name \<and> take 8 name \<noteq> ''pausing ''
     \<and> length ds \<le> MP_CMD_MAX_ARGS \<and> list_all (\<lambda>d. arg_type d \<in> {1, 2, 3}) ds)"

lemma mp_cmds_ok: "list_all entry_ok mp_cmds"
  by code_simp (*slow*)

fun no_early_prefix :: "string list \<Rightarrow> bool" where
  "no_early_prefix [] = True"
| "no_early_prefix (n # ns) = (list_all (\<lambda>m. \<not> prefix m n) ns \<and> no_early_prefix ns)"

text \<open>No command's name is a proper beginning, or a repetition, of an earlier one's.\<close>

lemma mp_cmds_no_early_prefix: "no_early_prefix (map (\<lambda>(_, n, _). n) mp_cmds)"
  by code_simp (*slow*)

lemma entry_okD:
  assumes "(cid, name, ds) \<in> set mp_cmds"
  shows "name \<noteq> []" and "map c_tolower name = name" and "\<forall>c\<in>set name. \<not> is_blank c"
    and "take 8 name \<noteq> ''pausing ''" and "length ds \<le> MP_CMD_MAX_ARGS"
    and "\<forall>d\<in>set ds. arg_type d = MP_CMD_ARG_INT \<or> arg_type d = MP_CMD_ARG_FLOAT \<or> arg_type d = MP_CMD_ARG_STRING"
proof -
  have "entry_ok (cid, name, ds)" using mp_cmds_ok assms by (auto simp: list_all_iff)
  then show "name \<noteq> []" and "map c_tolower name = name" and "\<forall>c\<in>set name. \<not> is_blank c"
    and "take 8 name \<noteq> ''pausing ''" and "length ds \<le> MP_CMD_MAX_ARGS"
    and "\<forall>d\<in>set ds. arg_type d = MP_CMD_ARG_INT \<or> arg_type d = MP_CMD_ARG_FLOAT \<or> arg_type d = MP_CMD_ARG_STRING"
    by (auto simp: entry_ok_def list_all_iff intro: map_idI)
qed

lemma c_strncaseeq_lower:
  assumes "map c_tolower n = n" and "map c_tolower m = m"
  shows "c_strncaseeq n m (length m) \<longleftrightarrow> prefix m n"
proof -
  have "c_strncaseeq n m (length m) \<longleftrightarrow> take (length m) n = m"
    using assms by (simp add: c_strncaseeq_def c_strcaseeq_def take_map [symmetric])
  also have "\<dots> \<longleftrightarrow> prefix m n" by (metis append_eq_conv_conj prefix_def take_is_prefix)
  finally show ?thesis .
qed

lemma find_first_of_name:
  "no_early_prefix (map (\<lambda>(_, n, _). n) es) \<Longrightarrow>
   (\<forall>(_, n, _)\<in>set es. map c_tolower n = n) \<Longrightarrow> (cid, name, ds) \<in> set es \<Longrightarrow>
   find (\<lambda>(_, n, _). c_strncaseeq n name (length name)) es = Some (cid, name, ds)"
proof (induction es)
  case (Cons e es)
  obtain cid' n' ds' where e: "e = (cid', n', ds')" by (cases e)
  have nl: "map c_tolower name = name" and n'l: "map c_tolower n' = n'"
    using Cons.prems(2,3) by (auto simp: e)
  note p = c_strncaseeq_lower [OF n'l nl]
  show ?case
  proof (cases "(cid, name, ds) = e")
    case True
    then show ?thesis using p by (simp add: e)
  next
    case False
    then have "(cid, name, ds) \<in> set es" using Cons.prems(3) by simp
    moreover from this have "\<not> prefix name n'"
      using Cons.prems(1) by (force simp: e list_all_iff)
    ultimately show ?thesis using Cons p by (simp add: e)
  qed
qed simp

lemma find_cmd_name:
  assumes "(cid, name, ds) \<in> set mp_cmds"
  shows "find_cmd name = Some (cid, name, ds)"
  unfolding find_cmd_def
  by (rule find_first_of_name [OF mp_cmds_no_early_prefix _ assms]) (use entry_okD(2) in blast)

lemma find_cmd_in_table: "find_cmd w = Some e \<Longrightarrow> e \<in> set mp_cmds"
  unfolding find_cmd_def by (metis find_Some_iff nth_mem)

subsection \<open>The arguments of a parsed command\<close>

lemma parse_args_types:
  "parse_args atof ds ptr = Some as \<Longrightarrow>
   length as \<le> length ds \<and> map arg_type as = take (length as) (map arg_type ds)"
proof (induction atof ds ptr arbitrary: as rule: parse_args.induct)
  case (2 atof d ds ptr)
  then show ?case
    by (auto simp: Let_def zero_arg_def split: if_splits option.splits)
qed simp

lemma length_full_args [simp]: "length (full_args ds) = MP_CMD_MAX_ARGS"
  by (simp add: full_args_def)

lemma full_args_types:
  assumes "length ds \<le> MP_CMD_MAX_ARGS"
  shows "map arg_type (full_args ds) = map arg_type ds @ replicate (MP_CMD_MAX_ARGS - length ds) 0"
proof -
  have "take (MP_CMD_MAX_ARGS - length ds) (replicate MP_CMD_MAX_ARGS (0::nat)) = replicate (MP_CMD_MAX_ARGS - length ds) 0"
    by (simp only: take_replicate) simp
  with assms show ?thesis
    by (simp add: full_args_def take_map [symmetric] zero_arg_def del: take_replicate)
qed

lemma arg_type_zero_arg [simp]: "arg_type zero_arg = 0"
  by (simp add: zero_arg_def)

lemma drop_full_args:
  assumes "length ds \<le> MP_CMD_MAX_ARGS" and "\<forall>d\<in>set ds. arg_type d \<noteq> 0"
  shows "takeWhile (\<lambda>d. arg_type d \<noteq> 0) (drop k (full_args ds)) = drop k ds"
proof -
  have f: "full_args ds = ds @ replicate (MP_CMD_MAX_ARGS - length ds) zero_arg"
    using assms(1) by (simp add: full_args_def)
  have z: "takeWhile (\<lambda>d. arg_type d \<noteq> 0) (replicate j zero_arg) = []" for j
    by (cases j) simp_all
  have "\<forall>d\<in>set (drop k ds). arg_type d \<noteq> 0" using assms(2) by (meson in_set_dropD)
  then show ?thesis unfolding f drop_append drop_replicate
    by (simp add: takeWhile_append z takeWhile_all)
qed

lemma filled_types:
  assumes "length ds \<le> MP_CMD_MAX_ARGS" and "\<forall>d\<in>set ds. arg_type d \<noteq> 0"
    and "map arg_type as = take (length as) (map arg_type (full_args ds))" and "length as \<le> MP_CMD_MAX_ARGS"
  shows "map arg_type (full_args (as @ drop (length as) ds)) = map arg_type (full_args ds)"
proof -
  let ?k = "length as" and ?T = "map arg_type ds"
  have as: "map arg_type as = take ?k ?T @ replicate (?k - length ds) 0"
    using assms(1,3,4) by (simp only: full_args_types [OF assms(1)] take_append take_replicate length_map)
      (simp add: min_def)
  have "map arg_type (as @ drop ?k ds) = ?T @ replicate (?k - length ds) 0"
    by (cases "?k \<le> length ds") (simp_all add: as drop_map [symmetric])
  moreover have "length (as @ drop ?k ds) \<le> MP_CMD_MAX_ARGS"
    using assms(1,4) by simp
  ultimately have "map arg_type (full_args (as @ drop ?k ds))
      = ?T @ replicate (?k - length ds) 0 @ replicate (MP_CMD_MAX_ARGS - length (as @ drop ?k ds)) 0"
    by (simp add: full_args_types del: map_append length_append)
  also have "\<dots> = map arg_type (full_args ds)"
    using assms(1,4) by (simp add: full_args_types [OF assms(1)] replicate_add [symmetric])
  finally show ?thesis .
qed

lemma parse_cmd_cases:
  assumes "mp_input_parse_cmd atof str = Some c"
  obtains p rest cid name ds as where "strip_pausing (dropWhile is_blank str) = (p, rest)"
    "find_cmd (takeWhile (\<lambda>c. \<not> is_blank c) rest) = Some (cid, name, ds)"
    "parse_args atof (full_args ds) rest = Some as" "min_args (full_args ds) \<le> length as"
    "c = \<lparr>cmd_id = cid, cmd_name = name, cmd_args = full_args (as @ drop (length as) ds),
          cmd_nargs = length as, cmd_pausing = p\<rparr>"
proof -
  obtain p rest where s: "strip_pausing (dropWhile is_blank str) = (p, rest)" by fastforce
  with assms obtain cid name ds as where
    f: "find_cmd (takeWhile (\<lambda>c. \<not> is_blank c) rest) = Some (cid, name, ds)"
    and a: "parse_args atof (full_args ds) rest = Some as" "min_args (full_args ds) \<le> length as"
    and c: "c = \<lparr>cmd_id = cid, cmd_name = name,
          cmd_args = full_args (as @ takeWhile (\<lambda>d. arg_type d \<noteq> 0) (drop (length as) (full_args ds))),
          cmd_nargs = length as, cmd_pausing = p\<rparr>"
    by (auto simp: mp_input_parse_cmd_def Let_def split: if_splits option.splits)
  have "\<forall>d\<in>set ds. arg_type d \<noteq> 0" "length ds \<le> MP_CMD_MAX_ARGS"
    using entry_okD(5,6) [OF find_cmd_in_table [OF f]] by auto
  from c drop_full_args [OF this(2,1)] show ?thesis
    by (intro that [OF s f a]) simp
qed

text \<open>
  C33: A parsed command is well-formed: its identifier and name are those of a table entry,
  its argument array has ten elements whose types are the entry's, it has at least the
  mandatory arguments and at most ten, and its pausing mode is one of the five.
\<close>

theorem parse_cmd_well_formed:
  assumes "mp_input_parse_cmd atof str = Some c"
  shows "\<exists>ds. (cmd_id c, cmd_name c, ds) \<in> set mp_cmds \<and> length (cmd_args c) = MP_CMD_MAX_ARGS
    \<and> map arg_type (cmd_args c) = map arg_type (full_args ds)
    \<and> min_args (full_args ds) \<le> cmd_nargs c \<and> cmd_nargs c \<le> MP_CMD_MAX_ARGS \<and> cmd_pausing c \<le> 4"
  using assms
proof (rule parse_cmd_cases)
  fix p rest cid name ds as
  assume s: "strip_pausing (dropWhile is_blank str) = (p, rest)"
    and f: "find_cmd (takeWhile (\<lambda>c. \<not> is_blank c) rest) = Some (cid, name, ds)"
    and a: "parse_args atof (full_args ds) rest = Some as" "min_args (full_args ds) \<le> length as"
    and c: "c = \<lparr>cmd_id = cid, cmd_name = name, cmd_args = full_args (as @ drop (length as) ds),
          cmd_nargs = length as, cmd_pausing = p\<rparr>"
  note e = find_cmd_in_table [OF f]
  have "p \<le> 4" using s by (auto simp: strip_pausing_def split: if_splits)
  moreover have "map arg_type (full_args (as @ drop (length as) ds)) = map arg_type (full_args ds)"
    using parse_args_types [OF a(1)] entry_okD(5,6) [OF e] by (intro filled_types) auto
  ultimately show ?thesis
    using e a(2) parse_args_types [OF a(1)] by (auto simp: c)
qed

lemma parse_cmd_well_formed_witness:
  "mp_input_parse_cmd (\<lambda>_. None) ''  volum 7'' = None
   \<and> (\<exists>ds. (MP_CMD_OSD, ''osd'', ds) \<in> set mp_cmds \<and> min_args (full_args ds) \<le> 1)"
proof
  show "mp_input_parse_cmd (\<lambda>_. None) ''  volum 7'' = None" by code_simp
  have "mp_input_parse_cmd (\<lambda>_. None) ''os 1'' = Some \<lparr>cmd_id = MP_CMD_OSD, cmd_name = ''osd'',
      cmd_args = full_args [\<lparr>arg_type = MP_CMD_ARG_INT, arg_optional = False, arg_v = V_i 1\<rparr>],
      cmd_nargs = 1, cmd_pausing = 0\<rparr>"
    by code_simp
  from parse_cmd_well_formed [OF this] show "\<exists>ds. (MP_CMD_OSD, ''osd'', ds) \<in> set mp_cmds \<and> min_args (full_args ds) \<le> 1"
    by auto
qed

subsection \<open>The round trip\<close>

definition arg_of :: "arg_val \<Rightarrow> mp_cmd_arg" where
  "arg_of a = \<lparr>arg_type = (case a of V_i _ \<Rightarrow> MP_CMD_ARG_INT | V_f _ \<Rightarrow> MP_CMD_ARG_FLOAT | V_s _ \<Rightarrow> MP_CMD_ARG_STRING),
     arg_optional = False, arg_v = a\<rparr>"

definition quote_arg :: "string \<Rightarrow> string" where
  "quote_arg s = concat (map (\<lambda>c. if c = CHR 0x22 \<or> c = CHR 0x5C then [CHR 0x5C, c] else [c]) s)"

definition print_arg :: "(c_float \<Rightarrow> string) \<Rightarrow> arg_val \<Rightarrow> string" where
  "print_arg fmt a = (case a of V_i i \<Rightarrow> c_print_int i | V_f f \<Rightarrow> fmt f
     | V_s s \<Rightarrow> CHR 0x22 # quote_arg s @ [CHR 0x22])"

definition print_args :: "(c_float \<Rightarrow> string) \<Rightarrow> arg_val list \<Rightarrow> string" where
  "print_args fmt as = concat (map (\<lambda>a. CHR '' '' # print_arg fmt a) as)"

definition pausing_prefix :: "nat \<Rightarrow> string" where
  "pausing_prefix p = (if p = 1 then ''pausing '' else if p = 2 then ''pausing_keep ''
     else if p = 3 then ''pausing_toggle '' else if p = 4 then ''pausing_keep_force '' else '''')"

definition printable :: "(string \<Rightarrow> c_float option) \<Rightarrow> (c_float \<Rightarrow> string) \<Rightarrow> arg_val \<Rightarrow> bool" where
  "printable atof fmt a = (case a of
     V_i i \<Rightarrow> - (2 ^ 31) \<le> i \<and> i < 2 ^ 31
   | V_f f \<Rightarrow> fmt f \<noteq> [] \<and> hd (fmt f) \<noteq> CHR ''#'' \<and> list_all (\<lambda>c. \<not> is_blank c) (fmt f)
       \<and> atof (fmt f) = Some f \<and> (\<forall>r. atof (fmt f @ CHR '' '' # r) = Some f)
   | V_s s \<Rightarrow> True)"

lemma parse_string_arg_plain:
  "c \<noteq> t \<Longrightarrow> c \<noteq> CHR 0x5C \<Longrightarrow>
   parse_string_arg t (c # s) = map_option (apfst ((#) c)) (parse_string_arg t s)"
  by (cases s) simp_all

lemma parse_quoted: "parse_string_arg (CHR 0x22) (quote_arg s @ CHR 0x22 # r) = Some (s, CHR 0x22 # r)"
proof (induction s)
  case Nil
  then show ?case by (cases r) (simp_all add: quote_arg_def)
next
  case (Cons c s)
  show ?case
  proof (cases "c = CHR 0x22 \<or> c = CHR 0x5C")
    case True
    then show ?thesis using Cons.IH by (auto simp: quote_arg_def)
  next
    case False
    then have "quote_arg (c # s) = c # quote_arg s" by (simp add: quote_arg_def)
    with False Cons.IH show ?thesis by (simp add: parse_string_arg_plain)
  qed
qed

lemma c_atoi_print_int:
  assumes "- (2 ^ 31) \<le> i" and "i < 2 ^ 31" and "r = [] \<or> hd r = CHR '' ''"
  shows "c_atoi (c_print_int i @ r) = Some i"
proof -
  define n where "n = nat \<bar>i\<bar>"
  obtain c cs where p: "print_nat 10 n = c # cs" and c: "is_digit_in 10 c"
    by (rule print_nat_Cons [of 10 n]) simp_all
  note facts = digit_not_space [OF c] digit_not_sign [OF c]
  have r: "r = [] \<or> \<not> is_digit_in 10 (hd r)"
    using assms(3) by (auto simp: is_digit_in_def digit_val_def byte_def)
  have t: "takeWhile (is_digit_in 10) (print_nat 10 n @ r) = print_nat 10 n"
    by (rule takeWhile_digits) (use r in simp_all)
  have v: "digits_value 10 (print_nat 10 n) = n"
    by (rule digits_value_print_nat) simp_all
  show ?thesis
  proof (cases "i < 0")
    case True
    then have "c_print_int i = CHR ''-'' # print_nat 10 n"
      by (simp add: c_print_int_def n_def)
    with True assms t v show ?thesis
      by (simp add: c_atoi_def c_isspace_def byte_def n_def LLONG_MIN_def LLONG_MAX_def)
  next
    case False
    then have e: "c_print_int i = print_nat 10 n"
      by (simp add: c_print_int_def n_def)
    have i: "i = int n" "i < 2 ^ 63" using False assms(2) by (simp_all add: n_def)
    have "c_atoi (print_nat 10 n @ r) = Some (c_int (int n))"
      using facts t v i unfolding p by (simp add: c_atoi_def LLONG_MIN_def LLONG_MAX_def)
    moreover have "c_int (int n) = i" using i(1) assms(2) by (intro trans [OF c_int_id]) simp_all
    ultimately show ?thesis by (simp add: e)
  qed
qed

lemma print_int_chars: "c \<in> set (c_print_int i) \<Longrightarrow> \<not> is_blank c \<and> c \<noteq> CHR ''#'' \<and> c \<noteq> CHR 0x27 \<and> c \<noteq> CHR 0x22"
proof -
  have d: "\<not> is_blank c \<and> c \<noteq> CHR ''#'' \<and> c \<noteq> CHR 0x27 \<and> c \<noteq> CHR 0x22" if "is_digit_in 10 c" for c
    using that by (auto simp: is_digit_in_def digit_val_def is_blank_def Let_def byte_def split: if_splits)
  assume "c \<in> set (c_print_int i)"
  then have "c = CHR ''-'' \<or> is_digit_in 10 c"
    using print_nat_digits [of 10] by (auto simp: c_print_int_def split: if_splits)
  with d show ?thesis by (auto simp: is_blank_def)
qed

lemma print_arg_first:
  "printable atof fmt a \<Longrightarrow> print_arg fmt a \<noteq> [] \<and> \<not> is_blank (hd (print_arg fmt a)) \<and> hd (print_arg fmt a) \<noteq> CHR ''#''"
proof (cases a)
  case (V_i i)
  have "c_print_int i \<noteq> []" by (simp add: c_print_int_def)
  then show ?thesis using print_int_chars [of "hd (c_print_int i)" i] by (simp add: V_i print_arg_def)
qed (auto simp: print_arg_def printable_def is_blank_def list_all_iff)

lemma parse_arg_print:
  assumes "printable atof fmt a" and r: "r = [] \<or> hd r = CHR '' ''"
  shows "\<exists>q. parse_arg atof (arg_type (arg_of a)) (print_arg fmt a @ r) = Some (a, q @ r)
    \<and> (\<forall>c\<in>set q. \<not> is_blank c)"
proof (cases a)
  case (V_i i)
  have "c_atoi (c_print_int i @ r) = Some i"
    using assms by (intro c_atoi_print_int) (auto simp: printable_def V_i)
  then show ?thesis using print_int_chars [of _ i]
    by (intro exI [of _ "c_print_int i"]) (auto simp: V_i parse_arg_def print_arg_def arg_of_def)
next
  case (V_f f)
  have "atof (fmt f @ r) = Some f"
    using assms by (cases r) (auto simp: printable_def V_f)
  then show ?thesis using assms
    by (intro exI [of _ "fmt f"]) (auto simp: V_f parse_arg_def print_arg_def arg_of_def printable_def list_all_iff)
next
  case (V_s s)
  then show ?thesis using parse_quoted [of s r]
    by (intro exI [of _ "[CHR 0x22]"]) (simp add: parse_arg_def print_arg_def arg_of_def is_blank_def)
qed

lemma print_args_start: "print_args fmt as = [] \<or> hd (print_args fmt as) = CHR '' ''"
  by (cases as) (simp_all add: print_args_def)

lemma parse_args_print:
  assumes "\<forall>a\<in>set as. printable atof fmt a" and "\<forall>c\<in>set q. \<not> is_blank c"
    and "map (arg_type \<circ> arg_of) as = take (length as) (map arg_type ds)" and "length as \<le> length ds"
    and "list_all (\<lambda>d. arg_type d \<noteq> 0) (take (length as) ds)"
  shows "parse_args atof ds (q @ print_args fmt as) = Some (map arg_of as)"
  using assms
proof (induction as arbitrary: ds q)
  case Nil
  then show ?case by (cases ds) (simp_all add: print_args_def dropWhile_none)
next
  case (Cons a as)
  then obtain d ds' where ds: "ds = d # ds'" by (cases ds) auto
  have t: "arg_type d = arg_type (arg_of a)" and nz: "arg_type d \<noteq> 0" using Cons.prems by (simp_all add: ds)
  have a: "printable atof fmt a" using Cons.prems by simp
  note f = print_arg_first [OF a]
  have "dropWhile (\<lambda>c. \<not> is_blank c) (q @ print_args fmt (a # as)) = CHR '' '' # print_arg fmt a @ print_args fmt as"
    using Cons.prems(2) by (simp add: print_args_def dropWhile_append is_blank_def)
  moreover have "dropWhile is_blank (CHR '' '' # print_arg fmt a @ print_args fmt as) = print_arg fmt a @ print_args fmt as"
    using f by (cases "print_arg fmt a") (auto simp: is_blank_def)
  moreover obtain q' where q': "parse_arg atof (arg_type d) (print_arg fmt a @ print_args fmt as) = Some (a, q' @ print_args fmt as)"
    "\<forall>c\<in>set q'. \<not> is_blank c"
    using parse_arg_print [OF a print_args_start [of fmt as]] t by auto
  moreover have "parse_args atof ds' (q' @ print_args fmt as) = Some (map arg_of as)"
    using Cons.prems q'(2) by (intro Cons.IH) (simp_all add: ds)
  moreover have "\<lparr>arg_type = arg_type d, arg_optional = False, arg_v = a\<rparr> = arg_of a"
    unfolding t by (simp add: arg_of_def)
  ultimately show ?case
    using f nz by (simp add: ds Let_def)
qed

lemma strip_pausing_prefix:
  assumes "p \<le> 4" and "take 8 s \<noteq> ''pausing ''" and "take 8 s \<noteq> ''pausing_''"
  shows "strip_pausing (pausing_prefix p @ s) = (p, s)"
proof -
  have n: "take n s \<noteq> ''pausing'' @ x # xs" if "8 \<le> n" "x = CHR ''_''" for n x xs
  proof
    assume "take n s = ''pausing'' @ x # xs"
    then have "take 8 (take n s) = ''pausing_''" using that(2) by simp
    with assms(3) that(1) show False by (simp add: min_def)
  qed
  have "p = 0 \<or> p = 1 \<or> p = 2 \<or> p = 3 \<or> p = 4" using assms(1) by linarith
  then show ?thesis
    using assms(2) n [of 13] n [of 15] n [of 19]
    by (elim disjE) (simp_all add: strip_pausing_def pausing_prefix_def)
qed

lemma names_not_pausing: "list_all (\<lambda>(_, n, _). take 8 n \<noteq> ''pausing_'' \<and> n \<noteq> ''pausing'') mp_cmds"
  by code_simp (*slow*)

lemma take_8_name:
  assumes "\<forall>c\<in>set n. c \<noteq> CHR '' ''" and "take 8 n \<noteq> ''pausing_''"
    and "r = [] \<or> hd r = CHR '' ''" and "n \<noteq> ''pausing''"
  shows "take 8 (n @ r) \<noteq> ''pausing '' \<and> take 8 (n @ r) \<noteq> ''pausing_''"
proof (cases "8 \<le> length n")
  case True
  then have "take 8 (n @ r) = take 8 n" by simp
  moreover have "take 8 n \<noteq> ''pausing ''"
  proof
    assume "take 8 n = ''pausing ''"
    then have "CHR '' '' \<in> set (take 8 n)" by simp
    with assms(1) show False by (auto dest: in_set_takeD)
  qed
  ultimately show ?thesis using assms(2) by metis
next
  case False
  show ?thesis
  proof (rule ccontr)
    assume "\<not> ?thesis"
    then have a: "n @ take (8 - length n) r = ''pausing '' \<or> n @ take (8 - length n) r = ''pausing_''"
      using False by auto
    define k where "k = 7 - length n"
    have k: "8 - length n = Suc k" using False by (simp add: k_def)
    have "length ''pausing '' = 8" "length ''pausing_'' = 8" by simp_all
    with a have "length (n @ take (8 - length n) r) = 8" by metis
    then have "r \<noteq> []" using False by auto
    then obtain r' where r: "r = CHR '' '' # r'" using assms(3) by (cases r) auto
    have "n @ CHR '' '' # take k r' = ''pausing '' \<or> n @ CHR '' '' # take k r' = ''pausing_''"
      using a unfolding k r by simp
    then have "n = ''pausing''"
      by (auto simp: append_eq_Cons_conv)
    then show False using assms(4) by simp
  qed
qed

definition print_cmd :: "(c_float \<Rightarrow> string) \<Rightarrow> nat \<Rightarrow> string \<Rightarrow> arg_val list \<Rightarrow> string" where
  "print_cmd fmt p name as = pausing_prefix p @ name @ print_args fmt as"

lemma pausing_prefix_start: "s \<noteq> [] \<Longrightarrow> \<not> is_blank (hd s) \<Longrightarrow> dropWhile is_blank (pausing_prefix p @ s) = pausing_prefix p @ s"
  by (cases s) (auto simp: pausing_prefix_def is_blank_def)

text \<open>
  C1: A printed command parses back to itself: for every table entry and every list of
  arguments of its types, no fewer than the mandatory ones, the text made of a pausing
  prefix, the name and the arguments (strings in quotes, with quotes and backslashes
  escaped) is parsed to the entry's identifier and name with exactly these arguments, the
  rest being the table's defaults.
\<close>

theorem parse_cmd_roundtrip:
  assumes e: "(cid, name, ds) \<in> set mp_cmds" and p: "p \<le> 4"
    and len: "min_args (full_args ds) \<le> length as" "length as \<le> length ds"
    and types: "map (arg_type \<circ> arg_of) as = take (length as) (map arg_type ds)"
    and pr: "\<forall>a\<in>set as. printable atof fmt a"
  shows "mp_input_parse_cmd atof (print_cmd fmt p name as) = Some
    \<lparr>cmd_id = cid, cmd_name = name, cmd_args = full_args (map arg_of as @ drop (length as) ds),
     cmd_nargs = length as, cmd_pausing = p\<rparr>"
proof -
  let ?s = "name @ print_args fmt as"
  note ok = entry_okD [OF e]
  have nb: "\<forall>c\<in>set name. c \<noteq> CHR '' ''" using ok(3) by (auto simp: is_blank_def)
  have np: "take 8 name \<noteq> ''pausing_''" "name \<noteq> ''pausing''"
    using names_not_pausing e by (auto simp: list_all_iff)
  have s: "dropWhile is_blank (pausing_prefix p @ ?s) = pausing_prefix p @ ?s"
    using ok(1,3) by (intro pausing_prefix_start) (simp_all add: hd_append)
  have sp: "strip_pausing (pausing_prefix p @ ?s) = (p, ?s)"
    using take_8_name [OF nb np(1) print_args_start np(2), of fmt as] by (intro strip_pausing_prefix p) simp_all
  have w: "takeWhile (\<lambda>c. \<not> is_blank c) ?s = name"
    using ok(3) print_args_start [of fmt as]
    by (cases "print_args fmt as") (auto simp: takeWhile_append is_blank_def)
  have nz: "\<forall>d\<in>set ds. arg_type d \<noteq> 0" using ok(6) by auto
  have "take (length as) (map arg_type (full_args ds)) = take (length as) (map arg_type ds)"
    using len(2) by (simp only: full_args_types [OF ok(5)]) simp
  moreover have "list_all (\<lambda>d. arg_type d \<noteq> 0) (take (length as) (full_args ds))"
    using len(2) ok(5) nz by (auto simp: full_args_def list_all_iff min_def dest: in_set_takeD)
  ultimately have "parse_args atof (full_args ds) ?s = Some (map arg_of as)"
    using types len(2) ok(5) by (intro parse_args_print [OF pr ok(3)]) simp_all
  then show ?thesis
    using s sp w ok(1) len(1) find_cmd_name [OF e] drop_full_args [OF ok(5) nz, of "length as"]
    by (simp add: mp_input_parse_cmd_def print_cmd_def)
qed

lemma parse_cmd_roundtrip_witness:
  "mp_input_parse_cmd (\<lambda>_. None) (print_cmd (\<lambda>_. []) 2 ''osd_show_text'' [V_s ''a \"b'', V_i (-7)]) = Some
    \<lparr>cmd_id = MP_CMD_OSD_SHOW_TEXT, cmd_name = ''osd_show_text'',
     cmd_args = full_args (map arg_of [V_s ''a \"b'', V_i (-7)]
       @ drop (length [V_s ''a \"b'', V_i (-7)]) [ARG_STRING, OARG_INT (-1), OARG_INT 0]),
     cmd_nargs = length [V_s ''a \"b'', V_i (-7)], cmd_pausing = 2\<rparr>"
  by (rule parse_cmd_roundtrip)
    (simp_all add: mp_cmds_def min_args_def full_args_def ARG_STRING_def OARG_INT_def zero_arg_def
      arg_of_def printable_def)

text \<open>
  A surplus argument is counted: \<open>pause\<close> takes no argument, and yet one word behind it
  makes a command with an argument count of one (further words are not counted).
\<close>

theorem parse_cmd_surplus_counted:
  "mp_input_parse_cmd atof ''pause foo bar'' = Some
    \<lparr>cmd_id = MP_CMD_PAUSE, cmd_name = ''pause'', cmd_args = full_args [], cmd_nargs = 1, cmd_pausing = 0\<rparr>"
proof -
  have e: "(MP_CMD_PAUSE, ''pause'', []) \<in> set mp_cmds" by (simp add: mp_cmds_def)
  show ?thesis
    using find_cmd_name [OF e]
    by (simp add: mp_input_parse_cmd_def strip_pausing_def is_blank_def full_args_def numeral_eq_Suc min_args_def)
qed

end
