(* ===== verification/Cmd_Queue.thy ===== *)
theory Cmd_Queue
  imports Cmd_Parse
begin

text \<open>
  The command queues (\<open>is_abort_cmd\<close>, \<open>queue_add\<close>, \<open>queue_pop\<close> of
  \<open>input/input.c\<close>). The concrete model keeps the code's doubly linked list: commands are
  cells of a heap, chained by their \<open>queue_next\<close> and \<open>queue_prev\<close> fields, and a queue is
  two pointers and two counters. The abstract model is the list of the queued commands;
  the rest of the input model works on it. The locale \<open>command_queue\<close> is the contract
  both keep.
\<close>

definition is_abort_cmd :: "nat \<Rightarrow> bool" where
  "is_abort_cmd c \<longleftrightarrow> c = MP_CMD_QUIT \<or> c = MP_CMD_PLAY_TREE_STEP \<or> c = MP_CMD_PLAY_TREE_UP_STEP
     \<or> c = MP_CMD_PLAY_ALT_SRC_STEP"

subsection \<open>The linked queue\<close>

type_synonym ptr = "nat option"

record cell =
  cell_cmd :: mp_cmd
  queue_prev :: ptr
  queue_next :: ptr

type_synonym cell_heap = "nat \<rightharpoonup> cell"

record cmd_queue =
  q_first :: ptr
  q_last :: ptr
  num_cmds :: nat
  num_abort_cmds :: int

definition abort_count :: "cell \<Rightarrow> int" where
  "abort_count c = (if is_abort_cmd (cmd_id (cell_cmd c)) then 1 else 0)"

text \<open>\<open>None\<close> is the failed assertion, or a read through a null pointer.\<close>

definition queue_pop :: "cell_heap \<Rightarrow> cmd_queue \<Rightarrow> cmd_queue option" where
  "queue_pop h q =
     (if num_cmds q = 0 then None
      else do { p \<leftarrow> q_first q; c \<leftarrow> h p;
        Some (q\<lparr>q_first := queue_next c, num_cmds := num_cmds q - 1,
                num_abort_cmds := num_abort_cmds q - abort_count c\<rparr>) })"

definition queue_add :: "cell_heap \<Rightarrow> cmd_queue \<Rightarrow> nat \<Rightarrow> bool \<Rightarrow> (cell_heap \<times> cmd_queue) option" where
  "queue_add h q p at_head = do {
     c \<leftarrow> h p;
     (h', q') \<leftarrow>
       (if num_cmds q = 0 then Some (h, q\<lparr>q_first := Some p, q_last := Some p\<rparr>)
        else if at_head then do {
          f \<leftarrow> q_first q; fc \<leftarrow> h f;
          let h = h(f \<mapsto> fc\<lparr>queue_prev := Some p\<rparr>);
          c \<leftarrow> h p;
          Some (h(p \<mapsto> c\<lparr>queue_next := Some f\<rparr>), q\<lparr>q_first := Some p\<rparr>) }
        else do {
          l \<leftarrow> q_last q; lc \<leftarrow> h l;
          let h = h(l \<mapsto> lc\<lparr>queue_next := Some p\<rparr>);
          c \<leftarrow> h p;
          Some (h(p \<mapsto> c\<lparr>queue_prev := Some l\<rparr>), q\<lparr>q_last := Some p\<rparr>) });
     Some (h', q'\<lparr>num_cmds := num_cmds q' + 1, num_abort_cmds := num_abort_cmds q' + abort_count c\<rparr>) }"

definition empty_queue :: cmd_queue where
  "empty_queue = \<lparr>q_first = None, q_last = None, num_cmds = 0, num_abort_cmds = 0\<rparr>"

subsection \<open>The abstract queue\<close>

definition lq_add :: "mp_cmd list \<Rightarrow> mp_cmd \<Rightarrow> bool \<Rightarrow> mp_cmd list" where
  "lq_add q c at_head = (if at_head then c # q else q @ [c])"

definition lq_pop :: "mp_cmd list \<Rightarrow> mp_cmd list option" where
  "lq_pop q = (case q of [] \<Rightarrow> None | _ # r \<Rightarrow> Some r)"

definition lq_abort :: "mp_cmd list \<Rightarrow> nat" where
  "lq_abort q = length (filter (\<lambda>c. is_abort_cmd (cmd_id c)) q)"

subsection \<open>The representation\<close>

text \<open>
  \<open>ps\<close> are the addresses of the cells of the queue, in order. Only the links between
  queued cells matter: the last cell's \<open>queue_next\<close>, the first one's \<open>queue_prev\<close> and
  the pointers of an empty queue may be stale.
\<close>

definition linked :: "cell_heap \<Rightarrow> cmd_queue \<Rightarrow> nat list \<Rightarrow> bool" where
  "linked h q ps \<longleftrightarrow> distinct ps \<and> set ps \<subseteq> dom h \<and> num_cmds q = length ps
     \<and> (ps \<noteq> [] \<longrightarrow> q_first q = Some (hd ps) \<and> q_last q = Some (last ps))
     \<and> successively (\<lambda>a b. queue_next (the (h a)) = Some b) ps
     \<and> num_abort_cmds q = (\<Sum>p\<leftarrow>ps. abort_count (the (h p)))"

definition cmd_at :: "cell_heap \<Rightarrow> nat \<Rightarrow> mp_cmd" where
  "cmd_at h p = cell_cmd (the (h p))"

lemma linked_empty: "linked h empty_queue []"
  by (simp add: linked_def empty_queue_def)

lemma abort_count_cmd_at: "abort_count (the (h p)) = (if is_abort_cmd (cmd_id (cmd_at h p)) then 1 else 0)"
  by (simp add: abort_count_def cmd_at_def)

lemma linked_abort:
  assumes "linked h q ps"
  shows "num_abort_cmds q = int (lq_abort (map (cmd_at h) ps))"
proof -
  have "(\<Sum>p\<leftarrow>ps. abort_count (the (h p))) = int (lq_abort (map (cmd_at h) ps))"
    by (induction ps) (simp_all add: lq_abort_def abort_count_cmd_at)
  with assms show ?thesis by (simp add: linked_def)
qed

lemma successively_cong_set:
  "successively P xs \<Longrightarrow> (\<And>x y. x \<in> set (butlast xs) \<Longrightarrow> y \<in> set xs \<Longrightarrow> P x y \<Longrightarrow> Q x y) \<Longrightarrow> successively Q xs"
  by (induction P xs rule: successively.induct) auto

lemma linked_pop:
  assumes "linked h q (p # ps)"
  obtains q' where "queue_pop h q = Some q'" and "linked h q' ps"
proof -
  from assms obtain c where c: "h p = Some c" by (auto simp: linked_def)
  have q: "q_first q = Some p" "num_cmds q = Suc (length ps)" using assms by (simp_all add: linked_def)
  let ?q = "q\<lparr>q_first := queue_next c, num_cmds := num_cmds q - 1, num_abort_cmds := num_abort_cmds q - abort_count c\<rparr>"
  have "queue_pop h q = Some ?q" using q c by (simp add: queue_pop_def)
  moreover have "linked h ?q ps"
    using assms c by (cases ps) (auto simp: linked_def)
  ultimately show ?thesis by (rule that)
qed

lemma linked_add_tail:
  assumes l: "linked h q ps" and p: "p \<notin> set ps" "h p = Some c"
  obtains h' q' where "queue_add h q p False = Some (h', q')" and "linked h' q' (ps @ [p])"
    and "\<forall>x. cmd_at h' x = cmd_at h x" and "dom h' = dom h"
proof (cases "ps = []")
  case True
  let ?q = "q\<lparr>q_first := Some p, q_last := Some p, num_cmds := num_cmds q + 1, num_abort_cmds := num_abort_cmds q + abort_count c\<rparr>"
  have "queue_add h q p False = Some (h, ?q)"
    using True l p by (simp add: queue_add_def linked_def)
  moreover have "linked h ?q (ps @ [p])"
    using True l p by (auto simp: linked_def)
  ultimately show ?thesis by (intro that) simp_all
next
  case False
  let ?l = "last ps"
  have ne: "num_cmds q \<noteq> 0" and la: "q_last q = Some ?l" and lp: "?l \<noteq> p" and lin: "?l \<in> set ps"
    using False l p by (auto simp: linked_def)
  then obtain lc where lc: "h ?l = Some lc" using l by (force simp: linked_def)
  let ?h = "h(?l \<mapsto> lc\<lparr>queue_next := Some p\<rparr>, p \<mapsto> c\<lparr>queue_prev := Some ?l\<rparr>)"
  let ?q = "q\<lparr>q_last := Some p, num_cmds := num_cmds q + 1, num_abort_cmds := num_abort_cmds q + abort_count c\<rparr>"
  have a: "queue_add h q p False = Some (?h, ?q)"
    using ne la lc lp p by (simp add: queue_add_def)
  have cm: "\<forall>x. cmd_at ?h x = cmd_at h x" using lc p by (simp add: cmd_at_def)
  then have ab: "\<forall>x. abort_count (the (?h x)) = abort_count (the (h x))"
    by (simp only: abort_count_cmd_at) simp
  have s: "successively (\<lambda>a b. queue_next (the (?h a)) = Some b) ps"
  proof (rule successively_cong_set)
    show "successively (\<lambda>a b. queue_next (the (h a)) = Some b) ps" using l by (simp add: linked_def)
    fix x y assume x: "x \<in> set (butlast ps)" and "queue_next (the (h x)) = Some y"
    moreover have "x \<noteq> ?l"
      using x l False by (metis append_butlast_last_id distinct_butlast not_distinct_conv_prefix linked_def)
    moreover have "x \<noteq> p" using x p(1) by (metis in_set_butlastD)
    ultimately show "queue_next (the (?h x)) = Some y" by simp
  qed
  have "linked ?h ?q (ps @ [p])"
    unfolding linked_def
  proof (intro conjI)
    show "distinct (ps @ [p])" "set (ps @ [p]) \<subseteq> dom ?h" "num_cmds ?q = length (ps @ [p])"
      using l p by (auto simp: linked_def)
    show "ps @ [p] \<noteq> [] \<longrightarrow> q_first ?q = Some (hd (ps @ [p])) \<and> q_last ?q = Some (last (ps @ [p]))"
      using False l by (simp add: linked_def)
    show "successively (\<lambda>a b. queue_next (the (?h a)) = Some b) (ps @ [p])"
      using s False lp by (simp add: successively_append_iff)
    have "num_abort_cmds ?q = (\<Sum>x\<leftarrow>ps @ [p]. abort_count (the (h x)))"
      using l p by (simp add: linked_def)
    then show "num_abort_cmds ?q = (\<Sum>x\<leftarrow>ps @ [p]. abort_count (the (?h x)))"
      using ab by presburger
  qed
  moreover have "dom ?h = dom h" using lc p by auto
  ultimately show ?thesis using a cm by (intro that)
qed

lemma linked_add_head:
  assumes l: "linked h q ps" and p: "p \<notin> set ps" "h p = Some c"
  obtains h' q' where "queue_add h q p True = Some (h', q')" and "linked h' q' (p # ps)"
    and "\<forall>x. cmd_at h' x = cmd_at h x" and "dom h' = dom h"
proof (cases ps)
  case Nil
  let ?q = "q\<lparr>q_first := Some p, q_last := Some p, num_cmds := num_cmds q + 1, num_abort_cmds := num_abort_cmds q + abort_count c\<rparr>"
  have "queue_add h q p True = Some (h, ?q)"
    using Nil l p by (simp add: queue_add_def linked_def)
  moreover have "linked h ?q (p # ps)"
    using Nil l p by (auto simp: linked_def)
  ultimately show ?thesis by (intro that) simp_all
next
  case (Cons f fs)
  have ne: "num_cmds q \<noteq> 0" and fi: "q_first q = Some f" and fp: "f \<noteq> p"
    using Cons l p by (auto simp: linked_def)
  then obtain fc where fc: "h f = Some fc" using l Cons by (auto simp: linked_def)
  let ?h = "h(f \<mapsto> fc\<lparr>queue_prev := Some p\<rparr>, p \<mapsto> c\<lparr>queue_next := Some f\<rparr>)"
  let ?q = "q\<lparr>q_first := Some p, num_cmds := num_cmds q + 1, num_abort_cmds := num_abort_cmds q + abort_count c\<rparr>"
  have a: "queue_add h q p True = Some (?h, ?q)"
    using ne fi fc fp p by (simp add: queue_add_def)
  have cm: "\<forall>x. cmd_at ?h x = cmd_at h x" using fc p by (simp add: cmd_at_def)
  then have ab: "\<forall>x. abort_count (the (?h x)) = abort_count (the (h x))"
    by (simp only: abort_count_cmd_at) simp
  have s: "successively (\<lambda>a b. queue_next (the (?h a)) = Some b) ps"
  proof (rule successively_cong_set)
    show "successively (\<lambda>a b. queue_next (the (h a)) = Some b) ps" using l by (simp add: linked_def)
    fix x y assume x: "x \<in> set (butlast ps)" and "queue_next (the (h x)) = Some y"
    moreover have "x \<noteq> p" using x p(1) by (metis in_set_butlastD)
    ultimately show "queue_next (the (?h x)) = Some y" using fc by auto
  qed
  have "linked ?h ?q (p # ps)"
    unfolding linked_def
  proof (intro conjI)
    show "distinct (p # ps)" "set (p # ps) \<subseteq> dom ?h" "num_cmds ?q = length (p # ps)"
      using l p by (auto simp: linked_def)
    show "p # ps \<noteq> [] \<longrightarrow> q_first ?q = Some (hd (p # ps)) \<and> q_last ?q = Some (last (p # ps))"
      using Cons l by (simp add: linked_def)
    show "successively (\<lambda>a b. queue_next (the (?h a)) = Some b) (p # ps)"
      using s Cons by simp
    have "num_abort_cmds ?q = (\<Sum>x\<leftarrow>p # ps. abort_count (the (h x)))"
      using l p by (simp add: linked_def)
    then show "num_abort_cmds ?q = (\<Sum>x\<leftarrow>p # ps. abort_count (the (?h x)))"
      using ab by presburger
  qed
  moreover have "dom ?h = dom h" using fc p by auto
  ultimately show ?thesis using a cm by (intro that)
qed

subsection \<open>The contract\<close>

datatype (ops_keys: 'k) qop = Enq 'k bool | Deq
  for map: map_qop

text \<open>A run of queue operations; on the keys themselves a key may not be queued twice.\<close>

fun run_queue :: "('s \<Rightarrow> 'k \<Rightarrow> bool \<Rightarrow> 's option) \<Rightarrow> ('s \<Rightarrow> 's option) \<Rightarrow> 'k qop list \<Rightarrow> 's \<Rightarrow> 's option" where
  "run_queue add pop [] s = Some s"
| "run_queue add pop (Enq k b # ops) s = do { s \<leftarrow> add s k b; run_queue add pop ops s }"
| "run_queue add pop (Deq # ops) s = do { s \<leftarrow> pop s; run_queue add pop ops s }"

definition key_add :: "'k list \<Rightarrow> 'k \<Rightarrow> bool \<Rightarrow> 'k list option" where
  "key_add xs k b = (if k \<in> set xs then None else Some (if b then k # xs else xs @ [k]))"

definition key_pop :: "'k list \<Rightarrow> 'k list option" where
  "key_pop xs = (case xs of [] \<Rightarrow> None | _ # r \<Rightarrow> Some r)"

lemma key_add_Some_iff: "key_add xs k b = Some ys \<longleftrightarrow> k \<notin> set xs \<and> ys = (if b then k # xs else xs @ [k])"
  by (auto simp: key_add_def)

lemma key_pop_Some_iff: "key_pop xs = Some ys \<longleftrightarrow> (\<exists>x. xs = x # ys)"
  by (auto simp: key_pop_def split: list.splits)

abbreviation run_keys :: "'k qop list \<Rightarrow> 'k list \<Rightarrow> 'k list option" where
  "run_keys \<equiv> run_queue key_add key_pop"

locale command_queue =
  fixes add :: "'s \<Rightarrow> 'k \<Rightarrow> bool \<Rightarrow> 's option" and pop :: "'s \<Rightarrow> 's option"
    and keys :: "'s \<Rightarrow> 'k list \<Rightarrow> bool" and valid :: "'k \<Rightarrow> bool"
  assumes add_law: "keys s xs \<Longrightarrow> valid k \<Longrightarrow> k \<notin> set xs \<Longrightarrow>
      \<exists>s'. add s k b = Some s' \<and> keys s' (if b then k # xs else xs @ [k])"
    and pop_law: "keys s (x # xs) \<Longrightarrow> \<exists>s'. pop s = Some s' \<and> keys s' xs"
    and pop_empty_law: "keys s [] \<Longrightarrow> pop s = None"
begin

lemma run_ok:
  "keys s xs \<Longrightarrow> \<forall>op\<in>set ops. \<forall>k\<in>ops_keys op. valid k \<Longrightarrow> run_keys ops xs = Some ys \<Longrightarrow>
   \<exists>s'. run_queue add pop ops s = Some s' \<and> keys s' ys"
proof (induction ops arbitrary: s xs)
  case (Cons op ops)
  show ?case
  proof (cases op)
    case (Enq k b)
    with Cons.prems(3) have k: "k \<notin> set xs" and r: "run_keys ops (if b then k # xs else xs @ [k]) = Some ys"
      by (auto simp: bind_eq_Some_conv key_add_Some_iff)
    obtain s' where s': "add s k b = Some s'" "keys s' (if b then k # xs else xs @ [k])"
      using add_law [OF Cons.prems(1) _ k, of b] Cons.prems(2) Enq by auto
    from Cons.IH [OF s'(2) _ r] Cons.prems(2) s'(1) show ?thesis by (simp add: Enq)
  next
    case Deq
    with Cons.prems(3) obtain x xs' where xs: "xs = x # xs'" and r: "run_keys ops xs' = Some ys"
      by (auto simp: bind_eq_Some_conv key_pop_Some_iff)
    obtain s' where s': "pop s = Some s'" "keys s' xs'"
      using pop_law [of s x xs'] Cons.prems(1) xs by auto
    from Cons.IH [OF s'(2) _ r] Cons.prems(2) s'(1) show ?thesis by (simp add: Deq)
  qed
qed simp

text \<open>Commands added at the tail come out in the order they went in.\<close>

lemma tail_fifo:
  "keys s xs \<Longrightarrow> distinct (xs @ ks) \<Longrightarrow> \<forall>k\<in>set ks. valid k \<Longrightarrow>
   \<exists>s'. run_queue add pop (map (\<lambda>k. Enq k False) ks @ replicate (length xs) Deq) s = Some s' \<and> keys s' ks"
proof -
  assume s: "keys s xs" and d: "distinct (xs @ ks)" and v: "\<forall>k\<in>set ks. valid k"
  have deq: "run_keys (replicate (length ys) Deq) (ys @ zs) = Some zs" for ys zs :: "'k list"
    by (induction ys) (simp_all add: key_pop_def)
  have enq: "run_keys (map (\<lambda>k. Enq k False) ks @ ops) zs = run_keys ops (zs @ ks)"
    if "distinct (zs @ ks)" for zs ops
    using that by (induction ks arbitrary: zs) (auto simp: key_add_def)
  have "run_keys (map (\<lambda>k. Enq k False) ks @ replicate (length xs) Deq) xs = Some ks"
    using enq [OF d] deq by simp
  then show ?thesis using v by (intro run_ok [OF s]) auto
qed

end

subsection \<open>Both queues keep the contract\<close>

definition heap_add :: "cell_heap \<times> cmd_queue \<Rightarrow> nat \<Rightarrow> bool \<Rightarrow> (cell_heap \<times> cmd_queue) option" where
  "heap_add s p b = queue_add (fst s) (snd s) p b"

definition heap_pop :: "cell_heap \<times> cmd_queue \<Rightarrow> (cell_heap \<times> cmd_queue) option" where
  "heap_pop s = map_option (Pair (fst s)) (queue_pop (fst s) (snd s))"

definition heap_keys :: "nat set \<Rightarrow> (nat \<Rightarrow> mp_cmd) \<Rightarrow> cell_heap \<times> cmd_queue \<Rightarrow> nat list \<Rightarrow> bool" where
  "heap_keys D cm s ps \<longleftrightarrow> linked (fst s) (snd s) ps \<and> dom (fst s) = D \<and> (\<forall>p. cmd_at (fst s) p = cm p)"

interpretation heap_queue: command_queue heap_add heap_pop "heap_keys D cm" "\<lambda>p. p \<in> D" for D cm
proof unfold_locales
  fix s :: "cell_heap \<times> cmd_queue" and xs and k :: nat and b
  assume k: "heap_keys D cm s xs" and "k \<in> D" and n: "k \<notin> set xs"
  then obtain c where c: "fst s k = Some c" and l: "linked (fst s) (snd s) xs" by (auto simp: heap_keys_def)
  show "\<exists>s'. heap_add s k b = Some s' \<and> heap_keys D cm s' (if b then k # xs else xs @ [k])"
  proof (cases b)
    case True
    obtain h' q' where "queue_add (fst s) (snd s) k True = Some (h', q')" "linked h' q' (k # xs)"
      "\<forall>x. cmd_at h' x = cmd_at (fst s) x" "dom h' = dom (fst s)"
      by (rule linked_add_head [OF l n c])
    with k True show ?thesis by (auto simp: heap_add_def heap_keys_def)
  next
    case False
    obtain h' q' where "queue_add (fst s) (snd s) k False = Some (h', q')" "linked h' q' (xs @ [k])"
      "\<forall>x. cmd_at h' x = cmd_at (fst s) x" "dom h' = dom (fst s)"
      by (rule linked_add_tail [OF l n c])
    with k False show ?thesis by (auto simp: heap_add_def heap_keys_def)
  qed
next
  fix s :: "cell_heap \<times> cmd_queue" and x :: nat and xs
  assume k: "heap_keys D cm s (x # xs)"
  then have "linked (fst s) (snd s) (x # xs)" by (simp add: heap_keys_def)
  then obtain q' where "queue_pop (fst s) (snd s) = Some q'" and "linked (fst s) q' xs"
    by (rule linked_pop)
  with k show "\<exists>s'. heap_pop s = Some s' \<and> heap_keys D cm s' xs"
    by (auto simp: heap_pop_def heap_keys_def)
next
  fix s :: "cell_heap \<times> cmd_queue"
  assume "heap_keys D cm s []"
  then show "heap_pop s = None" by (simp add: heap_keys_def linked_def heap_pop_def queue_pop_def)
qed

interpretation list_queue: command_queue "\<lambda>q c b. Some (lq_add q c b)" lq_pop "\<lambda>q xs. q = xs" "\<lambda>_. True"
  by unfold_locales (auto simp: lq_add_def lq_pop_def)

lemma lq_add_Enq: "lq_add (map f ps) (f k) b = map f (if b then k # ps else ps @ [k])"
  by (simp add: lq_add_def)

lemma lq_pop_Cons: "lq_pop (x # xs) = Some xs"
  by (simp add: lq_pop_def)

lemma list_run_map:
  "run_keys ops ps = Some ps' \<Longrightarrow>
   run_queue (\<lambda>q c b. Some (lq_add q c b)) lq_pop (map (map_qop f) ops) (map f ps) = Some (map f ps')"
proof (induction ops arbitrary: ps)
  case (Cons op ops)
  then show ?case
    by (cases op) (auto simp: bind_eq_Some_conv key_add_Some_iff key_pop_Some_iff lq_add_Enq lq_pop_Cons)
qed simp

text \<open>
  C21: The doubly linked command queue implements the list of its commands: any sequence of
  insertions (at either end, of cells not yet queued) and removals that the list can do,
  the linked queue does without failing, and afterwards its cells are exactly the list's
  commands in the list's order, with both counters exact.
\<close>

theorem queue_refines_list:
  assumes "linked h q ps" and "\<forall>op\<in>set ops. \<forall>p\<in>ops_keys op. p \<in> dom h" and "run_keys ops ps = Some ps'"
  shows "\<exists>h' q'. run_queue heap_add heap_pop ops (h, q) = Some (h', q') \<and> linked h' q' ps'
    \<and> run_queue (\<lambda>q c b. Some (lq_add q c b)) lq_pop (map (map_qop (cmd_at h)) ops) (map (cmd_at h) ps)
        = Some (map (cmd_at h') ps')
    \<and> num_cmds q' = length ps' \<and> num_abort_cmds q' = int (lq_abort (map (cmd_at h') ps'))"
proof -
  have "heap_keys (dom h) (cmd_at h) (h, q) ps" using assms(1) by (simp add: heap_keys_def)
  then obtain s' where s': "run_queue heap_add heap_pop ops (h, q) = Some s'"
    "heap_keys (dom h) (cmd_at h) s' ps'"
    using heap_queue.run_ok [OF _ assms(2,3)] by blast
  moreover obtain h' q' where hq: "s' = (h', q')" by fastforce
  moreover have l: "linked h' q' ps'" and c: "cmd_at h' = cmd_at h"
    using s'(2) by (auto simp: heap_keys_def hq)
  ultimately show ?thesis
    using list_run_map [OF assms(3), of "cmd_at h"] linked_abort [OF l] l
    by (auto simp: linked_def)
qed

definition sample_cmd :: "nat \<Rightarrow> mp_cmd" where
  "sample_cmd c = \<lparr>cmd_id = c, cmd_name = [], cmd_args = [], cmd_nargs = 0, cmd_pausing = 0\<rparr>"

definition sample_heap :: cell_heap where
  "sample_heap = (\<lambda>p. if p < 3 then Some \<lparr>cell_cmd = sample_cmd p, queue_prev = None, queue_next = None\<rparr> else None)"

lemma queue_refines_list_witness:
  "\<exists>h' q'. run_queue heap_add heap_pop [Enq 0 False, Enq 2 False, Enq 1 True, Deq] (sample_heap, empty_queue) = Some (h', q')
    \<and> linked h' q' [0, 2] \<and> num_cmds q' = 2"
proof -
  have d: "\<forall>op\<in>set [Enq 0 False, Enq 2 False, Enq 1 True, Deq]. \<forall>p\<in>ops_keys op. p \<in> dom sample_heap"
    by (simp add: sample_heap_def dom_def)
  have r: "run_keys [Enq 0 False, Enq 2 False, Enq 1 True, Deq] [] = Some [0, 2 :: nat]"
    by (simp add: key_add_def key_pop_def)
  from queue_refines_list [OF linked_empty d r] show ?thesis by fastforce
qed

end
