(* ===== verification/Key_Names.thy ===== *)
theory Key_Names
  imports Key_Codes
begin

unbundle bit_operations_syntax

text \<open>
  Names of keys and of key combinations (\<open>get_key_name\<close>, \<open>get_key_combo_name\<close>,
  \<open>mp_input_get_key_from_name\<close>, \<open>get_input_from_name\<close> of \<open>input/input.c\<close>): printing a
  key and parsing a name, with the round trips between them.
\<close>

subsection \<open>From keys to names\<close>

text \<open>The first loop of \<open>get_key_name\<close>: modifiers are printed and subtracted.\<close>

fun add_modifier_names :: "(int \<times> string) list \<Rightarrow> int \<Rightarrow> string \<Rightarrow> int \<times> string" where
  "add_modifier_names [] key ret = (key, ret)"
| "add_modifier_names ((m, name) # ms) key ret =
     (if m AND key \<noteq> 0 then add_modifier_names ms (key - m) (ret @ name @ ''+'')
      else add_modifier_names ms key ret)"

definition get_key_name :: "libav \<Rightarrow> int \<Rightarrow> string \<Rightarrow> string" where
  "get_key_name L key ret =
     (let (key, ret) = add_modifier_names modifier_names key ret
      in case find (\<lambda>(k, _). k = key) key_names of
           Some (_, name) \<Rightarrow> ret @ name
         | None \<Rightarrow>
             (if 32 \<le> key \<and> key \<le> 0x10FFFF then ret @ put_utf8 L (nat key)
              else ret @ c_print_alt_hex8 (nat (key mod 2 ^ 32))))"

text \<open>
  The loop of \<open>get_key_combo_name\<close> over an array of keys; \<open>n\<close> keys at most, a zero
  key ends the combination.
\<close>

fun get_key_combo_loop :: "libav \<Rightarrow> int list \<Rightarrow> nat \<Rightarrow> string \<Rightarrow> string" where
  "get_key_combo_loop L [] n ret = ret"
| "get_key_combo_loop L (key # keys) n ret =
     (let ret = get_key_name L key ret; n = n - 1
      in if n \<noteq> 0 \<and> keys \<noteq> [] \<and> hd keys \<noteq> 0
         then get_key_combo_loop L keys n (ret @ ''-'') else ret)"

definition get_key_combo_name :: "libav \<Rightarrow> int list \<Rightarrow> nat \<Rightarrow> string" where
  "get_key_combo_name L keys n = get_key_combo_loop L keys n []"

subsection \<open>From names to keys\<close>

text \<open>
  The \<open>while\<close> loop of \<open>mp_input_get_key_from_name\<close>: \<open>Inl\<close> is a return from inside
  the loop, \<open>Inr\<close> the rest of the name and the modifiers when no plus sign is left.
\<close>

function eat_modifiers :: "string \<Rightarrow> int \<Rightarrow> int + (string \<times> int)" where
  "eat_modifiers name modifiers =
     (let p = first_index (\<lambda>c. c = CHR ''+'') name
      in if p = length name then Inr (name, modifiers)
         else case find (\<lambda>(_, m). bstrcasecmp m (take p name) = 0) modifier_names of
             Some (k, _) \<Rightarrow> eat_modifiers (drop (Suc p) name) (modifiers OR k)
           | None \<Rightarrow> if name = ''+'' then Inl (43 + modifiers) else Inl (-1))"
  by pat_completeness auto
termination
  by (relation "measure (\<lambda>(name, _). length name)")
    (auto dest: le_neq_implies_less [OF first_index_le])

declare eat_modifiers.simps [simp del]

definition mp_input_get_key_from_name :: "libav \<Rightarrow> string \<Rightarrow> int" where
  "mp_input_get_key_from_name L name =
     (case eat_modifiers name 0 of
        Inl r \<Rightarrow> r
      | Inr (name, modifiers) \<Rightarrow>
          (case bstr_decode_utf8 L name of
             Some (code, []) \<Rightarrow> int code + modifiers
           | _ \<Rightarrow>
               (if bstr_startswith name ''0x'' then c_int (fst (c_strtoll 16 name) + modifiers)
                else case find (\<lambda>(_, n). c_strcaseeq n name) key_names of
                    Some (k, _) \<Rightarrow> k + modifiers
                  | None \<Rightarrow> -1)))"

text \<open>
  \<open>get_input_from_name\<close>. \<open>e\<close> is the index of the first dash at or behind \<open>ptr\<close>; when a
  dash follows it directly, the second one ends the name (so that the dash key itself can
  be named); a dash at the end of the string is part of the name. The result is the list
  of keys stored before the terminating zero, or \<open>None\<close> for the return of 0.
\<close>

function get_input_loop :: "libav \<Rightarrow> string \<Rightarrow> nat \<Rightarrow> int list option" where
  "get_input_loop L ptr n =
     (let e = first_index (\<lambda>c. c = CHR ''-'') ptr;
          cut = Suc e < length ptr;
          e = (if cut \<and> ptr ! Suc e = CHR ''-'' then Suc e else e);
          key = mp_input_get_key_from_name L (if cut then take e ptr else ptr)
      in if key < 0 then None
         else if Suc e < length ptr \<and> Suc n < MP_MAX_KEY_DOWN
         then map_option ((#) key) (get_input_loop L (drop (Suc e) ptr) (Suc n))
         else Some [key])"
  by pat_completeness auto
termination
  by (relation "measure (\<lambda>(_, ptr, _). length ptr)") auto

declare get_input_loop.simps [simp del]

definition get_input_from_name :: "libav \<Rightarrow> string \<Rightarrow> int list option" where
  "get_input_from_name L name = get_input_loop L name 0"

subsection \<open>The tables\<close>

lemma find_distinct_map:
  "distinct (map f xs) \<Longrightarrow> x \<in> set xs \<Longrightarrow> find (\<lambda>y. f y = f x) xs = Some x"
proof (induction xs)
  case (Cons y ys)
  then show ?case by (cases "f y = f x") (auto dest: image_eqI [of "f x" f x "set ys"])
qed simp

text \<open>A hash of a name up to case, small enough to evaluate, that separates the table's names.\<close>

definition name_hash :: "string \<Rightarrow> int" where
  "name_hash s = foldl (\<lambda>a c. 4 * a + int (byte (c_tolower c))) 0 s"

lemma name_hash_lower: "name_hash s = foldl (\<lambda>a c. 4 * a + int (byte c)) 0 (map c_tolower s)"
  by (simp add: name_hash_def foldl_map)

lemma key_names_distinct: "distinct (map (\<lambda>(_, n). map c_tolower n) key_names)"
proof -
  have "distinct (map (\<lambda>(_, n). name_hash n) key_names)"
    by code_simp (*slow*)
  moreover have "map (\<lambda>(_, n). name_hash n) key_names
      = map (foldl (\<lambda>a c. 4 * a + int (byte c)) 0) (map (\<lambda>(_, n). map c_tolower n) key_names)"
    by (auto simp: name_hash_lower)
  ultimately show ?thesis by (metis distinct_map)
qed

definition plain_name :: "string \<Rightarrow> bool" where
  "plain_name n = (CHR ''+'' \<notin> set n \<and> CHR ''-'' \<notin> set n \<and> 2 \<le> length n
     \<and> byte (hd n) < 128 \<and> take 2 n \<noteq> ''0x'')"

lemma key_names_plain: "\<forall>(k, n)\<in>set key_names. plain_name n \<and> 0 < k"
  by code_simp (*slow*)

lemma modifier_names_plain: "\<forall>(k, n)\<in>set modifier_names. plain_name n \<and> 0 < k"
  by code_simp (*slow*)


lemma find_key_by_name:
  assumes "(k, n) \<in> set key_names"
  shows "find (\<lambda>(_, m). c_strcaseeq m n) key_names = Some (k, n)"
proof -
  let ?f = "\<lambda>(_ :: int, n). map c_tolower n"
  have "find (\<lambda>y. ?f y = ?f (k, n)) key_names = Some (k, n)"
    by (rule find_distinct_map [OF key_names_distinct assms])
  moreover have "(\<lambda>(_, m). c_strcaseeq m n) = (\<lambda>y. ?f y = ?f (k, n))"
    by (auto simp: c_strcaseeq_def)
  ultimately show ?thesis by simp
qed

subsection \<open>Modifiers\<close>

lemma eat_modifiers_no_plus: "CHR ''+'' \<notin> set n \<Longrightarrow> eat_modifiers n ms = Inr (n, ms)"
  using first_index_less_iff [of "\<lambda>c. c = CHR ''+''" n] first_index_le [of "\<lambda>c. c = CHR ''+''" n]
  by (subst eat_modifiers.simps) auto

lemma bstrcasecmp_0_iff:
  assumes "NUL \<notin> set s"
  shows "bstrcasecmp s t = 0 \<longleftrightarrow> c_strcaseeq s t"
proof (cases "length s = length t")
  case True
  then show ?thesis
    using c_strncasecmp_0_iff [OF True assms]
    by (auto simp: bstrcasecmp_def bstr_len_cmp_def c_strcaseeq_def Let_def)
next
  case False
  then have "bstrcasecmp s t \<noteq> 0"
    by (auto simp: bstrcasecmp_def bstr_len_cmp_def Let_def)
  moreover have "\<not> c_strcaseeq s t"
    using False by (auto simp: c_strcaseeq_def dest: map_eq_imp_length_eq)
  ultimately show ?thesis by simp
qed

lemma find_modifier:
  assumes "(k, m) \<in> set modifier_names"
  shows "find (\<lambda>(_, n). bstrcasecmp n m = 0) modifier_names = Some (k, m)"
proof -
  have "\<forall>(k, m)\<in>set modifier_names.
      find (\<lambda>(_, n). bstrcasecmp n m = 0) modifier_names = Some (k, m)"
    by code_simp
  with assms show ?thesis by auto
qed

lemma eat_modifier:
  assumes "(k, m) \<in> set modifier_names"
  shows "eat_modifiers (m @ CHR ''+'' # rest) ms = eat_modifiers rest (ms OR k)"
proof -
  have "CHR ''+'' \<notin> set m"
    using assms modifier_names_plain by (auto simp: plain_name_def)
  then have "first_index (\<lambda>c. c = CHR ''+'') (m @ CHR ''+'' # rest) = length m"
    by (intro first_index_append_hit) auto
  then show ?thesis
    using find_modifier [OF assms] by (subst eat_modifiers.simps) simp
qed

lemma unset_bit_minus: "bit (k :: int) n \<Longrightarrow> k - 2 ^ n = k AND NOT (2 ^ n)"
  using unset_bit_eq [of n k] by (simp add: unset_bit_eq_and_not push_bit_eq_mult)


lemma eat_modifier_names:
  "eat_modifiers (''Shift+'' @ rest) ms = eat_modifiers rest (ms OR KEY_MODIFIER_SHIFT)"
  "eat_modifiers (''Ctrl+'' @ rest) ms = eat_modifiers rest (ms OR KEY_MODIFIER_CTRL)"
  "eat_modifiers (''Alt+'' @ rest) ms = eat_modifiers rest (ms OR KEY_MODIFIER_ALT)"
  "eat_modifiers (''Meta+'' @ rest) ms = eat_modifiers rest (ms OR KEY_MODIFIER_META)"
  using eat_modifier [of KEY_MODIFIER_SHIFT "''Shift''" rest ms]
    eat_modifier [of KEY_MODIFIER_CTRL "''Ctrl''" rest ms]
    eat_modifier [of KEY_MODIFIER_ALT "''Alt''" rest ms]
    eat_modifier [of KEY_MODIFIER_META "''Meta''" rest ms]
  by (simp_all add: modifier_names_def)

text \<open>Printing the modifiers and reading them back splits the key into base and modifiers.\<close>

definition key_base :: "int \<Rightarrow> int" where
  "key_base key = key AND NOT KEY_MODIFIER_MASK"

definition modifier_prefix :: "int \<Rightarrow> string" where
  "modifier_prefix key =
     (if bit key 22 then ''Shift+'' else []) @ (if bit key 23 then ''Ctrl+'' else [])
     @ (if bit key 24 then ''Alt+'' else []) @ (if bit key 25 then ''Meta+'' else [])"

definition modifier_sum :: "int \<Rightarrow> int" where
  "modifier_sum key =
     (if bit key 22 then KEY_MODIFIER_SHIFT else 0) + (if bit key 23 then KEY_MODIFIER_CTRL else 0)
     + (if bit key 24 then KEY_MODIFIER_ALT else 0) + (if bit key 25 then KEY_MODIFIER_META else 0)"

lemma and_pow2_eq: "2 ^ n AND k = (if bit k n then 2 ^ n else (0 :: int))"
  by (rule bit_eqI) (auto simp: bit_simps)

lemma and_not_pow2: "k - (if bit k n then 2 ^ n else 0) = (k AND NOT (2 ^ n) :: int)"
proof (cases "bit k n")
  case True
  then show ?thesis using unset_bit_minus by simp
next
  case False
  have "k AND NOT (2 ^ n) = k"
    by (rule bit_eqI) (use False in \<open>auto simp: bit_simps\<close>)
  with False show ?thesis by simp
qed

lemma bit_and_not_pow2: "m \<noteq> n \<Longrightarrow> bit (k AND NOT (2 ^ m) :: int) n = bit k n"
  by (auto simp: bit_simps)

lemma add_modifier_name_step:
  "add_modifier_names ((2 ^ n, name) # ms) key ret
     = add_modifier_names ms (key AND NOT (2 ^ n)) (ret @ (if bit key n then name @ ''+'' else []))"
  using and_not_pow2 [of key n] by (auto simp: and_pow2_eq)

lemma modifier_names_pow2:
  "modifier_names = [(2 ^ 22, ''Shift''), (2 ^ 23, ''Ctrl''), (2 ^ 24, ''Alt''), (2 ^ 25, ''Meta'')]"
  by (simp add: modifier_names_def)

lemma key_base_pow2:
  "key_base key = (((key AND NOT (2 ^ 22)) AND NOT (2 ^ 23)) AND NOT (2 ^ 24)) AND NOT (2 ^ 25)"
proof -
  have "KEY_MODIFIER_MASK = 2 ^ 22 OR 2 ^ 23 OR 2 ^ 24 OR (2 ^ 25 :: int)" by simp
  then have "key_base key = key AND NOT (2 ^ 22 OR 2 ^ 23 OR 2 ^ 24 OR (2 ^ 25 :: int))"
    by (simp only: key_base_def)
  then show ?thesis
    by (simp only: bit.de_Morgan_disj and.assoc)
qed

lemma add_modifier_names_eq:
  "add_modifier_names modifier_names key ret = (key_base key, ret @ modifier_prefix key)"
  unfolding modifier_names_pow2 add_modifier_name_step key_base_pow2 add_modifier_names.simps(1)
    modifier_prefix_def
  by (simp add: bit_and_not_pow2 del: power_numeral)

lemma key_base_plus_modifiers: "key_base key + modifier_sum key = key"
proof -
  have s: "KEY_MODIFIER_SHIFT = 2 ^ 22" "KEY_MODIFIER_CTRL = 2 ^ 23"
    "KEY_MODIFIER_ALT = 2 ^ 24" "KEY_MODIFIER_META = 2 ^ 25" by simp_all
  define a where "a = key AND NOT (2 ^ 22)"
  define b where "b = a AND NOT (2 ^ 23)"
  define c where "c = b AND NOT (2 ^ 24)"
  have bits: "bit a 23 = bit key 23" "bit b 24 = bit key 24" "bit c 25 = bit key 25"
    by (simp_all add: a_def b_def c_def bit_and_not_pow2 del: power_numeral)
  have "a = key - (if bit key 22 then 2 ^ 22 else 0)" "b = a - (if bit key 23 then 2 ^ 23 else 0)"
    "c = b - (if bit key 24 then 2 ^ 24 else 0)" "key_base key = c - (if bit key 25 then 2 ^ 25 else 0)"
    unfolding key_base_pow2 bits [symmetric] and_not_pow2 a_def b_def c_def by (rule refl)+
  then show ?thesis unfolding modifier_sum_def s by simp
qed

lemma eat_modifier_prefix_aux:
  assumes "(k1, n1) \<in> set modifier_names" "(k2, n2) \<in> set modifier_names"
    "(k3, n3) \<in> set modifier_names" "(k4, n4) \<in> set modifier_names"
  shows "eat_modifiers ((if b1 then n1 @ ''+'' else []) @ (if b2 then n2 @ ''+'' else [])
      @ (if b3 then n3 @ ''+'' else []) @ (if b4 then n4 @ ''+'' else []) @ rest) 0
    = eat_modifiers rest ((((0 OR (if b1 then k1 else 0)) OR (if b2 then k2 else 0))
      OR (if b3 then k3 else 0)) OR (if b4 then k4 else 0))"
  by (simp add: eat_modifier [OF assms(1)] eat_modifier [OF assms(2)] eat_modifier [OF assms(3)]
      eat_modifier [OF assms(4)])

lemma modifier_sum_or: "modifier_sum key =
   (((0 OR (if bit key 22 then KEY_MODIFIER_SHIFT else 0)) OR (if bit key 23 then KEY_MODIFIER_CTRL else 0))
      OR (if bit key 24 then KEY_MODIFIER_ALT else 0)) OR (if bit key 25 then KEY_MODIFIER_META else 0)"
  by (simp add: modifier_sum_def)

lemma eat_modifier_prefix: "eat_modifiers (modifier_prefix key @ rest) 0 = eat_modifiers rest (modifier_sum key)"
proof -
  have m: "(KEY_MODIFIER_SHIFT, ''Shift'') \<in> set modifier_names"
    "(KEY_MODIFIER_CTRL, ''Ctrl'') \<in> set modifier_names"
    "(KEY_MODIFIER_ALT, ''Alt'') \<in> set modifier_names"
    "(KEY_MODIFIER_META, ''Meta'') \<in> set modifier_names"
    by (simp_all add: modifier_names_def)
  have p: "modifier_prefix key @ rest = (if bit key 22 then ''Shift'' @ ''+'' else [])
      @ (if bit key 23 then ''Ctrl'' @ ''+'' else []) @ (if bit key 24 then ''Alt'' @ ''+'' else [])
      @ (if bit key 25 then ''Meta'' @ ''+'' else []) @ rest"
    by (simp add: modifier_prefix_def)
  show ?thesis unfolding p modifier_sum_or by (rule eat_modifier_prefix_aux [OF m])
qed

subsection \<open>The round trip\<close>

lemma get_key_name_eq:
  "get_key_name L key ret = ret @ modifier_prefix key @
     (case find (\<lambda>(k, _). k = key_base key) key_names of
        Some (_, name) \<Rightarrow> name
      | None \<Rightarrow> (if 32 \<le> key_base key \<and> key_base key \<le> 0x10FFFF then put_utf8 L (nat (key_base key))
                 else c_print_alt_hex8 (nat (key_base key mod 2 ^ 32))))"
  by (auto simp: get_key_name_def add_modifier_names_eq split: option.split)

lemma get_key_of_name_prefix:
  "mp_input_get_key_from_name L (modifier_prefix key @ name) =
     (case eat_modifiers name (modifier_sum key) of
        Inl r \<Rightarrow> r
      | Inr (name, modifiers) \<Rightarrow>
          (case bstr_decode_utf8 L name of
             Some (code, []) \<Rightarrow> int code + modifiers
           | _ \<Rightarrow>
               (if bstr_startswith name ''0x'' then c_int (fst (c_strtoll 16 name) + modifiers)
                else case find (\<lambda>(_, n). c_strcaseeq n name) key_names of
                    Some (k, _) \<Rightarrow> k + modifiers
                  | None \<Rightarrow> -1)))"
  by (simp only: mp_input_get_key_from_name_def eat_modifier_prefix)

lemma decode_ascii_pair: "byte c < 128 \<Longrightarrow> bstr_decode_utf8 L (c # s) = Some (byte c, s)"
  by (simp add: bstr_decode_utf8_def)

lemma get_key_of_table_name:
  assumes "(k, n) \<in> set key_names"
  shows "mp_input_get_key_from_name L (modifier_prefix key @ n) = k + modifier_sum key"
proof -
  have p: "plain_name n" using assms key_names_plain by auto
  then obtain c d r where n: "n = c # d # r" by (cases n rule: remdups_adj.cases) (auto simp: plain_name_def)
  have e: "eat_modifiers n (modifier_sum key) = Inr (n, modifier_sum key)"
    using p by (intro eat_modifiers_no_plus) (simp add: plain_name_def)
  have d: "bstr_decode_utf8 L n = Some (byte c, d # r)"
    using p by (simp add: n decode_ascii_pair plain_name_def)
  have x: "\<not> bstr_startswith n ''0x''"
    using p by (auto simp: n bstr_startswith_iff plain_name_def)
  show ?thesis
    unfolding get_key_of_name_prefix e sum.case prod.case d option.case list.case
    by (simp add: x find_key_by_name [OF assms])
qed

lemma utf8_encode_plus:
  assumes "n < 0x110000" and "n \<noteq> 43"
  shows "CHR ''+'' \<notin> set (utf8_encode n)"
proof -
  have c: "x = 43" if "CHR ''+'' = char_of x" "x < 256" for x :: nat
  proof -
    have "byte (CHR ''+'') = byte (char_of x)" using that by simp
    with that(2) show ?thesis by (simp add: byte_def)
  qed
  consider "n < 0x80" | "0x80 \<le> n" "n < 0x800" | "0x800 \<le> n" "n < 0x10000" | "0x10000 \<le> n" "n < 0x110000"
    using assms(1) by linarith
  then show ?thesis
  proof cases
    case 1
    then show ?thesis using assms(2) by (auto simp: utf8_encode_def dest!: c)
  next
    case 2
    then have "192 + n div 64 < 256" by linarith
    with 2 show ?thesis by (auto simp: utf8_encode_def dest!: c)
  next
    case 3
    then have "224 + n div 4096 < 256" by linarith
    with 3 show ?thesis by (auto simp: utf8_encode_def dest!: c)
  next
    case 4
    then have "240 + n div 262144 < 256" by linarith
    with 4 show ?thesis by (auto simp: utf8_encode_def dest!: c)
  qed
qed

lemma get_key_of_code_point:
  assumes L: "libav_ok L" and n: "n < 0x110000"
  shows "mp_input_get_key_from_name L (modifier_prefix key @ put_utf8 L n) = int n + modifier_sum key"
proof -
  have u: "put_utf8 L n = utf8_encode n" using L n by (simp add: libav_ok_def)
  show ?thesis
  proof (cases "n = 43")
    case True
    have "eat_modifiers ''+'' (modifier_sum key) = Inl (43 + modifier_sum key)"
      by (subst eat_modifiers.simps) (simp add: first_index_def modifier_names_def bstrcasecmp_def bstr_len_cmp_def)
    moreover have "utf8_encode 43 = ''+''"
      by (simp add: utf8_encode_def) (subst byte_inject [symmetric], simp add: byte_def)
    ultimately show ?thesis
      unfolding get_key_of_name_prefix u unfolding True by simp
  next
    case False
    then show ?thesis
      using decode_utf8_encode [OF L n, of "[]"] utf8_encode_plus [OF n False]
      by (simp add: get_key_of_name_prefix u eat_modifiers_no_plus)
  qed
qed

lemma get_key_of_hex:
  assumes "0 < n" and "0 \<le> int n + modifier_sum key" and "int n + modifier_sum key < 2 ^ 31"
    and "int n < 2 ^ 31"
  shows "mp_input_get_key_from_name L (modifier_prefix key @ c_print_alt_hex8 n) = int n + modifier_sum key"
proof -
  obtain k where h: "c_print_alt_hex8 n = ''0x'' @ print_nat 16 n @ replicate k (CHR '' '')"
    using assms(1) by (auto simp: c_print_alt_hex8_def Let_def)
  have r: "replicate k (CHR '' '') = [] \<or> \<not> is_digit_in 16 (hd (replicate k (CHR '' '')))"
    by (cases k) (auto simp: is_digit_in_def digit_val_def byte_def)
  have v: "fst (c_strtoll 16 (c_print_alt_hex8 n)) = int n"
    unfolding h by (rule c_strtoll_print_hex [OF _ r]) (use assms in \<open>simp add: LLONG_MAX_def\<close>)
  have "CHR ''+'' \<notin> set (print_nat 16 n)"
    using print_nat_digits [of 16 n] digit_not_sign by force
  then have e: "eat_modifiers (c_print_alt_hex8 n) (modifier_sum key) = Inr (c_print_alt_hex8 n, modifier_sum key)"
    by (intro eat_modifiers_no_plus) (auto simp: h)
  have d: "bstr_decode_utf8 L (c_print_alt_hex8 n)
      = Some (byte (CHR ''0''), CHR ''x'' # print_nat 16 n @ replicate k (CHR '' ''))"
    by (simp add: h decode_ascii_pair byte_def)
  have x: "bstr_startswith (c_print_alt_hex8 n) ''0x''"
    by (simp add: h bstr_startswith_iff)
  show ?thesis
    unfolding get_key_of_name_prefix e sum.case prod.case d option.case list.case
    using assms by (simp add: x v)
qed

lemma modifier_sum_nonneg: "0 \<le> modifier_sum key"
  by (simp add: modifier_sum_def)

lemma key_base_nonneg: "0 \<le> key \<Longrightarrow> 0 \<le> key_base key"
  by (simp add: key_base_def)

lemma key_name_roundtrip_aux:
  assumes L: "libav_ok L" and k: "0 \<le> key" "key < 2 ^ 31" and b: "key_base key \<noteq> 0"
  shows "mp_input_get_key_from_name L (get_key_name L key []) = key"
proof -
  note sum = key_base_plus_modifiers [of key]
  note nn = key_base_nonneg [OF k(1)] modifier_sum_nonneg [of key]
  have m: "key_base key mod 2 ^ 32 = key_base key"
    using nn sum k by simp
  show ?thesis
  proof (cases "find (\<lambda>(k, _). k = key_base key) key_names")
    case (Some kn)
    then obtain n where n: "(key_base key, n) \<in> set key_names" "kn = (key_base key, n)"
      by (auto simp: find_Some_iff) (metis nth_mem)
    show ?thesis
      using get_key_of_table_name [OF n(1), of L key] sum by (simp add: get_key_name_eq Some n(2))
  next
    case None
    show ?thesis
    proof (cases "32 \<le> key_base key \<and> key_base key \<le> 0x10FFFF")
      case True
      then have "nat (key_base key) < 0x110000" by linarith
      from get_key_of_code_point [OF L this, of key] True sum show ?thesis
        by (simp add: get_key_name_eq None)
    next
      case False
      have "mp_input_get_key_from_name L (modifier_prefix key @ c_print_alt_hex8 (nat (key_base key)))
          = int (nat (key_base key)) + modifier_sum key"
        by (rule get_key_of_hex) (use nn sum k b in linarith)+
      moreover have "get_key_name L key [] = modifier_prefix key @ c_print_alt_hex8 (nat (key_base key))"
        using False by (simp only: get_key_name_eq None m option.case if_False append_Nil)
      ultimately show ?thesis using nn sum by simp
    qed
  qed
qed

text \<open>The names of a combination, and where their dashes are.\<close>

abbreviation key_name :: "libav \<Rightarrow> int \<Rightarrow> string" where
  "key_name L key \<equiv> get_key_name L key []"

definition valid_key :: "int \<Rightarrow> bool" where
  "valid_key key = (0 \<le> key \<and> key < 2 ^ 31 \<and> key_base key \<noteq> 0)"

fun join_names :: "libav \<Rightarrow> int list \<Rightarrow> string" where
  "join_names L [] = []"
| "join_names L [key] = key_name L key"
| "join_names L (key # keys) = key_name L key @ CHR ''-'' # join_names L keys"

lemma get_key_name_append: "get_key_name L key ret = ret @ key_name L key"
  by (simp add: get_key_name_eq)

lemma get_key_combo_loop_eq:
  "keys \<noteq> [] \<Longrightarrow> 0 \<notin> set keys \<Longrightarrow>
   get_key_combo_loop L keys (length keys) ret = ret @ join_names L keys"
proof (induction keys arbitrary: ret)
  case (Cons key keys)
  show ?case
  proof (cases keys)
    case (Cons k ks)
    then have "length keys \<noteq> 0" "keys \<noteq> []" "hd keys \<noteq> 0" using Cons.prems by auto
    moreover have "join_names L (key # keys) = key_name L key @ CHR ''-'' # join_names L keys"
      by (simp add: Cons)
    ultimately show ?thesis
      using Cons.IH [of "get_key_name L key ret @ ''-''"] Cons.prems
      by (simp add: get_key_name_append [of L key ret])
  qed (use get_key_name_append [of L key ret] in simp)
qed simp

lemma byte_plus_minus: "byte (CHR ''-'') = 45" "byte (CHR ''+'') = 43"
  by (simp_all add: byte_def)

lemma utf8_encode_dash:
  assumes "n < 0x110000" and "n \<noteq> 45"
  shows "CHR ''-'' \<notin> set (utf8_encode n)"
proof -
  have c: "x = 45" if "CHR ''-'' = char_of x" "x < 256" for x :: nat
  proof -
    have "byte (CHR ''-'') = byte (char_of x)" using that by simp
    with that(2) show ?thesis by (simp add: byte_def)
  qed
  consider "n < 0x80" | "0x80 \<le> n" "n < 0x800" | "0x800 \<le> n" "n < 0x10000" | "0x10000 \<le> n" "n < 0x110000"
    using assms(1) by linarith
  then show ?thesis
  proof cases
    case 1
    then show ?thesis using assms(2) by (auto simp: utf8_encode_def dest!: c)
  next
    case 2
    then have "192 + n div 64 < 256" by linarith
    with 2 show ?thesis by (auto simp: utf8_encode_def dest!: c)
  next
    case 3
    then have "224 + n div 4096 < 256" by linarith
    with 3 show ?thesis by (auto simp: utf8_encode_def dest!: c)
  next
    case 4
    then have "240 + n div 262144 < 256" by linarith
    with 4 show ?thesis by (auto simp: utf8_encode_def dest!: c)
  qed
qed

lemma modifier_prefix_dash: "CHR ''-'' \<notin> set (modifier_prefix key)"
  by (auto simp: modifier_prefix_def)

lemma key_name_no_dash:
  assumes "libav_ok L" and "key_base key \<noteq> 45"
  shows "CHR ''-'' \<notin> set (key_name L key)"
proof (cases "find (\<lambda>(k, _). k = key_base key) key_names")
  case (Some kn)
  then have "kn \<in> set key_names" by (metis find_Some_iff nth_mem)
  then have "plain_name (snd kn)" using key_names_plain by auto
  then show ?thesis
    using modifier_prefix_dash by (cases kn) (simp add: get_key_name_eq Some plain_name_def)
next
  case None
  have u: "put_utf8 L n = utf8_encode n" if "n < 0x110000" for n
    using that assms(1) by (simp add: libav_ok_def)
  have "CHR ''-'' \<notin> set (c_print_alt_hex8 n)" for n
    using print_nat_digits [of 16 n] digit_not_sign [of 16 "CHR ''-''"] by (auto simp: c_print_alt_hex8_def Let_def)
  moreover have "CHR ''-'' \<notin> set (put_utf8 L (nat (key_base key)))"
    if "32 \<le> key_base key \<and> key_base key \<le> 0x10FFFF"
    using that assms(2) utf8_encode_dash [of "nat (key_base key)"] by (auto simp: u nat_eq_iff)
  ultimately show ?thesis
    using modifier_prefix_dash by (simp add: get_key_name_eq None)
qed

lemma key_name_dash:
  assumes "libav_ok L" and "key_base key = 45"
  shows "key_name L key = modifier_prefix key @ ''-''"
proof -
  have "find (\<lambda>(k, _). k = 45) key_names = None" by code_simp
  moreover have "utf8_encode 45 = ''-''"
    by (simp add: utf8_encode_def) (subst byte_inject [symmetric], simp add: byte_def)
  ultimately show ?thesis
    using assms by (simp add: get_key_name_eq libav_ok_def)
qed

lemma key_name_not_Nil:
  assumes "libav_ok L" and "valid_key key"
  shows "key_name L key \<noteq> []"
proof
  assume "key_name L key = []"
  then have "mp_input_get_key_from_name L [] = key"
    using key_name_roundtrip_aux [OF assms(1), of key] assms(2) by (simp add: valid_key_def)
  moreover have "mp_input_get_key_from_name L [] = -1"
  proof -
    have e: "eat_modifiers [] 0 = Inr ([], 0)" by (rule eat_modifiers_no_plus) simp
    have "find (\<lambda>(_, n). c_strcaseeq n []) key_names = None"
      using key_names_plain by (auto simp: find_None_iff c_strcaseeq_def plain_name_def)
    with e show ?thesis
      by (simp add: mp_input_get_key_from_name_def bstr_decode_utf8_def bstr_startswith_iff)
  qed
  ultimately show False using assms(2) by (simp add: valid_key_def)
qed

lemma key_name_hd_dash:
  assumes "libav_ok L" and "valid_key key"
  shows "hd (key_name L key) = CHR ''-'' \<longleftrightarrow> key = 45"
proof
  assume hd: "hd (key_name L key) = CHR ''-''"
  then have "CHR ''-'' \<in> set (key_name L key)"
    using key_name_not_Nil [OF assms] by (metis hd_in_set)
  then have b: "key_base key = 45" using key_name_no_dash [OF assms(1)] by blast
  then have "modifier_prefix key = []"
    using hd key_name_dash [OF assms(1) b] modifier_prefix_dash [of key]
    by (cases "modifier_prefix key") auto
  then have "modifier_sum key = 0"
    by (auto simp: modifier_prefix_def modifier_sum_def split: if_splits)
  then show "key = 45" using b key_base_plus_modifiers [of key] by simp
next
  assume "key = 45"
  then show "hd (key_name L key) = CHR ''-''"
    using key_name_dash [OF assms(1), of key]
    by (simp add: key_base_def modifier_prefix_def bit_numeral_rec)
qed

text \<open>One round of the loop: behind a name and a dash, the loop goes on behind the dash.\<close>

lemma get_input_loop_step:
  assumes L: "libav_ok L" and k: "valid_key key" and r: "rest \<noteq> []"
    and dash: "hd rest = CHR ''-'' \<Longrightarrow> key_base key = 45" and n: "Suc n < MP_MAX_KEY_DOWN"
  shows "get_input_loop L (key_name L key @ CHR ''-'' # rest) n
    = map_option ((#) key) (get_input_loop L rest (Suc n))"
proof -
  let ?s = "key_name L key @ CHR ''-'' # rest"
  have key: "mp_input_get_key_from_name L (key_name L key) = key" "0 \<le> key"
    using key_name_roundtrip_aux [OF L, of key] k by (auto simp: valid_key_def)
  show ?thesis
  proof (cases "key_base key = 45")
    case False
    have "first_index (\<lambda>c. c = CHR ''-'') ?s = length (key_name L key)"
      using key_name_no_dash [OF L False] by (intro first_index_append_hit) auto
    then show ?thesis
      using r dash False n key
      by (subst get_input_loop.simps) (auto simp: Let_def nth_append hd_conv_nth)
  next
    case True
    note kn = key_name_dash [OF L True]
    have "first_index (\<lambda>c. c = CHR ''-'') ?s = length (modifier_prefix key)"
      unfolding kn append_assoc append_Cons
      using modifier_prefix_dash [of key] by (intro first_index_append_hit) auto
    moreover have "mp_input_get_key_from_name L (modifier_prefix key @ ''-'') = key"
      using key(1) by (simp add: kn)
    ultimately show ?thesis
      using r n key(2) by (subst get_input_loop.simps) (auto simp: kn Let_def nth_append)
  qed
qed

lemma get_input_loop_last:
  assumes L: "libav_ok L" and k: "valid_key key"
  shows "get_input_loop L (key_name L key) n = Some [key]"
proof -
  have key: "mp_input_get_key_from_name L (key_name L key) = key" "0 \<le> key"
    using key_name_roundtrip_aux [OF L, of key] k by (auto simp: valid_key_def)
  have e: "length (key_name L key) \<le> Suc (first_index (\<lambda>c. c = CHR ''-'') (key_name L key))"
  proof (cases "key_base key = 45")
    case False
    then show ?thesis
      using key_name_no_dash [OF L False] first_index_less_iff [of "\<lambda>c. c = CHR ''-''" "key_name L key"]
      by auto
  next
    case True
    have "first_index (\<lambda>c. c = CHR ''-'') (modifier_prefix key @ [CHR ''-'']) = length (modifier_prefix key)"
      using modifier_prefix_dash [of key] by (intro first_index_append_hit) auto
    then show ?thesis by (simp add: key_name_dash [OF L True])
  qed
  then show ?thesis
    using key by (subst get_input_loop.simps) (simp add: Let_def)
qed

lemma get_input_loop_join:
  "libav_ok L \<Longrightarrow> keys \<noteq> [] \<Longrightarrow> \<forall>k\<in>set keys. valid_key k \<Longrightarrow>
   successively (\<lambda>a b. b = 45 \<longrightarrow> key_base a = 45) keys \<Longrightarrow> n + length keys \<le> MP_MAX_KEY_DOWN \<Longrightarrow>
   get_input_loop L (join_names L keys) n = Some keys"
proof (induction keys arbitrary: n)
  case (Cons key keys)
  show ?case
  proof (cases keys)
    case Nil
    then show ?thesis using Cons.prems by (simp add: get_input_loop_last)
  next
    case (Cons k ks)
    have j: "join_names L (key # keys) = key_name L key @ CHR ''-'' # join_names L keys"
      by (simp add: Cons)
    obtain t where t: "join_names L keys = key_name L k @ t"
      by (cases ks) (auto simp: Cons)
    have k: "valid_key k" and key: "valid_key key" using Cons.prems Cons by auto
    have ne: "key_name L k \<noteq> []" by (rule key_name_not_Nil [OF Cons.prems(1) k])
    have "get_input_loop L (join_names L (key # keys)) n
        = map_option ((#) key) (get_input_loop L (join_names L keys) (Suc n))"
      unfolding j
    proof (rule get_input_loop_step [OF Cons.prems(1) key])
      show "join_names L keys \<noteq> []" using ne t by simp
      show "key_base key = 45" if "hd (join_names L keys) = CHR ''-''"
        using that Cons.prems(4) key_name_hd_dash [OF Cons.prems(1) k] ne t Cons by simp
      show "Suc n < MP_MAX_KEY_DOWN" using Cons.prems(5) Cons by simp
    qed
    also have "get_input_loop L (join_names L keys) (Suc n) = Some keys"
      using Cons.IH [of "Suc n"] Cons.prems Cons by simp
    finally show ?thesis by simp
  qed
qed simp

text \<open>
  A key survives being printed and read back: for every non-negative \<open>int\<close> key code
  whose base is not zero, event flags and modifiers included, the name \<open>get_key_name\<close>
  prints is parsed by \<open>mp_input_get_key_from_name\<close> to the key, whichever branch (table
  name, UTF-8 or hexadecimal) printed it.
\<close>

theorem key_name_roundtrip:
  assumes "libav_ok L" and "0 \<le> key" and "key < 2 ^ 31" and "key AND NOT KEY_MODIFIER_MASK \<noteq> 0"
  shows "mp_input_get_key_from_name L (get_key_name L key []) = key"
  using key_name_roundtrip_aux assms by (simp add: key_base_def)

lemma key_name_roundtrip_witness:
  "mp_input_get_key_from_name libav_ref (get_key_name libav_ref (KEY_MODIFIER_CTRL + 0x20AC) [])
     = KEY_MODIFIER_CTRL + 0x20AC"
  by (rule key_name_roundtrip [OF libav_ref_ok]) (simp_all add: Bit_Operations.not_int_def)

text \<open>
  C29: A key combination survives being printed and read back: \<open>get_input_from_name\<close> of
  what \<open>get_key_combo_name\<close> printed is the combination, for up to \<open>MP_MAX_KEY_DOWN\<close>
  keys, unless the unmodified dash key follows a key that is not a dash.
\<close>

theorem key_combo_roundtrip:
  assumes "libav_ok L" and "keys \<noteq> []" and "length keys \<le> MP_MAX_KEY_DOWN"
    and "\<forall>key\<in>set keys. 0 \<le> key \<and> key < 2 ^ 31 \<and> key AND NOT KEY_MODIFIER_MASK \<noteq> 0"
    and "successively (\<lambda>a b. b = 45 \<longrightarrow> a AND NOT KEY_MODIFIER_MASK = 45) keys"
  shows "get_input_from_name L (get_key_combo_name L keys (length keys)) = Some keys"
proof -
  have v: "\<forall>k\<in>set keys. valid_key k"
    using assms(4) by (simp add: valid_key_def key_base_def)
  then have "0 \<notin> set keys" by (auto simp: valid_key_def key_base_def)
  then show ?thesis
    using get_input_loop_join [OF assms(1,2) v, of 0] get_key_combo_loop_eq [OF assms(2), of L "[]"] assms
    by (simp add: get_input_from_name_def get_key_combo_name_def key_base_def)
qed

lemma key_combo_roundtrip_witness:
  "get_input_from_name libav_ref (get_key_combo_name libav_ref [97, KEY_LEFT] (length [97, KEY_LEFT]))
     = Some [97, KEY_LEFT]"
  by (rule key_combo_roundtrip [OF libav_ref_ok]) (simp_all add: Bit_Operations.not_int_def)

text \<open>
  The exception is real: the combination of the keys a and dash is printed as a name
  that \<open>get_input_from_name\<close> refuses.
\<close>

theorem key_combo_dash_refused:
  assumes "libav_ok L"
  shows "get_input_from_name L (get_key_combo_name L [97, 45] 2) = None"
proof -
  have k: "key_name L 97 = ''a''" "key_name L 45 = ''-''"
  proof -
    have "find (\<lambda>(k, _). k = 97) key_names = None" by code_simp
    moreover have "utf8_encode 97 = ''a''"
      by (simp add: utf8_encode_def) (subst byte_inject [symmetric], simp add: byte_def)
    ultimately show "key_name L 97 = ''a''"
      using assms by (simp add: get_key_name_eq libav_ok_def key_base_def modifier_prefix_def bit_numeral_rec)
    show "key_name L 45 = ''-''"
      using key_name_dash [OF assms, of 45] by (simp add: key_base_def modifier_prefix_def bit_numeral_rec)
  qed
  have "get_key_combo_name L [97, 45] 2 = ''a--''"
    using get_key_combo_loop_eq [of "[97, 45]" L "[]"] by (simp add: get_key_combo_name_def k)
  moreover have "mp_input_get_key_from_name L ''a-'' = -1"
  proof -
    have e: "eat_modifiers ''a-'' 0 = Inr (''a-'', 0)" by (rule eat_modifiers_no_plus) simp
    have "find (\<lambda>(_, n). c_strcaseeq n ''a-'') key_names = None" by code_simp (*slow*)
    with e show ?thesis
      by (simp add: mp_input_get_key_from_name_def bstr_decode_utf8_def bstr_startswith_iff byte_def)
  qed
  ultimately show ?thesis
    by (simp add: get_input_from_name_def get_input_loop.simps first_index_def)
qed

lemma key_combo_dash_refused_witness:
  "get_input_from_name libav_ref (get_key_combo_name libav_ref [97, 45] 2) = None"
  by (rule key_combo_dash_refused [OF libav_ref_ok])

end
