(* ===== verification/Binds.thy ===== *)
theory Binds
  imports Cmd_Queue Key_Names
begin

unbundle bit_operations_syntax

text \<open>
  Key bindings (\<open>get_bind_section\<close>, \<open>find_bind_for_key\<close>, \<open>get_cmd_from_keys\<close>,
  \<open>bind_keys\<close>, \<open>parse_config\<close>, \<open>mp_input_set_section\<close> of \<open>input/input.c\<close>): the
  sections of bindings, looking a combination up, and reading a configuration. A key array
  is the list of its entries before the terminating zero, reads behind it give that zero;
  a section without an array of bindings behaves as one with an empty array, so both are
  the empty list. The locale \<open>keymap\<close> is the contract of the store of bindings.
\<close>

subsection \<open>State\<close>

record cmd_bind =
  bind_input :: "int list"
  bind_cmd :: string

type_synonym bind_sections = "(bstr \<times> cmd_bind list) list"

record bind_ctx =
  cmd_bind_sections :: bind_sections
  bind_section :: bstr

subsection \<open>Lookup\<close>

text \<open>
  \<open>get_bind_section\<close> finds the section's place in the list, appending an empty section
  when there is none.
\<close>

fun get_bind_section :: "bind_sections \<Rightarrow> bstr \<Rightarrow> nat \<times> bind_sections" where
  "get_bind_section [] section = (0, [(section, [])])"
| "get_bind_section (s # ss) section =
     (if bstrcmp section (fst s) = 0 then (0, s # ss)
      else let (i, ss') = get_bind_section ss section in (Suc i, s # ss'))"

text \<open>
  The comparison in \<open>find_bind_for_key\<close>: \<open>keys\<close> are the \<open>n\<close> keys looked for. It
  succeeds when all \<open>n\<close> agree and the binding ends there.
\<close>

fun bind_matches :: "int list \<Rightarrow> int list \<Rightarrow> bool" where
  "bind_matches [] keys = (keys = [])"
| "bind_matches (i # is) [] = (i = 0)"
| "bind_matches (i # is) (k # ks) = (i \<noteq> 0 \<and> i = k \<and> bind_matches is ks)"

definition find_bind_for_key :: "bind_sections \<Rightarrow> bstr \<Rightarrow> int list \<Rightarrow> string option \<times> bind_sections" where
  "find_bind_for_key ss section keys =
     (if keys = [] then (None, ss)
      else let (i, ss) = get_bind_section ss section
           in (map_option bind_cmd (find (\<lambda>b. bind_matches (bind_input b) keys) (snd (ss ! i))), ss))"

definition get_cmd_from_keys :: "(string \<Rightarrow> c_float option) \<Rightarrow> bind_ctx \<Rightarrow> int list \<Rightarrow> mp_cmd option \<times> bind_ctx" where
  "get_cmd_from_keys atof bx keys =
     (let (cmd, ss) = find_bind_for_key (cmd_bind_sections bx) (bind_section bx) keys;
          (cmd, ss) = (case cmd of None \<Rightarrow> find_bind_for_key ss ''default'' keys | Some c \<Rightarrow> (Some c, ss));
          bx = bx\<lparr>cmd_bind_sections := ss\<rparr>
      in case cmd of
           None \<Rightarrow> (None, bx)
         | Some c \<Rightarrow> (if c = ''ignore'' then (None, bx) else (mp_input_parse_cmd atof c, bx)))"

subsection \<open>Binding\<close>

text \<open>The comparison in \<open>bind_keys\<close>: both arrays agree up to a common zero.\<close>

fun same_keys :: "int list \<Rightarrow> int list \<Rightarrow> bool" where
  "same_keys [] [] = True"
| "same_keys [] (k # ks) = (k = 0)"
| "same_keys (i # is) [] = (i = 0)"
| "same_keys (i # is) (k # ks) = (if i = k \<and> k \<noteq> 0 then same_keys is ks else k = 0 \<and> i = 0)"

definition bstrdup0 :: "bstr \<Rightarrow> string" where
  "bstrdup0 s = takeWhile (\<lambda>c. c \<noteq> NUL) s"

fun set_bind :: "cmd_bind list \<Rightarrow> int list \<Rightarrow> string \<Rightarrow> cmd_bind list" where
  "set_bind [] keys cmd = [\<lparr>bind_input = keys, bind_cmd = cmd\<rparr>]"
| "set_bind (b # bs) keys cmd =
     (if same_keys (bind_input b) keys then \<lparr>bind_input = keys, bind_cmd = cmd\<rparr> # bs
      else b # set_bind bs keys cmd)"

definition split_section :: "bstr \<Rightarrow> bstr \<times> bstr" where
  "split_section cmd =
     (let idx = bstrchr cmd (CHR ''}'')
      in if bstr_startswith cmd ''{'' \<and> 0 < idx
         then (bstr_strip (bstr_splice cmd 1 idx), bstr_strip (bstr_cut cmd (idx + 1)))
         else (''default'', cmd))"

definition bind_keys :: "bind_sections \<Rightarrow> int list \<Rightarrow> bstr \<Rightarrow> bind_sections" where
  "bind_keys ss keys cmd =
     (let (section, cmd) = split_section cmd;
          (i, ss) = get_bind_section ss section
      in ss[i := (fst (ss ! i), set_bind (snd (ss ! i)) keys (bstrdup0 cmd))])"

abbreviation (input) WHITESPACE :: string where
  "WHITESPACE \<equiv> [CHR '' '', CHR 0x0C, LF, CR, TAB, CHR 0x0B]"

text \<open>One line of \<open>parse_config\<close>; the result says whether it was a binding.\<close>

definition parse_config_line :: "libav \<Rightarrow> bind_sections \<Rightarrow> bstr \<Rightarrow> bind_sections \<times> bool" where
  "parse_config_line L ss l =
     (let line = bstr_strip l
      in if line = [] \<or> bstr_startswith line ''#'' then (ss, False)
         else let (keyname, command) = bstr_split line WHITESPACE;
                  command = bstr_strip command
              in if command = [] then (ss, False)
                 else case get_input_from_name L (bstrdup0 keyname) of
                     None \<Rightarrow> (ss, False)
                   | Some keys \<Rightarrow> (bind_keys ss keys command, True))"

lemma bstr_getline_shorter: "data \<noteq> [] \<Longrightarrow> length (snd (bstr_getline data)) < length data"
  by (cases data) (auto simp: bstr_getline_def bstrchr_iff Let_def)

function parse_config_loop :: "libav \<Rightarrow> bind_sections \<Rightarrow> bstr \<Rightarrow> nat \<Rightarrow> bind_sections \<times> nat" where
  "parse_config_loop L ss data n_binds =
     (if data = [] then (ss, n_binds)
      else let line = fst (bstr_getline data); data = snd (bstr_getline data);
               (ss, ok) = parse_config_line L ss line
           in parse_config_loop L ss data (if ok then Suc n_binds else n_binds))"
  by pat_completeness auto
termination
  by (relation "measure (\<lambda>(_, _, data, _). length data)") (simp_all add: bstr_getline_shorter)

declare parse_config_loop.simps [simp del]

definition parse_config :: "libav \<Rightarrow> bind_ctx \<Rightarrow> bstr \<Rightarrow> bind_ctx \<times> nat" where
  "parse_config L bx data =
     (let (ss, n) = parse_config_loop L (cmd_bind_sections bx) data 0
      in (bx\<lparr>cmd_bind_sections := ss\<rparr>, n))"

definition mp_input_set_section :: "bind_ctx \<Rightarrow> string option \<Rightarrow> bind_ctx" where
  "mp_input_set_section bx name =
     bx\<lparr>bind_section := (case name of None \<Rightarrow> ''default'' | Some n \<Rightarrow> n)\<rparr>"

text \<open>The bindings part of \<open>mp_input_init\<close>.\<close>

definition init_binds :: bind_ctx where
  "init_binds = \<lparr>cmd_bind_sections = [], bind_section = ''default''\<rparr>"

subsection \<open>The store of bindings\<close>

definition lookup_bind :: "bind_sections \<Rightarrow> bstr \<Rightarrow> int list \<Rightarrow> string option" where
  "lookup_bind ss section keys = fst (find_bind_for_key ss section keys)"

definition bind_in :: "bind_sections \<Rightarrow> bstr \<Rightarrow> int list \<Rightarrow> string \<Rightarrow> bind_sections" where
  "bind_in ss section keys cmd =
     (let (i, ss) = get_bind_section ss section in ss[i := (fst (ss ! i), set_bind (snd (ss ! i)) keys cmd)])"

definition section_binds :: "bind_sections \<Rightarrow> bstr \<Rightarrow> cmd_bind list" where
  "section_binds ss section = (case map_of ss section of None \<Rightarrow> [] | Some bs \<Rightarrow> bs)"

lemma bind_matches_iff: "bind_matches i keys \<longleftrightarrow> takeWhile (\<lambda>k. k \<noteq> 0) i = keys"
  by (induction i keys rule: bind_matches.induct) auto

lemma same_keys_iff: "same_keys a b \<longleftrightarrow> takeWhile (\<lambda>k. k \<noteq> 0) a = takeWhile (\<lambda>k. k \<noteq> 0) b"
  by (induction a b rule: same_keys.induct) auto

lemma get_bind_section_props:
  assumes "get_bind_section ss sec = (i, ss')"
  shows "i < length ss' \<and> fst (ss' ! i) = sec \<and> snd (ss' ! i) = section_binds ss sec
    \<and> (\<forall>s. section_binds ss' s = section_binds ss s)
    \<and> (\<forall>b s. section_binds (ss'[i := (sec, b)]) s = (if s = sec then b else section_binds ss s))"
  using assms
proof (induction ss sec arbitrary: i ss' rule: get_bind_section.induct)
  case (1 sec)
  then show ?case by (auto simp: section_binds_def)
next
  case (2 s ss sec)
  show ?case
  proof (cases "bstrcmp sec (fst s) = 0")
    case True
    then have "sec = fst s" by (simp add: bstrcmp_eq_0_iff)
    with 2(2) show ?thesis by (cases s) (auto simp: section_binds_def bstrcmp_eq_0_iff)
  next
    case False
    then have ne: "fst s \<noteq> sec" by (auto simp: bstrcmp_eq_0_iff)
    obtain j st where g: "get_bind_section ss sec = (j, st)" by fastforce
    with 2(2) False have r: "i = Suc j" "ss' = s # st" by auto
    have cons: "section_binds (s # x) t = (if fst s = t then snd s else section_binds x t)" for x t
      by (simp add: section_binds_def)
    show ?thesis using 2(1) [OF False g] ne by (auto simp: r cons)
  qed
qed

lemma lookup_bind_eq:
  "lookup_bind ss section keys = (if keys = [] then None else
     map_option bind_cmd (find (\<lambda>b. takeWhile (\<lambda>k. k \<noteq> 0) (bind_input b) = keys) (section_binds ss section)))"
proof -
  obtain i ss' where g: "get_bind_section ss section = (i, ss')" by fastforce
  with get_bind_section_props [OF g] show ?thesis
    by (simp add: lookup_bind_def find_bind_for_key_def bind_matches_iff)
qed

lemma lookup_leaves_binds:
  "section_binds (snd (find_bind_for_key ss section keys)) = section_binds ss"
proof -
  obtain i ss' where g: "get_bind_section ss section = (i, ss')" by fastforce
  with get_bind_section_props [OF g] show ?thesis
    by (auto simp: find_bind_for_key_def)
qed

lemma section_binds_bind_in:
  "section_binds (bind_in ss section keys cmd) s =
     (if s = section then set_bind (section_binds ss section) keys cmd else section_binds ss s)"
proof -
  obtain i ss' where g: "get_bind_section ss section = (i, ss')" by fastforce
  with get_bind_section_props [OF g] show ?thesis by (simp add: bind_in_def)
qed

lemma find_set_bind:
  "find (\<lambda>b. takeWhile (\<lambda>k. k \<noteq> 0) (bind_input b) = ks) (set_bind bs keys cmd) =
     (if takeWhile (\<lambda>k. k \<noteq> 0) keys = ks then Some \<lparr>bind_input = keys, bind_cmd = cmd\<rparr>
      else find (\<lambda>b. takeWhile (\<lambda>k. k \<noteq> 0) (bind_input b) = ks) bs)"
  by (induction bs) (auto simp: same_keys_iff)

definition key_list :: "int list \<Rightarrow> bool" where
  "key_list keys = (keys \<noteq> [] \<and> 0 \<notin> set keys)"

lemma key_list_takeWhile: "key_list keys \<Longrightarrow> takeWhile (\<lambda>k. k \<noteq> 0) keys = keys"
  by (rule takeWhile_all) (auto simp: key_list_def)

locale keymap =
  fixes bind :: "'s \<Rightarrow> 'sec \<Rightarrow> 'k \<Rightarrow> 'c \<Rightarrow> 's" and lookup :: "'s \<Rightarrow> 'sec \<Rightarrow> 'k \<Rightarrow> 'c option"
    and valid :: "'k \<Rightarrow> bool"
  assumes lookup_bind_same: "valid k \<Longrightarrow> lookup (bind s sec k c) sec k = Some c"
    and lookup_bind_other: "valid k \<Longrightarrow> valid k' \<Longrightarrow> (sec, k) \<noteq> (sec', k') \<Longrightarrow>
      lookup (bind s sec k c) sec' k' = lookup s sec' k'"
begin

lemma lookup_fold:
  "\<forall>(sec, k, c)\<in>set es. valid k \<Longrightarrow> valid k' \<Longrightarrow>
   lookup (foldl (\<lambda>s (sec, k, c). bind s sec k c) s es) sec' k' =
     (case find (\<lambda>(sec, k, c). sec = sec' \<and> k = k') (rev es) of
        Some (_, _, c) \<Rightarrow> Some c | None \<Rightarrow> lookup s sec' k')"
proof (induction es rule: rev_induct)
  case (snoc e es)
  obtain sec k c where e: "e = (sec, k, c)" by (cases e)
  show ?case
  proof (cases "sec = sec' \<and> k = k'")
    case True
    then show ?thesis using snoc.prems lookup_bind_same by (simp add: e)
  next
    case False
    then show ?thesis using snoc lookup_bind_other [of k k' sec sec'] by (auto simp: e)
  qed
qed simp

lemma bind_idem: "valid k \<Longrightarrow> valid k' \<Longrightarrow> lookup (bind (bind s sec k c) sec k c) sec' k' = lookup (bind s sec k c) sec' k'"
  using lookup_bind_same lookup_bind_other by (cases "(sec, k) = (sec', k')") auto

end

interpretation bindings: keymap bind_in lookup_bind key_list
proof unfold_locales
  fix s and sec :: bstr and c and k :: "int list"
  assume "key_list k"
  then show "lookup_bind (bind_in s sec k c) sec k = Some c"
    using key_list_takeWhile [of k]
    by (simp add: lookup_bind_eq section_binds_bind_in find_set_bind key_list_def)
next
  fix s and sec sec' :: bstr and c and k k' :: "int list"
  assume "key_list k" "key_list k'" "(sec, k) \<noteq> (sec', k')"
  then show "lookup_bind (bind_in s sec k c) sec' k' = lookup_bind s sec' k'"
    by (auto simp: lookup_bind_eq section_binds_bind_in find_set_bind key_list_takeWhile)
qed

subsection \<open>Reading a configuration\<close>

text \<open>A line of a configuration: a combination's name, a section or none, and a command.\<close>

type_synonym conf_entry = "string \<times> string option \<times> string"

definition entry_line :: "conf_entry \<Rightarrow> string" where
  "entry_line e = (case e of (name, sec, cmd) \<Rightarrow>
     name @ CHR '' '' # (case sec of None \<Rightarrow> [] | Some s \<Rightarrow> CHR ''{'' # s @ ''} '') @ cmd)"

definition entry_section :: "conf_entry \<Rightarrow> string" where
  "entry_section e = (case fst (snd e) of None \<Rightarrow> ''default'' | Some s \<Rightarrow> s)"

definition clean :: "string \<Rightarrow> bool" where
  "clean s = (s \<noteq> [] \<and> \<not> c_isspace (hd s) \<and> \<not> c_isspace (last s) \<and> LF \<notin> set s)"

definition conf_entry_ok :: "libav \<Rightarrow> conf_entry \<Rightarrow> bool" where
  "conf_entry_ok L e = (case e of (name, sec, cmd) \<Rightarrow>
     name \<noteq> [] \<and> list_all (\<lambda>c. \<not> in_cset WHITESPACE c) name \<and> hd name \<noteq> CHR ''#''
     \<and> (case get_input_from_name L name of None \<Rightarrow> False | Some keys \<Rightarrow> key_list keys)
     \<and> (case sec of None \<Rightarrow> hd cmd \<noteq> CHR ''{'' | Some s \<Rightarrow> clean s \<and> CHR ''}'' \<notin> set s)
     \<and> clean cmd \<and> NUL \<notin> set cmd)"

lemma dropWhile_clean: "s \<noteq> [] \<Longrightarrow> \<not> P (hd s) \<Longrightarrow> \<forall>c\<in>set ws. P c \<Longrightarrow> dropWhile P (ws @ s) = s"
  by (cases s) (simp_all add: dropWhile_append)

lemma strip_clean:
  assumes "s \<noteq> []" "\<not> c_isspace (hd s)" "\<not> c_isspace (last s)" "\<forall>c\<in>set ws. c_isspace c" "\<forall>c\<in>set ws'. c_isspace c"
  shows "bstr_strip (ws' @ s @ ws) = s"
proof -
  have "bstr_lstrip (ws' @ s @ ws) = s @ ws"
    unfolding bstr_lstrip_def by (rule dropWhile_clean) (use assms in simp_all)
  moreover have "dropWhile c_isspace (rev ws @ rev s) = rev s"
    by (rule dropWhile_clean) (use assms in \<open>simp_all add: hd_rev\<close>)
  ultimately show ?thesis by (simp add: bstr_strip_def)
qed

lemma isspace_in_cset: "c_isspace c \<Longrightarrow> in_cset WHITESPACE c"
proof -
  assume "c_isspace c"
  then have "byte c = 32 \<or> byte c = 9 \<or> byte c = 10 \<or> byte c = 11 \<or> byte c = 12 \<or> byte c = 13"
    by (auto simp: c_isspace_def)
  then have "byte c \<in> byte ` set WHITESPACE" by (auto simp: byte_def)
  then show ?thesis by (auto simp: in_cset_def)
qed

lemma split_name:
  assumes "name \<noteq> []" and "\<forall>c\<in>set name. \<not> in_cset WHITESPACE c"
  shows "bstr_split (name @ CHR '' '' # rest) WHITESPACE = (name, CHR '' '' # rest)"
proof -
  have "first_index (\<lambda>c. \<not> in_cset WHITESPACE c) (name @ CHR '' '' # rest) = 0"
    using assms by (cases name) (simp_all add: first_index_def)
  moreover have "bstrcspn (name @ CHR '' '' # rest) WHITESPACE = length name"
    unfolding bstrcspn_def by (rule first_index_append_hit) (use assms(2) in \<open>auto simp: in_cset_def\<close>)
  ultimately show ?thesis by (simp add: bstr_split_def)
qed

lemma split_section_print:
  assumes "clean cmd"
  shows "hd cmd \<noteq> CHR ''{'' \<Longrightarrow> split_section cmd = (''default'', cmd)"
    and "clean s \<Longrightarrow> CHR ''}'' \<notin> set s \<Longrightarrow> split_section (CHR ''{'' # s @ ''} '' @ cmd) = (s, cmd)"
proof -
  show "split_section cmd = (''default'', cmd)" if "hd cmd \<noteq> CHR ''{''"
    using that assms by (cases cmd) (auto simp: split_section_def bstr_startswith_iff clean_def Let_def)
  assume s: "clean s" and n: "CHR ''}'' \<notin> set s"
  let ?t = "CHR ''{'' # s @ ''} '' @ cmd"
  have "first_index (\<lambda>c. c = CHR ''}'') ((CHR ''{'' # s) @ CHR ''}'' # CHR '' '' # cmd) = length (CHR ''{'' # s)"
    by (rule first_index_append_hit) (use n in auto)
  then have i: "bstrchr ?t (CHR ''}'') = 1 + int (length s)"
    by (simp add: bstrchr_iff)
  have "bstr_splice ?t 1 (1 + int (length s)) = s"
    by (simp add: bstr_splice_nonneg nat_add_distrib)
  moreover have "bstr_cut ?t (1 + int (length s) + 1) = CHR '' '' # cmd"
    by (simp add: nat_add_distrib)
  moreover have "bstr_strip s = s"
    using strip_clean [of s "[]" "[]"] s by (simp add: clean_def)
  moreover have "bstr_strip (CHR '' '' # cmd) = cmd"
    using strip_clean [of cmd "[]" "'' ''"] assms by (simp add: clean_def c_isspace_def byte_def)
  ultimately show "split_section ?t = (s, cmd)"
    unfolding split_section_def Let_def i by (simp add: bstr_startswith_iff)
qed

definition entry_keys :: "libav \<Rightarrow> conf_entry \<Rightarrow> int list" where
  "entry_keys L e = the (get_input_from_name L (fst e))"

definition entry_cmd :: "conf_entry \<Rightarrow> string" where
  "entry_cmd e = snd (snd e)"

lemma bstrdup0_id: "NUL \<notin> set s \<Longrightarrow> bstrdup0 s = s"
  unfolding bstrdup0_def by (rule takeWhile_all) auto

lemma bind_keys_eq: "split_section cmd = (sec, c) \<Longrightarrow> bind_keys ss keys cmd = bind_in ss sec keys (bstrdup0 c)"
  by (simp add: bind_keys_def bind_in_def)

lemma not_cset_chars: "\<not> in_cset WHITESPACE c \<Longrightarrow> \<not> c_isspace c \<and> c \<noteq> LF"
  using isspace_in_cset by (auto simp: in_cset_def)

lemma entry_line_clean:
  assumes "conf_entry_ok L e"
  shows "clean (entry_line e)"
proof -
  obtain name sec cmd where e: "e = (name, sec, cmd)" by (cases e)
  have n: "name \<noteq> []" "list_all (\<lambda>c. \<not> in_cset WHITESPACE c) name"
    using assms by (simp_all add: e conf_entry_ok_def)
  then have "\<forall>c\<in>set name. \<not> c_isspace c \<and> c \<noteq> LF"
    using not_cset_chars unfolding list_all_iff by blast
  then have "\<not> c_isspace (hd name)" "LF \<notin> set name" using n(1) by auto
  moreover obtain mid where l: "entry_line e = name @ CHR '' '' # mid @ cmd" and m: "LF \<notin> set mid"
  proof (cases sec)
    case None
    then show ?thesis by (intro that [of "[]"]) (simp_all add: e entry_line_def)
  next
    case (Some t)
    with assms have "LF \<notin> set t" by (simp add: e conf_entry_ok_def clean_def)
    with Some show ?thesis by (intro that [of "CHR ''{'' # t @ ''} ''"]) (simp_all add: e entry_line_def)
  qed
  moreover have "cmd \<noteq> []" "\<not> c_isspace (last cmd)" "LF \<notin> set cmd"
    using assms by (simp_all add: e conf_entry_ok_def clean_def)
  ultimately show ?thesis using n(1) unfolding clean_def l by simp
qed

lemma parse_config_entry:
  assumes "conf_entry_ok L e"
  shows "parse_config_line L ss (entry_line e @ [LF])
    = (bind_in ss (entry_section e) (entry_keys L e) (entry_cmd e), True)"
proof -
  obtain name sec cmd where e: "e = (name, sec, cmd)" by (cases e)
  from assms have n: "name \<noteq> []" "\<forall>c\<in>set name. \<not> in_cset WHITESPACE c" "hd name \<noteq> CHR ''#''"
    and k: "get_input_from_name L name = Some (entry_keys L e)"
    and c: "clean cmd" "NUL \<notin> set cmd"
    by (auto simp: e conf_entry_ok_def list_all_iff entry_keys_def split: option.splits)
  define body where "body = (case sec of None \<Rightarrow> [] | Some s \<Rightarrow> CHR ''{'' # s @ ''} '') @ cmd"
  have l: "entry_line e = name @ CHR '' '' # body"
    by (simp add: e entry_line_def body_def)
  have cl: "clean (entry_line e)" by (rule entry_line_clean [OF assms])
  have s: "bstr_strip (entry_line e @ [LF]) = entry_line e"
    using strip_clean [of "entry_line e" "[LF]" "[]"] cl by (simp add: clean_def c_isspace_def byte_def)
  have t: "clean body"
    using assms by (cases sec) (auto simp: e conf_entry_ok_def clean_def body_def c_isspace_def byte_def)
  have st: "bstr_strip (CHR '' '' # body) = body" "body \<noteq> []"
    using strip_clean [of body "[]" "'' ''"] t by (simp_all add: clean_def c_isspace_def byte_def)
  have sp: "split_section body = (entry_section e, cmd)"
    using assms split_section_print [OF c(1)]
    by (cases sec) (auto simp: e conf_entry_ok_def body_def entry_section_def)
  have nn: "bstrdup0 name = name" by (rule bstrdup0_id) (use n(2) in \<open>auto simp: in_cset_def\<close>)
  have h: "\<not> bstr_startswith (name @ CHR '' '' # body) ''#''"
    using n(1,3) by (cases name) (auto simp: bstr_startswith_iff)
  show ?thesis
    using n(1) h split_name [OF n(1,2), of body] st k nn bind_keys_eq [OF sp] bstrdup0_id [OF c(2)]
    unfolding parse_config_line_def s unfolding l
    by (simp add: Let_def entry_cmd_def e)
qed

lemma getline_line: "LF \<notin> set l \<Longrightarrow> bstr_getline (l @ LF # rest) = (l @ [LF], rest)"
proof -
  assume "LF \<notin> set l"
  then have "first_index (\<lambda>c. c = LF) (l @ LF # rest) = length l"
    by (intro first_index_append_hit) auto
  then show ?thesis by (simp add: bstr_getline_def bstrchr_iff Let_def nat_add_distrib)
qed

lemma parse_config_loop_entries:
  "\<forall>e\<in>set es. conf_entry_ok L e \<Longrightarrow>
   parse_config_loop L ss (concat (map (\<lambda>e. entry_line e @ [LF]) es)) n =
     (foldl (\<lambda>ss e. bind_in ss (entry_section e) (entry_keys L e) (entry_cmd e)) ss es, n + length es)"
proof (induction es arbitrary: ss n)
  case Nil
  then show ?case by (simp add: parse_config_loop.simps)
next
  case (Cons e es)
  then have ok: "conf_entry_ok L e" by simp
  have "LF \<notin> set (entry_line e)" using entry_line_clean [OF ok] by (simp add: clean_def)
  then have g: "bstr_getline (concat (map (\<lambda>e. entry_line e @ [LF]) (e # es)))
      = (entry_line e @ [LF], concat (map (\<lambda>e. entry_line e @ [LF]) es))"
    using getline_line [of "entry_line e"] by simp
  show ?case
    using Cons parse_config_entry [OF ok, of ss]
    by (subst parse_config_loop.simps) (simp add: g [simplified])
qed

lemma find_map_entries: "find P (map f xs) = map_option f (find (\<lambda>x. P (f x)) xs)"
  by (induction xs) simp_all

text \<open>
  C22: Reading a configuration binds what its lines say: after a file of well-formed lines
  (a key combination's name, an optional section, a command) every combination of every
  section has the command of the last line naming it, any other combination the binding it
  had before, and the number of bindings reported is the number of lines.
\<close>

theorem parse_config_last_line_wins:
  assumes "\<forall>e\<in>set es. conf_entry_ok L e" and "key_list keys"
  shows "let (bx', n) = parse_config L bx (concat (map (\<lambda>e. entry_line e @ [LF]) es)) in
    lookup_bind (cmd_bind_sections bx') sec keys =
      (case find (\<lambda>e. entry_section e = sec \<and> entry_keys L e = keys) (rev es) of
         Some e \<Rightarrow> Some (entry_cmd e)
       | None \<Rightarrow> lookup_bind (cmd_bind_sections bx) sec keys) \<and> n = length es"
proof -
  let ?g = "\<lambda>e. (entry_section e, entry_keys L e, entry_cmd e)"
  have f: "foldl (\<lambda>ss e. bind_in ss (entry_section e) (entry_keys L e) (entry_cmd e)) ss es
      = foldl (\<lambda>s (sec, k, c). bind_in s sec k c) ss (map ?g es)" for ss
    by (induction es arbitrary: ss) simp_all
  have v: "\<forall>(sec, k, c)\<in>set (map ?g es). key_list k"
  proof -
    have "key_list (entry_keys L e)" if "e \<in> set es" for e
    proof -
      have "conf_entry_ok L e" using assms(1) that by blast
      then show ?thesis by (auto simp: conf_entry_ok_def entry_keys_def split: prod.splits option.splits)
    qed
    then show ?thesis by auto
  qed
  have "find (\<lambda>(s, k, c). s = sec \<and> k = keys) (rev (map ?g es))
      = map_option ?g (find (\<lambda>e. entry_section e = sec \<and> entry_keys L e = keys) (rev es))"
    by (simp add: rev_map find_map_entries)
  then show ?thesis
    using bindings.lookup_fold [OF v assms(2), of "cmd_bind_sections bx" sec] parse_config_loop_entries [OF assms(1)]
    by (simp add: parse_config_def f split: option.splits)
qed

lemma parse_config_last_line_wins_witness:
  "lookup_bind (cmd_bind_sections (fst (parse_config libav_ref init_binds
     (concat (map (\<lambda>e. entry_line e @ [LF]) [(''a'', None, ''pause''), (''a'', Some ''dvd'', ''quit 1''), (''a'', None, ''osd'')])))))
     ''default'' [97] = Some ''osd''"
proof -
  let ?es = "[(''a'', None, ''pause''), (''a'', Some ''dvd'', ''quit 1''), (''a'', None, ''osd'')]"
  have ok: "\<forall>e\<in>set ?es. conf_entry_ok libav_ref e" by code_simp (*slow*)
  have k: "key_list [97]" by (simp add: key_list_def)
  have a: "get_input_from_name libav_ref ''a'' = Some [97]" by code_simp
  show ?thesis
    using parse_config_last_line_wins [OF ok k, of init_binds "''default''"]
    by (simp add: entry_section_def entry_keys_def a entry_cmd_def split: prod.splits)
qed

end
