(* ===== verification/Key_State.thy ===== *)
theory Key_State
  imports Binds
begin

unbundle bit_operations_syntax

text \<open>
  The keyboard state (\<open>interpret_key\<close>, \<open>check_autorepeat\<close>, \<open>mp_input_feed_key\<close>,
  \<open>mp_input_queue_cmd\<close>, and the queue part of \<open>mp_input_get_cmd\<close> of
  \<open>input/input.c\<close>): which keys are held, when a combination fires, autorepeat, and the
  bound on queued commands. The array \<open>key_down\<close> is the list of its entries in use, so
  \<open>num_key_down\<close> is its length; a write behind its 32 elements is \<open>None\<close>. The timer and
  \<open>unsigned\<close> fields are 32-bit words; the result of \<open>GetTimer\<close> is an argument.
\<close>

record input_ctx =
  ar_state :: int
  ar_cmd :: "mp_cmd option"
  last_ar :: "32 word"
  ar_delay :: "32 word"
  ar_rate :: "32 word"
  key_fifo_size :: int
  key_down :: "int list"
  last_key_down :: "32 word"
  ictx_binds :: bind_ctx
  got_new_events :: bool
  key_cmd_queue :: "mp_cmd list"
  control_cmd_queue :: "mp_cmd list"

definition init_input_ctx :: "int \<Rightarrow> 32 word \<Rightarrow> 32 word \<Rightarrow> input_ctx" where
  "init_input_ctx fifo_size delay rate =
     \<lparr>ar_state = -1, ar_cmd = None, last_ar = 0, ar_delay = delay, ar_rate = rate,
      key_fifo_size = fifo_size, key_down = [], last_key_down = 0, ictx_binds = init_binds,
      got_new_events = False, key_cmd_queue = [], control_cmd_queue = []\<rparr>"

text \<open>\<open>get_cmd_from_keys\<close> on the input context.\<close>

definition ictx_cmd :: "(string \<Rightarrow> c_float option) \<Rightarrow> input_ctx \<Rightarrow> int list \<Rightarrow> mp_cmd option \<times> input_ctx" where
  "ictx_cmd atof ictx keys =
     (let (c, bx) = get_cmd_from_keys atof (ictx_binds ictx) keys in (c, ictx\<lparr>ictx_binds := bx\<rparr>))"

definition drop_shift :: "int \<Rightarrow> int" where
  "drop_shift code =
     (let unmod = code AND NOT KEY_MODIFIER_MASK
      in if 32 \<le> unmod \<and> unmod < MP_KEY_BASE then code AND NOT KEY_MODIFIER_SHIFT else code)"

text \<open>The branch of \<open>interpret_key\<close> for a key going down.\<close>

definition press_key :: "32 word \<Rightarrow> input_ctx \<Rightarrow> int \<Rightarrow> input_ctx" where
  "press_key now ictx code =
     (if MP_MAX_KEY_DOWN \<le> length (key_down ictx) then ictx
      else let code = code AND NOT MP_KEY_DOWN
           in if first_index (\<lambda>k. k = code) (key_down ictx) \<noteq> length (key_down ictx) then ictx
              else ictx\<lparr>key_down := key_down ictx @ [code], last_key_down := now, ar_state := 0\<rparr>)"

text \<open>
  The branch for a release, a press without separate events, or a double click. The bound
  of the array is checked with \<open>>\<close>: with all 32 elements in use the write goes behind it.
\<close>

definition release_key :: "(string \<Rightarrow> c_float option) \<Rightarrow> input_ctx \<Rightarrow> int \<Rightarrow> (input_ctx \<times> mp_cmd option) option" where
  "release_key atof ictx code =
     (let keys = key_down ictx; n = length keys;
          j = first_index (\<lambda>k. k = code) keys;
          doubleclick = (MOUSE_BTN0_DBL \<le> code \<and> code < MOUSE_BTN_DBL_END);
          btn = code - MOUSE_BTN0_DBL + MOUSE_BTN0
      in if doubleclick \<and> (n = 0 \<or> keys ! (n - 1) \<noteq> btn) then Some (ictx, None)
         else let (j, ictx) = (if doubleclick then (n - 1, ictx\<lparr>key_down := keys[n - 1 := code]\<rparr>) else (j, ictx))
         in if j = n \<and> MP_MAX_KEY_DOWN < n then Some (ictx, None)
         else do {
           ictx \<leftarrow> (if j = n
             then (if n = MP_MAX_KEY_DOWN then None
                   else Some (ictx\<lparr>key_down := key_down ictx @ [code], last_key_down := 1\<rparr>))
             else Some ictx);
           let (ret, ictx) = (if last_key_down ictx \<noteq> 0 then ictx_cmd atof ictx (key_down ictx) else (None, ictx));
           if doubleclick then Some (ictx\<lparr>key_down := (key_down ictx)[j := btn]\<rparr>, ret)
           else Some (ictx\<lparr>key_down := remove_nth j (key_down ictx), last_key_down := 0,
                           ar_state := -1, ar_cmd := None\<rparr>, ret) })"

definition interpret_key :: "(string \<Rightarrow> c_float option) \<Rightarrow> 32 word \<Rightarrow> input_ctx \<Rightarrow> int \<Rightarrow> (input_ctx \<times> mp_cmd option) option" where
  "interpret_key atof now ictx code =
     (let code = drop_shift code
      in if code AND MP_KEY_DOWN \<noteq> 0 then Some (press_key now ictx code, None)
         else release_key atof ictx code)"

text \<open>A cloned command is a copy of its values.\<close>

definition mp_cmd_clone :: "mp_cmd \<Rightarrow> mp_cmd" where
  "mp_cmd_clone c = c"

text \<open>Cloning a command that is a null pointer is \<open>None\<close>.\<close>

definition check_autorepeat :: "(string \<Rightarrow> c_float option) \<Rightarrow> 32 word \<Rightarrow> input_ctx \<Rightarrow> (input_ctx \<times> mp_cmd option) option" where
  "check_autorepeat atof t ictx =
     (if ar_rate ictx > 0 \<and> ar_state ictx \<ge> 0 \<and> key_down ictx \<noteq> []
        \<and> last (key_down ictx) AND MP_NO_REPEAT_KEY = 0
      then if ar_state ictx = 0 \<and> t - last_key_down ictx \<ge> ar_delay ictx * 1000
           then let (c, ictx) = ictx_cmd atof ictx (key_down ictx); ictx = ictx\<lparr>ar_cmd := c\<rparr>
                in case c of
                     None \<Rightarrow> Some (ictx\<lparr>ar_state := -1\<rparr>, None)
                   | Some c \<Rightarrow> Some (ictx\<lparr>ar_state := 1, last_ar := t\<rparr>, Some (mp_cmd_clone c))
           else if ar_state ictx = 1 \<and> t - last_ar ictx \<ge> 1000000 div ar_rate ictx
           then do { c \<leftarrow> ar_cmd ictx; Some (ictx\<lparr>last_ar := t\<rparr>, Some (mp_cmd_clone c)) }
           else Some (ictx, None)
      else Some (ictx, None))"

definition mp_input_feed_key :: "(string \<Rightarrow> c_float option) \<Rightarrow> 32 word \<Rightarrow> input_ctx \<Rightarrow> int \<Rightarrow> input_ctx option" where
  "mp_input_feed_key atof now ictx code =
     (let ictx = ictx\<lparr>got_new_events := True\<rparr>
      in if code = MP_INPUT_RELEASE_ALL then Some (ictx\<lparr>key_down := [], last_key_down := 0\<rparr>)
         else do {
           (ictx, cmd) \<leftarrow> interpret_key atof now ictx code;
           case cmd of
             None \<Rightarrow> Some ictx
           | Some c \<Rightarrow>
               (let q = key_cmd_queue ictx
                in if key_fifo_size ictx \<le> int (length q) \<and> (\<not> is_abort_cmd (cmd_id c) \<or> lq_abort q \<noteq> 0)
                   then Some ictx
                   else Some (ictx\<lparr>key_cmd_queue := lq_add q c False\<rparr>)) })"

definition mp_input_queue_cmd :: "input_ctx \<Rightarrow> mp_cmd option \<Rightarrow> input_ctx \<times> bool" where
  "mp_input_queue_cmd ictx cmd =
     (let ictx = ictx\<lparr>got_new_events := True\<rparr>
      in case cmd of
           None \<Rightarrow> (ictx, False)
         | Some c \<Rightarrow> (ictx\<lparr>control_cmd_queue := lq_add (control_cmd_queue ictx) c True\<rparr>, True))"

text \<open>
  \<open>mp_input_get_cmd\<close> behind \<open>read_all_events\<close>: the control queue comes first; with
  both queues empty an autorepeated command may be added and taken.
\<close>

definition get_queued_cmd :: "(string \<Rightarrow> c_float option) \<Rightarrow> 32 word \<Rightarrow> bool \<Rightarrow> input_ctx \<Rightarrow> (input_ctx \<times> mp_cmd option) option" where
  "get_queued_cmd atof now peek_only ictx =
     (case control_cmd_queue ictx of
        c # q \<Rightarrow>
          Some ((if peek_only then ictx else ictx\<lparr>control_cmd_queue := q\<rparr>), Some c)
      | [] \<Rightarrow>
          (case key_cmd_queue ictx of
             c # q \<Rightarrow> Some ((if peek_only then ictx else ictx\<lparr>key_cmd_queue := q\<rparr>), Some c)
           | [] \<Rightarrow> do {
               (ictx, ret) \<leftarrow> check_autorepeat atof now ictx;
               case ret of
                 None \<Rightarrow> Some (ictx, None)
               | Some c \<Rightarrow> do {
                   let q = lq_add (key_cmd_queue ictx) c False;
                   q \<leftarrow> (if peek_only then Some q else lq_pop q);
                   Some (ictx\<lparr>key_cmd_queue := q\<rparr>, Some c) } }))"

subsection \<open>What the operations leave alone\<close>

lemma ictx_cmd_eq: "ictx_cmd atof s keys = (fst (get_cmd_from_keys atof (ictx_binds s) keys),
   s\<lparr>ictx_binds := snd (get_cmd_from_keys atof (ictx_binds s) keys)\<rparr>)"
  by (simp add: ictx_cmd_def case_prod_beta)

definition plain_release :: "int \<Rightarrow> bool" where
  "plain_release code = (\<not> (MOUSE_BTN0_DBL \<le> code \<and> code < MOUSE_BTN_DBL_END))"

text \<open>The three outcomes of a release: refused double click, double click, plain release.\<close>

lemma release_key_plain:
  assumes "plain_release code"
  shows "release_key atof s code =
    (let keys = key_down s; j = first_index (\<lambda>k. k = code) keys
     in if j = length keys then
          (if MP_MAX_KEY_DOWN < length keys then Some (s, None)
           else if length keys = MP_MAX_KEY_DOWN then None
           else let (c, s) = ictx_cmd atof (s\<lparr>key_down := keys @ [code], last_key_down := 1\<rparr>) (keys @ [code])
                in Some (s\<lparr>key_down := keys, last_key_down := 0, ar_state := -1, ar_cmd := None\<rparr>, c))
        else let (c, s) = (if last_key_down s \<noteq> 0 then ictx_cmd atof s keys else (None, s))
             in Some (s\<lparr>key_down := remove_nth j keys, last_key_down := 0, ar_state := -1, ar_cmd := None\<rparr>, c))"
  using assms by (auto simp: release_key_def plain_release_def Let_def ictx_cmd_eq)

lemma key_down_self: "key_down s = ks \<Longrightarrow> s\<lparr>key_down := ks\<rparr> = s"
  by (cases s) simp

lemma key_down_binds_commute: "s\<lparr>key_down := ks, ictx_binds := b\<rparr> = s\<lparr>ictx_binds := b, key_down := ks\<rparr>"
  by (cases s) simp

lemma release_key_double:
  assumes "\<not> plain_release code"
  shows "release_key atof s code =
    (let btn = code - MOUSE_BTN0_DBL + MOUSE_BTN0
     in if key_down s = [] \<or> last (key_down s) \<noteq> btn then Some (s, None)
        else let (c, s') = (if last_key_down s \<noteq> 0 then ictx_cmd atof s (butlast (key_down s) @ [code]) else (None, s))
             in Some (s', c))"
proof (cases "key_down s" rule: rev_cases)
  case Nil
  then show ?thesis using assms by (simp add: release_key_def plain_release_def)
next
  case (snoc ks k)
  have d: "MOUSE_BTN0_DBL \<le> code \<and> code < MOUSE_BTN_DBL_END" using assms by (simp add: plain_release_def)
  show ?thesis
  proof (cases "k = code - MOUSE_BTN0_DBL + MOUSE_BTN0")
    case False
    then show ?thesis using d by (simp add: release_key_def snoc)
  next
    case True
    have self: "(if last_key_down s \<noteq> 0 then snd (ictx_cmd atof s (ks @ [code])) else s)\<lparr>key_down := ks @ [k]\<rparr>
        = (if last_key_down s \<noteq> 0 then snd (ictx_cmd atof s (ks @ [code])) else s)"
      by (rule key_down_self) (simp add: ictx_cmd_eq snoc)
    show ?thesis using d True self
      by (simp add: release_key_def snoc Let_def ictx_cmd_eq key_down_binds_commute)
  qed
qed

subsection \<open>The invariant\<close>

definition input_inv :: "input_ctx \<Rightarrow> bool" where
  "input_inv s \<longleftrightarrow> distinct (key_down s) \<and> length (key_down s) \<le> MP_MAX_KEY_DOWN
     \<and> (\<forall>k\<in>set (key_down s). k AND MP_KEY_DOWN = 0)
     \<and> ar_state s \<in> {-1, 0, 1} \<and> (ar_state s = 1 \<longrightarrow> ar_cmd s \<noteq> None)"

definition fifo_inv :: "input_ctx \<Rightarrow> bool" where
  "fifo_inv s \<longleftrightarrow> int (length (key_cmd_queue s))
     \<le> max 1 (key_fifo_size s) + (if lq_abort (key_cmd_queue s) \<noteq> 0 then 1 else 0)"

definition queues_of :: "input_ctx \<Rightarrow> mp_cmd list \<times> mp_cmd list \<times> int" where
  "queues_of s = (key_cmd_queue s, control_cmd_queue s, key_fifo_size s)"

lemma fifo_inv_cong: "queues_of s = queues_of t \<Longrightarrow> fifo_inv s = fifo_inv t"
  by (simp add: queues_of_def fifo_inv_def)

lemma release_key_frame:
  assumes "release_key atof s code = Some (s', c)"
  shows "(key_down s' = key_down s \<or> (\<exists>j. key_down s' = remove_nth j (key_down s)))
    \<and> queues_of s' = queues_of s \<and> (ar_state s' = -1 \<or> ar_state s' = ar_state s \<and> ar_cmd s' = ar_cmd s)"
proof (cases "plain_release code")
  case True
  with assms show ?thesis
    by (auto simp: release_key_plain ictx_cmd_eq Let_def queues_of_def split: if_splits)
next
  case False
  with assms show ?thesis
    by (auto simp: release_key_double ictx_cmd_eq Let_def queues_of_def split: if_splits)
qed

lemma length_remove_nth_le: "length (remove_nth j ks) \<le> length ks"
  by (simp add: remove_nth_def)

lemma release_key_inv [mp_inv]:
  assumes "input_inv s" and "release_key atof s code = Some (s', c)"
  shows "input_inv s'"
proof -
  note frame = release_key_frame [OF assms(2)]
  have "distinct (key_down s') \<and> length (key_down s') \<le> length (key_down s) \<and> set (key_down s') \<subseteq> set (key_down s)"
    using frame assms(1) by (auto simp: input_inv_def length_remove_nth_le subsetD [OF set_remove_nth_subset])
  moreover have "ar_state s' \<in> {-1, 0, 1} \<and> (ar_state s' = 1 \<longrightarrow> ar_cmd s' \<noteq> None)"
    using frame assms(1) by (auto simp: input_inv_def)
  ultimately show ?thesis using assms(1) unfolding input_inv_def by (meson order_trans subsetD)
qed

lemma press_key_inv [mp_inv]:
  assumes "input_inv s"
  shows "input_inv (press_key now s code)"
proof -
  have z: "(code AND NOT MP_KEY_DOWN) AND MP_KEY_DOWN = 0"
    by (simp only: and.assoc) simp
  have n: "k \<notin> set ks" if "first_index (\<lambda>x. x = k) ks = length ks" for k :: int and ks
    using first_index_less_iff [of "\<lambda>x. x = k" ks] that by auto
  show ?thesis
    using assms z n [of _ "key_down s"] by (auto simp: press_key_def input_inv_def Let_def)
qed

lemma press_key_queues [simp]: "queues_of (press_key now s code) = queues_of s"
  by (simp add: press_key_def queues_of_def Let_def)

lemma interpret_key_inv [mp_inv]:
  assumes "input_inv s" and "interpret_key atof now s code = Some (s', c)"
  shows "input_inv s' \<and> queues_of s' = queues_of s"
  using assms release_key_frame release_key_inv press_key_inv
  by (auto simp: interpret_key_def Let_def split: if_splits)

lemma feed_key_inv [mp_inv]:
  assumes "input_inv s" and "fifo_inv s" and "mp_input_feed_key atof now s code = Some s'"
  shows "input_inv s' \<and> fifo_inv s'"
proof (cases "code = MP_INPUT_RELEASE_ALL")
  case True
  with assms show ?thesis
    by (auto simp: mp_input_feed_key_def input_inv_def fifo_inv_def Let_def)
next
  case False
  let ?s = "s\<lparr>got_new_events := True\<rparr>"
  have i: "input_inv ?s" using assms(1) by (simp add: input_inv_def)
  from assms(3) False obtain t c where t: "interpret_key atof now ?s code = Some (t, c)"
    and r: "s' = t \<or> (\<exists>x. c = Some x \<and> s' = t\<lparr>key_cmd_queue := lq_add (key_cmd_queue t) x False\<rparr>
        \<and> (int (length (key_cmd_queue t)) < key_fifo_size t \<or> is_abort_cmd (cmd_id x) \<and> lq_abort (key_cmd_queue t) = 0))"
    by (auto simp: mp_input_feed_key_def Let_def bind_eq_Some_conv split: option.splits if_splits)
  have it: "input_inv t" and qt: "queues_of t = queues_of ?s"
    using interpret_key_inv [OF i t] by simp_all
  have ft: "fifo_inv t"
    using assms(2) fifo_inv_cong [OF qt] by (simp add: fifo_inv_def)
  from r show ?thesis
  proof (elim disjE exE conjE)
    assume "s' = t" then show ?thesis using it ft by simp
  next
    fix x assume s': "s' = t\<lparr>key_cmd_queue := lq_add (key_cmd_queue t) x False\<rparr>"
      and "int (length (key_cmd_queue t)) < key_fifo_size t"
    then show ?thesis using it by (simp add: input_inv_def fifo_inv_def lq_add_def)
  next
    fix x assume s': "s' = t\<lparr>key_cmd_queue := lq_add (key_cmd_queue t) x False\<rparr>"
      and "is_abort_cmd (cmd_id x)" "lq_abort (key_cmd_queue t) = 0"
    then show ?thesis using it ft by (simp add: input_inv_def fifo_inv_def lq_add_def lq_abort_def)
  qed
qed

lemma queue_cmd_inv [mp_inv]:
  "input_inv s \<Longrightarrow> fifo_inv s \<Longrightarrow> input_inv (fst (mp_input_queue_cmd s c)) \<and> fifo_inv (fst (mp_input_queue_cmd s c))"
  by (cases c) (simp_all add: mp_input_queue_cmd_def input_inv_def fifo_inv_def)

lemma check_autorepeat_ok:
  assumes "input_inv s"
  shows "\<exists>s' c. check_autorepeat atof now s = Some (s', c) \<and> input_inv s' \<and> queues_of s' = queues_of s"
  using assms
  by (auto simp: check_autorepeat_def ictx_cmd_eq input_inv_def queues_of_def mp_cmd_clone_def Let_def
      split: option.splits)

lemma fifo_inv_pop:
  "fifo_inv s \<Longrightarrow> key_cmd_queue s = c # q \<Longrightarrow> fifo_inv (s\<lparr>key_cmd_queue := q\<rparr>)"
  by (auto simp: fifo_inv_def lq_abort_def split: if_splits)

lemma get_queued_cmd_ok:
  assumes "input_inv s" and "fifo_inv s"
  shows "\<exists>s' c. get_queued_cmd atof now peek s = Some (s', c) \<and> input_inv s' \<and> fifo_inv s'"
proof (cases "control_cmd_queue s")
  case (Cons c q)
  with assms show ?thesis by (auto simp: get_queued_cmd_def input_inv_def fifo_inv_def)
next
  case Nil
  note control = Nil
  show ?thesis
  proof (cases "key_cmd_queue s")
    case (Cons c q)
    with control assms fifo_inv_pop [OF assms(2) Cons] show ?thesis
      by (auto simp: get_queued_cmd_def input_inv_def)
  next
    case Nil
    obtain t r where t: "check_autorepeat atof now s = Some (t, r)" and it: "input_inv t"
      and qt: "queues_of t = queues_of s"
      using check_autorepeat_ok [OF assms(1)] by blast
    have kt: "key_cmd_queue t = []" and ft: "fifo_inv t"
      using qt Nil assms(2) fifo_inv_cong [OF qt] by (simp_all add: queues_of_def)
    show ?thesis
    proof (cases r)
      case None
      with control Nil t it ft show ?thesis by (simp add: get_queued_cmd_def)
    next
      case (Some x)
      let ?t = "t\<lparr>key_cmd_queue := (if peek then [x] else [])\<rparr>"
      have "get_queued_cmd atof now peek s = Some (?t, Some x)"
        using control Nil t kt Some by (cases peek) (simp_all add: get_queued_cmd_def lq_add_def lq_pop_def)
      moreover have "input_inv ?t" using it by (simp add: input_inv_def)
      moreover have "fifo_inv ?t" by (auto simp: fifo_inv_def max_def)
      ultimately show ?thesis by blast
    qed
  qed
qed

subsection \<open>Every reachable state\<close>

text \<open>The operations of the interface, with any key code, timer value, command or section.\<close>

inductive input_step :: "libav \<Rightarrow> (string \<Rightarrow> c_float option) \<Rightarrow> input_ctx \<Rightarrow> input_ctx \<Rightarrow> bool"
  for L atof where
  step_feed: "mp_input_feed_key atof now s code = Some s' \<Longrightarrow> input_step L atof s s'"
| step_queue: "mp_input_queue_cmd s c = (s', r) \<Longrightarrow> input_step L atof s s'"
| step_get: "get_queued_cmd atof now peek s = Some (s', c) \<Longrightarrow> input_step L atof s s'"
| step_section: "input_step L atof s (s\<lparr>ictx_binds := mp_input_set_section (ictx_binds s) name\<rparr>)"
| step_config: "parse_config L (ictx_binds s) data = (bx, n) \<Longrightarrow> input_step L atof s (s\<lparr>ictx_binds := bx\<rparr>)"

inductive input_reach :: "libav \<Rightarrow> (string \<Rightarrow> c_float option) \<Rightarrow> input_ctx \<Rightarrow> bool" for L atof where
  reach_init: "input_reach L atof (init_input_ctx fifo_size delay rate)"
| reach_step: "input_reach L atof s \<Longrightarrow> input_step L atof s s' \<Longrightarrow> input_reach L atof s'"

inductive_cases input_stepE: "input_step L atof s s'"

lemma input_step_inv:
  assumes "input_step L atof s s'" and "input_inv s" and "fifo_inv s"
  shows "input_inv s' \<and> fifo_inv s'"
  using assms(1)
proof (rule input_stepE)
  fix now code assume "mp_input_feed_key atof now s code = Some s'"
  then show ?thesis using feed_key_inv [OF assms(2,3)] by blast
next
  fix c r assume "mp_input_queue_cmd s c = (s', r)"
  then show ?thesis using queue_cmd_inv [OF assms(2,3), of c] by simp
next
  fix now peek c assume "get_queued_cmd atof now peek s = Some (s', c)"
  then show ?thesis using get_queued_cmd_ok [OF assms(2,3), of atof now peek] by auto
next
  fix name assume "s' = s\<lparr>ictx_binds := mp_input_set_section (ictx_binds s) name\<rparr>"
  then show ?thesis using assms(2,3) by (simp add: input_inv_def fifo_inv_def)
next
  fix bx data n assume "s' = s\<lparr>ictx_binds := bx\<rparr>"
  then show ?thesis using assms(2,3) by (simp add: input_inv_def fifo_inv_def)
qed

lemma input_reach_inv: "input_reach L atof s \<Longrightarrow> input_inv s \<and> fifo_inv s"
proof (induction rule: input_reach.induct)
  case (reach_init fifo_size delay rate)
  then show ?case by (simp add: init_input_ctx_def input_inv_def fifo_inv_def)
next
  case (reach_step s s')
  then show ?case using input_step_inv by blast
qed

text \<open>
  C14: In every state the input layer can reach, whatever keys, commands, configurations and
  timer values it is given: the held keys are distinct, at most 32, without the down flag;
  the autorepeated command exists whenever autorepeat is running; and at most
  \<open>key_fifo_size\<close> commands are queued from keys (but always room for one, and for one
  more when a queued one aborts playback).
\<close>

theorem input_reachable_invariant:
  assumes "input_reach L atof s"
  shows "distinct (key_down s) \<and> length (key_down s) \<le> MP_MAX_KEY_DOWN
    \<and> (\<forall>k\<in>set (key_down s). k AND MP_KEY_DOWN = 0)
    \<and> (ar_state s = 1 \<longrightarrow> ar_cmd s \<noteq> None)
    \<and> int (length (key_cmd_queue s))
        \<le> max 1 (key_fifo_size s) + (if lq_abort (key_cmd_queue s) \<noteq> 0 then 1 else 0)"
  using input_reach_inv [OF assms] by (simp add: input_inv_def fifo_inv_def)

lemma input_reachable_invariant_witness:
  "length (key_down (init_input_ctx 7 100 8\<lparr>got_new_events := True, key_down := [KEY_LEFT], ar_state := 0, last_key_down := 5\<rparr>)) \<le> MP_MAX_KEY_DOWN"
proof -
  let ?s = "init_input_ctx 7 100 8\<lparr>got_new_events := True, key_down := [KEY_LEFT], ar_state := 0, last_key_down := 5\<rparr>"
  have "mp_input_feed_key (\<lambda>_. None) 5 (init_input_ctx 7 100 8) (MP_KEY_DOWN + KEY_LEFT) = Some ?s"
    by (simp add: mp_input_feed_key_def interpret_key_def drop_shift_def press_key_def init_input_ctx_def
        first_index_def Let_def)
  then have "input_reach libav_ref (\<lambda>_. None) ?s"
    by (blast intro: input_reach.intros input_step.intros)
  from input_reachable_invariant [OF this] show ?thesis by blast
qed

text \<open>
  C34: Getting a command never fails in a reachable state, and feeding a key fails (a write
  behind the array of held keys) exactly when all 32 places are taken and the key is
  released without having been pressed, and is no double click.
\<close>

theorem feed_key_overruns_iff:
  assumes "input_reach L atof s"
  shows "(mp_input_feed_key atof now s code = None \<longleftrightarrow>
    code \<noteq> MP_INPUT_RELEASE_ALL \<and> length (key_down s) = MP_MAX_KEY_DOWN
    \<and> drop_shift code AND MP_KEY_DOWN = 0 \<and> drop_shift code \<notin> set (key_down s)
    \<and> \<not> (MOUSE_BTN0_DBL \<le> drop_shift code \<and> drop_shift code < MOUSE_BTN_DBL_END))
    \<and> get_queued_cmd atof now peek s \<noteq> None"
    (is "(_ \<longleftrightarrow> ?overrun) \<and> _")
proof
  show "get_queued_cmd atof now peek s \<noteq> None"
    using input_reach_inv [OF assms] get_queued_cmd_ok [of s atof now peek] by auto
  let ?s = "s\<lparr>got_new_events := True\<rparr>" and ?c = "drop_shift code"
  have len: "length (key_down s) \<le> MP_MAX_KEY_DOWN"
    using input_reach_inv [OF assms] by (simp add: input_inv_def)
  have feed: "mp_input_feed_key atof now s code = None \<longleftrightarrow>
      code \<noteq> MP_INPUT_RELEASE_ALL \<and> interpret_key atof now ?s code = None"
    by (cases "interpret_key atof now ?s code")
      (auto simp: mp_input_feed_key_def Let_def split: option.splits)
  have idx: "first_index (\<lambda>k. k = ?c) (key_down s) = length (key_down s) \<longleftrightarrow> ?c \<notin> set (key_down s)"
    using first_index_less_iff [of "\<lambda>k. k = ?c" "key_down s"] first_index_le [of "\<lambda>k. k = ?c" "key_down s"]
    by auto
  have rel: "release_key atof ?s ?c = None \<longleftrightarrow>
      plain_release ?c \<and> length (key_down s) = MP_MAX_KEY_DOWN \<and> ?c \<notin> set (key_down s)"
  proof (cases "plain_release ?c")
    case True
    then show ?thesis
      using len idx by (simp add: release_key_plain Let_def ictx_cmd_eq)
  next
    case False
    then show ?thesis by (simp add: release_key_double Let_def ictx_cmd_eq)
  qed
  show "mp_input_feed_key atof now s code = None \<longleftrightarrow> ?overrun"
    unfolding feed using rel by (auto simp: interpret_key_def Let_def plain_release_def)
qed

lemma feed_key_overruns_iff_witness:
  "mp_input_feed_key (\<lambda>_. None) 1 (init_input_ctx 7 100 8) 97 \<noteq> None"
  using feed_key_overruns_iff [OF reach_init, of "\<lambda>_. None" 1 7 100 8 97] by (simp add: init_input_ctx_def)

lemma press_codes:
  "\<forall>i\<in>set [0..<32]. drop_shift (MP_KEY_DOWN + (1000 + int i)) = MP_KEY_DOWN + (1000 + int i)
     \<and> (MP_KEY_DOWN + (1000 + int i)) AND MP_KEY_DOWN \<noteq> 0
     \<and> (MP_KEY_DOWN + (1000 + int i)) AND NOT MP_KEY_DOWN = 1000 + int i"
  by code_simp (*slow*)

lemma reach_held: "n \<le> 32 \<Longrightarrow> \<exists>s. input_reach L atof s \<and> key_down s = map (\<lambda>i. 1000 + int i) [0..<n]"
proof (induction n)
  case 0
  show ?case using reach_init [of L atof 0 0 0] by (auto simp: init_input_ctx_def)
next
  case (Suc n)
  then obtain s where s: "input_reach L atof s" "key_down s = map (\<lambda>i. 1000 + int i) [0..<n]" by auto
  let ?c = "MP_KEY_DOWN + (1000 + int n)"
  let ?s = "s\<lparr>got_new_events := True\<rparr>"
  have c: "drop_shift ?c = ?c" "?c AND MP_KEY_DOWN \<noteq> 0" "?c AND NOT MP_KEY_DOWN = 1000 + int n"
    using press_codes Suc.prems by auto
  have "first_index (\<lambda>k. k = 1000 + int n) (key_down s) = length (key_down s)"
    unfolding first_index_def by (subst takeWhile_all) (auto simp: s(2))
  then have "press_key 0 ?s ?c = ?s\<lparr>key_down := key_down s @ [1000 + int n], last_key_down := 0, ar_state := 0\<rparr>"
    using Suc.prems s(2) by (simp only: press_key_def c(3)) simp
  moreover have "?c \<noteq> MP_INPUT_RELEASE_ALL" by simp
  ultimately have "mp_input_feed_key atof 0 s ?c
      = Some (?s\<lparr>key_down := key_down s @ [1000 + int n], last_key_down := 0, ar_state := 0\<rparr>)"
    using c(1,2) by (simp only: mp_input_feed_key_def interpret_key_def Let_def) simp
  then have "input_reach L atof (?s\<lparr>key_down := key_down s @ [1000 + int n], last_key_down := 0, ar_state := 0\<rparr>)"
    using s(1) by (blast intro: input_reach.intros input_step.intros)
  then show ?case using s(2) by (intro exI) (rule conjI, assumption, simp)
qed

text \<open>
  The overrun happens: a state with 32 held keys is reachable, and there a key press
  without separate events (a printable key, say) writes behind the array.
\<close>

theorem feed_key_overrun_reachable:
  "\<exists>s. input_reach L atof s \<and> length (key_down s) = MP_MAX_KEY_DOWN
     \<and> mp_input_feed_key atof now s 97 = None"
proof -
  obtain s where s: "input_reach L atof s" "key_down s = map (\<lambda>i. 1000 + int i) [0..<32]"
    using reach_held [of 32 L atof] by auto
  have c: "drop_shift 97 = 97" "97 AND MP_KEY_DOWN = (0::int)" by code_simp+
  have d: "first_index (\<lambda>k. k = 97) (key_down s) = length (key_down s)"
    unfolding first_index_def by (subst takeWhile_all) (auto simp: s(2))
  have l: "length (key_down s) = 32" using s(2) by simp
  have "release_key atof (s\<lparr>got_new_events := True\<rparr>) 97 = None"
    using d l by (simp add: release_key_plain plain_release_def Let_def)
  then have "mp_input_feed_key atof now s 97 = None"
    using c by (simp add: mp_input_feed_key_def interpret_key_def Let_def)
  then show ?thesis using s(1) l by blast
qed

subsection \<open>Combinations and autorepeat\<close>

fun run_keys_up :: "(string \<Rightarrow> c_float option) \<Rightarrow> 32 word \<Rightarrow> input_ctx \<Rightarrow> int list \<Rightarrow> (input_ctx \<times> mp_cmd option list) option" where
  "run_keys_up atof now s [] = Some (s, [])"
| "run_keys_up atof now s (k # ks) = do {
     (s, c) \<leftarrow> interpret_key atof now s k;
     (s, cs) \<leftarrow> run_keys_up atof now s ks;
     Some (s, c # cs) }"

definition plain_key :: "int \<Rightarrow> bool" where
  "plain_key k = (drop_shift k = k \<and> plain_release k)"

lemma release_held_key:
  assumes "input_inv s" and "k \<in> set (key_down s)" and "plain_key k"
  obtains s' where "interpret_key atof now s k = Some (s', if last_key_down s \<noteq> 0
        then fst (get_cmd_from_keys atof (ictx_binds s) (key_down s)) else None)"
    and "input_inv s'" and "set (key_down s') = set (key_down s) - {k}" and "last_key_down s' = 0"
proof -
  let ?j = "first_index (\<lambda>x. x = k) (key_down s)"
  have j: "?j < length (key_down s)" using assms(2) by (auto simp: first_index_less_iff)
  have k: "key_down s ! ?j = k" using first_index_nth [OF j] .
  have "k AND MP_KEY_DOWN = 0" using assms(1,2) by (simp add: input_inv_def)
  then have i: "interpret_key atof now s k = release_key atof s k"
    using assms(3) by (simp add: interpret_key_def plain_key_def)
  define s' where "s' = (if last_key_down s \<noteq> 0 then snd (ictx_cmd atof s (key_down s)) else s)
     \<lparr>key_down := remove_nth ?j (key_down s), last_key_down := 0, ar_state := -1, ar_cmd := None\<rparr>"
  have r: "interpret_key atof now s k = Some (s', if last_key_down s \<noteq> 0
        then fst (get_cmd_from_keys atof (ictx_binds s) (key_down s)) else None)"
    unfolding i s'_def using j assms(3)
    by (simp add: release_key_plain plain_key_def Let_def ictx_cmd_eq)
  moreover have "input_inv s'" using interpret_key_inv [OF assms(1) r] by simp
  moreover have "set (key_down s') = set (key_down s) - {k}"
    using set_remove_nth [OF _ j] assms(1) k by (simp add: s'_def input_inv_def)
  moreover have "last_key_down s' = 0" by (simp add: s'_def)
  ultimately show ?thesis by (rule that)
qed

lemma further_releases:
  "input_inv s \<Longrightarrow> last_key_down s = 0 \<Longrightarrow> distinct ks \<Longrightarrow> set ks \<subseteq> set (key_down s) \<Longrightarrow> \<forall>k\<in>set ks. plain_key k \<Longrightarrow>
   \<exists>s'. run_keys_up atof now s ks = Some (s', replicate (length ks) None) \<and> set (key_down s') = set (key_down s) - set ks"
proof (induction ks arbitrary: s)
  case (Cons k ks)
  obtain t where t: "interpret_key atof now s k = Some (t, None)" "input_inv t"
    "set (key_down t) = set (key_down s) - {k}" "last_key_down t = 0"
    using release_held_key [OF Cons.prems(1), of k atof now] Cons.prems(2,4,5) by auto
  obtain s' where "run_keys_up atof now t ks = Some (s', replicate (length ks) None)"
    "set (key_down s') = set (key_down t) - set ks"
    using Cons.IH [OF t(2,4)] Cons.prems t(3) by fastforce
  then show ?case using t by (auto simp: bind_eq_Some_conv)
qed simp

text \<open>
  C30: Only the maximal point of a combination fires: releasing any number of held keys, in
  any order, with no press between, gives at most one command, at the first release; that is
  the command bound to all the keys held before it, and there is none when a key has been
  released since the last press. Afterwards exactly the released keys are no longer held. The
  keys are reported as they are held, which a shifted printable key is not (see
  \<open>shifted_press_sticks\<close>).
\<close>

theorem combination_fires_once:
  assumes "input_reach L atof s" and "distinct (k # ks)" and "set (k # ks) \<subseteq> set (key_down s)" and "\<forall>x\<in>set (k # ks). plain_key x"
  shows "\<exists>s'. run_keys_up atof now s (k # ks)
      = Some (s', (if last_key_down s \<noteq> 0 then fst (get_cmd_from_keys atof (ictx_binds s) (key_down s)) else None) # replicate (length ks) None)
    \<and> set (key_down s') = set (key_down s) - set (k # ks)"
proof -
  let ?c = "if last_key_down s \<noteq> 0 then fst (get_cmd_from_keys atof (ictx_binds s) (key_down s)) else None"
  have inv: "input_inv s" using input_reach_inv [OF assms(1)] by simp
  obtain t where t: "interpret_key atof now s k = Some (t, ?c)" "input_inv t" "set (key_down t) = set (key_down s) - {k}" "last_key_down t = 0"
    using release_held_key [OF inv, of k atof now] assms(3,4) by auto
  obtain s' where "run_keys_up atof now t ks = Some (s', replicate (length ks) None)"
    "set (key_down s') = set (key_down t) - set ks"
    using further_releases [OF t(2,4), of ks atof now] assms(2-4) t(3) by fastforce
  then show ?thesis using t by (auto simp: bind_eq_Some_conv)
qed

text \<open>The left and the up key are bound together and held.\<close>

definition ex_binds :: bind_ctx where
  "ex_binds = fst (parse_config libav_ref init_binds (''LEFT-UP pause'' @ [LF]))"

definition ex_held :: input_ctx where
  "ex_held = (init_input_ctx 7 100 8)\<lparr>ictx_binds := ex_binds, got_new_events := True,
     key_down := [KEY_LEFT, KEY_UP], ar_state := 0, last_key_down := 6\<rparr>"

lemma ex_bound: "map_option cmd_name (fst (get_cmd_from_keys (\<lambda>_. None) ex_binds [KEY_LEFT, KEY_UP])) = Some ''pause''"
  by code_simp (*slow*)

lemma reach_two_held: "input_reach libav_ref (\<lambda>_. None) ex_held"
proof -
  obtain n where "parse_config libav_ref init_binds (''LEFT-UP pause'' @ [LF]) = (ex_binds, n)"
    unfolding ex_binds_def by (cases "parse_config libav_ref init_binds (''LEFT-UP pause'' @ [LF])") simp
  then have bx: "parse_config libav_ref (ictx_binds (init_input_ctx 7 100 8)) (''LEFT-UP pause'' @ [LF]) = (ex_binds, n)"
    by (simp add: init_input_ctx_def)
  let ?i = "(init_input_ctx 7 100 8)\<lparr>ictx_binds := ex_binds\<rparr>"
  let ?s = "?i\<lparr>got_new_events := True, key_down := [KEY_LEFT], ar_state := 0, last_key_down := 5\<rparr>"
  from bx have i: "input_reach libav_ref (\<lambda>_. None) ?i" by (blast intro: input_reach.intros input_step.intros)
  have "mp_input_feed_key (\<lambda>_. None) 5 ?i (MP_KEY_DOWN + KEY_LEFT) = Some ?s"
    by (simp add: mp_input_feed_key_def interpret_key_def drop_shift_def press_key_def init_input_ctx_def first_index_def Let_def)
  moreover have "mp_input_feed_key (\<lambda>_. None) 6 ?s (MP_KEY_DOWN + KEY_UP) = Some ex_held"
    by (simp add: mp_input_feed_key_def interpret_key_def drop_shift_def press_key_def init_input_ctx_def first_index_def Let_def ex_held_def)
  ultimately show ?thesis using i by (blast intro: input_reach.intros input_step.intros)
qed

lemma combination_fires_once_witness:
  "\<exists>s' c. run_keys_up (\<lambda>_. None) 9 ex_held [KEY_UP, KEY_LEFT] = Some (s', [Some c, None]) \<and> cmd_name c = ''pause'' \<and> key_down s' = []"
proof -
  have h: "key_down ex_held = [KEY_LEFT, KEY_UP]" "last_key_down ex_held = 6" "ictx_binds ex_held = ex_binds"
    by (simp_all add: ex_held_def)
  obtain c where c: "fst (get_cmd_from_keys (\<lambda>_. None) (ictx_binds ex_held) (key_down ex_held)) = Some c" "cmd_name c = ''pause''"
    using ex_bound unfolding h by auto
  have p: "plain_key KEY_UP" "plain_key KEY_LEFT" by code_simp+
  have "\<exists>s'. run_keys_up (\<lambda>_. None) 9 ex_held [KEY_UP, KEY_LEFT] = Some (s', [Some c, None]) \<and> key_down s' = []"
    using combination_fires_once [OF reach_two_held, of KEY_UP "[KEY_LEFT]" 9] c(1) p
    by (simp add: h(1,2) del: run_keys_up.simps)
  then show ?thesis using c(2) by blast
qed

text \<open>
  Autorepeat keeps its rate: after it has given a command, polling it again gives
  nothing and changes nothing until a full interval of the configured rate has passed.
\<close>

theorem autorepeat_rate:
  assumes "check_autorepeat atof t s = Some (s', Some c)" and "t' - t < 1000000 div ar_rate s"
  shows "check_autorepeat atof t' s' = Some (s', None)"
proof -
  from assms(1) have "ar_state s' = 1 \<and> last_ar s' = t \<and> ar_rate s' = ar_rate s"
    by (auto simp: check_autorepeat_def ictx_cmd_eq Let_def bind_eq_Some_conv split: if_splits option.splits)
  with assms(2) show ?thesis by (simp add: check_autorepeat_def not_le)
qed

definition repeating_ctx :: input_ctx where
  "repeating_ctx = (init_input_ctx 7 100 8)\<lparr>key_down := [KEY_LEFT], ar_state := 1, last_ar := 0,
     ar_cmd := Some (sample_cmd MP_CMD_OSD)\<rparr>"

lemma autorepeat_rate_witness:
  "check_autorepeat (\<lambda>_. None) 250000 (repeating_ctx\<lparr>last_ar := 200000\<rparr>)
     = Some (repeating_ctx\<lparr>last_ar := 200000\<rparr>, None)"
proof -
  have "check_autorepeat (\<lambda>_. None) 200000 repeating_ctx
      = Some (repeating_ctx\<lparr>last_ar := 200000\<rparr>, Some (sample_cmd MP_CMD_OSD))"
    by (simp add: check_autorepeat_def repeating_ctx_def init_input_ctx_def mp_cmd_clone_def)
  from autorepeat_rate [OF this, of 250000] show ?thesis
    by (simp add: repeating_ctx_def init_input_ctx_def)
qed

lemma feed_key_of_interpret:
  assumes "interpret_key atof now (s\<lparr>got_new_events := True\<rparr>) code = Some (s', x)" and "code \<noteq> MP_INPUT_RELEASE_ALL"
  shows "\<exists>s''. mp_input_feed_key atof now s code = Some s'' \<and> key_down s'' = key_down s'"
  using assms by (cases x) (simp_all add: mp_input_feed_key_def Let_def)

text \<open>
  A shifted printable key reported with separate events sticks: Shift is dropped from
  the release but not from the press (the down flag hides that the key is printable), so
  the pressed key is still held after its release.
\<close>

theorem shifted_press_sticks:
  "\<exists>s s'. mp_input_feed_key atof now (init_input_ctx n d r) (MP_KEY_DOWN + KEY_MODIFIER_SHIFT + 97) = Some s
     \<and> mp_input_feed_key atof now' s (KEY_MODIFIER_SHIFT + 97) = Some s'
     \<and> key_down s' = [KEY_MODIFIER_SHIFT + 97]"
proof -
  have c: "drop_shift (MP_KEY_DOWN + KEY_MODIFIER_SHIFT + 97) = MP_KEY_DOWN + KEY_MODIFIER_SHIFT + 97"
    "drop_shift (KEY_MODIFIER_SHIFT + 97) = 97" "97 AND MP_KEY_DOWN = (0 :: int)"
    "(MP_KEY_DOWN + KEY_MODIFIER_SHIFT + 97) AND MP_KEY_DOWN \<noteq> 0"
    "(MP_KEY_DOWN + KEY_MODIFIER_SHIFT + 97) AND NOT MP_KEY_DOWN = KEY_MODIFIER_SHIFT + 97"
    by code_simp+
  define s where "s = (init_input_ctx n d r)\<lparr>got_new_events := True, key_down := [KEY_MODIFIER_SHIFT + 97],
    last_key_down := now, ar_state := 0\<rparr>"
  have 1: "mp_input_feed_key atof now (init_input_ctx n d r) (MP_KEY_DOWN + KEY_MODIFIER_SHIFT + 97) = Some s"
    using c by (simp add: mp_input_feed_key_def interpret_key_def press_key_def first_index_def
        init_input_ctx_def s_def Let_def)
  have "key_down (s\<lparr>got_new_events := True\<rparr>) = [KEY_MODIFIER_SHIFT + 97]" by (simp add: s_def)
  then obtain s' x where 2: "interpret_key atof now' (s\<lparr>got_new_events := True\<rparr>) (KEY_MODIFIER_SHIFT + 97) = Some (s', x)"
    and "key_down s' = [KEY_MODIFIER_SHIFT + 97]"
    using c by (simp add: interpret_key_def release_key_plain plain_release_def first_index_def Let_def ictx_cmd_eq)
  then obtain s'' where "mp_input_feed_key atof now' s (KEY_MODIFIER_SHIFT + 97) = Some s''"
    and "key_down s'' = [KEY_MODIFIER_SHIFT + 97]"
    using feed_key_of_interpret [OF 2] by auto
  then show ?thesis using 1 by blast
qed

end
