(* ===== verification/Mp_Fifo.thy ===== *)
theory Mp_Fifo
  imports Key_State
begin

unbundle bit_operations_syntax

text \<open>
  The key fifo in front of the input layer (\<open>mp_fifo.c\<close>): it turns two presses of a mouse
  button in quick succession into an additional double-click event, and feeds text as key
  codes. \<open>now\<close> is the result of \<open>GetTimerMS\<close>, \<open>t\<close> the one of \<open>GetTimer\<close> in
  \<open>mp_input_feed_key\<close>; the subtraction of times wraps around in 32 bits.
\<close>

record mp_fifo =
  doubleclick_time :: int
  fifo_last_key_down :: int
  last_down_time :: "32 word"

definition mp_fifo_create :: "int \<Rightarrow> mp_fifo" where
  "mp_fifo_create dt = \<lparr>doubleclick_time = dt, fifo_last_key_down = 0, last_down_time = 0\<rparr>"

definition put_double :: "(string \<Rightarrow> c_float option) \<Rightarrow> 32 word \<Rightarrow> input_ctx \<Rightarrow> int \<Rightarrow> input_ctx option" where
  "put_double atof t ictx code =
     (if MOUSE_BTN0 \<le> code \<and> code < MOUSE_BTN_END
      then mp_input_feed_key atof t ictx (code - MOUSE_BTN0 + MOUSE_BTN0_DBL)
      else Some ictx)"

definition mplayer_put_key ::
  "(string \<Rightarrow> c_float option) \<Rightarrow> 32 word \<Rightarrow> 32 word \<Rightarrow> mp_fifo \<times> input_ctx \<Rightarrow> int \<Rightarrow> (mp_fifo \<times> input_ctx) option" where
  "mplayer_put_key atof now t st code =
     (let (fifo, ictx) = st
      in if doubleclick_time fifo \<noteq> 0 \<and> MOUSE_BTN0_DBL \<le> code AND NOT MP_KEY_DOWN
            \<and> code AND NOT MP_KEY_DOWN < MOUSE_BTN_DBL_END
         then Some (fifo, ictx)
         else do {
           ictx \<leftarrow> mp_input_feed_key atof t ictx code;
           if code AND MP_KEY_DOWN \<noteq> 0
           then do {
             let code = code AND NOT MP_KEY_DOWN;
             ictx \<leftarrow> (if fifo_last_key_down fifo = code
                       \<and> now - last_down_time fifo < word_of_int (doubleclick_time fifo)
                     then put_double atof t ictx code else Some ictx);
             Some (fifo\<lparr>fifo_last_key_down := code, last_down_time := now\<rparr>, ictx) }
           else Some (fifo, ictx) })"

lemma decode_utf8_tail_shorter: "decode_utf8_tail n c s = Some (c', r) \<Longrightarrow> length r \<le> length s"
  by (induction n c s rule: decode_utf8_tail.induct) (auto split: if_splits)

lemma bstr_decode_utf8_shorter: "bstr_decode_utf8 L s = Some (c, r) \<Longrightarrow> length r < length s"
  by (cases s) (auto simp: bstr_decode_utf8_def Let_def dest!: decode_utf8_tail_shorter split: if_splits)

function mplayer_put_key_utf8 ::
  "libav \<Rightarrow> (string \<Rightarrow> c_float option) \<Rightarrow> 32 word \<Rightarrow> 32 word \<Rightarrow> mp_fifo \<times> input_ctx \<Rightarrow> int \<Rightarrow> bstr
     \<Rightarrow> (mp_fifo \<times> input_ctx) option" where
  "mplayer_put_key_utf8 L atof now t st mods s =
     (case bstr_decode_utf8 L s of
        None \<Rightarrow> Some st
      | Some (code, rest) \<Rightarrow> do {
          st \<leftarrow> mplayer_put_key atof now t st (int code OR mods);
          mplayer_put_key_utf8 L atof now t st mods rest })"
  by pat_completeness auto
termination
  by (relation "measure (\<lambda>(_, _, _, _, _, _, s). length s)") (auto dest: bstr_decode_utf8_shorter)

declare mplayer_put_key_utf8.simps [simp del]

subsection \<open>Double clicks\<close>

lemma mouse_button_codes:
  "\<forall>i\<in>set [0..<20]. let b = MOUSE_BTN0 + int i in
     drop_shift (MP_KEY_DOWN + b) = MP_KEY_DOWN + b \<and> (MP_KEY_DOWN + b) AND MP_KEY_DOWN \<noteq> 0
     \<and> (MP_KEY_DOWN + b) AND NOT MP_KEY_DOWN = b
     \<and> drop_shift (b - MOUSE_BTN0 + MOUSE_BTN0_DBL) = b - MOUSE_BTN0 + MOUSE_BTN0_DBL
     \<and> (b - MOUSE_BTN0 + MOUSE_BTN0_DBL) AND MP_KEY_DOWN = 0"
  by code_simp (*slow*)

lemma mouse_button:
  assumes "MOUSE_BTN0 \<le> b" and "b < MOUSE_BTN_END"
  shows "drop_shift (MP_KEY_DOWN + b) = MP_KEY_DOWN + b" and "(MP_KEY_DOWN + b) AND MP_KEY_DOWN \<noteq> 0"
    and "(MP_KEY_DOWN + b) AND NOT MP_KEY_DOWN = b"
    and "drop_shift (b - MOUSE_BTN0 + MOUSE_BTN0_DBL) = b - MOUSE_BTN0 + MOUSE_BTN0_DBL"
    and "(b - MOUSE_BTN0 + MOUSE_BTN0_DBL) AND MP_KEY_DOWN = 0"
proof -
  obtain i where i: "b = MOUSE_BTN0 + int i" "i < 20"
    using assms by (intro that [of "nat (b - MOUSE_BTN0)"]) simp_all
  then have "i \<in> set [0..<20]" by simp
  with mouse_button_codes i(1)
  show "drop_shift (MP_KEY_DOWN + b) = MP_KEY_DOWN + b" and "(MP_KEY_DOWN + b) AND MP_KEY_DOWN \<noteq> 0"
    and "(MP_KEY_DOWN + b) AND NOT MP_KEY_DOWN = b"
    and "drop_shift (b - MOUSE_BTN0 + MOUSE_BTN0_DBL) = b - MOUSE_BTN0 + MOUSE_BTN0_DBL"
    and "(b - MOUSE_BTN0 + MOUSE_BTN0_DBL) AND MP_KEY_DOWN = 0"
    unfolding Let_def by blast+
qed

text \<open>The command a fed event queues, if any.\<close>

definition admit_cmd :: "input_ctx \<Rightarrow> mp_cmd option \<Rightarrow> mp_cmd list" where
  "admit_cmd s c = (case c of None \<Rightarrow> key_cmd_queue s
     | Some x \<Rightarrow> if key_fifo_size s \<le> int (length (key_cmd_queue s))
           \<and> (\<not> is_abort_cmd (cmd_id x) \<or> lq_abort (key_cmd_queue s) \<noteq> 0)
         then key_cmd_queue s else key_cmd_queue s @ [x])"

lemma feed_press:
  assumes "code \<noteq> MP_INPUT_RELEASE_ALL" and "drop_shift code = code" and "code AND MP_KEY_DOWN \<noteq> 0"
    and "code AND NOT MP_KEY_DOWN = b" and "b \<notin> set (key_down s)" and "length (key_down s) < MP_MAX_KEY_DOWN"
  shows "mp_input_feed_key atof t s code
    = Some (s\<lparr>got_new_events := True, key_down := key_down s @ [b], last_key_down := t, ar_state := 0\<rparr>)"
proof -
  have "first_index (\<lambda>k. k = b) (key_down s) = length (key_down s)"
    using assms(5) first_index_less_iff [of "\<lambda>k. k = b" "key_down s"] first_index_le [of "\<lambda>k. k = b" "key_down s"]
    by auto
  with assms show ?thesis
    by (simp add: mp_input_feed_key_def interpret_key_def press_key_def Let_def)
qed

lemma feed_double:
  assumes "MOUSE_BTN0_DBL \<le> d" "d < MOUSE_BTN_DBL_END" and "drop_shift d = d" and "d AND MP_KEY_DOWN = 0"
    and "key_down s = ks @ [d - MOUSE_BTN0_DBL + MOUSE_BTN0]" and "last_key_down s \<noteq> 0"
  shows "\<exists>s'. mp_input_feed_key atof t s d = Some s' \<and> key_down s' = key_down s
    \<and> key_cmd_queue s' = admit_cmd s (fst (get_cmd_from_keys atof (ictx_binds s) (ks @ [d])))"
proof -
  let ?s = "s\<lparr>got_new_events := True\<rparr>"
  let ?r = "get_cmd_from_keys atof (ictx_binds s) (ks @ [d])"
  have "release_key atof ?s d = Some (?s\<lparr>ictx_binds := snd ?r\<rparr>, fst ?r)"
    using assms by (simp add: release_key_double plain_release_def Let_def ictx_cmd_eq)
  then have i: "interpret_key atof t ?s d = Some (?s\<lparr>ictx_binds := snd ?r\<rparr>, fst ?r)"
    using assms by (simp add: interpret_key_def)
  have "d \<noteq> MP_INPUT_RELEASE_ALL" using assms(1) by simp
  with i show ?thesis
    by (cases "fst ?r") (simp_all add: mp_input_feed_key_def admit_cmd_def Let_def lq_add_def)
qed

text \<open>
  A second press of the same mouse button within the double-click time is a press and a
  double click: the button is held as after any press, and the command bound to the keys
  held before together with the double-click key of the button is queued (within the bound
  of the queue). With the double-click time elapsed, it is a press only.
\<close>

theorem put_key_double_click:
  assumes b: "MOUSE_BTN0 \<le> b" "b < MOUSE_BTN_END" and held: "b \<notin> set (key_down s)" "length (key_down s) < MP_MAX_KEY_DOWN"
    and last: "fifo_last_key_down fifo = b" and t: "t \<noteq> 0"
  shows "\<exists>s'. mplayer_put_key atof now t (fifo, s) (MP_KEY_DOWN + b)
        = Some (fifo\<lparr>fifo_last_key_down := b, last_down_time := now\<rparr>, s')
    \<and> key_down s' = key_down s @ [b]
    \<and> key_cmd_queue s' =
        (if now - last_down_time fifo < word_of_int (doubleclick_time fifo)
         then admit_cmd s (fst (get_cmd_from_keys atof (ictx_binds s) (key_down s @ [b - MOUSE_BTN0 + MOUSE_BTN0_DBL])))
         else key_cmd_queue s)"
proof -
  note m = mouse_button [OF b]
  let ?s = "s\<lparr>got_new_events := True, key_down := key_down s @ [b], last_key_down := t, ar_state := 0\<rparr>"
  let ?d = "b - MOUSE_BTN0 + MOUSE_BTN0_DBL"
  have "MP_KEY_DOWN + b \<noteq> MP_INPUT_RELEASE_ALL" using b by simp
  then have f: "mp_input_feed_key atof t s (MP_KEY_DOWN + b) = Some ?s"
    using m held by (intro feed_press) simp_all
  have nd: "\<not> (MOUSE_BTN0_DBL \<le> b \<and> b < MOUSE_BTN_DBL_END)" using b by simp
  obtain s' where s': "mp_input_feed_key atof t ?s ?d = Some s'" "key_down s' = key_down s @ [b]"
    "key_cmd_queue s' = admit_cmd ?s (fst (get_cmd_from_keys atof (ictx_binds ?s) (key_down s @ [?d])))"
    using feed_double [of ?d ?s "key_down s" atof t] b m(4,5) t by auto
  have a: "admit_cmd ?s c = admit_cmd s c" for c by (cases c) (simp_all add: admit_cmd_def)
  show ?thesis
  proof (cases "now - last_down_time fifo < word_of_int (doubleclick_time fifo)")
    case True
    then show ?thesis
      using f s' b last m(2,3) nd
      by (intro exI [of _ s']) (simp only: mplayer_put_key_def put_double_def a Let_def m(3), simp)
  next
    case False
    then show ?thesis
      using f b last m(2,3) nd
      by (intro exI [of _ ?s]) (simp only: mplayer_put_key_def Let_def m(3), simp)
  qed
qed

lemma put_key_double_click_witness:
  "\<exists>s'. mplayer_put_key (\<lambda>_. None) 200 5
      (\<lparr>doubleclick_time = 300, fifo_last_key_down = MOUSE_BTN0, last_down_time = 100\<rparr>, init_input_ctx 7 100 8)
      (MP_KEY_DOWN + MOUSE_BTN0)
    = Some (\<lparr>doubleclick_time = 300, fifo_last_key_down = MOUSE_BTN0, last_down_time = 200\<rparr>, s')
    \<and> key_down s' = [MOUSE_BTN0]"
  using put_key_double_click [of MOUSE_BTN0 "init_input_ctx 7 100 8"
      "\<lparr>doubleclick_time = 300, fifo_last_key_down = MOUSE_BTN0, last_down_time = 100\<rparr>" 5 "\<lambda>_. None" 200]
  by (auto simp: init_input_ctx_def)

end
