(* ===== verification/Cmd_Fd.thy ===== *)
theory Cmd_Fd
  imports Key_State
begin

text \<open>
  Input sources (\<open>mp_input_add_cmd_fd\<close>, \<open>mp_input_rm_cmd_fd\<close>, the key variants,
  \<open>read_cmd\<close>, \<open>read_cmd_fd\<close>, \<open>read_key_fd\<close>, \<open>read_events\<close> of \<open>input/input.c\<close>):
  the two arrays of descriptors and the reassembly of command lines from arbitrary reads.
  What the outside world does is a list of outcomes, consumed in order: the results of the
  reading functions of the command sources (an error code, or data, empty at the end of
  file), the key codes of the key sources, and the descriptors each \<open>select\<close> reports as
  ready (none after an error). A computation that asks for more outcomes than given is
  \<open>None\<close>.
\<close>

abbreviation (input) MP_MAX_KEY_FD :: nat where "MP_MAX_KEY_FD \<equiv> 10"
abbreviation (input) MP_MAX_CMD_FD :: nat where "MP_MAX_CMD_FD \<equiv> 10"
abbreviation (input) MP_CMD_MAX_SIZE :: nat where "MP_CMD_MAX_SIZE \<equiv> 4096"

text \<open>
  \<open>buffer\<close> holds the first \<open>pos\<close> bytes of the buffer, \<open>None\<close> when it is not yet
  allocated; its size is \<open>MP_CMD_MAX_SIZE\<close> from then on.
\<close>

record input_fd =
  fd_num :: int
  fd_close :: bool
  fd_eof :: bool
  fd_drop :: bool
  fd_dead :: bool
  fd_got_cmd :: bool
  fd_no_select :: bool
  fd_buffer :: "string option"

record fd_ctx =
  key_fds :: "input_fd list"
  cmd_fds :: "input_fd list"
  closed_fds :: "int list"

definition new_fd :: "int \<Rightarrow> bool \<Rightarrow> bool \<Rightarrow> input_fd" where
  "new_fd fd sel close =
     \<lparr>fd_num = fd, fd_close = close, fd_eof = False, fd_drop = False, fd_dead = False,
      fd_got_cmd = False, fd_no_select = (\<not> sel), fd_buffer = None\<rparr>"

definition mp_input_add_cmd_fd :: "fd_ctx \<Rightarrow> int \<Rightarrow> bool \<Rightarrow> bool \<Rightarrow> fd_ctx \<times> bool" where
  "mp_input_add_cmd_fd fx fd sel close =
     (if length (cmd_fds fx) = MP_MAX_CMD_FD then (fx, False)
      else if sel \<and> fd < 0 then (fx, False)
      else (fx\<lparr>cmd_fds := cmd_fds fx @ [new_fd fd sel close]\<rparr>, True))"

definition mp_input_add_key_fd :: "fd_ctx \<Rightarrow> int \<Rightarrow> bool \<Rightarrow> bool \<Rightarrow> fd_ctx \<times> bool" where
  "mp_input_add_key_fd fx fd sel close =
     (if length (key_fds fx) = MP_MAX_KEY_FD then (fx, False)
      else if sel \<and> fd < 0 then (fx, False)
      else (fx\<lparr>key_fds := key_fds fx @ [new_fd fd sel close]\<rparr>, True))"

definition rm_fd :: "input_fd list \<Rightarrow> int \<Rightarrow> input_fd list \<times> int list" where
  "rm_fd fds fd =
     (let i = first_index (\<lambda>f. fd_num f = fd) fds
      in if i = length fds then (fds, [])
         else (remove_nth i fds, if fd_close (fds ! i) then [fd_num (fds ! i)] else []))"

definition mp_input_rm_cmd_fd :: "fd_ctx \<Rightarrow> int \<Rightarrow> fd_ctx" where
  "mp_input_rm_cmd_fd fx fd =
     (let (fds, cl) = rm_fd (cmd_fds fx) fd in fx\<lparr>cmd_fds := fds, closed_fds := closed_fds fx @ cl\<rparr>)"

definition mp_input_rm_key_fd :: "fd_ctx \<Rightarrow> int \<Rightarrow> fd_ctx" where
  "mp_input_rm_key_fd fx fd =
     (let (fds, cl) = rm_fd (key_fds fx) fd in fx\<lparr>key_fds := fds, closed_fds := closed_fds fx @ cl\<rparr>)"

subsection \<open>Reading a command\<close>

datatype read_outcome = Rd_code int | Rd_data string

text \<open>
  The reading loop. A negative code other than the four named ones falls out of the
  \<open>switch\<close> and is added to \<open>pos\<close>. The result is the error code to return, or the
  descriptor after the read.
\<close>

fun read_more :: "input_fd \<Rightarrow> read_outcome list \<Rightarrow> ((int + input_fd) \<times> read_outcome list) option" where
  "read_more f rs =
     (let buf = the (fd_buffer f)
      in if \<not> (\<not> fd_got_cmd f \<and> \<not> fd_eof f \<and> 1 < MP_CMD_MAX_SIZE - length buf) then Some (Inr f, rs)
         else case rs of
           [] \<Rightarrow> None
         | Rd_code r # rs \<Rightarrow>
             (if r = MP_INPUT_ERROR \<or> r = MP_INPUT_DEAD \<or> r = MP_INPUT_NOTHING then Some (Inl r, rs)
              else if r = MP_INPUT_RETRY then read_more f rs
              else if 0 \<le> r \<or> int (length buf) + r < 0 then None
              else Some (Inr (f\<lparr>fd_buffer := Some (take (nat (int (length buf) + r)) buf)\<rparr>), rs))
         | Rd_data d # rs \<Rightarrow>
             (if d = [] then Some (Inr (f\<lparr>fd_eof := True\<rparr>), rs)
              else if MP_CMD_MAX_SIZE - 1 - length buf < length d then None
              else Some (Inr (f\<lparr>fd_buffer := Some (buf @ d)\<rparr>), rs)))"

declare read_more.simps [simp del]

text \<open>
  One round of the extraction loop works on the C string in the buffer (the bytes before a
  NUL): its first carriage return is turned into a line feed, then the first line feed ends
  the command.
\<close>

definition c_str :: "string \<Rightarrow> string" where
  "c_str s = takeWhile (\<lambda>c. c \<noteq> NUL) s"

definition fix_cr :: "string \<Rightarrow> string" where
  "fix_cr s = (if CR \<in> set (c_str s) then s[first_index (\<lambda>c. c = CR) s := LF] else s)"

lemma length_fix_cr [simp]: "length (fix_cr s) = length s"
  by (simp add: fix_cr_def)

lemma fix_cr_Nil [simp]: "fix_cr [] = []" "c_str [] = []"
  by (simp_all add: fix_cr_def c_str_def)

function extract_cmd :: "string \<Rightarrow> bool \<Rightarrow> string option \<Rightarrow> string \<times> bool \<times> bool \<times> string option" where
  "extract_cmd buf drp ret =
     (let buf = fix_cr buf
      in if LF \<notin> set (c_str buf)
         then (if MP_CMD_MAX_SIZE - length buf \<le> 1 then ([], True, False, ret) else (buf, drp, False, ret))
         else if ret \<noteq> None then (buf, drp, True, ret)
         else let l = first_index (\<lambda>c. c = LF) buf
              in extract_cmd (drop (l + 1) buf) False (if drp then None else Some (take l buf)))"
  by pat_completeness auto
termination
proof (relation "measure (\<lambda>(buf, _, _). length buf)")
  fix buf drp and ret :: "string option" and x xa
  assume x: "x = fix_cr buf" and lf: "\<not> LF \<notin> set (c_str x)"
  then have "fix_cr buf \<noteq> []" by (auto simp: c_str_def)
  then have "buf \<noteq> []" by (auto simp: fix_cr_def)
  with x show "((drop (xa + 1) x, False, if drp then None else Some (take xa x)), buf, drp, ret)
      \<in> measure (\<lambda>(buf, _, _). length buf)"
    by auto
qed simp

declare extract_cmd.simps [simp del]

definition read_cmd :: "input_fd \<Rightarrow> read_outcome list \<Rightarrow> (input_fd \<times> (int + string) \<times> read_outcome list) option" where
  "read_cmd f rs = do {
     let f = (if fd_buffer f = None then f\<lparr>fd_buffer := Some []\<rparr> else f);
     (r, rs) \<leftarrow> read_more f rs;
     case r of
       Inl code \<Rightarrow> Some (f, Inl code, rs)
     | Inr f \<Rightarrow>
         (let (buf, drp, got, ret) = extract_cmd (the (fd_buffer f)) (fd_drop f) None;
              f = f\<lparr>fd_buffer := Some buf, fd_drop := drp, fd_got_cmd := got\<rparr>
          in case ret of
               Some t \<Rightarrow> Some (f, Inr t, rs)
             | None \<Rightarrow> Some (f, Inl MP_INPUT_NOTHING, rs)) }"

subsection \<open>Measures\<close>

definition buf_len :: "input_fd \<Rightarrow> nat" where
  "buf_len f = (case fd_buffer f of None \<Rightarrow> 0 | Some b \<Rightarrow> length b)"

lemma extract_cmd_shorter:
  "extract_cmd buf drp ret = (buf', drp', got, ret') \<Longrightarrow>
   length buf' \<le> length buf \<and> (ret = None \<and> ret' \<noteq> None \<longrightarrow> length buf' < length buf)"
proof (induction buf drp ret rule: extract_cmd.induct)
  case (1 buf drp ret)
  show ?case
  proof (cases "LF \<notin> set (c_str (fix_cr buf)) \<or> ret \<noteq> None")
    case True
    with "1.prems" show ?thesis
      by (subst (asm) extract_cmd.simps) (auto simp: Let_def split: if_splits)
  next
    case False
    then have b: "0 < length buf"
      using "1.prems" by (cases buf) (simp_all add: extract_cmd.simps)
    let ?l = "first_index (\<lambda>c. c = LF) (fix_cr buf)"
    have "extract_cmd (drop (?l + 1) (fix_cr buf)) False (if drp then None else Some (take ?l (fix_cr buf)))
        = (buf', drp', got, ret')"
      using False "1.prems" by (subst (asm) extract_cmd.simps) (simp add: Let_def)
    from "1.IH" [OF refl _ _ refl this] False have "length buf' \<le> length buf - (?l + 1)" by auto
    with b have "length buf' < length buf" by linarith
    then show ?thesis by simp
  qed
qed

lemma read_more_progress:
  "read_more f rs = Some (r, rs') \<Longrightarrow> length rs' < length rs \<or> rs' = rs \<and> r = Inr f"
proof (induction rs)
  case Nil
  then show ?case by (simp add: read_more.simps Let_def split: if_splits)
next
  case (Cons x rs)
  show ?case
  proof (cases "read_more f rs = Some (r, rs') \<and> x = Rd_code MP_INPUT_RETRY")
    case True
    with Cons.IH show ?thesis by auto
  next
    case False
    with Cons.prems show ?thesis
      by (subst (asm) (1) read_more.simps) (auto simp: Let_def split: if_splits read_outcome.splits)
  qed
qed

lemma read_cmd_progress:
  assumes "read_cmd f rs = Some (f', Inr t, rs')"
  shows "length rs' < length rs \<or> rs' = rs \<and> buf_len f' < buf_len f"
proof -
  define g where "g = (if fd_buffer f = None then f\<lparr>fd_buffer := Some []\<rparr> else f)"
  obtain h where h: "read_more g rs = Some (Inr h, rs')"
    and e: "let (buf, drp, got, ret) = extract_cmd (the (fd_buffer h)) (fd_drop h) None
      in f' = h\<lparr>fd_buffer := Some buf, fd_drop := drp, fd_got_cmd := got\<rparr> \<and> ret = Some t"
  proof -
    obtain r rs'' where m: "read_more g rs = Some (r, rs'')"
      using assms by (cases "read_more g rs") (auto simp: read_cmd_def Let_def g_def)
    obtain h where r: "r = Inr h"
      using assms m by (cases r) (auto simp: read_cmd_def Let_def g_def)
    obtain buf drp got ret where x: "extract_cmd (the (fd_buffer h)) (fd_drop h) None = (buf, drp, got, ret)"
      by (metis prod_cases4)
    show ?thesis
      using assms m x by (intro that [of h]) (auto simp: read_cmd_def Let_def g_def r split: option.splits)
  qed
  have "length rs' < length rs \<or> rs' = rs \<and> h = g"
    using read_more_progress [OF h] by auto
  then show ?thesis
  proof
    assume "rs' = rs \<and> h = g"
    moreover have "the (fd_buffer g) = (case fd_buffer f of None \<Rightarrow> [] | Some b \<Rightarrow> b)"
      by (simp add: g_def split: option.split)
    ultimately show ?thesis
      using e extract_cmd_shorter [of "the (fd_buffer h)" "fd_drop h" None]
      by (auto simp: buf_len_def split: prod.splits option.splits)
  qed simp
qed

subsection \<open>Reading from one descriptor\<close>

definition queue_text :: "(string \<Rightarrow> c_float option) \<Rightarrow> input_ctx \<Rightarrow> string \<Rightarrow> input_ctx" where
  "queue_text atof ictx t =
     ictx\<lparr>got_new_events := True,
          control_cmd_queue := (case mp_input_parse_cmd atof t of None \<Rightarrow> control_cmd_queue ictx
             | Some c \<Rightarrow> lq_add (control_cmd_queue ictx) c False)\<rparr>"

function read_cmd_fd :: "(string \<Rightarrow> c_float option) \<Rightarrow> input_ctx \<Rightarrow> input_fd \<Rightarrow> read_outcome list
    \<Rightarrow> (input_ctx \<times> input_fd \<times> read_outcome list) option" where
  "read_cmd_fd atof ictx f rs =
     (case read_cmd f rs of
        None \<Rightarrow> None
      | Some (f, Inl r, rs) \<Rightarrow> Some (ictx, (if r = MP_INPUT_DEAD then f\<lparr>fd_dead := True\<rparr> else f), rs)
      | Some (f, Inr t, rs) \<Rightarrow>
          (let ictx = queue_text atof ictx t
           in if \<not> fd_got_cmd f then Some (ictx, f, rs) else read_cmd_fd atof ictx f rs))"
  by pat_completeness auto
termination
  by (relation "measures [\<lambda>(_, _, _, rs). length rs, \<lambda>(_, _, f, _). buf_len f]")
    (auto dest!: read_cmd_progress)

declare read_cmd_fd.simps [simp del]

definition read_key_fd :: "(string \<Rightarrow> c_float option) \<Rightarrow> 32 word \<Rightarrow> input_ctx \<Rightarrow> input_fd \<Rightarrow> int \<Rightarrow> (input_ctx \<times> input_fd) option" where
  "read_key_fd atof t ictx f code =
     (if 0 \<le> code \<or> code = MP_INPUT_RELEASE_ALL
      then map_option (\<lambda>ictx. (ictx, f)) (mp_input_feed_key atof t ictx code)
      else Some (ictx, (if code = MP_INPUT_DEAD then f\<lparr>fd_dead := True\<rparr> else f)))"

subsection \<open>Reading from all of them\<close>

record in_sys =
  sys_ictx :: input_ctx
  sys_fds :: fd_ctx
  ev_key :: "int list"
  ev_cmd :: "read_outcome list"
  ev_ready :: "int list list"

definition read_key_at :: "(string \<Rightarrow> c_float option) \<Rightarrow> 32 word \<Rightarrow> nat \<Rightarrow> in_sys \<Rightarrow> in_sys option" where
  "read_key_at atof t i s =
     (case ev_key s of
        [] \<Rightarrow> None
      | code # codes \<Rightarrow> do {
          (ictx, f) \<leftarrow> read_key_fd atof t (sys_ictx s) (key_fds (sys_fds s) ! i) code;
          Some (s\<lparr>sys_ictx := ictx, ev_key := codes,
                  sys_fds := (sys_fds s)\<lparr>key_fds := (key_fds (sys_fds s))[i := f]\<rparr>\<rparr>) })"

definition read_cmd_at :: "(string \<Rightarrow> c_float option) \<Rightarrow> nat \<Rightarrow> in_sys \<Rightarrow> in_sys option" where
  "read_cmd_at atof i s = do {
     (ictx, f, rs) \<leftarrow> read_cmd_fd atof (sys_ictx s) (cmd_fds (sys_fds s) ! i) (ev_cmd s);
     Some (s\<lparr>sys_ictx := ictx, ev_cmd := rs,
             sys_fds := (sys_fds s)\<lparr>cmd_fds := (cmd_fds (sys_fds s))[i := f]\<rparr>\<rparr>) }"

lemma read_key_at_length: "read_key_at atof t i s = Some s' \<Longrightarrow> length (key_fds (sys_fds s')) = length (key_fds (sys_fds s))"
  by (auto simp: read_key_at_def bind_eq_Some_conv split: list.splits)

lemma read_cmd_at_length: "read_cmd_at atof i s = Some s' \<Longrightarrow> length (cmd_fds (sys_fds s')) = length (cmd_fds (sys_fds s))"
  by (auto simp: read_cmd_at_def bind_eq_Some_conv)

lemma rm_fd_shorter: "i < length fds \<Longrightarrow> length (fst (rm_fd fds (fd_num (fds ! i)))) < length fds"
proof -
  assume i: "i < length fds"
  then have "\<exists>f\<in>set fds. fd_num f = fd_num (fds ! i)" by (intro bexI [of _ "fds ! i"]) simp_all
  then have "first_index (\<lambda>f. fd_num f = fd_num (fds ! i)) fds < length fds"
    by (simp add: first_index_less_iff)
  then show ?thesis by (simp add: rm_fd_def Let_def)
qed

lemma rm_key_fd_shorter:
  "i < length (key_fds fx) \<Longrightarrow> length (key_fds (mp_input_rm_key_fd fx (fd_num (key_fds fx ! i)))) < length (key_fds fx)"
  using rm_fd_shorter [of i "key_fds fx"] by (simp add: mp_input_rm_key_fd_def case_prod_beta)

lemma rm_cmd_fd_shorter:
  "i < length (cmd_fds fx) \<Longrightarrow> length (cmd_fds (mp_input_rm_cmd_fd fx (fd_num (cmd_fds fx ! i)))) < length (cmd_fds fx)"
  using rm_fd_shorter [of i "cmd_fds fx"] by (simp add: mp_input_rm_cmd_fd_def case_prod_beta)

lemma rm_key_measure:
  "\<not> length (key_fds fx) \<le> i \<Longrightarrow>
   length (key_fds (mp_input_rm_key_fd fx (fd_num (key_fds fx ! i)))) - i < length (key_fds fx) - i"
  using rm_key_fd_shorter [of i fx] by linarith

lemma rm_cmd_measure:
  "\<not> length (cmd_fds fx) \<le> i \<Longrightarrow>
   length (cmd_fds (mp_input_rm_cmd_fd fx (fd_num (cmd_fds fx ! i)))) - i < length (cmd_fds fx) - i"
  using rm_cmd_fd_shorter [of i fx] by linarith

text \<open>The two loops at the start of \<open>read_events\<close>, from index \<open>i\<close> on.\<close>

function scan_key_fds :: "(string \<Rightarrow> c_float option) \<Rightarrow> 32 word \<Rightarrow> int \<Rightarrow> nat \<Rightarrow> in_sys \<Rightarrow> in_sys option" where
  "scan_key_fds atof t time i s =
     (if length (key_fds (sys_fds s)) \<le> i then Some s
      else let f = key_fds (sys_fds s) ! i
           in if fd_dead f
              then scan_key_fds atof t time i (s\<lparr>sys_fds := mp_input_rm_key_fd (sys_fds s) (fd_num f)\<rparr>)
              else if time \<noteq> 0 \<and> fd_no_select f
              then (case read_key_at atof t i s of None \<Rightarrow> None | Some s \<Rightarrow> scan_key_fds atof t time (Suc i) s)
              else scan_key_fds atof t time (Suc i) s)"
  by pat_completeness auto
termination
  by (relation "measure (\<lambda>(_, _, _, i, s). length (key_fds (sys_fds s)) - i)")
    (auto dest: read_key_at_length intro!: rm_key_measure)

function scan_cmd_fds :: "(string \<Rightarrow> c_float option) \<Rightarrow> int \<Rightarrow> nat \<Rightarrow> in_sys \<Rightarrow> in_sys option" where
  "scan_cmd_fds atof time i s =
     (if length (cmd_fds (sys_fds s)) \<le> i then Some s
      else let f = cmd_fds (sys_fds s) ! i
           in if fd_dead f \<or> fd_eof f
              then scan_cmd_fds atof time i (s\<lparr>sys_fds := mp_input_rm_cmd_fd (sys_fds s) (fd_num f)\<rparr>)
              else if time \<noteq> 0 \<and> fd_no_select f
              then (case read_cmd_at atof i s of None \<Rightarrow> None | Some s \<Rightarrow> scan_cmd_fds atof time (Suc i) s)
              else scan_cmd_fds atof time (Suc i) s)"
  by pat_completeness auto
termination
  by (relation "measure (\<lambda>(_, _, i, s). length (cmd_fds (sys_fds s)) - i)")
    (auto dest: read_cmd_at_length intro!: rm_cmd_measure)

declare scan_key_fds.simps [simp del] scan_cmd_fds.simps [simp del]

text \<open>The loops at its end: every source that is ready, or is not watched by \<open>select\<close>.\<close>

fun read_ready_keys :: "(string \<Rightarrow> c_float option) \<Rightarrow> 32 word \<Rightarrow> int list \<Rightarrow> nat list \<Rightarrow> in_sys \<Rightarrow> in_sys option" where
  "read_ready_keys atof t ready [] s = Some s"
| "read_ready_keys atof t ready (i # is) s =
     (let f = key_fds (sys_fds s) ! i
      in if \<not> fd_no_select f \<and> fd_num f \<notin> set ready then read_ready_keys atof t ready is s
         else do { s \<leftarrow> read_key_at atof t i s; read_ready_keys atof t ready is s })"

fun read_ready_cmds :: "(string \<Rightarrow> c_float option) \<Rightarrow> int list \<Rightarrow> nat list \<Rightarrow> in_sys \<Rightarrow> in_sys option" where
  "read_ready_cmds atof ready [] s = Some s"
| "read_ready_cmds atof ready (i # is) s =
     (let f = cmd_fds (sys_fds s) ! i
      in if \<not> fd_no_select f \<and> fd_num f \<notin> set ready then read_ready_cmds atof ready is s
         else do { s \<leftarrow> read_cmd_at atof i s; read_ready_cmds atof ready is s })"

text \<open>\<open>read_events\<close>; the time to wait only matters to \<open>select\<close> and to the first loops.\<close>

definition read_events :: "(string \<Rightarrow> c_float option) \<Rightarrow> 32 word \<Rightarrow> int \<Rightarrow> in_sys \<Rightarrow> in_sys option" where
  "read_events atof t time s = do {
     let s = s\<lparr>sys_ictx := (sys_ictx s)\<lparr>got_new_events := False\<rparr>\<rparr>;
     s \<leftarrow> scan_key_fds atof t time 0 s;
     s \<leftarrow> scan_cmd_fds atof time 0 s;
     (ready, rest) \<leftarrow> (case ev_ready s of [] \<Rightarrow> None | r # rs \<Rightarrow> Some (r, rs));
     let s = s\<lparr>ev_ready := rest\<rparr>;
     s \<leftarrow> read_ready_keys atof t ready [0..<length (key_fds (sys_fds s))] s;
     read_ready_cmds atof ready [0..<length (cmd_fds (sys_fds s))] s }"

text \<open>\<open>read_all_fd_events\<close>: rounds until one brings nothing; \<open>n\<close> bounds the rounds.\<close>

fun read_all_fd_events :: "(string \<Rightarrow> c_float option) \<Rightarrow> 32 word \<Rightarrow> nat \<Rightarrow> int \<Rightarrow> in_sys \<Rightarrow> in_sys option" where
  "read_all_fd_events atof t 0 time s = None"
| "read_all_fd_events atof t (Suc n) time s = do {
     s \<leftarrow> read_events atof t time s;
     if \<not> got_new_events (sys_ictx s) then Some s else read_all_fd_events atof t n 0 s }"

definition mp_input_get_cmd :: "(string \<Rightarrow> c_float option) \<Rightarrow> 32 word \<Rightarrow> nat \<Rightarrow> bool \<Rightarrow> int \<Rightarrow> bool \<Rightarrow> in_sys
    \<Rightarrow> (in_sys \<times> mp_cmd option) option" where
  "mp_input_get_cmd atof t n async_quit_request time peek_only s =
     (if async_quit_request then Some (s, mp_input_parse_cmd atof ''quit 1'')
      else do {
        let time = (if control_cmd_queue (sys_ictx s) \<noteq> [] \<or> key_cmd_queue (sys_ictx s) \<noteq> [] then 0 else time);
        s \<leftarrow> read_all_fd_events atof t n time s;
        (ictx, ret) \<leftarrow> get_queued_cmd atof t peek_only (sys_ictx s);
        Some (s\<lparr>sys_ictx := ictx\<rparr>, ret) })"

subsection \<open>Lines\<close>

text \<open>The terminated lines of a text and what is left behind the last terminator.\<close>

fun split_lines :: "string \<Rightarrow> string \<Rightarrow> string list \<times> string" where
  "split_lines acc [] = ([], acc)"
| "split_lines acc (c # s) =
     (if c = LF \<or> c = CR then let (ls, r) = split_lines [] s in (acc # ls, r)
      else split_lines (acc @ [c]) s)"

lemma split_lines_append:
  "split_lines acc (x @ y) = (let (l1, r1) = split_lines acc x; (l2, r2) = split_lines r1 y in (l1 @ l2, r2))"
  by (induction acc x rule: split_lines.induct) (auto simp: case_prod_beta Let_def)

lemma split_lines_none: "LF \<notin> set s \<Longrightarrow> CR \<notin> set s \<Longrightarrow> split_lines acc s = ([], acc @ s)"
  by (induction s arbitrary: acc) auto

lemma split_lines_rest:
  "LF \<notin> set acc \<Longrightarrow> CR \<notin> set acc \<Longrightarrow> LF \<notin> set (snd (split_lines acc s)) \<and> CR \<notin> set (snd (split_lines acc s))"
  by (induction acc s rule: split_lines.induct) (auto simp: case_prod_beta eq_commute [of LF] eq_commute [of CR])

lemma split_lines_set: "set (snd (split_lines acc s)) \<subseteq> set acc \<union> set s"
  by (induction acc s rule: split_lines.induct) (auto simp: case_prod_beta)

lemma split_lines_first:
  assumes "LF \<notin> set a" and "CR \<notin> set a"
  shows "split_lines [] (a @ LF # s) = (let (ls, r) = split_lines [] s in (a # ls, r))"
  by (simp add: split_lines_append split_lines_none [OF assms] case_prod_beta)

lemma split_lines_update: "i < length s \<Longrightarrow> s ! i = CR \<Longrightarrow> split_lines acc (s[i := LF]) = split_lines acc s"
proof (induction s arbitrary: i acc)
  case (Cons c s)
  then show ?case by (cases i) auto
qed simp

lemma c_str_id: "NUL \<notin> set s \<Longrightarrow> c_str s = s"
  unfolding c_str_def by (rule takeWhile_all) auto

lemma fix_cr_props:
  assumes "NUL \<notin> set s"
  shows "split_lines acc (fix_cr s) = split_lines acc s" and "NUL \<notin> set (fix_cr s)"
    and "LF \<notin> set (fix_cr s) \<Longrightarrow> fix_cr s = s \<and> CR \<notin> set s \<and> LF \<notin> set s"
    and "LF \<in> set (fix_cr s) \<Longrightarrow> \<exists>a b. fix_cr s = a @ LF # b \<and> LF \<notin> set a \<and> CR \<notin> set a
      \<and> first_index (\<lambda>c. c = LF) (fix_cr s) = length a"
proof -
  let ?i = "first_index (\<lambda>c. c = CR) s"
  have i: "?i < length s" "s ! ?i = CR" if "CR \<in> set s"
    using that first_index_less_iff [of "\<lambda>c. c = CR" s] first_index_nth [of "\<lambda>c. c = CR" s] by auto
  show "split_lines acc (fix_cr s) = split_lines acc s"
    using i split_lines_update by (simp add: fix_cr_def c_str_id [OF assms])
  show n: "NUL \<notin> set (fix_cr s)"
    using assms by (auto simp: fix_cr_def dest: set_update_subset_insert [THEN subsetD])
  show "fix_cr s = s \<and> CR \<notin> set s \<and> LF \<notin> set s" if "LF \<notin> set (fix_cr s)"
    using that i by (auto simp: fix_cr_def c_str_id [OF assms] set_update_memI split: if_splits)
  show "\<exists>a b. fix_cr s = a @ LF # b \<and> LF \<notin> set a \<and> CR \<notin> set a \<and> first_index (\<lambda>c. c = LF) (fix_cr s) = length a"
    if lf: "LF \<in> set (fix_cr s)"
  proof -
    obtain a b where ab: "fix_cr s = a @ LF # b" and la: "LF \<notin> set a" by (meson lf split_list_first)
    have "CR \<notin> set a"
    proof
      assume "CR \<in> set a"
      then obtain j where j: "j < length a" "a ! j = CR" by (auto simp: in_set_conv_nth)
      then have fj: "fix_cr s ! j = CR" "j < length s" using ab length_fix_cr [of s] by (auto simp: nth_append)
      then have cr: "CR \<in> set s"
        by (metis c_str_id [OF assms] fix_cr_def nth_mem)
      have "j \<noteq> ?i" using fj i [OF cr] cr by (auto simp: fix_cr_def c_str_id [OF assms])
      then have sj: "s ! j = CR" using fj cr by (simp add: fix_cr_def c_str_id [OF assms])
      have "?i < j"
      proof (rule ccontr)
        assume "\<not> ?i < j"
        with \<open>j \<noteq> ?i\<close> have "j < ?i" by simp
        from first_index_before [OF this] sj show False by simp
      qed
      then have "fix_cr s ! ?i = LF" "?i < length a"
        using i [OF cr] cr j(1) by (simp_all add: fix_cr_def c_str_id [OF assms])
      then have "a ! ?i = LF" using ab by (simp add: nth_append)
      with la \<open>?i < length a\<close> show False by (metis nth_mem)
    qed
    moreover have "first_index (\<lambda>c. c = LF) (fix_cr s) = length a"
      unfolding ab by (rule first_index_append_hit) (use la in auto)
    ultimately show ?thesis using ab la by blast
  qed
qed

lemma extract_kept:
  assumes "NUL \<notin> set s" and "length s \<le> 4094" and "split_lines [] s = (ls, r)"
  obtains s' where "extract_cmd s False (Some t) = (s', False, ls \<noteq> [], Some t)"
    and "split_lines [] s' = (ls, r)" and "NUL \<notin> set s'" and "length s' = length s" and "ls = [] \<Longrightarrow> s' = r"
proof -
  note f = fix_cr_props [OF assms(1)]
  show ?thesis
  proof (cases "LF \<in> set (fix_cr s)")
    case False
    then have "ls = []" "r = s" using f(3) assms(3) by (simp_all add: split_lines_none)
    then show ?thesis
      using False f assms by (intro that [of s]) (simp_all add: extract_cmd.simps c_str_id)
  next
    case True
    then obtain a b where ab: "fix_cr s = a @ LF # b" "LF \<notin> set a" "CR \<notin> set a" using f(4) by blast
    have "ls \<noteq> []"
      using f(1) [of "[]"] assms(3) split_lines_first [OF ab(2,3), of b] by (auto simp: ab(1) case_prod_beta)
    then show ?thesis
      using True f assms by (intro that [of "fix_cr s"]) (simp_all add: extract_cmd.simps c_str_id)
  qed
qed

lemma extract_line:
  assumes "NUL \<notin> set s" and "length s \<le> 4095" and "split_lines [] s = (l # ls, r)"
  obtains s' where "extract_cmd s False None = (s', False, ls \<noteq> [], Some l)"
    and "split_lines [] s' = (ls, r)" and "NUL \<notin> set s'" and "length s' \<le> 4094" and "ls = [] \<Longrightarrow> s' = r"
proof -
  note f = fix_cr_props [OF assms(1)]
  have lf: "LF \<in> set (fix_cr s)"
    using f(3) assms(3) split_lines_none [of s "[]"] by fastforce
  then obtain a b where ab: "fix_cr s = a @ LF # b" "LF \<notin> set a" "CR \<notin> set a"
    and i: "first_index (\<lambda>c. c = LF) (fix_cr s) = length a" using f(4) by blast
  have b: "a = l" "split_lines [] b = (ls, r)"
    using f(1) [of "[]"] assms(3) split_lines_first [OF ab(2,3), of b] by (auto simp: ab(1) case_prod_beta)
  have "length (fix_cr s) = length a + Suc (length b)" by (simp only: ab(1)) simp
  then have lb: "length b \<le> 4094" using assms(2) by simp
  have nb: "NUL \<notin> set b" using f(2) by (simp add: ab(1))
  obtain s' where s': "extract_cmd b False (Some l) = (s', False, ls \<noteq> [], Some l)"
    "split_lines [] s' = (ls, r)" "NUL \<notin> set s'" "length s' = length b" "ls = [] \<Longrightarrow> s' = r"
    using extract_kept [OF nb lb b(2), of l] by blast
  have "extract_cmd s False None = extract_cmd (drop (length a + 1) (fix_cr s)) False (Some (take (length a) (fix_cr s)))"
    using lf f(2) i by (subst extract_cmd.simps) (simp add: c_str_id Let_def)
  also have "\<dots> = extract_cmd b False (Some l)" by (simp add: ab(1) b(1))
  finally show ?thesis using s' lb by (intro that [of s']) simp_all
qed

lemma extract_nothing:
  assumes "NUL \<notin> set s" and "length s \<le> 4094" and "split_lines [] s = ([], r)"
  shows "extract_cmd s False None = (s, False, False, None) \<and> r = s"
proof -
  note f = fix_cr_props [OF assms(1)]
  have "LF \<notin> set (fix_cr s)"
  proof
    assume "LF \<in> set (fix_cr s)"
    then obtain a b where "fix_cr s = a @ LF # b" "LF \<notin> set a" "CR \<notin> set a" using f(4) by blast
    then show False using f(1) [of "[]"] assms(3) split_lines_first [of a b] by (auto simp: case_prod_beta)
  qed
  then show ?thesis using f assms by (simp add: extract_cmd.simps c_str_id split_lines_none)
qed

subsection \<open>Reassembly\<close>

text \<open>A descriptor between reads: a partial line in the buffer, no line pending.\<close>

definition fd_ready :: "input_fd \<Rightarrow> string \<Rightarrow> bool" where
  "fd_ready f b \<longleftrightarrow> \<not> fd_got_cmd f \<and> \<not> fd_eof f \<and> \<not> fd_drop f
     \<and> (case fd_buffer f of None \<Rightarrow> [] | Some x \<Rightarrow> x) = b"

lemma read_pending:
  "NUL \<notin> set s \<Longrightarrow> length s \<le> 4094 \<Longrightarrow> split_lines [] s = (ls, r) \<Longrightarrow> ls \<noteq> [] \<Longrightarrow>
   fd_got_cmd f \<Longrightarrow> \<not> fd_eof f \<Longrightarrow> \<not> fd_drop f \<Longrightarrow> fd_buffer f = Some s \<Longrightarrow>
   \<exists>f'. read_cmd_fd atof ictx f rs = Some (foldl (queue_text atof) ictx ls, f', rs) \<and> fd_ready f' r"
proof (induction ls arbitrary: s f ictx)
  case (Cons l ls)
  obtain s' where s': "extract_cmd s False None = (s', False, ls \<noteq> [], Some l)"
    "split_lines [] s' = (ls, r)" "NUL \<notin> set s'" "length s' \<le> 4094" "ls = [] \<Longrightarrow> s' = r"
    using extract_line [OF Cons.prems(1) _ Cons.prems(3)] Cons.prems(2) by auto
  let ?f = "f\<lparr>fd_buffer := Some s', fd_drop := False, fd_got_cmd := ls \<noteq> []\<rparr>"
  have "read_more f rs = Some (Inr f, rs)" using Cons.prems(5) by (simp add: read_more.simps)
  then have r: "read_cmd f rs = Some (?f, Inr l, rs)"
    using Cons.prems s'(1) by (simp add: read_cmd_def)
  show ?case
  proof (cases "ls = []")
    case True
    with r Cons.prems s'(5) show ?thesis
      by (subst read_cmd_fd.simps) (simp add: fd_ready_def)
  next
    case False
    obtain f' where "read_cmd_fd atof (queue_text atof ictx l) ?f rs
        = Some (foldl (queue_text atof) (queue_text atof ictx l) ls, f', rs)" "fd_ready f' r"
      using Cons.IH [OF s'(3,4,2) False, of ?f "queue_text atof ictx l"] Cons.prems False by auto
    with r False show ?thesis by (subst read_cmd_fd.simps) simp
  qed
qed simp

lemma read_chunk:
  assumes "fd_ready f b" and "c \<noteq> []" and "NUL \<notin> set (b @ c)" and "length (b @ c) \<le> 4094"
    and sl: "split_lines [] (b @ c) = (ls, r)"
  shows "\<exists>f'. read_cmd_fd atof ictx f (Rd_data c # rs) = Some (foldl (queue_text atof) ictx ls, f', rs) \<and> fd_ready f' r"
proof -
  define g where "g = (if fd_buffer f = None then f\<lparr>fd_buffer := Some []\<rparr> else f)"
  have g: "fd_buffer g = Some b" "\<not> fd_got_cmd g" "\<not> fd_eof g" "\<not> fd_drop g"
    using assms(1) by (auto simp: g_def fd_ready_def split: option.splits)
  let ?g = "g\<lparr>fd_buffer := Some (b @ c)\<rparr>"
  have lc: "0 < length c" using assms(2) by simp
  have len4: "\<not> 4095 - length b < length c" "Suc 0 < 4096 - length b"
    using assms(4) lc by (simp_all only: length_append)
  have m: "read_more g (Rd_data c # rs) = Some (Inr ?g, rs)"
    using g assms(2) len4 by (subst read_more.simps) simp
  show ?thesis
  proof (cases ls)
    case Nil
    then have e: "extract_cmd (b @ c) False None = (b @ c, False, False, None)" "r = b @ c"
      using extract_nothing [OF assms(3,4)] sl by simp_all
    have "read_cmd f (Rd_data c # rs) = Some (?g, Inl MP_INPUT_NOTHING, rs)"
      using m e g unfolding read_cmd_def Let_def g_def [symmetric] by simp
    then show ?thesis using g e Nil by (subst read_cmd_fd.simps) (simp add: fd_ready_def)
  next
    case (Cons l ls')
    obtain s' where s': "extract_cmd (b @ c) False None = (s', False, ls' \<noteq> [], Some l)"
      "split_lines [] s' = (ls', r)" "NUL \<notin> set s'" "length s' \<le> 4094" "ls' = [] \<Longrightarrow> s' = r"
      using extract_line [OF assms(3), of l ls' r] assms(4) sl Cons by auto
    let ?f = "?g\<lparr>fd_buffer := Some s', fd_drop := False, fd_got_cmd := ls' \<noteq> []\<rparr>"
    have rc: "read_cmd f (Rd_data c # rs) = Some (?f, Inr l, rs)"
      using m s'(1) g unfolding read_cmd_def Let_def g_def [symmetric] by simp
    show ?thesis
    proof (cases "ls' = []")
      case True
      with rc g s'(5) Cons show ?thesis by (subst read_cmd_fd.simps) (simp add: fd_ready_def)
    next
      case False
      obtain f' where "read_cmd_fd atof (queue_text atof ictx l) ?f rs
          = Some (foldl (queue_text atof) (queue_text atof ictx l) ls', f', rs)" "fd_ready f' r"
        using read_pending [OF s'(3,4,2) False, of ?f atof "queue_text atof ictx l"] g False by auto
      with rc False Cons show ?thesis by (subst read_cmd_fd.simps) simp
    qed
  qed
qed

fun read_chunks :: "(string \<Rightarrow> c_float option) \<Rightarrow> input_ctx \<Rightarrow> input_fd \<Rightarrow> string list \<Rightarrow> (input_ctx \<times> input_fd) option" where
  "read_chunks atof ictx f [] = Some (ictx, f)"
| "read_chunks atof ictx f (c # cs) = do {
     (ictx, f, _) \<leftarrow> read_cmd_fd atof ictx f [Rd_data c];
     read_chunks atof ictx f cs }"

lemma pending_short:
  "split_lines acc y = (ls, r) \<Longrightarrow> length acc \<le> length (hd (ls @ [r]))"
proof (induction acc y arbitrary: ls r rule: split_lines.induct)
  case (2 acc c s)
  then show ?case
    by (fastforce simp: case_prod_beta split: if_splits)
qed auto

lemma read_chunks_lines:
  "fd_ready f b \<Longrightarrow> LF \<notin> set b \<Longrightarrow> CR \<notin> set b \<Longrightarrow> NUL \<notin> set (b @ concat cs) \<Longrightarrow>
   \<forall>c\<in>set cs. c \<noteq> [] \<and> length c \<le> 2047 \<Longrightarrow> split_lines b (concat cs) = (ls, r) \<Longrightarrow>
   \<forall>l\<in>set (ls @ [r]). length l \<le> 2047 \<Longrightarrow>
   \<exists>f'. read_chunks atof ictx f cs = Some (foldl (queue_text atof) ictx ls, f') \<and> fd_ready f' r"
proof (induction cs arbitrary: f b ictx ls)
  case (Cons c cs)
  obtain l1 r1 where s1: "split_lines b c = (l1, r1)" by fastforce
  obtain l2 where s2: "split_lines r1 (concat cs) = (l2, r)" and ls: "ls = l1 @ l2"
    using Cons.prems(6) s1 by (auto simp: split_lines_append case_prod_beta prod_eq_iff)
  have b: "split_lines [] (b @ c) = (l1, r1)"
    using s1 split_lines_none [OF Cons.prems(2,3), of "[]"] by (simp add: split_lines_append)
  have "length b \<le> 2047"
  proof -
    have "hd (ls @ [r]) \<in> set (ls @ [r])" by (rule hd_in_set) simp
    with Cons.prems(7) pending_short [OF Cons.prems(6)] show ?thesis by force
  qed
  then have len: "length (b @ c) \<le> 4094" using Cons.prems(5) by simp
  obtain f1 where f1: "read_cmd_fd atof ictx f [Rd_data c] = Some (foldl (queue_text atof) ictx l1, f1, [])"
    "fd_ready f1 r1"
    using read_chunk [OF Cons.prems(1) _ _ len b, of atof ictx "[]"] Cons.prems(4,5) by auto
  have r1: "LF \<notin> set r1" "CR \<notin> set r1"
    using split_lines_rest [OF Cons.prems(2,3), of c] by (simp_all add: s1)
  have "NUL \<notin> set r1"
    using split_lines_set [of b c] Cons.prems(4) by (auto simp: s1)
  then obtain f' where "read_chunks atof (foldl (queue_text atof) ictx l1) f1 cs
      = Some (foldl (queue_text atof) (foldl (queue_text atof) ictx l1) l2, f')" "fd_ready f' r"
    using Cons.IH [OF f1(2) r1 _ _ s2, of "foldl (queue_text atof) ictx l1"] Cons.prems(4,5,7) ls by auto
  then show ?case using f1 ls by auto
qed (auto simp: split: prod.splits)

text \<open>
  C15: Commands are reassembled from a source whatever way its reads cut the stream: when
  all lines are of ordinary length, reading the stream in any chunks parses and queues, in
  order, exactly the commands of its lines (ended by a line feed or a carriage return), and
  keeps the unfinished last line in the buffer.
\<close>

theorem reads_reassemble_lines:
  assumes "\<forall>c\<in>set cs. c \<noteq> [] \<and> length c \<le> 2047" and "NUL \<notin> set (concat cs)"
    and "split_lines [] (concat cs) = (ls, r)" and "\<forall>l\<in>set (ls @ [r]). length l \<le> 2047"
  shows "\<exists>f'. read_chunks atof ictx (new_fd fd sel close) cs = Some (foldl (queue_text atof) ictx ls, f')
    \<and> \<not> fd_drop f' \<and> (case fd_buffer f' of None \<Rightarrow> [] | Some b \<Rightarrow> b) = r"
proof -
  have "fd_ready (new_fd fd sel close) []" by (simp add: fd_ready_def new_fd_def)
  then show ?thesis
    using read_chunks_lines [of "new_fd fd sel close" "[]" cs ls r atof ictx] assms
    by (auto simp: fd_ready_def)
qed

lemma reads_reassemble_lines_witness:
  "\<exists>f'. read_chunks (\<lambda>_. None) (init_input_ctx 7 100 8) (new_fd 0 True False) [''pau'', ''se'' @ [LF] @ ''quit 1'', [CR] @ ''os'']
     = Some (queue_text (\<lambda>_. None) (queue_text (\<lambda>_. None) (init_input_ctx 7 100 8) ''pause'') ''quit 1'', f')
   \<and> \<not> fd_drop f' \<and> (case fd_buffer f' of None \<Rightarrow> [] | Some b \<Rightarrow> b) = ''os''"
proof -
  have "split_lines [] (concat [''pau'', ''se'' @ [LF] @ ''quit 1'', [CR] @ ''os'']) = ([''pause'', ''quit 1''], ''os'')"
    by simp
  from reads_reassemble_lines [OF _ _ this, of "\<lambda>_. None" "init_input_ctx 7 100 8" 0 True False] show ?thesis by simp
qed

end
