(* ===== verification/M_Option.thy ===== *)
theory M_Option
  imports Bstr
begin

text \<open>
  Option types (\<open>m_option.c\<close>): the parse and print functions of flags, integers,
  integer pairs, choices, strings, string lists and suboption lists, and the lookup of an
  option by name. A parse function returns its code and, when it succeeds and a
  destination is given, the value it stores there. A \<open>struct bstr\<close> whose start is null is
  \<open>None\<close>. The bounds of an option are integers here (doubles in the code: the same as
  long as they are exact).
\<close>

abbreviation (input) M_OPT_UNKNOWN :: int where "M_OPT_UNKNOWN \<equiv> -1"
abbreviation (input) M_OPT_MISSING_PARAM :: int where "M_OPT_MISSING_PARAM \<equiv> -2"
abbreviation (input) M_OPT_INVALID :: int where "M_OPT_INVALID \<equiv> -3"
abbreviation (input) M_OPT_OUT_OF_RANGE :: int where "M_OPT_OUT_OF_RANGE \<equiv> -4"
abbreviation (input) M_OPT_PARSER_ERR :: int where "M_OPT_PARSER_ERR \<equiv> -5"
abbreviation (input) M_OPT_EXIT :: int where "M_OPT_EXIT \<equiv> -6"

subsection \<open>Options\<close>

text \<open>
  The type of an option; a choice carries its alternatives, a string list its own
  separator if it has one, a print function the code it returns.
\<close>

datatype opt_type =
    T_flag | T_int | T_int64 | T_intpair | T_choice "(string \<times> int) list" | T_position
  | T_string | T_string_list "char option" | T_print | T_print_func int | T_subconfig

datatype opt_val =
    Ov_int int | Ov_pair int int | Ov_str "string option" | Ov_strs "string list"

text \<open>A variable: an address of its own, or an offset into the option structure.\<close>

datatype opt_addr = Old_p nat | New_offset nat

record opt_info =
  o_name :: string
  o_type :: opt_type
  o_addr :: "opt_addr option"
  o_has_min :: bool
  o_has_max :: bool
  o_nocfg :: bool
  o_nocmd :: bool
  o_global :: bool
  o_nosave :: bool
  o_pre_parse :: bool
  o_min :: int
  o_max :: int
  o_priv_null :: bool
  o_defval :: "opt_val option"

definition type_has_child :: "opt_type \<Rightarrow> bool" where
  "type_has_child t = (t = T_subconfig)"

definition type_wildcard :: "opt_type \<Rightarrow> bool" where
  "type_wildcard t = (case t of T_string_list _ \<Rightarrow> True | T_print_func _ \<Rightarrow> True | _ \<Rightarrow> False)"

definition type_has_copy :: "opt_type \<Rightarrow> bool" where
  "type_has_copy t = (case t of T_print \<Rightarrow> False | T_print_func _ \<Rightarrow> False | T_subconfig \<Rightarrow> False | _ \<Rightarrow> True)"

text \<open>The name comparison of \<open>m_option_list_findb\<close> and \<open>m_config_get_co\<close>.\<close>

definition name_matches :: "opt_type \<Rightarrow> string \<Rightarrow> bstr \<Rightarrow> bool" where
  "name_matches t lname name =
     (if type_wildcard t \<and> bstr_endswith lname ''*''
      then let l = butlast lname in bstrcasecmp (bstr_splice name 0 (int (length l))) l = 0
      else bstrcasecmp lname name = 0)"

definition m_option_list_findb :: "opt_info list \<Rightarrow> bstr \<Rightarrow> opt_info option" where
  "m_option_list_findb os name = find (\<lambda>i. name_matches (o_type i) (o_name i) name) os"

definition blen :: "bstr option \<Rightarrow> nat" where
  "blen p = (case p of None \<Rightarrow> 0 | Some s \<Rightarrow> length s)"

definition bget :: "bstr option \<Rightarrow> bstr" where
  "bget p = (case p of None \<Rightarrow> [] | Some s \<Rightarrow> s)"

subsection \<open>Flags\<close>

definition flag_enable :: "string list" where
  "flag_enable = [''yes'', ''on'', ''ja'', ''si'', ''igen'', ''y'', ''j'', ''i'', ''tak'', ''ja'', ''true'', ''1'']"

definition flag_disable :: "string list" where
  "flag_disable = [''no'', ''off'', ''nein'', ''nicht'', ''nem'', ''n'', ''nie'', ''nej'', ''false'', ''0'']"

definition parse_flag :: "opt_info \<Rightarrow> bstr option \<Rightarrow> bool \<Rightarrow> int \<times> opt_val option" where
  "parse_flag opt param ambiguous_param =
     (if blen param \<noteq> 0 \<and> \<not> ambiguous_param
      then (if list_ex (\<lambda>e. bstrcasecmp (bget param) e = 0) flag_enable then (1, Some (Ov_int (c_int (o_max opt))))
            else if list_ex (\<lambda>e. bstrcasecmp (bget param) e = 0) flag_disable then (1, Some (Ov_int (c_int (o_min opt))))
            else (M_OPT_INVALID, None))
      else (0, Some (Ov_int (c_int (o_max opt)))))"

definition print_flag :: "opt_info \<Rightarrow> int \<Rightarrow> string" where
  "print_flag opt val = (if val = o_min opt then ''no'' else ''yes'')"

subsection \<open>Integers\<close>

definition parse_longlong :: "opt_info \<Rightarrow> bstr option \<Rightarrow> int + int" where
  "parse_longlong opt param =
     (if blen param = 0 then Inl M_OPT_MISSING_PARAM
      else let (i, rest) = bstrtoll (bget param) 10;
               (i, rest) = (if rest \<noteq> [] then bstrtoll (bget param) 0 else (i, rest))
           in if rest \<noteq> [] then Inl M_OPT_INVALID
              else if o_has_min opt \<and> i < o_min opt then Inl M_OPT_OUT_OF_RANGE
              else if o_has_max opt \<and> o_max opt < i then Inl M_OPT_OUT_OF_RANGE
              else Inr i)"

definition parse_int :: "opt_info \<Rightarrow> bstr option \<Rightarrow> int \<times> opt_val option" where
  "parse_int opt param =
     (case parse_longlong opt param of Inl r \<Rightarrow> (r, None) | Inr i \<Rightarrow> (1, Some (Ov_int (c_int i))))"

text \<open>Also \<open>parse_position\<close>: \<open>off_t\<close> has 64 bits.\<close>

definition parse_int64 :: "opt_info \<Rightarrow> bstr option \<Rightarrow> int \<times> opt_val option" where
  "parse_int64 opt param =
     (case parse_longlong opt param of Inl r \<Rightarrow> (r, None) | Inr i \<Rightarrow> (1, Some (Ov_int i)))"

definition print_int :: "int \<Rightarrow> string" where
  "print_int val = c_print_int val"

definition parse_intpair :: "bstr option \<Rightarrow> int \<times> opt_val option" where
  "parse_intpair param =
     (if blen param = 0 then (M_OPT_MISSING_PARAM, None)
      else let (start, s) = bstrtoll (bget param) 10
           in if length s = blen param then (M_OPT_INVALID, None)
              else if s \<noteq> [] \<and> \<not> bstr_startswith s ''-'' then (M_OPT_INVALID, None)
              else let s = (if s \<noteq> [] then bstr_cut s 1 else s);
                       (fin, s) = (if s \<noteq> [] then bstrtoll s 10 else (-1, s))
                   in if s \<noteq> [] then (M_OPT_INVALID, None)
                      else (1, Some (Ov_pair (c_int start) (c_int fin))))"

subsection \<open>Choices\<close>

definition parse_choice :: "(string \<times> int) list \<Rightarrow> bstr option \<Rightarrow> int \<times> opt_val option" where
  "parse_choice alts param =
     (if blen param = 0 then (M_OPT_MISSING_PARAM, None)
      else case find (\<lambda>(n, _). bstrcasecmp (bget param) n = 0) alts of
          None \<Rightarrow> (M_OPT_INVALID, None)
        | Some (_, x) \<Rightarrow> (1, Some (Ov_int x)))"

text \<open>\<open>None\<close> is \<open>abort ()\<close>.\<close>

definition print_choice :: "(string \<times> int) list \<Rightarrow> int \<Rightarrow> string option" where
  "print_choice alts val = map_option fst (find (\<lambda>(_, x). x = val) alts)"

subsection \<open>Strings and lists of strings\<close>

definition c_bstrdup0 :: "bstr \<Rightarrow> string" where
  "c_bstrdup0 s = takeWhile (\<lambda>c. c \<noteq> NUL) s"

definition parse_str :: "opt_info \<Rightarrow> bstr option \<Rightarrow> int \<times> opt_val option" where
  "parse_str opt param =
     (case param of
        None \<Rightarrow> (M_OPT_MISSING_PARAM, None)
      | Some s \<Rightarrow>
          (if o_has_min opt \<and> int (length s) < o_min opt then (M_OPT_OUT_OF_RANGE, None)
           else if o_has_max opt \<and> o_max opt < int (length s) then (M_OPT_OUT_OF_RANGE, None)
           else (1, Some (Ov_str (Some (c_bstrdup0 s))))))"

definition print_str :: "string option \<Rightarrow> string option" where
  "print_str val = val"

text \<open>
  \<open>get_nextsep\<close> with \<open>modify\<close>: the text up to the next separator not preceded by a
  backslash, with the backslashes before separators removed, and what follows, beginning
  with the separator. Without \<open>modify\<close> only the rest is used.
\<close>

function get_nextsep :: "bstr \<Rightarrow> char \<Rightarrow> bstr \<times> bstr" where
  "get_nextsep s sep =
     (let idx = bstrchr s sep
      in if 0 < idx \<and> s ! nat (idx - 1) = CHR 0x5C
         then let (p, r) = get_nextsep (drop (nat idx + 1) s) sep in (take (nat idx - 1) s @ sep # p, r)
         else if idx < 0 then (s, []) else (take (nat idx) s, drop (nat idx) s))"
  by pat_completeness auto
termination
  by (relation "measure (\<lambda>(s, _). length s)") (auto simp: bstrchr_iff split: if_splits dest: length_pos_if_in_set)

declare get_nextsep.simps [simp del]

lemma get_nextsep_shorter: "s \<noteq> [] \<Longrightarrow> length (drop 1 (snd (get_nextsep s sep))) < length s"
proof -
  have le: "length (snd (get_nextsep s sep)) \<le> length s"
  proof (induction s sep rule: get_nextsep.induct)
    case (1 s sep)
    show ?case
    proof (cases "0 < bstrchr s sep \<and> s ! nat (bstrchr s sep - 1) = CHR 0x5C")
      case True
      have "length (snd (get_nextsep (drop (nat (bstrchr s sep) + 1) s) sep)) \<le> length (drop (nat (bstrchr s sep) + 1) s)"
        by (rule "1.IH" [OF refl True])
      then show ?thesis using True by (subst get_nextsep.simps) (simp add: Let_def case_prod_beta)
    next
      case False
      then show ?thesis by (subst get_nextsep.simps) (auto simp: Let_def)
    qed
  qed
  assume "s \<noteq> []"
  then have "0 < length s" by simp
  with le show ?thesis by (simp, linarith)
qed

text \<open>The counting loop, and the loop that collects the elements.\<close>

function count_elements :: "bstr \<Rightarrow> char \<Rightarrow> nat" where
  "count_elements s sep =
     (if s = [] then 0 else Suc (count_elements (drop 1 (snd (get_nextsep s sep))) sep))"
  by pat_completeness auto
termination
  by (relation "measure (\<lambda>(s, _). length s)") (use get_nextsep_shorter in auto)

function collect_elements :: "bstr \<Rightarrow> char \<Rightarrow> string list" where
  "collect_elements s sep =
     (let (el, r) = get_nextsep s sep
      in c_bstrdup0 el # (if r = [] then [] else collect_elements (drop 1 r) sep))"
  by pat_completeness auto
termination
proof (relation "measure (\<lambda>(s, _). length s)")
  fix s :: bstr and sep and x and el r :: bstr
  assume x: "x = get_nextsep s sep" "(el, r) = x" and r: "r \<noteq> []"
  have "s \<noteq> []"
  proof
    assume "s = []"
    then have "get_nextsep s sep = ([], [])" by (simp add: get_nextsep.simps bstrchr_iff)
    with x r show False by simp
  qed
  then show "((drop 1 r, sep), s, sep) \<in> measure (\<lambda>(s, _). length s)"
    using get_nextsep_shorter [of s sep] x by (metis in_measure case_prod_conv snd_conv)
qed simp

declare count_elements.simps [simp del] collect_elements.simps [simp del]

datatype list_op = OP_NONE | OP_ADD | OP_PRE | OP_DEL | OP_CLR

text \<open>The suffix of an option whose name ends in a star; \<open>None\<close> is an unknown one.\<close>

definition list_op :: "string \<Rightarrow> bstr \<Rightarrow> list_op option" where
  "list_op oname name =
     (let len = length oname
      in if oname \<noteq> [] \<and> last oname = CHR ''*'' \<and> len - 1 < length name
         then let suf = drop (len - 1) name
              in if bstrcasecmp suf ''-add'' = 0 then Some OP_ADD
                 else if bstrcasecmp suf ''-pre'' = 0 then Some OP_PRE
                 else if bstrcasecmp suf ''-del'' = 0 then Some OP_DEL
                 else if bstrcasecmp suf ''-clr'' = 0 then Some OP_CLR
                 else None
         else Some OP_NONE)"

text \<open>
  \<open>str_list_del\<close>: every element of \<open>del\<close> that is a number (of any base \<open>strtol\<close> knows)
  marks an element of the list; the marked ones are removed at the end. An empty string is
  the number 0.
\<close>

definition del_index :: "string \<Rightarrow> int option" where
  "del_index d = (let (i, n) = c_strtoll 0 d in if n < length d then None else Some i)"

fun mark_deleted :: "string option list \<Rightarrow> string list \<Rightarrow> string option list" where
  "mark_deleted lst [] = lst"
| "mark_deleted lst (d # ds) =
     (case del_index d of
        None \<Rightarrow> mark_deleted lst ds
      | Some i \<Rightarrow> mark_deleted (if i < 0 \<or> int (length lst) \<le> i then lst else lst[nat i := None]) ds)"

definition str_list_del :: "string list \<Rightarrow> string list \<Rightarrow> string list" where
  "str_list_del lst del = map the (filter (\<lambda>x. x \<noteq> None) (mark_deleted (map Some lst) del))"

text \<open>
  \<open>dst\<close> is the old list, or \<open>None\<close> for a null destination. \<open>list_sep\<close> is the separator.
\<close>

definition list_sep :: "opt_type \<Rightarrow> char" where
  "list_sep t = (case t of T_string_list (Some c) \<Rightarrow> c | _ \<Rightarrow> CHR '','')"

definition parse_str_list :: "opt_info \<Rightarrow> bstr \<Rightarrow> bstr option \<Rightarrow> string list option \<Rightarrow> int \<times> opt_val option" where
  "parse_str_list opt name param dst =
     (case list_op (o_name opt) name of
        None \<Rightarrow> (M_OPT_UNKNOWN, None)
      | Some OP_CLR \<Rightarrow> (0, Some (Ov_strs []))
      | Some op \<Rightarrow>
          (if blen param = 0 then (M_OPT_MISSING_PARAM, None)
           else let sep = list_sep (o_type opt); n = int (count_elements (bget param) sep)
                in if o_has_min opt \<and> n < o_min opt \<or> o_has_max opt \<and> o_max opt < n then (M_OPT_OUT_OF_RANGE, None)
                   else case dst of
                       None \<Rightarrow> (1, None)
                     | Some lst \<Rightarrow>
                         (let res = collect_elements (bget param) sep
                          in (1, Some (Ov_strs (if op = OP_ADD then lst @ res
                                                else if op = OP_PRE then res @ lst
                                                else if op = OP_DEL then str_list_del lst res
                                                else res))))))"

fun print_str_list :: "string list \<Rightarrow> string option" where
  "print_str_list [] = None"
| "print_str_list [s] = Some s"
| "print_str_list (s # ss) = map_option (\<lambda>r. s @ CHR '','' # r) (print_str_list ss)"

subsection \<open>Suboptions\<close>

text \<open>
  One round of \<open>parse_subconf\<close>: the name, the parameter if there is one, and the rest of
  the text; \<open>None\<close> is \<open>M_OPT_INVALID\<close>.
\<close>

definition subconf_param :: "bstr \<Rightarrow> (bstr option \<times> bstr) option" where
  "subconf_param p =
     (if \<not> bstr_startswith p ''='' then Some (None, p)
      else let p = bstr_cut p 1
           in if bstr_startswith p [CHR 0x22]
              then let p = bstr_cut p 1; optlen = bstrcspn p [CHR 0x22];
                       subparam = bstr_splice p 0 (int optlen); p = bstr_cut p (int optlen)
                   in if \<not> bstr_startswith p [CHR 0x22] then None else Some (Some subparam, bstr_cut p 1)
              else if bstr_startswith p ''%''
              then let (i, p) = bstrtoll (bstr_cut p 1) 0; optlen = c_int i
                   in if \<not> bstr_startswith p ''%'' \<or> size_t_gt optlen (length p - 1) then None
                      else Some (Some (bstr_splice p 1 (optlen + 1)), bstr_cut p (optlen + 1))
              else let optlen = bstrcspn p '':''
                   in Some (Some (bstr_splice p 0 (int optlen)), bstr_cut p (int optlen)))"

definition subconf_step :: "bstr \<Rightarrow> (string \<times> string option \<times> bstr) option" where
  "subconf_step p =
     (let optlen = bstrcspn p '':=''; subopt = bstr_splice p 0 (int optlen)
      in case subconf_param (bstr_cut p (int optlen)) of
           None \<Rightarrow> None
         | Some (subparam, p) \<Rightarrow>
             (if bstr_startswith p '':'' then Some (c_bstrdup0 subopt, map_option c_bstrdup0 subparam, bstr_cut p 1)
              else if p \<noteq> [] then None
              else Some (c_bstrdup0 subopt, map_option c_bstrdup0 subparam, p)))"

lemma bstrtoll_length: "length (snd (bstrtoll s b)) \<le> length s"
proof -
  have "length (bstr_lstrip s) \<le> length s"
    by (simp add: bstr_lstrip_def length_dropWhile_le)
  then show ?thesis by (simp add: bstrtoll_def Let_def case_prod_beta)
qed

lemma subconf_param_shorter: "subconf_param p = Some (x, q) \<Longrightarrow> length q \<le> length p"
proof -
  assume a: "subconf_param p = Some (x, q)"
  have cut: "length (bstr_cut s n) \<le> length s" for s n
    by (simp add: bstr_cut_def Let_def)
  show ?thesis
    using a cut [of p 1] cut order_trans [OF cut] order_trans [OF bstrtoll_length]
    by (auto simp: subconf_param_def Let_def case_prod_beta split: if_splits)
qed

lemma subconf_step_shorter:
  assumes "p \<noteq> []" and "subconf_step p = Some (n, v, q)"
  shows "length q < length p"
proof -
  let ?k = "bstrcspn p '':=''"
  obtain x r where r: "subconf_param (bstr_cut p (int ?k)) = Some (x, r)"
    and q: "q = (if bstr_startswith r '':'' then bstr_cut r 1 else r)" "bstr_startswith r '':'' \<or> r = []"
    using assms(2) by (auto simp: subconf_step_def Let_def split: option.splits if_splits)
  have "length r \<le> length p" using subconf_param_shorter [OF r] by simp
  moreover have "bstr_startswith r '':'' \<Longrightarrow> r \<noteq> []" by (auto simp: bstr_startswith_iff)
  ultimately show ?thesis using q assms(1) by (cases r) auto
qed

function parse_subconf_loop :: "bstr \<Rightarrow> (string \<times> string option) list option" where
  "parse_subconf_loop p =
     (if p = [] then Some []
      else case subconf_step p of
          None \<Rightarrow> None
        | Some (n, x, p') \<Rightarrow> map_option ((#) (n, x)) (parse_subconf_loop p'))"
  by pat_completeness auto
termination
  by (relation "measure length") (auto dest: subconf_step_shorter)

declare parse_subconf_loop.simps [simp del]

definition parse_subconf :: "bstr option \<Rightarrow> int + (string \<times> string option) list" where
  "parse_subconf param =
     (if blen param = 0 then Inl M_OPT_MISSING_PARAM
      else case parse_subconf_loop (bget param) of None \<Rightarrow> Inl M_OPT_INVALID | Some l \<Rightarrow> Inr l)"

subsection \<open>Round trips\<close>

lemma length_print_nat: "n < b ^ k \<Longrightarrow> 2 \<le> b \<Longrightarrow> 0 < k \<Longrightarrow> length (print_nat b n) \<le> k"
proof (induction k arbitrary: n)
  case (Suc k)
  show ?case
  proof (cases "n < b")
    case True
    then show ?thesis by (simp add: print_nat.simps)
  next
    case False
    then have "0 < k" using Suc.prems by (cases k) auto
    moreover have "n div b < b ^ k"
      using Suc.prems by (simp add: less_mult_imp_div_less mult.commute)
    ultimately show ?thesis
      using Suc False by (subst print_nat.simps) auto
  qed
qed simp

lemma length_print_int: "LLONG_MIN \<le> i \<Longrightarrow> i \<le> LLONG_MAX \<Longrightarrow> length (c_print_int i) \<le> 20"
proof -
  assume "LLONG_MIN \<le> i" "i \<le> LLONG_MAX"
  then have "nat \<bar>i\<bar> < 10 ^ 19" by (simp add: LLONG_MIN_def LLONG_MAX_def)
  from length_print_nat [OF this] have "length (print_nat 10 (nat \<bar>i\<bar>)) \<le> 19" by simp
  then show ?thesis by (auto simp: c_print_int_def)
qed

lemma print_int_not_special: "c \<in> set (c_print_int i) \<Longrightarrow> c = CHR ''-'' \<or> is_digit_in 10 c"
  using print_nat_digits [of 10] by (auto simp: c_print_int_def split: if_splits)

lemma digit_not_NUL: "\<not> is_digit_in 10 NUL"
  by (simp add: is_digit_in_def digit_val_def byte_def)

lemma bstrtoll_print_int:
  assumes "LLONG_MIN \<le> i" and "i \<le> LLONG_MAX" and r: "r = [] \<or> \<not> is_digit_in 10 (hd r)"
  shows "bstrtoll (c_print_int i @ r) 10 = (i, r)"
proof -
  let ?p = "c_print_int i"
  have c: "\<forall>c\<in>set ?p. \<not> c_isspace c \<and> c \<noteq> NUL"
  proof
    fix c assume "c \<in> set ?p"
    then have "c = CHR ''-'' \<or> is_digit_in 10 c" by (rule print_int_not_special)
    then show "\<not> c_isspace c \<and> c \<noteq> NUL"
    proof
      assume "c = CHR ''-''"
      then show ?thesis by (simp add: c_isspace_def byte_def)
    next
      assume "is_digit_in 10 c"
      then show ?thesis using digit_not_space digit_not_NUL by metis
    qed
  qed
  have ne: "?p \<noteq> []" by (simp add: c_print_int_def)
  have l: "bstr_lstrip (?p @ r) = ?p @ r"
    using c ne by (cases ?p) (auto simp: bstr_lstrip_def)
  let ?k = "min (length (?p @ r)) 50"
  define t where "t = takeWhile (\<lambda>c. c \<noteq> NUL) (take (?k - length ?p) r)"
  have lp: "length ?p \<le> ?k" using length_print_int [OF assms(1,2)] by simp
  then have "takeWhile (\<lambda>c. c \<noteq> NUL) (take ?k (?p @ r)) = ?p @ t"
    using c by (simp add: t_def takeWhile_append)
  moreover have "t = [] \<or> \<not> is_digit_in 10 (hd t)"
    using r digit_not_NUL by (cases r; cases "?k - length ?p") (auto simp: t_def)
  then have "c_strtoll 10 (?p @ t) = (i, length ?p)"
    by (rule c_strtoll_print_int [OF assms(1,2)])
  ultimately show ?thesis unfolding bstrtoll_def l Let_def by simp
qed

lemma c_int_range: "- (2 ^ 31) \<le> c_int x \<and> c_int x < 2 ^ 31"
proof -
  have "0 \<le> (x + 2 ^ 31) mod 2 ^ 32" "(x + 2 ^ 31) mod 2 ^ 32 < 2 ^ 32" by simp_all
  then show ?thesis unfolding c_int_def by simp
qed

lemma parse_longlong_print:
  assumes "LLONG_MIN \<le> i" and "i \<le> LLONG_MAX"
    and "o_has_min opt \<longrightarrow> o_min opt \<le> i" and "o_has_max opt \<longrightarrow> i \<le> o_max opt"
  shows "parse_longlong opt (Some (print_int i)) = Inr i"
proof -
  have "c_print_int i \<noteq> []" by (simp add: c_print_int_def)
  then show ?thesis
    using bstrtoll_print_int [OF assms(1,2), of "[]"] assms(3,4)
    by (auto simp: parse_longlong_def print_int_def blen_def bget_def)
qed

text \<open>
  Integer options round-trip: the text printed for a value of a 32-bit (64-bit) option
  within the option's bounds is parsed back to the value, and the parameter is consumed.
\<close>

theorem int_option_roundtrip:
  assumes "o_has_min opt \<longrightarrow> o_min opt \<le> i" and "o_has_max opt \<longrightarrow> i \<le> o_max opt"
  shows "(- (2 ^ 31) \<le> i \<and> i < 2 ^ 31 \<longrightarrow> parse_int opt (Some (print_int i)) = (1, Some (Ov_int i)))
    \<and> (- (2 ^ 63) \<le> i \<and> i < 2 ^ 63 \<longrightarrow> parse_int64 opt (Some (print_int i)) = (1, Some (Ov_int i)))"
  using parse_longlong_print [OF _ _ assms]
  by (simp add: parse_int_def parse_int64_def LLONG_MIN_def LLONG_MAX_def)

definition int_opt :: "string \<Rightarrow> bool \<Rightarrow> int \<Rightarrow> int \<Rightarrow> opt_info" where
  "int_opt n ranged lo hi =
     \<lparr>o_name = n, o_type = T_int, o_addr = Some (New_offset 0), o_has_min = ranged, o_has_max = ranged,
      o_nocfg = False, o_nocmd = False, o_global = False, o_nosave = False, o_pre_parse = False,
      o_min = lo, o_max = hi, o_priv_null = True, o_defval = None\<rparr>"

lemma int_option_roundtrip_witness:
  "parse_int (int_opt ''osdlevel'' True 0 3) (Some (print_int 2)) = (1, Some (Ov_int 2))"
  using int_option_roundtrip [of "int_opt ''osdlevel'' True 0 3" 2] by (simp add: int_opt_def)

text \<open>
  An integer option without bounds accepts numbers that do not fit its variable and
  stores them truncated: 4294967296 is accepted, and the stored value is 0.
\<close>

theorem parse_int_truncates:
  assumes "\<not> o_has_min opt" and "\<not> o_has_max opt"
  shows "parse_int opt (Some ''4294967296'') = (1, Some (Ov_int 0))"
proof -
  have "c_print_int 4294967296 = ''4294967296''" by code_simp
  then have "parse_longlong opt (Some ''4294967296'') = Inr 4294967296"
    using parse_longlong_print [of 4294967296 opt] assms
    by (simp add: print_int_def LLONG_MIN_def LLONG_MAX_def)
  then show ?thesis by (simp add: parse_int_def c_int_def)
qed

lemma parse_int_truncates_witness:
  "parse_int (int_opt ''frames'' False 0 0) (Some ''4294967296'') = (1, Some (Ov_int 0))"
  by (rule parse_int_truncates) (simp_all add: int_opt_def)

lemma bstrcasecmp_refl [simp]: "NUL \<notin> set s \<Longrightarrow> bstrcasecmp s s = 0"
  using c_strncasecmp_0_iff [of s s] by (simp add: bstrcasecmp_def bstr_len_cmp_def)

lemma bstrcasecmp_0_lower:
  "NUL \<notin> set s \<Longrightarrow> bstrcasecmp s t = 0 \<Longrightarrow> map c_tolower s = map c_tolower t"
proof -
  assume n: "NUL \<notin> set s" and z: "bstrcasecmp s t = 0"
  then have l: "length s = length t"
    by (auto simp: bstrcasecmp_def bstr_len_cmp_def Let_def split: if_splits)
  with z have "c_strncasecmp s t = 0" by (auto simp: bstrcasecmp_def bstr_len_cmp_def Let_def split: if_splits)
  with c_strncasecmp_0_iff [OF l n] show ?thesis by simp
qed

text \<open>
  Choice options round-trip: when the alternatives' names are non-empty and differ in
  more than case, the name printed for an alternative's value is parsed back to that value.
\<close>

theorem choice_roundtrip:
  assumes "\<forall>(n, x)\<in>set alts. n \<noteq> [] \<and> NUL \<notin> set n" and "distinct (map (\<lambda>(n, x). map c_tolower n) alts)"
    and "print_choice alts i = Some n"
  shows "parse_choice alts (Some n) = (1, Some (Ov_int i))"
proof -
  from assms(3) have m: "(n, i) \<in> set alts"
    by (auto simp: print_choice_def find_Some_iff) (metis nth_mem)
  then have n: "n \<noteq> []" "NUL \<notin> set n" using assms(1) by auto
  have "find (\<lambda>(m, _). bstrcasecmp n m = 0) alts = Some (n, i)"
    using m assms(2)
  proof (induction alts)
    case (Cons a alts)
    obtain k x where a: "a = (k, x)" by (cases a)
    show ?case
    proof (cases "(n, i) = a")
      case True
      then show ?thesis using n by (simp add: a)
    next
      case False
      then have t: "(n, i) \<in> set alts" using Cons.prems(1) by simp
      then have "map c_tolower n \<in> (\<lambda>(n, x). map c_tolower n) ` set alts" by force
      then have "map c_tolower n \<noteq> map c_tolower k" using Cons.prems(2) by (auto simp: a)
      then have "bstrcasecmp n k \<noteq> 0" using bstrcasecmp_0_lower [OF n(2)] by blast
      then show ?thesis using Cons.IH [OF t] Cons.prems(2) by (simp add: a)
    qed
  qed simp
  then show ?thesis using n by (simp add: parse_choice_def blen_def bget_def)
qed

lemma choice_roundtrip_witness:
  "parse_choice [(''no'', 0), (''fuzzy'', 1), (''ALL'', 2)] (Some ''ALL'') = (1, Some (Ov_int 2))"
  by (rule choice_roundtrip) (simp_all add: print_choice_def c_tolower_def byte_def)

text \<open>String lists: the elements between separators.\<close>

definition list_element :: "char \<Rightarrow> string \<Rightarrow> bool" where
  "list_element sep s = (sep \<notin> set s \<and> NUL \<notin> set s \<and> (s \<noteq> [] \<longrightarrow> last s \<noteq> CHR 0x5C))"

lemma get_nextsep_last: "sep \<notin> set s \<Longrightarrow> get_nextsep s sep = (s, [])"
  by (subst get_nextsep.simps) (simp add: bstrchr_iff)

lemma get_nextsep_element:
  assumes "list_element sep s"
  shows "get_nextsep (s @ sep # r) sep = (s, sep # r)"
proof -
  have "first_index (\<lambda>c. c = sep) (s @ sep # r) = length s"
    using assms by (intro first_index_append_hit) (auto simp: list_element_def)
  then have i: "bstrchr (s @ sep # r) sep = int (length s)" by (simp add: bstrchr_iff)
  show ?thesis
  proof (cases "s = []")
    case True
    then show ?thesis by (subst get_nextsep.simps) (simp add: bstrchr_iff first_index_def)
  next
    case False
    then have l: "0 < length s" by simp
    then have "nat (int (length s) - 1) = length s - 1" by simp
    moreover have "(s @ sep # r) ! (length s - 1) = last s"
      using l False by (simp add: nth_append last_conv_nth)
    ultimately show ?thesis
      using assms False by (subst get_nextsep.simps) (simp add: i list_element_def)
  qed
qed

lemma bstrdup0_element: "list_element sep s \<Longrightarrow> c_bstrdup0 s = s"
  unfolding c_bstrdup0_def by (rule takeWhile_all) (auto simp: list_element_def)

lemma collect_join:
  "ss \<noteq> [] \<Longrightarrow> \<forall>s\<in>set ss. list_element CHR '','' s \<Longrightarrow> print_str_list ss = Some t \<Longrightarrow>
   collect_elements t CHR '','' = ss"
proof (induction ss arbitrary: t rule: print_str_list.induct)
  case (2 s)
  then have e: "list_element CHR '','' s" by simp
  then have g: "get_nextsep s CHR '','' = (s, [])" by (intro get_nextsep_last) (simp add: list_element_def)
  have "collect_elements s CHR '','' = [s]"
    by (subst collect_elements.simps) (simp add: g bstrdup0_element [OF e])
  with 2 show ?case by simp
next
  case (3 s s' ss)
  then obtain r where r: "print_str_list (s' # ss) = Some r" and t: "t = s @ CHR '','' # r" by auto
  have e: "list_element CHR '','' s" using 3(3) by simp
  have "collect_elements r CHR '','' = s' # ss" using 3(1) [OF _ _ r] 3(3) by simp
  then show ?case
    using get_nextsep_element [OF e, of r] bstrdup0_element [OF e]
    by (subst collect_elements.simps) (simp add: t)
qed simp

text \<open>
  String lists round-trip: a printed list whose text is not empty and whose elements
  contain no comma and do not end in a backslash is parsed back to the list, replacing the
  old one.
\<close>

theorem str_list_roundtrip:
  assumes "\<forall>s\<in>set ss. CHR '','' \<notin> set s \<and> NUL \<notin> set s \<and> (s \<noteq> [] \<longrightarrow> last s \<noteq> CHR 0x5C)"
    and "print_str_list ss = Some t" and "t \<noteq> []"
    and "o_type opt = T_string_list None" and "\<not> o_has_min opt" and "\<not> o_has_max opt"
    and "list_op (o_name opt) name = Some OP_NONE"
  shows "parse_str_list opt name (Some t) (Some old) = (1, Some (Ov_strs ss))"
proof -
  have "ss \<noteq> []" using assms(2) by (cases ss) auto
  then have "collect_elements t CHR '','' = ss"
    using assms(1,2) by (intro collect_join) (auto simp: list_element_def)
  then show ?thesis
    using assms(3-7) by (simp add: parse_str_list_def blen_def bget_def list_sep_def)
qed

definition list_opt :: "string \<Rightarrow> opt_info" where
  "list_opt n = (int_opt n False 0 0)\<lparr>o_type := T_string_list None\<rparr>"

lemma str_list_roundtrip_witness:
  "parse_str_list (list_opt ''alang'') ''alang'' (Some ''en,,de'') (Some [''fr'']) = (1, Some (Ov_strs [''en'', [], ''de'']))"
  by (rule str_list_roundtrip) (simp_all add: list_opt_def int_opt_def list_op_def)

subsection \<open>Suboptions\<close>

lemma digit_char_nonzero: "0 < d \<Longrightarrow> d < 10 \<Longrightarrow> digit_char d \<noteq> CHR ''0''"
proof
  assume "0 < d" "d < 10" "digit_char d = CHR ''0''"
  have "digit_val (digit_char d) = Some d" by (rule digit_val_digit_char) (use \<open>d < 10\<close> in simp)
  then show False
    unfolding \<open>digit_char d = CHR ''0''\<close> using \<open>0 < d\<close> by (simp add: digit_val_def byte_def)
qed

lemma print_nat_lead: "0 < n \<Longrightarrow> hd (print_nat 10 n) \<noteq> CHR ''0''"
proof (induction "10::nat" n rule: print_nat.induct)
  case (1 n)
  show ?case
  proof (cases "n < 10")
    case True
    then show ?thesis using digit_char_nonzero 1(2) by (subst print_nat.simps) simp
  next
    case False
    then show ?thesis using 1 by (subst print_nat.simps) (simp add: hd_append)
  qed
qed

lemma c_strtoll_0_zero:
  assumes nd: "\<not> is_digit_in 10 c" and x: "c_tolower c \<noteq> CHR ''x''"
  shows "c_strtoll 0 (CHR ''0'' # c # r) = (0, 1)"
proof -
  have h: "\<not> has_hex_prefix (CHR ''0'' # c # r)" using x by (cases r) (simp_all add: has_hex_prefix_def)
  have sp: "takeWhile c_isspace (CHR ''0'' # c # r) = []" by (simp add: c_isspace_def byte_def)
  have o8: "is_digit_in 8 (CHR ''0'')" by (simp add: is_digit_in_def digit_val_def byte_def)
  have "\<not> is_digit_in 8 c" using nd by (auto simp: is_digit_in_def split: option.splits)
  with o8 have d: "takeWhile (is_digit_in 8) (CHR ''0'' # c # r) = ''0''" by simp
  have v: "digits_value 8 ''0'' = 0" by (simp add: digits_value_def digit_val_def byte_def)
  show ?thesis
    unfolding c_strtoll_def Let_def sp by (simp add: h d v LLONG_MAX_def del: takeWhile.simps)
qed

lemma c_strtoll_0_nonzero:
  assumes d: "is_digit_in 10 d" and nz: "d \<noteq> CHR ''0''"
  shows "c_strtoll 0 (d # cs) = c_strtoll 10 (d # cs)"
proof -
  have h: "\<not> has_hex_prefix (d # xs)" for xs
    unfolding has_hex_prefix_def by (simp add: nz split: list.split)
  have sp: "takeWhile c_isspace (d # cs) = []" using digit_not_space [OF d] by simp
  show ?thesis
    unfolding c_strtoll_def Let_def sp
    using digit_not_sign [OF d] nz by (simp add: h del: takeWhile.simps)
qed

lemma c_strtoll_0_print_nat:
  assumes "int n \<le> LLONG_MAX" and nd: "\<not> is_digit_in 10 c" and x: "c_tolower c \<noteq> CHR ''x''"
  shows "c_strtoll 0 (print_nat 10 n @ c # r) = (int n, length (print_nat 10 n))"
proof (cases "n = 0")
  case True
  have "digit_char 0 = CHR ''0''" by (simp add: digit_char_def char_of_def bit_iff_odd)
  then have z: "print_nat 10 0 = ''0''" by (subst print_nat.simps) simp
  show ?thesis
    unfolding True z using c_strtoll_0_zero [OF nd x, of r] by simp
next
  case False
  obtain d ds where p: "print_nat 10 n = d # ds" and d: "is_digit_in 10 d"
    by (rule print_nat_Cons [of 10 n]) simp_all
  have nz: "d \<noteq> CHR ''0''" using print_nat_lead [of n] False p by simp
  have "c_strtoll 10 (c_print_int (int n) @ c # r) = (int n, length (c_print_int (int n)))"
    by (rule c_strtoll_print_int) (use assms in \<open>simp_all add: LLONG_MIN_def\<close>)
  then have "c_strtoll 10 (print_nat 10 n @ c # r) = (int n, length (print_nat 10 n))"
    by (simp add: c_print_int_def)
  then show ?thesis unfolding p append_Cons c_strtoll_0_nonzero [OF d nz] .
qed

lemma bstrtoll_0_print_nat:
  assumes "n < 2 ^ 31"
  shows "bstrtoll (print_nat 10 n @ CHR ''%'' # r) 0 = (int n, CHR ''%'' # r)"
proof -
  define p where "p = print_nat 10 n"
  let ?c = "CHR ''%''"
  have dig: "\<forall>c\<in>set p. is_digit_in 10 c" unfolding p_def by (rule print_nat_digits) simp_all
  then have c: "\<forall>c\<in>set p. \<not> c_isspace c \<and> c \<noteq> NUL"
    using digit_not_space digit_not_NUL by metis
  have ne: "p \<noteq> []" by (simp add: p_def)
  have l: "bstr_lstrip (p @ ?c # r) = p @ ?c # r"
    using c ne by (cases p) (auto simp: bstr_lstrip_def)
  have "n < 10 ^ 10" using assms by simp
  then have lp: "length p \<le> 10" unfolding p_def by (rule length_print_nat) simp_all
  define k where "k = min (length r) (49 - length p)"
  have m: "min (length (p @ ?c # r)) 50 = length p + Suc k"
    using lp by (simp add: k_def)
  have t: "takeWhile (\<lambda>c. c \<noteq> NUL) (take (min (length (p @ ?c # r)) 50) (p @ ?c # r))
      = p @ ?c # takeWhile (\<lambda>c. c \<noteq> NUL) (take k r)"
    unfolding m using c by (simp add: takeWhile_append)
  have nd: "\<not> is_digit_in 10 ?c" and nx: "c_tolower ?c \<noteq> CHR ''x''"
    by (simp_all add: is_digit_in_def digit_val_def byte_def c_tolower_def)
  have "int n \<le> LLONG_MAX" using assms by (simp add: LLONG_MAX_def)
  then have "c_strtoll 0 (p @ ?c # takeWhile (\<lambda>c. c \<noteq> NUL) (take k r)) = (int n, length p)"
    unfolding p_def by (rule c_strtoll_0_print_nat [OF _ nd nx])
  then show ?thesis unfolding p_def [symmetric] bstrtoll_def l Let_def t by simp
qed

text \<open>The text of a suboption list, the values with their lengths.\<close>

definition subopt_text :: "string \<times> string option \<Rightarrow> string" where
  "subopt_text p = (case p of
     (n, None) \<Rightarrow> n
   | (n, Some v) \<Rightarrow> n @ ''=%'' @ print_nat 10 (length v) @ ''%'' @ v)"

fun subopts_text :: "(string \<times> string option) list \<Rightarrow> string" where
  "subopts_text [] = []"
| "subopts_text [p] = subopt_text p"
| "subopts_text (p # ps) = subopt_text p @ '':'' @ subopts_text ps"

definition subopt_name_ok :: "string \<Rightarrow> bool" where
  "subopt_name_ok n = (n \<noteq> [] \<and> (\<forall>c\<in>set n. c \<noteq> CHR '':'' \<and> c \<noteq> CHR ''='' \<and> c \<noteq> NUL))"

definition subopt_ok :: "string \<times> string option \<Rightarrow> bool" where
  "subopt_ok p = (subopt_name_ok (fst p) \<and>
     (case snd p of None \<Rightarrow> True | Some v \<Rightarrow> NUL \<notin> set v \<and> length v < 2 ^ 31 - 1))"

lemma subopt_name_dup: "subopt_name_ok n \<Longrightarrow> c_bstrdup0 n = n"
  unfolding c_bstrdup0_def by (rule takeWhile_all) (auto simp: subopt_name_ok_def)

lemma bstrcspn_name:
  assumes "subopt_name_ok n" and "r = [] \<or> hd r \<in> {CHR '':'', CHR ''=''}"
  shows "bstrcspn (n @ r) '':='' = length n"
proof -
  have n: "\<And>c. c \<in> set n \<Longrightarrow> \<not> in_cset '':='' c" using assms(1) by (simp add: in_cset_def subopt_name_ok_def)
  show ?thesis
  proof (cases r)
    case Nil
    have "takeWhile (\<lambda>c. \<not> in_cset '':='' c) n = n" by (rule takeWhile_all) (simp add: n)
    then have "length (takeWhile (\<lambda>c. \<not> in_cset '':='' c) n) = length n" by (rule arg_cong)
    then show ?thesis unfolding bstrcspn_def first_index_def Nil append_Nil2 .
  next
    case (Cons c r')
    then have "in_cset '':='' c" using assms(2) by (auto simp: in_cset_def)
    with n show ?thesis unfolding bstrcspn_def Cons by (intro first_index_append_hit)
  qed
qed

lemma subconf_param_value:
  assumes "length x < 2 ^ 31 - 1"
  shows "subconf_param (''=%'' @ print_nat 10 (length x) @ CHR ''%'' # x @ r) = Some (Some x, r)"
proof -
  have l: "bstrtoll (print_nat 10 (length x) @ CHR ''%'' # x @ r) 0 = (int (length x), CHR ''%'' # x @ r)"
    by (rule bstrtoll_0_print_nat) (use assms in simp)
  have i: "c_int (int (length x)) = int (length x)" using assms by (simp add: c_int_def)
  have n: "nat (int (length x) + 1) = Suc (length x)" by simp
  show ?thesis
    by (simp add: subconf_param_def bstr_startswith_iff l i n size_t_gt_def bstr_splice_nonneg)
qed

lemma subconf_step_after:
  assumes n: "subopt_name_ok n" and q: "q = [] \<or> hd q \<in> {CHR '':'', CHR ''=''}"
    and p: "subconf_param q = Some (v, r)" and r: "r = [] \<or> hd r = CHR '':''"
  shows "subconf_step (n @ q) = Some (n, map_option c_bstrdup0 v, drop 1 r)"
  using r by (cases r) (simp_all add: subconf_step_def bstrcspn_name [OF n q] p subopt_name_dup [OF n] bstr_startswith_iff)

lemma subconf_step_text:
  assumes ok: "subopt_ok (n, v)" and r: "r = [] \<or> hd r = CHR '':''"
  shows "subconf_step (subopt_text (n, v) @ r) = Some (n, v, drop 1 r)"
proof (cases v)
  case None
  have "subconf_param r = Some (None, r)"
    using r by (cases r) (simp_all add: subconf_param_def bstr_startswith_iff)
  with ok r None show ?thesis
    using subconf_step_after [of n r None r] by (auto simp: subopt_ok_def subopt_text_def)
next
  case (Some x)
  have x: "length x < 2 ^ 31 - 1" "NUL \<notin> set x" using ok by (simp_all add: subopt_ok_def Some)
  have d: "c_bstrdup0 x = x"
    unfolding c_bstrdup0_def by (rule takeWhile_all) (use x in auto)
  have "subconf_step (n @ ''=%'' @ print_nat 10 (length x) @ CHR ''%'' # x @ r) = Some (n, Some x, drop 1 r)"
    using subconf_step_after [OF _ _ subconf_param_value [OF x(1)] r, of n] ok by (simp add: subopt_ok_def d)
  then show ?thesis by (simp add: subopt_text_def Some)
qed

lemma subopt_text_not_Nil: "subopt_ok p \<Longrightarrow> subopt_text p \<noteq> []"
  by (cases p) (simp add: subopt_ok_def subopt_name_ok_def subopt_text_def split: option.split)

lemma parse_subconf_loop_text:
  "\<forall>p\<in>set ps. subopt_ok p \<Longrightarrow> parse_subconf_loop (subopts_text ps) = Some ps"
proof (induction ps rule: subopts_text.induct)
  case (2 p)
  obtain n v where p: "p = (n, v)" by (cases p)
  have ne: "subopt_text p \<noteq> []" using 2 by (simp add: subopt_text_not_Nil)
  show ?case using subconf_step_text [of n v "[]"] 2 ne
    by (subst parse_subconf_loop.simps) (simp add: p parse_subconf_loop.simps [of "[]"])
next
  case (3 p p' ps)
  obtain n v where p: "p = (n, v)" by (cases p)
  have "subconf_step (subopts_text (p # p' # ps)) = Some (n, v, subopts_text (p' # ps))"
    using subconf_step_text [of n v "CHR '':'' # subopts_text (p' # ps)"] 3(2) by (simp add: p)
  then show ?case using 3 by (subst parse_subconf_loop.simps) (simp add: p)
qed (simp add: parse_subconf_loop.simps)

lemma parse_subconf_text:
  assumes "ps \<noteq> []" and "\<forall>p\<in>set ps. subopt_ok p"
  shows "parse_subconf (Some (subopts_text ps)) = Inr ps"
proof -
  obtain p qs where ps: "ps = p # qs" using assms(1) by (cases ps) auto
  have "subopt_text p \<noteq> []" using assms(2) by (simp add: ps subopt_text_not_Nil)
  then have "subopts_text ps \<noteq> []" by (cases qs) (simp_all add: ps)
  then show ?thesis
    using parse_subconf_loop_text [OF assms(2)] by (simp add: parse_subconf_def blen_def bget_def)
qed

text \<open>
  C32: Suboption lists round-trip: a list of names with optional values, each value written
  with its length (\<open>name=%len%value\<close>), whatever separators and quotes it contains, is
  parsed back to exactly that list.
\<close>

theorem subconf_roundtrip:
  assumes "ps \<noteq> []" and "\<forall>p\<in>set ps. subopt_ok p"
  shows "parse_subconf (Some (subopts_text ps)) = Inr ps"
  using assms by (rule parse_subconf_text)

lemma subconf_roundtrip_witness:
  "parse_subconf (Some ''file=%5%a:b=c:loop'') = Inr [(''file'', Some ''a:b=c''), (''loop'', None)]"
proof -
  have "subopts_text [(''file'', Some ''a:b=c''), (''loop'', None)] = ''file=%5%a:b=c:loop''" by code_simp
  then show ?thesis
    using subconf_roundtrip [of "[(''file'', Some ''a:b=c''), (''loop'', None)]"] by (simp add: subopt_ok_def subopt_name_ok_def)
qed

end
