(* ===== verification/M_Config.thy ===== *)
theory M_Config
  imports M_Option
begin

text \<open>
  The configuration (\<open>m_config.c\<close>): the registered options with their save slots, the
  stack of levels, setting and checking options and suboptions, and profiles. Variables
  are a store from addresses to values; the address of a new-style option is its offset
  into the one option structure. Aborts and failed assertions are the result \<open>None\<close>.
\<close>

subsection \<open>Data\<close>

record save_slot =
  sl_lvl :: int
  sl_data :: "opt_val option"

record m_config_option =
  co_name :: string
  co_disabled :: "string option"
  co_opt :: opt_info
  co_slots :: "save_slot list"
  co_set :: bool
  co_alias :: bool

record m_profile =
  pr_name :: string
  pr_desc :: "string option"
  pr_opts :: "(string \<times> string) list"

text \<open>
  \<open>cf_include_depth\<close> is not of the structure: it is the static \<open>recursion_depth\<close> of
  \<open>parser-cfg.c\<close>.
\<close>

datatype option_source = M_CONFIG_FILE | M_COMMAND_LINE | M_COMMAND_LINE_PRE_PARSE

record m_config =
  cf_opts :: "m_config_option list"
  cf_lvl :: int
  cf_mode :: option_source
  cf_profiles :: "m_profile list"
  cf_depth :: nat
  cf_include_depth :: int
  cf_include :: bool
  cf_full :: bool
  cf_mem :: "opt_addr \<Rightarrow> opt_val"

definition MAX_PROFILE_DEPTH :: nat where "MAX_PROFILE_DEPTH = 20"

subsection \<open>Saving and restoring values\<close>

definition m_option_save :: "(opt_addr \<Rightarrow> opt_val) \<Rightarrow> opt_info \<Rightarrow> opt_val option \<Rightarrow> opt_val option" where
  "m_option_save mem opt dst =
     (if type_has_copy (o_type opt)
      then case o_addr opt of None \<Rightarrow> dst | Some a \<Rightarrow> Some (mem a)
      else dst)"

definition m_option_set :: "opt_info \<Rightarrow> opt_val option \<Rightarrow> (opt_addr \<Rightarrow> opt_val) \<Rightarrow> opt_addr \<Rightarrow> opt_val" where
  "m_option_set opt src mem =
     (if type_has_copy (o_type opt)
      then case (o_addr opt, src) of (Some a, Some v) \<Rightarrow> mem(a := v) | _ \<Rightarrow> mem
      else mem)"

definition m_option_copy :: "opt_info \<Rightarrow> opt_val option \<Rightarrow> opt_val option \<Rightarrow> opt_val option" where
  "m_option_copy opt dst src = (if type_has_copy (o_type opt) then src else dst)"

text \<open>The options \<open>m_config_push\<close> and \<open>m_config_pop\<close> skip.\<close>

definition co_skipped :: "m_config_option \<Rightarrow> bool" where
  "co_skipped co = (type_has_child (o_type (co_opt co)) \<or> o_global (co_opt co) \<or> o_nosave (co_opt co) \<or> co_alias co)"

definition push_option :: "int \<Rightarrow> (opt_addr \<Rightarrow> opt_val) \<Rightarrow> m_config_option \<Rightarrow> m_config_option option" where
  "push_option lvl mem co =
     (if co_skipped co then Some co
      else case co_slots co of
          [] \<Rightarrow> None
        | s # ss \<Rightarrow>
            (let s = s\<lparr>sl_data := m_option_save mem (co_opt co) (sl_data s)\<rparr>;
                 slot = \<lparr>sl_lvl = lvl, sl_data = m_option_copy (co_opt co) None (sl_data s)\<rparr>
             in Some (co\<lparr>co_slots := slot # s # ss, co_set := False\<rparr>)))"

fun push_options :: "int \<Rightarrow> (opt_addr \<Rightarrow> opt_val) \<Rightarrow> m_config_option list \<Rightarrow> m_config_option list option" where
  "push_options lvl mem [] = Some []"
| "push_options lvl mem (co # cos) =
     (case push_option lvl mem co of
        None \<Rightarrow> None
      | Some co' \<Rightarrow> map_option ((#) co') (push_options lvl mem cos))"

definition m_config_push :: "m_config \<Rightarrow> m_config option" where
  "m_config_push c =
     (if cf_lvl c \<le> 0 then None
      else let lvl = cf_lvl c + 1
           in map_option (\<lambda>os. c\<lparr>cf_lvl := lvl, cf_opts := os\<rparr>) (push_options lvl (cf_mem c) (cf_opts c)))"

text \<open>\<open>None\<close> is reading the level behind the last slot.\<close>

fun pop_options ::
  "int \<Rightarrow> m_config_option list \<Rightarrow> (opt_addr \<Rightarrow> opt_val) \<Rightarrow> (m_config_option list \<times> (opt_addr \<Rightarrow> opt_val)) option"
where
  "pop_options lvl [] mem = Some ([], mem)"
| "pop_options lvl (co # cos) mem =
     (if co_skipped co then map_option (apfst ((#) co)) (pop_options lvl cos mem)
      else let slots = dropWhile (\<lambda>s. lvl \<le> sl_lvl s) (co_slots co)
           in if slots = [] then None
              else let mem = (if length slots < length (co_slots co) then m_option_set (co_opt co) (sl_data (hd slots)) mem
                              else mem)
                   in map_option (apfst ((#) (co\<lparr>co_slots := slots\<rparr>))) (pop_options lvl cos mem))"

definition m_config_pop :: "m_config \<Rightarrow> m_config option" where
  "m_config_pop c =
     (if cf_lvl c \<le> 1 then None
      else map_option (\<lambda>(os, mem). c\<lparr>cf_opts := os, cf_mem := mem, cf_lvl := cf_lvl c - 1\<rparr>)
             (pop_options (cf_lvl c) (cf_opts c) (cf_mem c)))"

subsection \<open>Registering options\<close>

text \<open>
  An array of option definitions: options with their children, and the markers
  \<open>conditional functionality: <enable>\<close> with the name of the feature.
\<close>

datatype opt_def = Opt_def opt_info "opt_def list" | Opt_conditional string string

definition new_option :: "m_config \<Rightarrow> string \<Rightarrow> string option \<Rightarrow> opt_info \<Rightarrow> m_config_option" where
  "new_option c name disabled i =
     (let co = \<lparr>co_name = name, co_disabled = disabled, co_opt = i, co_slots = [], co_set = False, co_alias = False\<rparr>
      in if type_has_child (o_type i) then co
         else let twin = (if o_addr i = None then None else find (\<lambda>x. o_addr (co_opt x) = o_addr i) (cf_opts c))
              in case twin of
                   Some x \<Rightarrow> co\<lparr>co_slots := co_slots x, co_alias := True\<rparr>
                 | None \<Rightarrow>
                     (if cf_full c
                      then let d = m_option_save (cf_mem c) i None
                           in co\<lparr>co_slots := [\<lparr>sl_lvl = cf_lvl c, sl_data = m_option_copy i None d\<rparr>,
                                             \<lparr>sl_lvl = 0, sl_data = d\<rparr>]\<rparr>
                      else co))"

fun m_config_add_option :: "opt_def \<Rightarrow> string \<Rightarrow> string option \<Rightarrow> m_config \<Rightarrow> m_config"
and add_options :: "opt_def list \<Rightarrow> string \<Rightarrow> string option \<Rightarrow> string option \<Rightarrow> m_config \<Rightarrow> m_config"
where
  "m_config_add_option (Opt_def i children) pre disabled_feature c =
     (let name = (if pre \<noteq> [] then pre @ '':'' @ o_name i else o_name i);
          c = (if type_has_child (o_type i) then add_options children name disabled_feature disabled_feature c else c)
      in c\<lparr>cf_opts := new_option c name disabled_feature i # cf_opts c\<rparr>)"
| "m_config_add_option (Opt_conditional e f) pre disabled_feature c = c"
| "add_options [] pre disabled_feature dis c = c"
| "add_options (Opt_conditional e f # defs) pre disabled_feature dis c =
     add_options defs pre disabled_feature
       (if disabled_feature = None then if e = ''1'' then None else Some f else dis) c"
| "add_options (Opt_def i ch # defs) pre disabled_feature dis c =
     add_options defs pre disabled_feature dis (m_config_add_option (Opt_def i ch) pre dis c)"

definition m_config_register_options :: "opt_def list \<Rightarrow> m_config \<Rightarrow> m_config" where
  "m_config_register_options args c = add_options args [] None None c"

text \<open>The options every full configuration has.\<close>

definition plain_opt :: "string \<Rightarrow> opt_type \<Rightarrow> opt_info" where
  "plain_opt n t =
     \<lparr>o_name = n, o_type = t, o_addr = None, o_has_min = False, o_has_max = False,
      o_nocfg = False, o_nocmd = False, o_global = False, o_nosave = False, o_pre_parse = False,
      o_min = 0, o_max = 0, o_priv_null = True, o_defval = None\<rparr>"

definition ref_opts :: "opt_def list" where
  "ref_opts =
     [Opt_def ((plain_opt ''profile'' (T_string_list None))\<lparr>o_nosave := True\<rparr>) [],
      Opt_def ((plain_opt ''show-profile'' (T_print_func (M_OPT_EXIT - 1)))\<lparr>o_nocfg := True, o_priv_null := False\<rparr>) [],
      Opt_def ((plain_opt ''list-options'' (T_print_func M_OPT_EXIT))\<lparr>o_nocfg := True, o_priv_null := False\<rparr>) []]"

definition m_config_new :: "(opt_addr \<Rightarrow> opt_val) \<Rightarrow> bool \<Rightarrow> m_config" where
  "m_config_new mem includefunc =
     (let c = \<lparr>cf_opts = [], cf_lvl = 1, cf_mode = M_CONFIG_FILE, cf_profiles = [], cf_depth = 0, cf_include_depth = 0,
               cf_include = False, cf_full = True, cf_mem = mem\<rparr>;
          c = m_config_register_options ref_opts c
      in if includefunc
         then (m_config_add_option (Opt_def ((plain_opt ''include'' T_string)\<lparr>o_nosave := True\<rparr>) []) [] None c)
                \<lparr>cf_include := True\<rparr>
         else c)"

definition m_config_simple :: "(opt_addr \<Rightarrow> opt_val) \<Rightarrow> opt_def list \<Rightarrow> m_config" where
  "m_config_simple mem options =
     m_config_register_options options
       \<lparr>cf_opts = [], cf_lvl = 0, cf_mode = M_CONFIG_FILE, cf_profiles = [], cf_depth = 0, cf_include_depth = 0,
        cf_include = False, cf_full = False, cf_mem = mem\<rparr>"

definition m_config_initialize :: "m_config \<Rightarrow> m_config" where
  "m_config_initialize c =
     c\<lparr>cf_mem := foldl (\<lambda>mem co. case o_defval (co_opt co) of None \<Rightarrow> mem
                                  | Some v \<Rightarrow> m_option_set (co_opt co) (Some v) mem) (cf_mem c) (cf_opts c)\<rparr>"

subsection \<open>Lookup\<close>

definition m_config_get_co :: "m_config \<Rightarrow> bstr \<Rightarrow> m_config_option option" where
  "m_config_get_co c name = find (\<lambda>co. name_matches (o_type (co_opt co)) (co_name co) name) (cf_opts c)"

definition m_config_get_option :: "m_config \<Rightarrow> bstr \<Rightarrow> opt_info option" where
  "m_config_get_option c name = map_option co_opt (m_config_get_co c name)"

definition m_config_get_profile :: "m_config \<Rightarrow> string \<Rightarrow> m_profile option" where
  "m_config_get_profile c name = find (\<lambda>p. pr_name p = name) (cf_profiles c)"

definition m_config_add_profile :: "m_config \<Rightarrow> string \<Rightarrow> m_config" where
  "m_config_add_profile c name =
     (case m_config_get_profile c name of
        Some p \<Rightarrow> c
      | None \<Rightarrow> c\<lparr>cf_profiles := \<lparr>pr_name = name, pr_desc = None, pr_opts = []\<rparr> # cf_profiles c\<rparr>)"

definition update_profile :: "string \<Rightarrow> (m_profile \<Rightarrow> m_profile) \<Rightarrow> m_config \<Rightarrow> m_config" where
  "update_profile name f c = c\<lparr>cf_profiles := map (\<lambda>p. if pr_name p = name then f p else p) (cf_profiles c)\<rparr>"

definition m_profile_set_desc :: "string \<Rightarrow> string \<Rightarrow> m_config \<Rightarrow> m_config" where
  "m_profile_set_desc name desc c = update_profile name (\<lambda>p. p\<lparr>pr_desc := Some desc\<rparr>) c"

subsection \<open>Setting options\<close>

text \<open>
  The parse functions of the types, given the old contents of the destination (\<open>None\<close>: no
  destination). A callback of the print-function type is represented by its result.
\<close>

definition opt_parse :: "opt_info \<Rightarrow> bstr \<Rightarrow> bstr option \<Rightarrow> bool \<Rightarrow> opt_val option \<Rightarrow> int \<times> opt_val option" where
  "opt_parse opt name param ambiguous_param dst =
     (case o_type opt of
        T_flag \<Rightarrow> parse_flag opt param ambiguous_param
      | T_int \<Rightarrow> parse_int opt param
      | T_int64 \<Rightarrow> parse_int64 opt param
      | T_position \<Rightarrow> parse_int64 opt param
      | T_intpair \<Rightarrow> parse_intpair param
      | T_choice alts \<Rightarrow> parse_choice alts param
      | T_string \<Rightarrow> parse_str opt param
      | T_string_list _ \<Rightarrow>
          parse_str_list opt name param (case dst of Some (Ov_strs l) \<Rightarrow> Some l | Some _ \<Rightarrow> Some [] | None \<Rightarrow> None)
      | T_print \<Rightarrow> (if o_priv_null opt then M_OPT_EXIT else 0, None)
      | T_print_func r \<Rightarrow> (r, None)
      | T_subconfig \<Rightarrow> (M_OPT_PARSER_ERR, None))"

text \<open>The flag of the option found for a name.\<close>

fun mark_set :: "bstr \<Rightarrow> m_config_option list \<Rightarrow> m_config_option list" where
  "mark_set name [] = []"
| "mark_set name (co # cos) =
     (if name_matches (o_type (co_opt co)) (co_name co) name then co\<lparr>co_set := True\<rparr> # cos
      else co # mark_set name cos)"

definition parse_leaf :: "m_config_option \<Rightarrow> bstr \<Rightarrow> bstr option \<Rightarrow> bool \<Rightarrow> bool \<Rightarrow> m_config \<Rightarrow> int \<times> m_config" where
  "parse_leaf co name param ambiguous_param do_set c =
     (let dst = (if do_set then map_option (cf_mem c) (o_addr (co_opt co)) else None);
          (r, res) = opt_parse (co_opt co) name param ambiguous_param dst;
          c' = (case (dst, o_addr (co_opt co), res) of
                  (Some _, Some a, Some v) \<Rightarrow> c\<lparr>cf_mem := (cf_mem c)(a := v)\<rparr>
                | _ \<Rightarrow> c)
      in if r < 0 then (r, c)
         else (r, if do_set then c'\<lparr>cf_opts := mark_set name (cf_opts c')\<rparr> else c'))"

type_synonym include_fun = "string \<Rightarrow> m_config \<Rightarrow> m_config option"

definition parse_include :: "include_fun \<Rightarrow> bstr option \<Rightarrow> bool \<Rightarrow> m_config \<Rightarrow> (int \<times> m_config) option" where
  "parse_include includefunc param do_set c =
     (if blen param = 0 then Some (M_OPT_MISSING_PARAM, c)
      else if \<not> do_set then Some (1, c)
      else map_option (Pair 1) (includefunc (c_bstrdup0 (bget param)) c))"

type_synonym profile_fun = "m_profile \<Rightarrow> m_config \<Rightarrow> m_config option"

fun parse_profile_loop :: "profile_fun \<Rightarrow> bool \<Rightarrow> string list \<Rightarrow> int \<Rightarrow> m_config \<Rightarrow> (int \<times> m_config) option" where
  "parse_profile_loop set_profile do_set [] r c = Some (r, c)"
| "parse_profile_loop set_profile do_set (n # ns) r c =
     (case m_config_get_profile c n of
        None \<Rightarrow> parse_profile_loop set_profile do_set ns M_OPT_INVALID c
      | Some p \<Rightarrow>
          (if do_set then case set_profile p c of
                         None \<Rightarrow> None
                       | Some c \<Rightarrow> parse_profile_loop set_profile do_set ns r c
           else parse_profile_loop set_profile do_set ns r c))"

definition parse_profile ::
  "profile_fun \<Rightarrow> opt_info \<Rightarrow> bstr \<Rightarrow> bstr option \<Rightarrow> bool \<Rightarrow> m_config \<Rightarrow> (int \<times> m_config) option"
where
  "parse_profile set_profile opt name param do_set c =
     (if bstrcmp (bget param) ''help'' = 0 then Some (M_OPT_EXIT - 1, c)
      else let (r, res) = parse_str_list opt name param (Some [])
           in if r < 0 then Some (r, c)
              else case res of
                  Some (Ov_strs (n # ns)) \<Rightarrow> parse_profile_loop set_profile do_set (n # ns) r c
                | _ \<Rightarrow> Some (M_OPT_INVALID, c))"

text \<open>The loop of \<open>parse_subopts\<close>, over the function that sets one suboption.\<close>

fun subopts_loop ::
  "(string \<times> string option \<Rightarrow> m_config \<Rightarrow> (int \<times> m_config) option) \<Rightarrow> int \<Rightarrow> (string \<times> string option) list \<Rightarrow>
   m_config \<Rightarrow> (int \<times> m_config) option"
where
  "subopts_loop f r [] c = Some (r, c)"
| "subopts_loop f r (x # xs) c =
     (case f x c of
        None \<Rightarrow> None
      | Some (sr, c) \<Rightarrow> (if sr < 0 then Some (sr, c) else subopts_loop f r xs c))"

text \<open>
  The full name and the parameter of a suboption; \<open>Some None\<close> is an error message and
  \<open>M_OPT_INVALID\<close>, \<open>None\<close> is \<open>abort ()\<close>.
\<close>

definition resolve_subopt ::
  "m_config \<Rightarrow> string \<Rightarrow> string \<Rightarrow> string option \<Rightarrow> (bstr \<times> bstr option) option option"
where
  "resolve_subopt c pre n v =
     (if 100 < length (pre @ n) then None
      else if m_config_get_option c (pre @ n) \<noteq> None then Some (Some (pre @ n, v))
      else if take 3 n \<noteq> ''no-'' then Some None
      else case m_config_get_option c (pre @ drop 3 n) of
          None \<Rightarrow> Some None
        | Some opt \<Rightarrow>
            (if o_type opt \<noteq> T_flag then Some None
             else if v \<noteq> None then Some None
             else Some (Some (pre @ drop 3 n, Some ''no''))))"

definition subopt_error :: "int \<Rightarrow> int" where
  "subopt_error sr = (if sr = M_OPT_MISSING_PARAM then M_OPT_INVALID else sr)"

lemma subopts_loop_cong [fundef_cong]:
  "\<lbrakk>r = r'; xs = ys; c = c'; \<And>x d. x \<in> set ys \<Longrightarrow> f x d = g x d\<rbrakk> \<Longrightarrow> subopts_loop f r xs c = subopts_loop g r' ys c'"
proof (induction xs arbitrary: ys c c')
  case (Cons x xs)
  note ys = Cons.prems(2) [symmetric]
  have "f x c' = g x c'" using Cons.prems(4) by (simp add: ys)
  moreover have "subopts_loop f r xs d = subopts_loop g r' xs d" for d
    using Cons.prems(1,4) by (intro Cons.IH) (auto simp: ys)
  ultimately show ?case by (simp add: ys Cons.prems(1,3) split: option.split)
qed simp

text \<open>Suboption values are shorter than the text they come from.\<close>

lemma c_bstrdup0_length: "length (c_bstrdup0 s) \<le> length s"
  by (simp add: c_bstrdup0_def length_takeWhile_le)

lemma bstr_splice_length: "length (bstr_splice s a b) \<le> length s"
proof -
  have "length (take n (drop m s)) \<le> length s" for n m by simp
  then show ?thesis unfolding bstr_splice_def Let_def .
qed

lemma subconf_param_value_shorter:
  assumes "subconf_param p = Some (Some v, q)"
  shows "length v < length p"
proof -
  have ne: "p \<noteq> []" using assms by (auto simp: subconf_param_def bstr_startswith_iff split: if_splits)
  have cut: "length (bstr_cut s n) \<le> length s" for s n by (simp add: bstr_cut_def Let_def)
  have tl: "length (bstr_cut p 1) < length p" using ne by simp
  note le = order_trans [OF bstr_splice_length] order_trans [OF cut] order_trans [OF bstrtoll_length] order_refl
  have "length v \<le> length (bstr_cut p 1)"
    using assms unfolding subconf_param_def Let_def case_prod_beta
    by (simp only: split: if_splits) (auto simp del: bstr_cut_nonneg bstr_splice_prefix intro!: le)
  with tl show ?thesis by simp
qed

lemma subconf_step_value_shorter:
  assumes "subconf_step p = Some (n, Some v, q)"
  shows "length v < length p"
proof -
  let ?k = "int (bstrcspn p '':='')"
  obtain w r where w: "subconf_param (bstr_cut p ?k) = Some (Some w, r)" and v: "v = c_bstrdup0 w"
    using assms by (auto simp: subconf_step_def Let_def split: option.splits if_splits)
  have "length v \<le> length w" by (simp add: v c_bstrdup0_length)
  also have "\<dots> < length (bstr_cut p ?k)" by (rule subconf_param_value_shorter [OF w])
  also have "\<dots> \<le> length p" by simp
  finally show ?thesis .
qed

lemma subconf_step_name_length:
  assumes "subconf_step p = Some (n, v, q)"
  shows "length n \<le> length p"
proof -
  have "n = c_bstrdup0 (bstr_splice p 0 (int (bstrcspn p '':='')))"
    using assms by (auto simp: subconf_step_def Let_def split: option.splits if_splits)
  then show ?thesis by (simp only:) (rule order_trans [OF c_bstrdup0_length bstr_splice_length])
qed

lemma parse_subconf_loop_lengths:
  "parse_subconf_loop p = Some l \<Longrightarrow> (n, v) \<in> set l \<Longrightarrow>
   length n \<le> length p \<and> (case v of None \<Rightarrow> True | Some x \<Rightarrow> length x < length p)"
proof (induction p arbitrary: l rule: parse_subconf_loop.induct)
  case (1 p)
  show ?case
  proof (cases "p = []")
    case True
    then show ?thesis using 1 by (simp add: parse_subconf_loop.simps)
  next
    case False
    then obtain m w q where s: "subconf_step p = Some (m, w, q)"
      using 1 by (simp add: parse_subconf_loop.simps [of p] split: option.splits prod.splits)
    then obtain l' where l': "parse_subconf_loop q = Some l'" and l: "l = (m, w) # l'"
      using False 1 by (auto simp: parse_subconf_loop.simps [of p])
    show ?thesis
    proof (cases "(n, v) = (m, w)")
      case True
      then show ?thesis
        using subconf_step_name_length [OF s] subconf_step_value_shorter s by (auto split: option.split)
    next
      case False2: False
      then have "length n \<le> length q \<and> (case v of None \<Rightarrow> True | Some x \<Rightarrow> length x < length q)"
        using 1(1) [OF False s refl refl l'] 1(3) l by auto
      with subconf_step_shorter [OF False s] show ?thesis by (auto split: option.splits)
    qed
  qed
qed

text \<open>
  A suboption of a text is set with a parameter shorter than the text: \<open>no\<close> replaces the
  missing parameter only of names that begin with \<open>no-\<close>.
\<close>

lemma resolve_subopt_shorter:
  assumes "parse_subconf param = Inr l" and "(n, v) \<in> set l" and "resolve_subopt c pre n v = Some (Some (n', v'))"
  shows "blen v' < blen param"
proof -
  have p: "blen param \<noteq> 0" "parse_subconf_loop (bget param) = Some l"
    using assms(1) by (auto simp: parse_subconf_def split: if_splits option.splits)
  have len: "length (bget param) = blen param" by (cases param) (simp_all add: bget_def blen_def)
  from parse_subconf_loop_lengths [OF p(2) assms(2)]
  have n: "length n \<le> blen param" and v: "\<And>x. v = Some x \<Longrightarrow> length x < blen param"
    by (auto simp: len)
  from assms(3) consider "v' = v" | "take 3 n = ''no-''" "v' = Some ''no''"
    by (auto simp: resolve_subopt_def split: if_splits option.splits)
  then show ?thesis
  proof cases
    case 1
    then show ?thesis using v p(1) by (cases v) (simp_all add: blen_def)
  next
    case 2
    have "3 \<le> length n" using arg_cong [OF 2(1), of length] by (simp add: min_def split: if_splits)
    with 2 n show ?thesis by (simp add: blen_def)
  qed
qed

text \<open>
  \<open>m_config_parse_option\<close> and \<open>parse_subopts\<close>, over the function that applies a profile and
  the function that reads an included file.
\<close>

definition set_allowed :: "m_config \<Rightarrow> m_config_option \<Rightarrow> bool" where
  "set_allowed c co =
     (\<not> (cf_mode c = M_COMMAND_LINE_PRE_PARSE \<and> \<not> o_pre_parse (co_opt co) \<or>
         cf_mode c \<noteq> M_COMMAND_LINE_PRE_PARSE \<and> o_pre_parse (co_opt co) \<and> co_set co))"

definition forbidden_in_mode :: "m_config \<Rightarrow> m_config_option \<Rightarrow> bool" where
  "forbidden_in_mode c co =
     (cf_mode c = M_CONFIG_FILE \<and> o_nocfg (co_opt co) \<or> cf_mode c = M_COMMAND_LINE \<and> o_nocmd (co_opt co))"

function m_config_parse_option ::
  "profile_fun \<Rightarrow> include_fun \<Rightarrow> bstr \<Rightarrow> bstr option \<Rightarrow> bool \<Rightarrow> bool \<Rightarrow> m_config \<Rightarrow> (int \<times> m_config) option"
and parse_subopts ::
  "profile_fun \<Rightarrow> include_fun \<Rightarrow> string \<Rightarrow> bstr option \<Rightarrow> bool \<Rightarrow> m_config \<Rightarrow> (int \<times> m_config) option"
where
  "m_config_parse_option set_profile includefunc name param ambiguous_param do_set c =
     (case m_config_get_co c name of
        None \<Rightarrow> Some (M_OPT_UNKNOWN, c)
      | Some co \<Rightarrow>
          (if co_disabled co \<noteq> None then Some (M_OPT_UNKNOWN, c)
           else if forbidden_in_mode c co then Some (M_OPT_INVALID, c)
           else let do_set = (do_set \<and> set_allowed c co)
                in if cf_include c \<and> bstrcmp name ''include'' = 0 then parse_include includefunc param do_set c
                   else if bstrcmp name ''profile'' = 0 then parse_profile set_profile (co_opt co) name param do_set c
                   else if type_has_child (o_type (co_opt co))
                   then (if 100 \<le> length (co_name co) then None
                         else parse_subopts set_profile includefunc (co_name co @ '':'') param do_set c)
                   else Some (parse_leaf co name param ambiguous_param do_set c)))"
| "parse_subopts set_profile includefunc pre param do_set c =
     (case parse_subconf param of
        Inl r \<Rightarrow> Some (r, c)
      | Inr lst \<Rightarrow>
          subopts_loop
            (\<lambda>(n, v) c. case resolve_subopt c pre n v of
                          None \<Rightarrow> None
                        | Some None \<Rightarrow> Some (M_OPT_INVALID, c)
                        | Some (Some (n, v)) \<Rightarrow>
                            map_option (apfst subopt_error) (m_config_parse_option set_profile includefunc n v False do_set c))
            1 lst c)"
  by pat_completeness auto
termination
  by (relation "measure (case_sum (\<lambda>(_, _, _, p, _). 2 * blen p + 1) (\<lambda>(_, _, _, p, _). 2 * blen p))")
     (auto dest: resolve_subopt_shorter)

declare m_config_parse_option.simps [simp del] parse_subopts.simps [simp del]

text \<open>
  Applying a profile. Profiles include profiles through the option \<open>profile\<close>; the first
  argument bounds the nesting of the model and \<open>profile_levels\<close> is enough for it (see
  \<open>profile_levels_enough\<close>), because the code stops at \<open>MAX_PROFILE_DEPTH\<close>. The options
  applied are those the profile has at the start.
\<close>

fun apply_options ::
  "(bstr \<Rightarrow> bstr option \<Rightarrow> m_config \<Rightarrow> (int \<times> m_config) option) \<Rightarrow> (string \<times> string) list \<Rightarrow> m_config \<Rightarrow> m_config option"
where
  "apply_options f [] c = Some c"
| "apply_options f ((n, v) # xs) c =
     (case f n (Some v) c of None \<Rightarrow> None | Some (_, c) \<Rightarrow> apply_options f xs c)"

primrec set_profile_lv :: "nat \<Rightarrow> include_fun \<Rightarrow> m_profile \<Rightarrow> m_config \<Rightarrow> m_config option" where
  "set_profile_lv 0 includefunc p c = None"
| "set_profile_lv (Suc n) includefunc p c =
     (if MAX_PROFILE_DEPTH < cf_depth c then Some c
      else map_option (\<lambda>d. d\<lparr>cf_depth := cf_depth d - 1, cf_mode := cf_mode c\<rparr>)
             (apply_options
                (\<lambda>name param d. m_config_parse_option (set_profile_lv n includefunc) includefunc name param False True d)
                (pr_opts p) (c\<lparr>cf_mode := M_CONFIG_FILE, cf_depth := cf_depth c + 1\<rparr>)))"

definition profile_levels :: nat where "profile_levels = MAX_PROFILE_DEPTH + 2"

definition m_config_set_profile :: "include_fun \<Rightarrow> m_profile \<Rightarrow> m_config \<Rightarrow> m_config option" where
  "m_config_set_profile includefunc = set_profile_lv profile_levels includefunc"

definition m_config_set_option ::
  "include_fun \<Rightarrow> bstr \<Rightarrow> bstr option \<Rightarrow> bool \<Rightarrow> m_config \<Rightarrow> (int \<times> m_config) option"
where
  "m_config_set_option includefunc name param ambiguous_param c =
     m_config_parse_option (m_config_set_profile includefunc) includefunc name param ambiguous_param True c"

definition m_config_check_option ::
  "include_fun \<Rightarrow> bstr \<Rightarrow> bstr option \<Rightarrow> bool \<Rightarrow> m_config \<Rightarrow> (int \<times> m_config) option"
where
  "m_config_check_option includefunc name param ambiguous_param c =
     map_option (apfst subopt_error)
       (m_config_parse_option (m_config_set_profile includefunc) includefunc name param ambiguous_param False c)"

definition m_config_parse_suboptions :: "include_fun \<Rightarrow> string option \<Rightarrow> m_config \<Rightarrow> (int \<times> m_config) option" where
  "m_config_parse_suboptions includefunc subopts c =
     (if blen subopts = 0 then Some (0, c)
      else parse_subopts (m_config_set_profile includefunc) includefunc [] subopts True c)"

definition m_config_set_profile_option :: "include_fun \<Rightarrow> string \<Rightarrow> string \<Rightarrow> string \<Rightarrow> m_config \<Rightarrow> (int \<times> m_config) option" where
  "m_config_set_profile_option includefunc p name val c =
     (case m_config_check_option includefunc name (Some val) False c of
        None \<Rightarrow> None
      | Some (i, c) \<Rightarrow>
          (if i < 0 then Some (i, c)
           else Some (1, update_profile p (\<lambda>q. q\<lparr>pr_opts := pr_opts q @ [(name, val)]\<rparr>) c)))"

subsection \<open>Showing a profile\<close>

text \<open>
  The lines \<open>show_profile\<close> writes; \<open>None\<close> is running out of fuel. The loop over the
  profiles of a \<open>profile\<close> option does not advance past an empty name.
\<close>

fun show_profile :: "nat \<Rightarrow> m_config \<Rightarrow> string \<Rightarrow> (int \<times> string list) option"
and show_options :: "nat \<Rightarrow> m_config \<Rightarrow> (string \<times> string) list \<Rightarrow> string list option"
and show_included :: "nat \<Rightarrow> m_config \<Rightarrow> string \<Rightarrow> string list option"
where
  "show_profile 0 c param = None"
| "show_profile (Suc n) c param =
     (case m_config_get_profile c param of
        None \<Rightarrow> Some (M_OPT_EXIT - 1, [''Unknown profile '' @ param])
      | Some p \<Rightarrow>
          map_option
            (\<lambda>ls. (M_OPT_EXIT - 1,
               (if cf_depth c = 0 then [''Profile '' @ param @ '': '' @ (case pr_desc p of None \<Rightarrow> [] | Some d \<Rightarrow> d)] else [])
               @ ls @ (if cf_depth c = 0 then [[]] else [])))
            (show_options n (c\<lparr>cf_depth := cf_depth c + 1\<rparr>) (pr_opts p)))"
| "show_options 0 c os = None"
| "show_options (Suc n) c [] = Some []"
| "show_options (Suc n) c ((o1, v) # os) =
     (case (if cf_depth c < MAX_PROFILE_DEPTH \<and> o1 = ''profile'' then show_included n c v else Some []) of
        None \<Rightarrow> None
      | Some ls \<Rightarrow>
          map_option (\<lambda>rest. (replicate (cf_depth c) CHR '' '' @ o1 @ ''='' @ v) # ls @ rest) (show_options n c os))"
| "show_included 0 c list = None"
| "show_included (Suc n) c list =
     (if CHR '','' \<in> set list
      then let l = first_index (\<lambda>x. x = CHR '','') list
           in if l = 0 then show_included n c list
              else case show_profile n c (take l list) of
                  None \<Rightarrow> None
                | Some (_, ls) \<Rightarrow> map_option ((@) ls) (show_included n c (drop (l + 1) list))
      else if list \<noteq> [] then map_option snd (show_profile n c list)
      else Some [])"

end
