(* ===== verification/Config_Stack.thy ===== *)
theory Config_Stack
  imports M_Config
begin

text \<open>
  Properties of the configuration's stack of levels: what setting an option leaves alone
  (the locale \<open>config_change\<close>), stores with a stack of saved values (the locale
  \<open>scoped_store\<close>), and the configuration as such a store.
\<close>

subsection \<open>What setting an option leaves alone\<close>

text \<open>
  A relation between configurations that every elementary change keeps: storing a value and
  setting an option's flag. Then setting an option with all its suboptions and profiles
  keeps it, whatever applying a profile and reading an included file do that keeps it.
\<close>

locale config_change =
  fixes R :: "m_config \<Rightarrow> m_config \<Rightarrow> bool"
  assumes refl: "R c c"
    and trans: "R c d \<Longrightarrow> R d e \<Longrightarrow> R c e"
    and store: "R c (c\<lparr>cf_mem := m\<rparr>)"
    and mark: "R c (c\<lparr>cf_opts := mark_set n (cf_opts c)\<rparr>)"
    and nested: "R (c\<lparr>cf_mode := M_CONFIG_FILE, cf_depth := cf_depth c + 1\<rparr>) d \<Longrightarrow>
      R c (d\<lparr>cf_depth := cf_depth d - 1, cf_mode := cf_mode c\<rparr>)"
begin

lemma leaf: "parse_leaf co name param amb st c = (r, c') \<Longrightarrow> R c c'"
  using refl store mark trans [OF store mark]
  by (auto simp: parse_leaf_def Let_def split: prod.splits option.splits if_splits)

lemma parse_profile_loop:
  assumes sp: "\<And>p c d. set_profile p c = Some d \<Longrightarrow> R c d"
  shows "parse_profile_loop set_profile st ns r c = Some (r', d) \<Longrightarrow> R c d"
proof (induction ns arbitrary: r c)
  case (Cons n ns)
  then show ?case by (auto split: option.splits if_splits dest: sp intro: trans)
qed (simp add: refl)

lemma parse_profile:
  assumes sp: "\<And>p c d. set_profile p c = Some d \<Longrightarrow> R c d"
  shows "parse_profile set_profile opt name param st c = Some (r, d) \<Longrightarrow> R c d"
proof -
  assume a: "parse_profile set_profile opt name param st c = Some (r, d)"
  consider "c = d" | ns q where "parse_profile_loop set_profile st ns q c = Some (r, d)"
    using a unfolding parse_profile_def Let_def case_prod_beta
    by (auto simp del: parse_profile_loop.simps split: if_splits option.splits opt_val.splits list.splits)
  then show ?thesis
  proof cases
    case 2
    then show ?thesis by (rule parse_profile_loop [rotated]) (rule sp)
  qed (simp add: refl)
qed

lemma subopts_loop:
  assumes "\<And>x c r d. x \<in> set xs \<Longrightarrow> f x c = Some (r, d) \<Longrightarrow> R c d"
  shows "subopts_loop f r xs c = Some (r', d) \<Longrightarrow> R c d"
  using assms
proof (induction xs arbitrary: c)
  case (Cons x xs)
  obtain sr e where e: "f x c = Some (sr, e)" and d: "if sr < 0 then e = d else subopts_loop f r xs e = Some (r', d)"
    using Cons.prems(1) by (auto split: option.splits if_splits)
  have "R c e" by (rule Cons.prems(2) [OF _ e]) simp
  moreover have "R e d"
  proof (cases "sr < 0")
    case True
    with d show ?thesis by (simp add: refl)
  next
    case False
    with d have t: "subopts_loop f r xs e = Some (r', d)" by simp
    show ?thesis by (rule Cons.IH [OF t]) (rule Cons.prems(2), auto)
  qed
  ultimately show ?case by (rule trans)
qed (simp add: refl)

lemma parse_option:
  assumes sp: "\<And>p c d. set_profile p c = Some d \<Longrightarrow> R c d" and inc: "\<And>f c d. inc f c = Some d \<Longrightarrow> R c d"
  shows "m_config_parse_option set_profile inc name param amb st c = Some (r, d) \<Longrightarrow> R c d"
    and "parse_subopts set_profile inc pre param st c = Some (r, d) \<Longrightarrow> R c d"
  using sp inc
proof (induction set_profile inc name param amb st c and set_profile inc pre param st c
    arbitrary: r d and r d rule: m_config_parse_option_parse_subopts.induct)
  case (1 set_profile inc name param amb st c)
  show ?case
  proof (cases "m_config_get_co c name")
    case None
    then show ?thesis using 1(2) refl by (simp add: m_config_parse_option.simps)
  next
    case (Some co)
    note prem = 1(2) [unfolded m_config_parse_option.simps [of set_profile inc name] Some Let_def, simplified]
    consider "c = d" | st' where "parse_include inc param st' c = Some (r, d)"
      | st' where "parse_profile set_profile (co_opt co) name param st' c = Some (r, d)"
      | "co_disabled co = None" "\<not> forbidden_in_mode c co" "\<not> (cf_include c \<and> bstrcmp name ''include'' = 0)"
        "bstrcmp name ''profile'' \<noteq> 0" "type_has_child (o_type (co_opt co))" "\<not> 100 \<le> length (co_name co)"
        "parse_subopts set_profile inc (co_name co @ '':'') param (st \<and> set_allowed c co) c = Some (r, d)"
      | st' where "parse_leaf co name param amb st' c = (r, d)"
      using prem by (auto split: if_splits)
    then show ?thesis
    proof cases
      case 2
      then show ?thesis using refl 1(4) by (auto simp: parse_include_def split: if_splits)
    next
      case 3
      then show ?thesis by (rule parse_profile [rotated]) (rule 1(3))
    next
      case 4
      then show ?thesis using 1(1) [OF Some _ _ HOL.refl] 1(3,4) by auto
    next
      case 5
      then show ?thesis by (rule leaf)
    qed (simp add: refl)
  qed
next
  case (2 set_profile inc pre param st c)
  show ?case
  proof (cases "parse_subconf param")
    case (Inl q)
    then show ?thesis using 2(2) refl by (simp add: parse_subopts.simps)
  next
    case (Inr lst)
    have step: "R e d'"
      if "(n, v) \<in> set lst" and r: "resolve_subopt e pre n v = Some (Some (n', v'))"
        and p: "m_config_parse_option set_profile inc n' v' False st e = Some (q, d')" for n v e n' v' q d'
      by (rule 2(1) [OF Inr that(1) HOL.refl r HOL.refl HOL.refl p 2(3,4)])
    define f where "f = (\<lambda>(n, v) c. case resolve_subopt c pre n v of
                          None \<Rightarrow> None
                        | Some None \<Rightarrow> Some (M_OPT_INVALID, c)
                        | Some (Some (n, v)) \<Rightarrow>
                            map_option (apfst subopt_error) (m_config_parse_option set_profile inc n v False st c))"
    have run: "subopts_loop f 1 lst c = Some (r, d)"
      using 2(2) Inr by (simp add: parse_subopts.simps f_def)
    have "R e d'" if x: "x \<in> set lst" and fx: "f x e = Some (q, d')" for x e q d'
    proof -
      obtain n v where nv: "x = (n, v)" by (cases x)
      consider "d' = e" | n' v' q' where "resolve_subopt e pre n v = Some (Some (n', v'))"
          "m_config_parse_option set_profile inc n' v' False st e = Some (q', d')"
        using fx by (auto simp: f_def nv split: option.splits)
      then show ?thesis
      proof cases
        case 2
        then show ?thesis using step x nv by blast
      qed (simp add: refl)
    qed
    then show ?thesis by (rule subopts_loop [OF _ run])
  qed
qed

lemma apply_options:
  assumes "\<And>n v c r d. f n v c = Some (r, d) \<Longrightarrow> R c d"
  shows "apply_options f xs c = Some d \<Longrightarrow> R c d"
proof (induction xs arbitrary: c)
  case (Cons x xs)
  obtain n v where x: "x = (n, v)" by (cases x)
  then obtain r e where "f n (Some v) c = Some (r, e)" "apply_options f xs e = Some d"
    using Cons.prems by (auto split: option.splits)
  then show ?case using assms Cons.IH trans by blast
qed (simp add: refl)

lemma set_profile:
  assumes inc: "\<And>f c d. inc f c = Some d \<Longrightarrow> R c d"
  shows "set_profile_lv n inc p c = Some d \<Longrightarrow> R c d"
proof (induction n arbitrary: p c d)
  case (Suc n)
  show ?case
  proof (cases "MAX_PROFILE_DEPTH < cf_depth c")
    case True
    with Suc.prems show ?thesis by (simp add: refl)
  next
    case False
    then obtain e where e: "apply_options
                (\<lambda>name param d. m_config_parse_option (set_profile_lv n inc) inc name param False True d)
                (pr_opts p) (c\<lparr>cf_mode := M_CONFIG_FILE, cf_depth := cf_depth c + 1\<rparr>) = Some e"
      and d: "d = e\<lparr>cf_depth := cf_depth e - 1, cf_mode := cf_mode c\<rparr>"
      using Suc.prems by auto
    have "R (c\<lparr>cf_mode := M_CONFIG_FILE, cf_depth := cf_depth c + 1\<rparr>) e"
      by (rule apply_options [OF _ e]) (rule parse_option(1) [OF Suc.IH inc])
    then show ?thesis unfolding d by (rule nested)
  qed
qed simp

lemma set_option:
  assumes "\<And>f c d. inc f c = Some d \<Longrightarrow> R c d"
  shows "m_config_set_option inc name param amb c = Some (r, d) \<Longrightarrow> R c d"
  unfolding m_config_set_option_def m_config_set_profile_def
  by (rule parse_option(1) [OF set_profile [OF assms] assms])

end

text \<open>Everything but the variables, the set flags and the profiles.\<close>

definition unset :: "m_config_option \<Rightarrow> m_config_option" where
  "unset co = co\<lparr>co_set := False\<rparr>"

definition same_frame :: "m_config \<Rightarrow> m_config \<Rightarrow> bool" where
  "same_frame c d =
     (map unset (cf_opts d) = map unset (cf_opts c) \<and> cf_lvl d = cf_lvl c \<and> cf_mode d = cf_mode c \<and>
      cf_depth d = cf_depth c \<and> cf_include d = cf_include c \<and> cf_full d = cf_full c)"

text \<open>The profiles as well.\<close>

definition same_static :: "m_config \<Rightarrow> m_config \<Rightarrow> bool" where
  "same_static c d = (same_frame c d \<and> cf_profiles d = cf_profiles c)"

lemma mark_set_unset [simp]: "map unset (mark_set n cos) = map unset cos"
  by (induction cos) (auto simp: unset_def)

interpretation frame: config_change same_frame
  by unfold_locales (auto simp: same_frame_def)

interpretation static: config_change same_static
  by unfold_locales (auto simp: same_static_def same_frame_def)

subsection \<open>The stack of levels\<close>

text \<open>
  A store with a stack of saved values: what is pushed is what is restored, provided the
  operations between leave the stack alone.
\<close>

datatype 'a scope_op = Sc_push | Sc_pop | Sc_set 'a

fun run_scope :: "('s \<Rightarrow> 's option) \<Rightarrow> ('s \<Rightarrow> 's option) \<Rightarrow> ('a \<Rightarrow> 's \<Rightarrow> 's option) \<Rightarrow> 'a scope_op list \<Rightarrow> 's \<Rightarrow> 's option" where
  "run_scope push pop upd [] s = Some s"
| "run_scope push pop upd (x # xs) s =
     (case (case x of Sc_push \<Rightarrow> push s | Sc_pop \<Rightarrow> pop s | Sc_set a \<Rightarrow> upd a s) of
        None \<Rightarrow> None
      | Some s' \<Rightarrow> run_scope push pop upd xs s')"

text \<open>Every pop of the operations has its push among them, and every push its pop.\<close>

fun balanced :: "nat \<Rightarrow> 'a scope_op list \<Rightarrow> bool" where
  "balanced n [] = (n = 0)"
| "balanced n (Sc_push # xs) = balanced (Suc n) xs"
| "balanced n (Sc_pop # xs) = (0 < n \<and> balanced (n - 1) xs)"
| "balanced n (Sc_set a # xs) = balanced n xs"

locale scoped_store =
  fixes inv :: "'s \<Rightarrow> bool" and cur :: "'s \<Rightarrow> 'v" and saved :: "'s \<Rightarrow> 'v list"
    and push :: "'s \<Rightarrow> 's option" and pop :: "'s \<Rightarrow> 's option" and upd :: "'a \<Rightarrow> 's \<Rightarrow> 's option"
  assumes push: "inv s \<Longrightarrow> \<exists>t. push s = Some t \<and> inv t \<and> cur t = cur s \<and> saved t = cur s # saved s"
    and pop: "inv s \<Longrightarrow> saved s = v # vs \<Longrightarrow> \<exists>t. pop s = Some t \<and> inv t \<and> cur t = v \<and> saved t = vs"
    and upd: "inv s \<Longrightarrow> upd a s = Some t \<Longrightarrow> inv t \<and> saved t = saved s"
begin

lemma run_balanced:
  "balanced n xs \<Longrightarrow> inv s \<Longrightarrow> saved s = us @ vs \<Longrightarrow> length us = n \<Longrightarrow> run_scope push pop upd xs s = Some t \<Longrightarrow>
   inv t \<and> saved t = vs"
proof (induction n xs arbitrary: s us rule: balanced.induct)
  case (2 n xs)
  obtain s' where s': "push s = Some s'" "inv s'" "saved s' = cur s # saved s" using push [OF 2(3)] by auto
  show ?case by (rule 2(1) [of s' "cur s # us"]) (use 2 s' in auto)
next
  case (3 n xs)
  then obtain u us' where us: "us = u # us'" by (cases us) auto
  then obtain s' where s': "pop s = Some s'" "inv s'" "saved s' = us' @ vs" using pop [OF 3(3)] 3(4) by auto
  show ?case by (rule 3(1) [of s' us']) (use 3 s' us in auto)
next
  case (4 n a xs)
  then obtain s' where s': "upd a s = Some s'" by (auto split: option.splits)
  show ?case by (rule 4(1) [of s' us]) (use 4 s' upd [OF 4(3) s'] in auto)
qed auto

lemma run_append:
  "run_scope push pop upd (xs @ ys) s =
     (case run_scope push pop upd xs s of None \<Rightarrow> None | Some t \<Rightarrow> run_scope push pop upd ys t)"
  by (induction xs arbitrary: s) (auto split: option.splits)

lemma balanced_restores:
  assumes "inv s" and "balanced 0 xs" and "run_scope push pop upd (Sc_push # xs @ [Sc_pop]) s = Some t"
  shows "inv t \<and> cur t = cur s \<and> saved t = saved s"
proof -
  obtain s1 where s1: "push s = Some s1" "inv s1" "saved s1 = cur s # saved s" using push [OF assms(1)] by auto
  then obtain s2 where s2: "run_scope push pop upd xs s1 = Some s2" and t: "pop s2 = Some t"
    using assms(3) by (auto simp: run_append split: option.splits)
  have "inv s2 \<and> saved s2 = cur s # saved s"
    by (rule run_balanced [OF assms(2) s1(2) _ _ s2, of "[]"]) (simp_all add: s1)
  then show ?thesis using pop [of s2] t by auto
qed

lemma push_then_pop: "inv s \<Longrightarrow> \<exists>t u. push s = Some t \<and> pop t = Some u \<and> cur u = cur s \<and> saved u = saved s"
  using push [of s] pop by blast

end

subsection \<open>Push and pop\<close>

text \<open>
  The local variables: those of options that are saved. A configuration whose options were
  all registered on the first level has a slot for each level.
\<close>

definition local_opt :: "m_config_option \<Rightarrow> bool" where
  "local_opt co = (\<not> co_skipped co \<and> type_has_copy (o_type (co_opt co)) \<and> o_addr (co_opt co) \<noteq> None)"

definition local_opts :: "m_config \<Rightarrow> m_config_option list" where
  "local_opts c = filter local_opt (cf_opts c)"

definition local_addr :: "m_config_option \<Rightarrow> opt_addr" where
  "local_addr co = the (o_addr (co_opt co))"

definition levels_down :: "nat \<Rightarrow> int list" where
  "levels_down n = rev (map int [0..<Suc n])"

definition slots_ok :: "nat \<Rightarrow> m_config_option \<Rightarrow> bool" where
  "slots_ok n co =
     ((\<not> co_skipped co \<longrightarrow> map sl_lvl (co_slots co) = levels_down n) \<and>
      (local_opt co \<longrightarrow> (\<forall>s\<in>set (co_slots co). sl_data s \<noteq> None)))"

definition config_ok :: "m_config \<Rightarrow> bool" where
  "config_ok c =
     (1 \<le> cf_lvl c \<and> (\<forall>co\<in>set (cf_opts c). slots_ok (nat (cf_lvl c)) co) \<and> distinct (map local_addr (local_opts c)))"

definition local_values :: "m_config \<Rightarrow> opt_val option list" where
  "local_values c = map (\<lambda>co. Some (cf_mem c (local_addr co))) (local_opts c)"

definition saved_values :: "m_config \<Rightarrow> opt_val option list list" where
  "saved_values c = map (\<lambda>k. map (\<lambda>co. sl_data (co_slots co ! k)) (local_opts c)) [1..<nat (cf_lvl c)]"

lemma levels_down_Suc: "levels_down (Suc n) = int (Suc n) # levels_down n"
  by (simp add: levels_down_def)

lemma slots_cases:
  assumes "slots_ok n co" and "\<not> co_skipped co"
  obtains s ss where "co_slots co = s # ss" "sl_lvl s = int n" "n \<noteq> 0 \<Longrightarrow> map sl_lvl ss = levels_down (n - 1)"
proof -
  have m: "map sl_lvl (co_slots co) = levels_down n" using assms by (simp add: slots_ok_def)
  then have "co_slots co \<noteq> []" by (auto simp: levels_down_def)
  then obtain s ss where "co_slots co = s # ss" by (cases "co_slots co") auto
  with m that show ?thesis by (cases n) (auto simp: levels_down_Suc, auto simp: levels_down_def)
qed

definition pushed :: "int \<Rightarrow> (opt_addr \<Rightarrow> opt_val) \<Rightarrow> m_config_option \<Rightarrow> m_config_option" where
  "pushed lvl mem co = (case push_option lvl mem co of None \<Rightarrow> co | Some co' \<Rightarrow> co')"

lemma push_options_map:
  "\<forall>co\<in>set cos. slots_ok n co \<Longrightarrow> push_options lvl mem cos = Some (map (pushed lvl mem) cos)"
proof (induction cos)
  case (Cons co cos)
  then have "push_option lvl mem co \<noteq> None"
    by (cases "co_skipped co") (auto simp: push_option_def Let_def elim: slots_cases)
  with Cons show ?case by (auto simp: pushed_def)
qed simp

lemma pushed_static [simp]:
  "co_opt (pushed lvl mem co) = co_opt co" "co_skipped (pushed lvl mem co) = co_skipped co"
  "local_opt (pushed lvl mem co) = local_opt co" "local_addr (pushed lvl mem co) = local_addr co"
  by (auto simp: pushed_def push_option_def co_skipped_def local_opt_def local_addr_def Let_def split: list.split)

lemma pushed_slots:
  assumes "local_opt co" and "co_slots co = s # ss"
  shows "co_slots (pushed lvl mem co)
    = \<lparr>sl_lvl = lvl, sl_data = Some (mem (local_addr co))\<rparr> # s\<lparr>sl_data := Some (mem (local_addr co))\<rparr> # ss"
  using assms by (auto simp: pushed_def push_option_def local_opt_def local_addr_def m_option_save_def m_option_copy_def Let_def)

lemma pushed_ok:
  assumes "slots_ok n co"
  shows "slots_ok (Suc n) (pushed (int (Suc n)) mem co)"
proof (cases "co_skipped co")
  case True
  then show ?thesis using assms by (simp add: slots_ok_def pushed_def push_option_def local_opt_def)
next
  case False
  obtain s ss where s: "co_slots co = s # ss" by (rule slots_cases [OF assms False])
  have m: "map sl_lvl (co_slots co) = levels_down n" using assms False by (simp add: slots_ok_def)
  have "map sl_lvl (co_slots (pushed (int (Suc n)) mem co)) = levels_down (Suc n)"
    using m False by (simp add: pushed_def push_option_def s Let_def levels_down_Suc)
  moreover have "\<forall>x\<in>set (co_slots (pushed (int (Suc n)) mem co)). sl_data x \<noteq> None" if "local_opt co"
    using assms that by (simp add: pushed_slots [OF that s] slots_ok_def s)
  ultimately show ?thesis by (simp add: slots_ok_def)
qed

lemma filter_map_pushed: "filter local_opt (map (pushed lvl mem) cos) = map (pushed lvl mem) (filter local_opt cos)"
  by (induction cos) simp_all

lemma upt_1_Suc: "1 \<le> n \<Longrightarrow> [1..<Suc n] = 1 # map Suc [1..<n]"
  by (subst upt_conv_Cons) (simp_all add: map_Suc_upt)

lemma push_spec:
  assumes ok: "config_ok c"
  shows "\<exists>d. m_config_push c = Some d \<and> config_ok d \<and> local_values d = local_values c \<and>
    saved_values d = local_values c # saved_values c"
proof -
  define n where "n = nat (cf_lvl c)"
  have n: "cf_lvl c = int n" "1 \<le> n" using ok by (simp_all add: n_def config_ok_def le_nat_iff)
  have so: "\<forall>co\<in>set (cf_opts c). slots_ok n co" using ok by (simp add: config_ok_def n_def)
  let ?d = "c\<lparr>cf_lvl := int (Suc n), cf_opts := map (pushed (int (Suc n)) (cf_mem c)) (cf_opts c)\<rparr>"
  have p: "m_config_push c = Some ?d"
    using push_options_map [OF so] n by (simp add: m_config_push_def Let_def add.commute)
  have lo: "local_opts ?d = map (pushed (int (Suc n)) (cf_mem c)) (local_opts c)"
    by (simp add: local_opts_def filter_map_pushed)
  have "config_ok ?d" using ok so by (simp add: config_ok_def lo pushed_ok comp_def del: of_nat_Suc)
  moreover have lv: "local_values ?d = local_values c" by (simp add: local_values_def lo comp_def del: of_nat_Suc)
  moreover have sv: "saved_values ?d = local_values c # saved_values c"
  proof -
    have sl: "sl_data (co_slots (pushed (int (Suc n)) (cf_mem c) co) ! 1) = Some (cf_mem c (local_addr co)) \<and>
        (\<forall>k\<ge>1. sl_data (co_slots (pushed (int (Suc n)) (cf_mem c) co) ! Suc k) = sl_data (co_slots co ! k))"
      if "co \<in> set (local_opts c)" for co
    proof -
      have l: "local_opt co" "slots_ok n co" using that so by (simp_all add: local_opts_def)
      then have "\<not> co_skipped co" by (simp add: local_opt_def)
      with l(2) obtain s ss where s: "co_slots co = s # ss" by (elim slots_cases)
      show ?thesis by (auto simp: pushed_slots [OF l(1) s] s nth_Cons' )
    qed
    have "saved_values ?d = map (\<lambda>k. map (\<lambda>co. sl_data (co_slots (pushed (int (Suc n)) (cf_mem c) co) ! k)) (local_opts c)) [1..<Suc n]"
      by (simp add: saved_values_def lo comp_def del: upt_Suc of_nat_Suc)
    also have "\<dots> = map (\<lambda>co. sl_data (co_slots (pushed (int (Suc n)) (cf_mem c) co) ! 1)) (local_opts c) #
        map (\<lambda>k. map (\<lambda>co. sl_data (co_slots (pushed (int (Suc n)) (cf_mem c) co) ! Suc k)) (local_opts c)) [1..<n]"
      by (simp only: upt_1_Suc [OF n(2)] list.map map_map comp_def)
    also have "\<dots> = local_values c # saved_values c"
      using sl by (simp add: saved_values_def local_values_def n_def [symmetric] del: of_nat_Suc)
    finally show ?thesis .
  qed
  ultimately show ?thesis using p by blast
qed

definition popped :: "m_config_option \<Rightarrow> m_config_option" where
  "popped co = (if co_skipped co then co else co\<lparr>co_slots := tl (co_slots co)\<rparr>)"

lemma popped_static [simp]:
  "co_opt (popped co) = co_opt co" "co_skipped (popped co) = co_skipped co"
  "local_opt (popped co) = local_opt co" "local_addr (popped co) = local_addr co"
  by (auto simp: popped_def co_skipped_def local_opt_def local_addr_def)

definition restore :: "m_config_option \<Rightarrow> (opt_addr \<Rightarrow> opt_val) \<Rightarrow> opt_addr \<Rightarrow> opt_val" where
  "restore co mem = (if co_skipped co then mem else m_option_set (co_opt co) (sl_data (co_slots co ! 1)) mem)"

lemma slots_ok_Suc_Suc:
  assumes "slots_ok (Suc n) co" and "\<not> co_skipped co"
  obtains s s' ss where "co_slots co = s # s' # ss" "sl_lvl s = int (Suc n)" "sl_lvl s' = int n"
    "map sl_lvl (s' # ss) = levels_down n"
proof (rule slots_cases [OF assms])
  fix s ss assume s: "co_slots co = s # ss" "sl_lvl s = int (Suc n)" "Suc n \<noteq> 0 \<Longrightarrow> map sl_lvl ss = levels_down (Suc n - 1)"
  then have m: "map sl_lvl ss = levels_down n" by simp
  then obtain s' ss' where ss: "ss = s' # ss'" by (cases ss) (auto simp: levels_down_def)
  with m have "sl_lvl s' = int n" by (cases n) (auto simp: levels_down_Suc, auto simp: levels_down_def)
  with s m ss that show ?thesis by blast
qed

lemma pop_options_spec:
  "\<forall>co\<in>set cos. slots_ok (Suc n) co \<Longrightarrow>
   pop_options (int (Suc n)) cos mem = Some (map popped cos, foldl (\<lambda>m co. restore co m) mem cos)"
proof (induction cos arbitrary: mem)
  case (Cons co cos)
  show ?case
  proof (cases "co_skipped co")
    case True
    with Cons show ?thesis by (simp add: popped_def restore_def)
  next
    case False
    obtain s s' ss where s: "co_slots co = s # s' # ss" "sl_lvl s = int (Suc n)" "sl_lvl s' = int n"
      by (rule slots_ok_Suc_Suc [of n co]) (use Cons.prems False in auto)
    have "dropWhile (\<lambda>s. int (Suc n) \<le> sl_lvl s) (co_slots co) = s' # ss" by (simp add: s)
    with Cons False s(1) show ?thesis by (simp add: popped_def restore_def)
  qed
qed simp

lemma restore_at:
  assumes "local_opt co" and "sl_data (co_slots co ! 1) = Some v"
  shows "restore co mem (local_addr co) = v"
  using assms by (auto simp: restore_def local_opt_def m_option_set_def local_addr_def)

lemma restore_other:
  "(local_opt co \<Longrightarrow> a \<noteq> local_addr co) \<Longrightarrow> restore co mem a = mem a"
  by (auto simp: restore_def local_opt_def m_option_set_def local_addr_def split: option.split)

lemma foldl_restore_other:
  "a \<notin> local_addr ` set (filter local_opt cos) \<Longrightarrow> foldl (\<lambda>m co. restore co m) mem cos a = mem a"
proof (induction cos arbitrary: mem)
  case (Cons x cos)
  have "restore x mem a = mem a" by (rule restore_other) (use Cons.prems in auto)
  moreover have "a \<notin> local_addr ` set (filter local_opt cos)" using Cons.prems by auto
  ultimately show ?case using Cons.IH by simp
qed simp

lemma foldl_restore:
  assumes "distinct (map local_addr (filter local_opt cos))" and "co \<in> set cos" and "local_opt co"
    and "sl_data (co_slots co ! 1) = Some v"
  shows "foldl (\<lambda>m co. restore co m) mem cos (local_addr co) = v"
  using assms(1,2)
proof (induction cos arbitrary: mem)
  case (Cons x cos)
  show ?case
  proof (cases "co \<in> set cos")
    case True
    with Cons show ?thesis by (simp split: if_splits)
  next
    case False
    then have x: "x = co" using Cons.prems(2) by simp
    then have "local_addr co \<notin> local_addr ` set (filter local_opt cos)" using Cons.prems(1) assms(3) by simp
    then have "foldl (\<lambda>m co. restore co m) (restore co mem) cos (local_addr co) = restore co mem (local_addr co)"
      by (rule foldl_restore_other)
    then show ?thesis using restore_at [OF assms(3,4)] x by simp
  qed
qed simp

lemma popped_ok: "slots_ok (Suc n) co \<Longrightarrow> slots_ok n (popped co)"
  by (cases "co_skipped co"; cases "co_slots co")
     (auto simp: slots_ok_def popped_def local_opt_def levels_down_Suc co_skipped_def)

lemma filter_map_popped: "filter local_opt (map popped cos) = map popped (filter local_opt cos)"
  by (induction cos) simp_all

lemma pop_spec:
  assumes ok: "config_ok c" and sv: "saved_values c = v # vs"
  shows "\<exists>d. m_config_pop c = Some d \<and> config_ok d \<and> local_values d = v \<and> saved_values d = vs"
proof -
  have "1 < nat (cf_lvl c)" using sv by (cases "1 < nat (cf_lvl c)") (auto simp: saved_values_def)
  then obtain n where n: "nat (cf_lvl c) = Suc n" "1 \<le> n" by (cases "nat (cf_lvl c)") auto
  then have l: "cf_lvl c = int (Suc n)" by linarith
  have so: "\<forall>co\<in>set (cf_opts c). slots_ok (Suc n) co" using ok n by (simp add: config_ok_def)
  let ?mem = "foldl (\<lambda>m co. restore co m) (cf_mem c) (cf_opts c)"
  let ?d = "c\<lparr>cf_opts := map popped (cf_opts c), cf_mem := ?mem, cf_lvl := int n\<rparr>"
  have p: "m_config_pop c = Some ?d"
    using pop_options_spec [OF so, of "cf_mem c"] n(2) by (simp add: m_config_pop_def l)
  have lo: "local_opts ?d = map popped (local_opts c)" by (simp add: local_opts_def filter_map_popped)
  have okd: "config_ok ?d" using ok so n(2) by (simp add: config_ok_def lo popped_ok comp_def)
  have slot: "\<exists>s s' ss. co_slots co = s # s' # ss \<and> sl_data s' \<noteq> None" if "co \<in> set (local_opts c)" for co
  proof -
    have co: "slots_ok (Suc n) co" "local_opt co" using that so by (simp_all add: local_opts_def)
    then have "\<not> co_skipped co" by (simp add: local_opt_def)
    with co obtain s s' ss where "co_slots co = s # s' # ss" by (elim slots_ok_Suc_Suc)
    with co show ?thesis by (auto simp: slots_ok_def)
  qed
  have "local_values ?d = map (\<lambda>co. sl_data (co_slots co ! 1)) (local_opts c)"
  proof -
    have "Some (?mem (local_addr co)) = sl_data (co_slots co ! 1)" if "co \<in> set (local_opts c)" for co
    proof -
      from slot [OF that] have "\<exists>w. sl_data (co_slots co ! 1) = Some w" by auto
      then obtain w where w: "sl_data (co_slots co ! 1) = Some w" ..
      have "?mem (local_addr co) = w"
        by (rule foldl_restore [OF _ _ _ w]) (use ok that in \<open>simp_all add: config_ok_def local_opts_def\<close>)
      with w show ?thesis by simp
    qed
    then show ?thesis by (simp add: local_values_def lo comp_def)
  qed
  moreover have "saved_values ?d = map (\<lambda>k. map (\<lambda>co. sl_data (co_slots co ! Suc k)) (local_opts c)) [1..<n]"
  proof -
    have "sl_data (co_slots (popped co) ! k) = sl_data (co_slots co ! Suc k)" if "co \<in> set (local_opts c)" for co k
      using slot [OF that] that by (auto simp: popped_def local_opts_def local_opt_def)
    then show ?thesis by (simp add: saved_values_def lo comp_def)
  qed
  moreover have "saved_values c = map (\<lambda>co. sl_data (co_slots co ! 1)) (local_opts c) #
      map (\<lambda>k. map (\<lambda>co. sl_data (co_slots co ! Suc k)) (local_opts c)) [1..<n]"
    by (simp only: saved_values_def n(1) upt_1_Suc [OF n(2)] list.map map_map comp_def)
  ultimately show ?thesis using p okd sv by auto
qed

text \<open>Setting an option keeps the slots and the level.\<close>

lemma unset_static:
  assumes "unset co = unset co'"
  shows "co_skipped co = co_skipped co'" "local_opt co = local_opt co'" "local_addr co = local_addr co'"
    "co_slots co = co_slots co'" "co_opt co = co_opt co'"
proof -
  have "co_opt co = co_opt co'" "co_alias co = co_alias co'" "co_slots co = co_slots co'"
    using arg_cong [OF assms, of co_opt] arg_cong [OF assms, of co_alias] arg_cong [OF assms, of co_slots]
    by (simp_all add: unset_def)
  then show "co_skipped co = co_skipped co'" "local_opt co = local_opt co'" "local_addr co = local_addr co'"
    "co_slots co = co_slots co'" "co_opt co = co_opt co'"
    by (simp_all add: co_skipped_def local_opt_def local_addr_def)
qed

lemma map_unset_local:
  "map unset cos = map unset cos' \<Longrightarrow>
   map unset (filter local_opt cos) = map unset (filter local_opt cos') \<and>
   ((\<forall>co\<in>set cos. slots_ok n co) \<longleftrightarrow> (\<forall>co\<in>set cos'. slots_ok n co))"
proof (induction cos arbitrary: cos')
  case (Cons co cos)
  then obtain co' cs where c: "cos' = co' # cs" "unset co = unset co'" "map unset cos = map unset cs" by auto
  have "slots_ok n co = slots_ok n co'" using unset_static [OF c(2)] by (simp add: slots_ok_def)
  then show ?case using Cons.IH [OF c(3)] c unset_static [OF c(2)] by simp
qed simp

lemma map_via_unset:
  assumes "\<And>x y. unset x = unset y \<Longrightarrow> f x = f y"
  shows "map unset xs = map unset ys \<Longrightarrow> map f xs = map f ys"
proof (induction xs arbitrary: ys)
  case (Cons x xs)
  then obtain y zs where y: "ys = y # zs" "unset x = unset y" "map unset xs = map unset zs" by auto
  show ?case using Cons.IH [OF y(3)] assms [OF y(2)] y(1) by simp
qed simp

lemma frame_spec:
  assumes "same_frame c d" and "config_ok c"
  shows "config_ok d \<and> saved_values d = saved_values c"
proof -
  have f: "map unset (cf_opts d) = map unset (cf_opts c)" using assms(1) by (simp add: same_frame_def)
  note u = map_unset_local [OF f, of "nat (cf_lvl c)"]
  have l: "cf_lvl d = cf_lvl c" using assms(1) by (simp add: same_frame_def)
  have lo: "map unset (local_opts d) = map unset (local_opts c)"
    unfolding local_opts_def by (rule conjunct1 [OF u])
  have "map local_addr (local_opts d) = map local_addr (local_opts c)"
    by (rule map_via_unset [OF _ lo]) (rule unset_static(3))
  moreover have "map (\<lambda>co. sl_data (co_slots co ! k)) (local_opts d) = map (\<lambda>co. sl_data (co_slots co ! k)) (local_opts c)" for k
    by (rule map_via_unset [OF _ lo]) (drule unset_static(4), simp)
  moreover have "\<forall>co\<in>set (cf_opts d). slots_ok (nat (cf_lvl d)) co"
    unfolding l conjunct2 [OF u] using assms(2) by (simp add: config_ok_def)
  ultimately show ?thesis using assms(2) unfolding config_ok_def saved_values_def l by simp
qed


type_synonym option_setting = "bstr \<times> bstr option \<times> bool"

definition set_local :: "include_fun \<Rightarrow> option_setting \<Rightarrow> m_config \<Rightarrow> m_config option" where
  "set_local inc s c = (case s of (name, param, amb) \<Rightarrow> map_option snd (m_config_set_option inc name param amb c))"

text \<open>A run of pushes, pops and settings of options.\<close>

definition run_config :: "include_fun \<Rightarrow> option_setting scope_op list \<Rightarrow> m_config \<Rightarrow> m_config option" where
  "run_config inc = run_scope m_config_push m_config_pop (set_local inc)"

text \<open>
  The configuration is such a store, with files included that neither register options nor
  change the level. \<open>no_include\<close> is the case without an include function.
\<close>

definition no_include :: include_fun where "no_include f c = Some c"

lemma set_local_frame:
  assumes "\<And>f c d. inc f c = Some d \<Longrightarrow> same_frame c d" and "set_local inc s c = Some d"
  shows "same_frame c d"
  using assms(2) by (auto simp: set_local_def split: prod.splits intro: frame.set_option [OF assms(1)])

definition frame_include :: "include_fun \<Rightarrow> include_fun" where
  "frame_include inc f c =
     (case inc f c of None \<Rightarrow> None | Some d \<Rightarrow> if same_frame c d then Some d else None)"

lemma frame_include: "frame_include inc f c = Some d \<Longrightarrow> same_frame c d"
  by (auto simp: frame_include_def split: option.splits if_splits)

interpretation cfg: scoped_store config_ok local_values saved_values m_config_push m_config_pop
  "set_local (frame_include inc)" for inc
proof (unfold_locales, goal_cases)
  case 1 then show ?case by (rule push_spec)
next
  case 2 then show ?case by (rule pop_spec)
next
  case 3
  then show ?case
    by (intro frame_spec [OF set_local_frame [of "frame_include inc"]]) (auto simp: frame_include)
qed

text \<open>
  C2: Whatever options are set between a push and the matching pop, with pushes and pops
  nested in any way, the pop restores the value of every local variable to what it was at
  the push, and the stack of saved values with it. (Files included by the options that are
  set must not register options.)
\<close>

theorem config_scope_restores:
  assumes "\<forall>f c d. inc f c = Some d \<longrightarrow> same_frame c d" and "config_ok c" and "balanced 0 ops"
    and "run_config inc (Sc_push # ops @ [Sc_pop]) c = Some d"
  shows "local_values d = local_values c \<and> saved_values d = saved_values c"
proof -
  have "frame_include inc = inc" using assms(1) by (auto simp: frame_include_def fun_eq_iff split: option.split)
  then show ?thesis using cfg.balanced_restores [OF assms(2,3), of inc d] assms(4) by (simp add: run_config_def)
qed


text \<open>A small configuration for the witnesses.\<close>

definition ex_flag :: opt_info where
  "ex_flag = (int_opt ''loop'' False 0 1)\<lparr>o_type := T_flag, o_addr := Some (New_offset 4)\<rparr>"

definition ex_sub :: opt_info where
  "ex_sub = (int_opt ''tv'' False 0 0)\<lparr>o_type := T_subconfig, o_addr := None\<rparr>"

definition ex_config :: m_config where
  "ex_config = m_config_register_options
     [Opt_def (int_opt ''osdlevel'' True 0 3) [], Opt_def ex_sub [Opt_def ex_flag []]]
     (m_config_new (\<lambda>_. Ov_int 0) False)"

lemma ex_config_ok: "config_ok ex_config"
  by code_simp

lemma config_scope_restores_witness:
  "\<exists>d. run_config no_include
     (Sc_push # [Sc_set (''osdlevel'', Some ''2'', False), Sc_push, Sc_set (''tv'', Some ''loop'', False), Sc_pop] @ [Sc_pop])
     ex_config = Some d \<and> local_values d = local_values ex_config"
proof -
  let ?ops = "[Sc_set (''osdlevel'', Some ''2'', False), Sc_push, Sc_set (''tv'', Some ''loop'', False), Sc_pop]
    :: option_setting scope_op list"
  have "run_config no_include (Sc_push # ?ops @ [Sc_pop]) ex_config \<noteq> None" by code_simp
  then obtain d where d: "run_config no_include (Sc_push # ?ops @ [Sc_pop]) ex_config = Some d" by auto
  have "balanced 0 ?ops" by simp
  from config_scope_restores [OF _ ex_config_ok this d] d show ?thesis
    by (auto simp: no_include_def frame.refl)
qed

end
