(* ===== verification/Config_Check.thy ===== *)
theory Config_Check
  imports Config_Stack
begin

text \<open>
  Properties of setting options: checking against setting, the nesting of profiles, and the
  errors of suboptions and of showing profiles.
\<close>

subsection \<open>Checking an option\<close>

lemma parse_str_list_code: "fst (parse_str_list opt name param dst) = fst (parse_str_list opt name param None)"
  by (auto simp: parse_str_list_def Let_def split: option.splits list_op.splits)

lemma opt_parse_code: "fst (opt_parse opt name param amb dst) = fst (opt_parse opt name param amb None)"
  by (auto simp: opt_parse_def parse_str_list_code [of _ _ _ "Some _"] split: opt_type.split option.split opt_val.split)

lemma parse_leaf_check:
  assumes "parse_leaf co name param amb st c = (r, d)" and "co_opt co' = co_opt co"
  shows "parse_leaf co' name param amb False c' = (r, c')"
  using assms opt_parse_code [of "co_opt co" name param amb "if st then map_option (cf_mem c) (o_addr (co_opt co)) else None"]
  by (auto simp: parse_leaf_def Let_def case_prod_beta split: if_splits)

lemma parse_profile_loop_check:
  assumes "\<And>p c d. set_profile p c = Some d \<Longrightarrow> same_static c d"
  shows "parse_profile_loop set_profile st ns r c = Some (q, d) \<Longrightarrow> same_static c c' \<Longrightarrow>
    parse_profile_loop set_profile False ns r c' = Some (q, c')"
proof (induction ns arbitrary: r c)
  case (Cons n ns)
  have eq: "m_config_get_profile c' n = m_config_get_profile c n"
    using Cons.prems(2) by (simp add: m_config_get_profile_def same_static_def)
  show ?case
  proof (cases "m_config_get_profile c n")
    case None
    with Cons eq show ?thesis by simp
  next
    case (Some p)
    have "\<exists>e. same_static c e \<and> parse_profile_loop set_profile st ns r e = Some (q, d)"
      using Cons.prems(1) Some static.refl [of c] by (auto split: if_splits option.splits intro: assms)
    then obtain e where e: "same_static c e" "parse_profile_loop set_profile st ns r e = Some (q, d)" by auto
    have "same_static e c'" using e(1) Cons.prems(2) by (auto simp: same_static_def same_frame_def)
    from Cons.IH [OF e(2) this] Some eq show ?thesis by simp
  qed
qed simp

lemma parse_profile_check:
  assumes sp: "\<And>p c d. set_profile p c = Some d \<Longrightarrow> same_static c d"
    and p: "parse_profile set_profile opt name param st c = Some (q, d)" and s: "same_static c c'"
  shows "parse_profile set_profile opt name param False c' = Some (q, c')"
proof -
  have l: "parse_profile_loop set_profile False ns r c' = Some (q, c')"
    if "parse_profile_loop set_profile st ns r c = Some (q, d)" for ns r
    by (rule parse_profile_loop_check [OF _ that s]) (rule sp)
  show ?thesis
    using p l unfolding parse_profile_def Let_def case_prod_beta
    by (auto simp del: parse_profile_loop.simps split: if_splits option.splits opt_val.splits list.splits)
qed

lemma find_via_unset:
  assumes "\<And>x y. unset x = unset y \<Longrightarrow> P x = P y"
  shows "map unset xs = map unset ys \<Longrightarrow> map_option unset (find P xs) = map_option unset (find P ys)"
proof (induction xs arbitrary: ys)
  case (Cons x xs)
  then obtain y zs where y: "ys = y # zs" "unset x = unset y" "map unset xs = map unset zs" by auto
  show ?case using Cons.IH [OF y(3)] assms [OF y(2)] y(1,2) by simp
qed simp

lemma unset_eq_iff:
  "unset x = unset y \<longleftrightarrow> co_name x = co_name y \<and> co_disabled x = co_disabled y \<and> co_opt x = co_opt y \<and>
     co_slots x = co_slots y \<and> co_alias x = co_alias y"
  by (cases x; cases y) (auto simp: unset_def)

lemma get_co_static:
  assumes "same_static c d"
  shows "map_option unset (m_config_get_co d name) = map_option unset (m_config_get_co c name)"
  unfolding m_config_get_co_def
  by (rule find_via_unset) (use assms in \<open>auto simp: unset_eq_iff same_static_def same_frame_def\<close>)

lemma get_option_static:
  assumes "same_static c d"
  shows "m_config_get_option d name = m_config_get_option c name"
  using get_co_static [OF assms, of name]
  by (cases "m_config_get_co d name"; cases "m_config_get_co c name") (auto simp: m_config_get_option_def unset_eq_iff)

lemma resolve_static: "same_static c d \<Longrightarrow> resolve_subopt d pre n v = resolve_subopt c pre n v"
  by (simp add: resolve_subopt_def get_option_static)

lemma subopts_loop_check:
  assumes "\<And>x c r d c'. x \<in> set xs \<Longrightarrow> f x c = Some (r, d) \<Longrightarrow> same_static c c' \<Longrightarrow> same_static c d \<and> g x c' = Some (r, c')"
  shows "subopts_loop f r xs c = Some (q, d) \<Longrightarrow> same_static c c' \<Longrightarrow> subopts_loop g r xs c' = Some (q, c')"
  using assms
proof (induction xs arbitrary: c)
  case (Cons x xs)
  obtain sr e where e: "f x c = Some (sr, e)" and d: "if sr < 0 then q = sr else subopts_loop f r xs e = Some (q, d)"
    using Cons.prems(1) by (auto split: option.splits if_splits)
  have g: "same_static c e" "g x c' = Some (sr, c')" using Cons.prems(3) [OF _ e Cons.prems(2)] by auto
  have ec: "same_static e c'" using g(1) Cons.prems(2) by (auto simp: same_static_def same_frame_def)
  show ?case
  proof (cases "sr < 0")
    case False
    then have t: "subopts_loop f r xs e = Some (q, d)" using d by simp
    have "subopts_loop g r xs c' = Some (q, c')"
      by (rule Cons.IH [OF t ec]) (rule Cons.prems(3), auto)
    with g False show ?thesis by simp
  qed (use g d in simp)
qed simp

lemma parse_option_check:
  assumes sp: "\<And>p c d. set_profile p c = Some d \<Longrightarrow> same_static c d" and inc: "\<And>f c d. inc f c = Some d \<Longrightarrow> same_static c d"
  shows "m_config_parse_option set_profile inc name param amb st c = Some (r, d) \<Longrightarrow> same_static c c' \<Longrightarrow>
      m_config_parse_option set_profile inc name param amb False c' = Some (r, c')"
    and "parse_subopts set_profile inc pre param st c = Some (r, d) \<Longrightarrow> same_static c c' \<Longrightarrow>
      parse_subopts set_profile inc pre param False c' = Some (r, c')"
  using sp inc
proof (induction set_profile inc name param amb st c and set_profile inc pre param st c
    arbitrary: r d c' and r d c' rule: m_config_parse_option_parse_subopts.induct)
  case (1 set_profile inc name param amb st c)
  note gc = get_co_static [OF 1(3), of name]
  have same: "cf_mode c' = cf_mode c" "cf_include c' = cf_include c"
    using 1(3) by (simp_all add: same_static_def same_frame_def)
  show ?case
  proof (cases "m_config_get_co c name")
    case None
    with gc 1(2) show ?thesis by (simp add: m_config_parse_option.simps)
  next
    case (Some co)
    with gc obtain co' where co': "m_config_get_co c' name = Some co'" and u: "unset co' = unset co"
      by (cases "m_config_get_co c' name") auto
    then have eq: "co_name co' = co_name co" "co_disabled co' = co_disabled co" "co_opt co' = co_opt co"
      by (simp_all add: unset_eq_iff)
    have fm: "forbidden_in_mode c' co' = forbidden_in_mode c co" by (simp add: forbidden_in_mode_def eq same)
    have prof: "parse_profile set_profile (co_opt co) name param False c' = Some (r, c')"
      if "parse_profile set_profile (co_opt co) name param st' c = Some (r, d)" for st'
      by (rule parse_profile_check [OF 1(4) that 1(3)])
    have sub: "parse_subopts set_profile inc (co_name co @ '':'') param False c' = Some (r, c')"
      if "co_disabled co = None" "\<not> forbidden_in_mode c co" "\<not> (cf_include c \<and> bstrcmp name ''include'' = 0)"
        "bstrcmp name ''profile'' \<noteq> 0" "type_has_child (o_type (co_opt co))" "\<not> 100 \<le> length (co_name co)"
        "parse_subopts set_profile inc (co_name co @ '':'') param (st \<and> set_allowed c co) c = Some (r, d)"
      by (rule 1(1) [OF Some]) (use that 1(3-5) in auto)
    have leaf: "parse_leaf co' name param amb False c' = (r, c')" if "parse_leaf co name param amb st' c = (r, d)" for st'
      by (rule parse_leaf_check [OF that eq(3)])
    show ?thesis
      using 1(2) unfolding m_config_parse_option.simps [of set_profile inc name] Some co' Let_def
      by (auto simp: eq fm same parse_include_def prof leaf sub split: if_splits)
  qed
next
  case (2 set_profile inc pre param st c)
  show ?case
  proof (cases "parse_subconf param")
    case (Inl q)
    then show ?thesis using 2(2) by (simp add: parse_subopts.simps)
  next
    case (Inr lst)
    let ?f = "\<lambda>st. \<lambda>(n, v) c. case resolve_subopt c pre n v of
                          None \<Rightarrow> None
                        | Some None \<Rightarrow> Some (M_OPT_INVALID, c)
                        | Some (Some (n, v)) \<Rightarrow>
                            map_option (apfst subopt_error) (m_config_parse_option set_profile inc n v False st c)"
    have run: "subopts_loop (?f st) 1 lst c = Some (r, d)"
      using 2(2) Inr by (simp add: parse_subopts.simps)
    have "same_static e e' \<and> ?f False x e'' = Some (q, e'')"
      if x: "x \<in> set lst" and fx: "?f st x e = Some (q, e')" and s: "same_static e e''" for x e q e' e''
    proof -
      obtain n v where nv: "x = (n, v)" by (cases x)
      consider "resolve_subopt e pre n v = Some None" "e' = e" "q = M_OPT_INVALID"
        | n' v' q' where "resolve_subopt e pre n v = Some (Some (n', v'))"
          "m_config_parse_option set_profile inc n' v' False st e = Some (q', e')" "q = subopt_error q'"
        using fx by (auto simp: nv split: option.splits)
      then show ?thesis
      proof cases
        case 1
        then show ?thesis by (simp add: nv resolve_static [OF s] static.refl)
      next
        case p: 2
        have "m_config_parse_option set_profile inc n' v' False False e'' = Some (q', e'')"
          by (rule 2(1) [OF Inr _ HOL.refl p(1) HOL.refl HOL.refl p(2) s 2(4,5)]) (use x nv in auto)
        moreover have "same_static e e'"
          by (rule static.parse_option(1) [OF _ _ p(2)]) (rule 2(4,5), assumption?)+
        ultimately show ?thesis by (simp add: nv resolve_static [OF s] p)
      qed
    qed
    then have "subopts_loop (?f False) 1 lst c' = Some (r, c')"
      by (rule subopts_loop_check [OF _ run 2(3)])
    then show ?thesis using Inr by (simp add: parse_subopts.simps)
  qed
qed

text \<open>
  C16: Checking an option says what setting it would: when setting succeeds or fails with a
  code, checking returns the same code, a missing parameter being reported as invalid, and
  changes nothing. (Included files must not register options or define profiles.)
\<close>

theorem check_agrees_with_set:
  assumes "\<forall>f c d. inc f c = Some d \<longrightarrow> same_static c d" and "m_config_set_option inc name param amb c = Some (r, d)"
  shows "m_config_check_option inc name param amb c = Some (if r = M_OPT_MISSING_PARAM then M_OPT_INVALID else r, c)"
proof -
  have inc: "same_static c d" if "inc f c = Some d" for f c d using that assms(1) by blast
  have "m_config_parse_option (m_config_set_profile inc) inc name param amb False c = Some (r, c)"
    by (rule parse_option_check(1) [OF _ inc assms(2) [unfolded m_config_set_option_def] static.refl])
       (auto simp: m_config_set_profile_def intro: static.set_profile [OF inc])
  then show ?thesis by (simp add: m_config_check_option_def subopt_error_def)
qed

lemma check_agrees_with_set_witness:
  "m_config_check_option no_include ''osdlevel'' (Some ''7'') False ex_config = Some (M_OPT_OUT_OF_RANGE, ex_config)"
proof -
  have "map_option fst (m_config_set_option no_include ''osdlevel'' (Some ''7'') False ex_config) = Some M_OPT_OUT_OF_RANGE"
    by code_simp
  then obtain d where "m_config_set_option no_include ''osdlevel'' (Some ''7'') False ex_config = Some (M_OPT_OUT_OF_RANGE, d)"
    by auto
  from check_agrees_with_set [OF _ this] show ?thesis by (simp add: no_include_def static.refl)
qed

subsection \<open>The nesting of profiles\<close>

lemma parse_profile_loop_agree:
  assumes "\<And>p d. cf_depth d = k \<Longrightarrow> sp p d = sp' p d" and "\<And>p d e. sp p d = Some e \<Longrightarrow> cf_depth e = cf_depth d"
  shows "cf_depth c = k \<Longrightarrow> parse_profile_loop sp st ns r c = parse_profile_loop sp' st ns r c"
proof (induction ns arbitrary: r c)
  case (Cons n ns)
  have "parse_profile_loop sp st ns r d = parse_profile_loop sp' st ns r d" if "sp p c = Some d" for p d
    by (rule Cons.IH) (use assms(2) [OF that] Cons.prems in simp)
  then show ?case using Cons assms(1) [OF Cons.prems] by (auto split: option.split)
qed simp

lemma parse_profile_agree:
  assumes "\<And>p d. cf_depth d = k \<Longrightarrow> sp p d = sp' p d" and "\<And>p d e. sp p d = Some e \<Longrightarrow> cf_depth e = cf_depth d"
    and "cf_depth c = k"
  shows "parse_profile sp opt name param st c = parse_profile sp' opt name param st c"
  unfolding parse_profile_def by (simp only: parse_profile_loop_agree [of k sp sp', OF assms])

lemma subopts_loop_agree:
  assumes "\<And>x c. x \<in> set xs \<Longrightarrow> cf_depth c = k \<Longrightarrow> f x c = g x c"
    and "\<And>x c r d. x \<in> set xs \<Longrightarrow> f x c = Some (r, d) \<Longrightarrow> cf_depth d = cf_depth c"
  shows "cf_depth c = k \<Longrightarrow> subopts_loop f r xs c = subopts_loop g r xs c"
  using assms
proof (induction xs arbitrary: c)
  case (Cons x xs)
  have e: "f x c = g x c" using Cons.prems by simp
  show ?case
  proof (cases "f x c")
    case (Some p)
    obtain sr d where p: "p = (sr, d)" by (cases p)
    have "cf_depth d = k" using Cons.prems(1,3) Some p by fastforce
    then have "subopts_loop f r xs d = subopts_loop g r xs d"
      by (rule Cons.IH) (rule Cons.prems(2,3), auto)+
    moreover have "g x c = Some (sr, d)" using e Some p by simp
    ultimately show ?thesis using Some p by simp
  qed (use e in simp)
qed simp

lemma parse_option_agree:
  assumes "\<And>p d. cf_depth d = k \<Longrightarrow> sp p d = sp' p d" and "\<And>p c d. sp p c = Some d \<Longrightarrow> same_frame c d"
    and "\<And>f c d. inc f c = Some d \<Longrightarrow> same_frame c d"
  shows "cf_depth c = k \<Longrightarrow> m_config_parse_option sp inc name param amb st c = m_config_parse_option sp' inc name param amb st c"
    and "cf_depth c = k \<Longrightarrow> parse_subopts sp inc pre param st c = parse_subopts sp' inc pre param st c"
  using assms
proof (induction sp inc name param amb st c and sp inc pre param st c rule: m_config_parse_option_parse_subopts.induct)
  case (1 sp inc name param amb st c)
  have prof: "parse_profile sp opt name param st' c = parse_profile sp' opt name param st' c" for opt st'
    by (rule parse_profile_agree [OF 1(3) _ 1(2)]) (use 1(4) in \<open>auto simp: same_frame_def\<close>)
  show ?case
  proof (cases "m_config_get_co c name")
    case (Some co)
    have sub: "parse_subopts sp inc (co_name co @ '':'') param (st \<and> set_allowed c co) c =
        parse_subopts sp' inc (co_name co @ '':'') param (st \<and> set_allowed c co) c"
      if "co_disabled co = None" "\<not> forbidden_in_mode c co" "\<not> (cf_include c \<and> bstrcmp name ''include'' = 0)"
        "bstrcmp name ''profile'' \<noteq> 0" "type_has_child (o_type (co_opt co))" "\<not> 100 \<le> length (co_name co)"
      by (rule 1(1) [OF Some]) (use that 1(2-5) in auto)
    show ?thesis
      unfolding m_config_parse_option.simps [of sp] m_config_parse_option.simps [of sp'] Some Let_def
      by (simp add: prof sub)
  qed (simp add: m_config_parse_option.simps)
next
  case (2 sp inc pre param st c)
  show ?case
  proof (cases "parse_subconf param")
    case (Inr lst)
    let ?f = "\<lambda>sp. \<lambda>(n, v) c. case resolve_subopt c pre n v of
                          None \<Rightarrow> None
                        | Some None \<Rightarrow> Some (M_OPT_INVALID, c)
                        | Some (Some (n, v)) \<Rightarrow>
                            map_option (apfst subopt_error) (m_config_parse_option sp inc n v False st c)"
    have "?f sp x d = ?f sp' x d" if "x \<in> set lst" "cf_depth d = k" for x d
    proof (cases x)
      case (Pair n v)
      show ?thesis
        using 2(1) [OF Inr _ HOL.refl _ HOL.refl HOL.refl that(2) 2(3-5), of n v] that(1)
        by (auto simp: Pair split: option.split)
    qed
    moreover have "cf_depth e = cf_depth d" if "?f sp x d = Some (q, e)" for x d q e
    proof -
      obtain n v where nv: "x = (n, v)" by (cases x)
      have "same_frame d e"
        using that frame.parse_option(1) [OF 2(4,5)] by (auto simp: nv frame.refl split: option.splits)
      then show ?thesis by (simp add: same_frame_def)
    qed
    ultimately have "subopts_loop (?f sp) 1 lst c = subopts_loop (?f sp') 1 lst c"
      by (intro subopts_loop_agree [where k = k] 2(2)) blast+
    then show ?thesis using Inr by (simp add: parse_subopts.simps)
  qed (simp add: parse_subopts.simps)
qed

lemma apply_options_agree:
  assumes "\<And>n v c. cf_depth c = k \<Longrightarrow> f n v c = g n v c" and "\<And>n v c r d. f n v c = Some (r, d) \<Longrightarrow> cf_depth d = cf_depth c"
  shows "cf_depth c = k \<Longrightarrow> apply_options f xs c = apply_options g xs c"
proof (induction xs arbitrary: c)
  case (Cons x xs)
  obtain n v where x: "x = (n, v)" by (cases x)
  show ?case
  proof (cases "f n (Some v) c")
    case (Some p)
    then have "cf_depth (snd p) = k" using assms(2) [of n "Some v" c "fst p" "snd p"] Cons.prems by simp
    then have "apply_options f xs (snd p) = apply_options g xs (snd p)" by (rule Cons.IH)
    moreover have "g n (Some v) c = Some p" using assms(1) [OF Cons.prems, of n "Some v"] Some by simp
    ultimately show ?thesis using Some by (cases p) (simp add: x)
  next
    case None
    then show ?thesis using assms(1) [OF Cons.prems, of n "Some v"] by (simp add: x)
  qed
qed simp

lemma set_profile_lv_enough:
  assumes "\<And>f c d. inc f c = Some d \<Longrightarrow> same_frame c d"
  shows "MAX_PROFILE_DEPTH + 2 \<le> n + cf_depth c \<Longrightarrow> 0 < n \<Longrightarrow> set_profile_lv n inc p c = set_profile_lv (Suc n) inc p c"
proof (induction n arbitrary: p c)
  case (Suc n)
  show ?case
  proof (cases "MAX_PROFILE_DEPTH < cf_depth c")
    case False
    let ?f = "\<lambda>n name param. m_config_parse_option (set_profile_lv n inc) inc name param False True"
    let ?c = "c\<lparr>cf_mode := M_CONFIG_FILE, cf_depth := cf_depth c + 1\<rparr>"
    have ih: "set_profile_lv n inc q d = set_profile_lv (Suc n) inc q d" if "cf_depth d = cf_depth c + 1" for q d
      by (rule Suc.IH) (use that Suc.prems False in auto)
    have fr: "same_frame d e" if "set_profile_lv n inc q d = Some e" for q d e
      by (rule frame.set_profile [OF assms that])
    have "apply_options (?f n) (pr_opts p) ?c = apply_options (?f (Suc n)) (pr_opts p) ?c"
    proof (rule apply_options_agree [where k = "cf_depth c + 1"])
      show "?f n name v d = ?f (Suc n) name v d" if "cf_depth d = cf_depth c + 1" for name v d
        by (rule parse_option_agree(1) [OF ih fr assms that])
      show "cf_depth e = cf_depth d" if "?f n name v d = Some (r, e)" for name v d r e
        using frame.parse_option(1) [OF fr assms that] by (simp add: same_frame_def)
    qed simp
    then show ?thesis using False by (simp only: set_profile_lv.simps if_False)
  qed simp
qed simp

text \<open>Allowing more nesting than the code does changes nothing.\<close>

theorem profile_levels_enough:
  assumes "\<forall>f c d. inc f c = Some d \<longrightarrow> same_frame c d"
  shows "set_profile_lv (profile_levels + m) inc p c = m_config_set_profile inc p c"
proof (induction m)
  case (Suc m)
  have "set_profile_lv (profile_levels + m) inc p c = set_profile_lv (Suc (profile_levels + m)) inc p c"
    by (rule set_profile_lv_enough) (use assms in \<open>auto simp: profile_levels_def\<close>)
  with Suc show ?case by simp
qed (simp add: m_config_set_profile_def)

lemma profile_levels_enough_witness:
  "set_profile_lv 30 no_include \<lparr>pr_name = ''p'', pr_desc = None, pr_opts = [(''profile'', ''p'')]\<rparr> ex_config =
   m_config_set_profile no_include \<lparr>pr_name = ''p'', pr_desc = None, pr_opts = [(''profile'', ''p'')]\<rparr> ex_config"
  using profile_levels_enough [of no_include 8] by (simp add: no_include_def frame.refl profile_levels_def MAX_PROFILE_DEPTH_def)

subsection \<open>Profiles end\<close>

text \<open>
  The names of options with suboptions and the values in profiles are short enough for the
  buffer in which the full names of suboptions are made.
\<close>

definition profile_short :: "nat \<Rightarrow> m_profile \<Rightarrow> bool" where
  "profile_short b p \<longleftrightarrow> list_all (\<lambda>(_, v). length v \<le> b) (pr_opts p)"

definition names_short :: "nat \<Rightarrow> m_config \<Rightarrow> bool" where
  "names_short b c \<longleftrightarrow>
     list_all (\<lambda>co. type_has_child (o_type (co_opt co)) \<longrightarrow> length (co_name co) + 1 + b \<le> 100) (cf_opts c) \<and>
     list_all (profile_short b) (cf_profiles c)"

lemma names_short_cong:
  assumes "map unset (cf_opts d) = map unset (cf_opts c)" and "cf_profiles d = cf_profiles c"
  shows "names_short b d = names_short b c"
proof -
  let ?P = "\<lambda>co. type_has_child (o_type (co_opt co)) \<longrightarrow> length (co_name co) + 1 + b \<le> 100"
  have "list_all ?P (cf_opts e) = list_all ?P (map unset (cf_opts e))" for e
    by (simp add: list_all_iff unset_def)
  from this [of c] this [of d] show ?thesis unfolding names_short_def assms by simp
qed

lemma names_short_static: "same_static c d \<Longrightarrow> names_short b d = names_short b c"
  by (rule names_short_cong) (simp_all add: same_static_def same_frame_def)

text \<open>A function on the configurations like a given one always returns, and returns one of them.\<close>

definition returning :: "m_config \<Rightarrow> (m_config \<Rightarrow> m_config option) \<Rightarrow> bool" where
  "returning c0 f \<longleftrightarrow> (\<forall>c. same_static c0 c \<longrightarrow> (\<exists>d. f c = Some d \<and> same_static c0 d))"

lemma profile_loop_returns:
  assumes sp: "\<forall>p\<in>set (cf_profiles c0). returning c0 (set_profile p)"
  shows "same_static c0 c \<Longrightarrow> \<exists>r' d. parse_profile_loop set_profile st ns r c = Some (r', d)"
proof (induction ns arbitrary: r c)
  case (Cons n ns)
  show ?case
  proof (cases "m_config_get_profile c n")
    case None
    then show ?thesis using Cons by simp
  next
    case (Some p)
    have "p \<in> set (cf_profiles c)" using Some unfolding m_config_get_profile_def by (metis find_Some_iff nth_mem)
    then have "p \<in> set (cf_profiles c0)" using Cons.prems by (simp add: same_static_def)
    then obtain e where "set_profile p c = Some e" "same_static c0 e" using sp Cons.prems by (auto simp: returning_def)
    then show ?thesis using Some Cons.IH [of c r] Cons.IH [of e r] Cons.prems by (cases st) simp_all
  qed
qed simp

lemma parse_profile_returns:
  assumes "\<forall>p\<in>set (cf_profiles c0). returning c0 (set_profile p)" and "same_static c0 c"
  shows "\<exists>r d. parse_profile set_profile opt name param st c = Some (r, d)"
proof -
  have l: "\<exists>r' d. parse_profile_loop set_profile st ns r c = Some (r', d)" for ns r
    by (rule profile_loop_returns [OF assms])
  show ?thesis
    by (auto simp: parse_profile_def Let_def case_prod_beta l simp del: parse_profile_loop.simps split: option.split opt_val.split list.split)
qed

lemma subopts_loop_returns:
  assumes "\<And>x c. x \<in> set xs \<Longrightarrow> same_static c0 c \<Longrightarrow> \<exists>r d. f x c = Some (r, d) \<and> same_static c0 d"
  shows "same_static c0 c \<Longrightarrow> \<exists>r' d. subopts_loop f r xs c = Some (r', d)"
  using assms
proof (induction xs arbitrary: c)
  case (Cons x xs)
  obtain q e where e: "f x c = Some (q, e)" "same_static c0 e" using Cons.prems(2) [OF list.set_intros(1) Cons.prems(1)] by blast
  have "\<exists>r' d. subopts_loop f r xs e = Some (r', d)" by (rule Cons.IH [OF e(2)]) (use Cons.prems(2) in auto)
  then show ?case using e by simp
qed simp

lemma parse_option_returns:
  assumes sp: "\<forall>p\<in>set (cf_profiles c0). returning c0 (set_profile p)" and spR: "\<forall>p c d. set_profile p c = Some d \<longrightarrow> same_static c d"
    and inc: "\<forall>f c. \<exists>d. inc f c = Some d \<and> same_static c d" and short: "names_short b c0"
  shows "same_static c0 c \<Longrightarrow> blen param \<le> b \<Longrightarrow> \<exists>r d. m_config_parse_option set_profile inc name param amb st c = Some (r, d)"
    and "same_static c0 c \<Longrightarrow> blen param \<le> b \<Longrightarrow> length pre + b \<le> 100 \<Longrightarrow> \<exists>r d. parse_subopts set_profile inc pre param st c = Some (r, d)"
  using sp spR inc
proof (induction set_profile inc name param amb st c and set_profile inc pre param st c rule: m_config_parse_option_parse_subopts.induct)
  case (1 set_profile inc name param amb st c)
  show ?case
  proof (cases "m_config_get_co c name")
    case None
    then show ?thesis by (simp add: m_config_parse_option.simps)
  next
    case (Some co)
    have ns: "names_short b c" using names_short_static [OF 1(2)] short by simp
    have co: "co \<in> set (cf_opts c)" using Some unfolding m_config_get_co_def by (metis find_Some_iff nth_mem)
    then have l: "type_has_child (o_type (co_opt co)) \<Longrightarrow> length (co_name co) + 1 + b \<le> 100" using ns by (auto simp: names_short_def list_all_iff)
    have i: "\<exists>r d. parse_include inc param st' c = Some (r, d)" for st'
      using 1(6) [rule_format, of "c_bstrdup0 (bget param)" c] by (auto simp: parse_include_def)
    have p: "\<exists>r d. parse_profile set_profile (co_opt co) name param st' c = Some (r, d)" for st'
      by (rule parse_profile_returns [OF 1(4,2)])
    have sub: "\<exists>r d. parse_subopts set_profile inc (co_name co @ '':'') param (st \<and> set_allowed c co) c = Some (r, d)"
      if "co_disabled co = None" "\<not> forbidden_in_mode c co" "\<not> (cf_include c \<and> bstrcmp name ''include'' = 0)"
        "bstrcmp name ''profile'' \<noteq> 0" "type_has_child (o_type (co_opt co))" "\<not> 100 \<le> length (co_name co)"
      by (rule 1(1) [OF Some _ _ HOL.refl]) (use that 1(2-6) l in auto)
    show ?thesis using l i p sub by (auto simp: m_config_parse_option.simps [of set_profile inc name] Some Let_def)
  qed
next
  case (2 set_profile inc pre param st c)
  show ?case
  proof (cases "parse_subconf param")
    case (Inr lst)
    have incR: "same_static c d" if "inc f c = Some d" for f c d using 2(7) [rule_format, of f c] that by auto
    define f where "f = (\<lambda>(n, v) c. case resolve_subopt c pre n v of
                          None \<Rightarrow> None
                        | Some None \<Rightarrow> Some (M_OPT_INVALID, c)
                        | Some (Some (n, v)) \<Rightarrow>
                            map_option (apfst subopt_error) (m_config_parse_option set_profile inc n v False st c))"
    have "\<exists>r d. f x e = Some (r, d) \<and> same_static c e \<and> same_static c d" if x: "x \<in> set lst" and e: "same_static c e" for x e
    proof -
      obtain n v where nv: "x = (n, v)" by (cases x)
      note pl = 2(3,4)
      have ce: "same_static c0 e" by (rule static.trans [OF 2(2) e])
      have "parse_subconf_loop (bget param) = Some lst" using Inr by (auto simp: parse_subconf_def split: if_splits option.splits)
      from parse_subconf_loop_lengths [OF this] x nv have "length n \<le> length (bget param)" by blast
      then have "length (pre @ n) \<le> 100" using 2(3,4) by (cases param) (auto simp: bget_def blen_def)
      then have rs: "resolve_subopt e pre n v \<noteq> None" by (auto simp: resolve_subopt_def split: option.split)
      show ?thesis
      proof (cases "the (resolve_subopt e pre n v)")
        case None
        then show ?thesis using rs e by (auto simp: f_def nv)
      next
        case (Some y)
        obtain n' v' where y: "y = (n', v')" by (cases y)
        have r: "resolve_subopt e pre n v = Some (Some (n', v'))" using rs Some y by auto
        have "blen v' < blen param" by (rule resolve_subopt_shorter [OF Inr _ r]) (use x nv in simp)
        then have "\<exists>q d. m_config_parse_option set_profile inc n' v' False st e = Some (q, d)"
          by (intro 2(1) [OF Inr x nv [symmetric] r HOL.refl HOL.refl ce]) (use 2 in auto)
        then obtain q d where q: "m_config_parse_option set_profile inc n' v' False st e = Some (q, d)" by blast
        have "same_static e d" by (rule static.parse_option(1) [OF _ incR q]) (use 2(6) in blast)
        then show ?thesis using r q e static.trans [OF e] by (auto simp: f_def nv)
      qed
    qed
    then have "\<exists>r' d. subopts_loop f 1 lst c = Some (r', d)"
      by (intro subopts_loop_returns [where c0 = c, OF _ static.refl]) blast
    then show ?thesis using Inr by (simp add: parse_subopts.simps f_def)
  qed (simp add: parse_subopts.simps)
qed

lemma apply_options_returns:
  assumes "\<And>n v c. (n, v) \<in> set xs \<Longrightarrow> same_static c0 c \<Longrightarrow> \<exists>r d. f n (Some v) c = Some (r, d) \<and> same_static c0 d"
  shows "same_static c0 c \<Longrightarrow> \<exists>d. apply_options f xs c = Some d"
  using assms
proof (induction xs arbitrary: c)
  case (Cons x xs)
  obtain n v where x: "x = (n, v)" by (cases x)
  then have "(n, v) \<in> set (x # xs)" by simp
  from Cons.prems(2) [OF this Cons.prems(1)] obtain r e where e: "f n (Some v) c = Some (r, e)" "same_static c0 e" by blast
  have "\<exists>d. apply_options f xs e = Some d" by (rule Cons.IH [OF e(2)]) (rule Cons.prems(2), simp_all)
  then show ?case using e(1) x by simp
qed simp

lemma set_profile_returns:
  assumes inc: "\<forall>f c. \<exists>d. inc f c = Some d \<and> same_static c d"
  shows "profile_levels \<le> n + cf_depth c \<Longrightarrow> 0 < n \<Longrightarrow> names_short b c \<Longrightarrow> profile_short b p \<Longrightarrow> \<exists>d. set_profile_lv n inc p c = Some d"
proof (induction n arbitrary: p c)
  case (Suc n)
  show ?case
  proof (cases "MAX_PROFILE_DEPTH < cf_depth c")
    case False
    have incR: "same_static e d" if "inc f e = Some d" for f e d using inc that by (metis option.inject)
    let ?c = "c\<lparr>cf_mode := M_CONFIG_FILE, cf_depth := cf_depth c + 1\<rparr>"
    have ns: "names_short b ?c" using Suc.prems(3) by (subst names_short_cong [where c = c]) simp_all
    have keep: "same_static e d" if "set_profile_lv n inc q e = Some d" for q e d by (rule static.set_profile [OF incR that])
    then have spR: "\<forall>q e d. set_profile_lv n inc q e = Some d \<longrightarrow> same_static e d" by blast
    have sp: "\<forall>q\<in>set (cf_profiles ?c). returning ?c (set_profile_lv n inc q)"
    proof
      fix q assume q: "q \<in> set (cf_profiles ?c)"
      have "\<exists>d. set_profile_lv n inc q e = Some d" if e: "same_static ?c e" for e
      proof (rule Suc.IH)
        have "cf_depth e = Suc (cf_depth c)" using e by (simp add: same_static_def same_frame_def)
        then show "profile_levels \<le> n + cf_depth e" "0 < n" using Suc.prems(1) False by (simp_all add: profile_levels_def)
        show "names_short b e" using names_short_static [OF e] ns by simp
        show "profile_short b q" using q ns by (auto simp: names_short_def list_all_iff)
      qed
      then show "returning ?c (set_profile_lv n inc q)" unfolding returning_def using keep static.trans by blast
    qed
    let ?f = "\<lambda>name param d. m_config_parse_option (set_profile_lv n inc) inc name param False True d"
    have "\<exists>r d. ?f m (Some v) e = Some (r, d) \<and> same_static ?c d" if m: "(m, v) \<in> set (pr_opts p)" and e: "same_static ?c e" for m v e
    proof -
      have "length v \<le> b" using Suc.prems(4) m by (auto simp: profile_short_def list_all_iff)
      then obtain r d where r: "?f m (Some v) e = Some (r, d)"
        using parse_option_returns(1) [OF sp spR inc ns e, where param = "Some v" and name = m and amb = False and st = True] unfolding blen_def by auto
      have "same_static e d" by (rule static.parse_option(1) [OF keep incR r])
      then show ?thesis using r static.trans [OF e] by blast
    qed
    then have "\<exists>d. apply_options ?f (pr_opts p) ?c = Some d" by (rule apply_options_returns [OF _ static.refl])
    then obtain d where "apply_options ?f (pr_opts p) ?c = Some d" by blast
    then have "set_profile_lv (Suc n) inc p c = Some (d\<lparr>cf_depth := cf_depth d - 1, cf_mode := cf_mode c\<rparr>)"
      using False by (simp only: set_profile_lv.simps if_False option.map)
    then show ?thesis by blast
  qed simp
qed simp

text \<open>
  C31: Applying a profile ends however its profiles include each other, themselves included: the
  nesting the code allows is enough, and allowing more changes nothing. Reading a file that a
  profile includes must return, and neither register options nor define profiles; and no full name
  of a suboption may exceed the buffer for it, where the code aborts.
\<close>

theorem profile_application_ends:
  assumes "\<forall>f c. \<exists>d. inc f c = Some d \<and> same_static c d" and "names_short b c" and "profile_short b p"
  shows "\<exists>d. m_config_set_profile inc p c = Some d \<and> (\<forall>m. set_profile_lv (profile_levels + m) inc p c = Some d)"
proof -
  have "\<exists>d. set_profile_lv profile_levels inc p c = Some d"
    by (rule set_profile_returns [OF assms(1) _ _ assms(2,3)]) (simp_all add: profile_levels_def)
  moreover have "\<forall>f c d. inc f c = Some d \<longrightarrow> same_frame c d"
    using assms(1) unfolding same_static_def by (metis option.inject)
  then have "set_profile_lv (profile_levels + m) inc p c = m_config_set_profile inc p c" for m by (rule profile_levels_enough)
  ultimately show ?thesis by (simp add: m_config_set_profile_def)
qed

text \<open>A profile that includes itself twice, and is registered.\<close>

definition ex_profile :: m_profile where
  "ex_profile = \<lparr>pr_name = ''p'', pr_desc = None, pr_opts = [(''profile'', ''p,p''), (''osdlevel'', ''2''), (''tv'', ''loop'')]\<rparr>"

lemma profile_application_ends_witness:
  "\<exists>d. m_config_set_profile no_include ex_profile (ex_config\<lparr>cf_profiles := [ex_profile]\<rparr>) = Some d"
proof -
  have "names_short 20 (ex_config\<lparr>cf_profiles := [ex_profile]\<rparr>) \<and> profile_short 20 ex_profile" by code_simp
  then show ?thesis
    using profile_application_ends [of no_include 20 "ex_config\<lparr>cf_profiles := [ex_profile]\<rparr>" ex_profile]
    by (auto simp: no_include_def static.refl)
qed

subsection \<open>Errors\<close>

text \<open>
  A suboption name is not just refused when it is too long: with a full name of more
  than 100 characters the program is aborted.
\<close>

theorem long_subopt_aborts:
  assumes "m_config_get_co c name = Some co" and "co_disabled co = None" and "\<not> forbidden_in_mode c co"
    and "\<not> (cf_include c \<and> bstrcmp name ''include'' = 0)" and "bstrcmp name ''profile'' \<noteq> 0"
    and "type_has_child (o_type (co_opt co))" and "subopt_name_ok n"
    and "100 < length (co_name co) + 1 + length n"
  shows "m_config_set_option inc name (Some n) amb c = None"
proof -
  have "parse_subconf (Some (subopts_text [(n, None)])) = Inr [(n, None)]"
    by (rule parse_subconf_text) (use assms(7) in \<open>simp_all add: subopt_ok_def\<close>)
  then have "parse_subconf (Some n) = Inr [(n, None)]" by (simp add: subopt_text_def)
  moreover have "resolve_subopt d (co_name co @ '':'') n None = None" for d
    using assms(8) by (simp add: resolve_subopt_def)
  ultimately show ?thesis
    using assms(1-6) by (auto simp: m_config_set_option_def m_config_parse_option.simps parse_subopts.simps Let_def)
qed

lemma long_subopt_aborts_witness:
  "m_config_set_option no_include ''tv'' (Some (replicate 98 CHR ''x'')) False ex_config = None"
proof -
  have "map_option co_name (m_config_get_co ex_config ''tv'') = Some ''tv''"
    "map_option co_disabled (m_config_get_co ex_config ''tv'') = Some None"
    "map_option (forbidden_in_mode ex_config) (m_config_get_co ex_config ''tv'') = Some False"
    "map_option (type_has_child \<circ> o_type \<circ> co_opt) (m_config_get_co ex_config ''tv'') = Some True"
    by code_simp+
  then obtain co where co: "m_config_get_co ex_config ''tv'' = Some co" "co_disabled co = None"
    "\<not> forbidden_in_mode ex_config co" "type_has_child (o_type (co_opt co))" "co_name co = ''tv''" by auto
  have "bstrcmp ''tv'' ''include'' \<noteq> 0" "bstrcmp ''tv'' ''profile'' \<noteq> 0" by code_simp+
  then show ?thesis
    by (intro long_subopt_aborts [OF co(1-3) _ _ co(4)]) (simp_all add: subopt_name_ok_def co(5))
qed

lemma show_included_empty: "show_included n c (CHR '','' # v) = None"
  by (induction n) (simp_all add: first_index_def)

lemma show_options_empty:
  "cf_depth c < MAX_PROFILE_DEPTH \<Longrightarrow> show_options n c ((''profile'', CHR '','' # v) # os) = None"
  by (cases n) (simp_all add: show_included_empty)

text \<open>
  Showing a profile that includes a list of profiles beginning with a comma never ends:
  no number of steps is enough.
\<close>

theorem show_profile_diverges:
  assumes "m_config_get_profile c param = Some p" and "pr_opts p = (''profile'', CHR '','' # v) # os"
    and "cf_depth c + 1 < MAX_PROFILE_DEPTH"
  shows "show_profile n c param = None"
  using assms by (cases n) (simp_all add: show_options_empty)

lemma show_profile_diverges_witness:
  "show_profile 1000 (m_config_add_profile ex_config ''p''
     \<lparr>cf_profiles := [\<lparr>pr_name = ''p'', pr_desc = None, pr_opts = [(''profile'', '',q'')]\<rparr>], cf_depth := 0\<rparr>) ''p'' = None"
  by (rule show_profile_diverges [where v = "''q''" and os = "[]" and p = "\<lparr>pr_name = ''p'', pr_desc = None, pr_opts = [(''profile'', '',q'')]\<rparr>"])
     (simp_all add: m_config_get_profile_def MAX_PROFILE_DEPTH_def)

end
