(* ===== verification/PlayTree.thy ===== *)
theory PlayTree
  imports Config_Check "HOL-Library.Monad_Syntax"
begin

text \<open>
  The playlist tree and its iterator (\<open>playtree.c\<close>). Nodes live in a heap, a partial map
  from addresses; a null pointer is \<open>None\<close>. A result \<open>None\<close> is a failed assertion, an
  access to a node that is not allocated, or a loop that does not end. Failure of
  \<open>malloc\<close> and \<open>realloc\<close> is not modelled.
\<close>

abbreviation (input) PLAY_TREE_ENTRY_NODE :: int where "PLAY_TREE_ENTRY_NODE \<equiv> -1"
abbreviation (input) PLAY_TREE_ENTRY_FILE :: int where "PLAY_TREE_ENTRY_FILE \<equiv> 3"

abbreviation (input) PLAY_TREE_ITER_ERROR :: int where "PLAY_TREE_ITER_ERROR \<equiv> 0"
abbreviation (input) PLAY_TREE_ITER_ENTRY :: int where "PLAY_TREE_ITER_ENTRY \<equiv> 1"
abbreviation (input) PLAY_TREE_ITER_NODE :: int where "PLAY_TREE_ITER_NODE \<equiv> 2"
abbreviation (input) PLAY_TREE_ITER_END :: int where "PLAY_TREE_ITER_END \<equiv> 3"

subsection \<open>The tree\<close>

text \<open>
  \<open>flags\<close> has the two bits \<open>PLAY_TREE_RND\<close> and \<open>PLAY_TREE_RND_PLAYED\<close>. The arrays of
  parameters and files are lists without their terminators.
\<close>

record play_tree =
  pt_parent :: "nat option"
  pt_child :: "nat option"
  pt_next :: "nat option"
  pt_prev :: "nat option"
  pt_params :: "(string \<times> string) list option"
  pt_loop :: int
  pt_files :: "string list option"
  pt_type :: int
  pt_rnd :: bool
  pt_played :: bool

type_synonym pt_heap = "nat \<Rightarrow> play_tree option"

definition new_node :: play_tree where
  "new_node = \<lparr>pt_parent = None, pt_child = None, pt_next = None, pt_prev = None, pt_params = None,
     pt_loop = 0, pt_files = None, pt_type = PLAY_TREE_ENTRY_NODE, pt_rnd = False, pt_played = False\<rparr>"

definition play_tree_new :: "pt_heap \<Rightarrow> nat \<Rightarrow> pt_heap" where
  "play_tree_new h p = h(p \<mapsto> new_node)"

text \<open>Writing a field of a node; a check; and the two ends of a list of siblings.\<close>

definition pt_upd :: "nat \<Rightarrow> (play_tree \<Rightarrow> play_tree) \<Rightarrow> pt_heap \<Rightarrow> pt_heap option" where
  "pt_upd p f h = (case h p of None \<Rightarrow> None | Some n \<Rightarrow> Some (h(p \<mapsto> f n)))"

definition pt_assert :: "bool \<Rightarrow> unit option" where
  "pt_assert b = (if b then Some () else None)"

partial_function (option) last_next :: "pt_heap \<Rightarrow> nat \<Rightarrow> nat option" where
  "last_next h p =
     do { n \<leftarrow> h p; case pt_next n of None \<Rightarrow> Some p | Some q \<Rightarrow> last_next h q }"

partial_function (option) first_prev :: "pt_heap \<Rightarrow> nat \<Rightarrow> nat option" where
  "first_prev h p =
     do { n \<leftarrow> h p; case pt_prev n of None \<Rightarrow> Some p | Some q \<Rightarrow> first_prev h q }"

text \<open>\<open>for (; iter != NULL; iter = iter->next) iter->parent = v\<close>\<close>

partial_function (option) set_parents :: "nat option \<Rightarrow> nat option \<Rightarrow> pt_heap \<Rightarrow> pt_heap option" where
  "set_parents v p h =
     (case p of
        None \<Rightarrow> Some h
      | Some i \<Rightarrow> do { n \<leftarrow> h i; set_parents v (pt_next n) (h(i \<mapsto> n\<lparr>pt_parent := v\<rparr>)) })"

definition play_tree_append_entry :: "nat \<Rightarrow> nat \<Rightarrow> pt_heap \<Rightarrow> pt_heap option" where
  "play_tree_append_entry pt entry h =
     (if pt = entry then Some h
      else do {
        i \<leftarrow> last_next h pt;
        n \<leftarrow> h i;
        h \<leftarrow> pt_upd entry (\<lambda>e. e\<lparr>pt_parent := pt_parent n, pt_prev := Some i, pt_next := None\<rparr>) h;
        pt_upd i (\<lambda>n. n\<lparr>pt_next := Some entry\<rparr>) h })"

definition play_tree_prepend_entry :: "nat \<Rightarrow> nat \<Rightarrow> pt_heap \<Rightarrow> pt_heap option" where
  "play_tree_prepend_entry pt entry h =
     do {
       i \<leftarrow> first_prev h pt;
       h \<leftarrow> pt_upd entry (\<lambda>e. e\<lparr>pt_prev := None, pt_next := Some i\<rparr>) h;
       n \<leftarrow> h i;
       h \<leftarrow> pt_upd entry (\<lambda>e. e\<lparr>pt_parent := pt_parent n\<rparr>) h;
       h \<leftarrow> pt_upd i (\<lambda>n. n\<lparr>pt_prev := Some entry\<rparr>) h;
       e \<leftarrow> h entry;
       case pt_parent e of
         None \<Rightarrow> Some h
       | Some par \<Rightarrow> do {
           m \<leftarrow> h par;
           pt_assert (pt_child m = Some i);
           pt_upd par (\<lambda>m. m\<lparr>pt_child := Some entry\<rparr>) h } }"

definition play_tree_insert_entry :: "nat \<Rightarrow> nat \<Rightarrow> pt_heap \<Rightarrow> pt_heap option" where
  "play_tree_insert_entry pt entry h =
     do {
       n \<leftarrow> h pt;
       h \<leftarrow> pt_upd entry (\<lambda>e. e\<lparr>pt_parent := pt_parent n, pt_prev := Some pt\<rparr>) h;
       n \<leftarrow> h pt;
       h \<leftarrow> (case pt_next n of
               Some q \<Rightarrow> do {
                 m \<leftarrow> h q;
                 pt_assert (pt_prev m = Some pt);
                 h \<leftarrow> pt_upd entry (\<lambda>e. e\<lparr>pt_next := Some q\<rparr>) h;
                 pt_upd q (\<lambda>m. m\<lparr>pt_prev := Some entry\<rparr>) h }
             | None \<Rightarrow> pt_upd entry (\<lambda>e. e\<lparr>pt_next := None\<rparr>) h);
       pt_upd pt (\<lambda>n. n\<lparr>pt_next := Some entry\<rparr>) h }"

text \<open>\<open>play_tree_remove\<close> without freeing.\<close>

definition play_tree_unlink :: "nat \<Rightarrow> pt_heap \<Rightarrow> pt_heap option" where
  "play_tree_unlink pt h =
     do {
       n \<leftarrow> h pt;
       h \<leftarrow> (case (pt_prev n, pt_next n) of
               (Some p, Some q) \<Rightarrow> do {
                 pn \<leftarrow> h p; qn \<leftarrow> h q;
                 pt_assert (pt_next pn = Some pt); pt_assert (pt_prev qn = Some pt);
                 h \<leftarrow> pt_upd p (\<lambda>m. m\<lparr>pt_next := Some q\<rparr>) h;
                 pt_upd q (\<lambda>m. m\<lparr>pt_prev := Some p\<rparr>) h }
             | (Some p, None) \<Rightarrow> do {
                 pn \<leftarrow> h p;
                 pt_assert (pt_next pn = Some pt);
                 pt_upd p (\<lambda>m. m\<lparr>pt_next := None\<rparr>) h }
             | (None, Some q) \<Rightarrow> do {
                 qn \<leftarrow> h q;
                 pt_assert (pt_prev qn = Some pt);
                 h \<leftarrow> pt_upd q (\<lambda>m. m\<lparr>pt_prev := None\<rparr>) h;
                 case pt_parent n of
                   None \<Rightarrow> Some h
                 | Some par \<Rightarrow> do {
                     m \<leftarrow> h par;
                     pt_assert (pt_child m = Some pt);
                     pt_upd par (\<lambda>m. m\<lparr>pt_child := Some q\<rparr>) h } }
             | (None, None) \<Rightarrow>
                 (case pt_parent n of
                    None \<Rightarrow> Some h
                  | Some par \<Rightarrow> do {
                      m \<leftarrow> h par;
                      pt_assert (pt_child m = Some pt);
                      pt_upd par (\<lambda>m. m\<lparr>pt_child := None\<rparr>) h }));
       pt_upd pt (\<lambda>n. n\<lparr>pt_prev := None, pt_next := None, pt_parent := None\<rparr>) h }"

text \<open>
  Freeing: a node is unlinked, its children lose their parent, and it is deallocated.
  \<open>free_list\<close> frees a list of siblings with everything below.
\<close>

definition free_node :: "nat \<Rightarrow> pt_heap \<Rightarrow> pt_heap option" where
  "free_node pt h =
     do { h \<leftarrow> play_tree_unlink pt h; n \<leftarrow> h pt; h \<leftarrow> set_parents None (pt_child n) h; Some (h(pt := None)) }"

partial_function (option) free_list :: "nat option \<Rightarrow> pt_heap \<Rightarrow> pt_heap option" where
  "free_list p h =
     (case p of
        None \<Rightarrow> Some h
      | Some i \<Rightarrow> do {
          n \<leftarrow> h i;
          h \<leftarrow> free_list (pt_child n) h;
          h \<leftarrow> pt_upd i (\<lambda>n. n\<lparr>pt_child := None\<rparr>) h;
          h \<leftarrow> free_node i h;
          free_list (pt_next n) h })"

definition play_tree_free :: "nat \<Rightarrow> bool \<Rightarrow> pt_heap \<Rightarrow> pt_heap option" where
  "play_tree_free pt children h =
     do {
       n \<leftarrow> h pt;
       h \<leftarrow> (if children then do { h \<leftarrow> free_list (pt_child n) h; pt_upd pt (\<lambda>n. n\<lparr>pt_child := None\<rparr>) h }
             else Some h);
       free_node pt h }"

partial_function (option) free_siblings :: "bool \<Rightarrow> nat option \<Rightarrow> pt_heap \<Rightarrow> pt_heap option" where
  "free_siblings children p h =
     (case p of
        None \<Rightarrow> Some h
      | Some i \<Rightarrow> do { n \<leftarrow> h i; h \<leftarrow> play_tree_free i children h; free_siblings children (pt_next n) h })"

definition play_tree_free_list :: "nat \<Rightarrow> bool \<Rightarrow> pt_heap \<Rightarrow> pt_heap option" where
  "play_tree_free_list pt children h = do { i \<leftarrow> first_prev h pt; free_siblings children (Some i) h }"

definition play_tree_remove :: "nat \<Rightarrow> bool \<Rightarrow> bool \<Rightarrow> pt_heap \<Rightarrow> pt_heap option" where
  "play_tree_remove pt free_it with_children h =
     do { h \<leftarrow> play_tree_unlink pt h; if free_it then play_tree_free pt with_children h else Some h }"

definition play_tree_set_child :: "nat option \<Rightarrow> nat option \<Rightarrow> pt_heap \<Rightarrow> pt_heap option" where
  "play_tree_set_child pt child h =
     (case (pt, child) of
        (Some p, Some c) \<Rightarrow> do {
          n \<leftarrow> h p;
          pt_assert (pt_type n = PLAY_TREE_ENTRY_NODE);
          h \<leftarrow> set_parents None (pt_child n) h;
          i \<leftarrow> first_prev h c;
          h \<leftarrow> pt_upd p (\<lambda>n. n\<lparr>pt_child := Some i\<rparr>) h;
          set_parents (Some p) (Some i) h }
      | _ \<Rightarrow> Some h)"

text \<open>The backward loop of \<open>play_tree_set_parent\<close>: the first sibling and the heap.\<close>

partial_function (option) set_parents_back :: "nat option \<Rightarrow> nat \<Rightarrow> pt_heap \<Rightarrow> (nat \<times> pt_heap) option" where
  "set_parents_back v i h =
     do { n \<leftarrow> h i;
          let h = h(i \<mapsto> n\<lparr>pt_parent := v\<rparr>);
          case pt_prev n of None \<Rightarrow> Some (i, h) | Some q \<Rightarrow> set_parents_back v q h }"

definition play_tree_set_parent :: "nat \<Rightarrow> nat \<Rightarrow> pt_heap \<Rightarrow> pt_heap option" where
  "play_tree_set_parent pt parent h =
     do {
       n \<leftarrow> h pt;
       h \<leftarrow> (case pt_parent n of None \<Rightarrow> Some h | Some par \<Rightarrow> pt_upd par (\<lambda>m. m\<lparr>pt_child := None\<rparr>) h);
       h \<leftarrow> set_parents (Some parent) (Some pt) h;
       n \<leftarrow> h pt;
       case pt_prev n of
         Some q \<Rightarrow> do { (i, h) \<leftarrow> set_parents_back (Some parent) q h; pt_upd parent (\<lambda>m. m\<lparr>pt_child := Some i\<rparr>) h }
       | None \<Rightarrow> pt_upd parent (\<lambda>m. m\<lparr>pt_child := Some pt\<rparr>) h }"

subsection \<open>Files and parameters\<close>

definition play_tree_add_file :: "nat \<Rightarrow> string \<Rightarrow> pt_heap \<Rightarrow> pt_heap option" where
  "play_tree_add_file pt file h =
     do {
       n \<leftarrow> h pt;
       pt_assert (pt_child n = None);
       if pt_type n \<noteq> PLAY_TREE_ENTRY_NODE \<and> pt_type n \<noteq> PLAY_TREE_ENTRY_FILE then Some h
       else Some (h(pt \<mapsto> n\<lparr>pt_files := Some ((case pt_files n of None \<Rightarrow> [] | Some fs \<Rightarrow> fs) @ [file]),
                            pt_type := PLAY_TREE_ENTRY_FILE\<rparr>)) }"

text \<open>The last index of an element, as the search loops find it.\<close>

definition last_index :: "('a \<Rightarrow> bool) \<Rightarrow> 'a list \<Rightarrow> nat option" where
  "last_index P xs = (if find P (rev xs) = None then None else Some (length xs - 1 - first_index P (rev xs)))"

definition play_tree_remove_file :: "nat \<Rightarrow> string \<Rightarrow> pt_heap \<Rightarrow> (int \<times> pt_heap) option" where
  "play_tree_remove_file pt file h =
     do {
       n \<leftarrow> h pt;
       pt_assert (pt_type n \<noteq> PLAY_TREE_ENTRY_NODE);
       fs \<leftarrow> pt_files n;
       Some (case last_index (\<lambda>f. f = file) fs of
               None \<Rightarrow> (0, h)
             | Some f \<Rightarrow> (1, h(pt \<mapsto> n\<lparr>pt_files := (if 1 < length fs then Some (remove_nth f fs) else None)\<rparr>))) }"

definition play_tree_set_param :: "nat \<Rightarrow> bstr \<Rightarrow> bstr \<Rightarrow> pt_heap \<Rightarrow> pt_heap option" where
  "play_tree_set_param pt name val h =
     pt_upd pt (\<lambda>n. n\<lparr>pt_params := Some ((case pt_params n of None \<Rightarrow> [] | Some ps \<Rightarrow> ps)
                                          @ [(c_bstrdup0 name, c_bstrdup0 val)])\<rparr>) h"

definition play_tree_unset_param :: "nat \<Rightarrow> string \<Rightarrow> pt_heap \<Rightarrow> (int \<times> pt_heap) option" where
  "play_tree_unset_param pt name h =
     do {
       n \<leftarrow> h pt;
       ps \<leftarrow> pt_params n;
       Some (case last_index (\<lambda>(m, _). map c_tolower m = map c_tolower name) ps of
               None \<Rightarrow> (0, h)
             | Some i \<Rightarrow> (1, h(pt \<mapsto> n\<lparr>pt_params := (if 1 < length ps then Some (remove_nth i ps) else None)\<rparr>))) }"

fun set_params :: "nat \<Rightarrow> (string \<times> string) list \<Rightarrow> pt_heap \<Rightarrow> pt_heap option" where
  "set_params pt [] h = Some h"
| "set_params pt ((n, v) # ps) h = do { h \<leftarrow> play_tree_set_param pt n v h; set_params pt ps h }"

definition play_tree_set_params_from :: "nat \<Rightarrow> nat \<Rightarrow> pt_heap \<Rightarrow> pt_heap option" where
  "play_tree_set_params_from dest src h =
     do {
       s \<leftarrow> h src; d \<leftarrow> h dest;
       case pt_params s of
         None \<Rightarrow> Some h
       | Some ps \<Rightarrow> do {
           h \<leftarrow> set_params dest ps h;
           if pt_rnd s then pt_upd dest (\<lambda>n. n\<lparr>pt_rnd := True\<rparr>) h else Some h } }"

text \<open>\<open>play_tree_unset_flag\<close> of the played flag, all the way down (\<open>deep\<close> is \<open>-1\<close>).\<close>

partial_function (option) unset_played_list :: "nat option \<Rightarrow> pt_heap \<Rightarrow> pt_heap option" where
  "unset_played_list p h =
     (case p of
        None \<Rightarrow> Some h
      | Some i \<Rightarrow> do {
          n \<leftarrow> h i;
          h \<leftarrow> unset_played_list (pt_child n) (h(i \<mapsto> n\<lparr>pt_played := False\<rparr>));
          n \<leftarrow> h i;
          unset_played_list (pt_next n) h })"

definition unset_played :: "nat \<Rightarrow> pt_heap \<Rightarrow> pt_heap option" where
  "unset_played pt h = do { n \<leftarrow> h pt; unset_played_list (pt_child n) (h(pt \<mapsto> n\<lparr>pt_played := False\<rparr>)) }"

subsection \<open>Validity and cleaning up\<close>

text \<open>Whether one of a list of siblings is valid; \<open>play_tree_is_valid\<close> of one node.\<close>

partial_function (option) valid_list :: "pt_heap \<Rightarrow> nat option \<Rightarrow> bool option" where
  "valid_list h p =
     (case p of
        None \<Rightarrow> Some False
      | Some i \<Rightarrow> do {
          n \<leftarrow> h i;
          v \<leftarrow> (if pt_type n \<noteq> PLAY_TREE_ENTRY_NODE then do { pt_assert (pt_child n = None); Some True }
               else valid_list h (pt_child n));
          if v then Some True else valid_list h (pt_next n) })"

definition play_tree_is_valid :: "pt_heap \<Rightarrow> nat \<Rightarrow> bool option" where
  "play_tree_is_valid h p =
     do {
       n \<leftarrow> h p;
       if pt_type n \<noteq> PLAY_TREE_ENTRY_NODE then do { pt_assert (pt_child n = None); Some True }
       else valid_list h (pt_child n) }"

text \<open>The first loop of \<open>play_tree_cleanup\<close> over the children, with \<open>first\<close>.\<close>

partial_function (option) drop_invalid :: "nat option \<Rightarrow> nat option \<Rightarrow> pt_heap \<Rightarrow> (nat option \<times> pt_heap) option" where
  "drop_invalid p first h =
     (case p of
        None \<Rightarrow> Some (first, h)
      | Some i \<Rightarrow> do {
          n \<leftarrow> h i;
          v \<leftarrow> play_tree_is_valid h i;
          if v then drop_invalid (pt_next n) first h
          else do {
            h \<leftarrow> play_tree_remove i True True h;
            drop_invalid (pt_next n) (if Some i = first then pt_next n else first) h } })"

partial_function (option) cleanup_list :: "nat option \<Rightarrow> pt_heap \<Rightarrow> pt_heap option" where
  "cleanup_list p h =
     (case p of
        None \<Rightarrow> Some h
      | Some i \<Rightarrow> do {
          n \<leftarrow> h i;
          v \<leftarrow> play_tree_is_valid h i;
          h \<leftarrow> (if \<not> v then play_tree_remove i True True h
               else do { (first, h) \<leftarrow> drop_invalid (pt_child n) (pt_child n) h; cleanup_list first h });
          cleanup_list (pt_next n) h })"

definition play_tree_cleanup :: "nat \<Rightarrow> pt_heap \<Rightarrow> (nat option \<times> pt_heap) option" where
  "play_tree_cleanup pt h =
     do {
       n \<leftarrow> h pt;
       v \<leftarrow> play_tree_is_valid h pt;
       if \<not> v then do { h \<leftarrow> play_tree_remove pt True True h; Some (None, h) }
       else do {
         (first, h) \<leftarrow> drop_invalid (pt_child n) (pt_child n) h;
         h \<leftarrow> cleanup_list first h;
         Some (Some pt, h) } }"

subsection \<open>The iterator\<close>

text \<open>
  The iterator with the heap, the configuration it uses and the values the expression with
  \<open>rand ()\<close> takes, in their order. \<open>it_config\<close> is false for a null \<open>config\<close>; the status
  stack has its top first.
\<close>

record pt_iter =
  it_heap :: pt_heap
  it_conf :: m_config
  it_rand :: "nat list"
  it_root :: nat
  it_tree :: "nat option"
  it_config :: bool
  it_loop :: int
  it_file :: int
  it_num_files :: int
  it_pushed :: int
  it_mode_rnd :: bool
  it_stack :: "int list"

fun push_set :: "include_fun \<Rightarrow> (string \<times> string) list \<Rightarrow> m_config \<Rightarrow> m_config option" where
  "push_set inc [] c = Some c"
| "push_set inc ((n, v) # ps) c =
     (case m_config_set_option inc n (Some v) False c of None \<Rightarrow> None | Some (_, c) \<Rightarrow> push_set inc ps c)"

definition play_tree_iter_push_params :: "include_fun \<Rightarrow> pt_iter \<Rightarrow> pt_iter option" where
  "play_tree_iter_push_params inc it =
     do {
       t \<leftarrow> it_tree it;
       n \<leftarrow> it_heap it t;
       c \<leftarrow> m_config_push (it_conf it);
       case pt_params n of
         None \<Rightarrow> Some (it\<lparr>it_conf := c\<rparr>)
       | Some ps \<Rightarrow> do {
           c \<leftarrow> push_set inc ps c;
           Some (it\<lparr>it_conf := c, it_pushed := (if pt_child n = None then 1 else it_pushed it)\<rparr>) } }"

definition play_tree_iter_new :: "pt_heap \<Rightarrow> m_config \<Rightarrow> nat list \<Rightarrow> nat \<Rightarrow> pt_iter option option" where
  "play_tree_iter_new h c rnd pt =
     do {
       v \<leftarrow> play_tree_is_valid h pt;
       if \<not> v then Some None
       else do {
         n \<leftarrow> h pt;
         l \<leftarrow> (case pt_parent n of None \<Rightarrow> Some 0 | Some par \<Rightarrow> map_option pt_loop (h par));
         Some (Some \<lparr>it_heap = h, it_conf = c, it_rand = rnd, it_root = pt, it_tree = None, it_config = True,
           it_loop = l, it_file = 0, it_num_files = 0, it_pushed = 0, it_mode_rnd = False, it_stack = []\<rparr>) } }"

definition play_tree_iter_new_copy :: "pt_iter \<Rightarrow> pt_iter" where
  "play_tree_iter_new_copy old = old\<lparr>it_config := False\<rparr>"

text \<open>\<open>play_tree_rnd_step\<close>: the unplayed siblings, and the one chosen by a random value.\<close>

partial_function (option) siblings_from :: "pt_heap \<Rightarrow> nat option \<Rightarrow> nat list option" where
  "siblings_from h p =
     (case p of
        None \<Rightarrow> Some []
      | Some i \<Rightarrow> do { n \<leftarrow> h i; is \<leftarrow> siblings_from h (pt_next n); Some (i # is) })"

definition is_unplayed :: "pt_heap \<Rightarrow> nat \<Rightarrow> bool" where
  "is_unplayed h i = (case h i of None \<Rightarrow> False | Some n \<Rightarrow> \<not> pt_played n)"

definition play_tree_rnd_step :: "pt_heap \<Rightarrow> nat list \<Rightarrow> nat \<Rightarrow> (nat option \<times> nat list) option" where
  "play_tree_rnd_step h rnd pt =
     do {
       i \<leftarrow> first_prev h pt;
       is \<leftarrow> siblings_from h (Some i);
       let free = filter (is_unplayed h) is;
       if free = [] then Some (None, rnd)
       else (let r = (case rnd of [] \<Rightarrow> 0 | r # _ \<Rightarrow> r)
             in Some (if r < length free then Some (free ! r) else None, tl rnd)) }"

text \<open>The loops \<open>for (i = d; i > 0 && pt; i--) pt = pt->next\<close>, with the rest of \<open>i\<close>.\<close>

fun walk :: "(play_tree \<Rightarrow> nat option) \<Rightarrow> pt_heap \<Rightarrow> nat \<Rightarrow> nat option \<Rightarrow> (nat option \<times> nat) option" where
  "walk dir h 0 p = Some (p, 0)"
| "walk dir h (Suc i) None = Some (None, Suc i)"
| "walk dir h (Suc i) (Some p) = do { n \<leftarrow> h p; walk dir h i (dir n) }"

lemma walk_code [code]:
  "walk dir h i p =
     (if i = 0 then Some (p, 0)
      else case p of None \<Rightarrow> Some (None, i) | Some q \<Rightarrow> do { n \<leftarrow> h q; walk dir h (i - 1) (dir n) })"
  by (cases i; cases p) simp_all

text \<open>The node a step of \<open>d\<close> leads to, and what is left of \<open>d\<close>.\<close>

definition step_target :: "pt_iter \<Rightarrow> nat \<Rightarrow> int \<Rightarrow> (nat option \<times> int \<times> nat list) option" where
  "step_target it t d =
     (if it_mode_rnd it then map_option (\<lambda>(p, r). (p, d, r)) (play_tree_rnd_step (it_heap it) (it_rand it) t)
      else if 0 < d
      then map_option (\<lambda>(p, i). (p, if i \<noteq> 0 then int i else 1, it_rand it)) (walk pt_next (it_heap it) (nat d) (Some t))
      else if d < 0
      then map_option (\<lambda>(p, i). (p, if i \<noteq> 0 then - int i else -1, it_rand it)) (walk pt_prev (it_heap it) (nat (- d)) (Some t))
      else Some (Some t, d, it_rand it))"

text \<open>Whether a list of siblings is repeated.\<close>

definition must_loop :: "pt_iter \<Rightarrow> play_tree option \<Rightarrow> int \<Rightarrow> bool" where
  "must_loop it par d =
     (case par of
        None \<Rightarrow> False
      | Some m \<Rightarrow> pt_loop m \<noteq> 0 \<and>
          (0 < d \<and> it_loop it \<noteq> 0 \<or> d < 0 \<and> (it_loop it < 0 \<or> it_loop it < pt_loop m)))"

definition loop_back :: "pt_iter \<Rightarrow> nat \<Rightarrow> play_tree \<Rightarrow> int \<Rightarrow> pt_iter option" where
  "loop_back it t par d =
     (if 0 < d
      then map_option (\<lambda>p. it\<lparr>it_tree := Some p, it_loop := (if 0 < it_loop it then it_loop it - 1 else it_loop it)\<rparr>)
             (first_prev (it_heap it) t)
      else map_option (\<lambda>p. it\<lparr>it_tree := Some p,
               it_loop := (if 0 \<le> it_loop it \<and> it_loop it < pt_loop par then it_loop it + 1 else it_loop it)\<rparr>)
             (last_next (it_heap it) t))"

text \<open>Entering a valid entry.\<close>

definition enter_entry :: "include_fun \<Rightarrow> pt_iter \<Rightarrow> nat \<Rightarrow> (int \<times> pt_iter) option" where
  "enter_entry inc it p =
     do {
       n \<leftarrow> it_heap it p;
       fs \<leftarrow> pt_files n;
       let it = it\<lparr>it_tree := Some p, it_num_files := int (length fs)\<rparr>;
       if it_config it
       then do {
         it \<leftarrow> play_tree_iter_push_params inc it;
         h \<leftarrow> (if it_mode_rnd it then pt_upd p (\<lambda>n. n\<lparr>pt_played := True\<rparr>) (it_heap it) else Some (it_heap it));
         Some (PLAY_TREE_ITER_ENTRY, it\<lparr>it_pushed := 1, it_heap := h\<rparr>) }
       else Some (PLAY_TREE_ITER_ENTRY, it) }"

text \<open>The beginning of a step: the entry's options are popped, and the mode is chosen.\<close>

definition leave_entry :: "pt_iter \<Rightarrow> nat \<Rightarrow> pt_iter option" where
  "leave_entry it t =
     do {
       it \<leftarrow> (if it_config it \<and> 0 < it_pushed it
             then map_option (\<lambda>c. it\<lparr>it_pushed := 0, it_conf := c\<rparr>) (m_config_pop (it_conf it))
             else Some it);
       n \<leftarrow> it_heap it t;
       r \<leftarrow> (case pt_parent n of None \<Rightarrow> Some False | Some par \<Rightarrow> map_option pt_rnd (it_heap it par));
       Some (it\<lparr>it_mode_rnd := r, it_file := -1\<rparr>) }"

text \<open>
  Leaving a list of siblings, and entering one: the changes before the next step. The
  result of \<open>up_state\<close> is \<open>Inl\<close> at the end.
\<close>

definition up_state :: "pt_iter \<Rightarrow> (int \<times> pt_iter + pt_iter) option" where
  "up_state it =
     do {
       t \<leftarrow> it_tree it;
       n \<leftarrow> it_heap it t;
       r \<leftarrow> it_heap it (it_root it);
       let it = it\<lparr>it_file := -1\<rparr>;
       if pt_parent n = pt_parent r then Some (Inl (PLAY_TREE_ITER_END, it))
       else do {
         par \<leftarrow> pt_parent n;
         (l, st) \<leftarrow> (case it_stack it of [] \<Rightarrow> None | l # st \<Rightarrow> Some (l, st));
         let it = it\<lparr>it_stack := st, it_loop := l, it_tree := Some par\<rparr>;
         if it_config it
         then do {
           c \<leftarrow> m_config_pop (it_conf it);
           h \<leftarrow> (if it_mode_rnd it then pt_upd par (\<lambda>n. n\<lparr>pt_played := True\<rparr>) (it_heap it) else Some (it_heap it));
           Some (Inr (it\<lparr>it_conf := c, it_heap := h\<rparr>)) }
         else Some (Inr it) } }"

definition down_state :: "include_fun \<Rightarrow> pt_iter \<Rightarrow> int \<Rightarrow> pt_iter option" where
  "down_state inc it d =
     do {
       t \<leftarrow> it_tree it;
       n \<leftarrow> it_heap it t;
       pt_assert (pt_files n = None);
       ch \<leftarrow> pt_child n;
       m \<leftarrow> it_heap it ch;
       pt_assert (pt_parent m = Some t);
       let it = it\<lparr>it_file := -1\<rparr>;
       it \<leftarrow> (if it_config it then play_tree_iter_push_params inc it else Some it);
       p \<leftarrow> (if 0 \<le> d then Some ch else last_next (it_heap it) ch);
       Some (it\<lparr>it_stack := it_loop it # it_stack it, it_loop := pt_loop n - 1, it_tree := Some p\<rparr>) }"

text \<open>
  \<open>play_tree_iter_step\<close>, with \<open>play_tree_iter_up_step\<close> and \<open>play_tree_iter_down_step\<close>,
  which end by calling it. The first argument bounds the number of these calls.
\<close>

definition iter_step_body ::
  "(pt_iter \<Rightarrow> int \<Rightarrow> bool \<Rightarrow> (int \<times> pt_iter) option) \<Rightarrow> include_fun \<Rightarrow> pt_iter \<Rightarrow> int \<Rightarrow> bool \<Rightarrow> (int \<times> pt_iter) option"
where
  "iter_step_body rec inc it d with_nodes =
     (case it_tree it of
        None \<Rightarrow> rec (it\<lparr>it_tree := Some (it_root it)\<rparr>) 0 with_nodes
      | Some t \<Rightarrow> do {
          it \<leftarrow> leave_entry it t;
          (pt, d, rnd) \<leftarrow> step_target it t d;
          let it = it\<lparr>it_rand := rnd\<rparr>;
          n \<leftarrow> it_heap it t;
          par \<leftarrow> (case pt_parent n of None \<Rightarrow> Some None | Some p \<Rightarrow> map_option Some (it_heap it p));
          case pt of
            None \<Rightarrow>
              (if it_mode_rnd it
               then do {
                 r \<leftarrow> it_heap it (it_root it);
                 if pt_loop r = 0 then Some (PLAY_TREE_ITER_END, it)
                 else do {
                   h \<leftarrow> unset_played (it_root it) (it_heap it);
                   h \<leftarrow> pt_upd (it_root it) (\<lambda>n. n\<lparr>pt_loop := (if 0 < pt_loop n then pt_loop n - 1 else pt_loop n)\<rparr>) h;
                   rec (it\<lparr>it_heap := h\<rparr>) 0 with_nodes } }
               else if must_loop it par d
               then do { it \<leftarrow> loop_back it t (the par) d; rec it 0 with_nodes }
               else do {
                 r \<leftarrow> up_state it;
                 case r of Inl res \<Rightarrow> Some res | Inr it \<Rightarrow> rec it d with_nodes })
          | Some p \<Rightarrow> do {
              n \<leftarrow> it_heap it p;
              cv \<leftarrow> (case pt_child n of None \<Rightarrow> Some False | Some ch \<Rightarrow> play_tree_is_valid (it_heap it) ch);
              if cv
              then (let it = it\<lparr>it_tree := Some p\<rparr>
                    in if with_nodes then Some (PLAY_TREE_ITER_NODE, it)
                       else do { it \<leftarrow> down_state inc it d; rec it 0 with_nodes })
              else do {
                v \<leftarrow> play_tree_is_valid (it_heap it) p;
                if v then enter_entry inc it p
                else if d = 0 then Some (PLAY_TREE_ITER_ERROR, it)
                else rec it d with_nodes } } })"

fun play_tree_iter_step :: "nat \<Rightarrow> include_fun \<Rightarrow> pt_iter \<Rightarrow> int \<Rightarrow> bool \<Rightarrow> (int \<times> pt_iter) option" where
  "play_tree_iter_step 0 inc it d with_nodes = None"
| "play_tree_iter_step (Suc k) inc it d with_nodes = iter_step_body (play_tree_iter_step k inc) inc it d with_nodes"

declare last_next.simps [code] first_prev.simps [code] set_parents.simps [code] free_list.simps [code]
  free_siblings.simps [code] set_parents_back.simps [code] unset_played_list.simps [code] valid_list.simps [code]
  drop_invalid.simps [code] cleanup_list.simps [code] siblings_from.simps [code]

lemma play_tree_iter_step_code [code]:
  "play_tree_iter_step k inc it d with_nodes =
     (if k = 0 then None else iter_step_body (play_tree_iter_step (k - 1) inc) inc it d with_nodes)"
  by (cases k) simp_all

definition play_tree_iter_up_step :: "nat \<Rightarrow> include_fun \<Rightarrow> pt_iter \<Rightarrow> int \<Rightarrow> bool \<Rightarrow> (int \<times> pt_iter) option" where
  "play_tree_iter_up_step k inc it d with_nodes =
     do { r \<leftarrow> up_state it; case r of Inl res \<Rightarrow> Some res | Inr it \<Rightarrow> play_tree_iter_step k inc it d with_nodes }"

definition play_tree_iter_down_step :: "nat \<Rightarrow> include_fun \<Rightarrow> pt_iter \<Rightarrow> int \<Rightarrow> bool \<Rightarrow> (int \<times> pt_iter) option" where
  "play_tree_iter_down_step k inc it d with_nodes =
     do { it \<leftarrow> down_state inc it d; play_tree_iter_step k inc it 0 with_nodes }"

text \<open>\<open>play_tree_iter_get_file\<close>: the file, or \<open>None\<close> for a null result.\<close>

definition play_tree_iter_get_file :: "pt_iter \<Rightarrow> int \<Rightarrow> (string option \<times> pt_iter) option" where
  "play_tree_iter_get_file it d =
     do {
       t \<leftarrow> it_tree it;
       n \<leftarrow> it_heap it t;
       pt_assert (pt_child n = None);
       case pt_files n of
         None \<Rightarrow> Some (None, it)
       | Some fs \<Rightarrow> do {
           pt_assert (0 < it_num_files it);
           if it_num_files it - 1 \<le> it_file it \<or> it_file it < -1 then Some (None, it)
           else do {
             let f = (if 0 < d then (if it_num_files it - 1 \<le> it_file it then 0 else it_file it + 1)
                      else if d < 0 then (if it_file it \<le> 0 then it_num_files it - 1 else it_file it - 1)
                      else it_file it);
             pt_assert (0 \<le> f \<and> nat f < length fs);
             Some (Some (fs ! nat f), it\<lparr>it_file := f\<rparr>) } } }"

subsection \<open>The high-level interface\<close>

definition pt_iter_create :: "nat \<Rightarrow> include_fun \<Rightarrow> pt_heap \<Rightarrow> m_config \<Rightarrow> nat list \<Rightarrow> nat \<Rightarrow> (nat option \<times> pt_iter option) option" where
  "pt_iter_create k inc h c rnd ppt =
     do {
       (pt, h) \<leftarrow> play_tree_cleanup ppt h;
       case pt of
         None \<Rightarrow> Some (None, None)
       | Some p \<Rightarrow> do {
           r \<leftarrow> play_tree_iter_new h c rnd p;
           case r of
             None \<Rightarrow> Some (Some p, None)
           | Some it \<Rightarrow> do {
               (code, it) \<leftarrow> play_tree_iter_step k inc it 0 False;
               Some (Some p, if code \<noteq> PLAY_TREE_ITER_ENTRY then None else Some it) } } }"

text \<open>The loop of \<open>pt_iter_get_file\<close>; the second bound is on its rounds.\<close>

fun pt_iter_get_file :: "nat \<Rightarrow> nat \<Rightarrow> include_fun \<Rightarrow> pt_iter \<Rightarrow> int \<Rightarrow> (string option \<times> pt_iter) option" where
  "pt_iter_get_file 0 k inc it d = None"
| "pt_iter_get_file (Suc m) k inc it d =
     do {
       (r, it) \<leftarrow> play_tree_iter_get_file it d;
       if r = None \<and> d \<noteq> 0
       then do {
         (code, it) \<leftarrow> play_tree_iter_step k inc it d False;
         if code \<noteq> PLAY_TREE_ITER_ENTRY then Some (None, it) else pt_iter_get_file m k inc it d }
       else Some (r, it) }"

definition pt_iter_insert_entry :: "nat \<Rightarrow> pt_iter \<Rightarrow> pt_iter option" where
  "pt_iter_insert_entry entry it =
     do {
       pt \<leftarrow> it_tree it;
       pt_assert (entry \<noteq> pt);
       h \<leftarrow> play_tree_insert_entry pt entry (it_heap it);
       h \<leftarrow> play_tree_set_params_from entry pt h;
       Some (it\<lparr>it_heap := h\<rparr>) }"

definition pt_iter_replace_entry :: "nat \<Rightarrow> pt_iter \<Rightarrow> pt_iter option" where
  "pt_iter_replace_entry entry it =
     do {
       pt \<leftarrow> it_tree it;
       it \<leftarrow> pt_iter_insert_entry entry it;
       h \<leftarrow> play_tree_remove pt True True (it_heap it);
       Some (it\<lparr>it_heap := h, it_tree := Some entry\<rparr>) }"

text \<open>\<open>new\<close> is the address the new node gets.\<close>

definition pt_add_file :: "nat option \<Rightarrow> nat \<Rightarrow> string \<Rightarrow> pt_heap \<Rightarrow> (nat \<times> pt_heap) option" where
  "pt_add_file ppt entry filename h =
     do {
       h \<leftarrow> play_tree_add_file entry filename (play_tree_new h entry);
       case ppt of
         Some pt \<Rightarrow> do {
           h \<leftarrow> play_tree_append_entry pt entry h;
           h \<leftarrow> play_tree_set_params_from entry pt h;
           Some (pt, h) }
       | None \<Rightarrow> do { h \<leftarrow> play_tree_set_params_from entry entry h; Some (entry, h) } }"

definition pt_iter_goto_head :: "nat \<Rightarrow> include_fun \<Rightarrow> pt_iter \<Rightarrow> (int \<times> pt_iter) option" where
  "pt_iter_goto_head k inc it = play_tree_iter_step k inc (it\<lparr>it_tree := Some (it_root it)\<rparr>) 0 False"


end
