(* ===== verification/PlayTree_Iter.thy ===== *)
theory PlayTree_Iter
  imports PlayTree
begin

text \<open>
  The iterator of \<open>playtree.c\<close>: the configuration levels it opens and closes, a step that
  does not end, and the files of a playlist in the order they are played, each with the
  configuration it is played with.
\<close>

subsection \<open>The configuration during iteration\<close>

text \<open>The local values with the saved ones below them.\<close>

definition snapshots :: "m_config \<Rightarrow> opt_val option list list" where
  "snapshots c = local_values c # saved_values c"

lemma snapshots_push:
  "config_ok c \<Longrightarrow> m_config_push c = Some d \<Longrightarrow> config_ok d \<and> snapshots d = local_values c # snapshots c"
  using cfg.push [of c] by (auto simp: snapshots_def)

lemma snapshots_pop:
  "config_ok c \<Longrightarrow> snapshots c = x # v # vs \<Longrightarrow> m_config_pop c = Some d \<Longrightarrow> config_ok d \<and> snapshots d = v # vs"
  using cfg.pop [of c v vs] by (auto simp: snapshots_def)

lemma push_set_frame:
  assumes inc: "\<And>f c d. inc f c = Some d \<Longrightarrow> same_frame c d"
  shows "push_set inc ps c = Some d \<Longrightarrow> same_frame c d"
proof (induction ps arbitrary: c)
  case (Cons p ps)
  obtain n v where p: "p = (n, v)" by (cases p)
  then obtain r e where e: "m_config_set_option inc n (Some v) False c = Some (r, e)" "push_set inc ps e = Some d"
    using Cons.prems by (auto split: option.splits)
  have "same_frame c e" by (rule frame.set_option [OF _ e(1)]) (rule inc)
  then show ?case using Cons.IH [OF e(2)] by (rule frame.trans)
qed (simp add: frame.refl)

text \<open>
  The configuration of an iterator is as many levels above that at the start as the status
  stack and the entry pushed say, and the values at the start are saved there.
\<close>

definition it_balanced :: "m_config \<Rightarrow> pt_iter \<Rightarrow> bool" where
  "it_balanced c0 it =
     (it_config it \<and> config_ok (it_conf it) \<and> it_pushed it \<in> {0, 1} \<and>
      (\<exists>us. snapshots (it_conf it) = us @ snapshots c0 \<and> length us = length (it_stack it) + nat (it_pushed it)))"

lemma balanced_cong:
  "it_balanced c0 it \<Longrightarrow> it_config it' = it_config it \<Longrightarrow> it_conf it' = it_conf it \<Longrightarrow>
   it_pushed it' = it_pushed it \<Longrightarrow> it_stack it' = it_stack it \<Longrightarrow> it_balanced c0 it'"
  by (simp add: it_balanced_def)

lemma push_params_balanced:
  assumes inc: "\<And>f c d. inc f c = Some d \<Longrightarrow> same_frame c d"
    and bal: "it_balanced c0 it" and p0: "it_pushed it = 0"
    and run: "play_tree_iter_push_params inc it = Some it'"
  shows "\<exists>us. config_ok (it_conf it') \<and> snapshots (it_conf it') = us @ snapshots c0 \<and>
    length us = Suc (length (it_stack it)) \<and> it_config it' \<and> it_stack it' = it_stack it \<and> it_heap it' = it_heap it \<and>
    it_tree it' = it_tree it \<and> it_mode_rnd it' = it_mode_rnd it \<and>
    (\<forall>t n. it_tree it = Some t \<longrightarrow> it_heap it t = Some n \<longrightarrow> pt_child n \<noteq> None \<longrightarrow> it_pushed it' = 0)"
proof -
  obtain us where us: "config_ok (it_conf it)" "snapshots (it_conf it) = us @ snapshots c0"
      "length us = length (it_stack it)" "it_config it"
    using bal p0 by (auto simp: it_balanced_def)
  obtain t n c where t: "it_tree it = Some t" "it_heap it t = Some n" "m_config_push (it_conf it) = Some c"
    using run by (auto simp: play_tree_iter_push_params_def bind_eq_Some_conv)
  have c: "config_ok c" "snapshots c = (local_values (it_conf it) # us) @ snapshots c0"
    using snapshots_push [OF us(1) t(3)] us(2) by auto
  have "\<exists>d. (it' = it\<lparr>it_conf := d\<rparr> \<or> it' = it\<lparr>it_conf := d, it_pushed := (if pt_child n = None then 1 else it_pushed it)\<rparr>)
      \<and> same_frame c d"
  proof (cases "pt_params n")
    case None
    then have "it' = it\<lparr>it_conf := c\<rparr>" using run by (simp add: play_tree_iter_push_params_def t)
    then show ?thesis using frame.refl [of c] by blast
  next
    case (Some ps)
    then obtain d where d: "push_set inc ps c = Some d"
        "it' = it\<lparr>it_conf := d, it_pushed := (if pt_child n = None then 1 else it_pushed it)\<rparr>"
      using run by (auto simp: play_tree_iter_push_params_def t bind_eq_Some_conv)
    have "same_frame c d" by (rule push_set_frame [OF _ d(1)]) (rule inc)
    then show ?thesis using d(2) by blast
  qed
  then obtain d where it': "it' = it\<lparr>it_conf := d\<rparr> \<or> it' = it\<lparr>it_conf := d, it_pushed := (if pt_child n = None then 1 else it_pushed it)\<rparr>"
      and d: "same_frame c d" by blast
  have sd: "config_ok d" "saved_values d = saved_values c" using frame_spec [OF d c(1)] by auto
  then have "snapshots d = (local_values d # us) @ snapshots c0"
    using c(2) by (simp add: snapshots_def)
  then show ?thesis using it' sd us t p0
    by (intro exI [of _ "local_values d # us"]) auto
qed

lemma leave_entry_balanced:
  assumes bal: "it_balanced c0 it" and run: "leave_entry it t = Some it'"
  shows "it_balanced c0 it' \<and> it_pushed it' = 0"
proof -
  obtain us where us: "config_ok (it_conf it)" "snapshots (it_conf it) = us @ snapshots c0"
      "length us = length (it_stack it) + nat (it_pushed it)" "it_config it" "it_pushed it \<in> {0, 1}"
    using bal by (auto simp: it_balanced_def)
  show ?thesis
  proof (cases "it_pushed it = 1")
    case True
    then obtain u us' where u: "us = u # us'" using us(3) by (cases us) auto
    obtain v vs where v: "us' @ snapshots c0 = v # vs" by (cases "us' @ snapshots c0") (auto simp: snapshots_def)
    obtain c r where c: "m_config_pop (it_conf it) = Some c"
      and it': "it' = it\<lparr>it_pushed := 0, it_conf := c, it_mode_rnd := r, it_file := -1\<rparr>"
      using run True us(4) by (auto simp: leave_entry_def bind_eq_Some_conv)
    have "config_ok c \<and> snapshots c = us' @ snapshots c0"
      using snapshots_pop [OF us(1) _ c] us(2) u v by auto
    then show ?thesis using it' us u True by (auto simp: it_balanced_def)
  next
    case False
    then have p: "it_pushed it = 0" using us(5) by auto
    then obtain r where "it' = it\<lparr>it_mode_rnd := r, it_file := -1\<rparr>"
      using run by (auto simp: leave_entry_def bind_eq_Some_conv)
    then show ?thesis using bal p by (auto intro: balanced_cong [OF bal])
  qed
qed

lemma enter_entry_balanced:
  assumes inc: "\<And>f c d. inc f c = Some d \<Longrightarrow> same_frame c d"
    and bal: "it_balanced c0 it" and p0: "it_pushed it = 0" and run: "enter_entry inc it p = Some (r, it')"
  shows "it_balanced c0 it'"
proof -
  obtain fs n where fs: "it_heap it p = Some n" "pt_files n = Some fs"
    using run by (auto simp: enter_entry_def bind_eq_Some_conv)
  let ?it = "it\<lparr>it_tree := Some p, it_num_files := int (length fs)\<rparr>"
  have b: "it_balanced c0 ?it" by (rule balanced_cong [OF bal]) simp_all
  have cf: "it_config it" using bal by (simp add: it_balanced_def)
  obtain it1 h where it1: "play_tree_iter_push_params inc ?it = Some it1" and it': "it' = it1\<lparr>it_pushed := 1, it_heap := h\<rparr>"
    using run cf by (auto simp: enter_entry_def fs bind_eq_Some_conv)
  from push_params_balanced [OF inc b _ it1] p0 show ?thesis
    unfolding it' it_balanced_def by fastforce
qed

lemma up_state_balanced:
  assumes bal: "it_balanced c0 it" and p0: "it_pushed it = 0" and run: "up_state it = Some r"
  shows "it_balanced c0 (case r of Inl (_, it') \<Rightarrow> it' | Inr it' \<Rightarrow> it')"
proof -
  obtain us where us: "config_ok (it_conf it)" "snapshots (it_conf it) = us @ snapshots c0"
      "length us = length (it_stack it)" "it_config it"
    using bal p0 by (auto simp: it_balanced_def)
  consider it' where "r = Inl (PLAY_TREE_ITER_END, it')" "it' = it\<lparr>it_file := -1\<rparr>"
    | l st c it' where "it_stack it = l # st" "m_config_pop (it_conf it) = Some c" "r = Inr it'"
      "it_config it'" "it_conf it' = c" "it_stack it' = st" "it_pushed it' = it_pushed it"
    using run us(4) by (auto simp: up_state_def bind_eq_Some_conv Let_def split: if_splits list.splits)
  then show ?thesis
  proof cases
    case 1
    then show ?thesis by (auto intro: balanced_cong [OF bal])
  next
    case 2
    then obtain u us' where u: "us = u # us'" using us(3) by (cases us) auto
    obtain v vs where v: "us' @ snapshots c0 = v # vs" by (cases "us' @ snapshots c0") (auto simp: snapshots_def)
    have "config_ok c \<and> snapshots c = us' @ snapshots c0"
      using snapshots_pop [OF us(1) _ 2(2)] us(2) u v by auto
    then show ?thesis using 2 us u p0 by (auto simp: it_balanced_def)
  qed
qed

lemma down_state_balanced:
  assumes inc: "\<And>f c d. inc f c = Some d \<Longrightarrow> same_frame c d"
    and bal: "it_balanced c0 it" and p0: "it_pushed it = 0" and run: "down_state inc it d = Some it'"
  shows "it_balanced c0 it'"
proof -
  have cf: "it_config it" using bal by (simp add: it_balanced_def)
  obtain t n ch it1 p l where t: "it_tree it = Some t" "it_heap it t = Some n" "pt_child n = Some ch"
      and it1: "play_tree_iter_push_params inc (it\<lparr>it_file := -1\<rparr>) = Some it1"
      and it': "it' = it1\<lparr>it_stack := it_loop it1 # it_stack it1, it_loop := l, it_tree := Some p\<rparr>"
    using run cf by (auto simp: down_state_def bind_eq_Some_conv split: if_splits)
  have b: "it_balanced c0 (it\<lparr>it_file := -1\<rparr>)" by (rule balanced_cong [OF bal]) simp_all
  from push_params_balanced [OF inc b _ it1] p0 t show ?thesis
    unfolding it' it_balanced_def by fastforce
qed

lemma iter_step_balanced:
  assumes inc: "\<And>f c d. inc f c = Some d \<Longrightarrow> same_frame c d"
  shows "play_tree_iter_step k inc it d w = Some (r, it') \<Longrightarrow> it_balanced c0 it \<Longrightarrow> it_balanced c0 it'"
proof (induction k arbitrary: it d)
  case (Suc k)
  note bal = Suc.prems(2)
  show ?case
  proof (cases "it_tree it")
    case None
    then show ?thesis using Suc.prems Suc.IH balanced_cong [OF bal] by (auto simp: iter_step_body_def)
  next
    case (Some t)
    obtain it1 pt e rnd where le: "leave_entry it t = Some it1" and st: "step_target it1 t d = Some (pt, e, rnd)"
      using Suc.prems(1) Some by (auto simp: iter_step_body_def bind_eq_Some_conv)
    define it2 where "it2 = it1\<lparr>it_rand := rnd\<rparr>"
    have b1: "it_balanced c0 it1" "it_pushed it1 = 0" using leave_entry_balanced [OF bal le] by auto
    have b2: "it_balanced c0 it2" "it_pushed it2 = 0"
      using b1 by (auto simp: it2_def intro: balanced_cong [OF b1(1)])
    have keep: "it_balanced c0 (it2\<lparr>it_tree := x, it_loop := l\<rparr>)" "it_balanced c0 (it2\<lparr>it_tree := x\<rparr>)"
      "it_balanced c0 (it2\<lparr>it_heap := h\<rparr>)" "it_pushed (it2\<lparr>it_tree := x\<rparr>) = 0" for x l h
      using b2 by (auto intro: balanced_cong [OF b2(1)])
    show ?thesis
    proof (cases pt)
      case None
      consider "it' = it2"
        | h where "play_tree_iter_step k inc (it2\<lparr>it_heap := h\<rparr>) 0 w = Some (r, it')"
        | x l where "play_tree_iter_step k inc (it2\<lparr>it_tree := x, it_loop := l\<rparr>) 0 w = Some (r, it')"
        | x where "play_tree_iter_step k inc (it2\<lparr>it_tree := x\<rparr>) 0 w = Some (r, it')"
        | res where "up_state it2 = Some res"
            "(case res of Inl x \<Rightarrow> Some x | Inr it3 \<Rightarrow> play_tree_iter_step k inc it3 e w) = Some (r, it')"
        using Suc.prems(1) Some le st None
        by (auto simp: iter_step_body_def bind_eq_Some_conv it2_def [symmetric] Let_def loop_back_def split: if_splits)
      then show ?thesis
      proof cases
        case 1 then show ?thesis using b2 by simp
      next
        case 2 then show ?thesis using Suc.IH keep(3) by blast
      next
        case 3 then show ?thesis using Suc.IH keep(1) by blast
      next
        case 4 then show ?thesis using Suc.IH keep(2) by blast
      next
        case (5 res)
        then show ?thesis using up_state_balanced [OF b2 5(1)] Suc.IH by (cases res) auto
      qed
    next
      case p: (Some p)
      consider "it' = it2\<lparr>it_tree := Some p\<rparr>" | "it' = it2"
        | it3 where "down_state inc (it2\<lparr>it_tree := Some p\<rparr>) e = Some it3" "play_tree_iter_step k inc it3 0 w = Some (r, it')"
        | "enter_entry inc it2 p = Some (r, it')"
        | "play_tree_iter_step k inc it2 e w = Some (r, it')"
        using Suc.prems(1) Some le st p
        by (auto simp: iter_step_body_def bind_eq_Some_conv it2_def [symmetric] Let_def split: if_splits)
      then show ?thesis
      proof cases
        case 1 then show ?thesis using keep(2) by simp
      next
        case 2 then show ?thesis using b2 by simp
      next
        case (3 it3)
        have "it_balanced c0 it3" by (rule down_state_balanced [OF _ keep(2) keep(4) 3(1)]) (rule inc)
        then show ?thesis using Suc.IH 3(2) by blast
      next
        case 4
        show ?thesis by (rule enter_entry_balanced [OF _ b2 4]) (rule inc)
      next
        case 5 then show ?thesis using Suc.IH b2 by blast
      qed
    qed
  qed
qed simp

text \<open>Any sequence of steps, each with its direction and whether it stops on nodes.\<close>

fun iter_run :: "nat \<Rightarrow> include_fun \<Rightarrow> (int \<times> bool) list \<Rightarrow> pt_iter \<Rightarrow> pt_iter option" where
  "iter_run k inc [] it = Some it"
| "iter_run k inc ((d, w) # ds) it = do { (r, it) \<leftarrow> play_tree_iter_step k inc it d w; iter_run k inc ds it }"

lemma iter_run_balanced:
  assumes inc: "\<And>f c d. inc f c = Some d \<Longrightarrow> same_frame c d"
  shows "iter_run k inc ds it = Some it' \<Longrightarrow> it_balanced c0 it \<Longrightarrow> it_balanced c0 it'"
proof (induction ds arbitrary: it)
  case (Cons x ds)
  obtain d w where x: "x = (d, w)" by (cases x)
  then obtain r it1 where it1: "play_tree_iter_step k inc it d w = Some (r, it1)" "iter_run k inc ds it1 = Some it'"
    using Cons.prems(1) by (auto simp: bind_eq_Some_conv)
  have "it_balanced c0 it1" by (rule iter_step_balanced [OF _ it1(1) Cons.prems(2)]) (rule inc)
  then show ?case by (rule Cons.IH [OF it1(2)])
qed simp

lemma length_saved_values: "config_ok c \<Longrightarrow> int (length (snapshots c)) = cf_lvl c"
  by (simp add: snapshots_def saved_values_def config_ok_def)

text \<open>
  C20: However a playlist is iterated, forwards, backwards, at random, stopping on nodes or
  not, over a tree of any shape: the configuration is always as many levels above where it
  started as the iterator's status stack and its pushed entry say; and whenever these are
  empty, the local variables have the values they had at the start.
\<close>

theorem playlist_config_levels:
  assumes "\<forall>f c d. inc f c = Some d \<longrightarrow> same_frame c d" and "config_ok c"
    and "play_tree_iter_new h c rnd pt = Some (Some it0)" and "iter_run k inc ds it0 = Some it"
  shows "cf_lvl (it_conf it) = cf_lvl c + int (length (it_stack it)) + it_pushed it \<and>
    (it_stack it = [] \<and> it_pushed it = 0 \<longrightarrow> local_values (it_conf it) = local_values c)"
proof -
  have b0: "it_balanced c it0"
    using assms(2,3) by (auto simp: play_tree_iter_new_def bind_eq_Some_conv it_balanced_def split: if_splits)
  have "it_balanced c it" by (rule iter_run_balanced [OF _ assms(4) b0]) (use assms(1) in blast)
  then obtain us where us: "config_ok (it_conf it)" "snapshots (it_conf it) = us @ snapshots c"
      "length us = length (it_stack it) + nat (it_pushed it)" "it_pushed it \<in> {0, 1}"
    by (auto simp: it_balanced_def)
  have "cf_lvl (it_conf it) = int (length us) + cf_lvl c"
    using length_saved_values [OF us(1)] length_saved_values [OF assms(2)] us(2) by simp
  then show ?thesis using us by (auto simp: snapshots_def)
qed

text \<open>A playlist with two entries, the first with an option, for the witnesses.\<close>

definition ex_entry :: "nat option \<Rightarrow> nat option \<Rightarrow> (string \<times> string) list option \<Rightarrow> string list \<Rightarrow> play_tree" where
  "ex_entry nxt prv ps fs =
     new_node\<lparr>pt_parent := Some 0, pt_next := nxt, pt_prev := prv, pt_params := ps, pt_files := Some fs,
       pt_type := PLAY_TREE_ENTRY_FILE\<rparr>"

definition ex_heap :: pt_heap where
  "ex_heap = [0 \<mapsto> new_node\<lparr>pt_child := Some 1\<rparr>,
              1 \<mapsto> ex_entry (Some 2) None (Some [(''osdlevel'', ''2'')]) [''a''],
              2 \<mapsto> ex_entry None (Some 1) None [''b'', ''c'']]"

lemma playlist_config_levels_witness:
  "\<exists>it0 it. play_tree_iter_new ex_heap ex_config [] 0 = Some (Some it0) \<and>
     iter_run 9 no_include [(0, False), (1, False), (1, False)] it0 = Some it \<and>
     local_values (it_conf it) = local_values ex_config"
proof -
  let ?n = "play_tree_iter_new ex_heap ex_config [] 0"
  have "map_option (map_option (\<lambda>it0. map_option (\<lambda>it. (it_stack it, it_pushed it))
      (iter_run 9 no_include [(0, False), (1, False), (1, False)] it0))) ?n = Some (Some (Some ([], 0)))"
    by code_simp
  then obtain it0 it where it: "?n = Some (Some it0)" "iter_run 9 no_include [(0, False), (1, False), (1, False)] it0 = Some it"
    "it_stack it = []" "it_pushed it = 0"
    by auto
  from playlist_config_levels [OF _ ex_config_ok it(1,2)] it show ?thesis
    by (auto simp: no_include_def frame.refl)
qed

subsection \<open>Invalid entries\<close>

text \<open>What a step sees of the parent.\<close>

definition parent_of :: "pt_heap \<Rightarrow> play_tree \<Rightarrow> play_tree option option" where
  "parent_of h n = (case pt_parent n of None \<Rightarrow> Some None | Some p \<Rightarrow> map_option Some (h p))"

lemma leave_entry_spec:
  assumes "leave_entry it t = Some it1" and "it_heap it t = Some n"
  obtains par where "parent_of (it_heap it) n = Some par" and "it_heap it1 = it_heap it"
    and "it_mode_rnd it1 = (case par of None \<Rightarrow> False | Some m \<Rightarrow> pt_rnd m)"
    and "it_tree it1 = it_tree it" and "it_rand it1 = it_rand it"
proof -
  obtain it2 where it2: "it2 = it \<or> (\<exists>c. it2 = it\<lparr>it_pushed := 0, it_conf := c\<rparr>)"
      "do { n \<leftarrow> it_heap it2 t;
           r \<leftarrow> (case pt_parent n of None \<Rightarrow> Some False | Some par \<Rightarrow> map_option pt_rnd (it_heap it2 par));
           Some (it2\<lparr>it_mode_rnd := r, it_file := -1\<rparr>) } = Some it1"
    using assms(1) unfolding leave_entry_def bind_eq_Some_conv [of "if _ then _ else _"] by (auto split: if_splits)
  have h: "it_heap it2 = it_heap it" "it_tree it2 = it_tree it" "it_rand it2 = it_rand it" using it2(1) by auto
  show thesis
  proof (cases "pt_parent n")
    case None
    then have "it1 = it2\<lparr>it_mode_rnd := False, it_file := -1\<rparr>" using it2(2) h assms(2) by simp
    then show thesis using that [of None] None h by (simp add: parent_of_def)
  next
    case (Some p)
    then obtain m where m: "it_heap it p = Some m" using it2(2) h assms(2) by (cases "it_heap it p") auto
    then have "it1 = it2\<lparr>it_mode_rnd := pt_rnd m, it_file := -1\<rparr>" using it2(2) h assms(2) Some by simp
    then show thesis using that [of "Some m"] Some h m by (simp add: parent_of_def)
  qed
qed

text \<open>A step whose target is a node that is not entered.\<close>

lemma step_body_target:
  assumes "it_tree it = Some t" and "leave_entry it t = Some it1" and "it_heap it t = Some n"
    and "step_target it1 t d = Some (Some p, e, rnd)" and "it2 = it1\<lparr>it_rand := rnd\<rparr>"
  shows "iter_step_body rec inc it d w =
    do {
      n \<leftarrow> it_heap it2 p;
      cv \<leftarrow> (case pt_child n of None \<Rightarrow> Some False | Some ch \<Rightarrow> play_tree_is_valid (it_heap it2) ch);
      if cv
      then (if w then Some (PLAY_TREE_ITER_NODE, it2\<lparr>it_tree := Some p\<rparr>)
            else do { it \<leftarrow> down_state inc (it2\<lparr>it_tree := Some p\<rparr>) e; rec it 0 w })
      else do {
        v \<leftarrow> play_tree_is_valid (it_heap it2) p;
        if v then enter_entry inc it2 p
        else if e = 0 then Some (PLAY_TREE_ITER_ERROR, it2)
        else rec it2 e w } }"
proof -
  obtain par where par: "parent_of (it_heap it) n = Some par" "it_heap it1 = it_heap it"
    by (rule leave_entry_spec [OF assms(2,3)])
  have h: "it_heap it2 = it_heap it1" by (simp add: assms(5))
  show ?thesis
    unfolding iter_step_body_def assms(1,2,4) option.case Option.bind.simps prod.case Let_def assms(5) [symmetric] h
    unfolding par(2) assms(3) Option.bind.simps parent_of_def [symmetric] par(1) by simp
qed

text \<open>
  C37: Stepping forwards from an entry whose next sibling is an empty node does not end:
  the step is repeated from the same entry. (Only cleaning up the tree before keeps
  such nodes out.)
\<close>

theorem step_to_invalid_diverges:
  assumes "it_heap it t = Some n" and "pt_next n = Some q" and "it_heap it q = Some m"
    and "pt_type m = PLAY_TREE_ENTRY_NODE" and "pt_child m = None" and "it_tree it = Some t"
    and "\<forall>p. pt_parent n = Some p \<longrightarrow> map_option pt_rnd (it_heap it p) \<noteq> Some True"
  shows "play_tree_iter_step k inc it 1 with_nodes = None"
  using assms(1,3,6,7)
proof (induction k arbitrary: it)
  case (Suc k)
  show ?case
  proof (cases "leave_entry it t")
    case None
    then show ?thesis using Suc.prems(3) by (simp add: iter_step_body_def)
  next
    case (Some it1)
    obtain par where par: "parent_of (it_heap it) n = Some par" "it_heap it1 = it_heap it"
      "it_mode_rnd it1 = (case par of None \<Rightarrow> False | Some m \<Rightarrow> pt_rnd m)"
      "it_tree it1 = it_tree it" "it_rand it1 = it_rand it"
      by (rule leave_entry_spec [OF Some Suc.prems(1)])
    have r: "\<not> it_mode_rnd it1"
      using Suc.prems(4) par(1,3) by (auto simp: parent_of_def split: option.splits)
    have w: "step_target it1 t 1 = Some (Some q, 1, it_rand it1)"
      using Suc.prems(1) assms(2) r by (simp add: step_target_def par(2) eval_nat_numeral)
    define it2 where "it2 = it1\<lparr>it_rand := it_rand it1\<rparr>"
    have h: "it_heap it2 = it_heap it" "it_tree it2 = it_tree it" by (simp_all add: it2_def par)
    have v: "play_tree_is_valid (it_heap it) q = Some False"
      using Suc.prems(2) assms(4,5) by (simp add: play_tree_is_valid_def valid_list.simps [of _ None])
    have rec: "play_tree_iter_step k inc it2 1 with_nodes = None"
      by (rule Suc.IH) (use Suc.prems h in simp_all)
    have "iter_step_body (play_tree_iter_step k inc) inc it 1 with_nodes = play_tree_iter_step k inc it2 1 with_nodes"
      unfolding step_body_target [OF Suc.prems(3) Some Suc.prems(1) w it2_def] h
      by (simp add: Suc.prems(2) assms(5) v)
    with rec show ?thesis by simp
  qed
qed simp

lemma step_to_invalid_diverges_witness:
  "play_tree_iter_step 100 no_include
     \<lparr>it_heap = ex_heap(2 \<mapsto> new_node\<lparr>pt_parent := Some 0, pt_prev := Some 1\<rparr>), it_conf = ex_config, it_rand = [], it_root = 0,
      it_tree = Some 1, it_config = False, it_loop = 0, it_file = 0, it_num_files = 1, it_pushed = 0, it_mode_rnd = False,
      it_stack = [0]\<rparr> 1 False = None"
  by (rule step_to_invalid_diverges [where t = 1 and q = 2
        and n = "ex_entry (Some 2) None (Some [(''osdlevel'', ''2'')]) [''a'']"
        and m = "new_node\<lparr>pt_parent := Some 0, pt_prev := Some 1\<rparr>"])
     (simp_all add: ex_heap_def ex_entry_def new_node_def)

subsection \<open>The order of the files\<close>

text \<open>
  Trees without loops and random nodes, every node with a child and every entry with a
  file, and their representation in the heap.
\<close>

datatype ptree = Leaf nat "string list" | Branch nat ptree "ptree list"

fun addr :: "ptree \<Rightarrow> nat" where
  "addr (Leaf p fs) = p"
| "addr (Branch p t ts) = p"

fun tree_files :: "ptree \<Rightarrow> string list" where
  "tree_files (Leaf p fs) = fs"
| "tree_files (Branch p t ts) = tree_files t @ concat (map tree_files ts)"

text \<open>The node at an address is followed by the given trees.\<close>

fun next_are :: "pt_heap \<Rightarrow> nat \<Rightarrow> ptree list \<Rightarrow> bool" where
  "next_are h p [] = (\<exists>n. h p = Some n \<and> pt_next n = None)"
| "next_are h p (t # ts) = ((\<exists>n. h p = Some n \<and> pt_next n = Some (addr t)) \<and> next_are h (addr t) ts)"

fun represents :: "pt_heap \<Rightarrow> nat option \<Rightarrow> ptree \<Rightarrow> bool" where
  "represents h par (Leaf p fs) =
     (fs \<noteq> [] \<and> (\<exists>n. h p = Some n \<and> pt_parent n = par \<and> pt_child n = None \<and> pt_type n = PLAY_TREE_ENTRY_FILE \<and> pt_files n = Some fs))"
| "represents h par (Branch p t ts) =
     ((\<exists>n. h p = Some n \<and> pt_parent n = par \<and> pt_child n = Some (addr t) \<and> pt_type n = PLAY_TREE_ENTRY_NODE \<and>
            pt_files n = None \<and> pt_loop n = 0 \<and> \<not> pt_rnd n) \<and>
      represents h (Some p) t \<and> (\<forall>u\<in>set ts. represents h (Some p) u) \<and> next_are h (addr t) ts)"

lemma represents_parent: "represents h par t \<Longrightarrow> \<exists>n. h (addr t) = Some n \<and> pt_parent n = par"
  by (cases t) auto

lemma represents_valid: "represents h par t \<Longrightarrow> play_tree_is_valid h (addr t) = Some True"
proof (induction t arbitrary: par)
  case (Leaf p fs)
  then show ?case by (auto simp: play_tree_is_valid_def pt_assert_def)
next
  case (Branch p t ts)
  then obtain n where n: "h p = Some n" "pt_child n = Some (addr t)" "pt_type n = PLAY_TREE_ENTRY_NODE" by auto
  obtain m where m: "h (addr t) = Some m" using represents_parent [of h "Some p" t] Branch.prems by auto
  have v: "play_tree_is_valid h (addr t) = Some True" using Branch by auto
  then have "valid_list h (Some (addr t)) = Some True"
    by (subst valid_list.simps) (auto simp: m play_tree_is_valid_def split: if_splits)
  then show ?case by (simp add: play_tree_is_valid_def n)
qed

text \<open>
  What playing a tree is to give: each file with the configuration it is played with. A level
  is opened for every node and entry, its parameters are set there, and the level is closed
  behind it; then the configuration goes on to what follows. \<open>None\<close> if setting a parameter
  does not return.
\<close>

definition open_level :: "include_fun \<Rightarrow> pt_heap \<Rightarrow> nat \<Rightarrow> m_config \<Rightarrow> m_config option" where
  "open_level inc h p c =
     do {
       n \<leftarrow> h p;
       c \<leftarrow> m_config_push c;
       case pt_params n of None \<Rightarrow> Some c | Some ps \<Rightarrow> push_set inc ps c }"

type_synonym plays = "(string \<times> m_config) list"

fun tree_plays :: "include_fun \<Rightarrow> pt_heap \<Rightarrow> ptree \<Rightarrow> m_config \<Rightarrow> (plays \<times> m_config) option"
and trees_plays :: "include_fun \<Rightarrow> pt_heap \<Rightarrow> ptree list \<Rightarrow> m_config \<Rightarrow> (plays \<times> m_config) option"
where
  "tree_plays inc h (Leaf p fs) c =
     do { c \<leftarrow> open_level inc h p c; d \<leftarrow> m_config_pop c; Some (map (\<lambda>f. (f, c)) fs, d) }"
| "tree_plays inc h (Branch p t ts) c =
     do {
       c \<leftarrow> open_level inc h p c;
       (xs, c) \<leftarrow> tree_plays inc h t c;
       (ys, c) \<leftarrow> trees_plays inc h ts c;
       d \<leftarrow> m_config_pop c;
       Some (xs @ ys, d) }"
| "trees_plays inc h [] c = Some ([], c)"
| "trees_plays inc h (t # ts) c =
     do { (xs, c) \<leftarrow> tree_plays inc h t c; (ys, c) \<leftarrow> trees_plays inc h ts c; Some (xs @ ys, c) }"

lemma plays_files:
  "tree_plays inc h t c = Some (xs, d) \<Longrightarrow> map fst xs = tree_files t"
  "trees_plays inc h ts c = Some (ys, d) \<Longrightarrow> map fst ys = concat (map tree_files ts)"
proof (induction inc h t c and inc h ts c arbitrary: xs d and ys d rule: tree_plays_trees_plays.induct)
  case (2 inc h p t ts c)
  from 2(3) obtain c1 us c2 vs c3 where c: "open_level inc h p c = Some c1" "tree_plays inc h t c1 = Some (us, c2)"
      "trees_plays inc h ts c2 = Some (vs, c3)" "xs = us @ vs"
    by (auto simp: bind_eq_Some_conv)
  show ?case using 2(1) [OF c(1,2)] 2(2) [OF c(1,2) refl c(3)] c(4) by simp
next
  case (4 inc h t ts c)
  from 4(3) obtain us c2 vs where c: "tree_plays inc h t c = Some (us, c2)" "trees_plays inc h ts c2 = Some (vs, d)" "ys = us @ vs"
    by (auto simp: bind_eq_Some_conv)
  show ?case using 4(1) [OF c(1)] 4(2) [OF c(1) refl c(2)] c(3) by simp
qed (auto simp: bind_eq_Some_conv comp_def)

text \<open>
  The place of a node: the trees to its right, and those to the right of its ancestors up
  to the root, which has neither parent nor siblings.
\<close>

fun place :: "pt_heap \<Rightarrow> nat \<Rightarrow> (nat \<times> ptree list) list \<Rightarrow> nat \<Rightarrow> bool" where
  "place h root [] p = (p = root \<and> (\<exists>n. h p = Some n \<and> pt_parent n = None \<and> pt_next n = None))"
| "place h root ((q, ts) # fr) p =
     ((\<exists>n. h p = Some n \<and> pt_parent n = Some q) \<and> next_are h p ts \<and> (\<forall>t\<in>set ts. represents h (Some q) t) \<and>
      (\<exists>m. h q = Some m \<and> pt_loop m = 0 \<and> \<not> pt_rnd m) \<and> place h root fr q)"

text \<open>What is played after a tree at a place, from the configuration behind it.\<close>

fun plays_after :: "include_fun \<Rightarrow> pt_heap \<Rightarrow> (nat \<times> ptree list) list \<Rightarrow> m_config \<Rightarrow> (plays \<times> m_config) option" where
  "plays_after inc h [] c = Some ([], c)"
| "plays_after inc h ((q, ts) # fr) c =
     do {
       (xs, c) \<leftarrow> trees_plays inc h ts c;
       c \<leftarrow> m_config_pop c;
       (ys, d) \<leftarrow> plays_after inc h fr c;
       Some (xs @ ys, d) }"

text \<open>An iterator with a configuration at a place of a heap.\<close>

definition at_place :: "pt_heap \<Rightarrow> nat \<Rightarrow> (nat \<times> ptree list) list \<Rightarrow> nat \<Rightarrow> pt_iter \<Rightarrow> bool" where
  "at_place h root fr p it =
     (it_heap it = h \<and> it_config it \<and> it_root it = root \<and> it_tree it = Some p \<and> length (it_stack it) = length fr \<and>
      place h root fr p \<and> (\<exists>r. h root = Some r \<and> pt_parent r = None))"

lemma at_placeD:
  assumes "at_place h root fr p it"
  shows "it_heap it = h" "it_config it" "it_tree it = Some p" "length (it_stack it) = length fr" "place h root fr p"
    "\<exists>n. h p = Some n"
  using assms by (simp_all add: at_place_def) (cases fr; auto)

lemma at_place_move:
  assumes "at_place h root fr p it" and "it_heap it' = h" and "it_config it'" and "it_root it' = it_root it"
    and "it_tree it' = Some q" and "length (it_stack it') = length fr'" and "place h root fr' q"
  shows "at_place h root fr' q it'"
  using assms by (simp add: at_place_def)

lemma place_parent:
  assumes "place h root fr p" and "h p = Some n"
  shows "\<exists>par. parent_of h n = Some par \<and> (\<forall>m. par = Some m \<longrightarrow> \<not> pt_rnd m \<and> pt_loop m = 0)"
  using assms by (cases fr) (auto simp: parent_of_def)

text \<open>The configuration when the entry's options, if it has been entered, are popped.\<close>

definition left_with :: "m_config \<Rightarrow> pt_iter \<Rightarrow> bool" where
  "left_with c it = (it_pushed it = 0 \<and> it_conf it = c \<or> it_pushed it = 1 \<and> m_config_pop (it_conf it) = Some c)"

lemma leave_at_place:
  assumes "at_place h root fr p it" and "left_with c it"
  obtains it1 n where "leave_entry it p = Some it1" "h p = Some n" "at_place h root fr p it1" "\<not> it_mode_rnd it1" "it_file it1 = -1"
    "it_conf it1 = c" "it_pushed it1 = 0"
proof -
  obtain n where n: "h p = Some n" using assms by (cases fr) (auto simp: at_place_def)
  have "place h root fr p" using assms by (simp add: at_place_def)
  then obtain par where par: "parent_of h n = Some par" "\<forall>m. par = Some m \<longrightarrow> \<not> pt_rnd m"
    using place_parent [of h root fr p n] n by auto
  let ?it = "it\<lparr>it_pushed := 0, it_conf := c, it_mode_rnd := False, it_file := -1\<rparr>"
  have "(if it_config it \<and> 0 < it_pushed it
           then map_option (\<lambda>c. it\<lparr>it_pushed := 0, it_conf := c\<rparr>) (m_config_pop (it_conf it)) else Some it) = Some (it\<lparr>it_pushed := 0, it_conf := c\<rparr>)"
    using assms by (cases it) (auto simp: left_with_def at_place_def)
  moreover have "it_heap it = h" using assms by (simp add: at_place_def)
  moreover have "(case pt_parent n of None \<Rightarrow> Some False | Some par \<Rightarrow> map_option pt_rnd (h par)) = Some False"
    using par by (auto simp: parent_of_def split: option.splits)
  ultimately have "leave_entry it p = Some ?it"
    using n by (cases "pt_parent n") (auto simp: leave_entry_def)
  moreover have "at_place h root fr p ?it" using assms by (simp add: at_place_def)
  ultimately show ?thesis using that [of ?it] n by simp
qed

text \<open>Opening a level for a node or an entry.\<close>

lemma push_params_level:
  assumes "it_tree it = Some p" and "it_heap it p = Some n" and "open_level inc (it_heap it) p (it_conf it) = Some c"
  shows "play_tree_iter_push_params inc it =
    Some (it\<lparr>it_conf := c, it_pushed := (if pt_child n = None \<and> pt_params n \<noteq> None then 1 else it_pushed it)\<rparr>)"
  using assms by (cases it) (auto simp: play_tree_iter_push_params_def open_level_def bind_eq_Some_conv split: option.splits)

text \<open>An iterator at an entry, with what is still to be played and the configuration behind it all.\<close>

definition reading :: "include_fun \<Rightarrow> pt_heap \<Rightarrow> nat \<Rightarrow> plays \<Rightarrow> m_config \<Rightarrow> pt_iter \<Rightarrow> bool" where
  "reading inc h root rest d it =
     (\<exists>p gs fr n c ys. at_place h root fr p it \<and> h p = Some n \<and> pt_child n = None \<and> pt_files n = Some gs \<and> gs \<noteq> [] \<and>
        it_pushed it = 1 \<and> m_config_pop (it_conf it) = Some c \<and> plays_after inc h fr c = Some (ys, d) \<and>
        it_num_files it = int (length gs) \<and> -1 \<le> it_file it \<and> it_file it < int (length gs) \<and>
        rest = map (\<lambda>f. (f, it_conf it)) (drop (nat (it_file it + 1)) gs) @ ys)"

lemma readingI:
  "at_place h root fr p it \<Longrightarrow> h p = Some n \<Longrightarrow> pt_child n = None \<Longrightarrow> pt_files n = Some gs \<Longrightarrow> gs \<noteq> [] \<Longrightarrow>
   it_pushed it = 1 \<Longrightarrow> m_config_pop (it_conf it) = Some c \<Longrightarrow> plays_after inc h fr c = Some (ys, d) \<Longrightarrow>
   it_num_files it = int (length gs) \<Longrightarrow> -1 \<le> it_file it \<Longrightarrow> it_file it < int (length gs) \<Longrightarrow>
   rest = map (\<lambda>f. (f, it_conf it)) (drop (nat (it_file it + 1)) gs) @ ys \<Longrightarrow> reading inc h root rest d it"
  unfolding reading_def by blast

text \<open>The iterator has just entered a leaf.\<close>

definition entered :: "include_fun \<Rightarrow> pt_heap \<Rightarrow> nat \<Rightarrow> plays \<Rightarrow> m_config \<Rightarrow> (int \<times> pt_iter) option \<Rightarrow> bool" where
  "entered inc h root xs d res = (\<exists>it. res = Some (PLAY_TREE_ITER_ENTRY, it) \<and> reading inc h root xs d it \<and> it_file it = -1)"

text \<open>Arriving at a tree, by a step of 0 or 1: its first file is next.\<close>

definition eventually_entered :: "include_fun \<Rightarrow> pt_heap \<Rightarrow> nat \<Rightarrow> plays \<Rightarrow> m_config \<Rightarrow> (nat \<Rightarrow> (int \<times> pt_iter) option) \<Rightarrow> bool" where
  "eventually_entered inc h root xs d f = (\<exists>K. \<forall>k\<ge>K. entered inc h root xs d (f k))"

lemma eventually_Suc:
  assumes "\<And>k. f (Suc k) = g k" and "eventually_entered inc h root xs d g"
  shows "eventually_entered inc h root xs d f"
proof -
  obtain K where K: "\<forall>k\<ge>K. entered inc h root xs d (g k)" using assms(2) by (auto simp: eventually_entered_def)
  have "entered inc h root xs d (f k)" if "Suc K \<le> k" for k
    using K assms(1) that by (cases k) auto
  then show ?thesis unfolding eventually_entered_def by blast
qed

lemma eventually_now: "(\<And>k. entered inc h root xs d (f (Suc k))) \<Longrightarrow> eventually_entered inc h root xs d f"
proof -
  assume e: "\<And>k. entered inc h root xs d (f (Suc k))"
  have "entered inc h root xs d (f k)" if "Suc 0 \<le> k" for k using e that by (cases k) auto
  then show ?thesis unfolding eventually_entered_def by blast
qed

lemma arrive:
  assumes "represents h par t" and "place h root fr (addr t)" and "at_place h root fr0 p0 it"
    and "leave_entry it p0 = Some it1" and "step_target it1 p0 d = Some (Some (addr t), e, rnd)" and "0 \<le> e"
    and "length fr = length fr0" and "at_place h root fr0 p0 it1" and "it_file it1 = -1" and "it_pushed it1 = 0" and "\<not> it_mode_rnd it1"
    and "tree_plays inc h t (it_conf it1) = Some (xs, c)" and "plays_after inc h fr c = Some (ys, cf)"
  shows "eventually_entered inc h root (xs @ ys) cf (\<lambda>k. play_tree_iter_step k inc it d False)"
  using assms
proof (induction t arbitrary: par fr fr0 p0 it it1 d e rnd xs ys c)
  case (Leaf p fs)
  define it2 where "it2 = it1\<lparr>it_rand := rnd\<rparr>"
  note it = at_placeD [OF Leaf.prems(3)] and it1 = at_placeD [OF Leaf.prems(8)]
  obtain n0 where n0: "it_heap it p0 = Some n0" using it(1,6) by blast
  have h: "it_heap it2 = h" using it1(1) by (simp add: it2_def)
  obtain n where n: "h p = Some n" "pt_child n = None" "pt_files n = Some fs" "fs \<noteq> []"
    using Leaf.prems(1) by auto
  obtain c1 where c1: "open_level inc h p (it_conf it1) = Some c1" "m_config_pop c1 = Some c" "xs = map (\<lambda>f. (f, c1)) fs"
    using Leaf.prems(12) by (auto simp: bind_eq_Some_conv)
  let ?it2 = "it2\<lparr>it_tree := Some p, it_num_files := int (length fs)\<rparr>"
  have "play_tree_iter_push_params inc ?it2 =
      Some (?it2\<lparr>it_conf := c1, it_pushed := (if pt_child n = None \<and> pt_params n \<noteq> None then 1 else it_pushed ?it2)\<rparr>)"
    by (rule push_params_level [where p = p]) (use h n(1) c1(1) in \<open>simp_all add: it2_def\<close>)
  moreover define it3 where "it3 = it2\<lparr>it_tree := Some p, it_num_files := int (length fs), it_conf := c1, it_pushed := 1\<rparr>"
  ultimately have en: "enter_entry inc it2 p = Some (PLAY_TREE_ITER_ENTRY, it3)"
    using it1(2) h n Leaf.prems(11) by (simp add: enter_entry_def it3_def it2_def)
  have v: "play_tree_is_valid h p = Some True" using represents_valid [OF Leaf.prems(1)] by simp
  have body: "iter_step_body rec inc it d False = Some (PLAY_TREE_ITER_ENTRY, it3)" for rec
    unfolding step_body_target [OF it(3) Leaf.prems(4) n0 Leaf.prems(5) [unfolded addr.simps] it2_def] h
    by (simp add: n v en)
  have "at_place h root fr p it3"
    by (rule at_place_move [OF Leaf.prems(8)]) (use it1 Leaf.prems(2,7) in \<open>simp_all add: it3_def it2_def\<close>)
  then have "reading inc h root (xs @ ys) cf it3"
    by (rule readingI [OF _ n _ _ Leaf.prems(13)]) (use c1 n(4) Leaf.prems(9) in \<open>simp_all add: it3_def it2_def\<close>)
  moreover have "it_file it3 = -1" using Leaf.prems(9) by (simp add: it3_def it2_def)
  ultimately have e: "entered inc h root (xs @ ys) cf (Some (PLAY_TREE_ITER_ENTRY, it3))" by (simp add: entered_def)
  show ?case
    by (rule eventually_now) (simp only: play_tree_iter_step.simps body e)
next
  case (Branch p t ts)
  define it2 where "it2 = it1\<lparr>it_rand := rnd\<rparr>"
  note it = at_placeD [OF Branch.prems(3)] and it1 = at_placeD [OF Branch.prems(8)]
  obtain n0 where n0: "it_heap it p0 = Some n0" using it(1,6) by blast
  have h: "it_heap it2 = h" "it_config it2" using it1(1,2) by (simp_all add: it2_def)
  obtain n where n: "h p = Some n" "pt_child n = Some (addr t)" "pt_files n = None" "pt_loop n = 0" "\<not> pt_rnd n"
    and t: "represents h (Some p) t" "\<forall>u\<in>set ts. represents h (Some p) u" "next_are h (addr t) ts"
    using Branch.prems(1) by auto
  obtain m where m: "h (addr t) = Some m" "pt_parent m = Some p" using represents_parent [OF t(1)] by blast
  obtain c1 us c2 bs c3 where c1: "open_level inc h p (it_conf it1) = Some c1" "tree_plays inc h t c1 = Some (us, c2)"
      "trees_plays inc h ts c2 = Some (bs, c3)" "m_config_pop c3 = Some c" "xs = us @ bs"
    using Branch.prems(12) by (auto simp: bind_eq_Some_conv)
  let ?it2 = "it2\<lparr>it_tree := Some p, it_file := -1\<rparr>"
  have push: "play_tree_iter_push_params inc ?it2 =
      Some (?it2\<lparr>it_conf := c1, it_pushed := (if pt_child n = None \<and> pt_params n \<noteq> None then 1 else it_pushed ?it2)\<rparr>)"
    by (rule push_params_level [where p = p]) (use h n(1) c1(1) in \<open>simp_all add: it2_def\<close>)
  define it3 where "it3 = it2\<lparr>it_tree := Some (addr t), it_file := -1, it_conf := c1, it_pushed := 0,
      it_stack := it_loop it2 # it_stack it2, it_loop := pt_loop n - 1\<rparr>"
  have p2: "it_pushed it2 = 0" using Branch.prems(10) by (simp add: it2_def)
  have ds: "down_state inc (it2\<lparr>it_tree := Some p\<rparr>) e = Some it3"
    using Branch.prems(6) push p2 by (simp add: down_state_def h n m it3_def pt_assert_def)
  have body: "iter_step_body rec inc it d False = rec it3 0 False" for rec
    unfolding step_body_target [OF it(3) Branch.prems(4) n0 Branch.prems(5) [unfolded addr.simps] it2_def] h
    by (simp only: n represents_valid [OF t(1)] ds option.case Option.bind.simps if_True if_False Let_def simp_thms)
  let ?fr = "(p, ts) # fr"
  have pl: "place h root ?fr (addr t)" using t n m Branch.prems(2) by simp
  have at3: "at_place h root ?fr (addr t) it3"
    by (rule at_place_move [OF Branch.prems(8)]) (use it1(4) Branch.prems(7) pl h in \<open>simp_all add: it3_def it2_def\<close>)
  have "left_with c1 it3" by (simp add: left_with_def it3_def)
  then obtain it4 where it4: "leave_entry it3 (addr t) = Some it4" "at_place h root ?fr (addr t) it4" "\<not> it_mode_rnd it4" "it_file it4 = -1"
      "it_conf it4 = c1" "it_pushed it4 = 0"
    by (rule leave_at_place [OF at3])
  have st: "step_target it4 (addr t) 0 = Some (Some (addr t), 0, it_rand it4)" using it4(3) by (simp add: step_target_def)
  have af: "plays_after inc h ?fr c2 = Some (bs @ ys, cf)" using c1(3,4) Branch.prems(13) by simp
  have "eventually_entered inc h root (us @ bs @ ys) cf (\<lambda>k. play_tree_iter_step k inc it3 0 False)"
    by (rule Branch.IH(1) [OF t(1) pl at3 it4(1) st _ refl it4(2,4,6,3) _ af]) (use c1(2) it4(5) in simp_all)
  then have "eventually_entered inc h root (us @ bs @ ys) cf (\<lambda>k. play_tree_iter_step k inc it d False)"
    by (rule eventually_Suc [rotated]) (simp only: play_tree_iter_step.simps body)
  then show ?case by (simp add: c1(5))
qed

text \<open>A step with nothing on that side.\<close>

lemma step_body_none:
  assumes "it_tree it = Some t" and "leave_entry it t = Some it1" and "it_heap it t = Some n"
    and "step_target it1 t d = Some (None, e, rnd)" and "it2 = it1\<lparr>it_rand := rnd\<rparr>" and "\<not> it_mode_rnd it1"
    and "parent_of (it_heap it) n = Some par" and "\<not> must_loop it2 par e"
  shows "iter_step_body rec inc it d w =
    do { r \<leftarrow> up_state it2; case r of Inl res \<Rightarrow> Some res | Inr it \<Rightarrow> rec it e w }"
proof -
  obtain par' where "it_heap it1 = it_heap it" by (rule leave_entry_spec [OF assms(2,3)])
  then have h: "it_heap it2 = it_heap it" "\<not> it_mode_rnd it2" using assms(6) by (simp_all add: assms(5))
  show ?thesis
    unfolding iter_step_body_def assms(1,2,4) option.case Option.bind.simps prod.case Let_def assms(5) [symmetric] h
    unfolding assms(3) Option.bind.simps parent_of_def [symmetric] assms(7) using h assms(8) by simp
qed

definition none_right :: "(nat \<times> ptree list) list \<Rightarrow> bool" where
  "none_right fr = (\<forall>x\<in>set fr. snd x = [])"

lemma tree_files_nonempty: "represents h par t \<Longrightarrow> tree_files t \<noteq> []"
  by (induction t arbitrary: par) auto

definition eventually_end :: "m_config \<Rightarrow> (nat \<Rightarrow> (int \<times> pt_iter) option) \<Rightarrow> bool" where
  "eventually_end d f = (\<exists>K. \<forall>k\<ge>K. \<exists>it'. f k = Some (PLAY_TREE_ITER_END, it') \<and> it_conf it' = d)"

lemma eventually_end_Suc:
  assumes "\<And>k. f (Suc k) = g k" and "eventually_end d g"
  shows "eventually_end d f"
proof -
  obtain K where K: "\<forall>k\<ge>K. \<exists>it'. g k = Some (PLAY_TREE_ITER_END, it') \<and> it_conf it' = d" using assms(2) by (auto simp: eventually_end_def)
  have "\<exists>it'. f k = Some (PLAY_TREE_ITER_END, it') \<and> it_conf it' = d" if "Suc K \<le> k" for k
    using K assms(1) that by (cases k) auto
  then show ?thesis unfolding eventually_end_def by blast
qed

lemma eventually_end_now: "(\<And>k. f (Suc k) = Some (PLAY_TREE_ITER_END, it)) \<Longrightarrow> it_conf it = d \<Longrightarrow> eventually_end d f"
proof -
  assume e: "\<And>k. f (Suc k) = Some (PLAY_TREE_ITER_END, it)" "it_conf it = d"
  have "f k = Some (PLAY_TREE_ITER_END, it)" if "Suc 0 \<le> k" for k using e that by (cases k) auto
  then show ?thesis unfolding eventually_end_def using e(2) by blast
qed

lemma walk_next_1: "h p = Some n \<Longrightarrow> walk pt_next h (nat 1) (Some p) = Some (pt_next n, 0)"
  by (simp add: eval_nat_numeral)

lemma step_target_next:
  "at_place h root fr p it \<Longrightarrow> \<not> it_mode_rnd it \<Longrightarrow> h p = Some n \<Longrightarrow> step_target it p 1 = Some (pt_next n, 1, it_rand it)"
  by (simp add: step_target_def at_place_def walk_next_1)

lemma tree_plays_some: "represents h par t \<Longrightarrow> tree_plays inc h t c = Some (xs, d) \<Longrightarrow> xs \<noteq> []"
  using plays_files(1) [of inc h t c xs d] tree_files_nonempty [of h par t] by auto

lemma plays_after_empty:
  "place h root fr p \<Longrightarrow> plays_after inc h fr c = Some (xs, d) \<Longrightarrow> xs = [] \<longleftrightarrow> none_right fr"
proof (induction fr arbitrary: p c xs)
  case (Cons x fr)
  obtain q ts where x: "x = (q, ts)" by (cases x)
  obtain ys e e' zs where y: "trees_plays inc h ts c = Some (ys, e)" "plays_after inc h fr e' = Some (zs, d)" "xs = ys @ zs"
    using Cons.prems(2) by (auto simp: x bind_eq_Some_conv)
  have "zs = [] \<longleftrightarrow> none_right fr" using Cons.IH [of q e' zs] Cons.prems(1) y(2) by (simp add: x)
  moreover have "ys = [] \<longleftrightarrow> ts = []"
    using y(1) Cons.prems(1) tree_plays_some by (cases ts) (fastforce simp: x bind_eq_Some_conv)+
  ultimately show ?case by (auto simp: y(3) x none_right_def)
qed (simp add: none_right_def)

lemma forward:
  "at_place h root fr p it \<Longrightarrow> left_with c it \<Longrightarrow> plays_after inc h fr c = Some (xs, d) \<Longrightarrow>
   (\<not> none_right fr \<longrightarrow> eventually_entered inc h root xs d (\<lambda>k. play_tree_iter_step k inc it 1 False)) \<and>
   (none_right fr \<longrightarrow> eventually_end d (\<lambda>k. play_tree_iter_step k inc it 1 False))"
proof (induction fr arbitrary: p it c xs)
  case Nil
  obtain it1 n where it1: "leave_entry it p = Some it1" "h p = Some n" "at_place h root [] p it1" "\<not> it_mode_rnd it1"
      "it_conf it1 = c"
    by (rule leave_at_place [OF Nil(1,2)])
  note at = at_placeD [OF Nil(1)] and at1 = at_placeD [OF it1(3)]
  have n: "p = root" "pt_parent n = None" "pt_next n = None" using at(5) it1(2) by auto
  have st: "step_target it1 p 1 = Some (None, 1, it_rand it1)" using step_target_next [OF it1(3,4,2)] n by simp
  define it2 where "it2 = it1\<lparr>it_rand := it_rand it1\<rparr>"
  have "up_state it2 = Some (Inl (PLAY_TREE_ITER_END, it2\<lparr>it_file := -1\<rparr>))"
    using it1(2,3) n by (simp add: up_state_def it2_def at_place_def)
  moreover have "iter_step_body rec inc it 1 False =
      do { r \<leftarrow> up_state it2; case r of Inl res \<Rightarrow> Some res | Inr it \<Rightarrow> rec it 1 False }" for rec
    by (rule step_body_none [OF at(3) it1(1) _ st it2_def it1(4), where n = n and par = None])
       (use n it1(2) at(1) in \<open>simp_all add: parent_of_def must_loop_def\<close>)
  ultimately have "play_tree_iter_step (Suc k) inc it 1 False = Some (PLAY_TREE_ITER_END, it2\<lparr>it_file := -1\<rparr>)" for k by simp
  then have "eventually_end c (\<lambda>k. play_tree_iter_step k inc it 1 False)"
    by (rule eventually_end_now) (simp add: it2_def it1(5))
  then show ?case using Nil(3) by (simp add: none_right_def)
next
  case (Cons x fr)
  obtain q ts where x: "x = (q, ts)" by (cases x)
  note at0 = Cons.prems(1) [unfolded x]
  obtain it1 n where it1: "leave_entry it p = Some it1" "h p = Some n" "at_place h root ((q, ts) # fr) p it1" "\<not> it_mode_rnd it1"
      "it_file it1 = -1" "it_conf it1 = c" "it_pushed it1 = 0"
    by (rule leave_at_place [OF at0 Cons.prems(2)])
  note at = at_placeD [OF at0] and at1 = at_placeD [OF it1(3)]
  obtain m where pl: "pt_parent n = Some q" "next_are h p ts" "\<forall>t\<in>set ts. represents h (Some q) t"
      "h q = Some m" "pt_loop m = 0" "\<not> pt_rnd m" "place h root fr q"
    using at(5) it1(2) by auto
  obtain us c1 c2 vs where pa: "trees_plays inc h ts c = Some (us, c1)" "m_config_pop c1 = Some c2" "plays_after inc h fr c2 = Some (vs, d)"
      "xs = us @ vs"
    using Cons.prems(3) by (auto simp: x bind_eq_Some_conv)
  show ?case
  proof (cases ts)
    case Nil
    have n: "pt_next n = None" using pl(2) it1(2) Nil by simp
    have c: "c1 = c" "us = []" using pa(1) Nil by simp_all
    have st: "step_target it1 p 1 = Some (None, 1, it_rand it1)" using step_target_next [OF it1(3,4,2)] n by simp
    define it2 where "it2 = it1\<lparr>it_rand := it_rand it1\<rparr>"
    obtain l st where stk: "it_stack it1 = l # st" "length st = length fr" using at1(4) by (cases "it_stack it1") auto
    define it3 where "it3 = it2\<lparr>it_file := -1, it_stack := st, it_loop := l, it_tree := Some q, it_conf := c2\<rparr>"
    obtain r where r: "h root = Some r" "pt_parent r = None" using it1(3) by (auto simp: at_place_def)
    have h2: "it_heap it2 = h" "it_tree it2 = Some p" "it_root it2 = root" "it_stack it2 = l # st" "it_config it2" "it_conf it2 = c"
        "\<not> it_mode_rnd it2"
      using it1(3,4,6) stk by (simp_all add: it2_def at_place_def)
    have up: "up_state it2 = Some (Inr it3)"
      using pa(2) unfolding c by (simp add: up_state_def h2 it1(2) r pl(1) it3_def Let_def)
    have body: "iter_step_body rec inc it 1 False = rec it3 1 False" for rec
      using step_body_none [OF at(3) it1(1) _ st it2_def it1(4), where n = n and par = "Some m" and rec = rec and inc = inc and w = False]
        pl it1(2) at(1) up by (simp add: parent_of_def must_loop_def)
    have "at_place h root fr q it3"
      by (rule at_place_move [OF it1(3)]) (use h2 stk pl(7) in \<open>simp_all add: it3_def it2_def\<close>)
    moreover have "left_with c2 it3" using it1(7) by (simp add: left_with_def it3_def it2_def)
    ultimately have "(\<not> none_right fr \<longrightarrow> eventually_entered inc h root vs d (\<lambda>k. play_tree_iter_step k inc it3 1 False)) \<and>
        (none_right fr \<longrightarrow> eventually_end d (\<lambda>k. play_tree_iter_step k inc it3 1 False))"
      using pa(3) by (rule Cons.IH)
    then show ?thesis
      using eventually_Suc [where f = "\<lambda>k. play_tree_iter_step k inc it 1 False" and g = "\<lambda>k. play_tree_iter_step k inc it3 1 False"]
        eventually_end_Suc [where f = "\<lambda>k. play_tree_iter_step k inc it 1 False" and g = "\<lambda>k. play_tree_iter_step k inc it3 1 False"]
      by (simp add: body x Nil none_right_def pa(4) c)
  next
    case ts: (Cons t ts')
    have n: "pt_next n = Some (addr t)" using pl(2) it1(2) ts by simp
    have st: "step_target it1 p 1 = Some (Some (addr t), 1, it_rand it1)" using step_target_next [OF it1(3,4,2)] n by simp
    have t: "represents h (Some q) t" using pl(3) ts by simp
    obtain m' where "h (addr t) = Some m'" "pt_parent m' = Some q" using represents_parent [OF t] by blast
    then have pl': "place h root ((q, ts') # fr) (addr t)" using pl ts by simp
    obtain as' e bs' where p1: "tree_plays inc h t (it_conf it1) = Some (as', e)" "trees_plays inc h ts' e = Some (bs', c1)" "us = as' @ bs'"
      using pa(1) ts it1(6) by (auto simp: bind_eq_Some_conv)
    have p2: "plays_after inc h ((q, ts') # fr) e = Some (bs' @ vs, d)" using p1(2) pa(2,3) by simp
    from arrive [OF t pl' at0 it1(1) st _ _ it1(3,5,7,4) p1(1) p2] show ?thesis
      by (simp add: x ts none_right_def pa(4) p1(3))
  qed
qed

subsection \<open>More fuel gives the same step\<close>

definition le_opt :: "'a option \<Rightarrow> 'a option \<Rightarrow> bool" where
  "le_opt x y = (\<forall>r. x = Some r \<longrightarrow> y = Some r)"

lemma le_opt_refl: "le_opt x x" by (simp add: le_opt_def)

lemma le_opt_bind: "(\<And>a. le_opt (f a) (g a)) \<Longrightarrow> le_opt (x \<bind> f) (x \<bind> g)"
  by (cases x) (simp_all add: le_opt_def)

lemma le_opt_if: "le_opt a c \<Longrightarrow> le_opt b d \<Longrightarrow> le_opt (if P then a else b) (if P then c else d)" by simp

lemma le_opt_option: "le_opt a c \<Longrightarrow> (\<And>x. le_opt (f x) (g x)) \<Longrightarrow> le_opt (case_option a f p) (case_option c g p)"
  by (cases p) simp_all

lemma le_opt_sum: "(\<And>x. le_opt (a x) (c x)) \<Longrightarrow> (\<And>x. le_opt (f x) (g x)) \<Longrightarrow> le_opt (case_sum a f p) (case_sum c g p)"
  by (cases p) simp_all

lemma le_opt_prod: "(\<And>x y. le_opt (f x y) (g x y)) \<Longrightarrow> le_opt (case_prod f p) (case_prod g p)"
  by (cases p) simp_all

lemmas le_opt_intros = le_opt_bind le_opt_if le_opt_option le_opt_sum le_opt_prod le_opt_refl

lemma step_body_mono:
  assumes r: "\<And>it d w. le_opt (rec it d w) (rec' it d w)"
  shows "le_opt (iter_step_body rec inc it d w) (iter_step_body rec' inc it d w)"
  unfolding iter_step_body_def Let_def by (intro r le_opt_intros)

lemma iter_step_mono: "k \<le> k' \<Longrightarrow> le_opt (play_tree_iter_step k inc it d w) (play_tree_iter_step k' inc it d w)"
proof (induction k arbitrary: k' it d w)
  case 0
  show ?case by (simp add: le_opt_def)
next
  case (Suc k)
  then obtain j where "k' = Suc j" "k \<le> j" by (cases k') auto
  then show ?case using step_body_mono [of "play_tree_iter_step k inc" "play_tree_iter_step j inc"] Suc.IH by simp
qed

lemma get_file_mono: "k \<le> k' \<Longrightarrow> le_opt (pt_iter_get_file m k inc it d) (pt_iter_get_file m k' inc it d)"
proof (induction m arbitrary: it)
  case 0
  show ?case by (simp add: le_opt_refl)
next
  case (Suc m)
  have bind2: "le_opt (x \<bind> f) (y \<bind> g)" if "le_opt x y" "\<And>a. le_opt (f a) (g a)" for x y :: "(int \<times> pt_iter) option" and f g :: "int \<times> pt_iter \<Rightarrow> (string option \<times> pt_iter) option"
    using that by (cases x) (simp_all add: le_opt_def)
  show ?case
    unfolding pt_iter_get_file.simps by (intro le_opt_bind le_opt_prod le_opt_if le_opt_refl bind2 iter_step_mono Suc)
qed

subsection \<open>Every file once, in order\<close>

lemma next_file:
  assumes "reading inc h root rest d it" and "it_file it + 1 < it_num_files it"
  shows "\<exists>f rest' it'. rest = (f, it_conf it) # rest' \<and> play_tree_iter_get_file it 1 = Some (Some f, it') \<and>
    pt_iter_get_file 2 k inc it 1 = Some (Some f, it') \<and> it_conf it' = it_conf it \<and> reading inc h root rest' d it'"
proof -
  obtain p gs fr n c ys where e: "at_place h root fr p it" "h p = Some n" "pt_child n = None" "pt_files n = Some gs" "gs \<noteq> []"
      "it_pushed it = 1" "m_config_pop (it_conf it) = Some c" "plays_after inc h fr c = Some (ys, d)"
      "it_num_files it = int (length gs)" "-1 \<le> it_file it" "it_file it < int (length gs)"
      "rest = map (\<lambda>f. (f, it_conf it)) (drop (nat (it_file it + 1)) gs) @ ys"
    using assms(1) by (auto simp: reading_def)
  note at = at_placeD [OF e(1)]
  define i where "i = nat (it_file it + 1)"
  have i: "it_file it + 1 = int i" "i < length gs" using e(9,10) assms(2) by (simp_all add: i_def)
  have rest: "rest = (gs ! i, it_conf it) # (map (\<lambda>f. (f, it_conf it)) (drop (Suc i) gs) @ ys)"
    using e(12) i by (simp add: i_def [symmetric] flip: Cons_nth_drop_Suc)
  have g: "play_tree_iter_get_file it 1 = Some (Some (gs ! i), it\<lparr>it_file := int i\<rparr>)"
    using at e assms(2) i by (simp add: play_tree_iter_get_file_def pt_assert_def)
  have "at_place h root fr p (it\<lparr>it_file := int i\<rparr>)" using e(1) by (simp add: at_place_def)
  then have "reading inc h root (map (\<lambda>f. (f, it_conf it)) (drop (Suc i) gs) @ ys) d (it\<lparr>it_file := int i\<rparr>)"
    by (rule readingI [OF _ e(2-5) _ _ e(8)]) (use e(6,7,9) i in \<open>simp_all add: nat_add_distrib\<close>)
  then show ?thesis using g rest by (simp add: eval_nat_numeral)
qed

lemma reading_step:
  assumes "reading inc h root rest d it"
  shows "\<exists>k it'. (case rest of [] \<Rightarrow> pt_iter_get_file 2 k inc it 1 = Some (None, it') \<and> it_conf it' = d
                 | (f, c) # rest' \<Rightarrow> pt_iter_get_file 2 k inc it 1 = Some (Some f, it') \<and> it_conf it' = c \<and> reading inc h root rest' d it')"
proof -
  obtain p gs fr n c ys where e: "at_place h root fr p it" "h p = Some n" "pt_child n = None" "pt_files n = Some gs" "gs \<noteq> []"
      "it_pushed it = 1" "m_config_pop (it_conf it) = Some c" "plays_after inc h fr c = Some (ys, d)"
      "it_num_files it = int (length gs)" "-1 \<le> it_file it" "it_file it < int (length gs)"
      "rest = map (\<lambda>f. (f, it_conf it)) (drop (nat (it_file it + 1)) gs) @ ys"
    using assms by (auto simp: reading_def)
  note at = at_placeD [OF e(1)]
  show ?thesis
  proof (cases "it_file it = int (length gs) - 1")
    case False
    then have "it_file it + 1 < it_num_files it" using e(9,11) by simp
    from next_file [OF assms this, of 0] obtain f rest' it' where "rest = (f, it_conf it) # rest'"
      "pt_iter_get_file 2 0 inc it 1 = Some (Some f, it')" "it_conf it' = it_conf it" "reading inc h root rest' d it'" by blast
    then show ?thesis by auto
  next
    case True
    have rest: "rest = ys" using e(12) True by (simp add: nat_add_distrib)
    have g0: "play_tree_iter_get_file it 1 = Some (None, it)"
      using at e True by (simp add: play_tree_iter_get_file_def pt_assert_def)
    have "left_with c it" using e(6,7) by (simp add: left_with_def)
    note fw = forward [OF e(1) this e(8)] and empty = plays_after_empty [OF at(5) e(8)]
    show ?thesis
    proof (cases rest)
      case Nil
      then obtain k it' where "play_tree_iter_step k inc it 1 False = Some (PLAY_TREE_ITER_END, it')" "it_conf it' = d"
        using fw empty rest by (auto simp: eventually_end_def)
      then have "pt_iter_get_file 2 k inc it 1 = Some (None, it') \<and> it_conf it' = d" by (simp add: eval_nat_numeral g0)
      then show ?thesis using Nil by auto
    next
      case (Cons y rest')
      obtain f c' where y: "y = (f, c')" by (cases y)
      obtain k where k: "entered inc h root rest d (play_tree_iter_step k inc it 1 False)"
        using Cons fw empty rest by (auto simp: eventually_entered_def)
      then obtain it1 where it1: "play_tree_iter_step k inc it 1 False = Some (PLAY_TREE_ITER_ENTRY, it1)" "reading inc h root rest d it1"
          "it_file it1 = -1"
        by (auto simp: entered_def)
      then have "it_file it1 + 1 < it_num_files it1" by (auto simp: reading_def)
      from next_file [OF it1(2) this] obtain it' where
        it': "play_tree_iter_get_file it1 1 = Some (Some f, it')" "it_conf it' = c'" "reading inc h root rest' d it'"
        using Cons y by auto
      then have "pt_iter_get_file 2 k inc it 1 = Some (Some f, it')"
        by (simp add: eval_nat_numeral g0 it1(1))
      then show ?thesis using Cons y it' by auto
    qed
  qed
qed

text \<open>
  The files of the first calls of \<open>pt_iter_get_file\<close> with 1, up to the end, each with the
  configuration it is played with, and the configuration behind them.
\<close>

fun next_plays :: "nat \<Rightarrow> nat \<Rightarrow> include_fun \<Rightarrow> pt_iter \<Rightarrow> (plays \<times> m_config) option" where
  "next_plays 0 k inc it = Some ([], it_conf it)"
| "next_plays (Suc i) k inc it =
     do { (f, it) \<leftarrow> pt_iter_get_file 2 k inc it 1;
          case f of None \<Rightarrow> Some ([], it_conf it) | Some f \<Rightarrow> map_option (apfst ((#) (f, it_conf it))) (next_plays i k inc it) }"

lemma le_opt_map: "le_opt x y \<Longrightarrow> le_opt (map_option f x) (map_option f y)"
  by (auto simp: le_opt_def)

lemma next_plays_mono: "k \<le> k' \<Longrightarrow> le_opt (next_plays i k inc it) (next_plays i k' inc it)"
proof (induction i arbitrary: it)
  case (Suc i)
  show ?case
  proof (cases "pt_iter_get_file 2 k inc it 1")
    case (Some r)
    then have "pt_iter_get_file 2 k' inc it 1 = Some r" using get_file_mono [OF Suc.prems, of 2 inc it 1] by (auto simp: le_opt_def)
    then show ?thesis
      using Suc Some by (auto intro!: le_opt_map le_opt_refl split: prod.splits option.splits)
  qed (simp add: le_opt_def)
qed (simp add: le_opt_refl)

lemma reading_plays:
  "reading inc h root rest d it \<Longrightarrow> length rest < i \<Longrightarrow> \<exists>K. \<forall>k\<ge>K. next_plays i k inc it = Some (rest, d)"
proof (induction rest arbitrary: it i)
  case Nil
  obtain k it' where k: "pt_iter_get_file 2 k inc it 1 = Some (None, it')" "it_conf it' = d" using reading_step [OF Nil(1)] by auto
  obtain j where "i = Suc j" using Nil(2) by (cases i) auto
  then have "next_plays i k inc it = Some ([], d)" by (simp add: k)
  then show ?case using next_plays_mono [of k _ i inc it] by (auto simp: le_opt_def)
next
  case (Cons y rest)
  obtain f c where y: "y = (f, c)" by (cases y)
  obtain k it' where k: "pt_iter_get_file 2 k inc it 1 = Some (Some f, it')" "it_conf it' = c" "reading inc h root rest d it'"
    using reading_step [OF Cons.prems(1)] y by auto
  obtain j where j: "i = Suc j" "length rest < j" using Cons.prems(2) by (cases i) auto
  obtain K where K: "next_plays j l inc it' = Some (rest, d)" if "K \<le> l" for l using Cons.IH [OF k(3) j(2)] by auto
  have "pt_iter_get_file 2 (max k K) inc it 1 = Some (Some f, it')"
    using get_file_mono [of k "max k K" 2 inc it 1] k(1) by (simp add: le_opt_def)
  then have "next_plays i (max k K) inc it = Some (y # rest, d)" using K [of "max k K"] k(2) by (simp add: j y)
  then show ?case using next_plays_mono [of "max k K" _ i inc it] unfolding le_opt_def by blast
qed

lemma step_from_root:
  assumes "represents h None t" and "h (addr t) = Some n" and "pt_next n = None"
    and "it_heap it = h" and "it_config it" and "it_root it = addr t" and "it_tree it = None" and "it_stack it = []" and "it_pushed it = 0"
    and "tree_plays inc h t (it_conf it) = Some (xs, d)"
  shows "eventually_entered inc h (addr t) xs d (\<lambda>k. play_tree_iter_step k inc it 0 False)"
proof -
  define it0 where "it0 = it\<lparr>it_tree := Some (addr t)\<rparr>"
  have par: "pt_parent n = None" using represents_parent [OF assms(1)] assms(2) by auto
  then have pl: "place h (addr t) [] (addr t)" using assms(2,3) by simp
  then have at: "at_place h (addr t) [] (addr t) it0" using assms par by (simp add: at_place_def it0_def)
  have "left_with (it_conf it) it0" using assms(9) by (simp add: left_with_def it0_def)
  then obtain it1 where it1: "leave_entry it0 (addr t) = Some it1" "at_place h (addr t) [] (addr t) it1" "\<not> it_mode_rnd it1" "it_file it1 = -1"
      "it_conf it1 = it_conf it" "it_pushed it1 = 0"
    by (rule leave_at_place [OF at])
  have st: "step_target it1 (addr t) 0 = Some (Some (addr t), 0, it_rand it1)" using it1(3) by (simp add: step_target_def)
  have "eventually_entered inc h (addr t) (xs @ []) d (\<lambda>k. play_tree_iter_step k inc it0 0 False)"
    by (rule arrive [OF assms(1) pl at it1(1) st _ refl it1(2,4,6,3)]) (use assms(10) it1(5) in simp_all)
  moreover have "play_tree_iter_step (Suc k) inc it 0 False = play_tree_iter_step k inc it0 0 False" for k
    by (simp add: iter_step_body_def assms(6,7) it0_def)
  ultimately show ?thesis
    using eventually_Suc [where f = "\<lambda>k. play_tree_iter_step k inc it 0 False" and g = "\<lambda>k. play_tree_iter_step k inc it0 0 False"]
    by simp
qed

lemma playlist_plays_aux:
  assumes t: "represents h None t" and n: "h (addr t) = Some n" "pt_next n = None" and p: "tree_plays inc h t c = Some (plays, d)"
  shows "\<exists>it0 it K. play_tree_iter_new h c rnd (addr t) = Some (Some it0) \<and>
     (\<forall>k\<ge>K. play_tree_iter_step k inc it0 0 False = Some (PLAY_TREE_ITER_ENTRY, it) \<and>
            next_plays (Suc (length plays)) k inc it = Some (plays, d))"
proof -
  have par: "pt_parent n = None" using represents_parent [OF t] n by auto
  obtain it0 where it0: "play_tree_iter_new h c rnd (addr t) = Some (Some it0)" "it_heap it0 = h" "it_root it0 = addr t"
      "it_tree it0 = None" "it_stack it0 = []" "it_config it0" "it_pushed it0 = 0" "it_conf it0 = c"
    by (simp add: play_tree_iter_new_def represents_valid [OF t] n par)
  obtain k where k: "entered inc h (addr t) plays d (play_tree_iter_step k inc it0 0 False)"
    using step_from_root [OF t n it0(2,6,3-5,7), of inc plays d] p unfolding it0(8) by (auto simp: eventually_entered_def)
  then obtain it where it: "play_tree_iter_step k inc it0 0 False = Some (PLAY_TREE_ITER_ENTRY, it)" "reading inc h (addr t) plays d it"
    by (auto simp: entered_def)
  obtain K where K: "\<forall>k\<ge>K. next_plays (Suc (length plays)) k inc it = Some (plays, d)"
    using reading_plays [OF it(2) lessI] by blast
  have "play_tree_iter_step l inc it0 0 False = Some (PLAY_TREE_ITER_ENTRY, it)" if "k \<le> l" for l
    using iter_step_mono [OF that, of inc it0 0 False] it(1) by (simp add: le_opt_def)
  then have "\<forall>l\<ge>max k K. play_tree_iter_step l inc it0 0 False = Some (PLAY_TREE_ITER_ENTRY, it) \<and>
            next_plays (Suc (length plays)) l inc it = Some (plays, d)" using K by simp
  then show ?thesis using it0(1) by blast
qed

text \<open>
  C3: stepping through a playlist without loops or random nodes, with every node having a
  child and every entry a file, plays every file exactly once, in the order of the tree, and
  then ends; and each file is played with the configuration in which a level has been opened
  and the parameters set for every node above it and for its own entry, all levels being closed
  again behind them. From a new iterator the first step enters the first entry, and the calls
  of \<open>pt_iter_get_file\<close> with 1 return the files and at last none; all of them return, with any
  large enough bound on the nested steps, provided that setting the parameters returns (a file
  they include may include itself).
\<close>

theorem playlist_plays_all_files:
  assumes "represents h None t" and "h (addr t) = Some n" and "pt_next n = None" and "tree_plays inc h t c = Some (plays, d)"
  shows "\<exists>it0 it K. play_tree_iter_new h c rnd (addr t) = Some (Some it0) \<and>
     (\<forall>k\<ge>K. play_tree_iter_step k inc it0 0 False = Some (PLAY_TREE_ITER_ENTRY, it) \<and>
            next_plays (Suc (length plays)) k inc it = Some (plays, d)) \<and>
     map fst plays = tree_files t"
  using playlist_plays_aux [OF assms] plays_files(1) [OF assms(4)] by blast

text \<open>A playlist with the files a and b, then c, and then d one level below, and options.\<close>

definition ex_ptree :: ptree where
  "ex_ptree = Branch 1 (Leaf 2 [''a'', ''b'']) [Leaf 3 [''c''], Branch 4 (Leaf 5 [''d'']) []]"

definition ex_ptree_heap :: pt_heap where
  "ex_ptree_heap =
     [1 \<mapsto> new_node\<lparr>pt_child := Some 2\<rparr>,
      2 \<mapsto> new_node\<lparr>pt_parent := Some 1, pt_next := Some 3, pt_type := PLAY_TREE_ENTRY_FILE, pt_files := Some [''a'', ''b''],
             pt_params := Some [(''osdlevel'', ''2'')]\<rparr>,
      3 \<mapsto> new_node\<lparr>pt_parent := Some 1, pt_prev := Some 2, pt_next := Some 4, pt_type := PLAY_TREE_ENTRY_FILE, pt_files := Some [''c'']\<rparr>,
      4 \<mapsto> new_node\<lparr>pt_parent := Some 1, pt_prev := Some 3, pt_child := Some 5, pt_params := Some [(''osdlevel'', ''3'')]\<rparr>,
      5 \<mapsto> new_node\<lparr>pt_parent := Some 4, pt_type := PLAY_TREE_ENTRY_FILE, pt_files := Some [''d'']\<rparr>]"

text \<open>The files with the values of the two local variables.\<close>

definition ex_played :: "(string \<times> opt_val option list) list" where
  "ex_played =
     [(''a'', [Some (Ov_int 0), Some (Ov_int 2)]), (''b'', [Some (Ov_int 0), Some (Ov_int 2)]),
        (''c'', [Some (Ov_int 0), Some (Ov_int 0)]), (''d'', [Some (Ov_int 0), Some (Ov_int 3)])]"

lemma ex_plays:
  "\<exists>plays d. tree_plays no_include ex_ptree_heap ex_ptree ex_config = Some (plays, d) \<and>
     map (\<lambda>(f, c). (f, local_values c)) plays = ex_played"
proof -
  have "map_option (\<lambda>(plays, d). map (\<lambda>(f, c). (f, local_values c)) plays) (tree_plays no_include ex_ptree_heap ex_ptree ex_config) = Some ex_played"
    by code_simp
  then show ?thesis by (auto split: prod.splits)
qed

theorem playlist_plays_all_files_witness:
  "\<exists>it0 it K plays d. play_tree_iter_new ex_ptree_heap ex_config [] 1 = Some (Some it0) \<and>
     (\<forall>k\<ge>K. play_tree_iter_step k no_include it0 0 False = Some (PLAY_TREE_ITER_ENTRY, it) \<and>
            next_plays 5 k no_include it = Some (plays, d)) \<and>
     map (\<lambda>(f, c). (f, local_values c)) plays = ex_played"
proof -
  obtain plays d where p: "tree_plays no_include ex_ptree_heap ex_ptree ex_config = Some (plays, d)"
      "map (\<lambda>(f, c). (f, local_values c)) plays = ex_played"
    using ex_plays by blast
  have r: "represents ex_ptree_heap None ex_ptree" "ex_ptree_heap (addr ex_ptree) = Some (new_node\<lparr>pt_child := Some 2\<rparr>)" "addr ex_ptree = 1"
    by (simp_all add: ex_ptree_def ex_ptree_heap_def new_node_def)
  have l: "Suc (length plays) = 5" using arg_cong [OF p(2), of length] by (simp add: ex_played_def)
  from playlist_plays_all_files [OF r(1,2) _ p(1), of "[]"] p(2) show ?thesis
    unfolding r(3) l by (simp add: new_node_def) blast
qed

end
