(* ===== verification/Parser_Cfg.thy ===== *)
theory Parser_Cfg
  imports Config_Stack
begin

text \<open>
  The configuration file parser (\<open>parser-cfg.c\<close>): splitting a file into lines as \<open>fgets\<close>
  does, parsing a line, and applying it to the configuration or to the profile being
  defined. The file system is a function from names to contents. \<open>None\<close> is an aborted
  program, reading a line behind its end, or a nesting of included files deeper than the
  first argument of \<open>cfg_file\<close>. Failure to allocate the line buffer is not modelled.
\<close>

definition MAX_RECURSION_DEPTH :: int where "MAX_RECURSION_DEPTH = 8"
definition MAX_LINE_LEN :: nat where "MAX_LINE_LEN = 10000"
definition MAX_OPT_LEN :: nat where "MAX_OPT_LEN = 1000"
definition MAX_PARAM_LEN :: nat where "MAX_PARAM_LEN = 1500"

abbreviation (input) newline :: char where "newline \<equiv> CHR 0x0A"

definition c_isprint :: "char \<Rightarrow> bool" where
  "c_isprint c = (32 \<le> byte c \<and> byte c \<le> 126)"

subsection \<open>Lines\<close>

text \<open>One call of \<open>fgets\<close> with room for \<open>n\<close> characters: what it reads and what is left.\<close>

fun fgets :: "nat \<Rightarrow> string \<Rightarrow> string \<times> string" where
  "fgets n [] = ([], [])"
| "fgets 0 (c # s) = ([], c # s)"
| "fgets (Suc n) (c # s) =
     (if c = newline then ([c], s) else let (l, r) = fgets n s in (c # l, r))"

lemma fgets_append: "fst (fgets n s) @ snd (fgets n s) = s"
  by (induction n s rule: fgets.induct) (auto simp: Let_def case_prod_beta)

lemma fgets_shorter: "s \<noteq> [] \<Longrightarrow> 0 < n \<Longrightarrow> length (snd (fgets n s)) < length s"
proof -
  assume "s \<noteq> []" "0 < n"
  then have "fst (fgets n s) \<noteq> []" by (cases s; cases n) (auto simp: Let_def case_prod_beta)
  moreover have "length (fst (fgets n s)) + length (snd (fgets n s)) = length s"
    using fgets_append [of n s] by (metis length_append)
  ultimately show ?thesis by (cases "fst (fgets n s)") auto
qed

text \<open>The lines the loop sees: each is the C string in the buffer.\<close>

function file_lines :: "string \<Rightarrow> string list" where
  "file_lines s =
     (if s = [] then []
      else let (l, r) = fgets (MAX_LINE_LEN - 1) s in c_bstrdup0 l # file_lines r)"
  by pat_completeness auto
termination
proof (relation "measure length")
  fix s l r :: string and x
  assume "s \<noteq> []" "x = fgets (MAX_LINE_LEN - 1) s" "(l, r) = x"
  then show "(r, s) \<in> measure length"
    using fgets_shorter [of s "MAX_LINE_LEN - 1"] by (metis in_measure snd_conv MAX_LINE_LEN_def zero_less_diff one_less_numeral_iff semiring_norm(76))
qed simp

declare file_lines.simps [simp del]

subsection \<open>Parsing a line\<close>

text \<open>
  A line is skipped, is an error that is counted, declares a profile, sets an option
  (\<open>True\<close>: with extra characters behind it), or is read behind its end.
\<close>

datatype cfg_line = Cl_skip | Cl_error | Cl_profile string | Cl_option string string bool | Cl_overrun

definition is_opt_char :: "char \<Rightarrow> bool" where
  "is_opt_char c = (c_isprint c \<and> c \<noteq> CHR '' '' \<and> c \<noteq> CHR ''#'' \<and> c \<noteq> CHR ''='')"

definition is_param_char :: "char \<Rightarrow> bool" where
  "is_param_char c = (c_isprint c \<and> \<not> c_isspace c \<and> c \<noteq> CHR ''#'')"

text \<open>The parameter and what follows it.\<close>

datatype cfg_param = Cp_error | Cp_overrun | Cp_value string string

definition read_param :: "string \<Rightarrow> cfg_param" where
  "read_param s =
     (case s of
        q # s' \<Rightarrow>
          (if q = CHR 0x22 \<or> q = CHR 0x27
           then let p = takeWhile (\<lambda>c. c \<noteq> q) s'
                in if MAX_PARAM_LEN \<le> length p then Cp_error
                   else if length p = length s' then Cp_overrun
                   else Cp_value p (drop (length p + 1) s')
           else let p = takeWhile is_param_char s
                in if MAX_PARAM_LEN \<le> length p then Cp_error else Cp_value p (drop (length p) s))
      | [] \<Rightarrow> Cp_value [] [])"

definition parse_option_line :: "string \<Rightarrow> string \<Rightarrow> cfg_line" where
  "parse_option_line opt s =
     (case dropWhile c_isspace s of
        [] \<Rightarrow> Cl_error
      | c # s \<Rightarrow>
          (if c \<noteq> CHR ''='' then Cl_error
           else case read_param (dropWhile c_isspace s) of
               Cp_error \<Rightarrow> Cl_error
             | Cp_overrun \<Rightarrow> Cl_overrun
             | Cp_value param s \<Rightarrow>
                 (if param = [] then Cl_error
                  else let s = dropWhile c_isspace s in Cl_option opt param (s \<noteq> [] \<and> hd s \<noteq> CHR ''#''))))"

definition parse_cfg_line :: "string \<Rightarrow> cfg_line" where
  "parse_cfg_line line =
     (let s = dropWhile c_isspace line
      in if s = [] \<or> hd s = CHR ''#'' then Cl_skip
         else let opt = takeWhile is_opt_char s
              in if MAX_OPT_LEN \<le> length opt then Cl_error
                 else if opt = [] then Cl_error
                 else if 2 < length opt \<and> hd opt = CHR ''['' \<and> last opt = CHR '']'' then Cl_profile (butlast (tl opt))
                 else parse_option_line opt (drop (length opt) s))"

subsection \<open>Applying a file\<close>

record cfg_state =
  cs_config :: m_config
  cs_profile :: "string option"
  cs_errors :: nat
  cs_ret :: int

definition cfg_error :: "cfg_state \<Rightarrow> cfg_state" where
  "cfg_error st = st\<lparr>cs_errors := cs_errors st + 1, cs_ret := -1\<rparr>"

definition apply_cfg_line :: "include_fun \<Rightarrow> cfg_line \<Rightarrow> cfg_state \<Rightarrow> cfg_state option" where
  "apply_cfg_line inc l st =
     (case l of
        Cl_skip \<Rightarrow> Some st
      | Cl_error \<Rightarrow> Some (cfg_error st)
      | Cl_overrun \<Rightarrow> None
      | Cl_profile p \<Rightarrow>
          Some (if p \<noteq> ''default''
                then st\<lparr>cs_config := m_config_add_profile (cs_config st) p, cs_profile := Some p\<rparr>
                else st\<lparr>cs_profile := None\<rparr>)
      | Cl_option opt param extra \<Rightarrow>
          (let st = (if extra then st\<lparr>cs_ret := -1\<rparr> else st)
           in case (case cs_profile st of
                      Some p \<Rightarrow>
                        (if opt = ''profile-desc'' then Some (1, m_profile_set_desc p param (cs_config st))
                         else m_config_set_profile_option inc p opt param (cs_config st))
                    | None \<Rightarrow> m_config_set_option inc opt (Some param) False (cs_config st)) of
                None \<Rightarrow> None
              | Some (tmp, c) \<Rightarrow>
                  (let st = st\<lparr>cs_config := c\<rparr>
                   in Some (if 0 \<le> tmp \<or> tmp = M_OPT_UNKNOWN then st else cfg_error st))))"

fun apply_cfg_lines :: "include_fun \<Rightarrow> string list \<Rightarrow> cfg_state \<Rightarrow> cfg_state option" where
  "apply_cfg_lines inc [] st = Some st"
| "apply_cfg_lines inc (l # ls) st =
     (if 16 \<le> cs_errors st then Some st
      else case apply_cfg_line inc (parse_cfg_line l) st of
          None \<Rightarrow> None
        | Some st \<Rightarrow> apply_cfg_lines inc ls st)"

definition leave_file :: "m_config \<Rightarrow> m_config \<Rightarrow> m_config" where
  "leave_file c d = d\<lparr>cf_mode := cf_mode c, cf_include_depth := cf_include_depth d - 1\<rparr>"

definition m_config_parse_config_file :: "include_fun \<Rightarrow> string option \<Rightarrow> m_config \<Rightarrow> (int \<times> m_config) option" where
  "m_config_parse_config_file inc conffile c =
     (if MAX_RECURSION_DEPTH < cf_include_depth c then Some (-1, leave_file c c)
      else case conffile of
          None \<Rightarrow> Some (0, leave_file c c)
        | Some text \<Rightarrow>
            map_option (\<lambda>st. (cs_ret st, leave_file c (cs_config st)))
              (apply_cfg_lines inc (file_lines text)
                 \<lparr>cs_config = c\<lparr>cf_mode := M_CONFIG_FILE\<rparr>, cs_profile = None, cs_errors = 0, cs_ret = 1\<rparr>))"

text \<open>With \<open>cfg_include\<close> as the include function, to a nesting below the first argument.\<close>

primrec cfg_file :: "nat \<Rightarrow> (string \<Rightarrow> string option) \<Rightarrow> string \<Rightarrow> m_config \<Rightarrow> (int \<times> m_config) option" where
  "cfg_file 0 fs f c = None"
| "cfg_file (Suc n) fs f c =
     m_config_parse_config_file (\<lambda>g d. map_option snd (cfg_file n fs g d)) (fs f) c"

definition cfg_include :: "nat \<Rightarrow> (string \<Rightarrow> string option) \<Rightarrow> include_fun" where
  "cfg_include n fs f c = map_option snd (cfg_file n fs f c)"

subsection \<open>What reading a file leaves alone\<close>

text \<open>
  Reading a file, with all the files it includes, keeps the registered options, their
  slots, the level, the mode and the profile depth, and lowers the include depth.
\<close>

definition not_deeper :: "m_config \<Rightarrow> m_config \<Rightarrow> bool" where
  "not_deeper c d = (cf_include_depth d \<le> cf_include_depth c)"

interpretation depth: config_change not_deeper
  by unfold_locales (auto simp: not_deeper_def)

definition frame_or_deeper :: "m_config \<Rightarrow> m_config \<Rightarrow> bool" where
  "frame_or_deeper c d = (same_frame c d \<and> not_deeper c d)"

interpretation fd: config_change frame_or_deeper
  by unfold_locales (auto simp: frame_or_deeper_def same_frame_def not_deeper_def)

lemma check_option_fd:
  assumes "\<And>f c d. inc f c = Some d \<Longrightarrow> frame_or_deeper c d"
    and "m_config_check_option inc name param amb c = Some (r, d)"
  shows "frame_or_deeper c d"
proof -
  obtain q where q: "m_config_parse_option (set_profile_lv profile_levels inc) inc name param amb False c = Some (q, d)"
    using assms(2) by (auto simp: m_config_check_option_def m_config_set_profile_def)
  show ?thesis
    by (rule fd.parse_option(1) [OF fd.set_profile assms(1) q]) (rule assms(1))
qed

lemma update_profile_fd: "frame_or_deeper c (update_profile p f c)"
  by (simp add: update_profile_def frame_or_deeper_def same_frame_def not_deeper_def)

lemma add_profile_fd: "frame_or_deeper c (m_config_add_profile c p)"
  by (simp add: m_config_add_profile_def frame_or_deeper_def same_frame_def not_deeper_def split: option.split)

lemma set_profile_option_fd:
  assumes inc: "\<And>f c d. inc f c = Some d \<Longrightarrow> frame_or_deeper c d"
    and "m_config_set_profile_option inc p name val c = Some (r, d)"
  shows "frame_or_deeper c d"
proof -
  obtain i e where e: "m_config_check_option inc name (Some val) False c = Some (i, e)"
    and d: "d = e \<or> d = update_profile p (\<lambda>q. q\<lparr>pr_opts := pr_opts q @ [(name, val)]\<rparr>) e"
    using assms(2) by (auto simp: m_config_set_profile_option_def split: option.splits if_splits)
  have "frame_or_deeper c e" by (rule check_option_fd [OF inc e])
  then show ?thesis using d update_profile_fd fd.trans by blast
qed

lemma apply_cfg_line_fd:
  assumes inc: "\<And>f c d. inc f c = Some d \<Longrightarrow> frame_or_deeper c d"
    and "apply_cfg_line inc l st = Some st'"
  shows "frame_or_deeper (cs_config st) (cs_config st')"
proof (cases l)
  case (Cl_option opt param extra)
  let ?c = "cs_config st"
  obtain tmp d where d: "cs_config st' = d"
    and run: "(case cs_profile st of
          Some p \<Rightarrow> (if opt = ''profile-desc'' then Some (1, m_profile_set_desc p param ?c)
                     else m_config_set_profile_option inc p opt param ?c)
        | None \<Rightarrow> m_config_set_option inc opt (Some param) False ?c) = Some (tmp, d)"
    using assms(2) by (cases extra) (auto simp: apply_cfg_line_def Cl_option Let_def cfg_error_def split: option.splits if_splits)
  have "frame_or_deeper ?c d"
  proof (cases "cs_profile st")
    case None
    with run show ?thesis by (intro fd.set_option [OF inc]) auto
  next
    case (Some p)
    with run show ?thesis
      by (auto simp: m_profile_set_desc_def update_profile_fd split: if_splits intro: set_profile_option_fd [OF inc])
  qed
  with d show ?thesis by simp
qed (use assms(2) in \<open>auto simp: apply_cfg_line_def cfg_error_def fd.refl add_profile_fd split: if_splits\<close>)

lemma apply_cfg_lines_fd:
  assumes inc: "\<And>f c d. inc f c = Some d \<Longrightarrow> frame_or_deeper c d"
  shows "apply_cfg_lines inc ls st = Some st' \<Longrightarrow> frame_or_deeper (cs_config st) (cs_config st')"
proof (induction ls arbitrary: st)
  case (Cons l ls)
  show ?case
  proof (cases "16 \<le> cs_errors st")
    case False
    then obtain st1 where st1: "apply_cfg_line inc (parse_cfg_line l) st = Some st1" "apply_cfg_lines inc ls st1 = Some st'"
      using Cons.prems by (auto split: option.splits)
    have "frame_or_deeper (cs_config st) (cs_config st1)" by (rule apply_cfg_line_fd [OF _ st1(1)]) (rule inc)
    with Cons.IH [OF st1(2)] show ?thesis by (rule fd.trans [rotated])
  qed (use Cons.prems in \<open>simp add: fd.refl\<close>)
qed (simp add: fd.refl)

lemma parse_config_file_fd:
  assumes inc: "\<And>f c d. inc f c = Some d \<Longrightarrow> frame_or_deeper c d"
    and "m_config_parse_config_file inc content c = Some (r, d)"
  shows "same_frame c d \<and> cf_include_depth d < cf_include_depth c"
proof -
  have l: "same_frame c (leave_file c c) \<and> cf_include_depth (leave_file c c) < cf_include_depth c"
    by (simp add: leave_file_def same_frame_def)
  show ?thesis
  proof (cases "MAX_RECURSION_DEPTH < cf_include_depth c \<or> content = None")
    case True
    with assms(2) l show ?thesis by (auto simp: m_config_parse_config_file_def split: if_splits)
  next
    case False
    then obtain contents st where "apply_cfg_lines inc (file_lines contents)
          \<lparr>cs_config = c\<lparr>cf_mode := M_CONFIG_FILE\<rparr>, cs_profile = None, cs_errors = 0, cs_ret = 1\<rparr> = Some st"
      and d: "d = leave_file c (cs_config st)"
      using assms(2) by (auto simp: m_config_parse_config_file_def)
    then have "frame_or_deeper (c\<lparr>cf_mode := M_CONFIG_FILE\<rparr>) (cs_config st)"
      by (auto dest: apply_cfg_lines_fd [rotated] intro: inc)
    then show ?thesis
      by (simp add: d leave_file_def frame_or_deeper_def same_frame_def not_deeper_def)
  qed
qed

text \<open>
  C24: Reading a configuration file, whatever it contains and however deep the files include
  each other, keeps the registered options with their saved values, the level, the mode and
  the profile depth; and it leaves the include depth lower than it was, so that starting at
  0 the limit of 8 is never reached.
\<close>

theorem config_file_frame:
  assumes "cfg_file n fs f c = Some (r, d)"
  shows "same_frame c d \<and> cf_include_depth d < cf_include_depth c"
  using assms
proof (induction n arbitrary: f c r d)
  case (Suc n)
  have inc: "frame_or_deeper c d" if "map_option snd (cfg_file n fs g c) = Some d" for g c d
    using that Suc.IH by (fastforce simp: frame_or_deeper_def not_deeper_def)
  show ?case
    by (rule parse_config_file_fd [OF _ Suc.prems [unfolded cfg_file.simps]]) (rule inc)
qed simp

lemma fgets_code [code]:
  "fgets n s = (case s of
      [] \<Rightarrow> ([], [])
    | c # s' \<Rightarrow> if n = 0 then ([], c # s')
                else if c = newline then ([c], s')
                else let (l, r) = fgets (n - 1) s' in (c # l, r))"
  by (cases n; cases s) simp_all

lemma cfg_file_code [code]:
  "cfg_file n fs f c =
     (if n = 0 then None else m_config_parse_config_file (cfg_include (n - 1) fs) (fs f) c)"
  by (cases n) (simp_all add: cfg_include_def [abs_def])

lemma config_file_frame_witness:
  "\<exists>r d. cfg_file 2 (\<lambda>_. Some ''osdlevel = 2 # comment'') ''f'' ex_config = Some (r, d) \<and> same_frame ex_config d"
proof -
  have "map_option fst (cfg_file 2 (\<lambda>_. Some ''osdlevel = 2 # comment'') ''f'' ex_config) = Some 1" by code_simp
  then obtain r d where "cfg_file 2 (\<lambda>_. Some ''osdlevel = 2 # comment'') ''f'' ex_config = Some (r, d)" by auto
  with config_file_frame [OF this] show ?thesis by blast
qed

subsection \<open>Writing options and reading them\<close>

definition cfg_text :: "string \<times> string \<Rightarrow> string" where
  "cfg_text p = fst p @ CHR ''='' # CHR 0x22 # snd p @ [CHR 0x22, newline]"

definition cfg_writable :: "string \<times> string \<Rightarrow> bool" where
  "cfg_writable p =
     (fst p \<noteq> [] \<and> list_all is_opt_char (fst p) \<and> length (fst p) < MAX_OPT_LEN \<and>
      \<not> (2 < length (fst p) \<and> hd (fst p) = CHR ''['' \<and> last (fst p) = CHR '']'') \<and>
      snd p \<noteq> [] \<and> CHR 0x22 \<notin> set (snd p) \<and> newline \<notin> set (snd p) \<and> NUL \<notin> set (snd p) \<and>
      length (snd p) < MAX_PARAM_LEN)"

lemma opt_char_facts:
  "is_opt_char c \<Longrightarrow> \<not> c_isspace c" "is_opt_char c \<Longrightarrow> c \<noteq> NUL" "is_opt_char c \<Longrightarrow> c \<noteq> newline"
  "is_opt_char c \<Longrightarrow> c \<noteq> CHR ''#''" "\<not> is_opt_char (CHR ''='')"
proof -
  assume c: "is_opt_char c"
  then have b: "32 < byte c"
  proof -
    have "byte c \<noteq> 32"
    proof
      assume "byte c = 32"
      then have "char_of (byte c) = (char_of (32 :: nat) :: char)" by simp
      moreover have "char_of (byte c) = c" by (simp add: byte_def)
      moreover have "(char_of (32 :: nat) :: char) = CHR '' ''" by (simp add: char_of_def bit_iff_odd)
      ultimately have "c = CHR '' ''" by simp
      with c show False by (simp add: is_opt_char_def)
    qed
    with c show ?thesis by (simp add: is_opt_char_def c_isprint_def)
  qed
  then show "\<not> c_isspace c" by (auto simp: c_isspace_def)
  show "c \<noteq> NUL" "c \<noteq> newline" using b by (auto simp: byte_def)
  show "c \<noteq> CHR ''#''" using c by (simp add: is_opt_char_def)
qed (simp add: is_opt_char_def)

lemma parse_cfg_text:
  assumes "cfg_writable (n, v)"
  shows "parse_cfg_line (cfg_text (n, v)) = Cl_option n v False"
proof -
  let ?r = "CHR ''='' # CHR 0x22 # v @ [CHR 0x22, newline]"
  have n: "n \<noteq> []" "\<And>c. c \<in> set n \<Longrightarrow> is_opt_char c" "length n < MAX_OPT_LEN"
    "\<not> (2 < length n \<and> hd n = CHR ''['' \<and> last n = CHR '']'')"
    using assms by (auto simp: cfg_writable_def list_all_iff)
  have v: "v \<noteq> []" "CHR 0x22 \<notin> set v" "length v < MAX_PARAM_LEN"
    using assms by (simp_all add: cfg_writable_def)
  have h: "\<not> c_isspace (hd n)" "hd n \<noteq> CHR ''#''" using n(1) opt_char_facts n(2) by auto
  have s: "dropWhile c_isspace (n @ ?r) = n @ ?r" using h n(1) by (cases n) auto
  have t: "takeWhile is_opt_char (n @ ?r) = n"
    using n(2) opt_char_facts(5) by (simp add: takeWhile_append)
  have eq: "\<not> c_isspace (CHR ''='')" "\<not> c_isspace (CHR 0x22)" "c_isspace newline"
    by (simp_all add: c_isspace_def byte_def)
  have p: "takeWhile (\<lambda>c. c \<noteq> CHR 0x22) (v @ [CHR 0x22, newline]) = v"
    using v(2) by (subst takeWhile_append2) auto
  have "parse_option_line n ?r = Cl_option n v False"
    using v(1,3) by (simp add: parse_option_line_def read_param_def eq p Let_def)
  then show ?thesis
    unfolding parse_cfg_line_def cfg_text_def fst_conv snd_conv Let_def s t
    using n h by (cases n) auto
qed

lemma fgets_line:
  "newline \<notin> set l \<Longrightarrow> length l < n \<Longrightarrow> fgets n (l @ newline # s) = (l @ [newline], s)"
proof (induction l arbitrary: n)
  case Nil
  then show ?case by (cases n) auto
next
  case (Cons c l)
  then show ?case by (cases n) auto
qed

lemma file_lines_text:
  assumes "\<forall>p\<in>set os. cfg_writable p"
  shows "file_lines (concat (map cfg_text os)) = map cfg_text os"
  using assms
proof (induction os)
  case Nil
  then show ?case by (simp add: file_lines.simps)
next
  case (Cons p os)
  obtain n v where p: "p = (n, v)" by (cases p)
  let ?l = "n @ CHR ''='' # CHR 0x22 # v @ [CHR 0x22]"
  have t: "cfg_text p = ?l @ [newline]" by (simp add: cfg_text_def p)
  have ok: "cfg_writable (n, v)" using Cons.prems p by simp
  have nl: "newline \<notin> set ?l" and nul: "\<forall>c\<in>set (cfg_text p). c \<noteq> NUL"
    using ok opt_char_facts(2,3) by (fastforce simp: cfg_writable_def list_all_iff t)+
  have "length ?l < MAX_LINE_LEN - 1"
    using ok by (simp add: cfg_writable_def MAX_LINE_LEN_def MAX_OPT_LEN_def MAX_PARAM_LEN_def)
  then have f: "fgets (MAX_LINE_LEN - 1) (cfg_text p @ concat (map cfg_text os)) = (cfg_text p, concat (map cfg_text os))"
    using fgets_line [OF nl] by (simp add: t)
  have ne: "cfg_text p \<noteq> []" by (simp add: t)
  have d: "c_bstrdup0 (cfg_text p) = cfg_text p"
    unfolding c_bstrdup0_def by (rule takeWhile_all) (use nul in auto)
  show ?case
    using Cons by (subst file_lines.simps) (simp add: f [unfolded One_nat_def] ne d)
qed

text \<open>Setting options one after the other; \<open>None\<close> if one of them is refused.\<close>

fun set_options :: "include_fun \<Rightarrow> (string \<times> string) list \<Rightarrow> m_config \<Rightarrow> m_config option" where
  "set_options inc [] c = Some c"
| "set_options inc ((n, v) # os) c =
     (case m_config_set_option inc n (Some v) False c of
        None \<Rightarrow> None
      | Some (r, d) \<Rightarrow> if r < 0 then None else set_options inc os d)"

lemma apply_cfg_lines_text:
  assumes "\<forall>p\<in>set os. cfg_writable p" and "set_options inc os c = Some d"
  shows "apply_cfg_lines inc (map cfg_text os) \<lparr>cs_config = c, cs_profile = None, cs_errors = 0, cs_ret = 1\<rparr>
    = Some \<lparr>cs_config = d, cs_profile = None, cs_errors = 0, cs_ret = 1\<rparr>"
  using assms
proof (induction os arbitrary: c)
  case (Cons p os)
  obtain n v where p: "p = (n, v)" by (cases p)
  then obtain r e where e: "m_config_set_option inc n (Some v) False c = Some (r, e)" "\<not> r < 0"
      "set_options inc os e = Some d"
    using Cons.prems(2) by (auto split: option.splits if_splits)
  have "cfg_writable (n, v)" using Cons.prems(1) p by simp
  then show ?case
    using Cons.IH [OF _ e(3)] Cons.prems(1) e(1,2)
    by (simp add: p parse_cfg_text apply_cfg_line_def Let_def)
qed simp

text \<open>
  C23: A file of lines \<open>option="value"\<close> does what setting the options one after the other
  in file mode does, and reports success: for any printable names and any values without
  quotes and line ends, if no option is refused.
\<close>

theorem config_file_sets_options:
  assumes "\<forall>p\<in>set os. cfg_writable p" and "cf_include_depth c \<le> MAX_RECURSION_DEPTH"
    and "set_options inc os (c\<lparr>cf_mode := M_CONFIG_FILE\<rparr>) = Some d"
  shows "m_config_parse_config_file inc (Some (concat (map cfg_text os))) c
    = Some (1, d\<lparr>cf_mode := cf_mode c, cf_include_depth := cf_include_depth d - 1\<rparr>)"
  using assms(2) apply_cfg_lines_text [OF assms(1,3)]
  by (simp add: m_config_parse_config_file_def file_lines_text [OF assms(1)] leave_file_def)

lemma config_file_sets_options_witness:
  "\<exists>d. m_config_parse_config_file no_include (Some (concat (map cfg_text [(''osdlevel'', ''3''), (''tv'', ''loop'')]))) ex_config
    = Some (1, d)"
proof -
  let ?os = "[(''osdlevel'', ''3''), (''tv'', ''loop'')]"
  have "set_options no_include ?os (ex_config\<lparr>cf_mode := M_CONFIG_FILE\<rparr>) \<noteq> None" by code_simp
  then obtain d where d: "set_options no_include ?os (ex_config\<lparr>cf_mode := M_CONFIG_FILE\<rparr>) = Some d" by blast
  have w: "\<forall>p\<in>set ?os. cfg_writable p" by code_simp
  have "cf_include_depth ex_config \<le> MAX_RECURSION_DEPTH" by code_simp
  from config_file_sets_options [OF w this d] show ?thesis by blast
qed

subsection \<open>Errors\<close>

text \<open>
  C36: A line whose quoted parameter is not closed is read behind its end: the loop looks
  for the quote only, not for the end of the line.
\<close>

theorem unclosed_quote_overrun:
  assumes "n \<noteq> []" and "list_all is_opt_char n" and "length n < MAX_OPT_LEN" and "hd n \<noteq> CHR ''[''"
    and "CHR 0x22 \<notin> set v" and "length v < MAX_PARAM_LEN"
  shows "parse_cfg_line (n @ ''='' @ CHR 0x22 # v) = Cl_overrun"
proof -
  let ?r = "CHR ''='' # CHR 0x22 # v"
  have n: "\<And>c. c \<in> set n \<Longrightarrow> is_opt_char c" using assms(2) by (simp add: list_all_iff)
  have h: "\<not> c_isspace (hd n)" "hd n \<noteq> CHR ''#''" using assms(1) opt_char_facts n by auto
  have s: "dropWhile c_isspace (n @ ?r) = n @ ?r" using h assms(1) by (cases n) auto
  have t: "takeWhile is_opt_char (n @ ?r) = n"
    using n opt_char_facts(5) by (simp add: takeWhile_append)
  have eq: "\<not> c_isspace (CHR ''='')" "\<not> c_isspace (CHR 0x22)"
    by (simp_all add: c_isspace_def byte_def)
  have p: "takeWhile (\<lambda>c. c \<noteq> CHR 0x22) v = v" using assms(5) by (intro takeWhile_all) auto
  have "parse_option_line n ?r = Cl_overrun"
    using assms(6) by (simp add: parse_option_line_def read_param_def eq p Let_def)
  moreover have "n @ ''='' @ CHR 0x22 # v = n @ ?r" by simp
  ultimately show ?thesis
    unfolding parse_cfg_line_def Let_def by (simp only: s t) (use assms(1,3,4) h in \<open>cases n; auto\<close>)
qed

lemma unclosed_quote_overrun_witness:
  "parse_cfg_line (''sub'' @ ''='' @ CHR 0x22 # ''file name'') = Cl_overrun"
  by (rule unclosed_quote_overrun) (simp_all add: is_opt_char_def c_isprint_def byte_def MAX_OPT_LEN_def MAX_PARAM_LEN_def)

text \<open>
  C35: A configuration file that includes itself is read without end: with any nesting
  allowed there is no result, because the include depth only ever decreases and the limit
  of 8 is not reached.
\<close>

theorem self_include_diverges:
  assumes "fs f = Some (cfg_text (''include'', f))" and "cfg_writable (''include'', f)"
    and "m_config_get_co c ''include'' = Some co" and "co_disabled co = None" and "\<not> o_nocfg (co_opt co)"
    and "\<not> o_pre_parse (co_opt co)" and "cf_include c" and "cf_include_depth c \<le> MAX_RECURSION_DEPTH"
  shows "cfg_file n fs f c = None"
  using assms(3,7,8)
proof (induction n arbitrary: c)
  case (Suc n)
  let ?c = "c\<lparr>cf_mode := M_CONFIG_FILE\<rparr>"
  have fl: "file_lines (cfg_text (''include'', f)) = [cfg_text (''include'', f)]"
    using file_lines_text [of "[(''include'', f)]"] assms(2) by simp
  have f: "blen (Some f) \<noteq> 0" "c_bstrdup0 f = f"
    using assms(2) by (auto simp: cfg_writable_def blen_def c_bstrdup0_def intro: takeWhile_all)
  have co: "m_config_get_co ?c ''include'' = Some co" using Suc.prems(1) by (simp add: m_config_get_co_def)
  have i: "bstrcmp ''include'' ''include'' = 0" by code_simp
  have "cfg_file n fs f ?c = None"
    by (rule Suc.IH [OF co]) (use Suc.prems in simp_all)
  then have "m_config_set_option (\<lambda>g d. map_option snd (cfg_file n fs g d)) ''include'' (Some f) False ?c = None"
    using co assms(4-6) Suc.prems(2) f i
    by (simp add: m_config_set_option_def m_config_parse_option.simps forbidden_in_mode_def set_allowed_def
        parse_include_def bget_def)
  then show ?case
    using assms(1,2) Suc.prems(3)
    by (simp add: m_config_parse_config_file_def fl parse_cfg_text apply_cfg_line_def Let_def)
qed simp

lemma self_include_diverges_witness:
  "\<forall>n. cfg_file n (\<lambda>_. Some (cfg_text (''include'', ''mplayer.conf''))) ''mplayer.conf'' (m_config_new (\<lambda>_. Ov_int 0) True) = None"
proof -
  let ?c = "m_config_new (\<lambda>_. Ov_int 0) True"
  have "map_option co_disabled (m_config_get_co ?c ''include'') = Some None"
    "map_option (o_nocfg \<circ> co_opt) (m_config_get_co ?c ''include'') = Some False"
    "map_option (o_pre_parse \<circ> co_opt) (m_config_get_co ?c ''include'') = Some False"
    by code_simp+
  then obtain co where co: "m_config_get_co ?c ''include'' = Some co" "co_disabled co = None" "\<not> o_nocfg (co_opt co)"
    "\<not> o_pre_parse (co_opt co)" by auto
  have "cf_include ?c" "cf_include_depth ?c \<le> MAX_RECURSION_DEPTH" "cfg_writable (''include'', ''mplayer.conf'')"
    by code_simp+
  then show ?thesis by (intro allI self_include_diverges [OF _ _ co]) simp_all
qed

end
