(* ===== verification/Cmd_Line.thy ===== *)
theory Cmd_Line
  imports PlayTree_Iter Parser_Cfg
begin

text \<open>
  The command line (\<open>parser-mpcmd.c\<close>). The arguments are those behind the name of the
  program; new nodes of the playlist tree get the addresses from \<open>cl_fresh\<close> on. A result
  \<open>None\<close> is one of the functions used. Reading a playlist file (\<open>playtreeparser.c\<close>) is a
  parameter: from its name and a free address it gives the tree read, if any, the next free
  address and the heap.
\<close>

subsection \<open>Options\<close>

text \<open>An argument as an option: its name, its parameter, and whether it has one dash only.\<close>

definition split_opt :: "bstr \<Rightarrow> bstr option \<Rightarrow> (bstr \<times> bstr option \<times> bool) option" where
  "split_opt opt param =
     (if \<not> bstr_startswith opt ''-'' \<or> length opt = 1 then None
      else if bstr_startswith opt ''--''
      then (let opt = bstr_cut opt 2; idx = bstrchr opt (CHR ''='')
            in if 0 < idx then Some (bstr_splice opt 0 idx, Some (bstr_cut opt (idx + 1)), False)
               else Some (opt, None, False))
      else Some (bstr_cut opt 1, param, True))"

text \<open>The option of a name, with \<open>no-\<close> before a flag; else the code of the error.\<close>

definition map_to_option :: "m_config \<Rightarrow> bool \<Rightarrow> bstr \<Rightarrow> bstr option \<Rightarrow> int + opt_info \<times> bstr \<times> bstr option" where
  "map_to_option c old_syntax optname param =
     (case m_config_get_option c optname of
        Some mp_opt \<Rightarrow> Inr (mp_opt, optname, param)
      | None \<Rightarrow>
          if \<not> bstr_startswith optname ''no-'' then Inl (-1)
          else let s = bstr_cut optname 3
               in case m_config_get_option c s of
                    None \<Rightarrow> Inl (-1)
                  | Some mp_opt \<Rightarrow>
                      if o_type mp_opt \<noteq> T_flag then Inl (-1)
                      else if 0 < blen param then Inl (-2)
                      else if old_syntax then Inl (-3)
                      else Inr (mp_opt, s, Some ''no''))"

subsection \<open>State\<close>

text \<open>\<open>cl_local\<close> is the mode; \<open>cl_exit\<close> is set by options that end the program.\<close>

record cmd_line =
  cl_config :: m_config
  cl_heap :: pt_heap
  cl_fresh :: nat
  cl_parent :: nat
  cl_entry :: "nat option"
  cl_local :: bool
  cl_no_more :: bool
  cl_exit :: bool

type_synonym playlist_reader = "string \<Rightarrow> nat \<Rightarrow> pt_heap \<Rightarrow> nat option \<times> nat \<times> pt_heap"

definition cl_new :: "cmd_line \<Rightarrow> nat \<times> cmd_line" where
  "cl_new cl = (cl_fresh cl, cl\<lparr>cl_heap := play_tree_new (cl_heap cl) (cl_fresh cl), cl_fresh := Suc (cl_fresh cl)\<rparr>)"

definition cl_upd :: "nat \<Rightarrow> (play_tree \<Rightarrow> play_tree) \<Rightarrow> cmd_line \<Rightarrow> cmd_line option" where
  "cl_upd p f cl = map_option (\<lambda>h. cl\<lparr>cl_heap := h\<rparr>) (pt_upd p f (cl_heap cl))"

definition add_entry :: "nat \<Rightarrow> cmd_line \<Rightarrow> cmd_line option" where
  "add_entry entry cl =
     map_option (\<lambda>h. cl\<lparr>cl_heap := h, cl_entry := Some entry\<rparr>)
       (case cl_entry cl of
          None \<Rightarrow> play_tree_set_child (Some (cl_parent cl)) (Some entry) (cl_heap cl)
        | Some e \<Rightarrow> play_tree_append_entry e entry (cl_heap cl))"

text \<open>The node options apply to.\<close>

definition cl_target :: "cmd_line \<Rightarrow> nat" where
  "cl_target cl = (case cl_entry cl of Some e \<Rightarrow> e | None \<Rightarrow> cl_parent cl)"

text \<open>Whether the last entry is a group; there may be none.\<close>

definition last_is_group :: "cmd_line \<Rightarrow> bool option" where
  "last_is_group cl = (case cl_entry cl of None \<Rightarrow> Some False | Some e \<Rightarrow> map_option (\<lambda>n. pt_child n \<noteq> None) (cl_heap cl e))"

subsection \<open>Groups\<close>

text \<open>The results of an argument: \<open>None\<close> inside if parsing ends, else how many of the next ones are skipped.\<close>

definition open_group :: "cmd_line \<Rightarrow> (nat option \<times> cmd_line) option" where
  "open_group cl =
     (let (entry, cl) = cl_new cl
      in do {
        n \<leftarrow> cl_heap cl (cl_parent cl);
        cl \<leftarrow> (if pt_rnd n then cl_upd entry (\<lambda>e. e\<lparr>pt_rnd := True\<rparr>) cl else Some cl);
        cl \<leftarrow> add_entry entry cl;
        Some (Some 0, cl\<lparr>cl_entry := None, cl_parent := entry, cl_local := True\<rparr>) })"

definition close_group :: "cmd_line \<Rightarrow> (nat option \<times> cmd_line) option" where
  "close_group cl =
     do {
       n \<leftarrow> cl_heap cl (cl_parent cl);
       case pt_parent n of
         None \<Rightarrow> Some (None, cl)
       | Some q \<Rightarrow> Some (Some 0, cl\<lparr>cl_entry := Some (cl_parent cl), cl_parent := q\<rparr>) }"

subsection \<open>Options of the command line itself\<close>

definition loop_option :: "bstr option \<Rightarrow> bool \<Rightarrow> cmd_line \<Rightarrow> (nat option \<times> cmd_line) option" where
  "loop_option param old_syntax cl =
     (let (l, rest) = bstrtoll (bget param) 0
      in if blen param = 0 \<or> rest \<noteq> [] then Some (None, cl)
         else let l = (if c_int l \<le> 0 then -1 else c_int l)
              in map_option (\<lambda>cl. (Some (of_bool old_syntax), cl)) (cl_upd (cl_target cl) (\<lambda>n. n\<lparr>pt_loop := l\<rparr>) cl))"

definition shuffle_option :: "bool \<Rightarrow> cmd_line \<Rightarrow> (nat option \<times> cmd_line) option" where
  "shuffle_option rnd cl =
     do {
       group \<leftarrow> last_is_group cl;
       cl \<leftarrow> cl_upd (if group then cl_target cl else cl_parent cl) (\<lambda>n. n\<lparr>pt_rnd := rnd\<rparr>) cl;
       Some (Some 0, cl) }"

definition playlist_option :: "playlist_reader \<Rightarrow> bstr option \<Rightarrow> bool \<Rightarrow> cmd_line \<Rightarrow> (nat option \<times> cmd_line) option" where
  "playlist_option pl param old_syntax cl =
     (if blen param = 0 then Some (None, cl)
      else case pl (bget param) (cl_fresh cl) (cl_heap cl) of
             (None, fresh, h) \<Rightarrow> Some (None, cl\<lparr>cl_fresh := fresh, cl_heap := h\<rparr>)
           | (Some entry, fresh, h) \<Rightarrow> do {
               cl \<leftarrow> add_entry entry (cl\<lparr>cl_fresh := fresh, cl_heap := h\<rparr>);
               n \<leftarrow> cl_heap cl (cl_parent cl);
               e \<leftarrow> cl_heap cl entry;
               cl \<leftarrow> (if pt_rnd n \<and> pt_child e \<noteq> None then cl_upd entry (\<lambda>e. e\<lparr>pt_rnd := True\<rparr>) cl else Some cl);
               Some (Some (of_bool old_syntax), cl\<lparr>cl_local := True\<rparr>) })"

subsection \<open>Options of the configuration\<close>

text \<open>Global options are set; options behind the first entry are checked and kept with it.\<close>

definition set_or_keep :: "include_fun \<Rightarrow> opt_info \<Rightarrow> bstr \<Rightarrow> bstr option \<Rightarrow> bool \<Rightarrow> cmd_line \<Rightarrow> (int \<times> cmd_line) option" where
  "set_or_keep inc mp_opt opt param old_syntax cl =
     (if \<not> cl_local cl \<or> o_global mp_opt
      then map_option (\<lambda>(r, c). (r, cl\<lparr>cl_config := c\<rparr>)) (m_config_set_option inc opt param old_syntax (cl_config cl))
      else do {
        (r, c) \<leftarrow> m_config_check_option inc opt param old_syntax (cl_config cl);
        let cl = cl\<lparr>cl_config := c\<rparr>;
        if 0 \<le> r
        then map_option (\<lambda>h. (r, cl\<lparr>cl_heap := h\<rparr>))
               (play_tree_set_param (cl_target cl) opt (if r = 0 then [] else bget param) (cl_heap cl))
        else Some (r, cl) })"

definition normal_option :: "include_fun \<Rightarrow> bstr \<Rightarrow> bstr option \<Rightarrow> bool \<Rightarrow> cmd_line \<Rightarrow> (nat option \<times> cmd_line) option" where
  "normal_option inc opt param old_syntax cl =
     (case map_to_option (cl_config cl) old_syntax opt param of
        Inl _ \<Rightarrow> Some (None, cl)
      | Inr (mp_opt, opt, param) \<Rightarrow> do {
          (r, cl) \<leftarrow> set_or_keep inc mp_opt opt param old_syntax cl;
          if r \<le> M_OPT_EXIT then Some (Some (if old_syntax then nat (M_OPT_EXIT - r) else 0), cl\<lparr>cl_exit := True\<rparr>)
          else if r < 0 then Some (None, cl)
          else Some (Some (if old_syntax then nat r else 0), cl) })"

definition option_arg :: "include_fun \<Rightarrow> playlist_reader \<Rightarrow> bstr \<Rightarrow> bstr option \<Rightarrow> bool \<Rightarrow> cmd_line \<Rightarrow> (nat option \<times> cmd_line) option" where
  "option_arg inc pl opt param old_syntax cl =
     do {
       group \<leftarrow> (if bstrcasecmp opt ''loop'' = 0 then last_is_group cl else Some False);
       if bstrcasecmp opt ''loop'' = 0 \<and> (cl_entry cl = None \<or> group) then loop_option param old_syntax cl
       else if bstrcasecmp opt ''shuffle'' = 0 then shuffle_option True cl
       else if bstrcasecmp opt ''noshuffle'' = 0 \<or> bstrcasecmp opt ''no-shuffle'' = 0 then shuffle_option False cl
       else if bstrcasecmp opt ''playlist'' = 0 then playlist_option pl param old_syntax cl
       else normal_option inc opt param old_syntax cl }"

subsection \<open>Files\<close>

definition dvd_range :: "int \<Rightarrow> bool" where
  "dvd_range a \<longleftrightarrow> 0 < a \<and> a < 256"

text \<open>The titles of a range like \<open>dvd://1-3\<close>: no range, or a range that may be invalid.\<close>

definition dvd_titles :: "string \<Rightarrow> nat \<Rightarrow> int list option option" where
  "dvd_titles arg offset =
     (let s = drop offset arg; splitpos = bstrchr s (CHR ''-'')
      in if splitpos < 0 then None
         else let start = c_int (fst (c_strtoll 10 s));
                  (start, end) = (if start < 0 then (1, \<bar>start\<bar>) else (start, c_int (fst (c_strtoll 10 (drop (nat splitpos + 1) s)))))
              in Some (if dvd_range start \<and> dvd_range end \<and> start < end then Some [start..end] else None))"

fun add_titles :: "string \<Rightarrow> int list \<Rightarrow> nat \<Rightarrow> cmd_line \<Rightarrow> (nat \<times> cmd_line) option" where
  "add_titles pre [] entry cl = Some (entry, cl)"
| "add_titles pre (j # js) entry cl =
     do {
       h \<leftarrow> play_tree_add_file entry (pre @ c_print_int j) (cl_heap cl);
       cl \<leftarrow> add_entry entry (cl\<lparr>cl_heap := h\<rparr>);
       if js = [] then Some (entry, cl) else (let (entry, cl) = cl_new cl in add_titles pre js entry cl) }"

text \<open>An invalid range leaves an entry without files.\<close>

definition file_arg :: "include_fun \<Rightarrow> string \<Rightarrow> cmd_line \<Rightarrow> (nat option \<times> cmd_line) option" where
  "file_arg inc arg cl =
     (let is_dvdnav = 0 \<le> bstr_find arg ''dvdnav://'';
          (entry, cl) = cl_new cl;
          titles = (if 0 \<le> bstr_find arg ''dvd://'' \<or> is_dvdnav then dvd_titles arg (if is_dvdnav then 9 else 6) else None)
      in do {
        (entry, cl) \<leftarrow>
          (case titles of
             None \<Rightarrow> map_option (\<lambda>h. (entry, cl\<lparr>cl_heap := h\<rparr>)) (play_tree_add_file entry arg (cl_heap cl))
           | Some None \<Rightarrow> Some (entry, cl)
           | Some (Some js) \<Rightarrow> add_titles (if is_dvdnav then ''dvdnav://'' else ''dvd://'') js entry cl);
        cl \<leftarrow> (if c_strcaseeq arg ''-''
               then map_option (\<lambda>(_, c). cl\<lparr>cl_config := c\<rparr>) (m_config_set_option inc ''consolecontrols'' (Some ''no'') False (cl_config cl))
               else Some cl);
        cl \<leftarrow> add_entry entry cl;
        Some (Some 0, cl\<lparr>cl_local := True\<rparr>) })"

subsection \<open>The command line\<close>

definition cl_arg :: "include_fun \<Rightarrow> playlist_reader \<Rightarrow> string \<Rightarrow> string list \<Rightarrow> cmd_line \<Rightarrow> (nat option \<times> cmd_line) option" where
  "cl_arg inc pl arg rest cl =
     (if bstrcmp arg ''--'' = 0 then Some (Some 0, cl\<lparr>cl_no_more := True\<rparr>)
      else if bstrcmp arg ''{'' = 0 then open_group cl
      else if bstrcmp arg ''}'' = 0 then close_group cl
      else case (if cl_no_more cl then None else split_opt arg (case rest of [] \<Rightarrow> None | a # _ \<Rightarrow> Some a)) of
             Some (opt, param, old_syntax) \<Rightarrow> option_arg inc pl opt param old_syntax cl
           | None \<Rightarrow> file_arg inc arg cl)"

function cl_args :: "include_fun \<Rightarrow> playlist_reader \<Rightarrow> string list \<Rightarrow> cmd_line \<Rightarrow> (bool \<times> cmd_line) option" where
  "cl_args inc pl [] cl = Some (True, cl)"
| "cl_args inc pl (arg # rest) cl =
     do {
       (r, cl) \<leftarrow> cl_arg inc pl arg rest cl;
       case r of None \<Rightarrow> Some (False, cl) | Some k \<Rightarrow> cl_args inc pl (drop k rest) cl }"
  by pat_completeness auto
termination
  by (relation "measure (\<lambda>(inc, pl, args, cl). length args)") auto

text \<open>The root of the tree if there was no error, the heap and the configuration.\<close>

definition m_config_parse_mp_command_line ::
  "include_fun \<Rightarrow> playlist_reader \<Rightarrow> string list \<Rightarrow> nat \<Rightarrow> pt_heap \<Rightarrow> m_config \<Rightarrow> (nat option \<times> pt_heap \<times> m_config) option"
where
  "m_config_parse_mp_command_line inc pl args root h c =
     do {
       (ok, cl) \<leftarrow> cl_args inc pl args
         \<lparr>cl_config = c\<lparr>cf_mode := M_COMMAND_LINE\<rparr>, cl_heap = play_tree_new h root, cl_fresh = Suc root, cl_parent = root, cl_entry = None,
          cl_local = False, cl_no_more = False, cl_exit = False\<rparr>;
       if ok \<and> \<not> cl_exit cl then Some (Some root, cl_heap cl, cl_config cl)
       else map_option (\<lambda>h. (None, h, cl_config cl)) (play_tree_free root True (cl_heap cl)) }"

subsection \<open>Options that are needed early\<close>

text \<open>The result and the count of \<open>-v\<close>.\<close>

function preparse_args :: "include_fun \<Rightarrow> string list \<Rightarrow> int \<Rightarrow> int \<Rightarrow> m_config \<Rightarrow> (int \<times> int \<times> m_config) option" where
  "preparse_args inc [] ret verbose c = Some (ret, verbose, c)"
| "preparse_args inc (arg # rest) ret verbose c =
     (if bstrcmp arg ''--'' = 0 then Some (ret, verbose, c)
      else case split_opt arg (case rest of [] \<Rightarrow> None | a # _ \<Rightarrow> Some a) of
             None \<Rightarrow> preparse_args inc rest ret verbose c
           | Some (opt, param, old_syntax) \<Rightarrow>
               (case map_to_option c old_syntax opt param of
                  Inl _ \<Rightarrow> preparse_args inc rest ret verbose c
                | Inr (_, opt, param) \<Rightarrow>
                    if bstrcmp opt ''v'' = 0 then preparse_args inc rest ret (verbose + 1) c
                    else do {
                      (r, c) \<leftarrow> m_config_set_option inc opt param old_syntax c;
                      preparse_args inc (drop (if 0 \<le> r \<and> old_syntax then nat r else 0) rest) (if r < 0 then r else ret) verbose c }))"
  by pat_completeness auto
termination
  by (relation "measure (\<lambda>(inc, args, ret, verbose, c). length args)") auto

definition m_config_preparse_command_line :: "include_fun \<Rightarrow> string list \<Rightarrow> int \<Rightarrow> m_config \<Rightarrow> (int \<times> int \<times> m_config) option" where
  "m_config_preparse_command_line inc args verbose c = preparse_args inc args 0 verbose (c\<lparr>cf_mode := M_COMMAND_LINE_PRE_PARSE\<rparr>)"

end
