(* ===== verification/Cmd_Line_Spec.thy ===== *)
theory Cmd_Line_Spec
  imports Cmd_Line
begin

text \<open>
  What a command line means: options, and files and groups of files with options behind them.
  Parsing sets the options before the first file and builds the tree of the files, whose
  entries have the options that follow them; the iterator then plays the files in their
  order on the command line.
\<close>

subsection \<open>Command lines\<close>

type_synonym cl_opt = "string \<times> string option"

datatype cl_item = Cl_file string "cl_opt list" | Cl_group "cl_opt list" "cl_item list" "cl_opt list"

fun opt_text :: "cl_opt \<Rightarrow> string" where
  "opt_text (n, None) = ''--'' @ n"
| "opt_text (n, Some v) = ''--'' @ n @ ''='' @ v"

text \<open>Options of a group stand behind the brace that opens it, or behind the one that closes it.\<close>

fun item_args :: "cl_item \<Rightarrow> string list" where
  "item_args (Cl_file f os) = f # map opt_text os"
| "item_args (Cl_group pre is post) = ''{'' # map opt_text pre @ concat (map item_args is) @ ''}'' # map opt_text post"

definition plain_opt_name :: "string \<Rightarrow> bool" where
  "plain_opt_name n \<longleftrightarrow>
     n \<noteq> [] \<and> CHR ''='' \<notin> set n \<and>
     list_all (\<lambda>s. bstrcasecmp n s \<noteq> 0) [''loop'', ''shuffle'', ''noshuffle'', ''no-shuffle'', ''playlist'']"

definition plain_file :: "string \<Rightarrow> bool" where
  "plain_file f \<longleftrightarrow>
     \<not> prefix ''-'' f \<and> f \<noteq> ''{'' \<and> f \<noteq> ''}'' \<and> bstr_find f ''dvd://'' < 0 \<and> bstr_find f ''dvdnav://'' < 0"

text \<open>What is kept of an option for the time its file is played, if it is accepted.\<close>

definition kept_opt :: "include_fun \<Rightarrow> m_config \<Rightarrow> cl_opt \<Rightarrow> (string \<times> string) option" where
  "kept_opt inc c = (\<lambda>(n, v).
     case map_to_option c False n v of
       Inl _ \<Rightarrow> None
     | Inr (mp_opt, n, v) \<Rightarrow>
         if o_global mp_opt then None
         else case m_config_check_option inc n v False c of
                None \<Rightarrow> None
              | Some (r, _) \<Rightarrow> if r < 0 then None else Some (c_bstrdup0 n, c_bstrdup0 (if r = 0 then [] else bget v)))"

definition opt_ok :: "include_fun \<Rightarrow> m_config \<Rightarrow> cl_opt \<Rightarrow> bool" where
  "opt_ok inc c o' \<longleftrightarrow> plain_opt_name (fst o') \<and> kept_opt inc c o' \<noteq> None"

definition kept :: "include_fun \<Rightarrow> m_config \<Rightarrow> cl_opt list \<Rightarrow> (string \<times> string) list" where
  "kept inc c os = map (\<lambda>o'. the (kept_opt inc c o')) os"

primrec item_ok :: "include_fun \<Rightarrow> m_config \<Rightarrow> cl_item \<Rightarrow> bool" where
  "item_ok inc c (Cl_file f os) \<longleftrightarrow> plain_file f \<and> list_all (opt_ok inc c) os"
| "item_ok inc c (Cl_group pre is post) \<longleftrightarrow>
     list_all (opt_ok inc c) pre \<and> list_all (\<lambda>b. b) (map (item_ok inc c) is) \<and> list_all (opt_ok inc c) post"

text \<open>Global options are set one after the other; \<open>None\<close> if one is refused.\<close>

fun set_globals :: "include_fun \<Rightarrow> cl_opt list \<Rightarrow> m_config \<Rightarrow> m_config option" where
  "set_globals inc [] c = Some c"
| "set_globals inc ((n, v) # os) c =
     (case map_to_option c False n v of
        Inl _ \<Rightarrow> None
      | Inr (_, n, v) \<Rightarrow>
          (case m_config_set_option inc n v False c of
             None \<Rightarrow> None
           | Some (r, d) \<Rightarrow> if r < 0 then None else set_globals inc os d))"

subsection \<open>Trees\<close>

datatype play_item = Play_file string "(string \<times> string) list" | Play_group "play_item list" "(string \<times> string) list"

primrec kept_item :: "include_fun \<Rightarrow> m_config \<Rightarrow> cl_item \<Rightarrow> play_item" where
  "kept_item inc c (Cl_file f os) = Play_file f (kept inc c os)"
| "kept_item inc c (Cl_group pre is post) = Play_group (map (kept_item inc c) is) (kept inc c (pre @ post))"

text \<open>Trees with the addresses of their nodes, and how they are in the heap.\<close>

datatype cl_tree = Tree_file nat string "(string \<times> string) list" | Tree_group nat "cl_tree list" "(string \<times> string) list"

fun tree_addr :: "cl_tree \<Rightarrow> nat" where
  "tree_addr (Tree_file p f ps) = p"
| "tree_addr (Tree_group p ts ps) = p"

primrec tree_item :: "cl_tree \<Rightarrow> play_item" where
  "tree_item (Tree_file p f ps) = Play_file f ps"
| "tree_item (Tree_group p ts ps) = Play_group (map tree_item ts) ps"

fun nodes :: "cl_tree \<Rightarrow> nat list" where
  "nodes (Tree_file p f ps) = [p]"
| "nodes (Tree_group p ts ps) = p # concat (map nodes ts)"

definition first_of :: "nat list \<Rightarrow> nat option" where
  "first_of as = (case as of [] \<Rightarrow> None | a # _ \<Rightarrow> Some a)"

type_synonym node_view = "nat option \<times> nat option \<times> int \<times> string list option \<times> int \<times> bool \<times> (string \<times> string) list"

text \<open>What the links between siblings leave alone.\<close>

definition view :: "play_tree \<Rightarrow> node_view" where
  "view n = (pt_parent n, pt_child n, pt_type n, pt_files n, pt_loop n, pt_rnd n, case pt_params n of None \<Rightarrow> [] | Some ps \<Rightarrow> ps)"

definition view_at :: "pt_heap \<Rightarrow> nat \<Rightarrow> node_view \<Rightarrow> bool" where
  "view_at h p v \<longleftrightarrow> (\<exists>n. h p = Some n \<and> view n = v)"

definition next_at :: "pt_heap \<Rightarrow> nat \<Rightarrow> nat option \<Rightarrow> bool" where
  "next_at h p q \<longleftrightarrow> (\<exists>n. h p = Some n \<and> pt_next n = q)"

fun linked :: "pt_heap \<Rightarrow> nat list \<Rightarrow> bool" where
  "linked h [] = True"
| "linked h (a # as) = (next_at h a (first_of as) \<and> linked h as)"

definition group_view :: "nat option \<Rightarrow> nat list \<Rightarrow> (string \<times> string) list \<Rightarrow> node_view" where
  "group_view par as ps = (par, first_of as, PLAY_TREE_ENTRY_NODE, None, 0, False, ps)"

primrec built :: "pt_heap \<Rightarrow> cl_tree \<Rightarrow> nat option \<Rightarrow> bool" where
  "built h (Tree_file p f ps) = (\<lambda>par. view_at h p (par, None, PLAY_TREE_ENTRY_FILE, Some [f], 0, False, ps))"
| "built h (Tree_group p ts ps) = (\<lambda>par.
     view_at h p (group_view par (map tree_addr ts) ps) \<and> linked h (map tree_addr ts) \<and> list_all (\<lambda>b. b (Some p)) (map (built h) ts))"

lemma nodes_Cons: "\<exists>as. nodes t = tree_addr t # as"
  by (cases t) auto

lemma addr_in [simp]: "tree_addr t \<in> set (nodes t)"
  by (cases t) auto

lemma addr_in_nodes: "t \<in> set ts \<Longrightarrow> tree_addr t \<in> set (concat (map nodes ts))"
  by (simp, use addr_in in blast)

lemma built_group [simp]: "built h (Tree_group p ts ps) par \<longleftrightarrow>
   view_at h p (group_view par (map tree_addr ts) ps) \<and> linked h (map tree_addr ts) \<and> (\<forall>t\<in>set ts. built h t (Some p))"
  by (auto simp: list_all_iff)

declare built.simps(2) [simp del]

lemma linked_cong: "(\<And>a. a \<in> set as \<Longrightarrow> h' a = h a) \<Longrightarrow> linked h' as = linked h as"
  by (induction as) (auto simp: next_at_def)

lemma linked_attach:
  "linked h as \<Longrightarrow> (\<And>x. x \<in> set (butlast as) \<Longrightarrow> h' x = h x) \<Longrightarrow> (as \<noteq> [] \<Longrightarrow> next_at h' (last as) (Some e)) \<Longrightarrow> next_at h' e None \<Longrightarrow>
   linked h' (as @ [e])"
proof (induction as)
  case (Cons a as)
  then show ?case by (cases as) (auto simp: first_of_def next_at_def)
qed (simp add: first_of_def)

lemma linked_last: "linked h as \<Longrightarrow> as \<noteq> [] \<Longrightarrow> next_at h (last as) None"
  by (induction as) (auto simp: first_of_def split: list.splits)

lemma view_at_cong: "h' a = h a \<Longrightarrow> view_at h' a v = view_at h a v" by (simp add: view_at_def)

lemma built_frame: "(\<And>a. a \<in> set (nodes t) \<Longrightarrow> h' a = h a) \<Longrightarrow> built h t par \<Longrightarrow> built h' t par"
proof (induction t arbitrary: par)
  case (Tree_file p f ps)
  then show ?case by (simp add: view_at_def)
next
  case (Tree_group p ts ps)
  have "a \<in> set (nodes (Tree_group p ts ps))" if "a \<in> set (map tree_addr ts)" for a
    using addr_in_nodes [of _ ts] that by auto
  then have "linked h' (map tree_addr ts) = linked h (map tree_addr ts)" by (intro linked_cong Tree_group.prems(1))
  then show ?case using Tree_group by (auto simp: view_at_def)
qed

text \<open>Only the view of the root matters, not its links; \<open>put_params\<close> changes its parameters.\<close>

fun put_params :: "(string \<times> string) list \<Rightarrow> cl_tree \<Rightarrow> cl_tree" where
  "put_params ps (Tree_file p f _) = Tree_file p f ps"
| "put_params ps (Tree_group p ts _) = Tree_group p ts ps"

fun tree_params :: "cl_tree \<Rightarrow> (string \<times> string) list" where
  "tree_params (Tree_file p f ps) = ps"
| "tree_params (Tree_group p ts ps) = ps"

fun root_view :: "nat option \<Rightarrow> cl_tree \<Rightarrow> node_view" where
  "root_view par (Tree_file p f ps) = (par, None, PLAY_TREE_ENTRY_FILE, Some [f], 0, False, ps)"
| "root_view par (Tree_group p ts ps) = group_view par (map tree_addr ts) ps"

lemma put_params_simps [simp]:
  "tree_addr (put_params ps t) = tree_addr t" "nodes (put_params ps t) = nodes t" "put_params (tree_params t) t = t"
  "put_params ps (put_params qs t) = put_params ps t" "tree_params (put_params ps t) = ps"
  by (cases t; simp)+

lemma built_root: "built h t par \<Longrightarrow> view_at h (tree_addr t) (root_view par t)"
  by (cases t) auto

lemma built_params:
  assumes "built h t par" and "\<And>a. a \<in> set (tl (nodes t)) \<Longrightarrow> h' a = h a" and "view_at h' (tree_addr t) (root_view par (put_params ps t))"
  shows "built h' (put_params ps t) par"
proof (cases t)
  case (Tree_group p ts qs)
  have "a \<in> set (tl (nodes t))" if "a \<in> set (map tree_addr ts)" for a
    using addr_in_nodes [of _ ts] that Tree_group by auto
  then have "linked h' (map tree_addr ts) = linked h (map tree_addr ts)" by (intro linked_cong assms(2))
  moreover have "built h' u (Some p)" if "u \<in> set ts" for u
    by (rule built_frame [of u h' h]) (use that assms(1,2) Tree_group in \<open>auto\<close>)
  ultimately show ?thesis using assms(1,3) Tree_group by auto
qed (use assms in simp)

corollary built_links:
  assumes "built h t par" and "\<And>a. a \<in> set (tl (nodes t)) \<Longrightarrow> h' a = h a" and "view_at h' (tree_addr t) (root_view par t)"
  shows "built h' t par"
  using built_params [OF assms(1,2), where ps = "tree_params t"] assms(3) by simp

subsection \<open>Building\<close>

text \<open>The node at \<open>q\<close> is open: it has the trees \<open>ts\<close> and the parameters \<open>ps\<close> so far.\<close>

definition open_at :: "cmd_line \<Rightarrow> nat \<Rightarrow> nat option \<Rightarrow> cl_tree list \<Rightarrow> (string \<times> string) list \<Rightarrow> bool" where
  "open_at cl q par ts ps \<longleftrightarrow>
     cl_parent cl = q \<and> \<not> cl_no_more cl \<and> view_at (cl_heap cl) q (group_view par (map tree_addr ts) ps) \<and> next_at (cl_heap cl) q None \<and>
     (\<forall>t\<in>set ts. built (cl_heap cl) t (Some q)) \<and> linked (cl_heap cl) (map tree_addr ts) \<and>
     cl_entry cl = (if ts = [] then None else Some (tree_addr (last ts))) \<and>
     distinct (q # concat (map nodes ts)) \<and> (\<forall>a\<in>set (q # concat (map nodes ts)). a < cl_fresh cl)"

definition framed :: "cmd_line \<Rightarrow> nat \<Rightarrow> cl_tree list \<Rightarrow> cmd_line \<Rightarrow> bool" where
  "framed cl q ts cl' \<longleftrightarrow>
     cl_fresh cl \<le> cl_fresh cl' \<and> cl_config cl' = cl_config cl \<and> cl_exit cl' = cl_exit cl \<and>
     (\<forall>a<cl_fresh cl. a \<noteq> q \<longrightarrow> (ts = [] \<or> a \<noteq> tree_addr (last ts)) \<longrightarrow> cl_heap cl' a = cl_heap cl a)"

text \<open>The address of a tree is in no other tree of a list, nor deeper in its own.\<close>

lemma other_nodes:
  assumes "distinct (concat (map nodes (ts @ [l])))" and "t \<in> set ts"
  shows "tree_addr l \<notin> set (nodes t)"
proof -
  have "set (nodes t) \<inter> set (nodes l) = {}" using assms by auto
  then show ?thesis using addr_in [of l] by blast
qed

lemma inner_nodes: "distinct (concat (map nodes (ts @ [l]))) \<Longrightarrow> tree_addr l \<notin> set (tl (nodes l))"
  using nodes_Cons [of l] by auto

text \<open>A new entry \<open>e\<close> behind the last tree changes none of the trees.\<close>

lemma siblings_stay:
  assumes d: "distinct (concat (map nodes ts))" and b: "\<And>t. t \<in> set ts \<Longrightarrow> built h t par" and li: "linked h (map tree_addr ts)"
    and e: "e \<notin> set (concat (map nodes ts))" "next_at h' e None"
    and fr: "\<And>a. a \<in> set (concat (map nodes ts)) \<Longrightarrow> a \<noteq> e \<Longrightarrow> ts = [] \<or> a \<noteq> tree_addr (last ts) \<Longrightarrow> h' a = h a"
    and l: "ts \<noteq> [] \<Longrightarrow> view_at h' (tree_addr (last ts)) (root_view par (last ts)) \<and> next_at h' (tree_addr (last ts)) (Some e)"
  shows "\<forall>t\<in>set ts. built h' t par" and "linked h' (map tree_addr ts @ [e])"
proof -
  have "(\<forall>t\<in>set ts. built h' t par) \<and> linked h' (map tree_addr ts @ [e])"
  proof (cases ts rule: rev_cases)
    case Nil
    then show ?thesis using e(2) by (simp add: first_of_def)
  next
    case (snoc us l)
    have d': "distinct (concat (map nodes (us @ [l])))" using d snoc by simp
    have same: "h' a = h a" if "a \<in> set (nodes t)" "t \<in> set ts" "a \<noteq> tree_addr l" for a t
      using fr [of a] e(1) that snoc by auto
    have last: "built h' l par"
    proof (rule built_links)
      show "built h l par" using b snoc by simp
      show "view_at h' (tree_addr l) (root_view par l)" using assms(7) snoc by simp
      show "h' a = h a" if "a \<in> set (tl (nodes l))" for a
      proof -
        have "a \<in> set (nodes l)" "a \<noteq> tree_addr l" using inner_nodes [OF d'] that nodes_Cons [of l] by auto
        then show ?thesis using same snoc by simp
      qed
    qed
    have others: "built h' t par" if t: "t \<in> set us" for t
    proof (rule built_frame)
      show "built h t par" using b t snoc by simp
      show "h' a = h a" if "a \<in> set (nodes t)" for a
        using same [OF that] other_nodes [OF d' t] that t snoc by auto
    qed
    have "linked h' (map tree_addr ts @ [e])"
    proof (rule linked_attach [OF li])
      fix x assume "x \<in> set (butlast (map tree_addr ts))"
      then obtain t where t: "t \<in> set us" "x = tree_addr t" using snoc by auto
      moreover from this have "x \<noteq> tree_addr l" using other_nodes [OF d' t(1)] addr_in [of t] by metis
      ultimately show "h' x = h x" using same [of x t] addr_in [of t] snoc by simp
    qed (use e(2) l snoc in simp_all)
    then show ?thesis using last others snoc by auto
  qed
  then show "\<forall>t\<in>set ts. built h' t par" and "linked h' (map tree_addr ts @ [e])" by simp_all
qed

text \<open>The heap after an entry \<open>e\<close> has been added behind the trees \<open>ts\<close> of the open node.\<close>

definition attached :: "pt_heap \<Rightarrow> pt_heap \<Rightarrow> nat \<Rightarrow> nat option \<Rightarrow> cl_tree list \<Rightarrow> (string \<times> string) list \<Rightarrow> nat \<Rightarrow> node_view \<Rightarrow> bool" where
  "attached h h' q par ts ps e v \<longleftrightarrow>
     view_at h' e v \<and> next_at h' e None \<and> view_at h' q (group_view par (map tree_addr ts @ [e]) ps) \<and> next_at h' q None \<and>
     (\<forall>t\<in>set ts. built h' t (Some q)) \<and> linked h' (map tree_addr ts @ [e]) \<and>
     (\<forall>a. a \<noteq> q \<longrightarrow> a \<noteq> e \<longrightarrow> ts = [] \<or> a \<noteq> tree_addr (last ts) \<longrightarrow> h' a = h a)"

lemma attach_first:
  assumes "view_at h q (group_view par [] ps)" and "next_at h q None" and "h e = Some m" and "pt_next m = None" and "pt_prev m = None" and "e \<noteq> q"
  shows "\<exists>h'. play_tree_set_child (Some q) (Some e) h = Some h' \<and> attached h h' q par [] ps e (view (m\<lparr>pt_parent := Some q\<rparr>))"
proof -
  obtain n where n: "h q = Some n" "view n = group_view par [] ps" "pt_next n = None" using assms by (auto simp: view_at_def next_at_def)
  then have v: "pt_child n = None" "pt_type n = PLAY_TREE_ENTRY_NODE" by (auto simp: view_def group_view_def first_of_def)
  let ?h = "h(q \<mapsto> n\<lparr>pt_child := Some e\<rparr>, e \<mapsto> m\<lparr>pt_parent := Some q\<rparr>)"
  have "set_parents (Some q) (Some e) (h(q \<mapsto> n\<lparr>pt_child := Some e\<rparr>)) = Some ?h"
    using assms(3-6) by (subst set_parents.simps) (simp add: set_parents.simps [of _ None])
  moreover have "first_prev h e = Some e" using assms by (subst first_prev.simps) simp
  moreover have "set_parents None None h = Some h" by (subst set_parents.simps) simp
  ultimately have "play_tree_set_child (Some q) (Some e) h = Some ?h"
    using n v by (simp add: play_tree_set_child_def pt_assert_def pt_upd_def)
  moreover have "attached h ?h q par [] ps e (view (m\<lparr>pt_parent := Some q\<rparr>))"
    using n assms by (simp add: attached_def view_at_def next_at_def first_of_def) (auto simp: view_def group_view_def first_of_def)
  ultimately show ?thesis by blast
qed

lemma attach_next:
  assumes "view_at h q (group_view par (map tree_addr ts) ps)" and "next_at h q None" and "h e = Some m"
    and b: "\<And>t. t \<in> set ts \<Longrightarrow> built h t (Some q)" and li: "linked h (map tree_addr ts)"
    and d: "distinct (q # concat (map nodes ts))" and e: "e \<notin> set (q # concat (map nodes ts))" and ne: "ts \<noteq> []"
  shows "\<exists>h'. play_tree_append_entry (tree_addr (last ts)) e h = Some h' \<and> attached h h' q par ts ps e (view (m\<lparr>pt_parent := Some q\<rparr>))"
proof -
  let ?l = "tree_addr (last ts)"
  have lt: "last ts \<in> set ts" using ne by simp
  have neq: "q \<noteq> ?l" "e \<noteq> ?l" "e \<noteq> q" using d e addr_in_nodes [OF lt] by auto
  obtain n where n: "h ?l = Some n" "view n = root_view (Some q) (last ts)"
    using built_root [OF b [OF lt]] by (auto simp: view_at_def)
  have par: "pt_parent n = Some q" using n(2) by (cases "last ts") (auto simp: view_def group_view_def)
  have nx: "pt_next n = None" using linked_last [OF li] ne n(1) by (simp add: next_at_def last_map)
  let ?m = "m\<lparr>pt_parent := Some q, pt_prev := Some ?l, pt_next := None\<rparr>"
  let ?h = "h(e \<mapsto> ?m, ?l \<mapsto> n\<lparr>pt_next := Some e\<rparr>)"
  have "last_next h ?l = Some ?l" using n nx by (subst last_next.simps) simp
  then have "play_tree_append_entry ?l e h = Some ?h"
    using n(1) par neq assms(3) by (simp add: play_tree_append_entry_def pt_upd_def)
  moreover have "next_at ?h e None" "view_at ?h e (view (m\<lparr>pt_parent := Some q\<rparr>))" using neq by (simp_all add: next_at_def view_at_def view_def)
  moreover have "view_at ?h ?l (root_view (Some q) (last ts))" "next_at ?h ?l (Some e)" using n(2) by (simp_all add: next_at_def view_at_def view_def)
  then have "\<forall>t\<in>set ts. built ?h t (Some q)" "linked ?h (map tree_addr ts @ [e])"
    by (intro siblings_stay [of ts h "Some q" e ?h]; use d e b li neq in \<open>auto simp: next_at_def\<close>)+
  moreover have "view_at ?h q (group_view par (map tree_addr ts @ [e]) ps)" "next_at ?h q None"
    using assms(1,2) neq ne by (auto simp: view_at_def next_at_def group_view_def first_of_def split: list.splits)
  ultimately have "attached h ?h q par ts ps e (view (m\<lparr>pt_parent := Some q\<rparr>))" using ne by (simp add: attached_def)
  then show ?thesis using \<open>play_tree_append_entry ?l e h = Some ?h\<close> by blast
qed

lemma attach:
  assumes o: "open_at cl q par ts ps" and e: "cl_heap cl e = Some m" "pt_next m = None" "pt_prev m = None" and new: "e \<notin> set (q # concat (map nodes ts))"
  shows "\<exists>h. add_entry e cl = Some (cl\<lparr>cl_heap := h, cl_entry := Some e\<rparr>) \<and> attached (cl_heap cl) h q par ts ps e (view (m\<lparr>pt_parent := Some q\<rparr>))"
proof (cases "ts = []")
  case True
  then show ?thesis using attach_first [of "cl_heap cl" q par ps e m] o e new by (auto simp: open_at_def add_entry_def)
next
  case False
  then show ?thesis using attach_next [of "cl_heap cl" q par ts ps e m] o e new by (auto simp: open_at_def add_entry_def)
qed

subsection \<open>Arguments\<close>

definition runs :: "include_fun \<Rightarrow> playlist_reader \<Rightarrow> string list \<Rightarrow> cmd_line \<Rightarrow> cmd_line \<Rightarrow> bool" where
  "runs inc pl args cl cl' \<longleftrightarrow> (\<forall>rest. cl_args inc pl (args @ rest) cl = cl_args inc pl rest cl')"

lemma runs_Nil [simp]: "runs inc pl [] cl cl" by (simp add: runs_def)

lemma runs_append: "runs inc pl as cl cl1 \<Longrightarrow> runs inc pl bs cl1 cl2 \<Longrightarrow> runs inc pl (as @ bs) cl cl2"
  by (simp add: runs_def)

lemma runs_Cons: "runs inc pl [a] cl cl1 \<Longrightarrow> runs inc pl bs cl1 cl2 \<Longrightarrow> runs inc pl (a # bs) cl cl2"
  using runs_append [of inc pl "[a]"] by simp

lemma runs_arg: "(\<And>rest. cl_arg inc pl a rest cl = Some (Some 0, cl')) \<Longrightarrow> runs inc pl [a] cl cl'"
  by (simp add: runs_def)

lemma open_at_frame:
  assumes "open_at cl q par ts ps" and "\<And>a. a \<in> set (q # concat (map nodes ts)) \<Longrightarrow> cl_heap cl' a = cl_heap cl a"
    and "cl_parent cl' = cl_parent cl" and "cl_entry cl' = cl_entry cl" and "cl_no_more cl' = cl_no_more cl" and "cl_fresh cl \<le> cl_fresh cl'"
  shows "open_at cl' q par ts ps"
proof -
  have "built (cl_heap cl') t (Some q)" if "t \<in> set ts" for t
    by (rule built_frame [of t _ "cl_heap cl"]) (use that assms(1,2) in \<open>auto simp: open_at_def\<close>)
  moreover have "linked (cl_heap cl') (map tree_addr ts) = linked (cl_heap cl) (map tree_addr ts)"
    by (rule linked_cong) (use assms(2) addr_in_nodes [of _ ts] in auto)
  ultimately show ?thesis using assms by (fastforce simp: open_at_def view_at_def next_at_def)
qed

lemma open_add:
  assumes "open_at cl q par ts ps" and "view_at h q (group_view par (map tree_addr ts @ [tree_addr u]) ps)" and "next_at h q None"
    and "\<forall>t\<in>set ts. built h t (Some q)" and "linked h (map tree_addr ts @ [tree_addr u])" and "built h u (Some q)"
    and "distinct (nodes u)" and "\<And>a. a \<in> set (nodes u) \<Longrightarrow> cl_fresh cl \<le> a \<and> a < cl_fresh cl'" and "cl_fresh cl \<le> cl_fresh cl'"
    and "cl_heap cl' = h" and "cl_parent cl' = q" and "\<not> cl_no_more cl'" and "cl_entry cl' = Some (tree_addr u)"
  shows "open_at cl' q par (ts @ [u]) ps"
proof -
  have "a < cl_fresh cl" if "a \<in> set (q # concat (map nodes ts))" for a using assms(1) that by (auto simp: open_at_def)
  then have "set (q # concat (map nodes ts)) \<inter> set (nodes u) = {}" using assms(8) by fastforce
  moreover have "\<forall>a\<in>set (q # concat (map nodes ts)). a < cl_fresh cl'" using assms(1,9) by (fastforce simp: open_at_def)
  ultimately show ?thesis using assms by (auto simp: open_at_def)
qed

text \<open>A new node is not linked to any other.\<close>

lemma open_new:
  assumes "open_at cl q par ts ps" and "cl_new cl = (e, cl1)"
  shows "open_at (cl1\<lparr>cl_heap := (cl_heap cl1)(e \<mapsto> m)\<rparr>) q par ts ps" and "e = cl_fresh cl" and "cl_fresh cl1 = Suc e"
    and "e \<notin> set (q # concat (map nodes ts))" and "\<And>a. a \<noteq> e \<Longrightarrow> cl_heap cl1 a = cl_heap cl a"
proof -
  have c: "e = cl_fresh cl" "cl1 = cl\<lparr>cl_heap := (cl_heap cl)(e \<mapsto> new_node), cl_fresh := Suc e\<rparr>"
    using assms(2) by (auto simp: cl_new_def play_tree_new_def)
  then show "e = cl_fresh cl" "cl_fresh cl1 = Suc e" "\<And>a. a \<noteq> e \<Longrightarrow> cl_heap cl1 a = cl_heap cl a" by simp_all
  show n: "e \<notin> set (q # concat (map nodes ts))" using assms(1) c(1) by (auto simp: open_at_def)
  show "open_at (cl1\<lparr>cl_heap := (cl_heap cl1)(e \<mapsto> m)\<rparr>) q par ts ps"
    by (rule open_at_frame [OF assms(1)]) (use n c in auto)
qed

lemma strcaseeq_dash: "c_strcaseeq f ''-'' \<Longrightarrow> f = ''-''"
proof -
  assume "c_strcaseeq f ''-''"
  then obtain c where c: "f = [c]" "c_tolower c = c_tolower (CHR ''-'')" by (auto simp: c_strcaseeq_def)
  have "byte (CHR ''-'') = 45" by (simp add: byte_def)
  then have "byte (c_tolower c) = 45" using c(2) by (simp add: byte_c_tolower)
  then have "byte c = 45" by (simp add: byte_c_tolower split: if_splits)
  then have "char_of (byte c) = (char_of (byte (CHR ''-'')) :: char)" by (simp add: byte_def)
  then show ?thesis using c(1) by simp
qed

lemma file_runs:
  assumes o: "open_at cl q par ts ps" and f: "plain_file f"
  shows "\<exists>cl' e. runs inc pl [f] cl cl' \<and> open_at cl' q par (ts @ [Tree_file e f []]) ps \<and> framed cl q ts cl' \<and> cl_local cl' \<and> cl_fresh cl \<le> e"
proof -
  obtain e cl1 where e: "cl_new cl = (e, cl1)" by (cases "cl_new cl")
  let ?m = "new_node\<lparr>pt_files := Some [f], pt_type := PLAY_TREE_ENTRY_FILE\<rparr>"
  define cl2 where "cl2 = cl1\<lparr>cl_heap := (cl_heap cl1)(e \<mapsto> ?m)\<rparr>"
  note n = open_new [OF o e]
  have o2: "open_at cl2 q par ts ps" using n(1) [of ?m] by (simp add: cl2_def)
  have m: "cl_heap cl2 e = Some ?m" "pt_next ?m = None" "pt_prev ?m = None" by (simp_all add: cl2_def new_node_def)
  obtain h where h: "add_entry e cl2 = Some (cl2\<lparr>cl_heap := h, cl_entry := Some e\<rparr>)"
      "attached (cl_heap cl2) h q par ts ps e (view (?m\<lparr>pt_parent := Some q\<rparr>))"
    using attach [OF o2 m n(4)] by blast
  let ?cl = "cl2\<lparr>cl_heap := h, cl_entry := Some e, cl_local := True\<rparr>"
  have c1: "cl1 = cl\<lparr>cl_heap := cl_heap cl1, cl_fresh := Suc e\<rparr>" "cl_heap cl1 e = Some new_node"
      "cl_config cl1 = cl_config cl" "cl_exit cl1 = cl_exit cl"
    using e by (auto simp: cl_new_def play_tree_new_def)
  have add: "play_tree_add_file e f (cl_heap cl1) = Some (cl_heap cl2)"
    using c1(2) by (simp add: play_tree_add_file_def pt_assert_def cl2_def new_node_def)
  have "file_arg inc f cl = Some (Some 0, ?cl)"
    using f h(1) add strcaseeq_dash [of f] by (auto simp: file_arg_def plain_file_def e cl2_def)
  moreover have "\<not> prefix ''-'' f" "f \<noteq> ''--''" "f \<noteq> ''{''" "f \<noteq> ''}''" using f by (auto simp: plain_file_def)
  ultimately have "runs inc pl [f] cl ?cl"
    by (intro runs_arg) (simp add: cl_arg_def bstrcmp_eq_0_iff split_opt_def bstr_startswith_iff)
  moreover have "open_at ?cl q par (ts @ [Tree_file e f []]) ps"
    by (rule open_add [OF o, of h]) (use h(2) o2 n in \<open>auto simp: attached_def view_def new_node_def open_at_def cl2_def\<close>)
  moreover have "framed cl q ts ?cl"
    using h(2) n(2,3,5) c1(3,4) by (simp add: framed_def attached_def cl2_def)
  ultimately show ?thesis using n(2) by (intro exI [of _ ?cl] exI [of _ e]) simp
qed

subsection \<open>Options\<close>

lemma opt_text_shape: "opt_text (n, v) = CHR ''-'' # CHR ''-'' # n @ (case v of None \<Rightarrow> [] | Some v \<Rightarrow> CHR ''='' # v)"
  by (cases v) auto

lemma split_opt_text: "n \<noteq> [] \<Longrightarrow> CHR ''='' \<notin> set n \<Longrightarrow> split_opt (opt_text (n, v)) p = Some (n, v, False)"
proof -
  assume a: "n \<noteq> []" "CHR ''='' \<notin> set n"
  let ?r = "n @ (case v of None \<Rightarrow> [] | Some v \<Rightarrow> CHR ''='' # v)"
  have i: "bstrchr ?r (CHR ''='') = (if v = None then -1 else int (length n))"
    using a(2) first_index_append_hit [of n "\<lambda>x. x = CHR ''=''" "CHR ''=''"] by (cases v) (auto simp: bstrchr_iff)
  have s: "split_opt (opt_text (n, v)) p =
      (if 0 < bstrchr ?r (CHR ''='') then Some (bstr_splice ?r 0 (bstrchr ?r (CHR ''='')), Some (bstr_cut ?r (bstrchr ?r (CHR ''='') + 1)), False)
       else Some (?r, None, False))"
    unfolding opt_text_shape split_opt_def by (simp add: bstr_startswith_iff Let_def)
  show ?thesis unfolding s i using a(1) by (cases v) (auto simp: nat_add_distrib)
qed

lemma cl_arg_opt:
  assumes "plain_opt_name n" and "\<not> cl_no_more cl"
  shows "cl_arg inc pl (opt_text (n, v)) rest cl = normal_option inc n v False cl"
proof -
  have n: "n \<noteq> []" "CHR ''='' \<notin> set n" using assms(1) by (auto simp: plain_opt_name_def)
  then have "cl_arg inc pl (opt_text (n, v)) rest cl = option_arg inc pl n v False cl"
    using assms(2) split_opt_text [OF n] by (simp add: cl_arg_def bstrcmp_eq_0_iff opt_text_shape)
  also have "\<dots> = normal_option inc n v False cl" using assms(1) by (simp add: option_arg_def plain_opt_name_def)
  finally show ?thesis .
qed

lemma check_changes_nothing:
  assumes "\<forall>f c d. inc f c = Some d \<longrightarrow> same_static c d" and "m_config_check_option inc n v amb c = Some (r, d)"
  shows "d = c"
proof -
  have inc: "same_static c d" if "inc f c = Some d" for f c d using that assms(1) by blast
  obtain q where "m_config_parse_option (m_config_set_profile inc) inc n v amb False c = Some (q, d)"
    using assms(2) by (auto simp: m_config_check_option_def)
  then have "m_config_parse_option (m_config_set_profile inc) inc n v amb False c = Some (q, c)"
    by (intro parse_option_check(1) [OF _ inc _ static.refl])
       (auto simp: m_config_set_profile_def intro: static.set_profile [OF inc])
  then show ?thesis using \<open>m_config_parse_option _ _ _ _ _ _ _ = Some (q, d)\<close> by simp
qed

lemma kept_normal_option:
  assumes inc: "\<forall>f c d. inc f c = Some d \<longrightarrow> same_static c d" and k: "kept_opt inc (cl_config cl) (n, v) = Some kv" and "cl_local cl"
    and t: "cl_heap cl (cl_target cl) = Some m"
  shows "normal_option inc n v False cl =
    Some (Some 0, cl\<lparr>cl_heap := (cl_heap cl)(cl_target cl \<mapsto> m\<lparr>pt_params := Some ((case pt_params m of None \<Rightarrow> [] | Some ps \<Rightarrow> ps) @ [kv])\<rparr>)\<rparr>)"
proof -
  obtain mo n' v' where m: "map_to_option (cl_config cl) False n v = Inr (mo, n', v')" "\<not> o_global mo"
    using k by (auto simp: kept_opt_def split: sum.splits if_splits)
  obtain r d where c: "m_config_check_option inc n' v' False (cl_config cl) = Some (r, d)" "\<not> r < 0"
      "kv = (c_bstrdup0 n', c_bstrdup0 (if r = 0 then [] else bget v'))"
    using k m by (auto simp: kept_opt_def split: option.splits if_splits)
  have "d = cl_config cl" by (rule check_changes_nothing [OF inc c(1)])
  then show ?thesis
    using m c assms(3) t
    by (simp add: normal_option_def set_or_keep_def play_tree_set_param_def pt_upd_def cl_target_def)
qed

text \<open>Options are kept with the last tree, or with the open node if there is none yet.\<close>

definition add_params :: "(string \<times> string) list \<Rightarrow> cl_tree list \<Rightarrow> cl_tree list" where
  "add_params kvs ts = (if ts = [] then [] else butlast ts @ [put_params (tree_params (last ts) @ kvs) (last ts)])"

definition own_params :: "(string \<times> string) list \<Rightarrow> cl_tree list \<Rightarrow> (string \<times> string) list \<Rightarrow> (string \<times> string) list" where
  "own_params kvs ts ps = (if ts = [] then ps @ kvs else ps)"

lemma add_params_simps [simp]:
  "add_params kvs ts = [] \<longleftrightarrow> ts = []" "map tree_addr (add_params kvs ts) = map tree_addr ts" "map nodes (add_params kvs ts) = map nodes ts"
  "ts \<noteq> [] \<Longrightarrow> last (add_params kvs ts) = put_params (tree_params (last ts) @ kvs) (last ts)"
  by (cases ts rule: rev_cases; simp add: add_params_def)+

lemma params_append: "add_params (k # ks) ts = add_params ks (add_params [k] ts)" "own_params (k # ks) ts ps = own_params ks (add_params [k] ts) (own_params [k] ts ps)"
  by (cases ts rule: rev_cases; simp add: add_params_def own_params_def)+

lemma params_Nil [simp]: "add_params [] ts = ts" "own_params [] ts ps = ps"
  by (cases ts rule: rev_cases; simp add: add_params_def own_params_def)+

lemma view_params:
  "view n = (a, b, c, d, e, f, ps) \<Longrightarrow>
   view (n\<lparr>pt_params := Some ((case pt_params n of None \<Rightarrow> [] | Some ps \<Rightarrow> ps) @ [kv])\<rparr>) = (a, b, c, d, e, f, ps @ [kv])"
  by (simp add: view_def)

lemma root_view_params: "root_view par t = (a, b, c, d, e, f, ps) \<Longrightarrow> root_view par (put_params qs t) = (a, b, c, d, e, f, qs) \<and> ps = tree_params t"
  by (cases t) (auto simp: group_view_def)

lemma open_param:
  assumes o: "open_at cl q par ts ps" and m: "cl_heap cl (cl_target cl) = Some m"
  shows "open_at (cl\<lparr>cl_heap := (cl_heap cl)(cl_target cl \<mapsto> m\<lparr>pt_params := Some ((case pt_params m of None \<Rightarrow> [] | Some ps \<Rightarrow> ps) @ [kv])\<rparr>)\<rparr>)
    q par (add_params [kv] ts) (own_params [kv] ts ps)" (is "open_at (cl\<lparr>cl_heap := ?h\<rparr>) _ _ _ _")
proof (cases ts rule: rev_cases)
  case Nil
  then have "cl_target cl = q" "view m = group_view par [] ps" "pt_next m = None" using o m by (auto simp: open_at_def cl_target_def view_at_def next_at_def)
  moreover from this have "view (m\<lparr>pt_params := Some ((case pt_params m of None \<Rightarrow> [] | Some ps \<Rightarrow> ps) @ [kv])\<rparr>) = group_view par [] (ps @ [kv])"
    by (simp add: view_def group_view_def)
  ultimately show ?thesis using o Nil by (auto simp: open_at_def view_at_def next_at_def own_params_def add_params_def)
next
  case (snoc us l)
  have l: "cl_target cl = tree_addr l" using o snoc by (simp add: open_at_def cl_target_def)
  have d: "distinct (concat (map nodes (us @ [l])))" "q \<notin> set (concat (map nodes ts))" using o snoc by (auto simp: open_at_def)
  have lq: "tree_addr l \<noteq> q" using d(2) snoc by auto
  have li: "linked ?h (map tree_addr ts)"
  proof -
    have "next_at ?h a b = next_at (cl_heap cl) a b" for a b using m by (simp add: next_at_def)
    then have "linked ?h as = linked (cl_heap cl) as" for as by (induction as) simp_all
    then show ?thesis using o by (simp add: open_at_def)
  qed
  obtain a b c d' e f where rv: "root_view (Some q) l = (a, b, c, d', e, f, tree_params l)"
    by (cases l) (auto simp: group_view_def)
  have "built ?h (put_params (tree_params l @ [kv]) l) (Some q)"
  proof (rule built_params)
    show "built (cl_heap cl) l (Some q)" using o snoc by (simp add: open_at_def)
    from built_root [OF this] have "view m = root_view (Some q) l" using m l by (simp add: view_at_def)
    then show "view_at ?h (tree_addr l) (root_view (Some q) (put_params (tree_params l @ [kv]) l))"
      using view_params [of m] root_view_params [OF rv] rv l by (simp add: view_at_def)
    show "?h a = cl_heap cl a" if "a \<in> set (tl (nodes l))" for a using inner_nodes [OF d(1)] that l by auto
  qed
  moreover have "built ?h t (Some q)" if t: "t \<in> set us" for t
    by (rule built_frame [of t _ "cl_heap cl"]) (use o t other_nodes [OF d(1) t] snoc l in \<open>auto simp: open_at_def\<close>)
  ultimately have "\<forall>t\<in>set (add_params [kv] ts). built ?h t (Some q)" using snoc by (auto simp: add_params_def)
  then show ?thesis using o snoc l lq li
    by (auto simp: open_at_def own_params_def view_at_def next_at_def add_params_def)
qed

lemma target_frame:
  assumes "open_at cl q par ts ps"
  shows "\<exists>m. cl_heap cl (cl_target cl) = Some m" and "ts = [] \<Longrightarrow> cl_target cl = q" and "ts \<noteq> [] \<Longrightarrow> cl_target cl = tree_addr (last ts)"
proof -
  show t: "ts = [] \<Longrightarrow> cl_target cl = q" "ts \<noteq> [] \<Longrightarrow> cl_target cl = tree_addr (last ts)"
    using assms by (auto simp: open_at_def cl_target_def)
  show "\<exists>m. cl_heap cl (cl_target cl) = Some m"
  proof (cases "ts = []")
    case False
    then have "built (cl_heap cl) (last ts) (Some q)" using assms by (simp add: open_at_def)
    from built_root [OF this] show ?thesis using t(2) False by (auto simp: view_at_def)
  qed (use assms t in \<open>auto simp: open_at_def view_at_def\<close>)
qed

lemma framed_refl: "framed cl q ts cl" by (simp add: framed_def)

lemma framed_trans:
  assumes "framed cl q ts cl1" and "framed cl1 q us cl2" and "us = [] \<longrightarrow> ts = []" and "us \<noteq> [] \<Longrightarrow> ts \<noteq> [] \<and> tree_addr (last us) = tree_addr (last ts) \<or> cl_fresh cl \<le> tree_addr (last us)"
  shows "framed cl q ts cl2"
  using assms by (fastforce simp: framed_def)

lemma opts_run:
  assumes inc: "\<forall>f c d. inc f c = Some d \<longrightarrow> same_static c d"
  shows "open_at cl q par ts ps \<Longrightarrow> cl_local cl \<Longrightarrow> list_all (opt_ok inc (cl_config cl)) os \<Longrightarrow>
    \<exists>cl'. runs inc pl (map opt_text os) cl cl' \<and> cl_local cl' \<and> framed cl q ts cl' \<and>
      open_at cl' q par (add_params (kept inc (cl_config cl) os) ts) (own_params (kept inc (cl_config cl) os) ts ps)"
proof (induction os arbitrary: cl ts ps)
  case Nil
  then show ?case by (auto simp: kept_def intro!: exI [of _ cl] framed_refl)
next
  case (Cons o' os)
  obtain n v where nv: "o' = (n, v)" by (cases o')
  obtain kv where kv: "kept_opt inc (cl_config cl) (n, v) = Some kv" and pn: "plain_opt_name n"
    using Cons.prems(3) nv by (auto simp: opt_ok_def)
  note t = target_frame [OF Cons.prems(1)]
  from t(1) obtain m where m: "cl_heap cl (cl_target cl) = Some m" by blast
  define cl1 where "cl1 = cl\<lparr>cl_heap := (cl_heap cl)(cl_target cl \<mapsto> m\<lparr>pt_params := Some ((case pt_params m of None \<Rightarrow> [] | Some ps \<Rightarrow> ps) @ [kv])\<rparr>)\<rparr>"
  have c1: "cl_local cl1 = cl_local cl" "cl_config cl1 = cl_config cl" by (simp_all add: cl1_def)
  have o1: "open_at cl1 q par (add_params [kv] ts) (own_params [kv] ts ps)"
    unfolding cl1_def by (rule open_param [OF Cons.prems(1) m])
  have "cl_arg inc pl (opt_text (n, v)) rest cl = Some (Some 0, cl1)" for rest
    using cl_arg_opt [OF pn, of cl inc pl v rest] kept_normal_option [OF inc kv Cons.prems(2) m] Cons.prems(1) by (simp add: open_at_def cl1_def)
  then have "runs inc pl [opt_text (n, v)] cl cl1" by (rule runs_arg)
  have "framed cl q ts cl1" using t(2,3) by (cases "ts = []") (simp_all add: framed_def cl1_def)
  have "\<exists>cl'. runs inc pl (map opt_text os) cl1 cl' \<and> cl_local cl' \<and> framed cl1 q (add_params [kv] ts) cl' \<and>
      open_at cl' q par (add_params (kept inc (cl_config cl) os) (add_params [kv] ts)) (own_params (kept inc (cl_config cl) os) (add_params [kv] ts) (own_params [kv] ts ps))"
    using Cons.IH [OF o1] Cons.prems(2,3) unfolding c1 by simp
  then obtain cl' where cl': "runs inc pl (map opt_text os) cl1 cl'" "cl_local cl'" "framed cl1 q (add_params [kv] ts) cl'"
      "open_at cl' q par (add_params (kept inc (cl_config cl) os) (add_params [kv] ts)) (own_params (kept inc (cl_config cl) os) (add_params [kv] ts) (own_params [kv] ts ps))"
    by blast
  have k: "kept inc (cl_config cl) (o' # os) = kv # kept inc (cl_config cl) os" using kv nv by (simp add: kept_def)
  have "framed cl q ts cl'" by (rule framed_trans [OF \<open>framed cl q ts cl1\<close> cl'(3)]) auto
  moreover have "runs inc pl (map opt_text (o' # os)) cl cl'"
    unfolding list.map nv by (rule runs_Cons [OF \<open>runs inc pl [opt_text (n, v)] cl cl1\<close> cl'(1)])
  moreover have "open_at cl' q par (add_params (kept inc (cl_config cl) (o' # os)) ts) (own_params (kept inc (cl_config cl) (o' # os)) ts ps)"
    unfolding k params_append [of kv "kept inc (cl_config cl) os"] by (rule cl'(4))
  ultimately show ?case using cl'(2) by blast
qed

subsection \<open>Files and groups\<close>

lemma add_params_snoc [simp]: "add_params kvs (ts @ [t]) = ts @ [put_params (tree_params t @ kvs) t]" "own_params kvs (ts @ [t]) ps = ps"
  by (simp_all add: add_params_def own_params_def)

lemma kept_append: "kept inc c (os @ qs) = kept inc c os @ kept inc c qs" by (simp add: kept_def)

lemma linked_next: "(\<And>a b. a \<in> set as \<Longrightarrow> next_at h' a b = next_at h a b) \<Longrightarrow> linked h' as = linked h as"
  by (induction as) auto

lemma framed_config: "framed cl q ts cl' \<Longrightarrow> cl_config cl' = cl_config cl" by (simp add: framed_def)

text \<open>What parsing an item does: a new tree for it at the end.\<close>

definition item_done :: "include_fun \<Rightarrow> playlist_reader \<Rightarrow> cl_item \<Rightarrow> cmd_line \<Rightarrow> nat \<Rightarrow> nat option \<Rightarrow> cl_tree list \<Rightarrow> (string \<times> string) list \<Rightarrow> bool" where
  "item_done inc pl i cl q par ts ps \<longleftrightarrow>
     (\<exists>cl' u. runs inc pl (item_args i) cl cl' \<and> cl_local cl' \<and> framed cl q ts cl' \<and> open_at cl' q par (ts @ [u]) ps \<and>
        tree_item u = kept_item inc (cl_config cl) i \<and> (\<forall>a\<in>set (nodes u). cl_fresh cl \<le> a))"

lemma item_options:
  assumes inc: "\<forall>f c d. inc f c = Some d \<longrightarrow> same_static c d" and "list_all (opt_ok inc (cl_config cl)) os"
    and r: "runs inc pl args cl cl1" and l: "cl_local cl1" and f: "framed cl q ts cl1" and o1: "open_at cl1 q par (ts @ [u]) ps"
    and n: "\<forall>a\<in>set (nodes u). cl_fresh cl \<le> a"
  shows "\<exists>cl'. runs inc pl (args @ map opt_text os) cl cl' \<and> cl_local cl' \<and> framed cl q ts cl' \<and>
    open_at cl' q par (ts @ [put_params (tree_params u @ kept inc (cl_config cl) os) u]) ps"
proof -
  note c = framed_config [OF f]
  obtain cl' where cl': "runs inc pl (map opt_text os) cl1 cl'" "cl_local cl'" "framed cl1 q (ts @ [u]) cl'"
      "open_at cl' q par (ts @ [put_params (tree_params u @ kept inc (cl_config cl) os) u]) ps"
    using opts_run [OF inc o1 l, of os pl] assms(2) unfolding c by auto
  have "framed cl q ts cl'" by (rule framed_trans [OF f cl'(3)]) (use n in auto)
  then show ?thesis using runs_append [OF r cl'(1)] cl'(2,4) by blast
qed

lemma file_done:
  assumes inc: "\<forall>f c d. inc f c = Some d \<longrightarrow> same_static c d" and "item_ok inc (cl_config cl) (Cl_file f os)" and o: "open_at cl q par ts ps"
  shows "item_done inc pl (Cl_file f os) cl q par ts ps"
proof -
  have ok: "plain_file f" "list_all (opt_ok inc (cl_config cl)) os" using assms(2) by simp_all
  obtain cl1 e where cl1: "runs inc pl [f] cl cl1" "open_at cl1 q par (ts @ [Tree_file e f []]) ps" "framed cl q ts cl1" "cl_local cl1" "cl_fresh cl \<le> e"
    using file_runs [OF o ok(1), of inc pl] by blast
  from item_options [OF inc ok(2) cl1(1,4,3,2)] cl1(5)
  obtain cl' where "runs inc pl (f # map opt_text os) cl cl'" "cl_local cl'" "framed cl q ts cl'"
      "open_at cl' q par (ts @ [Tree_file e f (kept inc (cl_config cl) os)]) ps" by auto
  then show ?thesis unfolding item_done_def using cl1(5) by (intro exI [of _ cl'] exI [of _ "Tree_file e f (kept inc (cl_config cl) os)"]) simp
qed

lemma items_run:
  assumes "\<And>i cl q par ts ps. i \<in> set is \<Longrightarrow> item_ok inc (cl_config cl) i \<Longrightarrow> open_at cl q par ts ps \<Longrightarrow> item_done inc pl i cl q par ts ps"
  shows "list_all (item_ok inc (cl_config cl)) is \<Longrightarrow> open_at cl q par ts ps \<Longrightarrow>
    \<exists>cl' us. runs inc pl (concat (map item_args is)) cl cl' \<and> framed cl q ts cl' \<and> open_at cl' q par (ts @ us) ps \<and>
      map tree_item us = map (kept_item inc (cl_config cl)) is \<and> (\<forall>a\<in>set (concat (map nodes us)). cl_fresh cl \<le> a) \<and>
      (cl_local cl \<longrightarrow> cl_local cl')"
  using assms
proof (induction "is" arbitrary: cl ts)
  case Nil
  then show ?case by (intro exI [of _ cl] exI [of _ "[]"]) (simp add: framed_refl)
next
  case (Cons i "is")
  obtain cl1 u where 1: "runs inc pl (item_args i) cl cl1" "cl_local cl1" "framed cl q ts cl1" "open_at cl1 q par (ts @ [u]) ps"
      "tree_item u = kept_item inc (cl_config cl) i" "\<forall>a\<in>set (nodes u). cl_fresh cl \<le> a"
    using Cons.prems(3) [of i cl q par ts ps] Cons.prems(1,2) by (auto simp: item_done_def)
  have f: "cl_fresh cl \<le> cl_fresh cl1" using 1(3) by (simp add: framed_def)
  obtain cl2 us where 2: "runs inc pl (concat (map item_args is)) cl1 cl2" "framed cl1 q (ts @ [u]) cl2" "open_at cl2 q par ((ts @ [u]) @ us) ps"
      "map tree_item us = map (kept_item inc (cl_config cl)) is" "\<forall>a\<in>set (concat (map nodes us)). cl_fresh cl1 \<le> a" "cl_local cl2"
    using 1(2) Cons.IH [OF _ 1(4)] Cons.prems(1,3) unfolding framed_config [OF 1(3)] by auto
  have "framed cl q ts cl2" by (rule framed_trans [OF 1(3) 2(2)]) (use 1(6) in auto)
  moreover have "\<forall>a\<in>set (concat (map nodes (u # us))). cl_fresh cl \<le> a" using 1(6) 2(5) f by fastforce
  ultimately show ?case
    using runs_append [OF 1(1) 2(1)] 1(5) 2(3,4,6) by (intro exI [of _ cl2] exI [of _ "u # us"]) simp
qed

lemma open_group_run:
  assumes o: "open_at cl q par ts ps"
  shows "\<exists>e cl1 cl2. cl_new cl = (e, cl1) \<and> runs inc pl [''{''] cl cl2 \<and> open_at cl2 e (Some q) [] [] \<and> cl_local cl2 \<and> cl_fresh cl2 = Suc e \<and>
     cl_config cl2 = cl_config cl \<and> cl_exit cl2 = cl_exit cl \<and> attached (cl_heap cl1) (cl_heap cl2) q par ts ps e (group_view (Some q) [] [])"
proof -
  obtain e cl1 where e: "cl_new cl = (e, cl1)" by (cases "cl_new cl")
  note n = open_new [OF o e]
  have c1: "cl_heap cl1 e = Some new_node" "cl_parent cl1 = q" "cl_config cl1 = cl_config cl" "cl_exit cl1 = cl_exit cl" "\<not> cl_no_more cl1"
    using e o by (auto simp: cl_new_def play_tree_new_def open_at_def)
  have o1: "open_at cl1 q par ts ps" using n(1) [of new_node] c1(1) by (simp add: fun_upd_idem)
  obtain h where h: "add_entry e cl1 = Some (cl1\<lparr>cl_heap := h, cl_entry := Some e\<rparr>)"
      "attached (cl_heap cl1) h q par ts ps e (view (new_node\<lparr>pt_parent := Some q\<rparr>))"
    using attach [OF o1 c1(1)] n(4) by (auto simp: new_node_def)
  obtain nq where nq: "cl_heap cl1 q = Some nq" "\<not> pt_rnd nq" using o1 by (auto simp: open_at_def view_at_def view_def group_view_def)
  let ?cl2 = "cl1\<lparr>cl_heap := h, cl_entry := None, cl_parent := e, cl_local := True\<rparr>"
  have v: "view (new_node\<lparr>pt_parent := Some q\<rparr>) = group_view (Some q) [] []" by (simp add: view_def new_node_def group_view_def first_of_def)
  have "cl_arg inc pl ''{'' rest cl = Some (Some 0, ?cl2)" for rest
    using nq c1(2) h(1) by (simp add: cl_arg_def bstrcmp_eq_0_iff open_group_def e)
  then have "runs inc pl [''{''] cl ?cl2" by (rule runs_arg)
  moreover have "open_at ?cl2 e (Some q) [] []" using h(2) n(2,3) c1(5) by (simp add: open_at_def attached_def v)
  ultimately show ?thesis using e n(3) h(2) c1(3,4) by (intro exI [of _ e] exI [of _ cl1] exI [of _ ?cl2]) (simp add: v)
qed

lemma close_group_run:
  assumes "open_at cl e (Some q) us ps"
  shows "runs inc pl [''}''] cl (cl\<lparr>cl_entry := Some e, cl_parent := q\<rparr>)"
proof -
  have "cl_arg inc pl ''}'' rest cl = Some (Some 0, cl\<lparr>cl_entry := Some e, cl_parent := q\<rparr>)" for rest
    using assms by (auto simp: cl_arg_def bstrcmp_eq_0_iff close_group_def open_at_def view_at_def view_def group_view_def)
  then show ?thesis by (rule runs_arg)
qed

text \<open>After a group has been closed, it is a tree of the node around it.\<close>

lemma open_closed:
  assumes o: "open_at cl q par ts ps" and e: "cl_new cl = (e, cl1)" and a: "attached (cl_heap cl1) h q par ts ps e (group_view (Some q) [] [])"
    and o2: "open_at cl2 e (Some q) us qs" and same: "\<And>a. a < e \<Longrightarrow> cl_heap cl2 a = h a"
    and n: "\<forall>a\<in>set (concat (map nodes us)). Suc e \<le> a"
  shows "open_at (cl2\<lparr>cl_entry := Some e, cl_parent := q\<rparr>) q par (ts @ [Tree_group e us qs]) ps"
proof -
  note new = open_new [OF o e]
  have below: "a < e" if "a \<in> set (q # concat (map nodes ts))" for a using o new(2) that by (auto simp: open_at_def)
  have sq: "cl_heap cl2 q = h q" using same [of q] below by simp
  have b: "built (cl_heap cl2) t (Some q)" if t: "t \<in> set ts" for t
  proof (rule built_frame)
    show "built h t (Some q)" using a t by (simp add: attached_def)
    show "cl_heap cl2 a = h a" if "a \<in> set (nodes t)" for a using same below that t by auto
  qed
  have "linked (cl_heap cl2) (map tree_addr ts @ [e]) = linked h (map tree_addr ts @ [e])"
  proof (rule linked_next)
    fix x y assume "x \<in> set (map tree_addr ts @ [e])"
    then consider "x = e" | "x < e" using below addr_in_nodes [of _ ts] by auto
    then show "next_at (cl_heap cl2) x y = next_at h x y"
      by cases (use o2 a same in \<open>auto simp: next_at_def open_at_def attached_def\<close>)
  qed
  then have li: "linked (cl_heap cl2) (map tree_addr ts @ [e])" using a by (simp add: attached_def)
  show ?thesis
    by (rule open_add [OF o, of "cl_heap cl2"])
       (use a b li o2 sq n new(2) in \<open>fastforce simp: attached_def open_at_def view_at_def next_at_def\<close>)+
qed

lemma group_done:
  assumes inc: "\<forall>f c d. inc f c = Some d \<longrightarrow> same_static c d" and ok: "item_ok inc (cl_config cl) (Cl_group pre is post)"
    and o: "open_at cl q par ts ps"
    and IH: "\<And>i cl q par ts ps. i \<in> set is \<Longrightarrow> item_ok inc (cl_config cl) i \<Longrightarrow> open_at cl q par ts ps \<Longrightarrow> item_done inc pl i cl q par ts ps"
  shows "item_done inc pl (Cl_group pre is post) cl q par ts ps"
proof -
  let ?c = "cl_config cl"
  have oks: "list_all (opt_ok inc ?c) pre" "list_all (item_ok inc ?c) is" "list_all (opt_ok inc ?c) post"
    using ok by (simp_all add: list.pred_map comp_def)
  obtain e cl1 cl2 where 2: "cl_new cl = (e, cl1)" "runs inc pl [''{''] cl cl2" "open_at cl2 e (Some q) [] []" "cl_local cl2" "cl_fresh cl2 = Suc e"
      "cl_config cl2 = ?c" "cl_exit cl2 = cl_exit cl" "attached (cl_heap cl1) (cl_heap cl2) q par ts ps e (group_view (Some q) [] [])"
    using open_group_run [OF o] by blast
  note new = open_new [OF o 2(1)]
  obtain cl3 where 3: "runs inc pl (map opt_text pre) cl2 cl3" "framed cl2 e [] cl3" "open_at cl3 e (Some q) [] (kept inc ?c pre)" "cl_local cl3"
    using opts_run [OF inc 2(3,4), of pre pl] oks(1) 2(6) by (auto simp: add_params_def own_params_def)
  have c3: "cl_config cl3 = ?c" using framed_config [OF 3(2)] 2(6) by simp
  obtain cl4 us where 4: "runs inc pl (concat (map item_args is)) cl3 cl4" "framed cl3 e [] cl4" "open_at cl4 e (Some q) us (kept inc ?c pre)"
      "map tree_item us = map (kept_item inc ?c) is" "\<forall>a\<in>set (concat (map nodes us)). cl_fresh cl3 \<le> a" "cl_local cl4"
    using items_run [of "is" inc pl cl3 e "Some q" "[]" "kept inc ?c pre"] IH oks(2) 3(3,4) unfolding c3 by auto
  have f: "framed cl2 e [] cl4" by (rule framed_trans [OF 3(2) 4(2)]) simp_all
  have same: "cl_heap cl4 a = cl_heap cl2 a" if "a < e" for a using f that 2(5) by (simp add: framed_def)
  have low: "\<forall>a\<in>set (concat (map nodes us)). Suc e \<le> a" using 4(5) 3(2) 2(5) by (fastforce simp: framed_def)
  let ?cl5 = "cl4\<lparr>cl_entry := Some e, cl_parent := q\<rparr>"
  let ?u = "Tree_group e us (kept inc ?c pre)"
  have o5: "open_at ?cl5 q par (ts @ [?u]) ps" by (rule open_closed [OF o 2(1,8) 4(3) same low])
  have r5: "runs inc pl (''{'' # map opt_text pre @ concat (map item_args is) @ [''}'']) cl ?cl5"
    by (rule runs_Cons [OF 2(2)], rule runs_append [OF 3(1)], rule runs_append [OF 4(1)], rule close_group_run [OF 4(3)])
  have f5: "framed cl q ts ?cl5"
    using f 2 new(2,5) same by (auto simp: framed_def attached_def)
  have l5: "cl_local ?cl5" using 4(6) by simp
  have n5: "\<forall>a\<in>set (nodes ?u). cl_fresh cl \<le> a" using low new(2) by (fastforce dest: Suc_leD)
  from item_options [OF inc oks(3) r5 l5 f5 o5 n5] obtain cl' where
    "runs inc pl (item_args (Cl_group pre is post)) cl cl'" "cl_local cl'" "framed cl q ts cl'"
    "open_at cl' q par (ts @ [Tree_group e us (kept inc ?c (pre @ post))]) ps" by (auto simp: kept_append)
  then show ?thesis
    unfolding item_done_def using 4(4) n5
    by (intro exI [of _ cl'] exI [of _ "Tree_group e us (kept inc ?c (pre @ post))"]) simp
qed

lemma item_done:
  assumes inc: "\<forall>f c d. inc f c = Some d \<longrightarrow> same_static c d"
  shows "item_ok inc (cl_config cl) i \<Longrightarrow> open_at cl q par ts ps \<Longrightarrow> item_done inc pl i cl q par ts ps"
proof (induction i arbitrary: cl q par ts ps)
  case (Cl_file f os)
  then show ?case by (rule file_done [OF inc])
next
  case (Cl_group pre "is" post)
  then show ?case by (intro group_done [OF inc])
qed

subsection \<open>Global options\<close>

lemma globals_run:
  "open_at cl q par [] ps \<Longrightarrow> \<not> cl_local cl \<Longrightarrow> list_all (\<lambda>g. plain_opt_name (fst g)) gs \<Longrightarrow> set_globals inc gs (cl_config cl) = Some d \<Longrightarrow>
   runs inc pl (map opt_text gs) cl (cl\<lparr>cl_config := d\<rparr>)"
proof (induction gs arbitrary: cl)
  case (Cons g gs)
  obtain n v where g: "g = (n, v)" by (cases g)
  obtain mo n' v' where m: "map_to_option (cl_config cl) False n v = Inr (mo, n', v')"
    using Cons.prems(4) g by (auto split: sum.splits)
  obtain r e where r: "m_config_set_option inc n' v' False (cl_config cl) = Some (r, e)" "\<not> r < 0" "set_globals inc gs e = Some d"
    using Cons.prems(4) g m by (auto split: option.splits if_splits)
  let ?cl = "cl\<lparr>cl_config := e\<rparr>"
  have "cl_arg inc pl (opt_text g) rest cl = Some (Some 0, ?cl)" for rest
    using cl_arg_opt [of n cl inc pl v rest] Cons.prems(1,2,3) g m r(1,2) by (simp add: open_at_def normal_option_def set_or_keep_def)
  then have "runs inc pl [opt_text g] cl ?cl" by (rule runs_arg)
  moreover have "open_at ?cl q par [] ps" by (rule open_at_frame [OF Cons.prems(1)]) simp_all
  then have "runs inc pl (map opt_text gs) ?cl (?cl\<lparr>cl_config := d\<rparr>)" using Cons.IH [of ?cl] Cons.prems(2,3) r(3) by simp
  ultimately show ?case using runs_Cons by fastforce
next
  case Nil
  then have "cl\<lparr>cl_config := d\<rparr> = cl" by (cases cl) simp
  then show ?case by simp
qed

subsection \<open>The command line\<close>

lemma command_line_aux:
  assumes inc: "\<forall>f c d. inc f c = Some d \<longrightarrow> same_static c d"
    and gs: "list_all (\<lambda>g. plain_opt_name (fst g)) gs" "set_globals inc gs (c\<lparr>cf_mode := M_COMMAND_LINE\<rparr>) = Some d"
    and "is": "list_all (item_ok inc d) is"
  shows "\<exists>h ts. m_config_parse_mp_command_line inc pl (map opt_text gs @ concat (map item_args is)) root h0 c = Some (Some root, h, d) \<and>
     built h (Tree_group root ts []) None \<and> next_at h root None \<and> map tree_item ts = map (kept_item inc d) is"
proof -
  let ?cl = "\<lparr>cl_config = c\<lparr>cf_mode := M_COMMAND_LINE\<rparr>, cl_heap = play_tree_new h0 root, cl_fresh = Suc root, cl_parent = root, cl_entry = None,
          cl_local = False, cl_no_more = False, cl_exit = False\<rparr>"
  have o: "open_at ?cl root None [] []"
    by (simp add: open_at_def play_tree_new_def new_node_def view_at_def next_at_def view_def group_view_def first_of_def)
  have r: "runs inc pl (map opt_text gs) ?cl (?cl\<lparr>cl_config := d\<rparr>)" by (rule globals_run [OF o]) (use gs in simp_all)
  have o': "open_at (?cl\<lparr>cl_config := d\<rparr>) root None [] []" by (rule open_at_frame [OF o]) simp_all
  obtain cl' ts where 1: "runs inc pl (concat (map item_args is)) (?cl\<lparr>cl_config := d\<rparr>) cl'" "framed (?cl\<lparr>cl_config := d\<rparr>) root [] cl'"
      "open_at cl' root None ts []" "map tree_item ts = map (kept_item inc d) is"
    using items_run [of "is" inc pl "?cl\<lparr>cl_config := d\<rparr>" root None "[]" "[]"] item_done [OF inc] "is" o' by auto
  have "cl_args inc pl (map opt_text gs @ concat (map item_args is)) ?cl = Some (True, cl')"
    using runs_append [OF r 1(1)] by (simp add: runs_def) (metis append_Nil2 cl_args.simps(1))
  moreover have "cl_config cl' = d" "\<not> cl_exit cl'" using 1(2) by (simp_all add: framed_def)
  ultimately show ?thesis
    using 1(3,4) by (intro exI [of _ "cl_heap cl'"] exI [of _ ts]) (auto simp: m_config_parse_mp_command_line_def open_at_def)
qed

text \<open>
  C4: A command line of options, files and braces is understood as it is written: the options
  before the first file are set in their order, and the tree that is built has the files and
  groups in their order, each with the options behind it (a group also with those behind its
  opening brace), as the checks accept them, and with nothing else. (Included files must not
  register options or define profiles.)
\<close>

theorem command_line_builds_tree:
  assumes "\<forall>f c d. inc f c = Some d \<longrightarrow> same_static c d"
    and "list_all (\<lambda>g. plain_opt_name (fst g)) gs" and "set_globals inc gs (c\<lparr>cf_mode := M_COMMAND_LINE\<rparr>) = Some d"
    and "list_all (item_ok inc d) is"
  shows "\<exists>h t. m_config_parse_mp_command_line inc pl (map opt_text gs @ concat (map item_args is)) root h0 c = Some (Some root, h, d) \<and>
     tree_addr t = root \<and> built h t None \<and> tree_item t = Play_group (map (kept_item inc d) is) []"
proof -
  obtain h ts where "m_config_parse_mp_command_line inc pl (map opt_text gs @ concat (map item_args is)) root h0 c = Some (Some root, h, d)"
      "built h (Tree_group root ts []) None" "map tree_item ts = map (kept_item inc d) is"
    using command_line_aux [OF assms] by blast
  then show ?thesis by (intro exI [of _ h] exI [of _ "Tree_group root ts []"]) simp
qed

text \<open>\<open>mplayer --osdlevel=2 a --osdlevel=3 { --tv=loop b c } --osdlevel=1\<close>\<close>

abbreviation (input) ex_globals :: "cl_opt list" where "ex_globals \<equiv> [(''osdlevel'', Some ''2'')]"

definition ex_items :: "cl_item list" where
  "ex_items =
     [Cl_file ''a'' [(''osdlevel'', Some ''3'')],
      Cl_group [(''tv'', Some ''loop'')] [Cl_file ''b'' [], Cl_file ''c'' []] [(''osdlevel'', Some ''1'')]]"

definition ex_kept :: "play_item list" where
  "ex_kept =
     [Play_file ''a'' [(''osdlevel'', ''3'')],
      Play_group [Play_file ''b'' [], Play_file ''c'' []] [(''tv'', ''loop''), (''osdlevel'', ''1'')]]"

lemma map_option_TrueD: "map_option P x = Some True \<Longrightarrow> \<exists>y. x = Some y \<and> P y"
  by (cases x) auto

lemma ex_command_line:
  "\<exists>d. set_globals no_include ex_globals (ex_config\<lparr>cf_mode := M_COMMAND_LINE\<rparr>) = Some d \<and>
     list_all (item_ok no_include d) ex_items \<and> map (kept_item no_include d) ex_items = ex_kept"
proof -
  let ?d = "set_globals no_include ex_globals (ex_config\<lparr>cf_mode := M_COMMAND_LINE\<rparr>)"
  have "map_option (\<lambda>d. list_all (item_ok no_include d) ex_items \<and> map (kept_item no_include d) ex_items = ex_kept) ?d = Some True" by code_simp
  then show ?thesis by (rule map_option_TrueD)
qed

lemma ex_command_line_plain: "list_all (\<lambda>g. plain_opt_name (fst g)) ex_globals" by code_simp

lemma ex_args:
  "map opt_text ex_globals @ concat (map item_args ex_items) =
     [''--osdlevel=2'', ''a'', ''--osdlevel=3'', ''{'', ''--tv=loop'', ''b'', ''c'', ''}'', ''--osdlevel=1'']"
  by (simp add: ex_items_def)

lemma command_line_builds_tree_witness:
  "\<exists>h d t. m_config_parse_mp_command_line no_include (\<lambda>f k h. (None, k, h))
      [''--osdlevel=2'', ''a'', ''--osdlevel=3'', ''{'', ''--tv=loop'', ''b'', ''c'', ''}'', ''--osdlevel=1''] 1 Map.empty ex_config = Some (Some 1, h, d) \<and>
     built h t None \<and> tree_item t = Play_group ex_kept []"
proof -
  obtain d where d: "set_globals no_include ex_globals (ex_config\<lparr>cf_mode := M_COMMAND_LINE\<rparr>) = Some d" "list_all (item_ok no_include d) ex_items"
      "map (kept_item no_include d) ex_items = ex_kept"
    using ex_command_line by blast
  have inc: "\<forall>f c d. no_include f c = Some d \<longrightarrow> same_static c d" by (simp add: no_include_def static.refl)
  from command_line_builds_tree [OF inc ex_command_line_plain d(1,2), of "\<lambda>f k h. (None, k, h)" 1 Map.empty] show ?thesis
    unfolding ex_args d(3) by blast
qed

subsection \<open>Playing\<close>

fun cl_files :: "cl_item \<Rightarrow> string list" where
  "cl_files (Cl_file f os) = [f]"
| "cl_files (Cl_group pre is post) = concat (map cl_files is)"

fun has_files :: "cl_item \<Rightarrow> bool" where
  "has_files (Cl_file f os) = True"
| "has_files (Cl_group pre is post) = (is \<noteq> [] \<and> list_all has_files is)"

text \<open>A tree without empty groups, as the iterator goes through it.\<close>

fun to_ptree :: "cl_tree \<Rightarrow> ptree" where
  "to_ptree (Tree_file p f ps) = Leaf p [f]"
| "to_ptree (Tree_group p ts ps) =
     (case map to_ptree ts of [] \<Rightarrow> Leaf p [] | t # ts \<Rightarrow> Branch p t ts)"

fun item_files :: "play_item \<Rightarrow> string list" where
  "item_files (Play_file f ps) = [f]"
| "item_files (Play_group is ps) = concat (map item_files is)"

fun full :: "play_item \<Rightarrow> bool" where
  "full (Play_file f ps) = True"
| "full (Play_group is ps) = (is \<noteq> [] \<and> list_all full is)"

lemma kept_item_files: "item_files (kept_item inc c i) = cl_files i"
  by (induction i) (simp_all add: comp_def cong: map_cong)

lemma kept_item_full: "full (kept_item inc c i) = has_files i"
  by (induction i) (simp_all add: list_all_iff)

lemma to_ptree_addr: "addr (to_ptree t) = tree_addr t"
  by (cases t) (auto split: list.splits)

lemma next_are_linked: "next_are h (tree_addr t) (map to_ptree ts) = linked h (tree_addr t # map tree_addr ts)"
  by (induction ts arbitrary: t) (simp_all add: next_at_def first_of_def to_ptree_addr)

text \<open>
  What playing an item is to give: for a file and for a group a level is opened, the options are
  set in it, and it is closed behind the file or the group.
\<close>

definition with_options :: "include_fun \<Rightarrow> (string \<times> string) list \<Rightarrow> m_config \<Rightarrow> m_config option" where
  "with_options inc ps c = do { c \<leftarrow> m_config_push c; push_set inc ps c }"

fun item_plays :: "include_fun \<Rightarrow> play_item \<Rightarrow> m_config \<Rightarrow> (plays \<times> m_config) option"
and items_plays :: "include_fun \<Rightarrow> play_item list \<Rightarrow> m_config \<Rightarrow> (plays \<times> m_config) option"
where
  "item_plays inc (Play_file f ps) c = do { c \<leftarrow> with_options inc ps c; d \<leftarrow> m_config_pop c; Some ([(f, c)], d) }"
| "item_plays inc (Play_group is ps) c =
     do { c \<leftarrow> with_options inc ps c; (xs, c) \<leftarrow> items_plays inc is c; d \<leftarrow> m_config_pop c; Some (xs, d) }"
| "items_plays inc [] c = Some ([], c)"
| "items_plays inc (i # is) c =
     do { (xs, c) \<leftarrow> item_plays inc i c; (ys, c) \<leftarrow> items_plays inc is c; Some (xs @ ys, c) }"

lemma open_level_built: "view_at h p (par, ch, ty, fs, l, r, ps) \<Longrightarrow> open_level inc h p c = with_options inc ps c"
proof -
  assume "view_at h p (par, ch, ty, fs, l, r, ps)"
  then obtain n where n: "h p = Some n" "ps = (case pt_params n of None \<Rightarrow> [] | Some ps \<Rightarrow> ps)" by (auto simp: view_at_def view_def)
  then show ?thesis by (cases "pt_params n") (simp_all add: open_level_def with_options_def)
qed

lemma items_plays_map:
  "(\<And>t c. t \<in> set ts \<Longrightarrow> tree_plays inc h (to_ptree t) c = item_plays inc (tree_item t) c) \<Longrightarrow>
   trees_plays inc h (map to_ptree ts) c = items_plays inc (map tree_item ts) c"
  by (induction ts arbitrary: c) (simp_all cong: option.case_cong)

lemma to_ptree_plays: "built h t par \<Longrightarrow> full (tree_item t) \<Longrightarrow> tree_plays inc h (to_ptree t) c = item_plays inc (tree_item t) c"
proof (induction t arbitrary: par c)
  case (Tree_file p f ps)
  then have "open_level inc h p c = with_options inc ps c" by (simp add: open_level_built)
  then show ?case by simp
next
  case (Tree_group p ts ps)
  obtain u us where ts: "ts = u # us" using Tree_group.prems(2) by (cases ts) auto
  have t: "tree_plays inc h (to_ptree t) c = item_plays inc (tree_item t) c" if "t \<in> set ts" for t c
    using Tree_group that by (auto simp: list_all_iff)
  have o: "open_level inc h p c = with_options inc ps c" for c
    using Tree_group.prems(1) unfolding built_group group_view_def by (auto intro: open_level_built)
  have u: "tree_plays inc h (to_ptree u) c = item_plays inc (tree_item u) c" for c by (rule t) (simp add: ts)
  have us: "trees_plays inc h (map to_ptree us) c = items_plays inc (map tree_item us) c" for c
    by (rule items_plays_map) (rule t, simp add: ts)
  show ?case
    by (cases "with_options inc ps c") (simp_all add: ts o u us case_prod_unfold)
qed

lemma to_ptree_represents: "built h t par \<Longrightarrow> full (tree_item t) \<Longrightarrow> represents h par (to_ptree t) \<and> tree_files (to_ptree t) = item_files (tree_item t)"
proof (induction t arbitrary: par)
  case (Tree_file p f ps)
  then show ?case by (auto simp: view_at_def view_def)
next
  case (Tree_group p ts ps)
  obtain u us where ts: "ts = u # us" using Tree_group.prems(2) by (cases ts) auto
  have t: "represents h (Some p) (to_ptree t) \<and> tree_files (to_ptree t) = item_files (tree_item t)" if "t \<in> set ts" for t
    using Tree_group that by (auto simp: list_all_iff)
  have "next_are h (tree_addr u) (map to_ptree us)" using Tree_group.prems(1) by (simp add: next_are_linked ts)
  moreover have "concat (map (\<lambda>x. tree_files (to_ptree x)) us) = concat (map (\<lambda>x. item_files (tree_item x)) us)"
    by (rule arg_cong [of _ _ concat]) (use t ts in simp)
  ultimately show ?case
    using Tree_group.prems(1) t ts by (auto simp: view_at_def view_def group_view_def first_of_def to_ptree_addr comp_def)
qed

text \<open>
  C5: The files of a command line are played in the order in which they are given, each with its
  options: from the tree that parsing built, an iterator returns every file, through all groups,
  once and in this order, and then none; and each file is played with a configuration in which
  the options of the groups around it and its own have been set, in levels that are closed again
  behind them. The calls return, with any large enough bound on the nested steps, provided that
  setting the options does.
\<close>

theorem command_line_plays_files:
  assumes "\<forall>f c d. inc f c = Some d \<longrightarrow> same_static c d"
    and "list_all (\<lambda>g. plain_opt_name (fst g)) gs" and "set_globals inc gs (c\<lparr>cf_mode := M_COMMAND_LINE\<rparr>) = Some d"
    and "list_all (item_ok inc d) is" and "is \<noteq> []" and "list_all has_files is"
    and "item_plays inc' (Play_group (map (kept_item inc d) is) []) c' = Some (plays, e)"
  shows "\<exists>h it0 it K. m_config_parse_mp_command_line inc pl (map opt_text gs @ concat (map item_args is)) root h0 c = Some (Some root, h, d) \<and>
     play_tree_iter_new h c' rnd root = Some (Some it0) \<and>
     (\<forall>k\<ge>K. play_tree_iter_step k inc' it0 0 False = Some (PLAY_TREE_ITER_ENTRY, it) \<and>
            next_plays (Suc (length plays)) k inc' it = Some (plays, e)) \<and>
     map fst plays = concat (map cl_files is)"
proof -
  obtain h ts where h: "m_config_parse_mp_command_line inc pl (map opt_text gs @ concat (map item_args is)) root h0 c = Some (Some root, h, d)"
      "built h (Tree_group root ts []) None" "next_at h root None" "map tree_item ts = map (kept_item inc d) is"
    using command_line_aux [OF assms(1-4)] by blast
  let ?t = "to_ptree (Tree_group root ts [])"
  have i: "tree_item (Tree_group root ts []) = Play_group (map (kept_item inc d) is) []" using h(4) by simp
  have fu: "full (tree_item (Tree_group root ts []))" unfolding i using assms(5,6) by (simp add: list_all_iff kept_item_full)
  from to_ptree_represents [OF h(2) fu] have r: "represents h None ?t" "tree_files ?t = concat (map cl_files is)"
    unfolding i by (simp_all add: comp_def kept_item_files)
  have p: "tree_plays inc' h ?t c' = Some (plays, e)" using to_ptree_plays [OF h(2) fu, of inc' c'] assms(7) unfolding i by simp
  obtain n where n: "h (addr ?t) = Some n" "pt_next n = None" using h(3) unfolding to_ptree_addr by (auto simp: next_at_def)
  have "addr ?t = root" by (simp only: to_ptree_addr tree_addr.simps)
  then show ?thesis
    using playlist_plays_aux [OF r(1) n p, of rnd] h(1) plays_files(1) [OF p] unfolding r(2) by auto
qed

text \<open>The files with the values of the two local variables.\<close>

definition ex_values :: "(string \<times> opt_val option list) list" where
  "ex_values =
     [(''a'', [Some (Ov_int 0), Some (Ov_int 3)]), (''b'', [Some (Ov_int 1), Some (Ov_int 1)]), (''c'', [Some (Ov_int 1), Some (Ov_int 1)])]"

lemma ex_item_plays:
  assumes "set_globals no_include ex_globals (ex_config\<lparr>cf_mode := M_COMMAND_LINE\<rparr>) = Some d"
  shows "\<exists>plays e. item_plays no_include (Play_group ex_kept []) d = Some (plays, e) \<and> map (\<lambda>(f, c). (f, local_values c)) plays = ex_values"
proof -
  have "map_option (\<lambda>d. map_option (\<lambda>(plays, e). map (\<lambda>(f, c). (f, local_values c)) plays) (item_plays no_include (Play_group ex_kept []) d))
     (set_globals no_include ex_globals (ex_config\<lparr>cf_mode := M_COMMAND_LINE\<rparr>)) = Some (Some ex_values)"
    by code_simp
  then show ?thesis unfolding assms by (auto split: prod.splits)
qed

lemma command_line_plays_files_witness:
  "\<exists>h d it0 it K plays e. m_config_parse_mp_command_line no_include (\<lambda>f k h. (None, k, h))
      [''--osdlevel=2'', ''a'', ''--osdlevel=3'', ''{'', ''--tv=loop'', ''b'', ''c'', ''}'', ''--osdlevel=1''] 1 Map.empty ex_config = Some (Some 1, h, d) \<and>
     play_tree_iter_new h d [] 1 = Some (Some it0) \<and>
     (\<forall>k\<ge>K. play_tree_iter_step k no_include it0 0 False = Some (PLAY_TREE_ITER_ENTRY, it) \<and>
            next_plays 4 k no_include it = Some (plays, e)) \<and>
     map (\<lambda>(f, c). (f, local_values c)) plays = ex_values"
proof -
  obtain d where d: "set_globals no_include ex_globals (ex_config\<lparr>cf_mode := M_COMMAND_LINE\<rparr>) = Some d" "list_all (item_ok no_include d) ex_items"
      "map (kept_item no_include d) ex_items = ex_kept"
    using ex_command_line by blast
  obtain plays e where p: "item_plays no_include (Play_group ex_kept []) d = Some (plays, e)" "map (\<lambda>(f, c). (f, local_values c)) plays = ex_values"
    using ex_item_plays [OF d(1)] by blast
  have inc: "\<forall>f c d. no_include f c = Some d \<longrightarrow> same_static c d" by (simp add: no_include_def static.refl)
  have f: "ex_items \<noteq> []" "list_all has_files ex_items" by (simp_all add: ex_items_def)
  have l: "Suc (length plays) = 4" using arg_cong [OF p(2), of length] by (simp add: ex_values_def)
  from command_line_plays_files [OF inc ex_command_line_plain d(1,2) f p(1) [folded d(3)], of "\<lambda>f k h. (None, k, h)" 1 Map.empty "[]"] p(2) show ?thesis
    unfolding ex_args l by blast
qed

end
