(* ===== verification/Stream_Source.thy ===== *)
theory Stream_Source
  imports MP_Prelude "HOL-Library.Signed_Division"
begin

text \<open>
  Streams (\<open>stream/stream.c\<close>, \<open>stream/stream.h\<close>): reading from a driver through the buffer of
  the stream, and seeking. The function pointers of a stream are a record that does not
  change; what they do is a parameter. A call of a driver that reads returns the bytes it
  put into the buffer, and no bytes for a result that is zero or negative. A result \<open>None\<close>
  is a failed assertion, an access outside a buffer, or a loop that does not end. File
  positions are integers; the capture file and the messages are not modelled.
\<close>

subsection \<open>The stream\<close>

abbreviation (input) STREAMTYPE_FILE :: int where "STREAMTYPE_FILE \<equiv> 0"
abbreviation (input) STREAMTYPE_STREAM :: int where "STREAMTYPE_STREAM \<equiv> 2"
abbreviation (input) STREAMTYPE_MEMORY :: int where "STREAMTYPE_MEMORY \<equiv> 4"
abbreviation (input) STREAMTYPE_DS :: int where "STREAMTYPE_DS \<equiv> 8"
abbreviation (input) STREAMTYPE_DVDNAV :: int where "STREAMTYPE_DVDNAV \<equiv> 9"

abbreviation (input) STREAM_BUFFER_SIZE :: int where "STREAM_BUFFER_SIZE \<equiv> 2048"
abbreviation (input) STREAM_MAX_SECTOR_SIZE :: int where "STREAM_MAX_SECTOR_SIZE \<equiv> 8192"

abbreviation (input) STREAM_READ :: int where "STREAM_READ \<equiv> 0"
abbreviation (input) STREAM_WRITE :: int where "STREAM_WRITE \<equiv> 1"

text \<open>
  The buffer holds what the last reading put there. \<open>s_seek_fw\<close> is the flag
  \<open>MP_STREAM_SEEK_FW\<close>, \<open>s_stopped\<close> the network status \<open>streaming_stopped_e\<close>, \<open>s_priv\<close> what
  the driver keeps, the position of the descriptor included.
\<close>

record 'd stream =
  s_type :: int
  s_seek_fw :: bool
  s_sector_size :: int
  s_read_chunk :: int
  s_buf_pos :: int
  s_buf_len :: int
  s_pos :: int
  s_start_pos :: int
  s_end_pos :: int
  s_eof :: bool
  s_mode :: int
  s_stopped :: bool
  s_buffer :: string
  s_priv :: 'd

type_synonym 'd reading = "'d stream \<Rightarrow> int \<Rightarrow> string \<times> 'd stream"
type_synonym 'd seeking = "'d stream \<Rightarrow> int \<Rightarrow> int \<times> 'd stream"

text \<open>
  Writing takes the memory from the pointer given on, which may go on behind the bytes to be
  written, and their number; \<open>None\<close> is reading behind that memory.
\<close>

type_synonym 'd writing = "'d stream \<Rightarrow> string \<Rightarrow> nat \<Rightarrow> (int \<times> 'd stream) option"

text \<open>
  \<open>d_control_reset\<close> is the control function for \<open>STREAM_CTRL_RESET\<close>; \<open>d_read\<close> is
  \<open>read\<close> of the descriptor and \<open>d_demux_read\<close> is \<open>demux_read_data\<close>.
\<close>

record 'd driver =
  d_fill_buffer :: "'d reading option"
  d_write_buffer :: "'d writing option"
  d_seek :: "'d seeking option"
  d_control_reset :: "('d stream \<Rightarrow> 'd stream) option"
  d_streaming_read :: "'d reading option"
  d_streaming_seek :: "'d seeking option"
  d_read :: "'d reading"
  d_demux_read :: "'d reading"

subsection \<open>Reading\<close>

definition raw_read :: "'d driver \<Rightarrow> 'd reading" where
  "raw_read drv s len =
     (if s_type s = STREAMTYPE_STREAM
      then (case d_streaming_read drv of
              Some f \<Rightarrow> (case f s len of (bs, s) \<Rightarrow> (bs, if s_stopped s then s\<lparr>s_eof := True\<rparr> else s))
            | None \<Rightarrow> (case d_fill_buffer drv of Some f \<Rightarrow> f s len | None \<Rightarrow> d_read drv s len))
      else if s_type s = STREAMTYPE_DS then d_demux_read drv s len
      else (case d_fill_buffer drv of Some f \<Rightarrow> f s len | None \<Rightarrow> ([], s)))"

definition stream_reset :: "'d driver \<Rightarrow> 'd stream \<Rightarrow> 'd stream" where
  "stream_reset drv s =
     (let s = (if s_eof s then s\<lparr>s_pos := 0, s_buf_pos := 0, s_buf_len := 0, s_eof := False\<rparr> else s)
      in case d_control_reset drv of None \<Rightarrow> s | Some f \<Rightarrow> f s)"

text \<open>The result is -1 when the seek was done or nothing was to be done.\<close>

definition stream_seek_internal :: "'d driver \<Rightarrow> 'd seeking" where
  "stream_seek_internal drv s newpos =
     (if newpos = 0 \<or> newpos \<noteq> s_pos s
      then
        if s_type s = STREAMTYPE_STREAM
        then (case d_seek drv of
                Some f \<Rightarrow> (case f s newpos of (r, s) \<Rightarrow> (if r = 0 then 0 else -1, s))
              | None \<Rightarrow>
                  (case d_streaming_seek drv of
                     Some f \<Rightarrow> (case f s newpos of (r, s) \<Rightarrow> (if r < 0 then 1 else -1, s))
                   | None \<Rightarrow> (if newpos < s_pos s then 1 else -1, s)))
        else (case d_seek drv of
                None \<Rightarrow> (0, s)
              | Some f \<Rightarrow> (case f s newpos of (r, s) \<Rightarrow> (if r = 0 then 0 else -1, s)))
      else (-1, s))"

partial_function (option) stream_read_internal :: "'d driver \<Rightarrow> 'd stream \<Rightarrow> int \<Rightarrow> (string \<times> 'd stream) option" where
  "stream_read_internal drv s len =
     (case raw_read drv s len of
        (bs, s) \<Rightarrow>
          if bs \<noteq> [] then Some (bs, s\<lparr>s_eof := False, s_pos := s_pos s + int (length bs)\<rparr>)
          else if s_eof s \<or> s_end_pos s \<noteq> 0 \<and> s_pos s = s_end_pos s \<or> s_type s = STREAMTYPE_DVDNAV
          then Some ([], s\<lparr>s_eof := True\<rparr>)
          else
            (let pos = s_pos s
             in case stream_seek_internal drv (stream_reset drv (s\<lparr>s_eof := True\<rparr>)) pos of
                  (r, s) \<Rightarrow>
                    if 0 \<le> r \<or> s_pos s \<noteq> pos then Some ([], s\<lparr>s_eof := True\<rparr>)
                    else stream_read_internal drv (s\<lparr>s_eof := True\<rparr>) len))"

declare stream_read_internal.simps [code]

definition stream_fill_buffer :: "'d driver \<Rightarrow> 'd stream \<Rightarrow> (int \<times> 'd stream) option" where
  "stream_fill_buffer drv s =
     do {
       (bs, s) \<leftarrow> stream_read_internal drv s STREAM_BUFFER_SIZE;
       if bs = [] then Some (0, s)
       else Some (int (length bs), s\<lparr>s_buf_pos := 0, s_buf_len := int (length bs), s_buffer := bs\<rparr>) }"

definition stream_write_buffer :: "'d driver \<Rightarrow> 'd writing" where
  "stream_write_buffer drv s buf len =
     (case d_write_buffer drv of
        None \<Rightarrow> Some (-1, s)
      | Some f \<Rightarrow>
          do {
            (rd, s) \<leftarrow> f s buf len;
            if rd < 0 then Some (-1, s)
            else if rd = int len then Some (rd, s\<lparr>s_pos := s_pos s + rd\<rparr>)
            else None })"

subsection \<open>Seeking\<close>

text \<open>The two loops of \<open>stream_seek_long\<close>: reading up to a position, and to a byte of a block.\<close>

partial_function (option) read_up_to :: "'d driver \<Rightarrow> int \<Rightarrow> 'd stream \<Rightarrow> 'd stream option" where
  "read_up_to drv newpos s =
     (if s_pos s < newpos
      then do { (r, s) \<leftarrow> stream_fill_buffer drv s; if r \<le> 0 then Some s else read_up_to drv newpos s }
      else Some s)"

partial_function (option) seek_in_blocks :: "'d driver \<Rightarrow> int \<Rightarrow> 'd stream \<Rightarrow> 'd stream option" where
  "seek_in_blocks drv pos s =
     do {
       (r, s) \<leftarrow> stream_fill_buffer drv s;
       if 0 < r
       then if pos \<le> s_buf_len s then Some (s\<lparr>s_buf_pos := pos\<rparr>)
            else seek_in_blocks drv (pos - s_buf_len s) s
       else Some (s\<lparr>s_pos := s_pos s + pos, s_buf_pos := 0, s_buf_len := 0\<rparr>) }"

declare read_up_to.simps [code] seek_in_blocks.simps [code]

definition seek_block :: "'d stream \<Rightarrow> int \<Rightarrow> int" where
  "seek_block s pos =
     (if s_sector_size s \<noteq> 0 then (pos sdiv s_sector_size s) * s_sector_size s
      else pos - pos mod STREAM_BUFFER_SIZE)"

definition stream_seek_long :: "'d driver \<Rightarrow> 'd stream \<Rightarrow> int \<Rightarrow> (int \<times> 'd stream) option" where
  "stream_seek_long drv s pos =
     (let s = s\<lparr>s_buf_pos := 0, s_buf_len := 0\<rparr>
      in if s_mode s = STREAM_WRITE
         then (case d_seek drv of
                 None \<Rightarrow> Some (0, s)
               | Some f \<Rightarrow> (case f s pos of (r, s) \<Rightarrow> Some (if r = 0 then 0 else 1, s)))
         else
           (let newpos = seek_block s pos
            in case stream_seek_internal drv s newpos of
                 (res, s) \<Rightarrow>
                   if 0 \<le> res then Some (res, s)
                   else do {
                     s \<leftarrow> read_up_to drv newpos s;
                     s \<leftarrow> seek_in_blocks drv (pos - newpos) (s\<lparr>s_eof := False\<rparr>);
                     Some (1, s) }))"

subsection \<open>Creating streams\<close>

definition new_stream :: "'d \<Rightarrow> int \<Rightarrow> 'd stream" where
  "new_stream priv type =
     \<lparr>s_type = type, s_seek_fw = False, s_sector_size = 0, s_read_chunk = 0, s_buf_pos = 0, s_buf_len = 0, s_pos = 0,
      s_start_pos = 0, s_end_pos = 0, s_eof = False, s_mode = STREAM_READ, s_stopped = False, s_buffer = [], s_priv = priv\<rparr>"

definition no_driver :: "'d driver" where
  "no_driver = \<lparr>d_fill_buffer = None, d_write_buffer = None, d_seek = None, d_control_reset = None,
     d_streaming_read = None, d_streaming_seek = None, d_read = (\<lambda>s len. ([], s)), d_demux_read = (\<lambda>s len. ([], s))\<rparr>"

definition new_memory_stream :: "string \<Rightarrow> unit stream" where
  "new_memory_stream bs =
     (new_stream () STREAMTYPE_MEMORY)\<lparr>s_buf_len := int (length bs), s_end_pos := int (length bs), s_pos := int (length bs),
        s_buffer := bs\<rparr>"

subsection \<open>What a driver of a seekable source promises\<close>

text \<open>What reading and seeking leave as it is.\<close>

definition same_setup :: "'d stream \<Rightarrow> 'd stream \<Rightarrow> bool" where
  "same_setup s s' =
     (s_type s' = s_type s \<and> s_seek_fw s' = s_seek_fw s \<and> s_sector_size s' = s_sector_size s \<and> s_read_chunk s' = s_read_chunk s \<and>
      s_end_pos s' = s_end_pos s \<and> s_mode s' = s_mode s)"

lemma same_setup_refl [simp]: "same_setup s s" by (simp add: same_setup_def)

lemma same_setup_trans: "same_setup s t \<Longrightarrow> same_setup t u \<Longrightarrow> same_setup s u" by (simp add: same_setup_def)

text \<open>
  A source with a content. The driver keeps a position of its own (\<open>at\<close>); reading returns
  bytes from there, at least one before the end, and seeking moves it.
\<close>

text \<open>The bytes in the buffer are those of the content before the position of the stream.\<close>

definition view_ok :: "string \<Rightarrow> 'd stream \<Rightarrow> bool" where
  "view_ok content s =
     (0 \<le> s_buf_pos s \<and> s_buf_pos s \<le> s_buf_len s \<and> s_buf_len s \<le> s_pos s \<and> nat (s_buf_len s) \<le> length (s_buffer s) \<and>
      take (nat (s_buf_len s)) (s_buffer s) = take (nat (s_buf_len s)) (drop (nat (s_pos s - s_buf_len s)) content) \<and>
      (s_buf_len s = 0 \<or> s_pos s \<le> int (length content)))"

definition stream_tell :: "'d stream \<Rightarrow> int" where
  "stream_tell s = s_pos s + s_buf_pos s - s_buf_len s"

locale source =
  fixes drv :: "'d driver" and content :: string and usable :: "'d \<Rightarrow> bool" and at :: "'d \<Rightarrow> int" and ty :: int
  assumes raw_read: "s_type s = ty \<Longrightarrow> usable (s_priv s) \<Longrightarrow> 0 < len \<Longrightarrow>
      \<exists>bs d. raw_read drv s len = (bs, s\<lparr>s_priv := d\<rparr>) \<and> usable d \<and> at d = at (s_priv s) + int (length bs) \<and>
        bs = take (length bs) (drop (nat (at (s_priv s))) content) \<and> int (length bs) \<le> len \<and>
        (bs = [] \<longleftrightarrow> int (length content) \<le> at (s_priv s))"
    and seek: "s_type s = ty \<Longrightarrow> usable (s_priv s) \<Longrightarrow> 0 \<le> p \<Longrightarrow>
      \<exists>f r d. d_seek drv = Some f \<and> f s p = (r, s\<lparr>s_pos := p, s_priv := d\<rparr>) \<and> r \<noteq> 0 \<and> usable d \<and> at d = p"
    and reset: "d_control_reset drv = Some c \<Longrightarrow> usable (s_priv s) \<Longrightarrow> \<exists>d. c s = s\<lparr>s_priv := d\<rparr> \<and> usable d"
    and at_nonneg: "usable d \<Longrightarrow> 0 \<le> at d"
begin

text \<open>
  The driver is where the stream thinks it is; a seek behind the end is not always passed
  to the driver.
\<close>

definition synced :: "int \<Rightarrow> 'd \<Rightarrow> bool" where
  "synced p d = (usable d \<and> 0 \<le> p \<and> (at d = p \<or> int (length content) \<le> at d \<and> int (length content) \<le> p))"

definition ready :: "'d stream \<Rightarrow> bool" where
  "ready s = (s_type s = ty \<and> synced (s_pos s) (s_priv s))"

lemma ready_nonneg: "ready s \<Longrightarrow> 0 \<le> s_pos s"
  by (simp add: ready_def synced_def)

lemma at_synced: "usable d \<Longrightarrow> at d = p \<Longrightarrow> synced p d"
  using at_nonneg [of d] by (simp add: synced_def)

lemma stream_reset_eof:
  assumes "usable (s_priv s)"
  shows "\<exists>d. stream_reset drv (s\<lparr>s_eof := True\<rparr>) =
      s\<lparr>s_pos := 0, s_buf_pos := 0, s_buf_len := 0, s_eof := False, s_priv := d\<rparr> \<and> usable d"
proof (cases "d_control_reset drv")
  case None
  then show ?thesis using assms by (intro exI [of _ "s_priv s"]) (simp add: stream_reset_def)
next
  case (Some c)
  then show ?thesis
    using reset [OF Some, of "s\<lparr>s_pos := 0, s_buf_pos := 0, s_buf_len := 0, s_eof := False\<rparr>"] assms
    by (auto simp: stream_reset_def)
qed

lemma seek_internal:
  assumes "s_type s = ty" and "usable (s_priv s)" and "0 \<le> p" and "p = 0 \<or> p \<noteq> s_pos s"
  shows "\<exists>d. stream_seek_internal drv s p = (-1, s\<lparr>s_pos := p, s_priv := d\<rparr>) \<and> usable d \<and> at d = p"
proof -
  obtain f r d where "d_seek drv = Some f" "f s p = (r, s\<lparr>s_pos := p, s_priv := d\<rparr>)" "r \<noteq> 0" "usable d" "at d = p"
    using seek [OF assms(1,2,3)] by blast
  then show ?thesis using assms(4) by (auto simp: stream_seek_internal_def)
qed

text \<open>Going to a position: also where the stream is there already.\<close>

lemma seek_ready:
  assumes "ready s" and "0 \<le> p"
  shows "\<exists>d. stream_seek_internal drv s p = (-1, s\<lparr>s_pos := p, s_priv := d\<rparr>) \<and> ready (s\<lparr>s_pos := p, s_priv := d\<rparr>)"
proof (cases "p = 0 \<or> p \<noteq> s_pos s")
  case True
  then show ?thesis using seek_internal [of s p] assms by (auto simp: ready_def synced_def)
next
  case False
  then show ?thesis using assms by (intro exI [of _ "s_priv s"]) (simp add: stream_seek_internal_def)
qed

text \<open>What a reading returns: the next bytes of the content, none only at its end.\<close>

definition next_bytes :: "int \<Rightarrow> int \<Rightarrow> string \<Rightarrow> bool" where
  "next_bytes p len bs =
     (bs = take (length bs) (drop (nat p) content) \<and> int (length bs) \<le> len \<and> (bs = [] \<longleftrightarrow> int (length content) \<le> p))"

lemma raw_read_next:
  assumes "s_type s = ty" and "synced p (s_priv s)" and "0 < len"
  obtains bs d where "raw_read drv s len = (bs, s\<lparr>s_priv := d\<rparr>)" "synced (p + int (length bs)) d" "next_bytes p len bs"
proof -
  have u: "usable (s_priv s)" using assms(2) by (simp add: synced_def)
  obtain bs d where raw: "raw_read drv s len = (bs, s\<lparr>s_priv := d\<rparr>)" "usable d" "at d = at (s_priv s) + int (length bs)"
      "bs = take (length bs) (drop (nat (at (s_priv s))) content)" "int (length bs) \<le> len"
      "bs = [] \<longleftrightarrow> int (length content) \<le> at (s_priv s)"
    using raw_read [OF assms(1) u assms(3)] by blast
  have "synced (p + int (length bs)) d \<and> next_bytes p len bs"
    using assms(2) raw unfolding synced_def next_bytes_def by auto
  then show ?thesis using that [OF raw(1)] by blast
qed

lemma read_internal:
  assumes "ready s" and "0 < len"
  shows "\<exists>bs s'. stream_read_internal drv s len = Some (bs, s') \<and> next_bytes (s_pos s) len bs \<and> ready s' \<and>
     s_pos s' = s_pos s + int (length bs) \<and> s_eof s' = (bs = []) \<and> s_buffer s' = s_buffer s \<and> same_setup s s' \<and>
     (s_buf_pos s' = s_buf_pos s \<and> s_buf_len s' = s_buf_len s \<or> bs = [] \<and> s_buf_pos s' = 0 \<and> s_buf_len s' = 0)"
proof -
  have r: "s_type s = ty" "synced (s_pos s) (s_priv s)" using assms(1) by (simp_all add: ready_def)
  obtain bs d where raw: "raw_read drv s len = (bs, s\<lparr>s_priv := d\<rparr>)" "synced (s_pos s + int (length bs)) d"
      "next_bytes (s_pos s) len bs"
    by (rule raw_read_next [OF r assms(2)])
  let ?s = "s\<lparr>s_priv := d\<rparr>"
  show ?thesis
  proof (cases "bs = []")
    case False
    then show ?thesis using raw r
      by (subst stream_read_internal.simps) (simp add: ready_def same_setup_def)
  next
    case bs: True
    show ?thesis
    proof (cases "s_eof s \<or> s_end_pos s \<noteq> 0 \<and> s_pos s = s_end_pos s \<or> s_type s = STREAMTYPE_DVDNAV")
      case True
      then show ?thesis using raw r bs
        by (subst stream_read_internal.simps) (simp add: ready_def same_setup_def)
    next
      case False
      obtain e where e: "stream_reset drv (?s\<lparr>s_eof := True\<rparr>) =
          ?s\<lparr>s_pos := 0, s_buf_pos := 0, s_buf_len := 0, s_eof := False, s_priv := e\<rparr>" "usable e"
        using stream_reset_eof [of ?s] raw(2) by (auto simp: synced_def)
      let ?r = "?s\<lparr>s_pos := 0, s_buf_pos := 0, s_buf_len := 0, s_eof := False, s_priv := e\<rparr>"
      have p: "0 \<le> s_pos s" by (rule ready_nonneg [OF assms(1)])
      have pz: "s_pos s = 0 \<or> s_pos s \<noteq> s_pos ?r" by simp
      obtain d' where d': "stream_seek_internal drv ?r (s_pos s) = (-1, ?r\<lparr>s_pos := s_pos s, s_priv := d'\<rparr>)"
          "usable d'" "at d' = s_pos s"
        using seek_internal [OF _ _ p pz] r(1) e(2) by auto
      let ?t = "?r\<lparr>s_pos := s_pos s, s_priv := d', s_eof := True\<rparr>"
      have t: "s_type ?t = ty" "synced (s_pos s) (s_priv ?t)" using r(1) at_synced [OF d'(2,3)] by simp_all
      obtain bs' d'' where raw': "raw_read drv ?t len = (bs', ?t\<lparr>s_priv := d''\<rparr>)"
          "synced (s_pos s + int (length bs')) d''" "next_bytes (s_pos s) len bs'"
        by (rule raw_read_next [OF t assms(2)])
      have bs': "bs' = []" using raw(3) raw'(3) bs by (simp add: next_bytes_def)
      have "stream_read_internal drv ?t len = Some ([], ?t\<lparr>s_priv := d''\<rparr>)"
        using raw' bs' by (subst stream_read_internal.simps) simp
      then have "stream_read_internal drv s len = Some ([], ?t\<lparr>s_priv := d''\<rparr>)"
        using raw(1) bs False e(1) d'(1)
        by (subst stream_read_internal.simps) (auto simp: Let_def)
      then show ?thesis
        using raw' raw(3) bs bs' r by (simp add: ready_def same_setup_def)
    qed
  qed
qed

end

context source
begin

lemma next_bytes_within:
  assumes "next_bytes p len bs" and "bs \<noteq> []" and "0 \<le> p"
  shows "p + int (length bs) \<le> int (length content)"
proof -
  have "length bs = length (take (length bs) (drop (nat p) content))" using assms(1) unfolding next_bytes_def by metis
  then have "length bs \<le> length content - nat p" by simp
  moreover have "0 < length bs" using assms(2) by simp
  ultimately have "nat p + length bs \<le> length content" by arith
  then show ?thesis using assms(3) by linarith
qed

definition buffered :: "'d stream \<Rightarrow> bool" where
  "buffered s = (ready s \<and> view_ok content s)"

lemmas buffered_simps = buffered_def view_ok_def

lemma fill_ready:
  assumes "ready s"
  shows "\<exists>n s'. stream_fill_buffer drv s = Some (n, s') \<and> ready s' \<and> s_pos s' = s_pos s + n \<and> same_setup s s' \<and>
     0 \<le> n \<and> n \<le> STREAM_BUFFER_SIZE \<and> (n = 0 \<longleftrightarrow> int (length content) \<le> s_pos s) \<and> s_eof s' = (n = 0) \<and>
     (n \<noteq> 0 \<longrightarrow> buffered s' \<and> s_buf_pos s' = 0 \<and> s_buf_len s' = n) \<and>
     (n = 0 \<longrightarrow> s_buffer s' = s_buffer s \<and>
       (s_buf_pos s' = s_buf_pos s \<and> s_buf_len s' = s_buf_len s \<or> s_buf_pos s' = 0 \<and> s_buf_len s' = 0))"
proof -
  note p = ready_nonneg [OF assms]
  obtain bs s1 where b: "stream_read_internal drv s STREAM_BUFFER_SIZE = Some (bs, s1)" "next_bytes (s_pos s) STREAM_BUFFER_SIZE bs"
      "ready s1" "s_pos s1 = s_pos s + int (length bs)" "s_eof s1 = (bs = [])" "s_buffer s1 = s_buffer s" "same_setup s s1"
      "s_buf_pos s1 = s_buf_pos s \<and> s_buf_len s1 = s_buf_len s \<or> bs = [] \<and> s_buf_pos s1 = 0 \<and> s_buf_len s1 = 0"
    using read_internal [OF assms, of STREAM_BUFFER_SIZE] by auto
  show ?thesis
  proof (cases "bs = []")
    case True
    then show ?thesis using b by (auto simp: stream_fill_buffer_def next_bytes_def)
  next
    case False
    let ?s = "s1\<lparr>s_buf_pos := 0, s_buf_len := int (length bs), s_buffer := bs\<rparr>"
    have "ready ?s" using b(3) by (simp add: ready_def)
    then have "buffered ?s"
      using b(2,4) p next_bytes_within [OF b(2) False p] by (simp add: buffered_simps) (simp add: next_bytes_def)
    then show ?thesis using b False \<open>ready ?s\<close> by (simp add: stream_fill_buffer_def next_bytes_def same_setup_def)
  qed
qed

text \<open>Reading ahead when the buffer is used up.\<close>

lemma fill_buffer:
  assumes "buffered s" and "s_buf_pos s = s_buf_len s"
  shows "\<exists>n s'. stream_fill_buffer drv s = Some (n, s') \<and> buffered s' \<and> stream_tell s' = stream_tell s \<and> same_setup s s' \<and>
     n = s_buf_len s' - s_buf_pos s' \<and> (n = 0 \<longleftrightarrow> int (length content) \<le> stream_tell s) \<and> s_eof s' = (n = 0)"
proof -
  have r: "ready s" and t: "stream_tell s = s_pos s" using assms by (simp_all add: buffered_simps stream_tell_def)
  obtain n s' where f: "stream_fill_buffer drv s = Some (n, s')" "ready s'" "s_pos s' = s_pos s + n" "same_setup s s'"
      "n = 0 \<longleftrightarrow> int (length content) \<le> s_pos s" "s_eof s' = (n = 0)"
      "n \<noteq> 0 \<longrightarrow> buffered s' \<and> s_buf_pos s' = 0 \<and> s_buf_len s' = n"
      "n = 0 \<longrightarrow> s_buffer s' = s_buffer s \<and>
       (s_buf_pos s' = s_buf_pos s \<and> s_buf_len s' = s_buf_len s \<or> s_buf_pos s' = 0 \<and> s_buf_len s' = 0)"
    using fill_ready [OF r] by auto
  show ?thesis
  proof (cases "n = 0")
    case True
    then have "buffered s'" using assms f ready_nonneg [OF r] by (auto simp: buffered_simps)
    then show ?thesis using f True t assms(2) by (auto simp: stream_tell_def)
  next
    case False
    then show ?thesis using f t by (auto simp: stream_tell_def)
  qed
qed

text \<open>Seeking.\<close>

lemma seek_blocks:
  assumes "ready s" and "0 \<le> pos"
  shows "\<exists>s'. seek_in_blocks drv pos s = Some s' \<and> buffered s' \<and> stream_tell s' = s_pos s + pos \<and> same_setup s s'"
  using assms
proof (induction "nat (int (length content) - s_pos s)" arbitrary: s pos rule: less_induct)
  case less
  obtain n s' where f: "stream_fill_buffer drv s = Some (n, s')" "ready s'" "s_pos s' = s_pos s + n" "same_setup s s'"
      "0 \<le> n" "n = 0 \<longleftrightarrow> int (length content) \<le> s_pos s" "n \<noteq> 0 \<longrightarrow> buffered s' \<and> s_buf_pos s' = 0 \<and> s_buf_len s' = n"
    using fill_ready [OF less.prems(1)] by auto
  show ?case
  proof (cases "n = 0")
    case True
    let ?s = "s'\<lparr>s_pos := s_pos s' + pos, s_buf_pos := 0, s_buf_len := 0\<rparr>"
    have "buffered ?s" using f(2,3,6) True less.prems(2) by (auto simp: buffered_simps ready_def synced_def)
    then show ?thesis using f True
      by (subst seek_in_blocks.simps) (auto simp: stream_tell_def same_setup_def)
  next
    case n: False
    show ?thesis
    proof (cases "pos \<le> n")
      case True
      have "buffered (s'\<lparr>s_buf_pos := pos\<rparr>)"
        using f(2,7) n True less.prems(2) by (auto simp: buffered_simps ready_def)
      then show ?thesis using f n True
        by (subst seek_in_blocks.simps) (simp add: stream_tell_def same_setup_def)
    next
      case False
      have "\<exists>s''. seek_in_blocks drv (pos - n) s' = Some s'' \<and> buffered s'' \<and> stream_tell s'' = s_pos s' + (pos - n) \<and> same_setup s' s''"
        by (rule less.hyps) (use f n False in auto)
      then show ?thesis using f n False
        by (subst seek_in_blocks.simps) (auto intro: same_setup_trans)
    qed
  qed
qed

end

context source
begin

lemma seek_block_buf [simp]: "seek_block (s\<lparr>s_buf_pos := x, s_buf_len := y\<rparr>) pos = seek_block s pos"
  by (simp add: seek_block_def)

lemma seek_block_bounds:
  assumes "0 \<le> s_sector_size s" and "0 \<le> pos"
  shows "0 \<le> seek_block s pos \<and> seek_block s pos \<le> pos"
proof (cases "s_sector_size s = 0")
  case True
  then show ?thesis using assms(2) zmod_le_nonneg_dividend [of pos 2048] by (simp add: seek_block_def)
next
  case False
  then have "seek_block s pos = pos - pos mod s_sector_size s"
    using assms by (simp add: seek_block_def signed_divide_int_def sgn_if minus_mod_eq_div_mult)
  then show ?thesis using assms zmod_le_nonneg_dividend [of pos "s_sector_size s"] pos_mod_sign [of "s_sector_size s" pos] False by simp
qed

lemma seek_long:
  assumes "ready s" and "0 \<le> pos" and "0 \<le> s_sector_size s" and "s_mode s = STREAM_READ"
  shows "\<exists>s'. stream_seek_long drv s pos = Some (1, s') \<and> buffered s' \<and> stream_tell s' = pos \<and> same_setup s s'"
proof -
  let ?s = "s\<lparr>s_buf_pos := 0, s_buf_len := 0\<rparr>" and ?p = "seek_block s pos"
  have p: "0 \<le> ?p" "?p \<le> pos" using seek_block_bounds [OF assms(3,2)] by simp_all
  have "ready ?s" using assms(1) by (simp add: ready_def)
  then obtain d where d: "stream_seek_internal drv ?s ?p = (-1, ?s\<lparr>s_pos := ?p, s_priv := d\<rparr>)" "ready (?s\<lparr>s_pos := ?p, s_priv := d\<rparr>)"
    using seek_ready [OF _ p(1)] by blast
  let ?t = "?s\<lparr>s_pos := ?p, s_priv := d, s_eof := False\<rparr>"
  have "ready ?t" using d(2) by (simp add: ready_def)
  then obtain s' where s': "seek_in_blocks drv (pos - ?p) ?t = Some s'" "buffered s'" "stream_tell s' = pos" "same_setup ?t s'"
    using seek_blocks [of ?t "pos - ?p"] p by auto
  have "read_up_to drv ?p (?s\<lparr>s_pos := ?p, s_priv := d\<rparr>) = Some (?s\<lparr>s_pos := ?p, s_priv := d\<rparr>)"
    by (subst read_up_to.simps) simp
  then have "stream_seek_long drv s pos = Some (1, s')"
    using d(1) s'(1) assms(4) by (simp add: stream_seek_long_def Let_def)
  then show ?thesis using s' by (auto simp: same_setup_def)
qed

end

end
