(* ===== verification/Cache2.thy ===== *)
theory Cache2
  imports Stream_Source
begin

text \<open>
  The cache of a stream (\<open>stream/cache2.c\<close>): a ring buffer that a filler process or thread
  fills from its own copy of the stream and the player reads from. The variables both share
  are one record. How the filler runs is a schedule: a list with an element for every round
  of the reader's loop, saying how many times \<open>cache_fill\<close> runs before the round, and what
  \<open>stream_check_interrupt\<close> returns if the round calls it. A result \<open>None\<close> is an access
  outside a buffer or a schedule that ends while the reader still waits. Controls
  (\<open>cache_do_control\<close>, \<open>cache_execute_control\<close>) and statistics are not modelled.
\<close>

subsection \<open>The variables and the filler\<close>

record 'd cache =
  c_buffer :: string
  c_buffer_size :: int
  c_sector_size :: int
  c_back_size :: int
  c_fill_limit :: int
  c_seek_limit :: int
  c_eof :: bool
  c_min :: int
  c_max :: int
  c_offset :: int
  c_read :: int
  c_stream :: "'d stream"

definition cache_init :: "'d stream \<Rightarrow> int \<Rightarrow> int \<Rightarrow> 'd cache" where
  "cache_init st sz sector =
     (let num = sz sdiv sector; num = (if num < 16 then 16 else num); sz = num * sector
      in \<lparr>c_buffer = replicate (nat sz) (CHR 0x00), c_buffer_size = sz, c_sector_size = sector, c_back_size = sz sdiv 2,
          c_fill_limit = 8 * sector, c_seek_limit = 0, c_eof = False, c_min = 0, c_max = 0, c_offset = 0, c_read = 0,
          c_stream = st\<rparr>)"

text \<open>The part of \<open>stream_enable_cache\<close> before the filler is started.\<close>

definition enable_cache :: "'d stream \<Rightarrow> int \<Rightarrow> int \<Rightarrow> 'd cache" where
  "enable_cache st sz seek_limit =
     (let c = cache_init st sz (if s_sector_size st \<noteq> 0 then s_sector_size st else STREAM_BUFFER_SIZE)
      in c\<lparr>c_seek_limit := (if c_buffer_size c - c_fill_limit c < seek_limit then c_buffer_size c - c_fill_limit c else seek_limit)\<rparr>)"

text \<open>\<open>memcpy\<close> into and out of the buffer.\<close>

definition put_bytes :: "int \<Rightarrow> string \<Rightarrow> string \<Rightarrow> string option" where
  "put_bytes pos bs buf =
     (if 0 \<le> pos \<and> pos + int (length bs) \<le> int (length buf)
      then Some (take (nat pos) buf @ bs @ drop (nat pos + length bs) buf) else None)"

definition get_bytes :: "int \<Rightarrow> int \<Rightarrow> string \<Rightarrow> string option" where
  "get_bytes pos n buf =
     (if 0 \<le> pos \<and> 0 \<le> n \<and> pos + n \<le> int (length buf) then Some (take (nat n) (drop (nat pos) buf)) else None)"

text \<open>The seek of the filler, and how much it reads to which place.\<close>

definition cache_reposition :: "'d driver \<Rightarrow> 'd cache \<Rightarrow> 'd cache" where
  "cache_reposition drv c =
     (let read = c_read c
      in if (read < c_min c \<or> c_max c < read) \<and> (read < c_min c \<or> c_max c + c_seek_limit c \<le> read)
         then (let st = (if s_eof (c_stream c) then stream_reset drv (c_stream c) else c_stream c)
               in c\<lparr>c_offset := read, c_min := read, c_max := read, c_stream := snd (stream_seek_internal drv st read)\<rparr>)
         else c)"

definition fill_pos :: "'d cache \<Rightarrow> int" where
  "fill_pos c =
     (let pos = c_max c - c_offset c in if c_buffer_size c \<le> pos then pos - c_buffer_size c else pos)"

definition new_bytes :: "'d cache \<Rightarrow> int" where
  "new_bytes c = (let newb = c_max c - c_read c in if newb < 0 then 0 else newb)"

definition free_space :: "'d cache \<Rightarrow> int" where
  "free_space c =
     (let back = c_read c - c_min c;
          back = (if back < 0 then 0 else back);
          back = (if c_back_size c < back then c_back_size c else back)
      in c_buffer_size c - (new_bytes c + back))"

text \<open>The space to fill, and whether it needs the extra copy at the end of the buffer.\<close>

definition fill_space :: "'d cache \<Rightarrow> int \<times> bool" where
  "fill_space c =
     (let room = c_buffer_size c - fill_pos c;
          chunk = (if s_read_chunk (c_stream c) = 0 then 4 * c_sector_size c else s_read_chunk (c_stream c))
      in if room < free_space c
         then if c_sector_size c \<le> room then (min room chunk, False) else (min (c_sector_size c) chunk, True)
         else (min (free_space c) chunk, False))"

definition cache_fill :: "'d driver \<Rightarrow> 'd cache \<Rightarrow> (int \<times> 'd cache) option" where
  "cache_fill drv c =
     (let c = cache_reposition drv c
      in if free_space c < c_fill_limit c then Some (0, c)
         else
           (let pos = fill_pos c; (space, wrap) = fill_space c;
                back2 = c_buffer_size c - (space + new_bytes c);
                c = (if c_min c < c_read c - back2 then c\<lparr>c_min := c_read c - back2\<rparr> else c)
            in do {
                 (bs, st) \<leftarrow> stream_read_internal drv (c_stream c) space;
                 buf \<leftarrow> (if wrap
                        then (let k = nat (min (int (length bs)) (c_buffer_size c - pos))
                              in if STREAM_MAX_SECTOR_SIZE < int (length bs) then None
                                 else do { buf \<leftarrow> put_bytes pos (take k bs) (c_buffer c); put_bytes 0 (drop k bs) buf })
                        else put_bytes pos bs (c_buffer c));
                 let len = int (length bs);
                 Some (len, c\<lparr>c_stream := (if wrap then st\<lparr>s_buffer := bs\<rparr> else st), c_buffer := buf, c_eof := (len = 0),
                              c_max := c_max c + len,
                              c_offset := (if c_buffer_size c \<le> pos + len then c_offset c + c_buffer_size c else c_offset c)\<rparr>) }))"

fun cache_fills :: "nat \<Rightarrow> 'd driver \<Rightarrow> 'd cache \<Rightarrow> 'd cache option" where
  "cache_fills 0 drv c = Some c"
| "cache_fills (Suc n) drv c = do { (_, c) \<leftarrow> cache_fill drv c; cache_fills n drv c }"

lemma cache_fills_code [code]:
  "cache_fills n drv c = (if n = 0 then Some c else do { (_, c) \<leftarrow> cache_fill drv c; cache_fills (n - 1) drv c })"
  by (cases n) simp_all

subsection \<open>The reader\<close>

type_synonym schedule = "(nat \<times> bool) list"

text \<open>Where the reader finds the next bytes, and how many of them it can take at once.\<close>

definition read_place :: "'d cache \<Rightarrow> int" where
  "read_place c =
     (let pos = c_read c - c_offset c
      in if pos < 0 then pos + c_buffer_size c else if c_buffer_size c \<le> pos then pos - c_buffer_size c else pos)"

definition read_amount :: "'d cache \<Rightarrow> int \<Rightarrow> int" where
  "read_amount c wanted = min (min (c_max c - c_read c) (c_buffer_size c - read_place c)) wanted"

fun cache_read :: "'d driver \<Rightarrow> schedule \<Rightarrow> 'd cache \<Rightarrow> int \<Rightarrow> (string \<times> 'd cache \<times> schedule) option" where
  "cache_read drv [] c wanted = (if 0 < wanted then None else Some ([], c, []))"
| "cache_read drv ((n, intr) # sch) c wanted =
     (if 0 < wanted
      then do {
        c \<leftarrow> cache_fills n drv c;
        if c_max c \<le> c_read c \<or> c_read c < c_min c
        then if c_eof c then Some ([], c, sch)
             else if intr then Some ([], c\<lparr>c_eof := True\<rparr>, sch)
             else cache_read drv sch c wanted
        else do {
          let newb = read_amount c wanted;
          bs \<leftarrow> get_bytes (read_place c) newb (c_buffer c);
          (rest, c, sch) \<leftarrow> cache_read drv sch (c\<lparr>c_read := c_read c + newb\<rparr>) (wanted - newb);
          Some (bs @ rest, c, sch) } }
      else Some ([], c, (n, intr) # sch))"

subsection \<open>Streams with and without a cache\<close>

record 'd cstream =
  cs_stream :: "'d stream"
  cs_cache :: "'d cache option"
  cs_sched :: schedule

definition cache_stream_fill_buffer :: "'d driver \<Rightarrow> 'd cstream \<Rightarrow> (int \<times> 'd cstream) option" where
  "cache_stream_fill_buffer drv s =
     (case cs_cache s of
        None \<Rightarrow> map_option (\<lambda>(n, st). (n, s\<lparr>cs_stream := st\<rparr>)) (stream_fill_buffer drv (cs_stream s))
      | Some c \<Rightarrow>
          (let sector = (if STREAM_MAX_SECTOR_SIZE < c_sector_size c then STREAM_MAX_SECTOR_SIZE else c_sector_size c)
           in do {
                (bs, c, sch) \<leftarrow> cache_read drv (cs_sched s) c sector;
                let st = cs_stream s;
                let len = int (length bs);
                Some (len, s\<lparr>cs_cache := Some c, cs_sched := sch,
                             cs_stream := (if len \<le> 0 then st\<lparr>s_eof := True, s_buf_pos := 0, s_buf_len := 0\<rparr>
                                           else st\<lparr>s_eof := False, s_buf_pos := 0, s_buf_len := len, s_buffer := bs,
                                                   s_pos := s_pos st + len\<rparr>)\<rparr>) }))"

definition cache_stream_seek_long :: "'d driver \<Rightarrow> 'd cstream \<Rightarrow> int \<Rightarrow> (int \<times> 'd cstream) option" where
  "cache_stream_seek_long drv s pos =
     (case cs_cache s of
        None \<Rightarrow> map_option (\<lambda>(r, st). (r, s\<lparr>cs_stream := st\<rparr>)) (stream_seek_long drv (cs_stream s) pos)
      | Some c \<Rightarrow>
          (let newpos = (pos sdiv c_sector_size c) * c_sector_size c
           in do {
                (_, s) \<leftarrow> cache_stream_fill_buffer drv
                   (s\<lparr>cs_stream := (cs_stream s)\<lparr>s_pos := newpos\<rparr>, cs_cache := Some (c\<lparr>c_read := newpos, c_eof := False\<rparr>)\<rparr>);
                let pos = pos - newpos;
                if 0 \<le> pos \<and> pos \<le> s_buf_len (cs_stream s)
                then Some (1, s\<lparr>cs_stream := (cs_stream s)\<lparr>s_buf_pos := pos\<rparr>\<rparr>)
                else Some (0, s) }))"

end
