(* ===== verification/Cache_Inv.thy ===== *)
theory Cache_Inv
  imports Cache2
begin

text \<open>
  The invariant of the cache: the ring holds the bytes of the file between \<open>min_filepos\<close> and
  \<open>max_filepos\<close>. The filler and the reader keep it, however they interleave; the reader gets
  what the file has at its position; and it gets it in time if the filler runs.
\<close>

subsection \<open>The ring\<close>

lemma put_bytes_SomeI:
  "0 \<le> pos \<Longrightarrow> pos + int (length bs) \<le> int (length buf) \<Longrightarrow>
   \<exists>buf'. put_bytes pos bs buf = Some buf' \<and> length buf' = length buf \<and>
     (\<forall>j<length buf. buf' ! j = (if nat pos \<le> j \<and> j < nat pos + length bs then bs ! (j - nat pos) else buf ! j))"
  by (auto simp: put_bytes_def nth_append min_def)

text \<open>Bytes are in the ring from a place on, and nothing else has changed.\<close>

definition ring_written :: "int \<Rightarrow> string \<Rightarrow> string \<Rightarrow> string \<Rightarrow> bool" where
  "ring_written pos bs buf buf' =
     (length buf' = length buf \<and> (\<forall>i<length bs. buf' ! nat ((pos + int i) mod int (length buf)) = bs ! i) \<and>
      (\<forall>j<length buf. (\<forall>i<length bs. int j \<noteq> (pos + int i) mod int (length buf)) \<longrightarrow> buf' ! j = buf ! j))"

lemma ring_write_straight:
  assumes "0 \<le> pos" and "pos + int (length bs) \<le> int (length buf)"
  shows "\<exists>buf'. put_bytes pos bs buf = Some buf' \<and> ring_written pos bs buf buf'"
proof -
  obtain buf' where b: "put_bytes pos bs buf = Some buf'" "length buf' = length buf"
      "\<forall>j<length buf. buf' ! j = (if nat pos \<le> j \<and> j < nat pos + length bs then bs ! (j - nat pos) else buf ! j)"
    using put_bytes_SomeI [OF assms] by blast
  have m: "(pos + int i) mod int (length buf) = pos + int i" if "i < length bs" for i
    using that assms by simp
  have "buf' ! nat (pos + int i) = bs ! i" if "i < length bs" for i
    using b(3) [rule_format, of "nat (pos + int i)"] that assms by (auto simp: nat_add_distrib)
  moreover have "buf' ! j = buf ! j" if "j < length buf" "\<forall>i<length bs. int j \<noteq> pos + int i" for j
  proof -
    have "\<not> (nat pos \<le> j \<and> j < nat pos + length bs)"
      using that(2) [rule_format, of "j - nat pos"] assms(1) by (cases "j - nat pos < length bs") auto
    then show ?thesis using b(3) that(1) by auto
  qed
  ultimately show ?thesis using b(1,2) m by (auto simp: ring_written_def)
qed

lemma ring_write_wrapped:
  assumes "0 \<le> pos" and "pos < int (length buf)" and "length bs \<le> length buf"
    and "k = nat (min (int (length bs)) (int (length buf) - pos))"
  shows "\<exists>buf1 buf'. put_bytes pos (take k bs) buf = Some buf1 \<and> put_bytes 0 (drop k bs) buf1 = Some buf' \<and> ring_written pos bs buf buf'"
proof -
  let ?n = "int (length buf)"
  have k: "k \<le> length bs" "pos + int k \<le> ?n" "k < length bs \<Longrightarrow> pos + int k = ?n"
    using assms by (auto simp: min_def)
  then have k': "nat pos + k \<le> length buf" "k < length bs \<Longrightarrow> nat pos + k = length buf" using assms(1) by linarith+
  obtain buf1 where b1: "put_bytes pos (take k bs) buf = Some buf1" "length buf1 = length buf"
      "\<forall>j<length buf. buf1 ! j = (if nat pos \<le> j \<and> j < nat pos + k then take k bs ! (j - nat pos) else buf ! j)"
    using put_bytes_SomeI [of pos "take k bs" buf] assms(1) k(1,2) by auto
  obtain buf' where b2: "put_bytes 0 (drop k bs) buf1 = Some buf'" "length buf' = length buf"
      "\<forall>j<length buf. buf' ! j = (if j < length bs - k then bs ! (k + j) else buf1 ! j)"
    using put_bytes_SomeI [of 0 "drop k bs" buf1] b1(2) k assms(3) by auto
  have m: "(pos + int i) mod ?n = (if i < k then pos + int i else int (i - k))" if "i < length bs" for i
  proof (cases "i < k")
    case True
    then show ?thesis using assms k(2) by simp
  next
    case False
    then have e: "pos + int i = int (i - k) + ?n" using k(3) that by simp
    have "int (i - k) < ?n" using that assms by linarith
    then have "(pos + int i) mod ?n = int (i - k)" unfolding e mod_add_self2 by simp
    then show ?thesis using False by simp
  qed
  have "buf' ! nat ((pos + int i) mod ?n) = bs ! i" if i: "i < length bs" for i
  proof (cases "i < k")
    case True
    then have "nat (pos + int i) = nat pos + i" "nat pos + i < length buf" "\<not> nat pos + i < length bs - k"
      using assms(1,3) k' i by (cases "k < length bs"; auto simp: nat_add_distrib)+
    then show ?thesis using m [OF i] True b1(3) b2(3) by simp
  next
    case False
    then have "i - k < length buf" "i - k < length bs - k" using i assms(3) by auto
    moreover have "nat ((pos + int i) mod ?n) = i - k" using m [OF i] False by simp
    ultimately show ?thesis using False b2(3) by simp
  qed
  moreover have "buf' ! j = buf ! j" if j: "j < length buf" "\<forall>i<length bs. int j \<noteq> (pos + int i) mod ?n" for j
  proof -
    have "\<not> j < length bs - k" using j(2) [rule_format, of "k + j"] m [of "k + j"] by (cases "k + j < length bs") auto
    moreover have "\<not> (nat pos \<le> j \<and> j < nat pos + k)"
      using j(2) [rule_format, of "j - nat pos"] m [of "j - nat pos"] k(1) assms(1)
      by (cases "j - nat pos < k") auto
    ultimately show ?thesis using b1(3) b2(3) j(1) by auto
  qed
  ultimately show ?thesis using b1 b2 by (auto simp: ring_written_def)
qed

subsection \<open>The invariant\<close>

text \<open>
  The sizes as \<open>cache_init\<close> chooses them, and the place of a byte of the file in the ring,
  which does not change when the offset moves on by the size of the ring.
\<close>

definition cache_sizes :: "'d cache \<Rightarrow> bool" where
  "cache_sizes c =
     (0 < c_sector_size c \<and> c_sector_size c \<le> STREAM_MAX_SECTOR_SIZE \<and> 16 * c_sector_size c \<le> c_buffer_size c \<and>
      c_buffer_size c = int (length (c_buffer c)) \<and> c_fill_limit c = 8 * c_sector_size c \<and>
      0 \<le> c_back_size c \<and> 2 * c_back_size c \<le> c_buffer_size c \<and> c_seek_limit c \<le> c_buffer_size c - c_fill_limit c \<and>
      0 \<le> s_read_chunk (c_stream c))"

definition ring_place :: "'d cache \<Rightarrow> int \<Rightarrow> nat" where
  "ring_place c p = nat ((p - c_offset c) mod c_buffer_size c)"

definition ring_holds :: "string \<Rightarrow> 'd cache \<Rightarrow> bool" where
  "ring_holds content c =
     (\<forall>p. c_min c \<le> p \<and> p < c_max c \<longrightarrow> p < int (length content) \<and> c_buffer c ! ring_place c p = content ! nat p)"

definition window_ok :: "'d cache \<Rightarrow> bool" where
  "window_ok c =
     (0 \<le> c_min c \<and> 0 \<le> c_max c \<and> c_offset c \<le> c_max c \<and> c_max c < c_offset c + c_buffer_size c \<and>
      c_max c - c_min c \<le> c_buffer_size c)"

text \<open>What the filler leaves as it is.\<close>

definition same_reader :: "'d cache \<Rightarrow> 'd cache \<Rightarrow> bool" where
  "same_reader c c' =
     (c_read c' = c_read c \<and> c_sector_size c' = c_sector_size c \<and> c_buffer_size c' = c_buffer_size c \<and>
      c_seek_limit c' = c_seek_limit c \<and> same_setup (c_stream c) (c_stream c'))"

lemma ring_written_holds:
  assumes h: "ring_holds content c" and w: "window_ok c" and sz: "c_buffer_size c = int (length (c_buffer c))"
    and rw: "ring_written (c_max c - c_offset c) bs (c_buffer c) (c_buffer c')"
    and bs: "\<forall>i<length bs. c_max c + int i < int (length content) \<and> bs ! i = content ! nat (c_max c + int i)"
    and c': "c_max c' = c_max c + int (length bs)" "c_min c \<le> c_min c'" "c_buffer_size c' = c_buffer_size c"
      "c_offset c' = c_offset c \<or> c_offset c' = c_offset c + c_buffer_size c"
    and fit: "c_max c' - c_min c' \<le> c_buffer_size c"
  shows "ring_holds content c'"
  unfolding ring_holds_def
proof (intro allI impI)
  fix p assume p: "c_min c' \<le> p \<and> p < c_max c'"
  let ?n = "c_buffer_size c"
  have place: "ring_place c' p = ring_place c p"
  proof -
    have "(p - (c_offset c + ?n)) mod ?n = (p - c_offset c) mod ?n"
      by (metis diff_diff_eq minus_mod_self2)
    then show ?thesis using c'(3,4) by (auto simp: ring_place_def)
  qed
  show "p < int (length content) \<and> c_buffer c' ! ring_place c' p = content ! nat p"
  proof (cases "p < c_max c")
    case False
    define i where "i = nat (p - c_max c)"
    have i: "i < length bs" "p = c_max c + int i" using False p c'(1) by (auto simp: i_def)
    have "ring_place c p = nat ((c_max c - c_offset c + int i) mod int (length (c_buffer c)))"
      by (simp add: ring_place_def i(2) sz algebra_simps)
    then show ?thesis using place rw bs i by (simp add: ring_written_def)
  next
    case True
    have n: "0 < ?n" using w by (simp add: window_ok_def)
    define j where "j = ring_place c p"
    have j: "int j = (p - c_offset c) mod ?n" "j < length (c_buffer c)"
      using n sz by (simp_all add: j_def ring_place_def nat_less_iff)
    have "int j \<noteq> (c_max c - c_offset c + int i) mod int (length (c_buffer c))" if i: "i < length bs" for i
    proof
      assume "int j = (c_max c - c_offset c + int i) mod int (length (c_buffer c))"
      then have "(c_max c - c_offset c + int i) mod ?n = (p - c_offset c) mod ?n" using j sz by simp
      then have "?n dvd (c_max c - c_offset c + int i) - (p - c_offset c)" by (rule mod_eq_dvd_iff [THEN iffD1])
      then have "?n dvd c_max c + int i - p" by (simp add: algebra_simps)
      moreover have "0 < c_max c + int i - p" "c_max c + int i - p < ?n"
        using True i fit p c'(1) by linarith+
      ultimately show False using zdvd_not_zless by blast
    qed
    then have "c_buffer c' ! j = c_buffer c ! j" using rw j(2) by (simp add: ring_written_def)
    then show ?thesis using h True p c'(2) place by (auto simp: ring_holds_def j_def)
  qed
qed

subsection \<open>The filler keeps the invariant\<close>

text \<open>The reader can go on, and how far the filler still is from it.\<close>

definition available :: "'d cache \<Rightarrow> bool" where
  "available c = (c_min c \<le> c_read c \<and> c_read c < c_max c)"

definition gap :: "'d cache \<Rightarrow> nat" where
  "gap c = (if c_min c \<le> c_read c \<and> c_read c < c_max c + c_seek_limit c then nat (c_read c - c_max c) else 0)"

lemma fill_numbers:
  assumes "cache_sizes c" and "window_ok c" and "c_min c \<le> c_read c"
  shows "0 \<le> fill_pos c" "fill_pos c < c_buffer_size c" "fill_pos c = c_max c - c_offset c"
    "0 \<le> new_bytes c" "c_max c - c_read c \<le> new_bytes c"
    "free_space c < c_fill_limit c \<Longrightarrow> c_read c < c_max c"
    "free_space c + new_bytes c \<le> c_buffer_size c"
  using assms by (auto simp: cache_sizes_def window_ok_def fill_pos_def new_bytes_def free_space_def Let_def split: if_splits)

lemma fill_space_ok:
  assumes "cache_sizes c" and "window_ok c" and "c_min c \<le> c_read c" and "c_fill_limit c \<le> free_space c"
    and "fill_space c = (space, wrap)"
  shows "0 < space" "space \<le> free_space c" "\<not> wrap \<Longrightarrow> fill_pos c + space \<le> c_buffer_size c"
    "wrap \<Longrightarrow> space \<le> c_sector_size c"
proof -
  note n = fill_numbers [OF assms(1-3)]
  define chunk where "chunk = (if s_read_chunk (c_stream c) = 0 then 4 * c_sector_size c else s_read_chunk (c_stream c))"
  have chunk: "0 < chunk" using assms(1) by (auto simp: chunk_def cache_sizes_def)
  have sp: "(space, wrap) =
      (if c_buffer_size c - fill_pos c < free_space c
       then if c_sector_size c \<le> c_buffer_size c - fill_pos c then (min (c_buffer_size c - fill_pos c) chunk, False)
            else (min (c_sector_size c) chunk, True)
       else (min (free_space c) chunk, False))"
    using assms(5) unfolding fill_space_def Let_def chunk_def [symmetric] by (rule sym)
  show "0 < space" "space \<le> free_space c" "\<not> wrap \<Longrightarrow> fill_pos c + space \<le> c_buffer_size c" "wrap \<Longrightarrow> space \<le> c_sector_size c"
    using sp chunk n(1-5) assms(1,4) by (auto simp: cache_sizes_def split: if_splits)
qed

lemma set_eof_same: "s_eof s \<Longrightarrow> s\<lparr>s_eof := True\<rparr> = s"
  by (cases s) simp

context source
begin

definition cache_ok :: "'d cache \<Rightarrow> bool" where
  "cache_ok c =
     (cache_sizes c \<and> window_ok c \<and> 0 \<le> c_read c \<and> ring_holds content c \<and> ready (c_stream c) \<and> s_pos (c_stream c) = c_max c)"

definition eof_ok :: "'d cache \<Rightarrow> bool" where
  "eof_ok c = (c_eof c \<longrightarrow> int (length content) \<le> c_max c \<and> c_min c \<le> c_read c)"

lemma reposition_ok:
  assumes "cache_ok c"
  shows "cache_ok (cache_reposition drv c)" "same_reader c (cache_reposition drv c)"
    "c_min (cache_reposition drv c) \<le> c_read c"
    "cache_reposition drv c = c \<or> c_max (cache_reposition drv c) = c_read c \<and> gap c = 0 \<and> \<not> available c"
    "c_read c < c_max (cache_reposition drv c) + c_seek_limit c \<or> c_read c \<le> c_max (cache_reposition drv c)"
proof -
  let ?c = "cache_reposition drv c"
  have "cache_ok ?c \<and> same_reader c ?c \<and> c_min ?c \<le> c_read c \<and>
      (?c = c \<or> c_max ?c = c_read c \<and> gap c = 0 \<and> \<not> available c) \<and>
      (c_read c < c_max ?c + c_seek_limit c \<or> c_read c \<le> c_max ?c)"
  proof (cases "(c_read c < c_min c \<or> c_max c < c_read c) \<and> (c_read c < c_min c \<or> c_max c + c_seek_limit c \<le> c_read c)")
    case False
    then have "?c = c" unfolding cache_reposition_def Let_def by (rule if_not_P)
    then show ?thesis using False assms by (auto simp: same_reader_def)
  next
    case True
    define st where "st = (if s_eof (c_stream c) then stream_reset drv (c_stream c) else c_stream c)"
    have r: "ready (c_stream c)" "0 \<le> c_read c" using assms by (simp_all add: cache_ok_def)
    obtain d e bp bl where st: "stream_seek_internal drv st (c_read c) =
        (-1, (c_stream c)\<lparr>s_pos := c_read c, s_priv := d, s_eof := e, s_buf_pos := bp, s_buf_len := bl\<rparr>)"
        "synced (c_read c) d"
    proof (cases "s_eof (c_stream c)")
      case eof: True
      obtain d where d: "st = (c_stream c)\<lparr>s_pos := 0, s_buf_pos := 0, s_buf_len := 0, s_eof := False, s_priv := d\<rparr>" "usable d"
        using stream_reset_eof [of "c_stream c"] r(1) eof set_eof_same [OF eof] by (auto simp: st_def ready_def synced_def)
      have "s_type st = ty" "usable (s_priv st)" "c_read c = 0 \<or> c_read c \<noteq> s_pos st"
        using r(1) d by (simp_all add: ready_def)
      from seek_internal [OF this(1,2) r(2) this(3)] obtain d' where
        "stream_seek_internal drv st (c_read c) = (-1, st\<lparr>s_pos := c_read c, s_priv := d'\<rparr>)" "usable d'" "at d' = c_read c"
        by blast
      then show ?thesis using d at_synced that [of 0 0 False d'] by simp
    next
      case eof: False
      obtain d' where "stream_seek_internal drv st (c_read c) = (-1, st\<lparr>s_pos := c_read c, s_priv := d'\<rparr>)"
          "ready (st\<lparr>s_pos := c_read c, s_priv := d'\<rparr>)"
        using seek_ready [of st "c_read c"] r eof by (auto simp: st_def)
      then show ?thesis
        using that [of "s_buf_len (c_stream c)" "s_buf_pos (c_stream c)" "s_eof (c_stream c)" d'] eof by (simp add: st_def ready_def)
    qed
    have c': "?c = c\<lparr>c_offset := c_read c, c_min := c_read c, c_max := c_read c,
        c_stream := (c_stream c)\<lparr>s_pos := c_read c, s_priv := d, s_eof := e, s_buf_pos := bp, s_buf_len := bl\<rparr>\<rparr>"
      unfolding cache_reposition_def Let_def st_def [symmetric] st(1) using True by simp
    have sizes: "cache_sizes c" and win: "window_ok c" using assms by (simp_all add: cache_ok_def)
    have n: "0 < c_buffer_size c" using win by (simp add: window_ok_def)
    have "cache_sizes ?c" using sizes unfolding c' by (simp add: cache_sizes_def)
    moreover have "window_ok ?c" using n r(2) unfolding c' by (simp add: window_ok_def)
    moreover have "ring_holds content ?c" unfolding c' ring_holds_def by auto
    moreover have "ready (c_stream ?c)" using r(1) st(2) unfolding c' by (simp add: ready_def)
    moreover have "same_reader c ?c" unfolding c' by (simp add: same_reader_def same_setup_def)
    moreover have "gap c = 0 \<and> \<not> available c" using True by (auto simp: gap_def available_def)
    moreover have "c_read ?c = c_read c \<and> c_min ?c = c_read c \<and> c_max ?c = c_read c \<and> s_pos (c_stream ?c) = c_read c"
      unfolding c' by simp
    ultimately show ?thesis using r(2) by (simp add: cache_ok_def)
  qed
  then show "cache_ok ?c" "same_reader c ?c" "c_min ?c \<le> c_read c"
    "?c = c \<or> c_max ?c = c_read c \<and> gap c = 0 \<and> \<not> available c"
    "c_read c < c_max ?c + c_seek_limit c \<or> c_read c \<le> c_max ?c"
    by simp_all
qed

end

context source
begin

text \<open>One round of the filler.\<close>

definition fill_result :: "'d cache \<Rightarrow> 'd cache \<Rightarrow> bool" where
  "fill_result c c' =
     (cache_ok c' \<and> same_reader c c' \<and> (eof_ok c \<longrightarrow> eof_ok c') \<and> (available c \<longrightarrow> available c') \<and> gap c' \<le> gap c \<and>
      (available c' \<or> c_eof c' \<or> gap c' < gap c))"

lemma fill_write:
  assumes "cache_ok c" and "c_min c \<le> c_read c" and "c_fill_limit c \<le> free_space c" and "fill_space c = (space, wrap)"
    and "int (length bs) \<le> space"
  shows "\<exists>buf. (if wrap
      then (let k = nat (min (int (length bs)) (c_buffer_size c - fill_pos c))
            in if STREAM_MAX_SECTOR_SIZE < int (length bs) then None
               else do { buf \<leftarrow> put_bytes (fill_pos c) (take k bs) (c_buffer c); put_bytes 0 (drop k bs) buf })
      else put_bytes (fill_pos c) bs (c_buffer c)) = Some buf \<and> ring_written (c_max c - c_offset c) bs (c_buffer c) buf"
proof -
  have c: "cache_sizes c" "window_ok c" using assms(1) by (simp_all add: cache_ok_def)
  note n = fill_numbers [OF c assms(2)] and sp = fill_space_ok [OF c assms(2-4)]
  have sz: "c_buffer_size c = int (length (c_buffer c))" "c_sector_size c \<le> STREAM_MAX_SECTOR_SIZE"
    "16 * c_sector_size c \<le> c_buffer_size c" using c(1) by (simp_all add: cache_sizes_def)
  show ?thesis
  proof (cases wrap)
    case False
    then show ?thesis
      using ring_write_straight [of "fill_pos c" bs "c_buffer c"] n(1,3) sp(3) assms(5) sz(1) by auto
  next
    case True
    have "length bs \<le> length (c_buffer c)" using sp(4) [OF True] assms(5) sz c(1) by (simp add: cache_sizes_def)
    moreover have "\<not> STREAM_MAX_SECTOR_SIZE < int (length bs)" using sp(4) [OF True] assms(5) sz(2) by linarith
    ultimately show ?thesis
      using ring_write_wrapped [OF n(1) _ _ refl, of "c_buffer c" bs] n(2,3) sz(1) True by (auto simp: Let_def)
  qed
qed

lemma fill_ok:
  assumes "cache_ok c"
  shows "\<exists>len c'. cache_fill drv c = Some (len, c') \<and> fill_result c c'"
proof -
  define c1 where "c1 = cache_reposition drv c"
  note rep = reposition_ok [OF assms, folded c1_def]
  have rd: "c_read c1 = c_read c" using rep(2) by (simp add: same_reader_def)
  have c1: "cache_sizes c1" "window_ok c1" "0 \<le> c_read c1" "ring_holds content c1" "ready (c_stream c1)"
      "s_pos (c_stream c1) = c_max c1" using rep(1) by (simp_all add: cache_ok_def)
  have mr: "c_min c1 \<le> c_read c1" using rep(3) rd by simp
  note n = fill_numbers [OF c1(1,2) mr]
  show ?thesis
  proof (cases "free_space c1 < c_fill_limit c1")
    case True
    have "c_read c1 < c_max c1" by (rule n(6) [OF True])
    then have "c1 = c" using rep(4) rd by auto
    moreover have "cache_fill drv c = Some (0, c1)" using True by (simp add: cache_fill_def Let_def c1_def)
    moreover have "available c1" using mr \<open>c_read c1 < c_max c1\<close> by (simp add: available_def)
    ultimately show ?thesis using assms by (auto simp: fill_result_def same_reader_def)
  next
    case False
    then have lim: "c_fill_limit c1 \<le> free_space c1" by simp
    obtain space wrap where fs: "fill_space c1 = (space, wrap)" by fastforce
    note sp = fill_space_ok [OF c1(1,2) mr lim fs]
    define c2 where "c2 = (if c_min c1 < c_read c1 - (c_buffer_size c1 - (space + new_bytes c1))
        then c1\<lparr>c_min := c_read c1 - (c_buffer_size c1 - (space + new_bytes c1))\<rparr> else c1)"
    have c2: "c_min c1 \<le> c_min c2" "c_min c2 \<le> c_read c1" "c_max c1 + space - c_min c2 \<le> c_buffer_size c1"
      using mr sp(1,2) n(4,5,7) by (auto simp: c2_def)
    have c2f: "c_buffer c2 = c_buffer c1" "c_max c2 = c_max c1" "c_offset c2 = c_offset c1" "c_buffer_size c2 = c_buffer_size c1"
        "c_read c2 = c_read c1" "c_stream c2 = c_stream c1" "c_sector_size c2 = c_sector_size c1" "c_seek_limit c2 = c_seek_limit c1"
        "c_fill_limit c2 = c_fill_limit c1" "c_back_size c2 = c_back_size c1" "c_eof c2 = c_eof c1"
      by (simp_all add: c2_def)
    obtain bs st where b: "stream_read_internal drv (c_stream c1) space = Some (bs, st)" "next_bytes (c_max c1) space bs" "ready st"
        "s_pos st = c_max c1 + int (length bs)" "same_setup (c_stream c1) st"
      using read_internal [OF c1(5) sp(1)] c1(6) by auto
    have len: "int (length bs) \<le> space" using b(2) by (simp add: next_bytes_def)
    obtain buf where buf: "(if wrap
      then (let k = nat (min (int (length bs)) (c_buffer_size c1 - fill_pos c1))
            in if STREAM_MAX_SECTOR_SIZE < int (length bs) then None
               else do { buf \<leftarrow> put_bytes (fill_pos c1) (take k bs) (c_buffer c1); put_bytes 0 (drop k bs) buf })
      else put_bytes (fill_pos c1) bs (c_buffer c1)) = Some buf" "ring_written (c_max c1 - c_offset c1) bs (c_buffer c1) buf"
      using fill_write [OF rep(1) mr lim fs len] by blast
    define c3 where "c3 = c2\<lparr>c_stream := (if wrap then st\<lparr>s_buffer := bs\<rparr> else st), c_buffer := buf, c_eof := (int (length bs) = 0),
        c_max := c_max c2 + int (length bs),
        c_offset := (if c_buffer_size c2 \<le> fill_pos c1 + int (length bs) then c_offset c2 + c_buffer_size c2 else c_offset c2)\<rparr>"
    have fill: "cache_fill drv c = Some (int (length bs), c3)"
      unfolding cache_fill_def Let_def c1_def [symmetric] fs prod.case c2_def [symmetric] c2f
      using False b(1) buf(1) unfolding Let_def by (simp add: c3_def c2f)
    have "ready (c_stream c3)" using b(3) unfolding ready_def by (cases wrap) (simp_all add: c3_def)
    then have c3f: "c_max c3 = c_max c1 + int (length bs)" "c_min c3 = c_min c2" "c_buffer c3 = buf" "c_read c3 = c_read c1"
        "c_buffer_size c3 = c_buffer_size c1" "c_sector_size c3 = c_sector_size c1" "c_seek_limit c3 = c_seek_limit c1"
        "c_fill_limit c3 = c_fill_limit c1" "c_back_size c3 = c_back_size c1" "c_eof c3 = (bs = [])"
        "c_offset c3 = (if c_buffer_size c1 \<le> fill_pos c1 + int (length bs) then c_offset c1 + c_buffer_size c1 else c_offset c1)"
        "same_setup (c_stream c1) (c_stream c3)" "ready (c_stream c3)" "s_pos (c_stream c3) = c_max c3"
      using b(4,5) by (simp_all add: c3_def c2f same_setup_def)
    have sz: "c_buffer_size c1 = int (length (c_buffer c1))" using c1(1) by (simp add: cache_sizes_def)
    have "cache_sizes c3"
      using c1(1) buf(2) c3f(12) by (simp add: cache_sizes_def c3f ring_written_def same_setup_def)
    moreover have "space \<le> c_buffer_size c1" using sp(2) n(4,7) by linarith
    then have "window_ok c3"
      using c1(2) c2 len n(1-3) by (auto simp: window_ok_def c3f)
    moreover have "ring_holds content c3"
    proof (rule ring_written_holds [OF c1(4) c1(2) sz])
      show "ring_written (c_max c1 - c_offset c1) bs (c_buffer c1) (c_buffer c3)" using buf(2) by (simp add: c3f)
      show "\<forall>i<length bs. c_max c1 + int i < int (length content) \<and> bs ! i = content ! nat (c_max c1 + int i)"
      proof (intro allI impI)
        fix i assume i: "i < length bs"
        have m: "0 \<le> c_max c1" using c1(2) by (simp add: window_ok_def)
        have "c_max c1 + int (length bs) \<le> int (length content)" by (rule next_bytes_within [OF b(2) _ m]) (use i in auto)
        moreover have "bs ! i = take (length bs) (drop (nat (c_max c1)) content) ! i"
          using next_bytes_def b(2) by metis
        ultimately show "c_max c1 + int i < int (length content) \<and> bs ! i = content ! nat (c_max c1 + int i)"
          using i m by (simp add: nat_add_distrib)
      qed
    qed (use c2 len in \<open>simp_all add: c3f\<close>)
    ultimately have ok: "cache_ok c3" using c1(3) c3f(13,14) by (simp add: cache_ok_def c3f)
    have "same_reader c c3"
      using rep(2) c3f(12) by (auto simp: same_reader_def c3f intro: same_setup_trans)
    moreover have "eof_ok c3" using b(2) c2(2) by (simp add: eof_ok_def c3f next_bytes_def)
    moreover have "available c \<longrightarrow> available c3" using rep(4) c2 by (auto simp: available_def c3f)
    moreover have "gap c3 \<le> gap c \<and> (available c3 \<or> c_eof c3 \<or> gap c3 < gap c)"
    proof -
      define l where "l = int (length bs)"
      have l: "0 \<le> l" "c_eof c3 \<or> 0 < l" by (auto simp: l_def c3f)
      then show ?thesis
        using rep(3-5) rd c2(1,2) c3f(1,2,4,7) unfolding l_def [symmetric] by (auto simp: gap_def available_def)
    qed
    ultimately show ?thesis using fill ok by (auto simp: fill_result_def)
  qed
qed

end

subsection \<open>The reader\<close>

lemma read_place_mod:
  assumes "window_ok c" and "available c"
  shows "read_place c = (c_read c - c_offset c) mod c_buffer_size c" "0 \<le> read_place c" "read_place c < c_buffer_size c"
proof -
  let ?n = "c_buffer_size c" and ?x = "c_read c - c_offset c"
  have b: "- ?n \<le> ?x" "?x < ?n" "0 < ?n" using assms by (auto simp: window_ok_def available_def)
  show e: "read_place c = ?x mod ?n"
  proof (cases "?x < 0")
    case True
    have "?x mod ?n = (?x + ?n) mod ?n" by simp
    also have "\<dots> = ?x + ?n" using True b by (intro mod_pos_pos_trivial) auto
    finally show ?thesis using True by (simp add: read_place_def Let_def)
  next
    case False
    then show ?thesis using b by (simp add: read_place_def Let_def)
  qed
  show "0 \<le> read_place c" "read_place c < ?n" unfolding e using b(3) by simp_all
qed

lemma ring_chunk:
  assumes "cache_sizes c" and "window_ok c" and "ring_holds content c" and "available c" and "0 \<le> c_read c" and "0 < wanted"
  defines "newb \<equiv> read_amount c wanted"
  shows "0 < newb" "newb \<le> wanted" "c_read c + newb \<le> c_max c"
    "get_bytes (read_place c) newb (c_buffer c) = Some (take (nat newb) (drop (nat (c_read c)) content))"
    "nat (c_read c) + nat newb \<le> length content"
proof -
  note rp = read_place_mod [OF assms(2,4)]
  show n: "0 < newb" "newb \<le> wanted" "c_read c + newb \<le> c_max c"
    using rp(3) assms(4,6) by (auto simp: newb_def read_amount_def available_def)
  have fit: "read_place c + newb \<le> c_buffer_size c" by (simp add: newb_def read_amount_def)
  have sz: "c_buffer_size c = int (length (c_buffer c))" using assms(1) by (simp add: cache_sizes_def)
  have held: "c_read c + int i < int (length content) \<and> c_buffer c ! (nat (read_place c) + i) = content ! (nat (c_read c) + i)"
    if i: "int i < newb" for i
  proof -
    have "(c_read c + int i - c_offset c) mod c_buffer_size c = (read_place c + int i) mod c_buffer_size c"
      unfolding rp(1) by (simp add: mod_simps algebra_simps)
    also have "\<dots> = read_place c + int i" using rp(2) fit i by simp
    finally have "ring_place c (c_read c + int i) = nat (read_place c) + i"
      using rp(2) by (simp add: ring_place_def nat_add_distrib)
    moreover have "c_min c \<le> c_read c + int i \<and> c_read c + int i < c_max c" using assms(4) n(3) i by (auto simp: available_def)
    ultimately show ?thesis using assms(3,5) by (auto simp: ring_holds_def nat_add_distrib)
  qed
  show l: "nat (c_read c) + nat newb \<le> length content"
    using held [of "nat newb - 1"] n(1) assms(5) by (simp add: nat_less_iff of_nat_diff) linarith
  have "take (nat newb) (drop (nat (read_place c)) (c_buffer c)) = take (nat newb) (drop (nat (c_read c)) content)"
    using held l fit sz rp(2) n(1) by (intro nth_equalityI) (auto simp: nth_append)
  then show "get_bytes (read_place c) newb (c_buffer c) = Some (take (nat newb) (drop (nat (c_read c)) content))"
    using rp(2) n(1) fit sz by (simp add: get_bytes_def)
qed

text \<open>A schedule without interruptions.\<close>

definition calm :: "schedule \<Rightarrow> bool" where
  "calm sch = (\<forall>x\<in>set sch. \<not> snd x)"

lemma take_drop_append: "take (nat n) (drop (nat p) xs) @ take m (drop (nat (p + n)) xs) = take (nat n + m) (drop (nat p) xs)"
  if "0 \<le> n" "0 \<le> p"
proof -
  have "nat (p + n) = nat n + nat p" using that by linarith
  then show ?thesis by (simp add: take_add)
qed

lemma take_self: "bs = take k xs \<Longrightarrow> bs = take (length bs) xs"
  by (auto simp: min_def)

context source
begin

lemma fills_ok:
  assumes "cache_ok c"
  shows "\<exists>c'. cache_fills n drv c = Some c' \<and> cache_ok c' \<and> same_reader c c' \<and> (eof_ok c \<longrightarrow> eof_ok c') \<and>
    (available c \<longrightarrow> available c') \<and> gap c' \<le> gap c \<and> (0 < n \<longrightarrow> available c' \<or> c_eof c' \<or> gap c' < gap c)"
  using assms
proof (induction n arbitrary: c)
  case 0
  then show ?case by (simp add: same_reader_def)
next
  case (Suc n)
  obtain len c1 where c1: "cache_fill drv c = Some (len, c1)" "fill_result c c1" using fill_ok [OF Suc.prems] by blast
  then have ok: "cache_ok c1" by (simp add: fill_result_def)
  obtain c' where c': "cache_fills n drv c1 = Some c'" "cache_ok c'" "same_reader c1 c'" "eof_ok c1 \<longrightarrow> eof_ok c'"
      "available c1 \<longrightarrow> available c'" "gap c' \<le> gap c1" "0 < n \<longrightarrow> available c' \<or> c_eof c' \<or> gap c' < gap c1"
    using Suc.IH [OF ok] by blast
  have "same_reader c c'" using c1(2) c'(3) by (auto simp: fill_result_def same_reader_def intro: same_setup_trans)
  moreover have "available c' \<or> c_eof c' \<or> gap c' < gap c"
    using c1(2) c' by (cases n) (auto simp: fill_result_def)
  ultimately show ?case using c1 c' by (auto simp: fill_result_def)
qed

text \<open>
  Whatever the schedule, what the reader gets is what the file has at its position. Without
  interruptions it gets less than it wants only at the end of the file.
\<close>

definition read_result :: "'d cache \<Rightarrow> int \<Rightarrow> string \<Rightarrow> 'd cache \<Rightarrow> bool" where
  "read_result c wanted bs c' =
     (cache_ok c' \<and> c_sector_size c' = c_sector_size c \<and> c_buffer_size c' = c_buffer_size c \<and> c_seek_limit c' = c_seek_limit c \<and>
      bs = take (length bs) (drop (nat (c_read c)) content) \<and> int (length bs) \<le> max 0 wanted \<and>
      c_read c' = c_read c + int (length bs))"

lemma cache_read_ok:
  assumes "cache_ok c" and "cache_read drv sch c wanted = Some (bs, c', sch')"
  shows "read_result c wanted bs c' \<and> (\<exists>used. sch = used @ sch') \<and>
    (calm sch \<and> eof_ok c \<longrightarrow> eof_ok c' \<and> (int (length bs) < wanted \<longrightarrow> int (length content) \<le> c_read c'))"
  using assms
proof (induction sch arbitrary: c wanted bs)
  case Nil
  then show ?case by (auto simp: read_result_def split: if_splits)
next
  case (Cons x sch)
  obtain n intr where x: "x = (n, intr)" by (cases x)
  show ?case
  proof (cases "0 < wanted")
    case False
    then show ?thesis using Cons.prems by (auto simp: x read_result_def)
  next
    case True
    obtain c1 where c1: "cache_fills n drv c = Some c1" "cache_ok c1" "same_reader c c1" "eof_ok c \<longrightarrow> eof_ok c1"
      using fills_ok [OF Cons.prems(1), of n] by blast
    have same: "c_read c1 = c_read c" "c_sector_size c1 = c_sector_size c" "c_buffer_size c1 = c_buffer_size c"
        "c_seek_limit c1 = c_seek_limit c"
      using c1(3) by (simp_all add: same_reader_def)
    have ok: "cache_sizes c1" "window_ok c1" "ring_holds content c1" "0 \<le> c_read c1" using c1(2) by (simp_all add: cache_ok_def)
    show ?thesis
    proof (cases "available c1")
      case avail: False
      then have na: "c_max c1 \<le> c_read c1 \<or> c_read c1 < c_min c1" by (auto simp: available_def)
      show ?thesis
      proof (cases "c_eof c1 \<or> intr")
        case False
        then have r: "cache_read drv sch c1 wanted = Some (bs, c', sch')"
          using Cons.prems(2) True na c1(1) by (simp add: x)
        show ?thesis
          using Cons.IH [OF c1(2) r] c1(4) same by (auto simp: read_result_def x calm_def intro: exI [of _ "_ # _"])
      next
        case stop: True
        then have r: "bs = []" "sch' = sch" "c' = c1 \<and> c_eof c1 \<or> c' = c1\<lparr>c_eof := True\<rparr> \<and> intr"
          using Cons.prems(2) True na c1(1) by (auto simp: x split: if_splits)
        have "cache_ok c'" using r(3) c1(2) by (auto simp: cache_ok_def cache_sizes_def window_ok_def ring_holds_def ring_place_def)
        moreover have "c_read c' = c_read c1 \<and> c_sector_size c' = c_sector_size c1 \<and> c_buffer_size c' = c_buffer_size c1 \<and>
            c_seek_limit c' = c_seek_limit c1" using r(3) by auto
        moreover have "eof_ok c' \<and> int (length content) \<le> c_read c'" if "calm (x # sch)" "eof_ok c"
        proof -
          have e: "c' = c1" "c_eof c1" using r(3) that(1) by (auto simp: calm_def x)
          then show ?thesis using na c1(4) that(2) by (auto simp: eof_ok_def)
        qed
        ultimately show ?thesis using r(1,2) same by (auto simp: read_result_def)
      qed
    next
      case avail: True
      define newb where "newb = read_amount c1 wanted"
      note ch = ring_chunk [OF ok(1-3) avail ok(4) True, folded newb_def]
      let ?c2 = "c1\<lparr>c_read := c_read c1 + newb\<rparr>" and ?b = "take (nat newb) (drop (nat (c_read c1)) content)"
      have na: "\<not> (c_max c1 \<le> c_read c1 \<or> c_read c1 < c_min c1)" using avail by (auto simp: available_def)
      obtain rest where r: "cache_read drv sch ?c2 (wanted - newb) = Some (rest, c', sch')" "bs = ?b @ rest"
        using Cons.prems(2) True na c1(1) ch(4) by (auto simp: x newb_def [symmetric] bind_eq_Some_conv)
      have ok2: "cache_ok ?c2"
        using c1(2) ch(1) by (auto simp: cache_ok_def cache_sizes_def window_ok_def ring_holds_def ring_place_def)
      have e2: "eof_ok c1 \<longrightarrow> eof_ok ?c2" using ch(1) by (auto simp: eof_ok_def)
      note IH = Cons.IH [OF ok2 r(1)]
      have lb: "length ?b = nat newb" using ch(5) by simp
      have IHr: "cache_ok c'" "c_sector_size c' = c_sector_size c1" "c_buffer_size c' = c_buffer_size c1"
          "c_seek_limit c' = c_seek_limit c1" "int (length rest) \<le> max 0 (wanted - newb)"
          "c_read c' = c_read c1 + newb + int (length rest)" "\<exists>used. sch = used @ sch'"
        using IH by (simp_all add: read_result_def)
      have IHc: "calm sch \<and> eof_ok c1 \<longrightarrow> eof_ok c' \<and> (int (length rest) < wanted - newb \<longrightarrow> int (length content) \<le> c_read c')"
        using IH [THEN conjunct2, THEN conjunct2] e2 by blast
      have lbs: "int (length bs) = newb + int (length rest)" using r(2) lb ch(1) by simp
      have slice: "bs = take (length bs) (drop (nat (c_read c)) content)"
      proof -
        have "rest = take (length rest) (drop (nat (c_read c1 + newb)) content)" using IH by (auto simp: read_result_def)
        then have "bs = ?b @ take (length rest) (drop (nat (c_read c1 + newb)) content)" unfolding r(2) by (rule arg_cong)
        also have "\<dots> = take (nat newb + length rest) (drop (nat (c_read c1)) content)"
          using take_drop_append [of newb "c_read c1" content "length rest"] ch(1) ok(4) by simp
        finally show ?thesis unfolding same(1) by (rule take_self)
      qed
      have "int (length bs) \<le> max 0 wanted" "c_read c' = c_read c + int (length bs)"
        using IHr(5,6) same(1) ch(1,2) lbs by auto
      then have "read_result c wanted bs c'"
        using IHr(1-4) same(2-4) slice unfolding read_result_def by metis
      moreover have "\<exists>used. x # sch = used @ sch'" using IHr(7) by (auto intro: exI [of _ "x # _"])
      moreover have "eof_ok c' \<and> (int (length bs) < wanted \<longrightarrow> int (length content) \<le> c_read c')" if "calm (x # sch)" "eof_ok c"
        using IHc that c1(4) lbs by (auto simp: calm_def)
      ultimately show ?thesis by blast
    qed
  qed
qed

end

context source
begin

text \<open>When the filler runs in every round, the reader gets its bytes in time.\<close>

lemma cache_read_returns:
  assumes "cache_ok c" and "\<forall>x\<in>set sch. 0 < fst x" and "nat wanted + gap c \<le> length sch"
  shows "\<exists>bs c' sch'. cache_read drv sch c wanted = Some (bs, c', sch') \<and> length sch \<le> length sch' + (nat wanted + gap c)"
  using assms
proof (induction sch arbitrary: c wanted)
  case Nil
  then show ?case by simp
next
  case (Cons x sch)
  obtain n intr where x: "x = (n, intr)" by (cases x)
  have n: "0 < n" using Cons.prems(2) by (simp add: x)
  show ?case
  proof (cases "0 < wanted")
    case False
    then show ?thesis by (simp add: x)
  next
    case True
    obtain c1 where c1: "cache_fills n drv c = Some c1" "cache_ok c1" "gap c1 \<le> gap c"
        "available c1 \<or> c_eof c1 \<or> gap c1 < gap c"
      using fills_ok [OF Cons.prems(1), of n] n by blast
    have ok: "cache_sizes c1" "window_ok c1" "ring_holds content c1" "0 \<le> c_read c1" using c1(2) by (simp_all add: cache_ok_def)
    show ?thesis
    proof (cases "available c1")
      case avail: False
      then have na: "c_max c1 \<le> c_read c1 \<or> c_read c1 < c_min c1" by (auto simp: available_def)
      show ?thesis
      proof (cases "c_eof c1 \<or> intr")
        case True
        then show ?thesis using \<open>0 < wanted\<close> na c1(1) by (cases "c_eof c1") (simp_all add: x)
      next
        case False
        then have "nat wanted + gap c1 \<le> length sch" using c1(4) avail Cons.prems(3) by simp
        then obtain bs c' sch' where "cache_read drv sch c1 wanted = Some (bs, c', sch')"
            "length sch \<le> length sch' + (nat wanted + gap c1)"
          using Cons.IH [OF c1(2), of wanted] Cons.prems(2) by auto
        then show ?thesis using c1(4) avail False \<open>0 < wanted\<close> na c1(1) by (simp add: x)
      qed
    next
      case avail: True
      define newb where "newb = read_amount c1 wanted"
      note ch = ring_chunk [OF ok(1-3) avail ok(4) True, folded newb_def]
      let ?c2 = "c1\<lparr>c_read := c_read c1 + newb\<rparr>"
      have na: "\<not> (c_max c1 \<le> c_read c1 \<or> c_read c1 < c_min c1)" using avail by (auto simp: available_def)
      have ok2: "cache_ok ?c2"
        using c1(2) ch(1) by (auto simp: cache_ok_def cache_sizes_def window_ok_def ring_holds_def ring_place_def)
      have "gap ?c2 = 0" using ch(3) by (simp add: gap_def)
      then have "nat (wanted - newb) + gap ?c2 \<le> length sch" using ch(1,2) Cons.prems(3) by simp
      then obtain bs c' sch' where r: "cache_read drv sch ?c2 (wanted - newb) = Some (bs, c', sch')"
          "length sch \<le> length sch' + (nat (wanted - newb) + gap ?c2)"
        using Cons.IH [OF ok2, of "wanted - newb"] Cons.prems(2) by auto
      have "Suc (length sch) \<le> length sch' + (nat wanted + gap c)" using r(2) \<open>gap ?c2 = 0\<close> ch(1,2) by linarith
      then show ?thesis using True na c1(1) ch(4) r(1) by (simp add: x newb_def [symmetric])
    qed
  qed
qed

lemma gap_le: "cache_ok c \<Longrightarrow> gap c \<le> nat (c_buffer_size c)"
  by (auto simp: gap_def cache_ok_def cache_sizes_def)

end

subsection \<open>The beginning\<close>

lemma cache_init_sizes:
  assumes "0 \<le> sz" and "0 \<le> s_sector_size st" and "s_sector_size st \<le> STREAM_MAX_SECTOR_SIZE" and "0 \<le> s_read_chunk st"
  shows "cache_sizes (enable_cache st sz seek_limit)"
proof -
  define ss where "ss = (if s_sector_size st \<noteq> 0 then s_sector_size st else STREAM_BUFFER_SIZE)"
  define num where "num = (if sz sdiv ss < 16 then 16 else sz sdiv ss)"
  have ss: "0 < ss" "ss \<le> STREAM_MAX_SECTOR_SIZE" using assms by (auto simp: ss_def)
  have "16 * ss \<le> num * ss" using ss(1) by (intro mult_right_mono) (auto simp: num_def)
  moreover have "0 \<le> num * ss" using ss(1) by (auto simp: num_def)
  moreover have "0 \<le> m sdiv 2 \<and> 2 * (m sdiv 2) \<le> m" if "0 \<le> m" for m :: int
    using that by (auto simp: signed_divide_int_def sgn_if)
  ultimately show ?thesis
    using ss assms(4)
    by (simp add: cache_sizes_def enable_cache_def cache_init_def ss_def [symmetric] num_def [symmetric] Let_def)
qed

context source
begin

lemma enable_cache_ok:
  assumes "ready st" and "s_pos st = 0" and "0 \<le> sz" and "0 \<le> s_sector_size st" and "s_sector_size st \<le> STREAM_MAX_SECTOR_SIZE"
    and "0 \<le> s_read_chunk st"
  shows "cache_ok (enable_cache st sz seek_limit)" "eof_ok (enable_cache st sz seek_limit)"
proof -
  let ?c = "enable_cache st sz seek_limit"
  have sizes: "cache_sizes ?c" by (rule cache_init_sizes [OF assms(3-6)])
  have f: "c_min ?c = 0" "c_max ?c = 0" "c_offset ?c = 0" "c_read ?c = 0" "c_stream ?c = st" "\<not> c_eof ?c"
    by (simp_all add: enable_cache_def cache_init_def Let_def)
  have "0 < c_buffer_size ?c" using sizes unfolding cache_sizes_def by linarith
  then show "cache_ok ?c" "eof_ok ?c"
    using sizes assms(1,2) by (auto simp: cache_ok_def window_ok_def ring_holds_def f eof_ok_def)
qed

end

end
