(* ===== verification/Stream.thy ===== *)
theory Stream
  imports Cache_Inv
begin

text \<open>
  The reading functions of \<open>stream/stream.h\<close> and \<open>stream/stream.c\<close> over a stream with or
  without a cache, and their abstract specification: a file with a position. Loops that read
  are partial functions; \<open>None\<close> is also an access outside the buffer.
\<close>

subsection \<open>The functions\<close>

abbreviation st_of :: "'d cstream \<Rightarrow> 'd stream" where "st_of \<equiv> cs_stream"

text \<open>\<open>s->buf_pos\<close> is set.\<close>

definition set_buf_pos :: "int \<Rightarrow> 'd cstream \<Rightarrow> 'd cstream" where
  "set_buf_pos p s = s\<lparr>cs_stream := (st_of s)\<lparr>s_buf_pos := p\<rparr>\<rparr>"

text \<open>\<open>s->buffer[s->buf_pos++]\<close>\<close>

definition next_char :: "'d cstream \<Rightarrow> (int \<times> 'd cstream) option" where
  "next_char s =
     do { b \<leftarrow> get_bytes (s_buf_pos (st_of s)) 1 (s_buffer (st_of s));
          Some (int (byte (hd b)), set_buf_pos (s_buf_pos (st_of s) + 1) s) }"

definition stream_read_char :: "'d driver \<Rightarrow> 'd cstream \<Rightarrow> (int \<times> 'd cstream) option" where
  "stream_read_char drv s =
     (if s_buf_pos (st_of s) < s_buf_len (st_of s) then next_char s
      else do { (r, s) \<leftarrow> cache_stream_fill_buffer drv s; if r \<noteq> 0 then next_char s else Some (-256, s) })"

text \<open>
  Numbers of several bytes. The operators on the promoted \<open>int\<close>s are those on words of the
  width of the result; at the end of the file the -256 of \<open>stream_read_char\<close> goes into them.
\<close>

definition shift_char :: "'d driver \<Rightarrow> ('w::len) word \<times> 'd cstream \<Rightarrow> ('w word \<times> 'd cstream) option" where
  "shift_char drv = (\<lambda>(y, s). do { (c, s) \<leftarrow> stream_read_char drv s; Some (or (push_bit 8 y) (word_of_int c), s) })"

definition stream_read_word :: "'d driver \<Rightarrow> 'd cstream \<Rightarrow> (32 word \<times> 'd cstream) option" where
  "stream_read_word drv s =
     do { (x, s) \<leftarrow> stream_read_char drv s; (y, s) \<leftarrow> stream_read_char drv s;
          Some (or (push_bit 8 (word_of_int x)) (word_of_int y), s) }"

definition stream_read_int24 :: "'d driver \<Rightarrow> 'd cstream \<Rightarrow> (32 word \<times> 'd cstream) option" where
  "stream_read_int24 drv s =
     do { (c, s) \<leftarrow> stream_read_char drv s; r \<leftarrow> shift_char drv (word_of_int c, s); shift_char drv r }"

definition stream_read_dword :: "'d driver \<Rightarrow> 'd cstream \<Rightarrow> (32 word \<times> 'd cstream) option" where
  "stream_read_dword drv s =
     do { (c, s) \<leftarrow> stream_read_char drv s; r \<leftarrow> shift_char drv (word_of_int c, s); r \<leftarrow> shift_char drv r; shift_char drv r }"

definition stream_read_qword :: "'d driver \<Rightarrow> 'd cstream \<Rightarrow> (64 word \<times> 'd cstream) option" where
  "stream_read_qword drv s =
     do { (c, s) \<leftarrow> stream_read_char drv s; r \<leftarrow> shift_char drv (word_of_int c, s); r \<leftarrow> shift_char drv r; r \<leftarrow> shift_char drv r;
          r \<leftarrow> shift_char drv r; r \<leftarrow> shift_char drv r; r \<leftarrow> shift_char drv r; shift_char drv r }"

definition stream_read_word_le :: "'d driver \<Rightarrow> 'd cstream \<Rightarrow> (32 word \<times> 'd cstream) option" where
  "stream_read_word_le drv s =
     do { (x, s) \<leftarrow> stream_read_char drv s; (y, s) \<leftarrow> stream_read_char drv s;
          Some (or (push_bit 8 (word_of_int y)) (word_of_int x), s) }"

definition stream_read_dword_le :: "'d driver \<Rightarrow> 'd cstream \<Rightarrow> (32 word \<times> 'd cstream) option" where
  "stream_read_dword_le drv s =
     do { (a, s) \<leftarrow> stream_read_char drv s; (b, s) \<leftarrow> stream_read_char drv s;
          (c, s) \<leftarrow> stream_read_char drv s; (d, s) \<leftarrow> stream_read_char drv s;
          Some (or (or (or (word_of_int a) (push_bit 8 (word_of_int b))) (push_bit 16 (word_of_int c))) (push_bit 24 (word_of_int d)), s) }"

definition stream_read_qword_le :: "'d driver \<Rightarrow> 'd cstream \<Rightarrow> (64 word \<times> 'd cstream) option" where
  "stream_read_qword_le drv s =
     do { (lo, s) \<leftarrow> stream_read_dword_le drv s; (hi, s) \<leftarrow> stream_read_dword_le drv s;
          Some (or (ucast lo) (push_bit 32 (ucast hi)), s) }"

text \<open>\<open>stream_read\<close>: the bytes read, as many as its result says.\<close>

partial_function (option) stream_read :: "'d driver \<Rightarrow> 'd cstream \<Rightarrow> int \<Rightarrow> (string \<times> 'd cstream) option" where
  "stream_read drv s len =
     (if 0 < len
      then do {
        (r, s) \<leftarrow> (if s_buf_len (st_of s) - s_buf_pos (st_of s) = 0 then cache_stream_fill_buffer drv s else Some (1, s));
        if r = 0 then Some ([], s)
        else do {
          let x = min (s_buf_len (st_of s) - s_buf_pos (st_of s)) len;
          bs \<leftarrow> get_bytes (s_buf_pos (st_of s)) x (s_buffer (st_of s));
          (rest, s) \<leftarrow> stream_read drv (set_buf_pos (s_buf_pos (st_of s) + x) s) (len - x);
          Some (bs @ rest, s) } }
      else Some ([], s))"

definition stream_seek :: "'d driver \<Rightarrow> 'd cstream \<Rightarrow> int \<Rightarrow> (int \<times> 'd cstream) option" where
  "stream_seek drv s pos =
     (let pos = (if pos < 0 then 0 else pos); st = st_of s; x = pos - (s_pos st - s_buf_len st)
      in if pos < s_pos st \<and> 0 \<le> x then Some (1, s\<lparr>cs_stream := st\<lparr>s_buf_pos := x, s_eof := False\<rparr>\<rparr>)
         else cache_stream_seek_long drv s pos)"

text \<open>The loop of \<open>stream_skip\<close>.\<close>

partial_function (option) skip_bytes :: "'d driver \<Rightarrow> 'd cstream \<Rightarrow> int \<Rightarrow> (int \<times> 'd cstream) option" where
  "skip_bytes drv s len =
     (if 0 < len
      then do {
        (r, s) \<leftarrow> (if s_buf_len (st_of s) - s_buf_pos (st_of s) = 0 then cache_stream_fill_buffer drv s else Some (1, s));
        if r = 0 then Some (0, s)
        else
          (let x = min (s_buf_len (st_of s) - s_buf_pos (st_of s)) len
           in skip_bytes drv (set_buf_pos (s_buf_pos (st_of s) + x) s) (len - x)) }
      else Some (1, s))"

declare stream_read.simps [code] skip_bytes.simps [code]

definition stream_skip :: "'d driver \<Rightarrow> 'd cstream \<Rightarrow> int \<Rightarrow> (int \<times> 'd cstream) option" where
  "stream_skip drv s len =
     (if len < 0 \<or> 2 * STREAM_BUFFER_SIZE < len \<and> s_seek_fw (st_of s) then stream_seek drv s (stream_tell (st_of s) + len)
      else skip_bytes drv s len)"

definition stream_eof :: "'d cstream \<Rightarrow> bool" where
  "stream_eof s = s_eof (st_of s)"

text \<open>\<open>stream_read_complete\<close>: the data, or \<open>None\<close> for a null result.\<close>

partial_function (option) read_complete_loop ::
  "'d driver \<Rightarrow> int \<Rightarrow> int \<Rightarrow> string \<Rightarrow> int \<Rightarrow> 'd cstream \<Rightarrow> (string option \<times> 'd cstream) option"
where
  "read_complete_loop drv max_size padding buf bufsize s =
     do {
       (bs, s) \<leftarrow> stream_read drv s (bufsize - int (length buf));
       let buf = buf @ bs;
       if int (length buf) < bufsize then Some (Some buf, s)
       else if max_size < bufsize then Some (None, s)
       else read_complete_loop drv max_size padding buf (min (bufsize + bufsize div 2) (max_size + padding)) s }"

declare read_complete_loop.simps [code]

definition stream_read_complete :: "'d driver \<Rightarrow> 'd cstream \<Rightarrow> int \<Rightarrow> int \<Rightarrow> (string option \<times> 'd cstream) option" where
  "stream_read_complete drv s max_size padding_bytes =
     (let padding = max padding_bytes 1
      in if 1000000000 < max_size then None
         else if max_size < s_end_pos (st_of s) then Some (None, s)
         else read_complete_loop drv max_size padding []
                (if 0 < s_end_pos (st_of s) then s_end_pos (st_of s) + padding else 1000) s)"

text \<open>
  \<open>stream_read_line\<close> for bytes (\<open>utf16\<close> is 0): \<open>find_newline\<close> is \<open>memchr\<close>, and
  \<open>copy_characters\<close> copies at most \<open>max\<close> bytes.
\<close>

partial_function (option) read_line_loop :: "'d driver \<Rightarrow> int \<Rightarrow> 'd cstream \<Rightarrow> (string \<times> 'd cstream) option" where
  "read_line_loop drv mx s =
     do {
       (r, s) \<leftarrow> (if s_buf_len (st_of s) - s_buf_pos (st_of s) \<le> 0 then cache_stream_fill_buffer drv s else Some (1, s));
       if r = 0 \<or> s_buf_len (st_of s) - s_buf_pos (st_of s) \<le> 0 then Some ([], s)
       else do {
         bs \<leftarrow> get_bytes (s_buf_pos (st_of s)) (s_buf_len (st_of s) - s_buf_pos (st_of s)) (s_buffer (st_of s));
         let nl = find (\<lambda>c. c = CHR 0x0A) bs \<noteq> None;
         let len = (if nl then first_index (\<lambda>c. c = CHR 0x0A) bs + 1 else length bs);
         let len' = (if 0 < mx then min len (nat mx) else len);
         let copied = (if 0 < mx then take len' bs else []);
         let s = set_buf_pos (s_buf_pos (st_of s) + int len') s;
         if nl then Some (copied, s)
         else do { (rest, s) \<leftarrow> read_line_loop drv (mx - int (length copied)) s; Some (copied @ rest, s) } } }"

declare read_line_loop.simps [code]

definition stream_read_line :: "'d driver \<Rightarrow> 'd cstream \<Rightarrow> int \<Rightarrow> (string option \<times> 'd cstream) option" where
  "stream_read_line drv s mx =
     (if mx < 1 then Some (None, s)
      else do { (bs, s) \<leftarrow> read_line_loop drv (mx - 1) s;
                Some (if s_eof (st_of s) \<and> bs = [] then None else Some bs, s) })"


end
