(* ===== verification/Demux_Packet.thy ===== *)
theory Demux_Packet
  imports Stream
begin

text \<open>
  Demuxed packets (\<open>libmpdemux/demux_packet.h\<close> and the packet functions of
  \<open>libmpdemux/demuxer.c\<close>): their buffers with padding, and the reference counts that let
  clones share the buffer of their master. Packets live in a heap; \<open>None\<close> is a call of
  \<open>abort\<close> or the use of a packet that is not allocated. A double is kept as its 64 bits,
  which is exact for what the code does with time stamps here: it copies them and compares
  them with \<open>MP_NOPTS_VALUE\<close>, the only double with its value. The contents of memory from
  \<open>malloc\<close> are a parameter. Packets of libavformat (\<open>avpacket\<close>) are not modelled.
\<close>

subsection \<open>A packet\<close>

type_synonym double = "64 word"

text \<open>The doubles \<open>-2^63\<close> and \<open>-1\<close>.\<close>

abbreviation (input) MP_NOPTS_VALUE :: double where "MP_NOPTS_VALUE \<equiv> 0xC3E0000000000000"
abbreviation (input) MINUS_ONE :: double where "MINUS_ONE \<equiv> 0xBFF0000000000000"

abbreviation (input) MP_INPUT_BUFFER_PADDING_SIZE :: int where "MP_INPUT_BUFFER_PADDING_SIZE \<equiv> 32"

record demux_packet =
  dp_len :: int
  dp_pts :: double
  dp_duration :: double
  dp_stream_pts :: double
  dp_pos :: int
  dp_buffer :: string
  dp_keyframe :: bool
  dp_refcount :: int
  dp_master :: "nat option"

text \<open>The lengths are of type \<open>size_t\<close>, so that a negative one is too large.\<close>

definition too_large :: "int \<Rightarrow> bool" where
  "too_large len \<longleftrightarrow> len < 0 \<or> 1000000000 < len"

definition create_packet :: "int \<Rightarrow> demux_packet option" where
  "create_packet len =
     (if too_large len then None
      else Some \<lparr>dp_len = len, dp_pts = MP_NOPTS_VALUE, dp_duration = MINUS_ONE, dp_stream_pts = MP_NOPTS_VALUE,
                 dp_pos = 0, dp_buffer = [], dp_keyframe = False, dp_refcount = 1, dp_master = None\<rparr>)"

text \<open>\<open>realloc\<close>, \<open>malloc\<close> for a block without contents, and the first bytes of the padding.\<close>

definition resized :: "(nat \<Rightarrow> char) \<Rightarrow> int \<Rightarrow> string \<Rightarrow> string" where
  "resized junk n bs = map (\<lambda>i. if i < length bs then bs ! i else junk i) [0..<nat n]"

definition padded :: "int \<Rightarrow> string \<Rightarrow> string" where
  "padded len bs = take (nat len) bs @ replicate 8 (CHR 0x00) @ drop (nat len + 8) bs"

definition new_demux_packet :: "(nat \<Rightarrow> char) \<Rightarrow> int \<Rightarrow> demux_packet option" where
  "new_demux_packet junk len =
     do { dp \<leftarrow> create_packet len;
          Some (dp\<lparr>dp_buffer := padded len (resized junk (len + MP_INPUT_BUFFER_PADDING_SIZE) [])\<rparr>) }"

definition new_demux_packet_fromdata :: "string \<Rightarrow> int \<Rightarrow> demux_packet option" where
  "new_demux_packet_fromdata data len = do { dp \<leftarrow> create_packet len; Some (dp\<lparr>dp_buffer := data\<rparr>) }"

definition resize_demux_packet :: "(nat \<Rightarrow> char) \<Rightarrow> demux_packet \<Rightarrow> int \<Rightarrow> demux_packet option" where
  "resize_demux_packet junk dp len =
     (if too_large len then None
      else Some (dp\<lparr>dp_buffer := padded len (resized junk (len + MP_INPUT_BUFFER_PADDING_SIZE) (dp_buffer dp)), dp_len := len\<rparr>))"

text \<open>The bytes of a packet, and that its buffer holds them.\<close>

definition packet_ok :: "demux_packet \<Rightarrow> bool" where
  "packet_ok dp \<longleftrightarrow> 0 \<le> dp_len dp \<and> dp_len dp \<le> int (length (dp_buffer dp))"

definition packet_data :: "demux_packet \<Rightarrow> string" where
  "packet_data dp = take (nat (dp_len dp)) (dp_buffer dp)"

lemma length_packet_data: "packet_ok dp \<Longrightarrow> int (length (packet_data dp)) = dp_len dp"
  unfolding packet_ok_def packet_data_def by (simp add: min_def) arith

lemma length_resized [simp]: "length (resized junk n bs) = nat n"
  by (simp add: resized_def)

lemma take_resized: "n \<le> length bs \<Longrightarrow> int n \<le> k \<Longrightarrow> take n (resized junk k bs) = take n bs"
  by (rule nth_equalityI) (auto simp: resized_def)

lemma length_padded: "0 \<le> len \<Longrightarrow> len + 8 \<le> int (length bs) \<Longrightarrow> length (padded len bs) = length bs"
  by (simp add: padded_def)

lemma take_padded: "0 \<le> len \<Longrightarrow> len \<le> int (length bs) \<Longrightarrow> take (nat len) (padded len bs) = take (nat len) bs"
  by (simp add: padded_def)

lemma new_packet_fits:
  assumes "new_demux_packet junk len = Some dp"
  shows "packet_ok dp" "dp_len dp = len" "length (dp_buffer dp) = nat len + 32" "0 \<le> len" "len \<le> 1000000000"
    "dp_stream_pts dp = MP_NOPTS_VALUE" "dp_master dp = None" "dp_refcount dp = 1"
  using assms
  by (auto simp: new_demux_packet_def create_packet_def too_large_def packet_ok_def length_padded nat_add_distrib split: if_splits)

lemma resize_packet_data:
  assumes "0 \<le> len" and "len \<le> int (length (dp_buffer dp))" and "len \<le> 1000000000"
  shows "\<exists>dp'. resize_demux_packet junk dp len = Some dp' \<and> packet_ok dp' \<and> packet_data dp' = take (nat len) (dp_buffer dp)
     \<and> dp_len dp' = len \<and> dp_pts dp' = dp_pts dp \<and> dp_stream_pts dp' = dp_stream_pts dp \<and> dp_pos dp' = dp_pos dp"
  using assms
  by (auto simp: resize_demux_packet_def too_large_def packet_ok_def packet_data_def length_padded take_padded take_resized)

subsection \<open>Sharing\<close>

record packet_mem =
  pm_heap :: "nat \<rightharpoonup> demux_packet"
  pm_next :: nat

text \<open>A new packet at the next address.\<close>

definition pm_new :: "demux_packet \<Rightarrow> packet_mem \<Rightarrow> nat \<times> packet_mem" where
  "pm_new dp m = (pm_next m, m\<lparr>pm_heap := (pm_heap m)(pm_next m \<mapsto> dp), pm_next := pm_next m + 1\<rparr>)"

text \<open>The loop of \<open>clone_demux_packet\<close> that finds the master.\<close>

partial_function (option) find_master :: "(nat \<rightharpoonup> demux_packet) \<Rightarrow> nat \<Rightarrow> nat option" where
  "find_master h p = do { dp \<leftarrow> h p; case dp_master dp of None \<Rightarrow> Some p | Some q \<Rightarrow> find_master h q }"

definition clone_demux_packet :: "packet_mem \<Rightarrow> nat \<Rightarrow> (nat \<times> packet_mem) option" where
  "clone_demux_packet m p =
     do { q \<leftarrow> find_master (pm_heap m) p; dp \<leftarrow> pm_heap m q;
          let (c, m) = pm_new (dp\<lparr>dp_refcount := 0, dp_master := Some q\<rparr>) m;
          Some (c, m\<lparr>pm_heap := (pm_heap m)(q \<mapsto> dp\<lparr>dp_refcount := dp_refcount dp + 1\<rparr>)\<rparr>) }"

partial_function (option) free_demux_packet :: "(nat \<rightharpoonup> demux_packet) \<Rightarrow> nat \<Rightarrow> (nat \<rightharpoonup> demux_packet) option" where
  "free_demux_packet h p =
     do { dp \<leftarrow> h p;
          case dp_master dp of
            None \<Rightarrow> (let dp = dp\<lparr>dp_refcount := dp_refcount dp - 1\<rparr>
                     in Some (if dp_refcount dp = 0 then h(p := None) else h(p \<mapsto> dp)))
          | Some q \<Rightarrow> do { h \<leftarrow> free_demux_packet h q; _ \<leftarrow> h p; Some (h(p := None)) } }"

declare find_master.simps [code] free_demux_packet.simps [code]

text \<open>
  A client holds the packets it created or cloned and has not freed; it clones and frees the
  ones it holds, each at most once.
\<close>

datatype packet_op = Packet_new demux_packet | Packet_clone nat | Packet_free nat

fun packet_step :: "packet_op \<Rightarrow> packet_mem \<times> nat list \<Rightarrow> (packet_mem \<times> nat list) option" where
  "packet_step (Packet_new dp) (m, held) =
     (let (p, m) = pm_new (dp\<lparr>dp_refcount := 1, dp_master := None\<rparr>) m in Some (m, held @ [p]))"
| "packet_step (Packet_clone i) (m, held) =
     (if i < length held then do { (c, m) \<leftarrow> clone_demux_packet m (held ! i); Some (m, held @ [c]) } else Some (m, held))"
| "packet_step (Packet_free i) (m, held) =
     (if i < length held
      then do { h \<leftarrow> free_demux_packet (pm_heap m) (held ! i); Some (m\<lparr>pm_heap := h\<rparr>, remove_nth i held) }
      else Some (m, held))"

fun packet_steps :: "packet_op list \<Rightarrow> packet_mem \<times> nat list \<Rightarrow> (packet_mem \<times> nat list) option" where
  "packet_steps [] s = Some s"
| "packet_steps (x # xs) s = do { s \<leftarrow> packet_step x s; packet_steps xs s }"

definition no_packets :: packet_mem where
  "no_packets = \<lparr>pm_heap = Map.empty, pm_next = 0\<rparr>"

text \<open>
  What the counts mean: a master counts the client that holds it and its clones, and stays
  allocated as long as there are any.
\<close>

definition clones :: "(nat \<rightharpoonup> demux_packet) \<Rightarrow> nat \<Rightarrow> nat set" where
  "clones h q = {c. \<exists>dp. h c = Some dp \<and> dp_master dp = Some q}"

definition master_ok :: "(nat \<rightharpoonup> demux_packet) \<Rightarrow> nat set \<Rightarrow> nat \<Rightarrow> bool" where
  "master_ok h held p \<longleftrightarrow>
     (\<exists>dp. h p = Some dp \<and> dp_master dp = None \<and> 0 < dp_refcount dp \<and>
        dp_refcount dp = (if p \<in> held then 1 else 0) + int (card (clones h p)))"

definition clone_ok :: "(nat \<rightharpoonup> demux_packet) \<Rightarrow> nat set \<Rightarrow> nat \<Rightarrow> bool" where
  "clone_ok h held p \<longleftrightarrow>
     (\<exists>dp q dq. h p = Some dp \<and> dp_master dp = Some q \<and> h q = Some dq \<and> dp_master dq = None \<and> p \<in> held \<and>
        dp_buffer dp = dp_buffer dq \<and> dp_len dp = dp_len dq)"

definition packets_ok :: "packet_mem \<times> nat list \<Rightarrow> bool" where
  "packets_ok = (\<lambda>(m, held). distinct held \<and> set held \<subseteq> dom (pm_heap m) \<and> (\<forall>p\<in>dom (pm_heap m). p < pm_next m) \<and>
     (\<forall>p\<in>dom (pm_heap m). master_ok (pm_heap m) (set held) p \<or> clone_ok (pm_heap m) (set held) p))"

lemma clones_upd: "clones (h(p \<mapsto> dp)) q = (if dp_master dp = Some q then insert p (clones h q) else clones h q - {p})"
  by (auto simp: clones_def)

lemma clones_del: "clones (h(p := None)) q = clones h q - {p}"
  by (auto simp: clones_def)

lemma clone_okI:
  "h p = Some dp \<Longrightarrow> dp_master dp = Some q \<Longrightarrow> h q = Some dq \<Longrightarrow> dp_master dq = None \<Longrightarrow> p \<in> H \<Longrightarrow>
   dp_buffer dp = dp_buffer dq \<Longrightarrow> dp_len dp = dp_len dq \<Longrightarrow> clone_ok h H p"
  unfolding clone_ok_def by blast

lemma clone_okE:
  assumes "clone_ok h H p"
  obtains dp q dq where "h p = Some dp" "dp_master dp = Some q" "h q = Some dq" "dp_master dq = None" "p \<in> H"
    "dp_buffer dp = dp_buffer dq" "dp_len dp = dp_len dq"
  using assms unfolding clone_ok_def by blast

lemma clone_ok_frame:
  assumes "clone_ok h H p" and "h' p = h p" and "p \<in> H'"
    and "\<And>q dq. h q = Some dq \<Longrightarrow> dp_master dq = None \<Longrightarrow> p \<in> clones h q \<Longrightarrow>
      \<exists>dq'. h' q = Some dq' \<and> dp_master dq' = None \<and> dp_buffer dq' = dp_buffer dq \<and> dp_len dq' = dp_len dq"
  shows "clone_ok h' H' p"
proof -
  from assms(1) obtain dp q dq where f: "h p = Some dp" "dp_master dp = Some q" "h q = Some dq" "dp_master dq = None"
    "dp_buffer dp = dp_buffer dq" "dp_len dp = dp_len dq" by (rule clone_okE)
  then have "p \<in> clones h q" by (simp add: clones_def)
  from assms(4) [OF f(3,4) this] obtain dq' where "h' q = Some dq'" "dp_master dq' = None" "dp_buffer dq' = dp_buffer dq"
    "dp_len dq' = dp_len dq" by blast
  then show ?thesis using f assms(2,3) by (intro clone_okI [of h' p dp q dq']) simp_all
qed

lemma packets_okD:
  assumes "packets_ok (m, held)"
  shows "distinct held" "set held \<subseteq> dom (pm_heap m)" "p \<in> dom (pm_heap m) \<Longrightarrow> p < pm_next m"
    "p \<in> dom (pm_heap m) \<Longrightarrow> master_ok (pm_heap m) (set held) p \<or> clone_ok (pm_heap m) (set held) p"
  using assms by (auto simp: packets_ok_def)

lemma fresh_packet: "packets_ok (m, held) \<Longrightarrow> pm_heap m (pm_next m) = None"
  using packets_okD(3) [of m held "pm_next m"] by (cases "pm_heap m (pm_next m)") auto

lemma finite_clones:
  assumes "packets_ok (m, held)" shows "finite (clones (pm_heap m) q)"
proof (rule finite_subset)
  show "clones (pm_heap m) q \<subseteq> {..<pm_next m}" using packets_okD(3) [OF assms] by (auto simp: clones_def)
qed simp

lemma clone_held: "packets_ok (m, held) \<Longrightarrow> c \<in> clones (pm_heap m) q \<Longrightarrow> c \<in> set held \<and> q \<in> dom (pm_heap m)"
  using packets_okD(4) [of m held c] by (fastforce simp: clones_def master_ok_def clone_ok_def dom_def)

lemma no_clones_of_fresh: "packets_ok (m, held) \<Longrightarrow> clones (pm_heap m) (pm_next m) = {}"
  using clone_held [of m held _ "pm_next m"] fresh_packet [of m held] by (auto simp: domIff)

lemma no_clones_of_clone: "packets_ok (m, held) \<Longrightarrow> pm_heap m p = Some dp \<Longrightarrow> dp_master dp = Some q \<Longrightarrow> clones (pm_heap m) p = {}"
  using packets_okD(4) [of m held] by (fastforce simp: clones_def master_ok_def clone_ok_def)

lemma packets_ok_new:
  assumes "packets_ok (m, held)"
  shows "\<exists>s. packet_step (Packet_new dp) (m, held) = Some s \<and> packets_ok s"
proof -
  let ?h = "pm_heap m" and ?n = "pm_next m" and ?dp = "dp\<lparr>dp_refcount := 1, dp_master := None\<rparr>"
  have n: "?h ?n = None" by (rule fresh_packet [OF assms])
  then have nh: "?n \<notin> set held" using packets_okD(2) [OF assms] by auto
  have "master_ok (?h(?n \<mapsto> ?dp)) (insert ?n (set held)) p \<or> clone_ok (?h(?n \<mapsto> ?dp)) (insert ?n (set held)) p"
    if p: "p \<in> dom (?h(?n \<mapsto> ?dp))" for p
  proof (cases "p = ?n")
    case True
    then show ?thesis by (simp add: master_ok_def clones_upd no_clones_of_fresh [OF assms])
  next
    case False
    then have "?n \<notin> clones ?h p" using n by (simp add: clones_def)
    moreover have "master_ok ?h (set held) p \<or> clone_ok ?h (set held) p" using p False packets_okD(4) [OF assms] by auto
    moreover have "clone_ok (?h(?n \<mapsto> ?dp)) (insert ?n (set held)) p" if "clone_ok ?h (set held) p"
      by (rule clone_ok_frame [OF that]) (use False n that in \<open>auto elim: clone_okE\<close>)
    ultimately show ?thesis using False by (auto simp: master_ok_def clones_upd)
  qed
  then show ?thesis using assms nh
    by (auto simp: pm_new_def packets_ok_def less_Suc_eq)
qed

lemma find_master_of:
  assumes "packets_ok (m, held)" and "p \<in> set held"
  obtains q dq dp where "find_master (pm_heap m) p = Some q" "pm_heap m q = Some dq" "dp_master dq = None" "0 < dp_refcount dq"
    "dp_refcount dq = (if q \<in> set held then 1 else 0) + int (card (clones (pm_heap m) q))"
    "pm_heap m p = Some dp" "dp_buffer dp = dp_buffer dq" "dp_len dp = dp_len dq"
proof -
  have "p \<in> dom (pm_heap m)" using assms packets_okD(2) by blast
  then consider "master_ok (pm_heap m) (set held) p" | "clone_ok (pm_heap m) (set held) p" using packets_okD(4) [OF assms(1)] by blast
  then show ?thesis
  proof cases
    case 1
    then obtain dp where "pm_heap m p = Some dp" "dp_master dp = None" "0 < dp_refcount dp"
      "dp_refcount dp = (if p \<in> set held then 1 else 0) + int (card (clones (pm_heap m) p))"
      unfolding master_ok_def by blast
    then show ?thesis by (intro that [of p dp dp]) (simp_all add: find_master.simps)
  next
    case 2
    then obtain dp q dq where f: "pm_heap m p = Some dp" "dp_master dp = Some q" "pm_heap m q = Some dq" "dp_master dq = None"
      "dp_buffer dp = dp_buffer dq" "dp_len dp = dp_len dq" by (rule clone_okE)
    then have "q \<in> dom (pm_heap m)" "\<not> clone_ok (pm_heap m) (set held) q" by (auto simp: clone_ok_def)
    then have "master_ok (pm_heap m) (set held) q" using packets_okD(4) [OF assms(1)] by blast
    moreover have "find_master (pm_heap m) p = Some q" using f by (simp add: find_master.simps [of _ p] find_master.simps [of _ q])
    ultimately show ?thesis using f by (intro that [of q dq dp]) (auto simp: master_ok_def)
  qed
qed

lemma packets_ok_clone:
  assumes "packets_ok (m, held)"
  shows "\<exists>s. packet_step (Packet_clone i) (m, held) = Some s \<and> packets_ok s"
proof (cases "i < length held")
  case True
  then have "held ! i \<in> set held" by simp
  from find_master_of [OF assms this] obtain q dq where q: "find_master (pm_heap m) (held ! i) = Some q"
    "pm_heap m q = Some dq" "dp_master dq = None" "0 < dp_refcount dq"
    "dp_refcount dq = (if q \<in> set held then 1 else 0) + int (card (clones (pm_heap m) q))" by metis
  let ?h = "pm_heap m" and ?n = "pm_next m"
  let ?c = "dq\<lparr>dp_refcount := 0, dp_master := Some q\<rparr>" and ?q = "dq\<lparr>dp_refcount := dp_refcount dq + 1\<rparr>"
  let ?h' = "?h(?n \<mapsto> ?c, q \<mapsto> ?q)"
  have n: "?h ?n = None" by (rule fresh_packet [OF assms])
  then have nh: "?n \<notin> set held" "q \<noteq> ?n" using packets_okD(2) [OF assms] q(2) by auto
  have step: "packet_step (Packet_clone i) (m, held) = Some (m\<lparr>pm_heap := ?h', pm_next := ?n + 1\<rparr>, held @ [?n])"
    using True q by (simp add: clone_demux_packet_def pm_new_def)
  have clones': "clones ?h' p = (if p = q then insert ?n (clones ?h q) else clones ?h p)" for p
    using q(2,3) n nh by (auto simp: clones_def split: if_splits)
  have "master_ok ?h' (insert ?n (set held)) p \<or> clone_ok ?h' (insert ?n (set held)) p" if p: "p \<in> dom ?h'" for p
  proof -
    consider "p = ?n" | "p = q" | "p \<noteq> ?n" "p \<noteq> q" by blast
    then show ?thesis
    proof cases
      case 1
      then have "clone_ok ?h' (insert ?n (set held)) p" using nh q by (intro clone_okI [of _ _ ?c q ?q]) simp_all
      then show ?thesis ..
    next
      case 2
      have "?n \<notin> clones ?h q" using n by (simp add: clones_def)
      then have "card (clones ?h' q) = card (clones ?h q) + 1" using finite_clones [OF assms, of q] by (simp add: clones')
      then have "dp_refcount ?q = (if q \<in> insert ?n (set held) then 1 else 0) + int (card (clones ?h' q))" using q(5) nh(2) by simp
      then have "master_ok ?h' (insert ?n (set held)) p"
        unfolding master_ok_def using 2 q(3,4) by (intro exI [of _ ?q]) (simp del: fun_upd_apply, simp)
      then show ?thesis ..
    next
      case 3
      then have old: "master_ok ?h (set held) p \<or> clone_ok ?h (set held) p" using p packets_okD(4) [OF assms] by auto
      have "clone_ok ?h' (insert ?n (set held)) p" if "clone_ok ?h (set held) p"
        by (rule clone_ok_frame [OF that]) (use 3 n q that in \<open>auto elim: clone_okE\<close>)
      with old 3 show ?thesis by (auto simp: master_ok_def clones')
    qed
  qed
  then have "packets_ok (m\<lparr>pm_heap := ?h', pm_next := ?n + 1\<rparr>, held @ [?n])"
    using assms nh q(2) by (auto simp: packets_ok_def less_Suc_eq)
  with step show ?thesis by blast
qed (use assms in simp)

text \<open>Giving up a reference of a master.\<close>

definition drop_ref :: "(nat \<rightharpoonup> demux_packet) \<Rightarrow> nat \<Rightarrow> demux_packet \<Rightarrow> (nat \<rightharpoonup> demux_packet)" where
  "drop_ref h q dq = (if dp_refcount dq = 1 then h(q := None) else h(q \<mapsto> dq\<lparr>dp_refcount := dp_refcount dq - 1\<rparr>))"

lemma free_master: "h q = Some dq \<Longrightarrow> dp_master dq = None \<Longrightarrow> free_demux_packet h q = Some (drop_ref h q dq)"
  by (subst free_demux_packet.simps) (simp add: drop_ref_def Let_def)

lemma free_clone:
  assumes "h p = Some dp" and "dp_master dp = Some q" and "h q = Some dq" and "dp_master dq = None"
  shows "free_demux_packet h p = Some ((drop_ref h q dq)(p := None))"
proof -
  have "p \<noteq> q" using assms by auto
  then show ?thesis using assms free_master [of h q dq, OF assms(3,4)] by (subst free_demux_packet.simps) (simp add: drop_ref_def)
qed

text \<open>
  Freeing: \<open>h'\<close> no longer has the clone \<open>p\<close>, if it is one, and its master \<open>q\<close> has one
  reference less.
\<close>

lemma packets_ok_drop:
  assumes ok: "packets_ok (m, held)" and p: "p \<in> set held" and q: "pm_heap m q = Some dq" "dp_master dq = None"
    and h': "h' = (if p = q then drop_ref (pm_heap m) q dq else (drop_ref (pm_heap m) q dq)(p := None))"
    and pq: "p = q \<or> p \<in> clones (pm_heap m) q" and held': "set held' = set held - {p}" "distinct held'"
  shows "packets_ok (m\<lparr>pm_heap := h'\<rparr>, held')"
proof -
  let ?h = "pm_heap m" and ?H = "set held"
  have pd: "p \<in> dom ?h" using p packets_okD(2) [OF ok] by blast
  have "\<not> clone_ok ?h ?H q" using q by (auto simp: clone_ok_def)
  then have mq: "dp_refcount dq = (if q \<in> ?H then 1 else 0) + int (card (clones ?h q))" "0 < dp_refcount dq"
    using packets_okD(4) [OF ok domI, of q] q by (auto simp: master_ok_def)
  have same: "h' x = ?h x" if "x \<noteq> p" "x \<noteq> q" for x using that by (simp add: h' drop_ref_def)
  have cl: "clones h' x = clones ?h x - {p}" for x
  proof (cases "p = q")
    case True
    have "q \<notin> clones ?h x" using q by (simp add: clones_def)
    then show ?thesis using True q by (auto simp: h' drop_ref_def clones_upd clones_del)
  next
    case False
    have "q \<notin> clones ?h x" using q by (simp add: clones_def)
    then show ?thesis using False q by (auto simp: h' drop_ref_def clones_upd clones_del)
  qed
  have qref: "(if dp_refcount dq = 1 then h' q = None else h' q = Some (dq\<lparr>dp_refcount := dp_refcount dq - 1\<rparr>))"
    using pq q by (auto simp: h' drop_ref_def clones_def)
  have count: "dp_refcount dq - 1 = (if q \<in> ?H - {p} then 1 else 0) + int (card (clones ?h q - {p}))"
  proof (cases "p = q")
    case True
    have "q \<notin> clones ?h q" using q by (simp add: clones_def)
    then show ?thesis using mq True p by simp
  next
    case False
    then have "p \<in> clones ?h q" using pq by blast
    then have "card (clones ?h q) = Suc (card (clones ?h q - {p}))" by (rule card.remove [OF finite_clones [OF ok]])
    then show ?thesis using mq False by simp
  qed
  have others: "master_ok h' (?H - {p}) x \<or> clone_ok h' (?H - {p}) x" if x: "x \<in> dom h'" for x
  proof (cases "x = q")
    case True
    then have "h' x = Some (dq\<lparr>dp_refcount := dp_refcount dq - 1\<rparr>)" "dp_refcount dq \<noteq> 1" using qref x by (auto split: if_splits)
    then have "master_ok h' (?H - {p}) x" using True q mq(2) count by (simp add: master_ok_def cl)
    then show ?thesis ..
  next
    case False
    have "x \<noteq> p" using x False by (auto simp: h' split: if_splits)
    then have hx: "h' x = ?h x" "x \<in> dom ?h" using same [OF \<open>x \<noteq> p\<close> False] x by (simp_all add: domIff)
    show ?thesis
    proof (cases "master_ok ?h ?H x")
      case True
      have "p \<notin> clones ?h x" using pq False q by (auto simp: clones_def)
      then have "master_ok h' (?H - {p}) x" using True hx(1) \<open>x \<noteq> p\<close> by (auto simp: master_ok_def cl)
      then show ?thesis ..
    next
      case nm: False
      then have c: "clone_ok ?h ?H x" using packets_okD(4) [OF ok hx(2)] by blast
      have "clone_ok h' (?H - {p}) x"
      proof (rule clone_ok_frame [OF c, of h'])
        show "h' x = ?h x" by (rule hx(1))
        show "x \<in> ?H - {p}" using c \<open>x \<noteq> p\<close> by (auto simp: clone_ok_def)
        fix y dy assume y: "?h y = Some dy" "dp_master dy = None" "x \<in> clones ?h y"
        have "y \<noteq> p \<or> y = q" using pq y(1,2) by (auto simp: clones_def)
        moreover have "dp_refcount dq \<noteq> 1" if "y = q"
        proof -
          have "x \<in> clones ?h q - {p}" using y(3) that \<open>x \<noteq> p\<close> by simp
          then have "0 < card (clones ?h q - {p})" using finite_clones [OF ok] by (auto simp: card_gt_0_iff)
          then show ?thesis using count by (simp split: if_splits)
        qed
        ultimately show "\<exists>dy'. h' y = Some dy' \<and> dp_master dy' = None \<and> dp_buffer dy' = dp_buffer dy \<and> dp_len dy' = dp_len dy"
          using same [of y] qref y q by (cases "y = q") auto
      qed
      then show ?thesis ..
    qed
  qed
  have "q \<in> dom h' \<or> q \<notin> ?H - {p}" using qref count by (auto split: if_splits)
  then have sub: "?H - {p} \<subseteq> dom h'" using packets_okD(2) [OF ok] same unfolding subset_iff domIff by (metis DiffE singletonI)
  have dom: "dom h' \<subseteq> dom ?h" using q pd by (auto simp: h' drop_ref_def split: if_splits)
  have "\<forall>x\<in>dom h'. x < pm_next m" using dom packets_okD(3) [OF ok] by blast
  then show ?thesis using others sub held' by (simp add: packets_ok_def)
qed

lemma packets_ok_free:
  assumes "packets_ok (m, held)"
  shows "\<exists>s. packet_step (Packet_free i) (m, held) = Some s \<and> packets_ok s"
proof (cases "i < length held")
  case True
  let ?p = "held ! i"
  have d: "distinct held" by (rule packets_okD(1) [OF assms])
  have p: "?p \<in> set held" using True by simp
  have split: "held = take i held @ ?p # drop (Suc i) held" by (rule id_take_nth_drop [OF True])
  have held': "set (remove_nth i held) = set held - {?p}" "distinct (remove_nth i held)"
  proof -
    have "distinct (take i held @ ?p # drop (Suc i) held)" using d split by metis
    moreover have "set held = insert ?p (set (take i held) \<union> set (drop (Suc i) held))" by (subst split) simp
    ultimately show "set (remove_nth i held) = set held - {?p}" "distinct (remove_nth i held)" by (auto simp: remove_nth_def)
  qed
  have "?p \<in> dom (pm_heap m)" using p packets_okD(2) [OF assms] by blast
  then consider "master_ok (pm_heap m) (set held) ?p" | "clone_ok (pm_heap m) (set held) ?p" using packets_okD(4) [OF assms] by blast
  then show ?thesis
  proof cases
    case 1
    then obtain dp where q: "pm_heap m ?p = Some dp" "dp_master dp = None" unfolding master_ok_def by blast
    have "packets_ok (m\<lparr>pm_heap := drop_ref (pm_heap m) ?p dp\<rparr>, remove_nth i held)"
      by (rule packets_ok_drop [OF assms p q _ _ held']) simp_all
    then show ?thesis using True free_master [of "pm_heap m" ?p dp] q by simp
  next
    case 2
    then obtain dp q dq where f: "pm_heap m ?p = Some dp" "dp_master dp = Some q" "pm_heap m q = Some dq" "dp_master dq = None"
      by (rule clone_okE)
    have "packets_ok (m\<lparr>pm_heap := (drop_ref (pm_heap m) q dq)(?p := None)\<rparr>, remove_nth i held)"
      by (rule packets_ok_drop [OF assms p f(3,4) _ _ held']) (use f in \<open>auto simp: clones_def\<close>)
    then show ?thesis using True free_clone [of "pm_heap m" ?p dp q dq] f by simp
  qed
qed (use assms in simp)

lemma packets_ok_step: "packets_ok s \<Longrightarrow> \<exists>s'. packet_step x s = Some s' \<and> packets_ok s'"
  using packets_ok_new packets_ok_clone packets_ok_free by (cases s; cases x) blast+

lemma packets_ok_steps: "packets_ok s \<Longrightarrow> \<exists>s'. packet_steps xs s = Some s' \<and> packets_ok s'"
proof (induction xs arbitrary: s)
  case (Cons x xs)
  from packets_ok_step [OF Cons.prems] obtain s' where "packet_step x s = Some s'" "packets_ok s'" by blast
  with Cons.IH show ?case by simp
qed simp

lemma no_packets_ok: "packets_ok (no_packets, [])"
  by (simp add: packets_ok_def no_packets_def)

text \<open>
  What a client can rely on: the packets it holds have the buffer of their master, which is
  allocated, and nothing else is allocated.
\<close>

definition held_masters :: "packet_mem \<Rightarrow> nat list \<Rightarrow> nat set" where
  "held_masters m held = {q. \<exists>p\<in>set held. find_master (pm_heap m) p = Some q}"

definition shares_buffer :: "packet_mem \<Rightarrow> nat \<Rightarrow> bool" where
  "shares_buffer m p =
     (\<exists>dp q dq. pm_heap m p = Some dp \<and> find_master (pm_heap m) p = Some q \<and> pm_heap m q = Some dq \<and>
        packet_data dp = packet_data dq)"

lemma held_shares_buffer: "packets_ok (m, held) \<Longrightarrow> p \<in> set held \<Longrightarrow> shares_buffer m p"
  by (erule (1) find_master_of) (simp add: shares_buffer_def packet_data_def)

lemma allocated:
  assumes "packets_ok (m, held)"
  shows "dom (pm_heap m) = set held \<union> held_masters m held"
proof (rule equalityI; rule subsetI)
  fix p assume p: "p \<in> dom (pm_heap m)"
  show "p \<in> set held \<union> held_masters m held"
  proof (cases "p \<in> set held")
    case False
    then have ok: "master_ok (pm_heap m) (set held) p" using packets_okD(4) [OF assms p] by (auto simp: clone_ok_def)
    then have "0 < card (clones (pm_heap m) p)" using False by (auto simp: master_ok_def)
    then obtain c where c: "c \<in> clones (pm_heap m) p" by (auto simp: card_gt_0_iff)
    have "find_master (pm_heap m) c = Some p" using c ok
      by (auto simp: clones_def master_ok_def find_master.simps [of _ c] find_master.simps [of _ p])
    then show ?thesis using clone_held [OF assms c] by (auto simp: held_masters_def)
  qed simp
next
  fix p assume "p \<in> set held \<union> held_masters m held"
  then show "p \<in> dom (pm_heap m)"
  proof
    assume "p \<in> held_masters m held"
    then obtain c where c: "c \<in> set held" "find_master (pm_heap m) c = Some p" by (auto simp: held_masters_def)
    show ?thesis by (rule find_master_of [OF assms c(1)]) (use c(2) in auto)
  qed (use packets_okD(2) [OF assms] in blast)
qed

text \<open>
  C27: Reference counting of packets: whatever sequence of creating, cloning and freeing a
  client does with the packets it holds, no step uses a packet that was freed; afterwards
  the packets it holds have their data, those of their master, even if the master was given
  up by its holder, and these packets and masters are all that is allocated.
\<close>

theorem packet_references_sound:
  "\<exists>m held. packet_steps ops (no_packets, []) = Some (m, held) \<and> set held \<subseteq> {p. shares_buffer m p} \<and>
     dom (pm_heap m) = set held \<union> held_masters m held"
proof -
  from packets_ok_steps [OF no_packets_ok, of ops] obtain m held where s: "packet_steps ops (no_packets, []) = Some (m, held)"
    "packets_ok (m, held)" by auto
  then show ?thesis using allocated held_shares_buffer by blast
qed

end
