(* ===== verification/Demux_Stream.thy ===== *)
theory Demux_Stream
  imports Demux_Packet
begin

text \<open>
  The demuxer's packet queues (\<open>libmpdemux/demuxer.h\<close>, \<open>libmpdemux/demuxer.c\<close>): three
  streams of packets a demuxer fills, and the functions decoders read them with. A queue is
  the list of its packets, from \<open>first\<close> along \<open>next\<close> to \<open>last\<close>. The demuxer's own code is a
  parameter (\<open>fill\<close>): asked for a packet of a stream it adds packets to any of the streams,
  with \<open>ds_add_packet\<close>, and says whether it got any. A result \<open>None\<close> is an access outside a
  buffer, a null pointer, a failed assertion, or a loop that does not end.
\<close>

subsection \<open>Data\<close>

text \<open>The stream headers of \<open>libmpdemux/stheader.h\<close>, as far as the modelled code looks at them.\<close>

record sh_audio =
  sa_aid :: int
  sa_lang :: "string option"
  sa_default_track :: bool
  sa_format :: "32 word"
  sa_samplesize :: int
  sa_channels :: int
  sa_samplerate :: int
  sa_avg_bytes :: int

record bitmap_header =
  biCompression :: "32 word"
  biWidth :: int
  biHeight :: int

record sh_video =
  sv_vid :: int
  sv_lang :: "string option"
  sv_default_track :: bool
  sv_format :: "32 word"
  sv_fps :: "32 word"
  sv_frametime :: "32 word"
  sv_i_bps :: int
  sv_disp_w :: int
  sv_disp_h :: int
  sv_pts :: double
  sv_i_pts :: double
  sv_frames_decoded :: int
  sv_bih :: "bitmap_header option"

record sh_sub =
  ss_sid :: int
  ss_lang :: "string option"
  ss_default_track :: bool

text \<open>\<open>ds_sh\<close> is a pointer to a header: its place in the table of the demuxer.\<close>

record demux_stream =
  ds_buffer_pos :: int
  ds_buffer_size :: int
  ds_buffer :: string
  ds_pts :: double
  ds_pts_bytes :: int
  ds_eof :: bool
  ds_pos :: int
  ds_dpos :: int
  ds_pack_no :: int
  ds_keyframe :: bool
  ds_packs :: int
  ds_bytes :: int
  ds_first :: "demux_packet list"
  ds_current :: "demux_packet option"
  ds_id :: int
  ds_sh :: "nat option"

record demux_chapter =
  ch_start :: "64 word"
  ch_end :: "64 word"
  ch_name :: string

record demux_attachment =
  at_name :: string
  at_type :: string
  at_data :: string

datatype strm = Audio | Video | Sub

text \<open>\<open>dm_priv\<close> is what the demuxer's own code works on, the byte stream included.\<close>

record 'p demuxer =
  dm_stream_pts :: double
  dm_movi_start :: int
  dm_movi_end :: int
  dm_type :: int
  dm_file_format :: int
  dm_seekable :: bool
  dm_audio :: demux_stream
  dm_video :: demux_stream
  dm_sub :: demux_stream
  dm_a_streams :: "nat \<rightharpoonup> sh_audio"
  dm_v_streams :: "nat \<rightharpoonup> sh_video"
  dm_s_streams :: "nat \<rightharpoonup> sh_sub"
  dm_chapters :: "demux_chapter list"
  dm_attachments :: "demux_attachment list"
  dm_info :: "(string \<times> string) list"
  dm_priv :: 'p

type_synonym 'p fill = "'p demuxer \<Rightarrow> strm \<Rightarrow> (bool \<times> (strm \<times> demux_packet) list \<times> 'p) option"

fun ds_of :: "strm \<Rightarrow> 'p demuxer \<Rightarrow> demux_stream" where
  "ds_of Audio d = dm_audio d"
| "ds_of Video d = dm_video d"
| "ds_of Sub d = dm_sub d"

fun set_ds :: "strm \<Rightarrow> demux_stream \<Rightarrow> 'p demuxer \<Rightarrow> 'p demuxer" where
  "set_ds Audio x d = d\<lparr>dm_audio := x\<rparr>"
| "set_ds Video x d = d\<lparr>dm_video := x\<rparr>"
| "set_ds Sub x d = d\<lparr>dm_sub := x\<rparr>"

lemma ds_of_set_ds: "ds_of t (set_ds s x d) = (if t = s then x else ds_of t d)"
  by (cases s; cases t) simp_all

lemma dm_priv_set_ds [simp]: "dm_priv (set_ds s x d) = dm_priv d"
  by (cases s) simp_all

abbreviation (input) MAX_PACKS :: int where "MAX_PACKS \<equiv> 4096"
abbreviation (input) MAX_PACK_BYTES :: int where "MAX_PACK_BYTES \<equiv> 0x8000000"

definition new_demuxer_stream :: "int \<Rightarrow> demux_stream" where
  "new_demuxer_stream i =
     \<lparr>ds_buffer_pos = 0, ds_buffer_size = 0, ds_buffer = [], ds_pts = 0, ds_pts_bytes = 0, ds_eof = False, ds_pos = 0,
      ds_dpos = 0, ds_pack_no = 0, ds_keyframe = False, ds_packs = 0, ds_bytes = 0, ds_first = [], ds_current = None,
      ds_id = i, ds_sh = None\<rparr>"

definition ds_tell :: "demux_stream \<Rightarrow> int" where
  "ds_tell ds = (ds_dpos ds - ds_buffer_size ds) + ds_buffer_pos ds"

definition ds_tell_pts :: "demux_stream \<Rightarrow> int" where
  "ds_tell_pts ds = (ds_pts_bytes ds - ds_buffer_size ds) + ds_buffer_pos ds"

subsection \<open>Filling\<close>

definition ds_add_packet :: "demux_packet \<Rightarrow> demux_stream \<Rightarrow> demux_stream" where
  "ds_add_packet dp ds = ds\<lparr>ds_packs := ds_packs ds + 1, ds_bytes := ds_bytes ds + dp_len dp, ds_first := ds_first ds @ [dp]\<rparr>"

fun add_packets :: "(strm \<times> demux_packet) list \<Rightarrow> 'p demuxer \<Rightarrow> 'p demuxer" where
  "add_packets [] d = d"
| "add_packets ((s, dp) # ps) d = add_packets ps (set_ds s (ds_add_packet dp (ds_of s d)) d)"

definition demux_fill_buffer :: "'p fill \<Rightarrow> 'p demuxer \<Rightarrow> strm \<Rightarrow> (bool \<times> 'p demuxer) option" where
  "demux_fill_buffer fill d s = do { (r, ps, p) \<leftarrow> fill d s; Some (r, add_packets ps (d\<lparr>dm_priv := p\<rparr>)) }"

text \<open>The packet that becomes the current one.\<close>

definition take_packet :: "demux_packet \<Rightarrow> demux_stream \<Rightarrow> demux_stream" where
  "take_packet p ds =
     (let ds = ds\<lparr>ds_buffer := dp_buffer p, ds_buffer_pos := 0, ds_buffer_size := dp_len p, ds_pos := dp_pos p,
                  ds_dpos := ds_dpos ds + dp_len p, ds_pack_no := ds_pack_no ds + 1\<rparr>;
          ds = (if dp_pts p \<noteq> MP_NOPTS_VALUE then ds\<lparr>ds_pts := dp_pts p, ds_pts_bytes := 0\<rparr> else ds)
      in ds\<lparr>ds_pts_bytes := ds_pts_bytes ds + dp_len p, ds_keyframe := dp_keyframe p, ds_bytes := ds_bytes ds - dp_len p,
            ds_current := Some p, ds_first := tl (ds_first ds), ds_packs := ds_packs ds - 1, ds_eof := False\<rparr>)"

definition no_packet :: "demux_stream \<Rightarrow> demux_stream" where
  "no_packet ds = ds\<lparr>ds_buffer_pos := 0, ds_buffer_size := 0, ds_buffer := [], ds_eof := True\<rparr>"

definition too_many :: "demux_stream \<Rightarrow> bool" where
  "too_many ds \<longleftrightarrow> MAX_PACKS \<le> ds_packs ds \<or> MAX_PACK_BYTES \<le> ds_bytes ds"

text \<open>The loop of \<open>ds_fill_buffer\<close>.\<close>

partial_function (option) fill_loop :: "'p fill \<Rightarrow> strm \<Rightarrow> 'p demuxer \<Rightarrow> (bool \<times> 'p demuxer) option" where
  "fill_loop fill s d =
     (if ds_packs (ds_of s d) \<noteq> 0
      then (case ds_first (ds_of s d) of
              [] \<Rightarrow> None
            | p # _ \<Rightarrow>
                (let d = set_ds s (take_packet p (ds_of s d)) d
                 in Some (True, if dp_stream_pts p \<noteq> MP_NOPTS_VALUE then d\<lparr>dm_stream_pts := dp_stream_pts p\<rparr> else d)))
      else if too_many (dm_audio d) \<or> too_many (dm_video d) then Some (False, set_ds s (no_packet (ds_of s d)) d)
      else do {
        (r, d) \<leftarrow> demux_fill_buffer fill d s;
        if r then fill_loop fill s d else Some (False, set_ds s (no_packet (ds_of s d)) d) })"

definition ds_fill_buffer :: "'p fill \<Rightarrow> strm \<Rightarrow> 'p demuxer \<Rightarrow> (bool \<times> 'p demuxer) option" where
  "ds_fill_buffer fill s d = fill_loop fill s (set_ds s ((ds_of s d)\<lparr>ds_current := None\<rparr>) d)"

subsection \<open>Reading\<close>

definition set_pos :: "strm \<Rightarrow> int \<Rightarrow> 'p demuxer \<Rightarrow> 'p demuxer" where
  "set_pos s k d = set_ds s ((ds_of s d)\<lparr>ds_buffer_pos := k\<rparr>) d"

text \<open>
  \<open>demux_read_data\<close>: the result and the bytes it copied to \<open>mem\<close>, which can be null; a copy
  of a negative number of bytes is an access outside the buffer.
\<close>

partial_function (option) demux_read_data ::
  "'p fill \<Rightarrow> strm \<Rightarrow> bool \<Rightarrow> int \<Rightarrow> 'p demuxer \<Rightarrow> ((int \<times> string) \<times> 'p demuxer) option"
where
  "demux_read_data fill s mem len d =
     (if 0 < len
      then
        (let x = ds_buffer_size (ds_of s d) - ds_buffer_pos (ds_of s d)
         in if x = 0
            then do {
              (r, d) \<leftarrow> ds_fill_buffer fill s d;
              if r then demux_read_data fill s mem len d else Some ((0, []), d) }
            else
              (let x = min x len
               in do {
                 bs \<leftarrow> (if mem then get_bytes (ds_buffer_pos (ds_of s d)) x (ds_buffer (ds_of s d)) else Some []);
                 ((n, rest), d) \<leftarrow> demux_read_data fill s mem (len - x) (set_pos s (ds_buffer_pos (ds_of s d) + x) d);
                 Some ((x + n, bs @ rest), d) }))
      else Some ((0, []), d))"

text \<open>The character at the position of the buffer, whatever its size.\<close>

definition char_at :: "demux_stream \<Rightarrow> int option" where
  "char_at ds = do { bs \<leftarrow> get_bytes (ds_buffer_pos ds) 1 (ds_buffer ds); Some (int (byte (hd bs))) }"

definition demux_peekc :: "'p fill \<Rightarrow> strm \<Rightarrow> 'p demuxer \<Rightarrow> (int \<times> 'p demuxer) option" where
  "demux_peekc fill s d =
     (if ds_buffer_pos (ds_of s d) < ds_buffer_size (ds_of s d) then do { c \<leftarrow> char_at (ds_of s d); Some (c, d) }
      else do {
        (r, d) \<leftarrow> ds_fill_buffer fill s d;
        if r then do { c \<leftarrow> char_at (ds_of s d); Some (c, d) } else Some (-1, d) })"

definition demux_getc :: "'p fill \<Rightarrow> strm \<Rightarrow> 'p demuxer \<Rightarrow> (int \<times> 'p demuxer) option" where
  "demux_getc fill s d =
     (if ds_buffer_pos (ds_of s d) < ds_buffer_size (ds_of s d)
      then do { c \<leftarrow> char_at (ds_of s d); Some (c, set_pos s (ds_buffer_pos (ds_of s d) + 1) d) }
      else do {
        (r, d) \<leftarrow> ds_fill_buffer fill s d;
        if r then do { c \<leftarrow> char_at (ds_of s d); Some (c, set_pos s (ds_buffer_pos (ds_of s d) + 1) d) } else Some (-1, d) })"

text \<open>
  \<open>demux_pattern_3\<close>: the inner loop over the bytes of the buffer gives the last bytes seen
  and how many of the bytes it looked at.
\<close>

definition shift_head :: "32 word \<Rightarrow> char \<Rightarrow> 32 word" where
  "shift_head head c = push_bit 8 (or head (word_of_nat (byte c)))"

fun scan_pattern :: "32 word \<Rightarrow> 32 word \<Rightarrow> string \<Rightarrow> 32 word \<times> nat" where
  "scan_pattern pat head [] = (head, 0)"
| "scan_pattern pat head (c # cs) =
     (let head = shift_head head c
      in if cs = [] \<or> head = pat then (head, 1) else (case scan_pattern pat head cs of (h, n) \<Rightarrow> (h, n + 1)))"

partial_function (option) pattern_loop ::
  "'p fill \<Rightarrow> strm \<Rightarrow> bool \<Rightarrow> int \<Rightarrow> 32 word \<Rightarrow> 32 word \<Rightarrow> int \<Rightarrow> string \<Rightarrow> 'p demuxer \<Rightarrow>
   ((32 word \<times> int \<times> string) \<times> 'p demuxer) option"
where
  "pattern_loop fill s mem maxlen pat head total_len out d =
     do {
       let len = ds_buffer_size (ds_of s d) - ds_buffer_pos (ds_of s d);
       ((head, total_len, out), d) \<leftarrow>
         (if len \<le> 0 then do { (_, d) \<leftarrow> ds_fill_buffer fill s d; Some ((head, total_len, out), d) }
          else do {
            bs \<leftarrow> get_bytes (ds_buffer_pos (ds_of s d)) len (ds_buffer (ds_of s d));
            let (head, k) = scan_pattern pat head bs;
            let len = (if maxlen < total_len + int k then maxlen - total_len else int k);
            ((len, bs), d) \<leftarrow> demux_read_data fill s mem len d;
            Some ((head, total_len + len, out @ bs), d) });
       if (head \<noteq> pat \<or> total_len < 3) \<and> total_len < maxlen \<and> \<not> ds_eof (ds_of s d)
       then pattern_loop fill s mem maxlen pat head total_len out d
       else Some ((head, total_len, out), d) }"

text \<open>Whether the pattern was found, how much was read, and what was copied to \<open>mem\<close>.\<close>

definition demux_pattern_3 ::
  "'p fill \<Rightarrow> strm \<Rightarrow> bool \<Rightarrow> int \<Rightarrow> 32 word \<Rightarrow> 'p demuxer \<Rightarrow> ((bool \<times> int \<times> string) \<times> 'p demuxer) option"
where
  "demux_pattern_3 fill s mem maxlen pattern d =
     (let pat = and pattern 0xFFFFFF00
      in do {
        ((head, total_len, out), d) \<leftarrow> pattern_loop fill s mem maxlen pat 0xFFFFFF00 0 [] d;
        Some ((3 \<le> total_len \<and> head = pat, total_len, out), d) })"

declare fill_loop.simps [code] demux_read_data.simps [code] pattern_loop.simps [code]

definition ds_free_packs :: "demux_stream \<Rightarrow> demux_stream" where
  "ds_free_packs ds =
     ds\<lparr>ds_first := [], ds_packs := 0, ds_bytes := 0, ds_current := None, ds_buffer := [],
        ds_buffer_pos := ds_buffer_size ds, ds_pts := MP_NOPTS_VALUE, ds_pts_bytes := 0\<rparr>"

text \<open>
  \<open>ds_get_packet\<close>: the rest of the current packet (\<open>*start\<close> and as many bytes as the
  result), or the next one; \<open>None\<close> in the result is -1.
\<close>

definition get_rest :: "strm \<Rightarrow> 'p demuxer \<Rightarrow> (string option \<times> 'p demuxer) option" where
  "get_rest s d =
     (let len = ds_buffer_size (ds_of s d) - ds_buffer_pos (ds_of s d)
      in do { bs \<leftarrow> get_bytes (ds_buffer_pos (ds_of s d)) len (ds_buffer (ds_of s d));
              Some (Some bs, set_pos s (ds_buffer_pos (ds_of s d) + len) d) })"

definition ds_get_packet :: "'p fill \<Rightarrow> strm \<Rightarrow> 'p demuxer \<Rightarrow> (string option \<times> 'p demuxer) option" where
  "ds_get_packet fill s d =
     do {
       (r, d) \<leftarrow> (if ds_buffer_size (ds_of s d) \<le> ds_buffer_pos (ds_of s d) then ds_fill_buffer fill s d else Some (True, d));
       if r then get_rest s d else Some (None, d) }"

definition ds_get_packet_pts :: "'p fill \<Rightarrow> strm \<Rightarrow> 'p demuxer \<Rightarrow> ((string option \<times> double) \<times> 'p demuxer) option" where
  "ds_get_packet_pts fill s d =
     do {
       (r, d) \<leftarrow> ds_get_packet fill s d;
       case r of
         None \<Rightarrow> Some ((None, MP_NOPTS_VALUE), d)
       | Some bs \<Rightarrow>
           if int (length bs) = ds_buffer_pos (ds_of s d)
           then do { p \<leftarrow> ds_current (ds_of s d); Some ((Some bs, dp_pts p), d) }
           else Some ((Some bs, MP_NOPTS_VALUE), d) }"

definition ds_get_packet_sub :: "'p fill \<Rightarrow> strm \<Rightarrow> 'p demuxer \<Rightarrow> (string option \<times> 'p demuxer) option" where
  "ds_get_packet_sub fill s d =
     do {
       (r, d) \<leftarrow>
         (if ds_buffer_size (ds_of s d) \<le> ds_buffer_pos (ds_of s d)
          then (if ds_packs (ds_of s d) = 0 then Some (False, d) else ds_fill_buffer fill s d)
          else Some (True, d));
       if r then get_rest s d else Some (None, d) }"

definition ds_get_packet2 :: "'p fill \<Rightarrow> strm \<Rightarrow> bool \<Rightarrow> 'p demuxer \<Rightarrow> (demux_packet option \<times> 'p demuxer) option" where
  "ds_get_packet2 fill s repeat_last d =
     (if ds_buffer_pos (ds_of s d) = 0 \<or> ds_buffer_size (ds_of s d) \<le> ds_buffer_pos (ds_of s d)
      then do {
        (_, d) \<leftarrow> (if repeat_last then Some (True, d) else ds_fill_buffer fill s d);
        let d = set_pos s (ds_buffer_size (ds_of s d)) d;
        Some (ds_current (ds_of s d), d) }
      else None)"

partial_function (option) ds_get_next_pts :: "'p fill \<Rightarrow> strm \<Rightarrow> 'p demuxer \<Rightarrow> (double \<times> 'p demuxer) option" where
  "ds_get_next_pts fill s d =
     (let ds = ds_of s d
      in if ds_first ds = [] \<and> (ds_current ds = None \<or> ds_buffer_pos ds \<noteq> 0)
         then
           (if too_many (dm_audio d) \<or> too_many (dm_video d) then Some (MP_NOPTS_VALUE, d)
            else do { (r, d) \<leftarrow> demux_fill_buffer fill d s; if r then ds_get_next_pts fill s d else Some (MP_NOPTS_VALUE, d) })
         else (case ds_current ds of
                 Some p \<Rightarrow> Some (if ds_buffer_pos ds = 0 then dp_pts p else dp_pts (hd (ds_first ds)), d)
               | None \<Rightarrow> Some (dp_pts (hd (ds_first ds)), d)))"

declare ds_get_next_pts.simps [code]

definition demux_flush :: "'p demuxer \<Rightarrow> 'p demuxer" where
  "demux_flush d = d\<lparr>dm_video := ds_free_packs (dm_video d), dm_audio := ds_free_packs (dm_audio d), dm_sub := ds_free_packs (dm_sub d)\<rparr>"

end
