(* ===== verification/Demux_Spec.thy ===== *)
theory Demux_Spec
  imports Demux_Stream
begin

text \<open>
  What the functions that read from a demuxer promise: the bytes they return are those of
  the packets of the stream, in order and each once (locale \<open>demux_source\<close>), and they return
  if the demuxer comes to an end (locale \<open>finite_demux_source\<close>).
\<close>

subsection \<open>The queues\<close>

definition unread :: "demux_stream \<Rightarrow> string" where
  "unread ds = take (nat (ds_buffer_size ds - ds_buffer_pos ds)) (drop (nat (ds_buffer_pos ds)) (ds_buffer ds))"

definition queued :: "demux_stream \<Rightarrow> string" where
  "queued ds = concat (map packet_data (ds_first ds))"

text \<open>The counters are those of the queue, and the buffer holds the bytes that are left of the current packet.\<close>

definition ds_ok :: "demux_stream \<Rightarrow> bool" where
  "ds_ok ds \<longleftrightarrow>
     ds_packs ds = int (length (ds_first ds)) \<and> ds_bytes ds = (\<Sum>p\<leftarrow>ds_first ds. dp_len p) \<and>
     (\<forall>p\<in>set (ds_first ds). packet_ok p) \<and>
     0 \<le> ds_buffer_pos ds \<and> ds_buffer_pos ds \<le> ds_buffer_size ds \<and>
     (ds_buffer_pos ds = ds_buffer_size ds \<or> ds_buffer_size ds \<le> int (length (ds_buffer ds)) \<and> \<not> ds_eof ds)"

lemma ds_ok_new: "ds_ok (new_demuxer_stream i)"
  by (simp add: ds_ok_def new_demuxer_stream_def)

lemma ds_ok_add [mp_inv]: "ds_ok ds \<Longrightarrow> packet_ok dp \<Longrightarrow> ds_ok (ds_add_packet dp ds)"
  by (simp add: ds_ok_def ds_add_packet_def)

lemma ds_ok_no_packet [mp_inv]: "ds_ok ds \<Longrightarrow> ds_ok (no_packet ds)"
  by (simp add: ds_ok_def no_packet_def)

lemma ds_ok_take [mp_inv]: "ds_ok ds \<Longrightarrow> ds_first ds = p # ps \<Longrightarrow> ds_ok (take_packet p ds)"
  by (simp add: ds_ok_def take_packet_def Let_def packet_ok_def)

lemma ds_ok_free [mp_inv]: "ds_ok ds \<Longrightarrow> ds_ok (ds_free_packs ds)"
  by (auto simp: ds_ok_def ds_free_packs_def)

lemma unread_add [simp]: "unread (ds_add_packet dp ds) = unread ds"
  by (simp add: unread_def ds_add_packet_def)

lemma queued_add [simp]: "queued (ds_add_packet dp ds) = queued ds @ packet_data dp"
  by (simp add: queued_def ds_add_packet_def)

lemma unread_no_packet [simp]: "unread (no_packet ds) = []" and queued_no_packet [simp]: "queued (no_packet ds) = queued ds"
  by (simp_all add: unread_def queued_def no_packet_def)

lemma take_packet_fields [simp]:
  "ds_buffer (take_packet p ds) = dp_buffer p" "ds_buffer_pos (take_packet p ds) = 0" "ds_buffer_size (take_packet p ds) = dp_len p"
  "ds_first (take_packet p ds) = tl (ds_first ds)" "ds_current (take_packet p ds) = Some p" "ds_eof (take_packet p ds) = False"
  "ds_dpos (take_packet p ds) = ds_dpos ds + dp_len p" "ds_sh (take_packet p ds) = ds_sh ds" "ds_id (take_packet p ds) = ds_id ds"
  "ds_packs (take_packet p ds) = ds_packs ds - 1"
  by (simp_all add: take_packet_def Let_def)

lemma unread_take [simp]: "unread (take_packet p ds) = packet_data p"
  by (simp add: unread_def packet_data_def)

lemma queued_take: "ds_first ds = p # ps \<Longrightarrow> queued ds = packet_data p @ queued (take_packet p ds)"
  by (simp add: queued_def)

lemma length_unread: "ds_ok ds \<Longrightarrow> int (length (unread ds)) = ds_buffer_size ds - ds_buffer_pos ds"
  unfolding ds_ok_def unread_def length_take length_drop by (elim conjE disjE) linarith+

lemma unread_nil: "ds_ok ds \<Longrightarrow> unread ds = [] \<longleftrightarrow> ds_buffer_size ds = ds_buffer_pos ds"
  using length_unread [of ds] by (cases "unread ds") auto

lemma get_unread:
  assumes "ds_ok ds" and "0 < x" and "x \<le> ds_buffer_size ds - ds_buffer_pos ds"
  shows "get_bytes (ds_buffer_pos ds) x (ds_buffer ds) = Some (take (nat x) (unread ds))"
    "unread (ds\<lparr>ds_buffer_pos := ds_buffer_pos ds + x\<rparr>) = drop (nat x) (unread ds)"
    "ds_ok (ds\<lparr>ds_buffer_pos := ds_buffer_pos ds + x\<rparr>)"
proof -
  have le: "nat x \<le> nat (ds_buffer_size ds - ds_buffer_pos ds)" using assms(3) by linarith
  have b: "0 \<le> ds_buffer_pos ds" "ds_buffer_size ds \<le> int (length (ds_buffer ds))" using assms by (auto simp: ds_ok_def)
  show "get_bytes (ds_buffer_pos ds) x (ds_buffer ds) = Some (take (nat x) (unread ds))"
    using b assms(2,3) le by (simp add: get_bytes_def unread_def min_absorb1)
  have "ds_buffer_size ds - (ds_buffer_pos ds + x) = ds_buffer_size ds - ds_buffer_pos ds - x" by simp
  then show "unread (ds\<lparr>ds_buffer_pos := ds_buffer_pos ds + x\<rparr>) = drop (nat x) (unread ds)"
    using assms(2,3) b(1) by (simp add: unread_def drop_take nat_add_distrib nat_diff_distrib add.commute)
  show "ds_ok (ds\<lparr>ds_buffer_pos := ds_buffer_pos ds + x\<rparr>)" using assms by (simp add: ds_ok_def)
qed

text \<open>The packets of one stream among those a demuxer adds, and what they leave as it was.\<close>

definition packets_for :: "strm \<Rightarrow> (strm \<times> demux_packet) list \<Rightarrow> string" where
  "packets_for t ps = concat (map (\<lambda>(s, dp). if s = t then packet_data dp else []) ps)"

lemma packets_for_simps [simp]:
  "packets_for t [] = []" "packets_for t ((s, dp) # ps) = (if s = t then packet_data dp else []) @ packets_for t ps"
  by (simp_all add: packets_for_def)

text \<open>Everything but the buffers of the streams and the time of the stream is the same.\<close>

definition ds_setup :: "demux_stream \<Rightarrow> int \<times> nat option" where
  "ds_setup ds = (ds_id ds, ds_sh ds)"

definition demux_setup where
  "demux_setup d =
     (ds_setup (dm_audio d), ds_setup (dm_video d), ds_setup (dm_sub d), dm_a_streams d, dm_v_streams d, dm_s_streams d,
      dm_movi_start d, dm_movi_end d, dm_file_format d, dm_priv d)"

lemma demux_setup_set_ds: "ds_setup x = ds_setup (ds_of s d) \<Longrightarrow> demux_setup (set_ds s x d) = demux_setup d"
  by (cases s) (simp_all add: demux_setup_def)

lemma ds_setup_simps [simp]:
  "ds_setup (take_packet p ds) = ds_setup ds" "ds_setup (no_packet ds) = ds_setup ds" "ds_setup (ds_add_packet dp ds) = ds_setup ds"
  "ds_setup (ds\<lparr>ds_current := c\<rparr>) = ds_setup ds" "ds_setup (ds\<lparr>ds_buffer_pos := k\<rparr>) = ds_setup ds"
  by (simp_all add: ds_setup_def no_packet_def ds_add_packet_def)

lemma demux_setup_stream_pts [simp]: "demux_setup (d\<lparr>dm_stream_pts := t\<rparr>) = demux_setup d"
  by (simp add: demux_setup_def)

lemma demux_setup_set_pos [simp]: "demux_setup (set_pos s k d) = demux_setup d"
  by (simp add: set_pos_def demux_setup_set_ds)

lemma ds_of_set_pos: "ds_of t (set_pos s k d) = (if t = s then (ds_of s d)\<lparr>ds_buffer_pos := k\<rparr> else ds_of t d)"
  by (simp add: set_pos_def ds_of_set_ds)

lemma ds_of_stream_pts [simp]: "ds_of t (d\<lparr>dm_stream_pts := x\<rparr>) = ds_of t d"
  by (cases t) simp_all

lemma ds_of_priv [simp]: "ds_of t (d\<lparr>dm_priv := p\<rparr>) = ds_of t d"
  by (cases t) simp_all

lemma demux_setup_add [simp]: "demux_setup (add_packets ps d) = demux_setup d"
  by (induction ps d rule: add_packets.induct) (simp_all add: demux_setup_set_ds)

lemma add_packets_ok:
  "(\<forall>(s, dp)\<in>set ps. packet_ok dp) \<Longrightarrow> ds_ok (ds_of t d) \<Longrightarrow>
   ds_ok (ds_of t (add_packets ps d)) \<and> unread (ds_of t (add_packets ps d)) = unread (ds_of t d) \<and>
   queued (ds_of t (add_packets ps d)) = queued (ds_of t d) @ packets_for t ps \<and>
   ds_buffer_pos (ds_of t (add_packets ps d)) = ds_buffer_pos (ds_of t d) \<and>
   ds_buffer_size (ds_of t (add_packets ps d)) = ds_buffer_size (ds_of t d) \<and>
   length (ds_first (ds_of t d)) \<le> length (ds_first (ds_of t (add_packets ps d)))"
proof (induction ps d rule: add_packets.induct)
  case (2 s dp ps d)
  let ?d = "set_ds s (ds_add_packet dp (ds_of s d)) d"
  have "ds_ok (ds_of t ?d)" using 2(2,3) by (auto simp: ds_of_set_ds ds_ok_add)
  with 2 show ?case by (auto simp: ds_of_set_ds) (auto simp: ds_add_packet_def)
qed simp

subsection \<open>Reading from any demuxer\<close>

text \<open>
  A demuxer that serves some of the streams: \<open>rest\<close> are the bytes of a stream that it has
  still to deliver. A call hands over some of them, in good packets; when it reports the end
  there are none left for the stream it was asked for.
\<close>

locale demux_source =
  fixes fill :: "'p fill" and served :: "strm set" and inv :: "'p demuxer \<Rightarrow> bool" and rest :: "'p demuxer \<Rightarrow> strm \<Rightarrow> string"
  assumes fill: "s \<in> served \<Longrightarrow> inv d \<Longrightarrow> fill d s = Some (r, ps, p) \<Longrightarrow>
      inv (d\<lparr>dm_priv := p\<rparr>) \<and> (\<forall>(t, dp)\<in>set ps. packet_ok dp) \<and>
      (\<forall>t\<in>served. rest d t = packets_for t ps @ rest (d\<lparr>dm_priv := p\<rparr>) t) \<and> (\<not> r \<longrightarrow> rest d s = [])"
    and frame: "demux_setup d = demux_setup d' \<Longrightarrow> inv d \<Longrightarrow> inv d' \<and> rest d' = rest d"
begin

definition ok :: "'p demuxer \<Rightarrow> bool" where
  "ok d \<longleftrightarrow> inv d \<and> (\<forall>t. ds_ok (ds_of t d))"

text \<open>What a stream will still give.\<close>

definition to_come :: "'p demuxer \<Rightarrow> strm \<Rightarrow> string" where
  "to_come d t = queued (ds_of t d) @ rest d t"

definition content :: "'p demuxer \<Rightarrow> strm \<Rightarrow> string" where
  "content d t = unread (ds_of t d) @ to_come d t"

lemma content_set_ds:
  assumes "ok d" and "ds_setup x = ds_setup (ds_of s d)" and "ds_ok x" and "queued x = queued (ds_of s d)"
  shows "ok (set_ds s x d)" "to_come (set_ds s x d) t = to_come d t"
    "content (set_ds s x d) t = (if t = s then unread x @ to_come d t else content d t)"
proof -
  have f: "inv (set_ds s x d) \<and> rest (set_ds s x d) = rest d"
    by (rule frame [OF demux_setup_set_ds [OF assms(2), symmetric]]) (use assms(1) in \<open>simp add: ok_def\<close>)
  then show "ok (set_ds s x d)" using assms by (simp add: ok_def ds_of_set_ds)
  show tc: "to_come (set_ds s x d) t = to_come d t" using f assms(4) by (simp add: to_come_def ds_of_set_ds)
  show "content (set_ds s x d) t = (if t = s then unread x @ to_come d t else content d t)"
    using tc by (simp add: content_def ds_of_set_ds)
qed

lemma filled:
  assumes "s \<in> served" and "ok d" and "demux_fill_buffer fill d s = Some (r, d')"
  shows "ok d'" "t \<in> served \<Longrightarrow> to_come d' t = to_come d t" "unread (ds_of t d') = unread (ds_of t d)"
    "\<not> r \<Longrightarrow> rest d s = [] \<and> rest d' s = []"
    "ds_buffer_pos (ds_of t d') = ds_buffer_pos (ds_of t d)" "ds_buffer_size (ds_of t d') = ds_buffer_size (ds_of t d)"
proof -
  from assms(3) obtain ps p where f: "fill d s = Some (r, ps, p)" and d': "d' = add_packets ps (d\<lparr>dm_priv := p\<rparr>)"
    by (auto simp: demux_fill_buffer_def elim!: bind_eq_SomeE)
  note law = fill [OF assms(1) _ f]
  have ok: "inv d" "\<And>t. ds_ok (ds_of t d)" using assms(2) by (auto simp: ok_def)
  have pk: "\<forall>(t, dp)\<in>set ps. packet_ok dp" using law ok(1) by blast
  have "inv d' \<and> rest d' = rest (d\<lparr>dm_priv := p\<rparr>)"
    by (rule frame [of "d\<lparr>dm_priv := p\<rparr>"]) (use law ok(1) in \<open>simp_all add: d'\<close>)
  moreover note a = add_packets_ok [OF pk, of _ "d\<lparr>dm_priv := p\<rparr>", folded d', unfolded ds_of_priv, OF ok(2)]
  ultimately show "ok d'" "t \<in> served \<Longrightarrow> to_come d' t = to_come d t" "unread (ds_of t d') = unread (ds_of t d)"
    "\<not> r \<Longrightarrow> rest d s = [] \<and> rest d' s = []"
    "ds_buffer_pos (ds_of t d') = ds_buffer_pos (ds_of t d)" "ds_buffer_size (ds_of t d') = ds_buffer_size (ds_of t d)"
    using law ok(1) assms(1) by (auto simp: ok_def to_come_def)
qed

text \<open>
  After filling, the current packet is the next one with the bytes that were to come, or
  there are none, unless a queue is too long. Other streams lose nothing.
\<close>

definition stuck :: "'p demuxer \<Rightarrow> bool" where
  "stuck d \<longleftrightarrow> too_many (dm_audio d) \<or> too_many (dm_video d)"

lemma stuck_no_packet [simp]: "stuck (set_ds s (no_packet (ds_of s d)) d) = stuck d"
  by (cases s) (simp_all add: stuck_def too_many_def no_packet_def)

definition fill_post :: "strm \<Rightarrow> 'p demuxer \<Rightarrow> bool \<Rightarrow> 'p demuxer \<Rightarrow> bool" where
  "fill_post s d r d' \<longleftrightarrow>
     ok d' \<and> content d' s = to_come d s \<and> (\<forall>t\<in>served. t \<noteq> s \<longrightarrow> content d' t = content d t) \<and>
     ds_buffer_pos (ds_of s d') = 0 \<and> ds_eof (ds_of s d') = (\<not> r) \<and>
     (\<not> r \<longrightarrow> unread (ds_of s d') = [] \<and> (content d' s = [] \<or> stuck d'))"

lemma take_packet_post:
  assumes ok: "ok d" and p: "ds_first (ds_of s d) = p # ps"
  shows "fill_post s d True (set_ds s (take_packet p (ds_of s d)) d)"
    "fill_post s d True ((set_ds s (take_packet p (ds_of s d)) d)\<lparr>dm_stream_pts := t\<rparr>)"
proof -
  let ?e = "set_ds s (take_packet p (ds_of s d)) d"
  have dok: "\<And>t. ds_ok (ds_of t d)" and inv: "inv d" using ok by (auto simp: ok_def)
  have oke: "ds_ok (ds_of t ?e)" for t using dok p by (simp add: ds_of_set_ds ds_ok_take)
  have f: "inv ?e \<and> rest ?e = rest d" by (rule frame [of d]) (use inv in \<open>simp_all add: demux_setup_set_ds\<close>)
  have g: "inv (?e\<lparr>dm_stream_pts := t\<rparr>) \<and> rest (?e\<lparr>dm_stream_pts := t\<rparr>) = rest d"
    using frame [of ?e "?e\<lparr>dm_stream_pts := t\<rparr>"] f by simp
  show "fill_post s d True ?e" "fill_post s d True (?e\<lparr>dm_stream_pts := t\<rparr>)"
    using f g oke queued_take [OF p]
    by (simp_all add: fill_post_def ok_def content_def to_come_def ds_of_set_ds)
qed

lemma no_packet_post:
  assumes "ok d" and "to_come d s = [] \<or> stuck d"
  shows "fill_post s d False (set_ds s (no_packet (ds_of s d)) d)"
proof -
  note c = content_set_ds [OF assms(1), of "no_packet (ds_of s d)" s]
  have "ds_ok (no_packet (ds_of s d))" using assms(1) by (simp add: ok_def ds_ok_no_packet)
  then show ?thesis using c assms(2) by (simp add: fill_post_def ds_of_set_ds) (simp add: no_packet_def)
qed

lemma fill_loop_ok:
  assumes "fill_loop fill s d = Some (r, d')" and "s \<in> served" and "ok d"
  shows "fill_post s d r d'"
proof -
  have "f = fill \<longrightarrow> s \<in> served \<longrightarrow> ok d \<longrightarrow> fill_post s d (fst y) (snd y)" if "fill_loop f s d = Some y" for f s d y
  proof (rule fill_loop.raw_induct [OF _ that], intro impI)
    fix loop f s d y
    assume IH: "\<And>f s d y. loop f s d = Some y \<Longrightarrow> f = fill \<longrightarrow> s \<in> served \<longrightarrow> ok d \<longrightarrow> fill_post s d (fst y) (snd y)"
      and body: "(if ds_packs (ds_of s d) \<noteq> 0
        then case ds_first (ds_of s d) of [] \<Rightarrow> None
             | p # _ \<Rightarrow>
                 let d = set_ds s (take_packet p (ds_of s d)) d
                 in Some (True, if dp_stream_pts p \<noteq> MP_NOPTS_VALUE then d\<lparr>dm_stream_pts := dp_stream_pts p\<rparr> else d)
        else if too_many (dm_audio d) \<or> too_many (dm_video d) then Some (False, set_ds s (no_packet (ds_of s d)) d)
        else do { (r, d) \<leftarrow> demux_fill_buffer f d s;
                  if r then loop f s d else Some (False, set_ds s (no_packet (ds_of s d)) d) }) = Some y"
      and f: "f = fill" and s: "s \<in> served" and ok: "ok d"
    show "fill_post s d (fst y) (snd y)"
    proof (cases "ds_packs (ds_of s d) = 0")
      case False
      then obtain p ps where p: "ds_first (ds_of s d) = p # ps" using body by (cases "ds_first (ds_of s d)") auto
      then show ?thesis using False body take_packet_post [OF ok p] by (auto simp: Let_def split: if_splits)
    next
      case True
      show ?thesis
      proof (cases "stuck d")
        case st: True
        then show ?thesis using True body no_packet_post [OF ok] by (auto simp: stuck_def)
      next
        case nst: False
        with True body obtain r e where e: "demux_fill_buffer fill d s = Some (r, e)"
          "(if r then loop fill s e else Some (False, set_ds s (no_packet (ds_of s e)) e)) = Some y"
          unfolding f by (auto simp: stuck_def elim!: bind_eq_SomeE)
        note fd = filled [OF s ok e(1)]
        have post: "fill_post s e (fst y) (snd y)"
        proof (cases r)
          case True
          then show ?thesis using IH [of fill s e y] e(2) s fd(1) by simp
        next
          case nr: False
          have "ds_first (ds_of s d) = []" using True ok by (auto simp: ok_def ds_ok_def)
          then have "to_come e s = []" using fd(2) [OF s] fd(4) nr by (simp add: to_come_def queued_def)
          then show ?thesis using no_packet_post [OF fd(1), of s] e(2) nr by auto
        qed
        have "content e t = content d t" if "t \<in> served" for t using fd(2,3) that by (simp add: content_def)
        then show ?thesis using post fd(2) [OF s] by (auto simp: fill_post_def)
      qed
    qed
  qed
  from this [OF assms(1)] show ?thesis using assms(2,3) by simp
qed

text \<open>\<open>ds_fill_buffer\<close>\<close>

lemma fill_buffer_ok:
  assumes "ds_fill_buffer fill s d = Some (r, d')" and "s \<in> served" and "ok d"
  shows "fill_post s d r d'"
proof -
  let ?d = "set_ds s ((ds_of s d)\<lparr>ds_current := None\<rparr>) d"
  have "ds_ok ((ds_of s d)\<lparr>ds_current := None\<rparr>)" "queued ((ds_of s d)\<lparr>ds_current := None\<rparr>) = queued (ds_of s d)"
    using assms(3) by (simp_all add: ok_def ds_ok_def queued_def)
  note c = content_set_ds [OF assms(3) _ this, simplified]
  have "fill_post s ?d r d'" using fill_loop_ok [OF assms(1) [unfolded ds_fill_buffer_def] assms(2) c(1)] .
  then show ?thesis by (auto simp: fill_post_def c)
qed

text \<open>Reading: what comes next, and the rest of it is still to be read.\<close>

definition read_post :: "strm \<Rightarrow> 'p demuxer \<Rightarrow> int \<Rightarrow> int \<Rightarrow> string \<Rightarrow> 'p demuxer \<Rightarrow> bool" where
  "read_post s d len n bs d' \<longleftrightarrow>
     ok d' \<and> 0 \<le> n \<and> n \<le> max 0 len \<and> bs = take (nat n) (content d s) \<and> content d' s = drop (nat n) (content d s) \<and>
     nat n \<le> length (content d s) \<and> (\<forall>t\<in>served. t \<noteq> s \<longrightarrow> content d' t = content d t) \<and>
     (n < len \<longrightarrow> ds_eof (ds_of s d') \<and> unread (ds_of s d') = [] \<and> (content d' s = [] \<or> stuck d'))"

lemma take_bytes_ok:
  assumes "ok d" and "0 < x" and "x \<le> ds_buffer_size (ds_of s d) - ds_buffer_pos (ds_of s d)"
  defines "d' \<equiv> set_pos s (ds_buffer_pos (ds_of s d) + x) d"
  shows "ok d'" "get_bytes (ds_buffer_pos (ds_of s d)) x (ds_buffer (ds_of s d)) = Some (take (nat x) (content d s))"
    "content d' s = drop (nat x) (content d s)" "t \<noteq> s \<Longrightarrow> content d' t = content d t" "nat x \<le> length (content d s)"
    "ds_eof (ds_of s d') = ds_eof (ds_of s d)" "unread (ds_of s d') = drop (nat x) (unread (ds_of s d))"
proof -
  have dok: "ds_ok (ds_of s d)" using assms(1) by (simp add: ok_def)
  note g = get_unread [OF dok assms(2,3)]
  have len: "nat x \<le> length (unread (ds_of s d))" using length_unread [OF dok] assms(3) by linarith
  have q: "queued ((ds_of s d)\<lparr>ds_buffer_pos := ds_buffer_pos (ds_of s d) + x\<rparr>) = queued (ds_of s d)" by (simp add: queued_def)
  note c = content_set_ds [OF assms(1) _ g(3) q, simplified, folded set_pos_def, folded d'_def]
  show "ok d'" by (rule c)
  show "get_bytes (ds_buffer_pos (ds_of s d)) x (ds_buffer (ds_of s d)) = Some (take (nat x) (content d s))"
    using g(1) len by (simp add: content_def)
  show "content d' s = drop (nat x) (content d s)" using c(3) [of s] g(2) len by (simp add: content_def)
  show "t \<noteq> s \<Longrightarrow> content d' t = content d t" using c(3) by simp
  show "nat x \<le> length (content d s)" using len by (simp add: content_def)
  show "ds_eof (ds_of s d') = ds_eof (ds_of s d)" "unread (ds_of s d') = drop (nat x) (unread (ds_of s d))"
    using g(2) by (simp_all add: d'_def ds_of_set_pos)
qed

lemma read_post_step:
  assumes p: "read_post s d' (len - m) n bs e" and m: "0 < m" "m \<le> len" "nat m \<le> length (content d s)"
    and c: "content d' s = drop (nat m) (content d s)" "\<And>t. t \<noteq> s \<Longrightarrow> content d' t = content d t"
  shows "read_post s d len (m + n) (take (nat m) (content d s) @ bs) e"
proof -
  note q = p [unfolded read_post_def c(1)]
  have n: "0 \<le> n" "n \<le> len - m" "bs = take (nat n) (drop (nat m) (content d s))" "ok e"
    "content e s = drop (nat n) (drop (nat m) (content d s))" "nat n \<le> length (content d s) - nat m"
    "\<And>t. t \<in> served \<Longrightarrow> t \<noteq> s \<Longrightarrow> content e t = content d t"
    "n < len - m \<Longrightarrow> ds_eof (ds_of s e) \<and> unread (ds_of s e) = [] \<and> (content e s = [] \<or> stuck e)"
  proof -
    show "0 \<le> n" "n \<le> len - m" using q m(2) by linarith+
    show "nat n \<le> length (content d s) - nat m" using q by simp
    show "content e t = content d t" if "t \<in> served" "t \<noteq> s" for t using q c(2) [OF that(2)] that by metis
  qed (use q in blast)+
  have a: "nat (m + n) = nat m + nat n" using m n by (simp add: nat_add_distrib)
  show ?thesis
    unfolding read_post_def a
  proof (intro conjI)
    show "take (nat m) (content d s) @ bs = take (nat m + nat n) (content d s)" unfolding n(3) by (rule take_add [symmetric])
    show "content e s = drop (nat m + nat n) (content d s)" unfolding n(5) by (simp add: add.commute)
    show "nat m + nat n \<le> length (content d s)" using n(6) m(3) by linarith
    show "m + n < len \<longrightarrow> ds_eof (ds_of s e) \<and> unread (ds_of s e) = [] \<and> (content e s = [] \<or> stuck e)" using n(8) by simp
    show "\<forall>t\<in>served. t \<noteq> s \<longrightarrow> content e t = content d t" using n(7) by blast
  qed (use n(1,2,4) m in linarith)+
qed

lemma read_data_ok:
  assumes "demux_read_data fill s mem len d = Some ((n, out), d')" and "s \<in> served" and "ok d"
  obtains bs where "read_post s d len n bs d'" "mem \<Longrightarrow> out = bs"
proof -
  have "f = fill \<longrightarrow> s \<in> served \<longrightarrow> ok d \<longrightarrow>
      (case y of ((n, out), d') \<Rightarrow> \<exists>bs. read_post s d len n bs d' \<and> (mem \<longrightarrow> out = bs))"
    if "demux_read_data f s mem len d = Some y" for f s mem len d y
  proof (rule demux_read_data.raw_induct [OF _ that], intro impI)
    fix loop f s mem len d y
    assume IH: "\<And>f s mem len d y. loop f s mem len d = Some y \<Longrightarrow> f = fill \<longrightarrow> s \<in> served \<longrightarrow> ok d \<longrightarrow>
        (case y of ((n, out), d') \<Rightarrow> \<exists>bs. read_post s d len n bs d' \<and> (mem \<longrightarrow> out = bs))"
      and body: "(if 0 < len
        then let x = ds_buffer_size (ds_of s d) - ds_buffer_pos (ds_of s d)
             in if x = 0
                then do { (r, d) \<leftarrow> ds_fill_buffer f s d; if r then loop f s mem len d else Some ((0, []), d) }
                else let x = min x len
                     in do {
                          bs \<leftarrow> (if mem then get_bytes (ds_buffer_pos (ds_of s d)) x (ds_buffer (ds_of s d)) else Some []);
                          ((n, rest), d) \<leftarrow> loop f s mem (len - x) (set_pos s (ds_buffer_pos (ds_of s d) + x) d);
                          Some ((x + n, bs @ rest), d) }
        else Some ((0, []), d)) = Some y"
      and f: "f = fill" and s: "s \<in> served" and ok: "ok d"
    have dok: "ds_ok (ds_of s d)" using ok by (simp add: ok_def)
    show "case y of ((n, out), d') \<Rightarrow> \<exists>bs. read_post s d len n bs d' \<and> (mem \<longrightarrow> out = bs)"
    proof (cases "0 < len")
      case False
      then show ?thesis using body ok by (auto simp: read_post_def)
    next
      case pos: True
      let ?x = "ds_buffer_size (ds_of s d) - ds_buffer_pos (ds_of s d)"
      show ?thesis
      proof (cases "?x = 0")
        case x: True
        with body pos obtain r e where e: "ds_fill_buffer fill s d = Some (r, e)"
          "(if r then loop fill s mem len e else Some ((0, []), e)) = Some y"
          unfolding f by (auto elim!: bind_eq_SomeE)
        have post: "fill_post s d r e" by (rule fill_buffer_ok [OF e(1) s ok])
        have "unread (ds_of s d) = []" using unread_nil [OF dok] x by simp
        then have same: "content e t = content d t" if "t \<in> served" for t using post that by (auto simp: fill_post_def content_def)
        show ?thesis
        proof (cases r)
          case True
          then show ?thesis using IH [of fill s mem len e y] e(2) s post same by (simp add: fill_post_def read_post_def)
        next
          case False
          then show ?thesis using e(2) post same s pos by (auto simp: fill_post_def read_post_def)
        qed
      next
        case x: False
        let ?m = "min ?x len" and ?d = "set_pos s (ds_buffer_pos (ds_of s d) + min ?x len) d"
        have m: "0 < ?m" "?m \<le> ?x" using x pos dok by (auto simp: ds_ok_def)
        note t = take_bytes_ok [OF ok m]
        from body pos x t(2) obtain n rest e where e: "loop fill s mem (len - ?m) ?d = Some ((n, rest), e)"
          "y = ((?m + n, (if mem then take (nat ?m) (content d s) else []) @ rest), e)"
          unfolding f by (auto simp: Let_def elim!: bind_eq_SomeE split: if_splits prod.splits)
        from IH [OF e(1)] s t(1) obtain bs where p: "read_post s ?d (len - ?m) n bs e" "mem \<Longrightarrow> rest = bs" by auto
        have "?m \<le> len" by simp
        from read_post_step [OF p(1) m(1) this t(5) t(3) t(4)]
        have "read_post s d len (?m + n) (take (nat ?m) (content d s) @ bs) e" by blast
        then show ?thesis unfolding e(2) prod.case using p(2) by (intro exI [of _ "take (nat ?m) (content d s) @ bs"]) simp
      qed
    qed
  qed
  from this [OF assms(1)] assms(2,3) show ?thesis using that by auto
qed

text \<open>Bytes that are in the buffer are read without filling it.\<close>

lemma read_buffered:
  assumes "ok d" and "0 < x" and "x \<le> ds_buffer_size (ds_of s d) - ds_buffer_pos (ds_of s d)"
  shows "demux_read_data fill s mem x d =
     Some ((x, if mem then take (nat x) (content d s) else []), set_pos s (ds_buffer_pos (ds_of s d) + x) d)"
proof -
  have "demux_read_data fill s mem 0 e = Some ((0, []), e)" for e by (subst demux_read_data.simps) simp
  moreover have "min (ds_buffer_size (ds_of s d) - ds_buffer_pos (ds_of s d)) x = x" using assms(3) by simp
  ultimately show ?thesis using take_bytes_ok(2) [OF assms] assms(2,3)
    by (subst demux_read_data.simps) (simp add: Let_def)
qed

lemma getc_buffered:
  assumes "ok d" and "unread (ds_of s d) = c # cs"
  shows "demux_getc fill s d = Some (int (byte c), set_pos s (ds_buffer_pos (ds_of s d) + 1) d)"
    "ok (set_pos s (ds_buffer_pos (ds_of s d) + 1) d)" "content d s = c # content (set_pos s (ds_buffer_pos (ds_of s d) + 1) d) s"
proof -
  have dok: "ds_ok (ds_of s d)" using assms(1) by (simp add: ok_def)
  have x: "(0::int) < 1" "1 \<le> ds_buffer_size (ds_of s d) - ds_buffer_pos (ds_of s d)"
    using length_unread [OF dok] assms(2) by auto
  note t = take_bytes_ok [OF assms(1) x]
  show "demux_getc fill s d = Some (int (byte c), set_pos s (ds_buffer_pos (ds_of s d) + 1) d)"
    using x t(2) assms(2) by (simp add: demux_getc_def char_at_def content_def)
  show "ok (set_pos s (ds_buffer_pos (ds_of s d) + 1) d)" by (rule t)
  show "content d s = c # content (set_pos s (ds_buffer_pos (ds_of s d) + 1) d) s"
    using t(3) assms(2) by (simp add: content_def)
qed

end

subsection \<open>Looking for a pattern\<close>

text \<open>The pattern ends at a position: the three bytes before it are those of the pattern.\<close>

definition three_bytes :: "string \<Rightarrow> 32 word" where
  "three_bytes bs = foldl shift_head 0 bs"

definition pattern_at :: "32 word \<Rightarrow> string \<Rightarrow> nat \<Rightarrow> bool" where
  "pattern_at pat bs p \<longleftrightarrow> 3 \<le> p \<and> p \<le> length bs \<and> three_bytes (take 3 (drop (p - 3) bs)) = pat"

abbreviation (input) head_of :: "string \<Rightarrow> 32 word" where "head_of bs \<equiv> foldl shift_head 0xFFFFFF00 bs"

definition low_clear :: "32 word \<Rightarrow> bool" where
  "low_clear h \<longleftrightarrow> (\<forall>n<8. \<not> bit h n)"

lemma low_clear_push: "low_clear (push_bit 8 w)"
  unfolding low_clear_def by (simp add: bit_push_bit_iff del: push_bit_or)

lemma low_clear_shift: "low_clear (shift_head h c)"
  unfolding shift_head_def by (rule low_clear_push)

lemma low_clear_mask: "low_clear 0xFFFFFF00"
proof -
  have "(0xFFFFFF00 :: 32 word) = push_bit 8 0xFFFFFF" by simp
  then show ?thesis using low_clear_push [of "0xFFFFFF"] by simp
qed

lemma low_clear_head: "low_clear h \<Longrightarrow> low_clear (foldl shift_head h bs)"
  by (induction bs arbitrary: h) (simp_all add: low_clear_shift)

lemma shift_three:
  assumes "low_clear h" shows "foldl shift_head h [a, b, c] = foldl shift_head 0 [a, b, c]"
proof -
  have "n < 32 \<Longrightarrow> 24 \<le> n \<Longrightarrow> \<not> bit h (n - 24)" for n using assms by (simp add: low_clear_def)
  then show ?thesis
    unfolding foldl.simps shift_head_def
    by (intro bit_word_eqI) (auto simp: bit_push_bit_iff bit_or_iff)
qed

lemma head_of_take:
  assumes "3 \<le> p" and "p \<le> length bs" and "low_clear h"
  shows "foldl shift_head h (take p bs) = three_bytes (take 3 (drop (p - 3) bs))"
proof -
  have "take p bs = take (p - 3) bs @ take 3 (drop (p - 3) bs)" using assms(1) take_add [of "p - 3" 3 bs] by simp
  moreover obtain a b c where "take 3 (drop (p - 3) bs) = [a, b, c]"
  proof -
    have "length (take 3 (drop (p - 3) bs)) = Suc (Suc (Suc 0))" using assms by simp
    then show ?thesis using that unfolding length_Suc_conv by auto
  qed
  ultimately show ?thesis by (simp only: foldl_append three_bytes_def shift_three [OF low_clear_head [OF assms(3)]])
qed

lemma pattern_at_head: "3 \<le> p \<Longrightarrow> p \<le> length c \<Longrightarrow> pattern_at pat c p \<longleftrightarrow> head_of (take p c) = pat"
  by (simp add: pattern_at_def head_of_take low_clear_mask)

lemma pattern_short: "p < 3 \<Longrightarrow> \<not> pattern_at pat c p"
  by (simp add: pattern_at_def)

lemma scan_pattern_spec:
  assumes "bs \<noteq> []" and "scan_pattern pat h bs = (h', k)"
  shows "1 \<le> k \<and> k \<le> length bs \<and> h' = foldl shift_head h (take k bs) \<and>
     (\<forall>j. 1 \<le> j \<and> j < k \<longrightarrow> foldl shift_head h (take j bs) \<noteq> pat) \<and> (k < length bs \<longrightarrow> h' = pat)"
  using assms
proof (induction pat h bs arbitrary: k rule: scan_pattern.induct)
  case (2 pat h c cs)
  let ?h = "shift_head h c"
  show ?case
  proof (cases "cs = [] \<or> ?h = pat")
    case True
    then show ?thesis using 2(3) by (auto simp: Let_def)
  next
    case False
    obtain h1 k1 where s: "scan_pattern pat ?h cs = (h1, k1)" by (cases "scan_pattern pat ?h cs")
    have hk: "h' = h1" "k = k1 + 1" using s False 2(3) by (simp_all add: Let_def)
    have IH: "1 \<le> k1 \<and> k1 \<le> length cs \<and> h1 = foldl shift_head ?h (take k1 cs) \<and>
       (\<forall>j. 1 \<le> j \<and> j < k1 \<longrightarrow> foldl shift_head ?h (take j cs) \<noteq> pat) \<and> (k1 < length cs \<longrightarrow> h1 = pat)"
      unfolding hk(1) [symmetric] by (rule 2(1) [OF refl False, of k1]) (use False s hk in simp_all)
    have "foldl shift_head h (take j (c # cs)) \<noteq> pat" if "1 \<le> j" "j < k1 + 1" for j
    proof (cases "j = 1")
      case True
      then show ?thesis using False by simp
    next
      case j: False
      then have "j = Suc (j - 1)" "1 \<le> j - 1" "j - 1 < k1" using that by linarith+
      then obtain i where "j = Suc i" "1 \<le> i" "i < k1" by blast
      then show ?thesis using IH by simp
    qed
    then show ?thesis using IH unfolding hk by auto
  qed
qed simp

context demux_source
begin

text \<open>
  Looking for a pattern, of the content \<open>c\<close>: no occurrence ends before the place that is
  reached, and the loop stops early only at an occurrence or where nothing comes any more.
\<close>

definition searched :: "32 word \<Rightarrow> strm \<Rightarrow> bool \<Rightarrow> string \<Rightarrow> 32 word \<Rightarrow> int \<Rightarrow> string \<Rightarrow> 'p demuxer \<Rightarrow> bool" where
  "searched pat s mem c head n out d \<longleftrightarrow>
     ok d \<and> 0 \<le> n \<and> nat n \<le> length c \<and> content d s = drop (nat n) c \<and> (mem \<longrightarrow> out = take (nat n) c) \<and>
     (\<forall>q<nat n. \<not> pattern_at pat c q)"

definition search_post :: "32 word \<Rightarrow> int \<Rightarrow> string \<Rightarrow> 32 word \<Rightarrow> int \<Rightarrow> 'p demuxer \<Rightarrow> bool" where
  "search_post pat maxlen c head n d \<longleftrightarrow>
     n \<le> maxlen \<and> (pattern_at pat c (nat n) \<longrightarrow> head = pat) \<and>
     (n < maxlen \<longrightarrow> pattern_at pat c (nat n) \<or> nat n = length c \<or> stuck d) \<and>
     (3 \<le> n \<and> head = pat \<longrightarrow> pattern_at pat c (nat n) \<or> n = maxlen)"

lemma search_chunk:
  assumes S: "searched pat s mem c head n out d" and h: "head = head_of (take (nat n) c)" and no: "\<not> pattern_at pat c (nat n)"
    and u: "unread (ds_of s d) \<noteq> []" and k: "scan_pattern pat head (unread (ds_of s d)) = (head', k)"
  shows "\<forall>q<nat n + k. \<not> pattern_at pat c q" "head' = head_of (take (nat n + k) c)" "nat n + k \<le> length c"
    "1 \<le> k" "int k \<le> ds_buffer_size (ds_of s d) - ds_buffer_pos (ds_of s d)"
proof -
  have dok: "ds_ok (ds_of s d)" and c: "content d s = drop (nat n) c" and n: "nat n \<le> length c"
    and old: "\<forall>q<nat n. \<not> pattern_at pat c q" using S by (auto simp: searched_def ok_def)
  note sp = scan_pattern_spec [OF u k]
  have pre: "foldl shift_head head (take j (unread (ds_of s d))) = head_of (take (nat n + j) c)" if "j \<le> k" for j
  proof -
    have "j \<le> length (unread (ds_of s d))" using sp that by linarith
    then have "take j (unread (ds_of s d)) = take j (drop (nat n) c)" unfolding c [symmetric] content_def by simp
    then show ?thesis by (simp add: h take_add)
  qed
  have len: "length (unread (ds_of s d)) \<le> length (drop (nat n) c)" unfolding c [symmetric] content_def by simp
  moreover have "k \<le> length (unread (ds_of s d))" using sp by blast
  ultimately show nk: "nat n + k \<le> length c" using n by simp
  show "head' = head_of (take (nat n + k) c)" using sp pre [of k] by simp
  show "1 \<le> k" using sp by blast
  show "int k \<le> ds_buffer_size (ds_of s d) - ds_buffer_pos (ds_of s d)" using sp length_unread [OF dok] by linarith
  show "\<forall>q<nat n + k. \<not> pattern_at pat c q"
  proof (intro allI impI)
    fix q assume q: "q < nat n + k"
    show "\<not> pattern_at pat c q"
    proof (cases "q \<le> nat n")
      case True
      then show ?thesis using old no by (cases "q = nat n") auto
    next
      case False
      define j where "j = q - nat n"
      have j: "1 \<le> j" "j < k" "q = nat n + j" using False q by (auto simp: j_def)
      have "foldl shift_head head (take j (unread (ds_of s d))) \<noteq> pat" using sp j(1,2) by blast
      then have "head_of (take q c) \<noteq> pat" using pre [of j] j(2,3) by simp
      then show ?thesis using pattern_at_head [of q c pat] q nk by (cases "3 \<le> q") (auto simp: pattern_short)
    qed
  qed
qed

lemma take_from_unread:
  assumes "searched pat s mem c head n out d" and "0 < x" and "x \<le> ds_buffer_size (ds_of s d) - ds_buffer_pos (ds_of s d)"
    and "\<forall>q<nat n + nat x. \<not> pattern_at pat c q"
  shows "\<exists>bs d'. demux_read_data fill s mem x d = Some ((x, bs), d') \<and> searched pat s mem c head' (n + x) (out @ bs) d' \<and>
     ds_eof (ds_of s d') = ds_eof (ds_of s d)"
proof -
  have ok: "ok d" and c: "content d s = drop (nat n) c" and n: "0 \<le> n" "nat n \<le> length c" "mem \<longrightarrow> out = take (nat n) c"
    using assms(1) by (auto simp: searched_def)
  note t = take_bytes_ok [OF ok assms(2,3)]
  have nx: "nat (n + x) = nat n + nat x" using n(1) assms(2) by (simp add: nat_add_distrib)
  have "nat n + nat x \<le> length c" using t(5) n(2) unfolding c by simp
  moreover have "drop (nat x) (content d s) = drop (nat n + nat x) c" unfolding c by (simp add: add.commute)
  moreover have "out @ take (nat x) (content d s) = take (nat n + nat x) c" if mem using n(3) that unfolding c by (simp add: take_add)
  ultimately show ?thesis
    using read_buffered [OF ok assms(2,3), of mem] t(1,3,6) n(1) assms(2,4)
    by (auto simp: searched_def nx)
qed

lemma search_chunk_post:
  assumes S: "searched pat s mem c head n out d" and h: "head = head_of (take (nat n) c)" and no: "\<not> pattern_at pat c (nat n)"
    and n: "n < maxlen" and u: "unread (ds_of s d) \<noteq> []" and k: "scan_pattern pat head (unread (ds_of s d)) = (head', k)"
  defines "x \<equiv> if maxlen < n + int k then maxlen - n else int k"
  shows "\<exists>bs d'. demux_read_data fill s mem x d = Some ((x, bs), d') \<and> searched pat s mem c head' (n + x) (out @ bs) d' \<and>
     n + x \<le> maxlen \<and> (n + x < maxlen \<longrightarrow> head' = head_of (take (nat (n + x)) c)) \<and>
     (pattern_at pat c (nat (n + x)) \<longrightarrow> head' = pat) \<and>
     (3 \<le> n + x \<and> head' = pat \<longrightarrow> pattern_at pat c (nat (n + x)) \<or> n + x = maxlen) \<and> ds_eof (ds_of s d') = ds_eof (ds_of s d)"
proof -
  note ch = search_chunk [OF S h no u k]
  have x: "0 < x" "x \<le> int k" "x \<le> ds_buffer_size (ds_of s d) - ds_buffer_pos (ds_of s d)" using n ch(4,5) by (auto simp: x_def)
  have n0: "0 \<le> n" using S by (simp add: searched_def)
  have nx: "nat (n + x) = nat n + nat x" using n0 x(1) by (simp add: nat_add_distrib)
  have "nat n + nat x \<le> nat n + k" using x by linarith
  then have "\<forall>q<nat n + nat x. \<not> pattern_at pat c q" using ch(1) by (meson less_le_trans)
  from take_from_unread [OF S x(1,3) this, of head'] obtain bs d' where r: "demux_read_data fill s mem x d = Some ((x, bs), d')"
    "searched pat s mem c head' (n + x) (out @ bs) d'" "ds_eof (ds_of s d') = ds_eof (ds_of s d)" by blast
  have full: "x = int k" if "n + x < maxlen" using that by (simp add: x_def split: if_splits)
  have head: "head' = head_of (take (nat (n + x)) c)" if "x = int k" using ch(2) that unfolding nx by simp
  have fit: "nat (n + x) \<le> length c" using r(2) by (simp add: searched_def)
  have "n + x \<le> maxlen" by (simp add: x_def)
  moreover have "head' = pat" if p: "pattern_at pat c (nat (n + x))"
  proof -
    have "\<not> nat n + nat x < nat n + k" using ch(1) p unfolding nx by blast
    then have "x = int k" using x by linarith
    then show ?thesis using head p fit pattern_at_head [of "nat (n + x)" c pat] by (simp add: pattern_at_def)
  qed
  moreover have "pattern_at pat c (nat (n + x))" if "3 \<le> n + x" "head' = pat" "n + x \<noteq> maxlen"
  proof -
    have "n + x < maxlen" using \<open>n + x \<le> maxlen\<close> that(3) by simp
    then show ?thesis using head [OF full] that fit pattern_at_head [of "nat (n + x)" c pat] by simp
  qed
  ultimately show ?thesis using r head full by blast
qed

text \<open>The state at the head of the loop.\<close>

definition search_pre :: "32 word \<Rightarrow> strm \<Rightarrow> bool \<Rightarrow> int \<Rightarrow> string \<Rightarrow> 32 word \<Rightarrow> int \<Rightarrow> string \<Rightarrow> 'p demuxer \<Rightarrow> bool" where
  "search_pre pat s mem maxlen c head n out d \<longleftrightarrow>
     searched pat s mem c head n out d \<and> n < maxlen \<and> head = head_of (take (nat n) c) \<and> \<not> pattern_at pat c (nat n)"

text \<open>The test at the end of the loop.\<close>

lemma search_test:
  assumes S: "searched pat s mem c head n out d" and n: "n \<le> maxlen" and h: "n < maxlen \<longrightarrow> head = head_of (take (nat n) c)"
    and p: "pattern_at pat c (nat n) \<longrightarrow> head = pat" "3 \<le> n \<and> head = pat \<longrightarrow> pattern_at pat c (nat n) \<or> n = maxlen"
    and e: "ds_eof (ds_of s d) \<Longrightarrow> nat n = length c \<or> stuck d"
  shows "(head \<noteq> pat \<or> n < 3) \<and> n < maxlen \<and> \<not> ds_eof (ds_of s d) \<Longrightarrow> search_pre pat s mem maxlen c head n out d"
    "\<not> ((head \<noteq> pat \<or> n < 3) \<and> n < maxlen \<and> \<not> ds_eof (ds_of s d)) \<Longrightarrow> search_post pat maxlen c head n d"
proof -
  have three: "3 \<le> n" if "pattern_at pat c (nat n)" using that by (auto simp: pattern_at_def)
  show "search_pre pat s mem maxlen c head n out d" if "(head \<noteq> pat \<or> n < 3) \<and> n < maxlen \<and> \<not> ds_eof (ds_of s d)"
  proof -
    have "\<not> pattern_at pat c (nat n)" using p(1) three that by linarith
    then show ?thesis using S h that by (simp add: search_pre_def)
  qed
  assume stop: "\<not> ((head \<noteq> pat \<or> n < 3) \<and> n < maxlen \<and> \<not> ds_eof (ds_of s d))"
  have "pattern_at pat c (nat n) \<or> nat n = length c \<or> stuck d" if "n < maxlen"
  proof (cases "ds_eof (ds_of s d)")
    case False
    then have "3 \<le> n" "head = pat" using stop that by linarith+
    then show ?thesis using p(2) that by simp
  qed (use e in blast)
  then show "search_post pat maxlen c head n d" using n p by (simp add: search_post_def)
qed

lemma pattern_loop_ok:
  assumes "pattern_loop fill s mem maxlen pat head n out d = Some ((head', n', out'), d')" and "s \<in> served"
    and "search_pre pat s mem maxlen c head n out d"
  shows "searched pat s mem c head' n' out' d' \<and> search_post pat maxlen c head' n' d'"
proof -
  have "f = fill \<longrightarrow> s \<in> served \<longrightarrow> search_pre pat s mem maxlen c head n out d \<longrightarrow>
      (case y of ((head', n', out'), d') \<Rightarrow> searched pat s mem c head' n' out' d' \<and> search_post pat maxlen c head' n' d')"
    if "pattern_loop f s mem maxlen pat head n out d = Some y" for f s mem maxlen pat head n out d y
  proof (rule pattern_loop.raw_induct [OF _ that], intro impI)
    fix loop f s mem maxlen pat head n out d y
    assume IH: "\<And>f s mem maxlen pat head n out d y. loop f s mem maxlen pat head n out d = Some y \<Longrightarrow>
        f = fill \<longrightarrow> s \<in> served \<longrightarrow> search_pre pat s mem maxlen c head n out d \<longrightarrow>
        (case y of ((head', n', out'), d') \<Rightarrow> searched pat s mem c head' n' out' d' \<and> search_post pat maxlen c head' n' d')"
      and body: "do {
        let len = ds_buffer_size (ds_of s d) - ds_buffer_pos (ds_of s d);
        ((head, n, out), d) \<leftarrow>
          (if len \<le> 0 then do { (_, d) \<leftarrow> ds_fill_buffer f s d; Some ((head, n, out), d) }
           else do {
             bs \<leftarrow> get_bytes (ds_buffer_pos (ds_of s d)) len (ds_buffer (ds_of s d));
             let (head, k) = scan_pattern pat head bs;
             let len = (if maxlen < n + int k then maxlen - n else int k);
             ((len, bs), d) \<leftarrow> demux_read_data f s mem len d;
             Some ((head, n + len, out @ bs), d) });
        if (head \<noteq> pat \<or> n < 3) \<and> n < maxlen \<and> \<not> ds_eof (ds_of s d) then loop f s mem maxlen pat head n out d
        else Some ((head, n, out), d) } = Some y"
      and f: "f = fill" and s: "s \<in> served" and pre: "search_pre pat s mem maxlen c head n out d"
    let ?len = "ds_buffer_size (ds_of s d) - ds_buffer_pos (ds_of s d)"
    have S: "searched pat s mem c head n out d" and n: "n < maxlen" and h: "head = head_of (take (nat n) c)" and no: "\<not> pattern_at pat c (nat n)"
      using pre by (auto simp: search_pre_def)
    have ok: "ok d" and dok: "ds_ok (ds_of s d)" and n0: "0 \<le> n" using S by (auto simp: searched_def ok_def)
    show "case y of ((head', n', out'), d') \<Rightarrow> searched pat s mem c head' n' out' d' \<and> search_post pat maxlen c head' n' d'"
    proof (cases "?len \<le> 0")
      case True
      with body obtain r e where e: "ds_fill_buffer fill s d = Some (r, e)"
        "(if (head \<noteq> pat \<or> n < 3) \<and> n < maxlen \<and> \<not> ds_eof (ds_of s e) then loop fill s mem maxlen pat head n out e
          else Some ((head, n, out), e)) = Some y"
        unfolding f by (auto simp: Let_def elim!: bind_eq_SomeE)
      have post: "fill_post s d r e" by (rule fill_buffer_ok [OF e(1) s ok])
      have "unread (ds_of s d) = []" using True length_unread [OF dok] by (cases "unread (ds_of s d)") auto
      then have "content e s = content d s" using post by (simp add: fill_post_def content_def)
      then have S': "searched pat s mem c head n out e" using S post by (simp add: searched_def fill_post_def)
      have "3 \<le> n \<and> head = pat \<longrightarrow> pattern_at pat c (nat n)" using h pattern_at_head [of "nat n" c pat] S by (auto simp: searched_def)
      moreover have "nat n = length c \<or> stuck e" if "ds_eof (ds_of s e)"
        using S' post that by (auto simp: searched_def fill_post_def)
      moreover have "n \<le> maxlen" using n by simp
      ultimately have st: "(head \<noteq> pat \<or> n < 3) \<and> n < maxlen \<and> \<not> ds_eof (ds_of s e) \<Longrightarrow> search_pre pat s mem maxlen c head n out e"
        "\<not> ((head \<noteq> pat \<or> n < 3) \<and> n < maxlen \<and> \<not> ds_eof (ds_of s e)) \<Longrightarrow> search_post pat maxlen c head n e"
        using search_test [OF S', of maxlen] h no by blast+
      show ?thesis
      proof (cases "(head \<noteq> pat \<or> n < 3) \<and> n < maxlen \<and> \<not> ds_eof (ds_of s e)")
        case True
        then have "loop fill s mem maxlen pat head n out e = Some y" using e(2) by simp
        from IH [OF this] st(1) [OF True] s show ?thesis by blast
      next
        case False
        then have "y = ((head, n, out), e)" using e(2) by (simp del: not_less not_le split: if_splits)
        then show ?thesis using S' st(2) [OF False] by simp
      qed
    next
      case False
      then have u: "unread (ds_of s d) \<noteq> []" using length_unread [OF dok] by auto
      obtain head' k where k: "scan_pattern pat head (unread (ds_of s d)) = (head', k)" by (cases "scan_pattern pat head (unread (ds_of s d))")
      define x where "x = (if maxlen < n + int k then maxlen - n else int k)"
      from search_chunk_post [OF S h no n u k, folded x_def] obtain bs e where r: "demux_read_data fill s mem x d = Some ((x, bs), e)"
        "searched pat s mem c head' (n + x) (out @ bs) e" "n + x \<le> maxlen" "n + x < maxlen \<longrightarrow> head' = head_of (take (nat (n + x)) c)"
        "pattern_at pat c (nat (n + x)) \<longrightarrow> head' = pat" "3 \<le> n + x \<and> head' = pat \<longrightarrow> pattern_at pat c (nat (n + x)) \<or> n + x = maxlen"
        "ds_eof (ds_of s e) = ds_eof (ds_of s d)" by blast
      have "\<not> ds_eof (ds_of s d)" using dok False by (auto simp: ds_ok_def)
      then have ne: "\<not> ds_eof (ds_of s e)" using r(7) by simp
      have st: "(head' \<noteq> pat \<or> n + x < 3) \<and> n + x < maxlen \<and> \<not> ds_eof (ds_of s e) \<Longrightarrow> search_pre pat s mem maxlen c head' (n + x) (out @ bs) e"
        "\<not> ((head' \<noteq> pat \<or> n + x < 3) \<and> n + x < maxlen \<and> \<not> ds_eof (ds_of s e)) \<Longrightarrow> search_post pat maxlen c head' (n + x) e"
        using search_test [OF r(2-6)] ne by blast+
      have g: "get_bytes (ds_buffer_pos (ds_of s d)) ?len (ds_buffer (ds_of s d)) = Some (unread (ds_of s d))"
        using get_unread(1) [OF dok, of ?len] False length_unread [OF dok] by simp
      have y: "(if (head' \<noteq> pat \<or> n + x < 3) \<and> n + x < maxlen \<and> \<not> ds_eof (ds_of s e)
          then loop fill s mem maxlen pat head' (n + x) (out @ bs) e else Some ((head', n + x, out @ bs), e)) = Some y"
        using body False unfolding f by (simp add: g k x_def [symmetric] r(1))
      show ?thesis
      proof (cases "(head' \<noteq> pat \<or> n + x < 3) \<and> n + x < maxlen \<and> \<not> ds_eof (ds_of s e)")
        case True
        then have "loop fill s mem maxlen pat head' (n + x) (out @ bs) e = Some y" using y by simp
        from IH [OF this] st(1) [OF True] s show ?thesis by blast
      next
        case False
        then have "y = ((head', n + x, out @ bs), e)" using y by (simp del: not_less not_le split: if_splits)
        then show ?thesis using r(2) st(2) [OF False] by simp
      qed
    qed
  qed
  from this [OF assms(1)] assms(2,3) show ?thesis by auto
qed

end

subsection \<open>A demuxer that comes to an end\<close>

text \<open>
  Every call of the demuxer returns, and it can succeed only a bounded number of times
  (\<open>rank\<close>). Then the loops end: each filling uses up a packet of the queue or a call.
\<close>

locale finite_demux_source = demux_source fill served inv rest
  for fill :: "'p fill" and served :: "strm set" and inv :: "'p demuxer \<Rightarrow> bool" and rest :: "'p demuxer \<Rightarrow> strm \<Rightarrow> string" +
  fixes rank :: "'p demuxer \<Rightarrow> nat"
  assumes fill_returns: "s \<in> served \<Longrightarrow> inv d \<Longrightarrow> \<exists>r ps p. fill d s = Some (r, ps, p) \<and> (r \<longrightarrow> rank (d\<lparr>dm_priv := p\<rparr>) < rank d)"
    and rank_frame: "demux_setup d = demux_setup d' \<Longrightarrow> rank d' = rank d"
begin

definition work :: "strm \<Rightarrow> 'p demuxer \<Rightarrow> nat \<times> nat" where
  "work s d = (rank d, length (ds_first (ds_of s d)))"

abbreviation less_work :: "((nat \<times> nat) \<times> (nat \<times> nat)) set" where
  "less_work \<equiv> less_than <*lex*> less_than"

lemma less_work_trans: "(x, y) \<in> less_work \<Longrightarrow> (y, z) \<in> less_work \<Longrightarrow> (x, z) \<in> less_work"
  by (cases x; cases y; cases z) auto

lemma rank_set_ds: "ds_setup x = ds_setup (ds_of s d) \<Longrightarrow> rank (set_ds s x d) = rank d"
  using rank_frame [OF demux_setup_set_ds [symmetric]] .

lemma fill_once:
  assumes "s \<in> served" and "ok d"
  obtains r d' where "demux_fill_buffer fill d s = Some (r, d')" "r \<Longrightarrow> rank d' < rank d"
proof -
  have "inv d" using assms(2) by (simp add: ok_def)
  from fill_returns [OF assms(1) this] obtain r ps p where f: "fill d s = Some (r, ps, p)" "r \<longrightarrow> rank (d\<lparr>dm_priv := p\<rparr>) < rank d"
    by blast
  moreover have "rank (add_packets ps (d\<lparr>dm_priv := p\<rparr>)) = rank (d\<lparr>dm_priv := p\<rparr>)" by (rule rank_frame) simp
  ultimately show ?thesis using that [of r "add_packets ps (d\<lparr>dm_priv := p\<rparr>)"] by (simp add: demux_fill_buffer_def)
qed

lemma fill_loop_returns:
  "s \<in> served \<Longrightarrow> ok d \<Longrightarrow> \<exists>r d'. fill_loop fill s d = Some (r, d') \<and> (r \<longrightarrow> (work s d', work s d) \<in> less_work)"
proof (induction "rank d" arbitrary: d rule: less_induct)
  case less
  have dok: "ds_ok (ds_of s d)" using less.prems(2) by (simp add: ok_def)
  show ?case
  proof (cases "ds_packs (ds_of s d) = 0")
    case False
    then obtain p ps where p: "ds_first (ds_of s d) = p # ps" using dok by (cases "ds_first (ds_of s d)") (auto simp: ds_ok_def)
    let ?d = "set_ds s (take_packet p (ds_of s d)) d"
    have "rank (?d\<lparr>dm_stream_pts := t\<rparr>) = rank ?d" for t by (rule rank_frame) simp
    moreover have "rank ?d = rank d" by (rule rank_set_ds) simp
    ultimately show ?thesis using False p by (subst fill_loop.simps) (auto simp: work_def ds_of_set_ds Let_def)
  next
    case empty: True
    show ?thesis
    proof (cases "stuck d")
      case True
      then show ?thesis using empty by (subst fill_loop.simps) (auto simp: stuck_def)
    next
      case False
      from fill_once [OF less.prems] obtain r e where e: "demux_fill_buffer fill d s = Some (r, e)" "r \<Longrightarrow> rank e < rank d" by blast
      have eq: "fill_loop fill s d = (if r then fill_loop fill s e else Some (False, set_ds s (no_packet (ds_of s e)) e))"
        using empty False e(1) by (subst fill_loop.simps) (simp add: stuck_def)
      show ?thesis
      proof (cases r)
        case True
        from less.hyps [OF e(2) [OF True] less.prems(1) filled(1) [OF less.prems e(1)]] obtain r' d' where
          "fill_loop fill s e = Some (r', d')" "r' \<longrightarrow> (work s d', work s e) \<in> less_work" by blast
        moreover have "(work s e, work s d) \<in> less_work" using e(2) [OF True] by (simp add: work_def)
        ultimately show ?thesis using eq True less_work_trans [of "work s d'" "work s e" "work s d"] by (intro exI [of _ r'] exI [of _ d']) simp
      qed (use eq in auto)
    qed
  qed
qed

lemma fill_buffer_returns:
  assumes "s \<in> served" and "ok d"
  obtains r d' where "ds_fill_buffer fill s d = Some (r, d')" "r \<Longrightarrow> (work s d', work s d) \<in> less_work" "fill_post s d r d'"
proof -
  let ?d = "set_ds s ((ds_of s d)\<lparr>ds_current := None\<rparr>) d"
  have "ds_ok ((ds_of s d)\<lparr>ds_current := None\<rparr>)" "queued ((ds_of s d)\<lparr>ds_current := None\<rparr>) = queued (ds_of s d)"
    using assms(2) by (simp_all add: ok_def ds_ok_def queued_def)
  note c = content_set_ds [OF assms(2) _ this, simplified]
  from fill_loop_returns [OF assms(1) c(1)] obtain r d' where "fill_loop fill s ?d = Some (r, d')"
    "r \<longrightarrow> (work s d', work s ?d) \<in> less_work" by blast
  moreover have "work s ?d = work s d" by (simp add: work_def rank_set_ds ds_of_set_ds)
  ultimately show ?thesis using that [of r d'] fill_buffer_ok [OF _ assms] by (simp add: ds_fill_buffer_def)
qed

lemma work_set_pos: "work s (set_pos s k d) = work s d"
  by (simp add: work_def ds_of_set_pos rank_frame [of d "set_pos s k d"])

lemma read_data_returns:
  "s \<in> served \<Longrightarrow> ok d \<Longrightarrow> \<exists>y. demux_read_data fill s mem len d = Some y"
proof (induction "(nat len, work s d)" arbitrary: len d rule: wf_induct_rule [OF wf_lex_prod [OF wf_less_than wf_lex_prod [OF wf_less_than wf_less_than]]])
  case (1 len d)
  have dok: "ds_ok (ds_of s d)" using 1(3) by (simp add: ok_def)
  let ?x = "ds_buffer_size (ds_of s d) - ds_buffer_pos (ds_of s d)"
  show ?case
  proof (cases "0 < len")
    case False
    then show ?thesis by (subst demux_read_data.simps) simp
  next
    case len: True
    show ?thesis
    proof (cases "?x = 0")
      case True
      from fill_buffer_returns [OF 1(2,3)] obtain r e where e: "ds_fill_buffer fill s d = Some (r, e)"
        "r \<Longrightarrow> (work s e, work s d) \<in> less_work" "fill_post s d r e" by blast
      have "demux_read_data fill s mem len d = (if r then demux_read_data fill s mem len e else Some ((0, []), e))"
        using len True e(1) by (subst demux_read_data.simps) simp
      moreover have "\<exists>y. demux_read_data fill s mem len e = Some y" if r
        by (rule 1(1)) (use e that 1(2) in \<open>auto simp: fill_post_def\<close>)
      ultimately show ?thesis by (cases r) auto
    next
      case False
      then have x: "0 < min ?x len" "min ?x len \<le> ?x" using len dok by (auto simp: ds_ok_def)
      note t = take_bytes_ok [OF 1(3) x]
      let ?d = "set_pos s (ds_buffer_pos (ds_of s d) + min ?x len) d"
      have "\<exists>y. demux_read_data fill s mem (len - min ?x len) ?d = Some y"
        by (rule 1(1)) (use x len t(1) 1(2) in \<open>simp_all add: work_set_pos\<close>)
      then show ?thesis using len False t(2) by (subst demux_read_data.simps) (auto simp: Let_def)
    qed
  qed
qed

lemma pattern_loop_returns:
  "s \<in> served \<Longrightarrow> ok d \<Longrightarrow> n < maxlen \<Longrightarrow> \<exists>y. pattern_loop fill s mem maxlen pat head n out d = Some y"
proof (induction "(nat (maxlen - n), work s d)" arbitrary: n head out d rule: wf_induct_rule [OF wf_lex_prod [OF wf_less_than wf_lex_prod [OF wf_less_than wf_less_than]]])
  case (1 n d)
  have dok: "ds_ok (ds_of s d)" using 1(3) by (simp add: ok_def)
  let ?x = "ds_buffer_size (ds_of s d) - ds_buffer_pos (ds_of s d)"
  show ?case
  proof (cases "?x \<le> 0")
    case True
    from fill_buffer_returns [OF 1(2,3)] obtain r e where e: "ds_fill_buffer fill s d = Some (r, e)"
      "r \<Longrightarrow> (work s e, work s d) \<in> less_work" "fill_post s d r e" by blast
    have eq: "pattern_loop fill s mem maxlen pat head n out d =
        (if (head \<noteq> pat \<or> n < 3) \<and> n < maxlen \<and> \<not> ds_eof (ds_of s e) then pattern_loop fill s mem maxlen pat head n out e
         else Some ((head, n, out), e))"
      using True e(1) by (subst pattern_loop.simps) (simp add: Let_def)
    have "\<exists>y. pattern_loop fill s mem maxlen pat head n out e = Some y" if "\<not> ds_eof (ds_of s e)"
      by (rule 1(1)) (use e that 1(2,4) in \<open>auto simp: fill_post_def\<close>)
    then show ?thesis using eq by auto
  next
    case False
    have u: "unread (ds_of s d) \<noteq> []" using False length_unread [OF dok] by auto
    obtain h k where k: "scan_pattern pat head (unread (ds_of s d)) = (h, k)" by (cases "scan_pattern pat head (unread (ds_of s d))")
    define x where "x = (if maxlen < n + int k then maxlen - n else int k)"
    have x: "0 < x" "x \<le> ?x" "n + x \<le> maxlen"
      using scan_pattern_spec [OF u k] length_unread [OF dok] 1(4) by (auto simp: x_def)
    note t = take_bytes_ok [OF 1(3) x(1,2)]
    let ?d = "set_pos s (ds_buffer_pos (ds_of s d) + x) d" and ?bs = "if mem then take (nat x) (content d s) else []"
    have g: "get_bytes (ds_buffer_pos (ds_of s d)) ?x (ds_buffer (ds_of s d)) = Some (unread (ds_of s d))"
      using get_unread(1) [OF dok, of ?x] False length_unread [OF dok] by simp
    have eq: "pattern_loop fill s mem maxlen pat head n out d =
        (if (h \<noteq> pat \<or> n + x < 3) \<and> n + x < maxlen \<and> \<not> ds_eof (ds_of s ?d) then pattern_loop fill s mem maxlen pat h (n + x) (out @ ?bs) ?d
         else Some ((h, n + x, out @ ?bs), ?d))"
      using False by (subst pattern_loop.simps) (simp add: g k x_def [symmetric] read_buffered [OF 1(3) x(1,2)])
    have "\<exists>y. pattern_loop fill s mem maxlen pat h (n + x) (out @ ?bs) ?d = Some y" if "n + x < maxlen"
      by (rule 1(1)) (use x t(1) 1(2) that in \<open>simp_all add: work_set_pos\<close>)
    then show ?thesis unfolding eq by (cases "(h \<noteq> pat \<or> n + x < 3) \<and> n + x < maxlen \<and> \<not> ds_eof (ds_of s ?d)") simp_all
  qed
qed

end

context demux_source
begin

text \<open>\<open>demux_pattern_3\<close> from its beginning.\<close>

lemma pattern_3_ok:
  assumes "demux_pattern_3 fill s mem maxlen pattern d = Some ((found, n, out), d')" and "s \<in> served" and "ok d" and "0 < maxlen"
  defines "pat \<equiv> and pattern 0xFFFFFF00"
  shows "0 \<le> n \<and> n \<le> maxlen \<and> nat n \<le> length (content d s) \<and> content d' s = drop (nat n) (content d s) \<and>
     (mem \<longrightarrow> out = take (nat n) (content d s)) \<and> (\<forall>q<nat n. \<not> pattern_at pat (content d s) q) \<and>
     (pattern_at pat (content d s) (nat n) \<longrightarrow> found) \<and>
     (n < maxlen \<longrightarrow> pattern_at pat (content d s) (nat n) \<or> nat n = length (content d s) \<or> stuck d') \<and>
     (found \<longrightarrow> pattern_at pat (content d s) (nat n) \<or> n = maxlen) \<and> ok d'"
proof -
  from assms(1) obtain head where l: "pattern_loop fill s mem maxlen pat 0xFFFFFF00 0 [] d = Some ((head, n, out), d')"
    and f: "found = (3 \<le> n \<and> head = pat)"
    unfolding demux_pattern_3_def pat_def by (auto simp: Let_def elim!: bind_eq_SomeE)
  have "search_pre pat s mem maxlen (content d s) 0xFFFFFF00 0 [] d"
    using assms(3,4) by (simp add: search_pre_def searched_def pattern_at_def)
  note post = pattern_loop_ok [OF l assms(2) this]
  have "3 \<le> n" if "pattern_at pat (content d s) (nat n)" using that by (auto simp: pattern_at_def)
  then show ?thesis using post f by (auto simp: searched_def search_post_def)
qed

end

subsection \<open>A demuxer that delivers a packet at a time\<close>

text \<open>
  Such a demuxer adds one packet to the stream it is asked for, or none at the end. Then no
  queue grows, and reading falls short of what was asked only at the end.
\<close>

locale lazy_demux_source = demux_source fill served inv rest
  for fill :: "'p fill" and served :: "strm set" and inv :: "'p demuxer \<Rightarrow> bool" and rest :: "'p demuxer \<Rightarrow> strm \<Rightarrow> string" +
  assumes lazy: "s \<in> served \<Longrightarrow> inv d \<Longrightarrow> fill d s = Some (r, ps, p) \<Longrightarrow> ps = (if r then [(s, snd (hd ps))] else [])"
begin

definition idle :: "'p demuxer \<Rightarrow> bool" where
  "idle d \<longleftrightarrow> (\<forall>t. ds_first (ds_of t d) = [])"

lemma idle_set_ds: "idle d \<Longrightarrow> ds_first x = [] \<Longrightarrow> idle (set_ds s x d)"
  by (simp add: idle_def ds_of_set_ds)

lemma idle_set_pos: "idle d \<Longrightarrow> idle (set_pos s k d)"
  by (simp add: idle_def ds_of_set_pos)

lemma not_stuck:
  assumes "ok d" and "idle d" shows "\<not> stuck d"
proof -
  have "ds_ok (ds_of t d)" "ds_first (ds_of t d) = []" for t using assms by (simp_all add: ok_def idle_def)
  then have "ds_packs (ds_of t d) = 0 \<and> ds_bytes (ds_of t d) = 0" for t by (simp add: ds_ok_def)
  from this [of Audio] this [of Video] show ?thesis by (simp add: stuck_def too_many_def)
qed

lemma idle_fill_loop:
  assumes "fill_loop fill s d = Some (r, d')" and "s \<in> served" and "ok d" and "idle d"
  shows "idle d' \<and> (r \<longrightarrow> (\<exists>ps p. fill d s = Some (True, ps, p) \<and> unread (ds_of s d') = packet_data (snd (hd ps)) \<and>
     rest d' = rest (d\<lparr>dm_priv := p\<rparr>)))"
proof -
  have e: "ds_packs (ds_of s d) = 0" "\<not> (too_many (dm_audio d) \<or> too_many (dm_video d))"
    using assms(3,4) not_stuck by (auto simp: ok_def ds_ok_def idle_def stuck_def)
  obtain x where x: "fill d s = Some x"
    "(case (case x of (r, ps, p) \<Rightarrow> (r, add_packets ps (d\<lparr>dm_priv := p\<rparr>))) of
       (r, d) \<Rightarrow> if r then fill_loop fill s d else Some (False, set_ds s (no_packet (ds_of s d)) d)) = Some (r, d')"
    using assms(1) e by (subst (asm) fill_loop.simps) (auto simp: demux_fill_buffer_def case_prod_unfold elim!: bind_eq_SomeE)
  obtain r1 ps p where p: "x = (r1, ps, p)" by (cases x)
  have inv: "inv d" using assms(3) by (simp add: ok_def)
  let ?d = "d\<lparr>dm_priv := p\<rparr>"
  have idle1: "idle ?d" using assms(4) by (simp add: idle_def)
  show ?thesis
  proof (cases r1)
    case False
    then have "ps = []" using lazy [OF assms(2) inv, of r1 ps p] x(1) p by simp
    then have "d' = set_ds s (no_packet (ds_of s ?d)) ?d" "\<not> r" using x(2) p False by simp_all
    moreover have "ds_first (no_packet (ds_of s ?d)) = []" using idle1 by (simp add: no_packet_def idle_def)
    ultimately show ?thesis using idle_set_ds [OF idle1] by simp
  next
    case True
    define dp where "dp = snd (hd ps)"
    have ps: "ps = [(s, dp)]" using lazy [OF assms(2) inv, of r1 ps p] x(1) p True by (simp add: dp_def)
    let ?e = "set_ds s (ds_add_packet dp (ds_of s d)) ?d"
    have l: "fill_loop fill s ?e = Some (r, d')" using x(2) p True ps by simp
    have first: "ds_first (ds_of s ?e) = [dp]" "ds_packs (ds_of s ?e) \<noteq> 0"
      using assms(4) e(1) by (simp_all add: ds_of_set_ds ds_add_packet_def idle_def)
    have "idle (set_ds s (take_packet dp (ds_of s ?e)) ?e)"
      unfolding idle_def
    proof
      fix t
      show "ds_first (ds_of t (set_ds s (take_packet dp (ds_of s ?e)) ?e)) = []"
        using first(1) assms(4) by (simp add: ds_of_set_ds idle_def)
    qed
    moreover have "unread (ds_of s (set_ds s (take_packet dp (ds_of s ?e)) ?e)) = packet_data dp" by (simp add: ds_of_set_ds)
    moreover have "demux_setup (set_ds s (take_packet dp (ds_of s ?e)) ?e) = demux_setup ?d"
      by (simp add: demux_setup_set_ds ds_of_set_ds)
    moreover have "d' = set_ds s (take_packet dp (ds_of s ?e)) ?e \<or> d' = (set_ds s (take_packet dp (ds_of s ?e)) ?e)\<lparr>dm_stream_pts := dp_stream_pts dp\<rparr>"
      using l first by (subst (asm) fill_loop.simps) (auto simp: Let_def split: if_splits)
    ultimately have d': "idle d'" "unread (ds_of s d') = packet_data dp" "demux_setup ?d = demux_setup d'" by (auto simp: idle_def)
    have "inv ?d" using fill [OF assms(2) inv, of r1 ps p] x(1) p by simp
    then have "rest d' = rest ?d" using frame [OF d'(3)] by blast
    then show ?thesis using d' x(1) p True ps by auto
  qed
qed

lemma idle_fill_buffer:
  assumes "ds_fill_buffer fill s d = Some (r, d')" and "s \<in> served" and "ok d" and "idle d"
  shows "idle d'" "r \<Longrightarrow> \<exists>e ps p. inv e \<and> fill e s = Some (True, ps, p) \<and> unread (ds_of s d') = packet_data (snd (hd ps)) \<and>
     rest d' = rest (e\<lparr>dm_priv := p\<rparr>)"
proof -
  let ?x = "(ds_of s d)\<lparr>ds_current := None\<rparr>"
  have "ds_ok ?x" "queued ?x = queued (ds_of s d)" using assms(3) by (simp_all add: ok_def ds_ok_def queued_def)
  then have "ok (set_ds s ?x d)" using content_set_ds [OF assms(3), of ?x s] by simp
  moreover have "idle (set_ds s ?x d)" using assms(4) by (intro idle_set_ds) (simp_all add: idle_def)
  ultimately have "inv (set_ds s ?x d)" "idle d' \<and> (r \<longrightarrow> (\<exists>ps p. fill (set_ds s ?x d) s = Some (True, ps, p) \<and>
      unread (ds_of s d') = packet_data (snd (hd ps)) \<and> rest d' = rest ((set_ds s ?x d)\<lparr>dm_priv := p\<rparr>)))"
    using idle_fill_loop [OF assms(1) [unfolded ds_fill_buffer_def] assms(2)] by (simp_all add: ok_def)
  then show "idle d'" "r \<Longrightarrow> \<exists>e ps p. inv e \<and> fill e s = Some (True, ps, p) \<and> unread (ds_of s d') = packet_data (snd (hd ps)) \<and>
     rest d' = rest (e\<lparr>dm_priv := p\<rparr>)" by blast+
qed

lemma idle_read_data:
  assumes "demux_read_data fill s mem len d = Some (y, d')" and "s \<in> served" and "ok d" and "idle d"
  shows "idle d'"
proof -
  have "f = fill \<longrightarrow> s \<in> served \<longrightarrow> ok d \<longrightarrow> idle d \<longrightarrow> idle (snd y)"
    if "demux_read_data f s mem len d = Some y" for f s mem len d y
  proof (rule demux_read_data.raw_induct [OF _ that], intro impI)
    fix loop f s mem len d y
    assume IH: "\<And>f s mem len d y. loop f s mem len d = Some y \<Longrightarrow> f = fill \<longrightarrow> s \<in> served \<longrightarrow> ok d \<longrightarrow> idle d \<longrightarrow> idle (snd y)"
      and body: "(if 0 < len
        then let x = ds_buffer_size (ds_of s d) - ds_buffer_pos (ds_of s d)
             in if x = 0
                then do { (r, d) \<leftarrow> ds_fill_buffer f s d; if r then loop f s mem len d else Some ((0, []), d) }
                else let x = min x len
                     in do {
                          bs \<leftarrow> (if mem then get_bytes (ds_buffer_pos (ds_of s d)) x (ds_buffer (ds_of s d)) else Some []);
                          ((n, rest), d) \<leftarrow> loop f s mem (len - x) (set_pos s (ds_buffer_pos (ds_of s d) + x) d);
                          Some ((x + n, bs @ rest), d) }
        else Some ((0, []), d)) = Some y"
      and f: "f = fill" and s: "s \<in> served" and ok: "ok d" and idle: "idle d"
    let ?x = "ds_buffer_size (ds_of s d) - ds_buffer_pos (ds_of s d)"
    consider "\<not> 0 < len" | "0 < len" "?x = 0" | "0 < len" "?x \<noteq> 0" by blast
    then show "idle (snd y)"
    proof cases
      case 1
      then show ?thesis using body idle by auto
    next
      case 2
      with body obtain r e where e: "ds_fill_buffer fill s d = Some (r, e)"
        "(if r then loop fill s mem len e else Some ((0, []), e)) = Some y"
        unfolding f by (auto elim!: bind_eq_SomeE)
      have "ok e" using fill_buffer_ok [OF e(1) s ok] by (simp add: fill_post_def)
      then show ?thesis using IH [of fill s mem len e y] idle_fill_buffer(1) [OF e(1) s ok idle] e(2) s by (cases r) auto
    next
      case 3
      let ?d = "set_pos s (ds_buffer_pos (ds_of s d) + min ?x len) d"
      have "ds_ok (ds_of s d)" using ok by (simp add: ok_def)
      then have "0 < min ?x len" "min ?x len \<le> ?x" using 3 by (simp_all add: ds_ok_def)
      then have "ok ?d" by (rule take_bytes_ok(1) [OF ok])
      moreover from 3 body obtain n rest e where "loop fill s mem (len - min ?x len) ?d = Some ((n, rest), e)" "snd y = e"
        unfolding f by (auto simp: Let_def elim!: bind_eq_SomeE split: if_splits prod.splits)
      ultimately show ?thesis using IH s idle_set_pos [OF idle] by fastforce
    qed
  qed
  from this [OF assms(1)] assms(2-4) show ?thesis by simp
qed

text \<open>So reading gives as many bytes as there are.\<close>

lemma read_exact:
  assumes "demux_read_data fill s True len d = Some ((n, out), d')" and "s \<in> served" and "ok d" and "idle d" and "0 \<le> len"
  shows "n = min len (int (length (content d s)))" "out = take (nat len) (content d s)" "content d' s = drop (nat len) (content d s)"
    "ok d'" "idle d'"
proof -
  from read_data_ok [OF assms(1-3)] have p: "read_post s d len n out d'" by metis
  show id: "idle d'" by (rule idle_read_data [OF assms(1-4)])
  show ok: "ok d'" using p by (simp add: read_post_def)
  have q: "0 \<le> n" "n \<le> len" "out = take (nat n) (content d s)" "content d' s = drop (nat n) (content d s)"
    "nat n \<le> length (content d s)" "n < len \<longrightarrow> content d' s = []"
    using p not_stuck [OF ok id] assms(5) by (auto simp: read_post_def)
  show n: "n = min len (int (length (content d s)))"
  proof (cases "n < len")
    case True
    then have "drop (nat n) (content d s) = []" using q(4,6) by simp
    then show ?thesis using q(1,2,5) by simp
  next
    case False
    then show ?thesis using q(1,2,5) by linarith
  qed
  show "out = take (nat len) (content d s)" "content d' s = drop (nat len) (content d s)"
    using q(3,4) unfolding n by (cases "len \<le> int (length (content d s))"; simp add: min_def)+
qed

end

context lazy_demux_source
begin

lemma idle_pattern_loop:
  assumes "pattern_loop fill s mem maxlen pat head n out d = Some (y, d')" and "s \<in> served" and "ok d" and "idle d"
  shows "idle d'"
proof -
  have "f = fill \<longrightarrow> s \<in> served \<longrightarrow> ok d \<longrightarrow> idle d \<longrightarrow> idle (snd y)"
    if "pattern_loop f s mem maxlen pat head n out d = Some y" for f s mem maxlen pat head n out d y
  proof (rule pattern_loop.raw_induct [OF _ that], intro impI)
    fix loop f s mem maxlen pat head n out d y
    assume IH: "\<And>f s mem maxlen pat head n out d y. loop f s mem maxlen pat head n out d = Some y \<Longrightarrow>
        f = fill \<longrightarrow> s \<in> served \<longrightarrow> ok d \<longrightarrow> idle d \<longrightarrow> idle (snd y)"
      and body: "do {
        let len = ds_buffer_size (ds_of s d) - ds_buffer_pos (ds_of s d);
        ((head, n, out), d) \<leftarrow>
          (if len \<le> 0 then do { (_, d) \<leftarrow> ds_fill_buffer f s d; Some ((head, n, out), d) }
           else do {
             bs \<leftarrow> get_bytes (ds_buffer_pos (ds_of s d)) len (ds_buffer (ds_of s d));
             let (head, k) = scan_pattern pat head bs;
             let len = (if maxlen < n + int k then maxlen - n else int k);
             ((len, bs), d) \<leftarrow> demux_read_data f s mem len d;
             Some ((head, n + len, out @ bs), d) });
        if (head \<noteq> pat \<or> n < 3) \<and> n < maxlen \<and> \<not> ds_eof (ds_of s d) then loop f s mem maxlen pat head n out d
        else Some ((head, n, out), d) } = Some y"
      and f: "f = fill" and s: "s \<in> served" and ok: "ok d" and idle: "idle d"
    obtain head' n' out' e where e: "ok e" "idle e"
      "(if (head' \<noteq> pat \<or> n' < 3) \<and> n' < maxlen \<and> \<not> ds_eof (ds_of s e) then loop fill s mem maxlen pat head' n' out' e
        else Some ((head', n', out'), e)) = Some y"
    proof (cases "ds_buffer_size (ds_of s d) - ds_buffer_pos (ds_of s d) \<le> 0")
      case True
      with body obtain r e where r: "ds_fill_buffer fill s d = Some (r, e)"
        "(if (head \<noteq> pat \<or> n < 3) \<and> n < maxlen \<and> \<not> ds_eof (ds_of s e) then loop fill s mem maxlen pat head n out e
          else Some ((head, n, out), e)) = Some y"
        unfolding f by (auto simp: Let_def elim!: bind_eq_SomeE)
      have "ok e" using fill_buffer_ok [OF r(1) s ok] by (simp add: fill_post_def)
      then show ?thesis using that r(2) idle_fill_buffer(1) [OF r(1) s ok idle] by blast
    next
      case False
      let ?g = "get_bytes (ds_buffer_pos (ds_of s d)) (ds_buffer_size (ds_of s d) - ds_buffer_pos (ds_of s d)) (ds_buffer (ds_of s d))"
      obtain bs where g: "?g = Some bs" using body False by (cases ?g) (auto simp: Let_def)
      obtain head' k where k: "scan_pattern pat head bs = (head', k)" by (cases "scan_pattern pat head bs")
      define x where "x = (if maxlen < n + int k then maxlen - n else int k)"
      obtain len bs' e where r1: "demux_read_data fill s mem x d = Some ((len, bs'), e)"
        using body False unfolding f by (cases "demux_read_data fill s mem x d") (auto simp: g k x_def [symmetric])
      then have r: "demux_read_data fill s mem x d = Some ((len, bs'), e)"
        "(if (head' \<noteq> pat \<or> n + len < 3) \<and> n + len < maxlen \<and> \<not> ds_eof (ds_of s e) then loop fill s mem maxlen pat head' (n + len) (out @ bs') e
          else Some ((head', n + len, out @ bs'), e)) = Some y"
        using body False unfolding f by (simp_all add: g k x_def [symmetric])
      from read_data_ok [OF r(1) s ok] have "ok e" by (auto simp: read_post_def)
      then show ?thesis using that r(2) idle_read_data [OF r(1) s ok idle] by blast
    qed
    show "idle (snd y)"
    proof (cases "(head' \<noteq> pat \<or> n' < 3) \<and> n' < maxlen \<and> \<not> ds_eof (ds_of s e)")
      case True
      then have "loop fill s mem maxlen pat head' n' out' e = Some y" using e(3) by simp
      then show ?thesis using IH s e(1,2) by blast
    next
      case False
      then have "Some ((head', n', out'), e) = Some y" using e(3) by (simp only: if_False)
      then show ?thesis using e(2) by auto
    qed
  qed
  from this [OF assms(1)] assms(2-4) show ?thesis by simp
qed

text \<open>So the search ends at the first occurrence, or at the limit or the end.\<close>

lemma pattern_3_exact:
  assumes "demux_pattern_3 fill s mem maxlen pattern d = Some ((found, n, out), d')" and "s \<in> served" and "ok d" and "idle d" and "0 < maxlen"
    and "pattern_at (and pattern 0xFFFFFF00) (content d s) p" and "\<forall>q<p. \<not> pattern_at (and pattern 0xFFFFFF00) (content d s) q" and "int p \<le> maxlen"
  shows "found" "n = int p" "mem \<Longrightarrow> out = take p (content d s)" "content d' s = drop p (content d s)"
proof -
  note post = pattern_3_ok [OF assms(1-3,5)]
  obtain y where "pattern_loop fill s mem maxlen (and pattern 0xFFFFFF00) 0xFFFFFF00 0 [] d = Some (y, d')"
    using assms(1) by (auto simp: demux_pattern_3_def Let_def elim!: bind_eq_SomeE)
  then have "\<not> stuck d'" using idle_pattern_loop assms(2-4) not_stuck post by metis
  then have m: "n < maxlen \<longrightarrow> pattern_at (and pattern 0xFFFFFF00) (content d s) (nat n) \<or> nat n = length (content d s)" using post by blast
  have p: "p \<le> length (content d s)" "3 \<le> p" using assms(6) by (auto simp: pattern_at_def)
  have "nat n \<le> p" using post assms(6) by (meson not_le)
  moreover have "p \<le> nat n"
  proof (rule ccontr)
    assume "\<not> p \<le> nat n"
    then have "n < maxlen" "nat n < p" using assms(8) by linarith+
    then show False using m assms(7) p(1) by auto
  qed
  ultimately have n: "nat n = p" by simp
  then show "n = int p" using p(2) by linarith
  show "found" "mem \<Longrightarrow> out = take p (content d s)" "content d' s = drop p (content d s)" using post assms(6) n by auto
qed

end

subsection \<open>Reading characters\<close>

text \<open>If packets are empty only at the end, characters can be read, too, as long as there are any.\<close>

locale full_demux_source = lazy_demux_source fill served inv rest
  for fill :: "'p fill" and served :: "strm set" and inv :: "'p demuxer \<Rightarrow> bool" and rest :: "'p demuxer \<Rightarrow> strm \<Rightarrow> string" +
  assumes full: "s \<in> served \<Longrightarrow> inv d \<Longrightarrow> fill d s = Some (True, ps, p) \<Longrightarrow> packet_data (snd (hd ps)) = [] \<Longrightarrow> rest (d\<lparr>dm_priv := p\<rparr>) s = []"
begin

lemma full_fill_buffer:
  assumes "ds_fill_buffer fill s d = Some (r, d')" and "s \<in> served" and "ok d" and "idle d" and "to_come d s \<noteq> []"
  shows "r" "ok d'" "idle d'" "unread (ds_of s d') \<noteq> []" "content d' s = to_come d s"
proof -
  have post: "fill_post s d r d'" by (rule fill_buffer_ok [OF assms(1-3)])
  show ok: "ok d'" and c: "content d' s = to_come d s" using post by (simp_all add: fill_post_def)
  note i = idle_fill_buffer [OF assms(1-4)]
  show id: "idle d'" by (rule i(1))
  have "content d' s \<noteq> []" using c assms(5) by simp
  then show "r" using post not_stuck [OF ok id] by (auto simp: fill_post_def)
  then obtain e ps p where e: "inv e" "fill e s = Some (True, ps, p)" "unread (ds_of s d') = packet_data (snd (hd ps))"
    "rest d' = rest (e\<lparr>dm_priv := p\<rparr>)" using i(2) by blast
  show "unread (ds_of s d') \<noteq> []"
  proof
    assume "unread (ds_of s d') = []"
    then have "rest d' s = []" using full [OF assms(2) e(1,2)] e(3,4) by simp
    then have "content d' s = []" using id \<open>unread (ds_of s d') = []\<close> by (simp add: content_def to_come_def queued_def idle_def)
    then show False using \<open>content d' s \<noteq> []\<close> by simp
  qed
qed

lemma getc_ok:
  assumes "demux_getc fill s d = Some (c, d')" and "s \<in> served" and "ok d" and "idle d" and "content d s = x # xs"
  shows "c = int (byte x)" "ok d'" "idle d'" "content d' s = xs"
proof -
  have dok: "ds_ok (ds_of s d)" using assms(3) by (simp add: ok_def)
  have "c = int (byte x) \<and> ok d' \<and> idle d' \<and> content d' s = xs"
  proof (cases "unread (ds_of s d)")
    case (Cons y ys)
    note g = getc_buffered [OF assms(3) Cons]
    have "c = int (byte y)" "d' = set_pos s (ds_buffer_pos (ds_of s d) + 1) d" using assms(1) g(1) by simp_all
    then show ?thesis using g(2,3) assms(5) idle_set_pos [OF assms(4)] by simp
  next
    case Nil
    then have e: "\<not> ds_buffer_pos (ds_of s d) < ds_buffer_size (ds_of s d)" using unread_nil [OF dok] by simp
    have tc: "to_come d s = x # xs" using assms(5) Nil by (simp add: content_def)
    from assms(1) e obtain r f where f: "ds_fill_buffer fill s d = Some (r, f)" by (auto simp: demux_getc_def elim!: bind_eq_SomeE)
    note ff = full_fill_buffer [OF f assms(2-4)]
    have ne: "to_come d s \<noteq> []" using tc by simp
    obtain y ys where y: "unread (ds_of s f) = y # ys" using ff(4) [OF ne] by (cases "unread (ds_of s f)") auto
    note g = getc_buffered [OF ff(2) [OF ne] y]
    have fok: "ds_ok (ds_of s f)" using ff(2) [OF ne] by (simp add: ok_def)
    have "ds_buffer_pos (ds_of s f) < ds_buffer_size (ds_of s f)" using length_unread [OF fok] y by simp
    then have "demux_getc fill s d = demux_getc fill s f"
      using e f ff(1) [OF ne] by (simp add: demux_getc_def)
    then have "c = int (byte y)" "d' = set_pos s (ds_buffer_pos (ds_of s f) + 1) f" using assms(1) g(1) by simp_all
    then show ?thesis using g(2,3) ff(5) [OF ne] tc idle_set_pos [OF ff(3) [OF ne]] by simp
  qed
  then show "c = int (byte x)" "ok d'" "idle d'" "content d' s = xs" by blast+
qed

end

end
