(* ===== verification/Demuxer.thy ===== *)
theory Demuxer
  imports Demux_Spec Bstr "HOL-Library.Product_Lexorder"
begin

text \<open>
  The rest of \<open>libmpdemux/demuxer.c\<close> and \<open>libmpdemux/extension.c\<close>: the tables of stream
  headers and the choice of tracks, chapters, attachments and clip info, the controls, and
  how the demuxer of a file is found. The control functions of the stream and of the demuxer,
  and the functions of the demuxers in the list, are parameters; a result \<open>None\<close> is a null
  pointer or a loop that does not end.
\<close>

subsection \<open>Stream headers\<close>

abbreviation (input) MAX_A_STREAMS :: nat where "MAX_A_STREAMS \<equiv> 256"
abbreviation (input) MAX_V_STREAMS :: nat where "MAX_V_STREAMS \<equiv> 256"
abbreviation (input) MAX_S_STREAMS :: nat where "MAX_S_STREAMS \<equiv> 256"

text \<open>The result is the place of the header in its table, or \<open>None\<close> for a null pointer.\<close>

definition new_sh_audio_aid :: "'p demuxer \<Rightarrow> int \<Rightarrow> int \<Rightarrow> nat option \<times> 'p demuxer" where
  "new_sh_audio_aid d i aid =
     (if int MAX_A_STREAMS - 1 < i \<or> i < 0 then (None, d)
      else case dm_a_streams d (nat i) of
             Some _ \<Rightarrow> (Some (nat i), d)
           | None \<Rightarrow> (Some (nat i), d\<lparr>dm_a_streams := (dm_a_streams d)(nat i \<mapsto>
               \<lparr>sa_aid = aid, sa_lang = None, sa_default_track = False, sa_format = 0, sa_samplesize = 2, sa_channels = 0,
                sa_samplerate = 0, sa_avg_bytes = 0\<rparr>)\<rparr>))"

definition new_sh_video_vid :: "'p demuxer \<Rightarrow> int \<Rightarrow> int \<Rightarrow> nat option \<times> 'p demuxer" where
  "new_sh_video_vid d i vid =
     (if int MAX_V_STREAMS - 1 < i \<or> i < 0 then (None, d)
      else case dm_v_streams d (nat i) of
             Some _ \<Rightarrow> (Some (nat i), d)
           | None \<Rightarrow> (Some (nat i), d\<lparr>dm_v_streams := (dm_v_streams d)(nat i \<mapsto>
               \<lparr>sv_vid = vid, sv_lang = None, sv_default_track = False, sv_format = 0, sv_fps = 0, sv_frametime = 0, sv_i_bps = 0,
                sv_disp_w = 0, sv_disp_h = 0, sv_pts = 0, sv_i_pts = 0, sv_frames_decoded = 0, sv_bih = None\<rparr>)\<rparr>))"

definition new_sh_sub_sid :: "'p demuxer \<Rightarrow> int \<Rightarrow> int \<Rightarrow> nat option \<times> 'p demuxer" where
  "new_sh_sub_sid d i sid =
     (if int MAX_S_STREAMS - 1 < i \<or> i < 0 then (None, d)
      else case dm_s_streams d (nat i) of
             Some _ \<Rightarrow> (Some (nat i), d)
           | None \<Rightarrow> (Some (nat i), d\<lparr>dm_s_streams := (dm_s_streams d)(nat i \<mapsto>
               \<lparr>ss_sid = sid, ss_lang = None, ss_default_track = False\<rparr>)\<rparr>))"

definition new_sh_sub_sid_lang :: "'p demuxer \<Rightarrow> int \<Rightarrow> int \<Rightarrow> string option \<Rightarrow> (nat option \<times> 'p demuxer) option" where
  "new_sh_sub_sid_lang d i sid lang =
     (let (sh, d) = new_sh_sub_sid d i sid
      in if lang \<noteq> None \<and> lang \<noteq> Some [] \<and> lang \<noteq> Some ''und''
         then do {
           n \<leftarrow> sh; h \<leftarrow> dm_s_streams d n;
           Some (sh, d\<lparr>dm_s_streams := (dm_s_streams d)(n \<mapsto> h\<lparr>ss_lang := lang\<rparr>)\<rparr>) }
         else Some (sh, d))"

definition free_sh_audio :: "'p demuxer \<Rightarrow> nat \<Rightarrow> 'p demuxer" where
  "free_sh_audio d i = d\<lparr>dm_a_streams := (dm_a_streams d)(i := None)\<rparr>"

subsection \<open>The choice of a track\<close>

text \<open>
  The inner loop over a table: the id of the first default track whose language fits, or
  else of the first track whose language fits; -1 is left for none. Tracks without a
  language fit only if no language is asked for.
\<close>

definition lang_fits :: "string option \<Rightarrow> string option \<Rightarrow> bool" where
  "lang_fits lang l \<longleftrightarrow> (lang = None \<or> l \<noteq> None \<and> lang = l)"

datatype found = Default int | Fitting int

fun track_loop :: "('h \<Rightarrow> int) \<Rightarrow> ('h \<Rightarrow> string option) \<Rightarrow> ('h \<Rightarrow> bool) \<Rightarrow> string option \<Rightarrow> 'h option list \<Rightarrow> int \<Rightarrow> found" where
  "track_loop tid tlang dfl lang [] i = Fitting i"
| "track_loop tid tlang dfl lang (sh # shs) i =
     (case sh of
        None \<Rightarrow> track_loop tid tlang dfl lang shs i
      | Some h \<Rightarrow>
          if lang_fits lang (tlang h)
          then (if dfl h then Default (tid h) else track_loop tid tlang dfl lang shs (if i < 0 then tid h else i))
          else track_loop tid tlang dfl lang shs i)"

definition table :: "nat \<Rightarrow> (nat \<rightharpoonup> 'h) \<Rightarrow> 'h option list" where
  "table n m = map m [0..<n]"

fun audio_track_loop :: "'p demuxer \<Rightarrow> string list \<Rightarrow> int" where
  "audio_track_loop d ls =
     (case track_loop sa_aid sa_lang sa_default_track (case ls of [] \<Rightarrow> None | l # _ \<Rightarrow> Some l) (table MAX_A_STREAMS (dm_a_streams d)) (-1) of
        Default i \<Rightarrow> i
      | Fitting i \<Rightarrow> (if 0 \<le> i then i else case ls of [] \<Rightarrow> -1 | _ # ls \<Rightarrow> audio_track_loop d ls))"

fun sub_track_loop :: "'p demuxer \<Rightarrow> string list \<Rightarrow> int" where
  "sub_track_loop d ls =
     (case track_loop ss_sid ss_lang ss_default_track (case ls of [] \<Rightarrow> None | l # _ \<Rightarrow> Some l) (table MAX_S_STREAMS (dm_s_streams d)) (-1) of
        Default i \<Rightarrow> i
      | Fitting i \<Rightarrow> (case ls of [] \<Rightarrow> -1 | _ # ls \<Rightarrow> if 0 \<le> i then i else sub_track_loop d ls))"

declare audio_track_loop.simps [simp del] sub_track_loop.simps [simp del]

definition demuxer_audio_track_by_lang_and_default :: "'p demuxer \<Rightarrow> string list option \<Rightarrow> int" where
  "demuxer_audio_track_by_lang_and_default d langt = audio_track_loop d (case langt of None \<Rightarrow> [] | Some ls \<Rightarrow> ls)"

definition demuxer_sub_track_by_lang_and_default :: "'p demuxer \<Rightarrow> string list option \<Rightarrow> int" where
  "demuxer_sub_track_by_lang_and_default d langt = sub_track_loop d (case langt of None \<Rightarrow> [] | Some ls \<Rightarrow> ls)"

subsection \<open>Clip info\<close>

text \<open>\<open>talloc_strndup\<close> copies up to a NUL.\<close>

definition strndup :: "string \<Rightarrow> string" where
  "strndup s = takeWhile (\<lambda>c. c \<noteq> CHR 0x00) s"

fun info_add :: "bstr \<Rightarrow> bstr \<Rightarrow> (string \<times> string) list \<Rightarrow> int \<times> (string \<times> string) list" where
  "info_add opt param [] = (1, [(strndup opt, strndup param)])"
| "info_add opt param ((k, v) # info) =
     (if bstrcasecmp opt k = 0 then (0, if bstrcmp param v = 0 then (k, v) # info else (k, strndup param) # info)
      else (case info_add opt param info of (r, info) \<Rightarrow> (r, (k, v) # info)))"

definition demux_info_add_bstr :: "'p demuxer \<Rightarrow> bstr \<Rightarrow> bstr \<Rightarrow> int \<times> 'p demuxer" where
  "demux_info_add_bstr d opt param = (case info_add opt param (dm_info d) of (r, info) \<Rightarrow> (r, d\<lparr>dm_info := info\<rparr>))"

definition demux_info_get :: "'p demuxer \<Rightarrow> string \<Rightarrow> string option" where
  "demux_info_get d opt = map_option snd (find (\<lambda>(k, _). c_strcaseeq opt k) (dm_info d))"

subsection \<open>Attachments and chapters\<close>

definition demuxer_add_attachment :: "'p demuxer \<Rightarrow> bstr \<Rightarrow> bstr \<Rightarrow> bstr \<Rightarrow> int \<times> 'p demuxer" where
  "demuxer_add_attachment d name type data =
     (int (length (dm_attachments d)),
      d\<lparr>dm_attachments := dm_attachments d @ [\<lparr>at_name = strndup name, at_type = strndup type, at_data = data\<rparr>]\<rparr>)"

definition demuxer_add_chapter :: "'p demuxer \<Rightarrow> bstr \<Rightarrow> 64 word \<Rightarrow> 64 word \<Rightarrow> int \<times> 'p demuxer" where
  "demuxer_add_chapter d name start stop =
     (int (length (dm_chapters d)),
      d\<lparr>dm_chapters := dm_chapters d @
          [\<lparr>ch_start = start, ch_end = stop, ch_name = (if name = [] then ''unknown'' else strndup name)\<rparr>]\<rparr>)"

text \<open>
  The control functions: \<open>sctl\<close> is \<open>stream_control\<close> of the demuxer's stream (a number in,
  the result, the number out), \<open>dctl\<close> is \<open>demuxer->desc->control\<close>. The times in seconds are
  computed by \<open>secs\<close>.
\<close>

abbreviation (input) STREAM_UNSUPPORTED :: int where "STREAM_UNSUPPORTED \<equiv> -1"
abbreviation (input) STREAM_CTRL_SEEK_TO_CHAPTER :: int where "STREAM_CTRL_SEEK_TO_CHAPTER \<equiv> 2"
abbreviation (input) STREAM_CTRL_GET_CURRENT_CHAPTER :: int where "STREAM_CTRL_GET_CURRENT_CHAPTER \<equiv> 3"
abbreviation (input) STREAM_CTRL_GET_NUM_CHAPTERS :: int where "STREAM_CTRL_GET_NUM_CHAPTERS \<equiv> 4"
abbreviation (input) STREAM_CTRL_GET_NUM_ANGLES :: int where "STREAM_CTRL_GET_NUM_ANGLES \<equiv> 9"
abbreviation (input) STREAM_CTRL_GET_ANGLE :: int where "STREAM_CTRL_GET_ANGLE \<equiv> 10"
abbreviation (input) STREAM_CTRL_SET_ANGLE :: int where "STREAM_CTRL_SET_ANGLE \<equiv> 11"
abbreviation (input) DEMUXER_CTRL_NOTIMPL :: int where "DEMUXER_CTRL_NOTIMPL \<equiv> -1"
abbreviation (input) DEMUXER_CTRL_SWITCH_AUDIO :: int where "DEMUXER_CTRL_SWITCH_AUDIO \<equiv> 12"
abbreviation (input) DEMUXER_CTRL_RESYNC :: int where "DEMUXER_CTRL_RESYNC \<equiv> 13"
abbreviation (input) DEMUXER_CTRL_SWITCH_VIDEO :: int where "DEMUXER_CTRL_SWITCH_VIDEO \<equiv> 14"

type_synonym 'p control = "'p demuxer \<Rightarrow> int \<Rightarrow> int \<Rightarrow> (int \<times> int) \<times> 'p demuxer"

definition demux_control :: "'p control option \<Rightarrow> 'p control" where
  "demux_control dctl d cmd arg = (case dctl of Some f \<Rightarrow> f d cmd arg | None \<Rightarrow> ((DEMUXER_CTRL_NOTIMPL, arg), d))"

definition demuxer_seek_chapter :: "'p control \<Rightarrow> 'p control option \<Rightarrow> (64 word \<Rightarrow> double) \<Rightarrow> 'p demuxer \<Rightarrow> int \<Rightarrow> (int \<times> double option) \<times> 'p demuxer" where
  "demuxer_seek_chapter sctl dctl secs d chapter =
     (if dm_chapters d = []
      then
        (let d = demux_flush d;
             ((ris, chapter), d) = sctl d STREAM_CTRL_SEEK_TO_CHAPTER chapter;
             d = (if ris \<noteq> STREAM_UNSUPPORTED then snd (demux_control dctl d DEMUXER_CTRL_RESYNC 0) else d)
         in ((if ris \<noteq> STREAM_UNSUPPORTED then chapter else -1, Some MINUS_ONE), d))
      else if int (length (dm_chapters d)) \<le> chapter then ((-1, None), d)
      else
        (let chapter = (if chapter < 0 then 0 else chapter)
         in ((chapter, Some (secs (ch_start (dm_chapters d ! nat chapter)))), d)))"

text \<open>\<open>now\<close> is \<open>time_now\<close> in nanoseconds, as the code converts it.\<close>

fun chapter_search :: "64 word \<Rightarrow> demux_chapter list \<Rightarrow> nat \<Rightarrow> int" where
  "chapter_search now cs 0 = -1"
| "chapter_search now cs (Suc n) = (if ch_start (cs ! n) \<le> now then int n else chapter_search now cs n)"

definition demuxer_get_current_chapter :: "'p control \<Rightarrow> 'p demuxer \<Rightarrow> 64 word \<Rightarrow> int \<times> 'p demuxer" where
  "demuxer_get_current_chapter sctl d now =
     (if dm_chapters d = []
      then (let ((r, chapter), d) = sctl d STREAM_CTRL_GET_CURRENT_CHAPTER (-2) in (if r = STREAM_UNSUPPORTED then -2 else chapter, d))
      else (chapter_search now (dm_chapters d) (length (dm_chapters d)), d))"

definition demuxer_chapter_name :: "'p demuxer \<Rightarrow> int \<Rightarrow> string option" where
  "demuxer_chapter_name d chapter =
     (if 0 \<le> chapter \<and> chapter < int (length (dm_chapters d)) then Some (ch_name (dm_chapters d ! nat chapter)) else None)"

definition demuxer_chapter_count :: "'p control \<Rightarrow> 'p demuxer \<Rightarrow> int \<times> 'p demuxer" where
  "demuxer_chapter_count sctl d =
     (if dm_chapters d = []
      then (let ((r, n), d) = sctl d STREAM_CTRL_GET_NUM_CHAPTERS 0 in (if r = STREAM_UNSUPPORTED then 0 else n, d))
      else (int (length (dm_chapters d)), d))"

definition demuxer_angles_count :: "'p control \<Rightarrow> 'p demuxer \<Rightarrow> int \<times> 'p demuxer" where
  "demuxer_angles_count sctl d =
     (let ((ris, angles), d) = sctl d STREAM_CTRL_GET_NUM_ANGLES (-1) in (if ris = STREAM_UNSUPPORTED then -1 else angles, d))"

definition demuxer_get_current_angle :: "'p control \<Rightarrow> 'p demuxer \<Rightarrow> int \<times> 'p demuxer" where
  "demuxer_get_current_angle sctl d =
     (let ((ris, a), d) = sctl d STREAM_CTRL_GET_ANGLE (-1) in (if ris = STREAM_UNSUPPORTED then -1 else a, d))"

definition demuxer_set_angle :: "'p control \<Rightarrow> 'p control option \<Rightarrow> 'p demuxer \<Rightarrow> int \<Rightarrow> int \<times> 'p demuxer" where
  "demuxer_set_angle sctl dctl d angle =
     (let (angles, d) = demuxer_angles_count sctl d
      in if angles < 1 \<or> angles < angle then (-1, d)
         else
           (let d = demux_flush d;
                ((ris, angle), d) = sctl d STREAM_CTRL_SET_ANGLE angle
            in if ris = STREAM_UNSUPPORTED then (-1, d)
               else (angle, snd (demux_control dctl d DEMUXER_CTRL_RESYNC 0))))"

subsection \<open>Switching tracks\<close>

definition demuxer_switch_audio :: "'p control option \<Rightarrow> 'p demuxer \<Rightarrow> int \<Rightarrow> (int \<times> 'p demuxer) option" where
  "demuxer_switch_audio dctl d index =
     (let ((res, index), d) = demux_control dctl d DEMUXER_CTRL_SWITCH_AUDIO index
      in if res = DEMUXER_CTRL_NOTIMPL
         then (case ds_sh (dm_audio d) of
                 Some n \<Rightarrow> do { sh \<leftarrow> dm_a_streams d n; Some (sa_aid sh, d) }
               | None \<Rightarrow> Some (-2, d))
         else if 0 \<le> ds_id (dm_audio d)
         then do {
           sh \<leftarrow> dm_a_streams d (nat (ds_id (dm_audio d)));
           Some (sa_aid sh, d\<lparr>dm_audio := (dm_audio d)\<lparr>ds_sh := Some (nat (ds_id (dm_audio d)))\<rparr>\<rparr>) }
         else Some (index, d\<lparr>dm_audio := (dm_audio d)\<lparr>ds_sh := None\<rparr>\<rparr>))"

definition demuxer_switch_video :: "'p control option \<Rightarrow> 'p demuxer \<Rightarrow> int \<Rightarrow> (int \<times> 'p demuxer) option" where
  "demuxer_switch_video dctl d index =
     (let ((res, index), d) = demux_control dctl d DEMUXER_CTRL_SWITCH_VIDEO index
      in if res = DEMUXER_CTRL_NOTIMPL
         then (case ds_sh (dm_video d) of
                 Some n \<Rightarrow> do { sh \<leftarrow> dm_v_streams d n; Some (sv_vid sh, d) }
               | None \<Rightarrow> Some (-2, d))
         else if 0 \<le> ds_id (dm_video d)
         then do {
           sh \<leftarrow> dm_v_streams d (nat (ds_id (dm_video d)));
           Some (sv_vid sh, d\<lparr>dm_video := (dm_video d)\<lparr>ds_sh := Some (nat (ds_id (dm_video d)))\<rparr>\<rparr>) }
         else Some (index, d\<lparr>dm_video := (dm_video d)\<lparr>ds_sh := None\<rparr>\<rparr>))"

subsection \<open>Finding the demuxer\<close>

abbreviation (input) DEMUXER_TYPE_UNKNOWN :: int where "DEMUXER_TYPE_UNKNOWN \<equiv> 0"
abbreviation (input) DEMUXER_TYPE_MPEG_PS :: int where "DEMUXER_TYPE_MPEG_PS \<equiv> 2"
abbreviation (input) DEMUXER_TYPE_AVI :: int where "DEMUXER_TYPE_AVI \<equiv> 3"
abbreviation (input) DEMUXER_TYPE_ASF :: int where "DEMUXER_TYPE_ASF \<equiv> 6"
abbreviation (input) DEMUXER_TYPE_VIVO :: int where "DEMUXER_TYPE_VIVO \<equiv> 8"
abbreviation (input) DEMUXER_TYPE_REAL :: int where "DEMUXER_TYPE_REAL \<equiv> 11"
abbreviation (input) DEMUXER_TYPE_Y4M :: int where "DEMUXER_TYPE_Y4M \<equiv> 12"
abbreviation (input) DEMUXER_TYPE_AUDIO :: int where "DEMUXER_TYPE_AUDIO \<equiv> 16"
abbreviation (input) DEMUXER_TYPE_OGG :: int where "DEMUXER_TYPE_OGG \<equiv> 17"
abbreviation (input) DEMUXER_TYPE_XMMS :: int where "DEMUXER_TYPE_XMMS \<equiv> 22"
abbreviation (input) DEMUXER_TYPE_H264_ES :: int where "DEMUXER_TYPE_H264_ES \<equiv> 27"
abbreviation (input) DEMUXER_TYPE_LAVF :: int where "DEMUXER_TYPE_LAVF \<equiv> 32"
abbreviation (input) DEMUXER_TYPE_NSV :: int where "DEMUXER_TYPE_NSV \<equiv> 33"
abbreviation (input) DEMUXER_TYPE_MPC :: int where "DEMUXER_TYPE_MPC \<equiv> 37"
abbreviation (input) DEMUXER_TYPE_RAWAUDIO :: int where "DEMUXER_TYPE_RAWAUDIO \<equiv> 18"
abbreviation (input) DEMUXER_TYPE_RAWVIDEO :: int where "DEMUXER_TYPE_RAWVIDEO \<equiv> 23"
abbreviation (input) DEMUXER_TYPE_END :: int where "DEMUXER_TYPE_END \<equiv> 44"
abbreviation (input) DEMUXER_TYPE_PLAYLIST :: int where "DEMUXER_TYPE_PLAYLIST \<equiv> 46"

definition extensions_table :: "(string \<times> int) list" where
  "extensions_table =
    [(''vob'', DEMUXER_TYPE_MPEG_PS), (''m2v'', DEMUXER_TYPE_MPEG_PS), (''avi'', DEMUXER_TYPE_AVI),
     (''asx'', DEMUXER_TYPE_ASF), (''asf'', DEMUXER_TYPE_ASF), (''wmv'', DEMUXER_TYPE_ASF),
     (''wma'', DEMUXER_TYPE_ASF), (''viv'', DEMUXER_TYPE_VIVO), (''vivo'', DEMUXER_TYPE_VIVO),
     (''rm'', DEMUXER_TYPE_REAL), (''rmvb'', DEMUXER_TYPE_REAL), (''ra'', DEMUXER_TYPE_REAL),
     (''y4m'', DEMUXER_TYPE_Y4M), (''mp3'', DEMUXER_TYPE_AUDIO), (''wav'', DEMUXER_TYPE_AUDIO),
     (''flac'', DEMUXER_TYPE_AUDIO), (''fla'', DEMUXER_TYPE_AUDIO), (''ogg'', DEMUXER_TYPE_OGG),
     (''ogm'', DEMUXER_TYPE_OGG), (''xm'', DEMUXER_TYPE_XMMS), (''mod'', DEMUXER_TYPE_XMMS),
     (''s3m'', DEMUXER_TYPE_XMMS), (''it'', DEMUXER_TYPE_XMMS), (''mid'', DEMUXER_TYPE_XMMS),
     (''midi'', DEMUXER_TYPE_XMMS), (''nsv'', DEMUXER_TYPE_NSV), (''nsa'', DEMUXER_TYPE_NSV),
     (''mpc'', DEMUXER_TYPE_MPC), (''302'', DEMUXER_TYPE_LAVF), (''264'', DEMUXER_TYPE_H264_ES),
     (''26l'', DEMUXER_TYPE_H264_ES), (''ac3'', DEMUXER_TYPE_LAVF), (''ape'', DEMUXER_TYPE_LAVF),
     (''apl'', DEMUXER_TYPE_LAVF), (''eac3'', DEMUXER_TYPE_LAVF), (''mac'', DEMUXER_TYPE_LAVF),
     (''str'', DEMUXER_TYPE_LAVF), (''cdg'', DEMUXER_TYPE_LAVF)]"

text \<open>The part after the last dot (\<open>strrchr\<close>).\<close>

definition file_extension :: "string \<Rightarrow> string option" where
  "file_extension name =
     (if CHR ''.'' \<in> set name then Some (rev (takeWhile (\<lambda>c. c \<noteq> CHR ''.'') (rev name))) else None)"

definition demuxer_type_by_filename :: "string \<Rightarrow> int" where
  "demuxer_type_by_filename name =
     (case file_extension name of
        None \<Rightarrow> DEMUXER_TYPE_UNKNOWN
      | Some e \<Rightarrow>
          (case find (\<lambda>(x, _). c_strcaseeq e x) extensions_table of Some (_, t) \<Rightarrow> t | None \<Rightarrow> DEMUXER_TYPE_UNKNOWN))"

text \<open>
  A demuxer of the list. Its private data are of type \<open>'q\<close>, with a value for a null pointer;
  \<open>dd_open\<close> returns the demuxer, or nothing and the stream as it left it.
\<close>

type_synonym ('d, 'q) sdemuxer = "('d cstream \<times> 'q) demuxer"

record ('d, 'q) demuxer_desc =
  dd_name :: string
  dd_type :: int
  dd_safe_check :: bool
  dd_check_file :: "(('d, 'q) sdemuxer \<Rightarrow> int \<times> ('d, 'q) sdemuxer) option"
  dd_open :: "(('d, 'q) sdemuxer \<Rightarrow> ('d, 'q) sdemuxer option \<times> 'd cstream) option"

abbreviation dm_stream :: "('d, 'q) sdemuxer \<Rightarrow> 'd cstream" where
  "dm_stream d \<equiv> fst (dm_priv d)"

definition get_demuxer_desc_from_type :: "('d, 'q) demuxer_desc list \<Rightarrow> int \<Rightarrow> ('d, 'q) demuxer_desc option" where
  "get_demuxer_desc_from_type descs file_format = find (\<lambda>x. file_format = dd_type x) descs"

text \<open>The type of a demuxer name, -1 if there is none, and whether it is forced.\<close>

definition get_demuxer_type_from_name :: "('d, 'q) demuxer_desc list \<Rightarrow> string option \<Rightarrow> int \<times> bool" where
  "get_demuxer_type_from_name descs name =
     (case name of
        None \<Rightarrow> (DEMUXER_TYPE_UNKNOWN, False)
      | Some [] \<Rightarrow> (DEMUXER_TYPE_UNKNOWN, False)
      | Some (c # s) \<Rightarrow>
          (let force = (c = CHR ''+''); name = (if force then s else c # s)
           in (case find (\<lambda>x. dd_type x < DEMUXER_TYPE_END \<and> name = dd_name x) descs of Some x \<Rightarrow> dd_type x | None \<Rightarrow> -1, force)))"

definition new_demuxer :: "'d driver \<Rightarrow> 'q \<Rightarrow> 'd cstream \<Rightarrow> int \<Rightarrow> int \<Rightarrow> int \<Rightarrow> int \<Rightarrow> ('d, 'q) sdemuxer option" where
  "new_demuxer drv null st type a_id v_id s_id =
     do {
       (_, st') \<leftarrow> stream_seek drv st (s_start_pos (st_of st));
       Some \<lparr>dm_stream_pts = MP_NOPTS_VALUE, dm_movi_start = s_start_pos (st_of st), dm_movi_end = s_end_pos (st_of st),
             dm_type = type, dm_file_format = 0, dm_seekable = True, dm_audio = new_demuxer_stream a_id,
             dm_video = new_demuxer_stream v_id, dm_sub = new_demuxer_stream s_id, dm_a_streams = Map.empty,
             dm_v_streams = Map.empty, dm_s_streams = Map.empty, dm_chapters = [], dm_attachments = [], dm_info = [],
             dm_priv = (st', null)\<rparr> }"

text \<open>
  Opening with one demuxer; a check can send it to the demuxer of another type. The result is
  the demuxer, if there is one, and the stream for the next attempt.
\<close>

partial_function (option) open_given_type ::
  "'d driver \<Rightarrow> 'q \<Rightarrow> ('d, 'q) demuxer_desc list \<Rightarrow> int \<times> int \<times> int \<Rightarrow> ('d, 'q) demuxer_desc \<Rightarrow> bool \<Rightarrow> 'd cstream \<Rightarrow>
   (('d, 'q) sdemuxer option \<times> 'd cstream) option"
where
  "open_given_type drv null descs ids desc force st =
     do {
       d \<leftarrow> new_demuxer drv null st (dd_type desc) (fst ids) (fst (snd ids)) (snd (snd ids));
       let (fformat, d) = (case dd_check_file desc of Some f \<Rightarrow> f d | None \<Rightarrow> (dd_type desc, d));
       let fformat = (if force then dd_type desc else fformat);
       if fformat = 0 then Some (None, dm_stream d)
       else if fformat = dd_type desc
       then do {
         own \<leftarrow> get_demuxer_desc_from_type descs (dd_type desc);
         (case dd_open own of
            None \<Rightarrow> Some (Some (d\<lparr>dm_file_format := fformat\<rparr>), dm_stream d)
          | Some f \<Rightarrow>
              (case f d of
                 (None, st) \<Rightarrow> Some (None, st)
               | (Some d2, _) \<Rightarrow> Some (Some (d2\<lparr>dm_file_format := fformat\<rparr>), dm_stream d2))) }
       else if fformat = DEMUXER_TYPE_PLAYLIST then Some (Some d, dm_stream d)
       else
         (case get_demuxer_desc_from_type descs fformat of
            None \<Rightarrow> Some (None, dm_stream d)
          | Some other \<Rightarrow> open_given_type drv null descs ids other False (dm_stream d)) }"

declare open_given_type.simps [code]

text \<open>The loops over the list: the first demuxer that opens the file.\<close>

fun try_demuxers ::
  "'d driver \<Rightarrow> 'q \<Rightarrow> ('d, 'q) demuxer_desc list \<Rightarrow> int \<times> int \<times> int \<Rightarrow> ('d, 'q) demuxer_desc list \<Rightarrow> 'd cstream \<Rightarrow>
   (('d, 'q) sdemuxer option \<times> 'd cstream) option"
where
  "try_demuxers drv null descs ids [] st = Some (None, st)"
| "try_demuxers drv null descs ids (x # xs) st =
     do {
       (r, st) \<leftarrow> open_given_type drv null descs ids x False st;
       if r \<noteq> None then Some (r, st) else try_demuxers drv null descs ids xs st }"

definition demux_open_stream ::
  "'d driver \<Rightarrow> 'q \<Rightarrow> ('d, 'q) demuxer_desc list \<Rightarrow> int \<times> int \<times> int \<Rightarrow> bool \<Rightarrow> string option \<Rightarrow> int \<Rightarrow> bool \<Rightarrow> 'd cstream \<Rightarrow>
   (('d, 'q) sdemuxer option \<times> 'd cstream) option"
where
  "demux_open_stream drv null descs ids extension_parsing filename file_format force st =
     (if file_format \<noteq> 0
      then (case get_demuxer_desc_from_type descs file_format of
              None \<Rightarrow> Some (None, st)
            | Some desc \<Rightarrow> open_given_type drv null descs ids desc force st)
      else do {
        (r, st) \<leftarrow> try_demuxers drv null descs ids (filter dd_safe_check descs) st;
        if r \<noteq> None then Some (r, st)
        else do {
          (r, st) \<leftarrow>
            (case filename of
               Some name \<Rightarrow>
                 (if extension_parsing
                  then (case get_demuxer_desc_from_type descs (demuxer_type_by_filename name) of
                          Some desc \<Rightarrow> open_given_type drv null descs ids desc False st
                        | None \<Rightarrow> Some (None, st))
                  else Some (None, st))
             | None \<Rightarrow> Some (None, st));
          if r \<noteq> None then Some (r, st)
          else try_demuxers drv null descs ids (filter (\<lambda>x. \<not> dd_safe_check x \<and> dd_check_file x \<noteq> None) descs) st } })"

subsection \<open>The chosen track\<close>

text \<open>The loop over a table, by the indices of its entries.\<close>

definition fits_at :: "('h \<Rightarrow> string option) \<Rightarrow> string option \<Rightarrow> (nat \<rightharpoonup> 'h) \<Rightarrow> nat \<Rightarrow> bool" where
  "fits_at tlang lang m i \<longleftrightarrow> (\<exists>h. m i = Some h \<and> lang_fits lang (tlang h))"

definition default_at :: "('h \<Rightarrow> bool) \<Rightarrow> (nat \<rightharpoonup> 'h) \<Rightarrow> nat \<Rightarrow> bool" where
  "default_at dfl m i \<longleftrightarrow> (\<exists>h. m i = Some h \<and> dfl h)"

lemma track_loop_find:
  assumes "\<And>i h. m i = Some h \<Longrightarrow> 0 \<le> tid h"
  shows "track_loop tid tlang dfl lang (map m is) k =
     (case find (\<lambda>i. fits_at tlang lang m i \<and> default_at dfl m i) is of
        Some j \<Rightarrow> Default (tid (the (m j)))
      | None \<Rightarrow> Fitting (if k < 0 then (case find (fits_at tlang lang m) is of Some j \<Rightarrow> tid (the (m j)) | None \<Rightarrow> k) else k))"
proof (induction "is" arbitrary: k)
  case (Cons i "is")
  show ?case
  proof (cases "m i")
    case (Some h)
    then show ?thesis using Cons assms [OF Some] by (auto simp: fits_at_def default_at_def split: option.split)
  next
    case None
    then have "\<not> fits_at tlang lang m i" by (simp add: fits_at_def)
    then have "find (fits_at tlang lang m) (i # is) = find (fits_at tlang lang m) is"
      "find (\<lambda>i. fits_at tlang lang m i \<and> default_at dfl m i) (i # is) = find (\<lambda>i. fits_at tlang lang m i \<and> default_at dfl m i) is"
      by simp_all
    then show ?thesis using Cons None by (simp del: find.simps split: option.split)
  qed
qed simp

lemma find_first: "i < n \<Longrightarrow> P i \<Longrightarrow> (\<And>j. j < i \<Longrightarrow> \<not> P j) \<Longrightarrow> find P [0..<n] = Some i"
  by (auto simp: find_Some_iff intro!: exI [of _ i])

lemma find_nothing: "(\<And>j. j < n \<Longrightarrow> \<not> P j) \<Longrightarrow> find P [0..<n] = None"
  by (simp add: find_None_iff)

text \<open>
  The order in which the header says tracks are preferred: the place of their language in
  the list, default tracks, the number.
\<close>

definition track_key :: "string list \<Rightarrow> string option \<Rightarrow> bool \<Rightarrow> nat \<Rightarrow> nat \<times> nat \<times> nat" where
  "track_key ls l dfl i = (first_index (\<lambda>x. lang_fits (Some x) l) ls, if dfl then 0 else 1, i)"

definition best_track :: "('h \<Rightarrow> string option) \<Rightarrow> ('h \<Rightarrow> bool) \<Rightarrow> nat \<Rightarrow> (nat \<rightharpoonup> 'h) \<Rightarrow> string list \<Rightarrow> nat \<Rightarrow> 'h \<Rightarrow> bool" where
  "best_track tlang dfl n m ls i h \<longleftrightarrow>
     i < n \<and> m i = Some h \<and>
     (\<forall>j<n. \<forall>g. m j = Some g \<longrightarrow> track_key ls (tlang h) (dfl h) i \<le> track_key ls (tlang g) (dfl g) j)"

lemma first_index_Nil: "first_index P [] = 0" and first_index_Cons: "first_index P (x # xs) = (if P x then 0 else Suc (first_index P xs))"
  by (simp_all add: first_index_def)

text \<open>If the best track fits the language the loop looks for, the loop finds it.\<close>

lemma track_loop_best:
  assumes ids: "\<And>i h. m i = Some h \<Longrightarrow> 0 \<le> tid h" and best: "best_track tlang dfl n m ls i h"
    and ls: "lang = (case ls of [] \<Rightarrow> None | l # _ \<Rightarrow> Some l)" and fit: "lang_fits lang (tlang h)"
  shows "track_loop tid tlang dfl lang (table n m) (-1) = (if dfl h then Default (tid h) else Fitting (tid h))"
proof -
  have i: "i < n" "m i = Some h" using best by (auto simp: best_track_def)
  have same: "track_key ls (tlang g) (dfl g) j = (0, if dfl g then 0 else 1, j)" if "lang_fits lang (tlang g)" for g j
    using ls that by (cases ls) (simp_all add: track_key_def first_index_Nil first_index_Cons)
  have le: "dfl h \<and> \<not> dfl g \<or> dfl h = dfl g \<and> i \<le> j" if "j < n" "m j = Some g" "lang_fits lang (tlang g)" for j g
    using best same [OF fit, of i] same [OF that(3), of j] that by (auto simp: best_track_def split: if_splits)
  have no: "\<not> (fits_at tlang lang m j \<and> (dfl h \<longrightarrow> default_at dfl m j))" if "j < i" for j
  proof
    assume "fits_at tlang lang m j \<and> (dfl h \<longrightarrow> default_at dfl m j)"
    then obtain g where "m j = Some g" "lang_fits lang (tlang g)" "dfl h \<longrightarrow> dfl g" by (auto simp: fits_at_def default_at_def)
    then show False using le [of j g] that i(1) by auto
  qed
  have fi: "fits_at tlang lang m i" using i fit by (simp add: fits_at_def)
  show ?thesis
  proof (cases "dfl h")
    case True
    have "find (\<lambda>i. fits_at tlang lang m i \<and> default_at dfl m i) [0..<n] = Some i"
    proof (rule find_first)
      show "fits_at tlang lang m i \<and> default_at dfl m i" using fi i True by (simp add: default_at_def)
      show "\<not> (fits_at tlang lang m j \<and> default_at dfl m j)" if "j < i" for j using no [OF that] True by blast
    qed (rule i)
    then show ?thesis using True i by (simp add: table_def track_loop_find [OF ids])
  next
    case False
    have "find (\<lambda>i. fits_at tlang lang m i \<and> default_at dfl m i) [0..<n] = None"
      using False le by (intro find_nothing) (force simp: fits_at_def default_at_def)
    moreover have "find (fits_at tlang lang m) [0..<n] = Some i"
      using i fi False no by (intro find_first) simp_all
    ultimately show ?thesis using False i by (simp add: table_def track_loop_find [OF ids])
  qed
qed

text \<open>If it does not, no track does.\<close>

lemma track_loop_none:
  assumes ids: "\<And>i h. m i = Some h \<Longrightarrow> 0 \<le> tid h" and best: "best_track tlang dfl n m (l # ls) i h"
    and fit: "\<not> lang_fits (Some l) (tlang h)"
  shows "track_loop tid tlang dfl (Some l) (table n m) (-1) = Fitting (-1)" "best_track tlang dfl n m ls i h"
proof -
  have no: "\<not> lang_fits (Some l) (tlang g)" if "j < n" "m j = Some g" for j g
    using best fit that by (force simp: best_track_def track_key_def first_index_Cons)
  then have "find (fits_at tlang (Some l) m) [0..<n] = None" by (intro find_nothing) (auto simp: fits_at_def)
  moreover have "find (\<lambda>i. fits_at tlang (Some l) m i \<and> default_at dfl m i) [0..<n] = None"
    using no by (intro find_nothing) (auto simp: fits_at_def)
  ultimately show "track_loop tid tlang dfl (Some l) (table n m) (-1) = Fitting (-1)"
    by (simp add: table_def track_loop_find [OF ids])
  show "best_track tlang dfl n m ls i h"
    using best fit no by (auto simp: best_track_def track_key_def first_index_Cons)
qed

lemma audio_loop_best:
  assumes "\<And>i h. dm_a_streams d i = Some h \<Longrightarrow> 0 \<le> sa_aid h"
    and "best_track sa_lang sa_default_track MAX_A_STREAMS (dm_a_streams d) ls i h"
  shows "audio_track_loop d ls = sa_aid h"
  using assms(2)
proof (induction ls)
  case Nil
  have "0 \<le> sa_aid h" using assms(1) Nil by (auto simp: best_track_def)
  then show ?case using track_loop_best [OF assms(1) Nil refl] by (subst audio_track_loop.simps) (simp add: lang_fits_def)
next
  case (Cons l ls)
  have nn: "0 \<le> sa_aid h" using assms(1) Cons.prems by (auto simp: best_track_def)
  show ?case
  proof (cases "lang_fits (Some l) (sa_lang h)")
    case True
    then show ?thesis using nn track_loop_best [OF assms(1) Cons.prems refl] by (subst audio_track_loop.simps) simp
  next
    case False
    note n = track_loop_none [OF assms(1) Cons.prems False]
    then show ?thesis using Cons.IH by (subst audio_track_loop.simps) simp
  qed
qed

lemma sub_loop_best:
  assumes "\<And>i h. dm_s_streams d i = Some h \<Longrightarrow> 0 \<le> ss_sid h"
    and "best_track ss_lang ss_default_track MAX_S_STREAMS (dm_s_streams d) ls i h"
  shows "sub_track_loop d ls =
     (if ss_default_track h \<or> (\<exists>l\<in>set ls. ss_lang h = Some l) then ss_sid h else -1)"
  using assms(2)
proof (induction ls)
  case Nil
  then show ?case using track_loop_best [OF assms(1) Nil refl] by (subst sub_track_loop.simps) (simp add: lang_fits_def)
next
  case (Cons l ls)
  have nn: "0 \<le> ss_sid h" using assms(1) Cons.prems by (auto simp: best_track_def)
  show ?case
  proof (cases "lang_fits (Some l) (ss_lang h)")
    case True
    then have "\<exists>l'\<in>set (l # ls). ss_lang h = Some l'" by (auto simp: lang_fits_def)
    then show ?thesis using True nn track_loop_best [OF assms(1) Cons.prems refl] by (subst sub_track_loop.simps) auto
  next
    case False
    note n = track_loop_none [OF assms(1) Cons.prems False]
    have "ss_lang h \<noteq> Some l" using False by (auto simp: lang_fits_def)
    then show ?thesis using n Cons.IH by (subst sub_track_loop.simps) simp
  qed
qed

lemma best_track_exists:
  fixes m :: "nat \<rightharpoonup> 'h"
  assumes "i < n" and "m i \<noteq> None"
  shows "\<exists>i h. best_track tlang dfl n m ls i h"
proof -
  define key where "key j = track_key ls (tlang (the (m j))) (dfl (the (m j))) j" for j
  let ?S = "{j. j < n \<and> m j \<noteq> None}"
  have "finite (key ` ?S)" "key ` ?S \<noteq> {}" using assms by auto
  then have "Min (key ` ?S) \<in> key ` ?S" by (rule Min_in)
  then obtain k where k: "k < n" "m k \<noteq> None" "Min (key ` ?S) = key k" by auto
  then obtain h where h: "m k = Some h" by auto
  have "key k \<le> key j" if "j < n" "m j = Some g" for j g
    using that unfolding k(3) [symmetric] by (intro Min_le) auto
  then have "best_track tlang dfl n m ls k h" using k h by (auto simp: best_track_def key_def)
  then show ?thesis by blast
qed

text \<open>
  C28: The audio track that is chosen for a list of languages is the best one in the order
  the header documents (language first, then default tracks, then the number), and -1 is the
  answer only if there are no tracks at all.
\<close>

theorem audio_track_choice:
  fixes d :: "'p demuxer" and langt :: "string list option"
  assumes "\<forall>i h. dm_a_streams d i = Some h \<longrightarrow> 0 \<le> sa_aid h"
  defines "r \<equiv> demuxer_audio_track_by_lang_and_default d langt"
  shows "(\<exists>i h. best_track sa_lang sa_default_track 256 (dm_a_streams d) (case langt of None \<Rightarrow> [] | Some ls \<Rightarrow> ls) i h \<and> r = sa_aid h) \<or>
     (\<forall>i<256. dm_a_streams d i = None) \<and> r = -1"
proof -
  define ls where "ls = (case langt of None \<Rightarrow> [] | Some ls \<Rightarrow> ls)"
  have r: "r = audio_track_loop d ls" by (simp add: r_def ls_def demuxer_audio_track_by_lang_and_default_def)
  show ?thesis
  proof (cases "\<forall>i<256. dm_a_streams d i = None")
    case True
    then have "find (fits_at sa_lang lang (dm_a_streams d)) [0..<MAX_A_STREAMS] = None"
      "find (\<lambda>i. fits_at sa_lang lang (dm_a_streams d) i \<and> default_at sa_default_track (dm_a_streams d) i) [0..<MAX_A_STREAMS] = None" for lang
      by (intro find_nothing; simp add: fits_at_def)+
    then have none: "track_loop sa_aid sa_lang sa_default_track lang (table MAX_A_STREAMS (dm_a_streams d)) (-1) = Fitting (-1)" for lang
      using assms(1) by (simp add: table_def track_loop_find)
    have "audio_track_loop d ls = -1"
      by (induction ls) (subst audio_track_loop.simps, simp add: none)+
    then show ?thesis using True r by simp
  next
    case False
    then obtain i h where "best_track sa_lang sa_default_track 256 (dm_a_streams d) ls i h" using best_track_exists by blast
    then show ?thesis using audio_loop_best [of d ls i h] assms(1) r unfolding ls_def by auto
  qed
qed

text \<open>A demuxer with three tracks.\<close>

definition ex_header :: "int \<Rightarrow> string \<Rightarrow> bool \<Rightarrow> sh_audio" where
  "ex_header i l def =
     \<lparr>sa_aid = i, sa_lang = Some l, sa_default_track = def, sa_format = 0, sa_samplesize = 2, sa_channels = 2, sa_samplerate = 0, sa_avg_bytes = 0\<rparr>"

definition ex_demuxer :: "unit demuxer" where
  "ex_demuxer =
     \<lparr>dm_stream_pts = MP_NOPTS_VALUE, dm_movi_start = 0, dm_movi_end = 0, dm_type = 0, dm_file_format = 0, dm_seekable = True,
      dm_audio = new_demuxer_stream (-1), dm_video = new_demuxer_stream (-1), dm_sub = new_demuxer_stream (-1),
      dm_a_streams = [0 \<mapsto> ex_header 5 ''eng'' True, 1 \<mapsto> ex_header 6 ''ger'' False, 3 \<mapsto> ex_header 7 ''ger'' True],
      dm_v_streams = Map.empty, dm_s_streams = Map.empty, dm_chapters = [], dm_attachments = [], dm_info = [], dm_priv = ()\<rparr>"

theorem audio_track_choice_witness:
  "(\<exists>i h. best_track sa_lang sa_default_track 256 (dm_a_streams ex_demuxer) [''fre'', ''ger''] i h \<and>
      demuxer_audio_track_by_lang_and_default ex_demuxer (Some [''fre'', ''ger'']) = sa_aid h) \<or>
   (\<forall>i<256. dm_a_streams ex_demuxer i = None) \<and> demuxer_audio_track_by_lang_and_default ex_demuxer (Some [''fre'', ''ger'']) = -1"
  using audio_track_choice [of ex_demuxer "Some [''fre'', ''ger'']"] by (simp add: ex_demuxer_def ex_header_def)

end
