(* ===== verification/Stream_Spec.thy ===== *)
theory Stream_Spec
  imports Stream
begin

text \<open>
  The reading functions over any source of bytes (locales \<open>byte_source\<close> and
  \<open>live_source\<close>): they do what a file with a position does. Streams with a driver that
  keeps its promises (locale \<open>source\<close>) are such sources, without and with a cache.
\<close>

subsection \<open>A source of bytes\<close>

text \<open>
  What the functions rely on: the buffer shows the content at the position of the stream;
  filling and seeking, when they return, keep that.
\<close>

lemma take_drop_take: "k \<le> m - j \<Longrightarrow> take k (drop j (take m xs)) = take k (drop j xs)"
  by (simp add: drop_take min_def)

locale byte_source =
  fixes drv :: "'d driver" and content :: string and inv :: "'d cstream \<Rightarrow> bool"
  assumes view: "inv s \<Longrightarrow> view_ok content (st_of s)"
    and move: "inv s \<Longrightarrow> 0 \<le> k \<Longrightarrow> k \<le> s_buf_len (st_of s) \<Longrightarrow> inv (s\<lparr>cs_stream := (st_of s)\<lparr>s_buf_pos := k, s_eof := e\<rparr>\<rparr>)"
    and fill: "inv s \<Longrightarrow> s_buf_pos (st_of s) = s_buf_len (st_of s) \<Longrightarrow> cache_stream_fill_buffer drv s = Some (n, s') \<Longrightarrow>
      inv s' \<and> stream_tell (st_of s') = stream_tell (st_of s) \<and> n = s_buf_len (st_of s') - s_buf_pos (st_of s') \<and>
      (n = 0 \<longleftrightarrow> int (length content) \<le> stream_tell (st_of s)) \<and> s_eof (st_of s') = (n = 0)"
    and seek: "inv s \<Longrightarrow> 0 \<le> p \<Longrightarrow> p \<le> int (length content) \<Longrightarrow> cache_stream_seek_long drv s p = Some (r, s') \<Longrightarrow>
      r = 1 \<and> inv s' \<and> stream_tell (st_of s') = p"
begin

abbreviation pos :: "'d cstream \<Rightarrow> int" where "pos s \<equiv> stream_tell (st_of s)"

lemma move_pos:
  assumes "inv s" and "0 \<le> k" and "k \<le> s_buf_len (st_of s) - s_buf_pos (st_of s)"
  shows "inv (set_buf_pos (s_buf_pos (st_of s) + k) s)" "pos (set_buf_pos (s_buf_pos (st_of s) + k) s) = pos s + k"
proof -
  have "0 \<le> s_buf_pos (st_of s) + k" "s_buf_pos (st_of s) + k \<le> s_buf_len (st_of s)"
    using view [OF assms(1)] assms by (simp_all add: view_ok_def)
  from move [OF assms(1) this, of "s_eof (st_of s)"] show "inv (set_buf_pos (s_buf_pos (st_of s) + k) s)"
    by (simp add: set_buf_pos_def)
  show "pos (set_buf_pos (s_buf_pos (st_of s) + k) s) = pos s + k" by (simp add: set_buf_pos_def stream_tell_def)
qed

lemma inv_nonneg: "inv s \<Longrightarrow> 0 \<le> pos s"
  using view [of s] by (simp add: view_ok_def stream_tell_def)

text \<open>Taking bytes from the buffer.\<close>

lemma buffer_bytes:
  assumes "inv s" and "0 \<le> k" and "k \<le> s_buf_len (st_of s) - s_buf_pos (st_of s)"
  shows "get_bytes (s_buf_pos (st_of s)) k (s_buffer (st_of s)) = Some (take (nat k) (drop (nat (pos s)) content))"
    "nat (pos s) + nat k \<le> length content \<or> k = 0"
proof -
  let ?t = "st_of s"
  note v = view [OF assms(1), unfolded view_ok_def]
  have k: "nat k \<le> nat (s_buf_len ?t) - nat (s_buf_pos ?t)" using v assms(2,3) by linarith
  have "take (nat k) (drop (nat (s_buf_pos ?t)) (s_buffer ?t)) =
      take (nat k) (drop (nat (s_buf_pos ?t)) (take (nat (s_buf_len ?t)) (s_buffer ?t)))"
    by (rule take_drop_take [OF k, symmetric])
  also have "\<dots> = take (nat k) (drop (nat (s_buf_pos ?t)) (take (nat (s_buf_len ?t)) (drop (nat (s_pos ?t - s_buf_len ?t)) content)))"
    using v by simp
  also have "\<dots> = take (nat k) (drop (nat (s_buf_pos ?t) + nat (s_pos ?t - s_buf_len ?t)) content)"
    unfolding take_drop_take [OF k] by simp
  also have "nat (s_buf_pos ?t) + nat (s_pos ?t - s_buf_len ?t) = nat (pos s)"
    using v unfolding stream_tell_def by linarith
  finally have e: "take (nat k) (drop (nat (s_buf_pos ?t)) (s_buffer ?t)) = take (nat k) (drop (nat (pos s)) content)" .
  have "s_buf_pos ?t + k \<le> int (length (s_buffer ?t))" "0 \<le> s_buf_pos ?t" using v assms(2,3) by linarith+
  then show "get_bytes (s_buf_pos ?t) k (s_buffer ?t) = Some (take (nat k) (drop (nat (pos s)) content))"
    using e assms(2) by (simp add: get_bytes_def)
  show "nat (pos s) + nat k \<le> length content \<or> k = 0" using v assms by (auto simp: stream_tell_def)
qed

text \<open>The buffer with bytes in it, filled if it was used up.\<close>

definition refill :: "'d cstream \<Rightarrow> (int \<times> 'd cstream) option" where
  "refill s = (if s_buf_len (st_of s) - s_buf_pos (st_of s) = 0 then cache_stream_fill_buffer drv s else Some (1, s))"

lemma refill_ok:
  assumes "inv s" and "refill s = Some (r, s')"
  shows "inv s'" "pos s' = pos s" "r = 0 \<longleftrightarrow> s_buf_len (st_of s') - s_buf_pos (st_of s') = 0"
    "0 \<le> s_buf_len (st_of s') - s_buf_pos (st_of s')" "r = 0 \<longleftrightarrow> int (length content) \<le> pos s"
proof -
  have "inv s' \<and> pos s' = pos s \<and> (r = 0 \<longleftrightarrow> s_buf_len (st_of s') - s_buf_pos (st_of s') = 0) \<and> (r = 0 \<longleftrightarrow> int (length content) \<le> pos s)"
  proof (cases "s_buf_len (st_of s) - s_buf_pos (st_of s) = 0")
    case True
    then show ?thesis using fill [OF assms(1), of r s'] assms(2) unfolding refill_def by auto
  next
    case False
    then have "s' = s" "r = 1" using assms(2) by (simp_all add: refill_def)
    moreover have "\<not> int (length content) \<le> pos s" using view [OF assms(1)] False unfolding view_ok_def stream_tell_def by linarith
    ultimately show ?thesis using assms(1) False by simp
  qed
  then show "inv s'" "pos s' = pos s" "r = 0 \<longleftrightarrow> s_buf_len (st_of s') - s_buf_pos (st_of s') = 0" "r = 0 \<longleftrightarrow> int (length content) \<le> pos s"
    by blast+
  show "0 \<le> s_buf_len (st_of s') - s_buf_pos (st_of s')" using view [OF \<open>inv s'\<close>] by (simp add: view_ok_def)
qed

lemma stream_read_unfold:
  "stream_read drv s len =
     (if 0 < len
      then do {
        (r, s) \<leftarrow> refill s;
        if r = 0 then Some ([], s)
        else do {
          let x = min (s_buf_len (st_of s) - s_buf_pos (st_of s)) len;
          bs \<leftarrow> get_bytes (s_buf_pos (st_of s)) x (s_buffer (st_of s));
          (rest, s) \<leftarrow> stream_read drv (set_buf_pos (s_buf_pos (st_of s) + x) s) (len - x);
          Some (bs @ rest, s) } }
      else Some ([], s))"
  unfolding refill_def by (rule stream_read.simps)

lemma read_ok:
  assumes "inv s" and "stream_read drv s len = Some (bs, s')"
  shows "bs = take (nat len) (drop (nat (pos s)) content) \<and> inv s' \<and> pos s' = pos s + int (length bs)"
  using assms
proof (induction "nat len" arbitrary: s len bs rule: less_induct)
  case less
  show ?case
  proof (cases "0 < len")
    case False
    then show ?thesis using less.prems by (subst (asm) stream_read_unfold) auto
  next
    case True
    obtain r s1 where s1: "refill s = Some (r, s1)"
      using less.prems(2) True by (subst (asm) stream_read_unfold) (auto simp: bind_eq_Some_conv)
    note rf = refill_ok [OF less.prems(1) s1]
    show ?thesis
    proof (cases "r = 0")
      case end_of: True
      then show ?thesis using less.prems rf s1 True by (subst (asm) stream_read_unfold) (auto simp: nat_le_iff)
    next
      case False
      define x where "x = min (s_buf_len (st_of s1) - s_buf_pos (st_of s1)) len"
      have x: "0 < x" "x \<le> s_buf_len (st_of s1) - s_buf_pos (st_of s1)" "x \<le> len" using rf(3,4) False True by (auto simp: x_def)
      note bb = buffer_bytes [OF rf(1) less_imp_le [OF x(1)] x(2)] and mv = move_pos [OF rf(1) less_imp_le [OF x(1)] x(2)]
      let ?s2 = "set_buf_pos (s_buf_pos (st_of s1) + x) s1" and ?b = "take (nat x) (drop (nat (pos s1)) content)"
      obtain rest where rest: "stream_read drv ?s2 (len - x) = Some (rest, s')" "bs = ?b @ rest"
        using less.prems(2) True s1 False bb(1)
        by (subst (asm) stream_read_unfold) (auto simp: bind_eq_Some_conv x_def [symmetric])
      have IH: "rest = take (nat (len - x)) (drop (nat (pos ?s2)) content) \<and> inv s' \<and> pos s' = pos ?s2 + int (length rest)"
        by (rule less.hyps [OF _ mv(1) rest(1)]) (use x in simp)
      have lb: "int (length ?b) = x" using bb(2) x(1) by auto
      have "bs = take (nat x + nat (len - x)) (drop (nat (pos s)) content)"
        unfolding rest(2) using IH mv(2) rf(2) take_drop_append [of x "pos s" content "nat (len - x)"] inv_nonneg [OF less.prems(1)] x(1)
        by simp
      moreover have "nat x + nat (len - x) = nat len" using x by simp
      moreover have "pos s' = pos s + int (length bs)" using IH mv(2) rf(2) lb unfolding rest(2) by simp
      ultimately show ?thesis using IH by simp
    qed
  qed
qed

end

context byte_source
begin

lemma read_char_unfold:
  "stream_read_char drv s =
     do { (r, s) \<leftarrow> (if s_buf_pos (st_of s) < s_buf_len (st_of s) then Some (1, s) else cache_stream_fill_buffer drv s);
          if r \<noteq> 0 then next_char s else Some (-256, s) }"
  by (simp add: stream_read_char_def)

lemma read_char_ok:
  assumes "inv s" and "stream_read_char drv s = Some (ch, s')"
  shows "inv s' \<and> (if pos s < int (length content) then ch = int (byte (content ! nat (pos s))) \<and> pos s' = pos s + 1
                   else ch = -256 \<and> pos s' = pos s)"
proof -
  have v: "s_buf_pos (st_of s) \<le> s_buf_len (st_of s)" using view [OF assms(1)] by (simp add: view_ok_def)
  have "(if s_buf_pos (st_of s) < s_buf_len (st_of s) then Some (1, s) else cache_stream_fill_buffer drv s) = refill s"
    using v by (auto simp: refill_def)
  then obtain r s1 where s1: "refill s = Some (r, s1)" "(if r \<noteq> 0 then next_char s1 else Some (-256, s1)) = Some (ch, s')"
    using assms(2) by (auto simp: read_char_unfold bind_eq_Some_conv)
  note rf = refill_ok [OF assms(1) s1(1)]
  show ?thesis
  proof (cases "r = 0")
    case True
    then show ?thesis using s1(2) rf by auto
  next
    case False
    have one: "(0::int) \<le> 1" "1 \<le> s_buf_len (st_of s1) - s_buf_pos (st_of s1)" using rf(3,4) False by auto
    note bb = buffer_bytes [OF rf(1) one] and mv = move_pos [OF rf(1) one]
    have "nat (pos s1) < length content" using bb(2) by simp
    then have "take (nat 1) (drop (nat (pos s1)) content) = [content ! nat (pos s1)]"
      by (simp add: Cons_nth_drop_Suc [symmetric])
    then have "next_char s1 = Some (int (byte (content ! nat (pos s1))), set_buf_pos (s_buf_pos (st_of s1) + 1) s1)"
      using bb(1) by (simp add: next_char_def)
    then show ?thesis using s1(2) False rf mv by auto
  qed
qed

lemma skip_unfold:
  "skip_bytes drv s len =
     (if 0 < len
      then do {
        (r, s) \<leftarrow> refill s;
        if r = 0 then Some (0, s)
        else
          (let x = min (s_buf_len (st_of s) - s_buf_pos (st_of s)) len
           in skip_bytes drv (set_buf_pos (s_buf_pos (st_of s) + x) s) (len - x)) }
      else Some (1, s))"
  unfolding refill_def by (rule skip_bytes.simps)

lemma skip_bytes_ok:
  assumes "inv s" and "0 \<le> len" and "pos s + len \<le> int (length content)" and "skip_bytes drv s len = Some (r, s')"
  shows "r = 1 \<and> inv s' \<and> pos s' = pos s + len"
  using assms
proof (induction "nat len" arbitrary: s len rule: less_induct)
  case less
  show ?case
  proof (cases "0 < len")
    case False
    then show ?thesis using less.prems by (subst (asm) skip_unfold) auto
  next
    case True
    obtain q s1 where s1: "refill s = Some (q, s1)"
      using less.prems(4) True by (subst (asm) skip_unfold) (auto simp: bind_eq_Some_conv)
    note rf = refill_ok [OF less.prems(1) s1]
    have q: "q \<noteq> 0" using rf(5) True less.prems(3) by auto
    define x where "x = min (s_buf_len (st_of s1) - s_buf_pos (st_of s1)) len"
    have x: "0 < x" "x \<le> s_buf_len (st_of s1) - s_buf_pos (st_of s1)" "x \<le> len" using rf(3,4) q True by (auto simp: x_def)
    note mv = move_pos [OF rf(1) less_imp_le [OF x(1)] x(2)]
    let ?s2 = "set_buf_pos (s_buf_pos (st_of s1) + x) s1"
    have "skip_bytes drv ?s2 (len - x) = Some (r, s')"
      using less.prems(4) True s1 q by (subst (asm) skip_unfold) (simp add: x_def [symmetric])
    then have "r = 1 \<and> inv s' \<and> pos s' = pos ?s2 + (len - x)"
      by (intro less.hyps [OF _ mv(1)]) (use x mv(2) rf(2) less.prems(3) in simp_all)
    then show ?thesis using mv(2) rf(2) by simp
  qed
qed

lemma seek_ok:
  assumes "inv s" and "0 \<le> p" and "p \<le> int (length content)" and "stream_seek drv s p = Some (r, s')"
  shows "r = 1 \<and> inv s' \<and> pos s' = p"
proof (cases "p < s_pos (st_of s) \<and> 0 \<le> p - (s_pos (st_of s) - s_buf_len (st_of s))")
  case True
  define x where "x = p - (s_pos (st_of s) - s_buf_len (st_of s))"
  have "s' = s\<lparr>cs_stream := (st_of s)\<lparr>s_buf_pos := x, s_eof := False\<rparr>\<rparr>" "r = 1"
    using assms(2,4) True by (auto simp: stream_seek_def Let_def x_def)
  moreover have "inv (s\<lparr>cs_stream := (st_of s)\<lparr>s_buf_pos := x, s_eof := False\<rparr>\<rparr>)"
    by (rule move [OF assms(1)]) (use True in \<open>simp_all add: x_def\<close>)
  ultimately show ?thesis by (simp add: stream_tell_def x_def)
next
  case False
  then have "cache_stream_seek_long drv s p = Some (r, s')" using assms(2,4) by (auto simp: stream_seek_def Let_def)
  then show ?thesis by (rule seek [OF assms(1-3)])
qed

lemma skip_ok:
  assumes "inv s" and "0 \<le> pos s + len" and "pos s + len \<le> int (length content)" and "stream_skip drv s len = Some (r, s')"
  shows "r = 1 \<and> inv s' \<and> pos s' = pos s + len"
proof (cases "len < 0 \<or> 2 * STREAM_BUFFER_SIZE < len \<and> s_seek_fw (st_of s)")
  case True
  then have "stream_seek drv s (pos s + len) = Some (r, s')" using assms(4) by (simp add: stream_skip_def)
  then show ?thesis by (rule seek_ok [OF assms(1-3)])
next
  case False
  then have "skip_bytes drv s len = Some (r, s')" using assms(4) unfolding stream_skip_def by (auto split: if_splits)
  then show ?thesis by (intro skip_bytes_ok [OF assms(1)]) (use False assms(3) in auto)
qed

end

text \<open>
  A source whose operations return as long as it has fuel: the rounds the filler of a cache
  still gets. A filling and a seek burn at most a fixed amount.
\<close>

locale live_source = byte_source drv content inv
  for drv :: "'d driver" and content :: string and inv :: "'d cstream \<Rightarrow> bool" +
  fixes fuel :: "'d cstream \<Rightarrow> nat" and burn :: nat
  assumes fuel_move: "fuel (s\<lparr>cs_stream := st\<rparr>) = fuel s"
    and fill_returns: "inv s \<Longrightarrow> s_buf_pos (st_of s) = s_buf_len (st_of s) \<Longrightarrow> burn \<le> fuel s \<Longrightarrow>
      \<exists>n s'. cache_stream_fill_buffer drv s = Some (n, s') \<and> fuel s \<le> fuel s' + burn"
    and seek_returns: "inv s \<Longrightarrow> 0 \<le> p \<Longrightarrow> p \<le> int (length content) \<Longrightarrow> burn \<le> fuel s \<Longrightarrow>
      \<exists>r s'. cache_stream_seek_long drv s p = Some (r, s') \<and> fuel s \<le> fuel s' + burn"
begin

lemma fuel_set_buf_pos: "fuel (set_buf_pos k s) = fuel s"
  by (simp add: set_buf_pos_def fuel_move)

lemma refill_returns: "inv s \<Longrightarrow> burn \<le> fuel s \<Longrightarrow> \<exists>r s'. refill s = Some (r, s') \<and> fuel s \<le> fuel s' + burn"
  using fill_returns [of s] by (auto simp: refill_def)

lemma burn_step:
  assumes "0 < x" and "x \<le> len"
  shows "nat (len - x) * burn + burn \<le> nat len * burn"
proof -
  have "Suc (nat (len - x)) \<le> nat len" using assms by linarith
  from mult_le_mono1 [OF this, of burn] show ?thesis by simp
qed

lemma burn_less:
  assumes "0 < x" and "x \<le> len" and "nat len * burn \<le> f" and "f \<le> f' + burn"
  shows "nat (len - x) * burn \<le> f'" "burn \<le> f"
proof -
  have "nat (len - x) * burn + burn \<le> f" using burn_step [OF assms(1,2)] assms(3) by linarith
  then show "nat (len - x) * burn \<le> f'" "burn \<le> f" using assms(4) by simp_all
qed

lemma read_returns:
  "inv s \<Longrightarrow> nat len * burn \<le> fuel s \<Longrightarrow>
   \<exists>bs s'. stream_read drv s len = Some (bs, s') \<and> fuel s \<le> fuel s' + nat len * burn"
proof (induction "nat len" arbitrary: s len rule: less_induct)
  case less
  show ?case
  proof (cases "0 < len")
    case False
    then show ?thesis by (subst stream_read_unfold) simp
  next
    case len: True
    have b: "burn \<le> fuel s" by (rule burn_less(2) [where x = 1 and len = len and f' = "fuel s"]) (use len less.prems(2) in auto)
    obtain r s1 where s1: "refill s = Some (r, s1)" "fuel s \<le> fuel s1 + burn" using refill_returns [OF less.prems(1) b] by blast
    note rf = refill_ok [OF less.prems(1) s1(1)]
    show ?thesis
    proof (cases "r = 0")
      case True
      have "1 \<le> nat len" using len by arith
      then have "1 * burn \<le> nat len * burn" by (rule mult_le_mono1)
      then have "fuel s \<le> fuel s1 + nat len * burn" using s1(2) by linarith
      then show ?thesis using s1 True len by (subst stream_read_unfold) auto
    next
      case False
      define x where "x = min (s_buf_len (st_of s1) - s_buf_pos (st_of s1)) len"
      have x: "0 < x" "x \<le> s_buf_len (st_of s1) - s_buf_pos (st_of s1)" "x \<le> len" using rf(3,4) False len by (auto simp: x_def)
      note bb = buffer_bytes [OF rf(1) less_imp_le [OF x(1)] x(2)] and mv = move_pos [OF rf(1) less_imp_le [OF x(1)] x(2)]
      let ?s2 = "set_buf_pos (s_buf_pos (st_of s1) + x) s1"
      have fu: "nat (len - x) * burn \<le> fuel s1" by (rule burn_less(1) [OF x(1,3) less.prems(2) s1(2)])
      obtain bs s' where q: "stream_read drv ?s2 (len - x) = Some (bs, s')" "fuel s1 \<le> fuel s' + nat (len - x) * burn"
        using less.hyps [OF _ mv(1), of "len - x"] x fu by (auto simp: fuel_set_buf_pos)
      have "nat (len - x) * burn + burn \<le> nat len * burn"
        by (rule burn_step [OF x(1,3)])
      then have "fuel s \<le> fuel s' + nat len * burn" using s1(2) q(2) by linarith
      then show ?thesis using s1(1) False len bb(1) q(1) by (subst stream_read_unfold) (simp add: x_def [symmetric])
    qed
  qed
qed

lemma skip_bytes_returns:
  "inv s \<Longrightarrow> nat len * burn \<le> fuel s \<Longrightarrow>
   \<exists>r s'. skip_bytes drv s len = Some (r, s') \<and> fuel s \<le> fuel s' + nat len * burn"
proof (induction "nat len" arbitrary: s len rule: less_induct)
  case less
  show ?case
  proof (cases "0 < len")
    case False
    then show ?thesis by (subst skip_unfold) simp
  next
    case len: True
    have b: "burn \<le> fuel s" by (rule burn_less(2) [where x = 1 and len = len and f' = "fuel s"]) (use len less.prems(2) in auto)
    obtain r s1 where s1: "refill s = Some (r, s1)" "fuel s \<le> fuel s1 + burn" using refill_returns [OF less.prems(1) b] by blast
    note rf = refill_ok [OF less.prems(1) s1(1)]
    show ?thesis
    proof (cases "r = 0")
      case True
      have "1 \<le> nat len" using len by arith
      then have "1 * burn \<le> nat len * burn" by (rule mult_le_mono1)
      then have "fuel s \<le> fuel s1 + nat len * burn" using s1(2) by linarith
      then show ?thesis using s1 True len by (subst skip_unfold) auto
    next
      case False
      define x where "x = min (s_buf_len (st_of s1) - s_buf_pos (st_of s1)) len"
      have x: "0 < x" "x \<le> s_buf_len (st_of s1) - s_buf_pos (st_of s1)" "x \<le> len" using rf(3,4) False len by (auto simp: x_def)
      have fu: "nat (len - x) * burn \<le> fuel s1" by (rule burn_less(1) [OF x(1,3) less.prems(2) s1(2)])
      obtain q s' where q: "skip_bytes drv (set_buf_pos (s_buf_pos (st_of s1) + x) s1) (len - x) = Some (q, s')"
          "fuel s1 \<le> fuel s' + nat (len - x) * burn"
        using less.hyps [OF _ move_pos(1) [OF rf(1) less_imp_le [OF x(1)] x(2)], of "len - x"] x fu by (auto simp: fuel_set_buf_pos)
      have "nat (len - x) * burn + burn \<le> nat len * burn"
        by (rule burn_step [OF x(1,3)])
      then have "fuel s \<le> fuel s' + nat len * burn" using s1(2) q(2) by linarith
      then show ?thesis using s1(1) False len q(1) by (subst skip_unfold) (simp add: x_def [symmetric])
    qed
  qed
qed

lemma read_char_returns:
  assumes "inv s" and "burn \<le> fuel s"
  shows "\<exists>r s'. stream_read_char drv s = Some (r, s') \<and> fuel s \<le> fuel s' + burn"
proof (cases "s_buf_pos (st_of s) < s_buf_len (st_of s)")
  case True
  then show ?thesis using buffer_bytes(1) [OF assms(1), of 1] by (simp add: stream_read_char_def next_char_def fuel_set_buf_pos)
next
  case False
  then have e: "s_buf_pos (st_of s) = s_buf_len (st_of s)" using view [OF assms(1)] by (simp add: view_ok_def)
  obtain n s' where f: "cache_stream_fill_buffer drv s = Some (n, s')" "fuel s \<le> fuel s' + burn"
    using fill_returns [OF assms(1) e assms(2)] by auto
  show ?thesis
  proof (cases "n = 0")
    case True
    then show ?thesis using False f by (simp add: stream_read_char_def)
  next
    case n: False
    have s': "inv s'" "n = s_buf_len (st_of s') - s_buf_pos (st_of s')" using fill [OF assms(1) e f(1)] by simp_all
    then have "1 \<le> s_buf_len (st_of s') - s_buf_pos (st_of s')" using n view [OF s'(1)] by (simp add: view_ok_def)
    then show ?thesis using False f n buffer_bytes(1) [OF s'(1), of 1] by (simp add: stream_read_char_def next_char_def fuel_set_buf_pos)
  qed
qed

lemma seek_return:
  assumes "inv s" and "0 \<le> p" and "p \<le> int (length content)" and "burn \<le> fuel s"
  shows "\<exists>r s'. stream_seek drv s p = Some (r, s') \<and> fuel s \<le> fuel s' + burn"
  using seek_returns [OF assms] assms(2) by (auto simp: stream_seek_def Let_def fuel_move)

lemma skip_return:
  assumes "inv s" and "0 \<le> pos s + len" and "pos s + len \<le> int (length content)" and "Suc (nat len) * burn \<le> fuel s"
  shows "\<exists>r s'. stream_skip drv s len = Some (r, s') \<and> fuel s \<le> fuel s' + Suc (nat len) * burn"
proof -
  have "burn \<le> fuel s" "nat len * burn \<le> fuel s" using assms(4) by simp_all
  then obtain r s' r2 s2 where "stream_seek drv s (pos s + len) = Some (r, s')" "fuel s \<le> fuel s' + burn"
      "skip_bytes drv s len = Some (r2, s2)" "fuel s \<le> fuel s2 + nat len * burn"
    using seek_return [OF assms(1-3)] skip_bytes_returns [OF assms(1), of len] by blast
  then show ?thesis by (auto simp: stream_skip_def)
qed

end

subsection \<open>The specification: a file with a position\<close>

datatype stream_op = Op_read int | Op_char | Op_seek int | Op_skip int

datatype op_result = Bytes string | Number int

fun do_op :: "'d driver \<Rightarrow> stream_op \<Rightarrow> 'd cstream \<Rightarrow> (op_result \<times> 'd cstream) option" where
  "do_op drv (Op_read n) s = map_option (\<lambda>(bs, s). (Bytes bs, s)) (stream_read drv s n)"
| "do_op drv Op_char s = map_option (\<lambda>(ch, s). (Number ch, s)) (stream_read_char drv s)"
| "do_op drv (Op_seek p) s = map_option (\<lambda>(r, s). (Number r, s)) (stream_seek drv s p)"
| "do_op drv (Op_skip n) s = map_option (\<lambda>(r, s). (Number r, s)) (stream_skip drv s n)"

fun do_ops :: "'d driver \<Rightarrow> stream_op list \<Rightarrow> 'd cstream \<Rightarrow> (op_result list \<times> 'd cstream) option" where
  "do_ops drv [] s = Some ([], s)"
| "do_ops drv (op # ops) s = do { (r, s) \<leftarrow> do_op drv op s; (rs, s) \<leftarrow> do_ops drv ops s; Some (r # rs, s) }"

text \<open>How many times an operation fills the buffer or seeks, at most.\<close>

fun op_cost :: "stream_op \<Rightarrow> nat" where
  "op_cost (Op_read n) = nat n"
| "op_cost Op_char = 1"
| "op_cost (Op_seek p) = 1"
| "op_cost (Op_skip n) = Suc (nat n)"

text \<open>Positions outside the file are not specified.\<close>

fun spec_op :: "string \<Rightarrow> stream_op \<Rightarrow> int \<Rightarrow> (op_result \<times> int) option" where
  "spec_op content (Op_read n) p =
     (let bs = take (nat n) (drop (nat p) content) in Some (Bytes bs, p + int (length bs)))"
| "spec_op content Op_char p =
     (if p < int (length content) then Some (Number (int (byte (content ! nat p))), p + 1) else Some (Number (-256), p))"
| "spec_op content (Op_seek q) p = (if 0 \<le> q \<and> q \<le> int (length content) then Some (Number 1, q) else None)"
| "spec_op content (Op_skip n) p =
     (if 0 \<le> p + n \<and> p + n \<le> int (length content) then Some (Number 1, p + n) else None)"

fun spec_ops :: "string \<Rightarrow> stream_op list \<Rightarrow> int \<Rightarrow> (op_result list \<times> int) option" where
  "spec_ops content [] p = Some ([], p)"
| "spec_ops content (op # ops) p = do { (r, p) \<leftarrow> spec_op content op p; (rs, p) \<leftarrow> spec_ops content ops p; Some (r # rs, p) }"

context byte_source
begin

lemma do_op_ok:
  assumes "inv s" and "spec_op content op (pos s) = Some (r, p)" and "do_op drv op s = Some (r', s')"
  shows "r' = r \<and> inv s' \<and> pos s' = p"
proof (cases op)
  case (Op_read n)
  then obtain bs where bs: "stream_read drv s n = Some (bs, s')" "r' = Bytes bs" using assms(3) by auto
  show ?thesis using read_ok [OF assms(1) bs(1)] bs(2) assms(2) Op_read by (simp add: Let_def)
next
  case Op_char
  then show ?thesis using assms read_char_ok [OF assms(1)] by (auto split: if_splits)
next
  case (Op_seek q)
  then obtain x where x: "stream_seek drv s q = Some (x, s')" "r' = Number x" using assms(3) by auto
  have q: "0 \<le> q" "q \<le> int (length content)" "r = Number 1" "p = q" using assms(2) Op_seek by (auto split: if_splits)
  show ?thesis using seek_ok [OF assms(1) q(1,2) x(1)] x(2) q(3,4) by simp
next
  case (Op_skip n)
  then obtain x where x: "stream_skip drv s n = Some (x, s')" "r' = Number x" using assms(3) by auto
  have q: "0 \<le> pos s + n" "pos s + n \<le> int (length content)" "r = Number 1" "p = pos s + n"
    using assms(2) Op_skip by (auto split: if_splits)
  show ?thesis using skip_ok [OF assms(1) q(1,2) x(1)] x(2) q(3,4) by simp
qed

lemma do_ops_ok:
  "inv s \<Longrightarrow> spec_ops content ops (pos s) = Some (rs, p) \<Longrightarrow> do_ops drv ops s = Some (rs', s') \<Longrightarrow>
   rs' = rs \<and> inv s' \<and> pos s' = p"
proof (induction ops arbitrary: s rs rs')
  case (Cons op ops)
  obtain r q rs1 where sp: "spec_op content op (pos s) = Some (r, q)" "spec_ops content ops q = Some (rs1, p)" "rs = r # rs1"
    using Cons.prems(2) by (auto simp: bind_eq_Some_conv)
  obtain r' s1 rs1' where d: "do_op drv op s = Some (r', s1)" "do_ops drv ops s1 = Some (rs1', s')" "rs' = r' # rs1'"
    using Cons.prems(3) by (auto simp: bind_eq_Some_conv)
  have o: "r' = r \<and> inv s1 \<and> pos s1 = q" by (rule do_op_ok [OF Cons.prems(1) sp(1) d(1)])
  then have "rs1' = rs1 \<and> inv s' \<and> pos s' = p" using sp(2) by (intro Cons.IH [OF _ _ d(2)]) simp_all
  then show ?case using o sp(3) d(3) by simp
qed simp

end

context live_source
begin

lemma do_op_returns:
  assumes "inv s" and "spec_op content op (pos s) = Some r" and "op_cost op * burn \<le> fuel s"
  shows "\<exists>q s'. do_op drv op s = Some (q, s') \<and> fuel s \<le> fuel s' + op_cost op * burn"
proof (cases op)
  case (Op_read n)
  then show ?thesis using read_returns [OF assms(1), of n] assms(3) by auto
next
  case Op_char
  then show ?thesis using read_char_returns [OF assms(1)] assms(3) by auto
next
  case (Op_seek q)
  then show ?thesis using seek_return [OF assms(1), of q] assms(2,3) by (auto split: if_splits)
next
  case (Op_skip n)
  then show ?thesis using skip_return [OF assms(1), of n] assms(2,3) by (auto split: if_splits)
qed

lemma do_ops_return:
  "inv s \<Longrightarrow> spec_ops content ops (pos s) = Some (rs, p) \<Longrightarrow> sum_list (map op_cost ops) * burn \<le> fuel s \<Longrightarrow>
   \<exists>s'. do_ops drv ops s = Some (rs, s') \<and> inv s' \<and> pos s' = p"
proof (induction ops arbitrary: s rs)
  case (Cons op ops)
  obtain r q rs1 where sp: "spec_op content op (pos s) = Some (r, q)" "spec_ops content ops q = Some (rs1, p)" "rs = r # rs1"
    using Cons.prems(2) by (auto simp: bind_eq_Some_conv)
  obtain r' s1 where d: "do_op drv op s = Some (r', s1)" "fuel s \<le> fuel s1 + op_cost op * burn"
    using do_op_returns [OF Cons.prems(1) sp(1)] Cons.prems(3) by (auto simp: add_mult_distrib)
  have o: "r' = r \<and> inv s1 \<and> pos s1 = q" by (rule do_op_ok [OF Cons.prems(1) sp(1) d(1)])
  then have "\<exists>s'. do_ops drv ops s1 = Some (rs1, s') \<and> inv s' \<and> pos s' = p"
    using sp(2) d(2) Cons.prems(3) by (intro Cons.IH) (simp_all add: add_mult_distrib)
  then show ?case using d o sp(3) by auto
qed simp

end

subsection \<open>Streams without and with a cache are sources of bytes\<close>

context source
begin

definition plain_inv :: "'d cstream \<Rightarrow> bool" where
  "plain_inv s =
     (cs_cache s = None \<and> buffered (st_of s) \<and> 0 \<le> s_sector_size (st_of s) \<and> s_mode (st_of s) = STREAM_READ)"

lemma plain_fill:
  assumes "plain_inv s" and "s_buf_pos (st_of s) = s_buf_len (st_of s)"
  shows "\<exists>n s'. cache_stream_fill_buffer drv s = Some (n, s') \<and>
      plain_inv s' \<and> stream_tell (st_of s') = stream_tell (st_of s) \<and> n = s_buf_len (st_of s') - s_buf_pos (st_of s') \<and>
      (n = 0 \<longleftrightarrow> int (length content) \<le> stream_tell (st_of s)) \<and> s_eof (st_of s') = (n = 0)"
proof -
  obtain n st where "stream_fill_buffer drv (st_of s) = Some (n, st)" "buffered st" "stream_tell st = stream_tell (st_of s)"
      "same_setup (st_of s) st" "n = s_buf_len st - s_buf_pos st" "n = 0 \<longleftrightarrow> int (length content) \<le> stream_tell (st_of s)"
      "s_eof st = (n = 0)"
    using fill_buffer [of "st_of s"] assms by (auto simp: plain_inv_def)
  then show ?thesis
    using assms(1) by (auto simp: cache_stream_fill_buffer_def plain_inv_def same_setup_def)
qed

lemma plain_seek:
  assumes "plain_inv s" and "0 \<le> p"
  shows "\<exists>s'. cache_stream_seek_long drv s p = Some (1, s') \<and> plain_inv s' \<and> stream_tell (st_of s') = p"
proof -
  obtain st where "stream_seek_long drv (st_of s) p = Some (1, st)" "buffered st" "stream_tell st = p" "same_setup (st_of s) st"
    using seek_long [of "st_of s" p] assms by (auto simp: plain_inv_def buffered_def)
  then show ?thesis
    using assms(1) by (auto simp: cache_stream_seek_long_def plain_inv_def same_setup_def)
qed

definition cached_inv :: "'d cstream \<Rightarrow> bool" where
  "cached_inv s =
     (\<exists>c. cs_cache s = Some c \<and> cache_ok c \<and> eof_ok c \<and> calm (cs_sched s) \<and> view_ok content (st_of s) \<and> s_pos (st_of s) = c_read c)"

lemma cached_fill_from:
  assumes c: "cs_cache s = Some c" "cache_ok c" "eof_ok c" "calm (cs_sched s)" "s_pos (st_of s) = c_read c"
    and f: "cache_stream_fill_buffer drv s = Some (n, s')"
  shows "cached_inv s'" "s_buf_pos (st_of s') = 0" "s_buf_len (st_of s') = n" "s_pos (st_of s') = s_pos (st_of s) + n"
    "s_eof (st_of s') = (n = 0)" "0 \<le> n" "n < c_sector_size c \<longrightarrow> int (length content) \<le> s_pos (st_of s) + n"
    "n = 0 \<longleftrightarrow> int (length content) \<le> s_pos (st_of s)"
proof -
  have sec: "0 < c_sector_size c" "c_sector_size c \<le> STREAM_MAX_SECTOR_SIZE" using c(2) by (simp_all add: cache_ok_def cache_sizes_def)
  obtain bs c' sch where r: "cache_read drv (cs_sched s) c (c_sector_size c) = Some (bs, c', sch)"
      "n = int (length bs)"
      "s' = s\<lparr>cs_cache := Some c', cs_sched := sch,
              cs_stream := (if int (length bs) \<le> 0 then (st_of s)\<lparr>s_eof := True, s_buf_pos := 0, s_buf_len := 0\<rparr>
                            else (st_of s)\<lparr>s_eof := False, s_buf_pos := 0, s_buf_len := int (length bs), s_buffer := bs,
                                   s_pos := s_pos (st_of s) + int (length bs)\<rparr>)\<rparr>"
    using f c(1) sec(2) by (auto simp: cache_stream_fill_buffer_def bind_eq_Some_conv Let_def)
  note ok = cache_read_ok [OF c(2) r(1)]
  have rr: "cache_ok c'" "bs = take (length bs) (drop (nat (c_read c)) content)" "c_read c' = c_read c + int (length bs)"
    using ok by (simp_all add: read_result_def)
  have e: "eof_ok c'" "int (length bs) < c_sector_size c \<longrightarrow> int (length content) \<le> c_read c'" using ok c(3,4) by blast+
  have "calm sch" using ok c(4) by (auto simp: calm_def)
  have rd: "0 \<le> c_read c" using c(2) by (simp add: cache_ok_def)
  have lb: "length bs \<le> length content - nat (c_read c)" using arg_cong [OF rr(2), of length] by simp
  have st: "s_buf_pos (st_of s') = 0" "s_buf_len (st_of s') = n" "s_pos (st_of s') = s_pos (st_of s) + n" "s_eof (st_of s') = (n = 0)"
    using r(2,3) by auto
  have view: "view_ok content (st_of s')"
  proof (cases "bs = []")
    case True
    then show ?thesis using r(3) c(5) rd by (simp add: view_ok_def)
  next
    case False
    then have b: "s_buffer (st_of s') = bs" using r(3) by simp
    have "0 < length bs" using False by simp
    then have "c_read c + int (length bs) \<le> int (length content)" using lb rd by linarith
    then show ?thesis
      unfolding view_ok_def st b using r(2) c(5) rd rr(2) by simp
  qed
  show "cached_inv s'"
    using r(3) rr(1) e(1) \<open>calm sch\<close> view rr(3) c(5) st(3) r(2) by (simp add: cached_inv_def)
  show "s_buf_pos (st_of s') = 0" "s_buf_len (st_of s') = n" "s_pos (st_of s') = s_pos (st_of s) + n"
    "s_eof (st_of s') = (n = 0)" "0 \<le> n" "n < c_sector_size c \<longrightarrow> int (length content) \<le> s_pos (st_of s) + n"
    using st e(2) rr(3) c(5) r(2) by simp_all
  show "n = 0 \<longleftrightarrow> int (length content) \<le> s_pos (st_of s)"
    using e(2) rr(3) c(5) r(2) sec(1) lb rd by auto
qed

lemma cached_fill:
  assumes "cached_inv s" and "s_buf_pos (st_of s) = s_buf_len (st_of s)" and "cache_stream_fill_buffer drv s = Some (n, s')"
  shows "cached_inv s' \<and> stream_tell (st_of s') = stream_tell (st_of s) \<and> n = s_buf_len (st_of s') - s_buf_pos (st_of s') \<and>
      (n = 0 \<longleftrightarrow> int (length content) \<le> stream_tell (st_of s)) \<and> s_eof (st_of s') = (n = 0)"
proof -
  obtain c where c: "cs_cache s = Some c" "cache_ok c" "eof_ok c" "calm (cs_sched s)" "s_pos (st_of s) = c_read c"
    using assms(1) by (auto simp: cached_inv_def)
  show ?thesis using cached_fill_from [OF c assms(3)] assms(2) by (simp add: stream_tell_def)
qed

lemma cached_seek:
  assumes "cached_inv s" and "0 \<le> p" and "p \<le> int (length content)" and "cache_stream_seek_long drv s p = Some (r, s')"
  shows "r = 1 \<and> cached_inv s' \<and> stream_tell (st_of s') = p"
proof -
  obtain c where c: "cs_cache s = Some c" "cache_ok c" "eof_ok c" "calm (cs_sched s)"
    using assms(1) by (auto simp: cached_inv_def)
  have sec: "0 < c_sector_size c" using c(2) by (simp add: cache_ok_def cache_sizes_def)
  define q where "q = (p sdiv c_sector_size c) * c_sector_size c"
  have "q = p - p mod c_sector_size c"
    using sec assms(2) by (simp add: q_def signed_divide_int_def sgn_if minus_mod_eq_div_mult)
  then have q: "0 \<le> q" "q \<le> p" "p < q + c_sector_size c"
    using sec assms(2) pos_mod_bound [OF sec, of p] pos_mod_sign [OF sec, of p] zmod_le_nonneg_dividend [OF assms(2), of "c_sector_size c"]
    by simp_all
  let ?c = "c\<lparr>c_read := q, c_eof := False\<rparr>"
  let ?s = "s\<lparr>cs_stream := (cs_stream s)\<lparr>s_pos := q\<rparr>, cs_cache := Some ?c\<rparr>"
  obtain n t where t: "cache_stream_fill_buffer drv ?s = Some (n, t)"
      "(if 0 \<le> p - q \<and> p - q \<le> s_buf_len (cs_stream t)
        then Some (1, t\<lparr>cs_stream := (cs_stream t)\<lparr>s_buf_pos := p - q\<rparr>\<rparr>) else Some (0, t)) = Some (r, s')"
    using assms(4) unfolding cache_stream_seek_long_def c(1) option.case Let_def q_def [symmetric]
    by (auto simp: bind_eq_Some_conv)
  have "cache_ok ?c" using c(2) q(1) by (auto simp: cache_ok_def cache_sizes_def window_ok_def ring_holds_def ring_place_def)
  moreover have "eof_ok ?c" by (simp add: eof_ok_def)
  ultimately have f: "cached_inv t" "s_buf_pos (st_of t) = 0" "s_buf_len (st_of t) = n" "s_pos (st_of t) = q + n"
      "n < c_sector_size c \<longrightarrow> int (length content) \<le> q + n"
    using cached_fill_from [OF _ _ _ _ _ t(1), of ?c] c(4) by simp_all
  have le: "p - q \<le> n" using f(5) q(3) assms(3) by linarith
  then have s': "r = 1" "s' = t\<lparr>cs_stream := (cs_stream t)\<lparr>s_buf_pos := p - q\<rparr>\<rparr>" using t(2) q(2) f(3) by (simp_all split: if_splits)
  have "cached_inv s'"
    using f(1) le q(2) f(3) by (auto simp: s'(2) cached_inv_def view_ok_def)
  then show ?thesis using s' f(3,4) by (simp add: stream_tell_def)
qed

end

sublocale source \<subseteq> plain: live_source drv content plain_inv "\<lambda>_. 0" 0
proof (unfold_locales, goal_cases)
  case (1 s)
  then show ?case by (simp add: plain_inv_def buffered_def)
next
  case (2 s k e)
  then show ?case by (auto simp: plain_inv_def buffered_def view_ok_def ready_def)
next
  case (3 s n s')
  then show ?case using plain_fill [of s] by auto
next
  case (4 s p r s')
  then show ?case using plain_seek [of s p] by auto
next
  case (5 s)
  then show ?case by simp
next
  case (6 s)
  then show ?case using plain_fill [of s] by auto
next
  case (7 s p)
  then show ?case using plain_seek [of s p] by auto
qed

sublocale source \<subseteq> cached: byte_source drv content cached_inv
proof (unfold_locales, goal_cases)
  case (1 s)
  then show ?case by (auto simp: cached_inv_def)
next
  case (2 s k e)
  then show ?case by (auto simp: cached_inv_def view_ok_def)
next
  case (3 s n s')
  then show ?case by (rule cached_fill)
next
  case (4 s p r s')
  then show ?case by (rule cached_seek)
qed

text \<open>With a filler that runs in every round.\<close>

context source
begin

definition busy :: "int \<Rightarrow> int \<Rightarrow> 'd cstream \<Rightarrow> bool" where
  "busy sec bsz s =
     ((\<forall>x\<in>set (cs_sched s). 0 < fst x) \<and> (\<exists>c. cs_cache s = Some c \<and> cache_ok c \<and> c_sector_size c = sec \<and> c_buffer_size c = bsz))"

lemma busy_fill:
  assumes b: "busy sec bsz s" and f: "cache_stream_fill_buffer drv s = Some (n, s')"
  shows "busy sec bsz s'"
proof -
  obtain c where c: "cs_cache s = Some c" "cache_ok c" "c_sector_size c = sec" "c_buffer_size c = bsz"
      "\<forall>x\<in>set (cs_sched s). 0 < fst x"
    using b unfolding busy_def by blast
  have sec: "c_sector_size c \<le> STREAM_MAX_SECTOR_SIZE" using c(2) by (simp add: cache_ok_def cache_sizes_def)
  obtain bs c' sch where r: "cache_read drv (cs_sched s) c (c_sector_size c) = Some (bs, c', sch)"
      "cs_cache s' = Some c'" "cs_sched s' = sch"
    using f c(1) sec by (auto simp: cache_stream_fill_buffer_def bind_eq_Some_conv Let_def)
  have "c_sector_size c' = c_sector_size c" "c_buffer_size c' = c_buffer_size c" "cache_ok c'" "\<exists>used. cs_sched s = used @ sch"
    using cache_read_ok [OF c(2) r(1)] by (simp_all add: read_result_def)
  then show ?thesis using c(3-5) r(2,3) by (auto simp: busy_def)
qed

lemma busy_fill_returns:
  assumes b: "busy sec bsz s" and f: "nat sec + nat bsz \<le> length (cs_sched s)"
  shows "\<exists>n s'. cache_stream_fill_buffer drv s = Some (n, s') \<and> length (cs_sched s) \<le> length (cs_sched s') + (nat sec + nat bsz)"
proof -
  obtain c where c: "cs_cache s = Some c" "cache_ok c" "c_sector_size c = sec" "c_buffer_size c = bsz"
      "\<forall>x\<in>set (cs_sched s). 0 < fst x"
    using b unfolding busy_def by blast
  have sec: "c_sector_size c \<le> STREAM_MAX_SECTOR_SIZE" using c(2) by (simp add: cache_ok_def cache_sizes_def)
  have g: "gap c \<le> nat bsz" using gap_le [OF c(2)] c(4) by simp
  then have "nat (c_sector_size c) + gap c \<le> length (cs_sched s)" using f c(3) by simp
  then obtain bs c' sch' where r: "cache_read drv (cs_sched s) c (c_sector_size c) = Some (bs, c', sch')"
      "length (cs_sched s) \<le> length sch' + (nat (c_sector_size c) + gap c)"
    using cache_read_returns [OF c(2,5)] by blast
  have "length (cs_sched s) \<le> length sch' + (nat sec + nat bsz)" using r(2) g c(3) by simp
  then show ?thesis using c(1) sec r(1) by (simp add: cache_stream_fill_buffer_def Let_def)
qed

text \<open>A seek in the cache is a filling from another state.\<close>

lemma busy_seek_start:
  assumes "busy sec bsz s" and "0 \<le> p"
  obtains s0 q where "busy sec bsz s0" "cs_sched s0 = cs_sched s"
    "cache_stream_seek_long drv s p =
       do { (_, t) \<leftarrow> cache_stream_fill_buffer drv s0;
            if 0 \<le> p - q \<and> p - q \<le> s_buf_len (cs_stream t)
            then Some (1, t\<lparr>cs_stream := (cs_stream t)\<lparr>s_buf_pos := p - q\<rparr>\<rparr>) else Some (0, t) }"
proof -
  obtain c where c: "cs_cache s = Some c" "cache_ok c" "c_sector_size c = sec" "c_buffer_size c = bsz"
      "\<forall>x\<in>set (cs_sched s). 0 < fst x"
    using assms(1) unfolding busy_def by blast
  define q where "q = (p sdiv c_sector_size c) * c_sector_size c"
  have sec: "0 < c_sector_size c" using c(2) by (simp add: cache_ok_def cache_sizes_def)
  have q: "0 \<le> q" using sec assms(2) by (simp add: q_def signed_divide_int_def sgn_if pos_imp_zdiv_nonneg_iff)
  let ?c = "c\<lparr>c_read := q, c_eof := False\<rparr>"
  let ?s = "s\<lparr>cs_stream := (cs_stream s)\<lparr>s_pos := q\<rparr>, cs_cache := Some ?c\<rparr>"
  have "cache_ok ?c" using c(2) q by (auto simp: cache_ok_def cache_sizes_def window_ok_def ring_holds_def ring_place_def)
  then have "busy sec bsz ?s" using c(3-5) by (simp add: busy_def)
  moreover have "cache_stream_seek_long drv s p =
       do { (_, t) \<leftarrow> cache_stream_fill_buffer drv ?s;
            if 0 \<le> p - q \<and> p - q \<le> s_buf_len (cs_stream t)
            then Some (1, t\<lparr>cs_stream := (cs_stream t)\<lparr>s_buf_pos := p - q\<rparr>\<rparr>) else Some (0, t) }"
    unfolding cache_stream_seek_long_def c(1) option.case Let_def q_def [symmetric] by (rule refl)
  moreover have "cs_sched ?s = cs_sched s" by simp
  ultimately show ?thesis using that [of ?s q] by blast
qed

lemma busy_seek:
  assumes "busy sec bsz s" and "0 \<le> p" and "cache_stream_seek_long drv s p = Some (r, s')"
  shows "busy sec bsz s'"
proof -
  obtain s0 q where s0: "busy sec bsz s0" "cs_sched s0 = cs_sched s"
    "cache_stream_seek_long drv s p =
       do { (_, t) \<leftarrow> cache_stream_fill_buffer drv s0;
            if 0 \<le> p - q \<and> p - q \<le> s_buf_len (cs_stream t)
            then Some (1, t\<lparr>cs_stream := (cs_stream t)\<lparr>s_buf_pos := p - q\<rparr>\<rparr>) else Some (0, t) }"
    by (rule busy_seek_start [OF assms(1,2)])
  obtain n t where t: "cache_stream_fill_buffer drv s0 = Some (n, t)"
      "s' = t\<lparr>cs_stream := (cs_stream t)\<lparr>s_buf_pos := p - q\<rparr>\<rparr> \<or> s' = t"
    using assms(3) unfolding s0(3) by (auto simp: bind_eq_Some_conv split: if_splits)
  have "busy sec bsz t" by (rule busy_fill [OF s0(1) t(1)])
  moreover have "cs_sched s' = cs_sched t" "cs_cache s' = cs_cache t" using t(2) by auto
  ultimately show ?thesis unfolding busy_def by simp
qed

lemma busy_seek_returns:
  assumes "busy sec bsz s" and "0 \<le> p" and "nat sec + nat bsz \<le> length (cs_sched s)"
  shows "\<exists>r s'. cache_stream_seek_long drv s p = Some (r, s') \<and> length (cs_sched s) \<le> length (cs_sched s') + (nat sec + nat bsz)"
proof -
  obtain s0 q where s0: "busy sec bsz s0" "cs_sched s0 = cs_sched s"
    "cache_stream_seek_long drv s p =
       do { (_, t) \<leftarrow> cache_stream_fill_buffer drv s0;
            if 0 \<le> p - q \<and> p - q \<le> s_buf_len (cs_stream t)
            then Some (1, t\<lparr>cs_stream := (cs_stream t)\<lparr>s_buf_pos := p - q\<rparr>\<rparr>) else Some (0, t) }"
    by (rule busy_seek_start [OF assms(1,2)])
  then show ?thesis using busy_fill_returns [OF s0(1)] assms(3) by fastforce
qed

end

sublocale source \<subseteq> busy: live_source drv content "\<lambda>s. cached_inv s \<and> busy sec bsz s" "\<lambda>s. length (cs_sched s)" "nat sec + nat bsz"
  for sec bsz :: int
proof (unfold_locales, goal_cases)
  case (1 s)
  then show ?case by (auto simp: cached_inv_def)
next
  case (2 s k e)
  then show ?case using cached.move [of s k e] by (simp add: busy_def)
next
  case (3 s n s')
  then show ?case using cached_fill [of s n s'] busy_fill [of sec bsz s n s'] by blast
next
  case (4 s p r s')
  then show ?case using cached_seek [of s p r s'] busy_seek [of sec bsz s p r s'] by blast
next
  case (5 s)
  then show ?case by simp
next
  case (6 s)
  then show ?case using busy_fill_returns [of sec bsz s] by blast
next
  case (7 s p)
  then show ?case using busy_seek_returns [of sec bsz s p] by blast
qed

end
