(* ===== verification/Stream_File.thy ===== *)
theory Stream_File
  imports Stream_Spec
begin

text \<open>
  The driver for files and pipes (\<open>stream/stream_file.c\<close>) over a descriptor: the data of the
  file, the offset, and what successive calls of \<open>read\<close> and \<open>write\<close> transfer at most, as the
  operating system may decide; a limit of 0 is an error. Beyond the limits listed there are
  none. Opening, the size of the file apart, is input and output.
\<close>

subsection \<open>The descriptor\<close>

record file_state =
  f_data :: string
  f_off :: nat
  f_reads :: "nat list"
  f_writes :: "nat list"

definition posix_read :: "file_state \<Rightarrow> int \<Rightarrow> string \<times> file_state" where
  "posix_read f len =
     (let k = (case f_reads f of [] \<Rightarrow> nat len | r # _ \<Rightarrow> min (nat len) r);
          bs = take k (drop (f_off f) (f_data f))
      in (bs, f\<lparr>f_off := f_off f + length bs, f_reads := tl (f_reads f)\<rparr>))"

text \<open>A write behind the end fills the hole with zeros.\<close>

definition posix_write :: "file_state \<Rightarrow> string \<Rightarrow> nat \<times> file_state" where
  "posix_write f buf =
     (let k = (case f_writes f of [] \<Rightarrow> length buf | w # _ \<Rightarrow> min (length buf) w);
          old = f_data f @ replicate (f_off f - length (f_data f)) (CHR 0x00)
      in (k, f\<lparr>f_data := take (f_off f) old @ take k buf @ drop (f_off f + k) old,
              f_off := f_off f + k, f_writes := tl (f_writes f)\<rparr>))"

subsection \<open>The driver\<close>

definition file_fill_buffer :: "file_state reading" where
  "file_fill_buffer s max_len =
     (case posix_read (s_priv s) max_len of (bs, f) \<Rightarrow> (bs, s\<lparr>s_priv := f\<rparr>))"

text \<open>
  The loop of \<open>write_buffer\<close>, with the number of bytes written: every call hands over \<open>len\<close>
  bytes from the place reached, those after the first as well.
\<close>

function write_loop :: "file_state stream \<Rightarrow> string \<Rightarrow> nat \<Rightarrow> nat \<Rightarrow> (int \<times> file_state stream) option" where
  "write_loop s buf len wr =
     (if wr < len
      then if length buf < wr + len then None
           else case posix_write (s_priv s) (take len (drop wr buf)) of
             (r, f) \<Rightarrow> if r = 0 then Some (-1, s\<lparr>s_priv := f\<rparr>) else write_loop (s\<lparr>s_priv := f\<rparr>) buf len (wr + r)
      else Some (int len, s))"
  by pat_completeness auto
termination by (relation "measure (\<lambda>(s, buf, len, wr). len - wr)") auto

definition file_write_buffer :: "file_state writing" where
  "file_write_buffer s buf len = write_loop s buf len 0"

text \<open>\<open>lseek\<close> to a position that is not negative succeeds.\<close>

definition file_seek :: "file_state seeking" where
  "file_seek s newpos =
     (let s = s\<lparr>s_pos := newpos\<rparr>
      in if newpos < 0 then (0, s\<lparr>s_eof := True\<rparr>) else (1, s\<lparr>s_priv := (s_priv s)\<lparr>f_off := nat newpos\<rparr>\<rparr>))"

text \<open>The seek of a pipe reads up to the position; here the loop.\<close>

function forward_to :: "file_state stream \<Rightarrow> int \<Rightarrow> file_state stream" where
  "forward_to s newpos =
     (if s_pos s < newpos
      then (case file_fill_buffer s STREAM_BUFFER_SIZE of
              (bs, s) \<Rightarrow>
                if bs = [] then s\<lparr>s_eof := True, s_buf_pos := 0, s_buf_len := 0\<rparr>
                else forward_to (s\<lparr>s_buf_pos := 0, s_buf_len := int (length bs), s_pos := s_pos s + int (length bs), s_buffer := bs\<rparr>) newpos)
      else s)"
  by pat_completeness auto
termination
  by (relation "measure (\<lambda>(s, newpos). nat (newpos - s_pos s))") (auto simp: file_fill_buffer_def split: prod.splits)

definition file_seek_forward :: "file_state seeking" where
  "file_seek_forward s newpos = (if newpos < s_pos s then (0, s) else (1, forward_to s newpos))"

declare write_loop.simps [simp del] forward_to.simps [simp del]

definition file_driver :: "file_state driver" where
  "file_driver = (no_driver :: file_state driver)\<lparr>d_fill_buffer := Some file_fill_buffer, d_write_buffer := Some file_write_buffer,
     d_seek := Some file_seek, d_control_reset := Some (\<lambda>s. s)\<rparr>"

definition pipe_driver :: "file_state driver" where
  "pipe_driver = file_driver\<lparr>d_seek := Some file_seek_forward\<rparr>"

text \<open>
  What \<open>open_f\<close> makes of a file that can be seeked and of one that cannot, with the flags
  \<open>open_stream_plugin\<close> gives every stream that has a seek function.
\<close>

definition open_file :: "file_state \<Rightarrow> file_state stream" where
  "open_file f = (new_stream f STREAMTYPE_FILE)\<lparr>s_seek_fw := True, s_end_pos := int (length (f_data f)), s_read_chunk := 64 * 1024\<rparr>"

definition open_pipe :: "file_state \<Rightarrow> file_state stream" where
  "open_pipe f = (new_stream f STREAMTYPE_STREAM)\<lparr>s_seek_fw := True, s_read_chunk := 64 * 1024\<rparr>"

definition no_cache :: "'d stream \<Rightarrow> 'd cstream" where
  "no_cache s = \<lparr>cs_stream = s, cs_cache = None, cs_sched = []\<rparr>"

text \<open>The stream with the cache its filler has just been started for.\<close>

definition with_cache :: "'d stream \<Rightarrow> int \<Rightarrow> int \<Rightarrow> schedule \<Rightarrow> 'd cstream" where
  "with_cache s sz seek_limit sch = \<lparr>cs_stream = s, cs_cache = Some (enable_cache s sz seek_limit), cs_sched = sch\<rparr>"

subsection \<open>Writing\<close>

text \<open>
  What is written in one call is written as it is; after a short write, the next call writes
  bytes behind those it was to write, and if there are none it reads behind the memory.
\<close>

lemma whole_write:
  assumes "f_writes (s_priv s) = [] \<or> length buf \<le> hd (f_writes (s_priv s))" and "buf \<noteq> []"
  shows "file_write_buffer s buf (length buf) = Some (int (length buf), s\<lparr>s_priv := snd (posix_write (s_priv s) buf)\<rparr>)"
proof -
  have "fst (posix_write (s_priv s) buf) = length buf"
    using assms(1) by (cases "f_writes (s_priv s)") (simp_all add: posix_write_def Let_def)
  then obtain f where "posix_write (s_priv s) buf = (length buf, f)" by (cases "posix_write (s_priv s) buf") simp
  then show ?thesis using assms(2) by (simp add: file_write_buffer_def write_loop.simps [of s] write_loop.simps [of _ _ "length buf" "length buf"])
qed

lemma short_write_writes_more:
  "map_option (\<lambda>(r, s). (r, f_data (s_priv s)))
     (file_write_buffer (new_stream \<lparr>f_data = [], f_off = 0, f_reads = [], f_writes = [2]\<rparr> STREAMTYPE_FILE) ''abcXYZ'' 3) = Some (3, ''abcXY'')"
  by code_simp

lemma short_write_reads_behind:
  "file_write_buffer (new_stream \<lparr>f_data = [], f_off = 0, f_reads = [], f_writes = [2]\<rparr> STREAMTYPE_FILE) ''abc'' 3 = None"
  by code_simp

subsection \<open>Files are seekable sources\<close>

definition usable_file :: "string \<Rightarrow> file_state \<Rightarrow> bool" where
  "usable_file content f = (f_data f = content \<and> (\<forall>r\<in>set (f_reads f). 0 < r))"

lemma file_raw_read:
  assumes "s_type s = STREAMTYPE_FILE" and "usable_file content (s_priv s)" and "0 < len"
  shows "\<exists>bs d. raw_read file_driver s len = (bs, s\<lparr>s_priv := d\<rparr>) \<and> usable_file content d \<and>
     int (f_off d) = int (f_off (s_priv s)) + int (length bs) \<and>
     bs = take (length bs) (drop (nat (int (f_off (s_priv s)))) content) \<and> int (length bs) \<le> len \<and>
     (bs = [] \<longleftrightarrow> int (length content) \<le> int (f_off (s_priv s)))"
proof -
  let ?f = "s_priv s"
  define k where "k = (case f_reads ?f of [] \<Rightarrow> nat len | r # _ \<Rightarrow> min (nat len) r)"
  have k: "0 < k" "k \<le> nat len" using assms(2,3) by (auto simp: k_def usable_file_def split: list.splits)
  define bs where "bs = take k (drop (f_off ?f) content)"
  let ?d = "?f\<lparr>f_off := f_off ?f + length bs, f_reads := tl (f_reads ?f)\<rparr>"
  have "raw_read file_driver s len = (bs, s\<lparr>s_priv := ?d\<rparr>)"
    using assms(1,2)
    by (simp add: raw_read_def file_driver_def no_driver_def file_fill_buffer_def posix_read_def k_def bs_def Let_def usable_file_def)
  moreover have "usable_file content ?d" using assms(2) by (cases "f_reads ?f") (auto simp: usable_file_def)
  moreover have "int k \<le> len" using k(2) assms(3) by linarith
  then have "int (length bs) \<le> len" by (simp add: bs_def)
  moreover have "bs = [] \<longleftrightarrow> int (length content) \<le> int (f_off ?f)" using k(1) by (auto simp: bs_def)
  moreover have "bs = take (length bs) (drop (nat (int (f_off ?f))) content)" unfolding nat_int by (rule take_self [OF bs_def])
  ultimately show ?thesis by (intro exI [of _ bs] exI [of _ ?d]) simp
qed

interpretation fsource: source file_driver content "usable_file content" "\<lambda>f. int (f_off f)" STREAMTYPE_FILE
  for content :: string
proof (unfold_locales, goal_cases)
  case (1 s len)
  then show ?case by (rule file_raw_read)
next
  case (2 s p)
  then show ?case
    by (intro exI [of _ file_seek] exI [of _ 1] exI [of _ "(s_priv s)\<lparr>f_off := nat p\<rparr>"])
       (simp add: file_driver_def no_driver_def file_seek_def usable_file_def)
next
  case (3 c s)
  then show ?case by (intro exI [of _ "s_priv s"]) (auto simp: file_driver_def no_driver_def)
next
  case (4 d)
  then show ?case by simp
qed

subsection \<open>Reading files\<close>

lemma open_file_ready:
  assumes "\<forall>r\<in>set (f_reads f). 0 < r" and "f_off f = 0"
  shows "fsource.ready (f_data f) (open_file f)"
  using assms by (simp add: fsource.ready_def fsource.synced_def usable_file_def open_file_def new_stream_def)

lemma open_file_view: "view_ok content (open_file f)" and open_file_tell: "stream_tell (open_file f) = 0"
  by (simp_all add: view_ok_def open_file_def new_stream_def stream_tell_def)

lemma no_cache_inv:
  assumes "\<forall>r\<in>set (f_reads f). 0 < r" and "f_off f = 0"
  shows "fsource.plain_inv (f_data f) (no_cache (open_file f))"
  using open_file_ready [OF assms] open_file_view
  by (simp add: fsource.plain_inv_def fsource.buffered_def no_cache_def open_file_def new_stream_def)

lemma with_cache_inv:
  assumes "\<forall>r\<in>set (f_reads f). 0 < r" and "f_off f = 0" and "0 \<le> sz" and "calm sch"
  shows "fsource.cached_inv (f_data f) (with_cache (open_file f) sz seek_limit sch)"
proof -
  have ok: "fsource.cache_ok (f_data f) (enable_cache (open_file f) sz seek_limit)" "fsource.eof_ok (f_data f) (enable_cache (open_file f) sz seek_limit)"
    using fsource.enable_cache_ok [OF open_file_ready [OF assms(1,2)], of sz seek_limit] assms(3) by (simp_all add: open_file_def new_stream_def)
  have "s_pos (open_file f) = 0" "c_read (enable_cache (open_file f) sz seek_limit) = 0"
    by (simp_all add: open_file_def new_stream_def enable_cache_def cache_init_def Let_def)
  then show ?thesis
    using ok assms(4) open_file_view by (auto simp: fsource.cached_inv_def with_cache_def)
qed

lemma tell_start: "stream_tell (st_of (no_cache (open_file f))) = 0" "stream_tell (st_of (with_cache (open_file f) sz seek_limit sch)) = 0"
  by (simp_all add: no_cache_def with_cache_def open_file_tell)

text \<open>
  C8: Reading from a file through the buffer of a stream is reading from the file: any
  sequence of reads, single characters, seeks and skips within the file returns exactly what
  a file with a position returns, and ends at the same position, however the operating
  system cuts the reads.
\<close>

theorem file_stream_refines_spec:
  assumes "\<forall>r\<in>set (f_reads f). 0 < r" and "f_off f = 0" and "spec_ops (f_data f) ops 0 = Some (rs, p)"
  shows "\<exists>s'. do_ops file_driver ops (no_cache (open_file f)) = Some (rs, s') \<and> stream_tell (st_of s') = p"
  using fsource.plain.do_ops_return [OF no_cache_inv [OF assms(1,2)], of ops rs p] assms(3) by (auto simp: tell_start)

text \<open>A file of twelve bytes that is read at most five bytes at a time.\<close>

definition ex_file :: file_state where
  "ex_file = \<lparr>f_data = ''abcdefghijkl'', f_off = 0, f_reads = [5, 1, 3], f_writes = []\<rparr>"

definition ex_ops :: "stream_op list" where
  "ex_ops = [Op_read 7, Op_skip (-4), Op_char, Op_seek 10, Op_read 5, Op_char, Op_seek 0, Op_skip 2, Op_char]"

definition ex_results :: "op_result list" where
  "ex_results = [Bytes ''abcdefg'', Number 1, Number 100, Number 1, Bytes ''kl'', Number (-256), Number 1, Number 1, Number 99]"

lemma ex_spec: "spec_ops (f_data ex_file) ex_ops 0 = Some (ex_results, 3)"
  by code_simp

theorem file_stream_refines_spec_witness:
  "\<exists>s'. do_ops file_driver ex_ops (no_cache (open_file ex_file)) = Some (ex_results, s') \<and> stream_tell (st_of s') = 3"
  by (rule file_stream_refines_spec [OF _ _ ex_spec]) (simp_all add: ex_file_def)

text \<open>
  C6: The same through the cache: whatever its size and seek limit, and however often its filler
  is called between the rounds of the reader, when the operations return they have returned
  what the file has, provided that nobody interrupts the reader. A call of the filler is one
  step here: in the code it runs beside the reader, and one that overlaps a seek is not covered
  (it may set the flag for the end after the seek has cleared it).
\<close>

theorem cached_stream_refines_spec:
  assumes "\<forall>r\<in>set (f_reads f). 0 < r" and "f_off f = 0" and "spec_ops (f_data f) ops 0 = Some (rs, p)" and "0 \<le> sz" and "calm sch"
    and "do_ops file_driver ops (with_cache (open_file f) sz seek_limit sch) = Some (rs', s')"
  shows "rs' = rs \<and> stream_tell (st_of s') = p"
  using fsource.cached.do_ops_ok [OF with_cache_inv [OF assms(1,2,4,5)] _ assms(6)] assms(3) by (auto simp: tell_start)

lemma with_cache_busy:
  assumes "\<forall>r\<in>set (f_reads f). 0 < r" and "f_off f = 0" and "0 \<le> sz" and "\<forall>x\<in>set sch. 0 < fst x"
  shows "fsource.busy (f_data f) (c_sector_size (enable_cache (open_file f) sz seek_limit))
     (c_buffer_size (enable_cache (open_file f) sz seek_limit)) (with_cache (open_file f) sz seek_limit sch)"
  using fsource.enable_cache_ok(1) [OF open_file_ready [OF assms(1,2)], of sz seek_limit] assms(3,4)
  by (simp add: fsource.busy_def with_cache_def open_file_def new_stream_def)

lemma cached_file_live:
  assumes "\<forall>r\<in>set (f_reads f). 0 < r" and "f_off f = 0" and "spec_ops (f_data f) ops 0 = Some (rs, p)" and "0 \<le> sz"
  shows "\<exists>N. \<forall>sch. calm sch \<and> (\<forall>x\<in>set sch. 0 < fst x) \<and> N \<le> length sch \<longrightarrow>
     (\<exists>s'. do_ops file_driver ops (with_cache (open_file f) sz seek_limit sch) = Some (rs, s') \<and> stream_tell (st_of s') = p)"
proof -
  let ?c = "enable_cache (open_file f) sz seek_limit"
  let ?burn = "nat (c_sector_size ?c) + nat (c_buffer_size ?c)"
  have "\<exists>s'. do_ops file_driver ops (with_cache (open_file f) sz seek_limit sch) = Some (rs, s') \<and> stream_tell (st_of s') = p"
    if sch: "calm sch" "\<forall>x\<in>set sch. 0 < fst x" and n: "sum_list (map op_cost ops) * ?burn \<le> length sch" for sch
  proof -
    have i: "fsource.cached_inv (f_data f) (with_cache (open_file f) sz seek_limit sch) \<and>
        fsource.busy (f_data f) (c_sector_size ?c) (c_buffer_size ?c) (with_cache (open_file f) sz seek_limit sch)"
      using with_cache_inv [OF assms(1,2,4) sch(1)] with_cache_busy [OF assms(1,2,4) sch(2)] by blast
    have l: "length (cs_sched (with_cache (open_file f) sz seek_limit sch)) = length sch" by (simp add: with_cache_def)
    from fsource.busy.do_ops_return [OF i, of ops rs p] show ?thesis
      using assms(3) n unfolding l tell_start by blast
  qed
  then show ?thesis by blast
qed

lemma cached_file_returns:
  assumes "\<forall>r\<in>set (f_reads f). 0 < r" and "f_off f = 0" and "spec_ops (f_data f) ops 0 = Some (rs, p)" and "0 \<le> sz"
  shows "\<exists>N. \<forall>sch. calm sch \<and> (\<forall>x\<in>set sch. 0 < fst x) \<and> N \<le> length sch \<longrightarrow>
     (\<exists>r. do_ops file_driver ops (with_cache (open_file f) sz seek_limit sch) = Some r)"
  using cached_file_live [OF assms, of seek_limit] by blast

text \<open>
  C7: The reader of the cache is never stuck: if the filler gets to run in every round of the
  reader, and nobody interrupts it, then after enough rounds all operations have returned,
  with the right results. The number of rounds depends only on the operations and the cache.
\<close>

theorem cached_stream_live:
  assumes "\<forall>r\<in>set (f_reads f). 0 < r" and "f_off f = 0" and "spec_ops (f_data f) ops 0 = Some (rs, p)" and "0 \<le> sz"
  shows "\<exists>N. \<forall>sch. calm sch \<and> (\<forall>x\<in>set sch. 0 < fst x) \<and> N \<le> length sch \<longrightarrow>
     (\<exists>s'. do_ops file_driver ops (with_cache (open_file f) sz seek_limit sch) = Some (rs, s') \<and> stream_tell (st_of s') = p)"
  by (rule cached_file_live [OF assms])

theorem cached_stream_live_witness:
  "\<exists>N. \<forall>sch. calm sch \<and> (\<forall>x\<in>set sch. 0 < fst x) \<and> N \<le> length sch \<longrightarrow>
     (\<exists>s'. do_ops file_driver ex_ops (with_cache (open_file ex_file) 0 0 sch) = Some (ex_results, s') \<and> stream_tell (st_of s') = 3)"
  by (rule cached_stream_live [OF _ _ ex_spec]) (simp_all add: ex_file_def)

theorem cached_stream_refines_spec_witness:
  "\<exists>sch s'. calm sch \<and> do_ops file_driver ex_ops (with_cache (open_file ex_file) 0 0 sch) = Some (ex_results, s') \<and>
     stream_tell (st_of s') = 3"
proof -
  have f: "\<forall>r\<in>set (f_reads ex_file). 0 < r" "f_off ex_file = 0" by (simp_all add: ex_file_def)
  obtain N where N: "\<And>sch. calm sch \<Longrightarrow> \<forall>x\<in>set sch. 0 < fst x \<Longrightarrow> N \<le> length sch \<Longrightarrow>
      \<exists>r. do_ops file_driver ex_ops (with_cache (open_file ex_file) 0 0 sch) = Some r"
    using cached_file_returns [OF f ex_spec order_refl, of 0] by blast
  let ?sch = "replicate N (1, False)"
  obtain rs' s' where d: "do_ops file_driver ex_ops (with_cache (open_file ex_file) 0 0 ?sch) = Some (rs', s')"
    using N [of ?sch] by (auto simp: calm_def)
  have "calm ?sch" by (simp add: calm_def)
  with cached_stream_refines_spec [OF f ex_spec order_refl _ d] d show ?thesis by blast
qed

subsection \<open>Pipes and memory\<close>

lemma pipe_fill:
  assumes "f_reads (s_priv s) = m # ms" and "0 < m" and "int m \<le> len" and "f_off (s_priv s) + m \<le> length (f_data (s_priv s))"
  shows "\<exists>bs. file_fill_buffer s len = (bs, s\<lparr>s_priv := (s_priv s)\<lparr>f_off := f_off (s_priv s) + m, f_reads := ms\<rparr>\<rparr>) \<and> length bs = m"
proof -
  have "min (nat len) m = m" "m \<le> length (drop (f_off (s_priv s)) (f_data (s_priv s)))" using assms(3,4) by auto
  then show ?thesis using assms(1) by (simp add: file_fill_buffer_def posix_read_def)
qed

text \<open>
  C38: A forward seek on a pipe can miss its position. The pipe is read in blocks up to the
  beginning of the block of the position; when a read has been short before, the last block
  ends behind it. The rest is then counted from there: the seek reports success, but the
  stream is behind the position asked for.
\<close>

theorem pipe_seek_overshoots:
  assumes "f_reads f = k # m # rest" and "0 < k" and "k \<le> 2048" and "m \<le> 2048" and "0 < m"
    and "f_off f + k + m \<le> length (f_data f)" and "b = t - t mod 2048"
    and "int (f_off f) < b" and "b < int (f_off f + k)" and "t - b \<le> int m" and "0 \<le> t"
  shows "\<exists>s'. stream_seek_long pipe_driver ((open_pipe f)\<lparr>s_pos := int (f_off f)\<rparr>) t = Some (1, s') \<and>
     stream_tell s' = int (f_off f + k) + (t - b) \<and> t < stream_tell s'"
proof -
  let ?s = "(open_pipe f)\<lparr>s_pos := int (f_off f), s_buf_pos := 0, s_buf_len := 0\<rparr>"
  obtain bs where bs: "file_fill_buffer ?s STREAM_BUFFER_SIZE = (bs, ?s\<lparr>s_priv := f\<lparr>f_off := f_off f + k, f_reads := m # rest\<rparr>\<rparr>)" "length bs = k"
    using pipe_fill [of ?s k "m # rest" STREAM_BUFFER_SIZE] assms(1-3,6) by (auto simp: open_pipe_def new_stream_def)
  let ?t = "(open_pipe f)\<lparr>s_priv := f\<lparr>f_off := f_off f + k, f_reads := m # rest\<rparr>, s_buf_pos := 0, s_buf_len := int k, s_pos := int (f_off f) + int k, s_buffer := bs\<rparr>"
  have ne: "bs \<noteq> []" using bs(2) assms(2) by auto
  have "forward_to ?t b = ?t" using assms(9) by (subst forward_to.simps) simp
  then have fwd: "forward_to ?s b = ?t"
    using bs ne assms(8) by (subst forward_to.simps) simp
  have seek: "stream_seek_internal pipe_driver ?s b = (-1, ?t)"
    using assms(8) fwd
    by (simp add: stream_seek_internal_def pipe_driver_def file_driver_def no_driver_def file_seek_forward_def open_pipe_def new_stream_def)
  let ?u = "?t\<lparr>s_eof := False\<rparr>"
  obtain cs where cs: "file_fill_buffer ?u STREAM_BUFFER_SIZE = (cs, ?u\<lparr>s_priv := f\<lparr>f_off := f_off f + k + m, f_reads := rest\<rparr>\<rparr>)" "length cs = m"
    using pipe_fill [of ?u m rest STREAM_BUFFER_SIZE] assms(4-6) by auto
  have ne2: "cs \<noteq> []" using cs(2) assms(5) by auto
  have raw: "raw_read pipe_driver ?u STREAM_BUFFER_SIZE = (cs, ?u\<lparr>s_priv := f\<lparr>f_off := f_off f + k + m, f_reads := rest\<rparr>\<rparr>)"
    unfolding cs(1) [symmetric] by (simp add: raw_read_def pipe_driver_def file_driver_def no_driver_def open_pipe_def new_stream_def)
  let ?v = "?u\<lparr>s_priv := f\<lparr>f_off := f_off f + k + m, f_reads := rest\<rparr>, s_pos := int (f_off f) + int k + int m,
      s_buf_pos := 0, s_buf_len := int m, s_buffer := cs\<rparr>"
  have "stream_read_internal pipe_driver ?u STREAM_BUFFER_SIZE =
      Some (cs, ?u\<lparr>s_priv := f\<lparr>f_off := f_off f + k + m, f_reads := rest\<rparr>, s_eof := False, s_pos := int (f_off f) + int k + int m\<rparr>)"
    by (subst stream_read_internal.simps) (simp only: raw, simp add: ne2 cs(2))
  then have fill: "stream_fill_buffer pipe_driver ?u = Some (int m, ?v)"
    by (simp add: stream_fill_buffer_def ne2 cs(2))
  have blocks: "seek_in_blocks pipe_driver (t - b) ?u = Some (?v\<lparr>s_buf_pos := t - b\<rparr>)"
    by (subst seek_in_blocks.simps) (simp only: fill, simp add: assms(5,10))
  have up: "read_up_to pipe_driver b ?t = Some ?t" using assms(9) by (subst read_up_to.simps) simp
  have b: "seek_block ?s t = b" "s_mode ?s \<noteq> STREAM_WRITE" by (simp_all add: seek_block_def assms(7) open_pipe_def new_stream_def)
  have "stream_seek_long pipe_driver ((open_pipe f)\<lparr>s_pos := int (f_off f)\<rparr>) t = Some (1, ?v\<lparr>s_buf_pos := t - b\<rparr>)"
    unfolding stream_seek_long_def Let_def using b seek up blocks by simp
  then show ?thesis using assms(9) by (simp add: stream_tell_def)
qed

theorem pipe_seek_overshoots_witness:
  "\<exists>s'. stream_seek_long pipe_driver
      ((open_pipe \<lparr>f_data = replicate 9000 (CHR ''x''), f_off = 1000, f_reads = [2048, 2048], f_writes = []\<rparr>)\<lparr>s_pos := 1000\<rparr>) 3000 =
      Some (1, s') \<and> stream_tell s' = 4000"
  using pipe_seek_overshoots [of "\<lparr>f_data = replicate 9000 (CHR ''x''), f_off = 1000, f_reads = [2048, 2048], f_writes = []\<rparr>"
      2048 2048 "[]" 2048 3000] by auto

text \<open>
  A memory stream does not survive a seek to its end: the seek drops the buffer, which
  is the only place where the data are. After seeking back to the beginning nothing can be
  read.
\<close>

theorem memory_stream_seek_end_loses:
  assumes "bs \<noteq> []" and "0 < n"
  shows "\<exists>r1 s1 r2 s2 s3. stream_seek no_driver (no_cache (new_memory_stream bs)) (int (length bs)) = Some (r1, s1) \<and>
     stream_seek no_driver s1 0 = Some (r2, s2) \<and> stream_read no_driver s2 n = Some ([], s3)"
proof -
  let ?n = "int (length bs)"
  let ?m = "(new_memory_stream bs)\<lparr>s_buf_pos := 0, s_buf_len := 0\<rparr>"
  let ?e = "?m\<lparr>s_eof := True\<rparr>"
  note defs = raw_read_def no_driver_def new_memory_stream_def new_stream_def
  have pos: "0 < ?n" using assms(1) by simp
  have read: "stream_fill_buffer no_driver ?m = Some (0, ?e)" "stream_fill_buffer no_driver ?e = Some (0, ?e)"
  proof -
    have "stream_read_internal no_driver ?m 2048 = Some ([], ?e)" "stream_read_internal no_driver ?e 2048 = Some ([], ?e)"
      using pos by (subst stream_read_internal.simps, simp add: defs)+
    then show "stream_fill_buffer no_driver ?m = Some (0, ?e)" "stream_fill_buffer no_driver ?e = Some (0, ?e)"
      by (simp_all add: stream_fill_buffer_def)
  qed
  obtain r s where s: "stream_seek_long no_driver (new_memory_stream bs) ?n = Some (r, s)" "s = ?m \<or> s = ?e"
  proof (cases "?n mod 2048 = 0")
    case True
    then have b: "seek_block ?m ?n = ?n" by (simp add: seek_block_def new_memory_stream_def new_stream_def)
    have "stream_seek_internal no_driver ?m ?n = (-1, ?m)" using pos by (simp add: stream_seek_internal_def defs)
    moreover have "read_up_to no_driver ?n ?m = Some ?m" by (subst read_up_to.simps) (simp add: defs)
    moreover have "seek_in_blocks no_driver 0 (?m\<lparr>s_eof := False\<rparr>) = Some ?e"
    proof -
      have "?m\<lparr>s_eof := False\<rparr> = ?m" by (simp add: new_memory_stream_def new_stream_def)
      then show ?thesis using read(1) by (subst seek_in_blocks.simps) (simp add: new_memory_stream_def new_stream_def)
    qed
    ultimately have "stream_seek_long no_driver (new_memory_stream bs) ?n = Some (1, ?e)"
      using b by (simp add: stream_seek_long_def Let_def) (simp add: new_memory_stream_def new_stream_def)
    then show ?thesis by (rule that) simp
  next
    case False
    then have b: "seek_block ?m ?n = ?n - ?n mod 2048" "?n - ?n mod 2048 \<noteq> ?n"
      by (simp_all add: seek_block_def new_memory_stream_def new_stream_def)
    then have "stream_seek_internal no_driver ?m (?n - ?n mod 2048) = (0, ?m)" by (simp add: stream_seek_internal_def defs)
    then have "stream_seek_long no_driver (new_memory_stream bs) ?n = Some (0, ?m)"
      using b by (simp add: stream_seek_long_def Let_def) (simp add: new_memory_stream_def new_stream_def)
    then show ?thesis by (rule that) simp
  qed
  let ?c = "no_cache (new_memory_stream bs)"
  have seek1: "stream_seek no_driver ?c ?n = Some (r, no_cache s)"
    using pos s(1) by (simp add: stream_seek_def no_cache_def cache_stream_seek_long_def new_memory_stream_def new_stream_def)
  have same: "s_buf_pos s = 0" "s_buf_len s = 0" "s_pos s = ?n" "s_type s = STREAMTYPE_MEMORY" "s_mode s = STREAM_READ" "s_sector_size s = 0"
    using s(2) by (auto simp: new_memory_stream_def new_stream_def)
  have reset: "s\<lparr>s_buf_pos := 0, s_buf_len := 0\<rparr> = s" using same by (cases s) simp
  have "stream_seek_long no_driver s 0 = Some (0, s)"
    using same reset by (simp add: stream_seek_long_def Let_def seek_block_def stream_seek_internal_def no_driver_def)
  then have seek2: "stream_seek no_driver (no_cache s) 0 = Some (0, no_cache s)"
    using pos same by (simp add: stream_seek_def no_cache_def cache_stream_seek_long_def)
  have "stream_read no_driver (no_cache s) n = Some ([], no_cache ?e)"
    using assms(2) same(1,2) s(2) read
    by (subst stream_read.simps) (auto simp: no_cache_def cache_stream_fill_buffer_def)
  then show ?thesis using seek1 seek2 by blast
qed

theorem memory_stream_seek_end_loses_witness:
  "\<exists>r1 s1 r2 s2 s3. stream_seek no_driver (no_cache (new_memory_stream ''abc'')) 3 = Some (r1, s1) \<and>
     stream_seek no_driver s1 0 = Some (r2, s2) \<and> stream_read no_driver s2 2 = Some ([], s3)"
  using memory_stream_seek_end_loses [of "''abc''" 2] by simp

end
