(* ===== verification/Demux_Raw.thy ===== *)
theory Demux_Raw
  imports Demuxer Stream_File
begin

text \<open>
  The demuxers for raw audio and raw video (\<open>libmpdemux/demux_rawaudio.c\<close>,
  \<open>libmpdemux/demux_rawvideo.c\<close>) on a byte stream: they are demuxers in the sense of
  \<open>demux_source\<close>, so that reading from the demuxer gives the bytes of the file.
\<close>

subsection \<open>Packets from the stream\<close>

text \<open>\<open>ds_read_packet\<close> before it appends the packet; \<open>junk\<close> are the contents of new memory.\<close>

definition read_packet :: "(nat \<Rightarrow> char) \<Rightarrow> 'd driver \<Rightarrow> 'd cstream \<Rightarrow> int \<Rightarrow> demux_packet \<Rightarrow> (demux_packet \<times> 'd cstream) option" where
  "read_packet junk drv st len dp =
     do {
       (bs, st) \<leftarrow> stream_read drv st len;
       buf \<leftarrow> put_bytes 0 bs (dp_buffer dp);
       dp \<leftarrow> resize_demux_packet junk (dp\<lparr>dp_buffer := buf\<rparr>) (int (length bs));
       Some (dp, st) }"

definition ds_read_packet ::
  "(nat \<Rightarrow> char) \<Rightarrow> 'd driver \<Rightarrow> 'd cstream \<Rightarrow> int \<Rightarrow> double \<Rightarrow> int \<Rightarrow> bool \<Rightarrow> (demux_packet \<times> 'd cstream) option"
where
  "ds_read_packet junk drv st len pts pos keyframe =
     do {
       dp \<leftarrow> new_demux_packet junk len;
       (dp, st) \<leftarrow> read_packet junk drv st len dp;
       Some (dp\<lparr>dp_pts := pts, dp_pos := pos, dp_keyframe := keyframe\<rparr>, st) }"

subsection \<open>Raw audio\<close>

text \<open>The options of the demuxer, with the ranges of \<open>demux_rawaudio_opts\<close>.\<close>

record rawaudio_opts =
  ra_channels :: int
  ra_samplerate :: int
  ra_samplesize :: int
  ra_bitrate :: int
  ra_format :: int

definition rawaudio_defaults :: rawaudio_opts where
  "rawaudio_defaults = \<lparr>ra_channels = 2, ra_samplerate = 44100, ra_samplesize = 2, ra_bitrate = 0, ra_format = 1\<rparr>"

definition rawaudio_ranges :: "rawaudio_opts \<Rightarrow> bool" where
  "rawaudio_ranges opt \<longleftrightarrow>
     1 \<le> ra_channels opt \<and> ra_channels opt \<le> 8 \<and> 1000 \<le> ra_samplerate opt \<and> ra_samplerate opt \<le> 8 * 48000 \<and>
     1 \<le> ra_samplesize opt \<and> ra_samplesize opt \<le> 8 \<and> 0 \<le> ra_bitrate opt \<and> ra_bitrate opt < 2 ^ 31 \<and> 0 \<le> ra_format opt"

definition rawaudio_bytes_per_sec :: "rawaudio_opts \<Rightarrow> int" where
  "rawaudio_bytes_per_sec opt =
     (if 999 < ra_bitrate opt then ra_bitrate opt sdiv 8
      else if 0 < ra_bitrate opt then ra_bitrate opt * 125
      else ra_samplerate opt * ra_samplesize opt * ra_channels opt)"

definition demux_rawaudio_open :: "rawaudio_opts \<Rightarrow> ('d, 'q) sdemuxer \<Rightarrow> ('d, 'q) sdemuxer option" where
  "demux_rawaudio_open opt d =
     (let (sh, d) = new_sh_audio_aid d 0 0
      in do {
        i \<leftarrow> sh; h \<leftarrow> dm_a_streams d i;
        let h = h\<lparr>sa_format := word_of_int (ra_format opt), sa_channels := ra_channels opt, sa_samplerate := ra_samplerate opt,
                  sa_avg_bytes := rawaudio_bytes_per_sec opt, sa_samplesize := ra_samplesize opt\<rparr>;
        Some (d\<lparr>dm_a_streams := (dm_a_streams d)(i \<mapsto> h), dm_movi_start := s_start_pos (st_of (dm_stream d)),
                dm_movi_end := s_end_pos (st_of (dm_stream d)), dm_audio := (dm_audio d)\<lparr>ds_id := 0, ds_sh := Some i\<rparr>\<rparr>) })"

text \<open>\<open>quot\<close> is the division of the position by the bytes per second, as \<open>float\<close>.\<close>

definition demux_rawaudio_fill_buffer ::
  "(nat \<Rightarrow> char) \<Rightarrow> (int \<Rightarrow> int \<Rightarrow> double) \<Rightarrow> 'd driver \<Rightarrow> ('d cstream \<times> 'q) fill"
where
  "demux_rawaudio_fill_buffer junk quot drv d s =
     do {
       i \<leftarrow> ds_sh (dm_audio d); h \<leftarrow> dm_a_streams d i;
       let l = sa_avg_bytes h;
       let spos = stream_tell (st_of (dm_stream d));
       if s_eof (st_of (dm_stream d)) then Some (False, [], dm_priv d)
       else do {
         dp \<leftarrow> new_demux_packet junk l;
         let dp = dp\<lparr>dp_pts := quot (spos - dm_movi_start d) l, dp_pos := spos - dm_movi_start d\<rparr>;
         (dp, st) \<leftarrow> read_packet junk drv (dm_stream d) l dp;
         Some (True, [(s, dp)], (st, snd (dm_priv d))) } }"

text \<open>
  Seeking; \<open>advance b x\<close> is \<open>b + x * rel_seek_secs\<close>, computed in floating point and converted
  to a file position.
\<close>

abbreviation (input) SEEK_ABSOLUTE :: int where "SEEK_ABSOLUTE \<equiv> 1"
abbreviation (input) SEEK_FACTOR :: int where "SEEK_FACTOR \<equiv> 2"

definition demux_rawaudio_seek :: "(int \<Rightarrow> int \<Rightarrow> int) \<Rightarrow> 'd driver \<Rightarrow> ('d, 'q) sdemuxer \<Rightarrow> int \<Rightarrow> int \<Rightarrow> ('d, 'q) sdemuxer option" where
  "demux_rawaudio_seek advance drv d i_bps flags =
     do {
       i \<leftarrow> ds_sh (dm_audio d); h \<leftarrow> dm_a_streams d i;
       let base = (if and flags SEEK_ABSOLUTE \<noteq> 0 then dm_movi_start d else stream_tell (st_of (dm_stream d)));
       let pos = (if and flags SEEK_FACTOR \<noteq> 0 then advance base (dm_movi_end d - dm_movi_start d) else advance base i_bps);
       if sa_channels h * sa_samplesize h = 0 then None
       else do {
         let pos = pos - pos smod (sa_channels h * sa_samplesize h);
         (_, st) \<leftarrow> stream_seek drv (dm_stream d) pos;
         Some (d\<lparr>dm_priv := (st, snd (dm_priv d))\<rparr>) } }"

subsection \<open>Raw video\<close>

text \<open>
  The static variables of the demuxer, which the options set and which keep their values from
  one file to the next. The frame rate and its reciprocal are floats.
\<close>

record rawvideo_state =
  rv_format :: "32 word"
  rv_size_id :: int
  rv_width :: int
  rv_height :: int
  rv_fps :: "32 word"
  rv_imgsize :: int

definition standard_size :: "int \<Rightarrow> (int \<times> int) option" where
  "standard_size n =
     map_of [(1, (128, 96)), (2, (176, 144)), (3, (352, 288)), (4, (704, 576)), (5, (720, 576)), (6, (720, 480)),
             (7, (1408, 1152)), (8, (352, 240))] n"

text \<open>The bytes of a picture, if the format is known (\<open>libmpcodecs/img_format.h\<close>).\<close>

definition rawvideo_imgsize :: "32 word \<Rightarrow> int \<Rightarrow> int \<Rightarrow> int option" where
  "rawvideo_imgsize format width height =
     (if format \<in> {0x30323449, 0x56555949, 0x3231564E, 0x32314D48, 0x32315659}
      then Some (width * height + 2 * drop_bit 1 width * drop_bit 1 height)
      else if format \<in> {0x32595559, 0x59565955} then Some (width * height * 2)
      else if format \<in> {0x30303859, 0x20203859} then Some (width * height)
      else if and format 0xFFFFFF00 \<in> {0x52474200, 0x42475200}
      then Some (width * height * drop_bit 3 (uint (and format 0x3F) + 7))
      else None)"

text \<open>\<open>recip\<close> is the reciprocal of the frame rate, \<open>bps\<close> its product with the size of a picture.\<close>

definition demux_rawvideo_open ::
  "(32 word \<Rightarrow> 32 word) \<Rightarrow> (32 word \<Rightarrow> int \<Rightarrow> int) \<Rightarrow> rawvideo_state \<Rightarrow> ('d, 'q) sdemuxer \<Rightarrow> (('d, 'q) sdemuxer option \<times> rawvideo_state) option"
where
  "demux_rawvideo_open recip bps rv d =
     (let rv = (case standard_size (rv_size_id rv) of Some (w, h) \<Rightarrow> rv\<lparr>rv_width := w, rv_height := h\<rparr> | None \<Rightarrow> rv)
      in if rv_width rv = 0 \<or> rv_height rv = 0 then Some (None, rv)
         else
           (case (if rv_imgsize rv = 0 then rawvideo_imgsize (rv_format rv) (rv_width rv) (rv_height rv) else Some (rv_imgsize rv)) of
              None \<Rightarrow> Some (None, rv)
            | Some n \<Rightarrow>
                (let rv = rv\<lparr>rv_imgsize := n\<rparr>; (sh, d) = new_sh_video_vid d 0 0
                 in do {
                   i \<leftarrow> sh; h \<leftarrow> dm_v_streams d i;
                   Some (Some (d\<lparr>dm_v_streams := (dm_v_streams d)(i \<mapsto> h\<lparr>sv_format := rv_format rv, sv_fps := rv_fps rv, sv_frametime := recip (rv_fps rv),
                                   sv_disp_w := rv_width rv, sv_disp_h := rv_height rv, sv_i_bps := bps (rv_fps rv) n\<rparr>),
                                 dm_movi_start := s_start_pos (st_of (dm_stream d)), dm_movi_end := s_end_pos (st_of (dm_stream d)),
                                 dm_video := (dm_video d)\<lparr>ds_sh := Some i\<rparr>\<rparr>), rv) })))"

text \<open>\<open>scaled\<close> is the product with the frame time, in floating point.\<close>

definition demux_rawvideo_fill_buffer ::
  "(nat \<Rightarrow> char) \<Rightarrow> (int \<Rightarrow> 32 word \<Rightarrow> double) \<Rightarrow> int \<Rightarrow> 'd driver \<Rightarrow> ('d cstream \<times> 'q) fill"
where
  "demux_rawvideo_fill_buffer junk scaled imgsize drv d s =
     (if s_eof (st_of (dm_stream d)) then Some (False, [], dm_priv d)
      else if s \<noteq> Video then Some (False, [], dm_priv d)
      else do {
        let pos = stream_tell (st_of (dm_stream d));
        i \<leftarrow> ds_sh (dm_video d); h \<leftarrow> dm_v_streams d i;
        if imgsize = 0 then None
        else do {
          (dp, st) \<leftarrow> ds_read_packet junk drv (dm_stream d) imgsize (scaled (pos sdiv imgsize) (sv_frametime h)) pos True;
          Some (True, [(s, dp)], (st, snd (dm_priv d))) } })"

text \<open>Seeking sets the position, a picture at a time, and the time of the stream.\<close>

definition demux_rawvideo_seek ::
  "(int \<Rightarrow> int \<Rightarrow> int) \<Rightarrow> (int \<Rightarrow> 32 word \<Rightarrow> double) \<Rightarrow> int \<Rightarrow> 'd driver \<Rightarrow> ('d, 'q) sdemuxer \<Rightarrow> int \<Rightarrow> int \<Rightarrow> ('d, 'q) sdemuxer option"
where
  "demux_rawvideo_seek advance scaled imgsize drv d i_bps flags =
     do {
       i \<leftarrow> ds_sh (dm_video d); h \<leftarrow> dm_v_streams d i;
       let pos = (if and flags SEEK_ABSOLUTE \<noteq> 0 then dm_movi_start d else stream_tell (st_of (dm_stream d)));
       let pos = (if and flags SEEK_FACTOR \<noteq> 0 then advance pos (dm_movi_end d - dm_movi_start d) else advance pos i_bps);
       let pos = (if pos < 0 then 0 else pos);
       let pos = (if dm_movi_end d \<noteq> 0 \<and> dm_movi_end d < pos then dm_movi_end d - imgsize else pos);
       if imgsize = 0 then None
       else do {
         let pos = pos sdiv imgsize;
         (_, st) \<leftarrow> stream_seek drv (dm_stream d) (pos * imgsize);
         Some (d\<lparr>dm_priv := (st, snd (dm_priv d)), dm_video := (dm_video d)\<lparr>ds_pts := scaled pos (sv_frametime h)\<rparr>\<rparr>) } }"

subsection \<open>They are demuxers\<close>

context byte_source
begin

text \<open>The flag \<open>eof\<close> of a stream that is only read is set at the end, and when a read was cut short.\<close>

definition eof_at_end :: "'d cstream \<Rightarrow> bool" where
  "eof_at_end s \<longleftrightarrow> (s_eof (st_of s) \<longrightarrow> int (length content) \<le> pos s)"

lemma refill_eof:
  assumes "inv s" and "eof_at_end s" and "refill s = Some (r, s')"
  shows "eof_at_end s'" "r = 0 \<Longrightarrow> s_eof (st_of s')"
proof -
  have "eof_at_end s' \<and> (r = 0 \<longrightarrow> s_eof (st_of s'))"
  proof (cases "s_buf_len (st_of s) - s_buf_pos (st_of s) = 0")
    case True
    then show ?thesis using fill [OF assms(1), of r s'] assms(3) unfolding refill_def by (auto simp: eof_at_end_def)
  next
    case False
    then show ?thesis using assms(2,3) by (auto simp: refill_def)
  qed
  then show "eof_at_end s'" "r = 0 \<Longrightarrow> s_eof (st_of s')" by simp_all
qed

lemma read_eof:
  assumes "inv s" and "eof_at_end s" and "stream_read drv s len = Some (bs, s')"
  shows "eof_at_end s' \<and> (int (length bs) < len \<longrightarrow> s_eof (st_of s'))"
  using assms
proof (induction "nat len" arbitrary: s len bs rule: less_induct)
  case less
  show ?case
  proof (cases "0 < len")
    case False
    then show ?thesis using less.prems by (subst (asm) stream_read_unfold) auto
  next
    case True
    obtain r s1 where s1: "refill s = Some (r, s1)"
      using less.prems(3) True by (subst (asm) stream_read_unfold) (auto simp: bind_eq_Some_conv)
    note rf = refill_ok [OF less.prems(1) s1] and re = refill_eof [OF less.prems(1,2) s1]
    show ?thesis
    proof (cases "r = 0")
      case end_of: True
      then show ?thesis using less.prems re s1 True by (subst (asm) stream_read_unfold) auto
    next
      case False
      define x where "x = min (s_buf_len (st_of s1) - s_buf_pos (st_of s1)) len"
      have x: "0 < x" "x \<le> s_buf_len (st_of s1) - s_buf_pos (st_of s1)" "x \<le> len" using rf(3,4) False True by (auto simp: x_def)
      note bb = buffer_bytes [OF rf(1) less_imp_le [OF x(1)] x(2)] and mv = move_pos [OF rf(1) less_imp_le [OF x(1)] x(2)]
      let ?s2 = "set_buf_pos (s_buf_pos (st_of s1) + x) s1" and ?b = "take (nat x) (drop (nat (pos s1)) content)"
      obtain rest where rest: "stream_read drv ?s2 (len - x) = Some (rest, s')" "bs = ?b @ rest"
        using less.prems(3) True s1 False bb(1)
        by (subst (asm) stream_read_unfold) (auto simp: bind_eq_Some_conv x_def [symmetric])
      have e2: "eof_at_end ?s2" using re(1) mv(2) x(1) by (auto simp: eof_at_end_def set_buf_pos_def)
      have IH: "eof_at_end s' \<and> (int (length rest) < len - x \<longrightarrow> s_eof (st_of s'))"
        by (rule less.hyps [OF _ mv(1) e2 rest(1)]) (use x in simp)
      have "int (length ?b) = x" using bb(2) x(1) by auto
      then show ?thesis using IH rest(2) by auto
    qed
  qed
qed

text \<open>A packet read from the stream.\<close>

lemma read_packet_ok:
  assumes "inv st" and "eof_at_end st" and "read_packet junk drv st len dp = Some (dp', st')" and "0 \<le> len"
  shows "packet_ok dp'" "packet_data dp' = take (nat len) (drop (nat (pos st)) content)" "inv st'" "eof_at_end st'"
    "pos st' = pos st + dp_len dp'" "dp_len dp' < len \<Longrightarrow> s_eof (st_of st')"
    "drop (nat (pos st)) content = packet_data dp' @ drop (nat (pos st')) content"
proof -
  from assms(3) obtain bs buf where r: "stream_read drv st len = Some (bs, st')" "put_bytes 0 bs (dp_buffer dp) = Some buf"
    "resize_demux_packet junk (dp\<lparr>dp_buffer := buf\<rparr>) (int (length bs)) = Some dp'"
    unfolding read_packet_def by (auto elim!: bind_eq_SomeE)
  note ok = read_ok [OF assms(1) r(1)] and e = read_eof [OF assms(1,2) r(1)]
  have buf: "length bs \<le> length buf" "take (length bs) buf = bs"
    using r(2) by (auto simp: put_bytes_def split: if_splits)
  have "int (length bs) \<le> 1000000000" using r(3) by (auto simp: resize_demux_packet_def too_large_def split: if_splits)
  from resize_packet_data [of "int (length bs)" "dp\<lparr>dp_buffer := buf\<rparr>" junk] this buf r(3)
  have d: "packet_ok dp'" "packet_data dp' = bs" "dp_len dp' = int (length bs)" by auto
  then show "packet_ok dp'" "inv st'" "eof_at_end st'" "pos st' = pos st + dp_len dp'" "dp_len dp' < len \<Longrightarrow> s_eof (st_of st')"
    using ok e by auto
  show pd: "packet_data dp' = take (nat len) (drop (nat (pos st)) content)" using d(2) ok by simp
  have "pos st' = pos st + int (length bs)" using ok by blast
  then have "nat (pos st') = length bs + nat (pos st)" using inv_nonneg [OF assms(1)] by linarith
  moreover have "bs = take (length bs) (drop (nat (pos st)) content)" using ok by (metis take_take min.absorb1 length_take min.cobounded1 append_take_drop_id append_eq_conv_conj)
  ultimately show "drop (nat (pos st)) content = packet_data dp' @ drop (nat (pos st')) content"
    unfolding d(2) by (metis append_take_drop_id drop_drop)
qed

definition raw_rest :: "('d, 'q) sdemuxer \<Rightarrow> strm \<Rightarrow> string" where
  "raw_rest d t = drop (nat (pos (dm_stream d))) content"

definition rawaudio_ok :: "('d, 'q) sdemuxer \<Rightarrow> bool" where
  "rawaudio_ok d \<longleftrightarrow>
     inv (dm_stream d) \<and> eof_at_end (dm_stream d) \<and>
     (\<exists>i h. ds_sh (dm_audio d) = Some i \<and> dm_a_streams d i = Some h \<and> 0 < sa_avg_bytes h \<and> sa_avg_bytes h \<le> 1000000000)"

definition rawvideo_ok :: "int \<Rightarrow> ('d, 'q) sdemuxer \<Rightarrow> bool" where
  "rawvideo_ok imgsize d \<longleftrightarrow>
     inv (dm_stream d) \<and> eof_at_end (dm_stream d) \<and> 0 < imgsize \<and> imgsize \<le> 1000000000 \<and>
     (\<exists>i h. ds_sh (dm_video d) = Some i \<and> dm_v_streams d i = Some h)"

lemma raw_frame:
  assumes "demux_setup d = demux_setup d'"
  shows "dm_stream d' = dm_stream d" "raw_rest d' = raw_rest d" "rawaudio_ok d' = rawaudio_ok d" "rawvideo_ok n d' = rawvideo_ok n d"
proof -
  have f: "dm_priv d' = dm_priv d" "ds_sh (dm_audio d') = ds_sh (dm_audio d)" "ds_sh (dm_video d') = ds_sh (dm_video d)"
    "dm_a_streams d' = dm_a_streams d" "dm_v_streams d' = dm_v_streams d"
    using assms by (simp_all add: demux_setup_def ds_setup_def)
  show "dm_stream d' = dm_stream d" "raw_rest d' = raw_rest d" "rawaudio_ok d' = rawaudio_ok d" "rawvideo_ok n d' = rawvideo_ok n d"
    by (simp_all add: fun_eq_iff raw_rest_def rawaudio_ok_def rawvideo_ok_def f)
qed

lemma rawaudio_fill:
  assumes "rawaudio_ok d" and "demux_rawaudio_fill_buffer junk quot drv d s = Some (r, ps, p)"
  shows "rawaudio_ok (d\<lparr>dm_priv := p\<rparr>)" "\<forall>(t, dp)\<in>set ps. packet_ok dp"
    "raw_rest d s = packets_for s ps @ raw_rest (d\<lparr>dm_priv := p\<rparr>) s" "\<not> r \<Longrightarrow> raw_rest d s = []"
    "r \<Longrightarrow> packet_data (snd (hd ps)) = [] \<Longrightarrow> raw_rest d s = []"
proof -
  from assms(1) obtain i h where h: "ds_sh (dm_audio d) = Some i" "dm_a_streams d i = Some h" "0 < sa_avg_bytes h" "sa_avg_bytes h \<le> 1000000000"
    and inv: "inv (dm_stream d)" "eof_at_end (dm_stream d)" unfolding rawaudio_ok_def by blast
  have "rawaudio_ok (d\<lparr>dm_priv := p\<rparr>) \<and> (\<forall>(t, dp)\<in>set ps. packet_ok dp) \<and>
    raw_rest d s = packets_for s ps @ raw_rest (d\<lparr>dm_priv := p\<rparr>) s \<and> (\<not> r \<longrightarrow> raw_rest d s = []) \<and>
    (r \<longrightarrow> packet_data (snd (hd ps)) = [] \<longrightarrow> raw_rest d s = [])"
  proof (cases "s_eof (st_of (dm_stream d))")
    case True
    then have "r = False" "ps = []" "p = dm_priv d" using assms(2) h by (auto simp: demux_rawaudio_fill_buffer_def)
    then show ?thesis using assms(1) inv True by (simp add: raw_rest_def eof_at_end_def nat_le_iff)
  next
    case False
    then have "do { dp \<leftarrow> new_demux_packet junk (sa_avg_bytes h);
        x \<leftarrow> read_packet junk drv (dm_stream d) (sa_avg_bytes h)
          (dp\<lparr>dp_pts := quot (pos (dm_stream d) - dm_movi_start d) (sa_avg_bytes h), dp_pos := pos (dm_stream d) - dm_movi_start d\<rparr>);
        Some (True, [(s, fst x)], (snd x, snd (dm_priv d))) } = Some (r, ps, p)"
      using assms(2) h by (simp add: demux_rawaudio_fill_buffer_def Let_def case_prod_unfold)
    then obtain dp where "do { x \<leftarrow> read_packet junk drv (dm_stream d) (sa_avg_bytes h) dp;
        Some (True, [(s, fst x)], (snd x, snd (dm_priv d))) } = Some (r, ps, p)"
      by (rule bind_eq_SomeE)
    then obtain x where x: "read_packet junk drv (dm_stream d) (sa_avg_bytes h) dp = Some x"
      "Some (True, [(s, fst x)], (snd x, snd (dm_priv d))) = Some (r, ps, p)"
      by (rule bind_eq_SomeE)
    obtain e st where e: "x = (e, st)" by (cases x)
    note r = x(1) [unfolded e]
    have e': "r" "ps = [(s, e)]" "p = (st, snd (dm_priv d))" using x(2) e by auto
    note q = read_packet_ok [OF inv r less_imp_le [OF h(3)]]
    have "packets_for s ps = packet_data e" "\<forall>(t, dp)\<in>set ps. packet_ok dp" using q(1) e' by simp_all
    moreover have "packet_data (snd (hd ps)) = [] \<longrightarrow> raw_rest d s = []" using q(2) h(3) e'(2) by (simp add: raw_rest_def nat_le_iff)
    ultimately show ?thesis using q(3,4,7) h e'(1,3) by (simp add: rawaudio_ok_def raw_rest_def)
  qed
  then show "rawaudio_ok (d\<lparr>dm_priv := p\<rparr>)" "\<forall>(t, dp)\<in>set ps. packet_ok dp"
    "raw_rest d s = packets_for s ps @ raw_rest (d\<lparr>dm_priv := p\<rparr>) s" "\<not> r \<Longrightarrow> raw_rest d s = []"
    "r \<Longrightarrow> packet_data (snd (hd ps)) = [] \<Longrightarrow> raw_rest d s = []" by blast+
qed

lemma rawvideo_fill:
  assumes "rawvideo_ok n d" and "demux_rawvideo_fill_buffer junk scaled n drv d Video = Some (r, ps, p)"
  shows "rawvideo_ok n (d\<lparr>dm_priv := p\<rparr>)" "\<forall>(t, dp)\<in>set ps. packet_ok dp"
    "raw_rest d Video = packets_for Video ps @ raw_rest (d\<lparr>dm_priv := p\<rparr>) Video" "\<not> r \<Longrightarrow> raw_rest d Video = []"
    "r \<Longrightarrow> packet_data (snd (hd ps)) = [] \<Longrightarrow> raw_rest d Video = []"
proof -
  from assms(1) obtain i h where h: "ds_sh (dm_video d) = Some i" "dm_v_streams d i = Some h" "0 < n" "n \<le> 1000000000"
    and inv: "inv (dm_stream d)" "eof_at_end (dm_stream d)" unfolding rawvideo_ok_def by blast
  have "rawvideo_ok n (d\<lparr>dm_priv := p\<rparr>) \<and> (\<forall>(t, dp)\<in>set ps. packet_ok dp) \<and>
    raw_rest d Video = packets_for Video ps @ raw_rest (d\<lparr>dm_priv := p\<rparr>) Video \<and> (\<not> r \<longrightarrow> raw_rest d Video = []) \<and>
    (r \<longrightarrow> packet_data (snd (hd ps)) = [] \<longrightarrow> raw_rest d Video = [])"
  proof (cases "s_eof (st_of (dm_stream d))")
    case True
    then have "r = False" "ps = []" "p = dm_priv d" using assms(2) h by (auto simp: demux_rawvideo_fill_buffer_def)
    then show ?thesis using assms(1) inv True by (simp add: raw_rest_def eof_at_end_def nat_le_iff)
  next
    case False
    define t where "t = scaled (pos (dm_stream d) sdiv n) (sv_frametime h)"
    have "do { dp \<leftarrow> new_demux_packet junk n;
        x \<leftarrow> read_packet junk drv (dm_stream d) n dp;
        Some (True, [(Video, (fst x)\<lparr>dp_pts := t, dp_pos := pos (dm_stream d), dp_keyframe := True\<rparr>)], (snd x, snd (dm_priv d))) } = Some (r, ps, p)"
      using assms(2) h False by (simp add: demux_rawvideo_fill_buffer_def ds_read_packet_def Let_def t_def case_prod_unfold)
    then obtain dp where "do { x \<leftarrow> read_packet junk drv (dm_stream d) n dp;
        Some (True, [(Video, (fst x)\<lparr>dp_pts := t, dp_pos := pos (dm_stream d), dp_keyframe := True\<rparr>)], (snd x, snd (dm_priv d))) } = Some (r, ps, p)"
      by (rule bind_eq_SomeE)
    then obtain x where x: "read_packet junk drv (dm_stream d) n dp = Some x"
      "Some (True, [(Video, (fst x)\<lparr>dp_pts := t, dp_pos := pos (dm_stream d), dp_keyframe := True\<rparr>)], (snd x, snd (dm_priv d))) = Some (r, ps, p)"
      by (rule bind_eq_SomeE)
    obtain e st where e: "x = (e, st)" by (cases x)
    note r = x(1) [unfolded e]
    have e': "r" "ps = [(Video, e\<lparr>dp_pts := t, dp_pos := pos (dm_stream d), dp_keyframe := True\<rparr>)]" "p = (st, snd (dm_priv d))"
      using x(2) e by auto
    note q = read_packet_ok [OF inv r less_imp_le [OF h(3)]]
    have "packets_for Video ps = packet_data e" "\<forall>(t, dp)\<in>set ps. packet_ok dp"
      using q(1) e' by (simp_all add: packet_data_def packet_ok_def)
    moreover have "packet_data (snd (hd ps)) = [] \<longrightarrow> raw_rest d Video = []"
      using q(2) h(3) e'(2) by (simp add: raw_rest_def packet_data_def nat_le_iff)
    ultimately show ?thesis using q(3,4,7) h e'(1,3) by (simp add: rawvideo_ok_def raw_rest_def)
  qed
  then show "rawvideo_ok n (d\<lparr>dm_priv := p\<rparr>)" "\<forall>(t, dp)\<in>set ps. packet_ok dp"
    "raw_rest d Video = packets_for Video ps @ raw_rest (d\<lparr>dm_priv := p\<rparr>) Video" "\<not> r \<Longrightarrow> raw_rest d Video = []"
    "r \<Longrightarrow> packet_data (snd (hd ps)) = [] \<Longrightarrow> raw_rest d Video = []" by blast+
qed

end

sublocale byte_source \<subseteq> rawaudio: demux_source "demux_rawaudio_fill_buffer junk quot drv" "{Audio}" rawaudio_ok raw_rest
  for junk :: "nat \<Rightarrow> char" and quot :: "int \<Rightarrow> int \<Rightarrow> double"
proof (unfold_locales, goal_cases)
  case (1 s d r ps p)
  then show ?case using rawaudio_fill [OF 1(2,3)] by auto
next
  case (2 d d')
  then show ?case using raw_frame [OF 2(1)] by simp
qed

sublocale byte_source \<subseteq> rawvideo: demux_source "demux_rawvideo_fill_buffer junk scaled imgsize drv" "{Video}" "rawvideo_ok imgsize" raw_rest
  for junk :: "nat \<Rightarrow> char" and scaled :: "int \<Rightarrow> 32 word \<Rightarrow> double" and imgsize :: int
proof (unfold_locales, goal_cases)
  case (1 s d r ps p)
  then show ?case using rawvideo_fill [OF 1(2), of junk scaled r ps p] by auto
next
  case (2 d d')
  then show ?case using raw_frame [OF 2(1)] by simp
qed

text \<open>They deliver a packet at a time.\<close>

context byte_source
begin

lemma rawaudio_lazy:
  "demux_rawaudio_fill_buffer junk quot drv d s = Some (r, ps, p) \<Longrightarrow> ps = (if r then [(s, snd (hd ps))] else [])"
  unfolding demux_rawaudio_fill_buffer_def Let_def case_prod_unfold
  by (elim bind_eq_SomeE; simp split: if_splits; elim bind_eq_SomeE; auto)

lemma rawvideo_lazy:
  "demux_rawvideo_fill_buffer junk scaled n drv d s = Some (r, ps, p) \<Longrightarrow> ps = (if r then [(s, snd (hd ps))] else [])"
  unfolding demux_rawvideo_fill_buffer_def Let_def case_prod_unfold
  by (simp split: if_splits; elim bind_eq_SomeE; simp split: if_splits; elim bind_eq_SomeE; auto)

end

sublocale byte_source \<subseteq> rawaudio_lazy: lazy_demux_source "demux_rawaudio_fill_buffer junk quot drv" "{Audio}" rawaudio_ok raw_rest
  for junk :: "nat \<Rightarrow> char" and quot :: "int \<Rightarrow> int \<Rightarrow> double"
  by unfold_locales (rule rawaudio_lazy)

sublocale byte_source \<subseteq> rawvideo_lazy: lazy_demux_source "demux_rawvideo_fill_buffer junk scaled imgsize drv" "{Video}" "rawvideo_ok imgsize" raw_rest
  for junk :: "nat \<Rightarrow> char" and scaled :: "int \<Rightarrow> 32 word \<Rightarrow> double" and imgsize :: int
  by unfold_locales (rule rawvideo_lazy)

text \<open>Their packets are empty only at the end.\<close>

context byte_source
begin

lemma rawaudio_full:
  assumes "rawaudio_ok d" and "demux_rawaudio_fill_buffer junk quot drv d s = Some (True, ps, p)" and "packet_data (snd (hd ps)) = []"
  shows "raw_rest (d\<lparr>dm_priv := p\<rparr>) s = []"
  using rawaudio_fill(3,5) [OF assms(1,2)] assms(3) by simp

lemma rawvideo_full:
  assumes "rawvideo_ok n d" and "demux_rawvideo_fill_buffer junk scaled n drv d Video = Some (True, ps, p)" and "packet_data (snd (hd ps)) = []"
  shows "raw_rest (d\<lparr>dm_priv := p\<rparr>) Video = []"
  using rawvideo_fill(3,5) [OF assms(1,2)] assms(3) by simp

end

sublocale byte_source \<subseteq> rawaudio_full: full_demux_source "demux_rawaudio_fill_buffer junk quot drv" "{Audio}" rawaudio_ok raw_rest
  for junk :: "nat \<Rightarrow> char" and quot :: "int \<Rightarrow> int \<Rightarrow> double"
  by unfold_locales (use rawaudio_full in blast)

sublocale byte_source \<subseteq> rawvideo_full: full_demux_source "demux_rawvideo_fill_buffer junk scaled imgsize drv" "{Video}" "rawvideo_ok imgsize" raw_rest
  for junk :: "nat \<Rightarrow> char" and scaled :: "int \<Rightarrow> 32 word \<Rightarrow> double" and imgsize :: int
  by unfold_locales (use rawvideo_full in blast)

subsection \<open>They come to an end\<close>

text \<open>A source that needs no fuel, such as a stream without a cache.\<close>

locale steady_source = live_source drv content inv "\<lambda>_. 0" 0
  for drv :: "'d driver" and content :: string and inv :: "'d cstream \<Rightarrow> bool"
begin

definition raw_rank :: "('d, 'q) sdemuxer \<Rightarrow> nat" where
  "raw_rank d = (if s_eof (st_of (dm_stream d)) then 0 else Suc (length content - nat (pos (dm_stream d))))"

lemma read_packet_returns:
  assumes "inv st" and "eof_at_end st" and "\<not> s_eof (st_of st)" and "0 < len" and "len \<le> 1000000000"
    and "len \<le> int (length (dp_buffer dp))"
  obtains dp' st' where "read_packet junk drv st len dp = Some (dp', st')"
    "s_eof (st_of st') \<or> length content - nat (pos st') < length content - nat (pos st)"
proof -
  from read_returns [OF assms(1), of len] obtain bs st' where r: "stream_read drv st len = Some (bs, st')" by auto
  have le: "int (length bs) \<le> len" using read_ok [OF assms(1) r] assms(4) by simp
  let ?buf = "bs @ drop (length bs) (dp_buffer dp)"
  have "put_bytes 0 bs (dp_buffer dp) = Some ?buf" using le assms(6) by (simp add: put_bytes_def)
  moreover from resize_packet_data [of "int (length bs)" "dp\<lparr>dp_buffer := ?buf\<rparr>" junk] le assms(5)
  obtain dp' where "resize_demux_packet junk (dp\<lparr>dp_buffer := ?buf\<rparr>) (int (length bs)) = Some dp'" by auto
  ultimately have rp: "read_packet junk drv st len dp = Some (dp', st')" using r by (simp add: read_packet_def)
  note q = read_packet_ok [OF assms(1,2) rp less_imp_le [OF assms(4)]]
  have "length content - nat (pos st') < length content - nat (pos st)" if "\<not> s_eof (st_of st')"
  proof -
    have l: "len \<le> dp_len dp'" using q(6) that by linarith
    then have p: "nat (pos st) + nat len \<le> nat (pos st')" using q(5) inv_nonneg [OF assms(1)] assms(4) by linarith
    have "packet_data dp' \<noteq> []" using l assms(4) length_packet_data [OF q(1)] by auto
    then have "drop (nat (pos st)) content \<noteq> []" using q(2) by auto
    then have "nat (pos st) < length content" by simp
    then show ?thesis using p assms(4) by linarith
  qed
  then show ?thesis using that rp by blast
qed

lemma rawaudio_returns:
  assumes "rawaudio_ok d"
  shows "\<exists>r ps p. demux_rawaudio_fill_buffer junk quot drv d s = Some (r, ps, p) \<and> (r \<longrightarrow> raw_rank (d\<lparr>dm_priv := p\<rparr>) < raw_rank d)"
proof -
  from assms obtain i h where h: "ds_sh (dm_audio d) = Some i" "dm_a_streams d i = Some h" "0 < sa_avg_bytes h" "sa_avg_bytes h \<le> 1000000000"
    and inv: "inv (dm_stream d)" "eof_at_end (dm_stream d)" unfolding rawaudio_ok_def by blast
  show ?thesis
  proof (cases "s_eof (st_of (dm_stream d))")
    case True
    then show ?thesis using h by (auto simp: demux_rawaudio_fill_buffer_def)
  next
    case False
    have "\<not> too_large (sa_avg_bytes h)" using h by (simp add: too_large_def)
    then obtain dp where dp: "new_demux_packet junk (sa_avg_bytes h) = Some dp" by (simp add: new_demux_packet_def create_packet_def)
    let ?dp = "dp\<lparr>dp_pts := quot (pos (dm_stream d) - dm_movi_start d) (sa_avg_bytes h), dp_pos := pos (dm_stream d) - dm_movi_start d\<rparr>"
    have "sa_avg_bytes h \<le> int (length (dp_buffer ?dp))" using new_packet_fits [OF dp] by simp
    from read_packet_returns [OF inv False h(3,4) this, of junk] obtain dp' st' where
      r: "read_packet junk drv (dm_stream d) (sa_avg_bytes h) ?dp = Some (dp', st')"
      "s_eof (st_of st') \<or> length content - nat (pos st') < length content - nat (pos (dm_stream d))" by blast
    have "demux_rawaudio_fill_buffer junk quot drv d s = Some (True, [(s, dp')], (st', snd (dm_priv d)))"
      using h dp r(1) False by (simp add: demux_rawaudio_fill_buffer_def Let_def)
    then show ?thesis using r(2) False by (intro exI) (auto simp: raw_rank_def)
  qed
qed

lemma rawvideo_returns:
  assumes "rawvideo_ok n d"
  shows "\<exists>r ps p. demux_rawvideo_fill_buffer junk scaled n drv d Video = Some (r, ps, p) \<and> (r \<longrightarrow> raw_rank (d\<lparr>dm_priv := p\<rparr>) < raw_rank d)"
proof -
  from assms obtain i h where h: "ds_sh (dm_video d) = Some i" "dm_v_streams d i = Some h" "0 < n" "n \<le> 1000000000"
    and inv: "inv (dm_stream d)" "eof_at_end (dm_stream d)" unfolding rawvideo_ok_def by blast
  show ?thesis
  proof (cases "s_eof (st_of (dm_stream d))")
    case True
    then show ?thesis using h by (auto simp: demux_rawvideo_fill_buffer_def)
  next
    case False
    have "\<not> too_large n" using h by (simp add: too_large_def)
    then obtain dp where dp: "new_demux_packet junk n = Some dp" by (simp add: new_demux_packet_def create_packet_def)
    have "n \<le> int (length (dp_buffer dp))" using new_packet_fits [OF dp] by simp
    from read_packet_returns [OF inv False h(3,4) this, of junk] obtain dp' st' where
      r: "read_packet junk drv (dm_stream d) n dp = Some (dp', st')"
      "s_eof (st_of st') \<or> length content - nat (pos st') < length content - nat (pos (dm_stream d))" by blast
    have "\<exists>x. demux_rawvideo_fill_buffer junk scaled n drv d Video = Some (True, x, (st', snd (dm_priv d)))"
      using h dp r(1) False by (simp add: demux_rawvideo_fill_buffer_def ds_read_packet_def Let_def)
    then show ?thesis using r(2) False by (auto simp: raw_rank_def)
  qed
qed

lemma raw_rank_frame: "demux_setup d = demux_setup d' \<Longrightarrow> raw_rank d' = raw_rank d"
  using raw_frame(1) [of d d'] by (simp add: raw_rank_def)

end

sublocale steady_source \<subseteq> rawaudio_end: finite_demux_source "demux_rawaudio_fill_buffer junk quot drv" "{Audio}" rawaudio_ok raw_rest raw_rank
  for junk :: "nat \<Rightarrow> char" and quot :: "int \<Rightarrow> int \<Rightarrow> double"
  by unfold_locales (use rawaudio_returns raw_rank_frame in \<open>auto\<close>)

sublocale steady_source \<subseteq> rawvideo_end: finite_demux_source "demux_rawvideo_fill_buffer junk scaled imgsize drv" "{Video}" "rawvideo_ok imgsize" raw_rest raw_rank
  for junk :: "nat \<Rightarrow> char" and scaled :: "int \<Rightarrow> 32 word \<Rightarrow> double" and imgsize :: int
  by unfold_locales (use rawvideo_returns raw_rank_frame in \<open>auto\<close>)

sublocale source \<subseteq> steady: steady_source drv content plain_inv
  by unfold_locales

end
