(* ===== verification/Demux_File.thy ===== *)
theory Demux_File
  imports Demux_Raw
begin

text \<open>
  Files through the raw demuxers: what a decoder reads is what the file has, a start code is
  found where it first occurs, and two faults of the reading functions.
\<close>

subsection \<open>Opening\<close>

text \<open>A demuxer for raw audio on a file, with the track ids of the player.\<close>

definition open_rawaudio :: "rawaudio_opts \<Rightarrow> file_state \<Rightarrow> (file_state, unit) sdemuxer option" where
  "open_rawaudio opt f =
     do { d \<leftarrow> new_demuxer file_driver () (no_cache (open_file f)) DEMUXER_TYPE_RAWAUDIO (-1) (-1) (-1); demux_rawaudio_open opt d }"

definition open_rawvideo :: "(32 word \<Rightarrow> 32 word) \<Rightarrow> (32 word \<Rightarrow> int \<Rightarrow> int) \<Rightarrow> rawvideo_state \<Rightarrow> file_state \<Rightarrow> (file_state, unit) sdemuxer option" where
  "open_rawvideo recip bps rv f =
     do {
       d \<leftarrow> new_demuxer file_driver () (no_cache (open_file f)) DEMUXER_TYPE_RAWVIDEO (-1) (-1) (-1);
       (r, _) \<leftarrow> demux_rawvideo_open recip bps rv d;
       r }"

abbreviation (input) plain_ok :: "string \<Rightarrow> file_state cstream \<Rightarrow> bool" where
  "plain_ok content \<equiv> fsource.plain_inv content"

lemma seek_file_start:
  assumes "\<forall>r\<in>set (f_reads f). 0 < r" and "f_off f = 0"
  shows "\<exists>st. stream_seek file_driver (no_cache (open_file f)) 0 = Some (1, st) \<and> plain_ok (f_data f) st \<and> stream_tell (st_of st) = 0 \<and>
     (s_eof (st_of st) \<longrightarrow> f_data f = [])"
proof -
  let ?s = "(open_file f)\<lparr>s_buf_pos := 0, s_buf_len := 0\<rparr>"
  let ?t = "?s\<lparr>s_eof := False\<rparr>"
  have same: "?s = open_file f" "?t = open_file f" by (simp_all add: open_file_def new_stream_def)
  have r: "fsource.ready (f_data f) (open_file f)" by (rule open_file_ready [OF assms])
  obtain n st where st: "stream_fill_buffer file_driver (open_file f) = Some (n, st)" "s_eof st = (n = 0)" "0 \<le> n"
      "n = 0 \<longleftrightarrow> int (length (f_data f)) \<le> 0" "n \<noteq> 0 \<longrightarrow> s_buf_pos st = 0 \<and> s_buf_len st = n"
    using fsource.fill_ready [OF r] by (auto simp: open_file_def new_stream_def)
  have internal: "stream_seek_internal file_driver ?s 0 = (-1, open_file f)"
    using assms(2) by (simp add: stream_seek_internal_def open_file_def new_stream_def file_driver_def no_driver_def file_seek_def)
  have "read_up_to file_driver 0 (open_file f) = Some (open_file f)"
    by (subst read_up_to.simps) (simp add: open_file_def new_stream_def)
  moreover have "\<exists>st'. seek_in_blocks file_driver 0 (open_file f) = Some st' \<and> s_eof st' = (n = 0)"
    using st by (subst seek_in_blocks.simps) auto
  then obtain st' where st': "seek_in_blocks file_driver 0 (open_file f) = Some st'" "s_eof st' = (n = 0)" by blast
  ultimately have "stream_seek_long file_driver (open_file f) 0 = Some (1, st')"
    using internal same(2) by (simp add: stream_seek_long_def Let_def seek_block_def) (simp add: open_file_def new_stream_def)
  then have sk: "stream_seek file_driver (no_cache (open_file f)) 0 = Some (1, no_cache st')"
    by (simp add: stream_seek_def no_cache_def cache_stream_seek_long_def open_file_def new_stream_def)
  note q = fsource.plain.seek_ok [OF no_cache_inv [OF assms] _ _ sk]
  show ?thesis using sk q st'(2) st(4) by (intro exI [of _ "no_cache st'"]) (simp add: no_cache_def)
qed

lemma rawaudio_bytes_bounds:
  assumes "rawaudio_ranges opt"
  shows "0 < rawaudio_bytes_per_sec opt" "rawaudio_bytes_per_sec opt \<le> 1000000000"
proof -
  note r = assms [unfolded rawaudio_ranges_def]
  have "1000 * 1 * 1 \<le> ra_samplerate opt * ra_samplesize opt * ra_channels opt"
    using r by (intro mult_mono) auto
  moreover have "ra_samplerate opt * ra_samplesize opt * ra_channels opt \<le> 384000 * 8 * 8"
    using r by (intro mult_mono) auto
  moreover have "ra_bitrate opt sdiv 8 = ra_bitrate opt div 8" if "999 < ra_bitrate opt"
    using that by (simp add: signed_divide_int_def sgn_if)
  ultimately show "0 < rawaudio_bytes_per_sec opt" "rawaudio_bytes_per_sec opt \<le> 1000000000"
    using r by (auto simp: rawaudio_bytes_per_sec_def)
qed

text \<open>A new demuxer has empty queues.\<close>

definition fresh_queues :: "'p demuxer \<Rightarrow> bool" where
  "fresh_queues d \<longleftrightarrow> (\<forall>t. ds_first (ds_of t d) = [] \<and> unread (ds_of t d) = [] \<and> ds_ok (ds_of t d))"

lemma fresh_stream:
  "ds_first (new_demuxer_stream i) = []" "unread (new_demuxer_stream i) = []" "ds_ok (new_demuxer_stream i)"
  by (simp_all add: new_demuxer_stream_def unread_def ds_ok_def)

lemma fresh_changed:
  assumes "ds_first x = ds_first y" and "ds_buffer x = ds_buffer y" and "ds_buffer_pos x = ds_buffer_pos y" and "ds_buffer_size x = ds_buffer_size y"
    and "ds_packs x = ds_packs y" and "ds_bytes x = ds_bytes y" and "ds_eof x = ds_eof y"
  shows "unread x = unread y" "ds_ok x = ds_ok y"
  using assms by (simp_all add: unread_def ds_ok_def)

lemma fresh_new_demuxer:
  assumes "new_demuxer drv null st type a v i = Some d"
  shows "fresh_queues d" "dm_a_streams d = Map.empty" "dm_v_streams d = Map.empty"
    "\<exists>r st'. stream_seek drv st (s_start_pos (st_of st)) = Some (r, st') \<and> dm_priv d = (st', null)"
proof -
  from assms obtain r st' where sk: "stream_seek drv st (s_start_pos (st_of st)) = Some (r, st')" and
    d: "dm_audio d = new_demuxer_stream a" "dm_video d = new_demuxer_stream v" "dm_sub d = new_demuxer_stream i"
      "dm_a_streams d = Map.empty" "dm_v_streams d = Map.empty" "dm_priv d = (st', null)"
    by (auto simp: new_demuxer_def elim!: bind_eq_SomeE)
  have "ds_of t d \<in> {new_demuxer_stream a, new_demuxer_stream v, new_demuxer_stream i}" for t using d by (cases t) simp_all
  then show "fresh_queues d" by (auto simp: fresh_queues_def fresh_stream) (metis fresh_stream)+
  show "dm_a_streams d = Map.empty" "dm_v_streams d = Map.empty"
    "\<exists>r st'. stream_seek drv st (s_start_pos (st_of st)) = Some (r, st') \<and> dm_priv d = (st', null)" using sk d by simp_all
qed

lemma fresh_set_ds:
  assumes "fresh_queues d" and "ds_first x = []" and "unread x = []" and "ds_ok x"
  shows "fresh_queues (set_ds s x d)"
  using assms by (simp add: fresh_queues_def ds_of_set_ds)

lemma rawaudio_opened:
  assumes "\<forall>r\<in>set (f_reads f). 0 < r" and "f_off f = 0" and "rawaudio_ranges opt"
  shows "\<exists>d. open_rawaudio opt f = Some d \<and> fsource.plain.rawaudio_ok (f_data f) d \<and> fresh_queues d \<and>
     stream_tell (st_of (dm_stream d)) = 0"
proof -
  from seek_file_start [OF assms(1,2)] obtain st where st: "stream_seek file_driver (no_cache (open_file f)) 0 = Some (1, st)"
    "plain_ok (f_data f) st" "stream_tell (st_of st) = 0" "s_eof (st_of st) \<longrightarrow> f_data f = []" by blast
  have "s_start_pos (st_of (no_cache (open_file f))) = 0" by (simp add: no_cache_def open_file_def new_stream_def)
  then obtain d where nd: "new_demuxer file_driver () (no_cache (open_file f)) DEMUXER_TYPE_RAWAUDIO (-1) (-1) (-1) = Some d"
    using st(1) by (simp add: new_demuxer_def)
  note n = fresh_new_demuxer [OF nd]
  have priv: "dm_priv d = (st, ())" using n(4) st(1) \<open>s_start_pos (st_of (no_cache (open_file f))) = 0\<close> by simp
  obtain h d' where o: "demux_rawaudio_open opt d = Some d'" "dm_a_streams d' 0 = Some h" "sa_avg_bytes h = rawaudio_bytes_per_sec opt"
    "ds_sh (dm_audio d') = Some 0" "dm_priv d' = (st, ())" "dm_video d' = dm_video d" "dm_sub d' = dm_sub d"
    "dm_audio d' = (dm_audio d)\<lparr>ds_id := 0, ds_sh := Some 0\<rparr>"
    using n(2) priv by (simp add: demux_rawaudio_open_def new_sh_audio_aid_def)
  have a: "ds_first (dm_audio d) = []" "unread (dm_audio d) = []" "ds_ok (dm_audio d)"
    using n(1) unfolding fresh_queues_def by (metis ds_of.simps(1))+
  have "unread (dm_audio d') = unread (dm_audio d)" "ds_ok (dm_audio d') = ds_ok (dm_audio d)"
    by (rule fresh_changed; simp add: o(8))+
  then have "fresh_queues d'"
    unfolding fresh_queues_def
  proof (intro allI)
    fix t
    show "ds_first (ds_of t d') = [] \<and> unread (ds_of t d') = [] \<and> ds_ok (ds_of t d')"
    proof (cases t)
      case Audio
      then show ?thesis using a o(8) \<open>unread (dm_audio d') = unread (dm_audio d)\<close> \<open>ds_ok (dm_audio d') = ds_ok (dm_audio d)\<close> by simp
    next
      case Video
      then show ?thesis using n(1) o(6) unfolding fresh_queues_def by (metis ds_of.simps(2))
    next
      case Sub
      then show ?thesis using n(1) o(7) unfolding fresh_queues_def by (metis ds_of.simps(3))
    qed
  qed
  moreover have "fsource.plain.rawaudio_ok (f_data f) d'"
    using o st rawaudio_bytes_bounds [OF assms(3)]
    by (simp add: fsource.plain.rawaudio_ok_def fsource.plain.eof_at_end_def)
  ultimately show ?thesis using nd o(1,5) st(3) by (simp add: open_rawaudio_def)
qed

subsection \<open>Reading through the demuxer\<close>

text \<open>What a decoder gets that asks for these numbers of bytes, one after the other.\<close>

fun read_pieces :: "'p fill \<Rightarrow> strm \<Rightarrow> int list \<Rightarrow> 'p demuxer \<Rightarrow> ((int \<times> string) list \<times> 'p demuxer) option" where
  "read_pieces fill s [] d = Some ([], d)"
| "read_pieces fill s (n # ns) d =
     do { (r, d) \<leftarrow> demux_read_data fill s True n d; (rs, d) \<leftarrow> read_pieces fill s ns d; Some (r # rs, d) }"

fun pieces :: "int list \<Rightarrow> string \<Rightarrow> (int \<times> string) list" where
  "pieces [] bs = []"
| "pieces (n # ns) bs = (min n (int (length bs)), take (nat n) bs) # pieces ns (drop (nat n) bs)"

lemma rawaudio_pieces:
  assumes "fsource.plain.rawaudio.ok c d" and "fsource.plain.rawaudio_lazy.idle d" and "list_all (\<lambda>n. 0 \<le> n) ns"
  shows "\<exists>d'. read_pieces (demux_rawaudio_fill_buffer junk quot file_driver) Audio ns d =
     Some (pieces ns (fsource.plain.rawaudio.content c d Audio), d')"
  using assms
proof (induction ns arbitrary: d)
  case (Cons n ns)
  have served: "Audio \<in> {Audio}" by simp
  from fsource.steady.rawaudio_end.read_data_returns [OF served Cons.prems(1), of junk quot True n]
  obtain y d' where r: "demux_read_data (demux_rawaudio_fill_buffer junk quot file_driver) Audio True n d = Some (y, d')" by auto
  obtain k out where y: "y = (k, out)" by (cases y)
  have n: "0 \<le> n" "list_all (\<lambda>n. 0 \<le> n) ns" using Cons.prems(3) by simp_all
  note x = fsource.plain.rawaudio_lazy.read_exact [OF r [unfolded y] served Cons.prems(1,2) n(1)]
  from Cons.IH [OF x(4,5) n(2)] obtain e where
    "read_pieces (demux_rawaudio_fill_buffer junk quot file_driver) Audio ns d' =
       Some (pieces ns (drop (nat n) (fsource.plain.rawaudio.content c d Audio)), e)"
    unfolding x(3) by blast
  then show ?case using r y x(1,2) by simp
qed simp

text \<open>
  C10: Reading raw audio gives the file: whatever numbers of bytes a decoder asks for, one
  after the other, it gets exactly the bytes of the file in order, each once, and fewer than
  it asked for only at the end of the file. This holds through the stream's buffer, the
  packets of one second and the demuxer's queue, however the operating system cuts the
  reads, and every call returns.
\<close>

theorem rawaudio_reads_file:
  assumes "\<forall>r\<in>set (f_reads f). 0 < r" and "f_off f = 0" and "rawaudio_ranges opt" and "list_all (\<lambda>n. 0 \<le> n) ns"
  shows "\<exists>d d'. open_rawaudio opt f = Some d \<and>
     read_pieces (demux_rawaudio_fill_buffer junk quot file_driver) Audio ns d = Some (pieces ns (f_data f), d')"
proof -
  from rawaudio_opened [OF assms(1-3)] obtain d where d: "open_rawaudio opt f = Some d" "fsource.plain.rawaudio_ok (f_data f) d"
    "fresh_queues d" "stream_tell (st_of (dm_stream d)) = 0" by blast
  have ok: "fsource.plain.rawaudio.ok (f_data f) d" "fsource.plain.rawaudio_lazy.idle d"
    using d(2,3) by (simp_all add: fsource.plain.rawaudio.ok_def fsource.plain.rawaudio_lazy.idle_def fresh_queues_def)
  have "ds_first (ds_of Audio d) = []" "unread (ds_of Audio d) = []" using d(3) unfolding fresh_queues_def by blast+
  then have "fsource.plain.rawaudio.content (f_data f) d Audio = f_data f"
    using d(4) by (simp add: fsource.plain.rawaudio.content_def fsource.plain.rawaudio.to_come_def queued_def fsource.plain.raw_rest_def)
  then show ?thesis using rawaudio_pieces [OF ok assms(4), of junk quot] d(1) by auto
qed

theorem rawaudio_reads_file_witness:
  "\<exists>d d'. open_rawaudio rawaudio_defaults \<lparr>f_data = ''abcdefg'', f_off = 0, f_reads = [2, 1], f_writes = []\<rparr> = Some d \<and>
     read_pieces (demux_rawaudio_fill_buffer (\<lambda>_. CHR ''?'') (\<lambda>_ _. 0) file_driver) Audio [3, 0, 10, 1] d =
       Some ([(3, ''abc''), (0, []), (4, ''defg''), (0, [])], d')"
  using rawaudio_reads_file [of "\<lparr>f_data = ''abcdefg'', f_off = 0, f_reads = [2, 1], f_writes = []\<rparr>" rawaudio_defaults "[3, 0, 10, 1]"
      "\<lambda>_. CHR ''?''" "\<lambda>_ _. 0"]
  by (simp add: rawaudio_ranges_def rawaudio_defaults_def numeral_nat)

subsection \<open>Looking for a start code\<close>

definition rawvideo_usable :: "rawvideo_state \<Rightarrow> bool" where
  "rawvideo_usable rv \<longleftrightarrow>
     standard_size (rv_size_id rv) = None \<and> rv_width rv \<noteq> 0 \<and> rv_height rv \<noteq> 0 \<and> 0 < rv_imgsize rv \<and> rv_imgsize rv \<le> 1000000000"

lemma rawvideo_opened:
  assumes "\<forall>r\<in>set (f_reads f). 0 < r" and "f_off f = 0" and "rawvideo_usable rv"
  shows "\<exists>d. open_rawvideo recip bps rv f = Some d \<and> fsource.plain.rawvideo_ok (f_data f) (rv_imgsize rv) d \<and> fresh_queues d \<and>
     stream_tell (st_of (dm_stream d)) = 0"
proof -
  from seek_file_start [OF assms(1,2)] obtain st where st: "stream_seek file_driver (no_cache (open_file f)) 0 = Some (1, st)"
    "plain_ok (f_data f) st" "stream_tell (st_of st) = 0" "s_eof (st_of st) \<longrightarrow> f_data f = []" by blast
  have "s_start_pos (st_of (no_cache (open_file f))) = 0" by (simp add: no_cache_def open_file_def new_stream_def)
  then obtain d where nd: "new_demuxer file_driver () (no_cache (open_file f)) DEMUXER_TYPE_RAWVIDEO (-1) (-1) (-1) = Some d"
    using st(1) by (simp add: new_demuxer_def)
  note n = fresh_new_demuxer [OF nd]
  have priv: "dm_priv d = (st, ())" using n(4) st(1) \<open>s_start_pos (st_of (no_cache (open_file f))) = 0\<close> by simp
  obtain h d' rv' where o: "demux_rawvideo_open recip bps rv d = Some (Some d', rv')" "dm_v_streams d' 0 = Some h"
    "ds_sh (dm_video d') = Some 0" "dm_priv d' = (st, ())" "dm_audio d' = dm_audio d" "dm_sub d' = dm_sub d"
    "dm_video d' = (dm_video d)\<lparr>ds_sh := Some 0\<rparr>"
    using n(3) priv assms(3) by (simp add: demux_rawvideo_open_def new_sh_video_vid_def rawvideo_usable_def)
  have fr: "ds_first (ds_of t d) = []" "unread (ds_of t d) = []" "ds_ok (ds_of t d)" for t
    using n(1) by (simp_all add: fresh_queues_def)
  have "unread (dm_video d') = unread (dm_video d)" "ds_ok (dm_video d') = ds_ok (dm_video d)"
    by (rule fresh_changed; simp add: o(7))+
  then have "ds_first (ds_of t d') = [] \<and> unread (ds_of t d') = [] \<and> ds_ok (ds_of t d')" for t
    using fr [of t] o(5-7) by (cases t) simp_all
  then have "fresh_queues d'" by (simp add: fresh_queues_def)
  moreover have "fsource.plain.rawvideo_ok (f_data f) (rv_imgsize rv) d'"
    using o st assms(3) by (simp add: fsource.plain.rawvideo_ok_def fsource.plain.eof_at_end_def rawvideo_usable_def)
  ultimately show ?thesis using nd o(1,4) st(3) by (simp add: open_rawvideo_def)
qed

text \<open>
  \<open>demux_pattern_3\<close> finds a start code in a raw stream: it returns with the position
  behind the first occurrence in the file, and hands over exactly the bytes up to there, if
  that is within the number of bytes it may read. The packets of the demuxer can cut the
  pattern anywhere.
\<close>

theorem start_code_found:
  assumes "\<forall>r\<in>set (f_reads f). 0 < r" and "f_off f = 0" and "rawvideo_usable rv"
    and "pattern_at (and pattern 0xFFFFFF00) (f_data f) p" and "\<forall>q<p. \<not> pattern_at (and pattern 0xFFFFFF00) (f_data f) q"
    and "int p \<le> maxlen"
  shows "\<exists>d d'. open_rawvideo recip bps rv f = Some d \<and>
     demux_pattern_3 (demux_rawvideo_fill_buffer junk scaled (rv_imgsize rv) file_driver) Video True maxlen pattern d =
       Some ((True, int p, take p (f_data f)), d')"
proof -
  let ?fill = "demux_rawvideo_fill_buffer junk scaled (rv_imgsize rv) file_driver"
  from rawvideo_opened [OF assms(1-3)] obtain d where d: "open_rawvideo recip bps rv f = Some d"
    "fsource.plain.rawvideo_ok (f_data f) (rv_imgsize rv) d" "fresh_queues d" "stream_tell (st_of (dm_stream d)) = 0" by blast
  have ok: "fsource.plain.rawvideo.ok (f_data f) (rv_imgsize rv) d" "fsource.plain.rawvideo_lazy.idle d"
    using d(2,3) by (simp_all add: fsource.plain.rawvideo.ok_def fsource.plain.rawvideo_lazy.idle_def fresh_queues_def)
  have "ds_first (ds_of Video d) = []" "unread (ds_of Video d) = []" using d(3) unfolding fresh_queues_def by blast+
  then have c: "fsource.plain.rawvideo.content (f_data f) d Video = f_data f"
    using d(4) by (simp add: fsource.plain.rawvideo.content_def fsource.plain.rawvideo.to_come_def queued_def fsource.plain.raw_rest_def)
  have served: "Video \<in> {Video}" by simp
  have pos: "0 < maxlen" using assms(4,6) by (auto simp: pattern_at_def)
  from fsource.steady.rawvideo_end.pattern_loop_returns [OF served ok(1) pos, of junk scaled True "and pattern 0xFFFFFF00" "0xFFFFFF00" "[]"]
  obtain y where "pattern_loop ?fill Video True maxlen (and pattern 0xFFFFFF00) 0xFFFFFF00 0 [] d = Some y" by blast
  then obtain found n out d' where r: "demux_pattern_3 ?fill Video True maxlen pattern d = Some ((found, n, out), d')"
    by (cases y) (auto simp: demux_pattern_3_def Let_def)
  show ?thesis
    using fsource.plain.rawvideo_lazy.pattern_3_exact [OF r served ok pos, unfolded c, OF assms(4-6)] r d(1) by auto
qed

lemma pattern_atI: "3 \<le> p \<Longrightarrow> p \<le> length bs \<Longrightarrow> three_bytes (take 3 (drop (p - 3) bs)) = pat \<Longrightarrow> pattern_at pat bs p"
  by (simp add: pattern_at_def)

definition ex_video :: file_state where
  "ex_video = \<lparr>f_data = [CHR 0x07, CHR 0x00, CHR 0x00, CHR 0x00, CHR 0x01, CHR 0xB3, CHR 0x09], f_off = 0, f_reads = [2, 1], f_writes = []\<rparr>"

definition ex_rawvideo :: rawvideo_state where
  "ex_rawvideo = \<lparr>rv_format = 0x30323449, rv_size_id = 0, rv_width = 1, rv_height = 2, rv_fps = 0, rv_imgsize = 2\<rparr>"

theorem start_code_found_witness:
  "\<exists>d d'. open_rawvideo (\<lambda>x. x) (\<lambda>_ n. n) ex_rawvideo ex_video = Some d \<and>
     demux_pattern_3 (demux_rawvideo_fill_buffer (\<lambda>_. CHR ''?'') (\<lambda>_ _. 0) 2 file_driver) Video True 100 0x100 d =
       Some ((True, 5, [CHR 0x07, CHR 0x00, CHR 0x00, CHR 0x00, CHR 0x01]), d')"
proof -
  have f: "\<forall>r\<in>set (f_reads ex_video). 0 < r" "f_off ex_video = 0" "rawvideo_usable ex_rawvideo"
    by (simp_all add: ex_video_def ex_rawvideo_def rawvideo_usable_def standard_size_def)
  have at5: "pattern_at (and 0x100 0xFFFFFF00) (f_data ex_video) 5"
    by (rule pattern_atI) (simp_all add: ex_video_def three_bytes_def shift_head_def byte_def)
  have "\<not> pattern_at (and 0x100 0xFFFFFF00) (f_data ex_video) 3" "\<not> pattern_at (and 0x100 0xFFFFFF00) (f_data ex_video) 4"
    by (simp_all add: ex_video_def three_bytes_def shift_head_def byte_def pattern_at_def)
  then have before: "\<forall>q<5. \<not> pattern_at (and 0x100 0xFFFFFF00) (f_data ex_video) q"
    by (auto simp: less_Suc_eq pattern_at_def numeral_nat)
  from start_code_found [OF f at5 before, of 100 "\<lambda>x. x" "\<lambda>_ n. n" "\<lambda>_. CHR ''?''" "\<lambda>_ _. 0"]
  show ?thesis by (simp add: ex_video_def ex_rawvideo_def numeral_nat)
qed

subsection \<open>Faults\<close>

text \<open>What holds for the bytes in the buffer does not depend on the demuxer.\<close>

interpretation any_demuxer: demux_source fill "{}" "\<lambda>_. True" "\<lambda>_ _. []" for fill :: "'p fill"
  by unfold_locales auto

text \<open>Before three bytes were seen, the top bit of the shift register is set.\<close>

lemma head_of_short:
  assumes "length bs \<le> 2" shows "bit (head_of bs) 31"
proof -
  have m: "bit (0xFFFFFF00 :: 32 word) n" if "8 \<le> n" "n < 32" for n
  proof -
    have "(0xFFFFFF00 :: 32 word) = push_bit 8 (mask 24)" by (simp add: mask_eq_exp_minus_1)
    then show ?thesis using that by (simp only: bit_push_bit_iff bit_mask_iff) auto
  qed
  have "bs = [] \<or> (\<exists>a. bs = [a]) \<or> (\<exists>a b. bs = [a, b])"
    using assms by (cases bs; cases "tl bs") (auto simp: neq_Nil_conv)
  then show ?thesis using m [of 31] m [of 23] m [of 15]
    by (elim disjE exE) (simp_all add: shift_head_def bit_push_bit_iff bit_or_iff del: push_bit_or)
qed

lemma scan_start_code:
  assumes "pattern_at 0x100 u p" and "\<forall>q<p. \<not> pattern_at 0x100 u q"
  shows "scan_pattern 0x100 0xFFFFFF00 u = (0x100, p)"
proof -
  obtain h k where k: "scan_pattern 0x100 0xFFFFFF00 u = (h, k)" by (cases "scan_pattern 0x100 0xFFFFFF00 u")
  have p: "3 \<le> p" "p \<le> length u" "head_of (take p u) = 0x100"
    using assms(1) pattern_at_head [of p u "0x100"] by (auto simp: pattern_at_def)
  then have "u \<noteq> []" by auto
  note sp = scan_pattern_spec [OF this k]
  have not_short: "head_of (take j u) \<noteq> 0x100" if "j \<le> 2" for j
  proof
    assume "head_of (take j u) = 0x100"
    moreover have "length (take j u) \<le> 2" using that by (simp add: min_le_iff_disj)
    ultimately have "bit (0x100 :: 32 word) 31" using head_of_short [of "take j u"] by simp
    then show False by simp
  qed
  have "\<not> k < p"
  proof
    assume "k < p"
    then have h: "head_of (take k u) = 0x100" using sp p(2) by auto
    then have "3 \<le> k" using not_short [of k] by linarith
    then show False using h assms(2) \<open>k < p\<close> p(2) pattern_at_head [of k u "0x100"] by simp
  qed
  moreover have "\<not> p < k" using sp p(1,3) by (meson dual_order.trans one_le_numeral)
  ultimately have "k = p" by simp
  then show ?thesis using k sp p(3) by simp
qed

text \<open>
  \<open>demux_pattern_3\<close> claims to have found a pattern it has not read: if the first start
  code in the current packet ends behind the number of bytes that may be read, the function
  still reports it as found, although the bytes it handed over end before it. The caller
  \<open>read_video_packet\<close> then drops three bytes of the frame as if they were the start code.
\<close>

theorem pattern_search_overclaims:
  assumes "\<forall>t. ds_ok (ds_of t d)" and "pattern_at 0x100 (unread (ds_of s d)) p" and "\<forall>q<p. \<not> pattern_at 0x100 (unread (ds_of s d)) q"
    and "3 \<le> maxlen" and "maxlen < int p"
  shows "\<exists>d'. demux_pattern_3 fill s True maxlen 0x100 d = Some ((True, maxlen, take (nat maxlen) (unread (ds_of s d))), d')"
proof -
  let ?u = "unread (ds_of s d)" and ?x = "ds_buffer_size (ds_of s d) - ds_buffer_pos (ds_of s d)"
  have ok: "any_demuxer.ok d" using assms(1) by (simp add: any_demuxer.ok_def)
  have dok: "ds_ok (ds_of s d)" using assms(1) by blast
  have p: "int p \<le> ?x" using length_unread [OF dok] assms(2) by (auto simp: pattern_at_def)
  have g: "get_bytes (ds_buffer_pos (ds_of s d)) ?x (ds_buffer (ds_of s d)) = Some ?u"
    using get_unread(1) [OF dok, of ?x] p assms(4,5) length_unread [OF dok] by simp
  have "0 < maxlen" "maxlen \<le> ?x" using assms(4,5) p by linarith+
  note r = any_demuxer.read_buffered [OF ok this, where mem = True and fill = fill]
  have t: "take (nat maxlen) (any_demuxer.content d s) = take (nat maxlen) ?u"
    using assms(5) p length_unread [OF dok] by (simp add: any_demuxer.content_def)
  have "pattern_loop fill s True maxlen 0x100 0xFFFFFF00 0 [] d =
      Some ((0x100, maxlen, take (nat maxlen) ?u), set_pos s (ds_buffer_pos (ds_of s d) + maxlen) d)"
    using assms(4,5) p by (subst pattern_loop.simps) (simp add: g scan_start_code [OF assms(2,3)] r t)
  then show ?thesis using assms(4) by (simp add: demux_pattern_3_def Let_def)
qed

text \<open>A demuxer with eight bytes in the buffer of its video stream, and an empty packet for audio.\<close>

definition ex_bytes :: string where
  "ex_bytes = [CHR 0x07, CHR 0x08, CHR 0x09, CHR 0x00, CHR 0x00, CHR 0x01, CHR 0xB3, CHR 0x05]"

definition ex_empty_packet :: demux_packet where
  "ex_empty_packet =
     \<lparr>dp_len = 0, dp_pts = MP_NOPTS_VALUE, dp_duration = MINUS_ONE, dp_stream_pts = MP_NOPTS_VALUE, dp_pos = 0,
      dp_buffer = replicate 32 (CHR 0x00), dp_keyframe = False, dp_refcount = 1, dp_master = None\<rparr>"

definition ex_faults :: "unit demuxer" where
  "ex_faults = ex_demuxer\<lparr>
     dm_video := (new_demuxer_stream 0)\<lparr>ds_buffer := ex_bytes, ds_buffer_size := 8\<rparr>,
     dm_audio := ds_add_packet ex_empty_packet (new_demuxer_stream 0)\<rparr>"

theorem pattern_search_overclaims_witness:
  "\<exists>d'. demux_pattern_3 (\<lambda>_ _. None) Video True 4 0x100 ex_faults = Some ((True, 4, [CHR 0x07, CHR 0x08, CHR 0x09, CHR 0x00]), d')"
proof -
  have u: "unread (ds_of Video ex_faults) = ex_bytes" by (simp add: ex_faults_def unread_def new_demuxer_stream_def ex_bytes_def)
  have "packet_ok ex_empty_packet" by (simp add: packet_ok_def ex_empty_packet_def)
  then have "ds_ok (dm_audio ex_faults)" by (simp add: ex_faults_def ds_ok_add ds_ok_new)
  moreover have "ds_ok (dm_video ex_faults)" by (simp add: ex_faults_def ds_ok_def new_demuxer_stream_def ex_bytes_def)
  moreover have "ds_ok (dm_sub ex_faults)" by (simp add: ex_faults_def ex_demuxer_def ds_ok_new)
  ultimately have ok: "ds_ok (ds_of t ex_faults)" for t by (cases t) simp_all
  have at6: "pattern_at 0x100 (unread (ds_of Video ex_faults)) 6"
    unfolding u by (rule pattern_atI) (simp_all add: ex_bytes_def three_bytes_def shift_head_def byte_def)
  have "\<not> pattern_at 0x100 ex_bytes 3" "\<not> pattern_at 0x100 ex_bytes 4" "\<not> pattern_at 0x100 ex_bytes 5"
    by (simp_all add: ex_bytes_def three_bytes_def shift_head_def byte_def pattern_at_def)
  then have before: "\<forall>q<6. \<not> pattern_at 0x100 (unread (ds_of Video ex_faults)) q"
    unfolding u by (auto simp: less_Suc_eq pattern_at_def numeral_nat)
  have "\<forall>t. ds_ok (ds_of t ex_faults)" using ok by blast
  from pattern_search_overclaims [OF this at6 before, of 4 "\<lambda>_ _. None"] show ?thesis
    unfolding u by (simp add: ex_bytes_def numeral_nat)
qed

text \<open>
  Reading a character behind the end: if the next packet of the queue is empty, as the
  last packet of a raw audio file can be, \<open>demux_getc\<close> returns a byte of the padding behind
  the packet instead of going on to the next packet or reporting the end of the file, and
  leaves the position of the buffer behind its end; the next \<open>demux_read_data\<close> copies a
  negative number of bytes.
\<close>

theorem getc_after_empty_packet:
  assumes "ds_buffer_pos (ds_of s d) = ds_buffer_size (ds_of s d)" and "ds_packs (ds_of s d) = int (length (ds_first (ds_of s d)))"
    and "ds_first (ds_of s d) = p # ps" and "dp_len p = 0" and "dp_buffer p = c # cs" and "0 < n"
  shows "\<exists>d'. demux_getc fill s d = Some (int (byte c), d') \<and> ds_buffer_size (ds_of s d') < ds_buffer_pos (ds_of s d') \<and>
     demux_read_data fill s True n d' = None"
proof -
  let ?ds = "(ds_of s d)\<lparr>ds_current := None\<rparr>"
  let ?t = "set_ds s (take_packet p ?ds) (set_ds s ?ds d)"
  obtain d' where f: "ds_fill_buffer fill s d = Some (True, d')" "ds_of s d' = take_packet p ?ds"
    using assms(2,3) by (auto simp: ds_fill_buffer_def ds_of_set_ds fill_loop.simps [of fill s "set_ds s ?ds d"] Let_def)
  let ?d = "set_pos s 1 d'"
  have "demux_getc fill s d = Some (int (byte c), ?d)"
    using assms(1,5) f by (simp add: demux_getc_def char_at_def get_bytes_def)
  moreover have "ds_buffer_size (ds_of s ?d) = 0" "ds_buffer_pos (ds_of s ?d) = 1"
    using f(2) assms(4) by (simp_all add: ds_of_set_pos)
  moreover from this have "demux_read_data fill s True n ?d = None"
    using assms(6) by (subst demux_read_data.simps) (simp add: Let_def get_bytes_def)
  ultimately show ?thesis by auto
qed

theorem getc_after_empty_packet_witness:
  "\<exists>d'. demux_getc (\<lambda>_ _. None) Audio ex_faults = Some (0, d') \<and> ds_buffer_size (ds_of Audio d') < ds_buffer_pos (ds_of Audio d') \<and>
     demux_read_data (\<lambda>_ _. None) Audio True 5 d' = None"
  using getc_after_empty_packet [of Audio ex_faults ex_empty_packet "[]" "CHR 0x00" "replicate 31 (CHR 0x00)" 5 "\<lambda>_ _. None"]
  by (simp add: ex_faults_def ds_add_packet_def new_demuxer_stream_def ex_empty_packet_def byte_def numeral_nat)

text \<open>
  The size of a picture is kept from one raw video to the next: once it was computed,
  a demuxer that is opened with a different width and height still reads pictures of the old
  size, unless the option \<open>size\<close> is given anew.
\<close>

theorem rawvideo_imgsize_sticks:
  assumes "demux_rawvideo_open recip bps rv d = Some (Some d', rv')" and "rv_size_id rv = 0" and "rv_imgsize rv' \<noteq> 0"
    and "w \<noteq> 0" and "h \<noteq> 0" and "dm_v_streams e 0 = None"
  shows "\<exists>e' rv''. demux_rawvideo_open recip bps (rv'\<lparr>rv_width := w, rv_height := h\<rparr>) e = Some (Some e', rv'') \<and>
     rv_width rv'' = w \<and> rv_height rv'' = h \<and> rv_imgsize rv'' = rv_imgsize rv'"
proof -
  have "rv_size_id rv' = 0"
    using assms(1,2) by (auto simp: demux_rawvideo_open_def standard_size_def Let_def split: if_splits option.splits prod.splits elim!: bind_eq_SomeE)
  then show ?thesis using assms(3-6) by (simp add: demux_rawvideo_open_def standard_size_def new_sh_video_vid_def)
qed

definition ex_raw :: "(file_state, unit) sdemuxer" where
  "ex_raw =
     \<lparr>dm_stream_pts = MP_NOPTS_VALUE, dm_movi_start = 0, dm_movi_end = 0, dm_type = DEMUXER_TYPE_RAWVIDEO, dm_file_format = DEMUXER_TYPE_RAWVIDEO,
      dm_seekable = True, dm_audio = new_demuxer_stream (-1), dm_video = new_demuxer_stream (-1), dm_sub = new_demuxer_stream (-1),
      dm_a_streams = Map.empty, dm_v_streams = Map.empty, dm_s_streams = Map.empty, dm_chapters = [], dm_attachments = [], dm_info = [],
      dm_priv = (no_cache (open_file ex_video), ())\<rparr>"

theorem rawvideo_imgsize_sticks_witness:
  "\<exists>d' rv' e' rv''. demux_rawvideo_open (\<lambda>x. x) (\<lambda>_ n. n) (ex_rawvideo\<lparr>rv_imgsize := 0\<rparr>) ex_raw = Some (Some d', rv') \<and> rv_imgsize rv' = 2 \<and>
     demux_rawvideo_open (\<lambda>x. x) (\<lambda>_ n. n) (rv'\<lparr>rv_width := 640, rv_height := 480\<rparr>) ex_raw = Some (Some e', rv'') \<and>
     rv_width rv'' = 640 \<and> rv_height rv'' = 480 \<and> rv_imgsize rv'' = 2"
proof -
  have "\<exists>d' rv'. demux_rawvideo_open (\<lambda>x. x) (\<lambda>_ n. n) (ex_rawvideo\<lparr>rv_imgsize := 0\<rparr>) ex_raw = Some (Some d', rv') \<and> rv_imgsize rv' = 2"
    by (simp add: demux_rawvideo_open_def ex_rawvideo_def ex_raw_def standard_size_def rawvideo_imgsize_def new_sh_video_vid_def)
  then obtain d' rv' where o: "demux_rawvideo_open (\<lambda>x. x) (\<lambda>_ n. n) (ex_rawvideo\<lparr>rv_imgsize := 0\<rparr>) ex_raw = Some (Some d', rv')" "rv_imgsize rv' = 2"
    by blast
  have e: "dm_v_streams ex_raw 0 = None" "rv_size_id (ex_rawvideo\<lparr>rv_imgsize := 0\<rparr>) = 0" by (simp_all add: ex_raw_def ex_rawvideo_def)
  from rawvideo_imgsize_sticks [OF o(1) e(2) _ _ _ e(1), of 640 480] o show ?thesis by auto
qed

end
