(* ===== verification/Mpeg_Hdr.thy ===== *)
theory Mpeg_Hdr
  imports MP_Prelude
begin

text \<open>
  The headers of MPEG video (\<open>libmpdemux/mpeg_hdr.c\<close>): sequence and picture headers of
  MPEG-1/2, the video object layer and plane of MPEG-4, the sequence parameter set of H.264
  and the sequence header of VC-1. A buffer is the bytes from the pointer to the end of the
  memory behind it; \<open>None\<close> is an access outside it, or a shift by a negative number. Positions
  in a buffer count bits; those that are read lie inside it, so that they do not wrap. A
  \<open>float\<close> is its bit pattern; the quotient of two integers as \<open>float\<close> is the parameter
  \<open>quot\<close>, the half of one the parameter \<open>half\<close>.
\<close>

subsection \<open>MPEG-1 and MPEG-2\<close>

record mp_mpeg_header =
  mpeg1 :: bool
  display_picture_width :: int
  display_picture_height :: int
  aspect_ratio_information :: int
  frame_rate_code :: int
  fps :: "32 word"
  frame_rate_extension_n :: int
  frame_rate_extension_d :: int
  bitrate :: int
  picture_structure :: int
  progressive_sequence :: bool
  repeat_first_field :: bool
  progressive_frame :: bool
  top_field_first :: bool
  display_time :: int
  timeinc_resolution :: "32 word"
  timeinc_bits :: "32 word"
  timeinc_unit :: "32 word"
  picture_type :: int

definition zero_picture :: mp_mpeg_header where
  "zero_picture =
     \<lparr>mpeg1 = False, display_picture_width = 0, display_picture_height = 0, aspect_ratio_information = 0, frame_rate_code = 0, fps = 0,
      frame_rate_extension_n = 0, frame_rate_extension_d = 0, bitrate = 0, picture_structure = 0, progressive_sequence = False,
      repeat_first_field = False, progressive_frame = False, top_field_first = False, display_time = 0, timeinc_resolution = 0,
      timeinc_bits = 0, timeinc_unit = 0, picture_type = 0\<rparr>"

definition ubyte :: "string \<Rightarrow> nat \<Rightarrow> 8 word option" where
  "ubyte buf i = (if i < length buf then Some (word_of_nat (byte (buf ! i))) else None)"

text \<open>24000/1001, 24, 25, 30000/1001, 30, 50, 60000/1001, 60, 15, 5, 10, 12, 15 frames a second.\<close>

definition frameratecode2framerate :: "32 word list" where
  "frameratecode2framerate =
     [0, 0x41BFCEE6, 0x41C00000, 0x41C80000, 0x41EFC29F, 0x41F00000, 0x42480000, 0x426FC29F, 0x42700000,
      0x41700000, 0x40A00000, 0x41200000, 0x41400000, 0x41700000, 0, 0]"

definition mp_header_process_sequence_header :: "mp_mpeg_header \<Rightarrow> string \<Rightarrow> (int \<times> mp_mpeg_header) option" where
  "mp_header_process_sequence_header picture buffer =
     do {
       b6 \<leftarrow> ubyte buffer 6;
       if and b6 0x20 \<noteq> 0x20 then Some (1, picture)
       else do {
         b0 \<leftarrow> ubyte buffer 0; b1 \<leftarrow> ubyte buffer 1; b2 \<leftarrow> ubyte buffer 2; b3 \<leftarrow> ubyte buffer 3; b4 \<leftarrow> ubyte buffer 4; b5 \<leftarrow> ubyte buffer 5;
         let height = or (or (push_bit 16 (uint b0)) (push_bit 8 (uint b1))) (uint b2);
         let rate = and (uint b3) 15;
         Some (0, picture\<lparr>
           display_picture_width := drop_bit 12 height, display_picture_height := and height 0xFFF,
           aspect_ratio_information := uint (drop_bit 4 b3), frame_rate_code := rate, fps := frameratecode2framerate ! nat rate,
           bitrate := or (or (push_bit 10 (uint b4)) (push_bit 2 (uint b5))) (uint (drop_bit 6 b6)),
           mpeg1 := True, picture_structure := 3, display_time := 100, frame_rate_extension_n := 1, frame_rate_extension_d := 1\<rparr>) } }"

definition header_process_sequence_extension :: "mp_mpeg_header \<Rightarrow> string \<Rightarrow> (int \<times> mp_mpeg_header) option" where
  "header_process_sequence_extension picture buffer =
     do {
       b1 \<leftarrow> ubyte buffer 1; b2 \<leftarrow> ubyte buffer 2; b3 \<leftarrow> ubyte buffer 3;
       if and b1 0x06 = 0 \<or> and b1 0x01 \<noteq> 0 \<or> and b2 0xE0 \<noteq> 0 \<or> and b3 0x01 \<noteq> 0x01 then Some (1, picture)
       else do {
         b5 \<leftarrow> ubyte buffer 5;
         Some (0, picture\<lparr>
           progressive_sequence := (and (drop_bit 3 b1) 1 = 1), frame_rate_extension_n := uint (and (drop_bit 5 b5) 3) + 1,
           frame_rate_extension_d := uint (and b5 0x1F) + 1, mpeg1 := False\<rparr>) } }"

definition header_process_picture_coding_extension :: "mp_mpeg_header \<Rightarrow> string \<Rightarrow> (int \<times> mp_mpeg_header) option" where
  "header_process_picture_coding_extension picture buffer =
     do {
       b2 \<leftarrow> ubyte buffer 2; b3 \<leftarrow> ubyte buffer 3; b4 \<leftarrow> ubyte buffer 4;
       let picture = picture\<lparr>
         picture_structure := uint (and b2 3), top_field_first := (drop_bit 7 b3 = 1), repeat_first_field := (and (drop_bit 1 b3) 1 = 1),
         progressive_frame := (drop_bit 7 b4 = 1), display_time := 100\<rparr>;
       let picture =
         (if repeat_first_field picture
          then if progressive_sequence picture
               then if top_field_first picture then picture\<lparr>display_time := display_time picture + 200\<rparr>
                    else picture\<lparr>display_time := display_time picture + 100\<rparr>
               else if progressive_frame picture then picture\<lparr>display_time := display_time picture + 50\<rparr>
               else picture
          else picture);
       Some (0, if picture_structure picture \<noteq> 3 then picture\<lparr>display_time := display_time picture div 2\<rparr> else picture) }"

definition mp_header_process_extension :: "mp_mpeg_header \<Rightarrow> string \<Rightarrow> (int \<times> mp_mpeg_header) option" where
  "mp_header_process_extension picture buffer =
     do {
       b0 \<leftarrow> ubyte buffer 0;
       if and b0 0xF0 = 0x10 then header_process_sequence_extension picture buffer
       else if and b0 0xF0 = 0x80 then header_process_picture_coding_extension picture buffer
       else Some (0, picture) }"

text \<open>4/3, 16/9, 2.21, and 0 for square pixels or an unknown ratio.\<close>

definition mpeg12_aspect_info :: "mp_mpeg_header \<Rightarrow> 32 word" where
  "mpeg12_aspect_info picture =
     (if aspect_ratio_information picture \<in> {2, 8, 12} then 0x3FAAAAAB
      else if aspect_ratio_information picture \<in> {3, 6} then 0x3FE38E39
      else if aspect_ratio_information picture = 4 then 0x400D70A4
      else 0)"

subsection \<open>Bits\<close>

text \<open>\<open>len\<close> bits from the bit \<open>from\<close> on, at most eight.\<close>

definition mp_getbits :: "string \<Rightarrow> nat \<Rightarrow> nat \<Rightarrow> 8 word option" where
  "mp_getbits buffer from len =
     (let n = from div 8; m = from mod 8; u = 8 - m; l = (if u < len then len - u else 0)
      in do {
        b \<leftarrow> ubyte buffer n;
        let y = push_bit m b;
        let y = (if len < 8 then drop_bit (8 - len) y else y);
        if l \<noteq> 0
        then do { c \<leftarrow> ubyte buffer (n + 1); if 8 < l then None else Some (or y (drop_bit (8 - l) c)) }
        else Some y })"

definition mp_getbits16 :: "string \<Rightarrow> nat \<Rightarrow> nat \<Rightarrow> int option" where
  "mp_getbits16 buffer from len =
     (if 8 < len
      then do { a \<leftarrow> mp_getbits buffer from (len - 8); b \<leftarrow> mp_getbits buffer (from + len - 8) 8; Some (or (push_bit 8 (uint a)) (uint b)) }
      else map_option uint (mp_getbits buffer from len))"

definition getbit :: "string \<Rightarrow> nat \<Rightarrow> bool option" where
  "getbit buffer n = map_option (\<lambda>w. w \<noteq> 0) (mp_getbits buffer n 1)"

lemma getbits_inside: "mp_getbits buffer n len = Some w \<Longrightarrow> n < 8 * length buffer"
  by (auto simp: mp_getbits_def ubyte_def Let_def split: if_splits)

lemma getbit_inside: "getbit buffer n = Some w \<Longrightarrow> n < 8 * length buffer"
  by (auto simp: getbit_def dest: getbits_inside)

text \<open>The number of zero or one bits from a position on; both loops end where the buffer does.\<close>

function count_bits :: "bool \<Rightarrow> string \<Rightarrow> nat \<Rightarrow> nat option" where
  "count_bits v buffer n =
     (case getbit buffer n of
        None \<Rightarrow> None
      | Some b \<Rightarrow> if b = v then map_option Suc (count_bits v buffer (n + 1)) else Some 0)"
  by auto

termination
  by (relation "measure (\<lambda>(_, buffer, n). 8 * length buffer - n)") (auto dest: getbit_inside)

declare count_bits.simps [simp del]

subsection \<open>MPEG-4\<close>

definition read_timeinc :: "mp_mpeg_header \<Rightarrow> string \<Rightarrow> nat \<Rightarrow> (nat \<times> mp_mpeg_header) option" where
  "read_timeinc picture buffer n =
     (let bits = unat (timeinc_bits picture)
      in if 8 < bits
         then do {
           a \<leftarrow> mp_getbits buffer n (bits - 8);
           b \<leftarrow> mp_getbits buffer (n + (bits - 8)) 8;
           Some (n + bits, picture\<lparr>timeinc_unit := or (push_bit 8 (ucast a)) (ucast b)\<rparr>) }
         else do {
           a \<leftarrow> mp_getbits buffer n bits;
           Some (n + bits, picture\<lparr>timeinc_unit := ucast a\<rparr>) })"

function bit_count :: "32 word \<Rightarrow> nat" where
  "bit_count v = (if v = 0 then 0 else Suc (bit_count (drop_bit 1 v)))"
  by auto

termination
proof (relation "measure unat", goal_cases)
  case (2 v)
  then have "0 < unat v" by (simp add: unat_gt_0)
  then show ?case by (simp add: drop_bit_eq_div unat_div_distrib)
qed simp

declare bit_count.simps [simp del]

text \<open>
  The layer: the bits before the size are skipped according to the flags. \<open>n\<close> is advanced by
  the result of \<open>read_timeinc\<close>, which is a position already.
\<close>

definition vol_timing :: "string \<Rightarrow> nat option" where
  "vol_timing buffer =
     do {
       let n = 9;
       b \<leftarrow> getbit buffer n;
       let n = (if b then n + 7 else n) + 1;
       aspect \<leftarrow> mp_getbits buffer n 4;
       let n = n + 4;
       n \<leftarrow> (if aspect = 0x0F
             then do { _ \<leftarrow> mp_getbits buffer n 8; _ \<leftarrow> mp_getbits buffer (n + 8) 8; Some (n + 16) }
             else Some n);
       b \<leftarrow> getbit buffer n;
       n \<leftarrow> (if b then do { c \<leftarrow> getbit buffer (n + 4); Some (n + 4 + (if c then 79 else 0) + 1) } else Some (n + 1));
       Some (n + 3) }"

definition mp4_header_process_vol :: "(32 word \<Rightarrow> 32 word \<Rightarrow> 32 word) \<Rightarrow> mp_mpeg_header \<Rightarrow> string \<Rightarrow> mp_mpeg_header option" where
  "mp4_header_process_vol quot picture buffer =
     do {
       let picture = picture\<lparr>fps := 0, timeinc_bits := 0, timeinc_resolution := 0, timeinc_unit := 0\<rparr>;
       n \<leftarrow> vol_timing buffer;
       a \<leftarrow> mp_getbits buffer n 8; b \<leftarrow> mp_getbits buffer (n + 8) 8;
       let res = or (push_bit 8 (ucast a)) (ucast b);
       let picture = picture\<lparr>timeinc_resolution := res, timeinc_bits := word_of_nat (max 1 (bit_count (res - 1)))\<rparr>;
       fixed_rate \<leftarrow> getbit buffer (n + 17);
       (n, picture) \<leftarrow>
         (if fixed_rate
          then do {
            (k, picture) \<leftarrow> read_timeinc picture buffer (n + 18);
            Some (n + 18 + k, if timeinc_unit picture \<noteq> 0
                              then picture\<lparr>fps := quot (timeinc_resolution picture) (timeinc_unit picture)\<rparr> else picture) }
          else Some (n + 18, picture));
       w \<leftarrow> mp_getbits16 buffer (n + 1) 13;
       h \<leftarrow> mp_getbits16 buffer (n + 15) 13;
       Some (picture\<lparr>display_picture_width := w, display_picture_height := h\<rparr>) }"

definition mp4_header_process_vop :: "mp_mpeg_header \<Rightarrow> string \<Rightarrow> mp_mpeg_header option" where
  "mp4_header_process_vop picture buffer =
     do {
       t \<leftarrow> mp_getbits buffer 0 2;
       let picture = picture\<lparr>picture_type := uint t\<rparr>;
       k \<leftarrow> count_bits True buffer 2;
       let n = 2 + k + 1;
       _ \<leftarrow> getbit buffer n;
       (_, picture) \<leftarrow> read_timeinc picture buffer (n + 1);
       Some picture }"

subsection \<open>Exp-Golomb codes\<close>

function golomb_rest :: "string \<Rightarrow> nat \<Rightarrow> nat \<Rightarrow> 32 word \<Rightarrow> 32 word option" where
  "golomb_rest buffer x n v =
     (if n < x
      then
        (let m = min (x - n) 8
         in do {
           b \<leftarrow> mp_getbits buffer n m;
           let v = or v (ucast b);
           let n = n + m;
           golomb_rest buffer x n (if 8 < x - n then push_bit 8 v else v) })
      else Some v)"
  by auto

termination
  by (relation "measure (\<lambda>(_, x, n, _). x - n)") auto

declare golomb_rest.simps [simp del]

definition read_golomb :: "string \<Rightarrow> nat \<Rightarrow> (32 word \<times> nat) option" where
  "read_golomb buffer n =
     do {
       len \<leftarrow> count_bits False buffer n;
       let n = n + len + 1;
       v \<leftarrow> golomb_rest buffer (n + len) n 0;
       Some (push_bit len 1 - 1 + v, n + len) }"

definition read_golomb_s :: "string \<Rightarrow> nat \<Rightarrow> (32 word \<times> nat) option" where
  "read_golomb_s buffer n =
     do { (v, n) \<leftarrow> read_golomb buffer n; Some (if and v 1 \<noteq> 0 then drop_bit 1 (v + 1) else - drop_bit 1 v, n) }"

subsection \<open>H.264\<close>

text \<open>
  Emulation prevention: the third byte of 0, 0, 3 is dropped. \<open>dest\<close> is a new block of \<open>len\<close>
  bytes; the last two bytes are copied from the end, wherever the loop stopped. \<open>i\<close> and \<open>j\<close>
  count what was read and written.
\<close>

function unescape_loop :: "string \<Rightarrow> int \<Rightarrow> nat \<Rightarrow> string \<Rightarrow> (nat \<times> string) option" where
  "unescape_loop buf len i out =
     (if int i \<le> len - 3
      then if length buf \<le> i + 2 then None
           else if buf ! i = CHR 0x00 \<and> buf ! (i + 1) = CHR 0x00 \<and> buf ! (i + 2) = CHR 0x03
           then unescape_loop buf len (i + 3) (out @ [CHR 0x00, CHR 0x00])
           else unescape_loop buf len (i + 1) (out @ [buf ! i])
      else Some (i, out))"
  by auto

termination
  by (relation "measure (\<lambda>(_, len, i, _). nat (len - int i))") auto

declare unescape_loop.simps [simp del]

definition mp_unescape03 :: "string \<Rightarrow> int \<Rightarrow> (int \<times> string) option" where
  "mp_unescape03 buf len =
     do {
       (i, out) \<leftarrow> unescape_loop buf len 0 [];
       if len < 2 \<or> int (length buf) < len \<or> len < int (length out) + 2 then None
       else do {
         let skip = i - length out;
         let dest = out @ [buf ! nat (len - 2), buf ! nat (len - 1)];
         let n = nat len - skip;
         if length dest < n then None else Some (int n, take n dest @ drop n buf) } }"

fun skip_golombs :: "string \<Rightarrow> nat \<Rightarrow> nat \<Rightarrow> nat option" where
  "skip_golombs buf 0 n = Some n"
| "skip_golombs buf (Suc k) n = do { (_, n) \<leftarrow> read_golomb buf n; skip_golombs buf k n }"

text \<open>A scaling list of at most \<open>k\<close> entries, and the lists with the numbers from \<open>i\<close> on.\<close>

fun skip_scaling_list :: "string \<Rightarrow> nat \<Rightarrow> 32 word \<Rightarrow> nat \<Rightarrow> nat option" where
  "skip_scaling_list buf 0 v n = Some n"
| "skip_scaling_list buf (Suc k) v n =
     (if v = 0 then Some n
      else do { (g, n) \<leftarrow> read_golomb_s buf n; skip_scaling_list buf k (and (v + g) 255) n })"

fun skip_scaling_lists :: "string \<Rightarrow> nat list \<Rightarrow> nat \<Rightarrow> nat option" where
  "skip_scaling_lists buf [] n = Some n"
| "skip_scaling_lists buf (i # is) n =
     do {
       b \<leftarrow> getbit buf n;
       n \<leftarrow> (if b then skip_scaling_list buf (if i < 6 then 16 else 64) 8 (n + 1) else Some (n + 1));
       skip_scaling_lists buf is n }"

definition getbits32 :: "string \<Rightarrow> nat \<Rightarrow> 32 word option" where
  "getbits32 buf n =
     do {
       a \<leftarrow> mp_getbits buf n 8; b \<leftarrow> mp_getbits buf (n + 8) 8; c \<leftarrow> mp_getbits buf (n + 16) 8; d \<leftarrow> mp_getbits buf (n + 24) 8;
       Some (or (or (or (push_bit 24 (ucast a)) (push_bit 16 (ucast b))) (push_bit 8 (ucast c))) (ucast d)) }"

definition vui_aspect :: "mp_mpeg_header \<Rightarrow> string \<Rightarrow> nat \<Rightarrow> (nat \<times> mp_mpeg_header) option" where
  "vui_aspect picture buf n =
     do {
       b \<leftarrow> getbit buf n;
       if \<not> b then Some (n + 1, picture)
       else do {
         a \<leftarrow> mp_getbits buf (n + 1) 8;
         let picture = picture\<lparr>aspect_ratio_information := uint a\<rparr>;
         let n = n + 9;
         if a \<noteq> 255 then Some (n, picture)
         else do {
           w \<leftarrow> mp_getbits buf n 8; w' \<leftarrow> mp_getbits buf (n + 8) 8; h \<leftarrow> mp_getbits buf (n + 16) 8; h' \<leftarrow> mp_getbits buf (n + 24) 8;
           Some (n + 32, picture\<lparr>display_picture_width := or (push_bit 8 (uint w)) (uint w'),
                                 display_picture_height := or (push_bit 8 (uint h)) (uint h')\<rparr>) } } }"

definition vui_timing ::
  "(32 word \<Rightarrow> 32 word \<Rightarrow> 32 word) \<Rightarrow> (32 word \<Rightarrow> 32 word) \<Rightarrow> mp_mpeg_header \<Rightarrow> string \<Rightarrow> nat \<Rightarrow> (nat \<times> mp_mpeg_header) option"
where
  "vui_timing quot half picture buf n =
     do {
       timing \<leftarrow> getbit buf n;
       let n = n + 1;
       if \<not> timing then Some (n, picture)
       else do {
         u \<leftarrow> getbits32 buf n;
         r \<leftarrow> getbits32 buf (n + 32);
         let n = n + 64;
         fixed_fps \<leftarrow> getbit buf n;
         let picture = picture\<lparr>timeinc_unit := u, timeinc_resolution := r\<rparr>;
         let picture = (if u \<noteq> 0 \<and> r \<noteq> 0 then picture\<lparr>fps := quot r u\<rparr> else picture);
         Some (n, if fixed_fps then picture\<lparr>fps := half (fps picture)\<rparr> else picture) } }"

definition h264_parse_vui ::
  "(32 word \<Rightarrow> 32 word \<Rightarrow> 32 word) \<Rightarrow> (32 word \<Rightarrow> 32 word) \<Rightarrow> mp_mpeg_header \<Rightarrow> string \<Rightarrow> nat \<Rightarrow> (nat \<times> mp_mpeg_header) option"
where
  "h264_parse_vui quot half picture buf n =
     do {
       (n, picture) \<leftarrow> vui_aspect picture buf n;
       overscan \<leftarrow> getbit buf n;
       let n = n + (if overscan then 2 else 1);
       vsp_color \<leftarrow> getbit buf n;
       let n = n + 1;
       n \<leftarrow> (if vsp_color then do { b \<leftarrow> getbit buf (n + 4); Some (n + 5 + (if b then 24 else 0)) } else Some n);
       chroma \<leftarrow> getbit buf n;
       n \<leftarrow> (if chroma then skip_golombs buf 2 (n + 1) else Some (n + 1));
       vui_timing quot half picture buf n }"

text \<open>The parts of the parameter set: up to the chroma format, the order count, the rest.\<close>

definition sps_profile :: "string \<Rightarrow> nat \<Rightarrow> nat option" where
  "sps_profile buf n =
     do {
       (_, n) \<leftarrow> read_golomb buf n;
       p \<leftarrow> ubyte buf 0;
       if p < 100 then Some n
       else do {
         (c, n) \<leftarrow> read_golomb buf n;
         n \<leftarrow> skip_golombs buf 2 (if c = 3 then n + 1 else n);
         b \<leftarrow> getbit buf (n + 1);
         if b then skip_scaling_lists buf [0, 1, 2, 3, 4, 5, 6, 7] (n + 2) else Some (n + 2) } }"

definition sps_order_count :: "string \<Rightarrow> nat \<Rightarrow> nat option" where
  "sps_order_count buf n =
     do {
       (_, n) \<leftarrow> read_golomb buf n;
       (v, n) \<leftarrow> read_golomb buf n;
       if v = 0 then skip_golombs buf 1 n
       else if v = 1
       then do {
         _ \<leftarrow> getbit buf n;
         n \<leftarrow> skip_golombs buf 2 (n + 1);
         (v, n) \<leftarrow> read_golomb buf n;
         skip_golombs buf (unat v) n }
       else Some n }"

definition sps_size :: "mp_mpeg_header \<Rightarrow> string \<Rightarrow> nat \<Rightarrow> (nat \<times> mp_mpeg_header) option" where
  "sps_size picture buf n =
     do {
       n \<leftarrow> skip_golombs buf 1 n;
       _ \<leftarrow> getbit buf n;
       (w, n) \<leftarrow> read_golomb buf (n + 1);
       (h, n) \<leftarrow> read_golomb buf n;
       frame_mbs_only \<leftarrow> getbit buf n;
       let n = n + 1;
       let mbs = (if frame_mbs_only then 1 else 2 :: 32 word);
       let picture = picture\<lparr>display_picture_width := sint (16 * (w + 1)), display_picture_height := sint (16 * mbs * (h + 1))\<rparr>;
       n \<leftarrow> (if frame_mbs_only then Some n else do { _ \<leftarrow> getbit buf n; Some (n + 1) });
       _ \<leftarrow> getbit buf n;
       crop \<leftarrow> getbit buf (n + 1);
       n \<leftarrow> (if crop then skip_golombs buf 4 (n + 2) else Some (n + 2));
       Some (n, picture) }"

definition h264_parse_sps ::
  "(32 word \<Rightarrow> 32 word \<Rightarrow> 32 word) \<Rightarrow> (32 word \<Rightarrow> 32 word) \<Rightarrow> mp_mpeg_header \<Rightarrow> string \<Rightarrow> int \<Rightarrow> (nat \<times> mp_mpeg_header \<times> string) option"
where
  "h264_parse_sps quot half picture buf len =
     do {
       (_, buf) \<leftarrow> mp_unescape03 buf len;
       let picture = picture\<lparr>fps := 0, timeinc_unit := 0, timeinc_resolution := 0\<rparr>;
       n \<leftarrow> sps_profile buf 24;
       n \<leftarrow> sps_order_count buf n;
       (n, picture) \<leftarrow> sps_size picture buf n;
       vui \<leftarrow> getbit buf n;
       (n, picture) \<leftarrow> (if vui then h264_parse_vui quot half picture buf (n + 1) else Some (n + 1, picture));
       Some (n, picture, buf) }"

subsection \<open>VC-1\<close>

text \<open>The frame rate of the display information, as a numerator and a denominator.\<close>

definition vc1_frates :: "32 word list" where
  "vc1_frates = [0, 24000, 25000, 30000, 50000, 60000, 48000, 72000, 0]"

definition vc1_frdivs :: "32 word list" where
  "vc1_frdivs = [0, 1000, 1001, 0]"

definition vc1_display :: "(32 word \<Rightarrow> 32 word \<Rightarrow> 32 word) \<Rightarrow> mp_mpeg_header \<Rightarrow> string \<Rightarrow> nat \<Rightarrow> mp_mpeg_header option" where
  "vc1_display quot picture buf n =
     do {
       _ \<leftarrow> mp_getbits16 buf n 14;
       _ \<leftarrow> mp_getbits16 buf (n + 14) 14;
       aspect \<leftarrow> getbit buf (n + 28);
       let n = n + 29;
       n \<leftarrow> (if aspect
             then do {
               x \<leftarrow> mp_getbits buf n 4;
               if x = 15 then do { _ \<leftarrow> mp_getbits16 buf (n + 4) 16; Some (n + 20) } else Some (n + 4) }
             else Some n);
       rates \<leftarrow> getbit buf n;
       let n = n + 1;
       if \<not> rates then Some picture
       else do {
         b \<leftarrow> getbit buf n;
         let n = n + 1;
         if b then do { frexp \<leftarrow> mp_getbits16 buf n 16; Some (picture\<lparr>fps := quot (word_of_int (frexp + 1)) 32\<rparr>) }
         else do {
           frnum \<leftarrow> mp_getbits buf n 8;
           frden \<leftarrow> mp_getbits buf (n + 8) 4;
           Some (if (frden = 1 \<or> frden = 2) \<and> frnum < 8
                 then picture\<lparr>fps := quot (vc1_frates ! unat frnum) (vc1_frdivs ! unat frden)\<rparr> else picture) } } }"

definition mp_vc1_decode_sequence_header ::
  "(32 word \<Rightarrow> 32 word \<Rightarrow> 32 word) \<Rightarrow> mp_mpeg_header \<Rightarrow> string \<Rightarrow> int \<Rightarrow> (int \<times> mp_mpeg_header \<times> string) option"
where
  "mp_vc1_decode_sequence_header quot picture buf len =
     do {
       (_, buf) \<leftarrow> mp_unescape03 buf len;
       let picture = picture\<lparr>display_picture_width := 0, display_picture_height := 0, fps := 0\<rparr>;
       x \<leftarrow> mp_getbits buf 0 2;
       if x \<noteq> 3 then Some (0, picture, buf)
       else do {
         _ \<leftarrow> mp_getbits16 buf 2 14;
         w \<leftarrow> mp_getbits16 buf 16 12;
         h \<leftarrow> mp_getbits16 buf 28 12;
         let picture = picture\<lparr>display_picture_width := w * 2 + 2, display_picture_height := h * 2 + 2\<rparr>;
         _ \<leftarrow> mp_getbits buf 40 6;
         info \<leftarrow> getbit buf 46;
         picture \<leftarrow> (if info then vc1_display quot picture buf 47 else Some picture);
         Some (1, picture, buf) } }"

end
