(* ===== verification/Mpeg_Hdr_Spec.thy ===== *)
theory Mpeg_Hdr_Spec
  imports Mpeg_Hdr
begin

text \<open>
  What the header parsers read: a buffer as a list of bits, fields and Exp-Golomb codes in it,
  and headers written from such fields, which the parsers read back; and the headers they
  do not read back.
\<close>

subsection \<open>Bits of a buffer\<close>

definition bits_of :: "string \<Rightarrow> bool list" where
  "bits_of buf = concat (map (\<lambda>c. map (\<lambda>i. bit (byte c) (7 - i)) [0..<8]) buf)"

lemma bits_of_Cons: "bits_of (c # buf) = map (\<lambda>i. bit (byte c) (7 - i)) [0..<8] @ bits_of buf"
  by (simp add: bits_of_def)

lemma length_bits_of [simp]: "length (bits_of buf) = 8 * length buf"
  by (induction buf) (simp_all add: bits_of_Cons bits_of_def)

lemma bits_of_append: "bits_of (xs @ ys) = bits_of xs @ bits_of ys"
  by (simp add: bits_of_def)

lemma nth_bits_of: "k < 8 * length buf \<Longrightarrow> bits_of buf ! k = bit (byte (buf ! (k div 8))) (7 - k mod 8)"
proof (induction buf arbitrary: k)
  case (Cons c buf)
  show ?case
  proof (cases "k < 8")
    case True
    then show ?thesis by (simp add: bits_of_Cons nth_append)
  next
    case False
    then have "k div 8 = Suc ((k - 8) div 8)" "k mod 8 = (k - 8) mod 8" by (auto simp: le_div_geq le_mod_geq)
    then show ?thesis using Cons.IH [of "k - 8"] Cons.prems False by (simp add: bits_of_Cons nth_append)
  qed
qed simp

lemma bits_at: "p = 8 * q + i \<Longrightarrow> q < length buf \<Longrightarrow> i < 8 \<Longrightarrow> bits_of buf ! p = bit (byte (buf ! q)) (7 - i)"
  by (simp add: nth_bits_of)

definition field :: "nat \<Rightarrow> nat \<Rightarrow> bool list" where
  "field len v = map (\<lambda>i. bit v (len - 1 - i)) [0..<len]"

lemma length_field [simp]: "length (field len v) = len"
  by (simp add: field_def)

lemma nth_field: "i < len \<Longrightarrow> field len v ! i = bit v (len - 1 - i)"
  by (simp add: field_def)

lemma ubyte_inside: "i < length buf \<Longrightarrow> ubyte buf i = Some (word_of_nat (byte (buf ! i)))"
  by (simp add: ubyte_def)

lemma bit_getbits:
  assumes "n + len \<le> 8 * length buf" and "0 < len" and "len \<le> 8"
  obtains w where "mp_getbits buf n len = Some w" and "\<And>j. j < 8 \<Longrightarrow> bit w j \<longleftrightarrow> j < len \<and> bits_of buf ! (n + len - 1 - j)"
proof -
  define q m where "q = n div 8" and "m = n mod 8"
  have n: "n = 8 * q + m" "m < 8" by (simp_all add: q_def m_def)
  have q: "q < length buf" using assms n by linarith
  let ?b = "word_of_nat (byte (buf ! q)) :: 8 word" and ?c = "word_of_nat (byte (buf ! (q + 1))) :: 8 word"
  let ?y = "if len < 8 then drop_bit (8 - len) (push_bit m ?b) else push_bit m ?b"
  have b8: "bit ?b i = bit (byte (buf ! q)) i" "bit ?c i = bit (byte (buf ! (q + 1))) i" if "i < 8" for i
    using that by (simp_all add: bit_of_nat_iff)
  have y: "bit ?y j \<longleftrightarrow> j < len \<and> m + len - 1 - j < 8 \<and> bits_of buf ! (n + len - 1 - j)" if j: "j < 8" for j
  proof -
    have "bit ?y j \<longleftrightarrow> m \<le> j + (8 - len) \<and> j + (8 - len) < 8 \<and> bit ?b (j + (8 - len) - m)"
      using j by (auto simp: bit_drop_bit_eq bit_push_bit_iff add.commute)
    also have "\<dots> \<longleftrightarrow> m \<le> j + (8 - len) \<and> j < len \<and> bit (byte (buf ! q)) (j + (8 - len) - m)"
      using assms(2,3) by (auto simp: b8)
    also have "\<dots> \<longleftrightarrow> j < len \<and> m + len - 1 - j < 8 \<and> bits_of buf ! (n + len - 1 - j)"
    proof (cases "j < len \<and> m + len - 1 - j < 8")
      case True
      have p: "n + len - 1 - j = 8 * q + (m + len - 1 - j)" using True n by linarith
      have "bits_of buf ! (n + len - 1 - j) = bit (byte (buf ! q)) (7 - (m + len - 1 - j))"
        using True by (intro bits_at [OF p q]) blast
      moreover have "7 - (m + len - 1 - j) = j + (8 - len) - m" using True assms(3) n(2) by linarith
      ultimately show ?thesis using True assms(3) n(2) by auto
    qed (use assms(3) in auto)
    finally show ?thesis .
  qed
  show ?thesis
  proof (cases "8 - m < len")
    case False
    then have "mp_getbits buf n len = Some ?y"
      using q by (simp add: mp_getbits_def q_def [symmetric] m_def [symmetric] ubyte_def)
    then show ?thesis using y False n(2) assms(3) by (intro that) auto
  next
    case True
    then have q1: "q + 1 < length buf" using assms(1) n by linarith
    let ?l = "len - (8 - m)"
    have l: "0 < ?l" "?l \<le> 8" using True assms(3) n(2) by simp_all
    have "mp_getbits buf n len = Some (or ?y (drop_bit (8 - ?l) ?c))"
      using q q1 True l by (simp add: mp_getbits_def q_def [symmetric] m_def [symmetric] ubyte_def Let_def)
    moreover have "bit (or ?y (drop_bit (8 - ?l) ?c)) j \<longleftrightarrow> j < len \<and> bits_of buf ! (n + len - 1 - j)" if "j < 8" for j
    proof (cases "m + len - 1 - j < 8")
      case True
      then have "8 \<le> j + (8 - ?l) \<or> len \<le> j" using assms(3) n(2) l by linarith
      then have "\<not> bit (drop_bit (8 - ?l) ?c) j \<or> len \<le> j"
        by (auto simp: bit_drop_bit_eq add.commute dest: bit_imp_le_length)
      moreover have "\<not> bit (drop_bit (8 - ?l) ?c) j" if "len \<le> j"
        using that n(2) l by (auto simp: bit_drop_bit_eq add.commute dest: bit_imp_le_length)
      ultimately show ?thesis using y [OF that] True by (auto simp: bit_or_iff)
    next
      case False
      then have "9 + j \<le> m + len" by linarith
      then obtain k where k: "m + len = 9 + j + k" using le_Suc_ex by blast
      then have "n + len = 8 * q + 9 + j + k" using n by linarith
      then have p: "n + len - 1 - j = 8 * (q + 1) + (m + len - 1 - j - 8)" using k by simp
      have "bits_of buf ! (n + len - 1 - j) = bit (byte (buf ! (q + 1))) (7 - (m + len - 1 - j - 8))"
        using False n(2) assms(3) by (intro bits_at [OF p q1]) linarith
      moreover have "7 - (m + len - 1 - j - 8) = j + (8 - ?l)" "j + (8 - ?l) < 8" "j < len" using False assms(3) n(2) l by linarith+
      ultimately show ?thesis using y [OF that] False b8(2) by (simp add: bit_or_iff bit_drop_bit_eq add.commute)
    qed
    ultimately show ?thesis by (intro that) auto
  qed
qed

text \<open>A field at a position is read.\<close>

lemma getbits_field:
  assumes "drop n (bits_of buf) = field len v @ r" and "v < 2 ^ len" and "0 < len" and "len \<le> 8"
  shows "mp_getbits buf n len = Some (word_of_nat v)" "drop (n + len) (bits_of buf) = r"
proof -
  have "length (drop n (bits_of buf)) = len + length r" using assms(1) by simp
  then have inside: "n + len \<le> 8 * length buf" using assms(3) by simp
  from bit_getbits [OF inside assms(3,4)] obtain w where w: "mp_getbits buf n len = Some w"
    "\<And>j. j < 8 \<Longrightarrow> bit w j \<longleftrightarrow> j < len \<and> bits_of buf ! (n + len - 1 - j)" by blast
  have "w = word_of_nat v"
  proof (rule bit_word_eqI)
    fix j assume "j < LENGTH(8)"
    then have j: "j < 8" by simp
    have nth: "bits_of buf ! (n + i) = field len v ! i" if "i < len" for i
      using that arg_cong [OF assms(1), of "\<lambda>xs. xs ! i"] inside by (simp add: nth_append)
    show "bit w j \<longleftrightarrow> bit (word_of_nat v :: 8 word) j"
    proof (cases "j < len")
      case True
      then have "n + len - 1 - j = n + (len - 1 - j)" by linarith
      then have "bits_of buf ! (n + len - 1 - j) = bit v j" using nth [of "len - 1 - j"] True by (simp add: nth_field)
      then show ?thesis using w(2) [OF j] True j by (simp add: bit_of_nat_iff)
    next
      case False
      then have "\<not> bit v j" using assms(2)
        by (metis bit_take_bit_iff not_less take_bit_nat_eq_self)
      then show ?thesis using w(2) [OF j] False by (simp add: bit_of_nat_iff)
    qed
  qed
  then show "mp_getbits buf n len = Some (word_of_nat v)" using w(1) by simp
  show "drop (n + len) (bits_of buf) = r" using assms(1) by (metis append_eq_conv_conj drop_drop length_field add.commute)
qed

lemma field_append: "field (a + b) v = field a (v div 2 ^ b) @ field b (v mod 2 ^ b)"
proof (rule nth_equalityI)
  fix i assume i: "i < length (field (a + b) v)"
  show "field (a + b) v ! i = (field a (v div 2 ^ b) @ field b (v mod 2 ^ b)) ! i"
  proof (cases "i < a")
    case True
    then have "b + (a - 1 - i) = a + b - 1 - i" by linarith
    then show ?thesis using True i by (simp add: nth_append nth_field flip: drop_bit_eq_div) (simp add: bit_drop_bit_eq)
  next
    case False
    then have "b - 1 - (i - a) = a + b - 1 - i" by linarith
    moreover have "b - 1 - (i - a) < b" using False i by simp
    ultimately show ?thesis using False i by (simp add: nth_append nth_field flip: take_bit_eq_mod) (simp add: bit_take_bit_iff)
  qed
qed simp

lemma two_bytes: "b < 256 \<Longrightarrow> or (push_bit 8 (int a)) (int b) = 256 * int a + int b"
proof -
  assume b: "b < 256"
  have "and (push_bit 8 (int a)) (int b) = 0"
  proof (rule bit_eqI)
    fix i
    have "\<not> bit (int b) i" if "8 \<le> i"
    proof -
      have "int b < 2 ^ 8" using b by simp
      then have "take_bit 8 (int b) = int b" by (intro take_bit_int_eq_self) simp_all
      then show ?thesis using that by (metis bit_take_bit_iff not_le)
    qed
    then show "bit (and (push_bit 8 (int a)) (int b)) i \<longleftrightarrow> bit (0 :: int) i"
      by (auto simp: bit_and_iff bit_push_bit_iff)
  qed
  then have "or (push_bit 8 (int a)) (int b) = push_bit 8 (int a) + int b" by (simp add: disjunctive_add_eq_or)
  then show ?thesis by (simp add: push_bit_eq_mult)
qed

lemma getbits16_field:
  assumes "drop n (bits_of buf) = field len v @ r" and "v < 2 ^ len" and "0 < len" and "len \<le> 16"
  shows "mp_getbits16 buf n len = Some (int v)" "drop (n + len) (bits_of buf) = r"
proof -
  have "mp_getbits16 buf n len = Some (int v) \<and> drop (n + len) (bits_of buf) = r"
  proof (cases "8 < len")
    case False
    then have "v < 2 ^ 8" using assms(2) by (meson less_le_trans not_le one_le_numeral power_increasing)
    then have "take_bit 8 v = v" by (rule take_bit_nat_eq_self)
    then show ?thesis using getbits_field [OF assms(1-3)] False by (simp add: mp_getbits16_def unsigned_of_nat)
  next
    case True
    define k where "k = len - 8"
    have len: "len = k + 8" "0 < k" "k \<le> 8" using True assms(4) by (simp_all add: k_def)
    have d: "drop n (bits_of buf) = field k (v div 2 ^ 8) @ field 8 (v mod 2 ^ 8) @ r"
      using assms(1) by (simp only: len(1) field_append append_assoc)
    have hi: "v div 2 ^ 8 < 2 ^ k" using assms(2) by (simp add: len(1) power_add less_mult_imp_div_less)
    note h = getbits_field [OF d hi len(2,3)]
    note l = getbits_field [OF h(2), simplified]
    have "(2 :: nat) ^ k \<le> 2 ^ 8" using len(3) by (rule power_increasing) simp
    then have "v div 256 < 256" using hi by simp
    moreover have e: "256 * int (v div 256) + int (v mod 256) = int v" by (metis mult_div_mod_eq of_nat_add of_nat_mult of_nat_numeral)
    ultimately have "or (push_bit 8 (uint (word_of_nat (v div 256) :: 8 word))) (uint (word_of_nat (v mod 256) :: 8 word)) = int v"
      using two_bytes [of "v mod 256" "v div 256"] e by (simp add: unsigned_of_nat take_bit_nat_eq_self)
    then show ?thesis using h l len(2) by (simp add: mp_getbits16_def len(1) add.assoc)
  qed
  then show "mp_getbits16 buf n len = Some (int v)" "drop (n + len) (bits_of buf) = r" by simp_all
qed

text \<open>The bytes of a list of bits.\<close>

definition bytes_of :: "bool list \<Rightarrow> string" where
  "bytes_of bs = map (\<lambda>i. char_of (horner_sum of_bool 2 (rev (take 8 (drop (8 * i) bs))) :: nat)) [0..<length bs div 8]"

lemma bits_of_bytes_of:
  assumes "8 dvd length bs" shows "bits_of (bytes_of bs) = bs"
proof (rule nth_equalityI)
  from assms show l: "length (bits_of (bytes_of bs)) = length bs" by (simp add: bytes_of_def)
  fix k assume "k < length (bits_of (bytes_of bs))"
  then have k: "k < length bs" using l by simp
  then have q: "k div 8 < length bs div 8" using assms by (auto elim!: dvdE)
  let ?w = "rev (take 8 (drop (8 * (k div 8)) bs))"
  have w: "length ?w = 8" using q by simp
  have "(horner_sum of_bool 2 ?w :: nat) < 2 ^ length ?w" by (rule horner_sum_of_bool_2_less)
  then have "byte (bytes_of bs ! (k div 8)) = horner_sum of_bool 2 ?w"
    unfolding w using q by (simp add: bytes_of_def byte_def)
  moreover have "k < 8 * length (bytes_of bs)" "7 - k mod 8 < 8" using k l by (simp_all add: bytes_of_def less_imp_diff_less)
  ultimately have "bits_of (bytes_of bs) ! k = ?w ! (7 - k mod 8)"
    using w by (simp add: nth_bits_of bit_horner_sum_bit_iff)
  also have "\<dots> = bs ! (8 * (k div 8) + k mod 8)" using w q by (simp add: rev_nth)
  also have "\<dots> = bs ! k" by simp
  finally show "bits_of (bytes_of bs) ! k = bs ! k" .
qed

subsection \<open>Flags and counts\<close>

lemma getbit_at: "drop n (bits_of buf) = b # r \<Longrightarrow> getbit buf n = Some b"
  using getbits_field(1) [of n buf 1 "of_bool b" r] by (cases b) (simp_all add: getbit_def field_def bit_0)

lemma drop_step: "drop n (bits_of buf) = b # r \<Longrightarrow> drop (Suc n) (bits_of buf) = r"
  by (metis drop_Suc drop_tl list.sel(3))

lemma drop_bits: "drop n (bits_of buf) = xs @ r \<Longrightarrow> drop (n + length xs) (bits_of buf) = r"
  by (metis append_eq_conv_conj drop_drop add.commute)

lemma skip_bit: "drop n (bits_of buf) = b # r \<Longrightarrow> m = n + 1 \<Longrightarrow> drop m (bits_of buf) = r"
  by (simp add: drop_step)

lemma skip_bits: "drop n (bits_of buf) = xs @ r \<Longrightarrow> m = n + length xs \<Longrightarrow> drop m (bits_of buf) = r"
  by (simp add: drop_bits)

lemma count_bits_ok:
  "drop n (bits_of buf) = replicate k v @ (\<not> v) # r \<Longrightarrow> count_bits v buf n = Some k"
proof (induction k arbitrary: n)
  case 0
  then show ?case using getbit_at [of n buf "\<not> v" r] by (subst count_bits.simps) simp
next
  case (Suc k)
  then have "getbit buf n = Some v" by (intro getbit_at) simp
  moreover have "count_bits v buf (Suc n) = Some k" using Suc.prems by (intro Suc.IH drop_step [of n buf v]) simp
  ultimately show ?case by (subst count_bits.simps) simp
qed

subsection \<open>Exp-Golomb codes\<close>

text \<open>The code of \<open>2 ^ k - 1 + s\<close>, where \<open>s\<close> has \<open>k\<close> bits.\<close>

definition exp_golomb :: "nat \<Rightarrow> nat \<Rightarrow> bool list" where
  "exp_golomb k s = replicate k False @ True # field k s"

lemma length_exp_golomb [simp]: "length (exp_golomb k s) = 2 * k + 1"
  by (simp add: exp_golomb_def)

lemma golomb_head:
  assumes "drop n (bits_of buf) = exp_golomb k s @ r"
  shows "count_bits False buf n = Some k" "drop (n + k + 1) (bits_of buf) = field k s @ r"
    "drop (n + length (exp_golomb k s)) (bits_of buf) = r"
proof -
  have d: "drop n (bits_of buf) = replicate k False @ True # (field k s @ r)" using assms by (simp add: exp_golomb_def)
  show "count_bits False buf n = Some k" using count_bits_ok [of n buf k False] d by simp
  show "drop (n + k + 1) (bits_of buf) = field k s @ r" using drop_bits [OF d] drop_step [of "n + k" buf True] by simp
  show "drop (n + length (exp_golomb k s)) (bits_of buf) = r" by (rule drop_bits [OF assms])
qed

lemma golomb_rest_short:
  assumes "drop n (bits_of buf) = field k s @ r" and "s < 2 ^ k" and "k \<le> 8"
  shows "golomb_rest buf (n + k) n 0 = Some (word_of_nat s)"
proof (cases "k = 0")
  case True
  then show ?thesis using assms(2) by (subst golomb_rest.simps) simp
next
  case False
  then have f: "mp_getbits buf n k = Some (word_of_nat s)" using getbits_field(1) [OF assms(1,2)] assms(3) by simp
  have "s < 2 ^ 8" using assms(2,3) by (meson less_le_trans one_le_numeral power_increasing)
  then have "take_bit 8 s = s" by (rule take_bit_nat_eq_self)
  then have "ucast (word_of_nat s :: 8 word) = (word_of_nat s :: 32 word)" by (simp add: unsigned_of_nat)
  then show ?thesis using f False assms(3) by (subst golomb_rest.simps) (simp add: golomb_rest.simps [of buf "n + k" "n + k"])
qed

lemma golomb_value: "push_bit k 1 - 1 + word_of_nat s = (word_of_nat (2 ^ k - 1 + s) :: 32 word)"
proof -
  have "(word_of_nat (2 ^ k - 1) :: 32 word) = 2 ^ k - 1" by (subst of_nat_diff) simp_all
  then show ?thesis by (simp only: push_bit_eq_mult of_nat_add mult_1)
qed

lemma golomb_read:
  assumes "drop n (bits_of buf) = exp_golomb k s @ r" and "s < 2 ^ k" and "k \<le> 8"
  shows "read_golomb buf n = Some (word_of_nat (2 ^ k - 1 + s), n + (2 * k + 1))"
proof -
  note h = golomb_head [OF assms(1)]
  have "golomb_rest buf (n + k + 1 + k) (n + k + 1) 0 = Some (word_of_nat s)"
    by (rule golomb_rest_short [OF h(2) assms(2,3)])
  then show ?thesis using h(1) golomb_value [of k s] by (simp add: read_golomb_def ac_simps)
qed

lemma golomb_rest_long:
  assumes "drop n (bits_of buf) = field k s @ r" and "s < 2 ^ k" and "8 < k" and "k \<le> 16"
  shows "golomb_rest buf (n + k) n 0 = Some (word_of_nat (or (s div 2 ^ (k - 8)) (s mod 2 ^ (k - 8))))"
proof -
  let ?h = "s div 2 ^ (k - 8)" and ?l = "s mod 2 ^ (k - 8)"
  have "field k s = field (8 + (k - 8)) s" using assms(3) by simp
  then have d: "drop n (bits_of buf) = field 8 ?h @ field (k - 8) ?l @ r"
    using assms(1) by (simp only: field_append append_assoc)
  have "s < 2 ^ 8 * 2 ^ (k - 8)" using assms(2,3) by (simp only: flip: power_add) simp
  then have h: "?h < 2 ^ 8" by (rule less_mult_imp_div_less)
  note a = getbits_field [OF d h, simplified]
  have "(2 :: nat) ^ (k - 8) \<le> 2 ^ 8" using assms(4) by (intro power_increasing) simp_all
  moreover have "?l < 2 ^ (k - 8)" by simp
  ultimately have l: "?l < 2 ^ 8" by linarith
  have b: "mp_getbits buf (n + 8) (k - 8) = Some (word_of_nat ?l)"
    using getbits_field(1) [OF a(2)] assms(3,4) by simp
  have c: "(ucast (word_of_nat x :: 8 word) :: 32 word) = word_of_nat x" if "x < 2 ^ 8" for x :: nat
    using that by (simp add: unsigned_of_nat take_bit_nat_eq_self)
  have "\<not> 8 < k - 8" using assms(4) by simp
  then show ?thesis
    using assms(3) a(1) b c [OF h] c [OF l]
    by (subst golomb_rest.simps)
       (simp add: golomb_rest.simps [of buf "n + k" "n + 8"] golomb_rest.simps [of buf "n + k" "n + k"] of_nat_or_eq Let_def)
qed

text \<open>
  A code of nine to sixteen bits is read wrongly: the first eight bits of the number are
  not shifted to their place before the rest is added, so that the numbers from \<open>2 ^ 9 - 1\<close>
  to \<open>2 ^ 17 - 2\<close> are mixed up; the position behind the code is right.
\<close>

theorem long_golomb_misread:
  assumes "drop n (bits_of buf) = exp_golomb k s @ r" and "s < 2 ^ k" and "8 < k" and "k \<le> 16"
  shows "read_golomb buf n = Some (word_of_nat (2 ^ k - 1 + or (s div 2 ^ (k - 8)) (s mod 2 ^ (k - 8))), n + (2 * k + 1))"
proof -
  note h = golomb_head [OF assms(1)]
  have "golomb_rest buf (n + k + 1 + k) (n + k + 1) 0 = Some (word_of_nat (or (s div 2 ^ (k - 8)) (s mod 2 ^ (k - 8))))"
    by (rule golomb_rest_long [OF h(2) assms(2-4)])
  then show ?thesis using h(1) golomb_value [of k "or (s div 2 ^ (k - 8)) (s mod 2 ^ (k - 8))"] by (simp add: read_golomb_def ac_simps)
qed

text \<open>The code of 1022 is read as 766.\<close>

theorem long_golomb_misread_witness:
  "read_golomb [CHR 0x00, CHR 0x7F, CHR 0xE0] 0 = Some (766, 19)"
proof -
  have "drop 0 (bits_of [CHR 0x00, CHR 0x7F, CHR 0xE0]) = exp_golomb 9 511 @ [False, False, False, False, False]"
    by code_simp
  from long_golomb_misread [OF this] show ?thesis by simp
qed

subsection \<open>The video object layer\<close>

text \<open>
  A layer header as ISO 14496-2 has it: nine bits, the version, the pixel ratio with its two
  numbers if it is 15, the control parameters with those of the buffer, the shape; then the
  resolution of time, the fixed increment, and the size.
\<close>

record vol =
  vol_begin :: "bool list"
  vol_version :: "bool list option"
  vol_aspect :: nat
  vol_pixel :: "nat \<times> nat"
  vol_control :: "(bool list \<times> bool list option) option"
  vol_shape :: "bool list"
  vol_resolution :: nat
  vol_increment :: "nat option"

definition opt_bits :: "bool list option \<Rightarrow> bool list" where
  "opt_bits x = (case x of None \<Rightarrow> [False] | Some bs \<Rightarrow> True # bs)"

definition vol_ok :: "vol \<Rightarrow> bool" where
  "vol_ok v \<longleftrightarrow>
     length (vol_begin v) = 9 \<and> (\<forall>bs. vol_version v = Some bs \<longrightarrow> length bs = 7) \<and> vol_aspect v < 16 \<and>
     fst (vol_pixel v) < 256 \<and> snd (vol_pixel v) < 256 \<and>
     (\<forall>c b. vol_control v = Some (c, b) \<longrightarrow> length c = 3 \<and> (\<forall>bs. b = Some bs \<longrightarrow> length bs = 79)) \<and>
     length (vol_shape v) = 3 \<and> 0 < vol_resolution v \<and> vol_resolution v < 2 ^ 16"

definition vol_prefix :: "vol \<Rightarrow> bool list" where
  "vol_prefix v =
     vol_begin v @ opt_bits (vol_version v) @ field 4 (vol_aspect v) @
     (if vol_aspect v = 15 then field 8 (fst (vol_pixel v)) @ field 8 (snd (vol_pixel v)) else []) @
     opt_bits (map_option (\<lambda>(c, b). c @ opt_bits b) (vol_control v)) @ vol_shape v"

definition vol_time_bits :: "vol \<Rightarrow> nat" where
  "vol_time_bits v = max 1 (bit_count (word_of_nat (vol_resolution v) - 1))"

definition vol_bits :: "vol \<Rightarrow> nat \<Rightarrow> nat \<Rightarrow> bool list" where
  "vol_bits v width height =
     vol_prefix v @ field 16 (vol_resolution v) @ [True] @ opt_bits (map_option (field (vol_time_bits v)) (vol_increment v)) @
     [True] @ field 13 width @ [True] @ field 13 height"

lemma opt_flag:
  assumes "drop n (bits_of buf) = opt_bits x @ r"
  shows "getbit buf n = Some (x \<noteq> None)" "x = Some bs \<Longrightarrow> drop (n + 1) (bits_of buf) = bs @ r"
    "drop (n + length (opt_bits x)) (bits_of buf) = r"
  using assms getbit_at [of n buf] drop_step [of n buf] drop_bits [OF assms] by (auto simp: opt_bits_def split: option.splits)

lemma length_opt_bits: "length (opt_bits x) = (case x of None \<Rightarrow> 1 | Some bs \<Rightarrow> length bs + 1)"
  by (simp add: opt_bits_def split: option.split)

lemma vol_timing_ok:
  assumes "bits_of buf = vol_prefix v @ r" and "vol_ok v"
  shows "vol_timing buf = Some (length (vol_prefix v))" "17 < length (vol_prefix v)"
proof -
  note ok = assms(2) [unfolded vol_ok_def]
  let ?c = "map_option (\<lambda>(c, b). c @ opt_bits b) (vol_control v)"
  define p where "p = (if vol_aspect v = 15 then field 8 (fst (vol_pixel v)) @ field 8 (snd (vol_pixel v)) else [])"
  define n1 n2 n3 where "n1 = 9 + length (opt_bits (vol_version v))" and "n2 = n1 + 4" and "n3 = n2 + length p"
  have d0: "drop 0 (bits_of buf) = vol_begin v @ opt_bits (vol_version v) @ field 4 (vol_aspect v) @ p @ opt_bits ?c @ vol_shape v @ r"
    using assms(1) by (simp add: vol_prefix_def p_def)
  from drop_bits [OF d0] have d: "drop 9 (bits_of buf) = opt_bits (vol_version v) @ field 4 (vol_aspect v) @ p @ opt_bits ?c @ vol_shape v @ r"
    using ok by simp
  note d1 = opt_flag(3) [OF d, folded n1_def]
  have a: "vol_aspect v < 2 ^ 4" using ok by simp
  note f4 = getbits_field [OF d1 a, simplified, folded n2_def]
  have "unat (word_of_nat (vol_aspect v) :: 8 word) = vol_aspect v" using ok by (simp add: unsigned_of_nat take_bit_nat_eq_self)
  then have a15: "(word_of_nat (vol_aspect v) :: 8 word) = 15 \<longleftrightarrow> vol_aspect v = 15" by auto
  have px: "\<exists>x y. mp_getbits buf n2 8 = Some x \<and> mp_getbits buf (n2 + 8) 8 = Some y" if "vol_aspect v = 15"
  proof -
    have "drop n2 (bits_of buf) = field 8 (fst (vol_pixel v)) @ field 8 (snd (vol_pixel v)) @ opt_bits ?c @ vol_shape v @ r"
      using f4(2) that by (simp add: p_def)
    from getbits_field [OF this] ok have "\<exists>x. mp_getbits buf n2 8 = Some x"
      "drop (n2 + 8) (bits_of buf) = field 8 (snd (vol_pixel v)) @ opt_bits ?c @ vol_shape v @ r" by simp_all
    then show ?thesis using getbits_field(1) [of "n2 + 8" buf 8 "snd (vol_pixel v)"] ok by simp
  qed
  note d3 = drop_bits [OF f4(2), folded n3_def]
  note fl = opt_flag [OF d3]
  have ctl: "getbit buf (n3 + 4) = Some (b \<noteq> None)" if "vol_control v = Some (c, b)" for c b
  proof -
    have "drop (n3 + 1) (bits_of buf) = c @ opt_bits b @ vol_shape v @ r" using fl(2) that by simp
    from opt_flag(1) [OF drop_bits [OF this]] have "getbit buf (n3 + 1 + length c) = Some (b \<noteq> None)" .
    moreover have "n3 + 1 + length c = n3 + 4" using that ok by simp
    ultimately show ?thesis by metis
  qed
  have len: "length (vol_prefix v) = n3 + length (opt_bits ?c) + 3"
    using ok by (simp add: vol_prefix_def n3_def n2_def n1_def p_def)
  have v7: "length (opt_bits (vol_version v)) = (if vol_version v = None then 1 else 8)"
    using ok by (auto simp: length_opt_bits split: option.split)
  have c79: "length (opt_bits ?c) = (case vol_control v of None \<Rightarrow> 1 | Some (c, b) \<Rightarrow> if b = None then 5 else 84)"
    using ok by (auto simp: length_opt_bits split: option.split prod.split)
  have n1: "(if vol_version v = None then 9 else 9 + 7) + 1 = n1" using v7 by (simp add: n1_def)
  have n3: "n3 = n2 + (if vol_aspect v = 15 then 16 else 0)" by (simp add: n3_def p_def)
  show "17 < length (vol_prefix v)" using len v7 by (simp add: n3_def n2_def n1_def length_opt_bits split: option.split) 
  show "vol_timing buf = Some (length (vol_prefix v))"
    using opt_flag(1) [OF d] f4(1) fl(1) n1 n3 px ctl c79 len a15
    by (cases "vol_aspect v = 15"; cases "vol_version v"; cases "vol_control v")
       (auto simp: vol_timing_def n2_def Let_def)
qed

lemma two_bytes_word: "b < 256 \<Longrightarrow> or (push_bit 8 (word_of_nat a)) (word_of_nat b) = (word_of_nat (256 * a + b) :: 32 word)"
proof -
  assume "b < 256"
  then have "int (or (push_bit 8 a) b) = int (256 * a + b)"
    using two_bytes [of b a] by (simp add: of_nat_or_eq push_bit_eq_mult)
  then have "or (push_bit 8 a) b = 256 * a + b" by (simp only: of_nat_eq_iff)
  then have "(word_of_nat (or (push_bit 8 a) b) :: 32 word) = word_of_nat (256 * a + b)" by simp
  then show ?thesis by (simp add: of_nat_or_eq push_bit_eq_mult)
qed

lemma two_byte_field:
  assumes "drop n (bits_of buf) = field 16 v @ r" and "v < 2 ^ 16"
  obtains a b where "mp_getbits buf n 8 = Some a" "mp_getbits buf (n + 8) 8 = Some b" "or (push_bit 8 (ucast a)) (ucast b) = (word_of_nat v :: 32 word)"
    "drop (n + 16) (bits_of buf) = r"
proof -
  have "field 16 v = field (8 + 8) v" by simp
  then have d: "drop n (bits_of buf) = field 8 (v div 2 ^ 8) @ field 8 (v mod 2 ^ 8) @ r"
    using assms(1) by (simp only: field_append append_assoc)
  have hi: "v div 2 ^ 8 < 2 ^ 8" using assms(2) by simp
  note a = getbits_field [OF d hi, simplified]
  note b = getbits_field [OF a(2), simplified]
  have "or (push_bit 8 (ucast (word_of_nat (v div 256) :: 8 word))) (ucast (word_of_nat (v mod 256) :: 8 word)) = (word_of_nat v :: 32 word)"
    using hi two_bytes_word [of "v mod 256" "v div 256"] by (simp add: unsigned_of_nat take_bit_nat_eq_self)
  moreover have "drop (n + 16) (bits_of buf) = r" by (rule skip_bits [OF a(2)]) simp
  ultimately show ?thesis using that [OF a(1) b(1)] by blast
qed

lemma vol_head:
  assumes "bits_of buf = vol_bits v w h @ r" and "vol_ok v"
  obtains n a b where "vol_timing buf = Some n" "n = length (vol_prefix v)" "17 < n" "mp_getbits buf n 8 = Some a" "mp_getbits buf (n + 8) 8 = Some b"
    "or (push_bit 8 (ucast a)) (ucast b) = (word_of_nat (vol_resolution v) :: 32 word)" "getbit buf (n + 17) = Some (vol_increment v \<noteq> None)"
    "drop (n + 17 + length (opt_bits (map_option (field (vol_time_bits v)) (vol_increment v)))) (bits_of buf) =
       True # field 13 w @ True # field 13 h @ r"
proof -
  let ?i = "opt_bits (map_option (field (vol_time_bits v)) (vol_increment v))" and ?n = "length (vol_prefix v)"
  let ?r = "field 16 (vol_resolution v) @ True # ?i @ True # field 13 w @ True # field 13 h @ r"
  have d: "bits_of buf = vol_prefix v @ ?r" using assms(1) by (simp add: vol_bits_def)
  note t = vol_timing_ok [OF d assms(2)]
  have "drop ?n (bits_of buf) = ?r" using d by simp
  from two_byte_field [OF this] assms(2) obtain a b where ab: "mp_getbits buf ?n 8 = Some a" "mp_getbits buf (?n + 8) 8 = Some b"
    "or (push_bit 8 (ucast a)) (ucast b) = (word_of_nat (vol_resolution v) :: 32 word)"
    "drop (?n + 16) (bits_of buf) = True # ?i @ True # field 13 w @ True # field 13 h @ r" by (auto simp: vol_ok_def)
  have "drop (?n + 17) (bits_of buf) = ?i @ True # field 13 w @ True # field 13 h @ r" by (rule skip_bit [OF ab(4)]) simp
  note o = opt_flag [OF this]
  show ?thesis using that [OF t(1) refl t(2) ab(1-3)] o(1,3) by simp
qed

lemma bit_count_le: "unat v < 2 ^ k \<Longrightarrow> bit_count v \<le> k"
proof (induction k arbitrary: v)
  case 0
  then show ?case by (subst bit_count.simps) (simp add: unat_eq_0)
next
  case (Suc k)
  have "unat (drop_bit 1 v) < 2 ^ k" using Suc.prems by (simp add: drop_bit_eq_div unat_div_distrib)
  then show ?case using Suc.IH by (subst bit_count.simps) simp
qed

lemma vol_time_bits_le: "vol_ok v \<Longrightarrow> 0 < vol_time_bits v \<and> vol_time_bits v \<le> 16"
proof -
  assume ok: "vol_ok v"
  then have "word_of_nat (vol_resolution v) - 1 = (word_of_nat (vol_resolution v - 1) :: 32 word)" by (simp add: vol_ok_def of_nat_diff)
  moreover have "unat (word_of_nat (vol_resolution v - 1) :: 32 word) < 2 ^ 16"
  proof -
    have "vol_resolution v - 1 < 2 ^ 16" using ok by (auto simp: vol_ok_def)
    then show ?thesis
      using le_less_trans [OF take_bit_nat_less_eq_self [of 32 "vol_resolution v - 1"]] by (simp add: unsigned_of_nat del: of_nat_diff)
  qed
  ultimately show ?thesis using bit_count_le [of _ 16] by (simp add: vol_time_bits_def del: of_nat_diff)
qed

text \<open>
  C13: The layer header of MPEG-4: the size, the resolution of time and the number of bits of
  an increment are read back from a header without a fixed frame rate, whatever of its
  optional parts it has.
\<close>

theorem vol_roundtrip:
  assumes "bits_of buf = vol_bits v width height @ r" and "vol_ok v" and "vol_increment v = None"
    and "width < 2 ^ 13" and "height < 2 ^ 13"
  shows "\<exists>p. mp4_header_process_vol quot picture buf = Some p \<and> display_picture_width p = int width \<and>
     display_picture_height p = int height \<and> timeinc_resolution p = word_of_nat (vol_resolution v) \<and>
     timeinc_bits p = word_of_nat (vol_time_bits v) \<and> fps p = 0"
proof -
  have i: "opt_bits (map_option (field (vol_time_bits v)) (vol_increment v)) = [False]" using assms(3) by (simp add: opt_bits_def)
  from vol_head [OF assms(1,2), unfolded i] obtain n a b where h: "vol_timing buf = Some n" "mp_getbits buf n 8 = Some a" "mp_getbits buf (n + 8) 8 = Some b"
    "or (push_bit 8 (ucast a)) (ucast b) = (word_of_nat (vol_resolution v) :: 32 word)" "getbit buf (n + 17) = Some (vol_increment v \<noteq> None)"
    "drop (n + 17 + length [False]) (bits_of buf) = True # field 13 width @ True # field 13 height @ r" by blast
  have d: "drop (n + 19) (bits_of buf) = field 13 width @ True # field 13 height @ r" by (rule skip_bit [OF h(6)]) simp
  note w = getbits16_field(1) [OF d assms(4), simplified]
  have "drop (n + 32) (bits_of buf) = True # field 13 height @ r" by (rule skip_bits [OF d]) simp
  then have "drop (n + 33) (bits_of buf) = field 13 height @ r" by (rule skip_bit) simp
  from getbits16_field(1) [OF this assms(5)] have "mp_getbits16 buf (n + 33) 13 = Some (int height)" by simp
  then show ?thesis using h(1-5) w assms(3) by (simp add: mp4_header_process_vol_def vol_time_bits_def Let_def add.commute [of 19 n] add.commute [of 33 n])
qed

text \<open>Bits that two buffers have in common are read alike.\<close>

definition same_bits :: "string \<Rightarrow> string \<Rightarrow> nat \<Rightarrow> nat \<Rightarrow> bool" where
  "same_bits buf buf' n len \<longleftrightarrow>
     length buf = length buf' \<and> (\<forall>k. n \<le> k \<and> k < n + len \<and> k < 8 * length buf \<longrightarrow> bits_of buf ! k = bits_of buf' ! k)"

lemma same_bits_part: "same_bits buf buf' n len \<Longrightarrow> n \<le> m \<Longrightarrow> m + k \<le> n + len \<Longrightarrow> same_bits buf buf' m k"
  by (auto simp: same_bits_def)

lemma getbits_outside: "8 * length buf < n + len \<Longrightarrow> 0 < len \<Longrightarrow> len \<le> 8 \<Longrightarrow> mp_getbits buf n len = None"
proof -
  assume a: "8 * length buf < n + len" "0 < len" "len \<le> 8"
  show ?thesis
  proof (cases "n < 8 * length buf")
    case False
    then have "\<not> n div 8 < length buf" by linarith
    then show ?thesis by (simp add: mp_getbits_def ubyte_def Let_def)
  next
    case True
    then have "length buf \<le> n div 8 + 1" "8 < len + n mod 8" "8 - n mod 8 < len" using a by presburger+
    then show ?thesis by (simp add: mp_getbits_def ubyte_def Let_def)
  qed
qed

lemma getbits_same:
  assumes "same_bits buf buf' n len" and "0 < len" and "len \<le> 8"
  shows "mp_getbits buf n len = mp_getbits buf' n len"
proof -
  have l: "length buf = length buf'" using assms(1) by (simp add: same_bits_def)
  show ?thesis
  proof (cases "n + len \<le> 8 * length buf")
    case False
    then show ?thesis using getbits_outside [of buf] getbits_outside [of buf'] assms(2,3) l by simp
  next
    case True
    from bit_getbits [OF this assms(2,3)] obtain w where w: "mp_getbits buf n len = Some w"
      "\<And>j. j < 8 \<Longrightarrow> bit w j \<longleftrightarrow> j < len \<and> bits_of buf ! (n + len - 1 - j)" by blast
    from bit_getbits [OF True [unfolded l] assms(2,3)] obtain w' where w': "mp_getbits buf' n len = Some w'"
      "\<And>j. j < 8 \<Longrightarrow> bit w' j \<longleftrightarrow> j < len \<and> bits_of buf' ! (n + len - 1 - j)" by blast
    have "w = w'"
    proof (rule bit_word_eqI)
      fix j assume "j < LENGTH(8)"
      then have j: "j < 8" by simp
      have "n \<le> n + len - 1 - j \<and> n + len - 1 - j < n + len \<and> n + len - 1 - j < 8 * length buf" if "j < len"
        using that True by linarith
      then have "bits_of buf ! (n + len - 1 - j) = bits_of buf' ! (n + len - 1 - j)" if "j < len"
        using that assms(1) unfolding same_bits_def by blast
      then show "bit w j \<longleftrightarrow> bit w' j" using w(2) [OF j] w'(2) [OF j] by auto
    qed
    then show ?thesis using w(1) w'(1) by simp
  qed
qed

lemma getbits16_same:
  assumes "same_bits buf buf' n len" and "0 < len" and "len \<le> 16"
  shows "mp_getbits16 buf n len = mp_getbits16 buf' n len"
proof (cases "8 < len")
  case True
  have "mp_getbits buf n (len - 8) = mp_getbits buf' n (len - 8)"
    by (rule getbits_same [OF same_bits_part [OF assms(1)]]) (use True assms(3) in simp_all)
  moreover have "mp_getbits buf (n + len - 8) 8 = mp_getbits buf' (n + len - 8) 8"
    by (rule getbits_same [OF same_bits_part [OF assms(1)]]) (use True in simp_all)
  ultimately show ?thesis using True by (simp add: mp_getbits16_def)
next
  case False
  then show ?thesis using getbits_same [OF assms(1,2)] by (simp add: mp_getbits16_def)
qed

lemma same_bits_prefix:
  assumes "bits_of buf = xs @ ys" and "bits_of buf' = xs @ ys'" and "length buf = length buf'"
  shows "same_bits buf buf' 0 (length xs)"
  using assms by (simp add: same_bits_def nth_append)

lemma same_bits_drop:
  assumes "drop m (bits_of buf) = drop m (bits_of buf')" and "length buf = length buf'"
  shows "same_bits buf buf' m k"
proof -
  have "bits_of buf ! j = bits_of buf' ! j" if "m \<le> j" "j < 8 * length buf" for j
    using arg_cong [OF assms(1), of "\<lambda>xs. xs ! (j - m)"] that assms(2) by simp
  then show ?thesis using assms(2) by (simp add: same_bits_def)
qed

lemma read_timeinc_same:
  assumes "same_bits buf buf' n (unat (timeinc_bits picture))" and "0 < unat (timeinc_bits picture)" and "unat (timeinc_bits picture) \<le> 16"
  shows "read_timeinc picture buf n = read_timeinc picture buf' n"
proof (cases "8 < unat (timeinc_bits picture)")
  case True
  have "mp_getbits buf n (unat (timeinc_bits picture) - 8) = mp_getbits buf' n (unat (timeinc_bits picture) - 8)"
    by (rule getbits_same [OF same_bits_part [OF assms(1)]]) (use True assms(3) in simp_all)
  moreover have "mp_getbits buf (n + (unat (timeinc_bits picture) - 8)) 8 = mp_getbits buf' (n + (unat (timeinc_bits picture) - 8)) 8"
    by (rule getbits_same [OF same_bits_part [OF assms(1)]]) (use True in simp_all)
  ultimately show ?thesis using True by (simp add: read_timeinc_def)
next
  case False
  then show ?thesis using getbits_same [OF assms(1,2)] by (simp add: read_timeinc_def)
qed

lemma read_timeinc_pos: "read_timeinc picture buf n = Some (k, p) \<Longrightarrow> k = n + unat (timeinc_bits picture)"
  by (auto simp: read_timeinc_def Let_def split: if_splits elim!: bind_eq_SomeE)

text \<open>
  C40: With a fixed frame rate the size is not read from where it is: the position behind the
  increment is added to the position before it, so that width and height of the header have
  no influence on the result at all.
\<close>

theorem fixed_rate_size_ignored:
  assumes "bits_of buf = vol_bits v width height @ r" and "bits_of buf' = vol_bits v width' height' @ r" and "vol_ok v"
    and "vol_increment v = Some i"
  shows "mp4_header_process_vol quot picture buf = mp4_header_process_vol quot picture buf'"
proof -
  define tb where "tb = vol_time_bits v"
  have tb: "0 < tb" "tb \<le> 16" using vol_time_bits_le [OF assms(3)] by (simp_all add: tb_def)
  from vol_head [OF assms(1,3)] obtain n a b where h: "vol_timing buf = Some n" "n = length (vol_prefix v)" "17 < n"
    "mp_getbits buf n 8 = Some a" "mp_getbits buf (n + 8) 8 = Some b"
    "or (push_bit 8 (ucast a)) (ucast b) = (word_of_nat (vol_resolution v) :: 32 word)" "getbit buf (n + 17) = Some (vol_increment v \<noteq> None)" by blast
  from vol_head [OF assms(2,3)] obtain a' b' where h': "vol_timing buf' = Some n"
    "mp_getbits buf' n 8 = Some a'" "mp_getbits buf' (n + 8) 8 = Some b'"
    "or (push_bit 8 (ucast a')) (ucast b') = (word_of_nat (vol_resolution v) :: 32 word)" "getbit buf' (n + 17) = Some (vol_increment v \<noteq> None)"
    unfolding h(2) by blast
  let ?xs = "vol_prefix v @ field 16 (vol_resolution v) @ True # True # field tb i"
  have l: "length buf = length buf'"
    using arg_cong [OF assms(1), of length] arg_cong [OF assms(2), of length] by (simp add: vol_bits_def)
  have "bits_of buf = ?xs @ True # field 13 width @ True # field 13 height @ r" "bits_of buf' = ?xs @ True # field 13 width' @ True # field 13 height' @ r"
    using assms(1,2,4) by (simp_all add: vol_bits_def opt_bits_def tb_def)
  from same_bits_prefix [OF this l] have pre: "same_bits buf buf' 0 (n + 18 + tb)" using h(2) by (simp add: add.assoc)
  have len: "length (vol_bits v width height) = n + 18 + tb + 28" "length (vol_bits v width' height') = n + 18 + tb + 28"
    using assms(4) h(2) by (simp_all add: vol_bits_def opt_bits_def tb_def)
  have suf: "drop (n + 18 + tb + 28) (bits_of buf) = drop (n + 18 + tb + 28) (bits_of buf')"
    using assms(1,2) by (simp add: len)
  define p where "p = picture\<lparr>fps := 0, timeinc_bits := 0, timeinc_resolution := 0, timeinc_unit := 0,
    timeinc_resolution := word_of_nat (vol_resolution v), timeinc_bits := word_of_nat tb\<rparr>"
  have pt: "unat (timeinc_bits p) = tb" using tb by (simp add: p_def unsigned_of_nat take_bit_nat_eq_self)
  have ti: "read_timeinc p buf (n + 18) = read_timeinc p buf' (n + 18)"
    by (rule read_timeinc_same) (use tb pre pt in \<open>simp_all add: same_bits_part [OF pre]\<close>)
  have after: "mp_getbits16 buf m 13 = mp_getbits16 buf' m 13" if "n + 18 + tb + 28 \<le> m" for m
    using same_bits_part [OF same_bits_drop [OF suf l, of "m + 13"] that, of 13] by (intro getbits16_same) simp_all
  have size: "mp_getbits16 buf (n + 18 + k + 1) 13 = mp_getbits16 buf' (n + 18 + k + 1) 13 \<and>
      mp_getbits16 buf (n + 18 + k + 15) 13 = mp_getbits16 buf' (n + 18 + k + 15) 13" if "read_timeinc p buf' (n + 18) = Some (k, q)" for k q
    using read_timeinc_pos [OF that] pt h(3) by (intro conjI after) linarith+
  have m: "max 1 (bit_count (word_of_nat (vol_resolution v) - 1)) = tb" by (simp add: tb_def vol_time_bits_def)
  show ?thesis
  proof (cases "read_timeinc p buf' (n + 18)")
    case None
    then show ?thesis using h h' ti m assms(4) by (simp add: mp4_header_process_vol_def Let_def p_def)
  next
    case (Some x)
    obtain k q where x: "x = (k, q)" by (cases x)
    then show ?thesis using Some h h' ti m size [OF Some [unfolded x]] assms(4)
      by (simp add: mp4_header_process_vol_def Let_def p_def)
  qed
qed

text \<open>Two headers: 640 by 480 without a fixed rate, and two sizes with an increment of 40 in 1000.\<close>

definition ex_vol :: vol where
  "ex_vol = \<lparr>vol_begin = replicate 9 False, vol_version = Some (replicate 7 True), vol_aspect = 15, vol_pixel = (12, 11),
             vol_control = Some ([True, False, True], None), vol_shape = [False, False, True], vol_resolution = 1000, vol_increment = None\<rparr>"

theorem vol_roundtrip_witness:
  "\<exists>p. mp4_header_process_vol (\<lambda>_ _. 0) zero_picture (bytes_of (vol_bits ex_vol 640 480 @ replicate 5 False)) = Some p \<and>
     display_picture_width p = 640 \<and> display_picture_height p = 480 \<and> timeinc_resolution p = 1000 \<and> timeinc_bits p = 10 \<and> fps p = 0"
proof -
  have "bits_of (bytes_of (vol_bits ex_vol 640 480 @ replicate 5 False)) = vol_bits ex_vol 640 480 @ replicate 5 False"
    by (rule bits_of_bytes_of) (simp add: vol_bits_def vol_prefix_def opt_bits_def ex_vol_def)
  moreover have "vol_ok ex_vol" "vol_increment ex_vol = None" "vol_resolution ex_vol = 1000" by (simp_all add: vol_ok_def ex_vol_def)
  moreover have "vol_time_bits ex_vol = 10" by code_simp
  ultimately show ?thesis using vol_roundtrip [of _ ex_vol 640 480 "replicate 5 False" "\<lambda>_ _. 0" zero_picture] by simp
qed

theorem fixed_rate_size_ignored_witness:
  "mp4_header_process_vol (\<lambda>_ _. 0) zero_picture (bytes_of (vol_bits (ex_vol\<lparr>vol_increment := Some 40\<rparr>) 640 480 @ replicate 3 False)) =
   mp4_header_process_vol (\<lambda>_ _. 0) zero_picture (bytes_of (vol_bits (ex_vol\<lparr>vol_increment := Some 40\<rparr>) 176 144 @ replicate 3 False))"
proof (rule fixed_rate_size_ignored [of _ "ex_vol\<lparr>vol_increment := Some 40\<rparr>" 640 480 "replicate 3 False" _ 176 144 40])
  have tb: "vol_time_bits (ex_vol\<lparr>vol_increment := Some 40\<rparr>) = 10" by code_simp
  have l: "8 dvd length (vol_bits (ex_vol\<lparr>vol_increment := Some 40\<rparr>) w h @ replicate 3 False)" for w h
    using tb by (simp add: vol_bits_def vol_prefix_def opt_bits_def ex_vol_def)
  show "bits_of (bytes_of (vol_bits (ex_vol\<lparr>vol_increment := Some 40\<rparr>) 640 480 @ replicate 3 False)) =
    vol_bits (ex_vol\<lparr>vol_increment := Some 40\<rparr>) 640 480 @ replicate 3 False" by (rule bits_of_bytes_of [OF l])
  show "bits_of (bytes_of (vol_bits (ex_vol\<lparr>vol_increment := Some 40\<rparr>) 176 144 @ replicate 3 False)) =
    vol_bits (ex_vol\<lparr>vol_increment := Some 40\<rparr>) 176 144 @ replicate 3 False" by (rule bits_of_bytes_of [OF l])
qed (simp_all add: vol_ok_def ex_vol_def)

end
