(* ===== verification/H264_Sps.thy ===== *)
theory H264_Sps
  imports Mpeg_Hdr_Spec
begin

text \<open>
  Sequence parameter sets of H.264: emulation prevention bytes are removed, but one byte is
  written behind the block when they are at the end; the size of a parameter set an encoder
  wrote is read back, unless its display information overwrites it.
\<close>

subsection \<open>Emulation prevention\<close>

text \<open>What an encoder does: 0, 0 and a byte of at most 3 get a 3 between them.\<close>

fun escape03 :: "string \<Rightarrow> string" where
  "escape03 (a # b # c # cs) =
     (if a = CHR 0x00 \<and> b = CHR 0x00 \<and> byte c \<le> 3 then a # b # CHR 0x03 # escape03 (c # cs) else a # escape03 (b # c # cs))"
| "escape03 xs = xs"

definition ends_escaped :: "string \<Rightarrow> bool" where
  "ends_escaped xs \<longleftrightarrow> (\<exists>ys c. xs = ys @ [CHR 0x00, CHR 0x00, c] \<and> byte c \<le> 3)"

lemma ends_escaped_tl: "ends_escaped (b # c # cs) \<Longrightarrow> ends_escaped (a # b # c # cs)"
  unfolding ends_escaped_def by (metis append_Cons)

lemma escape_head: "escape03 (b # cs) = b # tl (escape03 (b # cs))"
  by (cases cs; cases "tl cs") auto

lemma escape_second: "b \<noteq> CHR 0x00 \<or> \<not> byte c \<le> 3 \<Longrightarrow> escape03 (a # b # c # cs) = a # escape03 (b # c # cs)"
  by auto

lemma last_two: "2 \<le> length xs \<Longrightarrow> \<exists>ys p q. xs = ys @ [p, q]"
proof -
  assume l: "2 \<le> length xs"
  obtain zs q where "xs = zs @ [q]" using l by (cases xs rule: rev_cases) auto
  moreover from this obtain ys p where "zs = ys @ [p]" using l by (cases zs rule: rev_cases) auto
  ultimately show ?thesis by simp
qed

lemma escape_end:
  "\<not> ends_escaped (ys @ [p, q]) \<Longrightarrow> \<exists>zs. escape03 (ys @ [p, q]) = zs @ [p, q]"
proof (induction "ys @ [p, q]" arbitrary: ys rule: escape03.induct)
  case (1 a b c cs)
  show ?case
  proof (cases "a = CHR 0x00 \<and> b = CHR 0x00 \<and> byte c \<le> 3")
    case True
    have "cs \<noteq> []"
    proof
      assume "cs = []"
      then have "ends_escaped (ys @ [p, q])" using True 1(3) by (auto simp: ends_escaped_def)
      then show False using 1(4) by simp
    qed
    then obtain us where us: "c # cs = us @ [p, q]" using 1(3) last_two [of "c # cs"]
      by (cases cs) (auto simp: append_eq_append_conv2 Cons_eq_append_conv)
    have "\<not> ends_escaped (us @ [p, q])"
    proof
      assume "ends_escaped (us @ [p, q])"
      then have "ends_escaped (a # b # us @ [p, q])" unfolding ends_escaped_def by (metis append_Cons)
      then show False using 1(4) unfolding 1(3) [symmetric] us by simp
    qed
    from 1(1) [OF True us this] obtain zs where "escape03 (us @ [p, q]) = zs @ [p, q]" by blast
    moreover have "escape03 (a # b # c # cs) = a # b # CHR 0x03 # escape03 (c # cs)" using True by simp
    ultimately have "escape03 (a # b # c # cs) = (a # b # CHR 0x03 # zs) @ [p, q]" using us by simp
    then show ?thesis using 1(3) by metis
  next
    case False
    from 1(3) obtain us where us: "b # c # cs = us @ [p, q]" using last_two [of "b # c # cs"]
      by (cases ys) auto
    have "\<not> ends_escaped (us @ [p, q])" using 1(3,4) ends_escaped_tl [of b c cs a] us by auto
    from 1(2) [OF False us this] obtain zs where "escape03 (us @ [p, q]) = zs @ [p, q]" by blast
    moreover have "escape03 (a # b # c # cs) = a # escape03 (b # c # cs)" using False by auto
    ultimately have "escape03 (a # b # c # cs) = (a # zs) @ [p, q]" using us by simp
    then show ?thesis using 1(3) by metis
  qed
qed (auto simp: Cons_eq_append_conv)

lemma escape_third: "\<not> byte c \<le> 3 \<Longrightarrow> \<exists>t. escape03 (b # c # cs) = b # c # t"
proof (cases cs)
  case (Cons d ds)
  assume "\<not> byte c \<le> 3"
  then have "c \<noteq> CHR 0x00" by (auto simp: byte_def)
  then have "escape03 (b # c # cs) = b # escape03 (c # cs)" using Cons by simp
  then show ?thesis using escape_head [of c cs] by metis
qed simp

lemma escape_length: "length xs \<le> length (escape03 xs)"
  by (induction xs rule: escape03.induct) auto

lemma unescape_step:
  assumes "length (a # b # c # cs) \<le> n"
  shows "unescape_loop (pre @ a # b # c # cs @ post) (int (length pre + n)) (length pre) out =
    (if a = CHR 0x00 \<and> b = CHR 0x00 \<and> c = CHR 0x03
     then unescape_loop ((pre @ [a, b, c]) @ cs @ post) (int (length pre + n)) (length (pre @ [a, b, c])) (out @ [CHR 0x00, CHR 0x00])
     else unescape_loop ((pre @ [a]) @ (b # c # cs) @ post) (int (length pre + n)) (length (pre @ [a])) (out @ [a]))"
proof -
  let ?buf = "pre @ a # b # c # cs @ post"
  have "?buf ! length pre = a" "?buf ! (length pre + 1) = b" "?buf ! (length pre + 2) = c" by (simp_all add: nth_append)
  moreover have "int (length pre) \<le> int (length pre + n) - 3" "\<not> length ?buf \<le> length pre + 2" using assms by simp_all
  ultimately show ?thesis by (subst unescape_loop.simps) (simp add: eval_nat_numeral)
qed

lemma unescape_escaped:
  assumes "\<not> ends_escaped (ys @ [p, q])"
  shows "unescape_loop (pre @ escape03 (ys @ [p, q]) @ post) (int (length pre + length (escape03 (ys @ [p, q])))) (length pre) out =
    Some (length pre + length (escape03 (ys @ [p, q])) - 2, out @ ys)"
  using assms
proof (induction "ys @ [p, q]" arbitrary: ys pre out rule: escape03.induct)
  case (1 a b c cs)
  show ?case
  proof (cases "a = CHR 0x00 \<and> b = CHR 0x00 \<and> byte c \<le> 3")
    case True
    have "cs \<noteq> []"
    proof
      assume "cs = []"
      then have "ends_escaped (ys @ [p, q])" using True 1(3) by (auto simp: ends_escaped_def)
      then show False using 1(4) by simp
    qed
    then obtain us where us: "c # cs = us @ [p, q]" "ys = a # b # us" using 1(3) last_two [of "c # cs"]
      by (cases cs) (auto simp: append_eq_append_conv2 Cons_eq_append_conv)
    have "\<not> ends_escaped (us @ [p, q])"
    proof
      assume "ends_escaped (us @ [p, q])"
      then have "ends_escaped (a # b # us @ [p, q])" unfolding ends_escaped_def by (metis append_Cons)
      then show False using 1(4) us by simp
    qed
    from 1(1) [OF True us(1) this, of "pre @ [a, b, CHR 0x03]" "out @ [a, b]"]
    have IH: "unescape_loop ((pre @ [a, b, CHR 0x03]) @ escape03 (c # cs) @ post) (int (length (pre @ [a, b, CHR 0x03]) + length (escape03 (c # cs))))
        (length (pre @ [a, b, CHR 0x03])) (out @ [a, b]) =
      Some (length (pre @ [a, b, CHR 0x03]) + length (escape03 (c # cs)) - 2, (out @ [a, b]) @ us)" using us(1) by simp
    have e: "escape03 (ys @ [p, q]) = a # b # CHR 0x03 # escape03 (c # cs)" unfolding 1(3) [symmetric] using True by simp
    show ?thesis
      unfolding e unfolding us(2)
      using IH True unescape_step [of a b "CHR 0x03" "escape03 (c # cs)" "3 + length (escape03 (c # cs))" pre post out]
      by (simp add: ac_simps)
  next
    case False
    from 1(3) obtain us where us: "b # c # cs = us @ [p, q]" "ys = a # us" by (cases ys) auto
    have "\<not> ends_escaped (us @ [p, q])" using 1(4) ends_escaped_tl [of b c cs a] us by auto
    from 1(2) [OF False us(1) this, of "pre @ [a]" "out @ [a]"]
    have IH: "unescape_loop ((pre @ [a]) @ escape03 (b # c # cs) @ post) (int (length (pre @ [a]) + length (escape03 (b # c # cs))))
        (length (pre @ [a])) (out @ [a]) = Some (length (pre @ [a]) + length (escape03 (b # c # cs)) - 2, (out @ [a]) @ us)" using us(1) by simp
    have e: "escape03 (ys @ [p, q]) = a # escape03 (b # c # cs)" unfolding 1(3) [symmetric] using False by auto
    have "2 \<le> length (escape03 (b # c # cs))" using escape_length [of "b # c # cs"] by simp
    then obtain t r where t: "escape03 (b # c # cs) = b # t # r" using escape_head [of b "c # cs"]
      by (cases "tl (escape03 (b # c # cs))") (auto simp del: escape03.simps)
    have nz: "\<not> (a = CHR 0x00 \<and> b = CHR 0x00 \<and> t = CHR 0x03)"
    proof
      assume z: "a = CHR 0x00 \<and> b = CHR 0x00 \<and> t = CHR 0x03"
      then have "\<not> byte c \<le> 3" using False by blast
      then have "t = c" using escape_third [of c b cs] t by auto
      moreover have "byte (CHR 0x03) = 3" by (simp add: byte_def)
      ultimately show False using z \<open>\<not> byte c \<le> 3\<close> by auto
    qed
    show ?thesis
      unfolding e unfolding us(2)
      using IH unescape_step [of a b t r "length (a # b # t # r)" pre post out, unfolded if_not_P [OF nz]] t
      by (simp add: ac_simps del: escape03.simps)
  qed
qed (auto simp: Cons_eq_append_conv unescape_loop.simps)

text \<open>
  Removing the emulation prevention bytes gives back what an encoder escaped, and leaves
  what lies behind, if the data has two bytes or more and its last three are not escaped.
\<close>

theorem unescape_roundtrip:
  assumes "2 \<le> length xs" and "\<not> ends_escaped xs"
  shows "\<exists>junk. mp_unescape03 (escape03 xs @ post) (int (length (escape03 xs))) = Some (int (length xs), xs @ junk @ post) \<and>
     length junk = length (escape03 xs) - length xs"
proof -
  from last_two [OF assms(1)] obtain ys p q where xs: "xs = ys @ [p, q]" by blast
  from escape_end assms(2) obtain zs where zs: "escape03 xs = zs @ [p, q]" unfolding xs by blast
  have loop: "unescape_loop (escape03 xs @ post) (int (length (escape03 xs))) 0 [] = Some (length (escape03 xs) - 2, ys)"
    using unescape_escaped [of ys p q "[]" post "[]"] assms(2) xs by simp
  have n12: "nat (1 + int k) = Suc k" "nat (2 + int k) = Suc (Suc k)" for k by simp_all
  have len: "length ys \<le> length zs" using escape_length [of xs] zs xs by simp
  have "mp_unescape03 (escape03 xs @ post) (int (length (escape03 xs))) = Some (int (length xs), xs @ drop (length xs) (escape03 xs @ post))"
    using len unfolding mp_unescape03_def loop unfolding zs by (simp add: xs nth_append n12 Let_def)
  moreover have "drop (length xs) (escape03 xs @ post) = drop (length xs) (escape03 xs) @ post" using escape_length [of xs] by simp
  ultimately show ?thesis by (intro exI [of _ "drop (length xs) (escape03 xs)"]) simp
qed

definition ex_payload :: string where
  "ex_payload = [CHR 0x67, CHR 0x00, CHR 0x00, CHR 0x00, CHR 0x00, CHR 0x01, CHR 0x09, CHR 0x08]"

theorem unescape_roundtrip_witness:
  "escape03 ex_payload = [CHR 0x67, CHR 0x00, CHR 0x00, CHR 0x03, CHR 0x00, CHR 0x00, CHR 0x03, CHR 0x01, CHR 0x09, CHR 0x08] \<and>
   (\<exists>junk. mp_unescape03 (escape03 ex_payload @ ''xy'') (int (length (escape03 ex_payload))) = Some (8, ex_payload @ junk @ ''xy'') \<and>
     length junk = 2)"
proof -
  have "\<not> ends_escaped ex_payload" by (simp add: ends_escaped_def ex_payload_def Cons_eq_append_conv byte_def)
  moreover have "2 \<le> length ex_payload" by (simp add: ex_payload_def)
  moreover have e: "escape03 ex_payload = [CHR 0x67, CHR 0x00, CHR 0x00, CHR 0x03, CHR 0x00, CHR 0x00, CHR 0x03, CHR 0x01, CHR 0x09, CHR 0x08]"
    by (simp add: ex_payload_def byte_def)
  ultimately show ?thesis using unescape_roundtrip [of ex_payload "''xy''"] by (simp add: ex_payload_def numeral_2_eq_2)
qed

lemma take_three: "n + 2 < length t \<Longrightarrow> take 3 (drop n t) = [t ! n, t ! (n + 1), t ! (n + 2)]"
  by (simp add: numeral_3_eq_3 numeral_2_eq_2 flip: Cons_nth_drop_Suc)

lemma copy_loop:
  assumes "\<forall>i<length xs. take 3 (drop i (xs @ [CHR 0x00, CHR 0x00, CHR 0x03])) \<noteq> [CHR 0x00, CHR 0x00, CHR 0x03]" and "n \<le> length xs"
  shows "unescape_loop (xs @ [CHR 0x00, CHR 0x00, CHR 0x03] @ post) (int (length xs + 3)) n (take n xs) =
    Some (length xs + 3, xs @ [CHR 0x00, CHR 0x00])"
  using assms(2)
proof (induction "length xs - n" arbitrary: n)
  case 0
  then have "n = length xs" by simp
  then show ?case using unescape_step [of "CHR 0x00" "CHR 0x00" "CHR 0x03" "[]" 3 xs post xs] by (simp add: unescape_loop.simps)
next
  case (Suc k)
  let ?buf = "xs @ [CHR 0x00, CHR 0x00, CHR 0x03] @ post"
  have n: "n < length xs" using Suc.hyps(2) by simp
  have "?buf ! (n + i) = (xs @ [CHR 0x00, CHR 0x00, CHR 0x03]) ! (n + i)" if "i < 3" for i
    using n that nth_append [of "xs @ [CHR 0x00, CHR 0x00, CHR 0x03]" post "n + i"] by simp
  from this [of 0] this [of 1] this [of 2]
  have "take 3 (drop n (xs @ [CHR 0x00, CHR 0x00, CHR 0x03])) = [?buf ! n, ?buf ! (n + 1), ?buf ! (n + 2)]"
    using take_three [of n "xs @ [CHR 0x00, CHR 0x00, CHR 0x03]"] n by simp
  then have "\<not> (?buf ! n = CHR 0x00 \<and> ?buf ! (n + 1) = CHR 0x00 \<and> ?buf ! (n + 2) = CHR 0x03)" using assms(1) n by auto
  moreover have "?buf ! n = xs ! n" using n by (simp add: nth_append)
  moreover have "int n \<le> int (length xs + 3) - 3" "\<not> length ?buf \<le> n + 2" using n by simp_all
  ultimately have "unescape_loop ?buf (int (length xs + 3)) n (take n xs) = unescape_loop ?buf (int (length xs + 3)) (n + 1) (take n xs @ [xs ! n])"
    by (subst unescape_loop.simps) (simp only: if_True if_False)
  moreover have "k = length xs - (n + 1)" "n + 1 \<le> length xs" using Suc.hyps(2) n by simp_all
  ultimately show ?case using Suc.hyps(1) [of "n + 1"] n by (simp add: take_Suc_conv_app_nth)
qed

text \<open>
  C39: A unit whose only emulation prevention sequence is at its very end makes the removal
  write one byte behind the block it allocated.
\<close>

theorem unescape_overflows:
  assumes "\<forall>i<length xs. take 3 (drop i (xs @ [CHR 0x00, CHR 0x00, CHR 0x03])) \<noteq> [CHR 0x00, CHR 0x00, CHR 0x03]"
  shows "mp_unescape03 (xs @ [CHR 0x00, CHR 0x00, CHR 0x03] @ post) (int (length xs + 3)) = None"
  using copy_loop [OF assms, of 0 post] by (simp add: mp_unescape03_def)

theorem unescape_overflows_witness: "mp_unescape03 ([CHR 0x67, CHR 0x42] @ [CHR 0x00, CHR 0x00, CHR 0x03] @ ''xy'') 5 = None"
proof -
  have "\<forall>i<length [CHR 0x67, CHR 0x42]. take 3 (drop i ([CHR 0x67, CHR 0x42] @ [CHR 0x00, CHR 0x00, CHR 0x03])) \<noteq> [CHR 0x00, CHR 0x00, CHR 0x03]"
    by (simp add: less_Suc_eq numeral_eq_Suc)
  from unescape_overflows [OF this, of "''xy''"] show ?thesis by simp
qed

subsection \<open>Parameter sets\<close>

text \<open>A number as its code has it: the number of its bits and the bits.\<close>

type_synonym code = "nat \<times> nat"

definition code_ok :: "code \<Rightarrow> bool" where
  "code_ok c \<longleftrightarrow> fst c \<le> 8 \<and> snd c < 2 ^ fst c"

definition code_bits :: "code \<Rightarrow> bool list" where
  "code_bits c = exp_golomb (fst c) (snd c)"

definition code_value :: "code \<Rightarrow> nat" where
  "code_value c = 2 ^ fst c - 1 + snd c"

lemma read_code:
  assumes "drop n (bits_of buf) = code_bits c @ r" and "code_ok c"
  shows "\<exists>m. read_golomb buf n = Some (word_of_nat (code_value c), m) \<and> drop m (bits_of buf) = r"
  using golomb_read [of n buf "fst c" "snd c" r] drop_bits [OF assms(1)] assms
  by (simp add: code_bits_def code_ok_def code_value_def)

lemma code_value_less: "code_ok c \<Longrightarrow> code_value c < 511"
proof -
  assume ok: "code_ok c"
  then have "(2 :: nat) ^ fst c \<le> 2 ^ 8" unfolding code_ok_def by (intro power_increasing) simp_all
  moreover have "snd c < 2 ^ fst c" using ok by (simp add: code_ok_def)
  ultimately show ?thesis unfolding code_value_def by auto
qed

lemma skip_codes:
  "drop n (bits_of buf) = concat (map code_bits cs) @ r \<Longrightarrow> list_all code_ok cs \<Longrightarrow>
   \<exists>m. skip_golombs buf (length cs) n = Some m \<and> drop m (bits_of buf) = r"
proof (induction cs arbitrary: n)
  case (Cons c cs)
  from read_code [of n buf c "concat (map code_bits cs) @ r"] Cons.prems obtain m where
    "read_golomb buf n = Some (word_of_nat (code_value c), m)" "drop m (bits_of buf) = concat (map code_bits cs) @ r" by auto
  then show ?case using Cons.IH [of m] Cons.prems by simp
qed simp

lemma read_flag:
  assumes "drop n (bits_of buf) = b # r" shows "getbit buf n = Some b" "drop (n + 1) (bits_of buf) = r"
  using getbit_at [OF assms] drop_step [OF assms] by simp_all

text \<open>Signed numbers, the odd codes for the positive ones.\<close>

fun signed_value :: "nat \<Rightarrow> int" where
  "signed_value k = (if odd k then int ((k + 1) div 2) else - int (k div 2))"

lemma word_signed:
  assumes "k < 511"
  shows "(if and (word_of_nat k :: 32 word) 1 \<noteq> 0 then drop_bit 1 (word_of_nat k + 1) else - drop_bit 1 (word_of_nat k)) = (word_of_int (signed_value k) :: 32 word)"
proof -
  have u: "unat (word_of_nat j :: 32 word) = j" if "j < 512" for j using that by (simp add: unsigned_of_nat take_bit_nat_eq_self)
  have o: "and (word_of_nat k :: 32 word) 1 \<noteq> 0 \<longleftrightarrow> odd k"
  proof -
    have "and (word_of_nat k :: 32 word) 1 = word_of_nat (k mod 2)"
      using u [of k] u [of "k mod 2"] assms by (simp add: and_one_eq word_unat_eq_iff unat_mod)
    moreover have "(word_of_nat (k mod 2) :: 32 word) \<noteq> 0 \<longleftrightarrow> odd k" by (cases "even k") (simp_all add: odd_iff_mod_2_eq_one)
    ultimately show ?thesis by simp
  qed
  have d: "drop_bit 1 (word_of_nat j :: 32 word) = word_of_nat (j div 2)" if "j < 512" for j
    using that u [of j] u [of "j div 2"] by (simp add: word_unat_eq_iff drop_bit_eq_div unat_div)
  show ?thesis using assms d [of k] d [of "k + 1"] o by (auto simp: add.commute)
qed

lemma word_mod_256: "and (word_of_nat v + word_of_int d) 255 = (word_of_nat (nat ((int v + d) mod 256)) :: 32 word)"
proof -
  have m: "word_of_int i mod 256 = (word_of_int (i mod 256) :: 32 word)" for i
    by (rule word_uint_eqI) (simp add: uint_mod unsigned_of_int take_bit_eq_mod mod_mod_cancel)
  have "and (word_of_nat v + word_of_int d) 255 = (word_of_int (int v + d) mod 256 :: 32 word)"
    using take_bit_eq_mask [of 8 "word_of_int (int v + d) :: 32 word"] by (simp add: take_bit_eq_mod mask_eq_exp_minus_1)
  then show ?thesis by (simp only: m) simp
qed

lemma read_signed:
  assumes "drop n (bits_of buf) = code_bits c @ r" and "code_ok c"
  shows "\<exists>m. read_golomb_s buf n = Some (word_of_int (signed_value (code_value c)), m) \<and> drop m (bits_of buf) = r"
  using read_code [OF assms] word_signed [OF code_value_less [OF assms(2)]] by (auto simp: read_golomb_s_def simp del: signed_value.simps)

text \<open>
  A scaling list: the differences of its entries, to the end of the list or to the entry 0. A
  list may be left out.
\<close>

fun scaling_ok :: "nat \<Rightarrow> nat \<Rightarrow> code list \<Rightarrow> bool" where
  "scaling_ok 0 v cs = (cs = [])"
| "scaling_ok (Suc k) v cs =
     (if v = 0 then cs = []
      else case cs of [] \<Rightarrow> False | c # cs \<Rightarrow> code_ok c \<and> scaling_ok k (nat ((int v + signed_value (code_value c)) mod 256)) cs)"

lemma scaling_list_read:
  "drop n (bits_of buf) = concat (map code_bits cs) @ r \<Longrightarrow> scaling_ok k v cs \<Longrightarrow> v < 256 \<Longrightarrow>
   \<exists>m. skip_scaling_list buf k (word_of_nat v) n = Some m \<and> drop m (bits_of buf) = r"
proof (induction k v cs arbitrary: n rule: scaling_ok.induct)
  case (2 k v cs)
  have z: "(word_of_nat v :: 32 word) = 0 \<longleftrightarrow> v = 0" using 2(4) by (auto simp: word_of_nat_eq_0_iff dest: dvd_imp_le)
  show ?case
  proof (cases "v = 0")
    case True
    then show ?thesis using 2(2,3) by simp
  next
    case False
    then obtain c ds where cs: "cs = c # ds" "code_ok c" "scaling_ok k (nat ((int v + signed_value (code_value c)) mod 256)) ds"
      using 2(3) by (auto split: list.splits simp del: signed_value.simps)
    have d: "drop n (bits_of buf) = code_bits c @ concat (map code_bits ds) @ r" using 2(2) cs(1) by simp
    from read_signed [OF d cs(2)] obtain m where m: "read_golomb_s buf n = Some (word_of_int (signed_value (code_value c)), m)"
      "drop m (bits_of buf) = concat (map code_bits ds) @ r" by blast
    have "nat ((int v + signed_value (code_value c)) mod 256) < 256" by (simp add: nat_less_iff del: signed_value.simps)
    from 2(1) [OF False cs(1) m(2) cs(3) this] show ?thesis
      using False z m(1) word_mod_256 [of v "signed_value (code_value c)"] by (simp del: signed_value.simps)
  qed
qed simp

fun list_bits :: "code list option \<Rightarrow> bool list" where
  "list_bits None = [False]"
| "list_bits (Some cs) = True # concat (map code_bits cs)"

definition list_ok :: "nat \<Rightarrow> code list option \<Rightarrow> bool" where
  "list_ok i l \<longleftrightarrow> (case l of None \<Rightarrow> True | Some cs \<Rightarrow> scaling_ok (if i < 6 then 16 else 64) 8 cs)"

lemma scaling_lists_read:
  "drop n (bits_of buf) = concat (map list_bits ls) @ r \<Longrightarrow> list_all2 list_ok is ls \<Longrightarrow>
   \<exists>m. skip_scaling_lists buf is n = Some m \<and> drop m (bits_of buf) = r"
proof (induction ls arbitrary: n "is")
  case (Cons l ls)
  obtain i js where j: "is = i # js" "list_ok i l" "list_all2 list_ok js ls" using Cons.prems(2) by (auto simp: list_all2_Cons2)
  show ?case
  proof (cases l)
    case None
    then have "drop n (bits_of buf) = False # concat (map list_bits ls) @ r" using Cons.prems(1) by simp
    note f = read_flag [OF this]
    show ?thesis using Cons.IH [OF f(2) j(3)] f(1) j(1) by simp
  next
    case (Some cs)
    then have "drop n (bits_of buf) = True # concat (map code_bits cs) @ concat (map list_bits ls) @ r" using Cons.prems(1) by simp
    note f = read_flag [OF this]
    have ok: "scaling_ok (if i < 6 then 16 else 64) 8 cs" using j(2) Some by (simp add: list_ok_def)
    obtain m where m: "skip_scaling_list buf (if i < 6 then 16 else 64) 8 (n + 1) = Some m" "drop m (bits_of buf) = concat (map list_bits ls) @ r"
      using scaling_list_read [OF f(2) ok] by auto
    show ?thesis using Cons.IH [OF m(2) j(3)] f(1) m(1) j(1) by (simp split: if_splits)
  qed
qed simp

text \<open>
  What an encoder writes: the profile with its 24 bits, the chroma format of the high
  profiles, with scaling lists or without, the kind of the picture order, the size in macroblocks,
  and the cropping.
\<close>

datatype order_count = Order_lsb code | Order_cycle bool code code code "code list" | Order_output

fun order_ok :: "order_count \<Rightarrow> bool" where
  "order_ok (Order_lsb c) = code_ok c"
| "order_ok (Order_cycle _ a b k cs) = (code_ok a \<and> code_ok b \<and> code_ok k \<and> list_all code_ok cs \<and> code_value k = length cs)"
| "order_ok Order_output = True"

fun order_bits :: "order_count \<Rightarrow> bool list" where
  "order_bits (Order_lsb c) = code_bits (0, 0) @ code_bits c"
| "order_bits (Order_cycle d a b k cs) = code_bits (1, 0) @ d # code_bits a @ code_bits b @ code_bits k @ concat (map code_bits cs)"
| "order_bits Order_output = code_bits (1, 1)"

lemma order_count_read:
  assumes "drop n (bits_of buf) = code_bits f @ order_bits oc @ r" and "code_ok f" and "order_ok oc"
  shows "\<exists>m. sps_order_count buf n = Some m \<and> drop m (bits_of buf) = r"
proof -
  from read_code [OF assms(1,2)] obtain n1 where n1: "read_golomb buf n = Some (word_of_nat (code_value f), n1)"
    "drop n1 (bits_of buf) = order_bits oc @ r" by blast
  have v: "code_value (0, 0) = 0" "code_value (1, 0) = 1" "code_value (1, 1) = 2" "code_ok (0, 0)" "code_ok (1, 0)" "code_ok (1, 1)"
    by (simp_all add: code_value_def code_ok_def)
  note w = v(1-3) [THEN arg_cong, of "word_of_nat :: nat \<Rightarrow> 32 word", simplified]
  show ?thesis
  proof (cases oc)
    case (Order_lsb c)
    then have "drop n1 (bits_of buf) = code_bits (0, 0) @ code_bits c @ r" using n1(2) by simp
    from read_code [OF this v(4)] obtain n2 where n2: "read_golomb buf n1 = Some (0, n2)" "drop n2 (bits_of buf) = code_bits c @ r"
      by (auto simp: w)
    show ?thesis using skip_codes [of n2 buf "[c]" r] n1 n2 Order_lsb assms(3) by (simp add: sps_order_count_def)
  next
    case (Order_cycle d a b k cs)
    then have "drop n1 (bits_of buf) = code_bits (1, 0) @ d # code_bits a @ code_bits b @ code_bits k @ concat (map code_bits cs) @ r"
      using n1(2) by simp
    from read_code [OF this v(5)] obtain n2 where n2: "read_golomb buf n1 = Some (1, n2)"
      "drop n2 (bits_of buf) = d # code_bits a @ code_bits b @ code_bits k @ concat (map code_bits cs) @ r" by (auto simp: w)
    note fl = read_flag [OF n2(2)]
    have "drop (n2 + 1) (bits_of buf) = concat (map code_bits [a, b]) @ code_bits k @ concat (map code_bits cs) @ r" using fl(2) by simp
    from skip_codes [OF this] Order_cycle assms(3) obtain n3 where n3: "skip_golombs buf 2 (n2 + 1) = Some n3"
      "drop n3 (bits_of buf) = code_bits k @ concat (map code_bits cs) @ r" by (auto simp: numeral_2_eq_2)
    from assms(3) Order_cycle have k: "code_ok k" "code_value k = length cs" by simp_all
    from read_code [OF n3(2) k(1)] obtain n4 where n4: "read_golomb buf n3 = Some (word_of_nat (length cs), n4)"
      "drop n4 (bits_of buf) = concat (map code_bits cs) @ r" using k(2) by auto
    have "length cs < 511" using code_value_less [OF k(1)] k(2) by simp
    then have "unat (word_of_nat (length cs) :: 32 word) = length cs" by (simp add: unsigned_of_nat take_bit_nat_eq_self)
    then show ?thesis using skip_codes [OF n4(2)] n1 n2 n3 n4 fl(1) Order_cycle assms(3) by (simp add: sps_order_count_def)
  next
    case Order_output
    then have "drop n1 (bits_of buf) = code_bits (1, 1) @ r" using n1(2) by simp
    from read_code [OF this v(6)] obtain n2 where "read_golomb buf n1 = Some (2, n2)" "drop n2 (bits_of buf) = r"
      by (auto simp: w)
    then show ?thesis using n1 by (simp add: sps_order_count_def)
  qed
qed

record sps =
  sps_idc :: nat
  sps_flags :: "bool list"
  sps_id :: code
  sps_chroma :: "code \<times> bool \<times> code \<times> code \<times> bool"
  sps_scaling :: "code list option list option"
  sps_frame_num :: code
  sps_order :: order_count
  sps_refs :: code
  sps_gaps :: bool
  sps_width :: code
  sps_height :: code
  sps_field :: "bool option"
  sps_direct :: bool
  sps_crop :: "(code \<times> code \<times> code \<times> code) option"

definition sps_ok :: "sps \<Rightarrow> bool" where
  "sps_ok s \<longleftrightarrow>
     sps_idc s < 256 \<and> length (sps_flags s) = 16 \<and> code_ok (sps_id s) \<and>
     (case sps_chroma s of (c, _, y, u, _) \<Rightarrow> code_ok c \<and> code_ok y \<and> code_ok u) \<and>
     (case sps_scaling s of None \<Rightarrow> True
      | Some ls \<Rightarrow> code_value (fst (sps_chroma s)) \<noteq> 3 \<and> list_all2 list_ok [0, 1, 2, 3, 4, 5, 6, 7] ls) \<and>
     code_ok (sps_frame_num s) \<and> order_ok (sps_order s) \<and> code_ok (sps_refs s) \<and> code_ok (sps_width s) \<and> code_ok (sps_height s) \<and>
     (case sps_crop s of None \<Rightarrow> True | Some (a, b, c, d) \<Rightarrow> code_ok a \<and> code_ok b \<and> code_ok c \<and> code_ok d)"

definition scaling_bits :: "sps \<Rightarrow> bool list" where
  "scaling_bits s = (case sps_scaling s of None \<Rightarrow> [False] | Some ls \<Rightarrow> True # concat (map list_bits ls))"

definition chroma_bits :: "sps \<Rightarrow> bool list" where
  "chroma_bits s =
     (case sps_chroma s of (c, separate, y, u, bypass) \<Rightarrow>
        if sps_idc s < 100 then []
        else code_bits c @ (if code_value c = 3 then [separate] else []) @ code_bits y @ code_bits u @ bypass # scaling_bits s)"

definition size_bits :: "sps \<Rightarrow> bool list" where
  "size_bits s =
     code_bits (sps_refs s) @ sps_gaps s # code_bits (sps_width s) @ code_bits (sps_height s) @
     (case sps_field s of None \<Rightarrow> [True] | Some b \<Rightarrow> [False, b]) @ sps_direct s #
     (case sps_crop s of None \<Rightarrow> [False] | Some (a, b, c, d) \<Rightarrow> True # concat (map code_bits [a, b, c, d]))"

definition sps_bits :: "sps \<Rightarrow> bool list" where
  "sps_bits s =
     field 8 (sps_idc s) @ sps_flags s @ code_bits (sps_id s) @ chroma_bits s @ code_bits (sps_frame_num s) @ order_bits (sps_order s) @
     size_bits s"

lemma word_small:
  assumes "v < 511"
  shows "(word_of_nat v :: 32 word) = 3 \<longleftrightarrow> v = 3" "sint (16 * (word_of_nat v + 1) :: 32 word) = 16 * (int v + 1)"
    "sint (32 * (word_of_nat v + 1) :: 32 word) = 32 * (int v + 1)"
proof -
  have "unat (word_of_nat v :: 32 word) = v" using assms by (simp add: unsigned_of_nat take_bit_nat_eq_self)
  then show "(word_of_nat v :: 32 word) = 3 \<longleftrightarrow> v = 3" by auto
  have s: "sint (word_of_nat n :: 32 word) = int n" if "n < 2 ^ 31" for n
    using that by (simp add: signed_of_nat signed_take_bit_int_eq_self)
  show "sint (16 * (word_of_nat v + 1) :: 32 word) = 16 * (int v + 1)" using s [of "16 * (v + 1)"] assms by (simp add: ac_simps)
  show "sint (32 * (word_of_nat v + 1) :: 32 word) = 32 * (int v + 1)" using s [of "32 * (v + 1)"] assms by (simp add: ac_simps)
qed

lemma profile_read:
  assumes "bits_of buf = sps_bits s @ r" and "sps_ok s"
  shows "\<exists>m. sps_profile buf 24 = Some m \<and>
     drop m (bits_of buf) = code_bits (sps_frame_num s) @ order_bits (sps_order s) @ size_bits s @ r"
proof -
  note ok = assms(2) [unfolded sps_ok_def]
  let ?r = "code_bits (sps_frame_num s) @ order_bits (sps_order s) @ size_bits s @ r"
  have d0: "drop 0 (bits_of buf) = field 8 (sps_idc s) @ sps_flags s @ code_bits (sps_id s) @ chroma_bits s @ ?r"
    using assms(1) by (simp add: sps_bits_def)
  have "sps_idc s < 2 ^ 8" using ok by simp
  note p = getbits_field [OF d0 this, simplified]
  have "mp_getbits buf 0 8 = ubyte buf 0" by (simp add: mp_getbits_def)
  then have u: "ubyte buf 0 = Some (word_of_nat (sps_idc s))" using p(1) by simp
  have "unat (word_of_nat (sps_idc s) :: 8 word) = sps_idc s" using ok by (simp add: unsigned_of_nat take_bit_nat_eq_self)
  then have lt: "(word_of_nat (sps_idc s) :: 8 word) < 100 \<longleftrightarrow> sps_idc s < 100" by (simp add: word_less_nat_alt)
  have "drop 24 (bits_of buf) = code_bits (sps_id s) @ chroma_bits s @ ?r" by (rule skip_bits [OF p(2)]) (use ok in simp)
  from read_code [OF this] ok obtain n1 where n1: "read_golomb buf 24 = Some (word_of_nat (code_value (sps_id s)), n1)"
    "drop n1 (bits_of buf) = chroma_bits s @ ?r" by blast
  obtain c sep y u' bp where ch: "sps_chroma s = (c, sep, y, u', bp)" by (cases "sps_chroma s")
  show ?thesis
  proof (cases "sps_idc s < 100")
    case True
    then show ?thesis using n1 u lt by (simp add: sps_profile_def chroma_bits_def ch)
  next
    case False
    let ?sep = "if code_value c = 3 then [sep] else []"
    have co: "code_ok c" "code_ok y" "code_ok u'" using ok by (simp_all add: ch)
    have "drop n1 (bits_of buf) = code_bits c @ ?sep @ code_bits y @ code_bits u' @ bp # scaling_bits s @ ?r"
      using n1(2) False by (simp add: chroma_bits_def ch)
    from read_code [OF this co(1)] obtain n2 where n2: "read_golomb buf n1 = Some (word_of_nat (code_value c), n2)"
      "drop n2 (bits_of buf) = ?sep @ code_bits y @ code_bits u' @ bp # scaling_bits s @ ?r" by blast
    let ?n = "if code_value c = 3 then n2 + 1 else n2"
    have "drop ?n (bits_of buf) = concat (map code_bits [y, u']) @ bp # scaling_bits s @ ?r"
      using n2(2) drop_step [of n2 buf sep] by (cases "code_value c = 3") simp_all
    from skip_codes [OF this] co obtain n3 where n3: "skip_golombs buf 2 ?n = Some n3" "drop n3 (bits_of buf) = bp # scaling_bits s @ ?r"
      by (auto simp: numeral_2_eq_2)
    note f = read_flag(2) [OF n3(2)]
    obtain m where m: "do { b \<leftarrow> getbit buf (n3 + 1); if b then skip_scaling_lists buf [0, 1, 2, 3, 4, 5, 6, 7] (n3 + 2) else Some (n3 + 2) } = Some m"
      "drop m (bits_of buf) = ?r"
    proof (cases "sps_scaling s")
      case None
      then have "drop (n3 + 1) (bits_of buf) = False # ?r" using f by (simp add: scaling_bits_def)
      from read_flag [OF this] show ?thesis using that [of "n3 + 2"] by simp
    next
      case (Some ls)
      then have "drop (n3 + 1) (bits_of buf) = True # concat (map list_bits ls) @ ?r" using f by (simp add: scaling_bits_def)
      note t = read_flag [OF this]
      have "drop (n3 + 2) (bits_of buf) = concat (map list_bits ls) @ ?r" using t(2) by simp
      from scaling_lists_read [OF this, of "[0, 1, 2, 3, 4, 5, 6, 7]"] obtain m where
        "skip_scaling_lists buf [0, 1, 2, 3, 4, 5, 6, 7] (n3 + 2) = Some m" "drop m (bits_of buf) = ?r" using ok Some by auto
      then show ?thesis using that [of m] t(1) by (simp del: skip_scaling_lists.simps)
    qed
    have "sps_profile buf 24 = Some m"
      using n1(1) u lt False n2(1) n3(1) m(1) word_small(1) [OF code_value_less [OF co(1)]]
      by (simp add: sps_profile_def del: skip_scaling_lists.simps)
    then show ?thesis using m(2) by blast
  qed
qed

lemma crop_read:
  assumes "drop n (bits_of buf) = (case c of None \<Rightarrow> [False] | Some (a, b, c, d) \<Rightarrow> True # concat (map code_bits [a, b, c, d])) @ r"
    and "case c of None \<Rightarrow> True | Some (a, b, c, d) \<Rightarrow> code_ok a \<and> code_ok b \<and> code_ok c \<and> code_ok d"
  shows "\<exists>m. getbit buf n = Some (c \<noteq> None) \<and> (if c \<noteq> None then skip_golombs buf 4 (n + 1) else Some (n + 1)) = Some m \<and>
     drop m (bits_of buf) = r"
proof (cases c)
  case None
  then have "drop n (bits_of buf) = False # r" using assms(1) by simp
  then show ?thesis using read_flag [of n buf False r] None by simp
next
  case (Some x)
  obtain a b c' d where x: "x = (a, b, c', d)" by (cases x)
  then have "drop n (bits_of buf) = True # concat (map code_bits [a, b, c', d]) @ r" using assms(1) Some by simp
  note f = read_flag [OF this]
  show ?thesis using skip_codes [OF f(2)] f(1) assms(2) Some x by (simp add: numeral_eq_Suc)
qed

lemma size_read:
  assumes "drop n (bits_of buf) = size_bits s @ r" and "sps_ok s"
  shows "\<exists>m. sps_size picture buf n = Some (m, picture\<lparr>display_picture_width := 16 * (int (code_value (sps_width s)) + 1),
       display_picture_height := (if sps_field s = None then 16 else 32) * (int (code_value (sps_height s)) + 1)\<rparr>) \<and>
     drop m (bits_of buf) = r"
proof -
  note ok = assms(2) [unfolded sps_ok_def]
  let ?w = "sps_width s" and ?h = "sps_height s" and ?f = "case sps_field s of None \<Rightarrow> [True] | Some b \<Rightarrow> [False, b]"
  let ?c = "case sps_crop s of None \<Rightarrow> [False] | Some (a, b, c, d) \<Rightarrow> True # concat (map code_bits [a, b, c, d])"
  have co: "code_ok ?w" "code_ok ?h" using ok by simp_all
  have "drop n (bits_of buf) = concat (map code_bits [sps_refs s]) @ sps_gaps s # code_bits ?w @ code_bits ?h @ ?f @ sps_direct s # ?c @ r"
    using assms(1) by (simp add: size_bits_def)
  from skip_codes [OF this] ok obtain n1 where n1: "skip_golombs buf 1 n = Some n1"
    "drop n1 (bits_of buf) = sps_gaps s # code_bits ?w @ code_bits ?h @ ?f @ sps_direct s # ?c @ r" by auto
  note g = read_flag [OF n1(2)]
  from read_code [OF g(2) co(1)] obtain n2 where n2: "read_golomb buf (n1 + 1) = Some (word_of_nat (code_value ?w), n2)"
    "drop n2 (bits_of buf) = code_bits ?h @ ?f @ sps_direct s # ?c @ r" by blast
  from read_code [OF n2(2) co(2)] obtain n3 where n3: "read_golomb buf n2 = Some (word_of_nat (code_value ?h), n3)"
    "drop n3 (bits_of buf) = ?f @ sps_direct s # ?c @ r" by blast
  have "\<exists>n4. getbit buf n3 = Some (sps_field s = None) \<and>
      (if sps_field s = None then Some (n3 + 1) else do { _ \<leftarrow> getbit buf (n3 + 1); Some (n3 + 1 + 1) }) = Some n4 \<and>
      drop n4 (bits_of buf) = sps_direct s # ?c @ r"
  proof (cases "sps_field s")
    case None
    then show ?thesis using read_flag [of n3 buf True] n3(2) by simp
  next
    case (Some b)
    then have "drop n3 (bits_of buf) = False # b # sps_direct s # ?c @ r" using n3(2) by simp
    note f = read_flag [OF this]
    show ?thesis using f(1) read_flag [OF f(2)] Some by simp
  qed
  then obtain n4 where n4: "getbit buf n3 = Some (sps_field s = None)"
    "(if sps_field s = None then Some (n3 + 1) else do { _ \<leftarrow> getbit buf (n3 + 1); Some (n3 + 1 + 1) }) = Some n4"
    "drop n4 (bits_of buf) = sps_direct s # ?c @ r" by blast
  note d = read_flag [OF n4(3)]
  from crop_read [OF d(2)] ok obtain n5 where n5: "getbit buf (n4 + 1) = Some (sps_crop s \<noteq> None)"
    "(if sps_crop s \<noteq> None then skip_golombs buf 4 (n4 + 1 + 1) else Some (n4 + 1 + 1)) = Some n5" "drop n5 (bits_of buf) = r" by blast
  note ws = word_small(2,3) [OF code_value_less [OF co(1)]] word_small(2,3) [OF code_value_less [OF co(2)]]
  show ?thesis
    using n1(1) g(1) n2(1) n3(1) n4(1,2) d(1) n5 ws
    by (cases "sps_field s"; cases "sps_crop s") (auto simp: sps_size_def)
qed

definition with_size :: "sps \<Rightarrow> mp_mpeg_header \<Rightarrow> mp_mpeg_header" where
  "with_size s picture = picture\<lparr>fps := 0, timeinc_unit := 0, timeinc_resolution := 0,
     display_picture_width := 16 * (int (code_value (sps_width s)) + 1),
     display_picture_height := (if sps_field s = None then 16 else 32) * (int (code_value (sps_height s)) + 1)\<rparr>"

lemma sps_read:
  assumes "bits_of rbsp = sps_bits s @ v # r" and "sps_ok s" and "\<not> ends_escaped rbsp"
  obtains n buf where "drop n (bits_of buf) = r @ drop (8 * length rbsp) (bits_of buf)"
    "h264_parse_sps quot half picture (escape03 rbsp @ post) (int (length (escape03 rbsp))) =
       do { (n, p) \<leftarrow> (if v then h264_parse_vui quot half (with_size s picture) buf n else Some (n, with_size s picture)); Some (n, p, buf) }"
proof -
  have "24 < length (bits_of rbsp)" using assms(1,2) by (simp add: sps_bits_def sps_ok_def)
  then have "2 \<le> length rbsp" by simp
  from unescape_roundtrip [OF this assms(3), of post] obtain junk where
    u: "mp_unescape03 (escape03 rbsp @ post) (int (length (escape03 rbsp))) = Some (int (length rbsp), rbsp @ junk @ post)" by blast
  let ?buf = "rbsp @ junk @ post"
  have b: "bits_of ?buf = sps_bits s @ v # r @ bits_of (junk @ post)" using assms(1) by (simp add: bits_of_append)
  from profile_read [OF b assms(2)] obtain n1 where n1: "sps_profile ?buf 24 = Some n1"
    "drop n1 (bits_of ?buf) = code_bits (sps_frame_num s) @ order_bits (sps_order s) @ size_bits s @ v # r @ bits_of (junk @ post)" by blast
  have "code_ok (sps_frame_num s)" "order_ok (sps_order s)" using assms(2) by (simp_all add: sps_ok_def)
  from order_count_read [OF n1(2) this] obtain n2 where n2: "sps_order_count ?buf n1 = Some n2"
    "drop n2 (bits_of ?buf) = size_bits s @ v # r @ bits_of (junk @ post)" by blast
  from size_read [OF n2(2) assms(2), of "picture\<lparr>fps := 0, timeinc_unit := 0, timeinc_resolution := 0\<rparr>"]
  obtain n3 where n3: "sps_size (picture\<lparr>fps := 0, timeinc_unit := 0, timeinc_resolution := 0\<rparr>) ?buf n2 = Some (n3, with_size s picture)"
    "drop n3 (bits_of ?buf) = v # r @ bits_of (junk @ post)" unfolding with_size_def by blast
  have "drop (8 * length rbsp) (bits_of ?buf) = bits_of (junk @ post)" by (simp add: bits_of_append)
  then show ?thesis
    using that [of "n3 + 1" ?buf] u n1(1) n2(1) n3(1) read_flag [OF n3(2)] by (simp add: h264_parse_sps_def split: if_splits)
qed

text \<open>
  C12: The size is read back from a parameter set without display information, whatever
  profile, scaling lists, order count, field coding and cropping it has: sixteen times the
  macroblocks, and for fields twice that in height; cropping is not taken off. The codes of
  its numbers have at most 8 bits behind their prefix (longer ones are misread, as
  \<open>long_golomb_misread\<close> shows); scaling lists only come with chroma formats that have 8 of them,
  not 12; and the unit does not end in an escaped sequence (see \<open>unescape_overflows\<close>).
\<close>

theorem sps_size_roundtrip:
  assumes "bits_of rbsp = sps_bits s @ False # r" and "sps_ok s" and "\<not> ends_escaped rbsp"
  shows "\<exists>n p buf. h264_parse_sps quot half picture (escape03 rbsp @ post) (int (length (escape03 rbsp))) = Some (n, p, buf) \<and>
     display_picture_width p = 16 * (int (code_value (sps_width s)) + 1) \<and>
     display_picture_height p = (if sps_field s = None then 16 else 32) * (int (code_value (sps_height s)) + 1) \<and> fps p = 0"
  by (rule sps_read [OF assms, of quot half picture post]) (simp add: with_size_def)

text \<open>
  A parameter set of the high profile, 1920 by 1088, interlaced and cropped, with one of the
  eight scaling lists.
\<close>

definition ex_sps :: sps where
  "ex_sps = \<lparr>sps_idc = 100, sps_flags = replicate 16 False, sps_id = (0, 0), sps_chroma = ((1, 0), False, (0, 0), (0, 0), False),
     sps_scaling = Some ([None, Some (replicate 7 (0, 0) @ [(4, 1)])] @ replicate 6 None),
     sps_frame_num = (2, 1), sps_order = Order_cycle True (1, 1) (0, 0) (1, 0) [(3, 5)], sps_refs = (2, 1), sps_gaps = False,
     sps_width = (6, 56), sps_height = (5, 2), sps_field = Some True, sps_direct = True, sps_crop = Some ((0, 0), (0, 0), (0, 0), (1, 1))\<rparr>"

lemma ex_sps_length: "length (sps_bits ex_sps) = 119"
  by code_simp

lemma length_bytes_of: "length (bytes_of bs) = length bs div 8"
  by (simp add: bytes_of_def)

lemma ends_escaped_zeros:
  assumes "ends_escaped xs" and "8 * length xs \<le> k + 24" and "k + 8 < 8 * length xs"
  shows "\<not> bits_of xs ! k"
proof -
  from assms(1) obtain ys c where xs: "xs = ys @ [CHR 0x00, CHR 0x00, c]" by (auto simp: ends_escaped_def)
  have "xs ! (k div 8) = CHR 0x00"
  proof -
    have "k div 8 = length ys \<or> k div 8 = length ys + 1" using assms(2,3) by (auto simp: xs)
    then show ?thesis by (auto simp: xs nth_append)
  qed
  moreover have "byte (CHR 0x00) = 0" by (simp add: byte_def)
  ultimately show ?thesis using assms(3) by (simp add: nth_bits_of)
qed

theorem sps_size_roundtrip_witness:
  "\<exists>n p buf. h264_parse_sps (\<lambda>_ _. 0) (\<lambda>x. x) zero_picture (escape03 (bytes_of (sps_bits ex_sps @ [False])) @ ''xy'')
       (int (length (escape03 (bytes_of (sps_bits ex_sps @ [False]))))) = Some (n, p, buf) \<and>
     display_picture_width p = 1920 \<and> display_picture_height p = 1088"
proof -
  have b: "bits_of (bytes_of (sps_bits ex_sps @ [False])) = sps_bits ex_sps @ [False]"
    by (rule bits_of_bytes_of) (simp add: ex_sps_length)
  have "(sps_bits ex_sps @ [False]) ! 110" by code_simp
  then have e: "\<not> ends_escaped (bytes_of (sps_bits ex_sps @ [False]))"
    using ends_escaped_zeros [of "bytes_of (sps_bits ex_sps @ [False])" 110] by (auto simp: b length_bytes_of ex_sps_length)
  have "sps_ok ex_sps" by code_simp
  from sps_size_roundtrip [OF b this e, of "\<lambda>_ _. 0" "\<lambda>x. x" zero_picture "''xy''"]
  show ?thesis by (auto simp: ex_sps_def code_value_def)
qed

text \<open>Display information that only has a sample aspect ratio of its own.\<close>

definition aspect_bits :: "nat \<Rightarrow> nat \<Rightarrow> bool list" where
  "aspect_bits w h = True # field 8 255 @ field 16 w @ field 16 h @ [False, False, False, False]"

lemma two_getbits:
  assumes "drop n (bits_of buf) = field 16 v @ r" and "v < 2 ^ 16"
  obtains a b where "mp_getbits buf n 8 = Some a" "mp_getbits buf (n + 8) 8 = Some b" "or (push_bit 8 (uint a)) (uint b) = int v"
    "drop (n + 16) (bits_of buf) = r"
proof -
  from two_byte_field [OF assms] obtain a b where ab: "mp_getbits buf n 8 = Some a" "mp_getbits buf (n + 8) 8 = Some b"
    "drop (n + 16) (bits_of buf) = r" by blast
  have p: "n + 16 - 8 = n + 8" "16 - 8 = (8 :: nat)" by simp_all
  have "mp_getbits16 buf n 16 = Some (int v)" using getbits16_field(1) [OF assms] by simp
  then have "or (push_bit 8 (uint a)) (uint b) = int v" unfolding mp_getbits16_def p by (simp add: ab)
  then show ?thesis using that ab by blast
qed

text \<open>
  Display information with an extended sample aspect ratio overwrites the size: the
  picture is then as large as the numerator and the denominator of the ratio.
\<close>

theorem extended_aspect_replaces_size:
  assumes "bits_of rbsp = sps_bits s @ True # aspect_bits w h @ r" and "sps_ok s" and "\<not> ends_escaped rbsp" and "w < 2 ^ 16" and "h < 2 ^ 16"
  shows "\<exists>n p buf. h264_parse_sps quot half picture (escape03 rbsp @ post) (int (length (escape03 rbsp))) = Some (n, p, buf) \<and>
     display_picture_width p = int w \<and> display_picture_height p = int h"
proof (rule sps_read [OF assms(1-3), of quot half picture post])
  fix n buf
  let ?r = "r @ drop (8 * length rbsp) (bits_of buf)"
  assume d: "drop n (bits_of buf) = (aspect_bits w h @ r) @ drop (8 * length rbsp) (bits_of buf)"
    and p: "h264_parse_sps quot half picture (escape03 rbsp @ post) (int (length (escape03 rbsp))) =
       do { (n, p) \<leftarrow> (if True then h264_parse_vui quot half (with_size s picture) buf n else Some (n, with_size s picture)); Some (n, p, buf) }"
  have "drop n (bits_of buf) = True # field 8 255 @ field 16 w @ field 16 h @ [False, False, False, False] @ ?r"
    using d by (simp add: aspect_bits_def)
  note f = read_flag [OF this]
  note a = getbits_field(1) [OF f(2), simplified]
  have d9: "drop (n + 9) (bits_of buf) = field 16 w @ field 16 h @ [False, False, False, False] @ ?r" by (rule skip_bits [OF f(2)]) simp
  have d25: "drop (n + 25) (bits_of buf) = field 16 h @ [False, False, False, False] @ ?r" by (rule skip_bits [OF d9]) simp
  have d41': "drop (n + 41) (bits_of buf) = [False, False, False, False] @ ?r" by (rule skip_bits [OF d25]) simp
  note nn = add.commute [of 17 n] add.commute [of 25 n] add.commute [of 33 n] add.commute [of 41 n] add.commute [of 9 n]
    add.commute [of 42 n] add.commute [of 43 n] add.commute [of 44 n] add.commute [of 45 n]
  from two_getbits [OF d9 assms(4)] obtain x y where w: "mp_getbits buf (n + 9) 8 = Some x" "mp_getbits buf (n + 9 + 8) 8 = Some y"
    "or (push_bit 8 (uint x)) (uint y) = int w" by blast
  from two_getbits [OF d25 assms(5)] obtain x' y' where h: "mp_getbits buf (n + 25) 8 = Some x'" "mp_getbits buf (n + 25 + 8) 8 = Some y'"
    "or (push_bit 8 (uint x')) (uint y') = int h" by blast
  let ?q = "with_size s picture\<lparr>aspect_ratio_information := 255, display_picture_width := int w, display_picture_height := int h\<rparr>"
  have v: "vui_aspect (with_size s picture) buf n = Some (n + 41, ?q)"
    using f(1) a(1) w h by (simp add: vui_aspect_def nn)
  have d41: "drop (n + 41) (bits_of buf) = False # False # False # False # ?r" using d41' by simp
  note g1 = read_flag [OF d41] and g2 = read_flag [OF read_flag(2) [OF d41]]
  note g3 = read_flag [OF g2(2)] note g4 = read_flag [OF g3(2)]
  have "h264_parse_vui quot half (with_size s picture) buf n = Some (n + 45, ?q)"
    using v g1(1) g2(1) g3(1) g4(1) by (simp add: h264_parse_vui_def vui_timing_def Let_def nn)
  then show ?thesis using p by simp
qed

theorem extended_aspect_replaces_size_witness:
  "\<exists>n p buf. h264_parse_sps (\<lambda>_ _. 0) (\<lambda>x. x) zero_picture
       (escape03 (bytes_of (sps_bits ex_sps @ True # aspect_bits 64 45 @ replicate 3 True)) @ ''xy'')
       (int (length (escape03 (bytes_of (sps_bits ex_sps @ True # aspect_bits 64 45 @ replicate 3 True))))) = Some (n, p, buf) \<and>
     display_picture_width p = 64 \<and> display_picture_height p = 45"
proof -
  let ?b = "bytes_of (sps_bits ex_sps @ True # aspect_bits 64 45 @ replicate 3 True)"
  have b: "bits_of ?b = sps_bits ex_sps @ True # aspect_bits 64 45 @ replicate 3 True"
    by (rule bits_of_bytes_of) (simp add: ex_sps_length aspect_bits_def)
  have "(sps_bits ex_sps @ True # aspect_bits 64 45 @ replicate 3 True) ! 155"
    by (simp add: nth_append ex_sps_length aspect_bits_def nth_field bit_0)
  then have e: "\<not> ends_escaped ?b"
    using ends_escaped_zeros [of ?b 155, unfolded b] by (auto simp: length_bytes_of ex_sps_length aspect_bits_def)
  have "sps_ok ex_sps" by code_simp
  from extended_aspect_replaces_size [OF b this e, of "\<lambda>_ _. 0" "\<lambda>x. x" zero_picture "''xy''"]
  show ?thesis by auto
qed

end
