(* ===== verification/Parse_ES.thy ===== *)
theory Parse_ES
  imports Demux_Raw
begin

text \<open>
  Elementary video streams (\<open>libmpdemux/parse_es.c\<close>): the units between start codes are
  collected in a buffer. The global variables are a record; \<open>None\<close> is an access outside
  \<open>videobuffer\<close> or of the functions of the demuxer. The frame size of
  AC-3, which this file also computes, is in \<open>Audio_Hdr\<close>.
\<close>

subsection \<open>The parser\<close>

abbreviation (input) VIDEOBUFFER_SIZE :: int where "VIDEOBUFFER_SIZE \<equiv> 0x100000"
abbreviation (input) MAX_SYNCLEN :: int where "MAX_SYNCLEN \<equiv> 10 * 1024 * 1024"

record es_parser =
  videobuffer :: string
  videobuf_len :: int
  next_nal :: int
  videobuf_code_len :: int

definition eof_out :: "es_parser \<Rightarrow> es_parser" where
  "eof_out es = es\<lparr>next_nal := -1, videobuf_code_len := 0\<rparr>"

definition sync_video_packet :: "'p fill \<Rightarrow> strm \<Rightarrow> es_parser \<Rightarrow> 'p demuxer \<Rightarrow> (int \<times> es_parser \<times> 'p demuxer) option" where
  "sync_video_packet fill s es d =
     (if videobuf_code_len es = 0
      then do {
        ((found, _, _), d) \<leftarrow> demux_pattern_3 fill s False MAX_SYNCLEN 0x100 d;
        if \<not> found then Some (0, eof_out es, d)
        else do {
          (c, d) \<leftarrow> demux_getc fill s d;
          let es = es\<lparr>next_nal := c\<rparr>;
          if c < 0 then Some (0, eof_out es, d)
          else Some (or 0x100 c, es\<lparr>videobuf_code_len := 4\<rparr>, d) } }
      else Some (or 0x100 (next_nal es), es, d))"

definition put_video :: "string \<Rightarrow> es_parser \<Rightarrow> es_parser option" where
  "put_video bs es = do { b \<leftarrow> put_bytes (videobuf_len es) bs (videobuffer es); Some (es\<lparr>videobuffer := b\<rparr>) }"

definition read_video_packet :: "'p fill \<Rightarrow> strm \<Rightarrow> es_parser \<Rightarrow> 'p demuxer \<Rightarrow> (int \<times> es_parser \<times> 'p demuxer) option" where
  "read_video_packet fill s es d =
     (if VIDEOBUFFER_SIZE - videobuf_len es < 5 then Some (0, es, d)
      else do {
        let packet_start = videobuf_len es;
        es \<leftarrow> put_video [CHR 0x00, CHR 0x00, CHR 0x01, char_of (nat (next_nal es mod 256))] es;
        let es = es\<lparr>videobuf_len := videobuf_len es + 4\<rparr>;
        ((res, read, bs), d) \<leftarrow> demux_pattern_3 fill s True (VIDEOBUFFER_SIZE - videobuf_len es) 0x100 d;
        es \<leftarrow> put_video bs es;
        let es = es\<lparr>videobuf_len := videobuf_len es + read\<rparr>;
        if \<not> res then Some (videobuf_len es - packet_start, eof_out es, d)
        else do {
          let es = es\<lparr>videobuf_len := videobuf_len es - 3\<rparr>;
          (c, d) \<leftarrow> demux_getc fill s d;
          let es = es\<lparr>next_nal := c\<rparr>;
          if c < 0 then Some (videobuf_len es - packet_start, eof_out es, d)
          else Some (videobuf_len es - packet_start, es\<lparr>videobuf_code_len := 4\<rparr>, d) } })"

definition skip_video_packet :: "'p fill \<Rightarrow> strm \<Rightarrow> es_parser \<Rightarrow> 'p demuxer \<Rightarrow> (int \<times> es_parser \<times> 'p demuxer) option" where
  "skip_video_packet fill s es d = sync_video_packet fill s (es\<lparr>videobuf_code_len := 0\<rparr>) d"

subsection \<open>Start codes\<close>

definition start_code :: string where
  "start_code = [CHR 0x00, CHR 0x00, CHR 0x01]"

definition no_code :: "string \<Rightarrow> bool" where
  "no_code bs \<longleftrightarrow> (\<forall>q. \<not> pattern_at 0x100 bs q)"

lemma code_ends_with_one: "three_bytes [a, b, CHR 0x00] \<noteq> 0x100"
proof
  assume "three_bytes [a, b, CHR 0x00] = 0x100"
  moreover have "\<not> bit (three_bytes [a, b, CHR 0x00]) 8"
    by (simp add: three_bytes_def shift_head_def bit_push_bit_iff bit_or_iff byte_def del: push_bit_or)
  moreover have "bit (0x100 :: 32 word) 8" by simp
  ultimately show False by simp
qed

lemma pattern_at_append: "q \<le> length xs \<Longrightarrow> pattern_at pat (xs @ ys) q = pattern_at pat xs q"
  by (auto simp: pattern_at_def)

lemma first_code:
  assumes "no_code bs"
  shows "pattern_at 0x100 (bs @ start_code @ r) (length bs + 3)" "\<forall>q<length bs + 3. \<not> pattern_at 0x100 (bs @ start_code @ r) q"
proof -
  show "pattern_at 0x100 (bs @ start_code @ r) (length bs + 3)"
    by (simp add: pattern_at_def start_code_def three_bytes_def shift_head_def byte_def)
  show "\<forall>q<length bs + 3. \<not> pattern_at 0x100 (bs @ start_code @ r) q"
  proof (intro allI impI notI)
    fix q assume q: "q < length bs + 3" and p: "pattern_at 0x100 (bs @ start_code @ r) q"
    show False
    proof (cases "q \<le> length bs")
      case True
      then show False using p assms by (simp add: pattern_at_append no_code_def)
    next
      case False
      define ys where "ys = bs @ start_code @ r"
      have l: "3 \<le> q" "q - 3 + 2 < length ys" and p3: "three_bytes (take 3 (drop (q - 3) ys)) = 0x100"
        using p by (auto simp: pattern_at_def ys_def)
      have "length (take 3 (drop (q - 3) ys)) = Suc (Suc (Suc 0))" using l by simp
      then obtain a b c where t: "take 3 (drop (q - 3) ys) = [a, b, c]" unfolding length_Suc_conv by auto
      have "c = take 3 (drop (q - 3) ys) ! 2" by (simp add: t)
      also have "\<dots> = ys ! (q - 1)"
      proof -
        have "q - 3 + 2 = q - 1" using l(1) by simp
        then show ?thesis using l by simp
      qed
      also have "\<dots> = CHR 0x00" using False q by (auto simp: ys_def nth_append start_code_def nth_Cons')
      finally show False using p3 t code_ends_with_one by simp
    qed
  qed
qed

subsection \<open>Units\<close>

text \<open>A demuxer that comes to an end, delivers a packet at a time, and none that is empty before the end.\<close>

locale es_source = full_demux_source fill served inv rest + finite_demux_source fill served inv rest rank
  for fill :: "'p fill" and served :: "strm set" and inv :: "'p demuxer \<Rightarrow> bool" and rest :: "'p demuxer \<Rightarrow> strm \<Rightarrow> string"
    and rank :: "'p demuxer \<Rightarrow> nat"
begin

lemma getc_returns: "s \<in> served \<Longrightarrow> ok d \<Longrightarrow> idle d \<Longrightarrow> content d s = x # xs \<Longrightarrow>
   \<exists>d'. demux_getc fill s d = Some (int (byte x), d') \<and> ok d' \<and> idle d' \<and> content d' s = xs"
proof -
  assume a: "s \<in> served" "ok d" "idle d" "content d s = x # xs"
  have dok: "ds_ok (ds_of s d)" using a(2) by (simp add: ok_def)
  have "\<exists>y. demux_getc fill s d = Some y"
  proof (cases "unread (ds_of s d)")
    case (Cons y ys)
    then show ?thesis using getc_buffered [OF a(2) Cons] by blast
  next
    case Nil
    then have e: "\<not> ds_buffer_pos (ds_of s d) < ds_buffer_size (ds_of s d)" using unread_nil [OF dok] by simp
    from fill_buffer_returns [OF a(1,2)] obtain r f where f: "ds_fill_buffer fill s d = Some (r, f)" by blast
    have ne: "to_come d s \<noteq> []" using a(4) Nil by (simp add: content_def)
    note ff = full_fill_buffer [OF f a(1-3) ne]
    have fok: "ds_ok (ds_of s f)" using ff(2) by (simp add: ok_def)
    obtain y ys where "unread (ds_of s f) = y # ys" using ff(4) by (cases "unread (ds_of s f)") auto
    then have "get_bytes (ds_buffer_pos (ds_of s f)) 1 (ds_buffer (ds_of s f)) = Some [y]"
      using get_unread(1) [OF fok, of 1] length_unread [OF fok] by simp
    then show ?thesis using e f by (simp add: demux_getc_def char_at_def)
  qed
  then obtain c d' where g: "demux_getc fill s d = Some (c, d')" by auto
  then show ?thesis using getc_ok [OF g a] by blast
qed

lemma pattern_3_returns:
  assumes "s \<in> served" and "ok d" and "0 < maxlen"
  obtains found n out d' where "demux_pattern_3 fill s mem maxlen pattern d = Some ((found, n, out), d')"
proof -
  from pattern_loop_returns [OF assms, of mem "and pattern 0xFFFFFF00" "0xFFFFFF00" "[]"]
  obtain y where "pattern_loop fill s mem maxlen (and pattern 0xFFFFFF00) 0xFFFFFF00 0 [] d = Some y" by blast
  then show ?thesis using that by (cases y) (auto simp: demux_pattern_3_def Let_def)
qed

text \<open>A start code ahead is found.\<close>

lemma code_ahead:
  assumes "s \<in> served" and "ok d" and "idle d" and "content d s = bs @ start_code @ r" and "no_code bs" and "int (length bs) + 3 \<le> maxlen"
  shows "\<exists>out d'. demux_pattern_3 fill s mem maxlen 0x100 d = Some ((True, int (length bs) + 3, out), d') \<and>
     (mem \<longrightarrow> out = bs @ start_code) \<and> ok d' \<and> idle d' \<and> content d' s = r"
proof -
  have pos: "0 < maxlen" using assms(6) by simp
  from pattern_3_returns [OF assms(1,2) pos] obtain found n out d' where
    p: "demux_pattern_3 fill s mem maxlen 0x100 d = Some ((found, n, out), d')" by blast
  have m: "and (0x100 :: 32 word) 0xFFFFFF00 = 0x100" by simp
  note fc = first_code [OF assms(5), of r]
  have lim: "int (length bs + 3) \<le> maxlen" using assms(6) by simp
  note x = pattern_3_exact [OF p assms(1-3) pos, unfolded m assms(4), OF fc lim]
  have ok: "ok d'" using pattern_3_ok [OF p assms(1,2) pos] by blast
  obtain y where "pattern_loop fill s mem maxlen 0x100 0xFFFFFF00 0 [] d = Some (y, d')"
    using p by (auto simp: demux_pattern_3_def Let_def elim!: bind_eq_SomeE)
  then have "idle d'" by (rule idle_pattern_loop [OF _ assms(1-3)])
  then show ?thesis using p x ok by (auto simp: start_code_def numeral_3_eq_3)
qed

text \<open>Without a start code ahead everything is read.\<close>

lemma no_code_ahead:
  assumes "s \<in> served" and "ok d" and "idle d" and "no_code (content d s)" and "int (length (content d s)) < maxlen"
  shows "\<exists>out d'. demux_pattern_3 fill s mem maxlen 0x100 d = Some ((False, int (length (content d s)), out), d') \<and>
     (mem \<longrightarrow> out = content d s) \<and> ok d' \<and> idle d' \<and> content d' s = []"
proof -
  have pos: "0 < maxlen" using assms(5) by simp
  from pattern_3_returns [OF assms(1,2) pos] obtain found n out d' where
    p: "demux_pattern_3 fill s mem maxlen 0x100 d = Some ((found, n, out), d')" by blast
  have m: "and (0x100 :: 32 word) 0xFFFFFF00 = 0x100" by simp
  note x = pattern_3_ok [OF p assms(1,2) pos, unfolded m]
  obtain y where "pattern_loop fill s mem maxlen 0x100 0xFFFFFF00 0 [] d = Some (y, d')"
    using p by (auto simp: demux_pattern_3_def Let_def elim!: bind_eq_SomeE)
  then have id: "idle d'" by (rule idle_pattern_loop [OF _ assms(1-3)])
  then have "\<not> stuck d'" using not_stuck x by blast
  have none: "\<not> pattern_at 0x100 (content d s) (nat n)" using assms(4) by (simp add: no_code_def)
  have le: "nat n \<le> length (content d s)" using x by blast
  then have "n < maxlen" using assms(5) by linarith
  then have n: "nat n = length (content d s)" using x none \<open>\<not> stuck d'\<close> by blast
  have n0: "0 \<le> n" using x by blast
  have "\<not> found" using x none \<open>n < maxlen\<close> by auto
  moreover have "n = int (length (content d s))" using n n0 by linarith
  ultimately show ?thesis using p x id n by auto
qed

text \<open>What reading a unit leaves in the buffer, behind what was there.\<close>

definition unit_read :: "es_parser \<Rightarrow> char \<Rightarrow> string \<Rightarrow> es_parser \<Rightarrow> bool" where
  "unit_read es k bs es' \<longleftrightarrow>
     videobuf_len es' = videobuf_len es + 4 + int (length bs) \<and> length (videobuffer es') = length (videobuffer es) \<and>
     take (nat (videobuf_len es')) (videobuffer es') = take (nat (videobuf_len es)) (videobuffer es) @ start_code @ k # bs"

lemma put_video_ok:
  assumes "0 \<le> videobuf_len es" and "videobuf_len es + int (length bs) \<le> int (length (videobuffer es))"
  obtains es' where "put_video bs es = Some es'" "es' = es\<lparr>videobuffer := videobuffer es'\<rparr>" "length (videobuffer es') = length (videobuffer es)"
    "take (nat (videobuf_len es) + length bs) (videobuffer es') = take (nat (videobuf_len es)) (videobuffer es) @ bs"
proof -
  let ?b = "take (nat (videobuf_len es)) (videobuffer es) @ bs @ drop (nat (videobuf_len es) + length bs) (videobuffer es)"
  have n: "nat (videobuf_len es) + length bs \<le> length (videobuffer es)" using assms by linarith
  have "put_video bs es = Some (es\<lparr>videobuffer := ?b\<rparr>)" using assms by (simp add: put_video_def put_bytes_def)
  then show ?thesis using that [of "es\<lparr>videobuffer := ?b\<rparr>"] n by simp
qed

lemma unit_written:
  assumes "put_video (start_code @ [k]) es = Some e1" and "put_video out (e1\<lparr>videobuf_len := videobuf_len e1 + 4\<rparr>) = Some e2"
    and "0 \<le> videobuf_len es" and "length bs \<le> length out" and "take (length bs) out = bs"
  shows "unit_read es k bs (e2\<lparr>videobuf_len := videobuf_len es + 4 + int (length bs)\<rparr>)" "videobuf_len e2 = videobuf_len es + 4"
proof -
  let ?v = "nat (videobuf_len es)"
  have e1: "e1 = es\<lparr>videobuffer := take ?v (videobuffer es) @ start_code @ k # drop (?v + 4) (videobuffer es)\<rparr>"
    "?v + 4 \<le> length (videobuffer es)"
    using assms(1,3) by (auto simp: put_video_def put_bytes_def start_code_def eval_nat_numeral split: if_splits elim!: bind_eq_SomeE)
  have v4: "nat (videobuf_len es + 4) = ?v + 4" using assms(3) by simp
  have e2: "videobuffer e2 = take (?v + 4) (videobuffer e1) @ out @ drop (?v + 4 + length out) (videobuffer e1)"
    "videobuf_len e2 = videobuf_len es + 4" "?v + 4 + length out \<le> length (videobuffer e1)"
    using assms(2,3) by (auto simp: put_video_def put_bytes_def e1(1) v4 split: if_splits elim!: bind_eq_SomeE)
  show "videobuf_len e2 = videobuf_len es + 4" by (rule e2)
  have head: "take (?v + 4) (videobuffer e1) = take ?v (videobuffer es) @ start_code @ [k]"
    using e1(2) by (simp add: e1(1) start_code_def)
  have len: "length (videobuffer e1) = length (videobuffer es)" using e1(2) by (simp add: e1(1) start_code_def)
  have "nat (videobuf_len es + 4 + int (length bs)) = ?v + 4 + length bs" using assms(3) by simp
  moreover have "take (?v + 4 + length bs) (videobuffer e2) = take (?v + 4) (videobuffer e1) @ bs"
    using e2(3) assms(4,5) by (simp add: e2(1))
  ultimately show "unit_read es k bs (e2\<lparr>videobuf_len := videobuf_len es + 4 + int (length bs)\<rparr>)"
    using e2(1,3) head len e1(2) by (simp add: unit_read_def start_code_def)
qed

lemma read_unit:
  assumes "s \<in> served" and "ok d" and "idle d" and "content d s = bs @ start_code @ c # rst" and "no_code bs"
    and "0 \<le> videobuf_len es" and "videobuf_len es + 4 + int (length bs) + 3 \<le> VIDEOBUFFER_SIZE"
    and "VIDEOBUFFER_SIZE \<le> int (length (videobuffer es))" and "next_nal es = int (byte k)"
  shows "\<exists>es' d'. read_video_packet fill s es d = Some (4 + int (length bs), es', d') \<and> unit_read es k bs es' \<and>
     next_nal es' = int (byte c) \<and> videobuf_code_len es' = 4 \<and> ok d' \<and> idle d' \<and> content d' s = rst"
proof -
  have kc: "char_of (nat (next_nal es mod 256)) = k" using assms(9) by (simp add: byte_def)
  obtain e1 where e1: "put_video (start_code @ [k]) es = Some e1" "e1 = es\<lparr>videobuffer := videobuffer e1\<rparr>"
      "length (videobuffer e1) = length (videobuffer es)"
    by (rule put_video_ok [of es "start_code @ [k]"]) (use assms(6-8) in \<open>simp_all add: start_code_def\<close>)
  have vl1: "videobuf_len e1 = videobuf_len es" by (subst e1(2)) simp
  from code_ahead [OF assms(1-5), of "VIDEOBUFFER_SIZE - (videobuf_len es + 4)" True] assms(7)
  obtain d1 where d1: "demux_pattern_3 fill s True (VIDEOBUFFER_SIZE - (videobuf_len es + 4)) 0x100 d =
      Some ((True, int (length bs) + 3, bs @ start_code), d1)" "ok d1" "idle d1" "content d1 s = c # rst" by auto
  obtain e2 where e2: "put_video (bs @ start_code) (e1\<lparr>videobuf_len := videobuf_len e1 + 4\<rparr>) = Some e2"
    by (rule put_video_ok [of "e1\<lparr>videobuf_len := videobuf_len e1 + 4\<rparr>" "bs @ start_code"])
       (use assms(6-8) vl1 e1(3) in \<open>simp_all add: start_code_def\<close>)
  note u = unit_written [OF e1(1) e2 assms(6), of bs, simplified]
  from getc_returns [OF assms(1) d1(2-4)] obtain d2 where d2: "demux_getc fill s d1 = Some (int (byte c), d2)" "ok d2" "idle d2" "content d2 s = rst"
    by blast
  let ?e = "e2\<lparr>videobuf_len := videobuf_len es + 4 + int (length bs), next_nal := int (byte c), videobuf_code_len := 4\<rparr>"
  have "read_video_packet fill s es d = Some (4 + int (length bs), ?e, d2)"
    using assms(7) e1(1) d1(1) e2 d2(1) u(2) kc vl1 by (simp add: read_video_packet_def start_code_def Let_def)
  moreover have "unit_read es k bs ?e" using u(1) by (simp add: unit_read_def)
  ultimately show ?thesis using d2 by auto
qed

lemma read_last_unit:
  assumes "s \<in> served" and "ok d" and "idle d" and "no_code (content d s)"
    and "0 \<le> videobuf_len es" and "videobuf_len es + 4 + int (length (content d s)) < VIDEOBUFFER_SIZE"
    and "VIDEOBUFFER_SIZE \<le> int (length (videobuffer es))" and "next_nal es = int (byte k)"
  shows "\<exists>es' d'. read_video_packet fill s es d = Some (4 + int (length (content d s)), es', d') \<and> unit_read es k (content d s) es' \<and>
     next_nal es' = -1 \<and> videobuf_code_len es' = 0 \<and> ok d' \<and> idle d' \<and> content d' s = []"
proof -
  let ?bs = "content d s"
  have kc: "char_of (nat (next_nal es mod 256)) = k" using assms(8) by (simp add: byte_def)
  obtain e1 where e1: "put_video (start_code @ [k]) es = Some e1" "e1 = es\<lparr>videobuffer := videobuffer e1\<rparr>"
      "length (videobuffer e1) = length (videobuffer es)"
    by (rule put_video_ok [of es "start_code @ [k]"]) (use assms(5-7) in \<open>simp_all add: start_code_def\<close>)
  have vl1: "videobuf_len e1 = videobuf_len es" by (subst e1(2)) simp
  from no_code_ahead [OF assms(1-4), of "VIDEOBUFFER_SIZE - (videobuf_len es + 4)" True] assms(6)
  obtain d1 where d1: "demux_pattern_3 fill s True (VIDEOBUFFER_SIZE - (videobuf_len es + 4)) 0x100 d =
      Some ((False, int (length ?bs), ?bs), d1)" "ok d1" "idle d1" "content d1 s = []" by auto
  obtain e2 where e2: "put_video ?bs (e1\<lparr>videobuf_len := videobuf_len e1 + 4\<rparr>) = Some e2"
    by (rule put_video_ok [of "e1\<lparr>videobuf_len := videobuf_len e1 + 4\<rparr>" ?bs])
       (use assms(5-7) vl1 e1(3) in \<open>simp_all add: start_code_def\<close>)
  note u = unit_written [OF e1(1) e2 assms(5), of ?bs, simplified]
  let ?e = "eof_out (e2\<lparr>videobuf_len := videobuf_len es + 4 + int (length ?bs)\<rparr>)"
  have "read_video_packet fill s es d = Some (4 + int (length ?bs), ?e, d1)"
    using assms(6) e1(1) d1(1) e2 u(2) kc vl1 by (simp add: read_video_packet_def start_code_def Let_def eof_out_def)
  moreover have "unit_read es k ?bs ?e" using u(1) by (simp add: unit_read_def eof_out_def)
  ultimately show ?thesis using d1 by (auto simp: eof_out_def)
qed

lemma sync_ahead:
  assumes "s \<in> served" and "ok d" and "idle d" and "content d s = bs @ start_code @ c # rst" and "no_code bs"
    and "int (length bs) + 3 \<le> MAX_SYNCLEN" and "videobuf_code_len es = 0"
  shows "\<exists>d'. sync_video_packet fill s es d = Some (or 0x100 (int (byte c)), es\<lparr>next_nal := int (byte c), videobuf_code_len := 4\<rparr>, d') \<and>
     ok d' \<and> idle d' \<and> content d' s = rst"
proof -
  from code_ahead [OF assms(1-6), of False] obtain out d1 where d1: "demux_pattern_3 fill s False MAX_SYNCLEN 0x100 d =
      Some ((True, int (length bs) + 3, out), d1)" "ok d1" "idle d1" "content d1 s = c # rst" by blast
  from getc_returns [OF assms(1) d1(2-4)] obtain d2 where "demux_getc fill s d1 = Some (int (byte c), d2)" "ok d2" "idle d2" "content d2 s = rst"
    by blast
  then show ?thesis using d1(1) assms(7) by (simp add: sync_video_packet_def)
qed

end

text \<open>The demuxer for raw video on a stream without a cache is one.\<close>

sublocale steady_source \<subseteq> rawvideo_es: es_source "demux_rawvideo_fill_buffer junk scaled imgsize drv" "{Video}" "rawvideo_ok imgsize" raw_rest raw_rank
  for junk :: "nat \<Rightarrow> char" and scaled :: "int \<Rightarrow> 32 word \<Rightarrow> double" and imgsize :: int
  by unfold_locales

end
