(* ===== verification/Demux_ES.thy ===== *)
theory Demux_ES
  imports Demux_File Parse_ES
begin

text \<open>
  The demuxer for elementary video streams (\<open>demux_mpg_es_open\<close> and
  \<open>demux_mpg_es_fill_buffer\<close> of \<open>libmpdemux/demux_mpg.c\<close>, for MPEG, MPEG-4 and H.264 files):
  the file is handed on in packets of one block. It is a demuxer in the sense of
  \<open>es_source\<close>, so that units can be read from it.
\<close>

definition demux_mpg_es_open :: "('d, 'q) sdemuxer \<Rightarrow> ('d, 'q) sdemuxer option" where
  "demux_mpg_es_open d =
     (let d = d\<lparr>dm_audio := (dm_audio d)\<lparr>ds_sh := None\<rparr>\<rparr>; (sh, d) = new_sh_video_vid d 0 0
      in do { i \<leftarrow> sh; Some (d\<lparr>dm_video := (dm_video d)\<lparr>ds_sh := Some i\<rparr>\<rparr>) })"

definition demux_mpg_es_fill_buffer :: "(nat \<Rightarrow> char) \<Rightarrow> 'd driver \<Rightarrow> ('d cstream \<times> 'q) fill" where
  "demux_mpg_es_fill_buffer junk drv d s =
     (if s_eof (st_of (dm_stream d)) then Some (False, [], dm_priv d)
      else do {
        let pos = stream_tell (st_of (dm_stream d));
        (dp, st) \<leftarrow> ds_read_packet junk drv (dm_stream d) STREAM_BUFFER_SIZE 0 pos False;
        Some (True, [(Video, dp)], (st, snd (dm_priv d))) })"

abbreviation (input) DEMUXER_TYPE_MPEG_ES :: int where "DEMUXER_TYPE_MPEG_ES \<equiv> 1"
abbreviation (input) DEMUXER_TYPE_MPEG4_ES :: int where "DEMUXER_TYPE_MPEG4_ES \<equiv> 24"

subsection \<open>It is a source of units\<close>

context byte_source
begin

definition es_ok :: "int \<Rightarrow> ('d, 'q) sdemuxer \<Rightarrow> bool" where
  "es_ok type d \<longleftrightarrow> inv (dm_stream d) \<and> eof_at_end (dm_stream d) \<and> dm_file_format d = type"

lemma es_frame: "demux_setup d = demux_setup d' \<Longrightarrow> es_ok type d' = es_ok type d"
  using raw_frame(1) [of d d'] by (auto simp: es_ok_def demux_setup_def)

lemma es_fill:
  assumes "es_ok type d" and "demux_mpg_es_fill_buffer junk drv d s = Some (r, ps, p)"
  shows "es_ok type (d\<lparr>dm_priv := p\<rparr>)" "\<forall>(t, dp)\<in>set ps. packet_ok dp"
    "raw_rest d Video = packets_for Video ps @ raw_rest (d\<lparr>dm_priv := p\<rparr>) Video" "\<not> r \<Longrightarrow> raw_rest d Video = []"
    "r \<Longrightarrow> packet_data (snd (hd ps)) = [] \<Longrightarrow> raw_rest d Video = []" "ps = (if r then [(Video, snd (hd ps))] else [])"
proof -
  from assms(1) have inv: "inv (dm_stream d)" "eof_at_end (dm_stream d)" and type: "dm_file_format d = type"
    unfolding es_ok_def by blast+
  have "es_ok type (d\<lparr>dm_priv := p\<rparr>) \<and> (\<forall>(t, dp)\<in>set ps. packet_ok dp) \<and>
    raw_rest d Video = packets_for Video ps @ raw_rest (d\<lparr>dm_priv := p\<rparr>) Video \<and> (\<not> r \<longrightarrow> raw_rest d Video = []) \<and>
    (r \<longrightarrow> packet_data (snd (hd ps)) = [] \<longrightarrow> raw_rest d Video = []) \<and> ps = (if r then [(Video, snd (hd ps))] else [])"
  proof (cases "s_eof (st_of (dm_stream d))")
    case True
    then have "r = False" "ps = []" "p = dm_priv d" using assms(2) by (auto simp: demux_mpg_es_fill_buffer_def)
    then show ?thesis using assms(1) inv True by (simp add: raw_rest_def eof_at_end_def nat_le_iff)
  next
    case False
    let ?q = "pos (dm_stream d)"
    have "do { dp \<leftarrow> new_demux_packet junk STREAM_BUFFER_SIZE; x \<leftarrow> read_packet junk drv (dm_stream d) STREAM_BUFFER_SIZE dp;
        Some (True, [(Video, (fst x)\<lparr>dp_pts := 0, dp_pos := ?q, dp_keyframe := False\<rparr>)], (snd x, snd (dm_priv d))) } = Some (r, ps, p)"
      using assms(2) False by (simp add: demux_mpg_es_fill_buffer_def ds_read_packet_def Let_def case_prod_unfold)
    then obtain dp where "do { x \<leftarrow> read_packet junk drv (dm_stream d) STREAM_BUFFER_SIZE dp;
        Some (True, [(Video, (fst x)\<lparr>dp_pts := 0, dp_pos := ?q, dp_keyframe := False\<rparr>)], (snd x, snd (dm_priv d))) } = Some (r, ps, p)"
      by (rule bind_eq_SomeE)
    then obtain x where x: "read_packet junk drv (dm_stream d) STREAM_BUFFER_SIZE dp = Some x"
      "Some (True, [(Video, (fst x)\<lparr>dp_pts := 0, dp_pos := ?q, dp_keyframe := False\<rparr>)], (snd x, snd (dm_priv d))) = Some (r, ps, p)"
      by (rule bind_eq_SomeE)
    obtain e st where e: "x = (e, st)" by (cases x)
    have e': "r" "ps = [(Video, e\<lparr>dp_pts := 0, dp_pos := ?q, dp_keyframe := False\<rparr>)]" "p = (st, snd (dm_priv d))"
      using x(2) e by auto
    have "(0 :: int) \<le> STREAM_BUFFER_SIZE" by simp
    note q = read_packet_ok [OF inv x(1) [unfolded e] this]
    have "packets_for Video ps = packet_data e" "\<forall>(t, dp)\<in>set ps. packet_ok dp"
      using q(1) e' by (simp_all add: packet_data_def packet_ok_def)
    moreover have "packet_data (snd (hd ps)) = [] \<longrightarrow> raw_rest d Video = []"
      using q(2) e'(2) by (simp add: raw_rest_def packet_data_def nat_le_iff)
    ultimately show ?thesis using q(3,4,7) e' type by (simp add: es_ok_def raw_rest_def)
  qed
  then show "es_ok type (d\<lparr>dm_priv := p\<rparr>)" "\<forall>(t, dp)\<in>set ps. packet_ok dp"
    "raw_rest d Video = packets_for Video ps @ raw_rest (d\<lparr>dm_priv := p\<rparr>) Video" "\<not> r \<Longrightarrow> raw_rest d Video = []"
    "r \<Longrightarrow> packet_data (snd (hd ps)) = [] \<Longrightarrow> raw_rest d Video = []" "ps = (if r then [(Video, snd (hd ps))] else [])" by blast+
qed

end

sublocale byte_source \<subseteq> es: demux_source "demux_mpg_es_fill_buffer junk drv" "{Video}" "es_ok type" raw_rest
  for junk :: "nat \<Rightarrow> char" and type :: int
proof (unfold_locales, goal_cases)
  case (1 s d r ps p)
  then show ?case using es_fill(1-4) [OF 1(2,3)] by auto
next
  case (2 d d')
  then show ?case using raw_frame(2) [OF 2(1)] es_frame [OF 2(1)] by simp
qed

sublocale byte_source \<subseteq> es_lazy: lazy_demux_source "demux_mpg_es_fill_buffer junk drv" "{Video}" "es_ok type" raw_rest
  for junk :: "nat \<Rightarrow> char" and type :: int
  by unfold_locales (use es_fill(6) in blast)

sublocale byte_source \<subseteq> es_full: full_demux_source "demux_mpg_es_fill_buffer junk drv" "{Video}" "es_ok type" raw_rest
  for junk :: "nat \<Rightarrow> char" and type :: int
proof (unfold_locales, goal_cases)
  case (1 s d ps p)
  then show ?case using es_fill(3,5) [OF 1(2,3)] by simp
qed

context steady_source
begin

lemma es_returns:
  assumes "es_ok type d"
  shows "\<exists>r ps p. demux_mpg_es_fill_buffer junk drv d s = Some (r, ps, p) \<and> (r \<longrightarrow> raw_rank (d\<lparr>dm_priv := p\<rparr>) < raw_rank d)"
proof -
  have inv: "inv (dm_stream d)" "eof_at_end (dm_stream d)" using assms by (simp_all add: es_ok_def)
  show ?thesis
  proof (cases "s_eof (st_of (dm_stream d))")
    case True
    then show ?thesis by (auto simp: demux_mpg_es_fill_buffer_def)
  next
    case False
    obtain dp where dp: "new_demux_packet junk STREAM_BUFFER_SIZE = Some dp"
      by (simp add: new_demux_packet_def create_packet_def too_large_def)
    have n: "(0 :: int) < STREAM_BUFFER_SIZE" "STREAM_BUFFER_SIZE \<le> (1000000000 :: int)" by simp_all
    have "STREAM_BUFFER_SIZE \<le> int (length (dp_buffer dp))" using new_packet_fits [OF dp] by simp
    from read_packet_returns [OF inv False n this, of junk] obtain dp' st' where
      r: "read_packet junk drv (dm_stream d) STREAM_BUFFER_SIZE dp = Some (dp', st')"
      "s_eof (st_of st') \<or> length content - nat (pos st') < length content - nat (pos (dm_stream d))" by blast
    have "\<exists>x. demux_mpg_es_fill_buffer junk drv d s = Some (True, x, (st', snd (dm_priv d)))"
      using dp r(1) False by (simp add: demux_mpg_es_fill_buffer_def ds_read_packet_def Let_def)
    then show ?thesis using r(2) False by (auto simp: raw_rank_def)
  qed
qed

end

sublocale steady_source \<subseteq> es_end: finite_demux_source "demux_mpg_es_fill_buffer junk drv" "{Video}" "es_ok type" raw_rest raw_rank
  for junk :: "nat \<Rightarrow> char" and type :: int
  by unfold_locales (use es_returns raw_rank_frame in \<open>auto\<close>)

sublocale steady_source \<subseteq> es_units: es_source "demux_mpg_es_fill_buffer junk drv" "{Video}" "es_ok type" raw_rest raw_rank
  for junk :: "nat \<Rightarrow> char" and type :: int
  by unfold_locales

subsection \<open>Opening a file\<close>

text \<open>The descriptions of the demuxers for the three types of files; none of them looks at the file.\<close>

definition es_desc :: "string \<Rightarrow> int \<Rightarrow> ('d, 'q) demuxer_desc" where
  "es_desc name type =
     \<lparr>dd_name = name, dd_type = type, dd_safe_check = False, dd_check_file = None,
      dd_open = Some (\<lambda>d. (demux_mpg_es_open d, dm_stream d))\<rparr>"

definition es_demuxers :: "('d, 'q) demuxer_desc list" where
  "es_demuxers = [es_desc ''mpeges'' DEMUXER_TYPE_MPEG_ES, es_desc ''mpeg4es'' DEMUXER_TYPE_MPEG4_ES, es_desc ''h264es'' DEMUXER_TYPE_H264_ES]"

definition open_es :: "int \<Rightarrow> file_state \<Rightarrow> ((file_state, unit) sdemuxer option \<times> file_state cstream) option" where
  "open_es type f = demux_open_stream file_driver () es_demuxers (-1, -1, -1) False None type False (no_cache (open_file f))"

lemma es_opened:
  assumes "\<forall>r\<in>set (f_reads f). 0 < r" and "f_off f = 0" and "type \<in> {DEMUXER_TYPE_MPEG_ES, DEMUXER_TYPE_MPEG4_ES, DEMUXER_TYPE_H264_ES}"
  shows "\<exists>d st. open_es type f = Some (Some d, st) \<and> fsource.plain.es_ok (f_data f) type d \<and> fresh_queues d \<and>
     stream_tell (st_of (dm_stream d)) = 0 \<and> dm_file_format d = type"
proof -
  from seek_file_start [OF assms(1,2)] obtain st where st: "stream_seek file_driver (no_cache (open_file f)) 0 = Some (1, st)"
    "plain_ok (f_data f) st" "stream_tell (st_of st) = 0" "s_eof (st_of st) \<longrightarrow> f_data f = []" by blast
  have s0: "s_start_pos (st_of (no_cache (open_file f))) = 0" by (simp add: no_cache_def open_file_def new_stream_def)
  then obtain d where nd: "new_demuxer file_driver () (no_cache (open_file f)) type (-1) (-1) (-1) = Some d"
    using st(1) by (simp add: new_demuxer_def)
  note n = fresh_new_demuxer [OF nd]
  have priv: "dm_priv d = (st, ())" using n(4) st(1) s0 by simp
  obtain d' where o: "demux_mpg_es_open d = Some d'"
    "dm_priv d' = (st, ())" "dm_audio d' = (dm_audio d)\<lparr>ds_sh := None\<rparr>" "dm_sub d' = dm_sub d"
    "dm_video d' = (dm_video d)\<lparr>ds_sh := Some 0\<rparr>"
    using n(3) priv by (simp add: demux_mpg_es_open_def new_sh_video_vid_def)
  have fr: "ds_first (ds_of t d) = []" "unread (ds_of t d) = []" "ds_ok (ds_of t d)" for t
    using n(1) by (simp_all add: fresh_queues_def)
  let ?d = "d'\<lparr>dm_file_format := type\<rparr>"
  have "unread (dm_video d') = unread (dm_video d)" "ds_ok (dm_video d') = ds_ok (dm_video d)"
    "unread (dm_audio d') = unread (dm_audio d)" "ds_ok (dm_audio d') = ds_ok (dm_audio d)"
    by (rule fresh_changed; simp add: o(3,5))+
  then have "ds_first (ds_of t ?d) = [] \<and> unread (ds_of t ?d) = [] \<and> ds_ok (ds_of t ?d)" for t
    using fr [of t] o(3-5) by (cases t) simp_all
  then have "fresh_queues ?d" by (simp add: fresh_queues_def)
  moreover have "fsource.plain.es_ok (f_data f) type ?d"
    using o st by (simp add: fsource.plain.es_ok_def fsource.plain.eof_at_end_def)
  moreover have "\<exists>name. get_demuxer_desc_from_type es_demuxers type = Some (es_desc name type)"
    using assms(3) by (auto simp: get_demuxer_desc_from_type_def es_demuxers_def es_desc_def)
  then obtain name where "get_demuxer_desc_from_type es_demuxers type = Some (es_desc name type :: (file_state, unit) demuxer_desc)" by blast
  then have "open_es type f = Some (Some ?d, st)"
    using assms(3) nd o(1,2) priv by (auto simp: open_es_def demux_open_stream_def open_given_type.simps es_desc_def)
  ultimately show ?thesis using o(2) st(3) by auto
qed

end
