(* ===== verification/Video.thy ===== *)
theory Video
  imports Demux_ES Mpeg_Hdr
begin

text \<open>
  From elementary streams to frames (\<open>libmpdemux/video.c\<close>): the headers that are looked for
  when a stream is opened, and the units that make up a frame. The global variables are a
  record; the stream header is passed along. \<open>None\<close> is an access outside a buffer. The
  arithmetic on frame rates and times is floating point, whose operations are a record of
  functions; the closed captions handed on and the clock of the decoder are left out.
\<close>

subsection \<open>Codecs\<close>

abbreviation (input) DEMUXER_TYPE_PVA :: int where "DEMUXER_TYPE_PVA \<equiv> 20"
abbreviation (input) DEMUXER_TYPE_MPEG_TS :: int where "DEMUXER_TYPE_MPEG_TS \<equiv> 26"
abbreviation (input) DEMUXER_TYPE_MPEG_TY :: int where "DEMUXER_TYPE_MPEG_TY \<equiv> 30"
abbreviation (input) DEMUXER_TYPE_MPEG_PES :: int where "DEMUXER_TYPE_MPEG_PES \<equiv> 38"
abbreviation (input) DEMUXER_TYPE_MPEG_GXF :: int where "DEMUXER_TYPE_MPEG_GXF \<equiv> 39"

datatype video_codec = VIDEO_MPEG12 | VIDEO_MPEG4 | VIDEO_H264 | VIDEO_VC1 | VIDEO_OTHER

definition find_video_codec :: "int \<Rightarrow> sh_video \<Rightarrow> video_codec" where
  "find_video_codec fmt sh =
     (let f = sv_format sh; program = (fmt = DEMUXER_TYPE_MPEG_PS \<or> fmt = DEMUXER_TYPE_MPEG_TS)
      in if fmt \<in> {DEMUXER_TYPE_PVA, DEMUXER_TYPE_MPEG_ES, DEMUXER_TYPE_MPEG_GXF, DEMUXER_TYPE_MPEG_PES, DEMUXER_TYPE_MPEG_TY} \<or>
            program \<and> f \<in> {0, 0x10000001, 0x10000002}
         then VIDEO_MPEG12
         else if fmt = DEMUXER_TYPE_MPEG4_ES \<or> program \<and> f = 0x10000004 then VIDEO_MPEG4
         else if fmt = DEMUXER_TYPE_H264_ES \<or> program \<and> f = 0x10000005 then VIDEO_H264
         else if program \<and> f = 0x31435657 then VIDEO_VC1
         else if fmt = DEMUXER_TYPE_ASF \<and> (case sv_bih sh of None \<Rightarrow> False | Some b \<Rightarrow> biCompression b = 0x20525644) then VIDEO_MPEG12
         else VIDEO_OTHER)"

subsection \<open>State\<close>

text \<open>
  Floating point: the quotient of two unsigned numbers, a half, the reciprocal, \<open>fps * n / d\<close>,
  the inequality, the drift of \<open>telecine_cnt\<close> by the display time of a picture, the tests for
  leaving (\<open>< -1.5\<close> or \<open>> 1.5\<close>) and entering (between \<open>-0.5\<close> and \<open>0.5\<close>) telecine, and the
  products with 4/5 and 5/4.
\<close>

record float_ops =
  fl_quot :: "32 word \<Rightarrow> 32 word \<Rightarrow> 32 word"
  fl_half :: "32 word \<Rightarrow> 32 word"
  fl_recip :: "32 word \<Rightarrow> 32 word"
  fl_scale :: "32 word \<Rightarrow> int \<Rightarrow> int \<Rightarrow> 32 word"
  fl_differs :: "32 word \<Rightarrow> 32 word \<Rightarrow> bool"
  fl_positive :: "32 word \<Rightarrow> bool"
  fl_drift :: "32 word \<Rightarrow> int \<Rightarrow> 32 word"
  fl_leaves :: "32 word \<Rightarrow> bool"
  fl_enters :: "32 word \<Rightarrow> bool"
  fl_slower :: "32 word \<Rightarrow> 32 word"
  fl_longer :: "32 word \<Rightarrow> 32 word"

text \<open>\<open>telecine_cnt\<close> begins as -2.5.\<close>

record video_state =
  vs_es :: es_parser
  vs_picture :: mp_mpeg_header
  vs_telecine :: bool
  vs_telecine_cnt :: "32 word"

definition initial_video :: video_state where
  "initial_video =
     \<lparr>vs_es = \<lparr>videobuffer = [], videobuf_len = 0, next_nal = -1, videobuf_code_len = 0\<rparr>, vs_picture = zero_picture,
      vs_telecine = False, vs_telecine_cnt = 0xC0200000\<rparr>"

text \<open>\<open>videobuffer\<close> is allocated once; it is zero behind its size.\<close>

definition alloc_videobuffer :: "(nat \<Rightarrow> char) \<Rightarrow> es_parser \<Rightarrow> es_parser" where
  "alloc_videobuffer junk es =
     (if videobuffer es = []
      then es\<lparr>videobuffer := map junk [0..<nat VIDEOBUFFER_SIZE] @ replicate (nat MP_INPUT_BUFFER_PADDING_SIZE) (CHR 0x00)\<rparr> else es)"

definition float_zero :: "32 word \<Rightarrow> bool" where
  "float_zero f \<longleftrightarrow> f = 0 \<or> f = 0x80000000"

text \<open>The kind of a unit of H.264, without its reference bits.\<close>

definition nal_type :: "int \<Rightarrow> int" where
  "nal_type i = and i (-0x61)"

subsection \<open>Looking for headers\<close>

text \<open>
  The loop in which the headers are looked for: units are skipped or read until \<open>found\<close> says
  yes to the code of the next one; \<open>False\<close> if there is no more.
\<close>

partial_function (option) find_unit ::
  "'p fill \<Rightarrow> (int \<Rightarrow> bool) \<Rightarrow> bool \<Rightarrow> es_parser \<Rightarrow> 'p demuxer \<Rightarrow> (bool \<times> es_parser \<times> 'p demuxer) option"
where
  "find_unit fill found skip es d =
     do {
       (i, es, d) \<leftarrow> sync_video_packet fill Video es d;
       if found i then Some (True, es, d)
       else if i = 0 then Some (False, es, d)
       else do {
         (r, es, d) \<leftarrow> (if skip then skip_video_packet fill Video es d else read_video_packet fill Video es d);
         if r = 0 then Some (False, es, d) else find_unit fill found skip es d } }"

declare find_unit.simps [code]

text \<open>Looking for a unit and reading it; \<open>None\<close> inside if either fails, else its place.\<close>

definition find_and_read ::
  "'p fill \<Rightarrow> (nat \<Rightarrow> char) \<Rightarrow> (int \<Rightarrow> bool) \<Rightarrow> bool \<Rightarrow> es_parser \<Rightarrow> 'p demuxer \<Rightarrow> (int option \<times> es_parser \<times> 'p demuxer) option"
where
  "find_and_read fill junk found skip es d =
     do {
       (r, es, d) \<leftarrow> find_unit fill found skip es d;
       if \<not> r then Some (None, es, d)
       else do {
         let es = alloc_videobuffer junk es;
         let pos = videobuf_len es + 4;
         (n, es, d) \<leftarrow> read_video_packet fill Video es d;
         Some (if n = 0 then None else Some pos, es, d) } }"

definition header_at :: "int \<Rightarrow> es_parser \<Rightarrow> string" where
  "header_at pos es = drop (nat pos) (videobuffer es)"

definition unsynced :: "es_parser \<Rightarrow> es_parser" where
  "unsynced es = es\<lparr>videobuf_len := 0, videobuf_code_len := 0\<rparr>"

text \<open>The units of time between three pictures: the smaller of the two distances.\<close>

definition time_distance :: "int \<Rightarrow> int \<Rightarrow> int \<Rightarrow> int" where
  "time_distance a b c =
     (let mn = min a (min b c); mx = max a (max b c);
          md = foldl (\<lambda>md u. if mn < u \<and> u < mx then u else md) mn [a, b, c]
      in if md - mn < mx - md then md - mn else mx - md)"

text \<open>From the layer header to the planes; three planes are read if the rate is not known.\<close>

fun mpeg4_planes ::
  "'p fill \<Rightarrow> (nat \<Rightarrow> char) \<Rightarrow> nat \<Rightarrow> int list \<Rightarrow> video_state \<Rightarrow> sh_video \<Rightarrow> 'p demuxer \<Rightarrow> ((int list \<times> video_state \<times> sh_video) option \<times> video_state \<times> 'p demuxer) option"
where
  "mpeg4_planes fill junk 0 units vs sh d = Some (Some (units, vs, sh), vs, d)"
| "mpeg4_planes fill junk (Suc k) units vs sh d =
     do {
       (r, es, d) \<leftarrow> find_and_read fill junk (\<lambda>i. i = 0x1B6) False (vs_es vs) d;
       case r of
         None \<Rightarrow> Some (None, vs\<lparr>vs_es := es\<rparr>, d)
       | Some pos \<Rightarrow> do {
           p \<leftarrow> mp4_header_process_vop (vs_picture vs) (header_at pos es);
           let vs = vs\<lparr>vs_es := es, vs_picture := p\<rparr>;
           let sh = sh\<lparr>sv_disp_w := display_picture_width p, sv_disp_h := display_picture_height p\<rparr>;
           let units = units @ [sint (timeinc_unit p)];
           if float_zero (fps p) then mpeg4_planes fill junk k units vs sh d else Some (Some (units, vs, sh), vs, d) } }"

definition mpeg4_properties ::
  "float_ops \<Rightarrow> 'p fill \<Rightarrow> (nat \<Rightarrow> char) \<Rightarrow> video_state \<Rightarrow> sh_video \<Rightarrow> 'p demuxer \<Rightarrow> (bool \<times> video_state \<times> sh_video \<times> 'p demuxer) option"
where
  "mpeg4_properties fl fill junk vs sh d =
     do {
       (r, es, d) \<leftarrow> find_unit fill (\<lambda>i. i \<le> 0x11F) True (unsynced (vs_es vs)) d;
       if \<not> r then Some (False, vs\<lparr>vs_es := es\<rparr>, sh, d)
       else do {
         (r, es, d) \<leftarrow> find_and_read fill junk (\<lambda>i. 0x120 \<le> i \<and> i \<le> 0x12F) False (alloc_videobuffer junk es) d;
         case r of
           None \<Rightarrow> Some (False, vs\<lparr>vs_es := es\<rparr>, sh, d)
         | Some pos \<Rightarrow> do {
             p \<leftarrow> mp4_header_process_vol (fl_quot fl) (vs_picture vs) (header_at pos es);
             (planes, vs, d) \<leftarrow> mpeg4_planes fill junk 3 [] (vs\<lparr>vs_es := es, vs_picture := p\<rparr>) sh d;
             case planes of
               None \<Rightarrow> Some (False, vs, sh, d)
             | Some (units, vs, sh) \<Rightarrow>
                 (let p = vs_picture vs;
                      diff = (case units of [a, b, c] \<Rightarrow> time_distance a b c | _ \<Rightarrow> 0);
                      p = (if float_zero (fps p) \<and> 0 < diff
                           then p\<lparr>fps := fl_quot fl (timeinc_resolution p) (word_of_int diff)\<rparr> else p);
                      sh = (if \<not> float_zero (fps p) then sh\<lparr>sv_fps := fps p, sv_frametime := fl_recip fl (fps p)\<rparr> else sh)
                  in Some (True, vs\<lparr>vs_picture := p\<rparr>, sh\<lparr>sv_format := 0x10000004\<rparr>, d)) } } }"

definition h264_properties ::
  "float_ops \<Rightarrow> 'p fill \<Rightarrow> (nat \<Rightarrow> char) \<Rightarrow> video_state \<Rightarrow> sh_video \<Rightarrow> 'p demuxer \<Rightarrow> (bool \<times> video_state \<times> sh_video \<times> 'p demuxer) option"
where
  "h264_properties fl fill junk vs sh d =
     do {
       (r, es, d) \<leftarrow> find_and_read fill junk (\<lambda>i. nal_type i = 0x107 \<and> i \<noteq> 0x107) True (unsynced (vs_es vs)) d;
       case r of
         None \<Rightarrow> Some (False, vs\<lparr>vs_es := es\<rparr>, sh, d)
       | Some pos \<Rightarrow> do {
           (_, p, buf) \<leftarrow> h264_parse_sps (fl_quot fl) (fl_half fl) (vs_picture vs) (header_at pos es) (videobuf_len es - pos);
           let es = es\<lparr>videobuffer := take (nat pos) (videobuffer es) @ buf\<rparr>;
           let vs = vs\<lparr>vs_picture := p\<rparr>;
           let sh = sh\<lparr>sv_disp_w := display_picture_width p, sv_disp_h := display_picture_height p\<rparr>;
           (r, es, d) \<leftarrow> find_unit fill (\<lambda>i. nal_type i = 0x108 \<and> i \<noteq> 0x108) False es d;
           if \<not> r then Some (False, vs\<lparr>vs_es := es\<rparr>, sh, d)
           else do {
             (r, es, d) \<leftarrow> find_unit fill (\<lambda>i. nal_type i \<in> {0x101, 0x102, 0x105}) False es d;
             let vs = vs\<lparr>vs_es := es\<rparr>;
             if \<not> r then Some (False, vs, sh, d)
             else (let sh = sh\<lparr>sv_format := 0x10000005\<rparr>
                   in Some (True, vs, if \<not> float_zero (fps p) then sh\<lparr>sv_fps := fps p, sv_frametime := fl_recip fl (fps p)\<rparr> else sh, d)) } } }"

text \<open>A bad sequence header makes the search begin anew.\<close>

partial_function (option) sequence_header ::
  "'p fill \<Rightarrow> (nat \<Rightarrow> char) \<Rightarrow> video_state \<Rightarrow> 'p demuxer \<Rightarrow> (bool \<times> video_state \<times> 'p demuxer) option"
where
  "sequence_header fill junk vs d =
     do {
       (r, es, d) \<leftarrow> find_and_read fill junk (\<lambda>i. i = 0x1B3) True (unsynced (vs_es vs)) d;
       let vs = vs\<lparr>vs_es := es, vs_telecine := False, vs_telecine_cnt := 0xC0200000\<rparr>;
       case r of
         None \<Rightarrow> Some (False, vs, d)
       | Some _ \<Rightarrow> do {
           (bad, p) \<leftarrow> mp_header_process_sequence_header (vs_picture vs) (header_at 4 es);
           let vs = vs\<lparr>vs_picture := p\<rparr>;
           if bad \<noteq> 0 then sequence_header fill junk vs d else Some (True, vs, d) } }"

declare sequence_header.simps [code]

definition mpeg12_properties ::
  "float_ops \<Rightarrow> 'p fill \<Rightarrow> (nat \<Rightarrow> char) \<Rightarrow> video_state \<Rightarrow> sh_video \<Rightarrow> 'p demuxer \<Rightarrow> (bool \<times> video_state \<times> sh_video \<times> 'p demuxer) option"
where
  "mpeg12_properties fl fill junk vs sh d =
     do {
       (r, vs, d) \<leftarrow> sequence_header fill junk vs d;
       if \<not> r then Some (False, vs, sh, d)
       else do {
         (i, es, d) \<leftarrow> sync_video_packet fill Video (vs_es vs) d;
         let pos = videobuf_len es;
         (ok, vs, d) \<leftarrow>
           (if i = 0x1B5
            then do {
              (n, es, d) \<leftarrow> read_video_packet fill Video es d;
              if n = 0 then Some (False, vs\<lparr>vs_es := es\<rparr>, d)
              else do {
                (bad, p) \<leftarrow> mp_header_process_extension (vs_picture vs) (header_at (pos + 4) es);
                Some (bad = 0, vs\<lparr>vs_es := es, vs_picture := p\<rparr>, d) } }
            else Some (True, vs\<lparr>vs_es := es\<rparr>, d));
         if \<not> ok then Some (False, vs, sh, d)
         else
           (let p = vs_picture vs; f = fl_scale fl (fps p) (frame_rate_extension_n p) (frame_rate_extension_d p);
                sh = sh\<lparr>sv_format := (if mpeg1 p then 0x10000001 else 0x10000002), sv_fps := f,
                       sv_frametime := (if float_zero f then 0 else fl_recip fl f),
                       sv_disp_w := display_picture_width p, sv_disp_h := display_picture_height p\<rparr>;
                sh = (if bitrate p \<noteq> 0x3FFFF then sh\<lparr>sv_i_bps := bitrate p * 400 sdiv 8\<rparr> else sh)
            in Some (True, vs, sh, d)) } }"

definition vc1_properties ::
  "float_ops \<Rightarrow> 'p fill \<Rightarrow> (nat \<Rightarrow> char) \<Rightarrow> video_state \<Rightarrow> sh_video \<Rightarrow> 'p demuxer \<Rightarrow> (bool \<times> video_state \<times> sh_video \<times> 'p demuxer) option"
where
  "vc1_properties fl fill junk vs sh d =
     do {
       (r, es, d) \<leftarrow> find_and_read fill junk (\<lambda>i. i = 0x10F) True (unsynced (vs_es vs)) d;
       if r = None then Some (False, vs\<lparr>vs_es := es\<rparr>, sh, d)
       else do {
         (r, es, d) \<leftarrow> find_and_read fill junk (\<lambda>i. i = 0x10E) True es d;
         if r = None then Some (False, vs\<lparr>vs_es := es\<rparr>, sh, d)
         else do {
           (ok, p, buf) \<leftarrow> mp_vc1_decode_sequence_header (fl_quot fl) (vs_picture vs) (header_at 4 es) (videobuf_len es - 4);
           let vs = vs\<lparr>vs_es := es\<lparr>videobuffer := take 4 (videobuffer es) @ buf\<rparr>, vs_picture := p\<rparr>;
           if ok = 0 then Some (True, vs, sh, d)
           else
             (let w = display_picture_width p; h = display_picture_height p;
                  sh = sh\<lparr>sv_bih := Some \<lparr>biCompression = sv_format sh, biWidth = w, biHeight = h\<rparr>, sv_disp_w := w, sv_disp_h := h\<rparr>
              in Some (True, vs, if fl_positive fl (fps p) then sh\<lparr>sv_frametime := fl_recip fl (fps p), sv_fps := fps p\<rparr> else sh, d)) } } }"

definition video_read_properties ::
  "float_ops \<Rightarrow> 'p fill \<Rightarrow> (nat \<Rightarrow> char) \<Rightarrow> video_state \<Rightarrow> sh_video \<Rightarrow> 'p demuxer \<Rightarrow> (bool \<times> video_state \<times> sh_video \<times> 'p demuxer) option"
where
  "video_read_properties fl fill junk vs sh d =
     (case find_video_codec (dm_file_format d) sh of
        VIDEO_OTHER \<Rightarrow>
          if dm_file_format d = DEMUXER_TYPE_ASF \<or> dm_file_format d = DEMUXER_TYPE_AVI
          then (case sv_bih sh of
                  None \<Rightarrow> Some (False, vs, sh, d)
                | Some b \<Rightarrow> Some (True, vs, sh\<lparr>sv_format := biCompression b, sv_disp_w := biWidth b, sv_disp_h := \<bar>biHeight b\<bar>\<rparr>, d))
          else Some (True, vs, sh, d)
      | VIDEO_MPEG4 \<Rightarrow> mpeg4_properties fl fill junk vs sh d
      | VIDEO_H264 \<Rightarrow> h264_properties fl fill junk vs sh d
      | VIDEO_MPEG12 \<Rightarrow>
          if dm_file_format d = DEMUXER_TYPE_ASF
          then (case sv_bih sh of
                  None \<Rightarrow> Some (False, vs, sh, d)
                | Some b \<Rightarrow> mpeg12_properties fl fill junk vs (sh\<lparr>sv_format := biCompression b\<rparr>) d)
          else mpeg12_properties fl fill junk vs sh d
      | VIDEO_VC1 \<Rightarrow> vc1_properties fl fill junk vs sh d)"

subsection \<open>Frames\<close>

abbreviation (input) MAX_VIDEO_PACKET_SIZE :: int where "MAX_VIDEO_PACKET_SIZE \<equiv> 224 * 1024 + 4"

datatype frame_step = Frame_eof | Frame_end | Frame_goes_on

text \<open>The loop all codecs have: units are added as long as there is space for one more.\<close>

partial_function (option) frame_loop :: "('s \<Rightarrow> (frame_step \<times> 's) option) \<Rightarrow> ('s \<Rightarrow> int) \<Rightarrow> 's \<Rightarrow> (bool \<times> 's) option" where
  "frame_loop step len s =
     (if len s < VIDEOBUFFER_SIZE - MAX_VIDEO_PACKET_SIZE
      then do {
        (r, s) \<leftarrow> step s;
        case r of
          Frame_eof \<Rightarrow> Some (False, s)
        | Frame_end \<Rightarrow> Some (True, s)
        | Frame_goes_on \<Rightarrow> frame_loop step len s }
      else Some (True, s))"

declare frame_loop.simps [code]

text \<open>MPEG-4 and VC-1: up to the unit of a picture.\<close>

definition coded_unit :: "'p fill \<Rightarrow> int \<Rightarrow> es_parser \<times> 'p demuxer \<Rightarrow> (frame_step \<times> es_parser \<times> 'p demuxer) option" where
  "coded_unit fill picture_code s =
     do {
       (i, es, d) \<leftarrow> sync_video_packet fill Video (fst s) (snd s);
       if i = 0 then Some (Frame_eof, es, d)
       else do {
         (n, es, d) \<leftarrow> read_video_packet fill Video es d;
         Some (if n = 0 then Frame_eof else if i = picture_code then Frame_end else Frame_goes_on, es, d) } }"

text \<open>MPEG-1 and MPEG-2: headers, and slices up to the next unit that is none.\<close>

definition is_slice :: "int \<Rightarrow> bool" where
  "is_slice i \<longleftrightarrow> 0x101 \<le> i \<and> i < 0x1B0"

definition mpeg12_header :: "int \<Rightarrow> int \<Rightarrow> es_parser \<Rightarrow> int \<Rightarrow> mp_mpeg_header \<Rightarrow> (int \<times> mp_mpeg_header) option" where
  "mpeg12_header i start es picture_coding_type picture =
     (if i = 0x1B3 then map_option (\<lambda>(_, p). (picture_coding_type, p)) (mp_header_process_sequence_header picture (header_at start es))
      else if i = 0x1B5 then map_option (\<lambda>(_, p). (picture_coding_type, p)) (mp_header_process_extension picture (header_at start es))
      else if i = 0x100
      then do { b \<leftarrow> ubyte (header_at start es) 1; Some (uint (and (drop_bit 3 b) 7), picture) }
      else Some (picture_coding_type, picture))"

definition mpeg12_unit ::
  "'p fill \<Rightarrow> bool \<times> int \<times> video_state \<times> 'p demuxer \<Rightarrow> (frame_step \<times> bool \<times> int \<times> video_state \<times> 'p demuxer) option"
where
  "mpeg12_unit fill s =
     (case s of (in_frame, type, vs, d) \<Rightarrow>
        do {
          (i, es, d) \<leftarrow> sync_video_packet fill Video (vs_es vs) d;
          let start = videobuf_len es + 4;
          let vs = vs\<lparr>vs_es := es\<rparr>;
          if in_frame \<and> \<not> is_slice i then Some (if i = 0 then Frame_eof else Frame_end, in_frame, type, vs, d)
          else if \<not> in_frame \<and> i = 0 then Some (Frame_eof, in_frame, type, vs, d)
          else do {
            let d = (if \<not> in_frame \<and> i = 0x100 then d\<lparr>dm_video := (dm_video d)\<lparr>ds_pts := 0\<rparr>\<rparr> else d);
            (n, es, d) \<leftarrow> read_video_packet fill Video es d;
            let vs = vs\<lparr>vs_es := es\<rparr>;
            if n = 0 then Some (Frame_eof, in_frame \<or> is_slice i, type, vs, d)
            else do {
              (type, p) \<leftarrow> mpeg12_header i start es type (vs_picture vs);
              Some (Frame_goes_on, in_frame \<or> is_slice i, type, vs\<lparr>vs_picture := p\<rparr>, d) } } })"

text \<open>The frame rate after a frame, and telecine.\<close>

definition mpeg12_rate :: "float_ops \<Rightarrow> bool \<Rightarrow> video_state \<Rightarrow> sh_video \<Rightarrow> video_state \<times> sh_video" where
  "mpeg12_rate fl force_fps vs sh =
     (let p = vs_picture vs; f = fl_scale fl (fps p) (frame_rate_extension_n p) (frame_rate_extension_d p);
          sh = (if fl_differs fl (sv_fps sh) f \<and> \<not> force_fps \<and> \<not> vs_telecine vs then sh\<lparr>sv_fps := f, sv_frametime := fl_recip fl f\<rparr> else sh);
          cnt = fl_drift fl (vs_telecine_cnt vs) (display_time p);
          vs = vs\<lparr>vs_picture := p\<lparr>display_time := 100\<rparr>, vs_telecine_cnt := cnt\<rparr>
      in if vs_telecine vs then (vs\<lparr>vs_telecine := \<not> fl_leaves fl cnt\<rparr>, sh)
         else if fl_enters fl cnt \<and> \<not> force_fps
         then (vs\<lparr>vs_telecine := True\<rparr>, sh\<lparr>sv_fps := fl_slower fl (sv_fps sh), sv_frametime := fl_longer fl (sv_frametime sh)\<rparr>)
         else (vs, sh))"

text \<open>H.264: up to the first unit of the next access unit, which is looked at before it is read.\<close>

definition access_unit_ends :: "'p fill \<Rightarrow> es_parser \<Rightarrow> 'p demuxer \<Rightarrow> (bool \<times> es_parser \<times> 'p demuxer) option" where
  "access_unit_ends fill es d =
     do {
       (i, es, d) \<leftarrow> sync_video_packet fill Video es d;
       let k = nal_type i;
       if k = 0x106 \<or> k = 0x109 then Some (True, es, d)
       else if k \<in> {0x101, 0x102, 0x105}
       then do { (c, d) \<leftarrow> demux_peekc fill Video d; Some (and c 0x80 \<noteq> 0, es, d) }
       else Some (False, es, d) }"

definition h264_unit ::
  "float_ops \<Rightarrow> 'p fill \<Rightarrow> bool \<times> video_state \<times> sh_video \<times> 'p demuxer \<Rightarrow> (frame_step \<times> bool \<times> video_state \<times> sh_video \<times> 'p demuxer) option"
where
  "h264_unit fl fill s =
     (case s of (in_picture, vs, sh, d) \<Rightarrow>
        do {
          (i, es, d) \<leftarrow> sync_video_packet fill Video (vs_es vs) d;
          let pos = videobuf_len es + 4;
          if i = 0 then Some (Frame_eof, in_picture, vs\<lparr>vs_es := es\<rparr>, sh, d)
          else do {
            (n, es, d) \<leftarrow> read_video_packet fill Video es d;
            let vs = vs\<lparr>vs_es := es\<rparr>;
            if n = 0 then Some (Frame_eof, in_picture, vs, sh, d)
            else do {
              (i, vs, sh, d) \<leftarrow>
                (if nal_type i = 0x107 \<and> i \<noteq> 0x107
                 then do {
                   (_, p, buf) \<leftarrow> h264_parse_sps (fl_quot fl) (fl_half fl) (vs_picture vs) (header_at pos es) (videobuf_len es - pos);
                   let es = es\<lparr>videobuffer := take (nat pos) (videobuffer es) @ buf\<rparr>;
                   let sh = (if fl_positive fl (fps p) then sh\<lparr>sv_fps := fps p, sv_frametime := fl_recip fl (fps p)\<rparr> else sh);
                   (i, es, d) \<leftarrow> sync_video_packet fill Video es d;
                   if i = 0 then Some (0, vs\<lparr>vs_picture := p, vs_es := es\<rparr>, sh, d)
                   else do {
                     (n, es, d) \<leftarrow> read_video_packet fill Video es d;
                     Some (if n = 0 then 0 else i, vs\<lparr>vs_picture := p, vs_es := es\<rparr>, sh, d) } }
                 else Some (i, vs, sh, d));
              if i = 0 then Some (Frame_eof, in_picture, vs, sh, d)
              else do {
                let in_picture = (in_picture \<or> nal_type i \<in> {0x101, 0x102, 0x105});
                if \<not> in_picture then Some (Frame_goes_on, in_picture, vs, sh, d)
                else do {
                  (r, es, d) \<leftarrow> access_unit_ends fill (vs_es vs) d;
                  Some (if r then Frame_end else Frame_goes_on, in_picture, vs\<lparr>vs_es := es\<rparr>, sh, d) } } } } })"

text \<open>The frame is what the buffer has; \<open>None\<close> inside is the end of the file.\<close>

definition take_frame :: "es_parser \<Rightarrow> string \<times> es_parser" where
  "take_frame es = (take (nat (videobuf_len es)) (videobuffer es), es\<lparr>videobuf_len := 0\<rparr>)"

definition coded_frame :: "'p fill \<Rightarrow> int \<Rightarrow> es_parser \<Rightarrow> 'p demuxer \<Rightarrow> (string option \<times> es_parser \<times> 'p demuxer) option" where
  "coded_frame fill picture_code es d =
     do {
       (r, es, d) \<leftarrow> frame_loop (coded_unit fill picture_code) (\<lambda>(es, _). videobuf_len es) (es, d);
       if r then (let (f, es) = take_frame es in Some (Some f, es, d)) else Some (None, es, d) }"

definition video_read_frame ::
  "float_ops \<Rightarrow> 'p fill \<Rightarrow> bool \<Rightarrow> video_state \<Rightarrow> sh_video \<Rightarrow> 'p demuxer \<Rightarrow> (string option \<times> video_state \<times> sh_video \<times> 'p demuxer) option"
where
  "video_read_frame fl fill force_fps vs sh d =
     (case find_video_codec (dm_file_format d) sh of
        VIDEO_MPEG12 \<Rightarrow> do {
          (r, _, _, vs, d) \<leftarrow> frame_loop (mpeg12_unit fill) (\<lambda>(_, _, vs, _). videobuf_len (vs_es vs)) (False, 0, vs, d);
          if r
          then (let (f, es) = take_frame (vs_es vs); (vs, sh) = mpeg12_rate fl force_fps vs sh in Some (Some f, vs\<lparr>vs_es := es\<rparr>, sh, d))
          else Some (None, vs, sh, d) }
      | VIDEO_MPEG4 \<Rightarrow> do { (f, es, d) \<leftarrow> coded_frame fill 0x1B6 (vs_es vs) d; Some (f, vs\<lparr>vs_es := es\<rparr>, sh, d) }
      | VIDEO_H264 \<Rightarrow> do {
          (r, _, vs, sh, d) \<leftarrow> frame_loop (h264_unit fl fill) (\<lambda>(_, vs, _, _). videobuf_len (vs_es vs)) (False, vs, sh, d);
          if r then (let (f, es) = take_frame (vs_es vs) in Some (Some f, vs\<lparr>vs_es := es\<rparr>, sh, d)) else Some (None, vs, sh, d) }
      | VIDEO_VC1 \<Rightarrow> do { (f, es, d) \<leftarrow> coded_frame fill 0x10D (vs_es vs) d; Some (f, vs\<lparr>vs_es := es\<rparr>, sh, d) }
      | VIDEO_OTHER \<Rightarrow> do { (f, d) \<leftarrow> ds_get_packet fill Video d; Some (f, vs, sh, d) })"

end
