(* ===== verification/Video_Frames.thy ===== *)
theory Video_Frames
  imports Video
begin

text \<open>
  Frames of an elementary stream: a file that is a sequence of units, grouped into frames, is
  read frame by frame through its stream, the demuxer, the search for start codes and
  \<open>video_read_frame\<close>.
\<close>

subsection \<open>Streams of units\<close>

type_synonym es_unit = "char \<times> string"

definition unit_bytes :: "es_unit \<Rightarrow> string" where
  "unit_bytes u = start_code @ fst u # snd u"

definition units_bytes :: "es_unit list \<Rightarrow> string" where
  "units_bytes us = concat (map unit_bytes us)"

lemma units_bytes_simps [simp]:
  "units_bytes [] = []" "units_bytes (u # us) = unit_bytes u @ units_bytes us" "units_bytes (us @ vs) = units_bytes us @ units_bytes vs"
  by (simp_all add: units_bytes_def)

lemma length_unit_bytes [simp]: "length (unit_bytes u) = 4 + length (snd u)"
  by (simp add: unit_bytes_def start_code_def)

text \<open>A frame ends with its only unit that has the code of a picture, and fits the buffer.\<close>

definition is_frame :: "char \<Rightarrow> es_unit list \<Rightarrow> bool" where
  "is_frame pc us \<longleftrightarrow>
     us \<noteq> [] \<and> fst (last us) = pc \<and> list_all (\<lambda>u. fst u \<noteq> pc) (butlast us) \<and> list_all (\<lambda>u. no_code (snd u)) us \<and>
     int (length (units_bytes (butlast us))) < VIDEOBUFFER_SIZE - MAX_VIDEO_PACKET_SIZE \<and>
     int (length (units_bytes us)) + 3 \<le> VIDEOBUFFER_SIZE"

lemma code_or: "or 0x100 (int (byte c)) = 0x100 + int (byte c)"
proof -
  have "\<not> bit (0x100 :: int) n \<or> \<not> bit (int (byte c)) n" for n
  proof (cases "n = 8")
    case True
    have "int (byte c) div 256 = 0" by (simp add: byte_def)
    then show ?thesis using True by (simp add: bit_iff_odd)
  next
    case False
    have "(0x100 :: int) = 2 ^ 8" by simp
    then show ?thesis using False by (simp only: bit_exp_iff) simp
  qed
  then show ?thesis using disjunctive_add_eq_or [of "0x100 :: int" "int (byte c)"] by (simp add: bit_eq_iff bit_and_iff)
qed

text \<open>The buffer holds \<open>bs\<close>.\<close>

definition holds :: "es_parser \<Rightarrow> string \<Rightarrow> bool" where
  "holds es bs \<longleftrightarrow> videobuf_len es = int (length bs) \<and> take (length bs) (videobuffer es) = bs \<and> VIDEOBUFFER_SIZE \<le> int (length (videobuffer es))"

lemma holds_cong: "videobuffer es' = videobuffer es \<Longrightarrow> videobuf_len es' = videobuf_len es \<Longrightarrow> holds es' bs = holds es bs"
  by (simp add: holds_def)

context es_source
begin

text \<open>What is ahead: the first unit's code may have been read already.\<close>

definition units_ahead :: "es_unit list \<Rightarrow> es_parser \<Rightarrow> 'p demuxer \<Rightarrow> bool" where
  "units_ahead us es d \<longleftrightarrow>
     (case us of
        [] \<Rightarrow> videobuf_code_len es = 0 \<and> content d Video = []
      | (k, bs) # us \<Rightarrow>
          videobuf_code_len es = 4 \<and> next_nal es = int (byte k) \<and> content d Video = bs @ units_bytes us \<or>
          videobuf_code_len es = 0 \<and>
          (\<exists>junk. content d Video = junk @ units_bytes ((k, bs) # us) \<and> no_code junk \<and> int (length junk) + 3 \<le> MAX_SYNCLEN))"

lemma sync_unit:
  assumes "Video \<in> served" and "ok d" and "idle d" and "units_ahead ((k, bs) # us) es d"
  shows "\<exists>d'. sync_video_packet fill Video es d =
     Some (0x100 + int (byte k), es\<lparr>next_nal := int (byte k), videobuf_code_len := 4\<rparr>, d') \<and> ok d' \<and> idle d' \<and>
     content d' Video = bs @ units_bytes us"
proof (cases "videobuf_code_len es = 0")
  case False
  then have a: "next_nal es = int (byte k)" "videobuf_code_len es = 4" "content d Video = bs @ units_bytes us"
    using assms(4) by (auto simp: units_ahead_def)
  then have "es\<lparr>next_nal := int (byte k), videobuf_code_len := 4\<rparr> = es" by simp
  then show ?thesis using a assms(2,3) by (simp add: sync_video_packet_def code_or)
next
  case True
  then obtain junk where a: "content d Video = junk @ start_code @ k # (bs @ units_bytes us)" "no_code junk" "int (length junk) + 3 \<le> MAX_SYNCLEN"
    using assms(4) by (auto simp: units_ahead_def unit_bytes_def)
  from sync_ahead [OF assms(1-3) a True] show ?thesis by (simp add: code_or)
qed

lemma sync_no_unit:
  assumes "Video \<in> served" and "ok d" and "idle d" and "units_ahead [] es d"
  shows "\<exists>d'. sync_video_packet fill Video es d = Some (0, eof_out es, d')"
proof -
  have c: "videobuf_code_len es = 0" "content d Video = []" using assms(4) by (simp_all add: units_ahead_def)
  have "\<not> pattern_at 0x100 [] q" for q by (simp add: pattern_at_def)
  then have "no_code (content d Video)" using c(2) by (simp add: no_code_def)
  from no_code_ahead [OF assms(1-3) this, of MAX_SYNCLEN False] obtain out d1 where
    "demux_pattern_3 fill Video False MAX_SYNCLEN 0x100 d = Some ((False, int (length (content d Video)), out), d1)"
    using c(2) by auto
  then show ?thesis using c(1) by (auto simp: sync_video_packet_def)
qed

lemma read_ahead:
  assumes "Video \<in> served" and "ok d" and "idle d" and "content d Video = bs @ units_bytes us" and "no_code bs"
    and "next_nal es = int (byte k)" and "holds es old" and "int (length old) + 4 + int (length bs) + 3 \<le> VIDEOBUFFER_SIZE"
  shows "\<exists>es' d'. read_video_packet fill Video es d = Some (4 + int (length bs), es', d') \<and> holds es' (old @ unit_bytes (k, bs)) \<and>
     units_ahead us es' d' \<and> ok d' \<and> idle d'"
proof -
  have old: "videobuf_len es = int (length old)" "take (length old) (videobuffer es) = old" "VIDEOBUFFER_SIZE \<le> int (length (videobuffer es))"
    using assms(7) by (simp_all add: holds_def)
  have held: "holds es' (old @ unit_bytes (k, bs))" if "unit_read es k bs es'" for es'
  proof -
    have n: "videobuf_len es' = int (length (old @ unit_bytes (k, bs)))" using that old(1) by (simp add: unit_read_def)
    then have "nat (videobuf_len es') = length (old @ unit_bytes (k, bs))" by linarith
    then have "take (length (old @ unit_bytes (k, bs))) (videobuffer es') = old @ start_code @ k # bs"
      using that old(1,2) by (auto simp: unit_read_def)
    then show ?thesis using n that old(3) by (simp add: holds_def unit_read_def unit_bytes_def)
  qed
  have ge: "0 \<le> videobuf_len es" using old(1) by simp
  show ?thesis
  proof (cases us)
    case Nil
    then have c: "content d Video = bs" using assms(4) by simp
    have n: "no_code (content d Video)" "videobuf_len es + 4 + int (length (content d Video)) < VIDEOBUFFER_SIZE"
      using c assms(5,8) old(1) by simp_all
    from read_last_unit [OF assms(1-3) n(1) ge n(2) old(3) assms(6)] obtain es' d' where
      "read_video_packet fill Video es d = Some (4 + int (length bs), es', d')" "unit_read es k bs es'"
      "next_nal es' = -1" "videobuf_code_len es' = 0" "ok d'" "idle d'" "content d' Video = []"
      unfolding c by blast
    then show ?thesis using held Nil by (auto simp: units_ahead_def)
  next
    case (Cons u vs)
    obtain c cs where u: "u = (c, cs)" by (cases u)
    have ct: "content d Video = bs @ start_code @ c # (cs @ units_bytes vs)" using assms(4) Cons u by (simp add: unit_bytes_def)
    have n: "videobuf_len es + 4 + int (length bs) + 3 \<le> VIDEOBUFFER_SIZE" using assms(8) old(1) by simp
    from read_unit [OF assms(1-3) ct assms(5) ge n old(3) assms(6)] obtain es' d' where
      "read_video_packet fill Video es d = Some (4 + int (length bs), es', d')" "unit_read es k bs es'"
      "next_nal es' = int (byte c)" "videobuf_code_len es' = 4" "ok d'" "idle d'" "content d' Video = cs @ units_bytes vs"
      by blast
    then show ?thesis using held Cons u by (auto simp: units_ahead_def)
  qed
qed

lemma coded_unit_ahead:
  assumes "Video \<in> served" and "ok d" and "idle d" and "units_ahead (u # us) es d" and "no_code (snd u)"
    and "holds es old" and "int (length old) + int (length (unit_bytes u)) + 3 \<le> VIDEOBUFFER_SIZE"
  shows "\<exists>es' d'. coded_unit fill (0x100 + int (byte pc)) (es, d) = Some (if fst u = pc then Frame_end else Frame_goes_on, es', d') \<and>
     holds es' (old @ unit_bytes u) \<and> units_ahead us es' d' \<and> ok d' \<and> idle d'"
proof -
  obtain k bs where u: "u = (k, bs)" by (cases u)
  from sync_unit [OF assms(1-3), of k bs us es] assms(4) u obtain d1 where s:
    "sync_video_packet fill Video es d = Some (0x100 + int (byte k), es\<lparr>next_nal := int (byte k), videobuf_code_len := 4\<rparr>, d1)"
    "ok d1" "idle d1" "content d1 Video = bs @ units_bytes us" by blast
  let ?es = "es\<lparr>next_nal := int (byte k), videobuf_code_len := 4\<rparr>"
  have h: "holds ?es old" using assms(6) by (simp add: holds_def)
  have n: "no_code bs" "next_nal ?es = int (byte k)" "int (length old) + 4 + int (length bs) + 3 \<le> VIDEOBUFFER_SIZE" using assms(5,7) u by simp_all
  from read_ahead [OF assms(1) s(2-4) n(1,2) h n(3)] obtain es' d' where r:
    "read_video_packet fill Video ?es d1 = Some (4 + int (length bs), es', d')" "holds es' (old @ unit_bytes (k, bs))"
    "units_ahead us es' d'" "ok d'" "idle d'" by blast
  have "byte k = byte pc \<longleftrightarrow> k = pc" by (simp add: byte_def)
  then have "coded_unit fill (0x100 + int (byte pc)) (es, d) = Some (if fst u = pc then Frame_end else Frame_goes_on, es', d')"
    using s(1) r(1) u by (simp add: coded_unit_def)
  then show ?thesis using r u by blast
qed

lemma frame_loop_frame:
  assumes "Video \<in> served" and "ok d" and "idle d" and "units_ahead (f @ us) es d" and "f \<noteq> []" and "fst (last f) = pc"
    and "list_all (\<lambda>u. fst u \<noteq> pc) (butlast f)" and "list_all (\<lambda>u. no_code (snd u)) f" and "holds es old"
    and "int (length old) + int (length (units_bytes (butlast f))) < VIDEOBUFFER_SIZE - MAX_VIDEO_PACKET_SIZE"
    and "int (length old) + int (length (units_bytes f)) + 3 \<le> VIDEOBUFFER_SIZE"
  shows "\<exists>es' d'. frame_loop (coded_unit fill (0x100 + int (byte pc))) (\<lambda>(es, _). videobuf_len es) (es, d) = Some (True, es', d') \<and>
     holds es' (old @ units_bytes f) \<and> units_ahead us es' d' \<and> ok d' \<and> idle d'"
  using assms(2-)
proof (induction f arbitrary: es d old)
  case (Cons u f)
  have space: "videobuf_len es < VIDEOBUFFER_SIZE - MAX_VIDEO_PACKET_SIZE"
    using Cons.prems(8,9) by (simp add: holds_def)
  have a: "units_ahead (u # (f @ us)) es d" "no_code (snd u)" "int (length old) + int (length (unit_bytes u)) + 3 \<le> VIDEOBUFFER_SIZE"
    using Cons.prems(3,7,10) by simp_all
  from coded_unit_ahead [OF assms(1) Cons.prems(1,2) a(1,2) Cons.prems(8) a(3), of pc] obtain es1 d1 where s:
    "coded_unit fill (0x100 + int (byte pc)) (es, d) = Some (if fst u = pc then Frame_end else Frame_goes_on, es1, d1)"
    "holds es1 (old @ unit_bytes u)" "units_ahead (f @ us) es1 d1" "ok d1" "idle d1" by blast
  show ?case
  proof (cases "f = []")
    case True
    then have "fst u = pc" using Cons.prems(5) by simp
    then have "frame_loop (coded_unit fill (0x100 + int (byte pc))) (\<lambda>(es, _). videobuf_len es) (es, d) = Some (True, es1, d1)"
      using s(1) space by (subst frame_loop.simps) simp
    then show ?thesis using s True by auto
  next
    case False
    then have ne: "fst u \<noteq> pc" using Cons.prems(6) by simp
    have b: "int (length (old @ unit_bytes u)) + int (length (units_bytes (butlast f))) < VIDEOBUFFER_SIZE - MAX_VIDEO_PACKET_SIZE"
      "int (length (old @ unit_bytes u)) + int (length (units_bytes f)) + 3 \<le> VIDEOBUFFER_SIZE"
      "fst (last f) = pc" "list_all (\<lambda>u. fst u \<noteq> pc) (butlast f)" "list_all (\<lambda>u. no_code (snd u)) f"
      using Cons.prems(5-7,9,10) False by simp_all
    from Cons.IH [OF s(4,5,3) False b(3-5) s(2) b(1,2)] obtain es' d' where r:
      "frame_loop (coded_unit fill (0x100 + int (byte pc))) (\<lambda>(es, _). videobuf_len es) (es1, d1) = Some (True, es', d')"
      "holds es' ((old @ unit_bytes u) @ units_bytes f)" "units_ahead us es' d'" "ok d'" "idle d'" by blast
    have "frame_loop (coded_unit fill (0x100 + int (byte pc))) (\<lambda>(es, _). videobuf_len es) (es, d) = Some (True, es', d')"
      using s(1) r(1) space ne by (subst frame_loop.simps) simp
    then show ?thesis using r(2-5) by (intro exI [of _ es'] exI [of _ d']) simp
  qed
qed simp

text \<open>One frame, and the end.\<close>

lemma coded_frame_frame:
  assumes "Video \<in> served" and "ok d" and "idle d" and "units_ahead (f @ us) es d" and "is_frame pc f" and "holds es []"
  shows "\<exists>es' d'. coded_frame fill (0x100 + int (byte pc)) es d = Some (Some (units_bytes f), es', d') \<and> holds es' [] \<and> units_ahead us es' d' \<and>
     ok d' \<and> idle d'"
proof -
  have f: "f \<noteq> []" "fst (last f) = pc" "list_all (\<lambda>u. fst u \<noteq> pc) (butlast f)" "list_all (\<lambda>u. no_code (snd u)) f"
    "int (length []) + int (length (units_bytes (butlast f))) < VIDEOBUFFER_SIZE - MAX_VIDEO_PACKET_SIZE"
    "int (length []) + int (length (units_bytes f)) + 3 \<le> VIDEOBUFFER_SIZE"
    using assms(5) by (simp_all add: is_frame_def)
  from frame_loop_frame [OF assms(1-4) f(1-4) assms(6) f(5,6)] obtain es' d' where r:
    "frame_loop (coded_unit fill (0x100 + int (byte pc))) (\<lambda>(es, _). videobuf_len es) (es, d) = Some (True, es', d')"
    "holds es' (units_bytes f)" "units_ahead us es' d'" "ok d'" "idle d'" by auto
  let ?e = "es'\<lparr>videobuf_len := 0\<rparr>"
  have "coded_frame fill (0x100 + int (byte pc)) es d = Some (Some (units_bytes f), ?e, d')"
    using r(1,2) by (simp add: coded_frame_def take_frame_def holds_def)
  moreover have "holds ?e []" using r(2) by (simp add: holds_def)
  moreover have "units_ahead us ?e d'" using r(3) by (cases us) (simp_all add: units_ahead_def)
  ultimately show ?thesis using r(4,5) by blast
qed

lemma coded_frame_end:
  assumes "Video \<in> served" and "ok d" and "idle d" and "units_ahead [] es d" and "holds es []"
  shows "\<exists>es' d'. coded_frame fill pc es d = Some (None, es', d')"
proof -
  from sync_no_unit [OF assms(1-4)] obtain d' where "sync_video_packet fill Video es d = Some (0, eof_out es, d')" by blast
  then show ?thesis using assms(5) by (simp add: coded_frame_def frame_loop.simps coded_unit_def holds_def)
qed

end

subsection \<open>A file\<close>

text \<open>Reading a number of frames.\<close>

fun read_frames ::
  "float_ops \<Rightarrow> 'p fill \<Rightarrow> bool \<Rightarrow> nat \<Rightarrow> video_state \<Rightarrow> sh_video \<Rightarrow> 'p demuxer \<Rightarrow> (string option list \<times> video_state \<times> sh_video \<times> 'p demuxer) option"
where
  "read_frames fl fill force_fps 0 vs sh d = Some ([], vs, sh, d)"
| "read_frames fl fill force_fps (Suc n) vs sh d =
     do {
       (f, vs, sh, d) \<leftarrow> video_read_frame fl fill force_fps vs sh d;
       (fs, r) \<leftarrow> read_frames fl fill force_fps n vs sh d;
       Some (f # fs, r) }"

text \<open>An allocated buffer without data, before the first start code.\<close>

definition ready_for_frames :: "video_state \<Rightarrow> bool" where
  "ready_for_frames vs \<longleftrightarrow>
     videobuf_len (vs_es vs) = 0 \<and> videobuf_code_len (vs_es vs) = 0 \<and> VIDEOBUFFER_SIZE \<le> int (length (videobuffer (vs_es vs)))"

lemma allocated_ready: "ready_for_frames (initial_video\<lparr>vs_es := alloc_videobuffer junk (vs_es initial_video)\<rparr>)"
  by (simp add: ready_for_frames_def initial_video_def alloc_videobuffer_def)

lemma mpeg4_read:
  "dm_file_format d = DEMUXER_TYPE_MPEG4_ES \<Longrightarrow> video_read_frame fl fill ff vs sh d =
     do { (f, es, d) \<leftarrow> coded_frame fill (0x100 + int (byte (CHR 0xB6))) (vs_es vs) d; Some (f, vs\<lparr>vs_es := es\<rparr>, sh, d) }"
  by (simp add: video_read_frame_def find_video_codec_def byte_def)

lemma es_ok_format:
  assumes "fsource.plain.es.ok c type d"
  shows "dm_file_format d = type"
proof -
  have "fsource.plain.es_ok c type d" using assms by (simp only: fsource.plain.es.ok_def)
  then show ?thesis by (simp only: fsource.plain.es_ok_def)
qed

lemma mpeg4_frames:
  assumes "fsource.plain.es.ok c DEMUXER_TYPE_MPEG4_ES d" and "fsource.plain.es_lazy.idle d"
    and "fsource.steady.es_units.units_ahead c (concat fs) (vs_es vs) d" and "holds (vs_es vs) []"
    and "list_all (is_frame (CHR 0xB6)) fs"
  shows "\<exists>r. read_frames fl (demux_mpg_es_fill_buffer junk file_driver) ff (Suc (length fs)) vs sh d =
     Some (map (\<lambda>f. Some (units_bytes f)) fs @ [None], r)"
  using assms
proof (induction fs arbitrary: vs d)
  case Nil
  have v: "Video \<in> {Video}" by simp
  note t = es_ok_format [OF Nil.prems(1)]
  from fsource.steady.es_units.coded_frame_end [OF v Nil.prems(1,2) Nil.prems(3) [unfolded concat.simps] Nil.prems(4)]
  obtain es' d' where "coded_frame (demux_mpg_es_fill_buffer junk file_driver) (0x100 + int (byte (CHR 0xB6))) (vs_es vs) d = Some (None, es', d')"
    by blast
  then show ?case using mpeg4_read [OF t] by simp
next
  case (Cons f fs)
  have v: "Video \<in> {Video}" by simp
  note t = es_ok_format [OF Cons.prems(1)]
  have f: "is_frame (CHR 0xB6) f" "list_all (is_frame (CHR 0xB6)) fs" using Cons.prems(5) by simp_all
  from fsource.steady.es_units.coded_frame_frame [OF v Cons.prems(1,2) Cons.prems(3) [unfolded concat.simps] f(1) Cons.prems(4), of junk]
  obtain es' d' where s: "coded_frame (demux_mpg_es_fill_buffer junk file_driver) (0x100 + int (byte (CHR 0xB6))) (vs_es vs) d =
      Some (Some (units_bytes f), es', d')" "holds es' []"
    "fsource.steady.es_units.units_ahead c (concat fs) es' d'" "fsource.plain.es.ok c DEMUXER_TYPE_MPEG4_ES d'" "fsource.plain.es_lazy.idle d'" by blast
  have h: "fsource.steady.es_units.units_ahead c (concat fs) (vs_es (vs\<lparr>vs_es := es'\<rparr>)) d'" "holds (vs_es (vs\<lparr>vs_es := es'\<rparr>)) []"
    using s by simp_all
  from Cons.IH [OF s(4,5) h f(2)] obtain r where
    "read_frames fl (demux_mpg_es_fill_buffer junk file_driver) ff (Suc (length fs)) (vs\<lparr>vs_es := es'\<rparr>) sh d' =
       Some (map (\<lambda>f. Some (units_bytes f)) fs @ [None], r)" by blast
  then show ?case using s(1) mpeg4_read [OF t] by (cases r) (simp del: read_frames.simps(2) add: read_frames.simps(2) [of _ _ _ "Suc (length fs)"])
qed

text \<open>
  C9: A file of MPEG-4 video is taken apart into its frames: if it consists of units with their
  start codes, grouped into frames each of which ends with its only picture, then reading
  frame after frame returns exactly the bytes of the frames, in order, and then the end of the
  file. Bytes before the first start code are skipped. This holds through the file, the buffer
  of the stream, the packets of the demuxer, the search for start codes and the buffer of the
  parser, wherever blocks and packets cut the units, and every call returns.
\<close>

theorem mpeg4_file_frames:
  assumes "\<forall>r\<in>set (f_reads f). 0 < r" and "f_off f = 0"
    and "f_data f = before @ units_bytes (concat fs)" and "no_code before" and "int (length before) + 3 \<le> MAX_SYNCLEN"
    and "fs \<noteq> []" and "list_all (is_frame (CHR 0xB6)) fs" and "ready_for_frames vs"
  shows "\<exists>d st r. open_es DEMUXER_TYPE_MPEG4_ES f = Some (Some d, st) \<and>
     read_frames fl (demux_mpg_es_fill_buffer junk file_driver) ff (Suc (length fs)) vs sh d =
       Some (map (\<lambda>us. Some (units_bytes us)) fs @ [None], r)"
proof -
  from es_opened [OF assms(1,2), of DEMUXER_TYPE_MPEG4_ES] obtain d st where d: "open_es DEMUXER_TYPE_MPEG4_ES f = Some (Some d, st)"
    "fsource.plain.es_ok (f_data f) DEMUXER_TYPE_MPEG4_ES d" "fresh_queues d" "stream_tell (st_of (dm_stream d)) = 0" by auto
  have ok: "fsource.plain.es.ok (f_data f) DEMUXER_TYPE_MPEG4_ES d" "fsource.plain.es_lazy.idle d"
    using d(2,3) by (simp_all only: fsource.plain.es.ok_def fsource.plain.es_lazy.idle_def fresh_queues_def) blast+
  have "ds_first (ds_of Video d) = []" "unread (ds_of Video d) = []" using d(3) unfolding fresh_queues_def by blast+
  then have c: "fsource.plain.es.content (f_data f) d Video = f_data f"
    using d(4) by (simp add: fsource.plain.es.content_def fsource.plain.es.to_come_def queued_def fsource.plain.raw_rest_def)
  obtain u us where u: "concat fs = u # us"
    using assms(6,7) by (cases fs; cases "hd fs") (auto simp: is_frame_def)
  have "fsource.steady.es_units.units_ahead (f_data f) (concat fs) (vs_es vs) d"
    unfolding fsource.steady.es_units.units_ahead_def c u using assms(3-5,8) u by (cases u) (auto simp: ready_for_frames_def)
  moreover have "holds (vs_es vs) []" using assms(8) by (simp add: holds_def ready_for_frames_def)
  ultimately show ?thesis using mpeg4_frames [OF ok _ _ assms(7), of vs fl junk ff sh] d(1) by blast
qed

text \<open>A file of two frames, the first of two units, with one byte in front.\<close>

definition ex_frames :: "es_unit list list" where
  "ex_frames = [[(CHR 0xB0, [CHR 0x01]), (CHR 0xB6, [CHR 0x02, CHR 0x00])], [(CHR 0xB6, [])]]"

definition ex_es_file :: file_state where
  "ex_es_file =
     \<lparr>f_data = [CHR 0x00, CHR 0x00, CHR 0x00, CHR 0x01, CHR 0xB0, CHR 0x01, CHR 0x00, CHR 0x00, CHR 0x01, CHR 0xB6, CHR 0x02, CHR 0x00,
                CHR 0x00, CHR 0x00, CHR 0x01, CHR 0xB6],
      f_off = 0, f_reads = [2, 3], f_writes = []\<rparr>"

definition ex_float :: float_ops where
  "ex_float =
     \<lparr>fl_quot = \<lambda>_ _. 0, fl_half = \<lambda>_. 0, fl_recip = \<lambda>_. 0, fl_scale = \<lambda>_ _ _. 0, fl_differs = \<lambda>_ _. False, fl_positive = \<lambda>_. False,
      fl_drift = \<lambda>c _. c, fl_leaves = \<lambda>_. False, fl_enters = \<lambda>_. False, fl_slower = \<lambda>f. f, fl_longer = \<lambda>f. f\<rparr>"

definition ex_sh_video :: sh_video where
  "ex_sh_video =
     \<lparr>sv_vid = 0, sv_lang = None, sv_default_track = False, sv_format = 0, sv_fps = 0, sv_frametime = 0, sv_i_bps = 0, sv_disp_w = 0, sv_disp_h = 0,
      sv_pts = MP_NOPTS_VALUE, sv_i_pts = MP_NOPTS_VALUE, sv_frames_decoded = 0, sv_bih = None\<rparr>"

lemma short_no_code: "length bs < 3 \<Longrightarrow> no_code bs"
  by (auto simp: no_code_def pattern_at_def)

theorem mpeg4_file_frames_witness:
  "\<exists>d st r. open_es DEMUXER_TYPE_MPEG4_ES ex_es_file = Some (Some d, st) \<and>
     read_frames ex_float (demux_mpg_es_fill_buffer (\<lambda>_. CHR ''?'') file_driver) False 3
       (initial_video\<lparr>vs_es := alloc_videobuffer (\<lambda>_. CHR ''?'') (vs_es initial_video)\<rparr>) ex_sh_video d =
       Some ([Some [CHR 0x00, CHR 0x00, CHR 0x01, CHR 0xB0, CHR 0x01, CHR 0x00, CHR 0x00, CHR 0x01, CHR 0xB6, CHR 0x02, CHR 0x00],
              Some [CHR 0x00, CHR 0x00, CHR 0x01, CHR 0xB6], None], r)"
proof -
  have l: "Suc (length ex_frames) = 3" by (simp add: ex_frames_def)
  have r: "\<forall>r\<in>set (f_reads ex_es_file). 0 < r" "f_off ex_es_file = 0" by (simp_all add: ex_es_file_def)
  have d: "f_data ex_es_file = [CHR 0x00] @ units_bytes (concat ex_frames)"
    by (simp add: ex_es_file_def ex_frames_def unit_bytes_def start_code_def)
  have f: "list_all (is_frame (CHR 0xB6)) ex_frames" "ex_frames \<noteq> []" by (simp_all add: ex_frames_def is_frame_def short_no_code)
  have b: "no_code [CHR 0x00]" "int (length [CHR 0x00]) + 3 \<le> MAX_SYNCLEN" by (simp_all add: short_no_code)
  have m: "map (\<lambda>us. Some (units_bytes us)) ex_frames @ [None] =
      [Some [CHR 0x00, CHR 0x00, CHR 0x01, CHR 0xB0, CHR 0x01, CHR 0x00, CHR 0x00, CHR 0x01, CHR 0xB6, CHR 0x02, CHR 0x00],
       Some [CHR 0x00, CHR 0x00, CHR 0x01, CHR 0xB6], None]"
    by (simp add: ex_frames_def unit_bytes_def start_code_def)
  show ?thesis
    using mpeg4_file_frames [OF r d b f(2,1) allocated_ready [of "\<lambda>_. CHR ''?''"], of ex_float "\<lambda>_. CHR ''?''" False ex_sh_video]
    unfolding l m .
qed

end
