(* ===== verification/Audio_Hdr.thy ===== *)
theory Audio_Hdr
  imports MP_Prelude
begin

text \<open>
  Headers of audio frames: AC-3 (\<open>mp_a52_framesize\<close> of \<open>libmpdemux/parse_es.c\<close>) and MPEG
  audio (\<open>libmpdemux/mp3_hdr.c\<close>, \<open>libmpdemux/mp3_hdr.h\<close>). \<open>None\<close> is an access outside the
  buffer or outside a table.
\<close>

subsection \<open>AC-3\<close>

definition a52_rate :: "int list" where
  "a52_rate = [32, 40, 48, 56, 64, 80, 96, 112, 128, 160, 192, 224, 256, 320, 384, 448, 512, 576, 640]"

definition a52_halfrate :: "nat list" where
  "a52_halfrate = [0, 0, 0, 0, 0, 0, 0, 0, 0, 1, 2, 3]"

text \<open>The size of the frame, and the sample rate if it is written.\<close>

definition mp_a52_framesize :: "string \<Rightarrow> (int \<times> int option) option" where
  "mp_a52_framesize buf =
     do {
       b0 \<leftarrow> byte_of buf 0;
       ok \<leftarrow> (if b0 \<noteq> 0x0B then Some False else do { b1 \<leftarrow> byte_of buf 1; Some (b1 = 0x77) });
       if \<not> ok then Some (0, None)
       else do {
         b5 \<leftarrow> byte_of buf 5;
         if 0x60 \<le> b5 then Some (0, None)
         else do {
           half \<leftarrow> entry_at a52_halfrate (drop_bit 3 b5);
           b4 \<leftarrow> byte_of buf 4;
           let frmsizecod = and b4 63;
           if 38 \<le> frmsizecod then Some (0, None)
           else do {
             bitrate \<leftarrow> entry_at a52_rate (drop_bit 1 frmsizecod);
             let s = and b4 0xC0;
             if s = 0 then Some (4 * bitrate, Some (drop_bit half 48000))
             else if s = 0x40 then Some (2 * (320 * bitrate div 147 + and frmsizecod 1), Some (drop_bit half 44100))
             else if s = 0x80 then Some (6 * bitrate, Some (drop_bit half 32000))
             else Some (0, None) } } } }"

lemma and_mask_int: "0 \<le> and (x :: int) (mask n)" "and x (mask n) < 2 ^ n"
  by (simp_all flip: take_bit_eq_mask)

text \<open>
  The size of an AC-3 frame is between 128 and 3842 bytes, and even, or 0 for a header that is
  not valid, whatever the six bytes of the header are; the tables are only read inside.
\<close>

lemma a52_framesize_bounds:
  assumes "6 \<le> length buf"
  shows "\<exists>n r. mp_a52_framesize buf = Some (n, r) \<and> (r = None \<and> n = 0 \<or> r \<noteq> None \<and> 128 \<le> n \<and> n \<le> 3840 \<and> even n)"
proof -
  let ?b = "\<lambda>i. int (byte (buf ! i))"
  have b: "byte_of buf i = Some (?b (nat i))" if "0 \<le> i" "i < 6" for i using byte_ofI [of i buf] that assms by simp
  define h where "h = drop_bit 3 (?b 5)"
  define k where "k = and (?b 4) 63"
  have k: "0 \<le> k" "k < 64" using and_mask_int [of "?b 4" 6] by (simp_all add: k_def mask_eq_exp_minus_1)
  have h: "0 \<le> h" "?b 5 < 0x60 \<Longrightarrow> h < 12" by (simp_all add: h_def drop_bit_eq_div)
  have half: "\<exists>x. entry_at a52_halfrate h = Some x" if "?b 5 < 0x60" using entry_atI [of h a52_halfrate] h that by (simp add: a52_halfrate_def)
  have rate: "\<exists>x. entry_at a52_rate (drop_bit 1 k) = Some x \<and> 32 \<le> x \<and> x \<le> 640" if "k < 38"
  proof -
    have "0 \<le> drop_bit 1 k" "drop_bit 1 k < 19" using k that by (simp_all add: drop_bit_eq_div)
    then have e: "entry_at a52_rate (drop_bit 1 k) = Some (a52_rate ! nat (drop_bit 1 k))" by (simp add: entry_at_def a52_rate_def)
    have "list_all (\<lambda>x. 32 \<le> x \<and> x \<le> 640) a52_rate" by (simp add: a52_rate_def)
    from entry_at_all [OF e this] e show ?thesis by blast
  qed
  have one: "and k 1 \<in> {0, 1}" by (simp add: and_one_eq mod2_eq_if)
  show ?thesis
  proof (cases "?b 5 < 0x60 \<and> k < 38")
    case True
    then obtain x r where x: "entry_at a52_halfrate h = Some x" "entry_at a52_rate (drop_bit 1 k) = Some r" "32 \<le> r" "r \<le> 640"
      using half rate by blast
    have "320 * r div 147 \<le> 320 * 640 div 147" using x(4) by (intro zdiv_mono1) simp_all
    moreover have "320 * 32 div 147 \<le> 320 * r div 147" using x(3) by (intro zdiv_mono1) simp_all
    ultimately have "128 \<le> 2 * (320 * r div 147 + and k 1)" "2 * (320 * r div 147 + and k 1) \<le> 3840" using one by auto
    then show ?thesis using True x h_def k_def by (simp add: mp_a52_framesize_def b Let_def)
  next
    case False
    then show ?thesis using half h_def k_def by (auto simp: mp_a52_framesize_def b Let_def)
  qed
qed

subsection \<open>MPEG audio\<close>

definition tabsel_123 :: "int list list list" where
  "tabsel_123 =
     [[[0, 32, 64, 96, 128, 160, 192, 224, 256, 288, 320, 352, 384, 416, 448, 0],
       [0, 32, 48, 56, 64, 80, 96, 112, 128, 160, 192, 224, 256, 320, 384, 0],
       [0, 32, 40, 48, 56, 64, 80, 96, 112, 128, 160, 192, 224, 256, 320, 0]],
      [[0, 32, 48, 56, 64, 80, 96, 112, 128, 144, 160, 176, 192, 224, 256, 0],
       [0, 8, 16, 24, 32, 40, 48, 56, 64, 80, 96, 112, 128, 144, 160, 0],
       [0, 8, 16, 24, 32, 40, 48, 56, 64, 80, 96, 112, 128, 144, 160, 0]]]"

definition mp3_freqs :: "int list" where
  "mp3_freqs = [44100, 48000, 32000, 22050, 24000, 16000, 11025, 12000, 8000]"

definition mp3_mult :: "int list" where
  "mp3_mult = [12000, 144000, 144000]"

record mp3_header =
  mh_chans :: int
  mh_srate :: int
  mh_spf :: int
  mh_layer :: int
  mh_br :: int

text \<open>The size of the frame, or -1; what is written through the pointers.\<close>

definition mp3_head :: "string \<Rightarrow> 32 word option" where
  "mp3_head hbuf =
     do {
       a \<leftarrow> byte_of hbuf 0; b \<leftarrow> byte_of hbuf 1; c \<leftarrow> byte_of hbuf 2; d \<leftarrow> byte_of hbuf 3;
       Some (or (or (or (push_bit 24 (word_of_int a)) (push_bit 16 (word_of_int b))) (push_bit 8 (word_of_int c))) (word_of_int d)) }"

definition head_field :: "32 word \<Rightarrow> nat \<Rightarrow> 32 word \<Rightarrow> int" where
  "head_field head n m = uint (and (drop_bit n head) m)"

definition mp_get_mp3_header :: "string \<Rightarrow> (int \<times> mp3_header option) option" where
  "mp_get_mp3_header hbuf =
     do {
       head \<leftarrow> mp3_head hbuf;
       let layer = 4 - head_field head 17 3;
       let sf = head_field head 10 3;
       if and head 0xFFE00000 \<noteq> 0xFFE00000 then Some (-1, None)
       else if layer = 4 then Some (-1, None)
       else if sf = 3 then Some (-1, None)
       else do {
         let lsf = (if bit head 20 then (if bit head 19 then 0 else 1) else 1);
         let sf = (if bit head 20 then sf + lsf * 3 else sf + 6);
         let padding = head_field head 9 1;
         let stereo = (if head_field head 6 3 = 3 then 1 else 2);
         row \<leftarrow> entry_at tabsel_123 lsf;
         col \<leftarrow> entry_at row (layer - 1);
         bitrate \<leftarrow> entry_at col (head_field head 12 15);
         mult \<leftarrow> entry_at mp3_mult (layer - 1);
         let framesize = bitrate * mult;
         if framesize = 0 then Some (-1, None)
         else do {
           freq \<leftarrow> entry_at mp3_freqs sf;
           let divisor = (if layer = 3 then push_bit (nat lsf) freq else freq);
           let framesize = framesize div divisor;
           let framesize = (if layer = 1 then (framesize + padding) * 4 else framesize + padding);
           let spf = (if layer = 1 then 384 else if layer = 2 then 1152 else if freq < 32000 then 576 else 1152);
           Some (framesize, Some \<lparr>mh_chans = stereo, mh_srate = freq, mh_spf = spf, mh_layer = layer, mh_br = bitrate\<rparr>) } } }"

definition mp_check_mp3_header :: "32 word \<Rightarrow> bool option" where
  "mp_check_mp3_header head =
     (if and head 0xFFE00000 \<noteq> 0xFFE00000 \<or> and head 0xC00 = 0xC00 then Some False
      else do {
        (n, _) \<leftarrow> mp_get_mp3_header (map (\<lambda>k. char_of (unat (and (drop_bit k head) 0xFF))) [24, 16, 8, 0]);
        Some (0 < n) })"

text \<open>All combinations of rate, layer, version and sample rate.\<close>

definition sized :: "int \<Rightarrow> int \<Rightarrow> int \<Rightarrow> int \<Rightarrow> bool" where
  "sized lsf f layer r \<longleftrightarrow>
     r = 0 \<or>
     0 < r \<and>
     (let n = r * mp3_mult ! nat (layer - 1) div (if layer = 3 then push_bit (nat lsf) f else f)
      in r * mp3_mult ! nat (layer - 1) \<noteq> 0 \<and> 6 \<le> n \<and> n \<le> 2880 \<and>
         (if layer = 1 then n \<le> 384 else 24 \<le> n \<and> n = (if layer = 2 then 1152 else if f < 32000 then 576 else 1152) * r * 125 div f))"

lemma all_sized:
  "list_all (\<lambda>(lsf, sf). list_all (\<lambda>layer. list_all (sized lsf (mp3_freqs ! nat sf) layer) (tabsel_123 ! nat lsf ! nat (layer - 1))) [1, 2, 3])
     [(0, 0), (0, 1), (0, 2), (1, 3), (1, 4), (1, 5), (1, 6), (1, 7), (1, 8)]"
  by code_simp

lemma table_shape: "length tabsel_123 = 2" "list_all (\<lambda>t. length t = 3 \<and> list_all (\<lambda>r. length r = 16) t) tabsel_123" "length mp3_freqs = 9"
  by (simp_all add: tabsel_123_def mp3_freqs_def)

lemma sized_entry:
  assumes "(lsf, sf) \<in> {(0, 0), (0, 1), (0, 2), (1, 3), (1, 4), (1, 5), (1, 6), (1, 7), (1, 8)}" and "layer \<in> {1, 2, 3}" and "0 \<le> b" and "b < 16"
  obtains row col r f where "entry_at tabsel_123 lsf = Some row" "entry_at row (layer - 1) = Some col" "entry_at col b = Some r"
    "entry_at mp3_mult (layer - 1) = Some (mp3_mult ! nat (layer - 1))" "entry_at mp3_freqs sf = Some f" "f \<in> set mp3_freqs" "sized lsf f layer r"
proof -
  let ?row = "tabsel_123 ! nat lsf"
  let ?col = "?row ! nat (layer - 1)"
  have row: "?row \<in> set tabsel_123" "entry_at tabsel_123 lsf = Some ?row" using assms(1) table_shape(1) by (auto simp: entry_at_def)
  then have "length ?row = 3" "list_all (\<lambda>r. length r = 16) ?row" using table_shape(2) by (simp_all add: list_all_iff)
  then have col: "?col \<in> set ?row" "length ?col = 16" "entry_at ?row (layer - 1) = Some ?col" using assms(2) by (auto simp: entry_at_def list_all_iff)
  then have r: "entry_at ?col b = Some (?col ! nat b)" "?col ! nat b \<in> set ?col" using assms(3,4) by (simp_all add: entry_at_def)
  have f: "entry_at mp3_freqs sf = Some (mp3_freqs ! nat sf)" "mp3_freqs ! nat sf \<in> set mp3_freqs"
    using assms(1) table_shape(3) by (auto simp: entry_at_def)
  have "sized lsf (mp3_freqs ! nat sf) layer (?col ! nat b)"
  proof -
    have m: "(lsf, sf) \<in> set [(0, 0), (0, 1), (0, 2), (1, 3), (1, 4), (1, 5), (1, 6), (1, 7), (1, 8)]" "layer \<in> set [1, 2, 3]"
      using assms(1,2) by simp_all
    show ?thesis using list_all_member [OF list_all_member [OF all_sized m(1), unfolded prod.case] m(2)] r(2) by (simp add: list_all_iff)
  qed
  moreover have "entry_at mp3_mult (layer - 1) = Some (mp3_mult ! nat (layer - 1))" using assms(2) by (auto simp: entry_at_def mp3_mult_def)
  ultimately show ?thesis using that [OF row(2) col(3) r(1) _ f] by blast
qed

lemma head_field_bounds: "0 \<le> head_field h n m" "head_field h n m \<le> uint m"
proof -
  show "0 \<le> head_field h n m" by (simp add: head_field_def)
  have "and (uint (drop_bit n h)) (uint m) \<le> uint m" by (rule AND_upper2) simp
  then show "head_field h n m \<le> uint m" by (simp only: head_field_def uint_and)
qed

text \<open>
  C26: The header of an MPEG audio frame: for any four bytes the tables are only read inside, and
  the result is -1 or a size between 24 and 2881 bytes. The size fits the other results: it is
  what the bit rate gives in the number of samples of the frame, rounded down, and one more
  byte for padding; in layer 1 both are counted in units of four bytes.
\<close>

theorem mp3_header_bounds:
  assumes "4 \<le> length hbuf"
  shows "\<exists>n r. mp_get_mp3_header hbuf = Some (n, r) \<and>
     (case r of
        None \<Rightarrow> n = -1
      | Some h \<Rightarrow>
          24 \<le> n \<and> n \<le> 2881 \<and> mh_srate h \<in> set mp3_freqs \<and> mh_chans h \<in> {1, 2} \<and> 0 < mh_br h \<and>
          (\<exists>p\<in>{0, 1}. n = (if mh_layer h = 1 then 4 * (mh_br h * 12000 div mh_srate h + p) else mh_spf h * mh_br h * 125 div mh_srate h + p)))"
proof -
  have "byte_of hbuf k = Some (int (byte (hbuf ! nat k)))" if "0 \<le> k" "k < 4" for k using byte_ofI [of k hbuf] that assms by simp
  then obtain head where head: "mp3_head hbuf = Some head" by (simp add: mp3_head_def)
  define layer where "layer = 4 - head_field head 17 3"
  define lsf where "lsf = (if bit head 20 then (if bit head 19 then 0 else 1) else 1 :: int)"
  define sf where "sf = (if bit head 20 then head_field head 10 3 + lsf * 3 else head_field head 10 3 + 6)"
  show ?thesis
  proof (cases "and head 0xFFE00000 \<noteq> 0xFFE00000 \<or> layer = 4 \<or> head_field head 10 3 = 3")
    case True
    have "mp_get_mp3_header hbuf = Some (-1, None)"
    proof (cases "and head 0xFFE00000 \<noteq> 0xFFE00000 \<or> layer = 4")
      case True
      then show ?thesis using head by (elim disjE) (simp_all add: mp_get_mp3_header_def layer_def Let_def)
    next
      case False
      then have "head_field head 10 3 = 3" using \<open>and head 0xFFE00000 \<noteq> 0xFFE00000 \<or> layer = 4 \<or> head_field head 10 3 = 3\<close> by simp
      then show ?thesis using head False by (simp add: mp_get_mp3_header_def layer_def Let_def)
    qed
    then show ?thesis by simp
  next
    case False
    have l: "layer \<in> {1, 2, 3}" using head_field_bounds [of head 17 3] False by (auto simp: layer_def)
    have "head_field head 10 3 \<in> {0, 1, 2}" using head_field_bounds [of head 10 3] False by auto
    then have ls: "(lsf, sf) \<in> {(0, 0), (0, 1), (0, 2), (1, 3), (1, 4), (1, 5), (1, 6), (1, 7), (1, 8)}" by (auto simp: lsf_def sf_def)
    have b: "0 \<le> head_field head 12 15" "head_field head 12 15 < 16" using head_field_bounds [of head 12 15] by simp_all
    from sized_entry [OF ls l b] obtain row col r f where e: "entry_at tabsel_123 lsf = Some row" "entry_at row (layer - 1) = Some col"
      "entry_at col (head_field head 12 15) = Some r" "entry_at mp3_mult (layer - 1) = Some (mp3_mult ! nat (layer - 1))" "entry_at mp3_freqs sf = Some f"
      "f \<in> set mp3_freqs" "sized lsf f layer r" by blast
    define p where "p = head_field head 9 1"
    define n where "n = r * mp3_mult ! nat (layer - 1) div (if layer = 3 then push_bit (nat lsf) f else f)"
    define spf where "spf = (if layer = 1 then 384 else if layer = 2 then 1152 else if f < 32000 then 576 else 1152 :: int)"
    have p: "p \<in> {0, 1}" using head_field_bounds [of head 9 1] by (auto simp: p_def)
    let ?h = "\<lparr>mh_chans = if head_field head 6 3 = 3 then 1 else 2, mh_srate = f, mh_spf = spf, mh_layer = layer, mh_br = r\<rparr>"
    have g: "mp_get_mp3_header hbuf =
        (if r * mp3_mult ! nat (layer - 1) = 0 then Some (-1, None) else Some (if layer = 1 then (n + p) * 4 else n + p, Some ?h))"
      using head False e(1-5) by (simp add: mp_get_mp3_header_def layer_def [symmetric] lsf_def [symmetric] sf_def [symmetric] p_def n_def spf_def)
    show ?thesis
    proof (cases "r = 0")
      case True
      then show ?thesis using g by simp
    next
      case nz: False
      have s: "0 < r" "r * mp3_mult ! nat (layer - 1) \<noteq> 0" "6 \<le> n" "n \<le> 2880"
        "if layer = 1 then n \<le> 384 else 24 \<le> n \<and> n = spf * r * 125 div f"
        using e(7) nz unfolding sized_def by (simp_all add: n_def [symmetric] Let_def spf_def split: if_splits)
      have one: "n = r * 12000 div f" if "layer = 1" using that by (simp add: n_def mp3_mult_def)
      show ?thesis using g s p e(6) one nz by (auto split: if_splits)
    qed
  qed
qed

text \<open>The header of a frame of layer 3 at 128 kbit/s and 44.1 kHz.\<close>

theorem mp3_header_bounds_witness:
  "\<exists>n r. mp_get_mp3_header [CHR 0xFF, CHR 0xFB, CHR 0x90, CHR 0x64] = Some (n, r) \<and>
     (case r of
        None \<Rightarrow> n = -1
      | Some h \<Rightarrow>
          24 \<le> n \<and> n \<le> 2881 \<and> mh_srate h \<in> set mp3_freqs \<and> mh_chans h \<in> {1, 2} \<and> 0 < mh_br h \<and>
          (\<exists>p\<in>{0, 1}. n = (if mh_layer h = 1 then 4 * (mh_br h * 12000 div mh_srate h + p) else mh_spf h * mh_br h * 125 div mh_srate h + p)))"
  by (rule mp3_header_bounds) simp

end
