(* ===== verification/Ebml.thy ===== *)
theory Ebml
  imports Stream
begin

text \<open>
  The reader of Matroska's binary format (\<open>libmpdemux/ebml.c\<close>, \<open>libmpdemux/ebml.h\<close>): numbers of
  variable length, the elementary readers on a stream, and the parser that fills a structure
  from an element by a description. \<open>None\<close> is an access outside the memory, a failed
  assertion or a shift that C does not define. The descriptions of the elements are generated
  by \<open>TOOLS/matroska.py\<close> and are an argument; \<open>widen\<close> converts a float to a double.
\<close>

type_synonym ebml_double = "64 word"

abbreviation (input) EBML_ID_INVALID :: "32 word" where "EBML_ID_INVALID \<equiv> 0xFFFFFFFF"
abbreviation (input) EBML_UINT_INVALID :: "64 word" where "EBML_UINT_INVALID \<equiv> 0xFFFFFFFFFFFFFFFF"
abbreviation (input) EBML_INT_INVALID :: "64 word" where "EBML_INT_INVALID \<equiv> 0x7FFFFFFFFFFFFFFF"
abbreviation (input) EBML_FLOAT_INVALID :: ebml_double where "EBML_FLOAT_INVALID \<equiv> 0xC1CDCD6500000000"

text \<open>The number of zero bits in front of the first one of a byte, at most \<open>n\<close>: what the loops over \<open>len_mask\<close> count.\<close>

definition leading :: "nat \<Rightarrow> ('w::len) word \<Rightarrow> nat" where
  "leading n x = length (takeWhile (\<lambda>j. \<not> bit x (7 - j)) [0..<n])"

subsection \<open>Readers on a stream\<close>

fun shift_chars :: "'d driver \<Rightarrow> nat \<Rightarrow> ('w::len) word \<times> 'd cstream \<Rightarrow> ('w word \<times> 'd cstream) option" where
  "shift_chars drv 0 r = Some r"
| "shift_chars drv (Suc n) r = do { r \<leftarrow> shift_char drv r; shift_chars drv n r }"

text \<open>The results have what is written through \<open>length\<close>, if anything is.\<close>

definition ebml_read_id :: "'d driver \<Rightarrow> 'd cstream \<Rightarrow> (32 word \<times> int option \<times> 'd cstream) option" where
  "ebml_read_id drv s =
     do {
       (c, s) \<leftarrow> stream_read_char drv s;
       let id = word_of_int c;
       let i = leading 4 id;
       if 4 \<le> i then Some (EBML_ID_INVALID, None, s)
       else do { (id, s) \<leftarrow> shift_chars drv i (id, s); Some (id, Some (int i + 1), s) } }"

text \<open>The bytes of a number behind the first, and how many of them are 255.\<close>

fun vlen_chars :: "'d driver \<Rightarrow> nat \<Rightarrow> 64 word \<Rightarrow> nat \<Rightarrow> 'd cstream \<Rightarrow> (64 word \<times> nat \<times> 'd cstream) option" where
  "vlen_chars drv 0 num ffs s = Some (num, ffs, s)"
| "vlen_chars drv (Suc n) num ffs s =
     do {
       (num, s) \<leftarrow> shift_char drv (num, s);
       vlen_chars drv n num (if and num 0xFF = 0xFF then Suc ffs else ffs) s }"

definition ebml_read_length :: "'d driver \<Rightarrow> 'd cstream \<Rightarrow> (64 word \<times> int option \<times> 'd cstream) option" where
  "ebml_read_length drv s =
     do {
       (c, s) \<leftarrow> stream_read_char drv s;
       let len = (word_of_int c :: 64 word);
       let i = leading 8 len;
       if 8 \<le> i then Some (EBML_UINT_INVALID, None, s)
       else do {
         let len = and len (mask (7 - i));
         (len, ffs, s) \<leftarrow> vlen_chars drv i len (if len = mask (7 - i) then 1 else 0) s;
         Some (if ffs = Suc i \<or> bit len 63 then EBML_UINT_INVALID else len, Some (int i + 1), s) } }"

definition ebml_read_uint :: "'d driver \<Rightarrow> 'd cstream \<Rightarrow> (64 word \<times> 64 word option \<times> 'd cstream) option" where
  "ebml_read_uint drv s =
     do {
       (len, l, s) \<leftarrow> ebml_read_length drv s;
       if len = EBML_UINT_INVALID \<or> len < 1 \<or> 8 < len then Some (EBML_UINT_INVALID, None, s)
       else do {
         l \<leftarrow> l;
         (value, s) \<leftarrow> shift_chars drv (unat len) (0, s);
         Some (value, Some (len + word_of_int l), s) } }"

definition ebml_read_int :: "'d driver \<Rightarrow> 'd cstream \<Rightarrow> (64 word \<times> 64 word option \<times> 'd cstream) option" where
  "ebml_read_int drv s =
     do {
       (len, l, s) \<leftarrow> ebml_read_length drv s;
       if len = EBML_UINT_INVALID \<or> len < 1 \<or> 8 < len then Some (EBML_INT_INVALID, None, s)
       else do {
         l \<leftarrow> l;
         let total_len = len + word_of_int l;
         (c, s) \<leftarrow> stream_read_char drv s;
         let value = (if and c 0x80 \<noteq> 0 then -1 else 0);
         (value, s) \<leftarrow> shift_chars drv (unat (len - 1)) (or (push_bit 8 value) (word_of_int c), s);
         Some (value, Some total_len, s) } }"

definition ebml_read_float :: "(32 word \<Rightarrow> ebml_double) \<Rightarrow> 'd driver \<Rightarrow> 'd cstream \<Rightarrow> (ebml_double \<times> 64 word option \<times> 'd cstream) option" where
  "ebml_read_float widen drv s =
     do {
       (len, l, s) \<leftarrow> ebml_read_length drv s;
       if len = 4 then do { l \<leftarrow> l; (x, s) \<leftarrow> stream_read_dword drv s; Some (widen x, Some (len + word_of_int l), s) }
       else if len = 8 then do { l \<leftarrow> l; (x, s) \<leftarrow> stream_read_qword drv s; Some (x, Some (len + word_of_int l), s) }
       else Some (EBML_FLOAT_INVALID, None, s) }"

text \<open>The bytes of the block; \<open>stream_read\<close> takes its size as an \<open>int\<close>, \<open>junk\<close> are the contents of new memory.\<close>

definition ebml_read_ascii :: "(nat \<Rightarrow> char) \<Rightarrow> 'd driver \<Rightarrow> 'd cstream \<Rightarrow> (string option \<times> 64 word option \<times> 'd cstream) option" where
  "ebml_read_ascii junk drv s =
     do {
       (len, l, s) \<leftarrow> ebml_read_length drv s;
       if len = EBML_UINT_INVALID then Some (None, None, s)
       else do {
         l \<leftarrow> l;
         (bs, s) \<leftarrow> stream_read drv s (c_int (uint len));
         Some (if int (length bs) \<noteq> c_int (uint len) then None else Some (bs @ map junk [length bs..<unat len]),
               Some (len + word_of_int l), s) } }"

definition ebml_read_utf8 :: "(nat \<Rightarrow> char) \<Rightarrow> 'd driver \<Rightarrow> 'd cstream \<Rightarrow> (string option \<times> 64 word option \<times> 'd cstream) option" where
  "ebml_read_utf8 = ebml_read_ascii"

definition ebml_read_skip :: "'d driver \<Rightarrow> 'd cstream \<Rightarrow> (int \<times> 64 word option \<times> 'd cstream) option" where
  "ebml_read_skip drv s =
     do {
       (len, l, s) \<leftarrow> ebml_read_length drv s;
       if len = EBML_UINT_INVALID then Some (1, None, s)
       else do { l \<leftarrow> l; (_, s) \<leftarrow> stream_skip drv s (uint len); Some (0, Some (len + word_of_int l), s) } }"

definition ebml_read_master :: "'d driver \<Rightarrow> 'd cstream \<Rightarrow> (32 word \<times> 64 word option \<times> 'd cstream) option" where
  "ebml_read_master drv s =
     do {
       (id, _, s) \<leftarrow> ebml_read_id drv s;
       if id = EBML_ID_INVALID then Some (id, None, s)
       else do {
         (len, _, s) \<leftarrow> ebml_read_length drv s;
         if len = EBML_UINT_INVALID then Some (EBML_ID_INVALID, None, s) else Some (id, Some len, s) } }"

subsection \<open>Numbers in memory\<close>

fun shift_bytes :: "string \<Rightarrow> int \<Rightarrow> nat \<Rightarrow> ('w::len) word \<Rightarrow> 'w word option" where
  "shift_bytes mem p 0 x = Some x"
| "shift_bytes mem p (Suc n) x = do { b \<leftarrow> byte_of mem p; shift_bytes mem (p + 1) n (or (push_bit 8 x) (word_of_int b)) }"

fun vlen_bytes :: "string \<Rightarrow> int \<Rightarrow> nat \<Rightarrow> 64 word \<Rightarrow> nat \<Rightarrow> (64 word \<times> nat) option" where
  "vlen_bytes mem p 0 num ffs = Some (num, ffs)"
| "vlen_bytes mem p (Suc n) num ffs =
     do { b \<leftarrow> byte_of mem p; vlen_bytes mem (p + 1) n (or (push_bit 8 num) (word_of_int b)) (if b = 0xFF then Suc ffs else ffs) }"

text \<open>The number and its length, which is not written if it is invalid from its first byte.\<close>

definition ebml_read_vlen_uint :: "string \<Rightarrow> int \<Rightarrow> (64 word \<times> int option) option" where
  "ebml_read_vlen_uint mem p =
     do {
       b \<leftarrow> byte_of mem p;
       let num = (word_of_int b :: 64 word);
       let i = leading 8 num;
       if 8 \<le> i then Some (EBML_UINT_INVALID, None)
       else do {
         let num = and num (mask (7 - i));
         (num, ffs) \<leftarrow> vlen_bytes mem (p + 1) i num (if num = mask (7 - i) then 1 else 0);
         Some (if ffs = Suc i then EBML_UINT_INVALID else num, Some (int i + 1)) } }"

text \<open>The shift is one of an \<open>int\<close>.\<close>

definition ebml_read_vlen_int :: "string \<Rightarrow> int \<Rightarrow> (64 word \<times> int option) option" where
  "ebml_read_vlen_int mem p =
     do {
       (unum, l) \<leftarrow> ebml_read_vlen_uint mem p;
       if unum = EBML_UINT_INVALID then Some (EBML_INT_INVALID, None)
       else do {
         l \<leftarrow> l;
         if 31 \<le> 7 * l - 1 then None else Some (unum - word_of_int (2 ^ nat (7 * l - 1) - 1), Some l) } }"

definition ebml_parse_id :: "string \<Rightarrow> int \<Rightarrow> (32 word \<times> int) option" where
  "ebml_parse_id mem p =
     do {
       b \<leftarrow> byte_of mem p;
       let id = word_of_int b;
       let i = leading 4 id;
       if 4 \<le> i then Some (EBML_ID_INVALID, -1)
       else do { id \<leftarrow> shift_bytes mem (p + 1) i id; Some (id, int i + 1) } }"

definition parse_vlen :: "string \<Rightarrow> int \<Rightarrow> bool \<Rightarrow> (64 word \<times> int) option" where
  "parse_vlen mem p is_length =
     do {
       b \<leftarrow> byte_of mem p;
       let r = (word_of_int b :: 64 word);
       let i = leading 8 r;
       if 8 \<le> i then Some (-1, -1)
       else do {
         let r = and r (mask (7 - i));
         (r, num_allones) \<leftarrow> vlen_bytes mem (p + 1) i r (if r = mask (7 - i) then 1 else 0);
         if is_length \<and> num_allones = Suc i then Some (-1, -1) else Some (r, int i + 1) } }"

definition ebml_parse_length :: "string \<Rightarrow> int \<Rightarrow> (64 word \<times> int) option" where
  "ebml_parse_length mem p = parse_vlen mem p True"

definition ebml_parse_uint :: "string \<Rightarrow> int \<Rightarrow> int \<Rightarrow> 64 word option" where
  "ebml_parse_uint mem p len = (if 1 \<le> len \<and> len \<le> 8 then shift_bytes mem p (nat len) 0 else None)"

definition ebml_parse_sint :: "string \<Rightarrow> int \<Rightarrow> int \<Rightarrow> 64 word option" where
  "ebml_parse_sint mem p len =
     (if 1 \<le> len \<and> len \<le> 8
      then do { b \<leftarrow> byte_of mem p; shift_bytes mem p (nat len) (if and b 0x80 \<noteq> 0 then -1 else 0) } else None)"

definition ebml_parse_float :: "(32 word \<Rightarrow> ebml_double) \<Rightarrow> string \<Rightarrow> int \<Rightarrow> int \<Rightarrow> ebml_double option" where
  "ebml_parse_float widen mem p len =
     (if len = 4 \<or> len = 8 then do { i \<leftarrow> ebml_parse_uint mem p len; Some (if len = 4 then widen (ucast i) else i) } else None)"

subsection \<open>Descriptions and structures\<close>

datatype ebml_elemtype =
  EBML_TYPE_SUBELEMENTS | EBML_TYPE_UINT | EBML_TYPE_SINT | EBML_TYPE_FLOAT | EBML_TYPE_STR | EBML_TYPE_BINARY | EBML_TYPE_EBML_ID

text \<open>The offsets of a field and its count in the structure are its place in the list.\<close>

datatype ebml_elem_desc = Elem_desc (ed_name: string) (ed_type: ebml_elemtype) (ed_size: int) (ed_fields: "ebml_field_desc list")
  and ebml_field_desc = Field_desc (fd_id: "32 word") (fd_multiple: bool) (fd_desc: ebml_elem_desc)

text \<open>
  A structure has the values of each of its fields, as many as the count of the field; a place
  behind the count is not kept, although a value that is found broken is written there.
\<close>

datatype ebml_value =
  Ebml_sub "ebml_value list list" | Ebml_uint "64 word" | Ebml_sint "64 word" | Ebml_float ebml_double | Ebml_str string |
  Ebml_binary string | Ebml_id "32 word"

type_synonym ebml_struct = "ebml_value list list"

fun index_of :: "ebml_field_desc list \<Rightarrow> 32 word \<Rightarrow> nat option" where
  "index_of [] k = None"
| "index_of (f # fs) k = (if fd_id f = k then Some 0 else map_option Suc (index_of fs k))"

abbreviation (input) field_index :: "ebml_elem_desc \<Rightarrow> 32 word \<Rightarrow> nat option" where
  "field_index d k \<equiv> index_of (ed_fields d) k"

abbreviation (input) field_type :: "ebml_elem_desc \<Rightarrow> nat \<Rightarrow> ebml_elemtype" where
  "field_type d i \<equiv> ed_type (fd_desc (ed_fields d ! i))"

subsection \<open>The parser\<close>

text \<open>
  The first loop counts the subelements of each field and finds the end of what can be parsed;
  \<open>err\<close> is \<open>has_errors\<close>.
\<close>

lemma parse_id_len: "ebml_parse_id mem p = Some (k, len) \<Longrightarrow> len = -1 \<or> 1 \<le> len"
  by (auto simp: ebml_parse_id_def Let_def split: if_splits elim!: bind_eq_SomeE)

lemma parse_length_len: "ebml_parse_length mem p = Some (n, len) \<Longrightarrow> len = -1 \<or> 1 \<le> len"
  by (auto simp: ebml_parse_length_def parse_vlen_def Let_def split: if_splits elim!: bind_eq_SomeE)

lemma moves_on: "p < e \<Longrightarrow> 1 \<le> len \<Longrightarrow> 0 \<le> len2 \<Longrightarrow> 0 \<le> (n :: int) \<Longrightarrow> nat (e - (p + len + len2 + n)) < nat (e - p)"
  by simp

function count_elems :: "ebml_elem_desc \<Rightarrow> string \<Rightarrow> int \<Rightarrow> int \<Rightarrow> nat list \<Rightarrow> bool \<Rightarrow> (int \<times> nat list \<times> bool) option" where
  "count_elems d mem e p nums err =
     (if p < e
      then do {
        (id, len) \<leftarrow> ebml_parse_id mem p;
        if e - p < len \<or> len < 0 then Some (p, nums, True)
        else do {
          (length, len2) \<leftarrow> ebml_parse_length mem (p + len);
          if e - (p + len) < len2 \<or> len2 < 0 then Some (p, nums, True)
          else do {
            let q = p + len + len2;
            let field_idx = field_index d id;
            let nums = (case field_idx of Some i \<Rightarrow> nums[i := Suc (nums ! i)] | None \<Rightarrow> nums);
            if e - q < uint length
            then (if (case field_idx of Some i \<Rightarrow> field_type d i \<noteq> EBML_TYPE_SUBELEMENTS | None \<Rightarrow> False) then Some (p, nums, True)
                  else count_elems d mem e e nums True)
            else count_elems d mem e (q + uint length) nums err } } }
      else Some (e, nums, err))"
  by pat_completeness auto

termination
proof (relation "measure (\<lambda>(d, mem, e, p, nums, err). nat (e - p))")
  fix d mem e p nums err r k len r2 length len2 q x nums'
  assume a: "p < e" "ebml_parse_id mem p = Some r" "(k, len) = r" "\<not> (e - p < len \<or> len < 0)"
    "ebml_parse_length mem (p + len) = Some r2" "(length, len2) = r2" "\<not> (e - (p + len) < len2 \<or> len2 < 0)" "q = p + len + len2"
    "\<not> e - q < uint (length :: 64 word)"
  have "1 \<le> len" using a parse_id_len [of mem p k len] by auto
  then show "((d, mem, e, q + uint length, nums', err), d, mem, e, p, nums, err) \<in> measure (\<lambda>(d, mem, e, p, nums, err). nat (e - p))"
    using moves_on [of p e len len2 "uint length"] a by simp
qed auto

declare count_elems.simps [simp del]

text \<open>The arrays of repeated fields; those of structures are limited in size.\<close>

definition alloc_elems :: "ebml_elem_desc \<Rightarrow> nat list \<Rightarrow> nat list option" where
  "alloc_elems d nums =
     those (map (\<lambda>(fd, n).
       if n \<noteq> 0 \<and> fd_multiple fd \<and> ed_type (fd_desc fd) = EBML_TYPE_SUBELEMENTS
       then (if ed_size (fd_desc fd) = 0 then None else Some (nat (min (int n) (1000000000 sdiv ed_size (fd_desc fd)))))
       else Some n) (zip (ed_fields d) nums))"

text \<open>The value of a subelement that is none with subelements of its own; \<open>None\<close> inside if it is broken.\<close>

definition parse_value ::
  "(32 word \<Rightarrow> ebml_double) \<Rightarrow> string \<Rightarrow> ebml_elemtype \<Rightarrow> int \<Rightarrow> int \<Rightarrow> ebml_value option option"
where
  "parse_value widen mem ty p n =
     (case ty of
        EBML_TYPE_SUBELEMENTS \<Rightarrow> None
      | EBML_TYPE_UINT \<Rightarrow> if n < 1 \<or> 8 < n then Some None else map_option (\<lambda>x. Some (Ebml_uint x)) (ebml_parse_uint mem p n)
      | EBML_TYPE_SINT \<Rightarrow> if n < 1 \<or> 8 < n then Some None else map_option (\<lambda>x. Some (Ebml_sint x)) (ebml_parse_sint mem p n)
      | EBML_TYPE_FLOAT \<Rightarrow> if n \<noteq> 4 \<and> n \<noteq> 8 then Some None else map_option (\<lambda>x. Some (Ebml_float x)) (ebml_parse_float widen mem p n)
      | EBML_TYPE_STR \<Rightarrow> map_option (\<lambda>x. Some (Ebml_str x)) (get_bytes p n mem)
      | EBML_TYPE_BINARY \<Rightarrow> map_option (\<lambda>x. Some (Ebml_binary x)) (get_bytes p n mem)
      | EBML_TYPE_EBML_ID \<Rightarrow> do { (id, len) \<leftarrow> ebml_parse_id mem p; Some (if len \<noteq> n then None else Some (Ebml_id id)) })"

lemma part_moves_on:
  assumes "p < e" and "ebml_parse_id mem p = Some r" and "(k, len) = r" and "\<not> (len < 0 \<or> e - p < len)" and "\<not> (len2 < 0 \<or> e - (p + len) < len2)"
    and "q = p + len + len2" and "n = (if e - q < uint (x :: 64 word) then e - q else uint x)"
  shows "nat (e - (q + n)) < nat (e - p)"
proof -
  have l: "1 \<le> len" "0 \<le> len2" using assms parse_id_len [of mem p k len] by auto
  have "0 \<le> n" unfolding assms(7) using assms(5,6) uint_ge_0 [of x] by (simp split: if_splits)
  from moves_on [OF assms(1) l this] show ?thesis using assms(6) by simp
qed

text \<open>
  The second loop fills the structure \<open>st\<close>; \<open>sub\<close> is the parser for a subelement that has
  subelements of its own.
\<close>

function parse_elems ::
  "(ebml_elem_desc \<Rightarrow> int \<Rightarrow> int \<Rightarrow> bool \<Rightarrow> (ebml_struct \<times> bool) option) \<Rightarrow> (32 word \<Rightarrow> ebml_double) \<Rightarrow> ebml_elem_desc \<Rightarrow> string \<Rightarrow> int \<Rightarrow>
   nat list \<Rightarrow> int \<Rightarrow> ebml_struct \<Rightarrow> bool \<Rightarrow> (ebml_struct \<times> bool) option"
where
  "parse_elems sub widen d mem e nums p st err =
     (if p < e
      then do {
        (id, len) \<leftarrow> ebml_parse_id mem p;
        if len < 0 \<or> e - p < len then None
        else do {
          (length, len2) \<leftarrow> ebml_parse_length mem (p + len);
          if len2 < 0 \<or> e - (p + len) < len2 then None
          else do {
            let q = p + len + len2;
            let n = (if e - q < uint length then e - q else uint length);
            case field_index d id of
              None \<Rightarrow> parse_elems sub widen d mem e nums (q + n) st err
            | Some i \<Rightarrow>
                if nums ! i \<le> List.length (st ! i) then parse_elems sub widen d mem e nums (q + n) st True
                else if 0 < List.length (st ! i) \<and> \<not> fd_multiple (ed_fields d ! i) then parse_elems sub widen d mem e nums (q + n) st True
                else do {
                  (v, err) \<leftarrow>
                    (if field_type d i = EBML_TYPE_SUBELEMENTS
                     then map_option (\<lambda>(x, err). (Some (Ebml_sub x), err)) (sub (fd_desc (ed_fields d ! i)) q n err)
                     else map_option (\<lambda>v. (v, err)) (parse_value widen mem (field_type d i) q n));
                  parse_elems sub widen d mem e nums (q + n) (case v of None \<Rightarrow> st | Some v \<Rightarrow> st[i := st ! i @ [v]]) err } } } }
      else Some (st, err))"
  by pat_completeness auto

termination
  by (relation "measure (\<lambda>(sub, widen, d, mem, e, nums, p, st, err). nat (e - p))")
     (rule wf_measure | (unfold in_measure prod.case, rule part_moves_on; assumption))+

declare parse_elems.simps [simp del]

text \<open>\<open>left\<close> is the number of levels left of the 8 that are allowed.\<close>

primrec ebml_parse_element ::
  "nat \<Rightarrow> (32 word \<Rightarrow> ebml_double) \<Rightarrow> string \<Rightarrow> ebml_elem_desc \<Rightarrow> int \<Rightarrow> int \<Rightarrow> bool \<Rightarrow> (ebml_struct \<times> bool) option"
where
  "ebml_parse_element 0 widen mem d p n err = None"
| "ebml_parse_element (Suc left) widen mem d p n err =
     (if ed_type d \<noteq> EBML_TYPE_SUBELEMENTS then None
      else do {
        (e, nums, err) \<leftarrow> count_elems d mem (p + n) p (replicate (length (ed_fields d)) 0) err;
        nums \<leftarrow> alloc_elems d nums;
        parse_elems (ebml_parse_element left widen mem) widen d mem e nums p (replicate (length (ed_fields d)) []) err })"

text \<open>The result, the structure, \<open>has_errors\<close> and \<open>bytes_read\<close>.\<close>

definition ebml_read_element ::
  "(nat \<Rightarrow> char) \<Rightarrow> (32 word \<Rightarrow> ebml_double) \<Rightarrow> 'd driver \<Rightarrow> int \<Rightarrow> 'd cstream \<Rightarrow> ebml_elem_desc \<Rightarrow>
   (int \<times> ebml_struct option \<times> bool \<times> int \<times> 'd cstream) option"
where
  "ebml_read_element junk widen drv bytes_read s d =
     do {
       (n, l, s) \<leftarrow> ebml_read_length drv s;
       let bytes_read = (case l of None \<Rightarrow> bytes_read | Some l \<Rightarrow> l);
       if s_eof (st_of s) then Some (-1, None, False, bytes_read, s)
       else if 1000000000 < n then Some (-1, None, False, bytes_read, s)
       else do {
         (bs, s) \<leftarrow> stream_read drv s (uint n);
         let mem = bs @ map junk [length bs..<unat n + 8];
         (st, err) \<leftarrow> ebml_parse_element 8 widen mem d 0 (int (length bs)) False;
         Some (0, Some st, err, bytes_read + int (length bs), s) } }"

end
