(* ===== verification/Ebml_Spec.thy ===== *)
theory Ebml_Spec
  imports Ebml Demux_Raw
begin

text \<open>
  The Matroska parser: it stays inside its block whatever the bytes are, and reads back what a
  writer of the format wrote, from memory and from a file.
\<close>

subsection \<open>It stays inside the block\<close>

text \<open>The depth of a description, and the sizes of its structures.\<close>

fun desc_ok :: "nat \<Rightarrow> ebml_elem_desc \<Rightarrow> bool" where
  "desc_ok 0 d \<longleftrightarrow> False"
| "desc_ok (Suc n) d \<longleftrightarrow>
     ed_type d = EBML_TYPE_SUBELEMENTS \<and>
     list_all (\<lambda>f. ed_type (fd_desc f) = EBML_TYPE_SUBELEMENTS \<longrightarrow> 0 < ed_size (fd_desc f) \<and> desc_ok n (fd_desc f)) (ed_fields d)"

lemma leading_le: "leading n x \<le> n"
  using length_takeWhile_le [of _ "[0..<n]"] by (simp add: leading_def)

lemma shift_bytes_some: "0 \<le> p \<Longrightarrow> p + int n \<le> int (length mem) \<Longrightarrow> \<exists>y. shift_bytes mem p n x = Some y"
  by (induction n arbitrary: p x) (simp_all add: byte_ofI)

lemma vlen_bytes_some: "0 \<le> p \<Longrightarrow> p + int n \<le> int (length mem) \<Longrightarrow> \<exists>y. vlen_bytes mem p n x k = Some y"
  by (induction n arbitrary: p x k) (simp_all add: byte_ofI)

lemma parse_id_some:
  assumes "0 \<le> p" and "p + 4 \<le> int (length mem)"
  shows "\<exists>k len. ebml_parse_id mem p = Some (k, len)"
proof -
  define b where "b = int (byte (mem ! nat p))"
  have b: "byte_of mem p = Some b" using byte_ofI [of p mem] assms by (simp add: b_def)
  define i where "i = leading 4 (word_of_int b :: 32 word)"
  show ?thesis
  proof (cases "4 \<le> i")
    case True
    then show ?thesis using b by (simp add: ebml_parse_id_def i_def)
  next
    case False
    obtain y where "shift_bytes mem (p + 1) i (word_of_int b :: 32 word) = Some y"
      using shift_bytes_some [of "p + 1" i mem "word_of_int b"] assms False by auto
    then show ?thesis using b False by (simp add: ebml_parse_id_def i_def)
  qed
qed

lemma parse_vlen_some:
  assumes "0 \<le> p" and "p + 8 \<le> int (length mem)"
  shows "\<exists>r len. parse_vlen mem p is_length = Some (r, len)"
proof -
  define b where "b = int (byte (mem ! nat p))"
  have b: "byte_of mem p = Some b" using byte_ofI [of p mem] assms by (simp add: b_def)
  define i where "i = leading 8 (word_of_int b :: 64 word)"
  define r where "r = and (word_of_int b :: 64 word) (mask (7 - i))"
  show ?thesis
  proof (cases "8 \<le> i")
    case True
    then show ?thesis using b by (simp add: parse_vlen_def i_def)
  next
    case False
    obtain y k where "vlen_bytes mem (p + 1) i r (if r = mask (7 - i) then 1 else 0) = Some (y, k)"
      using vlen_bytes_some [of "p + 1" i mem r "if r = mask (7 - i) then 1 else 0"] assms False by auto
    then show ?thesis using b False by (simp add: parse_vlen_def i_def [symmetric] r_def [symmetric])
  qed
qed

lemma parse_value_some:
  assumes "0 \<le> p" and "0 \<le> n" and "p + n + 8 \<le> int (length mem)" and "ty \<noteq> EBML_TYPE_SUBELEMENTS"
  shows "\<exists>v. parse_value widen mem ty p n = Some v"
proof -
  have u: "\<exists>y. shift_bytes mem p (nat n) x = Some y" for x :: "64 word" by (rule shift_bytes_some) (use assms in simp_all)
  have b: "byte_of mem p = Some (int (byte (mem ! nat p)))" using byte_ofI [of p mem] assms by simp
  have i: "\<exists>k len. ebml_parse_id mem p = Some (k, len)" by (rule parse_id_some) (use assms in simp_all)
  have g: "\<exists>bs. get_bytes p n mem = Some bs" using assms by (simp add: get_bytes_def)
  show ?thesis
  proof (cases ty)
    case EBML_TYPE_FLOAT
    obtain y where "shift_bytes mem p (nat n) 0 = Some (y :: 64 word)" using u by blast
    then show ?thesis using EBML_TYPE_FLOAT by (auto simp: parse_value_def ebml_parse_float_def ebml_parse_uint_def)
  qed (use u i g assms(4) in \<open>auto simp: parse_value_def ebml_parse_uint_def ebml_parse_sint_def b\<close>)
qed

text \<open>One round of the second loop.\<close>

lemma index_of_less: "index_of fs k = Some i \<Longrightarrow> i < length fs \<and> fd_id (fs ! i) = k"
  by (induction fs arbitrary: i) (auto split: if_splits)

lemma parse_elems_round:
  assumes "p < e" and "ebml_parse_id mem p = Some (k, len)" and "0 \<le> len" and "len \<le> e - p"
    and "ebml_parse_length mem (p + len) = Some (x, len2)" and "0 \<le> len2" and "len2 \<le> e - (p + len)"
    and "q = p + len + len2" and "n = (if e - q < uint x then e - q else uint x)"
  shows "parse_elems sub widen d mem e nums p st err =
     (case index_of (ed_fields d) k of
        None \<Rightarrow> parse_elems sub widen d mem e nums (q + n) st err
      | Some i \<Rightarrow>
          if nums ! i \<le> length (st ! i) then parse_elems sub widen d mem e nums (q + n) st True
          else if 0 < length (st ! i) \<and> \<not> fd_multiple (ed_fields d ! i) then parse_elems sub widen d mem e nums (q + n) st True
          else do {
            (v, err) \<leftarrow>
              (if ed_type (fd_desc (ed_fields d ! i)) = EBML_TYPE_SUBELEMENTS
               then map_option (\<lambda>(x, err). (Some (Ebml_sub x), err)) (sub (fd_desc (ed_fields d ! i)) q n err)
               else map_option (\<lambda>v. (v, err)) (parse_value widen mem (ed_type (fd_desc (ed_fields d ! i))) q n));
            parse_elems sub widen d mem e nums (q + n) (case v of None \<Rightarrow> st | Some v \<Rightarrow> st[i := st ! i @ [v]]) err })"
proof -
  have c: "(len < 0 \<or> e - p < len) = False" "(len2 < 0 \<or> e - (p + len) < len2) = False" "(p < e) = True" using assms by auto
  show ?thesis
    by (subst parse_elems.simps)
       (simp only: c assms(2,5) bind.simps prod.case if_True if_False Let_def assms(8) [symmetric] assms(9) [symmetric])
qed

lemma parse_elems_end: "parse_elems sub widen d mem e nums e st err = Some (st, err)"
  by (subst parse_elems.simps) simp

lemma parse_elems_goes_on:
  assumes "p < e" and "ebml_parse_id mem p = Some (k, len)" and "0 \<le> len" and "len \<le> e - p"
    and "ebml_parse_length mem (p + len) = Some (x, len2)" and "0 \<le> len2" and "len2 \<le> e - (p + len)"
    and "q = p + len + len2" and "n = (if e - q < uint x then e - q else uint x)"
    and "\<And>ns st err. \<exists>y err'. parse_elems sub widen d mem e ns (q + n) st err = Some (y, err')"
    and "\<And>i err. i < length (ed_fields d) \<Longrightarrow> ed_type (fd_desc (ed_fields d ! i)) = EBML_TYPE_SUBELEMENTS \<Longrightarrow>
      \<exists>x err'. sub (fd_desc (ed_fields d ! i)) q n err = Some (x, err')"
    and "0 \<le> q" and "q + n + 8 \<le> int (length mem)" and "0 \<le> n"
  shows "\<exists>y err'. parse_elems sub widen d mem e ns p st err = Some (y, err')"
proof (cases "index_of (ed_fields d) k")
  case None
  then show ?thesis using assms(10) parse_elems_round [OF assms(1-9), of sub widen d ns st err] by simp
next
  case (Some i)
  let ?t = "ed_type (fd_desc (ed_fields d ! i))"
  have "\<exists>v err'. (if ?t = EBML_TYPE_SUBELEMENTS then map_option (\<lambda>(x, err). (Some (Ebml_sub x), err)) (sub (fd_desc (ed_fields d ! i)) q n err)
      else map_option (\<lambda>v. (v, err)) (parse_value widen mem ?t q n)) = Some (v, err')"
  proof (cases "?t = EBML_TYPE_SUBELEMENTS")
    case True
    then show ?thesis using assms(11) [of i err] index_of_less [OF Some] by auto
  next
    case False
    from parse_value_some [OF assms(12,14,13) False, of widen] show ?thesis using False by auto
  qed
  then obtain v err' where v: "(if ?t = EBML_TYPE_SUBELEMENTS then map_option (\<lambda>(x, err). (Some (Ebml_sub x), err)) (sub (fd_desc (ed_fields d ! i)) q n err)
      else map_option (\<lambda>v. (v, err)) (parse_value widen mem ?t q n)) = Some (v, err')" by blast
  show ?thesis
    unfolding parse_elems_round [OF assms(1-9), of sub widen d ns st err] Some option.case v
    using assms(10) by simp
qed

text \<open>The second loop goes through the places the first went through.\<close>

lemma parse_elems_safe:
  assumes "count_elems d mem e p nums err = Some (e', nums', err')" and "0 \<le> p" and "p \<le> e" and "e + 8 \<le> int (length mem)"
    and sub: "\<And>i q n err. i < length (ed_fields d) \<Longrightarrow> ed_type (fd_desc (ed_fields d ! i)) = EBML_TYPE_SUBELEMENTS \<Longrightarrow>
      0 \<le> q \<Longrightarrow> 0 \<le> n \<Longrightarrow> q + n \<le> e \<Longrightarrow> \<exists>x err'. sub (fd_desc (ed_fields d ! i)) q n err = Some (x, err')"
  shows "p \<le> e' \<and> e' \<le> e \<and> (\<forall>ns st err. \<exists>x err'. parse_elems sub widen d mem e' ns p st err = Some (x, err'))"
  using assms(1-4)
proof (induction "nat (e - p)" arbitrary: p nums err rule: less_induct)
  case less
  show ?case
  proof (cases "p < e")
    case False
    then show ?thesis using less.prems by (subst (asm) count_elems.simps) (auto simp: parse_elems_end)
  next
    case True
    from parse_id_some [of p mem] less.prems True obtain k len where id: "ebml_parse_id mem p = Some (k, len)" by auto
    show ?thesis
    proof (cases "e - p < len \<or> len < 0")
      case bad: True
      then show ?thesis using less.prems True id by (subst (asm) count_elems.simps) (auto simp: parse_elems_end)
    next
      case len: False
      from parse_vlen_some [of "p + len" mem True] less.prems len obtain x len2 where
        v: "ebml_parse_length mem (p + len) = Some (x, len2)" by (auto simp: ebml_parse_length_def)
      show ?thesis
      proof (cases "e - (p + len) < len2 \<or> len2 < 0")
        case bad: True
        then show ?thesis using less.prems True id v len by (subst (asm) count_elems.simps) (auto simp: parse_elems_end)
      next
        case len2: False
        define q where "q = p + len + len2"
        define ns where "ns = (case index_of (ed_fields d) k of Some i \<Rightarrow> nums[i := Suc (nums ! i)] | None \<Rightarrow> nums)"
        have l1: "1 \<le> len" using parse_id_len [OF id] len by auto
        have q: "p < q" "q \<le> e" "0 \<le> q" using l1 len len2 less.prems(2) by (auto simp: q_def)
        have u: "0 \<le> uint x" by simp
        have step: "count_elems d mem e p nums err =
            (if e - q < uint x
             then (if (case index_of (ed_fields d) k of Some i \<Rightarrow> ed_type (fd_desc (ed_fields d ! i)) \<noteq> EBML_TYPE_SUBELEMENTS | None \<Rightarrow> False) then Some (p, ns, True)
                   else count_elems d mem e e ns True)
             else count_elems d mem e (q + uint x) ns err)"
          using True id v len len2 by (subst count_elems.simps) (simp add: Let_def q_def ns_def)
        show ?thesis
        proof (cases "e - q < uint x")
          case cut: True
          then consider "e' = p" | "e' = e"
            using less.prems(1) step by (auto simp: count_elems.simps [of d mem e e] split: if_splits)
          then show ?thesis
          proof cases
            case 1
            then show ?thesis using True by (auto simp: parse_elems_end)
          next
            case 2
            have n: "e - q = (if e - q < uint x then e - q else uint x)" using cut by simp
            have c: "0 \<le> len" "len \<le> e - p" "0 \<le> len2" "len2 \<le> e - (p + len)" using len len2 by auto
            have g: "\<exists>y err'. parse_elems sub widen d mem e ns (q + (e - q)) st err = Some (y, err')" for ns st err by (simp add: parse_elems_end)
            have "\<exists>y err'. parse_elems sub widen d mem e ns p st err = Some (y, err')" for ns st err
              by (rule parse_elems_goes_on [OF True id c(1,2) v c(3,4) q_def n g]) (use sub q less.prems in simp_all)
            then show ?thesis using 2 True by simp
          qed
        next
          case whole: False
          let ?p = "q + uint x"
          have less: "nat (e - ?p) < nat (e - p)" using q whole u by linarith
          have prems: "count_elems d mem e ?p ns err = Some (e', nums', err')" "0 \<le> ?p" "?p \<le> e"
            using less.prems(1) step whole q u by simp_all
          from less.hyps [OF less prems less.prems(4)] have IH: "?p \<le> e'" "e' \<le> e"
            "\<And>ns st err. \<exists>x err'. parse_elems sub widen d mem e' ns ?p st err = Some (x, err')" by blast+
          have n: "uint x = (if e' - q < uint x then e' - q else uint x)" using IH(1) by simp
          have pe: "p < e'" using IH(1) q(1) u by linarith
          have c: "0 \<le> len" "len \<le> e' - p" "0 \<le> len2" "len2 \<le> e' - (p + len)"
            using len len2 IH(1) u unfolding q_def by linarith+
          have "\<exists>y err'. parse_elems sub widen d mem e' ns p st err = Some (y, err')" for ns st err
            by (rule parse_elems_goes_on [OF pe id c(1,2) v c(3,4) q_def n IH(3)]) (use sub q IH less.prems(4) u in simp_all)
          then show ?thesis using pe IH(2) by simp
        qed
      qed
    qed
  qed
qed

lemma count_elems_some:
  assumes "0 \<le> p" and "p \<le> e" and "e + 8 \<le> int (length mem)"
  shows "\<exists>r. count_elems d mem e p nums err = Some r"
  using assms
proof (induction "nat (e - p)" arbitrary: p nums err rule: less_induct)
  case less
  show ?case
  proof (cases "p < e")
    case False
    then show ?thesis by (subst count_elems.simps) simp
  next
    case True
    from parse_id_some [of p mem] less.prems True obtain k len where id: "ebml_parse_id mem p = Some (k, len)" by auto
    show ?thesis
    proof (cases "e - p < len \<or> len < 0")
      case bad: True
      then show ?thesis using True id by (subst count_elems.simps) auto
    next
      case len: False
      from parse_vlen_some [of "p + len" mem True] less.prems len obtain x len2 where
        v: "ebml_parse_length mem (p + len) = Some (x, len2)" by (auto simp: ebml_parse_length_def)
      show ?thesis
      proof (cases "e - (p + len) < len2 \<or> len2 < 0")
        case bad: True
        then show ?thesis using True id v len by (subst count_elems.simps) auto
      next
        case len2: False
        have l1: "1 \<le> len" using parse_id_len [OF id] len by auto
        have "\<exists>r. count_elems d mem e (p + len + len2 + uint x) ns err = Some r" if "\<not> e - (p + len + len2) < uint x" for ns err
        proof (rule less.hyps)
          have "0 \<le> uint x" by simp
          then show "nat (e - (p + len + len2 + uint x)) < nat (e - p)" "0 \<le> p + len + len2 + uint x" "p + len + len2 + uint x \<le> e"
            using that l1 len len2 less.prems by linarith+
        qed (rule less.prems)
        moreover have "\<exists>r. count_elems d mem e e ns err = Some r" for ns err by (subst count_elems.simps) simp
        ultimately show ?thesis using True id v len len2 by (subst count_elems.simps) (auto simp: Let_def)
      qed
    qed
  qed
qed

lemma those_some: "list_all (\<lambda>x. x \<noteq> None) xs \<Longrightarrow> \<exists>ys. those xs = Some ys"
  by (induction xs) auto

lemma alloc_elems_some:
  assumes "list_all (\<lambda>f. ed_type (fd_desc f) = EBML_TYPE_SUBELEMENTS \<longrightarrow> 0 < ed_size (fd_desc f)) (ed_fields d)"
  shows "\<exists>ns. alloc_elems d nums = Some ns"
  unfolding alloc_elems_def
proof (rule those_some, unfold list_all_iff set_map, intro ballI, elim imageE)
  fix x and y :: "ebml_field_desc \<times> nat"
  assume "y \<in> set (zip (ed_fields d) nums)" and x: "x = (case y of (fd, n) \<Rightarrow>
       if n \<noteq> 0 \<and> fd_multiple fd \<and> ed_type (fd_desc fd) = EBML_TYPE_SUBELEMENTS
       then (if ed_size (fd_desc fd) = 0 then None else Some (nat (min (int n) (1000000000 sdiv ed_size (fd_desc fd)))))
       else Some n)"
  then have "fst y \<in> set (ed_fields d)" using set_zip_leftD [of "fst y" "snd y" "ed_fields d" nums] by simp
  then show "x \<noteq> None" using assms x by (cases y) (auto simp: list_all_iff)
qed

text \<open>
  C25: The parser of Matroska elements never accesses memory outside its block and none of its
  assertions fails, whatever bytes a file has: for a description of at most as many levels as
  are left, and a block with eight bytes behind the element, it returns.
\<close>

theorem ebml_parse_stays_inside:
  assumes "desc_ok left d" and "0 \<le> p" and "0 \<le> n" and "p + n + 8 \<le> int (length mem)"
  shows "\<exists>st err'. ebml_parse_element left widen mem d p n err = Some (st, err')"
  using assms
proof (induction left arbitrary: d p n err)
  case (Suc left)
  from count_elems_some [of p "p + n" mem d "replicate (length (ed_fields d)) 0" err] Suc.prems
  obtain e' nums err' where c: "count_elems d mem (p + n) p (replicate (length (ed_fields d)) 0) err = Some (e', nums, err')" by auto
  have sub: "\<exists>x err'. ebml_parse_element left widen mem (fd_desc (ed_fields d ! i)) q k err = Some (x, err')"
    if "i < length (ed_fields d)" "ed_type (fd_desc (ed_fields d ! i)) = EBML_TYPE_SUBELEMENTS" "0 \<le> q" "0 \<le> k" "q + k \<le> p + n" for i q k err
    by (rule Suc.IH) (use that Suc.prems in \<open>simp_all add: list_all_length\<close>)
  have "\<exists>x err''. parse_elems (ebml_parse_element left widen mem) widen d mem e' ns p st err' = Some (x, err'')" for ns st
  proof -
    have b: "0 \<le> p" "p \<le> p + n" "p + n + 8 \<le> int (length mem)" using Suc.prems by simp_all
    show ?thesis using parse_elems_safe [where sub = "ebml_parse_element left widen mem" and widen = widen, OF c b] sub by blast
  qed
  moreover obtain ns where "alloc_elems d nums = Some ns"
    using alloc_elems_some [of d nums] Suc.prems(1) by (auto simp: list_all_iff)
  ultimately show ?case using c Suc.prems(1) by simp
qed simp

text \<open>An element whose only subelement claims more bytes than there are.\<close>

definition ex_tag :: ebml_elem_desc where
  "ex_tag =
     Elem_desc ''tag'' EBML_TYPE_SUBELEMENTS 16
       [Field_desc 0x67C8 True (Elem_desc ''simple_tag'' EBML_TYPE_SUBELEMENTS 8 [Field_desc 0x45A3 False (Elem_desc ''tag_name'' EBML_TYPE_STR 16 [])])]"

theorem ebml_parse_stays_inside_witness:
  "\<exists>st err'. ebml_parse_element 8 (\<lambda>_. 0) [CHR 0x67, CHR 0xC8, CHR 0xFE, CHR 0x45, CHR 0xA3, CHR 0x00, CHR 0x00, CHR 0x00, CHR 0x00, CHR 0x00, CHR 0x00, CHR 0x00, CHR 0x00] ex_tag 0 5 False =
     Some (st, err')"
  by (rule ebml_parse_stays_inside) (simp_all add: ex_tag_def numeral_nat)

subsection \<open>Numbers as a writer writes them\<close>

fun be_bytes :: "nat \<Rightarrow> nat \<Rightarrow> string" where
  "be_bytes 0 v = []"
| "be_bytes (Suc n) v = char_of (v div 256 ^ n mod 256) # be_bytes n v"

fun be_value :: "string \<Rightarrow> nat" where
  "be_value [] = 0"
| "be_value (c # cs) = byte c * 256 ^ length cs + be_value cs"

lemma length_be_bytes [simp]: "length (be_bytes n v) = n"
  by (induction n) simp_all

lemma byte_char_mod: "byte (char_of n) = n mod 256"
  by (simp add: byte_def)

lemma be_value_bytes: "be_value (be_bytes n v) = v mod 256 ^ n"
proof (induction n)
  case (Suc n)
  have "v mod (256 ^ n * 256) = 256 ^ n * (v div 256 ^ n mod 256) + v mod 256 ^ n" by (rule mod_mult2_eq)
  then show ?case using Suc by (simp add: byte_char_mod mult.commute)
qed simp

lemma be_value_less: "be_value cs < 256 ^ length cs"
proof (induction cs)
  case (Cons c cs)
  have "byte c \<le> 255" using byte_less_256 [of c] by linarith
  then have "byte c * 256 ^ length cs \<le> 255 * 256 ^ length cs" by simp
  moreover have "(256 :: nat) * 256 ^ length cs = 255 * 256 ^ length cs + 256 ^ length cs" by simp
  ultimately show ?case using Cons unfolding be_value.simps length_Cons power_Suc by linarith
qed simp

lemma be_value_ones: "list_all (\<lambda>c. byte c = 255) cs \<Longrightarrow> be_value cs + 1 = 256 ^ length cs"
  by (induction cs) auto

lemma shift_byte: "or (push_bit 8 x) (word_of_int (int (byte c))) = (x :: 'w::len word) * 256 + of_nat (byte c)"
proof -
  have "\<not> bit (push_bit 8 x) k \<or> \<not> bit (word_of_nat (byte c) :: 'w word) k" for k
  proof (cases "k < 8")
    case False
    then have "(256 :: nat) \<le> 2 ^ k" using power_increasing [of 8 k "2 :: nat"] by simp
    then have "byte c < 2 ^ k" using byte_less_256 [of c] by linarith
    then show ?thesis by (simp add: bit_of_nat_iff bit_iff_odd [of "byte c"])
  qed (simp add: bit_push_bit_iff)
  then have "or (push_bit 8 x) (word_of_nat (byte c)) = push_bit 8 x + word_of_nat (byte c)"
    using disjunctive_add_eq_or [of "push_bit 8 x" "word_of_nat (byte c)"] by (simp add: bit_eq_iff bit_and_iff)
  then show ?thesis by (simp add: push_bit_eq_mult mult.commute)
qed

lemma byte_of_drop: "0 \<le> p \<Longrightarrow> drop (nat p) mem = c # r \<Longrightarrow> byte_of mem p = Some (int (byte c))"
proof -
  assume a: "0 \<le> p" "drop (nat p) mem = c # r"
  have "nat p < length mem" using a(2) by (metis drop_eq_Nil2 leI list.discI)
  moreover have "mem ! nat p = c" using a(2) \<open>nat p < length mem\<close> by (metis Cons_nth_drop_Suc list.inject)
  ultimately show ?thesis using byte_ofI [of p mem] a(1) by simp
qed

lemma drop_next: "0 \<le> p \<Longrightarrow> drop (nat p) mem = bs @ r \<Longrightarrow> drop (nat (p + int (length bs))) mem = r"
proof -
  assume a: "0 \<le> p" "drop (nat p) mem = bs @ r"
  have "nat (p + int (length bs)) = length bs + nat p" using a(1) by simp
  then show ?thesis using a(2) by (metis append_eq_conv_conj drop_drop)
qed

lemma shift_bytes_read:
  "0 \<le> p \<Longrightarrow> drop (nat p) mem = bs @ r \<Longrightarrow> shift_bytes mem p (length bs) x = Some (x * 256 ^ length bs + of_nat (be_value bs))"
proof (induction bs arbitrary: p x)
  case (Cons c bs)
  have d: "drop (nat (p + 1)) mem = bs @ r" using drop_next [of p mem "[c]" "bs @ r"] Cons.prems by simp
  have b: "byte_of mem p = Some (int (byte c))" by (rule byte_of_drop [OF Cons.prems(1)]) (use Cons.prems(2) in simp)
  show ?case using Cons.IH [OF _ d, of "x * 256 + of_nat (byte c)"] Cons.prems(1) b shift_byte [of x c] by (simp add: algebra_simps)
qed simp

lemma vlen_bytes_read:
  "0 \<le> p \<Longrightarrow> drop (nat p) mem = bs @ r \<Longrightarrow>
   vlen_bytes mem p (length bs) x k = Some (x * 256 ^ length bs + of_nat (be_value bs), k + length (filter (\<lambda>c. byte c = 255) bs))"
proof (induction bs arbitrary: p x k)
  case (Cons c bs)
  have d: "drop (nat (p + 1)) mem = bs @ r" using drop_next [of p mem "[c]" "bs @ r"] Cons.prems by simp
  have b: "byte_of mem p = Some (int (byte c))" by (rule byte_of_drop [OF Cons.prems(1)]) (use Cons.prems(2) in simp)
  show ?case using Cons.IH [OF _ d, of "x * 256 + of_nat (byte c)"] Cons.prems(1) b shift_byte [of x c] by (simp add: algebra_simps)
qed simp

lemma leading_exact:
  assumes "i < m" and "i \<le> 7" and "2 ^ (7 - i) \<le> b" and "b < 2 ^ (8 - i)" and "8 \<le> LENGTH('w::len)"
  shows "leading m (word_of_nat b :: 'w word) = i"
proof -
  have bit: "bit (word_of_nat b :: 'w word) k \<longleftrightarrow> odd (b div 2 ^ k)" if "k < 8" for k
    using that assms(5) by (simp add: bit_of_nat_iff bit_iff_odd [of b] possible_bit_def)
  have "8 - i = Suc (7 - i)" using assms(2) by simp
  then have "b < 2 * 2 ^ (7 - i)" using assms(4) by simp
  then have "b div 2 ^ (7 - i) = 1" using assms(3) by (simp add: div_nat_eqI)
  then have one: "bit (word_of_nat b :: 'w word) (7 - i)" using bit by simp
  have "\<not> bit (word_of_nat b :: 'w word) (7 - j)" if "j < i" for j
  proof -
    have "(2 :: nat) ^ (8 - i) \<le> 2 ^ (7 - j)" using that assms(2) by (intro power_increasing) auto
    then have "b < 2 ^ (7 - j)" using assms(4) by linarith
    then have "b div 2 ^ (7 - j) = 0" by simp
    then show ?thesis using bit [of "7 - j"] that assms(2) by simp
  qed
  then have "takeWhile (\<lambda>j. \<not> bit (word_of_nat b :: 'w word) (7 - j)) ([0..<i] @ i # [Suc i..<m]) = [0..<i]"
    using one by (subst takeWhile_append2) auto
  moreover have "[0..<m] = [0..<i] @ i # [Suc i..<m]" 
  proof -
    from assms(1) obtain k where "m = i + Suc k" using less_imp_Suc_add [of i m] by auto
    then show ?thesis using upt_add_eq_append [of 0 i "Suc k"] by (simp add: upt_conv_Cons)
  qed
  ultimately show ?thesis by (simp add: leading_def)
qed

text \<open>Identifiers and lengths: a one behind zeros says how many bytes they have.\<close>

definition vint_bytes :: "nat \<Rightarrow> nat \<Rightarrow> string" where
  "vint_bytes w n = be_bytes w (2 ^ (7 * w) + n)"

definition vint_ok :: "nat \<Rightarrow> nat \<Rightarrow> bool" where
  "vint_ok w n \<longleftrightarrow> 1 \<le> w \<and> w \<le> 8 \<and> n < 2 ^ (7 * w) - 1"

definition id_width :: "32 word \<Rightarrow> nat" where
  "id_width k = (if unat k < 2 ^ 8 then 1 else if unat k < 2 ^ 15 then 2 else if unat k < 2 ^ 22 then 3 else 4)"

definition id_ok :: "32 word \<Rightarrow> bool" where
  "id_ok k \<longleftrightarrow> 2 ^ (7 * id_width k) \<le> unat k \<and> unat k < 2 ^ (7 * id_width k + 1)"

definition id_bytes :: "32 word \<Rightarrow> string" where
  "id_bytes k = be_bytes (id_width k) (unat k)"

lemma length_vint [simp]: "length (vint_bytes w n) = w"
  by (simp add: vint_bytes_def)

lemma length_id [simp]: "length (id_bytes k) = id_width k"
  by (simp add: id_bytes_def)

lemma id_width_bounds: "1 \<le> id_width k" "id_width k \<le> 4"
  by (simp_all add: id_width_def)

text \<open>The first byte of a number with its one.\<close>

lemma first_byte:
  assumes "w = Suc i" and "i \<le> 7" and "n < 2 ^ (7 * w)"
  shows "be_bytes w (2 ^ (7 * w) + n) = char_of (2 ^ (7 - i) + n div 256 ^ i) # be_bytes i (2 ^ (7 * w) + n)"
    "2 ^ (7 - i) + n div 256 ^ i < 2 ^ (8 - i)" "n div 256 ^ i < 2 ^ (7 - i)" "(2 ^ (7 * w) + n) mod 256 ^ i = n mod 256 ^ i"
    "(2 ^ (7 * w) + n) div 256 ^ i = 2 ^ (7 - i) + n div 256 ^ i"
proof -
  have e: "7 * w = (7 - i) + 8 * i" using assms(1,2) by simp
  have p: "(2 :: nat) ^ (7 * w) = 2 ^ (7 - i) * 256 ^ i" unfolding e power_add power_mult by simp
  show lt: "n div 256 ^ i < 2 ^ (7 - i)" using assms(3) unfolding p by (simp add: less_mult_imp_div_less)
  show d: "(2 ^ (7 * w) + n) div 256 ^ i = 2 ^ (7 - i) + n div 256 ^ i" unfolding p by simp
  have "8 - i = Suc (7 - i)" using assms(2) by simp
  then show up: "2 ^ (7 - i) + n div 256 ^ i < 2 ^ (8 - i)" using lt by simp
  have "(2 :: nat) ^ (8 - i) \<le> 2 ^ 8" by (rule power_increasing) simp_all
  then have "2 ^ (7 - i) + n div 256 ^ i < 256" using up by simp
  then show "be_bytes w (2 ^ (7 * w) + n) = char_of (2 ^ (7 - i) + n div 256 ^ i) # be_bytes i (2 ^ (7 * w) + n)"
    unfolding assms(1) be_bytes.simps using d assms(1) by simp
  show "(2 ^ (7 * w) + n) mod 256 ^ i = n mod 256 ^ i" unfolding p by simp
qed

lemma parse_id_read:
  assumes "0 \<le> p" and "drop (nat p) mem = id_bytes k @ r" and "id_ok k"
  shows "ebml_parse_id mem p = Some (k, int (id_width k))"
proof -
  define w where "w = id_width k"
  obtain i where i: "w = Suc i" using id_width_bounds(1) [of k] by (cases w) (auto simp: w_def)
  have i3: "i \<le> 3" using id_width_bounds(2) [of k] i by (simp add: w_def)
  obtain n where n: "unat k = 2 ^ (7 * w) + n" "n < 2 ^ (7 * w)"
    using assms(3) by (auto simp: id_ok_def w_def dest!: le_Suc_ex)
  let ?b = "2 ^ (7 - i) + n div 256 ^ i"
  have i7: "i \<le> 7" using i3 by simp
  note fb = first_byte [OF i i7 n(2)]
  have mem: "drop (nat p) mem = char_of ?b # be_bytes i (unat k) @ r"
    using assms(2) fb(1) by (simp add: id_bytes_def n(1) w_def [symmetric])
  have "(2 :: nat) ^ (8 - i) \<le> 2 ^ 8" by (rule power_increasing) simp_all
  then have b: "?b < 256" using fb(2) by simp
  have "byte_of mem p = Some (int ?b)" using byte_of_drop [OF assms(1) mem] b by (simp add: byte_char_mod)
  moreover have "leading 4 (word_of_nat ?b :: 32 word) = i" by (rule leading_exact) (use i3 fb(2) in simp_all)
  moreover have "drop (nat (p + 1)) mem = be_bytes i (unat k) @ r" using drop_next [of p mem "[char_of ?b]"] mem assms(1) by simp
  then have "shift_bytes mem (p + 1) i (word_of_nat ?b :: 32 word) = Some (word_of_nat ?b * 256 ^ i + word_of_nat (unat k mod 256 ^ i))"
    using shift_bytes_read [of "p + 1" mem "be_bytes i (unat k)" r "word_of_nat ?b"] assms(1) by (simp add: be_value_bytes)
  moreover have "word_of_nat ?b * 256 ^ i + word_of_nat (unat k mod 256 ^ i) = k"
  proof -
    have "?b = unat k div 256 ^ i" using fb(5) n(1) by simp
    then have "?b * 256 ^ i + unat k mod 256 ^ i = unat k" by (simp only: div_mult_mod_eq)
    then have "word_of_nat (?b * 256 ^ i + unat k mod 256 ^ i) = k" by simp
    then show ?thesis by simp
  qed
  ultimately show ?thesis using i3 i by (simp add: ebml_parse_id_def w_def [symmetric])
qed

lemma all_ones:
  "be_value bs + 1 \<noteq> 256 ^ length bs \<Longrightarrow> length (filter (\<lambda>c. byte c = 255) bs) < length bs"
  using be_value_ones [of bs] length_filter_less [of _ bs "\<lambda>c. byte c = 255"] by (auto simp: list_all_iff)

text \<open>The parts of a length, as the readers take it apart.\<close>

lemma vint_parts:
  assumes "vint_ok w n"
  obtains i x m bs where "w = Suc i" "i \<le> 7" "vint_bytes w n = char_of x # bs" "x < 256" "length bs = i"
    "leading 8 (word_of_nat x :: 64 word) = i" "and (word_of_nat x) (mask (7 - i)) = (word_of_nat m :: 64 word)"
    "word_of_nat m * 256 ^ i + word_of_nat (be_value bs) = (word_of_nat n :: 64 word)"
    "(if word_of_nat m = (mask (7 - i) :: 64 word) then 1 else 0) + length (filter (\<lambda>c. byte c = 255) bs) \<noteq> Suc i"
proof -
  obtain i where i: "w = Suc i" using assms by (cases w) (auto simp: vint_ok_def)
  have i7: "i \<le> 7" and n: "n < 2 ^ (7 * w) - 1" using assms i by (simp_all add: vint_ok_def)
  then have n': "n < 2 ^ (7 * w)" by simp
  define x where "x = 2 ^ (7 - i) + n div 256 ^ i"
  define m where "m = n div 256 ^ i"
  define bs where "bs = be_bytes i (2 ^ (7 * w) + n)"
  note fb = first_byte [OF i i7 n', folded x_def]
  have vb: "vint_bytes w n = char_of x # bs" using fb(1) by (simp add: vint_bytes_def bs_def)
  have "(2 :: nat) ^ (8 - i) \<le> 2 ^ 8" by (rule power_increasing) simp_all
  then have x: "x < 256" using fb(2) by simp
  have l: "leading 8 (word_of_nat x :: 64 word) = i" by (rule leading_exact) (use i7 fb(2) x_def in simp_all)
  have m: "m < 2 ^ (7 - i)" using fb(3) by (simp add: m_def)
  have mk: "and (word_of_nat x :: 64 word) (mask (7 - i)) = word_of_nat m"
  proof -
    have "take_bit (7 - i) x = m" using m by (simp add: take_bit_eq_mod x_def m_def)
    then show ?thesis by (simp add: take_bit_of_nat flip: take_bit_eq_mask)
  qed
  have v: "be_value bs = n mod 256 ^ i" using fb(4) by (simp add: be_value_bytes bs_def)
  have mn: "m * 256 ^ i + n mod 256 ^ i = n" by (simp only: m_def div_mult_mod_eq)
  then have "word_of_nat (m * 256 ^ i + n mod 256 ^ i) = (word_of_nat n :: 64 word)" by simp
  then have r: "word_of_nat m * 256 ^ i + word_of_nat (be_value bs) = (word_of_nat n :: 64 word)" using v by simp
  let ?k = "if word_of_nat m = (mask (7 - i) :: 64 word) then 1 else 0 :: nat"
  have "?k + length (filter (\<lambda>c. byte c = 255) bs) \<noteq> Suc i"
  proof
    assume a: "?k + length (filter (\<lambda>c. byte c = 255) bs) = Suc i"
    have le: "length (filter (\<lambda>c. byte c = 255) bs) \<le> i" using length_filter_le [of _ bs] by (simp add: bs_def)
    then have "?k = 1" "length (filter (\<lambda>c. byte c = 255) bs) = length bs" using a by (auto simp: bs_def split: if_splits)
    then have ones: "be_value bs + 1 = 256 ^ i" and mm: "word_of_nat m = (mask (7 - i) :: 64 word)"
      using all_ones [of bs] by (auto simp: bs_def split: if_splits)
    have "(mask (7 - i) :: 64 word) = word_of_nat (2 ^ (7 - i) - 1)" by (simp add: mask_eq_exp_minus_1 of_nat_diff)
    moreover have "(2 :: nat) ^ (7 - i) \<le> 2 ^ 7" by (rule power_increasing) simp_all
    then have "m < 2 ^ LENGTH(64)" "2 ^ (7 - i) - 1 < (2 :: nat) ^ LENGTH(64)" using m by simp_all
    moreover from this have "unat (word_of_nat m :: 64 word) = m" "unat (word_of_nat (2 ^ (7 - i) - 1) :: 64 word) = 2 ^ (7 - i) - 1"
      by (simp_all add: unat_of_nat del: of_nat_diff)
    ultimately have "m = 2 ^ (7 - i) - 1" using mm by metis
    then have "n = (2 ^ (7 - i) - 1) * 256 ^ i + (256 ^ i - 1)" using ones v mn by simp
    moreover have "(2 :: nat) ^ (7 * w) = 2 ^ (7 - i) * 256 ^ i"
    proof -
      have e: "7 * w = (7 - i) + 8 * i" using i i7 by simp
      show ?thesis unfolding e power_add power_mult by simp
    qed
    moreover have "(2 ^ (7 - i) - 1) * 256 ^ i + (256 ^ i - 1) = 2 ^ (7 - i) * 256 ^ i - (1 :: nat)"
      by (simp add: diff_mult_distrib)
    ultimately show False using n by simp
  qed
  then show ?thesis using that [OF i i7 vb x _ l mk r] by (simp add: bs_def)
qed

lemma parse_vlen_read:
  assumes "0 \<le> p" and "drop (nat p) mem = vint_bytes w n @ r" and "vint_ok w n"
  shows "parse_vlen mem p b = Some (word_of_nat n, int w)"
proof -
  from vint_parts [OF assms(3)] obtain i x m bs where v: "w = Suc i" "i \<le> 7" "vint_bytes w n = char_of x # bs" "x < 256" "length bs = i"
    "leading 8 (word_of_nat x :: 64 word) = i" "and (word_of_nat x) (mask (7 - i)) = (word_of_nat m :: 64 word)"
    "word_of_nat m * 256 ^ i + word_of_nat (be_value bs) = (word_of_nat n :: 64 word)"
    "(if word_of_nat m = (mask (7 - i) :: 64 word) then 1 else 0) + length (filter (\<lambda>c. byte c = 255) bs) \<noteq> Suc i" .
  have mem: "drop (nat p) mem = char_of x # bs @ r" using assms(2) v(3) by simp
  have c: "byte_of mem p = Some (int x)" using byte_of_drop [OF assms(1) mem] v(4) by (simp add: byte_char_mod)
  define k where "k = (if word_of_nat m = (mask (7 - i) :: 64 word) then 1 else 0 :: nat)"
  have "drop (nat (p + 1)) mem = bs @ r" using drop_next [of p mem "[char_of x]"] mem assms(1) by simp
  from vlen_bytes_read [OF _ this, of "word_of_nat m" k] assms(1) v(5,8)
  have vb: "vlen_bytes mem (p + 1) i (word_of_nat m) k = Some (word_of_nat n, k + length (filter (\<lambda>c. byte c = 255) bs))" by simp
  then show ?thesis using c v(1,2,6,7,9) by (simp add: parse_vlen_def k_def)
qed

subsection \<open>Elements as a writer writes them\<close>

datatype ebml_item = Item "32 word" nat ebml_content
  and ebml_content =
    C_sub "ebml_item list" | C_uint nat "64 word" | C_sint nat "64 word" | C_float "32 word" | C_double ebml_double | C_str string |
    C_binary string | C_id "32 word" | C_other string

fun item_bytes :: "ebml_item \<Rightarrow> string" and content_bytes :: "ebml_content \<Rightarrow> string" where
  "item_bytes (Item k w c) = id_bytes k @ vint_bytes w (length (content_bytes c)) @ content_bytes c"
| "content_bytes (C_sub its) = concat (map item_bytes its)"
| "content_bytes (C_uint n x) = be_bytes n (unat x)"
| "content_bytes (C_sint n x) = be_bytes n (unat x)"
| "content_bytes (C_float x) = be_bytes 4 (unat x)"
| "content_bytes (C_double x) = be_bytes 8 (unat x)"
| "content_bytes (C_str s) = s"
| "content_bytes (C_binary s) = s"
| "content_bytes (C_id k) = id_bytes k"
| "content_bytes (C_other s) = s"

abbreviation (input) items_bytes :: "ebml_item list \<Rightarrow> string" where
  "items_bytes its \<equiv> concat (map item_bytes its)"

text \<open>A value that fits its type, in the number of bytes it is written with.\<close>

definition leaf_ok :: "ebml_elemtype \<Rightarrow> ebml_content \<Rightarrow> bool" where
  "leaf_ok ty c \<longleftrightarrow>
     (case c of
        C_uint n x \<Rightarrow> ty = EBML_TYPE_UINT \<and> 1 \<le> n \<and> n \<le> 8 \<and> unat x < 256 ^ n
      | C_sint n x \<Rightarrow> ty = EBML_TYPE_SINT \<and> 1 \<le> n \<and> n \<le> 8 \<and> - (2 ^ (8 * n - 1)) \<le> sint x \<and> sint x < 2 ^ (8 * n - 1)
      | C_float _ \<Rightarrow> ty = EBML_TYPE_FLOAT
      | C_double _ \<Rightarrow> ty = EBML_TYPE_FLOAT
      | C_str _ \<Rightarrow> ty = EBML_TYPE_STR
      | C_binary _ \<Rightarrow> ty = EBML_TYPE_BINARY
      | C_id k \<Rightarrow> ty = EBML_TYPE_EBML_ID \<and> id_ok k
      | _ \<Rightarrow> False)"

definition leaf_value :: "(32 word \<Rightarrow> ebml_double) \<Rightarrow> ebml_content \<Rightarrow> ebml_value" where
  "leaf_value widen c =
     (case c of
        C_uint _ x \<Rightarrow> Ebml_uint x | C_sint _ x \<Rightarrow> Ebml_sint x | C_float x \<Rightarrow> Ebml_float (widen x) | C_double x \<Rightarrow> Ebml_float x |
        C_str s \<Rightarrow> Ebml_str s | C_binary s \<Rightarrow> Ebml_binary s | C_id k \<Rightarrow> Ebml_id k | _ \<Rightarrow> Ebml_sub [])"

text \<open>The field of an item, and how many items a field has.\<close>

fun item_field :: "ebml_elem_desc \<Rightarrow> ebml_item \<Rightarrow> nat option" where
  "item_field d (Item k w c) = index_of (ed_fields d) k"

definition field_count :: "ebml_elem_desc \<Rightarrow> ebml_item list \<Rightarrow> nat \<Rightarrow> nat" where
  "field_count d its i = length (filter (\<lambda>it. item_field d it = Some i) its)"

text \<open>The fields that occur once, and those whose structures fit the limit of memory.\<close>

definition counts_ok :: "ebml_elem_desc \<Rightarrow> ebml_item list \<Rightarrow> bool" where
  "counts_ok d its \<longleftrightarrow>
     list_all (\<lambda>i. let n = field_count d its i; f = ed_fields d ! i
       in (fd_multiple f \<or> n \<le> 1) \<and>
          (n \<noteq> 0 \<and> fd_multiple f \<and> ed_type (fd_desc f) = EBML_TYPE_SUBELEMENTS \<longrightarrow>
           0 < ed_size (fd_desc f) \<and> int n * ed_size (fd_desc f) \<le> 1000000000)) [0..<length (ed_fields d)]"

text \<open>The items of an element with a description of at most \<open>n\<close> levels; what the description does not name can be anything.\<close>

primrec conforms :: "nat \<Rightarrow> ebml_elem_desc \<Rightarrow> ebml_item list \<Rightarrow> bool" where
  "conforms 0 d its \<longleftrightarrow> False"
| "conforms (Suc n) d its \<longleftrightarrow>
     ed_type d = EBML_TYPE_SUBELEMENTS \<and> counts_ok d its \<and>
     list_all (\<lambda>it. case it of Item k w c \<Rightarrow>
       id_ok k \<and> vint_ok w (length (content_bytes c)) \<and>
       (case index_of (ed_fields d) k of
          None \<Rightarrow> True
        | Some i \<Rightarrow>
            (case c of
               C_sub sub \<Rightarrow> ed_type (fd_desc (ed_fields d ! i)) = EBML_TYPE_SUBELEMENTS \<and> conforms n (fd_desc (ed_fields d ! i)) sub
             | _ \<Rightarrow> leaf_ok (ed_type (fd_desc (ed_fields d ! i))) c))) its"

text \<open>The structure with the values of the items, field by field.\<close>

primrec struct_of :: "nat \<Rightarrow> (32 word \<Rightarrow> ebml_double) \<Rightarrow> ebml_elem_desc \<Rightarrow> ebml_item list \<Rightarrow> ebml_struct" where
  "struct_of 0 widen d its = []"
| "struct_of (Suc n) widen d its =
     map (\<lambda>i. map (\<lambda>it. case it of Item k w c \<Rightarrow>
            (case c of C_sub sub \<Rightarrow> Ebml_sub (struct_of n widen (fd_desc (ed_fields d ! i)) sub) | _ \<Rightarrow> leaf_value widen c))
          (filter (\<lambda>it. item_field d it = Some i) its)) [0..<length (ed_fields d)]"

lemma parse_uint_read:
  assumes "0 \<le> p" and "drop (nat p) mem = be_bytes n (unat (x :: 'w::len word)) @ r" and "1 \<le> n" and "n \<le> 8"
  shows "ebml_parse_uint mem p (int n) = Some (word_of_nat (unat x mod 256 ^ n))"
  using shift_bytes_read [OF assms(1,2), of 0] assms(3,4) by (simp add: ebml_parse_uint_def be_value_bytes)

lemma top_bit: "0 \<le> b \<Longrightarrow> b < 256 \<Longrightarrow> and (b :: int) 0x80 \<noteq> 0 \<longleftrightarrow> 128 \<le> b"
proof -
  assume b: "0 \<le> b" "b < 256"
  have "and b (2 ^ 7) = 0 \<longleftrightarrow> \<not> bit b 7" by (rule and_exp_eq_0_iff_not_bit)
  moreover have "bit b 7 \<longleftrightarrow> odd (b div 128)" by (simp add: bit_iff_odd)
  moreover have "b div 128 = (if 128 \<le> b then 1 else 0)" using b by auto
  ultimately show ?thesis by (simp split: if_splits)
qed

lemma parse_sint_read:
  assumes "0 \<le> p" and "drop (nat p) mem = be_bytes n (unat x) @ r" and "1 \<le> n" and "n \<le> 8"
    and "- (2 ^ (8 * n - 1)) \<le> sint x" and "sint x < 2 ^ (8 * n - 1)"
  shows "ebml_parse_sint mem p (int n) = Some x"
proof -
  obtain k where n: "n = Suc k" using assms(3) by (cases n) auto
  define v where "v = unat x mod 256 ^ n"
  have e: "(256 :: nat) ^ n = 2 ^ (8 * n)" "(256 :: int) ^ n = 2 ^ (8 * n)" by (simp_all add: power_mult)
  have "take_bit (8 * n) (sint x) = take_bit (8 * n) (uint x)"
    unfolding sint_uint by (rule take_bit_signed_take_bit) (use assms(4) in simp)
  then have v: "int v = sint x mod 2 ^ (8 * n)" by (simp add: v_def e(1) take_bit_eq_mod zmod_int)
  have two: "(2 :: int) ^ (8 * n) = 2 * 2 ^ (8 * n - 1)" using n by (simp flip: power_Suc)
  have low: "v < 256 ^ n" by (simp add: v_def)
  define b where "b = v div 256 ^ k"
  have b: "b < 256" using low n by (simp add: b_def less_mult_imp_div_less mult.commute)
  have "unat x div 256 ^ k mod 256 = b"
    by (simp add: b_def v_def n mult.commute [of 256] mod_mult2_eq)
  then have mem: "drop (nat p) mem = char_of b # be_bytes k (unat x) @ r" using assms(2) b by (simp add: n)
  have byte: "byte_of mem p = Some (int b)" using byte_of_drop [OF assms(1) mem] b by (simp add: byte_char_mod)
  have sb: "shift_bytes mem p n y = Some (y * 256 ^ n + word_of_nat v)" for y :: "64 word"
    using shift_bytes_read [OF assms(1,2), of y] by (simp add: be_value_bytes v_def)
  have half: "128 \<le> b \<longleftrightarrow> 2 ^ (8 * n - 1) \<le> int v"
  proof -
    have "(128 :: nat) \<le> b \<longleftrightarrow> 128 * 256 ^ k \<le> v" by (simp add: b_def less_eq_div_iff_mult_less_eq)
    moreover have "(2 :: int) ^ (8 * n - 1) = 128 * 256 ^ k"
    proof -
      have "8 * n - 1 = 7 + 8 * k" by (simp add: n)
      then show ?thesis by (simp only: power_add power_mult) simp
    qed
    then have "2 ^ (8 * n - 1) = int (128 * 256 ^ k)" by simp
    ultimately show ?thesis by (simp only: of_nat_le_iff)
  qed
  have wv: "(word_of_nat v :: 64 word) = word_of_int (int v)" by simp
  have x: "x = word_of_int (sint x)" by simp
  show ?thesis
  proof (cases "0 \<le> sint x")
    case True
    then have iv: "int v = sint x" using v two assms(6) by simp
    then have "\<not> 128 \<le> b" using half assms(6) by simp
    then have "and (int b) 0x80 = 0" using top_bit [of "int b"] b by simp
    then show ?thesis using assms(3,4) byte sb [of 0] wv iv x by (simp add: ebml_parse_sint_def)
  next
    case False
    have "sint x mod 2 ^ (8 * n) = sint x + 2 ^ (8 * n)"
    proof -
      have "(sint x + 2 ^ (8 * n)) mod 2 ^ (8 * n) = sint x + 2 ^ (8 * n)" using False assms(5) two by (intro mod_pos_pos_trivial) linarith+
      then show ?thesis by simp
    qed
    then have iv: "int v = sint x + 2 ^ (8 * n)" using v by simp
    then have "128 \<le> b" using half assms(5) two by linarith
    then have top: "and (int b) 0x80 \<noteq> 0" using top_bit [of "int b"] b by simp
    have "- (256 ^ n) + word_of_nat v = (word_of_int (- (2 ^ (8 * n)) + int v) :: 64 word)"
      by (simp add: power_mult)
    then have "- (256 ^ n) + word_of_nat v = x" using iv x by simp
    then show ?thesis using assms(3,4) byte sb [of "-1"] top by (simp add: ebml_parse_sint_def)
  qed
qed

lemma leaf_read:
  assumes "leaf_ok ty c" and "0 \<le> p" and "drop (nat p) mem = content_bytes c @ r" and "r \<noteq> []"
  shows "parse_value widen mem ty p (int (length (content_bytes c))) = Some (Some (leaf_value widen c))" "\<forall>sub. c \<noteq> C_sub sub"
    "ty \<noteq> EBML_TYPE_SUBELEMENTS"
proof -
  have g: "get_bytes p (int (length s)) mem = Some s" if "drop (nat p) mem = s @ r" for s
  proof -
    have "length (drop (nat p) mem) = length (s @ r)" using that by simp
    then have "nat p + length s < length mem" using assms(4) by (cases r) auto
    then show ?thesis using that assms(2) by (simp add: get_bytes_def)
  qed
  show "parse_value widen mem ty p (int (length (content_bytes c))) = Some (Some (leaf_value widen c))"
  proof (cases c)
    case (C_sub its)
    then show ?thesis using assms(1) by (simp add: leaf_ok_def)
  next
    case (C_uint n x)
    then show ?thesis using parse_uint_read [OF assms(2), of mem n x r] assms(1,3) by (auto simp: leaf_ok_def parse_value_def leaf_value_def)
  next
    case (C_sint n x)
    then show ?thesis using parse_sint_read [OF assms(2), of mem n x r] assms(1,3) by (auto simp: leaf_ok_def parse_value_def leaf_value_def)
  next
    case (C_float x)
    have "ucast (ucast x :: 64 word) = x" by (rule bit_word_eqI) (simp add: bit_simps)
    then have "ucast (word_of_nat (unat x) :: 64 word) = x" by simp
    moreover have "unat x mod 256 ^ 4 = unat x" using unsigned_less [of x, where ?'a = nat] by simp
    ultimately show ?thesis using C_float parse_uint_read [OF assms(2), of mem 4 x r] assms(1,3)
      by (auto simp: leaf_ok_def parse_value_def leaf_value_def ebml_parse_float_def)
  next
    case (C_double x)
    have "unat x mod 256 ^ 8 = unat x" using unsigned_less [of x, where ?'a = nat] by simp
    then show ?thesis using C_double parse_uint_read [OF assms(2), of mem 8 x r] assms(1,3)
      by (auto simp: leaf_ok_def parse_value_def leaf_value_def ebml_parse_float_def)
  next
    case (C_str s)
    then show ?thesis using g [of s] assms(1,3) by (auto simp: leaf_ok_def parse_value_def leaf_value_def)
  next
    case (C_binary s)
    then show ?thesis using g [of s] assms(1,3) by (auto simp: leaf_ok_def parse_value_def leaf_value_def)
  next
    case (C_id k)
    then show ?thesis using parse_id_read [OF assms(2), of mem k r] assms(1,3) by (auto simp: leaf_ok_def parse_value_def leaf_value_def)
  next
    case (C_other s)
    then show ?thesis using assms(1) by (simp add: leaf_ok_def)
  qed
  show "\<forall>sub. c \<noteq> C_sub sub" "ty \<noteq> EBML_TYPE_SUBELEMENTS" using assms(1) by (auto simp: leaf_ok_def split: ebml_content.splits)
qed

subsection \<open>What a writer wrote is read back\<close>

definition item_ok :: "ebml_item \<Rightarrow> bool" where
  "item_ok it \<longleftrightarrow> (case it of Item k w c \<Rightarrow> id_ok k \<and> vint_ok w (length (content_bytes c)))"

text \<open>The header of an item.\<close>

lemma item_ahead:
  assumes "0 \<le> p" and "drop (nat p) mem = item_bytes (Item k w c) @ r" and "item_ok (Item k w c)"
    and "e = p + int (length (item_bytes (Item k w c))) + int m" and "q = p + int (id_width k) + int w"
  shows "p < e" "ebml_parse_id mem p = Some (k, int (id_width k))" "0 \<le> int (id_width k)" "int (id_width k) \<le> e - p"
    "ebml_parse_length mem (p + int (id_width k)) = Some (word_of_nat (length (content_bytes c)), int w)" "0 \<le> int w"
    "int w \<le> e - (p + int (id_width k))" "0 \<le> q" "\<not> e - q < uint (word_of_nat (length (content_bytes c)) :: 64 word)"
    "uint (word_of_nat (length (content_bytes c)) :: 64 word) = int (length (content_bytes c))"
    "drop (nat q) mem = content_bytes c @ r" "drop (nat (q + int (length (content_bytes c)))) mem = r"
    "q + int (length (content_bytes c)) = p + int (length (item_bytes (Item k w c)))"
proof -
  have ok: "id_ok k" "vint_ok w (length (content_bytes c))" using assms(3) by (simp_all add: item_ok_def)
  let ?v = "vint_bytes w (length (content_bytes c))"
  have len: "length (item_bytes (Item k w c)) = id_width k + w + length (content_bytes c)" by simp
  have a: "drop (nat p) mem = id_bytes k @ ?v @ content_bytes c @ r" using assms(2) by simp
  show "ebml_parse_id mem p = Some (k, int (id_width k))" by (rule parse_id_read [OF assms(1) a ok(1)])
  have b: "drop (nat (p + int (id_width k))) mem = ?v @ content_bytes c @ r" using drop_next [OF assms(1) a] by simp
  have p2: "0 \<le> p + int (id_width k)" using assms(1) by simp
  show "ebml_parse_length mem (p + int (id_width k)) = Some (word_of_nat (length (content_bytes c)), int w)"
    unfolding ebml_parse_length_def by (rule parse_vlen_read [OF p2 b ok(2)])
  show q: "drop (nat q) mem = content_bytes c @ r" using drop_next [OF p2 b] assms(5) by simp
  show q0: "0 \<le> q" using assms(1,5) by simp
  show "drop (nat (q + int (length (content_bytes c)))) mem = r" by (rule drop_next [OF q0 q])
  have "1 \<le> id_width k" by (rule id_width_bounds)
  then show "p < e" "int (id_width k) \<le> e - p" "int w \<le> e - (p + int (id_width k))" using len assms(4) by simp_all
  have "w \<le> 8" "length (content_bytes c) < 2 ^ (7 * w)" using ok(2) unfolding vint_ok_def by linarith+
  moreover have "(2 :: nat) ^ (7 * w) \<le> 2 ^ 56" using calculation(1) by (intro power_increasing) simp_all
  ultimately have "length (content_bytes c) < 2 ^ 64" by simp
  then show u: "uint (word_of_nat (length (content_bytes c)) :: 64 word) = int (length (content_bytes c))"
    by (simp add: unsigned_of_nat take_bit_nat_eq_self)
  show "\<not> e - q < uint (word_of_nat (length (content_bytes c)) :: 64 word)" unfolding u using len assms(4,5) by simp
  show "q + int (length (content_bytes c)) = p + int (length (item_bytes (Item k w c)))" using len assms(5) by simp
qed simp_all

lemma field_count_Cons: "field_count d (it # its) i = (if item_field d it = Some i then 1 else 0) + field_count d its i"
  by (simp add: field_count_def)

lemma count_elems_read:
  assumes "0 \<le> p" and "drop (nat p) mem = items_bytes its @ r" and "list_all item_ok its" and "length nums = length (ed_fields d)"
  shows "count_elems d mem (p + int (length (items_bytes its))) p nums err =
     Some (p + int (length (items_bytes its)), map (\<lambda>i. nums ! i + field_count d its i) [0..<length (ed_fields d)], err)"
  using assms
proof (induction its arbitrary: p nums)
  case Nil
  then show ?case by (subst count_elems.simps) (use map_nth [of nums] in \<open>simp add: field_count_def\<close>)
next
  case (Cons it its)
  obtain k w c where it: "it = Item k w c" by (cases it)
  define e where "e = p + int (length (item_bytes it)) + int (length (items_bytes its))"
  define q where "q = p + int (id_width k) + int w"
  have d: "drop (nat p) mem = item_bytes (Item k w c) @ items_bytes its @ r" using Cons.prems(2) it by simp
  have ok: "item_ok (Item k w c)" "list_all item_ok its" using Cons.prems(3) it by simp_all
  note h = item_ahead [OF Cons.prems(1) d ok(1) e_def [unfolded it] q_def]
  define ns where "ns = (case index_of (ed_fields d) k of Some i \<Rightarrow> nums[i := Suc (nums ! i)] | None \<Rightarrow> nums)"
  let ?q = "q + int (length (content_bytes c))"
  have e: "e = ?q + int (length (items_bytes its))" using h(13) it by (simp add: e_def)
  have l: "length ns = length (ed_fields d)" using Cons.prems(4) by (simp add: ns_def split: option.splits)
  have "0 \<le> ?q" using h(8) by simp
  from Cons.IH [OF this h(12) ok(2) l] have IH: "count_elems d mem e ?q ns err =
      Some (e, map (\<lambda>i. ns ! i + field_count d its i) [0..<length (ed_fields d)], err)" unfolding e .
  have n: "ns ! i + field_count d its i = nums ! i + field_count d (it # its) i" if "i < length (ed_fields d)" for i
    using that Cons.prems(4) it by (auto simp: ns_def field_count_Cons nth_list_update split: option.splits)
  have "count_elems d mem e p nums err = count_elems d mem e ?q ns err"
    using h(1-10) by (subst count_elems.simps) (simp add: Let_def q_def [symmetric] ns_def [symmetric])
  also have "\<dots> = Some (e, map (\<lambda>i. nums ! i + field_count d (it # its) i) [0..<length (ed_fields d)], err)"
    unfolding IH using n by simp
  finally have "count_elems d mem e p nums err = Some (e, map (\<lambda>i. nums ! i + field_count d (it # its) i) [0..<length (ed_fields d)], err)" .
  moreover have "p + int (length (items_bytes (it # its))) = e" using e_def by simp
  ultimately show ?case by simp
qed

definition content_fits :: "nat \<Rightarrow> ebml_elem_desc \<Rightarrow> ebml_item \<Rightarrow> bool" where
  "content_fits n d it \<longleftrightarrow>
     (case it of Item k w c \<Rightarrow>
        case index_of (ed_fields d) k of
          None \<Rightarrow> True
        | Some i \<Rightarrow>
            (case c of
               C_sub sub \<Rightarrow> ed_type (fd_desc (ed_fields d ! i)) = EBML_TYPE_SUBELEMENTS \<and> conforms n (fd_desc (ed_fields d ! i)) sub
             | _ \<Rightarrow> leaf_ok (ed_type (fd_desc (ed_fields d ! i))) c))"

lemma conforms_split:
  "conforms (Suc n) d its \<longleftrightarrow>
     ed_type d = EBML_TYPE_SUBELEMENTS \<and> counts_ok d its \<and> list_all item_ok its \<and> list_all (content_fits n d) its"
proof -
  have "list_all (\<lambda>it. case it of Item k w c \<Rightarrow>
       id_ok k \<and> vint_ok w (length (content_bytes c)) \<and>
       (case index_of (ed_fields d) k of
          None \<Rightarrow> True
        | Some i \<Rightarrow>
            (case c of
               C_sub sub \<Rightarrow> ed_type (fd_desc (ed_fields d ! i)) = EBML_TYPE_SUBELEMENTS \<and> conforms n (fd_desc (ed_fields d ! i)) sub
             | _ \<Rightarrow> leaf_ok (ed_type (fd_desc (ed_fields d ! i))) c))) its =
      list_all (\<lambda>it. item_ok it \<and> content_fits n d it) its"
    by (rule list.pred_cong) (auto simp: item_ok_def content_fits_def split: ebml_item.splits)
  then show ?thesis by (auto simp: list_all_iff)
qed

definition item_value :: "nat \<Rightarrow> (32 word \<Rightarrow> ebml_double) \<Rightarrow> ebml_elem_desc \<Rightarrow> ebml_item \<Rightarrow> ebml_value" where
  "item_value n widen f it =
     (case it of Item k w c \<Rightarrow> (case c of C_sub sub \<Rightarrow> Ebml_sub (struct_of n widen f sub) | _ \<Rightarrow> leaf_value widen c))"

lemma struct_of_Suc:
  "struct_of (Suc n) widen d its =
     map (\<lambda>i. map (item_value n widen (fd_desc (ed_fields d ! i))) (filter (\<lambda>it. item_field d it = Some i) its)) [0..<length (ed_fields d)]"
  by (simp add: item_value_def)

lemma struct_of_snoc:
  "struct_of (Suc n) widen d (its @ [it]) =
     (case item_field d it of
        None \<Rightarrow> struct_of (Suc n) widen d its
      | Some i \<Rightarrow> (struct_of (Suc n) widen d its)[i := struct_of (Suc n) widen d its ! i @ [item_value n widen (fd_desc (ed_fields d ! i)) it]])"
proof (cases "item_field d it")
  case None
  then show ?thesis unfolding struct_of_Suc by simp
next
  case (Some i)
  have "i < length (ed_fields d)" using Some by (cases it) (auto dest: index_of_less)
  then show ?thesis using Some unfolding struct_of_Suc by (auto intro!: nth_equalityI simp: nth_list_update)
qed

lemma struct_of_count: "i < length (ed_fields d) \<Longrightarrow> length (struct_of (Suc n) widen d its ! i) = field_count d its i"
  by (simp add: field_count_def)

lemma field_count_append: "field_count d (its @ its') i = field_count d its i + field_count d its' i"
  by (simp add: field_count_def)

lemma parse_elems_read:
  assumes "0 \<le> p" and "drop (nat p) mem = items_bytes its @ r" and "8 \<le> length r" and "list_all item_ok its" and "list_all (content_fits n d) its"
    and "\<forall>i<length (ed_fields d). field_count d (before @ its) i \<le> nums ! i \<and> (fd_multiple (ed_fields d ! i) \<or> field_count d (before @ its) i \<le> 1)"
    and sub: "\<And>f its q r err. conforms n f its \<Longrightarrow> 0 \<le> q \<Longrightarrow> drop (nat q) mem = items_bytes its @ r \<Longrightarrow> 8 \<le> length r \<Longrightarrow>
      sub f q (int (length (items_bytes its))) err = Some (struct_of n widen f its, err)"
  shows "parse_elems sub widen d mem (p + int (length (items_bytes its))) nums p (struct_of (Suc n) widen d before) err =
     Some (struct_of (Suc n) widen d (before @ its), err)"
  using assms(1-6)
proof (induction its arbitrary: p before)
  case Nil
  then show ?case by (simp add: parse_elems_end del: struct_of.simps)
next
  case (Cons it its)
  obtain k w c where it: "it = Item k w c" by (cases it)
  define e where "e = p + int (length (item_bytes it)) + int (length (items_bytes its))"
  define q where "q = p + int (id_width k) + int w"
  have d: "drop (nat p) mem = item_bytes (Item k w c) @ items_bytes its @ r" using Cons.prems(2) it by simp
  have ok: "item_ok (Item k w c)" "list_all item_ok its" "list_all (content_fits n d) its" "content_fits n d (Item k w c)"
    using Cons.prems(4,5) it by simp_all
  note h = item_ahead [OF Cons.prems(1) d ok(1) e_def [unfolded it] q_def]
  let ?len = "int (length (content_bytes c))"
  have e: "e = q + ?len + int (length (items_bytes its))" using h(13) it by (simp add: e_def)
  have n: "?len = (if e - q < uint (word_of_nat (length (content_bytes c)) :: 64 word) then e - q else uint (word_of_nat (length (content_bytes c)) :: 64 word))"
    unfolding h(10) using e by simp
  have "0 \<le> q + ?len" using h(8) by simp
  note IH = Cons.IH [OF this h(12) Cons.prems(3) ok(2,3), folded e]
  let ?st = "struct_of (Suc n) widen d before"
  have rest: "parse_elems sub widen d mem e nums (q + ?len) (struct_of (Suc n) widen d (before @ [it])) err =
      Some (struct_of (Suc n) widen d (before @ it # its), err)"
    using IH [of "before @ [it]"] Cons.prems(6) by simp
  note round = parse_elems_round [OF h(1-7) q_def n, of sub widen d nums ?st err]
  have goal: "parse_elems sub widen d mem e nums p ?st err = Some (struct_of (Suc n) widen d (before @ it # its), err)"
  proof (cases "index_of (ed_fields d) k")
    case None
    then show ?thesis using round rest it by (simp add: struct_of_snoc del: struct_of.simps)
  next
    case (Some i)
    have i: "i < length (ed_fields d)" using index_of_less [OF Some] by simp
    have cnt: "length (?st ! i) < nums ! i" "fd_multiple (ed_fields d ! i) \<or> length (?st ! i) = 0"
      using Cons.prems(6) i Some it unfolding struct_of_count [OF i]
      by (auto simp: field_count_append field_count_Cons dest!: spec [of _ i])
    have val: "(if ed_type (fd_desc (ed_fields d ! i)) = EBML_TYPE_SUBELEMENTS
        then map_option (\<lambda>(x, err). (Some (Ebml_sub x), err)) (sub (fd_desc (ed_fields d ! i)) q ?len err)
        else map_option (\<lambda>v. (v, err)) (parse_value widen mem (ed_type (fd_desc (ed_fields d ! i))) q ?len)) =
        Some (Some (item_value n widen (fd_desc (ed_fields d ! i)) it), err)"
    proof (cases "\<exists>its. c = C_sub its")
      case True
      then obtain its' where c: "c = C_sub its'" by blast
      have "conforms n (fd_desc (ed_fields d ! i)) its'" "ed_type (fd_desc (ed_fields d ! i)) = EBML_TYPE_SUBELEMENTS"
        using ok(4) c Some by (simp_all add: content_fits_def)
      then show ?thesis using sub [of "fd_desc (ed_fields d ! i)" its' q "items_bytes its @ r" err] h(8,11) c Cons.prems(3) it by (simp add: item_value_def)
    next
      case False
      then have "leaf_ok (ed_type (fd_desc (ed_fields d ! i))) c" using ok(4) Some by (cases c) (simp_all add: content_fits_def)
      moreover have "items_bytes its @ r \<noteq> []" using Cons.prems(3) by auto
      ultimately have "parse_value widen mem (ed_type (fd_desc (ed_fields d ! i))) q ?len = Some (Some (leaf_value widen c))"
        "ed_type (fd_desc (ed_fields d ! i)) \<noteq> EBML_TYPE_SUBELEMENTS" using leaf_read [OF _ h(8,11)] by blast+
      then show ?thesis using False it by (cases c) (simp_all add: item_value_def)
    qed
    have "parse_elems sub widen d mem e nums p ?st err =
        parse_elems sub widen d mem e nums (q + ?len) (?st[i := ?st ! i @ [item_value n widen (fd_desc (ed_fields d ! i)) it]]) err"
      unfolding round Some option.case val using cnt by (auto simp del: struct_of.simps)
    then show ?thesis using rest Some it by (simp add: struct_of_snoc del: struct_of.simps)
  qed
  moreover have "p + int (length (items_bytes (it # its))) = e" using e_def by simp
  ultimately show ?case by (simp del: struct_of.simps)
qed

lemma those_same:
  "length ns = length fs \<Longrightarrow> (\<And>i. i < length fs \<Longrightarrow> f (fs ! i, ns ! i) = Some (ns ! i)) \<Longrightarrow> those (map f (zip fs ns)) = Some ns"
proof (induction fs arbitrary: ns)
  case (Cons x xs)
  obtain n ms where ns: "ns = n # ms" using Cons.prems(1) by (cases ns) auto
  have "f (x, n) = Some n" using Cons.prems(2) [of 0] ns by simp
  moreover have "those (map f (zip xs ms)) = Some ms"
  proof (rule Cons.IH)
    show "length ms = length xs" using Cons.prems(1) ns by simp
    show "f (xs ! i, ms ! i) = Some (ms ! i)" if "i < length xs" for i using Cons.prems(2) [of "Suc i"] that ns by simp
  qed
  ultimately show ?case using ns by simp
qed simp

lemma alloc_elems_keeps:
  assumes "counts_ok d its"
  shows "alloc_elems d (map (field_count d its) [0..<length (ed_fields d)]) = Some (map (field_count d its) [0..<length (ed_fields d)])"
  unfolding alloc_elems_def
proof (rule those_same)
  fix i assume i: "i < length (ed_fields d)"
  define f where "f = ed_fields d ! i"
  define n where "n = field_count d its i"
  have c: "0 < ed_size (fd_desc f) \<and> int n * ed_size (fd_desc f) \<le> 1000000000"
    if "n \<noteq> 0 \<and> fd_multiple f \<and> ed_type (fd_desc f) = EBML_TYPE_SUBELEMENTS"
    using assms i that by (simp add: counts_ok_def list_all_iff Let_def f_def n_def)
  have "int n \<le> 1000000000 sdiv s" if "0 < s" "int n * s \<le> 1000000000" for s
  proof -
    have "int n * s div s \<le> 1000000000 div s" using that by (intro zdiv_mono1)
    then have "int n \<le> 1000000000 div s" using that(1) by simp
    then show ?thesis using that(1) by (simp add: signed_divide_int_def)
  qed
  then show "(case (ed_fields d ! i, map (field_count d its) [0..<length (ed_fields d)] ! i) of (fd, n) \<Rightarrow>
       if n \<noteq> 0 \<and> fd_multiple fd \<and> ed_type (fd_desc fd) = EBML_TYPE_SUBELEMENTS
       then (if ed_size (fd_desc fd) = 0 then None else Some (nat (min (int n) (1000000000 sdiv ed_size (fd_desc fd)))))
       else Some n) = Some (map (field_count d its) [0..<length (ed_fields d)] ! i)"
    using i c by (auto simp: f_def [symmetric] n_def [symmetric] min_def)
qed simp

text \<open>In memory.\<close>

lemma ebml_parse_read:
  assumes "conforms left d its" and "0 \<le> p" and "drop (nat p) mem = items_bytes its @ r" and "8 \<le> length r"
  shows "ebml_parse_element left widen mem d p (int (length (items_bytes its))) err = Some (struct_of left widen d its, err)"
  using assms
proof (induction left arbitrary: d its p r err)
  case (Suc left)
  note c = Suc.prems(1) [unfolded conforms_split]
  have cnt: "count_elems d mem (p + int (length (items_bytes its))) p (replicate (length (ed_fields d)) 0) err =
      Some (p + int (length (items_bytes its)), map (field_count d its) [0..<length (ed_fields d)], err)"
    using count_elems_read [OF Suc.prems(2,3), of "replicate (length (ed_fields d)) 0" d err] c by (simp cong: map_cong)
  have al: "alloc_elems d (map (field_count d its) [0..<length (ed_fields d)]) = Some (map (field_count d its) [0..<length (ed_fields d)])"
    using alloc_elems_keeps c by blast
  have e: "struct_of (Suc left) widen d [] = replicate (length (ed_fields d)) []" by (simp add: map_replicate_trivial)
  have n: "\<forall>i<length (ed_fields d). field_count d ([] @ its) i \<le> map (field_count d its) [0..<length (ed_fields d)] ! i \<and>
      (fd_multiple (ed_fields d ! i) \<or> field_count d ([] @ its) i \<le> 1)"
    using c by (auto simp: counts_ok_def list_all_iff Let_def)
  have its: "list_all item_ok its" "list_all (content_fits left d) its" using c by simp_all
  from parse_elems_read [OF Suc.prems(2-4) its n Suc.IH]
  have "parse_elems (ebml_parse_element left widen mem) widen d mem (p + int (length (items_bytes its)))
      (map (field_count d its) [0..<length (ed_fields d)]) p (struct_of (Suc left) widen d []) err = Some (struct_of (Suc left) widen d ([] @ its), err)" .
  then show ?case using c cnt al unfolding e by (simp del: struct_of.simps)
qed simp

text \<open>From a stream.\<close>

context steady_source
begin

lemma char_ahead:
  assumes "inv s" and "eof_at_end s" and "drop (nat (pos s)) content = c # r"
  shows "\<exists>s'. stream_read_char drv s = Some (int (byte c), s') \<and> inv s' \<and> eof_at_end s' \<and> pos s' = pos s + 1 \<and> drop (nat (pos s')) content = r"
proof -
  from read_char_returns [OF assms(1)] obtain ch s' where rd: "stream_read_char drv s = Some (ch, s')" by auto
  have p0: "0 \<le> pos s" by (rule inv_nonneg [OF assms(1)])
  have l: "nat (pos s) < length content" using assms(3) by (metis drop_eq_Nil2 leI list.discI)
  then have lt: "pos s < int (length content)" using p0 by linarith
  have c: "content ! nat (pos s) = c" "drop (Suc (nat (pos s))) content = r"
    using assms(3) Cons_nth_drop_Suc [OF l] by simp_all
  note ok = read_char_ok [OF assms(1) rd]
  have n: "nat (pos s + 1) = Suc (nat (pos s))" using p0 by simp
  have v: "s_buf_pos (st_of s) \<le> s_buf_len (st_of s)" using view [OF assms(1)] by (simp add: view_ok_def)
  have "(if s_buf_pos (st_of s) < s_buf_len (st_of s) then Some (1, s) else cache_stream_fill_buffer drv s) = refill s"
    using v by (auto simp: refill_def)
  then obtain b s1 where s1: "refill s = Some (b, s1)" "(if b \<noteq> 0 then next_char s1 else Some (-256, s1)) = Some (ch, s')"
    using rd by (auto simp: read_char_unfold bind_eq_Some_conv)
  note re = refill_eof [OF assms(1,2) s1(1)]
  have "b \<noteq> 0" using ok lt s1(2) by (auto split: if_splits)
  then have "s_eof (st_of s') = s_eof (st_of s1)" "pos s' = pos s1 + 1"
    using s1(2) by (auto simp: next_char_def set_buf_pos_def stream_tell_def elim!: bind_eq_SomeE)
  then have "eof_at_end s'" using re(1) by (auto simp: eof_at_end_def)
  then show ?thesis using rd ok lt c n by auto
qed

lemma vlen_ahead:
  assumes "inv s" and "eof_at_end s" and "drop (nat (pos s)) content = bs @ r"
  shows "\<exists>s'. vlen_chars drv (length bs) x k s = Some (x * 256 ^ length bs + of_nat (be_value bs), k + length (filter (\<lambda>c. byte c = 255) bs), s') \<and>
     inv s' \<and> eof_at_end s' \<and> pos s' = pos s + int (length bs) \<and> drop (nat (pos s')) content = r"
  using assms
proof (induction bs arbitrary: s x k)
  case (Cons c bs)
  have "drop (nat (pos s)) content = c # (bs @ r)" using Cons.prems(3) by simp
  from char_ahead [OF Cons.prems(1,2) this] obtain s1 where s1: "stream_read_char drv s = Some (int (byte c), s1)" "inv s1" "eof_at_end s1"
    "pos s1 = pos s + 1" "drop (nat (pos s1)) content = bs @ r" by blast
  let ?y = "or (push_bit 8 x) (word_of_int (int (byte c)))"
  have ff: "and ?y 0xFF = 0xFF \<longleftrightarrow> byte c = 255"
  proof -
    have "take_bit 8 ?y = take_bit 8 (word_of_nat (byte c))" by (simp add: take_bit_or take_bit_push_bit)
    also have "\<dots> = word_of_nat (byte c)" by (simp add: take_bit_of_nat take_bit_nat_eq_self)
    finally have "and ?y (mask 8) = word_of_nat (byte c)" by (simp add: take_bit_eq_mask)
    then have a: "and ?y 0xFF = word_of_nat (byte c)" by (simp add: mask_eq_exp_minus_1)
    have "word_of_nat (byte c) = (0xFF :: 64 word) \<longleftrightarrow> byte c = 255"
    proof
      assume "word_of_nat (byte c) = (0xFF :: 64 word)"
      then have "unat (word_of_nat (byte c) :: 64 word) = 255" by simp
      moreover have "byte c < 2 ^ 64" by (rule less_trans [OF byte_less_256]) simp
      ultimately show "byte c = 255" by (simp add: unat_of_nat)
    qed simp
    then show ?thesis using a by simp
  qed
  from Cons.IH [OF s1(2,3,5), of ?y "if byte c = 255 then Suc k else k"] obtain s' where
    r: "vlen_chars drv (length bs) ?y (if byte c = 255 then Suc k else k) s1 =
        Some (?y * 256 ^ length bs + of_nat (be_value bs), (if byte c = 255 then Suc k else k) + length (filter (\<lambda>c. byte c = 255) bs), s')"
      "inv s'" "eof_at_end s'" "pos s' = pos s1 + int (length bs)" "drop (nat (pos s')) content = r" by blast
  have "vlen_chars drv (length (c # bs)) x k s = vlen_chars drv (length bs) ?y (if byte c = 255 then Suc k else k) s1"
    using s1(1) ff by (simp add: shift_char_def)
  moreover have "?y * 256 ^ length bs + of_nat (be_value bs) = x * 256 ^ length (c # bs) + of_nat (be_value (c # bs))"
    unfolding shift_byte by (simp add: algebra_simps)
  ultimately show ?case using r s1(4) by (intro exI [of _ s']) simp
qed auto

lemma length_ahead:
  assumes "inv s" and "eof_at_end s" and "drop (nat (pos s)) content = vint_bytes w n @ r" and "vint_ok w n"
  shows "\<exists>s'. ebml_read_length drv s = Some (word_of_nat n, Some (int w), s') \<and> inv s' \<and> eof_at_end s' \<and> pos s' = pos s + int w \<and>
     drop (nat (pos s')) content = r"
proof -
  from vint_parts [OF assms(4)] obtain i x m bs where v: "w = Suc i" "i \<le> 7" "vint_bytes w n = char_of x # bs" "x < 256" "length bs = i"
    "leading 8 (word_of_nat x :: 64 word) = i" "and (word_of_nat x) (mask (7 - i)) = (word_of_nat m :: 64 word)"
    "word_of_nat m * 256 ^ i + word_of_nat (be_value bs) = (word_of_nat n :: 64 word)"
    "(if word_of_nat m = (mask (7 - i) :: 64 word) then 1 else 0) + length (filter (\<lambda>c. byte c = 255) bs) \<noteq> Suc i" .
  have "drop (nat (pos s)) content = char_of x # (bs @ r)" using assms(3) v(3) by simp
  from char_ahead [OF assms(1,2) this] obtain s1 where s1: "stream_read_char drv s = Some (int x, s1)" "inv s1" "eof_at_end s1"
    "pos s1 = pos s + 1" "drop (nat (pos s1)) content = bs @ r" using v(4) by (auto simp: byte_char_mod)
  define k where "k = (if word_of_nat m = (mask (7 - i) :: 64 word) then 1 else 0 :: nat)"
  from vlen_ahead [OF s1(2,3,5), of "word_of_nat m" k] v(5,8) obtain s' where
    s': "vlen_chars drv i (word_of_nat m) k s1 = Some (word_of_nat n, k + length (filter (\<lambda>c. byte c = 255) bs), s')"
      "inv s'" "eof_at_end s'" "pos s' = pos s1 + int i" "drop (nat (pos s')) content = r" by auto
  have "n < 2 ^ (7 * w)" "w \<le> 8" using assms(4) unfolding vint_ok_def by linarith+
  moreover have "(2 :: nat) ^ (7 * w) \<le> 2 ^ 56" using calculation(2) by (intro power_increasing) simp_all
  ultimately have "n < 2 ^ 56" by simp
  then have "n div 2 ^ 63 = 0" by simp
  then have "\<not> bit (word_of_nat n :: 64 word) 63" by (simp add: bit_of_nat_iff bit_iff_odd [of n])
  then show ?thesis using s1 s' v(1,2,6,7,9) by (intro exI [of _ s']) (simp add: ebml_read_length_def k_def)
qed

lemma element_ahead:
  assumes "inv s" and "eof_at_end s" and "drop (nat (pos s)) content = vint_bytes w (length (items_bytes its)) @ items_bytes its @ r"
    and "vint_ok w (length (items_bytes its))" and "conforms 8 d its" and "its \<noteq> []" and "length (items_bytes its) \<le> 1000000000"
  shows "\<exists>s'. ebml_read_element junk widen drv b s d =
       Some (0, Some (struct_of 8 widen d its), False, int w + int (length (items_bytes its)), s') \<and>
     inv s' \<and> eof_at_end s' \<and> pos s' = pos s + int w + int (length (items_bytes its))"
proof -
  let ?bs = "items_bytes its"
  from length_ahead [OF assms(1-4)] obtain s1 where s1: "ebml_read_length drv s = Some (word_of_nat (length ?bs), Some (int w), s1)"
    "inv s1" "eof_at_end s1" "pos s1 = pos s + int w" "drop (nat (pos s1)) content = ?bs @ r" by blast
  have ne: "?bs \<noteq> []"
  proof -
    obtain it its' where "its = it # its'" using assms(6) by (cases its) auto
    moreover have "item_bytes it \<noteq> []" using id_width_bounds(1) by (cases it) (metis append_is_Nil_conv item_bytes.simps length_id list.size(3) not_one_le_zero)
    ultimately show ?thesis by simp
  qed
  have "nat (pos s1) < length content" using s1(5) ne by (metis append_is_Nil_conv drop_eq_Nil2 leI)
  then have "pos s1 < int (length content)" using inv_nonneg [OF s1(2)] by linarith
  then have eof: "\<not> s_eof (st_of s1)" using s1(3) by (simp add: eof_at_end_def)
  have u: "unat (word_of_nat (length ?bs) :: 64 word) = length ?bs" "uint (word_of_nat (length ?bs) :: 64 word) = int (length ?bs)"
    using assms(7) by (simp_all add: unat_of_nat unsigned_of_nat take_bit_nat_eq_self)
  have small: "\<not> 1000000000 < (word_of_nat (length ?bs) :: 64 word)" using assms(7) u(2) by (simp add: word_less_def)
  from read_returns [OF s1(2), of "int (length ?bs)"] obtain rd s2 where r: "stream_read drv s1 (int (length ?bs)) = Some (rd, s2)" by auto
  note ok = read_ok [OF s1(2) r] and e = read_eof [OF s1(2,3) r]
  have rd: "rd = ?bs" using ok s1(5) by simp
  let ?mem = "?bs @ map junk [length ?bs..<length ?bs + 8]"
  have "drop (nat 0) ?mem = items_bytes its @ map junk [length ?bs..<length ?bs + 8]" by simp
  from ebml_parse_read [OF assms(5) _ this, of widen False]
  have "ebml_parse_element 8 widen ?mem d 0 (int (length ?bs)) False = Some (struct_of 8 widen d its, False)" by simp
  then have "ebml_read_element junk widen drv b s d = Some (0, Some (struct_of 8 widen d its), False, int w + int (length ?bs), s2)"
    using s1(1) eof small u r rd by (simp add: ebml_read_element_def Let_def)
  then show ?thesis using ok e s1(4) rd by auto
qed

end

text \<open>
  C11: What a writer of Matroska wrote is read back: a file that has an element with its length,
  whose subelements follow a description of at most eight levels, in any order and with
  elements the description does not name in between, is read through the buffer of the stream
  into the structure that has the values of every field in their order, without an error, and
  the stream is left behind the element.
\<close>

theorem ebml_file_roundtrip:
  assumes "\<forall>r\<in>set (f_reads f). 0 < r" and "f_off f = 0"
    and "f_data f = vint_bytes w (length (items_bytes its)) @ items_bytes its @ behind"
    and "vint_ok w (length (items_bytes its))" and "conforms 8 d its" and "its \<noteq> []" and "length (items_bytes its) \<le> 1000000000"
  shows "\<exists>s. ebml_read_element junk widen file_driver b (no_cache (open_file f)) d =
       Some (0, Some (struct_of 8 widen d its), False, int w + int (length (items_bytes its)), s) \<and>
     stream_tell (st_of s) = int w + int (length (items_bytes its))"
proof -
  have s: "fsource.plain_inv (f_data f) (no_cache (open_file f))" by (rule no_cache_inv [OF assms(1,2)])
  have t: "stream_tell (st_of (no_cache (open_file f))) = 0" by (simp add: no_cache_def open_file_tell)
  have e: "fsource.plain.eof_at_end (f_data f) (no_cache (open_file f))"
    by (simp add: fsource.plain.eof_at_end_def no_cache_def open_file_def new_stream_def)
  have d: "drop (nat (stream_tell (st_of (no_cache (open_file f))))) (f_data f) =
      vint_bytes w (length (items_bytes its)) @ items_bytes its @ behind" using assms(3) t by simp
  from fsource.steady.element_ahead [OF s e d assms(4-7), of junk widen b] t show ?thesis by auto
qed

text \<open>An element of Matroska's seek table: an identifier, a position, and one element that is not known.\<close>

definition ex_seek :: ebml_elem_desc where
  "ex_seek =
     Elem_desc ''seek'' EBML_TYPE_SUBELEMENTS 32
       [Field_desc 0x53AB False (Elem_desc ''seek_id'' EBML_TYPE_EBML_ID 4 []), Field_desc 0x53AC False (Elem_desc ''seek_position'' EBML_TYPE_UINT 8 [])]"

definition ex_seek_head :: ebml_elem_desc where
  "ex_seek_head = Elem_desc ''seek_head'' EBML_TYPE_SUBELEMENTS 16 [Field_desc 0x4DBB True ex_seek]"

definition ex_items :: "ebml_item list" where
  "ex_items =
     [Item 0x4DBB 1 (C_sub [Item 0x53AC 2 (C_uint 2 0x1234), Item 0x53AB 1 (C_id 0x1549A966)]),
      Item 0xEC 1 (C_other ''xy''), Item 0x4DBB 1 (C_sub [Item 0x53AB 1 (C_id 0xAE)])]"

definition ex_element :: file_state where
  "ex_element = \<lparr>f_data = vint_bytes 1 (length (items_bytes ex_items)) @ items_bytes ex_items @ ''end'', f_off = 0, f_reads = [3, 1], f_writes = []\<rparr>"

lemma ex_items_fit: "conforms (Suc (Suc n)) ex_seek_head ex_items"
  by (simp add: ex_items_def ex_seek_head_def ex_seek_def id_ok_def id_width_def vint_ok_def counts_ok_def field_count_def leaf_ok_def)

lemma ex_items_ok: "conforms 8 ex_seek_head ex_items" "length (items_bytes ex_items) = 27"
proof -
  show "conforms 8 ex_seek_head ex_items" using ex_items_fit [of 6] by simp
  show "length (items_bytes ex_items) = 27" by (simp add: ex_items_def id_width_def)
qed

lemma ex_items_struct:
  "struct_of (Suc (Suc n)) (\<lambda>_. 0) ex_seek_head ex_items = [[Ebml_sub [[Ebml_id 0x1549A966], [Ebml_uint 0x1234]], Ebml_sub [[Ebml_id 0xAE], []]]]"
  by (simp add: ex_items_def ex_seek_head_def ex_seek_def leaf_value_def)

theorem ebml_file_roundtrip_witness:
  "\<exists>s. ebml_read_element (\<lambda>_. CHR ''?'') (\<lambda>_. 0) file_driver 0 (no_cache (open_file ex_element)) ex_seek_head =
       Some (0, Some [[Ebml_sub [[Ebml_id 0x1549A966], [Ebml_uint 0x1234]], Ebml_sub [[Ebml_id 0xAE], []]]], False, 28, s) \<and>
     stream_tell (st_of s) = 28"
proof -
  have st: "struct_of 8 (\<lambda>_. 0) ex_seek_head ex_items = [[Ebml_sub [[Ebml_id 0x1549A966], [Ebml_uint 0x1234]], Ebml_sub [[Ebml_id 0xAE], []]]]"
    using ex_items_struct [of 6] by simp
  have v: "vint_ok 1 (length (items_bytes ex_items))" "ex_items \<noteq> []" "length (items_bytes ex_items) \<le> 1000000000"
    unfolding ex_items_ok(2) by (simp_all add: vint_ok_def ex_items_def)
  have f: "\<forall>r\<in>set (f_reads ex_element). 0 < r" "f_off ex_element = 0"
    "f_data ex_element = vint_bytes 1 (length (items_bytes ex_items)) @ items_bytes ex_items @ ''end''" by (simp_all add: ex_element_def)
  from ebml_file_roundtrip [OF f v(1) ex_items_ok(1) v(2,3), of "\<lambda>_. CHR ''?''" "\<lambda>_. 0" 0] show ?thesis
    unfolding st ex_items_ok(2) by simp
qed

end
