(* ===== verification/Url.thy ===== *)
theory Url
  imports Bstr "HOL-Library.Monad_Syntax"
begin

text \<open>
  URLs (\<open>stream/url.c\<close>). C strings are lists of characters without the terminator; pointers
  into a string are positions. \<open>None\<close> outside is an access outside the string parsed. Memory
  does not run out.
\<close>

subsection \<open>Strings\<close>

text \<open>The characters of a buffer up to the terminator, and \<open>strstr\<close> as a position.\<close>

definition c_cut :: "string \<Rightarrow> string" where
  "c_cut s = takeWhile (\<lambda>c. c \<noteq> NUL) s"

fun c_strstr :: "string \<Rightarrow> string \<Rightarrow> nat option" where
  "c_strstr [] p = (if p = [] then Some 0 else None)"
| "c_strstr (c # cs) p = (if prefix p (c # cs) then Some 0 else map_option Suc (c_strstr cs p))"

text \<open>\<open>strstr\<close> from a position on.\<close>

definition find_at :: "string \<Rightarrow> nat \<Rightarrow> string \<Rightarrow> nat option" where
  "find_at s i p = map_option (\<lambda>k. i + k) (c_strstr (drop i s) p)"

subsection \<open>Escape sequences\<close>

abbreviation is_hex :: "char \<Rightarrow> bool" where "is_hex \<equiv> is_digit_in 16"

definition hex_byte :: "char \<Rightarrow> char \<Rightarrow> char" where
  "hex_byte a b = char_of (16 * the (digit_val a) + the (digit_val b))"

fun url_unescape_string :: "string \<Rightarrow> string" where
  "url_unescape_string [] = []"
| "url_unescape_string (c # cs) =
     (case cs of
        a # b # r \<Rightarrow> if c = CHR ''%'' \<and> is_hex a \<and> is_hex b then hex_byte a b # url_unescape_string r else c # url_unescape_string cs
      | _ \<Rightarrow> c # url_unescape_string cs)"

definition is_alnum :: "char \<Rightarrow> bool" where
  "is_alnum c \<longleftrightarrow> (let b = byte c in 65 \<le> b \<and> b \<le> 90 \<or> 97 \<le> b \<and> b \<le> 122 \<or> 48 \<le> b \<and> b \<le> 57)"

definition hex_char :: "nat \<Rightarrow> char" where
  "hex_char n = char_of (if n < 10 then n + 48 else n + 55)"

definition starts_escape :: "string \<Rightarrow> bool" where
  "starts_escape s = (case s of c # a # b # _ \<Rightarrow> c = CHR ''%'' \<and> is_hex a \<and> is_hex b | _ \<Rightarrow> False)"

fun url_escape_string_part :: "string \<Rightarrow> string" where
  "url_escape_string_part [] = []"
| "url_escape_string_part (c # cs) =
     (if is_alnum c \<or> starts_escape (c # cs) then c # url_escape_string_part cs
      else CHR ''%'' # hex_char (byte c div 16) # hex_char (byte c mod 16) # url_escape_string_part cs)"

text \<open>Marks and reserved characters, which are copied.\<close>

definition kept_char :: "char \<Rightarrow> bool" where
  "kept_char c \<longleftrightarrow> c \<in> set ''-_.!~*'' \<or> byte c = 39 \<or> c \<in> set ''();/?:@&=+$,''"

function escape_loop :: "string \<Rightarrow> string" where
  "escape_loop [] = []"
| "escape_loop (c # cs) =
     (if kept_char c then c # escape_loop cs
      else url_escape_string_part (c_cut (url_unescape_string (takeWhile (Not \<circ> kept_char) (c # cs)))) @
           escape_loop (dropWhile (Not \<circ> kept_char) (c # cs)))"
  by pat_completeness auto
termination
  by (relation "measure length") (auto simp: comp_def intro: le_less_trans [OF length_dropWhile_le])

text \<open>How much is copied first: up to the end of a numeric address of IPv6.\<close>

definition ip6_end :: "string \<Rightarrow> nat" where
  "ip6_end s =
     (case c_strstr s ''://['' of
        None \<Rightarrow> 0
      | Some i \<Rightarrow>
          (case find_at s (i + 4) '']'' of
             None \<Rightarrow> 0
           | Some j \<Rightarrow> (case drop (j + 1) s of [] \<Rightarrow> j + 1 | c # _ \<Rightarrow> if c = CHR ''/'' \<or> c = CHR '':'' then j + 1 else 0)))"

definition url_escape_string :: "string \<Rightarrow> string" where
  "url_escape_string s = take (ip6_end s) s @ escape_loop (drop (ip6_end s) s)"

subsection \<open>Parsing\<close>

record url =
  u_url :: string
  u_noauth_url :: string
  u_protocol :: string
  u_hostname :: string
  u_file :: string
  u_port :: "32 word"
  u_username :: "string option"
  u_password :: "string option"

definition make_noauth_url :: "string \<Rightarrow> string \<Rightarrow> 32 word \<Rightarrow> string \<Rightarrow> string" where
  "make_noauth_url protocol hostname port f =
     (if port \<noteq> 0 then protocol @ ''://'' @ hostname @ '':'' @ c_print_int (sint port) @ f else protocol @ ''://'' @ hostname @ f)"

definition make_http_proxy_url :: "url \<Rightarrow> string \<Rightarrow> string" where
  "make_http_proxy_url proxy host_url =
     ''http_proxy://'' @
     (case u_username proxy of
        Some name \<Rightarrow> name @ '':'' @ (case u_password proxy of None \<Rightarrow> [] | Some pw \<Rightarrow> pw) @ ''@''
      | None \<Rightarrow> []) @
     u_hostname proxy @ '':'' @ c_print_int (sint (u_port proxy)) @ ''/'' @ host_url"

text \<open>User name and password from the position \<open>p\<close> on, and the position behind them.\<close>

definition parse_auth :: "string \<Rightarrow> nat \<Rightarrow> string option \<times> string option \<times> nat" where
  "parse_auth s p =
     (case (find_at s p ''@'', find_at s p ''/'') of
        (None, _) \<Rightarrow> (None, None, p)
      | (Some at, slash) \<Rightarrow>
          if (case slash of None \<Rightarrow> False | Some q \<Rightarrow> q < at) then (None, None, p)
          else (let part = (\<lambda>a b. c_cut (url_unescape_string (take (b - a) (drop a s))))
                in case find_at s p '':'' of
                     Some colon \<Rightarrow>
                       if colon < at then (Some (part p colon), Some (part (colon + 1) at), at + 1) else (Some (part p at), None, at + 1)
                   | None \<Rightarrow> (Some (part p at), None, at + 1)))"

text \<open>Whether there is a numeric address of IPv6: the position of the closing bracket.\<close>

definition ip6_bracket :: "string \<Rightarrow> nat \<Rightarrow> nat option" where
  "ip6_bracket s p =
     (case (find_at s p ''['', find_at s p '']'', find_at s p ''/'') of
        (Some a, Some b, slash) \<Rightarrow> if a < b \<and> (case slash of None \<Rightarrow> True | Some q \<Rightarrow> b < q) then Some b else None
      | _ \<Rightarrow> None)"

text \<open>Host name, port and file from the position \<open>p\<close> on.\<close>

definition parse_host :: "string \<Rightarrow> nat \<Rightarrow> (string \<times> 32 word \<times> string) option" where
  "parse_host s p =
     (let v6 = ip6_bracket s p;
          p1 = (if v6 = None then p else p + 1);
          slash = find_at s p1 ''/'';
          colon = (case find_at s (case v6 of None \<Rightarrow> p1 | Some b \<Rightarrow> b) '':'' of
                     None \<Rightarrow> None
                   | Some q \<Rightarrow> if (case slash of None \<Rightarrow> False | Some r \<Rightarrow> r < q) then None else Some q);
          port = (case colon of None \<Rightarrow> 0 | Some q \<Rightarrow> word_of_int (c_int (fst (c_strtoll 10 (drop (q + 1) s)))));
          p2 = (case colon of Some q \<Rightarrow> q | None \<Rightarrow> (case slash of Some r \<Rightarrow> r | None \<Rightarrow> length s));
          p2 = (if v6 = None then p2 else p2 - 1);
          f = (case slash of Some r \<Rightarrow> if 1 < length (drop r s) then drop r s else ''/'' | None \<Rightarrow> ''/'')
      in if p2 < p1 then None else Some (take (p2 - p1) (drop p1 s), port, f))"

text \<open>
  \<open>None\<close> inside is no URL. For \<open>sip:\<close> without slashes the code takes the distance between two
  buffers, which is undefined.
\<close>

definition url_new :: "string \<Rightarrow> url option option" where
  "url_new u =
     (let s = url_escape_string u
      in case c_strstr s ''://'' of
           None \<Rightarrow> if prefix ''sip:'' s then None else Some None
         | Some p \<Rightarrow>
             (let (username, password, q) = parse_auth s (p + 3)
              in do {
                (hostname, port, f) \<leftarrow> parse_host s q;
                Some (Some \<lparr>u_url = s, u_noauth_url = make_noauth_url (take p s) hostname port f, u_protocol = take p s, u_hostname = hostname,
                            u_file = f, u_port = port, u_username = username, u_password = password\<rparr>) }))"

definition c_strrchr :: "string \<Rightarrow> char \<Rightarrow> nat option" where
  "c_strrchr s c = (if c \<in> set s then Some (length s - 1 - first_index (\<lambda>x. x = c) (rev s)) else None)"

text \<open>A location that has no slash, or begins with one, is relative to the URL redirected.\<close>

definition redirected :: "string \<Rightarrow> string \<Rightarrow> string" where
  "redirected u redir =
     (if CHR ''/'' \<notin> set redir \<or> prefix ''/'' redir
      then (let (redir, tmp) =
                  (if prefix ''/'' redir then (tl redir, case c_strstr u ''://'' of None \<Rightarrow> None | Some i \<Rightarrow> find_at u (i + 3) ''/'')
                   else (redir, c_strrchr u (CHR ''/'')))
            in (case tmp of None \<Rightarrow> u | Some i \<Rightarrow> take (i + 1) u) @ redir)
      else redir)"

definition url_redirect :: "url \<Rightarrow> string \<Rightarrow> url option option" where
  "url_redirect u redir = url_new (redirected (u_url u) redir)"

end
