(* ===== verification/Spec2Isabelle.thy ===== *)
theory Spec2Isabelle
  imports Mp_Fifo Cmd_Fd Config_Check Cmd_Line_Spec Demux_File H264_Sps Video_Frames Audio_Hdr Ebml_Spec Url_Spec
begin

text \<open>
  This development models the control core of the player: how key presses and command text
  become commands (\<open>input/\<close>, \<open>mp_fifo.c\<close>), and how options are parsed, stacked and read
  from files (\<open>m_option.c\<close>, \<open>m_config.c\<close>, \<open>parser-cfg.c\<close>), over the counted strings both
  use (\<open>bstr.c\<close>); the playlist tree (\<open>playtree.c\<close>), whose entries set options while they
  are played; the streams files are read through, with their cache, and URLs (\<open>stream/\<close>); and the
  core of the demuxers, which cut streams into packets, with the parsers of headers and
  elements they use (\<open>libmpdemux/\<close>).

  How the parts work together. Drivers and descriptors feed key codes and text into the
  input context. A key code goes through the fifo (\<open>mplayer_put_key\<close>), which adds
  double clicks, to \<open>mp_input_feed_key\<close>, which keeps the held keys, finds the command bound
  to them, parses it, and queues it; text from descriptors is cut into lines by
  \<open>read_cmd\<close>, parsed by the same parser and queued. \<open>mp_input_get_cmd\<close> reads all sources,
  adds autorepeat and takes a command from the queues. Options are set by name in the
  configuration: from the command line, from files, from profiles and from the playlist,
  which pushes a level before an entry's options and pops it afterwards. The entry's file is
  opened as a stream, from which a demuxer makes packets; decoders take bytes, packets or
  whole frames from the queues of the demuxer, which calls its fill function when a queue
  is empty, and that reads from the stream, which reads from the driver or the cache.

  Theories, in the order they build on each other:

    \<^item> \<open>MP_Prelude\<close>: C library functions the sources call (\<open>strtoll\<close>, \<open>tolower\<close>,
      \<open>memcmp\<close>, number printing), generic list lemmas.
    \<^item> \<open>Bstr\<close> (\<open>bstr.c\<close>, \<open>bstr.h\<close>): counted strings as character lists; comparison,
      search, splitting, numbers, UTF-8. Lemmas: order properties of comparison, lines as a
      partition, UTF-8 round trip.
    \<^item> \<open>Key_Codes\<close>, \<open>Key_Names\<close> (\<open>input/keycodes.h\<close>, \<open>input/input.c\<close>): the codes and the
      name tables, printing and parsing of keys and combinations; round trips.
    \<^item> \<open>Cmd_Table\<close>, \<open>Cmd_Parse\<close> (\<open>input/input.h\<close>, \<open>input/input.c\<close>): the command table and
      \<open>mp_input_parse_cmd\<close>; well-formedness of what it returns, print/parse round trip.
    \<^item> \<open>Cmd_Queue\<close>: \<open>queue_add\<close> and \<open>queue_pop\<close> on linked cells, shown to implement a list
      (locale \<open>command_queue\<close>, interpreted on the cells and on the list).
    \<^item> \<open>Binds\<close>: sections, bindings and the configuration of keys (locale \<open>keymap\<close>).
    \<^item> \<open>Key_State\<close>: \<open>interpret_key\<close>, \<open>mp_input_feed_key\<close>, autorepeat and
      \<open>mp_input_get_cmd\<close> behind the reading of events, as a step relation with its reachable
      states and their invariant.
    \<^item> \<open>Mp_Fifo\<close>, \<open>Cmd_Fd\<close>: the fifo, and the descriptors with the reassembly of lines and
      the rounds of \<open>read_events\<close> over lists of outcomes.
    \<^item> \<open>M_Option\<close> (\<open>m_option.c\<close>): the option types with their parsers and printers; round
      trips.
    \<^item> \<open>M_Config\<close> (\<open>m_config.c\<close>): registration, lookup, levels, setting and checking,
      suboptions, profiles. Variables are a store from addresses to values.
    \<^item> \<open>Config_Stack\<close>: what setting an option leaves alone (locale \<open>config_change\<close>), and the
      levels as a store with a stack of saved values (locale \<open>scoped_store\<close>, interpreted on
      push, pop and set).
    \<^item> \<open>Config_Check\<close>: checking against setting, the nesting of profiles, error behaviour.
    \<^item> \<open>Parser_Cfg\<close> (\<open>parser-cfg.c\<close>): configuration files, with \<open>cfg_include\<close> of
      \<open>mplayer.c\<close> as the include function.
    \<^item> \<open>PlayTree\<close>, \<open>PlayTree_Iter\<close> (\<open>playtree.c\<close>): the tree of playlist entries as a heap of
      linked nodes, its operations, and the iterator, which pushes and pops the configuration
      levels of the entries it visits; the levels stay balanced, and every file of a playlist
      is played once, in order, with the options of its entry and of the nodes above it.
    \<^item> \<open>Cmd_Line\<close>, \<open>Cmd_Line_Spec\<close> (\<open>parser-mpcmd.c\<close>): the command line, which sets global options
      and builds the tree; the tree is what the arguments say, and its files are played in
      order, each with its own options and those of its groups.
    \<^item> \<open>Stream_Source\<close> (\<open>stream/stream.c\<close>): reading and seeking over the function pointers of a
      driver, and the locale \<open>source\<close> of what a driver of a seekable source promises.
    \<^item> \<open>Cache2\<close>, \<open>Cache_Inv\<close> (\<open>stream/cache2.c\<close>): the ring buffer, its filler and its reader,
      and the invariant they keep in every order of calls of the filler and the reader (a call
      of the filler is one step, so races inside one call are outside the model).
    \<^item> \<open>Stream\<close>, \<open>Stream_Spec\<close> (\<open>stream/stream.h\<close>): the reading functions, with or without a
      cache, and the file with a position they implement (locales \<open>byte_source\<close> and
      \<open>live_source\<close>, of which a \<open>source\<close> is one in two ways).
    \<^item> \<open>Stream_File\<close> (\<open>stream/stream_file.c\<close>): the driver for files and pipes, an
      interpretation of \<open>source\<close>, and the resulting theorems.
    \<^item> \<open>Url\<close>, \<open>Url_Spec\<close> (\<open>stream/url.c\<close>): escaping, parsing, printing and redirection of
      URLs; a URL written from its parts is taken apart into them, and escaping keeps the meaning
      (the texts and addresses for which the code does not do so are lemmas at the end).
    \<^item> \<open>Demux_Packet\<close>, \<open>Demux_Stream\<close>, \<open>Demuxer\<close> (\<open>demuxer.c\<close>, \<open>demuxer.h\<close>): packets and the
      references to them; packet queues and the functions decoders read with; tracks,
      chapters, attachments and the opening of a demuxer.
    \<^item> \<open>Demux_Spec\<close>: what a fill function promises (locale \<open>demux_source\<close> and its extensions) and
      what reading through the queues then gives.
    \<^item> \<open>Demux_Raw\<close>, \<open>Demux_File\<close> (\<open>demux_rawaudio.c\<close>, \<open>demux_rawvideo.c\<close>): the raw demuxers,
      interpretations of these locales over any stream, and over files.
    \<^item> \<open>Parse_ES\<close>, \<open>Demux_ES\<close> (\<open>parse_es.c\<close>, \<open>demux_mpg.c\<close>): units between start codes, and the
      demuxer of elementary streams.
    \<^item> \<open>Mpeg_Hdr\<close>, \<open>Mpeg_Hdr_Spec\<close>, \<open>H264_Sps\<close> (\<open>mpeg_hdr.c\<close>): headers of MPEG-1/2, MPEG-4, H.264
      and VC-1; encoders of headers and their round trips.
    \<^item> \<open>Video\<close>, \<open>Video_Frames\<close> (\<open>video.c\<close>): headers at the beginning of a stream, frames from
      units; the frames of a file, from the demuxer down to the file.
    \<^item> \<open>Audio_Hdr\<close> (\<open>mp3_hdr.c\<close>, \<open>mp3_hdr.h\<close>, \<open>parse_es.c\<close>): frame headers of MPEG audio and AC-3,
      with the bounds of the sizes they give.
    \<^item> \<open>Ebml\<close>, \<open>Ebml_Spec\<close> (\<open>ebml.c\<close>): the elements of Matroska files; parsing stays inside the
      element, and files of an encoder are read back.

  Conventions. A C string is a list of characters without the terminator; where the code
  looks at the terminator the model says so. \<open>int\<close> values are integers, wrapped by
  \<open>c_int\<close> where the code narrows them; times are 32-bit words. A result \<open>None\<close> is a write
  behind an array, a failed assertion or an abort, as the theory says; error codes are the
  negative integers of the source.

  Fuel. \<open>set_profile_lv\<close> takes the nesting of profiles it may go through; 22 levels are
  enough because the code stops at depth 20 (\<open>profile_application_ends\<close>). \<open>cfg_file\<close> takes the
  nesting of included files: no number is enough for a file that includes itself
  (\<open>self_include_diverges\<close>). \<open>show_profile\<close> takes a number of steps, for the same reason.
  \<open>play_tree_iter_step\<close> takes the number of nested steps: every large enough number gives the
  same result, and \<open>playlist_plays_all_files\<close> shows that there is one. A schedule bounds the rounds of
  the reader of the cache, and \<open>cached_stream_live\<close> shows that enough rounds suffice. The
  loops of the streams are partial functions, total on sources that keep their promises.
  The loops along the links of the playlist tree are partial functions, undefined on cyclic links.
  The loops that fill packet queues and collect units are partial functions too; they are shown
  to return for demuxers that come to an end (locale \<open>es_source\<close>). \<open>ebml_parse_element\<close> takes the
  levels left of the 8 the code allows; a description nested less deep never runs out of them.
  All other loops are total functions with their termination proved.

  Parameters. \<open>atof\<close>, the operations on floating-point numbers, which are kept as words, and
  the bytes of memory nobody has written are arguments of the definitions that use them, as are
  the list of demuxers and the control functions of demuxers that are not modelled.

  Not modelled. Drivers and descriptors themselves, reading files, the message output and
  the memory management (\<open>talloc\<close>) are I/O or have no effect on the values modelled. Of the
  options, floating-point and time values, object settings, presets and URLs are not
  modelled. Of the streams, the drivers other than that for files, opening by URL and the
  controls of the cache are not modelled; the filler of the cache is atomic with respect to
  the steps of the reader. Of the demuxer core, the parser of libavcodec, seeking by time and
  demuxers over several files are not modelled; of \<open>video_read_frame\<close>, the clocks after the
  frame has been read and closed captions. The other demuxers, codecs, filters, video and
  audio output, subtitles and the playback loop are not modelled; most of them are glue
  around libraries and devices, or kernels in floating point and assembly.
\<close>

end
